(* ===== verification/Xc_Prelude.thy ===== *)
theory Xc_Prelude
  imports Main "HOL-Library.Word" "HOL-Library.Multiset"
begin

unbundle bit_operations_syntax

text \<open>
  Shared vocabulary of the development: the kernel's integer types
  (\<^verbatim>\<open>include/Xc/types.h\<close>, built for i386, so \<^verbatim>\<open>unsigned long\<close> is 32 bits
  and \<^verbatim>\<open>phys_addr_t\<close> is 64 bits), the collections of rewrite rules the component
  theories feed, and the generic facts on lists, words and intervals they share.
  A C identifier that starts with two underscores is written with the prefix
  \<open>uu_\<close>, one with three underscores with the prefix \<open>uuu_\<close>.
\<close>

section \<open>Integer types\<close>

type_synonym u8 = "8 word"
type_synonym u16 = "16 word"
type_synonym u32 = "32 word"
type_synonym u64 = "64 word"
type_synonym ulong = "32 word"
type_synonym phys_addr_t = "64 word"

section \<open>Rule collections\<close>

named_theorems xc_defs \<open>unfoldings of small non-recursive operations\<close>
named_theorems word_nat \<open>reading machine words as natural numbers\<close>

section \<open>Words read as natural numbers\<close>

lemma unat_add_no_wrap:
  fixes a b :: "'a::len word"
  assumes "unat a + unat b < 2 ^ LENGTH('a)"
  shows "unat (a + b) = unat a + unat b"
  using assms by (simp add: unat_word_ariths)

lemma unat_sub_le:
  fixes a b :: "'a::len word"
  assumes "b \<le> a"
  shows "unat (a - b) = unat a - unat b"
  using assms by (simp add: unat_sub)

lemma word_less_unat [word_nat]: "(a::'a::len word) < b \<longleftrightarrow> unat a < unat b"
  by (rule word_less_nat_alt)

lemma word_le_unat [word_nat]: "(a::'a::len word) \<le> b \<longleftrightarrow> unat a \<le> unat b"
  by (rule word_le_nat_alt)

lemma word_eq_unat: "(a::'a::len word) = b \<longleftrightarrow> unat a = unat b"
  by (rule word_unat_eq_iff)

lemma unat_bound: "unat (w::'a::len word) < 2 ^ LENGTH('a)"
  by (rule unsigned_less)

lemma unat_add_ge:
  fixes x y :: "'a::len word"
  assumes "x \<le> x + y"
  shows "unat (x + y) = unat x + unat y"
proof (rule ccontr)
  let ?m = "2 ^ LENGTH('a) :: nat"
  assume "\<not> ?thesis"
  then have ge: "?m \<le> unat x + unat y" using unat_add_no_wrap [of x y] by linarith
  have "unat (x + y) = (unat x + unat y) mod ?m" by (simp add: unat_word_ariths)
  also have "\<dots> = (unat x + unat y - ?m) mod ?m" using ge by (rule le_mod_geq)
  also have "\<dots> = unat x + unat y - ?m"
    by (rule mod_less) (use ge unat_bound [of x] unat_bound [of y] in linarith)
  finally show False
    using assms unat_bound [of y] ge unfolding word_le_nat_alt by linarith
qed

lemma unat_max: "unat (max a (b::'a::len word)) = max (unat a) (unat b)"
  by (simp add: max_def word_nat)

lemma unat_min: "unat (min a (b::'a::len word)) = min (unat a) (unat b)"
  by (simp add: min_def word_nat)

section \<open>List updates\<close>

lemma nth_swap:
  assumes "i < length xs" "j < length xs" "k < length xs"
  shows "xs[i := xs ! j, j := xs ! i] ! k
    = (if k = j then xs ! i else if k = i then xs ! j else xs ! k)"
  using assms by (auto simp: nth_list_update)

section \<open>Counting the elements of a list with a property\<close>

definition count_if :: "('a \<Rightarrow> bool) \<Rightarrow> 'a list \<Rightarrow> nat" where
  "count_if P xs = length (filter P xs)"

lemma count_if_Nil [simp]: "count_if P [] = 0"
  and count_if_Cons [simp]: "count_if P (x # xs) = (if P x then 1 else 0) + count_if P xs"
  and count_if_append [simp]: "count_if P (xs @ ys) = count_if P xs + count_if P ys"
  by (simp_all add: count_if_def)

lemma count_if_update:
  "j < length xs \<Longrightarrow>
   count_if P (xs[j := x]) + (if P (xs ! j) then 1 else 0) = count_if P xs + (if P x then 1 else 0)"
  by (subst (3) id_take_nth_drop [of j xs]) (simp_all add: upd_conv_take_nth_drop)

lemma count_if_update_same:
  assumes "j < length xs" "P x = P (xs ! j)"
  shows "count_if P (xs[j := x]) = count_if P xs"
  using count_if_update [OF assms(1), of P x] assms(2) by simp

lemma count_if_mset: "mset xs = mset ys \<Longrightarrow> count_if P xs = count_if P ys"
  unfolding count_if_def by (metis mset_filter size_mset)

lemma count_if_pos: "0 < count_if P xs \<longleftrightarrow> (\<exists>i < length xs. P (xs ! i))"
  by (simp add: count_if_def filter_empty_conv all_set_conv_all_nth)

lemma count_if_0: "count_if P xs = 0 \<longleftrightarrow> (\<forall>i < length xs. \<not> P (xs ! i))"
  using count_if_pos [of P xs] by auto

lemma count_if_le_1:
  "count_if P xs \<le> 1 \<longleftrightarrow>
   (\<forall>i < length xs. \<forall>j < length xs. P (xs ! i) \<longrightarrow> P (xs ! j) \<longrightarrow> i = j)"
  (is "?l = ?r")
proof -
  have len: "count_if P xs = card {i. i < length xs \<and> P (xs ! i)}"
    by (simp add: count_if_def length_filter_conv_card)
  have "card {i. i < length xs \<and> P (xs ! i)} \<le> 1 \<longleftrightarrow>
    (\<forall>i\<in>{i. i < length xs \<and> P (xs ! i)}. \<forall>j\<in>{i. i < length xs \<and> P (xs ! i)}. i = j)"
    using card_le_Suc0_iff_eq [of "{i. i < length xs \<and> P (xs ! i)}"] by simp
  then show ?thesis unfolding len by blast
qed

end
