(* ===== verification/Kernel_Util.thy ===== *)
theory Kernel_Util
  imports Xc_Prelude
begin

text \<open>
  The arithmetic macros and bit searches every component uses:
  \<^verbatim>\<open>include/Xc/kernel.h\<close> (rounding, alignment, \<open>get_order\<close>, \<open>ilog2\<close>),
  \<^verbatim>\<open>include/Xc/pfn.h\<close>, \<^verbatim>\<open>include/asm/page_types.h\<close> and the bit searches of
  \<^verbatim>\<open>include/Xc/bitops.h\<close>. The macros are polymorphic in C, so are these
  definitions in the width of the word.
\<close>

section \<open>Page geometry\<close>

definition PAGE_SHIFT :: nat where "PAGE_SHIFT = 12"

definition PAGE_SIZE :: "'a::len word" where "PAGE_SIZE = push_bit PAGE_SHIFT 1"

definition PFN_PHYS :: "'a::len word \<Rightarrow> phys_addr_t" where
  "PFN_PHYS x = push_bit PAGE_SHIFT (ucast x)"

definition PFN_DOWN :: "'a::len word \<Rightarrow> 'a word" where
  "PFN_DOWN x = drop_bit PAGE_SHIFT x"

definition PFN_UP :: "'a::len word \<Rightarrow> 'a word" where
  "PFN_UP x = drop_bit PAGE_SHIFT (x + PAGE_SIZE - 1)"

section \<open>Rounding and alignment\<close>

definition uu_round_mask :: "'a::len word \<Rightarrow> 'a word" where
  "uu_round_mask y = y - 1"

definition round_up :: "'a::len word \<Rightarrow> 'a word \<Rightarrow> 'a word" where
  "round_up x y = ((x - 1) OR uu_round_mask y) + 1"

definition round_down :: "'a::len word \<Rightarrow> 'a word \<Rightarrow> 'a word" where
  "round_down x y = x AND NOT (uu_round_mask y)"

definition DIV_ROUND_UP :: "'a::len word \<Rightarrow> 'a word \<Rightarrow> 'a word" where
  "DIV_ROUND_UP n d = (n + d - 1) div d"

definition roundup :: "'a::len word \<Rightarrow> 'a word \<Rightarrow> 'a word" where
  "roundup x y = ((x + (y - 1)) div y) * y"

definition ALIGN :: "'a::len word \<Rightarrow> 'a word \<Rightarrow> 'a word" where
  "ALIGN x a = (x + (a - 1)) AND NOT (a - 1)"

section \<open>Bit searches\<close>

text \<open>
  \<open>bsr\<close> and \<open>bsf\<close> are the x86 instructions the inline assembly of
  \<^verbatim>\<open>fls\<close> and \<^verbatim>\<open>ffz\<close> issues: the index of the highest and of the lowest
  set bit. \<^verbatim>\<open>fls\<close> selects \<open>-1\<close> with \<^verbatim>\<open>cmovzl\<close> when there is none, which
  the option type shows.
\<close>

definition bsr :: "'a::len word \<Rightarrow> nat option" where
  "bsr w = (case filter (bit w) (rev [0..<LENGTH('a)]) of [] \<Rightarrow> None | i # _ \<Rightarrow> Some i)"

definition bsf :: "'a::len word \<Rightarrow> nat option" where
  "bsf w = (case filter (bit w) [0..<LENGTH('a)] of [] \<Rightarrow> None | i # _ \<Rightarrow> Some i)"

definition fls :: "u32 \<Rightarrow> int" where
  "fls x = (case bsr x of None \<Rightarrow> - 1 | Some r \<Rightarrow> int r) + 1"

definition fls64 :: "u64 \<Rightarrow> int" where
  "fls64 x = (let h = (ucast (drop_bit 32 x) :: u32) in
     if h \<noteq> 0 then fls h + 32 else fls (ucast x))"

text \<open>\<^verbatim>\<open>sizeof(unsigned long)\<close> is 4 on this target, so \<^verbatim>\<open>fls_long\<close> takes its first branch.\<close>

definition fls_long :: "ulong \<Rightarrow> int" where
  "fls_long l = fls l"

definition ffz :: "ulong \<Rightarrow> nat option" where
  "ffz w = bsf (NOT w)"

definition uu_ilog2_u32 :: "u32 \<Rightarrow> int" where
  "uu_ilog2_u32 n = fls n - 1"

definition uu_ilog2_u64 :: "u64 \<Rightarrow> int" where
  "uu_ilog2_u64 n = fls64 n - 1"

text \<open>The constant branch of the \<^verbatim>\<open>ilog2\<close> macro tests the bits from 63 down; no bit leaves
  the undefined \<^verbatim>\<open>____ilog2_NaN\<close>. Otherwise the width selects one of the functions.\<close>

definition ilog2_const :: "u64 \<Rightarrow> nat option" where
  "ilog2_const n = (if n < 1 then None else find (\<lambda>i. n AND push_bit i 1 \<noteq> 0) (rev [0..<64]))"

definition uu_roundup_pow_of_two :: "ulong \<Rightarrow> ulong" where
  "uu_roundup_pow_of_two n = push_bit (nat (fls_long (n - 1))) 1"

text \<open>The \<^verbatim>\<open>do ... while (size)\<close> loop of \<^verbatim>\<open>get_order\<close>: shift, count, test.\<close>

function get_order_loop :: "ulong \<Rightarrow> int \<Rightarrow> int" where
  "get_order_loop sz order =
     (let sz' = drop_bit 1 sz; order' = order + 1
      in if sz' \<noteq> 0 then get_order_loop sz' order' else order')"
  by pat_completeness auto
termination
proof (relation "measure (\<lambda>(sz, order). unat sz)", goal_cases)
  case 1
  show ?case by simp
next
  case (2 sz order sz' order')
  then have "unat sz \<noteq> 0" by (auto simp: unat_eq_0)
  then show ?case using 2 by (simp add: drop_bit_eq_div unat_div)
qed

definition get_order :: "ulong \<Rightarrow> int" where
  "get_order sz = get_order_loop (drop_bit (PAGE_SHIFT - 1) (sz - 1)) (- 1)"


section \<open>Rounding to powers of two\<close>

declare get_order_loop.simps [simp del]

lemmas round_defs = round_up_def round_down_def uu_round_mask_def ALIGN_def

lemma and_not_mask_plus: "(x AND NOT (mask k)) + take_bit k x = (x::'a::len word)"
proof -
  have "(x AND NOT (mask k)) + (x AND mask k) = (x AND NOT (mask k)) OR (x AND mask k)"
    by (rule disjunctive_add_eq_or) (simp add: bit_eq_iff bit_simps)
  also have "\<dots> = x"
    by (rule bit_eqI) (auto simp: bit_simps)
  finally show ?thesis by (simp add: take_bit_eq_mask)
qed

lemma unat_take_bit_word: "unat (take_bit k (x::'a::len word)) = unat x mod 2 ^ k"
  by (simp only: unsigned_take_bit_eq take_bit_eq_mod [where 'a = nat])

lemma unat_and_not_mask:
  "unat (x AND NOT (mask k) :: 'a::len word) = unat x - unat x mod 2 ^ k"
proof -
  let ?t = "take_bit k x"
  have "x AND NOT (mask k) = x - ?t"
    using and_not_mask_plus [of x k] by (metis add_diff_cancel_right')
  moreover have "unat ?t \<le> unat x"
    by (simp add: unat_take_bit_word)
  ultimately show ?thesis
    by (simp add: unat_sub_le word_le_unat unat_take_bit_word)
qed

lemma align_down_pow2:
  fixes x :: "'a::len word"
  shows "unat (x AND NOT (2 ^ k - 1)) = unat x div 2 ^ k * 2 ^ k"
proof -
  have "unat (x AND NOT (mask k)) = unat x div 2 ^ k * 2 ^ k"
    unfolding unat_and_not_mask by (simp add: minus_mod_eq_div_mult)
  then show ?thesis by (simp add: mask_eq_exp_minus_1)
qed

lemma and_not_le: "x AND NOT (m::'a::len word) \<le> x"
  by (rule word_and_le2)

lemma round_down_pow2: "unat (round_down x (2 ^ k)) = unat x div 2 ^ k * 2 ^ k"
  by (simp add: round_defs align_down_pow2)

text \<open>\<open>round_up\<close> and \<open>ALIGN\<close> give the least multiple of a power of two that is not
  below the argument, unless it does not fit in the word.\<close>

lemma unat_pow2 [simp]:
  assumes "k < LENGTH('a)"
  shows "unat (2 ^ k :: 'a::len word) = 2 ^ k"
proof -
  have "unat (word_of_nat (2 ^ k) :: 'a word) = 2 ^ k mod 2 ^ LENGTH('a)"
    by (rule unat_of_nat)
  then show ?thesis using assms by simp
qed

lemma unat_pow2_minus_1:
  assumes "k < LENGTH('a)"
  shows "unat (2 ^ k - 1 :: 'a::len word) = 2 ^ k - 1"
  using assms by (subst unat_minus_one) simp_all

lemma ALIGN_pow2:
  fixes x :: "'a::len word"
  assumes "unat x + 2 ^ k - 1 < 2 ^ LENGTH('a)" and "k < LENGTH('a)"
  shows "unat (ALIGN x (2 ^ k)) = (unat x + 2 ^ k - 1) div 2 ^ k * 2 ^ k"
proof -
  have one: "unat (2 ^ k - 1 :: 'a word) = 2 ^ k - 1"
    using assms(2) by (simp add: unat_pow2_minus_1)
  have "unat (x + (2 ^ k - 1)) = unat x + (2 ^ k - 1)"
    using assms(1) by (subst unat_add_no_wrap) (simp_all add: one)
  then show ?thesis
    by (simp add: ALIGN_def align_down_pow2)
qed

lemma or_mask_eq:
  fixes x :: "'a::len word"
  shows "x OR mask k = (x AND NOT (mask k)) + mask k"
proof -
  have "(x AND NOT (mask k)) + mask k = (x AND NOT (mask k)) OR mask k"
    by (rule disjunctive_add_eq_or) (simp add: bit_eq_iff bit_simps)
  also have "\<dots> = x OR mask k"
    by (rule bit_eqI) (auto simp: bit_simps)
  finally show ?thesis by simp
qed

lemma round_up_eq_ALIGN:
  fixes x :: "'a::len word"
  assumes "k < LENGTH('a)"
  shows "round_up x (2 ^ k) = ((x - 1) AND NOT (2 ^ k - 1)) + 2 ^ k"
  using or_mask_eq [of "x - 1" k]
  by (simp add: round_defs mask_eq_exp_minus_1 algebra_simps)

lemma nat_ceil_div:
  assumes "0 < (b::nat)" "0 < a"
  shows "(a + b - 1) div b = (a - 1) div b + 1"
proof -
  have "a + b - 1 = (a - 1) + b" using assms by simp
  then show ?thesis using assms by (metis Suc_eq_plus1 div_add_self2 less_not_refl)
qed

lemma round_up_pow2:
  fixes x :: "'a::len word"
  assumes "k < LENGTH('a)" and fits: "(unat x + 2 ^ k - 1) div 2 ^ k * 2 ^ k < 2 ^ LENGTH('a)"
  shows "unat (round_up x (2 ^ k)) = (unat x + 2 ^ k - 1) div 2 ^ k * 2 ^ k"
proof (cases "x = 0")
  case True
  then show ?thesis by (simp add: round_defs)
next
  case False
  then have pos: "0 < unat x" by (simp add: unat_gt_0)
  have "unat (x - 1) = unat x - 1"
    using False by (simp add: unat_minus_one)
  moreover have "(unat x + 2 ^ k - 1) div 2 ^ k = (unat x - 1) div 2 ^ k + 1"
    using pos by (rule nat_ceil_div [rotated]) simp
  moreover have "unat (2 ^ k :: 'a word) = 2 ^ k"
    using assms(1) by simp
  ultimately show ?thesis
    using fits by (simp add: round_up_eq_ALIGN [OF assms(1)] unat_word_ariths align_down_pow2)
qed

section \<open>Bit searches\<close>

lemma bsr_None: "bsr w = None \<longleftrightarrow> w = 0"
proof
  assume "bsr w = None"
  then have "\<forall>i < LENGTH('a). \<not> bit w i"
    by (auto simp: bsr_def filter_empty_conv split: list.splits)
  then show "w = 0"
    by (intro bit_word_eqI) simp
qed (simp add: bsr_def)

lemma bsr_Some:
  fixes w :: "'a::len word"
  assumes "bsr w = Some i"
  shows "i < LENGTH('a) \<and> bit w i \<and> (\<forall>j. i < j \<longrightarrow> \<not> bit w j)"
proof -
  let ?l = "filter (bit w) (rev [0..<LENGTH('a)])"
  obtain xs where l: "?l = i # xs"
    using assms by (auto simp: bsr_def split: list.splits)
  then have "i \<in> set ?l" by simp
  then have i: "i < LENGTH('a)" "bit w i" by auto
  have "sorted (rev (i # xs))"
    unfolding l [symmetric] rev_filter by (simp add: sorted_wrt_filter)
  then have le: "\<forall>j \<in> set ?l. j \<le> i"
    unfolding l by (auto simp: sorted_append)
  have "\<not> bit w j" if "i < j" for j
  proof
    assume "bit w j"
    moreover from this have "j < LENGTH('a)" by (rule bit_imp_le_length)
    ultimately have "j \<in> set ?l" by simp
    then show False using le that by fastforce
  qed
  with i show ?thesis by blast
qed

lemma bit_unat_ge:
  fixes w :: "'a::len word"
  assumes "bit w i" shows "2 ^ i \<le> unat w"
proof (rule ccontr)
  assume "\<not> ?thesis"
  then have "unat w div 2 ^ i = 0" by simp
  moreover have "odd (unat w div 2 ^ i)"
    using assms by (simp add: bit_iff_odd bit_unsigned_iff flip: bit_iff_odd)
  ultimately show False by simp
qed

lemma high_bits_zero_unat_less:
  fixes w :: "'a::len word"
  assumes "\<forall>j. i < j \<longrightarrow> \<not> bit w j" shows "unat w < 2 ^ Suc i"
proof -
  have "take_bit (Suc i) w = w"
    using assms by (intro bit_eqI) (auto simp: bit_simps less_Suc_eq_le intro: leI)
  then have "unat w = unat w mod 2 ^ Suc i"
    by (metis unat_take_bit_word)
  also have "\<dots> < 2 ^ Suc i" by simp
  finally show ?thesis .
qed

text \<open>\<open>fls\<close> is the position, counted from 1, of the highest set bit.\<close>

lemma fls_bounds:
  assumes "x \<noteq> 0"
  shows "1 \<le> fls x" "fls x \<le> 32" "2 ^ nat (fls x - 1) \<le> unat x" "unat x < 2 ^ nat (fls x)"
proof -
  obtain i where i: "bsr x = Some i"
    using assms bsr_None [of x] by (cases "bsr x") auto
  then have f: "fls x = int i + 1" by (simp add: fls_def)
  note b = bsr_Some [OF i]
  show "1 \<le> fls x" "fls x \<le> 32" using f b by auto
  show "2 ^ nat (fls x - 1) \<le> unat x" using b f by (simp add: bit_unat_ge)
  have "nat (fls x) = Suc i" using f by simp
  then show "unat x < 2 ^ nat (fls x)"
    using high_bits_zero_unat_less [of i x] b by simp
qed

lemma fls_0 [simp]: "fls 0 = 0"
  by (simp add: fls_def bsr_None [THEN iffD2])

section \<open>Page orders\<close>

lemma get_order_loop_spec:
  "order < get_order_loop sz order
   \<and> unat sz < 2 ^ nat (get_order_loop sz order - order)
   \<and> (get_order_loop sz order = order + 1 \<or> 2 ^ nat (get_order_loop sz order - order - 1) \<le> unat sz)"
proof (induction sz order rule: get_order_loop.induct)
  case (1 sz order)
  let ?h = "drop_bit 1 sz"
  have h: "unat ?h = unat sz div 2"
    by (simp add: drop_bit_eq_div unat_div)
  show ?case
  proof (cases "?h = 0")
    case True
    then have "unat sz < 2" using h by simp
    with True show ?thesis by (simp add: get_order_loop.simps [of sz order])
  next
    case False
    define r where "r = get_order_loop ?h (order + 1)"
    have eq: "get_order_loop sz order = r"
      using False by (simp add: get_order_loop.simps [of sz order] r_def Let_def)
    have IH: "order + 1 < r" "unat ?h < 2 ^ nat (r - (order + 1))"
      "r = order + 2 \<or> 2 ^ nat (r - (order + 1) - 1) \<le> unat ?h"
      using 1 [OF refl refl False] by (auto simp: r_def)
    define m where "m = nat (r - order - 2)"
    have m: "nat (r - (order + 1)) = Suc m" "nat (r - order) = Suc (Suc m)"
      "nat (r - order - 1) = Suc m" "nat (r - (order + 1) - 1) = m"
      using IH(1) by (auto simp: m_def)
    have "1 \<le> unat ?h" using False by (simp add: unat_gt_0 Suc_le_eq)
    moreover have "r = order + 2 \<Longrightarrow> m = 0" by (simp add: m_def)
    ultimately have "2 ^ m \<le> unat ?h" using IH(3) by (auto simp: m m_def)
    then have "2 * 2 ^ m \<le> unat sz \<and> unat sz < 4 * 2 ^ m"
      using IH(2) unfolding m h
      by (simp add: less_eq_div_iff_mult_less_eq div_less_iff_less_mult mult.commute)
    then show ?thesis
      using IH(1) by (simp add: eq m)
  qed
qed

text \<open>\<open>get_order\<close> gives the least order whose block of pages holds \<open>sz\<close> bytes.\<close>

lemma get_order_least:
  assumes "0 < sz"
  shows "0 \<le> get_order sz \<and> unat sz \<le> 2 ^ (12 + nat (get_order sz))
    \<and> (get_order sz = 0 \<or> 2 ^ (12 + nat (get_order sz) - 1) < unat sz)"
proof -
  define h where "h = drop_bit 11 (sz - 1)"
  define r where "r = get_order_loop h (- 1)"
  have r: "get_order sz = r" by (simp add: get_order_def r_def h_def PAGE_SHIFT_def)
  have s: "- 1 < r" "unat h < 2 ^ nat (r + 1)" "r = 0 \<or> 2 ^ nat r \<le> unat h"
    using get_order_loop_spec [of "- 1" h] by (auto simp: r_def)
  have "unat (sz - 1) = unat sz - 1"
    using assms by (simp add: unat_minus_one word_greater_zero_iff)
  then have h: "unat h = (unat sz - 1) div 2 ^ 11"
    by (simp add: h_def drop_bit_eq_div unat_div)
  have pos: "0 < unat sz" using assms by (simp add: unat_gt_0 word_greater_zero_iff)
  obtain n where n: "r = int n" using s(1) by (metis nonneg_int_cases add1_zle_eq add.left_inverse)
  have "(unat sz - 1) div 2 ^ 11 < 2 ^ Suc n" using s(2) h n by (simp add: nat_add_distrib)
  then have "unat sz - 1 < 2 ^ Suc n * 2 ^ 11"
    by (simp add: div_less_iff_less_mult)
  then have "unat sz \<le> 2 ^ (12 + n)" using pos by (simp add: power_add)
  moreover have "n = 0 \<or> 2 ^ (11 + n) < unat sz"
  proof (cases "n = 0")
    case False
    then have "2 ^ n \<le> (unat sz - 1) div 2 ^ 11" using s(3) h n by simp
    then have "2 ^ n * 2 ^ 11 \<le> unat sz - 1"
      by (simp add: less_eq_div_iff_mult_less_eq)
    then have "2 ^ n * 2 ^ 11 < unat sz" using pos by linarith
    then show ?thesis by (simp add: power_add mult.commute)
  qed simp
  ultimately show ?thesis by (simp add: r n)
qed

section \<open>Logarithms\<close>

lemma find_filter: "find P xs = (case filter P xs of [] \<Rightarrow> None | x # _ \<Rightarrow> Some x)"
  by (induction xs) auto

lemma ilog2_const_bsr: "ilog2_const n = bsr n"
proof (cases "n = 0")
  case True
  then show ?thesis by (simp add: ilog2_const_def bsr_None [THEN iffD2])
next
  case False
  have "n AND push_bit i 1 \<noteq> 0 \<longleftrightarrow> bit n i" if "i < 64" for i
    by (simp add: push_bit_of_1 and_exp_eq_0_iff_not_bit)
  then have "filter (\<lambda>i. n AND push_bit i 1 \<noteq> 0) (rev [0..<64]) = filter (bit n) (rev [0..<64])"
    by (intro filter_cong) auto
  then show ?thesis using False by (simp add: ilog2_const_def find_filter bsr_def word_less_1)
qed

lemma fls64_bounds:
  assumes "x \<noteq> 0"
  shows "1 \<le> fls64 x" "2 ^ nat (fls64 x - 1) \<le> unat x" "unat x < 2 ^ nat (fls64 x)"
proof -
  define h where "h = (ucast (drop_bit 32 x) :: u32)"
  have uh: "unat h = unat x div 2 ^ 32"
    using unat_bound [of x] by (simp add: h_def unsigned_ucast_eq drop_bit_eq_div unat_div take_bit_eq_mod)
  have "1 \<le> fls64 x \<and> 2 ^ nat (fls64 x - 1) \<le> unat x \<and> unat x < 2 ^ nat (fls64 x)"
  proof (cases "h = 0")
    case True
    have small: "unat x < 2 ^ 32" using uh True by (simp add: div_eq_0_iff)
    then have "unat (ucast x :: u32) = unat x" by (simp add: unsigned_ucast_eq take_bit_eq_mod)
    moreover from this have "(ucast x :: u32) \<noteq> 0" using assms by (metis unat_eq_zero)
    ultimately show ?thesis
      using True fls_bounds [of "ucast x :: u32"] by (simp add: fls64_def h_def [symmetric])
  next
    case False
    define f where "f = nat (fls h) - 1"
    have f: "fls h = int f + 1" using fls_bounds(1) [OF False] by (simp add: f_def)
    have "2 ^ f \<le> unat x div 2 ^ 32" "unat x div 2 ^ 32 < 2 ^ (f + 1)"
      using fls_bounds(3,4) [OF False] by (simp_all add: uh f nat_add_distrib)
    then have "2 ^ f * 2 ^ 32 \<le> unat x" "unat x < 2 ^ (f + 1) * 2 ^ 32"
      by (simp_all add: less_eq_div_iff_mult_less_eq div_less_iff_less_mult)
    moreover have "fls64 x = int f + 33" using False by (simp add: fls64_def h_def [symmetric] f)
    ultimately show ?thesis by (simp add: nat_add_distrib power_add)
  qed
  then show "1 \<le> fls64 x" "2 ^ nat (fls64 x - 1) \<le> unat x" "unat x < 2 ^ nat (fls64 x)" by simp_all
qed

lemma log2_unique:
  fixes n :: nat
  assumes "2 ^ i \<le> n" "n < 2 ^ (i + 1)" "2 ^ j \<le> n" "n < 2 ^ (j + 1)"
  shows "i = j"
proof -
  have "(2::nat) ^ i < 2 ^ (j + 1)" "(2::nat) ^ j < 2 ^ (i + 1)" using assms by linarith+
  then have "i < j + 1" "j < i + 1"
    using power_less_imp_less_exp [of "2::nat" i "j + 1"] power_less_imp_less_exp [of "2::nat" j "i + 1"]
    by linarith+
  then show ?thesis by simp
qed

section \<open>Properties\<close>

text \<open>
  \<^verbatim>\<open>get_order\<close> returns the least order whose block of \<open>2 ^ order\<close> pages holds
  \<^verbatim>\<open>size\<close> bytes.
\<close>

theorem get_order_correct:
  assumes "0 < sz"
  shows "0 \<le> get_order sz \<and> unat sz \<le> 2 ^ (12 + nat (get_order sz))
    \<and> (get_order sz = 0 \<or> 2 ^ (12 + nat (get_order sz) - 1) < unat sz)"
  by (rule get_order_least [OF assms])

theorem get_order_correct_witness: "unat (0x3001 :: ulong) \<le> 2 ^ (12 + nat (get_order 0x3001))"
  using get_order_correct [of "0x3001"] by simp

text \<open>
  The compile-time chain of the \<^verbatim>\<open>ilog2\<close> macro and the run-time function
  \<^verbatim>\<open>__ilog2_u64\<close> agree, and give the integer logarithm.
\<close>

theorem ilog2_correct:
  assumes "n \<noteq> 0"
  shows "ilog2_const n = Some (nat (uu_ilog2_u64 n)) \<and> 0 \<le> uu_ilog2_u64 n
    \<and> 2 ^ nat (uu_ilog2_u64 n) \<le> unat n \<and> unat n < 2 ^ (nat (uu_ilog2_u64 n) + 1)"
proof -
  obtain i where i: "bsr n = Some i" using assms bsr_None [of n] by (cases "bsr n") auto
  have b: "2 ^ i \<le> unat n" "unat n < 2 ^ (i + 1)"
    using bsr_Some [OF i] bit_unat_ge [of n i] high_bits_zero_unat_less [of i n] by simp_all
  define j where "j = nat (fls64 n) - 1"
  have j: "fls64 n = int j + 1" using fls64_bounds(1) [OF assms] by (simp add: j_def)
  have c: "2 ^ j \<le> unat n" "unat n < 2 ^ (j + 1)"
    using fls64_bounds(2,3) [OF assms] by (simp_all add: j nat_add_distrib)
  have "i = j" by (rule log2_unique [OF b c])
  then show ?thesis using i c by (simp add: ilog2_const_bsr uu_ilog2_u64_def j)
qed

theorem ilog2_correct_witness: "ilog2_const 0x1800 = Some (nat (uu_ilog2_u64 0x1800))"
  using ilog2_correct [of "0x1800"] by simp

end
