(* ===== verification/List_Head.thy ===== *)
theory List_Head
  imports Xc_Prelude
begin

text \<open>
  \<^verbatim>\<open>include/Xc/list.h\<close>: circular doubly linked lists, linked through the
  \<^verbatim>\<open>struct list_head\<close> that is embedded in the linked objects. The state is the
  memory of the two link fields, indexed by address. \<open>dlist m h xs\<close> says that the
  list with head \<open>h\<close> links the nodes \<open>xs\<close>, in that order; \<open>lists_rep\<close> says it of all the
  lists of a program. The operations on the links refine the operations on the sequences;
  the locale \<open>list_api\<close> is that contract, on which the components that keep such
  lists (the free lists of the page allocator, the partial lists of the slab allocator) rest:
  they are modelled with the sequences.
\<close>

section \<open>The link fields\<close>

type_synonym ptr = ulong

record list_mem =
  nxt :: "ptr \<Rightarrow> ptr"
  prv :: "ptr \<Rightarrow> ptr"

definition set_next :: "list_mem \<Rightarrow> ptr \<Rightarrow> ptr \<Rightarrow> list_mem" where
  "set_next m p v = m\<lparr>nxt := (nxt m)(p := v)\<rparr>"

definition set_prev :: "list_mem \<Rightarrow> ptr \<Rightarrow> ptr \<Rightarrow> list_mem" where
  "set_prev m p v = m\<lparr>prv := (prv m)(p := v)\<rparr>"

definition LIST_POISON1 :: ptr where
  "LIST_POISON1 = 0x00100100"

definition LIST_POISON2 :: ptr where
  "LIST_POISON2 = 0x00200200"

section \<open>Operations\<close>

definition INIT_LIST_HEAD :: "list_mem \<Rightarrow> ptr \<Rightarrow> list_mem" where
  "INIT_LIST_HEAD m l = set_prev (set_next m l l) l l"

definition uu_list_del :: "list_mem \<Rightarrow> ptr \<Rightarrow> ptr \<Rightarrow> list_mem" where
  "uu_list_del m p n = set_next (set_prev m n p) p n"

definition uu_list_del_entry :: "list_mem \<Rightarrow> ptr \<Rightarrow> list_mem" where
  "uu_list_del_entry m e = uu_list_del m (prv m e) (nxt m e)"

definition list_del :: "list_mem \<Rightarrow> ptr \<Rightarrow> list_mem" where
  "list_del m e =
     (let m1 = uu_list_del m (prv m e) (nxt m e);
          m2 = set_next m1 e LIST_POISON1
      in set_prev m2 e LIST_POISON2)"

definition list_del_init :: "list_mem \<Rightarrow> ptr \<Rightarrow> list_mem" where
  "list_del_init m e = INIT_LIST_HEAD (uu_list_del_entry m e) e"

definition uu_list_add :: "list_mem \<Rightarrow> ptr \<Rightarrow> ptr \<Rightarrow> ptr \<Rightarrow> list_mem" where
  "uu_list_add m new p n =
     (let m1 = set_prev m n new;
          m2 = set_next m1 new n;
          m3 = set_prev m2 new p
      in set_next m3 p new)"

definition list_add :: "list_mem \<Rightarrow> ptr \<Rightarrow> ptr \<Rightarrow> list_mem" where
  "list_add m new h = uu_list_add m new h (nxt m h)"

definition list_add_tail :: "list_mem \<Rightarrow> ptr \<Rightarrow> ptr \<Rightarrow> list_mem" where
  "list_add_tail m new h = uu_list_add m new (prv m h) h"

definition list_empty :: "list_mem \<Rightarrow> ptr \<Rightarrow> bool" where
  "list_empty m h \<longleftrightarrow> nxt m h = h"

definition list_move :: "list_mem \<Rightarrow> ptr \<Rightarrow> ptr \<Rightarrow> list_mem" where
  "list_move m l h = list_add (uu_list_del_entry m l) l h"

text \<open>The nodes \<^verbatim>\<open>list_for_each_entry\<close> visits. A ring that does not lead back to the
  head makes the source loop forever: the value is then \<open>None\<close>.\<close>

partial_function (option) visit_from :: "list_mem \<Rightarrow> ptr \<Rightarrow> ptr \<Rightarrow> ptr list option" where
  "visit_from m h pos =
     (if pos \<noteq> h then Option.bind (visit_from m h (nxt m pos)) (\<lambda>ps. Some (pos # ps)) else Some [])"

definition list_for_each_entry :: "list_mem \<Rightarrow> ptr \<Rightarrow> ptr list option" where
  "list_for_each_entry m h = visit_from m h (nxt m h)"

lemmas list_head_defs [xc_defs] = set_next_def set_prev_def INIT_LIST_HEAD_def uu_list_del_def
  uu_list_del_entry_def list_del_def list_del_init_def uu_list_add_def list_add_def
  list_add_tail_def list_empty_def list_move_def

section \<open>What a list represents\<close>

text \<open>The links between \<open>p\<close> and \<open>q\<close> lead through \<open>xs\<close> and back.\<close>

primrec chain :: "list_mem \<Rightarrow> ptr \<Rightarrow> ptr list \<Rightarrow> ptr \<Rightarrow> bool" where
  "chain m p [] q \<longleftrightarrow> nxt m p = q \<and> prv m q = p"
| "chain m p (x # xs) q \<longleftrightarrow> nxt m p = x \<and> prv m x = p \<and> chain m x xs q"

definition dlist :: "list_mem \<Rightarrow> ptr \<Rightarrow> ptr list \<Rightarrow> bool" where
  "dlist m h xs \<longleftrightarrow> distinct (h # xs) \<and> chain m h xs h"

lemma chain_append: "chain m p (xs @ x # ys) q \<longleftrightarrow> chain m p xs x \<and> chain m x ys q"
  by (induction xs arbitrary: p) auto

lemma chain_frame:
  assumes "\<forall>x\<in>set (p # xs). nxt m' x = nxt m x" "\<forall>x\<in>set (xs @ [q]). prv m' x = prv m x"
  shows "chain m' p xs q = chain m p xs q"
  using assms by (induction xs arbitrary: p) auto

lemma dlist_frame:
  assumes "\<forall>x\<in>set (h # xs). nxt m' x = nxt m x \<and> prv m' x = prv m x"
  shows "dlist m' h xs = dlist m h xs"
  using assms chain_frame [of h xs m' m h] by (simp add: dlist_def)

lemma chain_next: "chain m p xs q \<Longrightarrow> nxt m p = hd (xs @ [q])"
  by (cases xs) auto

lemma chain_prev: "chain m p xs q \<Longrightarrow> prv m q = last (p # xs)"
  by (induction xs arbitrary: p) auto

lemma dlist_init: "dlist (INIT_LIST_HEAD m h) h []"
  by (simp add: dlist_def xc_defs)

lemma dlist_empty: "dlist m h xs \<Longrightarrow> list_empty m h \<longleftrightarrow> xs = []"
  by (cases xs) (auto simp: dlist_def xc_defs)

lemma chain_add:
  assumes "chain m p xs q" "distinct (p # xs)" "q \<notin> set xs" "n \<notin> set (p # xs)" "n \<noteq> q"
  shows "chain (uu_list_add m n p (nxt m p)) p (n # xs) q"
proof (cases xs)
  case Nil
  then show ?thesis using assms by (auto simp: xc_defs)
next
  case (Cons x ys)
  have "chain (uu_list_add m n p x) x ys q = chain m x ys q"
    by (rule chain_frame) (use assms Cons in \<open>auto simp: xc_defs\<close>)
  then show ?thesis using assms Cons by (auto simp: xc_defs)
qed

lemma chain_add_tail:
  assumes "chain m p xs q" "distinct (p # xs)" "q \<notin> set xs" "n \<notin> set (p # xs)" "n \<noteq> q"
  shows "chain (uu_list_add m n (prv m q) q) p (xs @ [n]) q"
  using assms
proof (induction xs arbitrary: p)
  case Nil
  then show ?case by (auto simp: xc_defs)
next
  case (Cons x xs)
  have "prv m q = last (x # xs)" using Cons.prems chain_prev [of m x xs q] by simp
  then have "prv m q \<noteq> p" using Cons.prems by (metis chain.simps(2) chain_prev distinct.simps(2) last_in_set list.distinct(1))
  then show ?case using Cons by (auto simp: xc_defs)
qed

lemma chain_del:
  assumes "chain m p (xs @ x # ys) q" "distinct (p # xs @ x # ys)" "q \<notin> set (xs @ x # ys)"
    "p' = prv m x" "n = nxt m x"
  shows "chain (uu_list_del m p' n) p (xs @ ys) q"
  using assms
proof (induction xs arbitrary: p)
  case Nil
  show ?case
  proof (cases ys)
    case Nil
    then show ?thesis using Nil.prems by (auto simp: xc_defs)
  next
    case (Cons y zs)
    have "chain (uu_list_del m p y) y zs q = chain m y zs q"
      by (rule chain_frame) (use Nil.prems Cons in \<open>auto simp: xc_defs\<close>)
    then show ?thesis using Nil.prems Cons by (auto simp: xc_defs)
  qed
next
  case (Cons a xs)
  have c: "chain m a xs x" "chain m x ys q" using Cons.prems(1) by (auto simp: chain_append)
  have "p' = last (a # xs)" "n = hd (ys @ [q])"
    using chain_prev [OF c(1)] chain_next [OF c(2)] Cons.prems(4,5) by simp_all
  then have "p' \<noteq> p" "n \<noteq> a"
    using Cons.prems(2,3) last_in_set [of "a # xs"] by (auto split: if_splits simp: hd_append)
  then show ?case using Cons by (auto simp: xc_defs)
qed

lemma dlist_add:
  assumes "dlist m h xs" "n \<notin> set (h # xs)"
  shows "dlist (list_add m n h) h (n # xs)"
  using assms chain_add [of m h xs h n] by (auto simp: dlist_def list_add_def simp del: chain.simps)

lemma dlist_add_tail:
  assumes "dlist m h xs" "n \<notin> set (h # xs)"
  shows "dlist (list_add_tail m n h) h (xs @ [n])"
  using assms chain_add_tail [of m h xs h n] by (auto simp: dlist_def list_add_tail_def)

lemma dlist_del_entry:
  assumes "dlist m h xs" "x \<in> set xs"
  shows "dlist (uu_list_del_entry m x) h (remove1 x xs)"
proof -
  obtain ys zs where xs: "xs = ys @ x # zs" using assms(2) by (meson split_list)
  have "distinct (h # ys @ x # zs)" "chain m h (ys @ x # zs) h"
    using assms(1) by (auto simp: dlist_def xs)
  then have "chain (uu_list_del m (prv m x) (nxt m x)) h (ys @ zs) h"
    by (intro chain_del) auto
  moreover have "remove1 x xs = ys @ zs" "distinct (h # ys @ zs)"
    using assms(1) by (auto simp: dlist_def xs remove1_append)
  ultimately show ?thesis by (simp add: dlist_def uu_list_del_entry_def)
qed

text \<open>Overwriting the links of a node that is not in a list does not touch the list.\<close>

lemma dlist_del:
  assumes "dlist m h xs" "x \<in> set xs"
  shows "dlist (list_del m x) h (remove1 x xs)"
proof -
  have "distinct (h # xs)" using assms(1) by (simp add: dlist_def)
  then have "x \<notin> set (h # remove1 x xs)" using assms(2) by auto
  then have "dlist (list_del m x) h (remove1 x xs) = dlist (uu_list_del_entry m x) h (remove1 x xs)"
    by (intro dlist_frame) (auto simp: xc_defs Let_def)
  then show ?thesis using dlist_del_entry [OF assms] by simp
qed

lemma dlist_del_init:
  assumes "dlist m h xs" "x \<in> set xs"
  shows "dlist (list_del_init m x) h (remove1 x xs)" "dlist (list_del_init m x) x []"
proof -
  have "distinct (h # xs)" using assms(1) by (simp add: dlist_def)
  then have "x \<notin> set (h # remove1 x xs)" using assms(2) by auto
  then have "dlist (list_del_init m x) h (remove1 x xs) = dlist (uu_list_del_entry m x) h (remove1 x xs)"
    by (intro dlist_frame) (auto simp: xc_defs)
  then show "dlist (list_del_init m x) h (remove1 x xs)" using dlist_del_entry [OF assms] by simp
  show "dlist (list_del_init m x) x []" by (simp add: list_del_init_def dlist_init)
qed

lemma dlist_visit:
  assumes "chain m p xs h" "h \<notin> set xs"
  shows "visit_from m h (nxt m p) = Some xs"
  using assms
proof (induction xs arbitrary: p)
  case Nil
  then show ?case by (simp add: visit_from.simps)
next
  case (Cons x xs)
  then have "nxt m p = x" "x \<noteq> h" "visit_from m h (nxt m x) = Some xs" by auto
  then show ?case by (simp add: visit_from.simps [of m h x])
qed

lemma dlist_for_each: "dlist m h xs \<Longrightarrow> list_for_each_entry m h = Some xs"
  unfolding list_for_each_entry_def by (rule dlist_visit) (auto simp: dlist_def)

section \<open>All the lists of a program\<close>

definition nodes :: "('p \<Rightarrow> 'p list) \<Rightarrow> 'p \<Rightarrow> 'p set" where
  "nodes L h = set (h # L h)"

definition lists_rep :: "list_mem \<Rightarrow> ptr set \<Rightarrow> (ptr \<Rightarrow> ptr list) \<Rightarrow> bool" where
  "lists_rep m H L \<longleftrightarrow> (\<forall>h\<in>H. dlist m h (L h)) \<and> (\<forall>h\<in>H. \<forall>k\<in>H. h \<noteq> k \<longrightarrow> nodes L h \<inter> nodes L k = {})"

lemma neighbours:
  assumes "dlist m h xs" "x \<in> set (h # xs)"
  shows "nxt m x \<in> set (h # xs)" "prv m x \<in> set (h # xs)"
proof -
  have "nxt m x \<in> set (h # xs) \<and> prv m x \<in> set (h # xs)"
  proof (cases "x = h")
    case True
    have "chain m h xs h" using assms(1) by (simp add: dlist_def)
    then have "nxt m h = hd (xs @ [h])" "prv m h = last (h # xs)"
      using chain_next chain_prev by blast+
    then show ?thesis using True last_in_set [of "h # xs"] by (cases xs) simp_all
  next
    case False
    then obtain ys zs where xs: "xs = ys @ x # zs" using assms(2) by (meson set_ConsD split_list)
    then have "chain m h ys x" "chain m x zs h" using assms(1) by (auto simp: dlist_def chain_append)
    then have "prv m x = last (h # ys)" "nxt m x = hd (zs @ [h])"
      using chain_prev chain_next by blast+
    then show ?thesis using last_in_set [of "h # ys"] by (cases zs) (auto simp: xs)
  qed
  then show "nxt m x \<in> set (h # xs)" "prv m x \<in> set (h # xs)" by simp_all
qed

text \<open>An operation on one list leaves the links of the other lists alone.\<close>

lemma lists_rep_update:
  assumes "lists_rep m H L" "h \<in> H" "dlist m' h xs"
    and fresh: "\<And>k. k \<in> H \<Longrightarrow> k \<noteq> h \<Longrightarrow> set xs \<inter> nodes L k = {}"
    and same: "\<And>k x. k \<in> H \<Longrightarrow> k \<noteq> h \<Longrightarrow> x \<in> nodes L k \<Longrightarrow> nxt m' x = nxt m x \<and> prv m' x = prv m x"
  shows "lists_rep m' H (L(h := xs))"
proof -
  have "dlist m' k (L k)" if "k \<in> H" "k \<noteq> h" for k
    using assms(1) that dlist_frame [of k "L k" m' m] same [OF that] by (auto simp: lists_rep_def nodes_def)
  moreover have "nodes (L(h := xs)) k \<inter> nodes (L(h := xs)) l = {}"
    if "k \<in> H" "l \<in> H" "k \<noteq> l" for k l
    using that assms(1,2) fresh [of k] fresh [of l] by (auto simp: lists_rep_def nodes_def)
  ultimately show ?thesis using assms(2,3) by (simp add: lists_rep_def)
qed

lemma lists_rep_dlist: "lists_rep m H L \<Longrightarrow> h \<in> H \<Longrightarrow> dlist m h (L h)"
  by (simp add: lists_rep_def)

lemma lists_rep_apart:
  "lists_rep m H L \<Longrightarrow> h \<in> H \<Longrightarrow> k \<in> H \<Longrightarrow> x \<in> nodes L h \<Longrightarrow> x \<in> nodes L k \<Longrightarrow> h = k"
  unfolding lists_rep_def by blast

lemma lists_rep_add:
  assumes "lists_rep m H L" "h \<in> H" "\<forall>k\<in>H. n \<notin> nodes L k"
  shows "lists_rep (list_add m n h) H (L(h := n # L h))"
    and "lists_rep (list_add_tail m n h) H (L(h := L h @ [n]))"
proof -
  have d: "dlist m h (L h)" and n: "n \<notin> set (h # L h)"
    using assms by (auto simp: lists_rep_dlist nodes_def)
  have nb: "nxt m h \<in> nodes L h" "prv m h \<in> nodes L h"
    using neighbours [OF d] by (simp_all add: nodes_def)
  have ap: "x \<notin> nodes L h" if "k \<in> H" "k \<noteq> h" "x \<in> nodes L k" for k x
    using lists_rep_apart [OF assms(1)] assms(2) that by blast
  have fr: "set (n # L h) \<inter> nodes L k = {}" if "k \<in> H" "k \<noteq> h" for k
    using ap [OF that] assms(3) that by (auto simp: nodes_def)
  show "lists_rep (list_add m n h) H (L(h := n # L h))"
  proof (rule lists_rep_update [OF assms(1,2) dlist_add [OF d n] fr])
    fix k x
    assume "k \<in> H" "k \<noteq> h" "x \<in> nodes L k"
    then have "x \<notin> nodes L h" "x \<noteq> n" using ap assms(3) by auto
    then show "nxt (list_add m n h) x = nxt m x \<and> prv (list_add m n h) x = prv m x"
      using nb by (auto simp: xc_defs nodes_def)
  qed
  show "lists_rep (list_add_tail m n h) H (L(h := L h @ [n]))"
  proof (rule lists_rep_update [OF assms(1,2) dlist_add_tail [OF d n]])
    fix k x
    assume k: "k \<in> H" "k \<noteq> h"
    show "set (L h @ [n]) \<inter> nodes L k = {}" using fr [OF k] by auto
    assume "x \<in> nodes L k"
    then have "x \<notin> nodes L h" "x \<noteq> n" using ap k assms(3) by auto
    then show "nxt (list_add_tail m n h) x = nxt m x \<and> prv (list_add_tail m n h) x = prv m x"
      using nb by (auto simp: xc_defs nodes_def)
  qed
qed

lemma lists_rep_del:
  assumes "lists_rep m H L" "h \<in> H" "x \<in> set (L h)"
  shows "lists_rep (uu_list_del_entry m x) H (L(h := remove1 x (L h)))"
    and "lists_rep (list_del m x) H (L(h := remove1 x (L h)))"
    and "lists_rep (list_del_init m x) H (L(h := remove1 x (L h)))"
proof -
  have d: "dlist m h (L h)" using assms by (auto simp: lists_rep_dlist)
  have nb: "nxt m x \<in> nodes L h" "prv m x \<in> nodes L h"
    using neighbours [OF d] assms(3) by (auto simp: nodes_def)
  have ap: "y \<notin> nodes L h" if "k \<in> H" "k \<noteq> h" "y \<in> nodes L k" for k y
    using lists_rep_apart [OF assms(1)] assms(2) that by blast
  have fr: "set (remove1 x (L h)) \<inter> nodes L k = {}" if "k \<in> H" "k \<noteq> h" for k
    using ap [OF that] by (auto simp: nodes_def dest: notin_set_remove1)
  have sm: "nxt m' y = nxt m y \<and> prv m' y = prv m y"
    if "m' \<in> {uu_list_del_entry m x, list_del m x, list_del_init m x}" "k \<in> H" "k \<noteq> h" "y \<in> nodes L k"
    for m' k y
  proof -
    have "y \<noteq> x" "y \<noteq> nxt m x" "y \<noteq> prv m x" using ap [OF that(2-4)] nb assms(3) by (auto simp: nodes_def)
    then show ?thesis using that(1) by (auto simp: xc_defs Let_def)
  qed
  show "lists_rep (uu_list_del_entry m x) H (L(h := remove1 x (L h)))"
    by (rule lists_rep_update [OF assms(1,2) dlist_del_entry [OF d assms(3)] fr sm]) simp_all
  show "lists_rep (list_del m x) H (L(h := remove1 x (L h)))"
    by (rule lists_rep_update [OF assms(1,2) dlist_del [OF d assms(3)] fr sm]) simp_all
  show "lists_rep (list_del_init m x) H (L(h := remove1 x (L h)))"
    by (rule lists_rep_update [OF assms(1,2) dlist_del_init(1) [OF d assms(3)] fr sm]) simp_all
qed

lemma lists_rep_cong:
  "\<forall>h\<in>H. L h = L' h \<Longrightarrow> lists_rep m H L = lists_rep m H L'"
  by (simp add: lists_rep_def nodes_def)

lemma lists_rep_remove:
  assumes "lists_rep m H L" "h \<in> H" "x \<in> set (L h)"
    "m' \<in> {uu_list_del_entry m x, list_del m x, list_del_init m x}"
  shows "lists_rep m' H (\<lambda>k. remove1 x (L k))"
proof -
  have "x \<notin> set (L k)" if "k \<in> H" "k \<noteq> h" for k
    using lists_rep_apart [OF assms(1,2) that(1), of x] assms(3) that by (auto simp: nodes_def)
  then have "\<forall>k\<in>H. (L(h := remove1 x (L h))) k = remove1 x (L k)"
    by (auto simp: remove1_idem)
  then have "lists_rep m' H (L(h := remove1 x (L h))) = lists_rep m' H (\<lambda>k. remove1 x (L k))"
    by (rule lists_rep_cong)
  then show ?thesis using lists_rep_del [OF assms(1-3)] assms(4) by auto
qed

lemma remove1_fresh:
  assumes "lists_rep m H L" "h \<in> H" "x \<in> set (L h)" "k \<in> H"
  shows "x \<notin> nodes (\<lambda>k. remove1 x (L k)) k"
proof (cases "k = h")
  case True
  then show ?thesis using lists_rep_dlist [OF assms(1,2)] assms(3) by (auto simp: nodes_def dlist_def)
next
  case False
  then show ?thesis using lists_rep_apart [OF assms(1,2,4), of x] assms(3)
    by (auto simp: nodes_def dest: notin_set_remove1)
qed

section \<open>The interface\<close>

datatype 'p list_op = Add 'p 'p | Add_tail 'p 'p | Del 'p | Move 'p 'p

text \<open>What the operations do to the sequences, and when they are legal: a node that is added
  is in no list yet, a node that is deleted or moved is in one.\<close>

fun seq_op :: "'p list_op \<Rightarrow> ('p \<Rightarrow> 'p list) \<Rightarrow> 'p \<Rightarrow> 'p list" where
  "seq_op (Add n h) L = L(h := n # L h)"
| "seq_op (Add_tail n h) L = L(h := L h @ [n])"
| "seq_op (Del x) L = (\<lambda>k. remove1 x (L k))"
| "seq_op (Move x h) L = (let L' = (\<lambda>k. remove1 x (L k)) in L'(h := x # L' h))"

fun legal_op :: "'p set \<Rightarrow> ('p \<Rightarrow> 'p list) \<Rightarrow> 'p list_op \<Rightarrow> bool" where
  "legal_op H L (Add n h) \<longleftrightarrow> h \<in> H \<and> (\<forall>k\<in>H. n \<notin> nodes L k)"
| "legal_op H L (Add_tail n h) \<longleftrightarrow> h \<in> H \<and> (\<forall>k\<in>H. n \<notin> nodes L k)"
| "legal_op H L (Del x) \<longleftrightarrow> (\<exists>k\<in>H. x \<in> set (L k))"
| "legal_op H L (Move x h) \<longleftrightarrow> h \<in> H \<and> (\<exists>k\<in>H. x \<in> set (L k))"

fun legal_run :: "'p set \<Rightarrow> ('p \<Rightarrow> 'p list) \<Rightarrow> 'p list_op list \<Rightarrow> bool" where
  "legal_run H L [] \<longleftrightarrow> True"
| "legal_run H L (op # ops) \<longleftrightarrow> legal_op H L op \<and> legal_run H (seq_op op L) ops"

locale list_api =
  fixes rep :: "'m \<Rightarrow> 'p set \<Rightarrow> ('p \<Rightarrow> 'p list) \<Rightarrow> bool"
    and add add_tail move :: "'m \<Rightarrow> 'p \<Rightarrow> 'p \<Rightarrow> 'm"
    and del :: "'m \<Rightarrow> 'p \<Rightarrow> 'm"
    and emptyp :: "'m \<Rightarrow> 'p \<Rightarrow> bool"
    and iter :: "'m \<Rightarrow> 'p \<Rightarrow> 'p list option"
  assumes add_law: "rep m H L \<Longrightarrow> legal_op H L (Add n h) \<Longrightarrow> rep (add m n h) H (seq_op (Add n h) L)"
    and add_tail_law:
      "rep m H L \<Longrightarrow> legal_op H L (Add_tail n h) \<Longrightarrow> rep (add_tail m n h) H (seq_op (Add_tail n h) L)"
    and del_law: "rep m H L \<Longrightarrow> legal_op H L (Del x) \<Longrightarrow> rep (del m x) H (seq_op (Del x) L)"
    and move_law: "rep m H L \<Longrightarrow> legal_op H L (Move x h) \<Longrightarrow> rep (move m x h) H (seq_op (Move x h) L)"
    and empty_law: "rep m H L \<Longrightarrow> h \<in> H \<Longrightarrow> emptyp m h \<longleftrightarrow> L h = []"
    and iter_law: "rep m H L \<Longrightarrow> h \<in> H \<Longrightarrow> iter m h = Some (L h)"
begin

fun exec_op :: "'p list_op \<Rightarrow> 'm \<Rightarrow> 'm" where
  "exec_op (Add n h) m = add m n h"
| "exec_op (Add_tail n h) m = add_tail m n h"
| "exec_op (Del x) m = del m x"
| "exec_op (Move x h) m = move m x h"

lemma op_refines: "rep m H L \<Longrightarrow> legal_op H L op \<Longrightarrow> rep (exec_op op m) H (seq_op op L)"
  by (cases op) (simp_all only: exec_op.simps add_law add_tail_law del_law move_law)

lemma run_refines:
  "rep m H L \<Longrightarrow> legal_run H L ops \<Longrightarrow> rep (fold exec_op ops m) H (fold seq_op ops L)"
  by (induction ops arbitrary: m L) (auto simp: op_refines)

lemma run_observations:
  assumes "rep m H L" "legal_run H L ops" "h \<in> H"
  shows "iter (fold exec_op ops m) h = Some (fold seq_op ops L h)"
    and "emptyp (fold exec_op ops m) h \<longleftrightarrow> fold seq_op ops L h = []"
  using iter_law empty_law run_refines assms by blast+

text \<open>Moving is deleting and adding.\<close>

lemma move_del_add:
  assumes "rep m H L" "legal_op H L (Move x h)" "\<forall>k\<in>H. x \<notin> nodes (\<lambda>k. remove1 x (L k)) k"
  shows "rep (move m x h) H (seq_op (Add x h) (seq_op (Del x) L))"
    and "rep (add (del m x) x h) H (seq_op (Add x h) (seq_op (Del x) L))"
  using move_law [OF assms(1,2)] add_law [OF del_law [OF assms(1)]] assms(2,3) by (auto simp: Let_def)

end

interpretation links: list_api lists_rep list_add list_add_tail list_move list_del list_empty list_for_each_entry
proof
  fix m H L x h
  assume r: "lists_rep m H L" and l: "legal_op H L (Move x h)"
  obtain k where k: "k \<in> H" "x \<in> set (L k)" using l by auto
  have "lists_rep (uu_list_del_entry m x) H (\<lambda>k. remove1 x (L k))"
    using lists_rep_remove [OF r k] by simp
  then show "lists_rep (list_move m x h) H (seq_op (Move x h) L)"
    using lists_rep_add(1) [of _ H "\<lambda>k. remove1 x (L k)" h x] remove1_fresh [OF r k] l
    by (simp add: list_move_def Let_def)
qed (auto simp: lists_rep_add lists_rep_dlist dlist_empty dlist_for_each intro: lists_rep_remove)

section \<open>Properties\<close>

definition exec_list_op :: "ptr list_op \<Rightarrow> list_mem \<Rightarrow> list_mem" where
  "exec_list_op op m =
     (case op of Add n h \<Rightarrow> list_add m n h | Add_tail n h \<Rightarrow> list_add_tail m n h
      | Del x \<Rightarrow> list_del m x | Move x h \<Rightarrow> list_move m x h)"

lemma exec_list_op_eq: "exec_list_op = links.exec_op"
proof (intro ext)
  fix op m
  show "exec_list_op op m = links.exec_op op m" by (cases op) (simp_all add: exec_list_op_def)
qed

text \<open>
  C39. Any sequence of legal \<^verbatim>\<open>list_add\<close>, \<^verbatim>\<open>list_add_tail\<close>, \<^verbatim>\<open>list_del\<close> and
  \<^verbatim>\<open>list_move\<close> calls on the pointer structure refines the same sequence of operations on
  sequences of nodes, for all lists of the program at once: afterwards every list still is
  a ring of distinct nodes, apart from the others, \<^verbatim>\<open>list_for_each_entry\<close> ends and visits
  exactly the nodes of the sequence in order, and \<^verbatim>\<open>list_empty\<close> tells whether there are
  any.
\<close>

theorem list_ops_refine:
  assumes "lists_rep m H L" "legal_run H L ops" "h \<in> H"
  shows "lists_rep (fold exec_list_op ops m) H (fold seq_op ops L)
    \<and> list_for_each_entry (fold exec_list_op ops m) h = Some (fold seq_op ops L h)
    \<and> (list_empty (fold exec_list_op ops m) h \<longleftrightarrow> fold seq_op ops L h = [])"
  using links.run_refines [OF assms(1,2)] links.run_observations [OF assms]
  by (simp add: exec_list_op_eq)

theorem list_ops_refine_witness:
  "list_for_each_entry (fold exec_list_op [Add 3 1, Add_tail 4 1, Move 3 2, Del 4]
     (INIT_LIST_HEAD (INIT_LIST_HEAD \<lparr>nxt = id, prv = id\<rparr> 1) 2)) 2 = Some [3]"
proof -
  have "lists_rep (INIT_LIST_HEAD (INIT_LIST_HEAD \<lparr>nxt = id, prv = id\<rparr> 1) 2) {1, 2} (\<lambda>_. [])"
    by (simp add: lists_rep_def nodes_def dlist_def xc_defs)
  then show ?thesis
    using list_ops_refine [of _ "{1, 2}" "\<lambda>_. []" "[Add 3 1, Add_tail 4 1, Move 3 2, Del 4]" 2]
    by (simp add: nodes_def Let_def)
qed

end
