(* ===== verification/String_Lib.thy ===== *)
theory String_Lib
  imports Xc_Prelude
begin

text \<open>
  The memory routines of \<^verbatim>\<open>lib/string.c\<close> on a memory of bytes, and the access to words that
  the compiler generates for pointers stored in memory. Addresses are machine words, so that
  \<^verbatim>\<open>*tmp++\<close> wraps around at the end of the address space. \<^verbatim>\<open>size_t\<close> is \<^verbatim>\<open>int\<close> in
  \<^verbatim>\<open>include/Xc/types.h\<close>; the loops \<^verbatim>\<open>while (count--)\<close> run as often as the count read as an
  unsigned word says.
\<close>

type_synonym memory = "ulong \<Rightarrow> u8"

section \<open>The routines\<close>

primrec copy_up :: "nat \<Rightarrow> ulong \<Rightarrow> ulong \<Rightarrow> memory \<Rightarrow> memory" where
  "copy_up 0 tmp s m = m"
| "copy_up (Suc n) tmp s m = copy_up n (tmp + 1) (s + 1) (m(tmp := m s))"

primrec copy_down :: "nat \<Rightarrow> ulong \<Rightarrow> ulong \<Rightarrow> memory \<Rightarrow> memory" where
  "copy_down 0 tmp s m = m"
| "copy_down (Suc n) tmp s m = copy_down n (tmp - 1) (s - 1) (m(tmp - 1 := m (s - 1)))"

primrec fill_up :: "nat \<Rightarrow> ulong \<Rightarrow> u8 \<Rightarrow> memory \<Rightarrow> memory" where
  "fill_up 0 xs c m = m"
| "fill_up (Suc n) xs c m = fill_up n (xs + 1) c (m(xs := c))"

definition memcpy :: "memory \<Rightarrow> ulong \<Rightarrow> ulong \<Rightarrow> ulong \<Rightarrow> memory" where
  "memcpy m dest src cnt = copy_up (unat cnt) dest src m"

definition memmove :: "memory \<Rightarrow> ulong \<Rightarrow> ulong \<Rightarrow> ulong \<Rightarrow> memory" where
  "memmove m dest src cnt =
     (if dest \<le> src then copy_up (unat cnt) dest src m
      else copy_down (unat cnt) (dest + cnt) (src + cnt) m)"

definition memset :: "memory \<Rightarrow> ulong \<Rightarrow> u32 \<Rightarrow> ulong \<Rightarrow> memory" where
  "memset m s c cnt = fill_up (unat cnt) s (ucast c) m"

section \<open>What they do\<close>

lemma unat_neg:
  fixes w :: "'a::len word"
  assumes "w \<noteq> 0"
  shows "unat (- w) = 2 ^ LENGTH('a) - unat w"
proof -
  let ?m = "2 ^ LENGTH('a) :: nat"
  have s: "- w + w = 0" by simp
  have "(unat (- w) + unat w) mod ?m = 0" unfolding unat_word_ariths(1) [symmetric] s by simp
  then obtain q where q: "unat (- w) + unat w = ?m * q" by (meson dvd_def mod_eq_0_iff_dvd)
  have "0 < unat w" using assms by (simp add: unat_gt_0)
  then have "0 < ?m * q" "?m * q < ?m * 2" using q unat_bound [of w] unat_bound [of "- w"] by linarith+
  then have "q = 1" by (simp only: nat_mult_less_cancel1 nat_0_less_mult_iff) linarith
  then show ?thesis using q by simp
qed

text \<open>The bytes from an address on, by their distance.\<close>

lemma next_in_range:
  fixes x d :: ulong
  assumes "n < 2 ^ 32"
  shows "unat (x - (d + 1)) < n \<longleftrightarrow> x \<noteq> d \<and> unat (x - d) < Suc n"
proof (cases "x = d")
  case True
  have "unat (- 1 :: ulong) = 2 ^ 32 - 1" by (simp add: unat_neg)
  then show ?thesis using True assms by simp
next
  case False
  then have "x - d \<noteq> 0" by simp
  then have "unat (x - d - 1) = unat (x - d) - 1" "0 < unat (x - d)"
    by (simp_all add: unat_minus_one unat_gt_0)
  then show ?thesis using False by (auto simp: diff_diff_eq)
qed

lemma copy_up_at:
  assumes "unat (s - d) + n \<le> 2 ^ 32"
  shows "copy_up n d s m x = (if unat (x - d) < n then m (s + (x - d)) else m x)"
  using assms
proof (induction n arbitrary: d s m)
  case (Suc n)
  have n: "n < 2 ^ 32" using Suc.prems by simp
  have e: "(s + 1) - (d + 1) = s - d" "s + 1 + (x - (d + 1)) = s + (x - d)" by simp_all
  define m1 where "m1 = m(d := m s)"
  have IH: "copy_up (Suc n) d s m x =
      (if x \<noteq> d \<and> unat (x - d) < Suc n then m1 (s + (x - d)) else m1 x)"
    using Suc.IH [of "s + 1" "d + 1" m1] Suc.prems unfolding e next_in_range [OF n] by (simp add: m1_def [symmetric])
  have "s + (x - d) \<noteq> d" if "x \<noteq> d" "unat (x - d) < Suc n"
  proof
    assume "s + (x - d) = d"
    then have "x - d = - (s - d)" by (simp add: algebra_simps eq_neg_iff_add_eq_0)
    moreover from this that(1) have "s - d \<noteq> 0" by auto
    ultimately have "unat (x - d) = 2 ^ 32 - unat (s - d)" using unat_neg [of "s - d"] by (simp only:) simp
    then show False using Suc.prems that(2) by simp
  qed
  then show ?case using IH by (auto simp: m1_def)
qed simp

lemma copy_down_at:
  assumes "unat (d - s) + n \<le> 2 ^ 32"
  shows "copy_down n (d + of_nat n) (s + of_nat n) m x = (if unat (x - d) < n then m (s + (x - d)) else m x)"
  using assms
proof (induction n arbitrary: m)
  case (Suc n)
  define m1 where "m1 = m(d + of_nat n := m (s + of_nat n))"
  have e: "d + of_nat (Suc n) - 1 = d + of_nat n" "s + of_nat (Suc n) - 1 = s + of_nat n" by simp_all
  have IH: "copy_down (Suc n) (d + of_nat (Suc n)) (s + of_nat (Suc n)) m x =
      (if unat (x - d) < n then m1 (s + (x - d)) else m1 x)"
    using Suc.IH [of m1] Suc.prems unfolding copy_down.simps e m1_def [symmetric] by simp
  have n: "unat (of_nat n :: ulong) = n" using Suc.prems by (simp add: unat_of_nat)
  have "s + (x - d) \<noteq> d + of_nat n" if "unat (x - d) < n"
  proof
    assume "s + (x - d) = d + of_nat n"
    then have "x - d = (d - s) + of_nat n" by (simp add: algebra_simps)
    then have "unat (x - d) = unat (d - s) + n"
      using unat_add_no_wrap [of "d - s" "of_nat n"] n Suc.prems by (simp only:) simp
    then show False using that by simp
  qed
  moreover have "x = d + of_nat n \<longleftrightarrow> unat (x - d) = n"
  proof
    assume "unat (x - d) = n"
    then have "x - d = of_nat n" using n by (metis word_eq_unat)
    then show "x = d + of_nat n" by (simp add: algebra_simps)
  qed (use n in simp)
  ultimately show ?case using IH by (auto simp: less_Suc_eq m1_def)
qed simp

lemma fill_up_at:
  assumes "n \<le> 2 ^ 32"
  shows "fill_up n d c m x = (if unat (x - d) < n then c else m x)"
  using assms
proof (induction n arbitrary: d m)
  case (Suc n)
  have n: "n < 2 ^ 32" using Suc.prems by simp
  define m1 where "m1 = m(d := c)"
  have "fill_up (Suc n) d c m x = (if x \<noteq> d \<and> unat (x - d) < Suc n then c else m1 x)"
    using Suc.IH [of "d + 1" m1] Suc.prems unfolding next_in_range [OF n] by (simp add: m1_def [symmetric])
  then show ?case by (auto simp: m1_def)
qed simp

lemma memset_at: "memset m s c n x = (if unat (x - s) < unat n then ucast c else m x)"
  using fill_up_at [of "unat n" s "ucast c" m x] unat_bound [of n] by (simp add: memset_def)

lemma unat_sub_room:
  fixes a b n :: ulong
  assumes "unat a + unat n \<le> 2 ^ 32" "b \<le> a"
  shows "unat (a - b) + unat n \<le> 2 ^ 32"
  using assms by (simp add: unat_sub_le)

section \<open>Words in memory\<close>

definition read_word :: "memory \<Rightarrow> ulong \<Rightarrow> ulong" where
  "read_word m a = ucast (m a) OR push_bit 8 (ucast (m (a + 1))) OR push_bit 16 (ucast (m (a + 2)))
     OR push_bit 24 (ucast (m (a + 3)))"

definition write_word :: "memory \<Rightarrow> ulong \<Rightarrow> ulong \<Rightarrow> memory" where
  "write_word m a v = m(a := ucast v, a + 1 := ucast (drop_bit 8 v), a + 2 := ucast (drop_bit 16 v),
     a + 3 := ucast (drop_bit 24 v))"

lemma read_word_cong: "(\<And>i. i \<in> {0, 1, 2, 3} \<Longrightarrow> m' (a + i) = m (a + i)) \<Longrightarrow> read_word m' a = read_word m a"
proof -
  assume e: "\<And>i. i \<in> {0, 1, 2, 3} \<Longrightarrow> m' (a + i) = m (a + i)"
  show ?thesis using e [of 0] e [of 1] e [of 2] e [of 3] by (simp add: read_word_def)
qed

lemma read_write_word [simp]: "read_word (write_word m a v) a = v"
proof (rule bit_word_eqI)
  fix n :: nat
  assume n: "n < LENGTH(32)"
  have "read_word (write_word m a v) a = ucast (ucast v :: u8) OR push_bit 8 (ucast (ucast (drop_bit 8 v) :: u8))
      OR push_bit 16 (ucast (ucast (drop_bit 16 v) :: u8)) OR push_bit 24 (ucast (ucast (drop_bit 24 v) :: u8))"
    by (simp add: read_word_def write_word_def)
  also have "bit \<dots> n = bit v n"
  proof -
    consider "n < 8" | "8 \<le> n" "n < 16" | "16 \<le> n" "n < 24" | "24 \<le> n" by linarith
    then show ?thesis
      using n by cases (auto simp: bit_or_iff bit_push_bit_iff bit_ucast_iff bit_drop_bit_eq)
  qed
  finally show "bit (read_word (write_word m a v) a) n = bit v n" .
qed

text \<open>Two words that do not overlap.\<close>

definition apart :: "ulong \<Rightarrow> ulong \<Rightarrow> bool" where
  "apart a b \<longleftrightarrow> 4 \<le> unat (b - a) \<and> 4 \<le> unat (a - b)"

lemma write_word_outside: "4 \<le> unat (x - a) \<Longrightarrow> write_word m a v x = m x"
  by (auto simp: write_word_def)

lemma read_write_apart:
  assumes "apart a b"
  shows "read_word (write_word m a v) b = read_word m b"
proof (rule read_word_cong)
  fix i :: ulong
  assume i: "i \<in> {0, 1, 2, 3}"
  have ui: "unat i \<le> 3" using i by auto
  have "b - a \<noteq> 0" using assms by (auto simp: apart_def)
  then have "unat (b - a) = 2 ^ 32 - unat (a - b)" using unat_neg [of "a - b"] by auto
  moreover have "4 \<le> unat (a - b)" "4 \<le> unat (b - a)" using assms by (simp_all add: apart_def)
  ultimately have "unat (b - a) + unat i < 2 ^ 32" using ui unat_bound [of "a - b"] by simp
  then have "unat ((b - a) + i) = unat (b - a) + unat i" by (intro unat_add_no_wrap) simp
  then have "4 \<le> unat (b + i - a)" using \<open>4 \<le> unat (b - a)\<close> by (simp add: algebra_simps)
  then show "write_word m a v (b + i) = m (b + i)" by (rule write_word_outside)
qed

section \<open>Properties\<close>

text \<open>C20. \<^verbatim>\<open>memmove\<close> copies the bytes that were at the source before the call, even when the two areas
  overlap, and leaves every other byte alone.\<close>

theorem memmove_correct:
  assumes "unat dest + unat cnt \<le> 2 ^ 32" "unat src + unat cnt \<le> 2 ^ 32"
  shows "memmove m dest src cnt x = (if unat (x - dest) < unat cnt then m (src + (x - dest)) else m x)"
proof (cases "dest \<le> src")
  case True
  then show ?thesis
    using copy_up_at [OF unat_sub_room [OF assms(2) True]] by (simp add: memmove_def)
next
  case False
  then have "src \<le> dest" by simp
  then show ?thesis
    using copy_down_at [OF unat_sub_room [OF assms(1)], of src m x] False by (simp add: memmove_def)
qed

theorem memmove_correct_witness:
  "memmove (\<lambda>a. ucast a) 102 100 5 106 = 104 \<and> memmove (\<lambda>a. ucast a) 102 100 5 107 = 107"
  using memmove_correct [of 102 5 100 "\<lambda>a. ucast a" 106] memmove_correct [of 102 5 100 "\<lambda>a. ucast a" 107] by simp

end
