(* ===== verification/Heap_Sort.thy ===== *)
theory Heap_Sort
  imports String_Lib
begin

text \<open>
  \<^verbatim>\<open>lib/sort.c\<close>: the in-place heapsort \<^verbatim>\<open>sort(base, num, size, cmp_func, swap_func)\<close>, on
  the byte memory of \<open>String_Lib\<close>. The comparison and swap functions are functions of the memory
  and of two pointers, as in the source; a \<^verbatim>\<open>swap_func\<close> of \<^verbatim>\<open>NULL\<close> (\<open>None\<close>) selects
  \<^verbatim>\<open>u32_swap\<close> or \<^verbatim>\<open>generic_swap\<close> by the element size. \<^verbatim>\<open>size_t\<close> is \<^verbatim>\<open>int\<close> in
  \<^verbatim>\<open>include/Xc/types.h\<close>, so that all the arithmetic on the counters, which are scaled by
  \<^verbatim>\<open>size\<close>, is that of \<^verbatim>\<open>int\<close>: every result passes through \<open>c_int\<close>, which wraps it to 32 bits.
  The loops are partial functions because with a \<^verbatim>\<open>size\<close> of 0, or with counters that overflow,
  the source need not return.

  \<open>heapsort\<close> is the same algorithm on the indices of a list. While the array has at most \<open>2 ^ 30\<close>
  bytes no counter overflows (\<^verbatim>\<open>r * 2 + size\<close> is the largest value computed), \<open>sort\<close> returns,
  and the elements it leaves in memory are those that \<open>heapsort\<close> computes; and \<open>heapsort\<close>
  permutes its argument into ascending order for every comparator that satisfies the laws of the
  locale \<open>comparator\<close>. \<open>sort_typed\<close> carries the result over to arrays of structures.
\<close>

section \<open>Integers of C\<close>

text \<open>The value of an \<^verbatim>\<open>int\<close> expression, and the quotient \<^verbatim>\<open>a / 2\<close>, which rounds to 0.\<close>

definition c_int :: "int \<Rightarrow> int" where
  "c_int x = sint (word_of_int x :: 32 word)"

definition c_half :: "int \<Rightarrow> int" where
  "c_half x = (if x < 0 then - (- x div 2) else x div 2)"

section \<open>Swapping\<close>

type_synonym cmp_func = "memory \<Rightarrow> ulong \<Rightarrow> ulong \<Rightarrow> int"
type_synonym swap_func = "memory \<Rightarrow> ulong \<Rightarrow> ulong \<Rightarrow> int \<Rightarrow> memory"

definition u32_swap :: swap_func where
  "u32_swap m a b sz =
     (let t = read_word m a; m1 = write_word m a (read_word m b) in write_word m1 b t)"

text \<open>\<^verbatim>\<open>do { t = *a; *a++ = *b; *b++ = t; } while (--size > 0)\<close>\<close>

function generic_swap :: swap_func where
  "generic_swap m a b sz =
     (let t = m a; m1 = m(a := m b); m2 = m1(b := t)
      in if sz - 1 > 0 then generic_swap m2 (a + 1) (b + 1) (sz - 1) else m2)"
  by pat_completeness auto
termination
  by (relation "measure (\<lambda>(m, a, b, sz). nat sz)") auto

section \<open>The sort, with scaled counters\<close>

text \<open>The pointer \<^verbatim>\<open>base + off\<close>.\<close>

abbreviation elt_at :: "ulong \<Rightarrow> int \<Rightarrow> ulong" where
  "elt_at base off \<equiv> base + word_of_int off"

text \<open>The inner loop \<^verbatim>\<open>for (r = i; r * 2 + size < n; r = c)\<close>, shared by both phases.\<close>

partial_function (option) sift_scaled ::
  "cmp_func \<Rightarrow> swap_func \<Rightarrow> ulong \<Rightarrow> int \<Rightarrow> int \<Rightarrow> int \<Rightarrow> memory \<Rightarrow> memory option" where
  "sift_scaled cmp_func swap_func base sz n r m =
     (if c_int (c_int (r * 2) + sz) < n then
        let c = c_int (c_int (r * 2) + sz);
            c = (if c < c_int (n - sz) \<and> cmp_func m (elt_at base c) (elt_at base c + word_of_int sz) < 0
                 then c_int (c + sz) else c)
        in if cmp_func m (elt_at base r) (elt_at base c) \<ge> 0 then Some m
           else sift_scaled cmp_func swap_func base sz n c (swap_func m (elt_at base r) (elt_at base c) sz)
      else Some m)"

text \<open>\<^verbatim>\<open>for ( ; i >= 0; i -= size)\<close>\<close>

partial_function (option) heapify_scaled ::
  "cmp_func \<Rightarrow> swap_func \<Rightarrow> ulong \<Rightarrow> int \<Rightarrow> int \<Rightarrow> int \<Rightarrow> memory \<Rightarrow> memory option" where
  "heapify_scaled cmp_func swap_func base sz n i m =
     (if i \<ge> 0 then
        Option.bind (sift_scaled cmp_func swap_func base sz n i m)
          (\<lambda>m. heapify_scaled cmp_func swap_func base sz n (c_int (i - sz)) m)
      else Some m)"

text \<open>\<^verbatim>\<open>for (i = n - size; i > 0; i -= size)\<close>\<close>

partial_function (option) sortdown_scaled ::
  "cmp_func \<Rightarrow> swap_func \<Rightarrow> ulong \<Rightarrow> int \<Rightarrow> int \<Rightarrow> memory \<Rightarrow> memory option" where
  "sortdown_scaled cmp_func swap_func base sz i m =
     (if i > 0 then
        Option.bind (sift_scaled cmp_func swap_func base sz i 0 (swap_func m base (elt_at base i) sz))
          (\<lambda>m. sortdown_scaled cmp_func swap_func base sz (c_int (i - sz)) m)
      else Some m)"

definition sort ::
  "ulong \<Rightarrow> int \<Rightarrow> int \<Rightarrow> cmp_func \<Rightarrow> swap_func option \<Rightarrow> memory \<Rightarrow> memory option" where
  "sort base num sz cmp_func swap_func m =
     (let i = c_int (c_int (c_half num - 1) * sz); n = c_int (num * sz);
          swap_func = (case swap_func of Some f \<Rightarrow> f
                       | None \<Rightarrow> if sz = 4 then u32_swap else generic_swap)
      in Option.bind (heapify_scaled cmp_func swap_func base sz n i m)
           (\<lambda>m. sortdown_scaled cmp_func swap_func base sz (c_int (n - sz)) m))"

section \<open>The same algorithm on element indices\<close>

definition swap_elems :: "'a list \<Rightarrow> nat \<Rightarrow> nat \<Rightarrow> 'a list" where
  "swap_elems xs i j = xs[i := xs ! j, j := xs ! i]"

definition sift_child :: "('a \<Rightarrow> 'a \<Rightarrow> int) \<Rightarrow> nat \<Rightarrow> nat \<Rightarrow> 'a list \<Rightarrow> nat" where
  "sift_child cmp n r xs =
     (if 2 * r + 2 < n \<and> cmp (xs ! (2 * r + 1)) (xs ! (2 * r + 2)) < 0
      then 2 * r + 2 else 2 * r + 1)"

function sift :: "('a \<Rightarrow> 'a \<Rightarrow> int) \<Rightarrow> nat \<Rightarrow> nat \<Rightarrow> 'a list \<Rightarrow> 'a list" where
  "sift cmp n r xs =
     (if 2 * r + 1 < n then
        (if cmp (xs ! r) (xs ! sift_child cmp n r xs) \<ge> 0 then xs
         else sift cmp n (sift_child cmp n r xs) (swap_elems xs r (sift_child cmp n r xs)))
      else xs)"
  by pat_completeness auto
termination
  by (relation "measure (\<lambda>(cmp, n, r, xs). n - r)") (auto simp: sift_child_def)

primrec heapify :: "('a \<Rightarrow> 'a \<Rightarrow> int) \<Rightarrow> nat \<Rightarrow> nat \<Rightarrow> 'a list \<Rightarrow> 'a list" where
  "heapify cmp n 0 xs = xs"
| "heapify cmp n (Suc i) xs = heapify cmp n i (sift cmp n i xs)"

primrec sortdown :: "('a \<Rightarrow> 'a \<Rightarrow> int) \<Rightarrow> nat \<Rightarrow> 'a list \<Rightarrow> 'a list" where
  "sortdown cmp 0 xs = xs"
| "sortdown cmp (Suc i) xs =
     (if i = 0 then xs else sortdown cmp i (sift cmp i 0 (swap_elems xs 0 i)))"

definition heapsort :: "('a \<Rightarrow> 'a \<Rightarrow> int) \<Rightarrow> 'a list \<Rightarrow> 'a list" where
  "heapsort cmp xs = sortdown cmp (length xs) (heapify cmp (length xs) (length xs div 2) xs)"

declare sift.simps [simp del]

declare generic_swap.simps [simp del]

section \<open>What a swap function does\<close>

text \<open>The exchange of two blocks of \<open>k\<close> bytes, and what \<^verbatim>\<open>sort\<close> needs of a swap function:
  that it exchanges two blocks of \<^verbatim>\<open>size\<close> bytes that do not overlap.\<close>

definition exchange :: "nat \<Rightarrow> memory \<Rightarrow> ulong \<Rightarrow> ulong \<Rightarrow> memory" where
  "exchange k m a b =
     (\<lambda>x. if unat (x - a) < k then m (b + (x - a))
          else if unat (x - b) < k then m (a + (x - b)) else m x)"

definition blocks_apart :: "nat \<Rightarrow> ulong \<Rightarrow> ulong \<Rightarrow> bool" where
  "blocks_apart k a b \<longleftrightarrow> k \<le> unat (a - b) \<and> k \<le> unat (b - a)"

definition swaps :: "int \<Rightarrow> swap_func \<Rightarrow> bool" where
  "swaps sz f \<longleftrightarrow> (\<forall>m a b. blocks_apart (nat sz) a b \<longrightarrow> f m a b sz = exchange (nat sz) m a b)"

lemma word_neg_one: "unat (a - (a + 1 :: ulong)) = 2 ^ 32 - 1"
  using unat_neg [of "1 :: ulong"] by simp

lemma blocks_apart_pred:
  assumes "blocks_apart (Suc k) a b"
  shows "blocks_apart k (a + 1) (b + 1)" "a \<noteq> b" "k < unat (a - b)" "k < unat (b - a)" "k < 2 ^ 32"
  using assms unat_bound [of "a - b"] by (auto simp: blocks_apart_def)

lemma exchange_Suc:
  assumes "blocks_apart (Suc k) a b"
  shows "exchange (Suc k) m a b = exchange k (m(a := m b, b := m a)) (a + 1) (b + 1)"
proof (rule ext)
  fix x
  note ap = blocks_apart_pred [OF assms]
  let ?m = "m(a := m b, b := m a)"
  note range = next_in_range [OF ap(5), of x a] next_in_range [OF ap(5), of x b]
  have off: "b + 1 + (x - (a + 1)) = b + (x - a)" "a + 1 + (x - (b + 1)) = a + (x - b)" by simp_all
  have ba: "?m (b + (x - a)) = m (b + (x - a))" if "x \<noteq> a" "unat (x - a) < Suc k"
  proof -
    have "x - a \<noteq> a - b" using that(2) ap(3) by auto
    then have "b + (x - a) \<noteq> a" by (auto simp: algebra_simps)
    moreover have "b + (x - a) \<noteq> b" using that(1) by simp
    ultimately show ?thesis by simp
  qed
  have ab: "?m (a + (x - b)) = m (a + (x - b))" if "x \<noteq> b" "unat (x - b) < Suc k"
  proof -
    have "x - b \<noteq> b - a" using that(2) ap(4) by auto
    then have "a + (x - b) \<noteq> b" by (auto simp: algebra_simps)
    moreover have "a + (x - b) \<noteq> a" using that(1) by simp
    ultimately show ?thesis by simp
  qed
  show "exchange (Suc k) m a b x = exchange k ?m (a + 1) (b + 1) x"
    unfolding exchange_def off range using ba ab ap by auto
qed

lemma exchange_0 [simp]: "exchange 0 m a b = m"
  by (simp add: exchange_def)

lemma generic_swap_exchange:
  assumes "blocks_apart (Suc k) a b"
  shows "generic_swap m a b (int (Suc k)) = exchange (Suc k) m a b"
  using assms
proof (induction k arbitrary: m a b)
  case 0
  then show ?case by (simp add: generic_swap.simps [of m a b] exchange_Suc)
next
  case (Suc k)
  have e: "int (Suc (Suc k)) - 1 = int (Suc k)" "0 < int (Suc k)" by simp_all
  show ?case
    using Suc.IH [OF blocks_apart_pred(1) [OF Suc.prems]]
    by (simp only: generic_swap.simps [of m a b] e Let_def if_True exchange_Suc [OF Suc.prems] fun_upd_apply)
qed

lemma swaps_generic_swap: "0 < sz \<Longrightarrow> swaps sz generic_swap"
  using generic_swap_exchange [of "nat sz - 1"] by (auto simp: swaps_def)

lemma word_bytes_split:
  fixes v0 v1 v2 v3 :: u8
  defines "v \<equiv> ucast v0 OR push_bit 8 (ucast v1) OR push_bit 16 (ucast v2) OR push_bit 24 (ucast v3) :: u32"
  shows "ucast v = v0" "ucast (drop_bit 8 v) = v1" "ucast (drop_bit 16 v) = v2" "ucast (drop_bit 24 v) = v3"
proof -
  have "\<not> bit (w :: u8) (8 + n)" "\<not> bit w (16 + n)" "\<not> bit w (24 + n)" for w n
    using bit_imp_le_length [of w] by fastforce+
  then show "ucast v = v0" "ucast (drop_bit 8 v) = v1" "ucast (drop_bit 16 v) = v2" "ucast (drop_bit 24 v) = v3"
    unfolding v_def by (auto intro!: bit_word_eqI simp: bit_simps)
qed

lemma blocks_apart_shift:
  assumes "blocks_apart k a b" "i < k" "j < k"
  shows "a + of_nat i \<noteq> b + of_nat j"
proof
  assume e: "a + of_nat i = b + of_nat j"
  have k: "k < 2 ^ 32" using assms(1) unat_bound [of "a - b"] by (simp add: blocks_apart_def)
  then have u: "unat (of_nat i :: ulong) = i" "unat (of_nat j :: ulong) = j"
    using assms(2,3) by (simp_all add: unat_of_nat)
  have d: "a - b = of_nat j - of_nat i" "b - a = of_nat i - of_nat j"
    using e by (simp_all add: algebra_simps)
  have "unat (of_nat j - of_nat i :: ulong) < k \<or> unat (of_nat i - of_nat j :: ulong) < k"
  proof (cases "i \<le> j")
    case True
    then have "unat (of_nat j - of_nat i :: ulong) = j - i" using u by (simp add: unat_sub word_le_nat_alt)
    then show ?thesis using assms(3) by linarith
  next
    case False
    then have "unat (of_nat i - of_nat j :: ulong) = i - j" using u by (simp add: unat_sub word_le_nat_alt)
    then show ?thesis using assms(2) by linarith
  qed
  then show False using assms(1) unfolding blocks_apart_def d by linarith
qed

lemma exchange_at:
  assumes "blocks_apart k a b" "unat i < k"
  shows "exchange k m a b (a + i) = m (b + i)" "exchange k m a b (b + i) = m (a + i)"
proof -
  have "k \<le> unat (b + i - a)"
    using blocks_apart_shift [OF assms(1), of "unat (b + i - a)" "unat i"] assms(2) by force
  then show "exchange k m a b (a + i) = m (b + i)" "exchange k m a b (b + i) = m (a + i)"
    using assms(2) by (simp_all add: exchange_def)
qed

lemma exchange_outside:
  "k \<le> unat (x - a) \<Longrightarrow> k \<le> unat (x - b) \<Longrightarrow> exchange k m a b x = m x"
  by (simp add: exchange_def)

lemma word_less_4: "unat (i :: ulong) < 4 \<longleftrightarrow> i \<in> {0, 1, 2, 3}"
proof
  assume "unat i < 4"
  then have "unat i \<in> {0, 1, 2, 3}" by auto
  moreover have "i = of_nat (unat i)" by simp
  ultimately show "i \<in> {0, 1, 2, 3}" by (elim insertE emptyE) (simp_all only:, simp_all)
qed auto

lemma u32_swap_exchange:
  assumes "blocks_apart 4 a b"
  shows "u32_swap m a b sz = exchange 4 m a b"
proof (rule ext)
  fix x
  let ?u = "m(a := m b, a + 1 := m (b + 1), a + 2 := m (b + 2), a + 3 := m (b + 3),
      b := m a, b + 1 := m (a + 1), b + 2 := m (a + 2), b + 3 := m (a + 3))"
  have u: "u32_swap m a b sz = ?u"
    unfolding u32_swap_def write_word_def read_word_def word_bytes_split Let_def ..
  have ne: "a + i \<noteq> b + j" if "i \<in> {0, 1, 2, 3}" "j \<in> {0, 1, 2, 3}" for i j
    using blocks_apart_shift [OF assms, of "unat i" "unat j"] that unfolding word_less_4 [symmetric] by simp
  then have "(+) a ` {0, 1, 2, 3} \<inter> (+) b ` {0, 1, 2, 3} = {}" by blast
  then have dist: "distinct [a, a + 1, a + 2, a + 3, b, b + 1, b + 2, b + 3]" by auto
  consider i where "i \<in> {0, 1, 2, 3}" "x = a + i" | i where "i \<in> {0, 1, 2, 3}" "x = b + i"
    | "4 \<le> unat (x - a)" "4 \<le> unat (x - b)"
    by (metis word_less_4 add_diff_cancel_left' diff_add_cancel add.commute not_less)
  then have "?u x = exchange 4 m a b x"
  proof cases
    case (1 i)
    then have "exchange 4 m a b x = m (b + i)" using exchange_at [OF assms] word_less_4 by blast
    then show ?thesis using 1 dist by auto
  next
    case (2 i)
    then have "exchange 4 m a b x = m (a + i)" using exchange_at [OF assms] word_less_4 by blast
    then show ?thesis using 2 dist by auto
  next
    case 3
    then have "x - a \<notin> {0, 1, 2, 3}" "x - b \<notin> {0, 1, 2, 3}" by (auto simp flip: word_less_4)
    then have "x \<notin> set [a, a + 1, a + 2, a + 3, b, b + 1, b + 2, b + 3]" by auto
    then show ?thesis using exchange_outside [OF 3] by simp
  qed
  then show "u32_swap m a b sz x = exchange 4 m a b x" unfolding u .
qed

lemma swaps_u32_swap: "swaps 4 u32_swap"
  by (simp add: swaps_def u32_swap_exchange)

section \<open>Permutation\<close>

lemma length_swap_elems [simp]: "length (swap_elems xs i j) = length xs"
  by (simp add: swap_elems_def)

lemma mset_swap_elems:
  "i < length xs \<Longrightarrow> j < length xs \<Longrightarrow> mset (swap_elems xs i j) = mset xs"
  by (simp add: swap_elems_def mset_swap)

lemma nth_swap_elems:
  assumes "i < length xs" "j < length xs" "k < length xs"
  shows "swap_elems xs i j ! k = (if k = j then xs ! i else if k = i then xs ! j else xs ! k)"
  using nth_swap [OF assms] by (simp add: swap_elems_def)

lemma sift_child_cases: "sift_child cmp n r xs = 2 * r + 1 \<or> sift_child cmp n r xs = 2 * r + 2"
  by (simp add: sift_child_def)

lemma sift_child_less: "2 * r + 1 < n \<Longrightarrow> sift_child cmp n r xs < n"
  by (simp add: sift_child_def)

lemma mset_sift: "n \<le> length xs \<Longrightarrow> mset (sift cmp n r xs) = mset xs"
proof (induction cmp n r xs rule: sift.induct)
  case (1 cmp n r xs)
  show ?case
    using 1 sift_child_less [of r n cmp xs]
    by (auto simp: sift.simps [of cmp n r xs] mset_swap_elems)
qed

lemma length_sift [simp]: "length (sift cmp n r xs) = length xs"
proof (induction cmp n r xs rule: sift.induct)
  case (1 cmp n r xs)
  then show ?case by (simp add: sift.simps [of cmp n r xs])
qed

lemma mset_heapify: "n \<le> length xs \<Longrightarrow> mset (heapify cmp n i xs) = mset xs"
  by (induction i arbitrary: xs) (simp_all add: mset_sift)

lemma length_heapify [simp]: "length (heapify cmp n i xs) = length xs"
  by (induction i arbitrary: xs) simp_all

lemma mset_sortdown: "n \<le> length xs \<Longrightarrow> mset (sortdown cmp n xs) = mset xs"
proof (induction n arbitrary: xs)
  case (Suc n)
  then have "0 < length xs" "n < length xs" by linarith+
  with Suc show ?case by (simp add: mset_sift mset_swap_elems)
qed simp

lemma mset_heapsort: "mset (heapsort cmp xs) = mset xs"
  by (simp add: heapsort_def mset_sortdown mset_heapify)

lemma length_heapsort [simp]: "length (heapsort cmp xs) = length xs"
  using mset_heapsort [of cmp xs] by (metis size_mset)

lemma set_heapsort [simp]: "set (heapsort cmp xs) = set xs"
  using mset_heapsort [of cmp xs] by (metis set_mset_mset)

text \<open>The sift touches only indices from \<open>r\<close> up and below \<open>n\<close>.\<close>

lemma sift_outside:
  "n \<le> length xs \<Longrightarrow> k < r \<or> n \<le> k \<Longrightarrow> k < length xs \<Longrightarrow> r < length xs
    \<Longrightarrow> sift cmp n r xs ! k = xs ! k"
proof (induction cmp n r xs rule: sift.induct)
  case (1 cmp n r xs)
  let ?c = "sift_child cmp n r xs"
  have c: "2 * r + 1 < n \<Longrightarrow> ?c < n" "r < ?c"
    using sift_child_less [of r n cmp xs] sift_child_cases [of cmp n r xs] by auto
  show ?case
    using 1 c by (auto simp: sift.simps [of cmp n r xs] nth_swap_elems)
qed

lemma mset_take_sift:
  assumes "n \<le> length xs" "r < length xs"
  shows "mset (take n (sift cmp n r xs)) = mset (take n xs)"
proof -
  let ?t = "sift cmp n r xs"
  have "drop n ?t = drop n xs"
    using assms by (intro nth_equalityI) (auto simp: sift_outside)
  moreover have "mset (take n ?t) + mset (drop n ?t) = mset (take n xs) + mset (drop n xs)"
    using mset_sift [OF assms(1), of cmp r] by (metis append_take_drop_id mset_append)
  ultimately show ?thesis by simp
qed

section \<open>Sortedness, for lawful comparators\<close>

text \<open>
  What \<^verbatim>\<open>sort\<close> needs of the comparison function it is given, on the elements it is
  given: the sign flips with the arguments, and \<open>\<le> 0\<close> is transitive.
\<close>

locale comparator =
  fixes cmp :: "'a \<Rightarrow> 'a \<Rightarrow> int" and D :: "'a set"
  assumes cmp_flip: "x \<in> D \<Longrightarrow> y \<in> D \<Longrightarrow> cmp x y \<le> 0 \<longleftrightarrow> cmp y x \<ge> 0"
    and cmp_trans: "x \<in> D \<Longrightarrow> y \<in> D \<Longrightarrow> z \<in> D \<Longrightarrow> cmp x y \<le> 0 \<Longrightarrow> cmp y z \<le> 0 \<Longrightarrow> cmp x z \<le> 0"
begin

definition heap_from :: "nat \<Rightarrow> nat \<Rightarrow> 'a list \<Rightarrow> bool" where
  "heap_from lo n xs \<longleftrightarrow>
     (\<forall>p c. lo \<le> p \<longrightarrow> c < n \<longrightarrow> c = 2 * p + 1 \<or> c = 2 * p + 2 \<longrightarrow> cmp (xs ! c) (xs ! p) \<le> 0)"

definition heap_except :: "nat \<Rightarrow> nat \<Rightarrow> nat \<Rightarrow> 'a list \<Rightarrow> bool" where
  "heap_except lo n r xs \<longleftrightarrow>
     (\<forall>p c. lo \<le> p \<longrightarrow> p \<noteq> r \<longrightarrow> c < n \<longrightarrow> c = 2 * p + 1 \<or> c = 2 * p + 2 \<longrightarrow> cmp (xs ! c) (xs ! p) \<le> 0)
   \<and> (\<forall>q c. lo \<le> q \<longrightarrow> r = 2 * q + 1 \<or> r = 2 * q + 2 \<longrightarrow> c < n \<longrightarrow> c = 2 * r + 1 \<or> c = 2 * r + 2
        \<longrightarrow> cmp (xs ! c) (xs ! q) \<le> 0)"

lemma cmp_refl: "x \<in> D \<Longrightarrow> cmp x x \<le> 0"
  using cmp_flip [of x x] by linarith

lemma cmp_less_le: "x \<in> D \<Longrightarrow> y \<in> D \<Longrightarrow> \<not> cmp x y \<ge> 0 \<Longrightarrow> cmp x y \<le> 0"
  by simp

lemma sift_child_max:
  assumes "set xs \<subseteq> D" "n \<le> length xs" "c < n" "c = 2 * r + 1 \<or> c = 2 * r + 2"
  shows "cmp (xs ! c) (xs ! sift_child cmp n r xs) \<le> 0"
proof -
  let ?l = "2 * r + 1" and ?h = "2 * r + 2"
  have D: "k < n \<Longrightarrow> xs ! k \<in> D" for k using assms(1,2) by (auto intro: nth_mem)
  show ?thesis
  proof (cases "?h < n \<and> cmp (xs ! ?l) (xs ! ?h) < 0")
    case True
    then have "sift_child cmp n r xs = ?h" by (simp add: sift_child_def)
    then show ?thesis using assms(4) True D cmp_refl [of "xs ! ?h"] by auto
  next
    case False
    then have s: "sift_child cmp n r xs = ?l" by (auto simp: sift_child_def)
    show ?thesis
    proof (cases "c = ?l")
      case True
      then show ?thesis using s D [OF assms(3)] cmp_refl by simp
    next
      case c: False
      then have "c = ?h" using assms(4) by simp
      then show ?thesis using s False assms(3) D cmp_flip [of "xs ! ?h" "xs ! ?l"] by auto
    qed
  qed
qed

text \<open>One step of the sift: the hole moves from \<open>r\<close> to the larger child.\<close>

lemma heap_except_step:
  assumes D: "set xs \<subseteq> D" and n: "n \<le> length xs" and r: "2 * r + 1 < n" "lo \<le> r"
    and inv: "heap_except lo n r xs"
    and less: "\<not> cmp (xs ! r) (xs ! sift_child cmp n r xs) \<ge> 0"
  shows "heap_except lo n (sift_child cmp n r xs) (swap_elems xs r (sift_child cmp n r xs))"
proof -
  define k where "k = sift_child cmp n r xs"
  have k: "k = 2 * r + 1 \<or> k = 2 * r + 2" "k < n"
    using sift_child_cases [of cmp n r xs] sift_child_less [OF r(1), of cmp xs] by (auto simp: k_def)
  have nth: "c < n \<Longrightarrow> swap_elems xs r k ! c = (if c = k then xs ! r else if c = r then xs ! k else xs ! c)" for c
    using n k r by (subst nth_swap_elems) auto
  have mem: "c < n \<Longrightarrow> xs ! c \<in> D" for c using D n by (auto intro: nth_mem)
  have rk: "cmp (xs ! r) (xs ! k) \<le> 0" using less by (simp add: k_def)
  have up: "cmp (xs ! k) (xs ! q) \<le> 0" if "lo \<le> q" "r = 2 * q + 1 \<or> r = 2 * q + 2" for q
    using inv that k unfolding heap_except_def by blast
  show ?thesis
    unfolding k_def [symmetric] heap_except_def
  proof (intro conjI allI impI)
    fix p c assume pc: "lo \<le> p" "p \<noteq> k" "c < n" "c = 2 * p + 1 \<or> c = 2 * p + 2"
    have cp: "p < c" "p < n" using pc by auto
    consider "p = r" | "p \<noteq> r" "c = r" | "p \<noteq> r" "c \<noteq> r" by blast
    then show "cmp (swap_elems xs r k ! c) (swap_elems xs r k ! p) \<le> 0"
    proof cases
      case 1
      then have "cmp (xs ! c) (xs ! k) \<le> 0"
        using sift_child_max [OF D n pc(3), of r] pc(4) by (simp add: k_def)
      then show ?thesis using 1 rk pc cp by (auto simp: nth)
    next
      case 2
      then show ?thesis using up [of p] pc cp by (auto simp: nth)
    next
      case 3
      then have "c \<noteq> k" using pc(4) k(1) by auto
      moreover have "cmp (xs ! c) (xs ! p) \<le> 0"
        using inv 3 pc unfolding heap_except_def by blast
      ultimately show ?thesis using 3 pc cp by (auto simp: nth)
    qed
  next
    fix q c assume qc: "lo \<le> q" "k = 2 * q + 1 \<or> k = 2 * q + 2" "c < n" "c = 2 * k + 1 \<or> c = 2 * k + 2"
    then have "q = r" using k(1) by auto
    moreover have "k \<noteq> r" "lo \<le> k" using k(1) r(2) by auto
    then have "cmp (xs ! c) (xs ! k) \<le> 0"
      using inv qc(3,4) unfolding heap_except_def by blast
    ultimately show "cmp (swap_elems xs r k ! c) (swap_elems xs r k ! q) \<le> 0"
      using qc k r by (auto simp: nth)
  qed
qed

lemma heap_except_done:
  assumes "set xs \<subseteq> D" "n \<le> length xs" "heap_except lo n r xs"
    and "2 * r + 1 < n \<Longrightarrow> cmp (xs ! r) (xs ! sift_child cmp n r xs) \<ge> 0"
  shows "heap_from lo n xs"
  unfolding heap_from_def
proof (intro allI impI)
  fix p c assume pc: "lo \<le> p" "c < n" "c = 2 * p + 1 \<or> c = 2 * p + 2"
  show "cmp (xs ! c) (xs ! p) \<le> 0"
  proof (cases "p = r")
    case True
    have mem: "k < n \<Longrightarrow> xs ! k \<in> D" for k using assms(1,2) by (auto intro: nth_mem)
    have r: "2 * r + 1 < n" using True pc by auto
    let ?k = "sift_child cmp n r xs"
    have k: "?k < n" using r by (rule sift_child_less)
    have "cmp (xs ! c) (xs ! ?k) \<le> 0"
      using sift_child_max [OF assms(1,2) pc(2), of r] pc(3) True by simp
    moreover have "cmp (xs ! ?k) (xs ! r) \<le> 0"
      using assms(4) [OF r] cmp_flip [of "xs ! ?k" "xs ! r"] mem k r by simp
    ultimately show ?thesis
      using True cmp_trans [of "xs ! c" "xs ! ?k" "xs ! r"] mem k r pc(2) by simp
  next
    case False
    then show ?thesis using assms(3) pc unfolding heap_except_def by blast
  qed
qed

lemma heap_sift:
  assumes "set xs \<subseteq> D" "n \<le> length xs" "lo \<le> r" "heap_except lo n r xs"
  shows "heap_from lo n (sift cmp n r xs)"
  using assms
proof (induction "n - r" arbitrary: r xs rule: less_induct)
  case less
  let ?k = "sift_child cmp n r xs"
  show ?case
  proof (cases "2 * r + 1 < n \<and> \<not> cmp (xs ! r) (xs ! ?k) \<ge> 0")
    case True
    have k: "?k < n" "r < ?k"
      using True sift_child_less [of r n cmp xs] sift_child_cases [of cmp n r xs] by auto
    have "heap_from lo n (sift cmp n ?k (swap_elems xs r ?k))"
    proof (rule less.hyps)
      show "set (swap_elems xs r ?k) \<subseteq> D"
        using less.prems k mset_swap_elems [of r xs ?k] by (metis set_mset_mset order_less_trans order_less_le_trans)
      show "heap_except lo n ?k (swap_elems xs r ?k)"
        using less.prems True by (intro heap_except_step) auto
    qed (use less.prems k in auto)
    then show ?thesis using True by (simp add: sift.simps [of cmp n r xs])
  next
    case False
    then have "sift cmp n r xs = xs" by (auto simp: sift.simps [of cmp n r xs])
    then show ?thesis using heap_except_done less.prems False by auto
  qed
qed

lemma heap_heapify:
  assumes "set xs \<subseteq> D" "n \<le> length xs" "heap_from i n xs"
  shows "heap_from 0 n (heapify cmp n i xs)"
  using assms
proof (induction i arbitrary: xs)
  case (Suc i)
  have "heap_except i n i xs"
    using Suc.prems(3) unfolding heap_from_def heap_except_def by auto
  then have "heap_from i n (sift cmp n i xs)"
    using Suc.prems by (intro heap_sift) auto
  moreover have "set (sift cmp n i xs) \<subseteq> D"
    using Suc.prems mset_sift [of n xs cmp i] by (metis set_mset_mset)
  ultimately show ?case using Suc by simp
qed simp

text \<open>The root of a heap is its maximum.\<close>

lemma heap_root_max:
  assumes "set xs \<subseteq> D" "n \<le> length xs" "heap_from 0 n xs" "k < n"
  shows "cmp (xs ! k) (xs ! 0) \<le> 0"
  using assms(4)
proof (induction k rule: less_induct)
  case (less k)
  have mem: "j < n \<Longrightarrow> xs ! j \<in> D" for j using assms(1,2) by (auto intro: nth_mem)
  show ?case
  proof (cases "k = 0")
    case True
    then show ?thesis using less.prems mem cmp_refl by auto
  next
    case False
    define p where "p = (k - 1) div 2"
    have p: "k = 2 * p + 1 \<or> k = 2 * p + 2" "p < k" using False unfolding p_def by presburger+
    have "cmp (xs ! k) (xs ! p) \<le> 0"
      using assms(3) p less.prems unfolding heap_from_def by blast
    moreover have "cmp (xs ! p) (xs ! 0) \<le> 0" using less p by auto
    ultimately show ?thesis
      using cmp_trans [of "xs ! k" "xs ! p" "xs ! 0"] mem less.prems p by auto
  qed
qed

text \<open>The invariant of the second phase: a heap below \<open>n\<close>, and from \<open>n\<close> on the
  final elements in order, none below an element of the heap.\<close>

definition sorting :: "nat \<Rightarrow> 'a list \<Rightarrow> bool" where
  "sorting n xs \<longleftrightarrow> heap_from 0 n xs
     \<and> (\<forall>i j. n \<le> j \<longrightarrow> j < length xs \<longrightarrow> i \<le> j \<longrightarrow> cmp (xs ! i) (xs ! j) \<le> 0)"

lemma sorting_step:
  assumes D: "set xs \<subseteq> D" and n: "Suc n \<le> length xs" "0 < n" and s: "sorting (Suc n) xs"
  shows "sorting n (sift cmp n 0 (swap_elems xs 0 n))"
proof -
  let ?s = "swap_elems xs 0 n" and ?t = "sift cmp n 0 (swap_elems xs 0 n)"
  have len: "0 < length xs" "n < length xs" using n by linarith+
  have nth: "k < length xs \<Longrightarrow> ?s ! k = (if k = n then xs ! 0 else if k = 0 then xs ! n else xs ! k)" for k
    using len by (subst nth_swap_elems) auto
  have msets: "mset ?s = mset xs" using len by (rule mset_swap_elems)
  have Ds: "set ?s \<subseteq> D" using D msets by (metis set_mset_mset)
  have heap: "heap_from 0 (Suc n) xs" using s by (simp add: sorting_def)
  have "heap_except 0 n 0 ?s"
    unfolding heap_except_def
  proof (intro conjI allI impI)
    fix p c assume pc: "p \<noteq> 0" "c < n" "c = 2 * p + 1 \<or> c = 2 * p + 2"
    then have "c < Suc n" by simp
    then have "cmp (xs ! c) (xs ! p) \<le> 0"
      using heap pc(3) unfolding heap_from_def by blast
    with pc show "cmp (?s ! c) (?s ! p) \<le> 0" using n nth by auto
  qed auto
  then have ht: "heap_from 0 n ?t"
    using Ds n by (intro heap_sift) auto
  have hi: "?t ! k = ?s ! k" if "n \<le> k" "k < length xs" for k
    using that len by (intro sift_outside) auto
  have max: "cmp (xs ! k) (xs ! 0) \<le> 0" if "k < Suc n" for k
    using heap_root_max [OF D n(1) heap that] .
  have pre: "\<exists>k < Suc n. ?t ! i = xs ! k" if "i < n" for i
  proof -
    have "?t ! i \<in> set (take n ?t)" using that len by (auto simp: in_set_conv_nth)
    also have "set (take n ?t) = set (take n ?s)"
      using mset_take_sift [of n ?s 0 cmp] len by (metis length_swap_elems less_imp_le_nat set_mset_mset)
    finally obtain k where "k < n" "?t ! i = ?s ! k" using len by (auto simp: in_set_conv_nth)
    then show ?thesis using nth [of k] len n by (auto intro: exI [of _ n] exI [of _ k])
  qed
  have tail: "cmp (xs ! i) (xs ! j) \<le> 0" if "n < j" "j < length xs" "i \<le> j" for i j
    using s that by (simp add: sorting_def)
  show ?thesis
    unfolding sorting_def
  proof (intro conjI allI impI)
    fix i j assume ij: "n \<le> j" "j < length ?t" "i \<le> j"
    have "\<exists>k \<le> j. ?t ! i = xs ! k \<and> (j = n \<longrightarrow> k \<le> n)"
    proof (cases "i < n")
      case True
      then show ?thesis using pre [of i] ij by (auto simp: less_Suc_eq_le intro: order_trans)
    next
      case False
      then show ?thesis using hi [of i] nth [of i] ij by auto
    qed
    then obtain k where k: "k \<le> j" "?t ! i = xs ! k" "j = n \<longrightarrow> k \<le> n" by blast
    show "cmp (?t ! i) (?t ! j) \<le> 0"
    proof (cases "j = n")
      case True
      then show ?thesis using k max [of k] hi [of n] nth [of n] len by simp
    next
      case False
      then show ?thesis using k tail [of j k] hi [of j] nth [of j] ij by simp
    qed
  qed (rule ht)
qed

lemma sorted_sortdown:
  assumes "set xs \<subseteq> D" "n \<le> length xs" "sorting n xs"
  shows "sorted_wrt (\<lambda>x y. cmp x y \<le> 0) (sortdown cmp n xs)"
  using assms
proof (induction n arbitrary: xs)
  case 0
  then show ?case by (auto simp: sorting_def sorted_wrt_iff_nth_less)
next
  case (Suc n)
  show ?case
  proof (cases "n = 0")
    case True
    then show ?thesis
      using Suc.prems by (auto simp: sorting_def sorted_wrt_iff_nth_less)
  next
    case False
    let ?t = "sift cmp n 0 (swap_elems xs 0 n)"
    have l: "0 < length xs" "n < length xs" using Suc.prems(2) by linarith+
    have "mset ?t = mset xs" using l by (simp add: mset_sift mset_swap_elems)
    then have "set ?t \<subseteq> D" using Suc.prems(1) by (metis set_mset_mset)
    then show ?thesis
      using Suc.IH [of ?t] sorting_step [of xs n] Suc.prems False by simp
  qed
qed

theorem sorted_heapsort:
  assumes "set xs \<subseteq> D"
  shows "sorted_wrt (\<lambda>x y. cmp x y \<le> 0) (heapsort cmp xs)"
proof -
  let ?n = "length xs" and ?h = "heapify cmp (length xs) (length xs div 2) xs"
  have "heap_from (?n div 2) ?n xs" by (auto simp: heap_from_def)
  then have "heap_from 0 ?n ?h" using assms by (intro heap_heapify) auto
  then have "sorting ?n ?h" by (simp add: sorting_def)
  moreover have "set ?h \<subseteq> D" using assms mset_heapify [of ?n xs cmp] by (metis order_refl set_mset_mset)
  ultimately show ?thesis by (simp add: heapsort_def sorted_sortdown)
qed

end

section \<open>Arrays in memory\<close>

text \<open>The \<open>k\<close> bytes at an address, and the elements of an array.\<close>

definition elem_bytes :: "memory \<Rightarrow> nat \<Rightarrow> ulong \<Rightarrow> u8 list" where
  "elem_bytes m k a = map (\<lambda>j. m (a + of_nat j)) [0..<k]"

definition elems :: "memory \<Rightarrow> ulong \<Rightarrow> nat \<Rightarrow> nat \<Rightarrow> u8 list list" where
  "elems m base num k = map (\<lambda>i. elem_bytes m k (base + of_nat (i * k))) [0..<num]"

lemma length_elems [simp]: "length (elems m base num k) = num"
  by (simp add: elems_def)

lemma nth_elems [simp]: "i < num \<Longrightarrow> elems m base num k ! i = elem_bytes m k (base + of_nat (i * k))"
  by (simp add: elems_def)

lemma elem_blocks_apart:
  assumes "i < num" "j < num" "i \<noteq> j" "num * k \<le> 2 ^ 30"
  shows "blocks_apart k (base + of_nat (i * k) :: ulong) (base + of_nat (j * k))"
proof -
  have half: "k \<le> unat (of_nat (q * k) - of_nat (p * k) :: ulong)" "k \<le> unat (of_nat (p * k) - of_nat (q * k) :: ulong)"
    if pq: "p < q" "q < num" for p q
  proof -
    have "Suc p * k \<le> q * k" "Suc q * k \<le> num * k" using pq by (simp_all only: mult_le_mono1 Suc_le_eq)
    then have b: "p * k + k \<le> q * k" "q * k + k \<le> 2 ^ 30" using assms(4) by simp_all
    have d: "of_nat (q * k) - of_nat (p * k) = (of_nat (q * k - p * k) :: ulong)"
      by (rule of_nat_diff [symmetric]) (use b in linarith)
    have u: "unat (of_nat (q * k - p * k) :: ulong) = q * k - p * k"
      using b by (simp add: unat_of_nat)
    show "k \<le> unat (of_nat (q * k) - of_nat (p * k) :: ulong)" unfolding d u using b by simp
    show "k \<le> unat (of_nat (p * k) - of_nat (q * k) :: ulong)"
    proof (cases "k = 0")
      case False
      then have "(of_nat (q * k - p * k) :: ulong) \<noteq> 0" using u b by (metis diff_is_0_eq le_add1 not_less order_trans unat_0 add_le_same_cancel1 le_zero_eq)
      moreover have "of_nat (p * k) - of_nat (q * k) = - (of_nat (q * k - p * k) :: ulong)"
        unfolding d [symmetric] by simp
      ultimately have "unat (of_nat (p * k) - of_nat (q * k) :: ulong) = 2 ^ 32 - (q * k - p * k)"
        using unat_neg [of "of_nat (q * k - p * k) :: ulong"] u by (simp del: of_nat_mult)
      then show ?thesis using b by simp
    qed simp
  qed
  have "base + x - (base + y) = x - y" for x y :: ulong by simp
  then show ?thesis
    unfolding blocks_apart_def using half [of i j] half [of j i] assms(1-3) by (metis nat_neq_iff)
qed

lemma bytes_exchange:
  assumes "blocks_apart k a b"
  shows "elem_bytes (exchange k m a b) k a = elem_bytes m k b" "elem_bytes (exchange k m a b) k b = elem_bytes m k a"
    and "blocks_apart k c a \<Longrightarrow> blocks_apart k c b \<Longrightarrow> elem_bytes (exchange k m a b) k c = elem_bytes m k c"
proof -
  have k: "k < 2 ^ 32" using assms unat_bound [of "a - b"] by (simp add: blocks_apart_def)
  have u: "unat (of_nat j :: ulong) = j" if "j < k" for j using that k by (simp add: unat_of_nat)
  show "elem_bytes (exchange k m a b) k a = elem_bytes m k b" "elem_bytes (exchange k m a b) k b = elem_bytes m k a"
    using exchange_at [OF assms] u by (simp_all add: elem_bytes_def)
  assume c: "blocks_apart k c a" "blocks_apart k c b"
  have "k \<le> unat (c + of_nat j - d)" if "j < k" "blocks_apart k c d" for j d
    using blocks_apart_shift [OF that(2,1), of "unat (c + of_nat j - d)"] by force
  then show "elem_bytes (exchange k m a b) k c = elem_bytes m k c"
    using c by (simp add: elem_bytes_def exchange_outside)
qed

lemma elems_exchange:
  assumes "i < num" "j < num" "i \<noteq> j" "num * k \<le> 2 ^ 30"
  shows "elems (exchange k m (base + of_nat (i * k)) (base + of_nat (j * k))) base num k
    = swap_elems (elems m base num k) i j"
proof (rule nth_equalityI)
  note ap = elem_blocks_apart [OF _ _ _ assms(4)]
  fix l assume "l < length (elems (exchange k m (base + of_nat (i * k)) (base + of_nat (j * k))) base num k)"
  then have l: "l < num" by simp
  then show "elems (exchange k m (base + of_nat (i * k)) (base + of_nat (j * k))) base num k ! l
      = swap_elems (elems m base num k) i j ! l"
    using bytes_exchange [OF ap [OF assms(1-3)]] ap [OF l assms(1)] ap [OF l assms(2)] assms(1,2)
    by (auto simp: nth_swap_elems)
qed simp

text \<open>Nothing outside the array changes.\<close>

definition same_outside :: "ulong \<Rightarrow> nat \<Rightarrow> memory \<Rightarrow> memory \<Rightarrow> bool" where
  "same_outside base n m m' \<longleftrightarrow> (\<forall>x. n \<le> unat (x - base) \<longrightarrow> m' x = m x)"

lemma same_outside_refl [simp]: "same_outside base n m m"
  by (simp add: same_outside_def)

lemma same_outside_trans: "same_outside base n m m' \<Longrightarrow> same_outside base n m' m'' \<Longrightarrow> same_outside base n m m''"
  by (simp add: same_outside_def)

lemma outside_block:
  assumes "num * k \<le> unat (x - base)" "i < num"
  shows "k \<le> unat (x - (base + of_nat (i * k) :: ulong))"
proof -
  have "Suc i * k \<le> num * k" using assms(2) by (simp only: mult_le_mono1 Suc_le_eq)
  then have i: "i * k + k \<le> unat (x - base)" using assms(1) by simp
  then have u: "unat (of_nat (i * k) :: ulong) = i * k"
    using unat_bound [of "x - base"] by (simp add: unat_of_nat del: of_nat_mult)
  have "unat (x - base - of_nat (i * k)) = unat (x - base) - i * k"
    using i u by (subst unat_sub) (simp_all add: word_le_nat_alt del: of_nat_mult)
  then show ?thesis using i by (simp add: diff_diff_eq)
qed

lemma exchange_same_outside:
  "i < num \<Longrightarrow> j < num
    \<Longrightarrow> same_outside base (num * k) m (exchange k m (base + of_nat (i * k)) (base + of_nat (j * k)))"
  by (simp add: same_outside_def exchange_outside outside_block del: of_nat_mult)

section \<open>The scaled loops compute the index version\<close>

lemma c_int_id: "- 2147483648 \<le> x \<Longrightarrow> x < 2147483648 \<Longrightarrow> c_int x = x"
  by (simp add: c_int_def signed_of_int signed_take_bit_int_eq_self)

lemma c_half_int [simp]: "c_half (int n) = int (n div 2)"
  by (simp add: c_half_def zdiv_int)

text \<open>
  The setting of a call: the comparison function reads only the two elements, the swap function
  exchanges them, and the array is not larger than \<open>2 ^ 30\<close> bytes.
\<close>

locale sort_setting =
  fixes cmp_func :: cmp_func and swap_func :: swap_func and base :: ulong and num k :: nat
    and cmp :: "u8 list \<Rightarrow> u8 list \<Rightarrow> int"
  assumes cmp_reads: "cmp_func m a b = cmp (elem_bytes m k a) (elem_bytes m k b)"
    and swaps: "swaps (int k) swap_func"
    and size_pos: "0 < k"
    and size_bound: "num * k \<le> 2 ^ 30"
begin

lemma at_scaled: "elt_at base (int i * int k) = base + of_nat (i * k)"
  by simp

lemma scaled_less: "int i * int k < int j * int k \<longleftrightarrow> i < j"
  using size_pos by (simp add: mult_less_cancel_right)

lemma scaled_bound: "i \<le> num \<Longrightarrow> int i * int k \<le> 1073741824"
proof -
  assume "i \<le> num"
  then have "i * k \<le> num * k" by (rule mult_le_mono1)
  also have "num * k \<le> 1073741824" using size_bound by simp
  finally have "int (i * k) \<le> 1073741824" by linarith
  then show "int i * int k \<le> 1073741824" by simp
qed

lemma swap_step:
  assumes "i < num" "j < num" "i \<noteq> j"
  shows "elems (swap_func m (base + of_nat (i * k)) (base + of_nat (j * k)) (int k)) base num k
      = swap_elems (elems m base num k) i j"
    and "same_outside base (num * k) m (swap_func m (base + of_nat (i * k)) (base + of_nat (j * k)) (int k))"
  using swaps elem_blocks_apart [OF assms size_bound, of base] elems_exchange [OF assms size_bound, of m base]
    exchange_same_outside [OF assms(1,2), of base k m]
  by (simp_all add: swaps_def del: of_nat_mult)

text \<open>No counter of the inner loop overflows.\<close>

lemma sift_counters:
  assumes "r < num"
  shows "c_int (c_int (int r * int k * 2) + int k) = int (2 * r + 1) * int k"
    and "n \<le> num \<Longrightarrow> 0 < n \<Longrightarrow> c_int (int n * int k - int k) = int (n - 1) * int k"
    and "2 * r + 2 \<le> num \<Longrightarrow> c_int (int (2 * r + 1) * int k + int k) = int (2 * r + 2) * int k"
proof -
  have "int (Suc r) * int k = int r * int k + int k" by (simp add: algebra_simps)
  then have r: "int r * int k + int k \<le> 1073741824" "0 \<le> int r * int k" "0 < int k"
    using scaled_bound [of "Suc r"] assms size_pos by simp_all
  have "c_int (int r * int k * 2) = int r * int k * 2" by (rule c_int_id) (use r in linarith)+
  moreover have "c_int (int r * int k * 2 + int k) = int r * int k * 2 + int k"
    by (rule c_int_id) (use r in linarith)+
  ultimately show "c_int (c_int (int r * int k * 2) + int k) = int (2 * r + 1) * int k"
    by (simp add: algebra_simps)
  show "c_int (int n * int k - int k) = int (n - 1) * int k" if "n \<le> num" "0 < n"
  proof -
    have e: "int n * int k - int k = int (n - 1) * int k"
      using that by (simp add: of_nat_diff algebra_simps)
    have "int (n - 1) * int k \<le> 1073741824" using scaled_bound [of "n - 1"] that by simp
    moreover have "0 \<le> int (n - 1) * int k" by simp
    ultimately show ?thesis unfolding e by (intro c_int_id) linarith+
  qed
  show "c_int (int (2 * r + 1) * int k + int k) = int (2 * r + 2) * int k" if "2 * r + 2 \<le> num"
  proof -
    have e: "int (2 * r + 1) * int k + int k = int (2 * r + 2) * int k" by (simp add: algebra_simps)
    have "0 \<le> int (2 * r + 2) * int k" by simp
    then show ?thesis unfolding e using scaled_bound [OF that] by (intro c_int_id) linarith+
  qed
qed

lemma sift_scaled_unfold:
  fixes m :: memory
  assumes "n \<le> num" "r < num" "2 * r + 1 < n"
  defines "c \<equiv> sift_child cmp n r (elems m base num k)"
  shows "sift_scaled cmp_func swap_func base (int k) (int n * int k) (int r * int k) m =
    (if cmp (elems m base num k ! r) (elems m base num k ! c) \<ge> 0 then Some m
     else sift_scaled cmp_func swap_func base (int k) (int n * int k) (int c * int k)
            (swap_func m (base + of_nat (r * k)) (base + of_nat (c * k)) (int k)))"
proof -
  let ?l = "2 * r + 1" and ?xs = "elems m base num k"
  have n: "0 < n" "?l < num" using assms by auto
  note cnt = sift_counters(1) [OF assms(2)] sift_counters(2) [OF assms(2,1) n(1)]
  have nx: "base + of_nat (?l * k) + word_of_int (int k) = base + of_nat ((2 * r + 2) * k)"
    by (simp add: algebra_simps)
  have less: "int ?l * int k < int (n - 1) * int k \<longleftrightarrow> 2 * r + 2 < n" unfolding scaled_less by auto
  have pick: "(if int ?l * int k < int (n - 1) * int k
        \<and> cmp_func m (elt_at base (int ?l * int k)) (elt_at base (int ?l * int k) + word_of_int (int k)) < 0
      then c_int (int ?l * int k + int k) else int ?l * int k) = int c * int k"
  proof (cases "2 * r + 2 < n")
    case True
    then have "cmp_func m (elt_at base (int ?l * int k)) (elt_at base (int ?l * int k) + word_of_int (int k))
        = cmp (?xs ! ?l) (?xs ! (2 * r + 2))"
      using n assms(1) unfolding at_scaled nx cmp_reads by (simp only: nth_elems order_less_le_trans)
    then show ?thesis
      using True sift_counters(3) [OF assms(2)] assms(1) unfolding less c_def sift_child_def by simp
  qed (simp only: less c_def sift_child_def simp_thms if_False)
  have c: "c < num" using sift_child_less [OF assms(3)] assms(1) unfolding c_def by (metis order_less_le_trans)
  have "cmp_func m (elt_at base (int r * int k)) (elt_at base (int c * int k)) = cmp (?xs ! r) (?xs ! c)"
    using assms(2) c unfolding at_scaled cmp_reads by simp
  then show ?thesis
    using assms(3) scaled_less [of ?l n]
    by (subst sift_scaled.simps, simp only: cnt Let_def, simp only: pick if_True, simp only: at_scaled)
qed

lemma sift_scaled_eq:
  assumes "n \<le> num" "r < num"
  shows "\<exists>m'. sift_scaled cmp_func swap_func base (int k) (int n * int k) (int r * int k) m = Some m'
    \<and> elems m' base num k = sift cmp n r (elems m base num k) \<and> same_outside base (num * k) m m'"
  using assms(2)
proof (induction "n - r" arbitrary: r m rule: less_induct)
  case less
  let ?xs = "elems m base num k" and ?c = "sift_child cmp n r (elems m base num k)"
  show ?case
  proof (cases "2 * r + 1 < n")
    case False
    then show ?thesis
      using less.prems by (subst sift_scaled.simps) (simp add: sift_counters(1) scaled_less sift.simps [of cmp n r] del: of_nat_Suc of_nat_add of_nat_mult)
  next
    case True
    have c: "?c < num" "n - ?c < n - r" "r \<noteq> ?c"
      using sift_child_less [OF True, of cmp ?xs] sift_child_cases [of cmp n r ?xs] assms(1) True by auto
    note swap = swap_step [OF less.prems c(1,3), of m]
    show ?thesis
    proof (cases "cmp (?xs ! r) (?xs ! ?c) \<ge> 0")
      case stop: True
      then show ?thesis
        unfolding sift_scaled_unfold [OF assms(1) less.prems True] sift.simps [of cmp n r] using True by simp
    next
      case False
      let ?s = "swap_func m (base + of_nat (r * k)) (base + of_nat (?c * k)) (int k)"
      obtain m' where "sift_scaled cmp_func swap_func base (int k) (int n * int k) (int ?c * int k) ?s = Some m'"
        "elems m' base num k = sift cmp n ?c (elems ?s base num k)" "same_outside base (num * k) ?s m'"
        using less.hyps [OF c(2,1), of ?s] by blast
      then show ?thesis
        unfolding sift_scaled_unfold [OF assms(1) less.prems True] sift.simps [of cmp n r]
        using False True swap(1) same_outside_trans [OF swap(2)] by (simp only: if_False if_True) blast
    qed
  qed
qed

lemma heapify_scaled_eq:
  assumes "i \<le> num"
  shows "\<exists>m'. heapify_scaled cmp_func swap_func base (int k) (int num * int k) ((int i - 1) * int k) m = Some m'
    \<and> elems m' base num k = heapify cmp num i (elems m base num k) \<and> same_outside base (num * k) m m'"
  using assms
proof (induction i arbitrary: m)
  case 0
  then show ?case using size_pos by (subst heapify_scaled.simps) simp
next
  case (Suc i)
  have e: "(int (Suc i) - 1) * int k = int i * int k" by simp
  have "int i * int k \<le> 1073741824" "int k \<le> 1073741824" "0 \<le> int i * int k"
    using scaled_bound [of i] scaled_bound [of 1] Suc.prems by simp_all
  then have c: "c_int (int i * int k - int k) = (int i - 1) * int k"
    by (subst c_int_id) (linarith, linarith, simp add: left_diff_distrib)
  obtain m1 where m1: "sift_scaled cmp_func swap_func base (int k) (int num * int k) (int i * int k) m = Some m1"
    "elems m1 base num k = sift cmp num i (elems m base num k)" "same_outside base (num * k) m m1"
    using sift_scaled_eq [of num i m] Suc.prems by auto
  show ?case
    unfolding e using Suc.IH [of m1] Suc.prems m1 c same_outside_trans [OF m1(3)]
    by (subst heapify_scaled.simps) auto
qed

lemma sortdown_scaled_eq:
  assumes "i \<le> num"
  shows "\<exists>m'. sortdown_scaled cmp_func swap_func base (int k) ((int i - 1) * int k) m = Some m'
    \<and> elems m' base num k = sortdown cmp i (elems m base num k) \<and> same_outside base (num * k) m m'"
  using assms
proof (induction i arbitrary: m)
  case 0
  then show ?case using size_pos by (subst sortdown_scaled.simps) simp
next
  case (Suc i)
  have e: "(int (Suc i) - 1) * int k = int i * int k" by simp
  show ?case
  proof (cases "i = 0")
    case True
    then show ?thesis by (subst sortdown_scaled.simps) simp
  next
    case False
    then have pos: "0 < int i * int k" "i < num" "0 < num" using size_pos Suc.prems by simp_all
    have "c_int (int i * int k - int k) = int (i - 1) * int k"
      using sift_counters(2) [of 0 i] pos False by simp
    then have c: "c_int (int i * int k - int k) = (int i - 1) * int k"
      using False by (simp add: of_nat_diff)
    note swap = swap_step [OF pos(3,2) False [symmetric], of m]
    let ?s = "swap_func m (base + of_nat (0 * k)) (base + of_nat (i * k)) (int k)"
    obtain m1 where m1: "sift_scaled cmp_func swap_func base (int k) (int i * int k) 0 ?s = Some m1"
      "elems m1 base num k = sift cmp i 0 (swap_elems (elems m base num k) 0 i)" "same_outside base (num * k) ?s m1"
      using sift_scaled_eq [of i 0 ?s] pos swap(1) by auto
    have at: "swap_func m base (elt_at base (int i * int k)) (int k) = ?s" by simp
    obtain m2 where m2: "sortdown_scaled cmp_func swap_func base (int k) ((int i - 1) * int k) m1 = Some m2"
      "elems m2 base num k = sortdown cmp i (elems m1 base num k)" "same_outside base (num * k) m1 m2"
      using Suc.IH [of m1] Suc.prems by auto
    have "sortdown_scaled cmp_func swap_func base (int k) (int i * int k) m = Some m2"
      using pos(1) by (subst sortdown_scaled.simps) (simp only: at m1(1) c m2(1) if_True bind.bind_lunit)
    moreover have "elems m2 base num k = sortdown cmp (Suc i) (elems m base num k)"
      using m2(2) m1(2) False by simp
    ultimately show ?thesis
      unfolding e using same_outside_trans [OF same_outside_trans [OF swap(2) m1(3)] m2(3)] by blast
  qed
qed

end

lemma sort_elems:
  assumes cmp: "\<And>m a b. cmp_func m a b = cmp (elem_bytes m k a) (elem_bytes m k b)"
    and swap: "\<And>f. swap_func = Some f \<Longrightarrow> swaps (int k) f"
    and sz: "0 < k" "num * k \<le> 2 ^ 30" "k < 2 ^ 31"
  shows "\<exists>m'. sort base (int num) (int k) cmp_func swap_func m = Some m'
    \<and> elems m' base num k = heapsort cmp (elems m base num k) \<and> same_outside base (num * k) m m'"
proof -
  define sw where "sw = (case swap_func of Some f \<Rightarrow> f | None \<Rightarrow> if int k = 4 then u32_swap else generic_swap)"
  have "swaps (int k) sw"
    using swap swaps_u32_swap swaps_generic_swap [of "int k"] sz(1) by (auto simp: sw_def split: option.split)
  then have S: "sort_setting cmp_func sw num k cmp" using cmp sz by unfold_locales auto
  have n: "int num * int k \<le> 1073741824" "0 \<le> int num * int k"
    using sort_setting.scaled_bound [OF S order_refl] by simp_all
  have le: "int i \<le> int i * int k" for i using sz(1) by (simp add: mult_le_cancel_left1)
  have k: "int k < 2147483648" using sz(3) by simp
  have half: "int (num div 2) * int k \<le> 1073741824" "0 \<le> int (num div 2) * int k"
    using sort_setting.scaled_bound [OF S, of "num div 2"] by simp_all
  then have "c_int (int (num div 2) - 1) = int (num div 2) - 1"
    using le [of "num div 2"] by (intro c_int_id) linarith+
  moreover have "c_int (int (num div 2) * int k - int k) = int (num div 2) * int k - int k"
    by (rule c_int_id) (use half k in linarith)+
  ultimately have i: "c_int (c_int (c_half (int num) - 1) * int k) = (int (num div 2) - 1) * int k"
    by (simp add: left_diff_distrib)
  have nn: "c_int (int num * int k) = int num * int k" using n by (intro c_int_id) linarith+
  have d: "c_int (int num * int k - int k) = (int num - 1) * int k"
    using n k by (subst c_int_id) (linarith, linarith, simp add: left_diff_distrib)
  obtain m1 where m1: "heapify_scaled cmp_func sw base (int k) (int num * int k) ((int (num div 2) - 1) * int k) m = Some m1"
    "elems m1 base num k = heapify cmp num (num div 2) (elems m base num k)" "same_outside base (num * k) m m1"
    using sort_setting.heapify_scaled_eq [OF S, of "num div 2" base m] by auto
  obtain m2 where m2: "sortdown_scaled cmp_func sw base (int k) ((int num - 1) * int k) m1 = Some m2"
    "elems m2 base num k = sortdown cmp num (elems m1 base num k)" "same_outside base (num * k) m1 m2"
    using sort_setting.sortdown_scaled_eq [OF S order_refl, of base m1] by auto
  have "sort base (int num) (int k) cmp_func swap_func m = Some m2"
    unfolding sort_def Let_def sw_def [symmetric] i nn d m1(1) bind.bind_lunit m2(1) ..
  then show ?thesis
    using m1(2) m2(2) same_outside_trans [OF m1(3) m2(3)] by (simp add: heapsort_def)
qed

section \<open>Arrays of structures\<close>

text \<open>\<open>heapsort\<close> only moves elements, so that it commutes with a map that the comparison respects.\<close>

lemma map_swap_elems:
  "i < length xs \<Longrightarrow> j < length xs \<Longrightarrow> map f (swap_elems xs i j) = swap_elems (map f xs) i j"
  by (simp add: swap_elems_def map_update)

lemma sift_child_map:
  "n \<le> length xs \<Longrightarrow> sift_child cmp n r (map f xs) = sift_child (\<lambda>x y. cmp (f x) (f y)) n r xs"
  by (auto simp: sift_child_def)

lemma map_sift:
  "n \<le> length xs \<Longrightarrow> r < length xs
    \<Longrightarrow> map f (sift (\<lambda>x y. cmp (f x) (f y)) n r xs) = sift cmp n r (map f xs)"
proof (induction "n - r" arbitrary: r xs rule: less_induct)
  case less
  let ?c = "sift_child (\<lambda>x y. cmp (f x) (f y)) n r xs"
  note c = sift_child_less [of r n "\<lambda>x y. cmp (f x) (f y)" xs] sift_child_cases [of "\<lambda>x y. cmp (f x) (f y)" n r xs]
  show ?case
  proof (cases "2 * r + 1 < n")
    case True
    then have c': "?c < length xs" "n - ?c < n - r" using c less.prems by auto
    then show ?thesis
      using less.hyps [of ?c "swap_elems xs r ?c"] less.prems True
      by (simp add: sift.simps [of _ n r] sift_child_map map_swap_elems)
  qed (simp add: sift.simps [of _ n r])
qed

lemma map_heapify:
  "n \<le> length xs \<Longrightarrow> i \<le> length xs
    \<Longrightarrow> map f (heapify (\<lambda>x y. cmp (f x) (f y)) n i xs) = heapify cmp n i (map f xs)"
  by (induction i arbitrary: xs) (simp_all add: map_sift)

lemma map_sortdown:
  "n \<le> length xs \<Longrightarrow> map f (sortdown (\<lambda>x y. cmp (f x) (f y)) n xs) = sortdown cmp n (map f xs)"
proof (induction n arbitrary: xs)
  case (Suc n)
  then have "0 < length xs" "n < length xs" by linarith+
  with Suc show ?case by (simp add: map_sift map_swap_elems)
qed simp

lemma map_heapsort: "map f (heapsort (\<lambda>x y. cmp (f x) (f y)) xs) = heapsort cmp (map f xs)"
  by (simp add: heapsort_def map_sortdown map_heapify)

text \<open>
  The callers sort an array of structures with a comparison of the structures, and the default
  swap. \<open>sort_call\<close> is what that leaves of the array read as a list of structures: for every way
  \<open>dec\<close> of reading an element from its bytes, the byte-level \<open>sort\<close> of the array at \<^verbatim>\<open>base\<close> returns
  and leaves the list that \<open>sort_call\<close> computes.
\<close>

definition sort_call :: "('a \<Rightarrow> 'a \<Rightarrow> int) \<Rightarrow> 'a list \<Rightarrow> 'a list" where
  "sort_call cmp xs = heapsort cmp xs"

lemma sort_typed:
  assumes "map dec (elems m base (length xs) k) = xs"
    and "0 < k" "length xs * k \<le> 2 ^ 30" "k < 2 ^ 31"
  shows "\<exists>m'. sort base (int (length xs)) (int k) (\<lambda>m a b. cmp (dec (elem_bytes m k a)) (dec (elem_bytes m k b))) None m = Some m'
    \<and> map dec (elems m' base (length xs) k) = sort_call cmp xs \<and> same_outside base (length xs * k) m m'"
  using sort_elems [of _ "\<lambda>x y. cmp (dec x) (dec y)" k None "length xs" base m, OF refl _ assms(2-4)]
    map_heapsort [of dec cmp "elems m base (length xs) k"] assms(1)
  by (auto simp: sort_call_def)

section \<open>Properties\<close>

text \<open>
  C40. \<^verbatim>\<open>sort\<close> of an array of \<^verbatim>\<open>num\<close> elements of \<^verbatim>\<open>size\<close> bytes returns and leaves in memory the
  same elements in the ascending order of the comparison function, and no other byte is changed;
  for every array of at most \<open>2 ^ 30\<close> bytes, so that no \<^verbatim>\<open>int\<close> counter overflows, every element
  size from 1 on, every comparison function that reads only its two elements and is consistent on
  them (the laws of \<open>comparator\<close>), and every swap function that exchanges two elements; with no
  swap function given \<^verbatim>\<open>sort\<close> takes \<^verbatim>\<open>u32_swap\<close> or \<^verbatim>\<open>generic_swap\<close>, of which nothing is assumed.
\<close>

theorem sort_correct:
  assumes "comparator cmp D" "set (elems m base num k) \<subseteq> D"
    and "\<And>m a b. cmp_func m a b = cmp (elem_bytes m k a) (elem_bytes m k b)"
    and "\<And>f. swap_func = Some f \<Longrightarrow> swaps (int k) f"
    and "0 < k" "num * k \<le> 2 ^ 30" "k < 2 ^ 31"
  shows "\<exists>m'. sort base (int num) (int k) cmp_func swap_func m = Some m'
    \<and> mset (elems m' base num k) = mset (elems m base num k)
    \<and> sorted_wrt (\<lambda>x y. cmp x y \<le> 0) (elems m' base num k)
    \<and> (\<forall>x. num * k \<le> unat (x - base) \<longrightarrow> m' x = m x)"
  using sort_elems [of cmp_func cmp k swap_func num base m, OF assms(3-7)] mset_heapsort
    comparator.sorted_heapsort [OF assms(1,2)]
  by (force simp: same_outside_def)

text \<open>Three words, compared by their lowest byte, with the default swap.\<close>

theorem sort_correct_witness:
  "\<exists>m'. sort 0x1000 3 4 (\<lambda>m a b. uint (m a) - uint (m b)) None (\<lambda>x. - ucast x) = Some m'
    \<and> mset (elems m' 0x1000 3 4) = mset (elems (\<lambda>x. - ucast x) 0x1000 3 4)
    \<and> sorted_wrt (\<lambda>x y. uint (x ! 0) - uint (y ! 0) \<le> 0) (elems m' 0x1000 3 4)
    \<and> (\<forall>x. 12 \<le> unat (x - 0x1000) \<longrightarrow> m' x = - ucast x)"
proof -
  have "comparator (\<lambda>x y. uint (x ! 0) - uint (y ! 0)) (UNIV :: u8 list set)" by unfold_locales auto
  from sort_correct [OF this, where m = "\<lambda>x. - ucast x" and base = "0x1000" and num = 3 and k = 4
      and cmp_func = "\<lambda>m a b. uint (m a) - uint (m b)" and swap_func = None]
  show ?thesis by (simp add: elem_bytes_def)
qed

declare sift_scaled.simps [code] heapify_scaled.simps [code] sortdown_scaled.simps [code]

text \<open>The other default swap, on three elements of two bytes.\<close>

lemma sort_runs_example:
  "map_option (\<lambda>m. map m [0x1000, 0x1002, 0x1004]) (sort 0x1000 3 2 (\<lambda>m a b. uint (m a) - uint (m b)) None
      ((\<lambda>x. 0)(0x1000 := 9, 0x1002 := 5, 0x1004 := 7))) = Some [5, 7, 9]"
  by code_simp

end
