(* ===== verification/Range.thy ===== *)
theory Range
  imports Kernel_Util Heap_Sort
begin

text \<open>
  \<^verbatim>\<open>kernel/range.c\<close>: fixed arrays of half-open ranges, with which the boot code
  computes the memory that is free. An entry whose \<^verbatim>\<open>end\<close> is 0 is an unused slot. The
  array is a list of the array's capacity. The specification of an array is the number of
  entries that contain an address (\<open>range_mult\<close>): subtraction takes an interval out of it,
  and sorting leaves it alone.
\<close>

section \<open>Data\<close>

record range =
  r_start :: u64
  r_end :: u64

definition in_range :: "u64 \<Rightarrow> range \<Rightarrow> bool" where
  "in_range a r \<longleftrightarrow> r_start r \<le> a \<and> a < r_end r"

definition range_mult :: "range list \<Rightarrow> u64 \<Rightarrow> nat" where
  "range_mult rs a = count_if (in_range a) rs"

definition empty_slot :: range where
  "empty_slot = \<lparr> r_start = 0, r_end = 0 \<rparr>"

section \<open>Operations\<close>

definition add_range :: "range list \<Rightarrow> nat \<Rightarrow> nat \<Rightarrow> u64 \<Rightarrow> u64 \<Rightarrow> range list \<times> nat" where
  "add_range rs az nr_range st en =
     (if st \<ge> en then (rs, nr_range)
      else if nr_range \<ge> az then (rs, nr_range)
      else (rs[nr_range := \<lparr> r_start = st, r_end = en \<rparr>], nr_range + 1))"

text \<open>\<^verbatim>\<open>for (i = 0; i < az; i++) if (range[i].end == 0) break;\<close>\<close>

function free_slot :: "range list \<Rightarrow> nat \<Rightarrow> nat \<Rightarrow> nat" where
  "free_slot rs az i =
     (if i < az then if r_end (rs ! i) = 0 then i else free_slot rs az (i + 1) else i)"
  by pat_completeness auto
termination
  by (relation "measure (\<lambda>(rs, az, i). az - i)") auto

text \<open>One turn of the loop of \<^verbatim>\<open>subtract_range\<close>, on entry \<^verbatim>\<open>j\<close>.\<close>

definition subtract_entry :: "range list \<Rightarrow> nat \<Rightarrow> u64 \<Rightarrow> u64 \<Rightarrow> nat \<Rightarrow> range list" where
  "subtract_entry rs az st en j =
     (let r = rs ! j in
      if r_end r = 0 then rs
      else if st \<le> r_start r \<and> en \<ge> r_end r then rs[j := r\<lparr>r_start := 0, r_end := 0\<rparr>]
      else if st \<le> r_start r \<and> en < r_end r \<and> r_start r < en then rs[j := r\<lparr>r_start := en\<rparr>]
      else if st > r_start r \<and> en \<ge> r_end r \<and> r_end r > st then rs[j := r\<lparr>r_end := st\<rparr>]
      else if st > r_start r \<and> en < r_end r then
        (let i = free_slot rs az 0;
             rs1 = (if i < az then rs[i := \<lparr> r_start = en, r_end = r_end r \<rparr>] else rs)
         in rs1[j := (rs1 ! j)\<lparr>r_end := st\<rparr>])
      else rs)"

function subtract_loop :: "range list \<Rightarrow> nat \<Rightarrow> u64 \<Rightarrow> u64 \<Rightarrow> nat \<Rightarrow> range list" where
  "subtract_loop rs az st en j =
     (if j < az then subtract_loop (subtract_entry rs az st en j) az st en (j + 1) else rs)"
  by pat_completeness auto
termination
  by (relation "measure (\<lambda>(rs, az, st, en, j). az - j)") auto

definition subtract_range :: "range list \<Rightarrow> nat \<Rightarrow> u64 \<Rightarrow> u64 \<Rightarrow> range list" where
  "subtract_range rs az st en = (if st \<ge> en then rs else subtract_loop rs az st en 0)"

text \<open>The difference of the starts is a 64-bit subtraction, of which the returned
  \<^verbatim>\<open>int\<close> keeps the low 32 bits.\<close>

definition cmp_range :: "range \<Rightarrow> range \<Rightarrow> int" where
  "cmp_range x1 x2 = sint (ucast (r_start x1 - r_start x2) :: 32 word)"

text \<open>\<^verbatim>\<open>for (j = k; j > i; j--) if (range[j].end) { k = j; break; }\<close>\<close>

fun last_used :: "range list \<Rightarrow> nat \<Rightarrow> nat \<Rightarrow> nat" where
  "last_used rs i j = (if j > i then if r_end (rs ! j) \<noteq> 0 then j else last_used rs i (j - 1) else j)"

declare last_used.simps [simp del]

function compact :: "range list \<Rightarrow> nat \<Rightarrow> nat \<Rightarrow> range list" where
  "compact rs i k =
     (if i < k then
        if r_end (rs ! i) \<noteq> 0 then compact rs (i + 1) k
        else let j = last_used rs i k in
             if j = i then rs
             else compact (rs[i := rs ! j, j := empty_slot]) (i + 1) (j - 1)
      else rs)"
  by pat_completeness auto

lemma last_used_le: "last_used rs i j \<le> j"
proof (induction rs i j rule: last_used.induct)
  case (1 rs i j)
  then show ?case by (subst last_used.simps) auto
qed

termination compact
proof (relation "measure (\<lambda>(rs, i, k). k - i)", goal_cases)
  case (3 rs i k j)
  then show ?case using last_used_le [of rs i k] by simp
qed auto

definition clean_sort_range :: "range list \<Rightarrow> nat \<Rightarrow> range list \<times> nat" where
  "clean_sort_range rs az =
     (let rs1 = compact rs 0 (az - 1);
          nr_range = free_slot rs1 az 0
      in (sort_call cmp_range (take nr_range rs1) @ drop nr_range rs1, nr_range))"

declare free_slot.simps [simp del] subtract_loop.simps [simp del]
  compact.simps [simp del]

section \<open>Searching for a slot\<close>

lemma free_slot_props:
  assumes "i \<le> az"
  shows free_slot_bounds: "i \<le> free_slot rs az i" "free_slot rs az i \<le> az"
    and free_slot_found: "free_slot rs az i < az \<Longrightarrow> r_end (rs ! free_slot rs az i) = 0"
    and free_slot_first: "\<And>k. i \<le> k \<Longrightarrow> k < free_slot rs az i \<Longrightarrow> r_end (rs ! k) \<noteq> 0"
proof -
  have "i \<le> free_slot rs az i \<and> free_slot rs az i \<le> az
    \<and> (free_slot rs az i < az \<longrightarrow> r_end (rs ! free_slot rs az i) = 0)
    \<and> (\<forall>k. i \<le> k \<longrightarrow> k < free_slot rs az i \<longrightarrow> r_end (rs ! k) \<noteq> 0)"
    using assms
  proof (induction rs az i rule: free_slot.induct)
    case (1 rs az i)
    show ?case
    proof (cases "i < az \<and> r_end (rs ! i) \<noteq> 0")
      case True
      then have step: "free_slot rs az i = free_slot rs az (i + 1)"
        by (simp add: free_slot.simps [of rs az i])
      have IH: "i + 1 \<le> free_slot rs az (i + 1) \<and> free_slot rs az (i + 1) \<le> az
        \<and> (free_slot rs az (i + 1) < az \<longrightarrow> r_end (rs ! free_slot rs az (i + 1)) = 0)
        \<and> (\<forall>k. i + 1 \<le> k \<longrightarrow> k < free_slot rs az (i + 1) \<longrightarrow> r_end (rs ! k) \<noteq> 0)"
        using 1 True by simp
      show ?thesis unfolding step
        using IH True by (metis Suc_eq_plus1 Suc_leI Suc_leD le_neq_implies_less)
    qed (use 1 in \<open>auto simp: free_slot.simps [of rs az i]\<close>)
  qed
  then show "i \<le> free_slot rs az i" "free_slot rs az i \<le> az"
    "free_slot rs az i < az \<Longrightarrow> r_end (rs ! free_slot rs az i) = 0"
    "\<And>k. i \<le> k \<Longrightarrow> k < free_slot rs az i \<Longrightarrow> r_end (rs ! k) \<noteq> 0"
    by blast+
qed

section \<open>Subtraction\<close>

definition unused :: "range \<Rightarrow> bool" where
  "unused r \<longleftrightarrow> r_end r = 0"

text \<open>An entry that the interval cuts in two, for which a free slot is needed.\<close>

definition splits :: "u64 \<Rightarrow> u64 \<Rightarrow> range \<Rightarrow> bool" where
  "splits st en r \<longleftrightarrow> r_start r < st \<and> en < r_end r"

definition clear_of :: "u64 \<Rightarrow> u64 \<Rightarrow> range \<Rightarrow> bool" where
  "clear_of st en r \<longleftrightarrow> (\<forall>a. in_range a r \<longrightarrow> \<not> (st \<le> a \<and> a < en))"

lemma length_subtract_entry [simp]: "length (subtract_entry rs az st en j) = length rs"
  by (simp add: subtract_entry_def Let_def)

lemma length_subtract_loop [simp]: "length (subtract_loop rs az st en j) = length rs"
proof (induction rs az st en j rule: subtract_loop.induct)
  case (1 rs az st en j)
  then show ?case by (subst subtract_loop.simps) simp
qed

lemma length_subtract_range [simp]: "length (subtract_range rs az st en) = length rs"
  by (simp add: subtract_range_def)

text \<open>Each turn replaces entry \<open>j\<close> by its left or right rest, or cuts it in two.\<close>

lemma subtract_entry_cases:
  assumes "st < en" "az = length rs" "j < az"
  obtains
    (same) "subtract_entry rs az st en j = rs" "clear_of st en (rs ! j)"
  | (trim) r where "subtract_entry rs az st en j = rs[j := r]" "\<not> splits st en (rs ! j)"
      "\<not> splits st en r" "\<not> unused (rs ! j)"
      "\<And>a. in_range a r \<longleftrightarrow> in_range a (rs ! j) \<and> \<not> (st \<le> a \<and> a < en)"
  | (split) i r l where "subtract_entry rs az st en j = rs[i := r, j := l]"
      "i < length rs" "i \<noteq> j" "unused (rs ! i)"
      "splits st en (rs ! j)" "\<not> splits st en l" "\<not> splits st en r"
      "\<And>a. in_range a (rs ! j) \<and> \<not> (st \<le> a \<and> a < en) \<longleftrightarrow> in_range a l \<or> in_range a r"
      "\<And>a. \<not> (in_range a l \<and> in_range a r)" "\<not> unused l" "\<not> unused r"
  | (lost) l where "subtract_entry rs az st en j = rs[j := l]" "\<And>i. i < az \<Longrightarrow> \<not> unused (rs ! i)"
      "splits st en (rs ! j)" "\<And>a. in_range a l \<Longrightarrow> in_range a (rs ! j) \<and> a < st"
proof -
  let ?r = "rs ! j"
  let ?i = "free_slot rs az 0"
  note defs = subtract_entry_def Let_def
  consider (1) "r_end ?r = 0"
    | (2) "r_end ?r \<noteq> 0" "st \<le> r_start ?r" "en \<ge> r_end ?r"
    | (3) "r_end ?r \<noteq> 0" "st \<le> r_start ?r" "en < r_end ?r" "r_start ?r < en"
    | (4) "r_end ?r \<noteq> 0" "st > r_start ?r" "en \<ge> r_end ?r" "r_end ?r > st"
    | (5) "r_end ?r \<noteq> 0" "st > r_start ?r" "en < r_end ?r" "?i < az"
    | (6) "r_end ?r \<noteq> 0" "st > r_start ?r" "en < r_end ?r" "\<not> ?i < az"
    | (7) "r_end ?r \<noteq> 0" "en \<le> r_start ?r \<or> r_end ?r \<le> st" "\<not> (st \<le> r_start ?r \<and> en \<ge> r_end ?r)"
    by force
  then show ?thesis
  proof cases
    case 1
    show ?thesis
      by (rule same) (use 1 in \<open>simp_all add: defs clear_of_def in_range_def\<close>)
  next
    case 2
    show ?thesis
      by (rule trim [of "?r\<lparr>r_start := 0, r_end := 0\<rparr>"])
        (use 2 in \<open>auto simp: defs splits_def unused_def in_range_def\<close>)
  next
    case 3
    show ?thesis
      by (rule trim [of "?r\<lparr>r_start := en\<rparr>"])
        (use 3 assms in \<open>auto simp: defs splits_def unused_def in_range_def\<close>)
  next
    case 4
    show ?thesis
      by (rule trim [of "?r\<lparr>r_end := st\<rparr>"])
        (use 4 assms in \<open>auto simp: defs splits_def unused_def in_range_def\<close>)
  next
    case 5
    have f: "r_end (rs ! ?i) = 0" using free_slot_found [of 0 az rs] 5 by simp
    with 5 have ij: "?i \<noteq> j" by metis
    have eq: "subtract_entry rs az st en j
      = rs[?i := \<lparr> r_start = en, r_end = r_end ?r \<rparr>, j := ?r\<lparr>r_end := st\<rparr>]"
      using 5 ij by (auto simp: defs)
    show ?thesis
      by (rule split [OF eq]) (use 5 assms f ij in \<open>auto simp: splits_def unused_def in_range_def\<close>)
  next
    case 6
    have "r_end (rs ! k) \<noteq> 0" if "k < az" for k
      using free_slot_first [of 0 az k rs] 6 that by simp
    then show ?thesis
      by (intro lost [of "?r\<lparr>r_end := st\<rparr>"])
        (use 6 assms in \<open>auto simp: defs splits_def unused_def in_range_def\<close>)
  next
    case 7
    then have out: "(r_end ?r = 0) = False" "(st \<le> r_start ?r \<and> en \<ge> r_end ?r) = False"
      "(st \<le> r_start ?r \<and> en < r_end ?r \<and> r_start ?r < en) = False"
      "(st > r_start ?r \<and> en \<ge> r_end ?r \<and> r_end ?r > st) = False"
      "(st > r_start ?r \<and> en < r_end ?r) = False"
      using assms(1) by auto
    then have "subtract_entry rs az st en j = rs" unfolding defs by (simp only: out if_False)
    then show ?thesis
      by (rule same) (use 7 in \<open>auto simp: clear_of_def in_range_def\<close>)
  qed
qed

lemma clear_of_update:
  assumes "\<forall>i<n. clear_of st en (rs ! i)" "clear_of st en r"
  shows "\<forall>i<n. clear_of st en (rs[j := r] ! i)"
  using assms by (metis nth_list_update_eq nth_list_update_neq list_update_beyond not_le)

lemma subtract_entry_clear:
  assumes "st < en" "az = length rs" "j < az" "\<forall>i<j. clear_of st en (rs ! i)"
  shows "\<forall>i<Suc j. clear_of st en (subtract_entry rs az st en j ! i)"
  using assms(1-3)
proof (cases rule: subtract_entry_cases)
  case same
  then show ?thesis using assms(4) less_Suc_eq by auto
next
  case (trim r)
  have "clear_of st en r" using trim(5) by (auto simp: clear_of_def)
  with assms trim(1) show ?thesis by (auto simp: less_Suc_eq clear_of_update)
next
  case (split i r l)
  have "clear_of st en r" "clear_of st en l" using split(8) by (auto simp: clear_of_def)
  with assms split(1,2) show ?thesis by (auto simp: less_Suc_eq clear_of_update)
next
  case (lost l)
  have "clear_of st en l" unfolding clear_of_def using lost(4) by (meson leD)
  with assms lost(1) show ?thesis by (auto simp: less_Suc_eq clear_of_update)
qed

lemma subtract_entry_mult:
  assumes "st < en" "az = length rs" "j < az" and slots: "count_if (splits st en) rs \<le> count_if unused rs"
  shows "count_if (splits st en) (subtract_entry rs az st en j) \<le> count_if unused (subtract_entry rs az st en j)"
    and "\<not> (st \<le> a \<and> a < en) \<Longrightarrow> range_mult (subtract_entry rs az st en j) a = range_mult rs a"
proof -
  have *: "count_if (splits st en) (subtract_entry rs az st en j) \<le> count_if unused (subtract_entry rs az st en j)
    \<and> (\<not> (st \<le> a \<and> a < en) \<longrightarrow> range_mult (subtract_entry rs az st en j) a = range_mult rs a)"
    using assms(1-3)
  proof (cases rule: subtract_entry_cases)
    case same
    then show ?thesis using slots by simp
  next
    case (trim r)
    have j: "j < length rs" using assms by simp
    show ?thesis
      using count_if_update [OF j, of "splits st en" r] count_if_update [OF j, of unused r]
        count_if_update [OF j, of "in_range a" r] trim slots
      by (auto simp: range_mult_def)
  next
    case (split i r l)
    have j: "j < length (rs[i := r])" and i: "i < length rs" using assms split(2) by simp_all
    have "\<not> splits st en (rs ! i)" "\<not> in_range a (rs ! i)" "\<not> unused (rs ! j)"
      using split(4,5) by (auto simp: splits_def unused_def in_range_def)
    then show ?thesis
      using count_if_update [OF j, of "splits st en" l] count_if_update [OF i, of "splits st en" r]
        count_if_update [OF j, of unused l] count_if_update [OF i, of unused r]
        count_if_update [OF j, of "in_range a" l] count_if_update [OF i, of "in_range a" r]
        split(1-7,10,11) split(8,9) [of a] slots
      by (auto simp: range_mult_def split: if_splits)
  next
    case (lost l)
    have "0 < count_if (splits st en) rs"
      using lost(3) assms by (auto simp: count_if_pos)
    moreover have "count_if unused rs = 0" using lost(2) assms by (simp add: count_if_0)
    ultimately show ?thesis using slots by simp
  qed
  show "count_if (splits st en) (subtract_entry rs az st en j) \<le> count_if unused (subtract_entry rs az st en j)"
    using * by simp
  show "\<not> (st \<le> a \<and> a < en) \<Longrightarrow> range_mult (subtract_entry rs az st en j) a = range_mult rs a"
    using * by simp
qed

lemma subtract_loop_clear:
  assumes "st < en" "az = length rs" "\<forall>i<j. clear_of st en (rs ! i)" "j \<le> az"
  shows "\<forall>i<az. clear_of st en (subtract_loop rs az st en j ! i)"
  using assms
proof (induction rs az st en j rule: subtract_loop.induct)
  case (1 rs az st en j)
  show ?case
    unfolding subtract_loop.simps [of rs az st en j]
    using 1 subtract_entry_clear [of st en az rs j] by (cases "j < az") simp_all
qed

lemma subtract_loop_mult:
  assumes "st < en" "az = length rs" "count_if (splits st en) rs \<le> count_if unused rs"
    "\<not> (st \<le> a \<and> a < en)"
  shows "range_mult (subtract_loop rs az st en j) a = range_mult rs a"
  using assms
proof (induction rs az st en j rule: subtract_loop.induct)
  case (1 rs az st en j)
  show ?case
    unfolding subtract_loop.simps [of rs az st en j]
    using 1 subtract_entry_mult [of st en az rs j] by (cases "j < az") simp_all
qed

lemma range_mult_clear:
  "\<forall>i<length rs. clear_of st en (rs ! i) \<Longrightarrow> st \<le> a \<Longrightarrow> a < en \<Longrightarrow> range_mult rs a = 0"
  by (auto simp: range_mult_def count_if_0 clear_of_def)

lemma subtract_range_mult:
  assumes "az = length rs" "count_if (splits st en) rs \<le> count_if unused rs"
  shows "range_mult (subtract_range rs az st en) a
    = (if st \<le> a \<and> a < en then 0 else range_mult rs a)"
proof (cases "st < en")
  case True
  have "\<forall>i<length rs. clear_of st en (subtract_loop rs az st en 0 ! i)"
    using subtract_loop_clear [of st en az rs 0] True assms(1) by simp
  then have "st \<le> a \<Longrightarrow> a < en \<Longrightarrow> range_mult (subtract_loop rs az st en 0) a = 0"
    by (intro range_mult_clear) simp_all
  then show ?thesis
    using True subtract_loop_mult [OF True assms, of a 0] by (auto simp: subtract_range_def)
next
  case False
  then show ?thesis by (auto simp: subtract_range_def)
qed

text \<open>The slots that are used up are paid for by the entries that are cut in two.\<close>

lemma subtract_entry_slots:
  assumes "st < en" "az = length rs" "j < az"
  shows "count_if unused rs + count_if (splits st en) (subtract_entry rs az st en j)
    \<le> count_if unused (subtract_entry rs az st en j) + count_if (splits st en) rs"
  using assms
proof (cases rule: subtract_entry_cases)
  case same
  then show ?thesis by simp
next
  case (trim r)
  have j: "j < length rs" using assms by simp
  show ?thesis
    using count_if_update [OF j, of "splits st en" r] count_if_update [OF j, of unused r] trim
    by (auto split: if_splits)
next
  case (split i r l)
  have j: "j < length (rs[i := r])" and i: "i < length rs" using assms split(2) by simp_all
  have "\<not> splits st en (rs ! i)" "\<not> unused (rs ! j)"
    using split(4,5) by (auto simp: splits_def unused_def)
  then show ?thesis
    using count_if_update [OF j, of "splits st en" l] count_if_update [OF i, of "splits st en" r]
      count_if_update [OF j, of unused l] count_if_update [OF i, of unused r] split
    by (auto split: if_splits)
next
  case (lost l)
  have j: "j < length rs" using assms by simp
  show ?thesis
    using count_if_update [OF j, of "splits st en" l] count_if_update [OF j, of unused l] lost assms
    by (auto split: if_splits)
qed

lemma subtract_loop_slots:
  assumes "st < en" "az = length rs"
  shows "count_if unused rs + count_if (splits st en) (subtract_loop rs az st en j)
    \<le> count_if unused (subtract_loop rs az st en j) + count_if (splits st en) rs"
  using assms
proof (induction rs az st en j rule: subtract_loop.induct)
  case (1 rs az st en j)
  show ?case
  proof (cases "j < az")
    case True
    then show ?thesis
      unfolding subtract_loop.simps [of rs az st en j]
      using 1 subtract_entry_slots [of st en az rs j] by simp
  qed (simp add: subtract_loop.simps [of rs az st en j])
qed

lemma subtract_range_slots:
  assumes "az = length rs"
  shows "count_if unused rs \<le> count_if unused (subtract_range rs az st en) + count_if (splits st en) rs"
  using subtract_loop_slots [OF _ assms, of st en 0] by (cases "st < en") (auto simp: subtract_range_def)

text \<open>Entries that are in use stay non-empty.\<close>

definition proper :: "range \<Rightarrow> bool" where
  "proper r \<longleftrightarrow> unused r \<or> r_start r < r_end r"

lemma proper_update: "\<forall>r\<in>set rs. proper r \<Longrightarrow> proper x \<Longrightarrow> \<forall>r\<in>set (rs[i := x]). proper r"
  using set_update_subset_insert [of rs i x] by auto

lemma subtract_entry_proper:
  assumes "\<forall>r\<in>set rs. proper r" "st < en"
  shows "\<forall>r\<in>set (subtract_entry rs az st en j). proper r"
proof -
  let ?r = "rs ! j" and ?i = "free_slot rs az 0"
  let ?rs = "if ?i < az then rs[?i := \<lparr> r_start = en, r_end = r_end ?r \<rparr>] else rs"
  have p: "proper \<lparr> r_start = en, r_end = r_end ?r \<rparr>" if "en < r_end ?r"
    using that by (simp add: proper_def)
  have q: "proper ((?rs ! j)\<lparr>r_end := st\<rparr>)" if "r_start ?r < st" "en < r_end ?r" "r_end ?r \<noteq> 0"
  proof (cases "?i < az \<and> ?i < length rs \<and> ?i = j")
    case True
    then show ?thesis using free_slot_found [of 0 az rs] that by auto
  next
    case False
    then have "?rs ! j = ?r" by (auto simp: not_less list_update_beyond)
    then show ?thesis using that by (simp add: proper_def)
  qed
  define A where "A = (\<lambda>rs. \<forall>r\<in>set rs. proper r)"
  have A: "A rs" using assms(1) by (simp add: A_def)
  have up: "\<And>rs x i. A rs \<Longrightarrow> proper x \<Longrightarrow> A (rs[i := x])"
    unfolding A_def by (rule proper_update)
  have "A ?rs" if "en < r_end ?r" using A up p that by simp
  then have "A (?rs[j := (?rs ! j)\<lparr>r_end := st\<rparr>])" if "r_start ?r < st" "en < r_end ?r" "r_end ?r \<noteq> 0"
    using up q that by blast
  moreover have "A (rs[j := ?r\<lparr>r_start := 0, r_end := 0\<rparr>])" by (rule up [OF A]) (simp add: proper_def unused_def)
  moreover have "A (rs[j := ?r\<lparr>r_start := en\<rparr>])" if "en < r_end ?r" by (rule up [OF A]) (simp add: proper_def that)
  moreover have "A (rs[j := ?r\<lparr>r_end := st\<rparr>])" if "r_start ?r < st" by (rule up [OF A]) (simp add: proper_def that)
  ultimately have "A (subtract_entry rs az st en j)"
    unfolding subtract_entry_def Let_def using A by presburger
  then show ?thesis by (simp add: A_def)
qed

lemma subtract_range_proper:
  assumes "\<forall>r\<in>set rs. proper r"
  shows "\<forall>r\<in>set (subtract_range rs az st en). proper r"
proof (cases "st < en")
  case True
  have "\<forall>r\<in>set (subtract_loop rs az st en j). proper r" for j
    using assms True
  proof (induction rs az st en j rule: subtract_loop.induct)
    case (1 rs az st en j)
    then show ?case by (subst subtract_loop.simps) (simp add: subtract_entry_proper)
  qed
  then show ?thesis using True by (simp add: subtract_range_def)
next
  case False
  then show ?thesis using assms by (simp add: subtract_range_def)
qed

text \<open>With disjoint entries one free slot is enough.\<close>

lemma splits_disjoint:
  assumes "st < en" "\<forall>a. range_mult rs a \<le> 1"
  shows "count_if (splits st en) rs \<le> 1"
proof -
  have "splits st en r \<Longrightarrow> in_range st r" for r
    using assms(1) by (auto simp: splits_def in_range_def)
  then have "count_if (splits st en) rs \<le> count_if (in_range st) rs"
    by (induction rs) auto
  then show ?thesis using assms(2) by (metis le_trans range_mult_def)
qed

section \<open>Sorting\<close>

lemma last_used_props:
  assumes "i \<le> k"
  shows last_used_ge: "i \<le> last_used rs i k"
    and last_used_found: "last_used rs i k \<noteq> i \<Longrightarrow> \<not> unused (rs ! last_used rs i k)"
    and last_used_after: "\<And>x. last_used rs i k < x \<Longrightarrow> x \<le> k \<Longrightarrow> unused (rs ! x)"
proof -
  have "i \<le> last_used rs i k \<and> (last_used rs i k \<noteq> i \<longrightarrow> \<not> unused (rs ! last_used rs i k))
    \<and> (\<forall>x. last_used rs i k < x \<longrightarrow> x \<le> k \<longrightarrow> unused (rs ! x))"
    using assms
  proof (induction rs i k rule: last_used.induct)
    case (1 rs i k)
    show ?case
    proof (cases "i < k \<and> r_end (rs ! k) = 0")
      case True
      then have "last_used rs i k = last_used rs i (k - 1)"
        by (simp add: last_used.simps [of rs i k])
      moreover have "x \<le> k \<longleftrightarrow> x \<le> k - 1 \<or> x = k" for x using True by linarith
      ultimately show ?thesis using 1 True by (auto simp: unused_def)
    next
      case False
      then have "last_used rs i k = k" by (subst last_used.simps) auto
      then show ?thesis using 1 False by (auto simp: unused_def)
    qed
  qed
  then show "i \<le> last_used rs i k" "last_used rs i k \<noteq> i \<Longrightarrow> \<not> unused (rs ! last_used rs i k)"
    "\<And>x. last_used rs i k < x \<Longrightarrow> x \<le> k \<Longrightarrow> unused (rs ! x)"
    by blast+
qed

lemma length_compact [simp]: "length (compact rs i k) = length rs"
proof (induction rs i k rule: compact.induct)
  case (1 rs i k)
  then show ?case by (subst compact.simps) (simp add: Let_def)
qed

definition used_mset :: "range list \<Rightarrow> range multiset" where
  "used_mset rs = filter_mset (\<lambda>r. \<not> unused r) (mset rs)"

lemma used_mset_move:
  assumes "i < length rs" "j < length rs" "i \<noteq> j" "unused (rs ! i)" "\<not> unused (rs ! j)"
  shows "used_mset (rs[i := rs ! j, j := empty_slot]) = used_mset rs"
  using assms by (simp add: used_mset_def mset_update unused_def empty_slot_def)

lemma used_mset_compact: "k < length rs \<Longrightarrow> used_mset (compact rs i k) = used_mset rs"
proof (induction rs i k rule: compact.induct)
  case (1 rs i k)
  let ?j = "last_used rs i k"
  consider "\<not> i < k" | "i < k" "\<not> unused (rs ! i)" | "i < k" "unused (rs ! i)" "?j = i"
    | "i < k" "unused (rs ! i)" "?j \<noteq> i" by blast
  then show ?case
  proof cases
    case 4
    have j: "i < ?j" "?j \<le> k" "\<not> unused (rs ! ?j)"
      using 4 last_used_ge [of i k rs] last_used_le [of rs i k] last_used_found [of i k rs] by auto
    have "compact rs i k = compact (rs[i := rs ! ?j, ?j := empty_slot]) (i + 1) (?j - 1)"
      using 4 by (simp add: compact.simps [of rs i k] unused_def Let_def)
    then show ?thesis
      using 1 4 j used_mset_move [of i rs ?j] by (simp add: unused_def less_imp_diff_less)
  qed (use 1 in \<open>auto simp: compact.simps [of rs i k] unused_def\<close>)
qed

definition packed :: "nat \<Rightarrow> nat \<Rightarrow> range list \<Rightarrow> bool" where
  "packed i k rs \<longleftrightarrow> (\<forall>x<i. \<not> unused (rs ! x)) \<and> (\<forall>x. k < x \<longrightarrow> x < length rs \<longrightarrow> unused (rs ! x))"

lemma packed_compact:
  assumes "packed i k rs" "k < length rs" "i \<le> k + 1"
  shows "\<exists>n. packed n n (compact rs i k) \<or> packed (n + 1) n (compact rs i k)"
  using assms
proof (induction rs i k rule: compact.induct)
  case (1 rs i k)
  let ?j = "last_used rs i k"
  consider "\<not> i < k" | "i < k" "\<not> unused (rs ! i)" | "i < k" "unused (rs ! i)" "?j = i"
    | "i < k" "unused (rs ! i)" "?j \<noteq> i" by blast
  then show ?case
  proof cases
    case 1
    then have "compact rs i k = rs" "i = k \<or> i = k + 1"
      using "1.prems" by (auto simp: compact.simps [of rs i k])
    then show ?thesis using "1.prems" by auto
  next
    case 2
    then have "compact rs i k = compact rs (i + 1) k" "packed (i + 1) k rs"
      using "1.prems" by (auto simp: compact.simps [of rs i k] unused_def packed_def less_Suc_eq)
    then show ?thesis using "1.IH"(1) "1.prems" 2 by (simp add: unused_def)
  next
    case 3
    then have "compact rs i k = rs" by (simp add: compact.simps [of rs i k] unused_def)
    moreover have "packed i i rs"
      using "1.prems" 3 last_used_after [of i k rs] unfolding packed_def
      by (metis less_imp_le_nat not_le)
    ultimately show ?thesis by auto
  next
    case 4
    have j: "i < ?j" "?j \<le> k" "\<not> unused (rs ! ?j)"
      using 4 last_used_ge [of i k rs] last_used_le [of rs i k] last_used_found [of i k rs] by auto
    let ?rs = "rs[i := rs ! ?j, ?j := empty_slot]"
    have "compact rs i k = compact ?rs (i + 1) (?j - 1)"
      using 4 by (simp add: compact.simps [of rs i k] unused_def Let_def)
    moreover have "unused (rs ! x)" if "?j - 1 < x" "x \<noteq> ?j" "x < length rs" for x
    proof (cases "k < x")
      case True
      then show ?thesis using "1.prems"(1) that by (simp add: packed_def)
    next
      case False
      then show ?thesis using last_used_after [of i k rs x] 4 j that by simp
    qed
    then have "packed (i + 1) (?j - 1) ?rs"
      using "1.prems" j 4
      by (auto simp: packed_def nth_list_update less_Suc_eq unused_def empty_slot_def)
    ultimately show ?thesis
      using "1.IH"(2) [OF 4(1) _ refl 4(3)] "1.prems" 4 j by (simp add: unused_def less_imp_diff_less)
  qed
qed

lemma packed_take:
  assumes "packed n n rs \<or> packed (n + 1) n rs" "m = free_slot rs (length rs) 0"
  shows "mset (take m rs) = used_mset rs" "\<forall>r\<in>set (drop m rs). unused r"
proof -
  have m: "m \<le> length rs" "m < length rs \<Longrightarrow> unused (rs ! m)" "\<And>k. k < m \<Longrightarrow> \<not> unused (rs ! k)"
    using free_slot_bounds [of 0 "length rs" rs] free_slot_found [of 0 "length rs" rs]
      free_slot_first [of 0 "length rs" _ rs] assms(2) by (simp_all add: unused_def)
  have rest: "unused (rs ! k)" if "m \<le> k" "k < length rs" for k
    using assms(1) m(2) that unfolding packed_def
    by (metis add.commute le_neq_implies_less less_trans linorder_neqE_nat plus_1_eq_Suc less_Suc_eq order_le_less_trans)
  show u: "\<forall>r\<in>set (drop m rs). unused r"
    by (auto simp: in_set_conv_nth rest)
  have "filter_mset (\<lambda>r. \<not> unused r) (mset (drop m rs)) = {#}"
    using u by (simp add: filter_empty_conv flip: mset_filter)
  moreover have "filter_mset (\<lambda>r. \<not> unused r) (mset (take m rs)) = mset (take m rs)"
    using m(1,3) by (auto simp: filter_mset_eq_conv in_set_conv_nth)
  ultimately show "mset (take m rs) = used_mset rs"
    unfolding used_mset_def
    by (metis add.right_neutral append_take_drop_id filter_union_mset mset_append)
qed

lemma cmp_range_diff:
  assumes "r_start x < 2 ^ 31" "r_start y < 2 ^ 31"
  shows "cmp_range x y = uint (r_start x) - uint (r_start y)"
proof -
  have s: "sint (ucast w :: 32 word) = signed_take_bit 31 (uint w)" for w :: "64 word"
    by transfer simp
  have b: "uint (r_start x) < 2 ^ 31" "uint (r_start y) < 2 ^ 31"
    using assms by (simp_all add: word_less_def)
  have "uint (r_start x - r_start y) = take_bit 64 (uint (r_start x) - uint (r_start y))"
    by (simp add: uint_word_ariths take_bit_eq_mod)
  then have "cmp_range x y = signed_take_bit 31 (uint (r_start x) - uint (r_start y))"
    unfolding cmp_range_def s by (simp add: signed_take_bit_take_bit)
  also have "\<dots> = uint (r_start x) - uint (r_start y)"
  proof (rule signed_take_bit_int_eq_self)
    show "- (2 ^ 31) \<le> uint (r_start x) - uint (r_start y)"
      "uint (r_start x) - uint (r_start y) < 2 ^ 31"
      using b uint_ge_0 [of "r_start x"] uint_ge_0 [of "r_start y"] by linarith+
  qed
  finally show ?thesis .
qed

interpretation range_order: comparator cmp_range "{r. r_start r < 2 ^ 31}"
  by unfold_locales (simp_all add: cmp_range_diff)

text \<open>
  The array that \<^verbatim>\<open>clean_sort_range\<close> hands to \<^verbatim>\<open>sort\<close> in memory: a \<^verbatim>\<open>struct range\<close> is 16 bytes,
  two little-endian words of 64 bits, which \<^verbatim>\<open>generic_swap\<close> exchanges. What \<open>sort_call\<close> gives
  for the list is what \<^verbatim>\<open>sort\<close> leaves in the memory, for arrays of up to \<open>2 ^ 26\<close> ranges.
\<close>

definition range_of_bytes :: "u8 list \<Rightarrow> range" where
  "range_of_bytes bs = \<lparr>r_start = word_rcat (rev (take 8 bs)), r_end = word_rcat (rev (take 8 (drop 8 bs)))\<rparr>"

definition cmp_range_at :: cmp_func where
  "cmp_range_at m a b = cmp_range (range_of_bytes (elem_bytes m 16 a)) (range_of_bytes (elem_bytes m 16 b))"

interpretation range_array: sort_setting cmp_range_at generic_swap base "2 ^ 26" 16
  "\<lambda>x y. cmp_range (range_of_bytes x) (range_of_bytes y)" for base
  by unfold_locales (simp_all add: cmp_range_at_def swaps_generic_swap)

lemma sort_ranges_in_memory:
  assumes "map range_of_bytes (elems m base (length rs) 16) = rs" "length rs \<le> 2 ^ 26"
  shows "\<exists>m'. sort base (int (length rs)) 16 cmp_range_at None m = Some m'
    \<and> map range_of_bytes (elems m' base (length rs) 16) = sort_call cmp_range rs"
  using sort_typed [of range_of_bytes m base rs 16 cmp_range, OF assms(1)] assms(2)
  by (auto simp: cmp_range_at_def [abs_def])

lemma sorted_ranges:
  assumes "\<forall>r\<in>set rs. r_start r < 2 ^ 31"
  shows "sorted_wrt (\<lambda>x y. r_start x \<le> r_start y) (heapsort cmp_range rs)"
proof (rule sorted_wrt_mono_rel)
  show "sorted_wrt (\<lambda>x y. cmp_range x y \<le> 0) (heapsort cmp_range rs)"
    using assms by (intro range_order.sorted_heapsort) auto
qed (use assms in \<open>auto simp: cmp_range_diff word_le_def\<close>)

lemma clean_sort_range_props:
  assumes "az = length rs" "clean_sort_range rs az = (rs', nr)"
  shows "length rs' = az" "nr \<le> az" "mset (take nr rs') = used_mset rs"
    "\<forall>r\<in>set (drop nr rs'). unused r"
    "\<forall>r\<in>set rs. r_start r < 2 ^ 31 \<Longrightarrow> sorted_wrt (\<lambda>x y. r_start x \<le> r_start y) (take nr rs')"
proof -
  let ?c = "compact rs 0 (az - 1)"
  have nr: "nr = free_slot ?c az 0" and rs': "rs' = heapsort cmp_range (take nr ?c) @ drop nr ?c"
    using assms(2) by (auto simp: clean_sort_range_def Let_def sort_call_def)
  show nraz: "nr \<le> az" unfolding nr by (rule free_slot_bounds) simp
  show "length rs' = az" using assms(1) nraz by (simp add: rs')
  have tk: "take nr rs' = heapsort cmp_range (take nr ?c)" "drop nr rs' = drop nr ?c"
    using nraz assms(1) by (simp_all add: rs' min_absorb2)
  have p: "(\<exists>n. packed n n ?c \<or> packed (n + 1) n ?c) \<and> used_mset ?c = used_mset rs"
  proof (cases rs)
    case Nil
    then show ?thesis by (auto simp: packed_def compact.simps assms(1))
  next
    case (Cons r rest)
    then show ?thesis
      using packed_compact [of 0 "az - 1" rs] used_mset_compact [of "az - 1" rs 0] assms(1)
      by (simp add: packed_def)
  qed
  then obtain n where n: "packed n n ?c \<or> packed (n + 1) n ?c" by blast
  have nr': "nr = free_slot ?c (length ?c) 0" using nr assms(1) by simp
  show ms: "mset (take nr rs') = used_mset rs"
    using packed_take [OF n nr'] p by (simp add: tk mset_heapsort)
  show "\<forall>r\<in>set (drop nr rs'). unused r" using packed_take [OF n nr'] by (simp add: tk)
  assume small: "\<forall>r\<in>set rs. r_start r < 2 ^ 31"
  have "set (take nr ?c) \<subseteq> set rs"
  proof -
    have "set_mset (used_mset rs) \<subseteq> set rs" by (auto simp: used_mset_def)
    then show ?thesis using ms unfolding tk mset_heapsort by (metis set_mset_mset)
  qed
  then show "sorted_wrt (\<lambda>x y. r_start x \<le> r_start y) (take nr rs')"
    unfolding tk using small by (intro sorted_ranges) auto
qed

lemma range_mult_used: "range_mult rs a = size (filter_mset (in_range a) (used_mset rs))"
proof -
  have "in_range a r \<Longrightarrow> \<not> unused r" for r by (auto simp: in_range_def unused_def)
  then have "filter_mset (in_range a) (used_mset rs) = filter_mset (in_range a) (mset rs)"
    unfolding used_mset_def filter_filter_mset by (intro filter_mset_cong) auto
  then show ?thesis by (simp add: range_mult_def count_if_def flip: mset_filter)
qed

section \<open>Properties\<close>

text \<open>
  C28. \<^verbatim>\<open>subtract_range\<close> takes exactly the interval \<open>[st, en)\<close> out of the array: an
  address of the interval is in no entry afterwards, and every other address is in as many
  entries as before (so disjoint entries stay disjoint), as long as there is an unused
  slot for each entry that the interval cuts in two.
\<close>

theorem subtract_range_correct:
  assumes "az = length rs" "count_if (splits st en) rs \<le> count_if unused rs"
  shows "range_mult (subtract_range rs az st en) a = (if st \<le> a \<and> a < en then 0 else range_mult rs a)"
  by (rule subtract_range_mult [OF assms])

theorem subtract_range_correct_witness:
  "range_mult (subtract_range [\<lparr>r_start = 10, r_end = 50\<rparr>, \<lparr>r_start = 0, r_end = 0\<rparr>] 2 20 30) 25 = 0
   \<and> range_mult (subtract_range [\<lparr>r_start = 10, r_end = 50\<rparr>, \<lparr>r_start = 0, r_end = 0\<rparr>] 2 20 30) 40 = 1"
  using subtract_range_correct [of 2 "[\<lparr>r_start = 10, r_end = 50\<rparr>, \<lparr>r_start = 0, r_end = 0\<rparr>]" 20 30 25]
    subtract_range_correct [of 2 "[\<lparr>r_start = 10, r_end = 50\<rparr>, \<lparr>r_start = 0, r_end = 0\<rparr>]" 20 30 40]
  by (simp add: splits_def unused_def range_mult_def in_range_def)

text \<open>
  C29. \<^verbatim>\<open>clean_sort_range\<close> moves the used entries to the front, returns their number,
  leaves unused slots behind them, and sorts them by start when every start is below
  \<open>2 ^ 31\<close> (the returned \<^verbatim>\<open>int\<close> of the comparison then holds the difference).
\<close>

theorem clean_sort_range_correct:
  assumes "az = length rs" "\<forall>r\<in>set rs. r_start r < 2 ^ 31"
  shows "case clean_sort_range rs az of (rs', nr) \<Rightarrow>
      length rs' = az \<and> nr \<le> az \<and> mset (take nr rs') = used_mset rs
      \<and> sorted_wrt (\<lambda>x y. r_start x \<le> r_start y) (take nr rs') \<and> (\<forall>r\<in>set (drop nr rs'). unused r)"
  using clean_sort_range_props [OF assms(1)] assms(2) by (auto split: prod.splits)

theorem clean_sort_range_correct_witness:
  "case clean_sort_range [\<lparr>r_start = 0, r_end = 0\<rparr>, \<lparr>r_start = 30, r_end = 40\<rparr>, \<lparr>r_start = 10, r_end = 20\<rparr>] 3
    of (rs', nr) \<Rightarrow> nr \<le> 3 \<and> sorted_wrt (\<lambda>x y. r_start x \<le> r_start y) (take nr rs')"
  using clean_sort_range_correct
    [of 3 "[\<lparr>r_start = 0, r_end = 0\<rparr>, \<lparr>r_start = 30, r_end = 40\<rparr>, \<lparr>r_start = 10, r_end = 20\<rparr>]"]
  by (auto split: prod.splits)

text \<open>Beyond \<open>2 ^ 31\<close> the truncated difference has the wrong sign: the larger start
  compares as the smaller one.\<close>

lemma cmp_range_truncates:
  "cmp_range \<lparr>r_start = 0x80000000, r_end = 0x80001000\<rparr> \<lparr>r_start = 0, r_end = 0x1000\<rparr> < 0"
  by (simp add: cmp_range_def sint_uint ucast_eq)

end
