(* ===== verification/Memblock.thy ===== *)
theory Memblock
  imports Kernel_Util
begin

text \<open>
  \<^verbatim>\<open>mm/memblock.c\<close>, \<^verbatim>\<open>include/Xc/memblock.h\<close>: the boot-time allocator. It
  keeps two arrays of regions, the memory of the machine and the part of it that is
  reserved. The arrays are lists of the arrays' length, handled by index as in the source.
  The specification of an array is the sequence of the intervals it stands for
  (\<open>view\<close>), which the invariant \<open>mb_inv\<close> keeps ascending, with gaps between them; adding a
  region refines \<open>insert_span\<close> on that sequence, which adds the interval to the set of
  addresses. The search for free memory is shown to end, to return only memory that is
  free, and to find some whenever there is any.
\<close>

section \<open>Data\<close>

record memblock_region =
  rg_base :: phys_addr_t
  rg_size :: phys_addr_t

record memblock_type =
  cnt :: nat
  mb_max :: nat
  regions :: "memblock_region list"

record memblock =
  current_limit :: phys_addr_t
  memory_size :: phys_addr_t
  memory :: memblock_type
  reserved :: memblock_type
  init_done :: bool

definition MEMBLOCK_ERROR :: phys_addr_t where
  "MEMBLOCK_ERROR = 0"

definition INIT_MEMBLOCK_REGIONS :: nat where
  "INIT_MEMBLOCK_REGIONS = 128"

definition MEMBLOCK_ALLOC_ANYWHERE :: phys_addr_t where
  "MEMBLOCK_ALLOC_ANYWHERE = NOT 0"

definition MEMBLOCK_ALLOC_ACCESSIBLE :: phys_addr_t where
  "MEMBLOCK_ALLOC_ACCESSIBLE = 0"

definition RED_INACTIVE :: phys_addr_t where
  "RED_INACTIVE = 0x09f911029d74e35b"

definition null_region :: memblock_region where
  "null_region = \<lparr> rg_base = 0, rg_size = 0 \<rparr>"

text \<open>\<^verbatim>\<open>regions[i]\<close>. The invariant keeps every access inside the array; outside of it the
  model reads a null region.\<close>

definition rgn :: "memblock_type \<Rightarrow> nat \<Rightarrow> memblock_region" where
  "rgn t i = (if i < length (regions t) then regions t ! i else null_region)"

definition set_rgn :: "memblock_type \<Rightarrow> nat \<Rightarrow> memblock_region \<Rightarrow> memblock_type" where
  "set_rgn t i r = t\<lparr>regions := (regions t)[i := r]\<rparr>"

definition rg_end :: "memblock_region \<Rightarrow> phys_addr_t" where
  "rg_end r = rg_base r + rg_size r"

section \<open>Initialisation\<close>

definition init_regions :: "memblock_region list" where
  "init_regions = replicate (INIT_MEMBLOCK_REGIONS + 1) null_region"

definition init_type :: memblock_type where
  "init_type =
     (let t = \<lparr> cnt = 0, mb_max = INIT_MEMBLOCK_REGIONS, regions = init_regions \<rparr>;
          t = set_rgn t INIT_MEMBLOCK_REGIONS ((rgn t INIT_MEMBLOCK_REGIONS)\<lparr>rg_base := RED_INACTIVE\<rparr>);
          t = set_rgn t 0 \<lparr> rg_base = 0, rg_size = 0 \<rparr>
      in t\<lparr>cnt := 1\<rparr>)"

definition memblock_init :: "memblock \<Rightarrow> memblock" where
  "memblock_init mb =
     (if init_done mb then mb
      else mb\<lparr>init_done := True, memory := init_type, reserved := init_type,
              current_limit := MEMBLOCK_ALLOC_ANYWHERE\<rparr>)"

section \<open>Adding and removing regions\<close>

text \<open>\<^verbatim>\<open>for (i = r; i < type->cnt - 1; i++)\<close>\<close>

function shift_down :: "memblock_type \<Rightarrow> nat \<Rightarrow> memblock_type" where
  "shift_down t i = (if i < cnt t - 1 then shift_down (set_rgn t i (rgn t (i + 1))) (i + 1) else t)"
  by pat_completeness auto
termination
  by (relation "measure (\<lambda>(t, i). cnt t - i)") (auto simp: set_rgn_def)

definition memblock_remove_region :: "memblock_type \<Rightarrow> nat \<Rightarrow> memblock_type" where
  "memblock_remove_region t r =
     (let t = shift_down t r;
          t = t\<lparr>cnt := cnt t - 1\<rparr>
      in if cnt t = 0 then set_rgn (t\<lparr>cnt := 1\<rparr>) 0 \<lparr> rg_base = 0, rg_size = 0 \<rparr> else t)"

text \<open>No region array ever moves away from its initial array, so that both do nothing.\<close>

definition memblock_free_reserved_regions :: "memblock \<Rightarrow> memblock \<times> int" where
  "memblock_free_reserved_regions mb = (mb, 0)"

definition memblock_reserve_reserved_regions :: "memblock \<Rightarrow> memblock \<times> int" where
  "memblock_reserve_reserved_regions mb = (mb, 0)"

definition memblock_memory_can_coalesce ::
  "phys_addr_t \<Rightarrow> phys_addr_t \<Rightarrow> phys_addr_t \<Rightarrow> phys_addr_t \<Rightarrow> bool" where
  "memblock_memory_can_coalesce addr1 size1 addr2 size2 = True"

definition memblock_analyze :: "memblock \<Rightarrow> memblock" where
  "memblock_analyze mb =
     mb\<lparr>memory_size := fold (\<lambda>i s. s + rg_size (rgn (memory mb) i)) [0..<cnt (memory mb)] 0\<rparr>"

lemma shift_down_simps [simp]:
  "cnt (shift_down t i) = cnt t" "mb_max (shift_down t i) = mb_max t"
  "length (regions (shift_down t i)) = length (regions t)"
proof -
  have "cnt (shift_down t i) = cnt t \<and> mb_max (shift_down t i) = mb_max t
    \<and> length (regions (shift_down t i)) = length (regions t)"
  proof (induction t i rule: shift_down.induct)
    case (1 t i)
    then show ?case by (subst (1 2 3) shift_down.simps) (simp add: set_rgn_def)
  qed
  then show "cnt (shift_down t i) = cnt t" "mb_max (shift_down t i) = mb_max t"
    "length (regions (shift_down t i)) = length (regions t)" by simp_all
qed

text \<open>How the loop of \<^verbatim>\<open>memblock_add_region\<close> is left: by \<^verbatim>\<open>return 0\<close>, by its end or
  \<^verbatim>\<open>break\<close>, or by \<^verbatim>\<open>goto new_block\<close>.\<close>

datatype add_exit =
    Return0 memblock_type
  | Broke memblock_type phys_addr_t phys_addr_t
  | New_block memblock_type phys_addr_t phys_addr_t

declare shift_down.simps [simp del]

lemma cnt_remove [simp]:
  "cnt (memblock_remove_region t r) = (if cnt t \<le> 1 then 1 else cnt t - 1)"
  by (simp add: memblock_remove_region_def Let_def set_rgn_def)

function add_scan ::
  "memblock_type \<Rightarrow> phys_addr_t \<Rightarrow> phys_addr_t \<Rightarrow> phys_addr_t \<Rightarrow> nat \<Rightarrow> add_exit" where
  "add_scan t base sz en i =
     (if i < cnt t then
        let r = rgn t i; rend = rg_base r + rg_size r in
        if rg_base r > en \<or> rg_size r = 0 then Broke t base sz
        else if rg_base r \<le> base \<and> rend \<ge> en then Return0 t
        else if base < rg_base r \<and> en \<ge> rg_base r then
          if \<not> memblock_memory_can_coalesce base sz (rg_base r) (rg_size r) then New_block t base sz
          else
            let r' = \<lparr> rg_base = base, rg_size = rend - base \<rparr>; t = set_rgn t i r' in
            if rend \<ge> en then Return0 t
            else
              let base = rend; sz = en - base in
              if base \<le> rend \<and> en \<ge> rend then
                if \<not> memblock_memory_can_coalesce (rg_base r') (rg_size r') base sz
                then New_block t base sz
                else add_scan (memblock_remove_region t i) (rg_base r') (sz + (base - rg_base r')) en i
              else add_scan t base sz en (i + 1)
        else if base \<le> rend \<and> en \<ge> rend then
          if \<not> memblock_memory_can_coalesce (rg_base r) (rg_size r) base sz then New_block t base sz
          else add_scan (memblock_remove_region t i) (rg_base r) (sz + (base - rg_base r)) en i
        else add_scan t base sz en (i + 1)
      else Broke t base sz)"
  by pat_completeness auto

definition scan_measure :: "memblock_type \<Rightarrow> nat \<Rightarrow> nat" where
  "scan_measure t i = 2 * (cnt t - i) + (if rg_size (rgn t i) \<noteq> 0 then 1 else 0)"

lemma scan_measure_remove:
  assumes "i < cnt t"
  shows "scan_measure (memblock_remove_region t i) i \<le> 2 * (cnt t - i)"
proof (cases "cnt t = 1")
  case True
  then have "rg_size (rgn (memblock_remove_region t i) i) = 0"
    using assms by (simp add: memblock_remove_region_def Let_def set_rgn_def rgn_def null_region_def)
  then show ?thesis using True assms by (simp add: scan_measure_def)
next
  case False
  then show ?thesis using assms by (auto simp: scan_measure_def)
qed

termination add_scan
proof (relation "measure (\<lambda>(t, base, sz, en, i). scan_measure t i)", goal_cases)
  case (2 t base sz en i r rend r' t' base' sz')
  then show ?case
    using scan_measure_remove [of i t'] by (auto simp: scan_measure_def set_rgn_def)
next
  case (4 t base sz en i r rend)
  then show ?case using scan_measure_remove [of i t] by (auto simp: scan_measure_def)
qed (auto simp: scan_measure_def)

declare add_scan.simps [simp del]

text \<open>The insertion loop \<^verbatim>\<open>for (i = type->cnt - 1; i >= 0; i--)\<close>; the counter is one
  ahead here, so that 0 stands for the \<open>-1\<close> that ends the loop.\<close>

primrec insert_shift :: "memblock_type \<Rightarrow> phys_addr_t \<Rightarrow> phys_addr_t \<Rightarrow> nat \<Rightarrow> memblock_type" where
  "insert_shift t base sz 0 = t"
| "insert_shift t base sz (Suc i) =
     (if base < rg_base (rgn t i) then insert_shift (set_rgn t (i + 1) (rgn t i)) base sz i
      else set_rgn t (i + 1) \<lparr> rg_base = base, rg_size = sz \<rparr>)"

definition new_block :: "memblock_type \<Rightarrow> phys_addr_t \<Rightarrow> phys_addr_t \<Rightarrow> memblock_type \<times> int" where
  "new_block t base sz =
     (if cnt t \<ge> mb_max t then (t, -1)
      else
        let t = insert_shift t base sz (cnt t);
            t = (if base < rg_base (rgn t 0) then set_rgn t 0 \<lparr> rg_base = base, rg_size = sz \<rparr> else t)
        in (t\<lparr>cnt := cnt t + 1\<rparr>, 0))"

definition memblock_add_region ::
  "memblock_type \<Rightarrow> phys_addr_t \<Rightarrow> phys_addr_t \<Rightarrow> memblock_type \<times> int" where
  "memblock_add_region t base sz =
     (case add_scan t base sz (base + sz) 0 of
        Return0 t \<Rightarrow> (t, 0)
      | Broke t base sz \<Rightarrow>
          if cnt t = 1 \<and> rg_size (rgn t 0) = 0
          then (set_rgn t 0 \<lparr> rg_base = base, rg_size = sz \<rparr>, 0)
          else new_block t base sz
      | New_block t base sz \<Rightarrow> new_block t base sz)"

definition memblock_add :: "memblock \<Rightarrow> phys_addr_t \<Rightarrow> phys_addr_t \<Rightarrow> memblock \<times> int" where
  "memblock_add mb base sz =
     (let (t, r) = memblock_add_region (memory mb) base sz in (mb\<lparr>memory := t\<rparr>, r))"

definition memblock_reserve :: "memblock \<Rightarrow> phys_addr_t \<Rightarrow> phys_addr_t \<Rightarrow> memblock \<times> int" where
  "memblock_reserve mb base sz =
     (let (t, r) = memblock_add_region (reserved mb) base sz in (mb\<lparr>reserved := t\<rparr>, r))"

text \<open>The name argument is not used, and the result of the reservation is dropped.\<close>

definition memblock_x86_reserve_range :: "memblock \<Rightarrow> u64 \<Rightarrow> u64 \<Rightarrow> memblock" where
  "memblock_x86_reserve_range mb st en =
     (if st = en then mb else fst (memblock_reserve mb st (en - st)))"

section \<open>Searching for free memory\<close>

definition memblock_addrs_overlap ::
  "phys_addr_t \<Rightarrow> phys_addr_t \<Rightarrow> phys_addr_t \<Rightarrow> phys_addr_t \<Rightarrow> bool" where
  "memblock_addrs_overlap base1 size1 base2 size2 \<longleftrightarrow> base1 < base2 + size2 \<and> base2 < base1 + size1"

definition memblock_align_down :: "phys_addr_t \<Rightarrow> phys_addr_t \<Rightarrow> phys_addr_t" where
  "memblock_align_down addr sz = addr AND NOT (sz - 1)"

function overlap_scan :: "memblock_type \<Rightarrow> phys_addr_t \<Rightarrow> phys_addr_t \<Rightarrow> nat \<Rightarrow> nat" where
  "overlap_scan t base sz i =
     (if i < cnt t then
        if memblock_addrs_overlap base sz (rg_base (rgn t i)) (rg_size (rgn t i)) then i
        else overlap_scan t base sz (i + 1)
      else i)"
  by pat_completeness auto
termination
  by (relation "measure (\<lambda>(t, base, sz, i). cnt t - i)") auto

declare overlap_scan.simps [simp del]

definition memblock_overlaps_region :: "memblock_type \<Rightarrow> phys_addr_t \<Rightarrow> phys_addr_t \<Rightarrow> int" where
  "memblock_overlaps_region t base sz =
     (let i = overlap_scan t base sz 0 in if i < cnt t then int i else -1)"

lemma overlap_scan_spec:
  shows "overlap_scan t base sz i < cnt t \<Longrightarrow>
      memblock_addrs_overlap base sz (rg_base (rgn t (overlap_scan t base sz i))) (rg_size (rgn t (overlap_scan t base sz i)))"
    and "\<not> overlap_scan t base sz i < cnt t \<Longrightarrow> i \<le> k \<Longrightarrow> k < cnt t \<Longrightarrow>
      \<not> memblock_addrs_overlap base sz (rg_base (rgn t k)) (rg_size (rgn t k))"
proof -
  let ?o = "\<lambda>t base sz i. memblock_addrs_overlap base sz (rg_base (rgn t i)) (rg_size (rgn t i))"
  have "(overlap_scan t base sz i < cnt t \<longrightarrow> ?o t base sz (overlap_scan t base sz i))
    \<and> (\<not> overlap_scan t base sz i < cnt t \<longrightarrow> (\<forall>k. i \<le> k \<longrightarrow> k < cnt t \<longrightarrow> \<not> ?o t base sz k))"
  proof (induction t base sz i rule: overlap_scan.induct)
    case (1 t base sz i)
    have "i \<le> k \<longleftrightarrow> i = k \<or> i + 1 \<le> k" for k by auto
    then show ?case
      using 1 unfolding overlap_scan.simps [of t base sz i] by (cases "i < cnt t \<and> \<not> ?o t base sz i") auto
  qed
  then show "overlap_scan t base sz i < cnt t \<Longrightarrow> ?o t base sz (overlap_scan t base sz i)"
    "\<not> overlap_scan t base sz i < cnt t \<Longrightarrow> i \<le> k \<Longrightarrow> k < cnt t \<Longrightarrow> \<not> ?o t base sz k"
    by blast+
qed

function find_region_loop ::
  "memblock_type \<Rightarrow> phys_addr_t \<Rightarrow> phys_addr_t \<Rightarrow> phys_addr_t \<Rightarrow> phys_addr_t \<Rightarrow> phys_addr_t" where
  "find_region_loop res st sz align base =
     (if st \<le> base then
        let j = memblock_overlaps_region res base sz in
        if j < 0 then base
        else
          let res_base = rg_base (rgn res (nat j)) in
          if res_base < sz then MEMBLOCK_ERROR
          else find_region_loop res st sz align (memblock_align_down (res_base - sz) align)
      else MEMBLOCK_ERROR)"
  by pat_completeness auto

lemma overlaps_region_Some:
  assumes "\<not> memblock_overlaps_region t base sz < 0" "j = nat (memblock_overlaps_region t base sz)"
  shows "j < cnt t" "memblock_addrs_overlap base sz (rg_base (rgn t j)) (rg_size (rgn t j))"
  using assms overlap_scan_spec(1) [of t base sz 0]
  by (auto simp: memblock_overlaps_region_def Let_def split: if_splits)

lemma overlaps_region_None:
  assumes "memblock_overlaps_region t base sz < 0" "k < cnt t"
  shows "\<not> memblock_addrs_overlap base sz (rg_base (rgn t k)) (rg_size (rgn t k))"
  using assms overlap_scan_spec(2) [of t base sz 0 k]
  by (auto simp: memblock_overlaps_region_def Let_def split: if_splits)

text \<open>The candidate moves down in every turn, even where a sum wraps around.\<close>

lemma candidate_decreases:
  assumes "memblock_addrs_overlap base sz rb rs" "sz \<le> rb"
  shows "memblock_align_down (rb - sz) align < base"
proof -
  have "unat (memblock_align_down (rb - sz) align) \<le> unat (rb - sz)"
    unfolding memblock_align_down_def by (simp add: and_not_le flip: word_le_unat)
  moreover have "unat (rb - sz) = unat rb - unat sz" using assms(2) by (rule unat_sub_le)
  moreover have "unat rb < unat (base + sz)"
    using assms(1) by (simp add: memblock_addrs_overlap_def word_less_unat)
  moreover have "unat (base + sz) \<le> unat base + unat sz" by (simp add: unat_word_ariths)
  moreover have "unat sz \<le> unat rb" using assms(2) by (simp add: word_le_unat)
  ultimately show ?thesis by (simp add: word_less_unat)
qed

termination find_region_loop
proof (relation "measure (\<lambda>(res, st, sz, align, base). unat base)", goal_cases)
  case (2 res st sz align base j res_base)
  then show ?case
    using candidate_decreases [OF overlaps_region_Some(2) [of res base sz "nat j"], of align]
    by (simp flip: word_less_unat)
qed simp

declare find_region_loop.simps [simp del]

definition memblock_find_region ::
  "memblock_type \<Rightarrow> phys_addr_t \<Rightarrow> phys_addr_t \<Rightarrow> phys_addr_t \<Rightarrow> phys_addr_t \<Rightarrow> phys_addr_t" where
  "memblock_find_region res st en sz align =
     (if en < sz then MEMBLOCK_ERROR
      else
        let base = memblock_align_down (en - sz) align;
            st = (if st = 0 then PAGE_SIZE else st)
        in find_region_loop res st sz align base)"

text \<open>\<^verbatim>\<open>for (i = memblock.memory.cnt - 1; i >= 0; i--)\<close>, with the counter one ahead.\<close>

primrec find_base_loop ::
  "memblock \<Rightarrow> phys_addr_t \<Rightarrow> phys_addr_t \<Rightarrow> phys_addr_t \<Rightarrow> phys_addr_t \<Rightarrow> nat \<Rightarrow> phys_addr_t" where
  "find_base_loop mb sz align st en 0 = MEMBLOCK_ERROR"
| "find_base_loop mb sz align st en (Suc i) =
     (let memblockbase = rg_base (rgn (memory mb) i);
          memblocksize = rg_size (rgn (memory mb) i)
      in if memblocksize < sz then find_base_loop mb sz align st en i
         else if memblockbase + memblocksize \<le> st then MEMBLOCK_ERROR
         else
           let bottom = max memblockbase st;
               top = min (memblockbase + memblocksize) en
           in if bottom \<ge> top then find_base_loop mb sz align st en i
              else
                let found = memblock_find_region (reserved mb) bottom top sz align
                in if found \<noteq> MEMBLOCK_ERROR then found else find_base_loop mb sz align st en i)"

definition memblock_find_base ::
  "memblock \<Rightarrow> phys_addr_t \<Rightarrow> phys_addr_t \<Rightarrow> phys_addr_t \<Rightarrow> phys_addr_t \<Rightarrow> phys_addr_t" where
  "memblock_find_base mb sz align st en =
     (let en = (if en = MEMBLOCK_ALLOC_ACCESSIBLE then current_limit mb else en)
      in find_base_loop mb sz align st en (cnt (memory mb)))"

definition memblock_find_in_range :: "memblock \<Rightarrow> u64 \<Rightarrow> u64 \<Rightarrow> u64 \<Rightarrow> u64 \<Rightarrow> u64" where
  "memblock_find_in_range mb st en sz align = memblock_find_base mb sz align st en"

section \<open>The intervals of an array\<close>

type_synonym span = "nat \<times> nat"

definition span_of :: "memblock_region \<Rightarrow> span" where
  "span_of r = (unat (rg_base r), unat (rg_base r) + unat (rg_size r))"

text \<open>A count of 1 with an empty first region stands for an array without regions.\<close>

definition no_regions :: "memblock_type \<Rightarrow> bool" where
  "no_regions t \<longleftrightarrow> cnt t = 1 \<and> rg_size (rgn t 0) = 0"

definition view :: "memblock_type \<Rightarrow> span list" where
  "view t = (if no_regions t then [] else map (\<lambda>i. span_of (rgn t i)) [0..<cnt t])"

definition ascending :: "span list \<Rightarrow> bool" where
  "ascending xs \<longleftrightarrow> sorted_wrt (\<lambda>x y. snd x < fst y) xs \<and> (\<forall>x\<in>set xs. fst x < snd x)"

definition fits :: "memblock_region \<Rightarrow> bool" where
  "fits r \<longleftrightarrow> unat (rg_base r) + unat (rg_size r) < 2 ^ 64"

definition mb_inv :: "memblock_type \<Rightarrow> bool" where
  "mb_inv t \<longleftrightarrow> 1 \<le> cnt t \<and> cnt t \<le> mb_max t \<and> length (regions t) = mb_max t + 1
     \<and> ascending (view t) \<and> (\<forall>i<cnt t. fits (rgn t i)) \<and> (no_regions t \<longrightarrow> rg_base (rgn t 0) = 0)"

definition spans_set :: "span list \<Rightarrow> nat set" where
  "spans_set xs = (\<Union>(a, b)\<in>set xs. {a..<b})"

text \<open>Adding \<open>[a, b)\<close> to an ascending sequence: intervals that it overlaps or touches are
  merged with it.\<close>

fun insert_span :: "nat \<Rightarrow> nat \<Rightarrow> span list \<Rightarrow> span list" where
  "insert_span a b [] = [(a, b)]"
| "insert_span a b ((c, d) # xs) =
     (if b < c then (a, b) # (c, d) # xs
      else if c \<le> a \<and> b \<le> d then (c, d) # xs
      else if a < c then if b \<le> d then (a, d) # xs else insert_span a b xs
      else if a \<le> d then insert_span c b xs
      else (c, d) # insert_span a b xs)"

lemma spans_set_simps [simp]:
  "spans_set [] = {}" "spans_set ((a, b) # xs) = {a..<b} \<union> spans_set xs"
  "spans_set (xs @ ys) = spans_set xs \<union> spans_set ys"
  by (auto simp: spans_set_def)

lemma spans_set_iff: "x \<in> spans_set xs \<longleftrightarrow> (\<exists>s\<in>set xs. fst s \<le> x \<and> x < snd s)"
  by (force simp: spans_set_def)

lemma ascending_simps [simp]:
  "ascending []" "ascending (x # xs) \<longleftrightarrow> fst x < snd x \<and> (\<forall>y\<in>set xs. snd x < fst y) \<and> ascending xs"
  by (auto simp: ascending_def)

lemma ascending_append:
  "ascending (xs @ ys) \<longleftrightarrow> ascending xs \<and> ascending ys \<and> (\<forall>x\<in>set xs. \<forall>y\<in>set ys. snd x < fst y)"
  by (auto simp: ascending_def sorted_wrt_append)

lemma insert_span_set: "a < b \<Longrightarrow> ascending xs \<Longrightarrow> spans_set (insert_span a b xs) = {a..<b} \<union> spans_set xs"
  by (induction a b xs rule: insert_span.induct) auto

lemma insert_span_fst:
  "y \<in> set (insert_span a b xs) \<Longrightarrow> \<forall>x\<in>set xs. l < fst x \<Longrightarrow> l < a \<Longrightarrow> l < fst y"
  by (induction a b xs rule: insert_span.induct) (auto split: if_splits)

lemma insert_span_ascending: "a < b \<Longrightarrow> ascending xs \<Longrightarrow> ascending (insert_span a b xs)"
  by (induction a b xs rule: insert_span.induct) (auto dest: insert_span_fst)

section \<open>The array operations on the intervals\<close>

lemma rgn_set_rgn:
  "rgn (set_rgn t i r) k = (if k = i \<and> i < length (regions t) then r else rgn t k)"
  by (auto simp: rgn_def set_rgn_def)

lemma set_rgn_simps [simp]:
  "cnt (set_rgn t i r) = cnt t" "mb_max (set_rgn t i r) = mb_max t"
  "length (regions (set_rgn t i r)) = length (regions t)"
  by (simp_all add: set_rgn_def)

lemma rgn_cnt_update [simp]: "rgn (t\<lparr>cnt := n\<rparr>) k = rgn t k"
  by (simp add: rgn_def)

lemma rgn_shift_down:
  assumes "cnt t \<le> length (regions t)"
  shows "rgn (shift_down t i) k = (if i \<le> k \<and> k < cnt t - 1 then rgn t (k + 1) else rgn t k)"
  using assms
proof (induction t i rule: shift_down.induct)
  case (1 t i)
  show ?case
  proof (cases "i < cnt t - 1")
    case True
    then have "rgn (shift_down t i) k = rgn (shift_down (set_rgn t i (rgn t (i + 1))) (i + 1)) k"
      by (simp add: shift_down.simps [of t i])
    also have "\<dots> = (if i \<le> k \<and> k < cnt t - 1 then rgn t (k + 1) else rgn t k)"
      using 1 True by (auto simp: rgn_set_rgn)
    finally show ?thesis .
  next
    case False
    then show ?thesis by (auto simp: shift_down.simps [of t i])
  qed
qed

lemma rgn_remove:
  assumes "cnt t \<le> length (regions t)" "1 < cnt t"
  shows "rgn (memblock_remove_region t i) k = (if i \<le> k \<and> k < cnt t - 1 then rgn t (k + 1) else rgn t k)"
  using assms by (simp add: memblock_remove_region_def Let_def rgn_shift_down)

lemma remove_simps [simp]:
  "mb_max (memblock_remove_region t i) = mb_max t"
  "length (regions (memblock_remove_region t i)) = length (regions t)"
  by (simp_all add: memblock_remove_region_def Let_def)

lemma no_regions_remove_last: "cnt t = 1 \<Longrightarrow> length (regions t) > 0 \<Longrightarrow> no_regions (memblock_remove_region t i)"
  by (simp add: no_regions_def memblock_remove_region_def Let_def rgn_set_rgn)

lemma length_view: "\<not> no_regions t \<Longrightarrow> length (view t) = cnt t"
  by (simp add: view_def)

lemma view_nth: "\<not> no_regions t \<Longrightarrow> i < cnt t \<Longrightarrow> view t ! i = span_of (rgn t i)"
  by (simp add: view_def)

text \<open>The regions in use are not empty.\<close>

definition nonempty :: "memblock_type \<Rightarrow> bool" where
  "nonempty t \<longleftrightarrow> (\<forall>i<cnt t. rg_size (rgn t i) \<noteq> 0)"

lemma nonempty_regions: "nonempty t \<Longrightarrow> 1 \<le> cnt t \<Longrightarrow> \<not> no_regions t"
  by (auto simp: nonempty_def no_regions_def)

lemma inv_nonempty: "mb_inv t \<Longrightarrow> \<not> no_regions t \<Longrightarrow> nonempty t"
  by (auto simp: mb_inv_def ascending_def view_def nonempty_def span_of_def word_gt_0 unat_gt_0)

lemma view_remove:
  assumes "mb_inv t" "\<not> no_regions t" "i < cnt t"
  shows "view (memblock_remove_region t i) = take i (view t) @ drop (Suc i) (view t)"
    and "mb_inv (memblock_remove_region t i)"
proof -
  have len: "cnt t \<le> length (regions t)" "0 < length (regions t)" using assms(1) by (auto simp: mb_inv_def)
  have asc: "ascending (take i (view t) @ drop (Suc i) (view t))"
  proof -
    have "view t = take i (view t) @ view t ! i # drop (Suc i) (view t)"
      using assms by (intro id_take_nth_drop) (simp add: length_view)
    then have "ascending (take i (view t) @ view t ! i # drop (Suc i) (view t))"
      using assms(1) by (simp add: mb_inv_def)
    then show ?thesis by (auto simp: ascending_append)
  qed
  have nr: "\<not> no_regions (memblock_remove_region t i)" if c: "1 < cnt t"
    using c inv_nonempty [OF assms(1,2)] by (auto simp: rgn_remove [OF len(1) c] nonempty_def no_regions_def)
  show v: "view (memblock_remove_region t i) = take i (view t) @ drop (Suc i) (view t)"
  proof (cases "cnt t = 1")
    case True
    then show ?thesis
      using no_regions_remove_last [OF True len(2), of i] assms by (simp add: view_def)
  next
    case False
    then have c: "1 < cnt t" using assms(3) by simp
    note nr = nr [OF c]
    show ?thesis
    proof (rule nth_equalityI)
      show "length (view (memblock_remove_region t i)) = length (take i (view t) @ drop (Suc i) (view t))"
        using c assms by (simp add: length_view [OF nr] length_view)
      fix k assume "k < length (view (memblock_remove_region t i))"
      then have k: "k < cnt t - 1" using c by (simp add: length_view [OF nr])
      then show "view (memblock_remove_region t i) ! k = (take i (view t) @ drop (Suc i) (view t)) ! k"
        using c assms
        by (auto simp: view_nth nr rgn_remove [OF len(1) c] nth_append length_view not_less min_def)
    qed
  qed
  show "mb_inv (memblock_remove_region t i)"
  proof (cases "cnt t = 1")
    case True
    then have "rgn (memblock_remove_region t i) 0 = \<lparr>rg_base = 0, rg_size = 0\<rparr>"
      using len by (simp add: memblock_remove_region_def Let_def rgn_set_rgn)
    then show ?thesis using assms(1) asc v True by (simp add: mb_inv_def fits_def)
  next
    case False
    then have c: "1 < cnt t" using assms(3) by simp
    show ?thesis using assms(1) c asc v nr [OF c] by (auto simp: mb_inv_def rgn_remove [OF len(1) c])
  qed
qed

lemma insert_shift_simps [simp]:
  "cnt (insert_shift t base sz n) = cnt t" "mb_max (insert_shift t base sz n) = mb_max t"
  "length (regions (insert_shift t base sz n)) = length (regions t)"
  by (induction n arbitrary: t) simp_all

lemma rgn_insert_shift:
  assumes "n < length (regions t)" "p \<le> n" "0 < p \<Longrightarrow> \<not> base < rg_base (rgn t (p - 1))"
    "\<And>k. p \<le> k \<Longrightarrow> k < n \<Longrightarrow> base < rg_base (rgn t k)"
  shows "rgn (insert_shift t base sz n) k =
    (if k = p \<and> 0 < p then \<lparr>rg_base = base, rg_size = sz\<rparr>
     else if p < k \<and> k \<le> n then rgn t (k - 1) else rgn t k)"
  using assms
proof (induction n arbitrary: t)
  case 0
  then show ?case by simp
next
  case (Suc n)
  show ?case
  proof (cases "p \<le> n")
    case True
    then have b: "base < rg_base (rgn t n)" using Suc.prems(4) [of n] by simp
    let ?t = "set_rgn t (n + 1) (rgn t n)"
    have "rgn (insert_shift ?t base sz n) k =
      (if k = p \<and> 0 < p then \<lparr>rg_base = base, rg_size = sz\<rparr>
       else if p < k \<and> k \<le> n then rgn ?t (k - 1) else rgn ?t k)"
      using True Suc.prems by (intro Suc.IH) (auto simp: rgn_set_rgn)
    then show ?thesis using b True Suc.prems(1) by (auto simp: rgn_set_rgn le_Suc_eq)
  next
    case False
    then have "p = Suc n" using Suc.prems(2) by simp
    then show ?thesis using Suc.prems by (auto simp: rgn_set_rgn)
  qed
qed

lemma view_new_block:
  assumes inv: "mb_inv t" "\<not> no_regions t" and room: "cnt t < mb_max t" and p: "p \<le> cnt t"
    and before: "\<forall>x\<in>set (take p (view t)). fst x \<le> unat base"
    and after: "\<forall>x\<in>set (drop p (view t)). unat base < fst x"
    and sz: "sz \<noteq> 0"
  shows "snd (new_block t base sz) = 0"
    "view (fst (new_block t base sz)) = take p (view t) @ (unat base, unat base + unat sz) # drop p (view t)"
    "cnt (fst (new_block t base sz)) = cnt t + 1" "mb_max (fst (new_block t base sz)) = mb_max t"
    "length (regions (fst (new_block t base sz))) = length (regions t)"
    "\<And>k. k < cnt t + 1 \<Longrightarrow> rgn (fst (new_block t base sz)) k =
      (if k = p then \<lparr>rg_base = base, rg_size = sz\<rparr> else if k < p then rgn t k else rgn t (k - 1))"
proof -
  let ?t = "insert_shift t base sz (cnt t)" and ?n = "\<lparr>rg_base = base, rg_size = sz\<rparr>"
  have len: "cnt t < length (regions t)" and c: "1 \<le> cnt t" using inv by (auto simp: mb_inv_def)
  have lv: "length (view t) = cnt t" using inv(2) by (rule length_view)
  have b1: "\<not> base < rg_base (rgn t k)" if "k < p" for k
  proof -
    have "view t ! k \<in> set (take p (view t))" using that p lv by (auto simp: in_set_conv_nth)
    then show ?thesis using before view_nth [OF inv(2), of k] that p
      by (auto simp: span_of_def word_less_unat)
  qed
  have b2: "base < rg_base (rgn t k)" if "p \<le> k" "k < cnt t" for k
  proof -
    have "view t ! k = drop p (view t) ! (k - p)" "k - p < length (drop p (view t))"
      using that lv by simp_all
    then have "view t ! k \<in> set (drop p (view t))" by (metis nth_mem)
    then show ?thesis using after view_nth [OF inv(2), of k] that
      by (auto simp: span_of_def word_less_unat)
  qed
  have r: "rgn ?t k = (if k = p \<and> 0 < p then ?n else if p < k \<and> k \<le> cnt t then rgn t (k - 1) else rgn t k)" for k
    using len p b1 b2 by (intro rgn_insert_shift) auto
  have z: "base < rg_base (rgn ?t 0) \<longleftrightarrow> p = 0"
    using r [of 0] b1 [of 0] b2 [of 0] c p by auto
  let ?u = "if base < rg_base (rgn ?t 0) then set_rgn ?t 0 ?n else ?t"
  have nb: "new_block t base sz = (?u\<lparr>cnt := cnt t + 1\<rparr>, 0)"
    using room by (auto simp: new_block_def Let_def)
  show "snd (new_block t base sz) = 0" "cnt (fst (new_block t base sz)) = cnt t + 1"
    "mb_max (fst (new_block t base sz)) = mb_max t"
    "length (regions (fst (new_block t base sz))) = length (regions t)"
    by (simp_all add: nb)
  show ru: "rgn (fst (new_block t base sz)) k = (if k = p then ?n else if k < p then rgn t k else rgn t (k - 1))"
    if "k < cnt t + 1" for k
    using that len z by (auto simp: nb rgn_set_rgn r)
  have cn: "cnt (fst (new_block t base sz)) = cnt t + 1" by (simp add: nb)
  have nr: "\<not> no_regions (fst (new_block t base sz))" using c by (simp add: no_regions_def nb)
  show "view (fst (new_block t base sz)) = take p (view t) @ (unat base, unat base + unat sz) # drop p (view t)"
  proof (rule nth_equalityI)
    show "length (view (fst (new_block t base sz)))
      = length (take p (view t) @ (unat base, unat base + unat sz) # drop p (view t))"
      using p by (simp add: length_view [OF nr] lv cn)
    fix k assume "k < length (view (fst (new_block t base sz)))"
    then have k: "k < cnt t + 1" by (simp add: length_view [OF nr] cn)
    then have "view (fst (new_block t base sz)) ! k
      = span_of (if k = p then ?n else if k < p then rgn t k else rgn t (k - 1))"
      using view_nth [OF nr, of k] ru [OF k] by (simp add: cn)
    then show "view (fst (new_block t base sz)) ! k
      = (take p (view t) @ (unat base, unat base + unat sz) # drop p (view t)) ! k"
      using k p inv(2) by (auto simp: nth_append lv min_def view_nth span_of_def nth_Cons')
  qed
qed

section \<open>Adding a region refines the insertion of an interval\<close>

definition target :: "memblock_type \<Rightarrow> phys_addr_t \<Rightarrow> phys_addr_t \<Rightarrow> nat \<Rightarrow> span list" where
  "target t base sz i =
     take i (view t) @ insert_span (unat base) (unat base + unat sz) (drop i (view t))"

definition scan_pre :: "memblock_type \<Rightarrow> phys_addr_t \<Rightarrow> phys_addr_t \<Rightarrow> nat \<Rightarrow> bool" where
  "scan_pre t base sz i \<longleftrightarrow> mb_inv t \<and> sz \<noteq> 0 \<and> unat base + unat sz < 2 ^ 64
     \<and> i \<le> length (view t) \<and> (\<forall>x\<in>set (take i (view t)). snd x < unat base)"

text \<open>The exits: either the array holds the result, or the interval that has grown on the way
  still has to be put at a position \<open>p\<close>.\<close>

definition at_gap :: "memblock_type \<Rightarrow> phys_addr_t \<Rightarrow> phys_addr_t \<Rightarrow> nat \<Rightarrow> bool" where
  "at_gap t base sz p \<longleftrightarrow> scan_pre t base sz p \<and> (\<forall>x\<in>set (drop p (view t)). unat base + unat sz < fst x)"

fun scan_post :: "memblock_type \<Rightarrow> span list \<Rightarrow> add_exit \<Rightarrow> bool" where
  "scan_post t xs (Return0 t') \<longleftrightarrow> mb_inv t' \<and> view t' = xs \<and> mb_max t' = mb_max t"
| "scan_post t xs (Broke t' base sz) \<longleftrightarrow>
     (\<exists>p. at_gap t' base sz p \<and> xs = take p (view t') @ (unat base, unat base + unat sz) # drop p (view t'))
     \<and> mb_max t' = mb_max t \<and> (t' = t \<or> no_regions t' \<or> cnt t' < mb_max t')"
| "scan_post t xs (New_block t' base sz) \<longleftrightarrow> False"

lemma scan_post_trans:
  assumes "scan_post t' xs e" "mb_max t' = mb_max t" "no_regions t' \<or> cnt t' < mb_max t'"
  shows "scan_post t xs e"
  using assms by (cases e) auto

lemma view_set_rgn:
  assumes "mb_inv t" "\<not> no_regions t" "i < cnt t" "rg_size r \<noteq> 0"
  shows "view (set_rgn t i r) = (view t)[i := span_of r]" "\<not> no_regions (set_rgn t i r)"
proof -
  have len: "i < length (regions t)" using assms by (auto simp: mb_inv_def)
  have "rg_size (rgn t 0) \<noteq> 0" using inv_nonempty [OF assms(1,2)] assms(3) by (auto simp: nonempty_def)
  then show nr: "\<not> no_regions (set_rgn t i r)" using len assms(4) by (auto simp: no_regions_def rgn_set_rgn)
  show "view (set_rgn t i r) = (view t)[i := span_of r]"
    by (rule nth_equalityI)
      (use len assms nr in \<open>auto simp: length_view view_nth nth_list_update rgn_set_rgn\<close>)
qed

lemma ascending_update:
  assumes "ascending xs" "i < length xs" "fst x < snd x" "snd x = snd (xs ! i)"
    "\<forall>y\<in>set (take i xs). snd y < fst x"
  shows "ascending (xs[i := x])"
proof -
  have "ascending (take i xs @ xs ! i # drop (Suc i) xs)"
    using assms(1) id_take_nth_drop [OF assms(2)] by simp
  then have "ascending (take i xs @ x # drop (Suc i) xs)"
    using assms(3-5) by (auto simp: ascending_append)
  then show ?thesis using assms(2) by (simp add: upd_conv_take_nth_drop)
qed

lemma drop_view:
  assumes "\<not> no_regions t" "i < cnt t"
  shows "drop i (view t) = span_of (rgn t i) # drop (Suc i) (view t)"
  using assms by (simp add: Cons_nth_drop_Suc [symmetric] length_view view_nth)

text \<open>The state in which the interval, which begins before region \<open>i\<close>, has been merged into
  it.\<close>

lemma grow_region:
  assumes pre: "scan_pre t base sz i" and i: "i < cnt t" "\<not> no_regions t" "base < rg_base (rgn t i)"
    and r: "r = \<lparr>rg_base = base, rg_size = rg_base (rgn t i) + rg_size (rgn t i) - base\<rparr>"
  shows "mb_inv (set_rgn t i r)" "\<not> no_regions (set_rgn t i r)"
    "view (set_rgn t i r) = (view t)[i := (unat base, snd (span_of (rgn t i)))]"
proof -
  have inv: "mb_inv t" using pre by (simp add: scan_pre_def)
  have f: "fits (rgn t i)" using inv i by (simp add: mb_inv_def)
  have e: "unat (rg_base (rgn t i) + rg_size (rgn t i)) = snd (span_of (rgn t i))"
    using f by (simp add: unat_add_no_wrap fits_def span_of_def)
  have lt: "unat base < snd (span_of (rgn t i))" using i(3) by (simp add: span_of_def word_less_unat)
  then have "base \<le> rg_base (rgn t i) + rg_size (rgn t i)" by (simp add: word_le_unat e)
  then have rs: "unat (rg_size r) = snd (span_of (rgn t i)) - unat base"
    by (simp add: r unat_sub_le e)
  then have sr: "span_of r = (unat base, snd (span_of (rgn t i)))" using lt by (simp add: span_of_def r)
  have "rg_size r \<noteq> 0" using rs lt by auto
  from view_set_rgn [OF inv i(2,1) this]
  show v: "view (set_rgn t i r) = (view t)[i := (unat base, snd (span_of (rgn t i)))]"
    and nr: "\<not> no_regions (set_rgn t i r)" by (simp_all add: sr)
  have "ascending (view (set_rgn t i r))"
    unfolding v using inv i lt pre
    by (intro ascending_update) (auto simp: mb_inv_def length_view view_nth scan_pre_def)
  moreover have "fits r"
    using rs lt f unfolding fits_def span_of_def by (simp add: r)
  ultimately show "mb_inv (set_rgn t i r)"
    using inv i nr by (auto simp: mb_inv_def rgn_set_rgn)
qed

lemma add_scan_step:
  fixes t base sz i
  defines "a \<equiv> unat base" and "b \<equiv> unat base + unat sz" and "r \<equiv> rgn t i"
  defines "c \<equiv> fst (span_of r)" and "d \<equiv> snd (span_of r)"
  defines "r' \<equiv> \<lparr>rg_base = base, rg_size = rg_base r + rg_size r - base\<rparr>"
  assumes "scan_pre t base sz i" "i < cnt t" "\<not> no_regions t" "en = base + sz"
  shows "b < c \<Longrightarrow> add_scan t base sz en i = Broke t base sz"
    and "c \<le> a \<Longrightarrow> b \<le> d \<Longrightarrow> add_scan t base sz en i = Return0 t"
    and "a < c \<Longrightarrow> c \<le> b \<Longrightarrow> b \<le> d \<Longrightarrow> add_scan t base sz en i = Return0 (set_rgn t i r')"
    and "a < c \<Longrightarrow> d < b \<Longrightarrow>
      add_scan t base sz en i = add_scan (memblock_remove_region (set_rgn t i r') i) base sz en i"
    and "c \<le> a \<Longrightarrow> a \<le> d \<Longrightarrow> d < b \<Longrightarrow> add_scan t base sz en i
      = add_scan (memblock_remove_region t i) (rg_base r) (sz + (base - rg_base r)) en i"
    and "d < a \<Longrightarrow> add_scan t base sz en i = add_scan t base sz en (i + 1)"
proof -
  have inv: "mb_inv t" and nw: "unat base + unat sz < 2 ^ 64" and sz: "sz \<noteq> 0"
    using assms by (auto simp: scan_pre_def)
  have f: "fits r" using inv assms by (simp add: mb_inv_def)
  have ne: "rg_size r \<noteq> 0" using inv_nonempty [OF inv] assms by (simp add: nonempty_def)
  have rend: "unat (rg_base r + rg_size r) = d"
    using f by (simp add: unat_add_no_wrap fits_def d_def span_of_def)
  have en: "unat en = b" using nw assms(10) by (simp add: unat_add_no_wrap b_def)
  have cd: "c < d" using ne by (simp add: c_def d_def span_of_def word_gt_0 unat_gt_0)
  have ab: "a < b" using sz by (simp add: a_def b_def unat_gt_0)
  have cc: "unat (rg_base r) = c" by (simp add: c_def span_of_def)
  note cmp = word_less_unat word_le_unat rend en cc a_def [symmetric]
  note step = add_scan.simps [of t base sz en i] Let_def memblock_memory_can_coalesce_def r_def [symmetric]
  show "b < c \<Longrightarrow> add_scan t base sz en i = Broke t base sz"
    using assms(8) by (simp add: step cmp)
  show "c \<le> a \<Longrightarrow> b \<le> d \<Longrightarrow> add_scan t base sz en i = Return0 t"
    using assms(8) ne ab by (simp add: step cmp)
  show "a < c \<Longrightarrow> c \<le> b \<Longrightarrow> b \<le> d \<Longrightarrow> add_scan t base sz en i = Return0 (set_rgn t i r')"
    using assms(8) ne ab by (simp add: step cmp r'_def)
  show "add_scan t base sz en i = add_scan (memblock_remove_region (set_rgn t i r') i) base sz en i"
    if "a < c" "d < b"
  proof -
    have "en - (rg_base r + rg_size r) + ((rg_base r + rg_size r) - base) = sz"
      using assms(10) by simp
    then show ?thesis using assms(8) ne that cd by (simp add: step cmp r'_def)
  qed
  show "add_scan t base sz en i = add_scan (memblock_remove_region t i) (rg_base r) (sz + (base - rg_base r)) en i"
    if "c \<le> a" "a \<le> d" "d < b"
    using assms(8) ne that cd by (simp add: step cmp)
  show "add_scan t base sz en i = add_scan t base sz en (i + 1)" if "d < a"
    using assms(8) ne that cd ab by (simp add: step cmp)
qed

text \<open>After region \<open>i\<close> is removed, the scan goes on at \<open>i\<close> with the interval \<open>[base', en)\<close>.\<close>

lemma scan_pre_remove:
  assumes "mb_inv t" "\<not> no_regions t" "i < cnt t" "sz \<noteq> 0" "unat base + unat sz < 2 ^ 64"
    "\<forall>x\<in>set (take i (view t)). snd x < unat base"
  shows "scan_pre (memblock_remove_region t i) base sz i"
    and "target (memblock_remove_region t i) base sz i =
      take i (view t) @ insert_span (unat base) (unat base + unat sz) (drop (Suc i) (view t))"
    and "no_regions (memblock_remove_region t i)
      \<or> cnt (memblock_remove_region t i) < mb_max (memblock_remove_region t i)"
proof -
  have len: "i < length (view t)" using assms by (simp add: length_view)
  show "scan_pre (memblock_remove_region t i) base sz i"
    using assms len by (simp add: scan_pre_def view_remove)
  show "target (memblock_remove_region t i) base sz i =
    take i (view t) @ insert_span (unat base) (unat base + unat sz) (drop (Suc i) (view t))"
    using len by (simp add: target_def view_remove [OF assms(1-3)])
  show "no_regions (memblock_remove_region t i)
      \<or> cnt (memblock_remove_region t i) < mb_max (memblock_remove_region t i)"
  proof (cases "cnt t = 1")
    case True
    then show ?thesis using assms(1) by (auto intro!: no_regions_remove_last simp: mb_inv_def)
  next
    case False
    then show ?thesis using assms(1,3) by (auto simp: mb_inv_def)
  qed
qed

lemma add_scan_refines:
  assumes "scan_pre t base sz i" "en = base + sz"
  shows "scan_post t (target t base sz i) (add_scan t base sz en i)"
  using assms
proof (induction "scan_measure t i" arbitrary: t base sz i rule: less_induct)
  case less
  note pre = less.prems(1)
  have inv: "mb_inv t" and nw: "unat base + unat sz < 2 ^ 64" and sz: "sz \<noteq> 0" and i: "i \<le> length (view t)"
    and before: "\<forall>x\<in>set (take i (view t)). snd x < unat base"
    using pre by (auto simp: scan_pre_def)
  show ?case
  proof (cases "no_regions t \<or> i = cnt t")
    case True
    then have e: "i = length (view t)"
    proof
      assume "no_regions t" then show ?thesis using i by (simp add: view_def)
    next
      assume "i = cnt t" then show ?thesis using i by (auto simp: view_def no_regions_def split: if_splits)
    qed
    have "add_scan t base sz en i = Broke t base sz"
      using True e by (subst add_scan.simps) (auto simp: no_regions_def view_def Let_def)
    moreover have "at_gap t base sz i" using pre e by (simp add: at_gap_def)
    ultimately show ?thesis using e by (auto simp: target_def)
  next
    case False
    then have nr: "\<not> no_regions t" and ic: "i < cnt t" using i length_view [of t] by auto
    let ?r = "rgn t i"
    let ?a = "unat base" and ?b = "unat base + unat sz"
    let ?c = "fst (span_of ?r)" and ?d = "snd (span_of ?r)"
    let ?r' = "\<lparr>rg_base = base, rg_size = rg_base ?r + rg_size ?r - base\<rparr>"
    note step = add_scan_step [OF pre ic nr less.prems(2)]
    have dv: "drop i (view t) = (?c, ?d) # drop (Suc i) (view t)" using drop_view [OF nr ic] by simp
    let ?rest = "drop (Suc i) (view t)"
    have tg: "target t base sz i = take i (view t) @
      (if ?b < ?c then (?a, ?b) # (?c, ?d) # ?rest
       else if ?c \<le> ?a \<and> ?b \<le> ?d then (?c, ?d) # ?rest
       else if ?a < ?c then if ?b \<le> ?d then (?a, ?d) # ?rest else insert_span ?a ?b ?rest
       else if ?a \<le> ?d then insert_span ?c ?b ?rest
       else (?c, ?d) # insert_span ?a ?b ?rest)"
      by (simp only: target_def dv insert_span.simps)
    have asc: "ascending (take i (view t) @ (?c, ?d) # drop (Suc i) (view t))"
      using inv dv by (metis append_take_drop_id mb_inv_def)
    have ne: "rg_size ?r \<noteq> 0" using inv_nonempty [OF inv nr] ic by (simp add: nonempty_def)
    have cd: "?c < ?d" using asc by (auto simp: ascending_append)
    have ab: "?a < ?b" using sz by (simp add: unat_gt_0)
    have li: "i < length (view t)" using ic nr by (simp add: length_view)
    have shrink: "scan_measure (memblock_remove_region t' i) i < scan_measure t i" if "cnt t' = cnt t" for t'
      using scan_measure_remove [of i t'] that ic ne by (simp add: scan_measure_def)
    consider (1) "?b < ?c" | (2) "?c \<le> ?a" "?b \<le> ?d" | (3) "?a < ?c" "?c \<le> ?b" "?b \<le> ?d"
      | (4) "?a < ?c" "?d < ?b" | (5) "?c \<le> ?a" "?a \<le> ?d" "?d < ?b" | (6) "?d < ?a"
      by linarith
    then show ?thesis
    proof cases
      case 1
      have "at_gap t base sz i" using pre 1 asc unfolding at_gap_def dv by (auto simp: ascending_append)
      moreover have "target t base sz i = take i (view t) @ (?a, ?b) # drop i (view t)"
        using 1 unfolding tg dv by (simp del: prod.collapse)
      ultimately show ?thesis using 1 by (auto simp: step(1))
    next
      case 2
      then have "target t base sz i = view t"
        using ab unfolding tg by (simp del: prod.collapse flip: dv)
      then show ?thesis using inv step(2) [OF 2] by simp
    next
      case 3
      then have "base < rg_base ?r" by (simp add: span_of_def word_less_unat)
      note g = grow_region [OF pre ic nr this refl]
      show ?thesis
        using 3 g(1,3) li ab by (simp add: step(3) tg upd_conv_take_nth_drop)
    next
      case 4
      then have "base < rg_base ?r" by (simp add: span_of_def word_less_unat)
      note g = grow_region [OF pre ic nr this refl]
      let ?t = "set_rgn t i ?r'"
      have tv: "take i (view ?t) = take i (view t)" "drop (Suc i) (view ?t) = drop (Suc i) (view t)"
        by (simp_all add: g(3))
      have ct: "i < cnt ?t" "cnt ?t = cnt t" using ic by simp_all
      note rm = scan_pre_remove [of ?t i sz base, unfolded tv, OF g(1,2) ct(1) sz nw before]
      note IH = less.hyps [OF shrink [OF ct(2)] rm(1) less.prems(2)]
      have "scan_post (memblock_remove_region ?t i) (target t base sz i) (add_scan t base sz en i)"
        using IH rm(2) 4 cd by (simp add: step(4) tg)
      then show ?thesis by (rule scan_post_trans) (use rm(3) in simp_all)
    next
      case 5
      let ?s = "sz + (base - rg_base ?r)"
      have c: "unat (rg_base ?r) = ?c" by (simp add: span_of_def)
      then have "unat (base - rg_base ?r) = ?a - ?c" using 5 by (simp add: unat_sub_le word_le_unat)
      then have us: "unat ?s = unat sz + (?a - ?c)"
        using nw by (subst unat_add_no_wrap) auto
      then have s0: "?s \<noteq> 0" and nw': "unat (rg_base ?r) + unat ?s < 2 ^ 64"
        and b: "unat (rg_base ?r) + unat ?s = ?b"
        using 5 nw sz c by (auto simp: unat_gt_0 [symmetric] simp del: unat_gt_0)
      have bef: "\<forall>x\<in>set (take i (view t)). snd x < unat (rg_base ?r)"
        using asc c by (auto simp: ascending_append)
      note rm = scan_pre_remove [OF inv nr ic s0 nw' bef]
      have "en = rg_base ?r + ?s" using less.prems(2) by simp
      note IH = less.hyps [OF shrink [OF refl] rm(1) this]
      have "scan_post (memblock_remove_region t i) (target t base sz i) (add_scan t base sz en i)"
        using IH rm(2) 5 ab cd unfolding b by (simp add: step(5) tg c)
      then show ?thesis by (rule scan_post_trans) (use rm(3) in simp_all)
    next
      case 6
      have "scan_pre t base sz (i + 1)"
        using pre 6 li view_nth [OF nr ic] by (simp add: scan_pre_def take_Suc_conv_app_nth)
      moreover have "scan_measure t (i + 1) < scan_measure t i" using ic ne by (auto simp: scan_measure_def)
      ultimately have "scan_post t (target t base sz (i + 1)) (add_scan t base sz en (i + 1))"
        using less.hyps less.prems(2) by blast
      moreover have "target t base sz (i + 1) = target t base sz i"
        using 6 ab cd li view_nth [OF nr ic] unfolding tg by (simp add: target_def take_Suc_conv_app_nth)
      ultimately show ?thesis using step(6) [OF 6] by simp
    qed
  qed
qed

lemma add_at_gap:
  assumes gap: "at_gap t base sz p" and nr: "\<not> no_regions t" and room: "cnt t < mb_max t"
    and asc: "ascending (take p (view t) @ (unat base, unat base + unat sz) # drop p (view t))"
  shows "snd (new_block t base sz) = 0" "mb_inv (fst (new_block t base sz))"
    "view (fst (new_block t base sz)) = take p (view t) @ (unat base, unat base + unat sz) # drop p (view t)"
    "mb_max (fst (new_block t base sz)) = mb_max t"
proof -
  have inv: "mb_inv t" and sz: "sz \<noteq> 0" and p: "p \<le> cnt t" and nw: "unat base + unat sz < 2 ^ 64"
    and bef: "\<forall>x\<in>set (take p (view t)). snd x < unat base"
    and aft: "\<forall>x\<in>set (drop p (view t)). unat base + unat sz < fst x"
    using gap nr by (auto simp: at_gap_def scan_pre_def length_view)
  have wf: "\<forall>x\<in>set (view t). fst x < snd x" using inv by (simp add: mb_inv_def ascending_def)
  have b1: "\<forall>x\<in>set (take p (view t)). fst x \<le> unat base"
    using bef wf by (meson in_set_takeD less_imp_le_nat less_trans)
  have b2: "\<forall>x\<in>set (drop p (view t)). unat base < fst x" using aft by auto
  note nb = view_new_block [OF inv nr room p b1 b2 sz]
  show "snd (new_block t base sz) = 0" "mb_max (fst (new_block t base sz)) = mb_max t"
    and v: "view (fst (new_block t base sz)) = take p (view t) @ (unat base, unat base + unat sz) # drop p (view t)"
    by (rule nb)+
  have "1 \<le> cnt t" using inv by (simp add: mb_inv_def)
  then have "\<not> no_regions (fst (new_block t base sz))" using nb(3) by (simp add: no_regions_def)
  then show "mb_inv (fst (new_block t base sz))"
    unfolding mb_inv_def v using asc inv room nb(3-6) nw p
    by (auto simp: mb_inv_def fits_def less_Suc_eq split: if_splits)
qed

lemma memblock_add_region_cases:
  assumes "mb_inv t" "sz \<noteq> 0" "unat base + unat sz < 2 ^ 64"
  obtains (added) t' where "memblock_add_region t base sz = (t', 0)" "mb_inv t'" "mb_max t' = mb_max t"
      "view t' = insert_span (unat base) (unat base + unat sz) (view t)"
  | (full) "memblock_add_region t base sz = (t, -1)" "cnt t = mb_max t"
proof -
  let ?xs = "insert_span (unat base) (unat base + unat sz) (view t)"
  have "target t base sz 0 = ?xs" by (simp add: target_def)
  then have post: "scan_post t ?xs (add_scan t base sz (base + sz) 0)"
    using add_scan_refines [of t base sz 0 "base + sz"] assms by (simp add: scan_pre_def)
  have asc: "ascending ?xs" using assms by (intro insert_span_ascending) (auto simp: mb_inv_def unat_gt_0)
  show ?thesis
  proof (cases "add_scan t base sz (base + sz) 0")
    case (Return0 t')
    then show ?thesis using post by (intro added [of t']) (simp_all add: memblock_add_region_def)
  next
    case (Broke t' base' sz')
    then obtain p where p: "at_gap t' base' sz' p" "mb_max t' = mb_max t"
        "?xs = take p (view t') @ (unat base', unat base' + unat sz') # drop p (view t')"
        "t' = t \<or> no_regions t' \<or> cnt t' < mb_max t'"
      using post by auto
    then have inv': "mb_inv t'" "sz' \<noteq> 0" "unat base' + unat sz' < 2 ^ 64"
      by (auto simp: at_gap_def scan_pre_def)
    consider "no_regions t'" | "\<not> no_regions t'" "cnt t' < mb_max t'" | "\<not> no_regions t'" "\<not> cnt t' < mb_max t'" by blast
    then show ?thesis
    proof cases
      case 1
      let ?t = "set_rgn t' 0 \<lparr>rg_base = base', rg_size = sz'\<rparr>"
      have l: "0 < length (regions t')" using inv' by (simp add: mb_inv_def)
      have "view ?t = [(unat base', unat base' + unat sz')]"
        using 1 l inv' by (simp add: view_def no_regions_def rgn_set_rgn span_of_def)
      moreover have "?xs = [(unat base', unat base' + unat sz')]" using 1 p(3) by (simp add: view_def)
      ultimately have "view ?t = ?xs" by simp
      then show ?thesis using 1 Broke inv' l asc p(2)
        by (intro added [of ?t])
          (auto simp: memblock_add_region_def no_regions_def mb_inv_def rgn_set_rgn fits_def)
    next
      case 2
      note g = add_at_gap [OF p(1) 2 asc [unfolded p(3)]]
      have "memblock_add_region t base sz = new_block t' base' sz'"
        using 2(1) Broke by (auto simp: memblock_add_region_def no_regions_def)
      then show ?thesis using g p(2,3) by (intro added [of "fst (new_block t' base' sz')"]) (auto simp: prod_eq_iff)
    next
      case 3
      then have "t' = t" using p(4) by simp
      then show ?thesis using 3 Broke assms(1)
        by (intro full) (auto simp: memblock_add_region_def no_regions_def new_block_def mb_inv_def)
    qed
  next
    case (New_block t' base' sz')
    then show ?thesis using post by simp
  qed
qed

section \<open>The search\<close>

text \<open>What is looked for, in terms of the intervals: an aligned address from which \<open>sz\<close> bytes
  are within \<open>[st, en)\<close>, inside one memory region and outside every reserved one.\<close>

definition clear_spot :: "span list \<Rightarrow> nat \<Rightarrow> nat \<Rightarrow> bool" where
  "clear_spot res sz a \<longleftrightarrow> (\<forall>x\<in>set res. a + sz \<le> fst x \<or> snd x \<le> a)"

definition free_spot :: "memblock \<Rightarrow> nat \<Rightarrow> nat \<Rightarrow> nat \<Rightarrow> nat \<Rightarrow> nat \<Rightarrow> bool" where
  "free_spot mb st en sz align a \<longleftrightarrow> align dvd a \<and> st \<le> a \<and> a + sz \<le> en
     \<and> (\<exists>m\<in>set (view (memory mb)). fst m \<le> a \<and> a + sz \<le> snd m) \<and> clear_spot (view (reserved mb)) sz a"

lemma overlap_spans:
  assumes "fits r" "unat base + unat sz < 2 ^ 64"
  shows "memblock_addrs_overlap base sz (rg_base r) (rg_size r) \<longleftrightarrow>
    unat base < snd (span_of r) \<and> fst (span_of r) < unat base + unat sz"
  using assms by (simp add: memblock_addrs_overlap_def word_less_unat unat_add_no_wrap fits_def span_of_def)

lemma set_view: "x \<in> set (view t) \<longleftrightarrow> \<not> no_regions t \<and> (\<exists>i<cnt t. x = span_of (rgn t i))"
  by (auto simp: view_def)

lemma overlaps_clear_spot:
  assumes "mb_inv t" "unat base + unat sz < 2 ^ 64"
  shows "memblock_overlaps_region t base sz < 0 \<longleftrightarrow> clear_spot (view t) (unat sz) (unat base)"
proof
  assume n: "memblock_overlaps_region t base sz < 0"
  have "unat base + unat sz \<le> fst (span_of (rgn t i)) \<or> snd (span_of (rgn t i)) \<le> unat base"
    if "i < cnt t" for i
  proof -
    have "fits (rgn t i)" using assms(1) that by (simp add: mb_inv_def)
    then show ?thesis using overlaps_region_None [OF n that] overlap_spans [OF _ assms(2)] by fastforce
  qed
  then show "clear_spot (view t) (unat sz) (unat base)" unfolding clear_spot_def Ball_def set_view by blast
next
  assume c: "clear_spot (view t) (unat sz) (unat base)"
  show "memblock_overlaps_region t base sz < 0"
  proof (rule ccontr)
    assume n: "\<not> ?thesis"
    define j where "j = nat (memblock_overlaps_region t base sz)"
    note o = overlaps_region_Some [OF n j_def]
    have "fits (rgn t j)" using assms(1) o(1) by (simp add: mb_inv_def)
    then have o': "unat base < snd (span_of (rgn t j))" "fst (span_of (rgn t j)) < unat base + unat sz"
      using o(2) overlap_spans assms(2) by blast+
    show False
    proof (cases "no_regions t")
      case True
      then have "rg_size (rgn t j) = 0" "rg_base (rgn t j) = 0"
        using o(1) assms(1) by (auto simp: no_regions_def mb_inv_def)
      then show False using o' by (simp add: span_of_def)
    next
      case False
      then have "span_of (rgn t j) \<in> set (view t)" using o(1) by (auto simp: set_view)
      then show False using c o' by (force simp: clear_spot_def)
    qed
  qed
qed

lemma align_down_unat: "unat (memblock_align_down x (2 ^ k)) = unat x div 2 ^ k * 2 ^ k"
  by (simp add: memblock_align_down_def align_down_pow2)

lemma multiple_below:
  fixes x a d :: nat
  assumes "d dvd a" "x div d * d < a"
  shows "x < a"
proof (rule ccontr)
  assume "\<not> x < a"
  then have "a div d * d \<le> x div d * d" by (intro mult_right_mono div_le_mono) simp_all
  then show False using assms by simp
qed

text \<open>The loop returns the highest aligned free address that is not above the candidate it
  starts from.\<close>

lemma find_region_loop_spec:
  assumes inv: "mb_inv res" and st: "0 < st" and nw: "unat base + unat sz < 2 ^ 64"
    and al: "2 ^ k dvd unat base"
  defines "r \<equiv> find_region_loop res st sz (2 ^ k) base"
  shows "r \<noteq> 0 \<Longrightarrow> st \<le> r \<and> r \<le> base \<and> 2 ^ k dvd unat r \<and> clear_spot (view res) (unat sz) (unat r)"
    and "2 ^ k dvd a \<Longrightarrow> unat st \<le> a \<Longrightarrow> a \<le> unat base \<Longrightarrow> clear_spot (view res) (unat sz) a
      \<Longrightarrow> r \<noteq> 0 \<and> a \<le> unat r"
proof -
  have "(r \<noteq> 0 \<longrightarrow> st \<le> r \<and> r \<le> base \<and> 2 ^ k dvd unat r \<and> clear_spot (view res) (unat sz) (unat r))
    \<and> (2 ^ k dvd a \<longrightarrow> unat st \<le> a \<longrightarrow> a \<le> unat base \<longrightarrow> clear_spot (view res) (unat sz) a
        \<longrightarrow> r \<noteq> 0 \<and> a \<le> unat r)"
    unfolding r_def using nw al
  proof (induction "unat base" arbitrary: base rule: less_induct)
    case less
    let ?l = "find_region_loop res st sz (2 ^ k)"
    note unf = find_region_loop.simps [of res st sz "2 ^ k" base] Let_def MEMBLOCK_ERROR_def
    let ?j = "memblock_overlaps_region res base sz"
    consider (1) "\<not> st \<le> base" | (2) "st \<le> base" "?j < 0" | (3) "st \<le> base" "\<not> ?j < 0" by blast
    then show ?case
    proof cases
      case 1
      then have "?l base = 0" by (simp add: unf)
      then show ?thesis using 1 by (auto simp: word_le_unat)
    next
      case 2
      then have "?l base = base" by (simp add: unf)
      moreover have "base \<noteq> 0" using 2(1) st by auto
      ultimately show ?thesis
        using 2 less.prems overlaps_clear_spot [OF inv less.prems(1)] by simp
    next
      case 3
      define rb where "rb = rg_base (rgn res (nat ?j))"
      define nb where "nb = memblock_align_down (rb - sz) (2 ^ k)"
      note o = overlaps_region_Some [OF 3(2) refl]
      have f: "fits (rgn res (nat ?j))" using inv o(1) by (simp add: mb_inv_def)
      have ov: "unat base < snd (span_of (rgn res (nat ?j)))" "unat rb < unat base + unat sz"
        using o(2) overlap_spans [OF f less.prems(1)] by (simp_all add: rb_def span_of_def)
      have vw: "span_of (rgn res (nat ?j)) \<in> set (view res)"
        using o(1) ov inv by (auto simp: set_view no_regions_def mb_inv_def span_of_def)
      have hit: "a + unat sz \<le> unat rb" if "a \<le> unat base" "clear_spot (view res) (unat sz) a"
        using that vw ov by (force simp: clear_spot_def rb_def span_of_def)
      show ?thesis
      proof (cases "rb < sz")
        case True
        then have "?l base = 0" using 3 by (simp add: unf rb_def)
        then show ?thesis using hit True by (auto simp: word_less_unat)
      next
        case False
        then have l: "?l base = ?l nb" using 3 by (simp add: unf rb_def nb_def)
        have lt: "nb < base"
          using candidate_decreases [OF o(2)] False by (simp add: nb_def rb_def not_less)
        have un: "unat nb = (unat rb - unat sz) div 2 ^ k * 2 ^ k"
          using False by (simp add: nb_def align_down_unat unat_sub_le not_less)
        have "unat nb + unat sz < 2 ^ 64" using lt less.prems(1) by (simp add: word_less_unat)
        note IH = less.hyps [OF lt [unfolded word_less_unat] this]
        have le: "a \<le> unat nb" if "2 ^ k dvd a" "a \<le> unat base" "clear_spot (view res) (unat sz) a"
          using multiple_below [OF that(1), of "unat rb - unat sz"] hit [OF that(2,3)] un by linarith
        show ?thesis using IH lt le un unfolding l by (auto intro: order_trans less_imp_le)
      qed
    qed
  qed
  then show "r \<noteq> 0 \<Longrightarrow> st \<le> r \<and> r \<le> base \<and> 2 ^ k dvd unat r \<and> clear_spot (view res) (unat sz) (unat r)"
    and "2 ^ k dvd a \<Longrightarrow> unat st \<le> a \<Longrightarrow> a \<le> unat base \<Longrightarrow> clear_spot (view res) (unat sz) a
      \<Longrightarrow> r \<noteq> 0 \<and> a \<le> unat r"
    by blast+
qed

lemma PAGE_SIZE_pos: "0 < (PAGE_SIZE :: phys_addr_t)" "unat (PAGE_SIZE :: phys_addr_t) = 4096"
  by (simp_all add: PAGE_SIZE_def PAGE_SHIFT_def)

lemma find_region_spec:
  fixes st en sz :: phys_addr_t and k :: nat
  assumes inv: "mb_inv res"
  defines "r \<equiv> memblock_find_region res st en sz (2 ^ k)"
  shows "r \<noteq> 0 \<Longrightarrow> unat st \<le> unat r \<and> unat r + unat sz \<le> unat en \<and> 2 ^ k dvd unat r
      \<and> clear_spot (view res) (unat sz) (unat r)"
    and "2 ^ k dvd a \<Longrightarrow> unat st \<le> a \<Longrightarrow> 4096 \<le> a \<or> st \<noteq> 0 \<Longrightarrow> a + unat sz \<le> unat en
      \<Longrightarrow> clear_spot (view res) (unat sz) a \<Longrightarrow> r \<noteq> 0 \<and> a \<le> unat r"
proof -
  define st' where "st' = (if st = 0 then PAGE_SIZE else st)"
  define b where "b = memblock_align_down (en - sz) (2 ^ k)"
  have st': "0 < st'" using PAGE_SIZE_pos by (simp add: st'_def word_gt_0)
  have ub: "unat b = (unat en - unat sz) div 2 ^ k * 2 ^ k" if "\<not> en < sz"
    using that by (simp add: b_def align_down_unat unat_sub_le not_less)
  then have ble: "unat b \<le> unat en - unat sz" if "\<not> en < sz" using that by simp
  have nw: "unat b + unat sz < 2 ^ 64" if "\<not> en < sz"
    using ble [OF that] that unat_bound [of en] by (simp add: word_less_unat)
  have r: "r = (if en < sz then 0 else find_region_loop res st' sz (2 ^ k) b)"
    by (simp add: r_def memblock_find_region_def Let_def st'_def b_def MEMBLOCK_ERROR_def)
  note spec = find_region_loop_spec [OF inv st' nw]
  show "unat st \<le> unat r \<and> unat r + unat sz \<le> unat en \<and> 2 ^ k dvd unat r
      \<and> clear_spot (view res) (unat sz) (unat r)" if "r \<noteq> 0"
  proof -
    have ns: "\<not> en < sz" using that by (auto simp: r split: if_splits)
    then have "st' \<le> r \<and> r \<le> b \<and> 2 ^ k dvd unat r \<and> clear_spot (view res) (unat sz) (unat r)"
      using spec(1) [OF ns] that ub [OF ns] by (simp add: r)
    moreover have "unat st \<le> unat st'" by (simp add: st'_def)
    ultimately show ?thesis using ble [OF ns] ns by (auto simp: word_le_unat word_less_unat)
  qed
  show "r \<noteq> 0 \<and> a \<le> unat r"
    if a: "2 ^ k dvd a" "unat st \<le> a" "4096 \<le> a \<or> st \<noteq> 0" "a + unat sz \<le> unat en"
      "clear_spot (view res) (unat sz) a"
  proof -
    have ns: "\<not> en < sz" using a(4) by (simp add: word_less_unat)
    have "a \<le> unat b"
      using multiple_below [OF a(1), of "unat en - unat sz"] a(4) ub [OF ns] by linarith
    moreover have "unat st' \<le> a" using a(2,3) PAGE_SIZE_pos by (auto simp: st'_def)
    ultimately show ?thesis using spec(2) [OF ns _ a(1)] a(5) ub [OF ns] ns by (simp add: r)
  qed
qed

text \<open>One turn of the loop over the memory regions, from the last region down.\<close>

definition region_try :: "memblock \<Rightarrow> phys_addr_t \<Rightarrow> phys_addr_t \<Rightarrow> phys_addr_t \<Rightarrow> phys_addr_t \<Rightarrow> nat \<Rightarrow> phys_addr_t" where
  "region_try mb sz align st en i =
     (let b = rg_base (rgn (memory mb) i); e = b + rg_size (rgn (memory mb) i) in
      if rg_size (rgn (memory mb) i) < sz \<or> e \<le> st \<or> max b st \<ge> min e en then 0
      else memblock_find_region (reserved mb) (max b st) (min e en) sz align)"

lemma find_base_loop_Suc:
  "find_base_loop mb sz align st en (Suc i) =
     (if region_try mb sz align st en i \<noteq> 0 then region_try mb sz align st en i
      else if \<not> rg_size (rgn (memory mb) i) < sz \<and> rg_base (rgn (memory mb) i) + rg_size (rgn (memory mb) i) \<le> st
      then 0 else find_base_loop mb sz align st en i)"
  by (simp add: region_try_def Let_def MEMBLOCK_ERROR_def)

lemma region_try_spec:
  fixes st en :: phys_addr_t and k :: nat
  assumes inv: "mb_inv (reserved mb)" "mb_inv (memory mb)" and i: "i < cnt (memory mb)" and sz: "0 < sz"
  defines "r \<equiv> region_try mb sz (2 ^ k) st en i"
    and "m \<equiv> span_of (rgn (memory mb) i)"
  shows "r \<noteq> 0 \<Longrightarrow> unat st \<le> unat r \<and> unat r + unat sz \<le> unat en \<and> 2 ^ k dvd unat r
      \<and> fst m \<le> unat r \<and> unat r + unat sz \<le> snd m \<and> clear_spot (view (reserved mb)) (unat sz) (unat r)"
    and "2 ^ k dvd a \<Longrightarrow> unat st \<le> a \<Longrightarrow> a + unat sz \<le> unat en \<Longrightarrow> 4096 \<le> a \<Longrightarrow> fst m \<le> a
      \<Longrightarrow> a + unat sz \<le> snd m \<Longrightarrow> clear_spot (view (reserved mb)) (unat sz) a \<Longrightarrow> r \<noteq> 0 \<and> a \<le> unat r"
proof -
  let ?rg = "rgn (memory mb) i"
  have f: "fits ?rg" using inv(2) i by (simp add: mb_inv_def)
  have m: "fst m = unat (rg_base ?rg)" "snd m = unat (rg_base ?rg + rg_size ?rg)"
    "snd m = unat (rg_base ?rg) + unat (rg_size ?rg)"
    using f by (simp_all add: m_def span_of_def unat_add_no_wrap fits_def)
  let ?b = "max (rg_base ?rg) st" and ?e = "min (rg_base ?rg + rg_size ?rg) en"
  note spec = find_region_spec [OF inv(1), where st = ?b and en = ?e and sz = sz and k = k]
  show "unat st \<le> unat r \<and> unat r + unat sz \<le> unat en \<and> 2 ^ k dvd unat r
      \<and> fst m \<le> unat r \<and> unat r + unat sz \<le> snd m \<and> clear_spot (view (reserved mb)) (unat sz) (unat r)"
    if "r \<noteq> 0"
  proof -
    have "r = memblock_find_region (reserved mb) ?b ?e sz (2 ^ k)"
      using that by (auto simp: r_def region_try_def Let_def split: if_splits)
    then show ?thesis using spec(1) that by (simp add: unat_max unat_min m)
  qed
  assume a: "2 ^ k dvd a" "unat st \<le> a" "a + unat sz \<le> unat en" "4096 \<le> a" "fst m \<le> a"
    "a + unat sz \<le> snd m" "clear_spot (view (reserved mb)) (unat sz) a"
  have "unat sz \<le> unat (rg_size ?rg)" using a(5,6) m by linarith
  moreover have "unat st < snd m" "unat (rg_base ?rg) < unat en" "unat st < unat en" "fst m < snd m"
    using a sz m by (auto simp: word_less_unat)
  ultimately have "\<not> rg_size ?rg < sz" "\<not> rg_base ?rg + rg_size ?rg \<le> st" "?b < ?e"
    by (auto simp: word_less_unat word_le_unat m(1,2))
  then have "r = memblock_find_region (reserved mb) ?b ?e sz (2 ^ k)"
    unfolding r_def region_try_def Let_def by (auto simp: not_le [symmetric])
  then show "r \<noteq> 0 \<and> a \<le> unat r" using spec(2) [OF a(1)] a m by (simp add: unat_max unat_min)
qed

definition spot_in :: "memblock \<Rightarrow> phys_addr_t \<Rightarrow> phys_addr_t \<Rightarrow> phys_addr_t \<Rightarrow> nat \<Rightarrow> nat \<Rightarrow> nat \<Rightarrow> bool" where
  "spot_in mb st en sz k i a \<longleftrightarrow> 2 ^ k dvd a \<and> unat st \<le> a \<and> a + unat sz \<le> unat en
     \<and> fst (span_of (rgn (memory mb) i)) \<le> a \<and> a + unat sz \<le> snd (span_of (rgn (memory mb) i))
     \<and> clear_spot (view (reserved mb)) (unat sz) a"

lemma find_base_loop_sound:
  assumes "mb_inv (reserved mb)" "mb_inv (memory mb)" "0 < sz" "n \<le> cnt (memory mb)"
    "find_base_loop mb sz (2 ^ k) st en n \<noteq> 0"
  shows "\<exists>i<n. spot_in mb st en sz k i (unat (find_base_loop mb sz (2 ^ k) st en n))"
  using assms(4,5)
proof (induction n)
  case 0
  then show ?case by (simp add: MEMBLOCK_ERROR_def)
next
  case (Suc n)
  show ?case
  proof (cases "region_try mb sz (2 ^ k) st en n = 0")
    case True
    then show ?thesis using Suc unfolding find_base_loop_Suc by (auto split: if_splits intro: less_SucI)
  next
    case False
    then have "spot_in mb st en sz k n (unat (region_try mb sz (2 ^ k) st en n))"
      using region_try_spec(1) [OF assms(1,2) _ assms(3)] Suc.prems(1) by (simp add: spot_in_def)
    then show ?thesis using False by (auto simp: find_base_loop_Suc simp del: find_base_loop.simps)
  qed
qed

lemma find_base_loop_complete:
  assumes inv: "mb_inv (reserved mb)" "mb_inv (memory mb)" and sz: "0 < sz"
    and nr: "\<not> no_regions (memory mb)" and a: "4096 \<le> a" "spot_in mb st en sz k i a"
    and n: "i < n" "n \<le> cnt (memory mb)"
  shows "find_base_loop mb sz (2 ^ k) st en n \<noteq> 0 \<and> a \<le> unat (find_base_loop mb sz (2 ^ k) st en n)"
  using n
proof (induction n)
  case 0
  then show ?case by simp
next
  case (Suc n)
  let ?m = "\<lambda>i. span_of (rgn (memory mb) i)" and ?r = "region_try mb sz (2 ^ k) st en n"
  have above: "snd (?m i) < fst (?m n)" if "i < n"
  proof -
    have "sorted_wrt (\<lambda>x y. snd x < fst y) (view (memory mb))" using inv(2) by (simp add: mb_inv_def ascending_def)
    then show ?thesis
      using that Suc.prems nr view_nth [OF nr] length_view [OF nr] by (auto simp: sorted_wrt_iff_nth_less)
  qed
  have nc: "n < cnt (memory mb)" using Suc.prems by simp
  note spec = region_try_spec [OF inv nc sz, where st = st and en = en and k = k]
  have e: "unat (rg_base (rgn (memory mb) n) + rg_size (rgn (memory mb) n)) = snd (?m n)"
    using inv(2) nc by (simp add: mb_inv_def fits_def span_of_def unat_add_no_wrap)
  show ?case
  proof (cases "?r = 0")
    case False
    then have "a \<le> unat ?r"
      using spec a above Suc.prems(1) by (cases "i = n") (force simp: spot_in_def less_Suc_eq)+
    then show ?thesis using False by (simp add: find_base_loop_Suc del: find_base_loop.simps)
  next
    case True
    then have i: "i < n" using spec(2) [of a] a Suc.prems(1) by (auto simp: spot_in_def less_Suc_eq)
    have "fst (?m n) \<le> snd (?m n)" by (simp add: span_of_def)
    then have "\<not> rg_base (rgn (memory mb) n) + rg_size (rgn (memory mb) n) \<le> st"
      using above [OF i] a(2) e by (simp add: word_le_unat spot_in_def)
    then show ?thesis
      using True Suc.IH [OF i] nc by (simp add: find_base_loop_Suc del: find_base_loop.simps)
  qed
qed

lemma memblock_find_in_range_spec:
  fixes st :: phys_addr_t and k :: nat
  assumes inv: "mb_inv (reserved mb)" "mb_inv (memory mb)" and sz: "0 < sz" and en: "en \<noteq> 0"
  defines "r \<equiv> memblock_find_in_range mb st en sz (2 ^ k)"
  shows "r \<noteq> 0 \<Longrightarrow> free_spot mb (unat st) (unat en) (unat sz) (2 ^ k) (unat r)"
    and "free_spot mb (unat st) (unat en) (unat sz) (2 ^ k) a \<Longrightarrow> 4096 \<le> a \<Longrightarrow> r \<noteq> 0 \<and> a \<le> unat r"
proof -
  have r: "r = find_base_loop mb sz (2 ^ k) st en (cnt (memory mb))"
    using en by (simp add: r_def memblock_find_in_range_def memblock_find_base_def MEMBLOCK_ALLOC_ACCESSIBLE_def)
  have spot: "free_spot mb (unat st) (unat en) (unat sz) (2 ^ k) a \<longleftrightarrow>
      \<not> no_regions (memory mb) \<and> (\<exists>i<cnt (memory mb). spot_in mb st en sz k i a)" for a
    unfolding free_spot_def spot_in_def Bex_def set_view by blast
  show "free_spot mb (unat st) (unat en) (unat sz) (2 ^ k) (unat r)" if nz: "r \<noteq> 0"
  proof -
    obtain i where i: "i < cnt (memory mb)" "spot_in mb st en sz k i (unat r)"
      using find_base_loop_sound [OF inv sz order_refl] nz unfolding r by blast
    have "\<not> no_regions (memory mb)"
      using i sz by (auto simp: spot_in_def no_regions_def span_of_def word_less_unat)
    then show ?thesis using i spot by blast
  qed
  show "r \<noteq> 0 \<and> a \<le> unat r" if "free_spot mb (unat st) (unat en) (unat sz) (2 ^ k) a" "4096 \<le> a"
    unfolding r using that find_base_loop_complete [OF inv sz] spot by blast
qed

section \<open>The interface\<close>

text \<open>What a client of a region array relies on: adding an interval either fails and changes
  nothing or adds exactly that interval to the addresses. A run of additions never loses an
  address, and gains exactly the intervals it was given when none of them fails.\<close>

locale region_store =
  fixes inv :: "'t \<Rightarrow> bool" and addrs :: "'t \<Rightarrow> nat set" and ok :: "'k \<Rightarrow> bool"
    and ival :: "'k \<Rightarrow> nat set" and add :: "'t \<Rightarrow> 'k \<Rightarrow> 't \<times> int"
  assumes add_inv: "inv t \<Longrightarrow> ok x \<Longrightarrow> inv (fst (add t x))"
    and add_done: "inv t \<Longrightarrow> ok x \<Longrightarrow> snd (add t x) = 0 \<Longrightarrow> addrs (fst (add t x)) = addrs t \<union> ival x"
    and add_fail: "inv t \<Longrightarrow> ok x \<Longrightarrow> snd (add t x) \<noteq> 0 \<Longrightarrow> fst (add t x) = t"
begin

text \<open>The clients drop the result of each call and go on.\<close>

definition add_all :: "'k list \<Rightarrow> 't \<Rightarrow> 't" where
  "add_all xs t = fold (\<lambda>x t. fst (add t x)) xs t"

fun all_done :: "'k list \<Rightarrow> 't \<Rightarrow> bool" where
  "all_done [] t \<longleftrightarrow> True"
| "all_done (x # xs) t \<longleftrightarrow> snd (add t x) = 0 \<and> all_done xs (fst (add t x))"

lemma add_addrs:
  assumes "inv t" "ok x"
  shows "addrs t \<subseteq> addrs (fst (add t x))" "addrs (fst (add t x)) \<subseteq> addrs t \<union> ival x"
  using add_done [OF assms] add_fail [OF assms] by (cases "snd (add t x) = 0"; auto)+

lemma add_all_inv: "inv t \<Longrightarrow> \<forall>x\<in>set xs. ok x \<Longrightarrow> inv (add_all xs t)"
  unfolding add_all_def by (induction xs arbitrary: t) (auto simp: add_inv)

lemma add_all_addrs:
  assumes "inv t" "\<forall>x\<in>set xs. ok x"
  shows "addrs t \<subseteq> addrs (add_all xs t)" "addrs (add_all xs t) \<subseteq> addrs t \<union> (\<Union>x\<in>set xs. ival x)"
    "all_done xs t \<Longrightarrow> addrs (add_all xs t) = addrs t \<union> (\<Union>x\<in>set xs. ival x)"
proof -
  have "addrs t \<subseteq> addrs (add_all xs t) \<and> addrs (add_all xs t) \<subseteq> addrs t \<union> (\<Union>x\<in>set xs. ival x)
    \<and> (all_done xs t \<longrightarrow> addrs (add_all xs t) = addrs t \<union> (\<Union>x\<in>set xs. ival x))"
    using assms unfolding add_all_def
  proof (induction xs arbitrary: t)
    case (Cons x xs)
    have "inv (fst (add t x))" using Cons.prems by (simp add: add_inv)
    then show ?case
      using Cons.IH [of "fst (add t x)"] Cons.prems add_addrs [of t x] add_done [of t x] by (simp; blast)
  qed simp
  then show "addrs t \<subseteq> addrs (add_all xs t)" "addrs (add_all xs t) \<subseteq> addrs t \<union> (\<Union>x\<in>set xs. ival x)"
    "all_done xs t \<Longrightarrow> addrs (add_all xs t) = addrs t \<union> (\<Union>x\<in>set xs. ival x)"
    by blast+
qed

end

definition mb_addrs :: "memblock_type \<Rightarrow> nat set" where
  "mb_addrs t = spans_set (view t)"

definition ok_request :: "phys_addr_t \<times> phys_addr_t \<Rightarrow> bool" where
  "ok_request x \<longleftrightarrow> snd x \<noteq> 0 \<and> unat (fst x) + unat (snd x) < 2 ^ 64"

definition request_ival :: "phys_addr_t \<times> phys_addr_t \<Rightarrow> nat set" where
  "request_ival x = {unat (fst x)..<unat (fst x) + unat (snd x)}"

lemma add_region_addrs:
  assumes "mb_inv t" "ok_request (base, sz)" "memblock_add_region t base sz = (t', r)"
  shows "mb_inv t'" "r = 0 \<Longrightarrow> mb_addrs t' = mb_addrs t \<union> request_ival (base, sz)" "r \<noteq> 0 \<Longrightarrow> t' = t"
proof -
  have ok: "sz \<noteq> 0" "unat base + unat sz < 2 ^ 64" using assms(2) by (simp_all add: ok_request_def)
  then have lt: "unat base < unat base + unat sz" by (simp add: unat_gt_0)
  have "ascending (view t)" using assms(1) by (simp add: mb_inv_def)
  note set = insert_span_set [OF lt this]
  have "mb_inv t' \<and> (r = 0 \<longrightarrow> mb_addrs t' = mb_addrs t \<union> request_ival (base, sz)) \<and> (r \<noteq> 0 \<longrightarrow> t' = t)"
    by (rule memblock_add_region_cases [OF assms(1) ok])
      (use assms set in \<open>auto simp: mb_addrs_def request_ival_def\<close>)
  then show "mb_inv t'" "r = 0 \<Longrightarrow> mb_addrs t' = mb_addrs t \<union> request_ival (base, sz)" "r \<noteq> 0 \<Longrightarrow> t' = t"
    by simp_all
qed

interpretation region_array: region_store mb_inv mb_addrs ok_request request_ival
  "\<lambda>t x. memblock_add_region t (fst x) (snd x)"
proof
  fix t x
  let ?a = "memblock_add_region t (fst x) (snd x)"
  assume "mb_inv t" "ok_request x"
  then have ax: "mb_inv t" "ok_request (fst x, snd x)" by simp_all
  note law = add_region_addrs [OF ax surjective_pairing]
  show "mb_inv (fst ?a)" by (rule law)
  show "snd ?a = 0 \<Longrightarrow> mb_addrs (fst ?a) = mb_addrs t \<union> request_ival x" using law(2) by simp
  show "snd ?a \<noteq> 0 \<Longrightarrow> fst ?a = t" by (rule law)
qed

lemma mb_inv_init: "mb_inv init_type" "view init_type = []"
  by (simp_all add: mb_inv_def view_def no_regions_def init_type_def Let_def init_regions_def rgn_def
      set_rgn_def null_region_def INIT_MEMBLOCK_REGIONS_def fits_def nth_list_update)

section \<open>Properties\<close>

text \<open>
  C26. Adding a region to an array that satisfies the invariant either returns 0, and then
  the regions are the sequence that \<open>insert_span\<close> computes, which still is ascending
  with gaps and covers exactly the old addresses and the new ones; or it returns \<open>-1\<close>,
  and then the array was full and has not been changed. No address is lost when regions are
  merged.
\<close>

theorem memblock_add_region_correct:
  assumes "mb_inv t" "sz \<noteq> 0" "unat base + unat sz < 2 ^ 64"
  shows "case memblock_add_region t base sz of (t', r) \<Rightarrow>
      mb_inv t' \<and> (r = 0 \<and> view t' = insert_span (unat base) (unat base + unat sz) (view t)
                       \<and> mb_addrs t' = mb_addrs t \<union> {unat base..<unat base + unat sz}
                   \<or> r = -1 \<and> t' = t \<and> cnt t = mb_max t)"
proof -
  have lt: "unat base < unat base + unat sz" using assms(2) by (simp add: unat_gt_0)
  have "ascending (view t)" using assms(1) by (simp add: mb_inv_def)
  note set = insert_span_set [OF lt this]
  show ?thesis
    by (rule memblock_add_region_cases [OF assms]) (use assms(1) set in \<open>auto simp: mb_addrs_def\<close>)
qed

theorem memblock_add_region_correct_witness:
  "case memblock_add_region init_type 0x1000 0x2000 of (t', r) \<Rightarrow>
     mb_inv t' \<and> (r = 0 \<and> mb_addrs t' = {4096..<12288} \<or> r = -1)"
  using memblock_add_region_correct [of init_type "0x2000" "0x1000"]
  by (auto simp: mb_inv_init mb_addrs_def split: prod.splits)

text \<open>
  C27. The search for free memory with a power of two as the alignment ends, and
  \<^verbatim>\<open>memblock_find_in_range\<close> is exact: a result other than \<^verbatim>\<open>MEMBLOCK_ERROR\<close> is
  an aligned address from which \<open>sz\<close> bytes lie in the range, in one memory region and in no
  reserved region; and if there is any such address at or above the first page, the result
  is one, the highest.
\<close>

theorem memblock_find_in_range_correct:
  assumes "mb_inv (reserved mb)" "mb_inv (memory mb)" "0 < sz" "en \<noteq> 0"
  shows "(memblock_find_in_range mb st en sz (2 ^ k) \<noteq> MEMBLOCK_ERROR \<longrightarrow>
      free_spot mb (unat st) (unat en) (unat sz) (2 ^ k) (unat (memblock_find_in_range mb st en sz (2 ^ k))))
    \<and> (\<forall>a. free_spot mb (unat st) (unat en) (unat sz) (2 ^ k) a \<and> 4096 \<le> a \<longrightarrow>
        memblock_find_in_range mb st en sz (2 ^ k) \<noteq> MEMBLOCK_ERROR
        \<and> a \<le> unat (memblock_find_in_range mb st en sz (2 ^ k)))"
  using memblock_find_in_range_spec [OF assms] unfolding MEMBLOCK_ERROR_def by blast

definition example_mb :: memblock where
  "example_mb = \<lparr>current_limit = 0, memory_size = 0,
     memory = \<lparr>cnt = 1, mb_max = 2, regions = [\<lparr>rg_base = 0x1000, rg_size = 0x8000\<rparr>, null_region, null_region]\<rparr>,
     reserved = \<lparr>cnt = 1, mb_max = 2, regions = [\<lparr>rg_base = 0x7000, rg_size = 0x2000\<rparr>, null_region, null_region]\<rparr>,
     init_done = True\<rparr>"

theorem memblock_find_in_range_correct_witness:
  "memblock_find_in_range example_mb 0 0x10000 0x1000 (2 ^ 12) \<noteq> MEMBLOCK_ERROR
   \<and> 0x6000 \<le> unat (memblock_find_in_range example_mb 0 0x10000 0x1000 (2 ^ 12))"
proof -
  have v: "view (memory example_mb) = [(0x1000, 0x9000)]" "view (reserved example_mb) = [(0x7000, 0x9000)]"
    by (simp_all add: example_mb_def view_def no_regions_def rgn_def span_of_def)
  then have inv: "mb_inv (reserved example_mb)" "mb_inv (memory example_mb)"
    by (simp_all add: mb_inv_def example_mb_def fits_def rgn_def no_regions_def)
  have "free_spot example_mb (unat (0::phys_addr_t)) (unat (0x10000::phys_addr_t)) (unat (0x1000::phys_addr_t)) (2 ^ 12) 0x6000"
    by (simp add: free_spot_def v clear_spot_def)
  then show ?thesis
    using memblock_find_in_range_correct [OF inv, of "0x1000" "0x10000" 0 12] by auto
qed

end
