(* ===== verification/Early_Node_Map.thy ===== *)
theory Early_Node_Map
  imports Memblock Heap_Sort
begin

text \<open>
  \<^verbatim>\<open>mm/page_alloc.c\<close>, the part that works before the page allocator exists: the
  table \<^verbatim>\<open>early_node_map\<close> of the active page frame ranges of each node, and the zone
  boundaries computed from it. The table is the list of its first
  \<^verbatim>\<open>nr_nodemap_entries\<close> entries. A search that returns \<open>-1\<close> in the source returns
  \<open>None\<close> here.
\<close>

section \<open>The table\<close>

record node_active_region =
  start_pfn :: ulong
  end_pfn :: ulong
  ar_nid :: int

type_synonym node_map = "node_active_region list"

definition MAX_ACTIVE_REGIONS :: nat where
  "MAX_ACTIVE_REGIONS = 256"

definition MAX_NUMNODES :: int where
  "MAX_NUMNODES = 1"

definition in_nid :: "node_map \<Rightarrow> int \<Rightarrow> nat \<Rightarrow> bool" where
  "in_nid m nid i \<longleftrightarrow> nid = MAX_NUMNODES \<or> ar_nid (m ! i) = nid"

definition last_active_region_index_in_nid :: "node_map \<Rightarrow> int \<Rightarrow> nat option" where
  "last_active_region_index_in_nid m nid = find (in_nid m nid) (rev [0..<length m])"

definition previous_active_region_indx_in_nid :: "node_map \<Rightarrow> nat \<Rightarrow> int \<Rightarrow> nat option" where
  "previous_active_region_indx_in_nid m index nid = find (in_nid m nid) (rev [0..<index])"

definition first_active_region_index_in_nid :: "node_map \<Rightarrow> int \<Rightarrow> nat option" where
  "first_active_region_index_in_nid m nid = find (in_nid m nid) [0..<length m]"

definition next_active_region_index_in_nid :: "node_map \<Rightarrow> nat \<Rightarrow> int \<Rightarrow> nat option" where
  "next_active_region_index_in_nid m index nid = find (in_nid m nid) [index + 1..<length m]"

text \<open>The indices that \<^verbatim>\<open>for_each_active_range_index_in_nid\<close> and its reverse visit, from
  a given one on.\<close>

lemma find_upt_gt: "find P [m..<n] = Some j \<Longrightarrow> m \<le> j \<and> j < n"
  by (auto simp: find_Some_iff)

lemma find_rev_lt: "find P (rev [0..<n]) = Some j \<Longrightarrow> j < n"
  by (auto simp: find_Some_iff rev_nth)

function for_each_from :: "node_map \<Rightarrow> int \<Rightarrow> nat option \<Rightarrow> nat list" where
  "for_each_from m nid None = []"
| "for_each_from m nid (Some i) = i # for_each_from m nid (next_active_region_index_in_nid m i nid)"
  by pat_completeness auto
termination
proof (relation "measure (\<lambda>(m, nid, i). case i of None \<Rightarrow> 0 | Some i \<Rightarrow> Suc (length m - i))", goal_cases)
  case (2 m nid i)
  show ?case
    using find_upt_gt [of "in_nid m nid" "i + 1" "length m"]
    by (auto simp: next_active_region_index_in_nid_def split: option.splits)
qed simp

definition for_each_active_range_index_in_nid :: "node_map \<Rightarrow> int \<Rightarrow> nat list" where
  "for_each_active_range_index_in_nid m nid =
     for_each_from m nid (first_active_region_index_in_nid m nid)"

function for_each_back :: "node_map \<Rightarrow> int \<Rightarrow> nat option \<Rightarrow> nat list" where
  "for_each_back m nid None = []"
| "for_each_back m nid (Some i) = i # for_each_back m nid (previous_active_region_indx_in_nid m i nid)"
  by pat_completeness auto
termination
proof (relation "measure (\<lambda>(m, nid, i). case i of None \<Rightarrow> 0 | Some i \<Rightarrow> Suc i)", goal_cases)
  case (2 m nid i)
  show ?case
    using find_rev_lt [of "in_nid m nid" i]
    by (auto simp: previous_active_region_indx_in_nid_def split: option.splits)
qed simp

definition for_each_active_range_index_in_nid_reverse :: "node_map \<Rightarrow> int \<Rightarrow> nat list" where
  "for_each_active_range_index_in_nid_reverse m nid =
     for_each_back m nid (last_active_region_index_in_nid m nid)"

section \<open>Operations\<close>

primrec core_early_loop ::
  "memblock \<Rightarrow> node_map \<Rightarrow> u64 \<Rightarrow> u64 \<Rightarrow> u64 \<Rightarrow> u64 \<Rightarrow> nat list \<Rightarrow> u64" where
  "core_early_loop mb m sz align goal limit [] = MEMBLOCK_ERROR"
| "core_early_loop mb m sz align goal limit (i # is) =
     (let ei_last = push_bit PAGE_SHIFT (ucast (end_pfn (m ! i)));
          ei_start = push_bit PAGE_SHIFT (ucast (start_pfn (m ! i)));
          final_start = max ei_start goal;
          final_end = min ei_last limit
      in if final_start \<ge> final_end then core_early_loop mb m sz align goal limit is
         else
           let addr = memblock_find_in_range mb final_start final_end sz align
           in if addr = MEMBLOCK_ERROR then core_early_loop mb m sz align goal limit is else addr)"

definition find_memory_core_early :: "memblock \<Rightarrow> node_map \<Rightarrow> int \<Rightarrow> u64 \<Rightarrow> u64 \<Rightarrow> u64 \<Rightarrow> u64 \<Rightarrow> u64" where
  "find_memory_core_early mb m nid sz align goal limit =
     core_early_loop mb m sz align goal limit (for_each_active_range_index_in_nid_reverse m nid)"

text \<open>The loop of \<^verbatim>\<open>add_active_range\<close>: \<open>Some\<close> a table when it returns, \<open>None\<close> when it runs
  to its end. The conditions read entry 0 where they do in the source.\<close>

function active_merge :: "node_map \<Rightarrow> int \<Rightarrow> ulong \<Rightarrow> ulong \<Rightarrow> nat \<Rightarrow> node_map option" where
  "active_merge m nid st en i =
     (if i < length m then
        if ar_nid (m ! i) \<noteq> nid then active_merge m nid st en (i + 1)
        else if st \<ge> start_pfn (m ! i) \<and> en \<le> end_pfn (m ! 0) then Some m
        else if st \<le> end_pfn (m ! 0) \<and> en > end_pfn (m ! i) then Some (m[i := (m ! i)\<lparr>end_pfn := en\<rparr>])
        else if st < start_pfn (m ! i) \<and> en \<ge> start_pfn (m ! i) then Some (m[i := (m ! i)\<lparr>start_pfn := st\<rparr>])
        else active_merge m nid st en (i + 1)
      else None)"
  by pat_completeness auto
termination
  by (relation "measure (\<lambda>(m, nid, st, en, i). length m - i)") auto

declare active_merge.simps [simp del]

definition add_active_range :: "node_map \<Rightarrow> int \<Rightarrow> ulong \<Rightarrow> ulong \<Rightarrow> node_map" where
  "add_active_range m nid st en =
     (case active_merge m nid st en 0 of
        Some m' \<Rightarrow> m'
      | None \<Rightarrow>
          if length m \<ge> MAX_ACTIVE_REGIONS then m
          else m @ [\<lparr> start_pfn = st, end_pfn = en, ar_nid = nid \<rparr>])"

definition find_min_pfn_for_node :: "node_map \<Rightarrow> int \<Rightarrow> ulong" where
  "find_min_pfn_for_node m nid =
     (let min_pfn = fold (\<lambda>i p. min p (start_pfn (m ! i))) (for_each_active_range_index_in_nid m nid) (NOT 0)
      in if min_pfn = NOT 0 then 0 else min_pfn)"

definition find_min_pfn_with_active_regions :: "node_map \<Rightarrow> ulong" where
  "find_min_pfn_with_active_regions m = find_min_pfn_for_node m MAX_NUMNODES"

text \<open>\<^verbatim>\<open>work_with_active_regions\<close> calls \<^verbatim>\<open>work_fn\<close> on each range until it returns
  non-zero; the data behind its pointer is the state \<open>d\<close>.\<close>

primrec work_loop :: "node_map \<Rightarrow> (ulong \<Rightarrow> ulong \<Rightarrow> 'd \<Rightarrow> 'd \<times> int) \<Rightarrow> nat list \<Rightarrow> 'd \<Rightarrow> 'd" where
  "work_loop m work_fn [] d = d"
| "work_loop m work_fn (i # is) d =
     (let (d', ret) = work_fn (start_pfn (m ! i)) (end_pfn (m ! i)) d
      in if ret \<noteq> 0 then d' else work_loop m work_fn is d')"

definition work_with_active_regions :: "node_map \<Rightarrow> int \<Rightarrow> (ulong \<Rightarrow> ulong \<Rightarrow> 'd \<Rightarrow> 'd \<times> int) \<Rightarrow> 'd \<Rightarrow> 'd" where
  "work_with_active_regions m nid work_fn d = work_loop m work_fn (for_each_active_range_index_in_nid m nid) d"

definition get_pfn_range_for_nid :: "node_map \<Rightarrow> int \<Rightarrow> ulong \<times> ulong" where
  "get_pfn_range_for_nid m nid =
     (let (st, en) = fold (\<lambda>i (st, en). (min st (start_pfn (m ! i)), max en (end_pfn (m ! i))))
                       (for_each_active_range_index_in_nid m nid) (NOT 0, 0)
      in (if st = NOT 0 then 0 else st, en))"

text \<open>The loop of \<^verbatim>\<open>__absent_pages_in_range\<close>, with \<open>prev\<close> for \<^verbatim>\<open>prev_end_pfn\<close> and \<open>hole\<close>
  for \<^verbatim>\<open>hole_pages\<close>.\<close>

primrec absent_loop :: "node_map \<Rightarrow> ulong \<Rightarrow> ulong \<Rightarrow> nat list \<Rightarrow> ulong \<Rightarrow> ulong \<Rightarrow> ulong \<times> ulong" where
  "absent_loop m range_start range_end [] prev hole = (prev, hole)"
| "absent_loop m range_start range_end (i # is) prev hole =
     (if prev \<ge> range_end then (prev, hole)
      else
        let st = min (start_pfn (m ! i)) range_end;
            prev = max prev range_start;
            hole = (if st > range_start then hole + (st - prev) else hole)
        in absent_loop m range_start range_end is (end_pfn (m ! i)) hole)"

definition uu_absent_pages_in_range :: "node_map \<Rightarrow> int \<Rightarrow> ulong \<Rightarrow> ulong \<Rightarrow> ulong" where
  "uu_absent_pages_in_range m nid range_start range_end =
     (let (prev, hole) = absent_loop m range_start range_end (for_each_active_range_index_in_nid m nid) 0 0
      in if range_end > prev then hole + (range_end - max prev range_start) else hole)"

definition cmp_node_active_region :: "node_active_region \<Rightarrow> node_active_region \<Rightarrow> int" where
  "cmp_node_active_region a b =
     (if start_pfn a > start_pfn b then 1 else if start_pfn a < start_pfn b then -1 else 0)"

definition sort_node_map :: "node_map \<Rightarrow> node_map" where
  "sort_node_map m = sort_call cmp_node_active_region m"

section \<open>What the loops visit\<close>

lemma find_None_filter: "find P xs = None \<Longrightarrow> filter P xs = []"
  by (simp add: find_None_iff filter_empty_conv)

lemma find_upt_first:
  assumes "find P [m..<n] = Some j"
  shows "P j" "filter P [m..<n] = j # filter P [j + 1..<n]"
proof -
  have j: "m \<le> j" "j < n" "P j" "\<And>k. m \<le> k \<Longrightarrow> k < j \<Longrightarrow> \<not> P k"
    using assms by (auto simp: find_Some_iff le_Suc_ex dest: spec [of _ "_ - m"])
      (metis add_diff_cancel_left' le_Suc_ex nat_add_left_cancel_less)
  show "P j" by (rule j)
  have "[m..<n] = [m..<j] @ j # [j + 1..<n]"
    using j(1,2) by (metis Suc_eq_plus1 le_add_diff_inverse less_imp_le_nat upt_add_eq_append upt_conv_Cons)
  moreover have "filter P [m..<j] = []" using j(4) by (auto simp: filter_empty_conv)
  ultimately show "filter P [m..<n] = j # filter P [j + 1..<n]" using j(3) by simp
qed

lemma find_rev_last:
  assumes "find P (rev [0..<n]) = Some j"
  shows "filter P (rev [0..<n]) = j # filter P (rev [0..<j])"
proof (cases "\<exists>k<n. P k")
  case True
  show ?thesis using assms by (induction n) (auto split: if_splits)
next
  case False
  then show ?thesis using assms by (auto simp: find_Some_iff rev_nth)
qed

lemma for_each_from_filter:
  "for_each_from m nid (find (in_nid m nid) [i..<length m]) = filter (in_nid m nid) [i..<length m]"
proof (induction "length m - i" arbitrary: i rule: less_induct)
  case less
  show ?case
  proof (cases "find (in_nid m nid) [i..<length m]")
    case None
    then show ?thesis by (simp add: find_None_filter)
  next
    case (Some j)
    then have j: "i \<le> j" "j < length m" using find_upt_gt by blast+
    then have "length m - (j + 1) < length m - i" by linarith
    from less [OF this] show ?thesis
      using Some find_upt_first(2) [OF Some] by (simp add: next_active_region_index_in_nid_def)
  qed
qed

lemma for_each_filter:
  "for_each_active_range_index_in_nid m nid = filter (in_nid m nid) [0..<length m]"
  unfolding for_each_active_range_index_in_nid_def first_active_region_index_in_nid_def
  by (rule for_each_from_filter)

lemma for_each_back_filter:
  "for_each_back m nid (find (in_nid m nid) (rev [0..<n])) = filter (in_nid m nid) (rev [0..<n])"
proof (induction n rule: less_induct)
  case (less n)
  show ?case
  proof (cases "find (in_nid m nid) (rev [0..<n])")
    case None
    then show ?thesis by (simp add: find_None_filter)
  next
    case (Some j)
    then show ?thesis
      using less [OF find_rev_lt [OF Some]] find_rev_last [OF Some]
      by (simp add: previous_active_region_indx_in_nid_def)
  qed
qed

lemma for_each_reverse_filter:
  "for_each_active_range_index_in_nid_reverse m nid = rev (filter (in_nid m nid) [0..<length m])"
  unfolding for_each_active_range_index_in_nid_reverse_def last_active_region_index_in_nid_def
  by (simp add: for_each_back_filter rev_filter)

definition nid_regions :: "node_map \<Rightarrow> int \<Rightarrow> node_map" where
  "nid_regions m nid = filter (\<lambda>r. nid = MAX_NUMNODES \<or> ar_nid r = nid) m"

lemma map_for_each: "map (\<lambda>i. m ! i) (for_each_active_range_index_in_nid m nid) = nid_regions m nid"
proof -
  have "map ((!) m) (filter (in_nid m nid) [0..<length m])
    = filter (\<lambda>r. nid = MAX_NUMNODES \<or> ar_nid r = nid) (map ((!) m) [0..<length m])"
    by (simp add: filter_map in_nid_def [abs_def] comp_def)
  then show ?thesis by (simp add: for_each_filter nid_regions_def map_nth)
qed

section \<open>Holes\<close>

definition in_region :: "nat \<Rightarrow> node_active_region \<Rightarrow> bool" where
  "in_region p r \<longleftrightarrow> unat (start_pfn r) \<le> p \<and> p < unat (end_pfn r)"

definition holes :: "node_active_region list \<Rightarrow> nat \<Rightarrow> nat \<Rightarrow> nat set" where
  "holes rs lo hi = {p. lo \<le> p \<and> p < hi \<and> (\<forall>r\<in>set rs. \<not> in_region p r)}"

text \<open>Ranges in ascending order, none overlapping the next.\<close>

definition in_order :: "node_active_region list \<Rightarrow> bool" where
  "in_order rs \<longleftrightarrow> sorted_wrt (\<lambda>x y. end_pfn x \<le> start_pfn y) rs \<and> (\<forall>r\<in>set rs. start_pfn r \<le> end_pfn r)"

lemma in_order_simps [simp]:
  "in_order []"
  "in_order (r # rs) \<longleftrightarrow> start_pfn r \<le> end_pfn r \<and> (\<forall>x\<in>set rs. end_pfn r \<le> start_pfn x) \<and> in_order rs"
  by (auto simp: in_order_def)

lemma finite_holes [simp]: "finite (holes rs lo hi)"
  by (rule finite_subset [of _ "{..<hi}"]) (auto simp: holes_def)

lemma holes_Cons:
  assumes "in_order (r # rs)" "lo \<le> hi"
  shows "holes (r # rs) lo hi
    = {lo..<min (unat (start_pfn r)) hi} \<union> holes rs (max (unat (end_pfn r)) lo) hi"
proof -
  have "unat (start_pfn r) \<le> unat (end_pfn r)" "\<forall>x\<in>set rs. unat (end_pfn r) \<le> unat (start_pfn x)"
    using assms(1) by (simp_all add: word_le_unat)
  then show ?thesis by (fastforce simp: holes_def in_region_def)
qed

lemma card_holes_Cons:
  assumes "in_order (r # rs)" "lo \<le> hi"
  shows "card (holes (r # rs) lo hi)
    = (min (unat (start_pfn r)) hi - lo) + card (holes rs (max (unat (end_pfn r)) lo) hi)"
proof -
  have "unat (start_pfn r) \<le> unat (end_pfn r)" using assms(1) by (simp add: word_le_unat)
  then have "{lo..<min (unat (start_pfn r)) hi} \<inter> holes rs (max (unat (end_pfn r)) lo) hi = {}"
    by (auto simp: holes_def)
  then show ?thesis
    by (subst holes_Cons [OF assms]) (simp add: card_Un_disjoint)
qed

lemma of_nat_sub:
  fixes a b :: "'a::len word"
  assumes "b \<le> a" shows "of_nat (unat a - unat b) = a - b"
proof -
  have "of_nat (unat (a - b)) = a - b" by simp
  then show ?thesis by (simp only: unat_sub_le [OF assms])
qed

lemma holes_mono_lo:
  "card (holes rs (max e (max p l)) hi) = card (holes rs (max e l) hi)" if "p \<le> e" for e p l hi :: nat
  using that by (simp add: max.assoc [symmetric] max_absorb1)

lemma absent_loop_holes:
  assumes "in_order (map (\<lambda>i. m ! i) is)" "\<forall>i\<in>set is. prev \<le> start_pfn (m ! i)" "rs \<le> re"
    "absent_loop m rs re is prev hole = (prev', hole')"
  shows "(if re > prev' then hole' + (re - max prev' rs) else hole')
    = hole + of_nat (card (holes (map (\<lambda>i. m ! i) is) (max (unat prev) (unat rs)) (unat re)))"
  using assms
proof (induction "is" arbitrary: prev hole)
  case Nil
  have "holes [] (max (unat prev) (unat rs)) (unat re) = {max (unat prev) (unat rs)..<unat re}"
    by (auto simp: holes_def)
  then have c: "card (holes [] (max (unat prev) (unat rs)) (unat re)) = unat re - unat (max prev rs)"
    by (simp add: unat_max)
  show ?case
  proof (cases "re > prev")
    case True
    then have "max prev rs \<le> re" using Nil.prems(3) by simp
    then have "of_nat (unat re - unat (max prev rs)) = re - max prev rs" by (rule of_nat_sub)
    then show ?thesis using Nil.prems(4) True c by auto
  next
    case False
    then have "unat re \<le> unat (max prev rs)" by (simp add: unat_max word_less_unat)
    then show ?thesis using Nil.prems(4) False c by auto
  qed
next
  case (Cons i "is")
  let ?r = "m ! i" and ?rest = "map (\<lambda>i. m ! i) is"
  show ?case
  proof (cases "prev \<ge> re")
    case True
    then have "holes (map (\<lambda>i. m ! i) (i # is)) (max (unat prev) (unat rs)) (unat re) = {}"
      by (auto simp: holes_def word_le_unat)
    then show ?thesis using Cons.prems(4) True by auto
  next
    case False
    let ?st = "min (start_pfn ?r) re" and ?p = "max prev rs"
    let ?h = "if ?st > rs then hole + (?st - ?p) else hole"
    have lo: "?p \<le> re" using False Cons.prems(3) by simp
    have "?st > rs \<Longrightarrow> ?p \<le> ?st" using Cons.prems(2) lo by auto
    moreover have "\<not> ?st > rs \<Longrightarrow> unat ?st - unat ?p = 0" by (simp add: word_less_unat unat_max)
    ultimately have h: "?h = hole + of_nat (unat ?st - unat ?p)" by (simp add: of_nat_sub)
    have "absent_loop m rs re is (end_pfn ?r) ?h = (prev', hole')"
      using Cons.prems(4) False by (simp add: Let_def)
    from Cons.IH [OF _ _ Cons.prems(3) this]
    have "(if re > prev' then hole' + (re - max prev' rs) else hole')
      = ?h + of_nat (card (holes ?rest (max (unat (end_pfn ?r)) (unat rs)) (unat re)))"
      using Cons.prems(1) by auto
    also have "unat prev \<le> unat (end_pfn ?r)"
      using Cons.prems(1,2) by (auto simp flip: word_le_unat intro: order_trans)
    then have "card (holes ?rest (max (unat (end_pfn ?r)) (unat rs)) (unat re))
      = card (holes ?rest (max (unat (end_pfn ?r)) (unat ?p)) (unat re))"
      by (simp add: holes_mono_lo unat_max)
    finally have "(if re > prev' then hole' + (re - max prev' rs) else hole')
      = hole + of_nat ((unat ?st - unat ?p) + card (holes ?rest (max (unat (end_pfn ?r)) (unat ?p)) (unat re)))"
      by (simp only: h of_nat_add add.assoc)
    also have "(unat ?st - unat ?p) + card (holes ?rest (max (unat (end_pfn ?r)) (unat ?p)) (unat re))
      = card (holes (map (\<lambda>i. m ! i) (i # is)) (unat ?p) (unat re))"
      using card_holes_Cons [of ?r ?rest "unat ?p" "unat re"] Cons.prems(1) lo
      by (simp add: unat_min word_le_unat)
    finally show ?thesis by (simp add: unat_max)
  qed
qed

section \<open>The early search\<close>

lemma unat_pfn_addr: "unat (push_bit PAGE_SHIFT (ucast (p :: ulong) :: u64)) = unat p * 4096"
proof -
  have "unat (ucast p :: u64) = unat p"
    using unat_bound [of p] by (simp add: unsigned_ucast_eq take_bit_eq_mod)
  then show ?thesis
    using unat_bound [of p] by (simp add: PAGE_SHIFT_def push_bit_eq_mult unat_word_ariths)
qed

definition early_spot :: "memblock \<Rightarrow> nat \<Rightarrow> nat \<Rightarrow> nat \<Rightarrow> nat \<Rightarrow> node_active_region \<Rightarrow> nat \<Rightarrow> bool" where
  "early_spot mb sz align goal limit r a \<longleftrightarrow>
     free_spot mb (max (unat (start_pfn r) * 4096) goal) (min (unat (end_pfn r) * 4096) limit) sz align a"

lemma core_early_loop_spec:
  assumes inv: "mb_inv (reserved mb)" "mb_inv (memory mb)" and sz: "0 < sz"
  shows "core_early_loop mb m sz (2 ^ k) goal limit is \<noteq> 0 \<Longrightarrow>
      \<exists>i\<in>set is. early_spot mb (unat sz) (2 ^ k) (unat goal) (unat limit) (m ! i)
        (unat (core_early_loop mb m sz (2 ^ k) goal limit is))"
    and "i \<in> set is \<Longrightarrow> early_spot mb (unat sz) (2 ^ k) (unat goal) (unat limit) (m ! i) a \<Longrightarrow> 4096 \<le> a
      \<Longrightarrow> core_early_loop mb m sz (2 ^ k) goal limit is \<noteq> 0"
proof -
  let ?l = "core_early_loop mb m sz (2 ^ k) goal limit"
  let ?spot = "\<lambda>i a. early_spot mb (unat sz) (2 ^ k) (unat goal) (unat limit) (m ! i) a"
  have "(?l is \<noteq> 0 \<longrightarrow> (\<exists>i\<in>set is. ?spot i (unat (?l is))))
    \<and> ((\<exists>i\<in>set is. ?spot i a) \<longrightarrow> 4096 \<le> a \<longrightarrow> ?l is \<noteq> 0)"
  proof (induction "is")
    case Nil
    then show ?case by (simp add: MEMBLOCK_ERROR_def)
  next
    case (Cons i "is")
    define fs where "fs = max (push_bit PAGE_SHIFT (ucast (start_pfn (m ! i)))) goal"
    define fe where "fe = min (push_bit PAGE_SHIFT (ucast (end_pfn (m ! i)))) limit"
    have u: "unat fs = max (unat (start_pfn (m ! i)) * 4096) (unat goal)"
      "unat fe = min (unat (end_pfn (m ! i)) * 4096) (unat limit)"
      by (simp_all add: fs_def fe_def unat_max unat_min unat_pfn_addr)
    have spot: "?spot i b \<longleftrightarrow> free_spot mb (unat fs) (unat fe) (unat sz) (2 ^ k) b" for b
      by (simp add: early_spot_def u)
    let ?f = "memblock_find_in_range mb fs fe sz (2 ^ k)"
    have l: "?l (i # is) = (if fs \<ge> fe then ?l is else if ?f = 0 then ?l is else ?f)"
      by (simp add: fs_def fe_def MEMBLOCK_ERROR_def)
    show ?case
    proof (cases "fs \<ge> fe")
      case True
      have "\<not> ?spot i a" unfolding spot free_spot_def using True sz by (auto simp: word_le_unat word_less_unat)
      then show ?thesis using Cons True unfolding l by auto
    next
      case False
      then have "fe \<noteq> 0" by (simp add: not_le word_greater_zero_iff) force
      note f = memblock_find_in_range_spec [OF inv sz this, where st = fs and k = k]
      show ?thesis using False Cons f unfolding l by (auto simp: spot)
    qed
  qed
  then show "?l is \<noteq> 0 \<Longrightarrow> \<exists>i\<in>set is. ?spot i (unat (?l is))"
    "i \<in> set is \<Longrightarrow> ?spot i a \<Longrightarrow> 4096 \<le> a \<Longrightarrow> ?l is \<noteq> 0"
    by blast+
qed

lemma for_each_set: "(\<exists>i\<in>set (for_each_active_range_index_in_nid_reverse m nid). P (m ! i)) \<longleftrightarrow> (\<exists>r\<in>set (nid_regions m nid). P r)"
proof -
  have "set (nid_regions m nid) = (\<lambda>i. m ! i) ` set (for_each_active_range_index_in_nid m nid)"
    by (simp flip: map_for_each)
  then show ?thesis by (simp add: for_each_reverse_filter for_each_filter)
qed

lemma find_memory_core_early_spec:
  assumes inv: "mb_inv (reserved mb)" "mb_inv (memory mb)" and sz: "0 < sz"
  shows "find_memory_core_early mb m nid sz (2 ^ k) goal limit \<noteq> 0 \<Longrightarrow> \<exists>r\<in>set (nid_regions m nid).
      early_spot mb (unat sz) (2 ^ k) (unat goal) (unat limit) r (unat (find_memory_core_early mb m nid sz (2 ^ k) goal limit))"
    and "r \<in> set (nid_regions m nid) \<Longrightarrow> early_spot mb (unat sz) (2 ^ k) (unat goal) (unat limit) r a
      \<Longrightarrow> 4096 \<le> a \<Longrightarrow> find_memory_core_early mb m nid sz (2 ^ k) goal limit \<noteq> 0"
proof -
  note spec = core_early_loop_spec [OF assms]
  show "\<exists>r\<in>set (nid_regions m nid). early_spot mb (unat sz) (2 ^ k) (unat goal) (unat limit) r
      (unat (find_memory_core_early mb m nid sz (2 ^ k) goal limit))"
    if "find_memory_core_early mb m nid sz (2 ^ k) goal limit \<noteq> 0"
    using spec(1) that unfolding find_memory_core_early_def
    by (subst for_each_set [symmetric]) blast
  assume r: "r \<in> set (nid_regions m nid)" "early_spot mb (unat sz) (2 ^ k) (unat goal) (unat limit) r a" "4096 \<le> a"
  then have "\<exists>i\<in>set (for_each_active_range_index_in_nid_reverse m nid).
      early_spot mb (unat sz) (2 ^ k) (unat goal) (unat limit) (m ! i) a"
    by (subst for_each_set) blast
  then show "find_memory_core_early mb m nid sz (2 ^ k) goal limit \<noteq> 0"
    using spec(2) r(3) unfolding find_memory_core_early_def by blast
qed

section \<open>Sorting the table\<close>

interpretation node_order: comparator cmp_node_active_region UNIV
  by unfold_locales (auto simp: cmp_node_active_region_def split: if_splits)

text \<open>
  The table in memory: a \<^verbatim>\<open>struct node_active_region\<close> is three words of 32 bits, the last one
  signed, and \<^verbatim>\<open>early_node_map\<close> has at most \<^verbatim>\<open>MAX_ACTIVE_REGIONS\<close> of them.
\<close>

definition region_of_bytes :: "u8 list \<Rightarrow> node_active_region" where
  "region_of_bytes bs = \<lparr>start_pfn = word_rcat (rev (take 4 bs)), end_pfn = word_rcat (rev (take 4 (drop 4 bs))),
     ar_nid = sint (word_rcat (rev (take 4 (drop 8 bs))) :: 32 word)\<rparr>"

definition cmp_node_at :: cmp_func where
  "cmp_node_at m a b =
     cmp_node_active_region (region_of_bytes (elem_bytes m 12 a)) (region_of_bytes (elem_bytes m 12 b))"

interpretation node_array: sort_setting cmp_node_at generic_swap base MAX_ACTIVE_REGIONS 12
  "\<lambda>x y. cmp_node_active_region (region_of_bytes x) (region_of_bytes y)" for base
  by unfold_locales (simp_all add: cmp_node_at_def swaps_generic_swap MAX_ACTIVE_REGIONS_def)

lemma sort_node_map_in_memory:
  assumes "map region_of_bytes (elems mem base (length m) 12) = m" "length m \<le> MAX_ACTIVE_REGIONS"
  shows "\<exists>mem'. sort base (int (length m)) 12 cmp_node_at None mem = Some mem'
    \<and> map region_of_bytes (elems mem' base (length m) 12) = sort_node_map m"
  using sort_typed [of region_of_bytes mem base m 12 cmp_node_active_region, OF assms(1)] assms(2)
  by (auto simp: cmp_node_at_def [abs_def] sort_node_map_def MAX_ACTIVE_REGIONS_def)

lemma sort_node_map_sorted:
  "mset (sort_node_map m) = mset m" "sorted_wrt (\<lambda>x y. start_pfn x \<le> start_pfn y) (sort_node_map m)"
proof -
  show "mset (sort_node_map m) = mset m" by (simp add: sort_node_map_def sort_call_def mset_heapsort)
  have "sorted_wrt (\<lambda>x y. cmp_node_active_region x y \<le> 0) (sort_node_map m)"
    unfolding sort_node_map_def by (simp add: sort_call_def node_order.sorted_heapsort)
  then show "sorted_wrt (\<lambda>x y. start_pfn x \<le> start_pfn y) (sort_node_map m)"
    by (rule sorted_wrt_mono_rel [rotated]) (auto simp: cmp_node_active_region_def split: if_splits)
qed

section \<open>Properties\<close>

text \<open>
  C34. With the node's ranges in ascending order, \<^verbatim>\<open>__absent_pages_in_range\<close> returns the
  number of page frames of \<open>[rs, re)\<close> that are in none of them.
\<close>

theorem absent_pages_correct:
  assumes "in_order (nid_regions m nid)" "rs \<le> re"
  shows "unat (uu_absent_pages_in_range m nid rs re) = card (holes (nid_regions m nid) (unat rs) (unat re))"
proof -
  let ?is = "for_each_active_range_index_in_nid m nid"
  obtain p h where l: "absent_loop m rs re ?is 0 0 = (p, h)" by fastforce
  have "uu_absent_pages_in_range m nid rs re = of_nat (card (holes (nid_regions m nid) (unat rs) (unat re)))"
    using absent_loop_holes [OF _ _ assms(2) l] assms(1)
    by (simp add: uu_absent_pages_in_range_def l map_for_each)
  moreover have "card (holes (nid_regions m nid) (unat rs) (unat re)) < 2 ^ 32"
  proof -
    have "card (holes (nid_regions m nid) (unat rs) (unat re)) \<le> card {..<unat re}"
      by (rule card_mono) (auto simp: holes_def)
    then show ?thesis using unat_bound [of re] by simp
  qed
  ultimately show ?thesis by (simp add: unat_of_nat)
qed

theorem absent_pages_correct_witness:
  "unat (uu_absent_pages_in_range [\<lparr>start_pfn = 1, end_pfn = 3, ar_nid = 0\<rparr>, \<lparr>start_pfn = 5, end_pfn = 9, ar_nid = 0\<rparr>] 0 0 12)
    = card (holes [\<lparr>start_pfn = 1, end_pfn = 3, ar_nid = 0\<rparr>, \<lparr>start_pfn = 5, end_pfn = 9, ar_nid = 0\<rparr>] 0 12)"
  using absent_pages_correct
    [of "[\<lparr>start_pfn = 1, end_pfn = 3, ar_nid = 0\<rparr>, \<lparr>start_pfn = 5, end_pfn = 9, ar_nid = 0\<rparr>]" 0 0 12]
  by (simp add: nid_regions_def)

text \<open>
  C33. \<^verbatim>\<open>find_memory_core_early\<close> returns an aligned address from which the bytes lie in an
  active range of the node, between \<open>goal\<close> and \<open>limit\<close>, in memory and outside every
  reserved region; and it fails only if no active range of the node holds such an address
  at or above the first page.
\<close>

theorem find_memory_core_early_correct:
  assumes "mb_inv (reserved mb)" "mb_inv (memory mb)" "0 < sz"
  shows "(find_memory_core_early mb m nid sz (2 ^ k) goal limit \<noteq> MEMBLOCK_ERROR \<longrightarrow>
      (\<exists>r\<in>set (nid_regions m nid). early_spot mb (unat sz) (2 ^ k) (unat goal) (unat limit) r
        (unat (find_memory_core_early mb m nid sz (2 ^ k) goal limit))))
    \<and> (find_memory_core_early mb m nid sz (2 ^ k) goal limit = MEMBLOCK_ERROR \<longrightarrow>
      (\<forall>r\<in>set (nid_regions m nid). \<forall>a\<ge>4096. \<not> early_spot mb (unat sz) (2 ^ k) (unat goal) (unat limit) r a))"
  using find_memory_core_early_spec [OF assms] unfolding MEMBLOCK_ERROR_def by blast

theorem find_memory_core_early_correct_witness:
  "find_memory_core_early example_mb [\<lparr>start_pfn = 1, end_pfn = 9, ar_nid = 0\<rparr>] 0 0x1000 (2 ^ 12) 0 0x20000 \<noteq> MEMBLOCK_ERROR"
proof -
  have v: "view (memory example_mb) = [(0x1000, 0x9000)]" "view (reserved example_mb) = [(0x7000, 0x9000)]"
    by (simp_all add: example_mb_def view_def no_regions_def rgn_def span_of_def)
  then have inv: "mb_inv (reserved example_mb)" "mb_inv (memory example_mb)"
    by (simp_all add: mb_inv_def example_mb_def fits_def rgn_def no_regions_def)
  have "early_spot example_mb (unat (0x1000::u64)) (2 ^ 12) (unat (0::u64)) (unat (0x20000::u64))
      \<lparr>start_pfn = 1, end_pfn = 9, ar_nid = 0\<rparr> 0x6000"
    by (simp add: early_spot_def free_spot_def v clear_spot_def)
  then show ?thesis
    using find_memory_core_early_correct [OF inv, of "0x1000" "[\<lparr>start_pfn = 1, end_pfn = 9, ar_nid = 0\<rparr>]" 0 12 0 "0x20000"]
    by (force simp: nid_regions_def)
qed

text \<open>\<^verbatim>\<open>add_active_range\<close> compares with the end of entry 0 where the end of entry \<open>i\<close> is
  meant: a range that lies inside the second entry is added again.\<close>

lemma add_active_range_duplicates:
  "add_active_range [\<lparr>start_pfn = 0, end_pfn = 10, ar_nid = 0\<rparr>, \<lparr>start_pfn = 20, end_pfn = 30, ar_nid = 0\<rparr>] 0 22 25
   = [\<lparr>start_pfn = 0, end_pfn = 10, ar_nid = 0\<rparr>, \<lparr>start_pfn = 20, end_pfn = 30, ar_nid = 0\<rparr>,
      \<lparr>start_pfn = 22, end_pfn = 25, ar_nid = 0\<rparr>]"
  by (simp add: add_active_range_def active_merge.simps MAX_ACTIVE_REGIONS_def)

end
