(* ===== verification/Free_Ranges.thy ===== *)
theory Free_Ranges
  imports Early_Node_Map Range
begin

text \<open>
  The part of \<^verbatim>\<open>mm/memblock.c\<close> that connects the region arrays with the active ranges
  and the range arrays (and \<^verbatim>\<open>add_from_early_node_map\<close> of \<^verbatim>\<open>mm/page_alloc.c\<close>): memory
  regions become active page frame ranges, and the page frames that are handed to the page
  allocator at the end of booting are the active ones less the reserved ones. A
  \<^verbatim>\<open>panic\<close> is \<open>None\<close>.
\<close>

section \<open>Registering active ranges\<close>

text \<open>\<open>None\<close> stands for the result 0, \<open>Some\<close> for 1 with the two outputs.\<close>

definition memblock_x86_find_active_region ::
  "memblock_region \<Rightarrow> ulong \<Rightarrow> ulong \<Rightarrow> (ulong \<times> ulong) option" where
  "memblock_x86_find_active_region ei st last_pfn =
     (let align = PAGE_SIZE;
          ei_startpfn = (ucast (drop_bit PAGE_SHIFT (round_up (rg_base ei) align)) :: ulong);
          ei_endpfn = (ucast (drop_bit PAGE_SHIFT (round_down (rg_base ei + rg_size ei) align)) :: ulong)
      in if ei_startpfn \<ge> ei_endpfn then None
         else if ei_endpfn \<le> st \<or> ei_startpfn \<ge> last_pfn then None
         else Some (if ei_startpfn < st then st else ei_startpfn,
                    if ei_endpfn > last_pfn then last_pfn else ei_endpfn))"

definition memblock_x86_register_active_regions ::
  "memblock \<Rightarrow> node_map \<Rightarrow> int \<Rightarrow> ulong \<Rightarrow> ulong \<Rightarrow> node_map" where
  "memblock_x86_register_active_regions mb m nid st last_pfn =
     fold (\<lambda>i m. case memblock_x86_find_active_region (rgn (memory mb) i) st last_pfn of
             None \<Rightarrow> m
           | Some (s, e) \<Rightarrow> add_active_range m nid s e)
       [0..<cnt (memory mb)] m"

section \<open>The free page frames\<close>

definition sizeof_range :: u64 where
  "sizeof_range = 16"

definition find_range_array :: "memblock \<Rightarrow> nat \<Rightarrow> range list option" where
  "find_range_array mb cnt_r =
     (let sz = sizeof_range * of_nat cnt_r;
          en = current_limit mb;
          mem = memblock_find_in_range mb 0 en sz sizeof_range
      in if mem = MEMBLOCK_ERROR then None else Some (replicate cnt_r empty_slot))"

definition subtract_reserved_region :: "memblock_region \<Rightarrow> nat \<Rightarrow> range list \<Rightarrow> range list" where
  "subtract_reserved_region r az rs =
     (let final_start = PFN_DOWN (rg_base r);
          final_end = PFN_UP (rg_base r + rg_size r)
      in if final_start \<ge> final_end then rs else subtract_range rs az final_start final_end)"

definition memblock_x86_subtract_reserved :: "memblock \<Rightarrow> range list \<Rightarrow> nat \<Rightarrow> memblock \<times> range list" where
  "memblock_x86_subtract_reserved mb rs az =
     (let mb = fst (memblock_free_reserved_regions mb);
          rs = fold (\<lambda>i. subtract_reserved_region (rgn (reserved mb) i) az) [0..<cnt (reserved mb)] rs;
          mb = fst (memblock_reserve_reserved_regions mb)
      in (mb, rs))"

definition count_work_fn :: "ulong \<Rightarrow> ulong \<Rightarrow> nat \<Rightarrow> nat \<times> int" where
  "count_work_fn st en nr = (nr + 1, 0)"

definition count_early_node_map :: "node_map \<Rightarrow> int \<Rightarrow> nat" where
  "count_early_node_map m nodeid = work_with_active_regions m nodeid count_work_fn 0"

definition add_from_early_node_map :: "node_map \<Rightarrow> range list \<Rightarrow> nat \<Rightarrow> nat \<Rightarrow> int \<Rightarrow> range list \<times> nat" where
  "add_from_early_node_map m rs az nr_range nid =
     fold (\<lambda>i (rs, nr_range). add_range rs az nr_range (ucast (start_pfn (m ! i))) (ucast (end_pfn (m ! i))))
       (for_each_active_range_index_in_nid m nid) (rs, nr_range)"

definition uu_get_free_all_memory_range ::
  "memblock \<Rightarrow> node_map \<Rightarrow> int \<Rightarrow> ulong \<Rightarrow> ulong \<Rightarrow> (memblock \<times> range list \<times> nat) option" where
  "uu_get_free_all_memory_range mb m nodeid st en =
     (let cnt_r = (cnt (reserved mb) + count_early_node_map m nodeid) * 2
      in case find_range_array mb cnt_r of
           None \<Rightarrow> None
         | Some rs \<Rightarrow>
             let (rs, nr_range) = add_from_early_node_map m rs cnt_r 0 nodeid;
                 rs = subtract_range rs cnt_r 0 (ucast st);
                 rs = subtract_range rs cnt_r (ucast en) (- 1);
                 (mb, rs) = memblock_x86_subtract_reserved mb rs cnt_r;
                 (rs, nr_range) = clean_sort_range rs cnt_r
             in Some (mb, rs, nr_range))"

definition get_free_all_memory_range ::
  "memblock \<Rightarrow> node_map \<Rightarrow> ulong \<Rightarrow> int \<Rightarrow> (memblock \<times> range list \<times> nat) option" where
  "get_free_all_memory_range mb m max_low_pfn nodeid =
     (let end_pfn = max_low_pfn in uu_get_free_all_memory_range mb m nodeid 0 end_pfn)"

section \<open>Counting and collecting the active ranges\<close>

lemma work_loop_count: "work_loop m count_work_fn is d = d + length is"
  by (induction "is" arbitrary: d) (simp_all add: count_work_fn_def)

lemma count_early_node_map_length: "count_early_node_map m nid = length (nid_regions m nid)"
  by (simp add: count_early_node_map_def work_with_active_regions_def work_loop_count flip: map_for_each)

definition region_mult :: "node_active_region list \<Rightarrow> u64 \<Rightarrow> nat" where
  "region_mult regs a = count_if (\<lambda>r. ucast (start_pfn r) \<le> a \<and> a < ucast (end_pfn r)) regs"

text \<open>The entries from \<open>n\<close> on are still unused.\<close>

definition fresh_from :: "nat \<Rightarrow> range list \<Rightarrow> bool" where
  "fresh_from n rs \<longleftrightarrow> (\<forall>i. n \<le> i \<longrightarrow> i < length rs \<longrightarrow> rs ! i = empty_slot)"

lemma add_range_mult:
  assumes "az = length rs" "n < az" "fresh_from n rs" "add_range rs az n st en = (rs', n')"
  shows "length rs' = az" "fresh_from n' rs'" "n' \<le> n + 1"
    "range_mult rs' a = range_mult rs a + (if st \<le> a \<and> a < en then 1 else 0)"
    "count_if unused rs \<le> count_if unused rs' + 1"
    "\<forall>r\<in>set rs. proper r \<Longrightarrow> \<forall>r\<in>set rs'. proper r"
proof -
  have n: "n < length rs" using assms by simp
  have e: "rs ! n = empty_slot" using assms n by (simp add: fresh_from_def)
  have o: "\<not> in_range a empty_slot" "unused empty_slot" by (simp_all add: in_range_def empty_slot_def unused_def)
  let ?r = "\<lparr>r_start = st, r_end = en\<rparr>"
  have "length rs' = az \<and> fresh_from n' rs' \<and> n' \<le> n + 1
    \<and> range_mult rs' a = range_mult rs a + (if st \<le> a \<and> a < en then 1 else 0)
    \<and> count_if unused rs \<le> count_if unused rs' + 1"
  proof (cases "st \<ge> en")
    case True
    then have "rs' = rs" "n' = n" using assms(4) by (simp_all add: add_range_def)
    then show ?thesis using True assms by auto
  next
    case False
    then have eq: "rs' = rs[n := ?r]" "n' = n + 1" using assms by (simp_all add: add_range_def)
    have "range_mult rs' a = range_mult rs a + (if st \<le> a \<and> a < en then 1 else 0)"
      using count_if_update [OF n, of "in_range a" ?r] e o in_range_def [of a ?r]
      by (simp add: range_mult_def eq)
    moreover have "count_if unused rs \<le> count_if unused rs' + 1"
      using count_if_update [OF n, of unused ?r] e o by (auto simp: eq split: if_splits)
    ultimately show ?thesis using assms(1,3) by (auto simp: eq fresh_from_def)
  qed
  moreover have "proper ?r" if "\<not> st \<ge> en" using that by (auto simp: proper_def)
  then have "\<forall>r\<in>set rs. proper r \<Longrightarrow> \<forall>r\<in>set rs'. proper r"
    using assms(4) proper_update [of rs ?r n] by (auto simp: add_range_def split: if_splits)
  ultimately show "\<forall>r\<in>set rs. proper r \<Longrightarrow> \<forall>r\<in>set rs'. proper r"
    "length rs' = az" "fresh_from n' rs'" "n' \<le> n + 1"
    "range_mult rs' a = range_mult rs a + (if st \<le> a \<and> a < en then 1 else 0)"
    "count_if unused rs \<le> count_if unused rs' + 1" by simp_all
qed

lemma collect_loop:
  assumes "az = length rs" "n + length is \<le> az" "fresh_from n rs"
    "fold (\<lambda>i (rs, n). add_range rs az n (ucast (start_pfn (m ! i))) (ucast (end_pfn (m ! i)))) is (rs, n) = (rs', n')"
  shows "length rs' = az \<and> range_mult rs' a = range_mult rs a + region_mult (map (\<lambda>i. m ! i) is) a
    \<and> count_if unused rs \<le> count_if unused rs' + length is
    \<and> ((\<forall>r\<in>set rs. proper r) \<longrightarrow> (\<forall>r\<in>set rs'. proper r))"
  using assms
proof (induction "is" arbitrary: rs n)
  case Nil
  then show ?case by (simp add: region_mult_def)
next
  case (Cons i "is")
  obtain rs1 n1 where a: "add_range rs az n (ucast (start_pfn (m ! i))) (ucast (end_pfn (m ! i))) = (rs1, n1)"
    by fastforce
  have n: "n < az" using Cons.prems(2) by simp
  note ar = add_range_mult [OF Cons.prems(1) n Cons.prems(3) a]
  let ?f = "\<lambda>i (rs, n). add_range rs az n (ucast (start_pfn (m ! i))) (ucast (end_pfn (m ! i)))"
  have "az = length rs1" "n1 + length is \<le> az" using ar(1,3) Cons.prems(2) by simp_all
  moreover have "fold ?f is (rs1, n1) = (rs', n')" using Cons.prems(4) by (simp add: a)
  ultimately have IH: "length rs' = az" "range_mult rs' a = range_mult rs1 a + region_mult (map (\<lambda>i. m ! i) is) a"
    "count_if unused rs1 \<le> count_if unused rs' + length is" "(\<forall>r\<in>set rs1. proper r) \<longrightarrow> (\<forall>r\<in>set rs'. proper r)"
    using Cons.IH [of rs1 n1] ar(2) by blast+
  have "region_mult (map (\<lambda>i. m ! i) (i # is)) a =
    (if ucast (start_pfn (m ! i)) \<le> a \<and> a < ucast (end_pfn (m ! i)) then 1 else 0) + region_mult (map (\<lambda>i. m ! i) is) a"
    by (simp add: region_mult_def)
  then show ?case using IH(1-3) ar(4) [of a] ar(5) IH(4) ar(6) by (intro conjI impI) (linarith | simp)+
qed

lemma range_mult_replicate [simp]: "range_mult (replicate n empty_slot) a = 0"
  by (simp add: range_mult_def count_if_0 in_range_def empty_slot_def)

lemma unused_replicate: "count_if unused (replicate n empty_slot) = n"
  by (simp add: count_if_def unused_def empty_slot_def)

lemma add_from_early_node_map_props:
  assumes "length (nid_regions m nid) \<le> az"
    "add_from_early_node_map m (replicate az empty_slot) az 0 nid = (rs, n)"
  shows "length rs = az" "range_mult rs a = region_mult (nid_regions m nid) a"
    "az \<le> count_if unused rs + length (nid_regions m nid)" "\<forall>r\<in>set rs. proper r"
proof -
  let ?is = "for_each_active_range_index_in_nid m nid"
  have len: "length ?is = length (nid_regions m nid)" by (simp flip: map_for_each)
  have f: "fresh_from 0 (replicate az empty_slot)" "\<forall>r\<in>set (replicate az empty_slot). proper r"
    by (simp_all add: fresh_from_def proper_def unused_def empty_slot_def)
  have "length rs = az \<and> range_mult rs a = region_mult (nid_regions m nid) a
      \<and> az \<le> count_if unused rs + length (nid_regions m nid) \<and> (\<forall>r\<in>set rs. proper r)"
    using collect_loop [of az "replicate az empty_slot" 0 ?is m rs n a] assms len f
    by (simp add: add_from_early_node_map_def map_for_each unused_replicate)
  then show "length rs = az" "range_mult rs a = region_mult (nid_regions m nid) a"
    "az \<le> count_if unused rs + length (nid_regions m nid)" "\<forall>r\<in>set rs. proper r" by simp_all
qed

section \<open>Subtracting\<close>

text \<open>Disjoint entries, with at least \<open>k\<close> unused slots.\<close>

definition roomy :: "nat \<Rightarrow> nat \<Rightarrow> range list \<Rightarrow> bool" where
  "roomy az k rs \<longleftrightarrow> length rs = az \<and> (\<forall>a. range_mult rs a \<le> 1) \<and> k \<le> count_if unused rs
     \<and> (\<forall>r\<in>set rs. proper r)"

lemma roomy_subtract:
  assumes "roomy az (Suc k) rs"
  shows "roomy az k (subtract_range rs az st en)"
    and "range_mult (subtract_range rs az st en) a = (if st \<le> a \<and> a < en then 0 else range_mult rs a)"
proof -
  have az: "az = length rs" and d: "\<forall>a. range_mult rs a \<le> 1" and u: "Suc k \<le> count_if unused rs"
    and pr: "\<forall>r\<in>set rs. proper r"
    using assms by (auto simp: roomy_def)
  note pr' = subtract_range_proper [OF pr, of az st en]
  have "roomy az k (subtract_range rs az st en)
    \<and> (\<forall>a. range_mult (subtract_range rs az st en) a = (if st \<le> a \<and> a < en then 0 else range_mult rs a))"
  proof (cases "st < en")
    case True
    have s: "count_if (splits st en) rs \<le> 1" by (rule splits_disjoint [OF True d])
    have m: "range_mult (subtract_range rs az st en) a = (if st \<le> a \<and> a < en then 0 else range_mult rs a)" for a
      by (rule subtract_range_mult [OF az]) (use s u in linarith)
    moreover have "k \<le> count_if unused (subtract_range rs az st en)"
      using subtract_range_slots [OF az, of st en] s u by linarith
    ultimately show ?thesis using d az pr' by (simp add: roomy_def)
  next
    case False
    then show ?thesis using d az u pr by (auto simp: roomy_def subtract_range_def)
  qed
  then show "roomy az k (subtract_range rs az st en)"
    and "range_mult (subtract_range rs az st en) a = (if st \<le> a \<and> a < en then 0 else range_mult rs a)"
    by blast+
qed

text \<open>An interval that reaches to the bottom or to the top cuts no entry in two.\<close>

lemma roomy_subtract_end:
  assumes "roomy az k rs" "st = 0 \<or> en = - 1"
  shows "roomy az k (subtract_range rs az st en)"
    and "range_mult (subtract_range rs az st en) a = (if st \<le> a \<and> a < en then 0 else range_mult rs a)"
proof -
  have az: "az = length rs" using assms by (simp add: roomy_def)
  have "\<not> splits st en r" for r
    using assms(2) leD [OF word_n1_ge] by (auto simp: splits_def)
  then have s: "count_if (splits st en) rs = 0" by (simp add: count_if_0)
  have m: "range_mult (subtract_range rs az st en) a = (if st \<le> a \<and> a < en then 0 else range_mult rs a)" for a
    by (rule subtract_range_mult [OF az]) (simp add: s)
  moreover have "k \<le> count_if unused (subtract_range rs az st en)"
    using subtract_range_slots [OF az, of st en] s assms(1) by (simp add: roomy_def)
  ultimately show "roomy az k (subtract_range rs az st en)"
    using assms(1) subtract_range_proper [of rs az st en] by (simp add: roomy_def)
  show "range_mult (subtract_range rs az st en) a = (if st \<le> a \<and> a < en then 0 else range_mult rs a)"
    by (rule m)
qed

definition page_in :: "memblock_region \<Rightarrow> u64 \<Rightarrow> bool" where
  "page_in r a \<longleftrightarrow> PFN_DOWN (rg_base r) \<le> a \<and> a < PFN_UP (rg_base r + rg_size r)"

lemma roomy_subtract_region:
  assumes "roomy az (Suc k) rs"
  shows "roomy az k (subtract_reserved_region r az rs)"
    and "range_mult (subtract_reserved_region r az rs) a = (if page_in r a then 0 else range_mult rs a)"
proof -
  show "roomy az k (subtract_reserved_region r az rs)"
    using roomy_subtract(1) [OF assms] assms
    by (simp add: subtract_reserved_region_def Let_def roomy_def)
  show "range_mult (subtract_reserved_region r az rs) a = (if page_in r a then 0 else range_mult rs a)"
    using roomy_subtract(2) [OF assms, of "PFN_DOWN (rg_base r)" "PFN_UP (rg_base r + rg_size r)" a]
    by (auto simp: subtract_reserved_region_def Let_def page_in_def)
qed

lemma subtract_all_regions:
  assumes "roomy az (k + length rgs) rs"
  shows "roomy az k (fold (\<lambda>r. subtract_reserved_region r az) rgs rs)
    \<and> range_mult (fold (\<lambda>r. subtract_reserved_region r az) rgs rs) a
        = (if \<exists>r\<in>set rgs. page_in r a then 0 else range_mult rs a)"
  using assms
proof (induction rgs arbitrary: rs)
  case Nil
  then show ?case by simp
next
  case (Cons r rgs)
  then show ?case
    using Cons.IH [of "subtract_reserved_region r az rs"] roomy_subtract_region [of az "k + length rgs" rs r] by auto
qed

section \<open>Reserved pages\<close>

lemma pages_of_interval:
  fixes b e p :: nat
  assumes "b < e"
  shows "b div 4096 \<le> p \<and> p < (e + 4095) div 4096 \<longleftrightarrow> (\<exists>x. b \<le> x \<and> x < e \<and> x div 4096 = p)"
proof
  assume l: "b div 4096 \<le> p \<and> p < (e + 4095) div 4096"
  define x where "x = max b (p * 4096)"
  have "Suc p * 4096 \<le> (e + 4095) div 4096 * 4096" using l by (intro mult_le_mono1) simp
  then have "Suc p * 4096 \<le> e + 4095" by (rule order_trans) simp
  moreover have "Suc (b div 4096) * 4096 \<le> Suc p * 4096" using l by simp
  then have "b < Suc p * 4096" using div_mult_mod_eq [of b 4096] mod_less_divisor [of 4096 b] by simp
  ultimately have "b \<le> x" "x < e" "p * 4096 \<le> x" "x < Suc p * 4096" using assms by (auto simp: x_def)
  moreover from this have "x div 4096 = p" by (intro div_nat_eqI) simp_all
  ultimately show "\<exists>x. b \<le> x \<and> x < e \<and> x div 4096 = p" by blast
next
  assume "\<exists>x. b \<le> x \<and> x < e \<and> x div 4096 = p"
  then obtain x where x: "b \<le> x" "x < e" "x div 4096 = p" by blast
  have "(x + 4096) div 4096 \<le> (e + 4095) div 4096" using x(2) by (intro div_le_mono) simp
  then show "b div 4096 \<le> p \<and> p < (e + 4095) div 4096" using x(3) div_le_mono [OF x(1), of 4096] by simp
qed

lemma page_in_span:
  assumes "rg_size r \<noteq> 0" "unat (rg_base r) + unat (rg_size r) + 4095 < 2 ^ 64"
  shows "page_in r a \<longleftrightarrow> (\<exists>x. fst (span_of r) \<le> x \<and> x < snd (span_of r) \<and> x div 4096 = unat a)"
proof -
  have e: "unat (rg_base r + rg_size r) = snd (span_of r)"
    using assms(2) by (simp add: unat_add_no_wrap span_of_def)
  have "unat (rg_base r + rg_size r + (PAGE_SIZE - 1)) = snd (span_of r) + 4095"
    using assms(2) by (subst unat_add_no_wrap) (simp_all add: e PAGE_SIZE_def PAGE_SHIFT_def span_of_def)
  then have up: "unat (PFN_UP (rg_base r + rg_size r)) = (snd (span_of r) + 4095) div 4096"
    by (simp add: PFN_UP_def PAGE_SHIFT_def drop_bit_eq_div unat_div add_diff_eq)
  have dn: "unat (PFN_DOWN (rg_base r)) = fst (span_of r) div 4096"
    by (simp add: PFN_DOWN_def PAGE_SHIFT_def drop_bit_eq_div unat_div span_of_def)
  have lt: "fst (span_of r) < snd (span_of r)" using assms(1) by (simp add: span_of_def unat_gt_0)
  show ?thesis
    using pages_of_interval [OF lt, of "unat a"] by (simp add: page_in_def word_le_unat word_less_unat up dn)
qed

definition page_reserved :: "memblock \<Rightarrow> nat \<Rightarrow> bool" where
  "page_reserved mb p \<longleftrightarrow> (\<exists>x\<in>mb_addrs (reserved mb). x div 4096 = p)"

lemma mb_addrs_regions:
  assumes "mb_inv t"
  shows "x \<in> mb_addrs t \<longleftrightarrow> (\<exists>i<cnt t. rg_size (rgn t i) \<noteq> 0 \<and> fst (span_of (rgn t i)) \<le> x \<and> x < snd (span_of (rgn t i)))"
proof (cases "no_regions t")
  case True
  then show ?thesis by (auto simp: mb_addrs_def view_def no_regions_def)
next
  case False
  then have "nonempty t" using assms inv_nonempty by blast
  then show ?thesis using False by (auto simp: mb_addrs_def spans_set_iff view_def nonempty_def)
qed

lemma page_reserved_regions:
  assumes "mb_inv (reserved mb)"
    "\<forall>i<cnt (reserved mb). unat (rg_base (rgn (reserved mb) i)) + unat (rg_size (rgn (reserved mb) i)) + 4095 < 2 ^ 64"
  shows "(\<exists>i<cnt (reserved mb). page_in (rgn (reserved mb) i) a) \<longleftrightarrow> page_reserved mb (unat a)"
proof -
  have "page_in (rgn (reserved mb) i) a \<longleftrightarrow> rg_size (rgn (reserved mb) i) \<noteq> 0
      \<and> (\<exists>x. fst (span_of (rgn (reserved mb) i)) \<le> x \<and> x < snd (span_of (rgn (reserved mb) i)) \<and> x div 4096 = unat a)"
    if i: "i < cnt (reserved mb)" for i
  proof (cases "rg_size (rgn (reserved mb) i) = 0")
    case True
    have "no_regions (reserved mb)"
      using True i inv_nonempty [OF assms(1)] by (auto simp: nonempty_def)
    then have "rgn (reserved mb) i = \<lparr>rg_base = 0, rg_size = 0\<rparr>"
      using assms(1) i by (auto simp: mb_inv_def no_regions_def intro: memblock_region.equality)
    then show ?thesis
      by (simp add: page_in_def PFN_UP_def PFN_DOWN_def PAGE_SHIFT_def PAGE_SIZE_def)
  next
    case False
    then show ?thesis using page_in_span assms(2) i by simp
  qed
  then show ?thesis unfolding page_reserved_def Bex_def mb_addrs_regions [OF assms(1)] by blast
qed

section \<open>The free ranges\<close>

text \<open>What the result has to be: the active page frames below the limit that hold no reserved
  byte.\<close>

definition free_page :: "memblock \<Rightarrow> node_map \<Rightarrow> int \<Rightarrow> nat \<Rightarrow> nat \<Rightarrow> nat \<Rightarrow> bool" where
  "free_page mb m nid lo hi p \<longleftrightarrow> lo \<le> p \<and> p < hi \<and> (\<exists>r\<in>set (nid_regions m nid). in_region p r)
     \<and> \<not> page_reserved mb p"

definition reserved_bounded :: "memblock \<Rightarrow> bool" where
  "reserved_bounded mb \<longleftrightarrow> (\<forall>i<cnt (reserved mb).
     unat (rg_base (rgn (reserved mb) i)) + unat (rg_size (rgn (reserved mb) i)) + 4095 < 2 ^ 64)"

lemma unat_ucast_pfn: "unat (ucast (p :: ulong) :: u64) = unat p"
  using unat_bound [of p] by (simp add: unsigned_ucast_eq take_bit_eq_mod)

lemma region_mult_in_order:
  assumes "in_order rs"
  shows "region_mult rs a = (if \<exists>r\<in>set rs. in_region (unat a) r then 1 else 0)"
  using assms
proof (induction rs)
  case Nil
  then show ?case by (simp add: region_mult_def)
next
  case (Cons r rs)
  have *: "ucast (start_pfn r) \<le> a \<and> a < ucast (end_pfn r) \<longleftrightarrow> in_region (unat a) r" for r
    by (simp add: in_region_def word_le_unat word_less_unat unat_ucast_pfn)
  have "\<not> in_region (unat a) x" if "in_region (unat a) r" "x \<in> set rs" for x
    using that Cons.prems by (force simp: in_region_def word_le_unat)
  then show ?case using Cons by (auto simp: region_mult_def *)
qed

lemma roomy_collected:
  assumes "in_order (nid_regions m nid)" "az = (c + length (nid_regions m nid)) * 2"
    "add_from_early_node_map m (replicate az empty_slot) az 0 nid = (rs, n)"
  shows "roomy az c rs"
    and "range_mult rs a = (if \<exists>r\<in>set (nid_regions m nid). in_region (unat a) r then 1 else 0)"
proof -
  have le: "length (nid_regions m nid) \<le> az" using assms(2) by simp
  note pr = add_from_early_node_map_props [OF le assms(3)]
  show m: "range_mult rs a = (if \<exists>r\<in>set (nid_regions m nid). in_region (unat a) r then 1 else 0)" for a
    using pr(2) region_mult_in_order [OF assms(1)] by simp
  then have "\<forall>a. range_mult rs a \<le> 1" by (simp add: m)
  then show "roomy az c rs" using pr assms(2) by (simp add: roomy_def)
qed

lemma fold_upt_map: "fold (\<lambda>i. f (g i)) [0..<n] = fold f (map g [0..<n])"
  by (simp add: fold_map comp_def)

lemma free_ranges_before_sort:
  fixes st en :: ulong
  assumes ord: "in_order (nid_regions m nid)" and az: "az = (cnt (reserved mb) + length (nid_regions m nid)) * 2"
    and inv: "mb_inv (reserved mb)" "reserved_bounded mb"
    and add: "add_from_early_node_map m (replicate az empty_slot) az 0 nid = (rs, n)"
    and rs3: "snd (memblock_x86_subtract_reserved mb
        (subtract_range (subtract_range rs az 0 (ucast st)) az (ucast en) (- 1)) az) = rs3"
    and a: "a \<noteq> - 1"
  shows "roomy az 0 rs3" "range_mult rs3 a = (if free_page mb m nid (unat st) (unat en) (unat a) then 1 else 0)"
proof -
  let ?rs1 = "subtract_range rs az 0 (ucast st)"
  let ?rs2 = "subtract_range ?rs1 az (ucast en) (- 1)"
  let ?rgs = "map (\<lambda>i. rgn (reserved mb) i) [0..<cnt (reserved mb)]"
  note c = roomy_collected [OF ord az add]
  note c1 = roomy_subtract_end [OF c(1), of 0 "ucast st"]
  note c2 = roomy_subtract_end [OF c1(1), of "ucast en" "- 1"]
  have rs3': "rs3 = fold (\<lambda>r. subtract_reserved_region r az) ?rgs ?rs2"
    using rs3 by (simp add: memblock_x86_subtract_reserved_def memblock_free_reserved_regions_def Let_def
        fold_upt_map [of "\<lambda>r. subtract_reserved_region r az"])
  have "roomy az (0 + length ?rgs) ?rs2" using c2(1) by simp
  note s = subtract_all_regions [OF this, of a]
  show "roomy az 0 rs3" using s unfolding rs3' by simp
  have res: "(\<exists>r\<in>set ?rgs. page_in r a) \<longleftrightarrow> page_reserved mb (unat a)"
    using page_reserved_regions [OF inv(1), of a] inv(2) by (auto simp: reserved_bounded_def)
  have lim: "a < - 1" using a by (simp add: word_n1_ge less_le)
  have "range_mult rs3 a = (if page_reserved mb (unat a) then 0 else range_mult ?rs2 a)"
    using s res unfolding rs3' by simp
  moreover have "range_mult ?rs2 a = (if unat en \<le> unat a then 0 else range_mult ?rs1 a)"
    using c2(2) [of a] lim by (simp add: word_le_unat unat_ucast_pfn)
  moreover have "range_mult ?rs1 a = (if unat a < unat st then 0 else range_mult rs a)"
    using c1(2) [of a] by (simp add: word_less_unat unat_ucast_pfn)
  ultimately show "range_mult rs3 a = (if free_page mb m nid (unat st) (unat en) (unat a) then 1 else 0)"
    using c(2) [of a] by (simp add: free_page_def)
qed

lemma range_mult_top [simp]: "range_mult rs (- 1) = 0"
  using leD [OF word_n1_ge] by (auto simp: range_mult_def count_if_0 in_range_def)

lemma get_free_all_memory_range_props:
  assumes ord: "in_order (nid_regions m nid)" and inv: "mb_inv (reserved mb)" "reserved_bounded mb"
    and res: "uu_get_free_all_memory_range mb m nid st en = Some (mb', rs, nr)"
  shows "mb' = mb" "nr \<le> length rs" "\<forall>r\<in>set (take nr rs). r_start r < r_end r"
    "range_mult (take nr rs) a = (if free_page mb m nid (unat st) (unat en) (unat a) then 1 else 0)"
proof -
  define az where "az = (cnt (reserved mb) + length (nid_regions m nid)) * 2"
  obtain rs0 n where add: "add_from_early_node_map m (replicate az empty_slot) az 0 nid = (rs0, n)" by fastforce
  define rs2 where "rs2 = subtract_range (subtract_range rs0 az 0 (ucast st)) az (ucast en) (- 1)"
  define rs3 where "rs3 = snd (memblock_x86_subtract_reserved mb rs2 az)"
  have fst_sub: "fst (memblock_x86_subtract_reserved mb rs2 az) = mb"
    by (simp add: memblock_x86_subtract_reserved_def memblock_free_reserved_regions_def
        memblock_reserve_reserved_regions_def Let_def)
  have cs: "mb' = mb" "clean_sort_range rs3 az = (rs, nr)"
    using res add fst_sub rs2_def [symmetric]
    unfolding uu_get_free_all_memory_range_def find_range_array_def Let_def count_early_node_map_length
      az_def [symmetric] rs3_def
    by (auto split: option.splits if_splits prod.splits)
  note bs = free_ranges_before_sort [OF ord az_def inv add rs3_def [symmetric, unfolded rs2_def]]
  have r3: "roomy az 0 rs3" by (rule bs(1) [of 0]) simp
  have "az = length rs3" using r3 by (simp add: roomy_def)
  note pr = clean_sort_range_props [OF this cs(2)]
  show "mb' = mb" by (rule cs)
  show "nr \<le> length rs" using pr(1,2) by simp
  have "set (take nr rs) = set_mset (used_mset rs3)" using pr(3) by (metis set_mset_mset)
  then show "\<forall>r\<in>set (take nr rs). r_start r < r_end r"
    using r3 by (auto simp: roomy_def used_mset_def proper_def)
  have "range_mult (take nr rs) a = size (filter_mset (in_range a) (used_mset rs3))"
    by (simp add: range_mult_def count_if_def pr(3) [symmetric] flip: mset_filter)
  then have m: "range_mult (take nr rs) a = range_mult rs3 a" by (simp add: range_mult_used)
  show "range_mult (take nr rs) a = (if free_page mb m nid (unat st) (unat en) (unat a) then 1 else 0)"
  proof (cases "a = - 1")
    case True
    have "unat en < unat (- 1 :: u64)" using unat_bound [of en] by (simp add: unsigned_minus_1_eq_mask mask_eq_exp_minus_1)
    then show ?thesis unfolding True by (simp add: free_page_def)
  next
    case False
    then show ?thesis using bs(2) m by simp
  qed
qed

section \<open>Memory becomes active\<close>

definition page_bytes :: "nat \<Rightarrow> nat set" where
  "page_bytes p = {p * 4096..<(p + 1) * 4096}"

text \<open>A page that lies in the union of intervals with gaps between them lies in one of them.\<close>

lemma page_in_one_span:
  assumes "ascending xs" "page_bytes p \<subseteq> spans_set xs"
  shows "\<exists>x\<in>set xs. fst x \<le> p * 4096 \<and> (p + 1) * 4096 \<le> snd x"
proof -
  have "p * 4096 \<in> spans_set xs" using assms(2) by (auto simp: page_bytes_def)
  then obtain x where x: "x \<in> set xs" "fst x \<le> p * 4096" "p * 4096 < snd x" by (auto simp: spans_set_iff)
  have "(p + 1) * 4096 \<le> snd x"
  proof (rule ccontr)
    assume "\<not> ?thesis"
    then have "snd x \<in> page_bytes p" using x by (auto simp: page_bytes_def)
    then have "snd x \<in> spans_set xs" using assms(2) by blast
    then obtain y where y: "y \<in> set xs" "fst y \<le> snd x" "snd x < snd y" by (auto simp: spans_set_iff)
    obtain i j where ij: "i < length xs" "xs ! i = x" "j < length xs" "xs ! j = y"
      using x(1) y(1) by (auto simp: in_set_conv_nth)
    have srt: "sorted_wrt (\<lambda>x y. snd x < fst y) xs" using assms(1) by (simp add: ascending_def)
    consider "i < j" | "j < i" | "i = j" by linarith
    then show False
    proof cases
      case 1
      then show False using sorted_wrt_nth_less [OF srt 1] ij y by auto
    next
      case 2
      then show False using sorted_wrt_nth_less [OF srt 2] ij x y by auto
    next
      case 3
      then show False using ij y by auto
    qed
  qed
  then show ?thesis using x by blast
qed

definition pages_between :: "nat \<Rightarrow> nat \<Rightarrow> nat \<times> nat" where
  "pages_between b e = ((b + 4095) div 4096, e div 4096)"

lemma page_within:
  "(b + 4095) div 4096 \<le> p \<and> p < e div 4096 \<longleftrightarrow> b \<le> p * 4096 \<and> (p + 1) * 4096 \<le> e" for b e p :: nat
proof -
  have "(b + 4095) div 4096 \<le> p \<longleftrightarrow> b \<le> p * 4096"
    using div_less_iff_less_mult [of 4096 "b + 4095" "p + 1"] by auto
  moreover have "p < e div 4096 \<longleftrightarrow> (p + 1) * 4096 \<le> e"
    using less_eq_div_iff_mult_less_eq [of 4096 "p + 1" e] by (simp add: Suc_le_eq)
  ultimately show ?thesis by simp
qed

lemma ucast_drop_page:
  fixes x :: u64
  assumes "unat x < 2 ^ 44"
  shows "unat (ucast (drop_bit PAGE_SHIFT x) :: ulong) = unat x div 4096"
proof -
  have "unat (drop_bit PAGE_SHIFT x) = unat x div 4096"
    by (simp add: PAGE_SHIFT_def drop_bit_eq_div unat_div)
  moreover from this have "unat (drop_bit PAGE_SHIFT x) < 2 ^ 32"
    using assms by (simp add: div_less_iff_less_mult)
  ultimately show ?thesis by (simp add: unsigned_ucast_eq take_bit_eq_mod)
qed

text \<open>The pages of a region that lie below 16 TB, the bound up to which a page frame number fits
  in an \<^verbatim>\<open>unsigned long\<close>.\<close>

lemma find_active_region_cases:
  assumes "unat (rg_base r) + unat (rg_size r) < 2 ^ 43" "st < last_pfn"
  defines "s \<equiv> max (unat st) ((fst (span_of r) + 4095) div 4096)"
    and "e \<equiv> min (unat last_pfn) (snd (span_of r) div 4096)"
  shows "s < e \<Longrightarrow> \<exists>s' e'. memblock_x86_find_active_region r st last_pfn = Some (s', e') \<and> unat s' = s \<and> unat e' = e"
    and "\<not> s < e \<Longrightarrow> memblock_x86_find_active_region r st last_pfn = None"
proof -
  have PS: "(PAGE_SIZE :: u64) = 2 ^ 12" by (simp add: PAGE_SIZE_def PAGE_SHIFT_def)
  have en: "unat (rg_base r + rg_size r) = snd (span_of r)"
    using assms(1) by (simp add: unat_add_no_wrap span_of_def)
  have up: "unat (round_up (rg_base r) PAGE_SIZE) = (fst (span_of r) + 4095) div 4096 * 4096"
  proof -
    have "(unat (rg_base r) + 2 ^ 12 - 1) div 2 ^ 12 * 2 ^ 12 < (2::nat) ^ 64"
      using assms(1) by (intro le_less_trans [OF div_times_less_eq_dividend]) simp
    then show ?thesis unfolding PS by (subst round_up_pow2) (simp_all add: span_of_def)
  qed
  have dn: "unat (round_down (rg_base r + rg_size r) PAGE_SIZE) = snd (span_of r) div 4096 * 4096"
    unfolding PS round_down_pow2 en by simp
  define a where "a = (ucast (drop_bit PAGE_SHIFT (round_up (rg_base r) PAGE_SIZE)) :: ulong)"
  define b where "b = (ucast (drop_bit PAGE_SHIFT (round_down (rg_base r + rg_size r) PAGE_SIZE)) :: ulong)"
  have ua: "unat a = (fst (span_of r) + 4095) div 4096"
    unfolding a_def using assms(1) up by (subst ucast_drop_page) (auto simp: span_of_def)
  have ub: "unat b = snd (span_of r) div 4096"
    unfolding b_def using assms(1) dn by (subst ucast_drop_page) (auto simp: span_of_def)
  have fa: "memblock_x86_find_active_region r st last_pfn =
     (if a \<ge> b then None else if b \<le> st \<or> a \<ge> last_pfn then None
      else Some (if a < st then st else a, if b > last_pfn then last_pfn else b))"
    by (simp add: memblock_x86_find_active_region_def Let_def a_def b_def)
  have l: "unat st < unat last_pfn" using assms(2) by (simp add: word_less_unat)
  show "\<exists>s' e'. memblock_x86_find_active_region r st last_pfn = Some (s', e') \<and> unat s' = s \<and> unat e' = e"
    if "s < e"
    using that l unfolding fa s_def e_def by (auto simp: word_less_unat word_le_unat ua ub max_def min_def)
  show "memblock_x86_find_active_region r st last_pfn = None" if "\<not> s < e"
    using that l unfolding fa s_def e_def by (auto simp: word_less_unat word_le_unat ua ub max_def min_def split: if_splits)
qed

text \<open>A range behind all the others is appended.\<close>

definition behind :: "node_map \<Rightarrow> nat \<Rightarrow> bool" where
  "behind m s \<longleftrightarrow> (\<forall>r\<in>set m. unat (start_pfn r) < unat (end_pfn r) \<and> unat (end_pfn r) < s)"

lemma active_merge_behind:
  assumes "behind m (unat s)" "s < e"
  shows "active_merge m nid s e i = None"
proof (induction "length m - i" arbitrary: i rule: less_induct)
  case less
  show ?case
  proof (cases "i < length m")
    case True
    have "m ! i \<in> set m" "m ! 0 \<in> set m" using True by (auto intro!: nth_mem)
    then have b: "start_pfn (m ! i) < end_pfn (m ! i)" "end_pfn (m ! i) < s" "end_pfn (m ! 0) < s"
      using assms(1) by (auto simp: behind_def word_less_unat)
    then have "\<not> e \<le> end_pfn (m ! 0)" "\<not> s \<le> end_pfn (m ! 0)" "\<not> s < start_pfn (m ! i)"
      using assms(2) by auto
    moreover have "active_merge m nid s e (i + 1) = None" using less True by simp
    ultimately show ?thesis by (subst active_merge.simps) simp
  qed (subst active_merge.simps, simp)
qed

lemma register_loop:
  assumes "ascending (map span_of rgs)" "\<forall>r\<in>set rgs. unat (rg_base r) + unat (rg_size r) < 2 ^ 43"
    "st < last_pfn" "length m + length rgs \<le> MAX_ACTIVE_REGIONS"
    "in_order m" "\<forall>x\<in>set m. ar_nid x = nid \<and> start_pfn x < end_pfn x"
    "\<forall>r\<in>set rgs. behind m (max (unat st) ((fst (span_of r) + 4095) div 4096))"
  defines "f \<equiv> \<lambda>r m. case memblock_x86_find_active_region r st last_pfn of
       None \<Rightarrow> m | Some (s, e) \<Rightarrow> add_active_range m nid s e"
  shows "in_order (fold f rgs m) \<and> (\<forall>x\<in>set (fold f rgs m). ar_nid x = nid \<and> start_pfn x < end_pfn x)
    \<and> (\<forall>p. (\<exists>x\<in>set (fold f rgs m). in_region p x) \<longleftrightarrow> (\<exists>x\<in>set m. in_region p x)
        \<or> (unat st \<le> p \<and> p < unat last_pfn \<and> (\<exists>r\<in>set rgs. fst (span_of r) \<le> p * 4096 \<and> (p + 1) * 4096 \<le> snd (span_of r))))"
  using assms(1,2,4-7)
proof (induction rgs arbitrary: m)
  case Nil
  then show ?case by simp
next
  case (Cons r rgs)
  define s where "s = max (unat st) ((fst (span_of r) + 4095) div 4096)"
  define e where "e = min (unat last_pfn) (snd (span_of r) div 4096)"
  have "unat (rg_base r) + unat (rg_size r) < 2 ^ 43" using Cons.prems(2) by simp
  note far = find_active_region_cases [OF this assms(3), folded s_def e_def]
  have pages: "unat st \<le> p \<and> p < unat last_pfn \<and> fst (span_of r) \<le> p * 4096 \<and> (p + 1) * 4096 \<le> snd (span_of r)
      \<longleftrightarrow> s \<le> p \<and> p < e" for p
    using page_within [of "fst (span_of r)" p "snd (span_of r)"] by (auto simp: s_def e_def)
  have next_behind: "e < max (unat st) ((fst (span_of q) + 4095) div 4096)" if "s < e" "q \<in> set rgs" for q
  proof -
    have "snd (span_of r) < fst (span_of q)" using Cons.prems(1) that(2) by auto
    then have "snd (span_of r) div 4096 < (fst (span_of q) + 4095) div 4096"
      using div_le_mono [of "snd (span_of r) + 4096" "fst (span_of q) + 4095" 4096] by simp
    then show ?thesis by (simp add: e_def)
  qed
  show ?case
  proof (cases "s < e")
    case False
    then have "f r m = m" using far(2) by (simp add: f_def)
    moreover have "\<not> (unat st \<le> p \<and> p < unat last_pfn \<and> fst (span_of r) \<le> p * 4096 \<and> (p + 1) * 4096 \<le> snd (span_of r))" for p
      unfolding pages using False by simp
    ultimately show ?thesis using Cons.IH [of m] Cons.prems by auto
  next
    case True
    then obtain s' e' where se: "memblock_x86_find_active_region r st last_pfn = Some (s', e')" "unat s' = s" "unat e' = e"
      using far(1) by blast
    have bh: "behind m (unat s')" using Cons.prems(6) by (simp add: se s_def)
    have "s' < e'" using True se by (simp add: word_less_unat)
    let ?n = "\<lparr>start_pfn = s', end_pfn = e', ar_nid = nid\<rparr>"
    have fm: "f r m = m @ [?n]"
      using active_merge_behind [OF bh \<open>s' < e'\<close>] Cons.prems(3) by (simp add: f_def se add_active_range_def)
    have "in_order (m @ [?n])"
      using Cons.prems(4) bh \<open>s' < e'\<close>
      by (auto simp: in_order_def sorted_wrt_append behind_def word_le_unat word_less_unat less_imp_le)
    moreover have "\<forall>q\<in>set rgs. behind (m @ [?n]) (max (unat st) ((fst (span_of q) + 4095) div 4096))"
      using Cons.prems(6) next_behind [OF True] True by (auto simp: behind_def se)
    ultimately have IH: "in_order (fold f rgs (m @ [?n])) \<and> (\<forall>x\<in>set (fold f rgs (m @ [?n])). ar_nid x = nid \<and> start_pfn x < end_pfn x)
      \<and> (\<forall>p. (\<exists>x\<in>set (fold f rgs (m @ [?n])). in_region p x) \<longleftrightarrow> (\<exists>x\<in>set (m @ [?n]). in_region p x)
        \<or> (unat st \<le> p \<and> p < unat last_pfn \<and> (\<exists>r\<in>set rgs. fst (span_of r) \<le> p * 4096 \<and> (p + 1) * 4096 \<le> snd (span_of r))))"
      using Cons.prems \<open>s' < e'\<close> by (intro Cons.IH) auto
    have "in_region p ?n \<longleftrightarrow> s \<le> p \<and> p < e" for p by (simp add: in_region_def se)
    then show ?thesis using IH pages by (auto simp: fm)
  qed
qed

section \<open>An example\<close>

definition example_boot_mb :: memblock where
  "example_boot_mb = example_mb\<lparr>current_limit := 0x100000\<rparr>"

definition example_map :: node_map where
  "example_map = [\<lparr>start_pfn = 1, end_pfn = 9, ar_nid = 0\<rparr>]"

lemma example_boot_facts:
  "mb_inv (reserved example_boot_mb)" "reserved_bounded example_boot_mb"
  "get_free_all_memory_range example_boot_mb example_map 8 0 \<noteq> None"
  "nid_regions example_map 0 = example_map"
  "free_page example_boot_mb example_map 0 0 8 6" "\<not> free_page example_boot_mb example_map 0 0 8 7"
proof -
  have v: "view (memory example_boot_mb) = [(0x1000, 0x9000)]" "view (reserved example_boot_mb) = [(0x7000, 0x9000)]"
    by (simp_all add: example_boot_mb_def example_mb_def view_def no_regions_def rgn_def span_of_def)
  then have inv: "mb_inv (reserved example_boot_mb)" "mb_inv (memory example_boot_mb)"
    by (simp_all add: mb_inv_def example_boot_mb_def example_mb_def fits_def rgn_def no_regions_def)
  show "mb_inv (reserved example_boot_mb)" by (rule inv)
  show "reserved_bounded example_boot_mb"
    by (simp add: reserved_bounded_def example_boot_mb_def example_mb_def rgn_def)
  show n: "nid_regions example_map 0 = example_map" by (simp add: nid_regions_def example_map_def)
  have c: "current_limit example_boot_mb = 0x100000" "cnt (reserved example_boot_mb) = 1" "length example_map = 1"
    by (simp_all add: example_boot_mb_def example_mb_def example_map_def)
  have "free_spot example_boot_mb (unat (0::u64)) (unat (0x100000::u64)) (unat (64::u64)) (2 ^ 4) 0x6000"
    by (simp add: free_spot_def v clear_spot_def)
  then have "memblock_find_in_range example_boot_mb 0 0x100000 64 16 \<noteq> 0"
    using memblock_find_in_range_spec(2) [OF inv, of 64 "0x100000" 0 4 "0x6000"] by simp
  then have "find_range_array example_boot_mb 4 = Some (replicate 4 empty_slot)"
    by (simp add: find_range_array_def c sizeof_range_def MEMBLOCK_ERROR_def)
  then show "get_free_all_memory_range example_boot_mb example_map 8 0 \<noteq> None"
    by (simp add: get_free_all_memory_range_def uu_get_free_all_memory_range_def Let_def
        count_early_node_map_length n c split: prod.split)
  have "page_reserved example_boot_mb 7" "\<not> page_reserved example_boot_mb 6"
    by (auto simp: page_reserved_def mb_addrs_def v intro: bexI [of _ "0x7000"])
  then show "free_page example_boot_mb example_map 0 0 8 6" "\<not> free_page example_boot_mb example_map 0 0 8 7"
    unfolding free_page_def n by (simp_all add: example_map_def in_region_def)
qed

section \<open>Properties\<close>

text \<open>
  C22. \<^verbatim>\<open>get_free_all_memory_range\<close>, when it finds room for its array, returns ranges that
  contain every free page frame exactly once and no other one: a page frame is free when it
  is in an active range, below \<^verbatim>\<open>max_low_pfn\<close>, and no byte of it is reserved. The array
  never runs out of slots.
\<close>

theorem free_memory_ranges_correct:
  assumes "in_order (nid_regions m nid)" "mb_inv (reserved mb)" "reserved_bounded mb"
    "get_free_all_memory_range mb m max_low_pfn nid = Some (mb', rs, nr)"
  shows "mb' = mb \<and> nr \<le> length rs \<and> (\<forall>r\<in>set (take nr rs). r_start r < r_end r)
    \<and> (\<forall>a. range_mult (take nr rs) a = (if free_page mb m nid 0 (unat max_low_pfn) (unat a) then 1 else 0))"
  using get_free_all_memory_range_props [OF assms(1-3), of 0 max_low_pfn mb' rs nr] assms(4)
  by (simp add: get_free_all_memory_range_def)

theorem free_memory_ranges_correct_witness:
  "\<exists>mb' rs nr. get_free_all_memory_range example_boot_mb example_map 8 0 = Some (mb', rs, nr)
    \<and> range_mult (take nr rs) 6 = 1 \<and> range_mult (take nr rs) 7 = 0"
proof -
  obtain mb' rs nr where g: "get_free_all_memory_range example_boot_mb example_map 8 0 = Some (mb', rs, nr)"
    using example_boot_facts(3) by (metis not_None_eq surj_pair)
  have "in_order (nid_regions example_map 0)" by (simp add: example_boot_facts(4)) (simp add: example_map_def)
  from free_memory_ranges_correct [OF this example_boot_facts(1,2) g]
  have "range_mult (take nr rs) 6 = 1 \<and> range_mult (take nr rs) 7 = 0"
    using example_boot_facts(5,6) by simp
  then show ?thesis using g by blast
qed

lemma register_active_regions_spec:
  assumes "mb_inv (memory mb)" "cnt (memory mb) \<le> MAX_ACTIVE_REGIONS" "st < last_pfn"
    "\<forall>i<cnt (memory mb). unat (rg_base (rgn (memory mb) i)) + unat (rg_size (rgn (memory mb) i)) < 2 ^ 43"
  shows "in_order (memblock_x86_register_active_regions mb [] nid st last_pfn)
    \<and> (\<forall>x\<in>set (memblock_x86_register_active_regions mb [] nid st last_pfn). ar_nid x = nid \<and> start_pfn x < end_pfn x)
    \<and> (\<forall>p. (\<exists>x\<in>set (memblock_x86_register_active_regions mb [] nid st last_pfn). in_region p x)
        \<longleftrightarrow> unat st \<le> p \<and> p < unat last_pfn \<and> page_bytes p \<subseteq> mb_addrs (memory mb))"
proof (cases "no_regions (memory mb)")
  case True
  then have "rgn (memory mb) 0 = \<lparr>rg_base = 0, rg_size = 0\<rparr>"
    using assms(1) by (auto simp: mb_inv_def no_regions_def intro: memblock_region.equality)
  then have "memblock_x86_find_active_region (rgn (memory mb) 0) st last_pfn = None"
    by (simp add: memblock_x86_find_active_region_def Let_def PAGE_SIZE_def PAGE_SHIFT_def round_defs)
  then have "memblock_x86_register_active_regions mb [] nid st last_pfn = []"
    using True by (simp add: memblock_x86_register_active_regions_def no_regions_def)
  moreover have "\<not> page_bytes p \<subseteq> {}" for p by (auto simp: page_bytes_def)
  ultimately show ?thesis using True by (simp add: mb_addrs_def view_def)
next
  case False
  let ?rgs = "map (\<lambda>i. rgn (memory mb) i) [0..<cnt (memory mb)]"
  have v: "map span_of ?rgs = view (memory mb)" using False by (simp add: view_def)
  let ?f = "\<lambda>r m. case memblock_x86_find_active_region r st last_pfn of
       None \<Rightarrow> m | Some (s, e) \<Rightarrow> add_active_range m nid s e"
  have reg: "memblock_x86_register_active_regions mb [] nid st last_pfn = fold ?f ?rgs []"
    unfolding memblock_x86_register_active_regions_def by (simp add: fold_upt_map [of ?f])
  have asc: "ascending (map span_of ?rgs)" unfolding v using assms(1) by (simp add: mb_inv_def)
  have sub: "(\<exists>r\<in>set ?rgs. fst (span_of r) \<le> p * 4096 \<and> (p + 1) * 4096 \<le> snd (span_of r))
      \<longleftrightarrow> page_bytes p \<subseteq> mb_addrs (memory mb)" for p
  proof -
    have "(\<exists>r\<in>set ?rgs. fst (span_of r) \<le> p * 4096 \<and> (p + 1) * 4096 \<le> snd (span_of r))
      \<longleftrightarrow> (\<exists>x\<in>set (view (memory mb)). fst x \<le> p * 4096 \<and> (p + 1) * 4096 \<le> snd x)"
      unfolding v [symmetric] by simp
    moreover have "page_bytes p \<subseteq> mb_addrs (memory mb)"
      if "x \<in> set (view (memory mb))" "fst x \<le> p * 4096" "(p + 1) * 4096 \<le> snd x" for x
      using that by (force simp: page_bytes_def mb_addrs_def spans_set_iff)
    ultimately show ?thesis
      using page_in_one_span [of "view (memory mb)" p] asc v by (auto simp: mb_addrs_def)
  qed
  show ?thesis
    unfolding reg using register_loop [OF asc _ assms(3), of "[]" nid] assms(2,4) sub
    by (simp add: behind_def)
qed

text \<open>
  C32. Registering the memory regions on an empty table makes exactly those page frames between
  \<open>st\<close> and \<open>last_pfn\<close> active all of whose bytes are memory, in ranges that are in ascending
  order.
\<close>

theorem register_active_regions_correct:
  assumes "mb_inv (memory mb)" "cnt (memory mb) \<le> MAX_ACTIVE_REGIONS" "st < last_pfn"
    "\<forall>i<cnt (memory mb). unat (rg_base (rgn (memory mb) i)) + unat (rg_size (rgn (memory mb) i)) < 2 ^ 43"
  shows "in_order (memblock_x86_register_active_regions mb [] nid st last_pfn)
    \<and> (\<forall>x\<in>set (memblock_x86_register_active_regions mb [] nid st last_pfn). ar_nid x = nid)
    \<and> (\<forall>p. (\<exists>x\<in>set (memblock_x86_register_active_regions mb [] nid st last_pfn). in_region p x)
        \<longleftrightarrow> unat st \<le> p \<and> p < unat last_pfn \<and> page_bytes p \<subseteq> mb_addrs (memory mb))"
  using register_active_regions_spec [OF assms] by blast

theorem register_active_regions_correct_witness:
  "\<exists>x\<in>set (memblock_x86_register_active_regions example_mb [] 0 0 100). in_region 3 x"
proof -
  have v: "view (memory example_mb) = [(0x1000, 0x9000)]"
    by (simp add: example_mb_def view_def no_regions_def rgn_def span_of_def)
  then have inv: "mb_inv (memory example_mb)"
    by (simp add: mb_inv_def example_mb_def fits_def rgn_def no_regions_def)
  have "cnt (memory example_mb) = 1" "rgn (memory example_mb) 0 = \<lparr>rg_base = 0x1000, rg_size = 0x8000\<rparr>"
    by (simp_all add: example_mb_def rgn_def)
  moreover have "page_bytes 3 \<subseteq> mb_addrs (memory example_mb)"
    by (auto simp: page_bytes_def mb_addrs_def v)
  ultimately show ?thesis
    using register_active_regions_correct [OF inv, of 0 100 0] by (simp add: MAX_ACTIVE_REGIONS_def)
qed

end
