(* ===== verification/Nobootmem.thy ===== *)
theory Nobootmem
  imports Free_Ranges
begin

text \<open>
  \<^verbatim>\<open>mm/nobootmem.c\<close>: the allocations of the boot phase, which reserve regions of
  \<^verbatim>\<open>memblock\<close>, and the hand-over of all free page frames to the page allocator at its
  end. Pointers are virtual addresses, 0 is \<^verbatim>\<open>NULL\<close>. The contents of the memory (the
  \<^verbatim>\<open>memset\<close>) are not part of the state. Once the slab allocator is up, requests go to
  it: \<open>kz\<close> stands for that call. The hand-over is the sequence of the calls of
  \<^verbatim>\<open>__free_pages_bootmem\<close>, as pairs of a page frame number and an order. \<open>boot_run\<close> is a
  sequence of requests of the boot phase through the two entries that do not panic.
\<close>

section \<open>Allocation\<close>

definition PAGE_OFFSET :: ulong where
  "PAGE_OFFSET = 0xc0000000"

definition phys_to_virt :: "phys_addr_t \<Rightarrow> ulong" where
  "phys_to_virt address = ucast address + PAGE_OFFSET"

definition uu_alloc_memory_core_early ::
  "memblock \<Rightarrow> node_map \<Rightarrow> int \<Rightarrow> u64 \<Rightarrow> u64 \<Rightarrow> u64 \<Rightarrow> u64 \<Rightarrow> memblock \<times> ulong" where
  "uu_alloc_memory_core_early mb m nid sz align goal limit =
     (let limit = (if limit > current_limit mb then current_limit mb else limit);
          addr = find_memory_core_early mb m nid sz align goal limit
      in if addr = MEMBLOCK_ERROR then (mb, 0)
         else (memblock_x86_reserve_range mb addr (addr + sz), phys_to_virt addr))"

text \<open>The part of \<^verbatim>\<open>___alloc_bootmem_nopanic\<close> from the label \<^verbatim>\<open>restart\<close> on.\<close>

function alloc_restart ::
  "memblock \<Rightarrow> node_map \<Rightarrow> ulong \<Rightarrow> ulong \<Rightarrow> ulong \<Rightarrow> ulong \<Rightarrow> memblock \<times> ulong" where
  "alloc_restart mb m sz align goal limit =
     (let (mb, ptr) = uu_alloc_memory_core_early mb m MAX_NUMNODES (ucast sz) (ucast align) (ucast goal) (ucast limit)
      in if ptr \<noteq> 0 then (mb, ptr)
         else if goal \<noteq> 0 then alloc_restart mb m sz align 0 limit
         else (mb, 0))"
  by pat_completeness auto
termination
  by (relation "measure (\<lambda>(mb, m, sz, align, goal, limit). if goal \<noteq> 0 then 1 else 0)") auto

declare alloc_restart.simps [simp del]

definition uuu_alloc_bootmem_nopanic ::
  "bool \<Rightarrow> (ulong \<Rightarrow> ulong) \<Rightarrow> memblock \<Rightarrow> node_map \<Rightarrow> ulong \<Rightarrow> ulong \<Rightarrow> ulong \<Rightarrow> ulong \<Rightarrow> memblock \<times> ulong" where
  "uuu_alloc_bootmem_nopanic slab_is_available kz mb m sz align goal limit =
     (if slab_is_available then (mb, kz sz) else alloc_restart mb m sz align goal limit)"

text \<open>\<open>None\<close> is the \<^verbatim>\<open>panic\<close>.\<close>

definition uuu_alloc_bootmem ::
  "bool \<Rightarrow> (ulong \<Rightarrow> ulong) \<Rightarrow> memblock \<Rightarrow> node_map \<Rightarrow> ulong \<Rightarrow> ulong \<Rightarrow> ulong \<Rightarrow> ulong \<Rightarrow> (memblock \<times> ulong) option" where
  "uuu_alloc_bootmem slab_is_available kz mb m sz align goal limit =
     (let (mb, mem) = uuu_alloc_bootmem_nopanic slab_is_available kz mb m sz align goal limit
      in if mem \<noteq> 0 then Some (mb, mem) else None)"

definition uu_alloc_bootmem ::
  "bool \<Rightarrow> (ulong \<Rightarrow> ulong) \<Rightarrow> memblock \<Rightarrow> node_map \<Rightarrow> ulong \<Rightarrow> ulong \<Rightarrow> ulong \<Rightarrow> (memblock \<times> ulong) option" where
  "uu_alloc_bootmem slab_is_available kz mb m sz align goal =
     uuu_alloc_bootmem slab_is_available kz mb m sz align goal (- 1)"

definition uu_alloc_bootmem_nopanic ::
  "bool \<Rightarrow> (ulong \<Rightarrow> ulong) \<Rightarrow> memblock \<Rightarrow> node_map \<Rightarrow> ulong \<Rightarrow> ulong \<Rightarrow> ulong \<Rightarrow> memblock \<times> ulong" where
  "uu_alloc_bootmem_nopanic slab_is_available kz mb m sz align goal =
     uuu_alloc_bootmem_nopanic slab_is_available kz mb m sz align goal (- 1)"

definition uu_alloc_bootmem_node_nopanic ::
  "bool \<Rightarrow> (ulong \<Rightarrow> ulong) \<Rightarrow> memblock \<Rightarrow> node_map \<Rightarrow> int \<Rightarrow> ulong \<Rightarrow> ulong \<Rightarrow> ulong \<Rightarrow> memblock \<times> ulong" where
  "uu_alloc_bootmem_node_nopanic slab_is_available kz mb m node_id sz align goal =
     (if slab_is_available then (mb, kz sz)
      else
        let (mb, ptr) = uu_alloc_memory_core_early mb m node_id (ucast sz) (ucast align) (ucast goal) (- 1)
        in if ptr \<noteq> 0 then (mb, ptr)
           else uu_alloc_bootmem_nopanic slab_is_available kz mb m sz align goal)"

section \<open>Freeing\<close>

definition BITS_PER_LONG :: nat where
  "BITS_PER_LONG = 32"

text \<open>\<^verbatim>\<open>for (i = a; i < b; i += BITS_PER_LONG)\<close>\<close>

function blocks :: "nat \<Rightarrow> nat \<Rightarrow> nat list" where
  "blocks a b = (if a < b then a # blocks (a + BITS_PER_LONG) b else [])"
  by pat_completeness auto
termination
  by (relation "measure (\<lambda>(a, b). b - a)") (auto simp: BITS_PER_LONG_def)

declare blocks.simps [simp del]

type_synonym free_call = "nat \<times> nat"

definition uu_free_pages_memory :: "ulong \<Rightarrow> ulong \<Rightarrow> free_call list" where
  "uu_free_pages_memory st en =
     (let order = nat (uu_ilog2_u32 32);
          start_aligned = (st + (32 - 1)) AND NOT (32 - 1);
          end_aligned = en AND NOT (32 - 1)
      in if end_aligned \<le> start_aligned then map (\<lambda>i. (i, 0)) [unat st..<unat en]
         else map (\<lambda>i. (i, 0)) [unat st..<unat start_aligned]
            @ map (\<lambda>i. (i, order)) (blocks (unat start_aligned) (unat end_aligned))
            @ map (\<lambda>i. (i, 0)) [unat end_aligned..<unat en])"

text \<open>The entries of the range array hold page frame numbers; the arguments are converted to
  \<^verbatim>\<open>unsigned long\<close>.\<close>

definition free_ranges_loop :: "range list \<Rightarrow> ulong \<times> free_call list" where
  "free_ranges_loop rs =
     fold (\<lambda>r (n, calls). (n + ucast (r_end r - r_start r), calls @ uu_free_pages_memory (ucast (r_start r)) (ucast (r_end r))))
       rs (0, [])"

definition free_all_memory_core_early :: "memblock \<Rightarrow> node_map \<Rightarrow> ulong \<Rightarrow> int \<Rightarrow> (memblock \<times> ulong \<times> free_call list) option" where
  "free_all_memory_core_early mb m max_low_pfn nodeid =
     (case get_free_all_memory_range mb m max_low_pfn nodeid of
        None \<Rightarrow> None
      | Some (mb, rs, nr_range) \<Rightarrow>
          let (n, calls) = free_ranges_loop (take nr_range rs) in Some (mb, n, calls))"

definition free_all_bootmem :: "memblock \<Rightarrow> node_map \<Rightarrow> ulong \<Rightarrow> (memblock \<times> ulong \<times> free_call list) option" where
  "free_all_bootmem mb m max_low_pfn = free_all_memory_core_early mb m max_low_pfn MAX_NUMNODES"

section \<open>Allocations do not overlap\<close>

definition boot_inv :: "memblock \<Rightarrow> bool" where
  "boot_inv mb \<longleftrightarrow> mb_inv (memory mb) \<and> mb_inv (reserved mb)"

definition area :: "u64 \<Rightarrow> u64 \<Rightarrow> nat set" where
  "area addr sz = {unat addr..<unat addr + unat sz}"

lemma length_insert_span: "length (insert_span a b xs) \<le> length xs + 1"
  by (induction a b xs rule: insert_span.induct) auto

lemma cnt_view: "mb_inv t \<Longrightarrow> cnt t = max 1 (length (view t))"
  by (auto simp: view_def no_regions_def mb_inv_def)

lemma clear_spot_addrs:
  assumes "clear_spot (view t) sz a"
  shows "{a..<a + sz} \<inter> mb_addrs t = {}"
  using assms by (force simp: clear_spot_def mb_addrs_def spans_set_iff)

text \<open>An early allocation takes memory that was free and reserves exactly that; it fails only if
  there is no suitable area in the active regions of the node.\<close>

lemma alloc_early_cases:
  assumes inv: "boot_inv mb" and sz: "0 < sz" and room: "cnt (reserved mb) < mb_max (reserved mb)"
  obtains (none) "uu_alloc_memory_core_early mb m nid sz (2 ^ k) goal limit = (mb, 0)"
      "\<And>r a. r \<in> set (nid_regions m nid) \<Longrightarrow> 4096 \<le> a
        \<Longrightarrow> \<not> early_spot mb (unat sz) (2 ^ k) (unat goal) (min (unat (current_limit mb)) (unat limit)) r a"
  | (got) addr mb' where "uu_alloc_memory_core_early mb m nid sz (2 ^ k) goal limit = (mb', phys_to_virt addr)"
      "boot_inv mb'" "memory mb' = memory mb" "mb_max (reserved mb') = mb_max (reserved mb)"
      "cnt (reserved mb') \<le> cnt (reserved mb) + 1" "current_limit mb' = current_limit mb"
      "mb_addrs (reserved mb') = mb_addrs (reserved mb) \<union> area addr sz"
      "area addr sz \<inter> mb_addrs (reserved mb) = {}" "area addr sz \<subseteq> mb_addrs (memory mb)"
      "2 ^ k dvd unat addr" "goal \<le> addr" "unat addr + unat sz \<le> unat (current_limit mb)" "unat addr + unat sz \<le> unat limit"
proof -
  define lim where "lim = (if limit > current_limit mb then current_limit mb else limit)"
  define addr where "addr = find_memory_core_early mb m nid sz (2 ^ k) goal lim"
  have i: "mb_inv (reserved mb)" "mb_inv (memory mb)" using inv by (simp_all add: boot_inv_def)
  have lim: "unat lim = min (unat (current_limit mb)) (unat limit)" by (auto simp: lim_def word_less_unat)
  have al: "uu_alloc_memory_core_early mb m nid sz (2 ^ k) goal limit =
      (if addr = 0 then (mb, 0) else (memblock_x86_reserve_range mb addr (addr + sz), phys_to_virt addr))"
    by (simp add: uu_alloc_memory_core_early_def Let_def lim_def addr_def MEMBLOCK_ERROR_def)
  show ?thesis
  proof (cases "addr = 0")
    case True
    then have "\<not> early_spot mb (unat sz) (2 ^ k) (unat goal) (unat lim) r a" if "r \<in> set (nid_regions m nid)" "4096 \<le> a" for r a
      using find_memory_core_early_spec(2) [OF i sz that(1) _ that(2)] unfolding addr_def by blast
    then show ?thesis using al True none unfolding lim by simp
  next
    case False
    obtain r where r: "early_spot mb (unat sz) (2 ^ k) (unat goal) (unat lim) r (unat addr)"
      using find_memory_core_early_spec(1) [OF i sz] False unfolding addr_def by blast
    then have f: "2 ^ k dvd unat addr" "unat goal \<le> unat addr" "unat addr + unat sz \<le> unat lim"
      "\<exists>s\<in>set (view (memory mb)). fst s \<le> unat addr \<and> unat addr + unat sz \<le> snd s"
      "clear_spot (view (reserved mb)) (unat sz) (unat addr)"
      by (auto simp: early_spot_def free_spot_def)
    have nw: "unat addr + unat sz < 2 ^ 64" using f(3) unat_bound [of lim] by simp
    have nz: "sz \<noteq> 0" using sz by auto
    define t where "t = fst (memblock_add_region (reserved mb) addr sz)"
    have t: "mb_inv t" "mb_max t = mb_max (reserved mb)"
      "view t = insert_span (unat addr) (unat addr + unat sz) (view (reserved mb))"
      unfolding t_def by (rule memblock_add_region_cases [OF i(1) nz nw]; use room in simp)+
    have lt: "unat addr < unat addr + unat sz" using nz by (simp add: unat_gt_0)
    have asc: "ascending (view (reserved mb))" using i(1) by (simp add: mb_inv_def)
    have res: "memblock_x86_reserve_range mb addr (addr + sz) = mb\<lparr>reserved := t\<rparr>"
      using nz by (simp add: memblock_x86_reserve_range_def memblock_reserve_def t_def split: prod.splits)
    have "mb_addrs t = mb_addrs (reserved mb) \<union> area addr sz"
      using insert_span_set [OF lt asc] by (auto simp: mb_addrs_def t(3) area_def)
    moreover have "area addr sz \<inter> mb_addrs (reserved mb) = {}"
      using clear_spot_addrs [OF f(5)] by (simp add: area_def)
    moreover have "area addr sz \<subseteq> mb_addrs (memory mb)"
      using f(4) by (force simp: area_def mb_addrs_def spans_set_iff)
    moreover have "cnt t \<le> cnt (reserved mb) + 1"
      using cnt_view [OF t(1)] cnt_view [OF i(1)] length_insert_span [of "unat addr" "unat addr + unat sz" "view (reserved mb)"]
      by (simp add: t(3))
    ultimately show ?thesis
      using al False res t f lim inv by (intro got [of "mb\<lparr>reserved := t\<rparr>" addr]) (simp_all add: boot_inv_def word_le_unat)
  qed
qed

text \<open>
  The requests of the boot phase, while the slab allocator is not available: for a node or for any node, with a
  size, an alignment \<open>2 ^ k\<close> and a goal. \<open>ptr_area\<close> are the physical bytes behind a pointer.
\<close>

datatype boot_request = Node_nopanic int (req_size: ulong) (req_order: nat) ulong
  | Any_nopanic (req_size: ulong) (req_order: nat) ulong

fun serve :: "memblock \<Rightarrow> node_map \<Rightarrow> boot_request \<Rightarrow> memblock \<times> ulong" where
  "serve mb m (Node_nopanic nid sz k goal) = uu_alloc_bootmem_node_nopanic False (\<lambda>_. 0) mb m nid sz (2 ^ k) goal"
| "serve mb m (Any_nopanic sz k goal) = uu_alloc_bootmem_nopanic False (\<lambda>_. 0) mb m sz (2 ^ k) goal"

fun boot_run :: "memblock \<Rightarrow> node_map \<Rightarrow> boot_request list \<Rightarrow> memblock \<times> (ulong \<times> ulong) list" where
  "boot_run mb m [] = (mb, [])"
| "boot_run mb m (q # qs) =
     (let (mb, p) = serve mb m q;
          (mb, ps) = boot_run mb m qs
      in (mb, (p, req_size q) # ps))"

definition ptr_area :: "ulong \<times> ulong \<Rightarrow> nat set" where
  "ptr_area ps = (if fst ps = 0 then {} else {unat (fst ps - PAGE_OFFSET)..<unat (fst ps - PAGE_OFFSET) + unat (snd ps)})"

text \<open>An area that could serve a request: aligned, within one active region and one memory region,
  below the limit of \<^verbatim>\<open>memblock\<close>, above the first page, and not reserved.\<close>

definition boot_room :: "memblock \<Rightarrow> node_map \<Rightarrow> boot_request \<Rightarrow> bool" where
  "boot_room mb m q \<longleftrightarrow> (\<exists>r\<in>set m. \<exists>a\<ge>4096.
     early_spot mb (unat (req_size q)) (2 ^ req_order q) 0 (unat (current_limit mb)) r a)"

lemma phys_pointer:
  assumes "unat addr + unat sz \<le> 2 ^ 30" "0 < (sz :: ulong)"
  shows "phys_to_virt addr \<noteq> 0" "unat (phys_to_virt addr - PAGE_OFFSET) = unat addr"
proof -
  have "0 < unat sz" using assms(2) by (simp add: word_less_unat)
  then have a: "unat addr < 2 ^ 30" using assms(1) by linarith
  then have u: "unat (ucast addr :: ulong) = unat addr" by (simp add: unsigned_ucast_eq take_bit_eq_mod)
  then have "unat (phys_to_virt addr) = unat addr + 0xc0000000"
    using a by (simp add: phys_to_virt_def PAGE_OFFSET_def unat_word_ariths)
  then show "phys_to_virt addr \<noteq> 0" by auto
  show "unat (phys_to_virt addr - PAGE_OFFSET) = unat addr" using u by (simp add: phys_to_virt_def)
qed

text \<open>The outcome of one attempt and of one request.\<close>

definition served :: "memblock \<Rightarrow> ulong \<Rightarrow> nat \<Rightarrow> memblock \<times> ulong \<Rightarrow> bool" where
  "served mb sz k x \<longleftrightarrow> snd x \<noteq> 0 \<and> boot_inv (fst x) \<and> memory (fst x) = memory mb
     \<and> mb_max (reserved (fst x)) = mb_max (reserved mb) \<and> cnt (reserved (fst x)) \<le> cnt (reserved mb) + 1
     \<and> current_limit (fst x) = current_limit mb \<and> 2 ^ k dvd unat (snd x - PAGE_OFFSET)
     \<and> mb_addrs (reserved (fst x)) = mb_addrs (reserved mb) \<union> ptr_area (snd x, sz)
     \<and> ptr_area (snd x, sz) \<inter> mb_addrs (reserved mb) = {} \<and> ptr_area (snd x, sz) \<subseteq> mb_addrs (memory mb)"

lemma attempt:
  fixes m :: node_map and nid :: int and goal sz :: ulong
  assumes inv: "boot_inv mb" and sz: "0 < sz" and room: "cnt (reserved mb) < mb_max (reserved mb)"
    and lim: "unat (current_limit mb) \<le> 2 ^ 30" "unat (current_limit mb) \<le> unat limit" and k: "k < 32"
  defines "x \<equiv> uu_alloc_memory_core_early mb m nid (ucast sz) (ucast (2 ^ k :: ulong)) (ucast goal) limit"
  shows "served mb sz k x \<or> x = (mb, 0) \<and> (goal = 0 \<and> nid = MAX_NUMNODES \<longrightarrow>
    (\<forall>r\<in>set m. \<forall>a\<ge>4096. \<not> early_spot mb (unat sz) (2 ^ k) 0 (unat (current_limit mb)) r a))"
proof -
  have s: "0 < (ucast sz :: u64)" "unat (ucast sz :: u64) = unat sz"
    using sz by (simp_all add: word_less_unat unsigned_ucast_eq take_bit_nat_eq_self less_trans [OF unat_bound])
  have two: "ucast (2 ^ k :: ulong) = (2 ^ k :: u64)"
  proof (rule bit_word_eqI)
    fix n
    show "bit (ucast (2 ^ k :: ulong) :: u64) n = bit (2 ^ k :: u64) n" using k by (auto simp: bit_ucast_iff bit_exp_iff)
  qed
  show ?thesis
    unfolding x_def two
  proof (rule alloc_early_cases [OF inv s(1) room, of m nid k "ucast goal" limit], goal_cases)
    case 1
    then show ?case using lim(2) by (auto simp: s(2) nid_regions_def min_absorb1)
  next
    case (2 addr mb')
    have a: "unat addr + unat sz \<le> 2 ^ 30" using 2(12) lim(1) s(2) by simp
    note p = phys_pointer [OF a sz]
    have "ptr_area (phys_to_virt addr, sz) = area addr (ucast sz)" using p s(2) by (simp add: ptr_area_def area_def)
    then show ?case using 2 p by (simp add: served_def)
  qed
qed

lemma serve_cases:
  assumes inv: "boot_inv mb" and room: "cnt (reserved mb) < mb_max (reserved mb)" and lim: "unat (current_limit mb) \<le> 2 ^ 30"
    and q: "0 < req_size q" "req_order q < 32"
  shows "served mb (req_size q) (req_order q) (serve mb m q) \<or> serve mb m q = (mb, 0) \<and> \<not> boot_room mb m q"
proof -
  let ?sz = "req_size q" and ?k = "req_order q"
  have l: "unat (current_limit mb) \<le> unat (ucast (- 1 :: ulong) :: u64)" "unat (current_limit mb) \<le> unat (- 1 :: u64)"
  proof -
    have "ucast (- 1 :: ulong) = (0xffffffff :: u64)" by code_simp
    then show "unat (current_limit mb) \<le> unat (ucast (- 1 :: ulong) :: u64)" using lim by simp
    show "unat (current_limit mb) \<le> unat (- 1 :: u64)" using word_le_nat_alt word_order.extremum by blast
  qed
  note at = attempt [OF inv q(1) room lim _ q(2), of _ m]
  let ?x = "\<lambda>g. uu_alloc_memory_core_early mb m MAX_NUMNODES (ucast ?sz) (ucast (2 ^ ?k :: ulong)) (ucast (g :: ulong)) (ucast (- 1 :: ulong))"
  have unf: "alloc_restart mb m ?sz (2 ^ ?k) g (- 1) =
      (if snd (?x g) \<noteq> 0 then ?x g else if g \<noteq> 0 then alloc_restart (fst (?x g)) m ?sz (2 ^ ?k) 0 (- 1) else (fst (?x g), 0))" for g
    by (subst alloc_restart.simps) (simp only: split_beta Let_def prod.collapse)
  have restart0: "served mb ?sz ?k (alloc_restart mb m ?sz (2 ^ ?k) 0 (- 1))
      \<or> alloc_restart mb m ?sz (2 ^ ?k) 0 (- 1) = (mb, 0) \<and> \<not> boot_room mb m q"
    using at [OF l(1), of MAX_NUMNODES 0] unfolding unf [of 0] boot_room_def by (auto simp: served_def)
  have restart: "served mb ?sz ?k (alloc_restart mb m ?sz (2 ^ ?k) g (- 1))
      \<or> alloc_restart mb m ?sz (2 ^ ?k) g (- 1) = (mb, 0) \<and> \<not> boot_room mb m q" for g
  proof (cases "g = 0 \<or> served mb ?sz ?k (?x g)")
    case True
    then show ?thesis using restart0 unf [of g] by (auto simp: served_def)
  next
    case False
    then have "?x g = (mb, 0)" using at [OF l(1), of MAX_NUMNODES g] by blast
    then have "alloc_restart mb m ?sz (2 ^ ?k) g (- 1) = alloc_restart mb m ?sz (2 ^ ?k) 0 (- 1)"
      using False unf [of g] by simp
    then show ?thesis using restart0 by simp
  qed
  show ?thesis
  proof (cases q)
    case (Node_nopanic nid sz k goal)
    then show ?thesis
      using at [OF l(2), of nid goal] restart [of goal]
      by (auto simp: uu_alloc_bootmem_node_nopanic_def uu_alloc_bootmem_nopanic_def uuu_alloc_bootmem_nopanic_def served_def split: prod.splits)
  next
    case (Any_nopanic sz k goal)
    then show ?thesis
      using restart [of goal] by (simp add: uu_alloc_bootmem_nopanic_def uuu_alloc_bootmem_nopanic_def)
  qed
qed

lemma boot_run_spec:
  assumes "boot_inv mb" "cnt (reserved mb) + length qs \<le> mb_max (reserved mb)" "unat (current_limit mb) \<le> 2 ^ 30"
    "\<forall>q\<in>set qs. 0 < req_size q \<and> req_order q < 32" "boot_run mb m qs = (mb', ps)"
  shows "boot_inv mb' \<and> memory mb' = memory mb \<and> map snd ps = map req_size qs
    \<and> mb_addrs (reserved mb') = mb_addrs (reserved mb) \<union> (\<Union>p\<in>set ps. ptr_area p)
    \<and> (\<forall>p\<in>set ps. ptr_area p \<subseteq> mb_addrs (memory mb) - mb_addrs (reserved mb))
    \<and> sorted_wrt (\<lambda>p q. ptr_area p \<inter> ptr_area q = {}) ps
    \<and> (\<forall>i<length qs. if fst (ps ! i) = 0 then \<not> boot_room (fst (boot_run mb m (take i qs))) m (qs ! i)
         else 2 ^ req_order (qs ! i) dvd unat (fst (ps ! i) - PAGE_OFFSET))"
  using assms
proof (induction qs arbitrary: mb ps)
  case (Cons q qs)
  obtain mb1 p where a: "serve mb m q = (mb1, p)" by fastforce
  obtain ps1 where b: "boot_run mb1 m qs = (mb', ps1)" and ps: "ps = (p, req_size q) # ps1"
    using Cons.prems(5) by (auto simp: a split: prod.splits)
  have "served mb (req_size q) (req_order q) (mb1, p) \<or> (mb1, p) = (mb, 0) \<and> \<not> boot_room mb m q"
    using serve_cases [of mb q m] Cons.prems a by simp
  then have step: "boot_inv mb1 \<and> memory mb1 = memory mb \<and> mb_max (reserved mb1) = mb_max (reserved mb)
      \<and> cnt (reserved mb1) \<le> cnt (reserved mb) + 1 \<and> current_limit mb1 = current_limit mb"
    "mb_addrs (reserved mb1) = mb_addrs (reserved mb) \<union> ptr_area (p, req_size q)"
    "ptr_area (p, req_size q) \<subseteq> mb_addrs (memory mb) - mb_addrs (reserved mb)"
    "if p = 0 then \<not> boot_room mb m q else 2 ^ req_order q dvd unat (p - PAGE_OFFSET)"
    using Cons.prems(1) by (auto simp: served_def ptr_area_def)
  have IH: "boot_inv mb' \<and> memory mb' = memory mb1 \<and> map snd ps1 = map req_size qs
    \<and> mb_addrs (reserved mb') = mb_addrs (reserved mb1) \<union> (\<Union>p\<in>set ps1. ptr_area p)
    \<and> (\<forall>p\<in>set ps1. ptr_area p \<subseteq> mb_addrs (memory mb1) - mb_addrs (reserved mb1))
    \<and> sorted_wrt (\<lambda>p q. ptr_area p \<inter> ptr_area q = {}) ps1
    \<and> (\<forall>i<length qs. if fst (ps1 ! i) = 0 then \<not> boot_room (fst (boot_run mb1 m (take i qs))) m (qs ! i)
         else 2 ^ req_order (qs ! i) dvd unat (fst (ps1 ! i) - PAGE_OFFSET))"
    using step(1) Cons.prems b by (intro Cons.IH) auto
  have "\<forall>q'\<in>set ps1. ptr_area (p, req_size q) \<inter> ptr_area q' = {}" using step(2) IH by blast
  moreover have "\<forall>q\<in>set ps1. ptr_area q \<subseteq> mb_addrs (memory mb) - mb_addrs (reserved mb)" using step(1,2) IH by auto
  moreover have "\<forall>i<length (q # qs). if fst (ps ! i) = 0 then \<not> boot_room (fst (boot_run mb m (take i (q # qs)))) m ((q # qs) ! i)
         else 2 ^ req_order ((q # qs) ! i) dvd unat (fst (ps ! i) - PAGE_OFFSET)"
  proof (intro allI impI)
    fix i assume i: "i < length (q # qs)"
    show "if fst (ps ! i) = 0 then \<not> boot_room (fst (boot_run mb m (take i (q # qs)))) m ((q # qs) ! i)
         else 2 ^ req_order ((q # qs) ! i) dvd unat (fst (ps ! i) - PAGE_OFFSET)"
    proof (cases i)
      case 0
      then show ?thesis using step(4) by (simp add: ps)
    next
      case (Suc j)
      then have "fst (boot_run mb m (take i (q # qs))) = fst (boot_run mb1 m (take j qs))" by (simp add: a split: prod.splits)
      then show ?thesis using IH i Suc by (simp add: ps)
    qed
  qed
  moreover have "mb_addrs (reserved mb') = mb_addrs (reserved mb) \<union> (\<Union>p\<in>set ps. ptr_area p)"
    using step(2) IH by (auto simp: ps)
  ultimately show ?case using step(1,3) IH unfolding ps by simp
qed simp

section \<open>The pages that are freed\<close>

definition freed :: "free_call list \<Rightarrow> nat \<Rightarrow> nat" where
  "freed calls a = count_if (\<lambda>(p, ord). p \<le> a \<and> a < p + 2 ^ ord) calls"

lemma freed_append [simp]: "freed (xs @ ys) a = freed xs a + freed ys a"
  by (simp add: freed_def)

lemma freed_singles: "freed (map (\<lambda>i. (i, 0)) [l..<h]) a = (if l \<le> a \<and> a < h then 1 else 0)"
proof (induction h)
  case (Suc h)
  then show ?case by (auto simp: freed_def less_Suc_eq not_le)
qed (simp add: freed_def)

lemma freed_blocks:
  assumes "(32::nat) dvd b - a" "a \<le> b"
  shows "freed (map (\<lambda>i. (i, 5)) (blocks a b)) x = (if a \<le> x \<and> x < b then 1 else 0)"
  using assms
proof (induction a b rule: blocks.induct)
  case (1 a b)
  show ?case
  proof (cases "a < b")
    case True
    then have "32 \<le> b - a" using 1 by (intro dvd_imp_le) auto
    then have "a + BITS_PER_LONG \<le> b" "32 dvd b - (a + BITS_PER_LONG)"
      using 1(2) by (auto simp: BITS_PER_LONG_def) (metis diff_diff_left dvd_diff_nat dvd_refl)
    from 1(1) [OF True this(2,1)] show ?thesis
      using True \<open>a + BITS_PER_LONG \<le> b\<close>
      by (subst blocks.simps) (auto simp: freed_def BITS_PER_LONG_def)
  next
    case False
    then show ?thesis by (subst blocks.simps) (auto simp: freed_def)
  qed
qed

lemma blocks_aligned: "32 dvd a \<Longrightarrow> p \<in> set (blocks a b) \<Longrightarrow> 32 dvd p"
proof (induction a b rule: blocks.induct)
  case (1 a b)
  then show ?case by (subst (asm) (2) blocks.simps) (auto simp: BITS_PER_LONG_def split: if_splits)
qed

lemma fls_32: "uu_ilog2_u32 32 = 5"
proof -
  define f where "f = nat (fls 32) - 1"
  have f: "fls 32 = int f + 1" using fls_bounds(1) [of 32] by (simp add: f_def)
  then have "2 ^ f \<le> (32::nat)" "(32::nat) < 2 ^ (f + 1)"
    using fls_bounds(3,4) [of 32] by (simp_all add: nat_add_distrib)
  then have "f = 5" by (rule log2_unique) simp_all
  then show ?thesis by (simp add: uu_ilog2_u32_def f)
qed

lemma free_pages_memory_freed:
  assumes "st \<le> en" "unat en + 31 < 2 ^ 32"
  shows "freed (uu_free_pages_memory st en) a = (if unat st \<le> a \<and> a < unat en then 1 else 0)"
    and "(p, ord) \<in> set (uu_free_pages_memory st en) \<Longrightarrow> ord = 0 \<or> ord = 5 \<and> 32 dvd p"
proof -
  define sa where "sa = (st + (32 - 1)) AND NOT (32 - 1)"
  define ea where "ea = en AND NOT (32 - 1)"
  have le: "unat st \<le> unat en" using assms(1) by (simp add: word_le_unat)
  have "sa = ALIGN st (2 ^ 5)" by (simp add: sa_def ALIGN_def)
  then have sa: "unat sa = (unat st + 31) div 32 * 32"
    using ALIGN_pow2 [of st 5] le assms(2) by simp
  have ea: "unat ea = unat en div 32 * 32" using align_down_pow2 [of en 5] by (simp add: ea_def)
  have u: "uu_free_pages_memory st en =
      (if ea \<le> sa then map (\<lambda>i. (i, 0)) [unat st..<unat en]
       else map (\<lambda>i. (i, 0)) [unat st..<unat sa] @ map (\<lambda>i. (i, 5)) (blocks (unat sa) (unat ea))
         @ map (\<lambda>i. (i, 0)) [unat ea..<unat en])"
    by (simp add: uu_free_pages_memory_def Let_def sa_def ea_def fls_32)
  have b: "unat st \<le> unat sa" "unat ea \<le> unat en" unfolding sa ea by linarith+
  have d: "32 dvd unat ea - unat sa" "32 dvd unat sa" unfolding sa ea by (simp_all add: dvd_diff_nat)
  show "freed (uu_free_pages_memory st en) a = (if unat st \<le> a \<and> a < unat en then 1 else 0)"
  proof (cases "ea \<le> sa")
    case True
    then show ?thesis by (simp add: u freed_singles)
  next
    case False
    then have "unat sa \<le> unat ea" by (simp add: word_le_unat)
    then show ?thesis using False b freed_blocks [OF d(1), of a] by (auto simp: u freed_singles)
  qed
  show "ord = 0 \<or> ord = 5 \<and> 32 dvd p" if "(p, ord) \<in> set (uu_free_pages_memory st en)"
    using that blocks_aligned [OF d(2)] by (auto simp: u split: if_splits)
qed

lemma free_ranges_fold:
  "fold (\<lambda>r (n, calls). (n + ucast (r_end r - r_start r), calls @ uu_free_pages_memory (ucast (r_start r)) (ucast (r_end r))))
     rs (n0, c0)
   = (n0 + (\<Sum>r\<leftarrow>rs. ucast (r_end r - r_start r)),
      c0 @ concat (map (\<lambda>r. uu_free_pages_memory (ucast (r_start r)) (ucast (r_end r))) rs))"
  by (induction rs arbitrary: n0 c0) (simp_all add: add.assoc)

lemma free_ranges_loop_eq:
  "free_ranges_loop rs = (\<Sum>r\<leftarrow>rs. ucast (r_end r - r_start r),
     concat (map (\<lambda>r. uu_free_pages_memory (ucast (r_start r)) (ucast (r_end r))) rs))"
  using free_ranges_fold [of rs 0 "[]"] by (simp add: free_ranges_loop_def)

lemma unat_ucast_small: "unat (x :: u64) < 2 ^ 32 \<Longrightarrow> unat (ucast x :: ulong) = unat x"
  by (simp add: unsigned_ucast_eq take_bit_eq_mod)

definition small_range :: "range \<Rightarrow> bool" where
  "small_range r \<longleftrightarrow> r_start r < r_end r \<and> unat (r_end r) + 31 < 2 ^ 32"

lemma small_range_ucast:
  assumes "small_range r"
  shows "unat (ucast (r_start r) :: ulong) = unat (r_start r)" "unat (ucast (r_end r) :: ulong) = unat (r_end r)"
    "(ucast (r_start r) :: ulong) \<le> ucast (r_end r)"
  using assms by (simp_all add: small_range_def word_less_unat word_le_unat unat_ucast_small)

lemma freed_ranges:
  assumes "\<forall>r\<in>set rs. small_range r" "a < 2 ^ 32"
  shows "freed (snd (free_ranges_loop rs)) a = range_mult rs (of_nat a)"
  using assms(1)
proof (induction rs)
  case Nil
  then show ?case by (simp add: free_ranges_loop_eq freed_def range_mult_def)
next
  case (Cons r rs)
  have r: "small_range r" using Cons.prems by simp
  note u = small_range_ucast [OF r]
  have "freed (uu_free_pages_memory (ucast (r_start r)) (ucast (r_end r))) a
    = (if unat (r_start r) \<le> a \<and> a < unat (r_end r) then 1 else 0)"
    using free_pages_memory_freed(1) [OF u(3), of a] r by (simp add: u small_range_def)
  moreover have "unat (of_nat a :: u64) = a" using assms(2) by (simp add: unat_of_nat)
  then have "in_range (of_nat a) r \<longleftrightarrow> unat (r_start r) \<le> a \<and> a < unat (r_end r)"
    by (simp add: in_range_def word_le_unat word_less_unat)
  ultimately show ?case using Cons by (simp add: free_ranges_loop_eq range_mult_def)
qed

text \<open>The number that is returned.\<close>

definition covered :: "range list \<Rightarrow> nat set" where
  "covered rs = {x. \<exists>r\<in>set rs. unat (r_start r) \<le> x \<and> x < unat (r_end r)}"

lemma covered_Cons: "covered (r # rs) = {unat (r_start r)..<unat (r_end r)} \<union> covered rs"
  by (auto simp: covered_def)

lemma finite_covered: "finite (covered rs)"
  by (induction rs) (auto simp: covered_Cons covered_def)

lemma range_mult_pos: "0 < range_mult rs a \<longleftrightarrow> (\<exists>r\<in>set rs. in_range a r)"
  by (simp add: range_mult_def count_if_def filter_empty_conv)

lemma covered_mult:
  "x \<in> covered rs \<longleftrightarrow> x < 2 ^ 64 \<and> 0 < range_mult rs (of_nat x)"
proof -
  have *: "in_range (of_nat x) r \<longleftrightarrow> unat (r_start r) \<le> x \<and> x < unat (r_end r)" if "x < 2 ^ 64" for r
  proof -
    have "unat (of_nat x :: u64) = x" using that by (simp add: unat_of_nat)
    then show ?thesis by (simp add: in_range_def word_le_unat word_less_unat)
  qed
  have "x < 2 ^ 64" if "x < unat (r_end r)" for r using that unat_bound [of "r_end r"] by simp
  then show ?thesis unfolding range_mult_pos covered_def by (auto simp: *)
qed

lemma sum_lengths:
  assumes "\<forall>r\<in>set rs. small_range r" "\<forall>a. range_mult rs a \<le> 1"
  shows "(\<Sum>r\<leftarrow>rs. ucast (r_end r - r_start r) :: ulong) = of_nat (card (covered rs))"
  using assms
proof (induction rs)
  case Nil
  then show ?case by (simp add: covered_def)
next
  case (Cons r rs)
  have r: "small_range r" using Cons.prems by simp
  have le: "range_mult rs a \<le> 1" for a using Cons.prems(2) by (metis le_trans le_add2 range_mult_def count_if_Cons)
  have "{unat (r_start r)..<unat (r_end r)} \<inter> covered rs = {}"
  proof (rule ccontr)
    assume "\<not> ?thesis"
    then obtain x where x: "unat (r_start r) \<le> x" "x < unat (r_end r)" "x \<in> covered rs" by auto
    then have "x < 2 ^ 64" "0 < range_mult rs (of_nat x)" by (simp_all add: covered_mult)
    moreover from this have "in_range (of_nat x) r"
      using x by (simp add: in_range_def word_le_unat word_less_unat unat_of_nat)
    ultimately show False using Cons.prems(2) [rule_format, of "of_nat x"] by (simp add: range_mult_def)
  qed
  then have c: "card (covered (r # rs)) = (unat (r_end r) - unat (r_start r)) + card (covered rs)"
    by (simp add: covered_Cons card_Un_disjoint finite_covered)
  have "unat (r_end r - r_start r) = unat (r_end r) - unat (r_start r)"
    using r by (intro unat_sub_le) (simp add: small_range_def less_imp_le)
  then have "ucast (r_end r - r_start r) = (of_nat (unat (r_end r) - unat (r_start r)) :: ulong)"
    by (metis of_nat_unat)
  then show ?case using Cons le by (simp add: c)
qed

section \<open>Properties\<close>

definition run_ok :: "memblock \<Rightarrow> boot_request list \<Rightarrow> bool" where
  "run_ok mb qs \<longleftrightarrow> boot_inv mb \<and> cnt (reserved mb) + length qs \<le> mb_max (reserved mb)
     \<and> unat (current_limit mb) \<le> 2 ^ 30 \<and> (\<forall>q\<in>set qs. 0 < req_size q \<and> req_order q < 32)"

text \<open>
  C23. A run of boot-time allocations, by \<^verbatim>\<open>__alloc_bootmem_node_nopanic\<close> and \<^verbatim>\<open>__alloc_bootmem_nopanic\<close>, before the
  slab allocator is up: the pointers it returns stand for pairwise disjoint areas of memory, none of which was reserved
  before, and exactly these areas are reserved by it; each pointer that is not null has the alignment of its request, and a
  request is answered by a null pointer only if no area fits it at that time: aligned, at or above 4096, below the
  limit of \<^verbatim>\<open>memblock\<close>, inside an active region and a memory region, and not reserved. The invariant of both arrays is kept.
  The array of reserved regions has room for the requests, and the limit lies inside the direct mapping (1 GiB).
\<close>

theorem boot_allocations_disjoint:
  assumes "run_ok mb qs"
  shows "case boot_run mb m qs of (mb', ps) \<Rightarrow>
      boot_inv mb' \<and> memory mb' = memory mb \<and> map snd ps = map req_size qs
      \<and> mb_addrs (reserved mb') = mb_addrs (reserved mb) \<union> (\<Union>p\<in>set ps. ptr_area p)
      \<and> (\<forall>p\<in>set ps. ptr_area p \<subseteq> mb_addrs (memory mb) - mb_addrs (reserved mb))
      \<and> sorted_wrt (\<lambda>p q. ptr_area p \<inter> ptr_area q = {}) ps
      \<and> (\<forall>i<length qs. if fst (ps ! i) = 0 then \<not> boot_room (fst (boot_run mb m (take i qs))) m (qs ! i)
           else 2 ^ req_order (qs ! i) dvd unat (fst (ps ! i) - PAGE_OFFSET))"
  using assms boot_run_spec [of mb qs m] unfolding run_ok_def by (simp split: prod.split)

text \<open>Two requests that are granted and one that is too large.\<close>

definition example_run_mb :: memblock where
  "example_run_mb = example_boot_mb\<lparr>reserved := \<lparr>cnt = 1, mb_max = 4,
     regions = [\<lparr>rg_base = 0x7000, rg_size = 0x2000\<rparr>, null_region, null_region, null_region, null_region]\<rparr>\<rparr>"

definition example_requests :: "boot_request list" where
  "example_requests = [Node_nopanic 0 0x1000 12 0, Any_nopanic 0x100 5 0x3000, Node_nopanic 0 0x10000 12 0]"

lemma example_boot_run: "map fst (snd (boot_run example_run_mb [\<lparr>start_pfn = 1, end_pfn = 9, ar_nid = 0\<rparr>] example_requests))
   = [0xc0006000, 0xc0005f00, 0]"
  by code_simp

theorem boot_allocations_disjoint_witness:
  "let x = boot_run example_run_mb [\<lparr>start_pfn = 1, end_pfn = 9, ar_nid = 0\<rparr>] example_requests in
     map fst (snd x) = [0xc0006000, 0xc0005f00, 0] \<and> boot_inv (fst x)
     \<and> mb_addrs (reserved (fst x)) = mb_addrs (reserved example_run_mb) \<union> (\<Union>p\<in>set (snd x). ptr_area p)"
proof -
  have v: "view (memory example_run_mb) = [(0x1000, 0x9000)]" "view (reserved example_run_mb) = [(0x7000, 0x9000)]"
    by (simp_all add: example_run_mb_def example_boot_mb_def example_mb_def view_def no_regions_def rgn_def span_of_def)
  then have "boot_inv example_run_mb"
    by (simp add: boot_inv_def mb_inv_def example_run_mb_def example_boot_mb_def example_mb_def fits_def rgn_def no_regions_def)
  then have "run_ok example_run_mb example_requests"
    by (simp add: run_ok_def example_requests_def) (simp add: example_run_mb_def example_boot_mb_def example_mb_def)
  from boot_allocations_disjoint [OF this, of "[\<lparr>start_pfn = 1, end_pfn = 9, ar_nid = 0\<rparr>]"]
  show ?thesis using example_boot_run by (simp add: Let_def split: prod.splits)
qed

text \<open>
  C24. \<^verbatim>\<open>free_all_memory_core_early\<close> frees every free page frame exactly once and no other
  one, in single pages and aligned blocks of 32 pages, and returns the number of the page
  frames it frees.
\<close>

theorem free_all_memory_correct:
  assumes "in_order (nid_regions m nid)" "mb_inv (reserved mb)" "reserved_bounded mb" "unat max_low_pfn + 31 < 2 ^ 32"
    "free_all_memory_core_early mb m max_low_pfn nid = Some (mb', n, calls)"
  shows "(\<forall>p<2 ^ 32. freed calls p = (if free_page mb m nid 0 (unat max_low_pfn) p then 1 else 0))
    \<and> unat n = card {p. free_page mb m nid 0 (unat max_low_pfn) p}
    \<and> (\<forall>(p, ord)\<in>set calls. ord = 0 \<or> ord = 5 \<and> 32 dvd p)"
proof -
  obtain rs nr where g: "get_free_all_memory_range mb m max_low_pfn nid = Some (mb', rs, nr)"
    and fr: "free_ranges_loop (take nr rs) = (n, calls)"
    using assms(5) by (auto simp: free_all_memory_core_early_def split: option.splits prod.splits)
  let ?rs = "take nr rs" and ?F = "free_page mb m nid 0 (unat max_low_pfn)"
  note pr = get_free_all_memory_range_props [OF assms(1-3) g [unfolded get_free_all_memory_range_def Let_def]]
  have mult: "range_mult ?rs a = (if ?F (unat a) then 1 else 0)" for a using pr(4) by simp
  have small: "\<forall>r\<in>set ?rs. small_range r"
  proof
    fix r assume r: "r \<in> set ?rs"
    then have lt: "r_start r < r_end r" using pr(3) by blast
    then have u: "unat (r_end r - 1) = unat (r_end r) - 1" by (intro unat_minus_one) auto
    with lt have "in_range (r_end r - 1) r" by (auto simp: in_range_def word_le_unat word_less_unat)
    then have "0 < range_mult ?rs (r_end r - 1)" using r by (auto simp: range_mult_pos)
    then have "unat (r_end r - 1) < unat max_low_pfn" using mult by (auto simp: free_page_def split: if_splits)
    then show "small_range r" using lt assms(4) u by (simp add: small_range_def)
  qed
  have "freed calls p = (if ?F p then 1 else 0)" if "p < 2 ^ 32" for p
    using freed_ranges [OF small that] fr mult [of "of_nat p"] that by (simp add: unat_of_nat)
  moreover have "covered ?rs = {p. ?F p}"
  proof (rule set_eqI)
    fix p
    have "?F p \<Longrightarrow> p < 2 ^ 64" using unat_bound [of max_low_pfn] by (auto simp: free_page_def)
    then show "p \<in> covered ?rs \<longleftrightarrow> p \<in> {p. ?F p}"
      using mult [of "of_nat p"] by (auto simp: covered_mult unat_of_nat)
  qed
  then have "n = of_nat (card {p. ?F p})"
    using sum_lengths [OF small] mult fr by (simp add: free_ranges_loop_eq)
  moreover have "card {p. ?F p} < 2 ^ 32"
  proof -
    have "card {p. ?F p} \<le> card {..<unat max_low_pfn}" by (rule card_mono) (auto simp: free_page_def)
    then show ?thesis using assms(4) by simp
  qed
  moreover have "\<forall>(p, ord)\<in>set calls. ord = 0 \<or> ord = 5 \<and> 32 dvd p"
  proof -
    have "ord = 0 \<or> ord = 5 \<and> 32 dvd p"
      if r: "r \<in> set ?rs" and c: "(p, ord) \<in> set (uu_free_pages_memory (ucast (r_start r)) (ucast (r_end r)))" for r p ord
    proof -
      have "small_range r" using small r by blast
      note u = small_range_ucast [OF this]
      show ?thesis using free_pages_memory_freed(2) [OF u(3) _ c] \<open>small_range r\<close> by (simp add: u(2) small_range_def)
    qed
    moreover have "calls = concat (map (\<lambda>r. uu_free_pages_memory (ucast (r_start r)) (ucast (r_end r))) ?rs)"
      using fr by (simp add: free_ranges_loop_eq)
    ultimately show ?thesis by fastforce
  qed
  ultimately show ?thesis by (simp add: unat_of_nat)
qed

theorem free_all_memory_correct_witness:
  "\<exists>mb' n calls. free_all_memory_core_early example_boot_mb example_map 8 0 = Some (mb', n, calls)
    \<and> freed calls 6 = 1 \<and> freed calls 7 = 0"
proof -
  obtain mb' rs nr where "get_free_all_memory_range example_boot_mb example_map 8 0 = Some (mb', rs, nr)"
    using example_boot_facts(3) by (metis not_None_eq surj_pair)
  then obtain n calls where g: "free_all_memory_core_early example_boot_mb example_map 8 0 = Some (mb', n, calls)"
    by (cases "free_ranges_loop (take nr rs)") (simp add: free_all_memory_core_early_def)
  have "in_order (nid_regions example_map 0)" by (simp add: example_boot_facts(4)) (simp add: example_map_def)
  from free_all_memory_correct [OF this example_boot_facts(1,2) _ g]
  have "freed calls 6 = 1 \<and> freed calls 7 = 0" using example_boot_facts(5,6) by simp
  then show ?thesis using g by blast
qed

end
