(* ===== verification/E820.thy ===== *)
theory E820
  imports Memblock
begin

text \<open>
  \<^verbatim>\<open>kernel/e820.c\<close>: the memory map that the firmware reports. \<open>sanitize_e820_map\<close> turns
  a list of possibly overlapping, unordered entries into an ordered one without overlaps: it
  sorts the addresses at which entries start and end, and sweeps over them with the list of
  the entries that are open. The specification of a map is the type of each address
  (\<open>type_at\<close>): the largest type of the entries that contain it, 0 outside. Pointers into the
  input array are indices.
\<close>

section \<open>Data\<close>

record e820entry =
  e_addr :: u64
  e_size :: u64
  e_type :: u32

record e820map =
  nr_map :: nat
  e820_entries :: "e820entry list"

definition E820MAX :: nat where "E820MAX = 128"
definition E820_RAM :: u32 where "E820_RAM = 1"
definition E820_RESERVED_KERN :: u32 where "E820_RESERVED_KERN = 128"

definition MAX_ARCH_PFN :: u64 where
  "MAX_ARCH_PFN = push_bit (32 - PAGE_SHIFT) 1"

text \<open>\<^verbatim>\<open>struct change_member\<close>: the address and the index of \<^verbatim>\<open>pbios\<close>.\<close>

type_synonym change_member = "u64 \<times> nat"

section \<open>Change points\<close>

definition unreasonable :: "e820entry \<Rightarrow> bool" where
  "unreasonable e \<longleftrightarrow> e_addr e + e_size e < e_addr e"

definition change_points :: "e820entry list \<Rightarrow> nat \<Rightarrow> change_member list" where
  "change_points biosmap old_nr =
     concat (map (\<lambda>i. let e = biosmap ! i in
                 if e_size e \<noteq> 0 then [(e_addr e, i), (e_addr e + e_size e, i)] else []) [0..<old_nr])"

definition out_of_order :: "e820entry list \<Rightarrow> change_member \<Rightarrow> change_member \<Rightarrow> bool" where
  "out_of_order biosmap cur lst =
     (let curaddr = fst cur; lastaddr = fst lst;
          curpbaddr = e_addr (biosmap ! snd cur); lastpbaddr = e_addr (biosmap ! snd lst)
      in curaddr < lastaddr \<or> (curaddr = lastaddr \<and> curaddr = curpbaddr \<and> lastaddr \<noteq> lastpbaddr))"

text \<open>\<^verbatim>\<open>for (i = 1; i < chg_nr; i++)\<close>\<close>

function bubble_pass :: "e820entry list \<Rightarrow> change_member list \<Rightarrow> nat \<Rightarrow> bool \<Rightarrow> change_member list \<times> bool" where
  "bubble_pass biosmap cp i still_changing =
     (if i < length cp then
        if out_of_order biosmap (cp ! i) (cp ! (i - 1))
        then bubble_pass biosmap (cp[i := cp ! (i - 1), i - 1 := cp ! i]) (i + 1) True
        else bubble_pass biosmap cp (i + 1) still_changing
      else (cp, still_changing))"
  by pat_completeness auto
termination
  by (relation "measure (\<lambda>(biosmap, cp, i, ch). length cp - i)") auto

declare bubble_pass.simps [simp del]

text \<open>A pass that swaps something decreases this weight, which bounds the number of passes of
  \<^verbatim>\<open>while (still_changing)\<close>.\<close>

definition cp_key :: "e820entry list \<Rightarrow> change_member \<Rightarrow> nat" where
  "cp_key biosmap c = 2 * unat (fst c) + (if fst c = e_addr (biosmap ! snd c) then 0 else 1)"

definition cp_weight :: "e820entry list \<Rightarrow> change_member list \<Rightarrow> nat" where
  "cp_weight biosmap cp = (\<Sum>i<length cp. (length cp - i) * cp_key biosmap (cp ! i))"

lemma out_of_order_key: "out_of_order b x y \<longleftrightarrow> cp_key b x < cp_key b y"
  by (auto simp: out_of_order_def cp_key_def Let_def word_less_unat word_eq_unat)

lemma weight_swap:
  assumes "Suc j < length cp" "cp_key b (cp ! Suc j) < cp_key b (cp ! j)"
  shows "cp_weight b (cp[Suc j := cp ! j, j := cp ! Suc j]) < cp_weight b cp"
proof -
  let ?n = "length cp" and ?k = "\<lambda>i. cp_key b (cp ! i)"
  let ?cp = "cp[Suc j := cp ! j, j := cp ! Suc j]"
  let ?R = "{..<?n} - {j} - {Suc j}"
  have split: "(\<Sum>i<?n. f i) = f j + (f (Suc j) + sum f ?R)" for f :: "nat \<Rightarrow> nat"
    using assms(1) by (simp add: sum.remove [of "{..<?n}" j] sum.remove [of "{..<?n} - {j}" "Suc j"])
  have "cp_weight b ?cp = (?n - j) * ?k (Suc j) + ((?n - Suc j) * ?k j + (\<Sum>i\<in>?R. (?n - i) * ?k i))"
    unfolding cp_weight_def using assms(1) by (simp add: split nth_list_update)
  moreover have "cp_weight b cp = (?n - j) * ?k j + ((?n - Suc j) * ?k (Suc j) + (\<Sum>i\<in>?R. (?n - i) * ?k i))"
    unfolding cp_weight_def by (simp add: split)
  moreover have "?n - j = Suc (?n - Suc j)" using assms(1) by simp
  ultimately show ?thesis using assms(2) by simp
qed

lemma bubble_pass_weight:
  assumes "1 \<le> i"
  shows "cp_weight b (fst (bubble_pass b cp i ch)) \<le> cp_weight b cp
    \<and> (snd (bubble_pass b cp i ch) \<longrightarrow> ch \<or> cp_weight b (fst (bubble_pass b cp i ch)) < cp_weight b cp)"
  using assms
proof (induction b cp i ch rule: bubble_pass.induct)
  case (1 b cp i ch)
  obtain j where j: "i = Suc j" using "1.prems" by (cases i) auto
  show ?case
  proof (cases "i < length cp \<and> out_of_order b (cp ! i) (cp ! (i - 1))")
    case True
    then have "cp_weight b (cp[i := cp ! (i - 1), i - 1 := cp ! i]) < cp_weight b cp"
      using weight_swap [of j cp b] by (simp add: out_of_order_key j)
    then show ?thesis using 1 True by (auto simp: bubble_pass.simps [of b cp i ch])
  next
    case False
    then show ?thesis using 1 unfolding bubble_pass.simps [of b cp i ch] by auto
  qed
qed

function sort_changes :: "e820entry list \<Rightarrow> change_member list \<Rightarrow> change_member list" where
  "sort_changes biosmap cp =
     (let (cp', still_changing) = bubble_pass biosmap cp 1 False
      in if still_changing then sort_changes biosmap cp' else cp')"
  by pat_completeness auto
termination
proof (relation "measure (\<lambda>(b, cp). cp_weight b cp)", goal_cases)
  case (2 b cp x cp' ch)
  then show ?case using bubble_pass_weight [of 1 b cp False] by (metis fst_conv in_measure order_refl prod.case snd_conv)
qed simp

declare sort_changes.simps [simp del]

section \<open>The sweep\<close>

record sweep =
  overlap_list :: "nat list"
  new_bios :: "e820entry list"
  new_bios_entry :: nat
  last_type :: u32
  last_addr :: u64

text \<open>Taking an entry off the overlap list: every slot that holds it gets the last one, and the
  list becomes one shorter.\<close>

definition overlap_remove :: "nat list \<Rightarrow> nat \<Rightarrow> nat list" where
  "overlap_remove ov p =
     (let ov' = fold (\<lambda>i ov. if ov ! i = p then ov[i := ov ! (length ov - 1)] else ov) [0..<length ov] ov
      in butlast ov')"

definition current_type :: "e820entry list \<Rightarrow> nat list \<Rightarrow> u32" where
  "current_type biosmap ov = fold (\<lambda>i t. if e_type (biosmap ! i) > t then e_type (biosmap ! i) else t) ov 0"

text \<open>One change point. The result is \<open>Inl\<close> at the \<^verbatim>\<open>break\<close> for lack of space.\<close>

definition sweep_step :: "e820entry list \<Rightarrow> nat \<Rightarrow> change_member \<Rightarrow> sweep \<Rightarrow> sweep + sweep" where
  "sweep_step biosmap max_nr_map cp s =
     (let ov = (if fst cp = e_addr (biosmap ! snd cp) then overlap_list s @ [snd cp]
                else overlap_remove (overlap_list s) (snd cp));
          s = s\<lparr>overlap_list := ov\<rparr>;
          cur = current_type biosmap ov
      in if cur \<noteq> last_type s then
           let nb = new_bios s; n = new_bios_entry s;
               nb1 = (if last_type s \<noteq> 0 then nb[n := (nb ! n)\<lparr>e_size := fst cp - last_addr s\<rparr>] else nb);
               n1 = (if last_type s \<noteq> 0 \<and> e_size (nb1 ! n) \<noteq> 0 then n + 1 else n)
           in if last_type s \<noteq> 0 \<and> e_size (nb1 ! n) \<noteq> 0 \<and> n1 \<ge> max_nr_map
              then Inl (s\<lparr>new_bios := nb1, new_bios_entry := n1\<rparr>)
              else
                let s1 = s\<lparr>new_bios := nb1, new_bios_entry := n1\<rparr>;
                    s2 = (if cur \<noteq> 0
                          then s1\<lparr>new_bios := nb1[n1 := (nb1 ! n1)\<lparr>e_addr := fst cp, e_type := cur\<rparr>],
                                  last_addr := fst cp\<rparr>
                          else s1)
                in Inr (s2\<lparr>last_type := cur\<rparr>)
         else Inr s)"

fun sweep_loop :: "e820entry list \<Rightarrow> nat \<Rightarrow> change_member list \<Rightarrow> sweep \<Rightarrow> sweep" where
  "sweep_loop biosmap max_nr_map [] s = s"
| "sweep_loop biosmap max_nr_map (cp # cps) s =
     (case sweep_step biosmap max_nr_map cp s of
        Inl s' \<Rightarrow> s' | Inr s' \<Rightarrow> sweep_loop biosmap max_nr_map cps s')"

definition sweep_init :: sweep where
  "sweep_init = \<lparr> overlap_list = [], new_bios = replicate E820MAX \<lparr> e_addr = 0, e_size = 0, e_type = 0 \<rparr>,
     new_bios_entry = 0, last_type = 0, last_addr = 0 \<rparr>"

text \<open>The result is the array, the number of its entries, and the return value.\<close>

definition sanitize_e820_map :: "e820entry list \<Rightarrow> nat \<Rightarrow> nat \<Rightarrow> e820entry list \<times> nat \<times> int" where
  "sanitize_e820_map biosmap max_nr_map nr =
     (if nr < 2 then (biosmap, nr, -1)
      else if nr > max_nr_map then (biosmap, nr, -1)
      else if \<exists>i\<in>set [0..<nr]. unreasonable (biosmap ! i) then (biosmap, nr, -1)
      else
        let cp = sort_changes biosmap (change_points biosmap nr);
            s = sweep_loop biosmap max_nr_map cp sweep_init;
            new_nr = new_bios_entry s
        in (take new_nr (new_bios s) @ drop new_nr biosmap, new_nr, 0))"

section \<open>Users of the map\<close>

text \<open>\<^verbatim>\<open>resource_size_t\<close> is \<^verbatim>\<open>phys_addr_t\<close>, 64 bits wide, so the conversion keeps every value.
  \<open>None\<close> is the \<^verbatim>\<open>panic\<close>.\<close>

primrec fill_loop :: "e820entry list \<Rightarrow> memblock \<Rightarrow> memblock option" where
  "fill_loop [] mb = Some mb"
| "fill_loop (ei # es) mb =
     (if e_type ei \<noteq> E820_RAM \<and> e_type ei \<noteq> E820_RESERVED_KERN then fill_loop es mb
      else let (mb, r) = memblock_add mb (e_addr ei) (e_size ei)
           in if r = -1 then None else fill_loop es mb)"

definition memblock_x86_fill :: "e820map \<Rightarrow> memblock \<Rightarrow> memblock option" where
  "memblock_x86_fill e820 mb =
     map_option memblock_analyze (fill_loop (take (nr_map e820) (e820_entries e820)) mb)"

text \<open>The loop of \<^verbatim>\<open>e820_end_pfn\<close>.\<close>

fun end_pfn_loop :: "e820entry list \<Rightarrow> ulong \<Rightarrow> u32 \<Rightarrow> ulong \<Rightarrow> ulong" where
  "end_pfn_loop [] limit_pfn ty last_pfn = last_pfn"
| "end_pfn_loop (ei # es) limit_pfn ty last_pfn =
     (if e_type ei \<noteq> ty then end_pfn_loop es limit_pfn ty last_pfn
      else
        let start_pfn = (ucast (drop_bit PAGE_SHIFT (e_addr ei)) :: ulong);
            end_pfn = (ucast (drop_bit PAGE_SHIFT (e_addr ei + e_size ei)) :: ulong)
        in if start_pfn \<ge> limit_pfn then end_pfn_loop es limit_pfn ty last_pfn
           else if end_pfn > limit_pfn then limit_pfn
           else end_pfn_loop es limit_pfn ty (if end_pfn > last_pfn then end_pfn else last_pfn))"

definition e820_end_pfn :: "e820map \<Rightarrow> ulong \<Rightarrow> u32 \<Rightarrow> ulong" where
  "e820_end_pfn e820 limit_pfn ty =
     (let last_pfn = end_pfn_loop (take (nr_map e820) (e820_entries e820)) limit_pfn ty 0;
          max_arch_pfn = ucast MAX_ARCH_PFN
      in if last_pfn > max_arch_pfn then max_arch_pfn else last_pfn)"

definition e820_end_of_ram_pfn :: "e820map \<Rightarrow> ulong" where
  "e820_end_of_ram_pfn e820 = e820_end_pfn e820 (ucast MAX_ARCH_PFN) E820_RAM"

section \<open>Sorting\<close>

lemma bubble_pass_mset: "mset (fst (bubble_pass b cp i ch)) = mset cp"
proof (induction b cp i ch rule: bubble_pass.induct)
  case (1 b cp i ch)
  then show ?case unfolding bubble_pass.simps [of b cp i ch] by (auto simp: mset_swap)
qed

lemma sort_changes_mset: "mset (sort_changes b cp) = mset cp"
proof (induction b cp rule: sort_changes.induct)
  case (1 b cp)
  obtain cp' ch where p: "bubble_pass b cp 1 False = (cp', ch)" by fastforce
  have "mset cp' = mset cp" using bubble_pass_mset [of b cp 1 False] p by simp
  then show ?case using 1 p by (auto simp: sort_changes.simps [of b cp])
qed

text \<open>A pass without a swap leaves the list as it is, and it is in order.\<close>

lemma bubble_pass_still:
  assumes "1 \<le> i" "\<not> snd (bubble_pass b cp i ch)"
  shows "fst (bubble_pass b cp i ch) = cp \<and> \<not> ch
    \<and> (\<forall>k. i \<le> k \<longrightarrow> k < length cp \<longrightarrow> cp_key b (cp ! (k - 1)) \<le> cp_key b (cp ! k))"
  using assms
proof (induction b cp i ch rule: bubble_pass.induct)
  case (1 b cp i ch)
  show ?case
  proof (cases "i < length cp")
    case True
    show ?thesis
    proof (cases "out_of_order b (cp ! i) (cp ! (i - 1))")
      case o: True
      then have "\<not> snd (bubble_pass b (cp[i := cp ! (i - 1), i - 1 := cp ! i]) (i + 1) True)"
        using "1.prems"(2) True by (simp add: bubble_pass.simps [of b cp i ch])
      then show ?thesis using "1.IH"(1) [OF True o] "1.prems" by simp
    next
      case False
      then have e: "bubble_pass b cp i ch = bubble_pass b cp (i + 1) ch"
        using True by (simp add: bubble_pass.simps [of b cp i ch])
      have "cp_key b (cp ! (i - 1)) \<le> cp_key b (cp ! i)" using False by (simp add: out_of_order_key)
      then show ?thesis
        using "1.IH"(2) [OF True False] "1.prems" unfolding e
        by (auto simp: Suc_le_eq dest!: le_neq_implies_less)
    qed
  next
    case False
    then show ?thesis using "1.prems" unfolding bubble_pass.simps [of b cp i ch] by simp
  qed
qed

lemma sort_changes_sorted: "sorted (map (cp_key b) (sort_changes b cp))"
proof (induction b cp rule: sort_changes.induct)
  case (1 b cp)
  obtain cp' ch where p: "bubble_pass b cp 1 False = (cp', ch)" by fastforce
  show ?case
  proof (cases ch)
    case True
    then show ?thesis using 1 p by (simp add: sort_changes.simps [of b cp])
  next
    case False
    then have "cp' = cp" "\<forall>k. 1 \<le> k \<longrightarrow> k < length cp \<longrightarrow> cp_key b (cp ! (k - 1)) \<le> cp_key b (cp ! k)"
      using bubble_pass_still [of 1 b cp False] p by simp_all
    then have "sorted (map (cp_key b) cp)"
      by (auto simp: sorted_iff_nth_Suc dest: spec [of _ "Suc _"])
    then show ?thesis using False p \<open>cp' = cp\<close> by (simp add: sort_changes.simps [of b cp])
  qed
qed

section \<open>The type of an address\<close>

definition e_end :: "e820entry \<Rightarrow> nat" where
  "e_end e = unat (e_addr e) + unat (e_size e)"

definition covers :: "nat \<Rightarrow> e820entry \<Rightarrow> bool" where
  "covers x e \<longleftrightarrow> unat (e_addr e) \<le> x \<and> x < e_end e"

definition type_at :: "e820entry list \<Rightarrow> nat \<Rightarrow> u32" where
  "type_at es x = fold (\<lambda>e t. if covers x e then max t (e_type e) else t) es 0"

definition top_type :: "e820entry set \<Rightarrow> u32" where
  "top_type S = Max (insert 0 (e_type ` S))"

lemma top_type_insert: "finite S \<Longrightarrow> top_type (insert e S) = max (e_type e) (top_type S)"
  unfolding top_type_def by (simp add: insert_commute [of 0] Max_insert)

lemma fold_max_top:
  "fold (\<lambda>e t. if P e then max t (e_type e) else t) es t0 = max t0 (top_type {e \<in> set es. P e})"
proof (induction es arbitrary: t0)
  case (Cons e es)
  have "{x \<in> set (e # es). P x} = (if P e then insert e {x \<in> set es. P x} else {x \<in> set es. P x})" by auto
  then show ?case using Cons by (simp add: top_type_insert max.assoc)
qed (simp add: top_type_def)

lemma type_at_top: "type_at es x = top_type {e \<in> set es. covers x e}"
  unfolding type_at_def fold_max_top by (simp add: max_def)

lemma current_type_top: "current_type b ov = top_type ((!) b ` set ov)"
proof -
  have "fold (\<lambda>i t. if e_type (b ! i) > t then e_type (b ! i) else t) ov t0 = max t0 (top_type ((!) b ` set ov))" for t0
  proof (induction ov arbitrary: t0)
    case (Cons i ov)
    then show ?case by (auto simp: top_type_insert max_def)
  qed (simp add: top_type_def)
  then show ?thesis by (simp add: current_type_def max_def)
qed

lemma type_at_append: "type_at (xs @ ys) x = max (type_at xs x) (type_at ys x)"
  unfolding type_at_def fold_append comp_def fold_max_top by (simp add: max.assoc)

lemma type_at_single: "type_at [e] x = (if covers x e then e_type e else 0)"
  by (simp add: type_at_def max_def)

lemma type_at_beyond: "\<forall>e\<in>set es. e_end e \<le> x \<Longrightarrow> type_at es x = 0"
proof -
  assume "\<forall>e\<in>set es. e_end e \<le> x"
  then have "{e \<in> set es. covers x e} = {}" by (auto simp: covers_def)
  then show ?thesis unfolding type_at_top by (simp only: top_type_def image_empty Max_singleton)
qed

section \<open>The open entries\<close>

definition in_use :: "e820entry list \<Rightarrow> nat \<Rightarrow> nat set" where
  "in_use b nr = {i. i < nr \<and> e_size (b ! i) \<noteq> 0}"

definition start_pt :: "e820entry list \<Rightarrow> nat \<Rightarrow> change_member" where
  "start_pt b i = (e_addr (b ! i), i)"

definition end_pt :: "e820entry list \<Rightarrow> nat \<Rightarrow> change_member" where
  "end_pt b i = (e_addr (b ! i) + e_size (b ! i), i)"

definition sane :: "e820entry list \<Rightarrow> nat \<Rightarrow> bool" where
  "sane b nr \<longleftrightarrow> (\<forall>i<nr. \<not> unreasonable (b ! i))"

lemma sane_end:
  assumes "sane b nr" "i < nr"
  shows "unat (e_addr (b ! i) + e_size (b ! i)) = e_end (b ! i)"
proof -
  have "e_addr (b ! i) \<le> e_addr (b ! i) + e_size (b ! i)"
    using assms by (auto simp: sane_def unreasonable_def not_less)
  then show ?thesis by (simp add: e_end_def unat_add_ge)
qed

lemma in_use_lt: "sane b nr \<Longrightarrow> i \<in> in_use b nr \<Longrightarrow> unat (e_addr (b ! i)) < e_end (b ! i)"
  by (auto simp: in_use_def e_end_def unat_gt_0)

lemma key_start: "cp_key b (start_pt b i) = 2 * unat (e_addr (b ! i))"
  by (simp add: cp_key_def start_pt_def)

lemma key_end: "sane b nr \<Longrightarrow> i \<in> in_use b nr \<Longrightarrow> cp_key b (end_pt b i) = 2 * e_end (b ! i) + 1"
  by (auto simp: cp_key_def end_pt_def in_use_def sane_end)

lemma set_change_points: "set (change_points b nr) = start_pt b ` in_use b nr \<union> end_pt b ` in_use b nr"
  by (auto simp: change_points_def in_use_def start_pt_def end_pt_def Let_def split: if_splits)

lemma distinct_change_points:
  assumes "sane b nr"
  shows "distinct (change_points b nr)"
proof -
  let ?f = "\<lambda>i. let e = b ! i in if e_size e \<noteq> 0 then [(e_addr e, i), (e_addr e + e_size e, i)] else []"
  have "distinct (concat (map ?f [0..<n]))" for n
  proof (induction n)
    case (Suc n)
    have "set (?f n) \<inter> set (concat (map ?f [0..<n])) = {}" by (auto simp: Let_def split: if_splits)
    moreover have "distinct (?f n)" by (simp add: Let_def)
    ultimately show ?case using Suc by (auto simp: Int_commute)
  qed simp
  then show ?thesis by (simp add: change_points_def)
qed

lemma length_change_points: "length (change_points b nr) \<le> 2 * nr"
proof -
  let ?f = "\<lambda>i. let e = b ! i in if e_size e \<noteq> 0 then [(e_addr e, i), (e_addr e + e_size e, i)] else []"
  have "length (concat (map ?f [0..<n])) \<le> 2 * n" for n
    by (induction n) (auto simp: Let_def)
  then show ?thesis by (simp add: change_points_def)
qed

text \<open>The change points that have been visited (\<open>P\<close>) and that are still ahead (\<open>R\<close>).\<close>

definition visiting :: "e820entry list \<Rightarrow> nat \<Rightarrow> change_member list \<Rightarrow> change_member list \<Rightarrow> bool" where
  "visiting b nr P R \<longleftrightarrow> sane b nr \<and> distinct (P @ R) \<and> sorted (map (cp_key b) (P @ R))
     \<and> set (P @ R) = start_pt b ` in_use b nr \<union> end_pt b ` in_use b nr"

definition open_entries :: "e820entry list \<Rightarrow> nat \<Rightarrow> change_member list \<Rightarrow> nat set" where
  "open_entries b nr P = {i \<in> in_use b nr. start_pt b i \<in> set P \<and> end_pt b i \<notin> set P}"

lemma visiting_key:
  "visiting b nr P R \<Longrightarrow> x \<in> set P \<Longrightarrow> y \<in> set R \<Longrightarrow> cp_key b x \<le> cp_key b y"
  by (auto simp: visiting_def sorted_append)

lemma visiting_next: "visiting b nr P (c # R) \<Longrightarrow> visiting b nr (P @ [c]) R"
  by (simp add: visiting_def)

lemma visiting_addr:
  assumes "visiting b nr P R" "x \<in> set P" "y \<in> set R"
  shows "unat (fst x) \<le> unat (fst y)"
  using visiting_key [OF assms] by (auto simp: cp_key_def split: if_splits)

lemma open_at:
  assumes v: "visiting b nr P R" and x: "\<forall>c\<in>set P. unat (fst c) \<le> x" "\<forall>c\<in>set R. x < unat (fst c)"
  shows "open_entries b nr P = {i \<in> in_use b nr. covers x (b ! i)}"
proof -
  have "start_pt b i \<in> set P \<longleftrightarrow> unat (e_addr (b ! i)) \<le> x" "end_pt b i \<in> set P \<longleftrightarrow> e_end (b ! i) \<le> x"
    if i: "i \<in> in_use b nr" for i
  proof -
    have all: "start_pt b i \<in> set P \<union> set R" "end_pt b i \<in> set P \<union> set R"
      using v i by (auto simp: visiting_def)
    have e: "unat (fst (end_pt b i)) = e_end (b ! i)" "unat (fst (start_pt b i)) = unat (e_addr (b ! i))"
      using v i by (auto simp: visiting_def in_use_def end_pt_def start_pt_def sane_end)
    show "start_pt b i \<in> set P \<longleftrightarrow> unat (e_addr (b ! i)) \<le> x" using x all(1) e by force
    show "end_pt b i \<in> set P \<longleftrightarrow> e_end (b ! i) \<le> x" using x all(2) e by force
  qed
  then show ?thesis by (auto simp: open_entries_def covers_def not_le)
qed

lemma in_use_covers: "covers x (b ! i) \<Longrightarrow> e_size (b ! i) \<noteq> 0"
  by (auto simp: covers_def e_end_def)

lemma type_between:
  assumes v: "visiting b nr P R" and x: "\<forall>c\<in>set P. unat (fst c) \<le> x" "\<forall>c\<in>set R. x < unat (fst c)"
    and nr: "nr \<le> length b" and ov: "set ov = open_entries b nr P"
  shows "current_type b ov = type_at (take nr b) x"
proof -
  have "(!) b ` set ov = {e \<in> set (take nr b). covers x e}"
  proof -
    have "set (take nr b) = (!) b ` {..<nr}" using nr by (auto simp: set_conv_nth image_iff) (metis nth_take)
    then show ?thesis
      unfolding ov open_at [OF v x] by (auto simp: in_use_def dest: in_use_covers)
  qed
  then show ?thesis by (simp add: current_type_top type_at_top)
qed

lemma overlap_remove_set:
  assumes "distinct ov" "p \<in> set ov"
  shows "distinct (overlap_remove ov p) \<and> set (overlap_remove ov p) = set ov - {p}"
proof -
  let ?f = "\<lambda>i ov. if ov ! i = p then ov[i := ov ! (length ov - 1)] else ov"
  obtain j where j: "j < length ov" "ov ! j = p" using assms(2) by (auto simp: in_set_conv_nth)
  have ne: "ov \<noteq> []" using j by auto
  let ?u = "ov[j := last ov]"
  have "fold ?f [0..<k] ov = (if j < k then ?u else ov)" if "k \<le> length ov" for k
    using that
  proof (induction k)
    case (Suc k)
    have "ov ! k = p \<longleftrightarrow> k = j" using Suc.prems j assms(1) by (auto simp: nth_eq_iff_index_eq)
    moreover have "?u ! k = p \<Longrightarrow> ?u[k := ?u ! (length ov - 1)] = ?u" if "j < k"
      using that Suc.prems j assms(1) by (auto simp: nth_eq_iff_index_eq)
    ultimately show ?case using Suc by (auto simp: less_Suc_eq last_conv_nth [OF ne])
  qed simp
  then have r: "overlap_remove ov p = butlast ?u" using j by (simp add: overlap_remove_def)
  have lu: "last ?u = last ov" using j ne by (simp add: last_conv_nth nth_list_update)
  have "mset ?u = add_mset (last ov) (mset ov - {#p#})" using j by (simp add: mset_update)
  moreover have "mset ?u = add_mset (last ?u) (mset (butlast ?u))"
    using ne by (metis append_butlast_last_id list_update_nonempty mset_append mset.simps(2) add_mset_add_single mset.simps(1))
  ultimately have "mset (butlast ?u) = mset (remove1 p ov)" by (simp add: lu)
  then show ?thesis
    using assms r by (metis distinct_remove1 mset_eq_imp_distinct_iff mset_eq_setD set_remove1_eq)
qed

text \<open>The overlap list holds the open entries.\<close>

lemma open_step:
  assumes v: "visiting b nr P (c # R)" and ov: "distinct ov" "set ov = open_entries b nr P"
  defines "ov' \<equiv> if fst c = e_addr (b ! snd c) then ov @ [snd c] else overlap_remove ov (snd c)"
  shows "distinct ov' \<and> set ov' = open_entries b nr (P @ [c])"
proof -
  have sane: "sane b nr" and nP: "c \<notin> set P" using v by (auto simp: visiting_def)
  have "c \<in> start_pt b ` in_use b nr \<union> end_pt b ` in_use b nr" using v by (auto simp: visiting_def)
  then obtain i where i: "i \<in> in_use b nr" "c = start_pt b i \<or> c = end_pt b i" by auto
  have ne: "start_pt b j \<noteq> end_pt b k" if "k \<in> in_use b nr" for j k
    using that by (auto simp: start_pt_def end_pt_def in_use_def)
  have ne': "end_pt b k \<noteq> start_pt b j" if "k \<in> in_use b nr" for j k using ne [OF that] by metis
  have lt: "cp_key b (start_pt b i) < cp_key b (end_pt b i)"
    using key_end [OF sane i(1)] key_start [of b i] in_use_lt [OF sane i(1)] by simp
  have inj: "start_pt b j = start_pt b k \<Longrightarrow> j = k" "end_pt b j = end_pt b k \<Longrightarrow> j = k" for j k
    by (simp_all add: start_pt_def end_pt_def)
  show ?thesis
  proof (cases "c = start_pt b i")
    case True
    then have s: "fst c = e_addr (b ! snd c)" "snd c = i" by (simp_all add: start_pt_def)
    have "end_pt b i \<notin> set P"
      using visiting_key [OF v, of "end_pt b i" c] lt True by auto
    then have "open_entries b nr (P @ [c]) = insert i (open_entries b nr P)"
      using True i(1) ne ne' inj by (auto simp: open_entries_def)
    moreover have "i \<notin> open_entries b nr P" using nP True by (simp add: open_entries_def)
    ultimately show ?thesis using ov s by (simp add: ov'_def)
  next
    case False
    then have e: "c = end_pt b i" using i by simp
    then have s: "fst c \<noteq> e_addr (b ! snd c)" "snd c = i" using i(1) by (auto simp: end_pt_def in_use_def)
    have "start_pt b i \<in> set P \<union> set (c # R)" using v i(1) by (auto simp: visiting_def)
    moreover have "start_pt b i \<notin> set (c # R)"
    proof
      assume "start_pt b i \<in> set (c # R)"
      then have "start_pt b i \<in> set R" using False by auto
      moreover have "sorted (map (cp_key b) (c # R))" using v by (simp add: visiting_def sorted_append)
      ultimately have "cp_key b c \<le> cp_key b (start_pt b i)" by auto
      then show False using lt e by simp
    qed
    ultimately have "i \<in> open_entries b nr P" using nP e i(1) by (simp add: open_entries_def)
    moreover have "open_entries b nr (P @ [c]) = open_entries b nr P - {i}"
      using e i(1) ne inj by (auto simp: open_entries_def)
    ultimately show ?thesis using ov s overlap_remove_set [of ov i] by (simp add: ov'_def)
  qed
qed

section \<open>The map that is built\<close>

text \<open>Entries in order, without overlap, that end at or before \<open>f\<close>.\<close>

definition tidy :: "e820entry list \<Rightarrow> nat \<Rightarrow> bool" where
  "tidy es f \<longleftrightarrow> (\<forall>e\<in>set es. e_size e \<noteq> 0 \<and> e_end e \<le> f) \<and> sorted_wrt (\<lambda>d e. e_end d \<le> unat (e_addr e)) es"

definition agree :: "e820entry list \<Rightarrow> e820entry list \<Rightarrow> nat \<Rightarrow> bool" where
  "agree es b f \<longleftrightarrow> (\<forall>x<f. type_at es x = type_at b x)"

lemma tidy_mono: "tidy es f \<Longrightarrow> f \<le> g \<Longrightarrow> tidy es g"
  by (force simp: tidy_def)

lemma agree_gap:
  assumes "tidy es f" "agree es b f" "\<forall>x. f \<le> x \<longrightarrow> x < g \<longrightarrow> type_at b x = 0"
  shows "agree es b g"
  unfolding agree_def
proof (intro allI impI)
  fix x assume "x < g"
  show "type_at es x = type_at b x"
  proof (cases "x < f")
    case True
    then show ?thesis using assms(2) by (simp add: agree_def)
  next
    case False
    then have "type_at es x = 0" using assms(1) by (intro type_at_beyond) (force simp: tidy_def)
    then show ?thesis using assms(3) False \<open>x < g\<close> by simp
  qed
qed

lemma tidy_snoc:
  assumes "tidy es (unat la)" "agree es b (unat la)" "unat la < unat f"
    "\<forall>x. unat la \<le> x \<longrightarrow> x < unat f \<longrightarrow> type_at b x = t"
  defines "e \<equiv> \<lparr>e_addr = la, e_size = f - la, e_type = t\<rparr>"
  shows "tidy (es @ [e]) (unat f)" "agree (es @ [e]) b (unat f)"
proof -
  have sz: "unat (f - la) = unat f - unat la" using assms(3) by (intro unat_sub_le) (simp add: word_le_unat)
  have en: "e_end e = unat f" using assms(3) by (simp add: e_end_def e_def sz)
  have "f - la \<noteq> 0" using assms(3) by auto
  then show "tidy (es @ [e]) (unat f)"
    using assms(1,3) en by (force simp: tidy_def sorted_wrt_append e_def)
  show "agree (es @ [e]) b (unat f)"
    unfolding agree_def
  proof (intro allI impI)
    fix x assume x: "x < unat f"
    show "type_at (es @ [e]) x = type_at b x"
    proof (cases "x < unat la")
      case True
      then have "\<not> covers x e" by (simp add: covers_def e_def)
      then show ?thesis using True assms(2) by (simp add: type_at_append type_at_single agree_def)
    next
      case False
      then have "covers x e" using x en by (simp add: covers_def) (simp add: e_def)
      moreover have "type_at es x = 0" using assms(1) False by (intro type_at_beyond) (force simp: tidy_def)
      ultimately show ?thesis using False x assms(4) by (simp add: type_at_append type_at_single) (simp add: e_def)
    qed
  qed
qed

definition reached :: "change_member list \<Rightarrow> nat" where
  "reached P = (if P = [] then 0 else unat (fst (last P)))"

definition finished :: "sweep \<Rightarrow> e820entry list" where
  "finished s = take (new_bios_entry s) (new_bios s)"

definition frontier :: "change_member list \<Rightarrow> sweep \<Rightarrow> nat" where
  "frontier P s = (if last_type s \<noteq> 0 then unat (last_addr s) else reached P)"

definition swept :: "e820entry list \<Rightarrow> nat \<Rightarrow> change_member list \<Rightarrow> sweep \<Rightarrow> bool" where
  "swept b nr P s \<longleftrightarrow> distinct (overlap_list s) \<and> set (overlap_list s) = open_entries b nr P
     \<and> last_type s = current_type b (overlap_list s)
     \<and> length (new_bios s) = E820MAX \<and> new_bios_entry s \<le> length P - 1
     \<and> tidy (finished s) (frontier P s) \<and> agree (finished s) (take nr b) (frontier P s)
     \<and> (last_type s \<noteq> 0 \<longrightarrow> P \<noteq> [] \<and> frontier P s \<le> reached P
          \<and> (\<forall>x. frontier P s \<le> x \<longrightarrow> x < reached P \<longrightarrow> type_at (take nr b) x = last_type s)
          \<and> e_addr (new_bios s ! new_bios_entry s) = last_addr s
          \<and> e_type (new_bios s ! new_bios_entry s) = last_type s)"

lemma reached_all:
  assumes "visiting b nr P R" "c \<in> set P"
  shows "unat (fst c) \<le> reached P"
proof -
  obtain Q l where P: "P = Q @ [l]" using assms(2) by (metis append_butlast_last_id empty_iff set_empty)
  have v: "visiting b nr Q (l # R)" using assms(1) by (simp add: P visiting_def)
  have r: "reached P = unat (fst l)" by (simp add: P reached_def)
  show ?thesis
  proof (cases "c = l")
    case False
    then have "c \<in> set Q" using assms(2) by (simp add: P)
    then show ?thesis using visiting_addr [OF v, of c l] r by simp
  qed (simp add: r)
qed

text \<open>Between the last change point and the next the type does not change.\<close>

lemma type_until_next:
  assumes v: "visiting b nr P (c # R)" and nr: "nr \<le> length b" and s: "swept b nr P s"
    and x: "reached P \<le> x" "x < unat (fst c)"
  shows "type_at (take nr b) x = last_type s"
proof -
  have "\<forall>d\<in>set P. unat (fst d) \<le> x" using reached_all [OF v] x(1) by force
  moreover have "\<forall>d\<in>set (c # R). x < unat (fst d)"
    using visiting_addr [OF visiting_next [OF v], of c] x(2) by force
  ultimately show ?thesis
    using type_between [OF v _ _ nr] s unfolding swept_def by metis
qed

lemma reached_snoc [simp]: "reached (P @ [c]) = unat (fst c)"
  by (simp add: reached_def)

lemma reached_le:
  assumes "visiting b nr P (c # R)"
  shows "reached P \<le> unat (fst c)"
  using visiting_addr [OF assms, of "last P" c] by (auto simp: reached_def)

text \<open>Closing the entry under construction at a change point.\<close>

definition close_entry :: "sweep \<Rightarrow> u64 \<Rightarrow> e820entry list \<times> nat" where
  "close_entry s a =
     (let nb = new_bios s; n = new_bios_entry s;
          nb1 = (if last_type s \<noteq> 0 then nb[n := (nb ! n)\<lparr>e_size := a - last_addr s\<rparr>] else nb)
      in (nb1, if last_type s \<noteq> 0 \<and> e_size (nb1 ! n) \<noteq> 0 then n + 1 else n))"

lemma close_entry_correct:
  assumes v: "visiting b nr P (c # R)" and nr: "nr \<le> length b" and s: "swept b nr P s"
    and room: "length P < E820MAX" and ce: "close_entry s (fst c) = (nb, n)"
  shows "length nb = E820MAX" "n \<le> length P" "tidy (take n nb) (unat (fst c))"
    "agree (take n nb) (take nr b) (unat (fst c))"
proof -
  let ?n = "new_bios_entry s" and ?b = "new_bios s" and ?la = "last_addr s"
  have len: "length ?b = E820MAX" and n: "?n \<le> length P - 1" using s by (simp_all add: swept_def)
  have ran: "?n < E820MAX" using n room by simp
  have td: "tidy (finished s) (frontier P s)" and ag: "agree (finished s) (take nr b) (frontier P s)"
    using s by (simp_all add: swept_def)
  have rl: "reached P \<le> unat (fst c)" using reached_le [OF v] .
  have tn: "\<And>x. reached P \<le> x \<Longrightarrow> x < unat (fst c) \<Longrightarrow> type_at (take nr b) x = last_type s"
    using type_until_next [OF v nr s] .
  have "length nb = E820MAX \<and> n \<le> length P \<and> tidy (take n nb) (unat (fst c))
    \<and> agree (take n nb) (take nr b) (unat (fst c))"
  proof (cases "last_type s = 0")
    case True
    then have e: "nb = ?b" "n = ?n" using ce by (simp_all add: close_entry_def)
    have f: "frontier P s = reached P" using True by (simp add: frontier_def)
    have tk: "take n nb = finished s" by (simp add: finished_def e)
    have "\<forall>x. reached P \<le> x \<longrightarrow> x < unat (fst c) \<longrightarrow> type_at (take nr b) x = 0" using tn True by metis
    then have "agree (finished s) (take nr b) (unat (fst c))" by (rule agree_gap [OF td ag, unfolded f])
    moreover have "tidy (finished s) (unat (fst c))" using tidy_mono [OF td] rl f by simp
    moreover have "n \<le> length P" using n by (simp add: e)
    ultimately show ?thesis using len unfolding tk by (simp add: e)
  next
    case False
    let ?e = "(?b ! ?n)\<lparr>e_size := fst c - ?la\<rparr>"
    have fr: "frontier P s = unat ?la" using False by (simp add: frontier_def)
    have P: "P \<noteq> []" and fl: "unat ?la \<le> reached P"
      and old: "\<And>x. unat ?la \<le> x \<Longrightarrow> x < reached P \<Longrightarrow> type_at (take nr b) x = last_type s"
      and ea: "e_addr (?b ! ?n) = ?la" "e_type (?b ! ?n) = last_type s"
      using s False fr by (simp_all add: swept_def)
    have ty: "\<forall>x. unat ?la \<le> x \<longrightarrow> x < unat (fst c) \<longrightarrow> type_at (take nr b) x = last_type s"
      using old tn by (meson not_le)
    have nb: "nb = ?b[?n := ?e]" using ce False by (simp add: close_entry_def Let_def)
    have at: "nb ! ?n = ?e" using ran len by (simp add: nb)
    have nn: "n = (if fst c - ?la = 0 then ?n else ?n + 1)"
      using ce False at nb by (simp add: close_entry_def Let_def split: if_splits)
    have tk: "take ?n nb = finished s" by (simp add: nb finished_def)
    show ?thesis
    proof (cases "fst c = ?la")
      case True
      then show ?thesis using len n nn tk td ag fr by (simp add: nb)
    next
      case ne: False
      have e: "?e = \<lparr>e_addr = ?la, e_size = fst c - ?la, e_type = last_type s\<rparr>" using ea by simp
      have lt: "unat ?la < unat (fst c)" using ne fl rl by (metis le_neq_implies_less order_trans word_unat_eq_iff)
      have n': "n = Suc ?n" using ne nn by simp
      have "take n nb = finished s @ [?e]" using ran len tk at by (simp add: n' take_Suc_conv_app_nth nb)
      moreover have "Suc ?n \<le> length P" using n P by (cases P) simp_all
      ultimately show ?thesis
        using tidy_snoc [OF _ _ lt ty] td ag fr len unfolding e by (simp add: n' nb)
    qed
  qed
  then show "length nb = E820MAX" "n \<le> length P" "tidy (take n nb) (unat (fst c))"
    "agree (take n nb) (take nr b) (unat (fst c))" by blast+
qed

lemma sweep_step_alt:
  assumes ov: "ov = (if fst c = e_addr (b ! snd c) then overlap_list s @ [snd c] else overlap_remove (overlap_list s) (snd c))"
    and ce: "close_entry s (fst c) = (nb, n)"
  shows "sweep_step b mx c s =
     (if current_type b ov = last_type s then Inr (s\<lparr>overlap_list := ov\<rparr>)
      else if n \<noteq> new_bios_entry s \<and> n \<ge> mx then Inl (s\<lparr>overlap_list := ov, new_bios := nb, new_bios_entry := n\<rparr>)
      else if current_type b ov \<noteq> 0 then Inr (s\<lparr>overlap_list := ov, new_bios_entry := n,
             new_bios := nb[n := (nb ! n)\<lparr>e_addr := fst c, e_type := current_type b ov\<rparr>], last_addr := fst c,
             last_type := current_type b ov\<rparr>)
      else Inr (s\<lparr>overlap_list := ov, new_bios := nb, new_bios_entry := n, last_type := current_type b ov\<rparr>))"
proof -
  have nb: "nb = (if last_type s \<noteq> 0 then (new_bios s)[new_bios_entry s := (new_bios s ! new_bios_entry s)\<lparr>e_size := fst c - last_addr s\<rparr>]
      else new_bios s)"
    using ce by (simp add: close_entry_def Let_def)
  have n: "n = (if last_type s \<noteq> 0 \<and> e_size (nb ! new_bios_entry s) \<noteq> 0 then new_bios_entry s + 1 else new_bios_entry s)"
    using ce nb by (simp add: close_entry_def Let_def)
  consider (none) "last_type s = 0" | (same) "last_type s \<noteq> 0" "e_size (nb ! new_bios_entry s) = 0"
    | (more) "last_type s \<noteq> 0" "e_size (nb ! new_bios_entry s) \<noteq> 0" by blast
  then show ?thesis
  proof cases
    case none
    then have "nb = new_bios s" "n = new_bios_entry s" using nb n by simp_all
    then show ?thesis using none unfolding sweep_step_def Let_def ov [symmetric] by simp
  next
    case same
    then have x: "(new_bios s)[new_bios_entry s := (new_bios s ! new_bios_entry s)\<lparr>e_size := fst c - last_addr s\<rparr>] = nb"
      "n = new_bios_entry s" using nb n by simp_all
    show ?thesis using same unfolding sweep_step_def Let_def ov [symmetric] by (simp add: x)
  next
    case more
    then have x: "(new_bios s)[new_bios_entry s := (new_bios s ! new_bios_entry s)\<lparr>e_size := fst c - last_addr s\<rparr>] = nb"
      "n = Suc (new_bios_entry s)" using nb n by simp_all
    show ?thesis using more unfolding sweep_step_def Let_def ov [symmetric] by (simp add: x)
  qed
qed

lemma sweep_step_swept:
  assumes v: "visiting b nr P (c # R)" and nr: "nr \<le> length b" and s: "swept b nr P s"
    and room: "length P < E820MAX" "length P < mx"
  shows "\<exists>s'. sweep_step b mx c s = Inr s' \<and> swept b nr (P @ [c]) s'"
proof -
  define ov where "ov = (if fst c = e_addr (b ! snd c) then overlap_list s @ [snd c] else overlap_remove (overlap_list s) (snd c))"
  let ?cur = "current_type b ov"
  obtain nb n where ce: "close_entry s (fst c) = (nb, n)" by fastforce
  note cl = close_entry_correct [OF v nr s room(1) ce]
  have ov: "distinct ov" "set ov = open_entries b nr (P @ [c])"
    using open_step [OF v] s unfolding ov_def swept_def by metis+
  have rl: "reached P \<le> unat (fst c)" using reached_le [OF v] .
  have st: "sweep_step b mx c s =
     (if ?cur = last_type s then Inr (s\<lparr>overlap_list := ov\<rparr>)
      else if n \<noteq> new_bios_entry s \<and> n \<ge> mx then Inl (s\<lparr>overlap_list := ov, new_bios := nb, new_bios_entry := n\<rparr>)
      else if ?cur \<noteq> 0 then Inr (s\<lparr>overlap_list := ov, new_bios_entry := n,
             new_bios := nb[n := (nb ! n)\<lparr>e_addr := fst c, e_type := ?cur\<rparr>], last_addr := fst c, last_type := ?cur\<rparr>)
      else Inr (s\<lparr>overlap_list := ov, new_bios := nb, new_bios_entry := n, last_type := ?cur\<rparr>))"
    by (rule sweep_step_alt [OF ov_def ce])
  show ?thesis
  proof (cases "?cur = last_type s")
    case True
    have tn: "\<And>x. reached P \<le> x \<Longrightarrow> x < unat (fst c) \<Longrightarrow> type_at (take nr b) x = last_type s"
      using type_until_next [OF v nr s] .
    let ?s = "s\<lparr>overlap_list := ov\<rparr>"
    have fin: "finished ?s = finished s" by (simp add: finished_def)
    have "swept b nr (P @ [c]) ?s"
    proof (cases "last_type s = 0")
      case z: True
      then have e: "nb = new_bios s" "n = new_bios_entry s" using ce by (simp_all add: close_entry_def)
      show ?thesis using s ov True z cl e by (simp add: swept_def finished_def frontier_def)
    next
      case nz: False
      have fr: "frontier P s = unat (last_addr s)" "frontier (P @ [c]) ?s = unat (last_addr s)"
        using nz by (simp_all add: frontier_def)
      have "\<forall>x. unat (last_addr s) \<le> x \<longrightarrow> x < unat (fst c) \<longrightarrow> type_at (take nr b) x = last_type s"
        using s nz tn unfolding swept_def fr by (meson not_le)
      moreover have "unat (last_addr s) \<le> unat (fst c)" using s nz rl unfolding swept_def fr by linarith
      ultimately show ?thesis using s ov True nz unfolding swept_def fin fr by simp linarith
    qed
    then show ?thesis using True st by simp
  next
    case False
    have nlt: "n < E820MAX" "n < mx" using cl(2) room by simp_all
    show ?thesis
    proof (cases "?cur = 0")
      case True
      have "swept b nr (P @ [c]) (s\<lparr>overlap_list := ov, new_bios := nb, new_bios_entry := n, last_type := ?cur\<rparr>)"
        using ov True cl by (simp add: swept_def finished_def frontier_def)
      then show ?thesis using st False True nlt by simp
    next
      case nz: False
      have "swept b nr (P @ [c]) (s\<lparr>overlap_list := ov, new_bios_entry := n,
             new_bios := nb[n := (nb ! n)\<lparr>e_addr := fst c, e_type := ?cur\<rparr>], last_addr := fst c, last_type := ?cur\<rparr>)"
        using ov nz cl nlt by (simp add: swept_def finished_def frontier_def)
      then show ?thesis using st False nz nlt by simp
    qed
  qed
qed

lemma sweep_loop_swept:
  assumes "visiting b nr P R" "nr \<le> length b" "swept b nr P s"
    "length P + length R \<le> E820MAX" "length P + length R \<le> mx"
  shows "swept b nr (P @ R) (sweep_loop b mx R s)"
  using assms
proof (induction R arbitrary: P s)
  case (Cons c R)
  obtain s' where s': "sweep_step b mx c s = Inr s'" "swept b nr (P @ [c]) s'"
    using sweep_step_swept [OF Cons.prems(1-3), of mx] Cons.prems(4,5) by auto
  show ?case
    using Cons.IH [OF visiting_next [OF Cons.prems(1)] Cons.prems(2) s'(2)] Cons.prems(4,5) s'(1) by simp
qed simp

lemma swept_init: "swept b nr [] sweep_init"
  by (simp add: swept_def sweep_init_def open_entries_def current_type_def finished_def frontier_def reached_def
      tidy_def agree_def)

lemma swept_final:
  assumes v: "visiting b nr P []" and nr: "nr \<le> length b" and s: "swept b nr P s"
  shows "tidy (finished s) (reached P) \<and> (\<forall>x. type_at (finished s) x = type_at (take nr b) x)"
proof -
  have "open_entries b nr P = {}" using v by (auto simp: visiting_def open_entries_def)
  then have ov: "overlap_list s = []" using s by (simp add: swept_def)
  then have lt: "last_type s = 0" using s by (simp add: swept_def current_type_def)
  then have fr: "frontier P s = reached P" by (simp add: frontier_def)
  have td: "tidy (finished s) (reached P)" and ag: "agree (finished s) (take nr b) (reached P)"
    using s unfolding swept_def fr by blast+
  have "type_at (finished s) x = type_at (take nr b) x" for x
  proof (cases "x < reached P")
    case True
    then show ?thesis using ag by (simp add: agree_def)
  next
    case False
    then have "\<forall>c\<in>set P. unat (fst c) \<le> x" using reached_all [OF v] by force
    then have "current_type b [] = type_at (take nr b) x"
      using type_between [OF v _ _ nr, of x "[]"] ov s by (simp add: swept_def)
    moreover have "type_at (finished s) x = 0" using td False by (intro type_at_beyond) (force simp: tidy_def)
    ultimately show ?thesis by (simp add: current_type_def)
  qed
  then show ?thesis using td by blast
qed

lemma unreasonable_iff: "unreasonable e \<longleftrightarrow> e_end e \<ge> 2 ^ 64"
proof (cases "e_end e < 2 ^ 64")
  case True
  then have "unat (e_addr e + e_size e) = e_end e" by (simp add: e_end_def unat_add_no_wrap)
  then show ?thesis using True by (simp add: unreasonable_def word_less_unat e_end_def)
next
  case False
  have "unat (e_addr e + e_size e) = (unat (e_addr e) + unat (e_size e)) mod 2 ^ 64"
    by (simp add: unat_word_ariths)
  also have "\<dots> = unat (e_addr e) + unat (e_size e) - 2 ^ 64"
    using False unat_bound [of "e_addr e"] unat_bound [of "e_size e"] by (simp add: e_end_def le_mod_geq)
  finally show ?thesis
    using False unat_bound [of "e_size e"] by (simp add: unreasonable_def word_less_unat e_end_def)
qed

section \<open>Sanitizing\<close>

lemma sanitize_e820_map_spec:
  assumes "2 * nr \<le> max_nr_map" "max_nr_map \<le> E820MAX" "max_nr_map \<le> length b"
  shows "if nr < 2 \<or> (\<exists>e\<in>set (take nr b). e_end e \<ge> 2 ^ 64)
    then sanitize_e820_map b max_nr_map nr = (b, nr, -1)
    else \<exists>b' n. sanitize_e820_map b max_nr_map nr = (b', n, 0) \<and> length b' = length b \<and> n < 2 * nr
      \<and> (\<forall>x. type_at (take n b') x = type_at (take nr b) x)
      \<and> (\<forall>e\<in>set (take n b'). e_size e \<noteq> 0)
      \<and> sorted_wrt (\<lambda>d e. e_end d \<le> unat (e_addr e)) (take n b')"
proof -
  have nr: "nr \<le> length b" "nr \<le> max_nr_map" using assms by simp_all
  have tk: "set (take nr b) = (!) b ` set [0..<nr]" using nth_image [OF nr(1)] by simp
  have bad: "(\<exists>e\<in>set (take nr b). e_end e \<ge> 2 ^ 64) \<longleftrightarrow> (\<exists>i\<in>set [0..<nr]. unreasonable (b ! i))"
    unfolding tk unreasonable_iff by blast
  show ?thesis
  proof (cases "nr < 2 \<or> (\<exists>e\<in>set (take nr b). e_end e \<ge> 2 ^ 64)")
    case True
    then have "sanitize_e820_map b max_nr_map nr = (b, nr, -1)"
      unfolding bad by (auto simp: sanitize_e820_map_def)
    then show ?thesis using True by simp
  next
    case False
    then have sane: "sane b nr" "\<not> (\<exists>i\<in>set [0..<nr]. unreasonable (b ! i))" using bad by (auto simp: sane_def)
    define cp where "cp = sort_changes b (change_points b nr)"
    define s where "s = sweep_loop b max_nr_map cp sweep_init"
    have cpm: "mset cp = mset (change_points b nr)" by (simp add: cp_def sort_changes_mset)
    have len: "length cp \<le> 2 * nr" using mset_eq_length [OF cpm] length_change_points [of b nr] by simp
    have "visiting b nr [] cp" "visiting b nr cp []"
      using mset_eq_setD [OF cpm] mset_eq_imp_distinct_iff [OF cpm] distinct_change_points [OF sane(1)] sane(1)
      by (simp_all add: visiting_def set_change_points sort_changes_sorted cp_def)
    then have sw: "swept b nr cp s" and v: "visiting b nr cp []"
      using sweep_loop_swept [OF _ nr(1) swept_init, of cp max_nr_map] len assms by (simp_all add: s_def)
    have n: "new_bios_entry s < 2 * nr" "length (new_bios s) = E820MAX"
      using sw len False by (auto simp: swept_def)
    note fin = swept_final [OF v nr(1) sw]
    let ?b = "take (new_bios_entry s) (new_bios s) @ drop (new_bios_entry s) b"
    have t: "take (new_bios_entry s) ?b = finished s" using n assms by (simp add: finished_def)
    have "length ?b = length b" using n assms by simp
    moreover have "sanitize_e820_map b max_nr_map nr = (?b, new_bios_entry s, 0)"
      using sane(2) False nr unfolding sanitize_e820_map_def Let_def cp_def [symmetric] s_def [symmetric] by simp
    moreover have "\<forall>x. type_at (take (new_bios_entry s) ?b) x = type_at (take nr b) x"
      "\<forall>e\<in>set (take (new_bios_entry s) ?b). e_size e \<noteq> 0"
      "sorted_wrt (\<lambda>d e. e_end d \<le> unat (e_addr e)) (take (new_bios_entry s) ?b)"
      unfolding t using fin by (simp_all add: tidy_def)
    ultimately show ?thesis using False n(1) by metis
  qed
qed

text \<open>C25. The array is refused, and left as it is, if it has fewer than two entries or an entry that
  ends beyond 64 bits. Otherwise the result has the same type at every address as the input
  (the largest type of the entries that contain the address), its entries are not empty, ascend
  and do not overlap, and there are fewer than twice as many of them. The array must have room
  for the two change points of each entry.\<close>

theorem sanitize_e820_map_correct:
  assumes "2 * nr \<le> max_nr_map" "max_nr_map \<le> E820MAX" "max_nr_map \<le> length b"
  shows "if nr < 2 \<or> (\<exists>e\<in>set (take nr b). e_end e \<ge> 2 ^ 64)
    then sanitize_e820_map b max_nr_map nr = (b, nr, -1)
    else \<exists>b' n. sanitize_e820_map b max_nr_map nr = (b', n, 0) \<and> length b' = length b \<and> n < 2 * nr
      \<and> (\<forall>x. type_at (take n b') x = type_at (take nr b) x)
      \<and> (\<forall>e\<in>set (take n b'). e_size e \<noteq> 0)
      \<and> sorted_wrt (\<lambda>d e. e_end d \<le> unat (e_addr e)) (take n b')"
  by (rule sanitize_e820_map_spec [OF assms])

definition example_bios :: "e820entry list" where
  "example_bios =
     [\<lparr>e_addr = 0, e_size = 0xA0000, e_type = 1\<rparr>, \<lparr>e_addr = 0x9F000, e_size = 0x61000, e_type = 2\<rparr>,
      \<lparr>e_addr = 0x100000, e_size = 0x700000, e_type = 1\<rparr>] @ replicate 5 \<lparr>e_addr = 0, e_size = 0, e_type = 0\<rparr>"

theorem sanitize_e820_map_correct_witness:
  "\<exists>b' n. sanitize_e820_map example_bios 8 3 = (b', n, 0) \<and> length b' = 8 \<and> n < 6
      \<and> (\<forall>x. type_at (take n b') x = type_at (take 3 example_bios) x)
      \<and> (\<forall>e\<in>set (take n b'). e_size e \<noteq> 0)
      \<and> sorted_wrt (\<lambda>d e. e_end d \<le> unat (e_addr e)) (take n b')"
proof -
  have "2 * 3 \<le> (8 :: nat)" "8 \<le> E820MAX" "8 \<le> length example_bios" by (simp_all add: E820MAX_def example_bios_def)
  moreover have "\<not> (\<exists>e\<in>set (take 3 example_bios). e_end e \<ge> 2 ^ 64)"
    by (simp add: example_bios_def e_end_def)
  moreover have "length example_bios = 8" by (simp add: example_bios_def)
  ultimately show ?thesis
    using sanitize_e820_map_correct [of 3 8 example_bios] by simp
qed

section \<open>Filling the memory regions\<close>

lemma insert_span_length: "length (insert_span a b xs) \<le> Suc (length xs)"
  by (induction a b xs rule: insert_span.induct) (auto split: if_splits)

definition is_ram :: "e820entry \<Rightarrow> bool" where
  "is_ram e \<longleftrightarrow> e_type e = E820_RAM \<or> e_type e = E820_RESERVED_KERN"

lemma add_with_room:
  assumes "mb_inv t" "sz \<noteq> 0" "unat base + unat sz < 2 ^ 64" "Suc (length (view t)) < mb_max t"
  obtains t' where "memblock_add_region t base sz = (t', 0)" "mb_inv t'" "mb_max t' = mb_max t"
    "length (view t') \<le> Suc (length (view t))"
    "mb_addrs t' = mb_addrs t \<union> {unat base..<unat base + unat sz}"
proof (rule memblock_add_region_cases [OF assms(1-3)])
  fix t' assume t': "memblock_add_region t base sz = (t', 0)" "mb_inv t'" "mb_max t' = mb_max t"
      "view t' = insert_span (unat base) (unat base + unat sz) (view t)"
  moreover have "mb_addrs t' = mb_addrs t \<union> {unat base..<unat base + unat sz}"
    using add_region_addrs(2) [OF assms(1) _ t'(1)] assms(2,3) by (simp add: ok_request_def request_ival_def)
  ultimately show thesis using that insert_span_length by metis
next
  assume "cnt t = mb_max t"
  moreover have "cnt t \<le> Suc (length (view t))" by (simp add: view_def no_regions_def)
  ultimately show thesis using assms(4) by simp
qed

lemma fill_loop_memory:
  assumes "mb_inv (memory mb)" "\<forall>e\<in>set es. is_ram e \<longrightarrow> e_size e \<noteq> 0 \<and> e_end e < 2 ^ 64"
    "length (view (memory mb)) + length es < mb_max (memory mb)"
  shows "\<exists>mb'. fill_loop es mb = Some mb' \<and> mb_inv (memory mb') \<and> reserved mb' = reserved mb \<and> mb_max (memory mb') = mb_max (memory mb)
    \<and> mb_addrs (memory mb') = mb_addrs (memory mb) \<union> {x. \<exists>e\<in>set es. is_ram e \<and> covers x e}"
  using assms
proof (induction es arbitrary: mb)
  case (Cons e es)
  show ?case
  proof (cases "is_ram e")
    case True
    then have e: "e_size e \<noteq> 0" "unat (e_addr e) + unat (e_size e) < 2 ^ 64"
      using Cons.prems(2) by (simp_all add: e_end_def)
    obtain t where t: "memblock_add_region (memory mb) (e_addr e) (e_size e) = (t, 0)" "mb_inv t"
      "mb_max t = mb_max (memory mb)" "length (view t) \<le> Suc (length (view (memory mb)))"
      "mb_addrs t = mb_addrs (memory mb) \<union> {unat (e_addr e)..<unat (e_addr e) + unat (e_size e)}"
      using add_with_room [OF Cons.prems(1) e] Cons.prems(3) by auto
    have "fill_loop (e # es) mb = fill_loop es (mb\<lparr>memory := t\<rparr>)"
      using True t(1) by (auto simp: is_ram_def memblock_add_def)
    moreover have "covers x e \<longleftrightarrow> x \<in> {unat (e_addr e)..<unat (e_addr e) + unat (e_size e)}" for x
      by (simp add: covers_def e_end_def)
    ultimately show ?thesis
      using Cons.IH [of "mb\<lparr>memory := t\<rparr>"] Cons.prems t True by auto
  next
    case False
    then show ?thesis using Cons by (auto simp: is_ram_def)
  qed
qed simp

lemma memblock_x86_fill_spec:
  assumes "mb_inv (memory mb)" "nr_map m \<le> length (e820_entries m)"
    "\<forall>e\<in>set (take (nr_map m) (e820_entries m)). is_ram e \<longrightarrow> e_size e \<noteq> 0 \<and> e_end e < 2 ^ 64"
    "length (view (memory mb)) + nr_map m < mb_max (memory mb)"
  shows "\<exists>mb'. memblock_x86_fill m mb = Some mb' \<and> mb_inv (memory mb') \<and> reserved mb' = reserved mb \<and> mb_max (memory mb') = mb_max (memory mb)
    \<and> mb_addrs (memory mb') = mb_addrs (memory mb)
        \<union> {x. \<exists>e\<in>set (take (nr_map m) (e820_entries m)). is_ram e \<and> covers x e}"
proof -
  obtain mb' where "fill_loop (take (nr_map m) (e820_entries m)) mb = Some mb'"
    "mb_inv (memory mb')" "reserved mb' = reserved mb" "mb_max (memory mb') = mb_max (memory mb)"
    "mb_addrs (memory mb') = mb_addrs (memory mb) \<union> {x. \<exists>e\<in>set (take (nr_map m) (e820_entries m)). is_ram e \<and> covers x e}"
    using fill_loop_memory [OF assms(1,3)] assms(2,4) by auto
  then show ?thesis by (simp add: memblock_x86_fill_def memblock_analyze_def)
qed

text \<open>C30. When the region array has room for the entries, \<open>memblock_x86_fill\<close> does not panic
  and makes exactly the addresses of the entries of type RAM or RESERVED\_KERN memory, besides
  those that already were; the reserved regions stay as they are.\<close>

theorem memblock_x86_fill_correct:
  assumes "mb_inv (memory mb)" "nr_map m \<le> length (e820_entries m)"
    "\<forall>e\<in>set (take (nr_map m) (e820_entries m)). is_ram e \<longrightarrow> e_size e \<noteq> 0 \<and> e_end e < 2 ^ 64"
    "length (view (memory mb)) + nr_map m < mb_max (memory mb)"
  shows "\<exists>mb'. memblock_x86_fill m mb = Some mb' \<and> mb_inv (memory mb') \<and> reserved mb' = reserved mb
    \<and> mb_addrs (memory mb') = mb_addrs (memory mb)
        \<union> {x. \<exists>e\<in>set (take (nr_map m) (e820_entries m)). is_ram e \<and> covers x e}"
  using memblock_x86_fill_spec [OF assms] by blast

theorem memblock_x86_fill_correct_witness:
  "\<exists>mb'. memblock_x86_fill \<lparr>nr_map = 2, e820_entries = example_bios\<rparr> (memblock_init (example_mb\<lparr>init_done := False\<rparr>)) = Some mb'
    \<and> mb_inv (memory mb') \<and> mb_addrs (memory mb') = {0..<0xA0000}"
proof -
  let ?m = "\<lparr>nr_map = 2, e820_entries = example_bios\<rparr>" and ?mb = "memblock_init (example_mb\<lparr>init_done := False\<rparr>)"
  have m: "memory ?mb = init_type" by (simp add: memblock_init_def)
  have tk: "take 2 example_bios = [\<lparr>e_addr = 0, e_size = 0xA0000, e_type = 1\<rparr>, \<lparr>e_addr = 0x9F000, e_size = 0x61000, e_type = 2\<rparr>]"
    by (simp add: example_bios_def)
  have "mb_inv (memory ?mb)" "length (view (memory ?mb)) + nr_map ?m < mb_max (memory ?mb)"
    "nr_map ?m \<le> length (e820_entries ?m)"
    by (simp_all add: m mb_inv_init) (simp_all add: init_type_def INIT_MEMBLOCK_REGIONS_def example_bios_def Let_def set_rgn_def)
  moreover have "\<forall>e\<in>set (take (nr_map ?m) (e820_entries ?m)). is_ram e \<longrightarrow> e_size e \<noteq> 0 \<and> e_end e < 2 ^ 64"
    by (simp add: tk is_ram_def e_end_def)
  ultimately show ?thesis
    using memblock_x86_fill_correct [of ?mb ?m]
    by (auto simp: m tk is_ram_def covers_def e_end_def E820_RAM_def E820_RESERVED_KERN_def mb_addrs_def mb_inv_init
        spans_set_def)
qed

section \<open>The end of memory\<close>

definition pfn_of :: "nat \<Rightarrow> nat" where "pfn_of a = a div 4096"

text \<open>The last frames of the entries of a type that start below the limit.\<close>

definition ends :: "e820entry list \<Rightarrow> u32 \<Rightarrow> nat \<Rightarrow> nat set" where
  "ends es ty lim = (\<lambda>e. min lim (pfn_of (e_end e))) ` {e \<in> set es. e_type e = ty \<and> pfn_of (unat (e_addr e)) < lim}"

lemma pfn_word:
  assumes "unat (a :: u64) < 2 ^ 44"
  shows "unat (ucast (drop_bit PAGE_SHIFT a) :: ulong) = pfn_of (unat a)"
proof -
  have "unat (drop_bit PAGE_SHIFT a) = pfn_of (unat a)" by (simp add: PAGE_SHIFT_def pfn_of_def drop_bit_eq_div unat_div)
  moreover have "pfn_of (unat a) < 2 ^ 32" using assms by (simp add: pfn_of_def less_mult_imp_div_less)
  ultimately show ?thesis by (simp add: unsigned_ucast_eq take_bit_nat_eq_self)
qed

lemma end_pfn_loop_max:
  assumes "\<forall>e\<in>set es. e_end e < 2 ^ 44" "lst \<le> lim"
  shows "unat (end_pfn_loop es lim ty lst) = Max (insert (unat lst) (ends es ty (unat lim)))"
  using assms
proof (induction es arbitrary: lst)
  case Nil
  then show ?case by (simp add: ends_def)
next
  case (Cons e es)
  have fin: "finite (ends es ty (unat lim))" for es by (simp add: ends_def)
  have b: "e_end e < 2 ^ 44" using Cons.prems by simp
  then have "unat (e_addr e + e_size e) = e_end e" "unat (e_addr e) < 2 ^ 44"
    by (simp_all add: e_end_def unat_add_no_wrap)
  then have s: "unat (ucast (drop_bit PAGE_SHIFT (e_addr e)) :: ulong) = pfn_of (unat (e_addr e))"
    "unat (ucast (drop_bit PAGE_SHIFT (e_addr e + e_size e)) :: ulong) = pfn_of (e_end e)"
    using b by (simp_all add: pfn_word)
  have ins: "ends (e # es) ty (unat lim) = (if e_type e = ty \<and> pfn_of (unat (e_addr e)) < unat lim
      then insert (min (unat lim) (pfn_of (e_end e))) (ends es ty (unat lim)) else ends es ty (unat lim))"
    by (auto simp: ends_def)
  have le: "x \<le> unat lim" if "x \<in> ends es ty (unat lim)" for x using that by (auto simp: ends_def)
  consider (skip) "\<not> (e_type e = ty \<and> pfn_of (unat (e_addr e)) < unat lim)"
    | (brk) "e_type e = ty" "pfn_of (unat (e_addr e)) < unat lim" "unat lim < pfn_of (e_end e)"
    | (go) "e_type e = ty" "pfn_of (unat (e_addr e)) < unat lim" "pfn_of (e_end e) \<le> unat lim" by fastforce
  then show ?case
  proof cases
    case skip
    then show ?thesis using Cons ins s by (auto simp: word_le_unat not_less)
  next
    case brk
    have "Max (insert (unat lst) (insert (unat lim) (ends es ty (unat lim)))) = unat lim"
      using Cons.prems(2) le fin by (intro Max_eqI) (auto simp: word_le_unat)
    then show ?thesis using brk ins s by (simp add: word_le_unat word_less_unat not_le)
  next
    case go
    let ?l = "if (ucast (drop_bit PAGE_SHIFT (e_addr e + e_size e)) :: ulong) > lst
      then ucast (drop_bit PAGE_SHIFT (e_addr e + e_size e)) else lst"
    have l: "unat ?l = max (unat lst) (pfn_of (e_end e))" using s by (auto simp: word_less_unat max_def)
    then have "?l \<le> lim" using Cons.prems(2) go by (simp add: word_le_unat)
    then have "unat (end_pfn_loop es lim ty ?l) = Max (insert (unat ?l) (ends es ty (unat lim)))"
      using Cons by simp
    also have "\<dots> = Max (insert (unat lst) (insert (pfn_of (e_end e)) (ends es ty (unat lim))))"
      unfolding l using fin by (cases "ends es ty (unat lim) = {}") (simp_all add: max.assoc)
    finally show ?thesis using go ins s by (simp add: word_le_unat word_less_unat not_le not_less min_def)
  qed
qed

text \<open>C31. For entries below 16 TiB, whose frame numbers fit in 32 bits, the end of RAM is the
  largest end of a RAM entry, cut off at 4 GiB, and 0 without such an entry.\<close>

theorem e820_end_of_ram_correct:
  assumes "\<forall>e\<in>set (take (nr_map m) (e820_entries m)). e_end e < 2 ^ 44"
  shows "unat (e820_end_of_ram_pfn m) =
    Max (insert 0 ((\<lambda>e. min (2 ^ 20) (e_end e div 4096)) `
      {e \<in> set (take (nr_map m) (e820_entries m)). e_type e = E820_RAM \<and> unat (e_addr e) < 2 ^ 32}))"
proof -
  let ?es = "take (nr_map m) (e820_entries m)"
  have lim: "unat (ucast MAX_ARCH_PFN :: ulong) = 2 ^ 20" by (simp add: MAX_ARCH_PFN_def PAGE_SHIFT_def)
  have e: "ends ?es E820_RAM (2 ^ 20) = (\<lambda>e. min (2 ^ 20) (e_end e div 4096)) `
      {e \<in> set ?es. e_type e = E820_RAM \<and> unat (e_addr e) < 2 ^ 32}"
    by (simp add: ends_def pfn_of_def div_less_iff_less_mult)
  have l: "unat (end_pfn_loop ?es (ucast MAX_ARCH_PFN) E820_RAM 0) = Max (insert 0 (ends ?es E820_RAM (2 ^ 20)))"
    using end_pfn_loop_max [OF assms, of 0 "ucast MAX_ARCH_PFN" E820_RAM] lim by simp
  also have "\<dots> \<le> 2 ^ 20" by (subst Max_le_iff) (auto simp: ends_def)
  finally have "\<not> end_pfn_loop ?es (ucast MAX_ARCH_PFN) E820_RAM 0 > ucast MAX_ARCH_PFN"
    unfolding word_less_unat lim by simp
  then show ?thesis using l e by (simp add: e820_end_of_ram_pfn_def e820_end_pfn_def)
qed

theorem e820_end_of_ram_correct_witness:
  "unat (e820_end_of_ram_pfn \<lparr>nr_map = 3, e820_entries = example_bios\<rparr>) = 0x800"
proof -
  have "take 3 example_bios = [\<lparr>e_addr = 0, e_size = 0xA0000, e_type = 1\<rparr>, \<lparr>e_addr = 0x9F000, e_size = 0x61000, e_type = 2\<rparr>,
      \<lparr>e_addr = 0x100000, e_size = 0x700000, e_type = 1\<rparr>]" by (simp add: example_bios_def)
  moreover from this have "{e \<in> set (take 3 example_bios). e_type e = E820_RAM \<and> unat (e_addr e) < 2 ^ 32} =
      {\<lparr>e_addr = 0, e_size = 0xA0000, e_type = 1\<rparr>, \<lparr>e_addr = 0x100000, e_size = 0x700000, e_type = 1\<rparr>}"
    by (auto simp: E820_RAM_def)
  ultimately show ?thesis
    using e820_end_of_ram_correct [of "\<lparr>nr_map = 3, e820_entries = example_bios\<rparr>"] by (simp add: e_end_def)
qed

end
