(* ===== verification/Page_Frame.thy ===== *)
theory Page_Frame
  imports Kernel_Util
begin

text \<open>
  Page frames: \<^verbatim>\<open>struct page\<close> (\<^verbatim>\<open>include/Xc/mm_types.h\<close>), its flag word
  (\<^verbatim>\<open>include/Xc/page-flags.h\<close>), the accessors of \<^verbatim>\<open>include/Xc/mm.h\<close> and
  \<^verbatim>\<open>mm/internal.h\<close>, and \<^verbatim>\<open>struct zone\<close> (\<^verbatim>\<open>include/Xc/mmzone.h\<close>) with the
  bitmap of migrate types. A pointer to a page is its frame number: \<^verbatim>\<open>mem_map\<close> is an
  array indexed by frame numbers, so that \<^verbatim>\<open>page_to_pfn\<close> and \<^verbatim>\<open>pfn_to_page\<close> are the
  identity and \<^verbatim>\<open>page + i\<close> is addition. The lists that link pages through \<^verbatim>\<open>lru\<close>
  are sequences of frame numbers (theory \<open>List_Head\<close>).
\<close>

section \<open>Flags\<close>

definition PG_locked :: nat where "PG_locked = 0"
definition PG_lru :: nat where "PG_lru = 5"
definition PG_active :: nat where "PG_active = 6"
definition PG_slab :: nat where "PG_slab = 7"
definition PG_reserved :: nat where "PG_reserved = 10"
definition PG_private :: nat where "PG_private = 11"
definition PG_private_2 :: nat where "PG_private_2 = 12"
definition PG_writeback :: nat where "PG_writeback = 13"
definition PG_head :: nat where "PG_head = 14"
definition PG_tail :: nat where "PG_tail = 15"
definition PG_swapcache :: nat where "PG_swapcache = 16"
definition PG_unevictable :: nat where "PG_unevictable = 20"
definition PG_mlocked :: nat where "PG_mlocked = 21"
definition NR_PAGEFLAGS :: nat where "NR_PAGEFLAGS = 22"

lemmas pageflags = PG_locked_def PG_lru_def PG_active_def PG_slab_def PG_reserved_def PG_private_def
  PG_private_2_def PG_writeback_def PG_head_def PG_tail_def PG_swapcache_def PG_unevictable_def
  PG_mlocked_def NR_PAGEFLAGS_def

definition flag :: "nat \<Rightarrow> ulong" where "flag n = push_bit n 1"

definition PAGE_FLAGS_CHECK_AT_FREE :: ulong where
  "PAGE_FLAGS_CHECK_AT_FREE =
     flag PG_lru OR flag PG_locked OR flag PG_private OR flag PG_private_2 OR flag PG_writeback
     OR flag PG_reserved OR flag PG_slab OR flag PG_swapcache OR flag PG_active
     OR flag PG_unevictable OR flag PG_mlocked"

definition PAGE_FLAGS_CHECK_AT_PREP :: ulong where
  "PAGE_FLAGS_CHECK_AT_PREP = flag NR_PAGEFLAGS - 1"

section \<open>Pages\<close>

text \<open>\<open>pg_freelist\<close> is the union of \<^verbatim>\<open>index\<close> and \<^verbatim>\<open>freelist\<close>, and
  \<open>pg_mapcount\<close> the union of \<^verbatim>\<open>counters\<close>, \<^verbatim>\<open>_mapcount\<close> and the bit fields \<^verbatim>\<open>inuse\<close>,
  \<^verbatim>\<open>objects\<close> and \<^verbatim>\<open>frozen\<close>, all in one word of 32 bits. \<open>pg_private\<close> is the union of \<^verbatim>\<open>private\<close>, \<^verbatim>\<open>slab\<close> and \<^verbatim>\<open>first_page\<close>.
  \<open>pg_comp_order\<close> and \<open>pg_comp_dtor\<close> are \<^verbatim>\<open>lru.prev\<close> and \<^verbatim>\<open>lru.next\<close> of the second
  page of a compound page, which is in no list.\<close>

datatype page_dtor = No_dtor | Free_compound_page

record page =
  pg_flags :: ulong
  pg_mapping :: ulong
  pg_freelist :: ulong
  pg_mapcount :: u32
  pg_count :: u32
  pg_private :: ulong
  pg_comp_order :: ulong
  pg_comp_dtor :: page_dtor

type_synonym mem_map = "nat \<Rightarrow> page"

definition test_page_flag :: "nat \<Rightarrow> page \<Rightarrow> bool" where
  "test_page_flag n p = bit (pg_flags p) n"

definition set_page_flag :: "nat \<Rightarrow> page \<Rightarrow> page" where
  "set_page_flag n p = p\<lparr>pg_flags := set_bit n (pg_flags p)\<rparr>"

definition clear_page_flag :: "nat \<Rightarrow> page \<Rightarrow> page" where
  "clear_page_flag n p = p\<lparr>pg_flags := unset_bit n (pg_flags p)\<rparr>"

definition PageCompound :: "page \<Rightarrow> bool" where
  "PageCompound p \<longleftrightarrow> pg_flags p AND (flag PG_head OR flag PG_tail) \<noteq> 0"

definition PageHead :: "page \<Rightarrow> bool" where "PageHead = test_page_flag PG_head"
definition PageTail :: "page \<Rightarrow> bool" where "PageTail = test_page_flag PG_tail"

text \<open>The size of \<^verbatim>\<open>struct page\<close> in bytes.\<close>

definition sizeof_page :: ulong where "sizeof_page = 32"

definition ZONES_PGSHIFT :: nat where "ZONES_PGSHIFT = 30"
definition ZONES_MASK :: ulong where "ZONES_MASK = push_bit 2 1 - 1"
definition NODES_PGSHIFT :: nat where "NODES_PGSHIFT = 0"
definition NODES_MASK :: ulong where "NODES_MASK = push_bit 0 1 - 1"

definition set_page_zone :: "page \<Rightarrow> nat \<Rightarrow> page" where
  "set_page_zone p z =
     (let f = pg_flags p AND NOT (push_bit ZONES_PGSHIFT ZONES_MASK)
      in p\<lparr>pg_flags := f OR push_bit ZONES_PGSHIFT (word_of_nat z AND ZONES_MASK)\<rparr>)"

definition set_page_node :: "page \<Rightarrow> nat \<Rightarrow> page" where
  "set_page_node p n =
     (let f = pg_flags p AND NOT (push_bit NODES_PGSHIFT NODES_MASK)
      in p\<lparr>pg_flags := f OR push_bit NODES_PGSHIFT (word_of_nat n AND NODES_MASK)\<rparr>)"

definition set_page_links :: "page \<Rightarrow> nat \<Rightarrow> nat \<Rightarrow> page" where
  "set_page_links p z n = set_page_node (set_page_zone p z) n"

definition page_to_nid :: "page \<Rightarrow> nat" where
  "page_to_nid p = unat (drop_bit NODES_PGSHIFT (pg_flags p) AND NODES_MASK)"

definition page_zonenum :: "page \<Rightarrow> nat" where
  "page_zonenum p = unat (drop_bit ZONES_PGSHIFT (pg_flags p) AND ZONES_MASK)"

definition page_zone_id :: "page \<Rightarrow> nat" where
  "page_zone_id p = unat (drop_bit ZONES_PGSHIFT (pg_flags p) AND ZONES_MASK)"

definition init_page_count :: "page \<Rightarrow> page" where "init_page_count p = p\<lparr>pg_count := 1\<rparr>"
definition set_page_count :: "page \<Rightarrow> u32 \<Rightarrow> page" where "set_page_count p v = p\<lparr>pg_count := v\<rparr>"
definition set_page_refcounted :: "page \<Rightarrow> page" where "set_page_refcounted p = set_page_count p 1"
definition reset_page_mapcount :: "page \<Rightarrow> page" where "reset_page_mapcount p = p\<lparr>pg_mapcount := -1\<rparr>"
definition page_mapcount :: "page \<Rightarrow> u32" where "page_mapcount p = pg_mapcount p + 1"

text \<open>\<^verbatim>\<open>put_page_testzero\<close>: the decremented page and whether its count is now 0.\<close>

definition put_page_testzero :: "page \<Rightarrow> page \<times> bool" where
  "put_page_testzero p = (p\<lparr>pg_count := pg_count p - 1\<rparr>, pg_count p - 1 = 0)"

definition PAGE_MAPPING_ANON :: ulong where "PAGE_MAPPING_ANON = 1"

definition PageAnon :: "page \<Rightarrow> bool" where
  "PageAnon p \<longleftrightarrow> pg_mapping p AND PAGE_MAPPING_ANON \<noteq> 0"

definition PAGE_BUDDY_MAPCOUNT_VALUE :: u32 where "PAGE_BUDDY_MAPCOUNT_VALUE = -128"

definition PageBuddy :: "page \<Rightarrow> bool" where
  "PageBuddy p \<longleftrightarrow> pg_mapcount p = PAGE_BUDDY_MAPCOUNT_VALUE"

definition uu_ClearPageBuddy :: "page \<Rightarrow> page" where "uu_ClearPageBuddy p = p\<lparr>pg_mapcount := -1\<rparr>"

definition uu_SetPageBuddy :: "page \<Rightarrow> page" where
  "uu_SetPageBuddy p = p\<lparr>pg_mapcount := PAGE_BUDDY_MAPCOUNT_VALUE\<rparr>"

definition set_page_private :: "page \<Rightarrow> ulong \<Rightarrow> page" where "set_page_private p v = p\<lparr>pg_private := v\<rparr>"

definition page_order :: "page \<Rightarrow> ulong" where "page_order p = pg_private p"

text \<open>The accessors of compound pages take the frame number, since they reach \<^verbatim>\<open>page[1]\<close>.\<close>

definition compound_order :: "mem_map \<Rightarrow> nat \<Rightarrow> ulong" where
  "compound_order m p = (if \<not> PageHead (m p) then 0 else pg_comp_order (m (p + 1)))"

definition set_compound_order :: "mem_map \<Rightarrow> nat \<Rightarrow> ulong \<Rightarrow> mem_map" where
  "set_compound_order m p order = m(p + 1 := (m (p + 1))\<lparr>pg_comp_order := order\<rparr>)"

definition get_compound_page_dtor :: "mem_map \<Rightarrow> nat \<Rightarrow> page_dtor" where
  "get_compound_page_dtor m p = pg_comp_dtor (m (p + 1))"

definition set_compound_page_dtor :: "mem_map \<Rightarrow> nat \<Rightarrow> page_dtor \<Rightarrow> mem_map" where
  "set_compound_page_dtor m p d = m(p + 1 := (m (p + 1))\<lparr>pg_comp_dtor := d\<rparr>)"

definition compound_head :: "mem_map \<Rightarrow> nat \<Rightarrow> nat" where
  "compound_head m p = (if PageTail (m p) then unat (pg_private (m p)) else p)"

lemmas page_defs [xc_defs] = set_page_zone_def set_page_node_def set_page_links_def init_page_count_def
  set_page_count_def set_page_refcounted_def reset_page_mapcount_def page_mapcount_def put_page_testzero_def
  PageBuddy_def uu_ClearPageBuddy_def uu_SetPageBuddy_def set_page_private_def page_order_def
  PAGE_BUDDY_MAPCOUNT_VALUE_def

section \<open>Zones\<close>

definition MAX_ORDER :: nat where "MAX_ORDER = 11"
definition MAX_ORDER_NR_PAGES :: ulong where "MAX_ORDER_NR_PAGES = push_bit (MAX_ORDER - 1) 1"
definition MAX_NR_ZONES :: nat where "MAX_NR_ZONES = 3"
definition ZONE_DMA :: nat where "ZONE_DMA = 0"
definition ZONE_NORMAL :: nat where "ZONE_NORMAL = 1"
definition ZONE_MOVABLE :: nat where "ZONE_MOVABLE = 2"
definition MIGRATE_UNMOVABLE :: nat where "MIGRATE_UNMOVABLE = 0"
definition MIGRATE_RECLAIMABLE :: nat where "MIGRATE_RECLAIMABLE = 1"
definition MIGRATE_MOVABLE :: nat where "MIGRATE_MOVABLE = 2"
definition MIGRATE_PCPTYPES :: nat where "MIGRATE_PCPTYPES = 3"
definition MIGRATE_RESERVE :: nat where "MIGRATE_RESERVE = 3"
definition MIGRATE_ISOLATE :: nat where "MIGRATE_ISOLATE = 4"
definition MIGRATE_TYPES :: nat where "MIGRATE_TYPES = 5"
definition PB_migrate :: nat where "PB_migrate = 0"
definition PB_migrate_end :: nat where "PB_migrate_end = PB_migrate + 3 - 1"
definition NR_PAGEBLOCK_BITS :: nat where "NR_PAGEBLOCK_BITS = PB_migrate_end + 1"
definition pageblock_order :: nat where "pageblock_order = 22 - PAGE_SHIFT"
definition pageblock_nr_pages :: nat where "pageblock_nr_pages = 2 ^ pageblock_order"

lemmas migratetypes = MIGRATE_UNMOVABLE_def MIGRATE_RECLAIMABLE_def MIGRATE_MOVABLE_def MIGRATE_PCPTYPES_def
  MIGRATE_RESERVE_def MIGRATE_ISOLATE_def MIGRATE_TYPES_def
lemmas pageblock_consts = PB_migrate_def PB_migrate_end_def NR_PAGEBLOCK_BITS_def pageblock_order_def
  pageblock_nr_pages_def PAGE_SHIFT_def

text \<open>\<open>zone_num\<close> is the index of the zone in \<^verbatim>\<open>node_zones\<close> (\<^verbatim>\<open>zone_idx\<close>). The two members of
  \<^verbatim>\<open>struct free_area\<close> are indexed by the order; \<^verbatim>\<open>vm_stat\<close> is cut down to the two counters
  that the allocator touches. The bitmap of migrate types is indexed by bits.\<close>

record zone =
  zone_num :: nat
  watermark :: "nat \<Rightarrow> ulong"
  lowmem_reserve :: "nat \<Rightarrow> ulong"
  all_unreclaimable :: u32
  free_list :: "nat \<Rightarrow> nat \<Rightarrow> nat list"
  nr_free :: "nat \<Rightarrow> ulong"
  pageblock_flags :: "nat \<Rightarrow> bool"
  pages_scanned :: ulong
  nr_free_pages :: ulong
  nr_mlock :: ulong
  zone_start_pfn :: ulong
  spanned_pages :: ulong
  present_pages :: ulong

definition populated_zone :: "zone \<Rightarrow> bool" where "populated_zone z \<longleftrightarrow> present_pages z \<noteq> 0"

section \<open>Migrate types of page blocks\<close>

definition pfn_to_bitidx :: "zone \<Rightarrow> nat \<Rightarrow> nat" where
  "pfn_to_bitidx z pfn =
     unat (drop_bit pageblock_order (word_of_nat pfn - zone_start_pfn z)) * NR_PAGEBLOCK_BITS"

text \<open>The loops over the bits of a group, from \<open>i\<close> for \<open>n\<close> bits.\<close>

primrec set_bits_loop :: "nat \<Rightarrow> nat \<Rightarrow> ulong \<Rightarrow> ulong \<Rightarrow> nat \<Rightarrow> (nat \<Rightarrow> bool) \<Rightarrow> nat \<Rightarrow> bool" where
  "set_bits_loop 0 i v flags bitidx bm = bm"
| "set_bits_loop (Suc n) i v flags bitidx bm =
     set_bits_loop n (i + 1) (push_bit 1 v) flags bitidx (bm(bitidx + i := flags AND v \<noteq> 0))"

primrec get_bits_loop :: "nat \<Rightarrow> nat \<Rightarrow> ulong \<Rightarrow> ulong \<Rightarrow> nat \<Rightarrow> (nat \<Rightarrow> bool) \<Rightarrow> ulong" where
  "get_bits_loop 0 i v flags bitidx bm = flags"
| "get_bits_loop (Suc n) i v flags bitidx bm =
     get_bits_loop n (i + 1) (push_bit 1 v) (if bm (bitidx + i) then flags OR v else flags) bitidx bm"

definition set_pageblock_flags_group :: "zone \<Rightarrow> nat \<Rightarrow> ulong \<Rightarrow> nat \<Rightarrow> nat \<Rightarrow> zone" where
  "set_pageblock_flags_group z pfn flags start_bitidx end_bitidx =
     z\<lparr>pageblock_flags := set_bits_loop (Suc end_bitidx - start_bitidx) start_bitidx 1 flags
         (pfn_to_bitidx z pfn) (pageblock_flags z)\<rparr>"

definition get_pageblock_flags_group :: "zone \<Rightarrow> nat \<Rightarrow> nat \<Rightarrow> nat \<Rightarrow> ulong" where
  "get_pageblock_flags_group z pfn start_bitidx end_bitidx =
     get_bits_loop (Suc end_bitidx - start_bitidx) start_bitidx 1 0 (pfn_to_bitidx z pfn) (pageblock_flags z)"

text \<open>\<^verbatim>\<open>page_group_by_mobility_disabled\<close> is set to 0 when the zone lists are built, and
  nothing else writes it; it is a parameter where the code reads it.\<close>

definition set_pageblock_migratetype :: "bool \<Rightarrow> zone \<Rightarrow> nat \<Rightarrow> nat \<Rightarrow> zone" where
  "set_pageblock_migratetype pgmd z pfn migratetype =
     (let mt = (if pgmd then MIGRATE_UNMOVABLE else migratetype)
      in set_pageblock_flags_group z pfn (word_of_nat mt) PB_migrate PB_migrate_end)"

definition get_pageblock_migratetype :: "zone \<Rightarrow> nat \<Rightarrow> nat" where
  "get_pageblock_migratetype z pfn = unat (get_pageblock_flags_group z pfn PB_migrate PB_migrate_end)"

section \<open>Zone numbers in the flag word\<close>

lemma top_mask: "(ZONES_MASK :: ulong) = 3" "push_bit ZONES_PGSHIFT ZONES_MASK = (0xC0000000 :: ulong)" "(NODES_MASK :: ulong) = 0"
  by (simp_all add: ZONES_MASK_def ZONES_PGSHIFT_def NODES_MASK_def)

text \<open>Literals are tested as integers.\<close>

lemma bit_literals: "bit (3 :: int) n \<longleftrightarrow> n < 2" "bit (0xC0000000 :: int) n \<longleftrightarrow> n = 30 \<or> n = 31"
  "bit (0x3FFFFF :: int) n \<longleftrightarrow> n < 22"
proof -
  have "(3 :: int) = mask 2" "(0x3FFFFF :: int) = mask 22" "(0xC0000000 :: int) = push_bit 30 (mask 2)"
    by (simp_all add: mask_eq_exp_minus_1)
  then show "bit (3 :: int) n \<longleftrightarrow> n < 2" "bit (0xC0000000 :: int) n \<longleftrightarrow> n = 30 \<or> n = 31"
    "bit (0x3FFFFF :: int) n \<longleftrightarrow> n < 22"
    by (auto simp only: bit_mask_iff bit_push_bit_iff possible_bit_int)
qed

lemma bit_3: "bit (3 :: ulong) n \<longleftrightarrow> n < 2"
  by (auto simp: bit_literals)

lemma page_zone_id_num: "page_zone_id = page_zonenum"
  by (simp add: fun_eq_iff page_zone_id_def page_zonenum_def)

lemma zonenum_bits: "page_zonenum p = unat (drop_bit 30 (pg_flags p))"
proof -
  have "drop_bit 30 f AND (3 :: ulong) = drop_bit 30 f" for f :: ulong
  proof (rule bit_word_eqI)
    fix n :: nat assume "n < LENGTH(32)"
    show "bit (drop_bit 30 f AND 3) n = bit (drop_bit 30 f) n"
      using bit_imp_le_length [of f "30 + n"] by (auto simp: bit_and_iff bit_drop_bit_eq bit_literals)
  qed
  then show ?thesis by (simp add: page_zonenum_def top_mask ZONES_PGSHIFT_def)
qed

lemma zonenum_cong:
  assumes "\<And>n. 30 \<le> n \<Longrightarrow> bit (pg_flags p) n = bit (pg_flags q) n"
  shows "page_zonenum p = page_zonenum q"
proof -
  have "drop_bit 30 (pg_flags p) = drop_bit 30 (pg_flags q)"
    by (rule bit_word_eqI) (simp add: bit_drop_bit_eq assms)
  then show ?thesis by (simp add: zonenum_bits)
qed

lemma zonenum_flag [simp]:
  assumes "n < 30"
  shows "page_zonenum (set_page_flag n p) = page_zonenum p" "page_zonenum (clear_page_flag n p) = page_zonenum p"
  by (rule zonenum_cong; use assms in \<open>auto simp: set_page_flag_def clear_page_flag_def bit_simps\<close>)+

lemma zonenum_other [simp]:
  "page_zonenum (p\<lparr>pg_mapcount := a\<rparr>) = page_zonenum p" "page_zonenum (p\<lparr>pg_count := b\<rparr>) = page_zonenum p"
  "page_zonenum (p\<lparr>pg_private := c\<rparr>) = page_zonenum p" "page_zonenum (p\<lparr>pg_mapping := d\<rparr>) = page_zonenum p"
  "page_zonenum (p\<lparr>pg_comp_order := e\<rparr>) = page_zonenum p" "page_zonenum (p\<lparr>pg_comp_dtor := g\<rparr>) = page_zonenum p"
  by (simp_all add: page_zonenum_def)

lemma bit_check_at_prep: "bit PAGE_FLAGS_CHECK_AT_PREP n \<longleftrightarrow> n < 22"
proof -
  have e: "PAGE_FLAGS_CHECK_AT_PREP = 0x3FFFFF"
    by (simp add: PAGE_FLAGS_CHECK_AT_PREP_def flag_def NR_PAGEFLAGS_def)
  show ?thesis unfolding e by (auto simp: bit_literals)
qed

lemma zonenum_prep [simp]:
  "page_zonenum (p\<lparr>pg_flags := pg_flags p AND NOT PAGE_FLAGS_CHECK_AT_PREP\<rparr>) = page_zonenum p"
  by (rule zonenum_cong) (auto simp: bit_simps bit_check_at_prep dest: bit_imp_le_length)

text \<open>The zone that is stored in the flag word of a page is read back by \<open>page_zonenum\<close> and
  by \<open>page_zone_id\<close>, for each of the four possible numbers; the flags below bit 30 are not
  touched, and setting or clearing one of them does not touch the zone.\<close>

theorem page_links_roundtrip:
  assumes "z < 4"
  shows "page_zonenum (set_page_links p z n) = z \<and> page_zone_id (set_page_links p z n) = z
    \<and> (\<forall>i<30. test_page_flag i (set_page_links p z n) = test_page_flag i p
         \<and> page_zonenum (set_page_flag i (set_page_links p z n)) = z
         \<and> page_zonenum (clear_page_flag i (set_page_links p z n)) = z)"
proof -
  let ?p = "set_page_links p z n"
  have w: "word_of_nat z AND (3 :: ulong) = word_of_nat z"
  proof -
    have "z = 0 \<or> z = 1 \<or> z = 2 \<or> z = 3" using assms by auto
    then show ?thesis by auto
  qed
  have f: "pg_flags ?p = pg_flags p AND NOT 0xC0000000 OR push_bit 30 (word_of_nat z)"
    by (simp add: set_page_links_def set_page_node_def set_page_zone_def top_mask Let_def w ZONES_PGSHIFT_def)
  have c: "bit (0xC0000000 :: ulong) i \<longleftrightarrow> 30 \<le> i" if "i < 32" for i
    using that by (auto simp: bit_literals)
  have "drop_bit 30 (pg_flags ?p) = word_of_nat z"
  proof (rule bit_word_eqI)
    fix i :: nat assume i: "i < LENGTH(32)"
    have z2: "bit (word_of_nat z :: ulong) i \<Longrightarrow> i < 2"
using w bit_3 [of i] by (metis bit_and_iff)
    show "bit (drop_bit 30 (pg_flags ?p)) i = bit (word_of_nat z :: ulong) i"
      using i c [of "30 + i"] z2 by (auto simp: f bit_simps)
  qed
  then have z: "page_zonenum ?p = z" using assms by (simp add: zonenum_bits unat_of_nat)
  moreover have "test_page_flag i ?p = test_page_flag i p" if "i < 30" for i
    using that c [of i] by (simp add: test_page_flag_def f bit_simps)
  ultimately show ?thesis by (simp add: page_zone_id_num)
qed

definition null_page :: page where
  "null_page = \<lparr>pg_flags = 0, pg_mapping = 0, pg_freelist = 0, pg_mapcount = 0, pg_count = 0, pg_private = 0,
     pg_comp_order = 0, pg_comp_dtor = No_dtor\<rparr>"

theorem page_links_roundtrip_witness:
  "page_zonenum (set_page_links null_page 2 0) = 2 \<and> page_zone_id (set_page_links null_page 2 0) = 2"
  using page_links_roundtrip [of 2 null_page 0] by simp

section \<open>The bitmap of migrate types\<close>

lemma set_bits_3:
  "set_bits_loop (Suc (Suc (Suc 0))) i 1 flags b bm =
     bm(b + i := bit flags 0, b + i + 1 := bit flags 1, b + i + 2 := bit flags 2)"
proof -
  have "flags AND 1 \<noteq> 0 \<longleftrightarrow> bit flags 0" "flags AND 2 \<noteq> 0 \<longleftrightarrow> bit flags 1" "flags AND 4 \<noteq> 0 \<longleftrightarrow> bit flags 2"
    using and_exp_eq_0_iff_not_bit [of flags 0] and_exp_eq_0_iff_not_bit [of flags 1]
      and_exp_eq_0_iff_not_bit [of flags 2] by simp_all
  then show ?thesis by simp
qed

definition bits3 :: "bool \<Rightarrow> bool \<Rightarrow> bool \<Rightarrow> nat" where
  "bits3 x y z = of_bool x + 2 * of_bool y + 4 * of_bool z"

lemma get_bits_3:
  "unat (get_bits_loop (Suc (Suc (Suc 0))) i 1 0 b bm) = bits3 (bm (b + i)) (bm (b + i + 1)) (bm (b + i + 2))"
  by (cases "bm (b + i)"; cases "bm (b + i + 1)"; cases "bm (b + i + 2)")
    (simp_all add: bits3_def)

lemma bits3_nat: "t < 8 \<Longrightarrow> bits3 (bit t 0) (bit t 1) (bit t 2) = t"
proof -
  assume "t < 8"
  then have "t = 0 \<or> t = 1 \<or> t = 2 \<or> t = 3 \<or> t = 4 \<or> t = 5 \<or> t = 6 \<or> t = 7" by auto
  then show ?thesis by (auto simp: bits3_def bit_iff_odd)
qed

lemma bits3_eq_iff: "bits3 a b c = bits3 a' b' c' \<longleftrightarrow> a = a' \<and> b = b' \<and> c = c'"
  by (cases a; cases b; cases c; cases a'; cases b'; cases c') (simp_all add: bits3_def)

definition block_of :: "zone \<Rightarrow> nat \<Rightarrow> nat" where
  "block_of z pfn = unat (drop_bit pageblock_order (word_of_nat pfn - zone_start_pfn z))"

lemma get_migratetype:
  "get_pageblock_migratetype z pfn =
     bits3 (pageblock_flags z (3 * block_of z pfn)) (pageblock_flags z (3 * block_of z pfn + 1))
       (pageblock_flags z (3 * block_of z pfn + 2))"
  using get_bits_3 [of PB_migrate "pfn_to_bitidx z pfn" "pageblock_flags z"]
  by (simp add: get_pageblock_migratetype_def get_pageblock_flags_group_def pageblock_consts
      pfn_to_bitidx_def block_of_def mult.commute numeral_3_eq_3 [symmetric])

lemma migratetype_set:
  assumes "t < 8"
  shows "get_pageblock_migratetype (set_pageblock_migratetype pgmd z p t) q =
    (if block_of z q = block_of z p then if pgmd then MIGRATE_UNMOVABLE else t else get_pageblock_migratetype z q)"
proof -
  define u where "u = (if pgmd then MIGRATE_UNMOVABLE else t)"
  let ?b = "block_of z p" and ?z = "set_pageblock_migratetype pgmd z p t"
  have u: "u < 8" using assms by (simp add: u_def migratetypes)
  have bits: "bit (word_of_nat u :: ulong) i \<longleftrightarrow> bit u i" if "i < 32" for i
    using that by (simp add: bit_of_nat_iff)
  have f: "pageblock_flags ?z = (pageblock_flags z)(3 * ?b := bit u 0, 3 * ?b + 1 := bit u 1, 3 * ?b + 2 := bit u 2)"
    using set_bits_3 [of PB_migrate "word_of_nat u" "pfn_to_bitidx z p" "pageblock_flags z"] bits
    by (simp add: set_pageblock_migratetype_def set_pageblock_flags_group_def pageblock_consts Let_def u_def
        pfn_to_bitidx_def block_of_def mult.commute numeral_3_eq_3 [symmetric])
  have b: "block_of ?z q = block_of z q"
    by (simp add: block_of_def set_pageblock_migratetype_def set_pageblock_flags_group_def Let_def)
  show ?thesis
  proof (cases "block_of z q = ?b")
    case True
    then show ?thesis using bits3_nat [OF u] unfolding get_migratetype b f by (simp add: u_def)
  next
    case False
    then show ?thesis unfolding get_migratetype b f by (simp add: bits3_eq_iff)
  qed
qed

text \<open>C38. After the migrate type of a block is set, every page of the block has that type (0 if
  grouping by mobility is disabled), and every page of another block keeps its type.\<close>

theorem pageblock_migratetype_roundtrip:
  assumes "t < 8"
  shows "get_pageblock_migratetype (set_pageblock_migratetype pgmd z p t) q =
    (if block_of z q = block_of z p then if pgmd then MIGRATE_UNMOVABLE else t else get_pageblock_migratetype z q)"
  by (rule migratetype_set [OF assms])

definition example_zone :: zone where
  "example_zone = \<lparr>zone_num = 1, watermark = (\<lambda>_. 0), lowmem_reserve = (\<lambda>_. 0), all_unreclaimable = 0,
     free_list = (\<lambda>_ _. []), nr_free = (\<lambda>_. 0), pageblock_flags = (\<lambda>_. False), pages_scanned = 0,
     nr_free_pages = 0, nr_mlock = 0, zone_start_pfn = 4096, spanned_pages = 4096, present_pages = 4096\<rparr>"

theorem pageblock_migratetype_roundtrip_witness:
  "get_pageblock_migratetype (set_pageblock_migratetype False example_zone 5120 2) 6143 = 2"
  using pageblock_migratetype_roundtrip [of 2 False example_zone 5120 6143]
  by (simp add: block_of_def example_zone_def pageblock_consts)

end
