(* ===== verification/Buddy.thy ===== *)
theory Buddy
  imports Page_Frame
begin

text \<open>
  The buddy allocator of \<^verbatim>\<open>mm/page_alloc.c\<close>: free blocks of \<^verbatim>\<open>2 ^ order\<close> pages are kept
  in lists, one for each order and migrate type. Freeing a block merges it with its buddy as
  long as the buddy is free (\<open>uu_free_one_page\<close>); allocating takes a block that is large
  enough and gives its unused halves back (\<open>uu_rmqueue_smallest\<close>, \<open>expand\<close>), and falls back to
  the lists of other migrate types (\<open>uu_rmqueue_fallback\<close>). The state is \<^verbatim>\<open>mem_map\<close> and one
  zone. The invariant \<open>buddy_inv\<close> ties the lists to the marks in the page frames and says
  that no two buddies are free at once.
\<close>

section \<open>Lists of pages\<close>

text \<open>\<^verbatim>\<open>list_del\<close> unlinks a page from the list that it is in; at the level of sequences
  it disappears from every list.\<close>

definition lru_del :: "zone \<Rightarrow> nat \<Rightarrow> zone" where
  "lru_del z p = z\<lparr>free_list := (\<lambda>k t. remove1 p (free_list z k t))\<rparr>"

definition lru_add :: "zone \<Rightarrow> nat \<Rightarrow> nat \<Rightarrow> nat \<Rightarrow> zone" where
  "lru_add z p order t =
     z\<lparr>free_list := (free_list z)(order := (free_list z order)(t := p # free_list z order t))\<rparr>"

definition lru_add_tail :: "zone \<Rightarrow> nat \<Rightarrow> nat \<Rightarrow> nat \<Rightarrow> zone" where
  "lru_add_tail z p order t =
     z\<lparr>free_list := (free_list z)(order := (free_list z order)(t := free_list z order t @ [p]))\<rparr>"

definition lru_move :: "zone \<Rightarrow> nat \<Rightarrow> nat \<Rightarrow> nat \<Rightarrow> zone" where
  "lru_move z p order t = lru_add (lru_del z p) p order t"

definition nr_free_dec :: "zone \<Rightarrow> nat \<Rightarrow> zone" where
  "nr_free_dec z order = z\<lparr>nr_free := (nr_free z)(order := nr_free z order - 1)\<rparr>"

definition nr_free_inc :: "zone \<Rightarrow> nat \<Rightarrow> zone" where
  "nr_free_inc z order = z\<lparr>nr_free := (nr_free z)(order := nr_free z order + 1)\<rparr>"

section \<open>Freeing\<close>

definition rmv_page_order :: "mem_map \<Rightarrow> nat \<Rightarrow> mem_map" where
  "rmv_page_order m p = m(p := set_page_private (uu_ClearPageBuddy (m p)) 0)"

definition set_page_order :: "mem_map \<Rightarrow> nat \<Rightarrow> nat \<Rightarrow> mem_map" where
  "set_page_order m p order = m(p := uu_SetPageBuddy (set_page_private (m p) (word_of_nat order)))"

definition uu_find_buddy_index :: "nat \<Rightarrow> nat \<Rightarrow> nat" where
  "uu_find_buddy_index page_idx order = page_idx XOR push_bit order 1"

text \<open>\<^verbatim>\<open>pfn_valid_within\<close> is 1.\<close>

definition page_is_buddy :: "page \<Rightarrow> page \<Rightarrow> nat \<Rightarrow> bool" where
  "page_is_buddy page buddy order =
     (if page_zone_id page \<noteq> page_zone_id buddy then False
      else PageBuddy buddy \<and> page_order buddy = word_of_nat order)"

text \<open>The bug in the loop is the source's: it clears the tail flag of the head page instead of
  the one of \<open>p\<close>. The result is the number of inconsistencies.\<close>

primrec destroy_loop :: "nat \<Rightarrow> nat \<Rightarrow> nat \<Rightarrow> mem_map \<Rightarrow> nat \<Rightarrow> mem_map \<times> nat" where
  "destroy_loop 0 i page m bad = (m, bad)"
| "destroy_loop (Suc n) i page m bad =
     (let p = page + i;
          bad' = (if \<not> PageTail (m p) \<or> pg_private (m p) \<noteq> word_of_nat page then bad + 1 else bad)
      in destroy_loop n (i + 1) page (m(page := clear_page_flag PG_tail (m page))) bad')"

definition destroy_compound_page :: "mem_map \<Rightarrow> nat \<Rightarrow> nat \<Rightarrow> mem_map \<times> nat" where
  "destroy_compound_page m page order =
     (let bad = (if compound_order m page \<noteq> word_of_nat order \<or> \<not> PageHead (m page) then 1 else 0);
          m' = m(page := clear_page_flag PG_head (m page))
      in destroy_loop (2 ^ order - 1) 1 page m' bad)"

text \<open>The merging loop of \<^verbatim>\<open>__free_one_page\<close>. The result holds \<^verbatim>\<open>page\<close>, \<^verbatim>\<open>page_idx\<close>,
  \<^verbatim>\<open>order\<close> and \<^verbatim>\<open>buddy_idx\<close> at the end of the loop.\<close>

function merge_loop :: "mem_map \<Rightarrow> zone \<Rightarrow> nat \<Rightarrow> nat \<Rightarrow> nat \<Rightarrow> nat \<Rightarrow> mem_map \<times> zone \<times> nat \<times> nat \<times> nat \<times> nat" where
  "merge_loop m z page page_idx order buddy_idx =
     (if order < MAX_ORDER - 1 then
        let buddy_idx = uu_find_buddy_index page_idx order;
            buddy = page + buddy_idx - page_idx
        in if \<not> page_is_buddy (m page) (m buddy) order then (m, z, page, page_idx, order, buddy_idx)
           else
             let z1 = nr_free_dec (lru_del z buddy) order;
                 m1 = rmv_page_order m buddy;
                 combined_idx = buddy_idx AND page_idx
             in merge_loop m1 z1 (page + combined_idx - page_idx) combined_idx (order + 1) buddy_idx
      else (m, z, page, page_idx, order, buddy_idx))"
  by pat_completeness auto
termination
  by (relation "measure (\<lambda>(m, z, page, page_idx, order, buddy_idx). MAX_ORDER - order)") auto

declare merge_loop.simps [simp del]

text \<open>The choice between the head and the tail of the list. \<^verbatim>\<open>higher_buddy\<close> is computed from
  \<^verbatim>\<open>page\<close>, as in the source.\<close>

definition higher_buddy_free :: "mem_map \<Rightarrow> nat \<Rightarrow> nat \<Rightarrow> nat \<Rightarrow> nat \<Rightarrow> bool" where
  "higher_buddy_free m page page_idx order buddy_idx =
     (order < MAX_ORDER - 2 \<and>
      (let combined_idx = buddy_idx AND page_idx;
           higher_page = page + combined_idx - page_idx;
           buddy_idx = uu_find_buddy_index combined_idx (order + 1);
           higher_buddy = page + buddy_idx - combined_idx
       in page_is_buddy (m higher_page) (m higher_buddy) (order + 1)))"

definition uu_free_one_page :: "mem_map \<Rightarrow> zone \<Rightarrow> nat \<Rightarrow> nat \<Rightarrow> nat \<Rightarrow> mem_map \<times> zone" where
  "uu_free_one_page m z page order migratetype =
     (let (m, bad) = (if PageCompound (m page) then destroy_compound_page m page order else (m, 0))
      in if bad \<noteq> 0 then (m, z)
         else
           let page_idx = page AND (push_bit MAX_ORDER 1 - 1);
               (m, z, page, page_idx, order, buddy_idx) = merge_loop m z page page_idx order 0;
               m = set_page_order m page order;
               z = (if higher_buddy_free m page page_idx order buddy_idx
                    then lru_add_tail z page order migratetype else lru_add z page order migratetype)
           in (m, nr_free_inc z order))"

section \<open>Allocating\<close>

text \<open>The halves that are not needed go back to the lists of the smaller orders; \<^verbatim>\<open>area\<close> is
  always the one of order \<^verbatim>\<open>high\<close>.\<close>

fun expand :: "mem_map \<Rightarrow> zone \<Rightarrow> nat \<Rightarrow> nat \<Rightarrow> nat \<Rightarrow> nat \<Rightarrow> mem_map \<times> zone" where
  "expand m z page low 0 migratetype = (m, z)"
| "expand m z page low (Suc high) migratetype =
     (if Suc high > low then
        let size = 2 ^ high;
            z1 = nr_free_inc (lru_add z (page + size) high migratetype) high;
            m1 = set_page_order m (page + size) high
        in expand m1 z1 page low high migratetype
      else (m, z))"

fun rmqueue_from :: "mem_map \<Rightarrow> zone \<Rightarrow> nat \<Rightarrow> nat \<Rightarrow> nat list \<Rightarrow> (mem_map \<times> zone) \<times> nat option" where
  "rmqueue_from m z order migratetype [] = ((m, z), None)"
| "rmqueue_from m z order migratetype (current_order # os) =
     (case free_list z current_order migratetype of
        [] \<Rightarrow> rmqueue_from m z order migratetype os
      | page # _ \<Rightarrow>
          let z1 = nr_free_dec (lru_del z page) current_order;
              m1 = rmv_page_order m page
          in (expand m1 z1 page order current_order migratetype, Some page))"

definition uu_rmqueue_smallest :: "mem_map \<Rightarrow> zone \<Rightarrow> nat \<Rightarrow> nat \<Rightarrow> (mem_map \<times> zone) \<times> nat option" where
  "uu_rmqueue_smallest m z order migratetype = rmqueue_from m z order migratetype [order..<MAX_ORDER]"

function move_freepages :: "mem_map \<Rightarrow> zone \<Rightarrow> nat \<Rightarrow> nat \<Rightarrow> nat \<Rightarrow> nat \<Rightarrow> zone \<times> nat" where
  "move_freepages m z page end_page migratetype pages_moved =
     (if page \<le> end_page then
        if \<not> PageBuddy (m page) then move_freepages m z (page + 1) end_page migratetype pages_moved
        else
          let order = unat (page_order (m page));
              z1 = lru_move z page order migratetype
          in move_freepages m z1 (page + 2 ^ order) end_page migratetype (pages_moved + 2 ^ order)
      else (z, pages_moved))"
  by pat_completeness auto
termination
  by (relation "measure (\<lambda>(m, z, page, end_page, t, n). Suc end_page - page)") (auto intro!: diff_less_mono2)

declare move_freepages.simps [simp del]

definition move_freepages_block :: "mem_map \<Rightarrow> zone \<Rightarrow> nat \<Rightarrow> nat \<Rightarrow> zone \<times> nat" where
  "move_freepages_block m z page migratetype =
     (let start_pfn = page - page mod pageblock_nr_pages;
          end_page = start_pfn + pageblock_nr_pages - 1;
          start_page = (if start_pfn < unat (zone_start_pfn z) then page else start_pfn)
      in if end_page \<ge> unat (zone_start_pfn z + spanned_pages z) then (z, 0)
         else move_freepages m z start_page end_page migratetype 0)"

primrec change_loop :: "bool \<Rightarrow> nat \<Rightarrow> zone \<Rightarrow> nat \<Rightarrow> nat \<Rightarrow> zone" where
  "change_loop pgmd 0 z page t = z"
| "change_loop pgmd (Suc n) z page t =
     change_loop pgmd n (set_pageblock_migratetype pgmd z page t) (page + pageblock_nr_pages) t"

definition change_pageblock_range :: "bool \<Rightarrow> zone \<Rightarrow> nat \<Rightarrow> nat \<Rightarrow> nat \<Rightarrow> zone" where
  "change_pageblock_range pgmd z page start_order t = change_loop pgmd (2 ^ (start_order - pageblock_order)) z page t"

text \<open>The rows of \<^verbatim>\<open>fallbacks\<close>; entries without an initializer are 0.\<close>

definition fallbacks :: "nat \<Rightarrow> nat list" where
  "fallbacks t =
     (if t = MIGRATE_UNMOVABLE then [MIGRATE_RECLAIMABLE, MIGRATE_MOVABLE, MIGRATE_RESERVE, 0, 0]
      else if t = MIGRATE_RECLAIMABLE then [MIGRATE_UNMOVABLE, MIGRATE_MOVABLE, MIGRATE_RESERVE, 0, 0]
      else if t = MIGRATE_MOVABLE then [MIGRATE_RECLAIMABLE, MIGRATE_UNMOVABLE, MIGRATE_RESERVE, 0, 0]
      else if t = MIGRATE_RESERVE then [MIGRATE_RESERVE, MIGRATE_RESERVE, MIGRATE_RESERVE, 0, 0]
      else [0, 0, 0, 0, 0])"

text \<open>What happens once a page has been found in a list of another migrate type.\<close>

definition fallback_take ::
  "bool \<Rightarrow> mem_map \<Rightarrow> zone \<Rightarrow> nat \<Rightarrow> nat \<Rightarrow> nat \<Rightarrow> nat \<Rightarrow> nat \<Rightarrow> mem_map \<times> zone" where
  "fallback_take pgmd m z order start_migratetype current_order migratetype page =
     (let z = nr_free_dec z current_order;
          steal = (current_order \<ge> pageblock_order div 2 \<or> start_migratetype = MIGRATE_RECLAIMABLE \<or> pgmd);
          z = (if steal then
                 let (z, pages) = move_freepages_block m z page start_migratetype
                 in if pages \<ge> 2 ^ (pageblock_order - 1) \<or> pgmd
                    then set_pageblock_migratetype pgmd z page start_migratetype else z
               else z);
          migratetype = (if steal then start_migratetype else migratetype);
          z = lru_del z page;
          m = rmv_page_order m page;
          z = (if current_order \<ge> pageblock_order
               then change_pageblock_range pgmd z page current_order start_migratetype else z)
      in expand m z page order current_order migratetype)"

fun fallback_types ::
  "bool \<Rightarrow> mem_map \<Rightarrow> zone \<Rightarrow> nat \<Rightarrow> nat \<Rightarrow> nat \<Rightarrow> nat list \<Rightarrow> ((mem_map \<times> zone) \<times> nat) option" where
  "fallback_types pgmd m z order start current_order [] = None"
| "fallback_types pgmd m z order start current_order (t # ts) =
     (if t = MIGRATE_RESERVE then fallback_types pgmd m z order start current_order ts
      else case free_list z current_order t of
        [] \<Rightarrow> fallback_types pgmd m z order start current_order ts
      | page # _ \<Rightarrow> Some (fallback_take pgmd m z order start current_order t page, page))"

fun fallback_orders ::
  "bool \<Rightarrow> mem_map \<Rightarrow> zone \<Rightarrow> nat \<Rightarrow> nat \<Rightarrow> nat list \<Rightarrow> (mem_map \<times> zone) \<times> nat option" where
  "fallback_orders pgmd m z order start [] = ((m, z), None)"
| "fallback_orders pgmd m z order start (current_order # os) =
     (case fallback_types pgmd m z order start current_order (fallbacks start) of
        Some (s, page) \<Rightarrow> (s, Some page)
      | None \<Rightarrow> fallback_orders pgmd m z order start os)"

definition uu_rmqueue_fallback :: "bool \<Rightarrow> mem_map \<Rightarrow> zone \<Rightarrow> nat \<Rightarrow> nat \<Rightarrow> (mem_map \<times> zone) \<times> nat option" where
  "uu_rmqueue_fallback pgmd m z order start = fallback_orders pgmd m z order start (rev [order..<MAX_ORDER])"

text \<open>\<^verbatim>\<open>goto retry_reserve\<close> is taken at most once, since the type then is
  \<^verbatim>\<open>MIGRATE_RESERVE\<close>.\<close>

definition uu_rmqueue :: "bool \<Rightarrow> mem_map \<Rightarrow> zone \<Rightarrow> nat \<Rightarrow> nat \<Rightarrow> (mem_map \<times> zone) \<times> nat option" where
  "uu_rmqueue pgmd m z order migratetype =
     (case uu_rmqueue_smallest m z order migratetype of
        (s, Some page) \<Rightarrow> (s, Some page)
      | (s, None) \<Rightarrow>
          if migratetype \<noteq> MIGRATE_RESERVE then
            case uu_rmqueue_fallback pgmd (fst s) (snd s) order migratetype of
              (s, Some page) \<Rightarrow> (s, Some page)
            | (s, None) \<Rightarrow> uu_rmqueue_smallest (fst s) (snd s) order MIGRATE_RESERVE
          else (s, None))"

section \<open>Buddies\<close>

lemma unset_bit_nat: "unset_bit k (p :: nat) = (if bit p k then p - 2 ^ k else p)"
proof (cases "bit p k")
  case True
  have "set_bit k (unset_bit k p) = p" by (rule bit_eqI) (use True in \<open>auto simp: bit_simps\<close>)
  moreover have "set_bit k (unset_bit k p) = unset_bit k p + 2 ^ k" by (simp add: set_bit_eq bit_unset_bit_iff)
  ultimately have "unset_bit k p + 2 ^ k = p" by simp
  then show ?thesis using True by simp
next
  case False
  have "unset_bit k p = p" by (rule bit_eqI) (use False in \<open>auto simp: bit_simps\<close>)
  then show ?thesis using False by simp
qed

lemma bit_exp_le: "bit (p :: nat) k \<Longrightarrow> 2 ^ k \<le> p"
  by (metis bit_iff_odd div_less even_zero not_le)

lemma buddy_index: "uu_find_buddy_index p k = (if bit p k then p - 2 ^ k else p + 2 ^ k)"
proof -
  have "uu_find_buddy_index p k = flip_bit k p" by (simp add: uu_find_buddy_index_def flip_bit_def)
  also have "\<dots> = (if bit p k then unset_bit k p else set_bit k p)"
    by (rule bit_eqI) (auto simp: bit_simps)
  finally show ?thesis by (simp add: unset_bit_nat set_bit_eq)
qed

lemma combined_index: "uu_find_buddy_index p k AND p = (if bit p k then p - 2 ^ k else p)"
proof -
  have "uu_find_buddy_index p k AND p = unset_bit k p"
    by (rule bit_eqI) (auto simp: uu_find_buddy_index_def bit_simps)
  then show ?thesis by (simp add: unset_bit_nat)
qed

lemma buddy_index_twice: "uu_find_buddy_index (uu_find_buddy_index p k) k = p"
  by (simp add: uu_find_buddy_index_def xor.assoc)

definition low_idx :: "nat \<Rightarrow> nat" where
  "low_idx p = p AND (push_bit MAX_ORDER 1 - 1)"

lemma low_idx_take: "low_idx p = take_bit 11 p"
proof -
  have "push_bit MAX_ORDER 1 - (1 :: nat) = mask 11" by (simp add: MAX_ORDER_def mask_eq_exp_minus_1)
  then show ?thesis unfolding low_idx_def by (simp only: take_bit_eq_mask)
qed

lemma bit_low_idx: "k < 11 \<Longrightarrow> bit (low_idx p) k = bit p k"
  by (simp add: low_idx_take bit_take_bit_iff)

lemma low_idx_le: "low_idx p \<le> p" by (simp add: low_idx_take take_bit_eq_mod)

text \<open>The index arithmetic of the loop, read on frame numbers.\<close>

lemma buddy_page:
  assumes "k < 11"
  shows "p + uu_find_buddy_index (low_idx p) k - low_idx p = uu_find_buddy_index p k"
  using low_idx_le [of p] bit_exp_le [of "low_idx p" k] unfolding buddy_index bit_low_idx [OF assms] by auto

lemma combined_page:
  assumes "k < 11"
  shows "p + (uu_find_buddy_index (low_idx p) k AND low_idx p) - low_idx p = uu_find_buddy_index p k AND p"
  using low_idx_le [of p] bit_exp_le [of "low_idx p" k] unfolding combined_index bit_low_idx [OF assms] by auto

lemma combined_low:
  assumes "k < 11"
  shows "uu_find_buddy_index (low_idx p) k AND low_idx p = low_idx (uu_find_buddy_index p k AND p)"
proof (rule bit_eqI)
  fix n
  show "bit (uu_find_buddy_index (low_idx p) k AND low_idx p) n = bit (low_idx (uu_find_buddy_index p k AND p)) n"
    by (auto simp: uu_find_buddy_index_def low_idx_take bit_simps)
qed

definition blk :: "nat \<Rightarrow> nat \<Rightarrow> nat set" where
  "blk p k = {p..<p + 2 ^ k}"

lemma aligned_parity:
  assumes "2 ^ k dvd (p :: nat)"
  obtains a where "p = 2 ^ Suc k * a" "\<not> bit p k" | a where "p = 2 ^ Suc k * a + 2 ^ k" "bit p k"
proof -
  obtain c where c: "p = 2 ^ k * c" using assms by blast
  show thesis
  proof (cases "even c")
    case True
    then obtain a where "c = 2 * a" by blast
    then show thesis using that(1) [of a] c by (simp add: bit_iff_odd algebra_simps)
  next
    case False
    then obtain a where "c = 2 * a + 1" by (rule oddE)
    then show thesis using that(2) [of a] c by (simp add: bit_iff_odd algebra_simps)
  qed
qed

lemma buddy_blocks:
  assumes "2 ^ k dvd p"
  defines "q \<equiv> uu_find_buddy_index p k" and "c \<equiv> uu_find_buddy_index p k AND p"
  shows "2 ^ k dvd q" "q \<noteq> p" "2 ^ Suc k dvd c" "blk c (Suc k) = blk p k \<union> blk q k" "c \<in> {p, q}"
    "blk p k \<inter> blk q k = {}"
proof -
  have "2 ^ k dvd q \<and> q \<noteq> p \<and> 2 ^ Suc k dvd c \<and> blk c (Suc k) = blk p k \<union> blk q k \<and> c \<in> {p, q} \<and> blk p k \<inter> blk q k = {}"
    using assms(1)
  proof (cases rule: aligned_parity)
    case (1 a)
    then have "q = p + 2 ^ k" "c = p" using buddy_index [of p k] combined_index [of p k] by (simp_all add: q_def c_def)
    then show ?thesis using 1 assms(1) by (auto simp: blk_def)
  next
    case (2 a)
    then have "q = 2 ^ Suc k * a" "c = 2 ^ Suc k * a"
      using buddy_index [of p k] combined_index [of p k] by (simp_all add: q_def c_def)
    then show ?thesis using 2 assms(1) by (auto simp: blk_def)
  qed
  then show "2 ^ k dvd q" "q \<noteq> p" "2 ^ Suc k dvd c" "blk c (Suc k) = blk p k \<union> blk q k" "c \<in> {p, q}"
    "blk p k \<inter> blk q k = {}" by blast+
qed

text \<open>Aligned blocks are disjoint or nested.\<close>

lemma blk_nonempty [simp]: "blk p k \<noteq> {}" "p \<in> blk p k" "finite (blk p k)" "card (blk p k) = 2 ^ k"
  by (simp_all add: blk_def)

section \<open>The free blocks of a zone\<close>

definition fl :: "zone \<Rightarrow> nat \<Rightarrow> nat list" where
  "fl z k = concat (map (free_list z k) [0..<MIGRATE_TYPES])"

definition fb :: "zone \<Rightarrow> (nat \<times> nat) set" where
  "fb z = {(p, k). k < MAX_ORDER \<and> p \<in> set (fl z k)}"

definition free_pages :: "zone \<Rightarrow> nat set" where
  "free_pages z = (\<Union>(p, k)\<in>fb z. blk p k)"

definition span :: "zone \<Rightarrow> nat set" where
  "span z = {unat (zone_start_pfn z)..<unat (zone_start_pfn z) + unat (spanned_pages z)}"

definition same_zone :: "zone \<Rightarrow> zone \<Rightarrow> bool" where
  "same_zone z z' \<longleftrightarrow> zone_num z' = zone_num z \<and> zone_start_pfn z' = zone_start_pfn z \<and> spanned_pages z' = spanned_pages z"

lemma same_zone_refl [simp]: "same_zone z z" by (simp add: same_zone_def)

lemma same_zone_trans [trans]: "same_zone x y \<Longrightarrow> same_zone y z \<Longrightarrow> same_zone x z" by (simp add: same_zone_def)

lemma same_zone_span: "same_zone z z' \<Longrightarrow> span z' = span z" by (simp add: same_zone_def span_def)

lemma same_zone_ops [simp]: "same_zone z (lru_del y p) = same_zone z y" "same_zone z (lru_add y p k t) = same_zone z y"
  "same_zone z (lru_add_tail y p k t) = same_zone z y" "same_zone z (nr_free_inc y k) = same_zone z y" "same_zone z (nr_free_dec y k) = same_zone z y"
  by (simp_all add: same_zone_def lru_del_def lru_add_def lru_add_tail_def nr_free_inc_def nr_free_dec_def)

lemma concat_remove1:
  "distinct (concat (map f ts)) \<Longrightarrow> concat (map (\<lambda>t. remove1 p (f t)) ts) = remove1 p (concat (map f ts))"
proof (induction ts)
  case (Cons t ts)
  show ?case
  proof (cases "p \<in> set (f t)")
    case True
    then have "p \<notin> set (concat (map f ts))" using Cons.prems by auto
    then show ?thesis using Cons True by (simp add: remove1_append remove1_idem)
  next
    case False
    then show ?thesis using Cons by (simp add: remove1_append remove1_idem)
  qed
qed simp

lemma concat_upd:
  "t < n \<Longrightarrow> mset (concat (map (f(t := xs)) [0..<n])) + mset (f t) = mset (concat (map f [0..<n])) + mset xs"
proof (induction n)
  case (Suc n)
  have "map (f(t := xs)) [0..<n] = map f [0..<n]" if "t = n" using that by simp
  then show ?case using Suc by (cases "t = n") (simp_all del: fun_upd_apply, simp_all add: add.commute add.left_commute)
qed simp

lemma fl_del: "distinct (fl z k) \<Longrightarrow> fl (lru_del z p) k = remove1 p (fl z k)"
  unfolding fl_def lru_del_def using concat_remove1 [of "free_list z k" "[0..<MIGRATE_TYPES]" p] by simp

lemma fl_add:
  assumes "t < MIGRATE_TYPES"
  shows "mset (fl (lru_add z p k t) j) = (if j = k then add_mset p (mset (fl z j)) else mset (fl z j))"
    "mset (fl (lru_add_tail z p k t) j) = (if j = k then add_mset p (mset (fl z j)) else mset (fl z j))"
  using concat_upd [OF assms, of "free_list z k" "p # free_list z k t"]
    concat_upd [OF assms, of "free_list z k" "free_list z k t @ [p]"]
  by (auto simp: fl_def lru_add_def lru_add_tail_def fun_upd_def)

lemma fl_nr [simp]: "fl (nr_free_inc z k) j = fl z j" "fl (nr_free_dec z k) j = fl z j"
  by (simp_all add: fl_def nr_free_inc_def nr_free_dec_def)

lemma nr_lru [simp]: "nr_free (lru_del z p) = nr_free z" "nr_free (lru_add z p k t) = nr_free z"
  "nr_free (lru_add_tail z p k t) = nr_free z"
  by (simp_all add: lru_del_def lru_add_def lru_add_tail_def)

section \<open>The invariant\<close>

definition zone_ok :: "mem_map \<Rightarrow> zone \<Rightarrow> bool" where
  "zone_ok m z \<longleftrightarrow> unat (zone_start_pfn z) + unat (spanned_pages z) < 2 ^ 32
     \<and> (\<forall>q\<in>span z. page_zone_id (m q) = zone_num z)"

definition buddy_inv :: "mem_map \<Rightarrow> zone \<Rightarrow> bool" where
  "buddy_inv m z \<longleftrightarrow> zone_ok m z
     \<and> (\<forall>k<MAX_ORDER. distinct (fl z k) \<and> nr_free z k = word_of_nat (length (fl z k)))
     \<and> (\<forall>(p, k)\<in>fb z. 2 ^ k dvd p \<and> blk p k \<subseteq> span z \<and> PageBuddy (m p) \<and> page_order (m p) = word_of_nat k)
     \<and> (\<forall>q. page_zone_id (m q) = zone_num z \<and> PageBuddy (m q) \<longrightarrow> (q, unat (page_order (m q))) \<in> fb z)
     \<and> (\<forall>(p, k)\<in>fb z. \<forall>(q, l)\<in>fb z. blk p k \<inter> blk q l \<noteq> {} \<longrightarrow> p = q \<and> k = l)
     \<and> (\<forall>(p, k)\<in>fb z. k < MAX_ORDER - 1 \<longrightarrow> (uu_find_buddy_index p k, k) \<notin> fb z)"

lemma buddy_invD:
  assumes "buddy_inv m z"
  shows "zone_ok m z" "k < MAX_ORDER \<Longrightarrow> distinct (fl z k)" "k < MAX_ORDER \<Longrightarrow> nr_free z k = word_of_nat (length (fl z k))"
    "(p, k) \<in> fb z \<Longrightarrow> 2 ^ k dvd p" "(p, k) \<in> fb z \<Longrightarrow> blk p k \<subseteq> span z"
    "(p, k) \<in> fb z \<Longrightarrow> PageBuddy (m p)" "(p, k) \<in> fb z \<Longrightarrow> page_order (m p) = word_of_nat k"
    "page_zone_id (m q) = zone_num z \<Longrightarrow> PageBuddy (m q) \<Longrightarrow> (q, unat (page_order (m q))) \<in> fb z"
    "(p, k) \<in> fb z \<Longrightarrow> (q, l) \<in> fb z \<Longrightarrow> x \<in> blk p k \<Longrightarrow> x \<in> blk q l \<Longrightarrow> p = q \<and> k = l"
    "(p, k) \<in> fb z \<Longrightarrow> k < MAX_ORDER - 1 \<Longrightarrow> (uu_find_buddy_index p k, k) \<notin> fb z"
  using assms unfolding buddy_inv_def by blast+

lemma buddy_invI:
  assumes "zone_ok m z" "\<And>k. k < MAX_ORDER \<Longrightarrow> distinct (fl z k)"
    "\<And>k. k < MAX_ORDER \<Longrightarrow> nr_free z k = word_of_nat (length (fl z k))"
    "\<And>p k. (p, k) \<in> fb z \<Longrightarrow> 2 ^ k dvd p \<and> blk p k \<subseteq> span z \<and> PageBuddy (m p) \<and> page_order (m p) = word_of_nat k"
    "\<And>q. page_zone_id (m q) = zone_num z \<Longrightarrow> PageBuddy (m q) \<Longrightarrow> (q, unat (page_order (m q))) \<in> fb z"
    "\<And>p k q l x. (p, k) \<in> fb z \<Longrightarrow> (q, l) \<in> fb z \<Longrightarrow> x \<in> blk p k \<Longrightarrow> x \<in> blk q l \<Longrightarrow> p = q \<and> k = l"
    "\<And>p k. (p, k) \<in> fb z \<Longrightarrow> k < MAX_ORDER - 1 \<Longrightarrow> (uu_find_buddy_index p k, k) \<notin> fb z"
  shows "buddy_inv m z"
  using assms unfolding buddy_inv_def by blast

lemma fb_order: "(p, k) \<in> fb z \<Longrightarrow> k < MAX_ORDER" by (simp add: fb_def)

lemma order_unat: "k < MAX_ORDER \<Longrightarrow> unat (word_of_nat k :: ulong) = k"
  by (simp add: MAX_ORDER_def unat_of_nat)

lemma zone_id_marks [simp]:
  "page_zone_id (rmv_page_order m p q) = page_zone_id (m q)" "page_zone_id (set_page_order m p k q) = page_zone_id (m q)"
  by (simp_all add: rmv_page_order_def set_page_order_def xc_defs page_zone_id_num)

lemma zone_ok_cong:
  assumes "zone_ok m z" "\<And>q. page_zone_id (m' q) = page_zone_id (m q)" "same_zone z z'"
  shows "zone_ok m' z'"
  using assms(1,2) same_zone_span [OF assms(3)] assms(3) by (simp add: zone_ok_def same_zone_def)

text \<open>The allocator changes only the marks of page frames, and only within the zone.\<close>

definition marks :: "nat set \<Rightarrow> mem_map \<Rightarrow> mem_map \<Rightarrow> bool" where
  "marks S m m' \<longleftrightarrow> (\<forall>q. (q \<notin> S \<longrightarrow> m' q = m q) \<and> pg_flags (m' q) = pg_flags (m q) \<and> pg_mapping (m' q) = pg_mapping (m q)
     \<and> pg_count (m' q) = pg_count (m q) \<and> pg_comp_order (m' q) = pg_comp_order (m q) \<and> pg_comp_dtor (m' q) = pg_comp_dtor (m q)
     \<and> pg_mapcount (m' q) \<in> {pg_mapcount (m q), -1, PAGE_BUDDY_MAPCOUNT_VALUE})"

lemma marks_refl [simp]: "marks S m m" by (simp add: marks_def)

lemma marks_trans [trans]:
  assumes "marks S m1 m2" "marks S m2 m3"
  shows "marks S m1 m3"
  using assms unfolding marks_def by (metis empty_iff insert_iff)

lemma marks_mono: "marks S m m' \<Longrightarrow> S \<subseteq> T \<Longrightarrow> marks T m m'"
  by (auto simp: marks_def)

lemma marks_rmv: "p \<in> S \<Longrightarrow> marks S m (rmv_page_order m p)"
  by (auto simp: marks_def rmv_page_order_def xc_defs)

lemma marks_set: "p \<in> S \<Longrightarrow> marks S m (set_page_order m p k)"
  by (auto simp: marks_def set_page_order_def xc_defs)

text \<open>Taking a block off its list.\<close>

lemma fb_del:
  assumes inv: "buddy_inv m z" and pk: "(p, k) \<in> fb z"
  shows "fb (lru_del z p) = fb z - {(p, k)}"
    and "\<And>j. j < MAX_ORDER \<Longrightarrow> j \<noteq> k \<Longrightarrow> fl (lru_del z p) j = fl z j"
proof -
  have no: "p \<notin> set (fl z j)" if "j < MAX_ORDER" "j \<noteq> k" for j
  proof
    assume "p \<in> set (fl z j)"
    then have "(p, j) \<in> fb z" using that by (simp add: fb_def)
    then show False using buddy_invD(9) [OF inv pk, of p j p] that by simp
  qed
  show ot: "fl (lru_del z p) j = fl z j" if "j < MAX_ORDER" "j \<noteq> k" for j
    using fl_del [OF buddy_invD(2) [OF inv that(1)], of p] no [OF that] by (simp add: remove1_idem)
  have k: "k < MAX_ORDER" using pk by (rule fb_order)
  have s: "set (fl (lru_del z p) k) = set (fl z k) - {p}"
    unfolding fl_del [OF buddy_invD(2) [OF inv k]] by (rule set_remove1_eq [OF buddy_invD(2) [OF inv k]])
  have "(q, j) \<in> fb (lru_del z p) \<longleftrightarrow> (q, j) \<in> fb z \<and> (q, j) \<noteq> (p, k)" for q j
  proof (cases "j = k")
    case True
    then show ?thesis using k s by (simp add: fb_def)
  next
    case False
    then show ?thesis using ot [of j] by (auto simp: fb_def)
  qed
  then show "fb (lru_del z p) = fb z - {(p, k)}" by (simp add: set_eq_iff split_paired_all)
qed

lemma buddy_take:
  assumes inv: "buddy_inv m z" and pk: "(p, k) \<in> fb z"
  defines "z' \<equiv> nr_free_dec (lru_del z p) k" and "m' \<equiv> rmv_page_order m p"
  shows "buddy_inv m' z'" "fb z' = fb z - {(p, k)}"
proof -
  have k: "k < MAX_ORDER" using pk by (rule fb_order)
  have same: "same_zone z z'" by (simp add: z'_def)
  show fb': "fb z' = fb z - {(p, k)}" using fb_del(1) [OF inv pk] by (simp add: z'_def fb_def)
  have fl': "fl z' j = (if j = k then remove1 p (fl z j) else fl z j)" if "j < MAX_ORDER" for j
    using fb_del(2) [OF inv pk that] fl_del [OF buddy_invD(2) [OF inv that]] by (simp add: z'_def)
  have pin: "p \<in> set (fl z k)" using pk by (simp add: fb_def)
  have m': "\<not> PageBuddy (m' p)" "\<And>q. q \<noteq> p \<Longrightarrow> m' q = m q" by (simp_all add: m'_def rmv_page_order_def xc_defs)
  show "buddy_inv m' z'"
  proof (rule buddy_invI)
    show "zone_ok m' z'" using zone_ok_cong [OF buddy_invD(1) [OF inv] _ same] by (simp add: m'_def)
    show "distinct (fl z' j)" if "j < MAX_ORDER" for j using fl' [OF that] buddy_invD(2) [OF inv that] by (auto simp: distinct_remove1)
    show "nr_free z' j = word_of_nat (length (fl z' j))" if "j < MAX_ORDER" for j
    proof (cases "j = k")
      case True
      have "length (fl z k) = Suc (length (remove1 p (fl z k)))"
        using pin by (simp add: length_remove1) (metis Suc_pred length_pos_if_in_set)
      then show ?thesis using True fl' [OF that] buddy_invD(3) [OF inv that] by (simp add: z'_def nr_free_dec_def)
    next
      case False
      then show ?thesis using fl' [OF that] buddy_invD(3) [OF inv that] by (simp add: z'_def nr_free_dec_def)
    qed
    fix q j assume qj: "(q, j) \<in> fb z'"
    then have old: "(q, j) \<in> fb z" and qp: "q \<noteq> p"
      using fb' buddy_invD(9) [OF inv pk, of q j p] by auto
    then show "2 ^ j dvd q \<and> blk q j \<subseteq> span z' \<and> PageBuddy (m' q) \<and> page_order (m' q) = word_of_nat j"
      using buddy_invD(4-7) [OF inv old] m'(2) [OF qp] same_zone_span [OF same] by simp
    show "j < MAX_ORDER - 1 \<Longrightarrow> (uu_find_buddy_index q j, j) \<notin> fb z'"
      using buddy_invD(10) [OF inv old] fb' by blast
  next
    fix q assume a: "page_zone_id (m' q) = zone_num z'" "PageBuddy (m' q)"
    then have "q \<noteq> p" using m'(1) by auto
    then show "(q, unat (page_order (m' q))) \<in> fb z'"
      using buddy_invD(8) [OF inv, of q] a m'(2) same fb' by (simp add: same_zone_def)
  next
    fix q j r l x assume "(q, j) \<in> fb z'" "(r, l) \<in> fb z'" "x \<in> blk q j" "x \<in> blk r l"
    then show "q = r \<and> j = l" using buddy_invD(9) [OF inv, of q j r l x] fb' by blast
  qed
qed

lemma free_pages_diff:
  assumes inv: "buddy_inv m z" and pk: "(p, k) \<in> fb z" and fb': "fb z' = fb z - {(p, k)}"
  shows "free_pages z' = free_pages z - blk p k" "blk p k \<subseteq> free_pages z"
proof -
  show "blk p k \<subseteq> free_pages z" using pk by (auto simp: free_pages_def)
  have "x \<in> free_pages z' \<longleftrightarrow> x \<in> free_pages z \<and> x \<notin> blk p k" for x
    unfolding free_pages_def fb' using buddy_invD(9) [OF inv pk, of _ _ x] by blast
  then show "free_pages z' = free_pages z - blk p k" by blast
qed

text \<open>Putting a block on a list.\<close>

lemma buddy_put:
  assumes inv: "buddy_inv m z" and k: "k < MAX_ORDER" and al: "2 ^ k dvd p" and sp: "blk p k \<subseteq> span z"
    and new: "blk p k \<inter> free_pages z = {}" and nb: "k < MAX_ORDER - 1 \<Longrightarrow> (uu_find_buddy_index p k, k) \<notin> fb z"
    and same: "same_zone z z'" and nr: "nr_free z' = (nr_free z)(k := nr_free z k + 1)"
    and lists: "\<And>j. mset (fl z' j) = (if j = k then add_mset p (mset (fl z j)) else mset (fl z j))"
  shows "buddy_inv (set_page_order m p k) z'" "fb z' = insert (p, k) (fb z)"
proof -
  let ?m = "set_page_order m p k"
  have set: "set (fl z' j) = (if j = k then insert p (set (fl z j)) else set (fl z j))" for j
    using lists [of j] by (metis set_mset_add_mset_insert set_mset_mset)
  show fb': "fb z' = insert (p, k) (fb z)"
    unfolding fb_def set using k by (auto split: if_splits)
  have pf: "x \<in> blk p k \<Longrightarrow> (q, j) \<in> fb z \<Longrightarrow> x \<notin> blk q j" for x q j using new unfolding free_pages_def by blast
  have pn: "(p, j) \<notin> fb z" for j using pf [of p p j] blk_nonempty(2) by blast
  have m': "PageBuddy (?m p)" "page_order (?m p) = word_of_nat k" "\<And>q. q \<noteq> p \<Longrightarrow> ?m q = m q"
    by (simp_all add: set_page_order_def xc_defs)
  show "buddy_inv ?m z'"
  proof (rule buddy_invI)
    show "zone_ok ?m z'" using zone_ok_cong [OF buddy_invD(1) [OF inv] _ same] by simp
    show "distinct (fl z' j)" if "j < MAX_ORDER" for j
    proof (cases "j = k")
      case True
      then have "mset (fl z' j) = mset (p # fl z j)" using lists by simp
      moreover have "distinct (p # fl z j)" using True buddy_invD(2) [OF inv that] pn [of k] k by (auto simp: fb_def)
      ultimately show ?thesis by (metis mset_eq_imp_distinct_iff)
    next
      case False
      then show ?thesis using lists [of j] buddy_invD(2) [OF inv that] by (metis mset_eq_imp_distinct_iff)
    qed
    show "nr_free z' j = word_of_nat (length (fl z' j))" if "j < MAX_ORDER" for j
    proof -
      have "length (fl z' j) = (if j = k then Suc (length (fl z j)) else length (fl z j))"
        using lists [of j] by (metis size_add_mset size_mset)
      then show ?thesis using buddy_invD(3) [OF inv that] by (auto simp: nr)
    qed
    fix q j assume "(q, j) \<in> fb z'"
    then consider "q = p" "j = k" | "(q, j) \<in> fb z" "q \<noteq> p" using fb' pn by blast
    then show "2 ^ j dvd q \<and> blk q j \<subseteq> span z' \<and> PageBuddy (?m q) \<and> page_order (?m q) = word_of_nat j"
    proof cases
      case 1
      then show ?thesis using al sp m' same_zone_span [OF same] by simp
    next
      case 2
      then show ?thesis using buddy_invD(4-7) [OF inv 2(1)] m'(3) same_zone_span [OF same] by simp
    qed
    assume "(q, j) \<in> fb z'" and j: "j < MAX_ORDER - 1"
    then consider "q = p" "j = k" | "(q, j) \<in> fb z" using fb' by blast
    then show "(uu_find_buddy_index q j, j) \<notin> fb z'"
    proof cases
      case 1
      then show ?thesis using nb j fb' buddy_blocks(2) [OF al] by auto
    next
      case 2
      have "uu_find_buddy_index q k \<noteq> p" if "j = k"
        using nb j that 2 buddy_index_twice [of q k] by auto
      then show ?thesis using buddy_invD(10) [OF inv 2 j] fb' by auto
    qed
  next
    fix q assume a: "page_zone_id (?m q) = zone_num z'" "PageBuddy (?m q)"
    show "(q, unat (page_order (?m q))) \<in> fb z'"
    proof (cases "q = p")
      case True
      then show ?thesis using m'(2) fb' order_unat [OF k] by simp
    next
      case False
      then show ?thesis using buddy_invD(8) [OF inv, of q] a m'(3) same fb' by (simp add: same_zone_def)
    qed
  next
    fix q j r l x assume "(q, j) \<in> fb z'" "(r, l) \<in> fb z'" "x \<in> blk q j" "x \<in> blk r l"
    moreover from this have "(q, j) = (p, k) \<or> (q, j) \<in> fb z" "(r, l) = (p, k) \<or> (r, l) \<in> fb z" by (simp_all add: fb')
    ultimately show "q = r \<and> j = l" using buddy_invD(9) [OF inv, of q j r l x] pf by auto
  qed
qed

lemma free_pages_insert: "fb z' = insert (p, k) (fb z) \<Longrightarrow> free_pages z' = free_pages z \<union> blk p k"
  by (auto simp: free_pages_def)

section \<open>Freeing a block\<close>

text \<open>A block that is held by nobody and in no list.\<close>

definition held :: "zone \<Rightarrow> nat \<Rightarrow> nat \<Rightarrow> bool" where
  "held z p k \<longleftrightarrow> k < MAX_ORDER \<and> 2 ^ k dvd p \<and> blk p k \<subseteq> span z \<and> blk p k \<inter> free_pages z = {}"

lemma page_is_buddy_iff:
  assumes inv: "buddy_inv m z" and h: "held z p k"
  shows "page_is_buddy (m p) (m (uu_find_buddy_index p k)) k \<longleftrightarrow> (uu_find_buddy_index p k, k) \<in> fb z"
proof -
  let ?q = "uu_find_buddy_index p k"
  have k: "k < MAX_ORDER" using h by (simp add: held_def)
  have "p \<in> span z" using h blk_nonempty(2) [of p k] by (auto simp: held_def)
  then have zp: "page_zone_id (m p) = zone_num z" using buddy_invD(1) [OF inv] by (simp add: zone_ok_def)
  show ?thesis
  proof
    assume "page_is_buddy (m p) (m ?q) k"
    then show "(?q, k) \<in> fb z"
      using buddy_invD(8) [OF inv, of ?q] zp order_unat [OF k] by (auto simp: page_is_buddy_def split: if_splits)
  next
    assume q: "(?q, k) \<in> fb z"
    then have "?q \<in> span z" using buddy_invD(5) [OF inv q] blk_nonempty(2) by blast
    then have "page_zone_id (m ?q) = zone_num z" using buddy_invD(1) [OF inv] by (simp add: zone_ok_def)
    then show "page_is_buddy (m p) (m ?q) k" using buddy_invD(6,7) [OF inv q] zp by (simp add: page_is_buddy_def)
  qed
qed

lemma free_pages_block: "(p, k) \<in> fb z \<Longrightarrow> blk p k \<subseteq> free_pages z"
  unfolding free_pages_def by blast

lemma merge_loop_correct:
  assumes "buddy_inv m z" "held z p k" "merge_loop m z p (low_idx p) k b = (m', z', p', i', k', b')"
  shows "buddy_inv m' z' \<and> same_zone z z' \<and> held z' p' k'
    \<and> (k' < MAX_ORDER - 1 \<longrightarrow> (uu_find_buddy_index p' k', k') \<notin> fb z')
    \<and> free_pages z' \<union> blk p' k' = free_pages z \<union> blk p k \<and> marks (free_pages z \<union> blk p k) m m'"
  using assms
proof (induction "MAX_ORDER - k" arbitrary: m z p k b rule: less_induct)
  case less
  note inv = less.prems(1) and h = less.prems(2)
  let ?q = "uu_find_buddy_index p k"
  show ?case
  proof (cases "k < MAX_ORDER - 1 \<and> (?q, k) \<in> fb z")
    case True
    then have k: "k < 11" "k < MAX_ORDER - 1" and q: "(?q, k) \<in> fb z" by (simp_all add: MAX_ORDER_def)
    define z1 where "z1 = nr_free_dec (lru_del z ?q) k"
    define m1 where "m1 = rmv_page_order m ?q"
    let ?c = "?q AND p"
    note tk = buddy_take [OF inv q, folded z1_def m1_def]
    note fp = free_pages_diff [OF inv q tk(2)]
    have same: "same_zone z z1" by (simp add: z1_def)
    have al: "2 ^ k dvd p" using h by (simp add: held_def)
    note bb = buddy_blocks [OF al]
    have "merge_loop m z p (low_idx p) k b = merge_loop m1 z1 ?c (low_idx ?c) (k + 1) (uu_find_buddy_index (low_idx p) k)"
      unfolding merge_loop.simps [of m z p "low_idx p" k b] Let_def buddy_page [OF k(1)]
        combined_page [OF k(1)] unfolding combined_low [OF k(1)]
      using True page_is_buddy_iff [OF inv h] by (simp add: z1_def m1_def)
    then have run: "merge_loop m1 z1 ?c (low_idx ?c) (k + 1) (uu_find_buddy_index (low_idx p) k) = (m', z', p', i', k', b')"
      using less.prems(3) by simp
    have "blk ?c (Suc k) \<subseteq> span z1" "blk ?c (Suc k) \<inter> free_pages z1 = {}"
      using bb(4) h buddy_invD(5) [OF inv q] same_zone_span [OF same] fp by (auto simp: held_def)
    then have h1: "held z1 ?c (k + 1)" using bb(3) k by (simp add: held_def)
    have S: "free_pages z1 \<union> blk ?c (k + 1) = free_pages z \<union> blk p k" using fp bb(4) free_pages_block [OF q] by auto
    have "?q \<in> free_pages z" using free_pages_block [OF q] blk_nonempty(2) by blast
    then have "marks (free_pages z \<union> blk p k) m m1" unfolding m1_def by (intro marks_rmv) simp
    note mk = marks_trans [OF this]
    have "MAX_ORDER - (k + 1) < MAX_ORDER - k" using k by simp
    from less.hyps [OF this tk(1) h1 run] show ?thesis
      using same same_zone_trans [OF same] mk unfolding S by auto
  next
    case False
    have "merge_loop m z p (low_idx p) k b =
      (m, z, p, low_idx p, k, if k < MAX_ORDER - 1 then uu_find_buddy_index (low_idx p) k else b)"
      using False page_is_buddy_iff [OF inv h] buddy_page [of k p]
      unfolding merge_loop.simps [of m z p "low_idx p" k b] Let_def by (auto simp: MAX_ORDER_def)
    then show ?thesis using less.prems False by auto
  qed
qed

lemma free_one_page_spec:
  assumes inv: "buddy_inv m z" and h: "held z p k" and t: "t < MIGRATE_TYPES" and nc: "\<not> PageCompound (m p)"
    and run: "uu_free_one_page m z p k t = (m', z')"
  shows "buddy_inv m' z' \<and> same_zone z z' \<and> free_pages z' = free_pages z \<union> blk p k
    \<and> marks (free_pages z \<union> blk p k) m m'"
proof -
  obtain m1 z1 p1 i1 k1 b1 where ml: "merge_loop m z p (low_idx p) k 0 = (m1, z1, p1, i1, k1, b1)"
    by (metis prod_cases6)
  note mc = merge_loop_correct [OF inv h ml]
  define z2 where "z2 = (if higher_buddy_free (set_page_order m1 p1 k1) p1 i1 k1 b1
      then lru_add_tail z1 p1 k1 t else lru_add z1 p1 k1 t)"
  have r: "m' = set_page_order m1 p1 k1" "z' = nr_free_inc z2 k1"
    using run nc ml [unfolded low_idx_def] unfolding uu_free_one_page_def Let_def z2_def by auto
  have h1: "k1 < MAX_ORDER" "2 ^ k1 dvd p1" "blk p1 k1 \<subseteq> span z1" "blk p1 k1 \<inter> free_pages z1 = {}"
    using mc by (auto simp: held_def)
  have same: "same_zone z1 z'" by (simp add: r z2_def)
  have nr: "nr_free z' = (nr_free z1)(k1 := nr_free z1 k1 + 1)" by (simp add: r nr_free_inc_def z2_def)
  have ls: "mset (fl z' j) = (if j = k1 then add_mset p1 (mset (fl z1 j)) else mset (fl z1 j))" for j
    by (simp add: r z2_def fl_add [OF t])
  note put = buddy_put [OF _ h1 _ same nr ls, of m1]
  have "buddy_inv m' z'" "fb z' = insert (p1, k1) (fb z1)" using put mc by (auto simp: r)
  moreover from this(2) have "free_pages z' = free_pages z1 \<union> blk p1 k1" by (rule free_pages_insert)
  moreover have "p1 \<in> free_pages z \<union> blk p k" using mc blk_nonempty(2) [of p1 k1] by blast
  then have "marks (free_pages z \<union> blk p k) m1 m'" unfolding r by (rule marks_set)
  ultimately show ?thesis using mc same_zone_trans [OF _ same] marks_trans by metis
qed

section \<open>Allocating a block\<close>

lemma expand_correct:
  assumes "buddy_inv m z" "held z p high" "low \<le> high" "t < MIGRATE_TYPES" "expand m z p low high t = (m', z')"
  shows "buddy_inv m' z' \<and> same_zone z z' \<and> held z' p low \<and> free_pages z' = free_pages z \<union> (blk p high - blk p low)
    \<and> marks (blk p high) m m'"
  using assms
proof (induction high arbitrary: m z)
  case 0
  then show ?case by simp
next
  case (Suc k)
  note inv = Suc.prems(1) and h = Suc.prems(2)
  show ?case
  proof (cases "low = Suc k")
    case True
    then show ?thesis using Suc.prems by simp
  next
    case False
    then have lk: "low \<le> k" using Suc.prems(3) by simp
    let ?q = "p + 2 ^ k"
    define z1 where "z1 = nr_free_inc (lru_add z ?q k t) k"
    define m1 where "m1 = set_page_order m ?q k"
    have al: "2 ^ Suc k dvd p" and kk: "Suc k < MAX_ORDER" using h by (simp_all add: held_def)
    have al': "2 ^ k dvd p" using al by (rule power_le_dvd) simp
    then have alq: "2 ^ k dvd ?q" by simp
    have nb: "\<not> bit p k" using al by (auto simp: bit_iff_odd)
    have bq: "uu_find_buddy_index p k = ?q" "uu_find_buddy_index ?q k = p"
      using buddy_index [of p k] nb buddy_index_twice [of p k] by simp_all
    have split: "blk p (Suc k) = blk p k \<union> blk ?q k" "blk p k \<inter> blk ?q k = {}" by (auto simp: blk_def)
    have new: "blk ?q k \<inter> free_pages z = {}" "blk ?q k \<subseteq> span z" using h split by (auto simp: held_def)
    have pn: "(p, k) \<notin> fb z"
    proof
      assume "(p, k) \<in> fb z"
      then have "p \<in> free_pages z" by (auto simp: free_pages_def intro!: bexI)
      then show False using h blk_nonempty(2) [of p "Suc k"] unfolding held_def by blast
    qed
    have same: "same_zone z z1" by (simp add: z1_def)
    have nr: "nr_free z1 = (nr_free z)(k := nr_free z k + 1)" by (simp add: z1_def nr_free_inc_def)
    have ls: "mset (fl z1 j) = (if j = k then add_mset ?q (mset (fl z j)) else mset (fl z j))" for j
      by (simp add: z1_def fl_add(1) [OF Suc.prems(4)])
    have "k < MAX_ORDER" "(uu_find_buddy_index ?q k, k) \<notin> fb z" using kk pn bq by simp_all
    note put = buddy_put [OF inv this(1) alq new(2) new(1) this(2) same nr ls]
    have "buddy_inv m1 z1" and fb1: "fb z1 = insert (?q, k) (fb z)" using put by (simp_all add: m1_def)
    moreover have fp: "free_pages z1 = free_pages z \<union> blk ?q k" by (rule free_pages_insert [OF fb1])
    moreover have "held z1 p k"
      using h al' kk split fp same_zone_span [OF same] by (auto simp: held_def)
    moreover have "expand m1 z1 p low k t = (m', z')"
      using Suc.prems(5) lk by (simp add: z1_def m1_def Let_def)
    ultimately have "buddy_inv m' z' \<and> same_zone z1 z' \<and> held z' p low \<and> free_pages z' = free_pages z1 \<union> (blk p k - blk p low)
        \<and> marks (blk p k) m1 m'"
      using Suc.IH lk Suc.prems(4) by blast
    moreover have "?q \<in> blk p (Suc k)" using split(1) blk_nonempty(2) by blast
    then have "marks (blk p (Suc k)) m m1" unfolding m1_def by (rule marks_set)
    then have mk: "marks (blk p k) m1 m' \<Longrightarrow> marks (blk p (Suc k)) m m'"
      using split(1) marks_mono [of "blk p k" m1 m'] marks_trans by blast
    moreover have "blk p low \<subseteq> blk p k" using lk by (auto simp: blk_def intro: less_le_trans power_increasing)
    ultimately show ?thesis
      using same_zone_trans [OF same] fp split mk by blast
  qed
qed

text \<open>What a successful allocation of an order leaves behind.\<close>

definition allocated :: "mem_map \<Rightarrow> zone \<Rightarrow> nat \<Rightarrow> nat \<Rightarrow> mem_map \<times> zone \<Rightarrow> bool" where
  "allocated m z p k s \<longleftrightarrow> marks (free_pages z) m (fst s) \<and> buddy_inv (fst s) (snd s) \<and> same_zone z (snd s) \<and> held (snd s) p k
     \<and> blk p k \<subseteq> free_pages z \<and> free_pages (snd s) = free_pages z - blk p k"

lemma in_fl: "p \<in> set (free_list z k t) \<Longrightarrow> t < MIGRATE_TYPES \<Longrightarrow> k < MAX_ORDER \<Longrightarrow> (p, k) \<in> fb z"
  by (auto simp: fb_def fl_def intro!: bexI [of _ t])

lemma take_expand:
  assumes inv: "buddy_inv m z" and pk: "(p, k) \<in> fb z" and lk: "low \<le> k" and t: "t < MIGRATE_TYPES"
  shows "allocated m z p low (expand (rmv_page_order m p) (nr_free_dec (lru_del z p) k) p low k t)"
proof -
  let ?z = "nr_free_dec (lru_del z p) k"
  obtain m' z' where e: "expand (rmv_page_order m p) ?z p low k t = (m', z')" by fastforce
  note tk = buddy_take [OF inv pk]
  note fp = free_pages_diff [OF inv pk tk(2)]
  have same: "same_zone z ?z" by simp
  have h: "held ?z p k"
    using fp buddy_invD(4,5) [OF inv pk] fb_order [OF pk] same_zone_span [OF same] by (auto simp: held_def)
  have sub: "blk p low \<subseteq> blk p k" using lk by (auto simp: blk_def intro: less_le_trans power_increasing)
  have bk: "blk p k \<subseteq> free_pages z" by (rule free_pages_block [OF pk])
  then have "p \<in> free_pages z" using blk_nonempty(2) by blast
  note mk = marks_trans [OF marks_rmv [OF this, of m]]
  show ?thesis
    using expand_correct [OF tk(1) h lk t e] e same_zone_trans [OF same] fp sub mk marks_mono [OF _ bk]
    by (auto simp: allocated_def)
qed

lemma rmqueue_from_correct:
  assumes "buddy_inv m z" "t < MIGRATE_TYPES" "\<forall>k\<in>set ks. low \<le> k \<and> k < MAX_ORDER"
  shows "case rmqueue_from m z low t ks of (s, None) \<Rightarrow> s = (m, z) \<and> (\<forall>k\<in>set ks. free_list z k t = [])
    | (s, Some p) \<Rightarrow> allocated m z p low s"
  using assms
proof (induction ks)
  case (Cons k ks)
  show ?case
  proof (cases "free_list z k t")
    case Nil
    then show ?thesis using Cons by (auto split: prod.splits option.splits)
  next
    case (Cons p ps)
    then have "(p, k) \<in> fb z" using Cons.prems in_fl [of p z k t] by simp
    then show ?thesis using take_expand [of m z p k low t] Cons Cons.prems by (simp add: Let_def)
  qed
qed simp

section \<open>Moving blocks between migrate types\<close>

definition relisted :: "zone \<Rightarrow> zone \<Rightarrow> bool" where
  "relisted z z' \<longleftrightarrow> same_zone z z' \<and> nr_free z' = nr_free z \<and> (\<forall>k<MAX_ORDER. mset (fl z' k) = mset (fl z k))"

lemma relisted_fb: "relisted z z' \<Longrightarrow> fb z' = fb z"
proof -
  assume r: "relisted z z'"
  have "k < MAX_ORDER \<Longrightarrow> set (fl z' k) = set (fl z k)" for k
    using r by (metis relisted_def set_mset_mset)
  then show ?thesis by (auto simp: fb_def)
qed

lemma relisted_inv:
  assumes inv: "buddy_inv m z" and r: "relisted z z'"
  shows "buddy_inv m z'"
proof -
  have same: "same_zone z z'" using r by (simp add: relisted_def)
  have l: "distinct (fl z' k) = distinct (fl z k)" "length (fl z' k) = length (fl z k)" if "k < MAX_ORDER" for k
    using r that by (metis relisted_def mset_eq_imp_distinct_iff, metis relisted_def size_mset)
  have zo: "zone_ok m z'" using zone_ok_cong [OF buddy_invD(1) [OF inv] _ same] by simp
  show ?thesis
    using inv zo r same l same_zone_span [OF same] unfolding buddy_inv_def relisted_fb [OF r]
    by (simp add: relisted_def same_zone_def)
qed

lemma relisted_trans: "relisted x y \<Longrightarrow> relisted y z \<Longrightarrow> relisted x z"
  unfolding relisted_def using same_zone_trans by auto

lemma lru_move_relisted:
  assumes inv: "buddy_inv m z" and pk: "(p, k) \<in> fb z" and t: "t < MIGRATE_TYPES"
  shows "relisted z (lru_move z p k t)"
proof -
  have "mset (fl (lru_move z p k t) j) = mset (fl z j)" if j: "j < MAX_ORDER" for j
  proof (cases "j = k")
    case True
    then have "p \<in> set (fl z j)" using pk by (simp add: fb_def)
    then show ?thesis
      using True fl_add(1) [OF t, of "lru_del z p" p k j] fl_del [OF buddy_invD(2) [OF inv j], of p]
      by (simp add: lru_move_def)
  next
    case False
    then show ?thesis
      using fl_add(1) [OF t, of "lru_del z p" p k j] fb_del(2) [OF inv pk j] by (simp add: lru_move_def)
  qed
  then show ?thesis by (simp add: relisted_def lru_move_def)
qed

lemma move_freepages_relisted:
  assumes "buddy_inv m z" "t < MIGRATE_TYPES" "{page..lst} \<subseteq> span z"
  shows "relisted z (fst (move_freepages m z page lst t n))"
  using assms
proof (induction m z page lst t n rule: move_freepages.induct)
  case (1 m z page lst t n)
  show ?case
  proof (cases "page \<le> lst \<and> PageBuddy (m page)")
    case True
    then have "page \<in> span z" using "1.prems"(3) by auto
    then have "page_zone_id (m page) = zone_num z" using buddy_invD(1) [OF "1.prems"(1)] by (simp add: zone_ok_def)
    then have "(page, unat (page_order (m page))) \<in> fb z" using buddy_invD(8) [OF "1.prems"(1)] True by blast
    then have r: "relisted z (lru_move z page (unat (page_order (m page))) t)" (is "relisted z ?z")
      by (rule lru_move_relisted [OF "1.prems"(1) _ "1.prems"(2)])
    have sp: "span ?z = span z" using r same_zone_span by (simp add: relisted_def)
    have "{page + 2 ^ unat (page_order (m page))..lst} \<subseteq> {page..lst}" by auto
    then have sub: "{page + 2 ^ unat (page_order (m page))..lst} \<subseteq> span ?z" using "1.prems"(3) sp by blast
    have "relisted ?z (fst (move_freepages m ?z (page + 2 ^ unat (page_order (m page))) lst t (n + 2 ^ unat (page_order (m page)))))"
      using "1.IH"(2) [OF _ _ refl refl relisted_inv [OF "1.prems"(1) r] "1.prems"(2) sub] True by simp
    then show ?thesis
      using True relisted_trans [OF r] unfolding move_freepages.simps [of m z page lst t n] by (simp add: Let_def)
  next
    case False
    have "{page + 1..lst} \<subseteq> {page..lst}" by auto
    then have "{page + 1..lst} \<subseteq> span z" using "1.prems"(3) by blast
    then show ?thesis
      using "1.IH"(1) "1.prems"(1,2) False unfolding move_freepages.simps [of m z page lst t n]
      by (cases "page \<le> lst") (simp_all add: relisted_def)
  qed
qed

lemma move_block_relisted:
  assumes inv: "buddy_inv m z" and t: "t < MIGRATE_TYPES" and p: "p \<in> span z"
  shows "relisted z (fst (move_freepages_block m z p t))"
proof -
  let ?s = "p - p mod pageblock_nr_pages"
  have "unat (zone_start_pfn z + spanned_pages z) = unat (zone_start_pfn z) + unat (spanned_pages z)"
    using buddy_invD(1) [OF inv] by (intro unat_add_no_wrap) (simp add: zone_ok_def)
  then have "{if ?s < unat (zone_start_pfn z) then p else ?s..?s + pageblock_nr_pages - 1} \<subseteq> span z"
    if "\<not> ?s + pageblock_nr_pages - 1 \<ge> unat (zone_start_pfn z + spanned_pages z)"
    using that p by (auto simp: span_def)
  then show ?thesis
    using move_freepages_relisted [OF inv t] by (auto simp: move_freepages_block_def Let_def relisted_def)
qed

text \<open>The count of an order can be decremented before or after the blocks are moved.\<close>

lemma dec_commute:
  "lru_move (nr_free_dec z k) p j t = nr_free_dec (lru_move z p j t) k"
  "lru_del (nr_free_dec z k) p = nr_free_dec (lru_del z p) k"
  "set_pageblock_migratetype b (nr_free_dec z k) p t = nr_free_dec (set_pageblock_migratetype b z p t) k"
  by (simp_all add: lru_move_def lru_del_def lru_add_def nr_free_dec_def set_pageblock_migratetype_def
      set_pageblock_flags_group_def pfn_to_bitidx_def Let_def)

lemma move_dec:
  "move_freepages m (nr_free_dec z k) page lst t n =
     (nr_free_dec (fst (move_freepages m z page lst t n)) k, snd (move_freepages m z page lst t n))"
proof (induction m z page lst t n rule: move_freepages.induct)
  case (1 m z page lst t n)
  then show ?case
    unfolding move_freepages.simps [of m z page lst t n] move_freepages.simps [of m "nr_free_dec z k" page lst t n]
    by (simp add: Let_def dec_commute)
qed

lemma move_block_dec:
  "move_freepages_block m (nr_free_dec z k) p t =
     (nr_free_dec (fst (move_freepages_block m z p t)) k, snd (move_freepages_block m z p t))"
  unfolding move_freepages_block_def Let_def move_dec by (simp add: nr_free_dec_def)

lemma flags_relisted: "relisted z (z\<lparr>pageblock_flags := f\<rparr>)"
  by (simp add: relisted_def same_zone_def fl_def)

lemma set_migratetype_flags: "\<exists>f. set_pageblock_migratetype b z p t = z\<lparr>pageblock_flags := f\<rparr>"
  by (auto simp: set_pageblock_migratetype_def set_pageblock_flags_group_def Let_def)

lemma set_migratetype_relisted: "relisted z (set_pageblock_migratetype b z p t)"
  using set_migratetype_flags flags_relisted by metis

lemma change_range_flags: "\<exists>f. change_loop b n z p t = z\<lparr>pageblock_flags := f\<rparr>"
proof (induction n arbitrary: z p)
  case 0
  show ?case by (intro exI [of _ "pageblock_flags z"]) simp
next
  case (Suc n)
  obtain f where "set_pageblock_migratetype b z p t = z\<lparr>pageblock_flags := f\<rparr>" using set_migratetype_flags by blast
  moreover obtain g where "change_loop b n (z\<lparr>pageblock_flags := f\<rparr>) (p + pageblock_nr_pages) t
      = z\<lparr>pageblock_flags := f\<rparr>\<lparr>pageblock_flags := g\<rparr>" using Suc by blast
  ultimately show ?case by auto
qed

lemma expand_flags:
  "expand m (z\<lparr>pageblock_flags := f\<rparr>) p low high t =
     (fst (expand m z p low high t), (snd (expand m z p low high t))\<lparr>pageblock_flags := f\<rparr>)"
proof (induction high arbitrary: m z)
  case (Suc high)
  have "nr_free_inc (lru_add (z\<lparr>pageblock_flags := f\<rparr>) (p + 2 ^ high) high t) high =
      (nr_free_inc (lru_add z (p + 2 ^ high) high t) high)\<lparr>pageblock_flags := f\<rparr>"
    by (simp add: nr_free_inc_def lru_add_def)
  then show ?case by (simp add: Let_def Suc)
qed simp

lemma allocated_relisted:
  assumes "relisted z y" "allocated m y p k s"
  shows "allocated m z p k s"
proof -
  have "same_zone z y" using assms(1) by (simp add: relisted_def)
  moreover from this have "span y = span z" by (rule same_zone_span)
  ultimately show ?thesis
    using assms(2) same_zone_trans relisted_fb [OF assms(1)] by (auto simp: allocated_def free_pages_def)
qed

lemma allocated_flags: "allocated m z p k s \<Longrightarrow> allocated m z p k (fst s, (snd s)\<lparr>pageblock_flags := f\<rparr>)"
proof -
  assume a: "allocated m z p k s"
  have r: "relisted (snd s) ((snd s)\<lparr>pageblock_flags := f\<rparr>)" (is "relisted _ ?z") by (rule flags_relisted)
  have "free_pages ?z = free_pages (snd s)" "span ?z = span (snd s)"
    using relisted_fb [OF r] r same_zone_span by (simp_all add: free_pages_def relisted_def)
  then show ?thesis
    using a relisted_inv [OF _ r] same_zone_trans [of z "snd s" ?z] r by (auto simp: allocated_def held_def relisted_def)
qed

lemma fallback_take_correct:
  assumes inv: "buddy_inv m z" and pk: "(p, k) \<in> fb z" and lk: "low \<le> k"
    and st: "start < MIGRATE_TYPES" and t: "t < MIGRATE_TYPES"
  shows "allocated m z p low (fallback_take pgmd m z low start k t p)"
proof -
  define steal where "steal \<longleftrightarrow> k \<ge> pageblock_order div 2 \<or> start = MIGRATE_RECLAIMABLE \<or> pgmd"
  define mv where "mv = move_freepages_block m z p start"
  define z1 where "z1 = (if steal then if snd mv \<ge> 2 ^ (pageblock_order - 1) \<or> pgmd
      then set_pageblock_migratetype pgmd (fst mv) p start else fst mv else z)"
  define u where "u = (if steal then start else t)"
  have "p \<in> span z" using buddy_invD(5) [OF inv pk] blk_nonempty(2) by blast
  then have "relisted z (fst mv)" using move_block_relisted [OF inv st] by (simp add: mv_def)
  then have r: "relisted z z1"
    using relisted_trans [OF _ set_migratetype_relisted] by (auto simp: z1_def relisted_def)
  have pk1: "(p, k) \<in> fb z1" using pk relisted_fb [OF r] by simp
  have u: "u < MIGRATE_TYPES" using st t by (simp add: u_def)
  have al: "allocated m z p low (expand (rmv_page_order m p) (nr_free_dec (lru_del z1 p) k) p low k u)"
    by (rule allocated_relisted [OF r take_expand [OF relisted_inv [OF inv r] pk1 lk u]])
  define z2 where "z2 = nr_free_dec (lru_del z1 p) k"
  define z3 where "z3 = (if k \<ge> pageblock_order then change_pageblock_range pgmd z2 p k start else z2)"
  have ft: "fallback_take pgmd m z low start k t p = expand (rmv_page_order m p) z3 p low k u"
    unfolding fallback_take_def Let_def move_block_dec steal_def [symmetric] z3_def z2_def z1_def mv_def u_def
    by (simp add: dec_commute)
  have "\<exists>f. z3 = z2\<lparr>pageblock_flags := f\<rparr>"
    using change_range_flags unfolding z3_def change_pageblock_range_def by (cases "k \<ge> pageblock_order") (auto intro: exI [of _ "pageblock_flags z2"])
  then obtain f where f: "z3 = z2\<lparr>pageblock_flags := f\<rparr>" by blast
  show ?thesis using allocated_flags [OF al] unfolding ft f expand_flags z2_def by simp
qed

lemma fallbacks_types: "u \<in> set (fallbacks t) \<Longrightarrow> u < MIGRATE_TYPES"
  by (auto simp: fallbacks_def migratetypes split: if_splits)

lemma fallback_types_correct:
  assumes inv: "buddy_inv m z" and k: "low \<le> k" "k < MAX_ORDER" and st: "start < MIGRATE_TYPES"
    and ts: "\<forall>t\<in>set ts. t < MIGRATE_TYPES"
  shows "case fallback_types pgmd m z low start k ts of
      None \<Rightarrow> \<forall>t\<in>set ts. t \<noteq> MIGRATE_RESERVE \<longrightarrow> free_list z k t = []
    | Some (s, p) \<Rightarrow> allocated m z p low s"
  using ts
proof (induction ts)
  case (Cons t ts)
  show ?case
  proof (cases "t = MIGRATE_RESERVE \<or> free_list z k t = []")
    case True
    then show ?thesis using Cons by (auto split: option.splits)
  next
    case False
    then obtain p ps where p: "free_list z k t = p # ps" by (meson neq_Nil_conv)
    then have "(p, k) \<in> fb z" using Cons.prems k in_fl [of p z k t] by simp
    then show ?thesis using False p fallback_take_correct [OF inv _ k(1) st] Cons.prems by simp
  qed
qed simp

lemma fallback_orders_correct:
  assumes "buddy_inv m z" "start < MIGRATE_TYPES" "\<forall>k\<in>set ks. low \<le> k \<and> k < MAX_ORDER"
  shows "case fallback_orders pgmd m z low start ks of
      (s, None) \<Rightarrow> s = (m, z) \<and> (\<forall>k\<in>set ks. \<forall>t\<in>set (fallbacks start). t \<noteq> MIGRATE_RESERVE \<longrightarrow> free_list z k t = [])
    | (s, Some p) \<Rightarrow> allocated m z p low s"
  using assms
proof (induction ks)
  case (Cons k ks)
  have ft: "case fallback_types pgmd m z low start k (fallbacks start) of
      None \<Rightarrow> \<forall>t\<in>set (fallbacks start). t \<noteq> MIGRATE_RESERVE \<longrightarrow> free_list z k t = []
    | Some (s, p) \<Rightarrow> allocated m z p low s"
    using Cons.prems fallbacks_types by (intro fallback_types_correct) auto
  show ?case
  proof (cases "fallback_types pgmd m z low start k (fallbacks start)")
    case None
    then show ?thesis using ft Cons by (auto split: prod.splits option.splits)
  next
    case (Some x)
    then show ?thesis using ft by (cases x) simp
  qed
qed simp

section \<open>Properties of the allocator\<close>

definition example_frames :: mem_map where
  "example_frames q = (set_page_links null_page 1 0)\<lparr>pg_mapcount := -1\<rparr>"

lemma empty_zone_inv:
  assumes "zone_ok m z" "\<And>k. fl z k = []" "\<And>k. nr_free z k = 0"
    "\<And>q. page_zone_id (m q) = zone_num z \<Longrightarrow> \<not> PageBuddy (m q)"
  shows "buddy_inv m z" "free_pages z = {}"
proof -
  have "fb z = {}" by (simp add: fb_def assms(2))
  then show "buddy_inv m z" "free_pages z = {}"
    using assms by (auto intro!: buddy_invI simp: free_pages_def)
qed

lemma example_zone_inv: "buddy_inv example_frames example_zone" "free_pages example_zone = {}"
proof -
  have "zone_ok example_frames example_zone"
    by (simp add: zone_ok_def example_zone_def example_frames_def page_zone_id_def set_page_links_def set_page_node_def
        set_page_zone_def null_page_def top_mask ZONES_PGSHIFT_def NODES_PGSHIFT_def)
  then show "buddy_inv example_frames example_zone" "free_pages example_zone = {}"
    by (rule empty_zone_inv; simp add: fl_def example_zone_def example_frames_def PageBuddy_def PAGE_BUDDY_MAPCOUNT_VALUE_def)+
qed

text \<open>C4. Freeing a block that is in no list: the invariant holds again, so the block is listed
  with every free buddy merged, the counts are right and no two buddies are free; and the free
  pages are exactly the old ones and those of the block.\<close>

theorem free_one_page_correct:
  assumes "buddy_inv m z" "held z p k" "t < MIGRATE_TYPES" "\<not> PageCompound (m p)"
  shows "case uu_free_one_page m z p k t of (m', z') \<Rightarrow>
      buddy_inv m' z' \<and> span z' = span z \<and> free_pages z' = free_pages z \<union> blk p k"
  using free_one_page_spec [OF assms] same_zone_span by (auto split: prod.splits)

lemma example_held: "held example_zone 5120 10"
  using example_zone_inv(2) by (simp add: held_def MAX_ORDER_def blk_def span_def example_zone_def)

lemma example_no_compound: "\<not> PageCompound (example_frames q)"
  by (simp add: PageCompound_def example_frames_def set_page_links_def set_page_node_def set_page_zone_def null_page_def
      top_mask ZONES_PGSHIFT_def NODES_PGSHIFT_def flag_def pageflags)

theorem free_one_page_correct_witness:
  "case uu_free_one_page example_frames example_zone 5120 10 2 of (m', z') \<Rightarrow>
     buddy_inv m' z' \<and> span z' = span example_zone \<and> free_pages z' = {5120..<6144}"
  using free_one_page_correct [OF example_zone_inv(1) example_held, of 2] example_no_compound
  by (simp add: migratetypes example_zone_inv(2) blk_def)

lemma smallest_cases:
  assumes "buddy_inv m z" "t < MIGRATE_TYPES"
  obtains p s where "uu_rmqueue_smallest m z k t = (s, Some p)" "allocated m z p k s"
  | "uu_rmqueue_smallest m z k t = ((m, z), None)" "\<forall>j. k \<le> j \<and> j < MAX_ORDER \<longrightarrow> free_list z j t = []"
proof -
  note sm = rmqueue_from_correct [OF assms, of "[k..<MAX_ORDER]" k, folded uu_rmqueue_smallest_def]
  obtain s r where r: "uu_rmqueue_smallest m z k t = (s, r)" by fastforce
  then show thesis using sm that by (cases r) auto
qed

lemma fallback_cases:
  assumes "buddy_inv m z" "t < MIGRATE_TYPES"
  obtains p s where "uu_rmqueue_fallback pgmd m z k t = (s, Some p)" "allocated m z p k s"
  | "uu_rmqueue_fallback pgmd m z k t = ((m, z), None)"
    "\<forall>j u. k \<le> j \<and> j < MAX_ORDER \<and> u \<in> set (fallbacks t) \<and> u \<noteq> MIGRATE_RESERVE \<longrightarrow> free_list z j u = []"
proof -
  note fo = fallback_orders_correct [OF assms, of "rev [k..<MAX_ORDER]" k pgmd, folded uu_rmqueue_fallback_def]
  obtain s r where r: "uu_rmqueue_fallback pgmd m z k t = (s, r)" by fastforce
  then show thesis using fo that by (cases r) auto
qed

lemma rmqueue_cases:
  assumes inv: "buddy_inv m z" and t: "t < MIGRATE_PCPTYPES"
  obtains p s where "uu_rmqueue pgmd m z k t = (s, Some p)" "allocated m z p k s"
  | "uu_rmqueue pgmd m z k t = ((m, z), None)"
    "\<forall>j u. k \<le> j \<and> j < MAX_ORDER \<and> u < MIGRATE_ISOLATE \<longrightarrow> free_list z j u = []"
proof -
  have t': "t < MIGRATE_TYPES" and rt: "MIGRATE_RESERVE < MIGRATE_TYPES" and nr: "t \<noteq> MIGRATE_RESERVE"
    using t by (simp_all add: migratetypes)
  show thesis
  proof (cases rule: smallest_cases [OF inv t', of k])
    case (1 p s)
    then show ?thesis by (intro that(1)) (simp_all add: uu_rmqueue_def)
  next
    case own: 2
    show ?thesis
    proof (cases rule: fallback_cases [OF inv t', of pgmd k])
      case (1 p s)
      then show ?thesis using own nr by (intro that(1)) (simp_all add: uu_rmqueue_def)
    next
      case fall: 2
      have q: "uu_rmqueue pgmd m z k t = uu_rmqueue_smallest m z k MIGRATE_RESERVE"
        using own fall nr by (simp add: uu_rmqueue_def)
      show ?thesis
      proof (cases rule: smallest_cases [OF inv rt, of k])
        case (1 p s)
        then show ?thesis using q by (intro that(1)) simp_all
      next
        case 2
        have "u = t \<or> u = MIGRATE_RESERVE \<or> u \<in> set (fallbacks t)" if "u < MIGRATE_ISOLATE" for u
          using that t by (auto simp: migratetypes fallbacks_def)
        then have "\<forall>j u. k \<le> j \<and> j < MAX_ORDER \<and> u < MIGRATE_ISOLATE \<longrightarrow> free_list z j u = []"
          using own(2) fall(2) 2(2) by blast
        then show ?thesis using q 2(1) by (intro that(2)) simp_all
      qed
    qed
  qed
qed

text \<open>C5. \<open>uu_rmqueue\<close> either returns an aligned block of the order, whose pages were free and
  now are not, and keeps the invariant; or it fails without changing anything, and then no
  block of this order or a larger one is listed under any migrate type but the isolated one.\<close>

theorem rmqueue_correct:
  assumes inv: "buddy_inv m z" and t: "t < MIGRATE_PCPTYPES"
  shows "case uu_rmqueue pgmd m z k t of
      ((m', z'), Some p) \<Rightarrow> buddy_inv m' z' \<and> span z' = span z \<and> held z' p k
        \<and> blk p k \<subseteq> free_pages z \<and> free_pages z' = free_pages z - blk p k
    | ((m', z'), None) \<Rightarrow> m' = m \<and> z' = z
        \<and> (\<forall>j u. k \<le> j \<and> j < MAX_ORDER \<and> u < MIGRATE_ISOLATE \<longrightarrow> free_list z j u = [])"
proof (cases rule: rmqueue_cases [OF inv t, of pgmd k])
  case (1 p s)
  then show ?thesis using same_zone_span by (auto simp: allocated_def split: prod.splits)
next
  case 2
  then show ?thesis by simp
qed

theorem rmqueue_correct_witness:
  "case uu_rmqueue False example_frames example_zone 3 0 of
      ((m', z'), Some p) \<Rightarrow> False
    | ((m', z'), None) \<Rightarrow> m' = example_frames \<and> z' = example_zone"
proof -
  have "\<not> blk p 3 \<subseteq> free_pages example_zone" for p
    using blk_nonempty(2) [of p 3] by (simp add: example_zone_inv(2))
  then show ?thesis
    using rmqueue_correct [OF example_zone_inv(1), where t = 0 and pgmd = False and k = 3]
    by (auto simp: MAX_ORDER_def migratetypes split: prod.splits option.splits)
qed

end
