(* ===== verification/Page_Alloc.thy ===== *)
theory Page_Alloc
  imports Buddy "HOL-Library.Signed_Division"
begin

text \<open>
  The page allocator of \<^verbatim>\<open>mm/page_alloc.c\<close> above the buddy lists: the checks of page
  frames when they are freed and handed out, the per-CPU lists of single pages, and the calls
  that other components use (\<open>uu_free_pages\<close>, \<open>uu_free_pages_bootmem\<close>,
  \<open>buffered_rmqueue\<close>, \<open>uu_alloc_pages_nodemask\<close>, \<open>uu_get_free_pages\<close>). All zones share the
  per-CPU lists \<^verbatim>\<open>boot_pageset\<close>, since \<^verbatim>\<open>zone_pcp_init\<close> lets every zone point to it. There
  is one processor; locks and the interrupt flag are not part of the state.
\<close>

section \<open>State\<close>

record per_cpu_pages =
  pcp_count :: int
  pcp_high :: int
  pcp_batch :: int
  pcp_lists :: "nat \<Rightarrow> nat list"

text \<open>An entry of a zone list: the zone, if there is one, and its index.\<close>

type_synonym zoneref = "nat option \<times> nat"

record mm =
  mm_map :: mem_map
  mm_zones :: "nat \<Rightarrow> zone"
  mm_pcp :: per_cpu_pages
  mm_pgmd :: bool
  mm_zonelist :: "zoneref list"
  mm_gfp_allowed :: ulong

definition set_zone :: "mm \<Rightarrow> nat \<Rightarrow> zone \<Rightarrow> mm" where
  "set_zone s i z = s\<lparr>mm_zones := (mm_zones s)(i := z)\<rparr>"

definition upd_page :: "mm \<Rightarrow> nat \<Rightarrow> (page \<Rightarrow> page) \<Rightarrow> mm" where
  "upd_page s p f = s\<lparr>mm_map := (mm_map s)(p := f (mm_map s p))\<rparr>"

definition zone_of :: "mm \<Rightarrow> nat \<Rightarrow> nat" where
  "zone_of s p = page_zonenum (mm_map s p)"

definition setup_pageset :: "int \<Rightarrow> per_cpu_pages" where
  "setup_pageset batch = \<lparr>pcp_count = 0, pcp_high = 6 * batch, pcp_batch = max 1 batch, pcp_lists = (\<lambda>_. [])\<rparr>"

section \<open>Zone lists\<close>

function build_zonelists_node :: "(nat \<Rightarrow> zone) \<Rightarrow> zoneref list \<Rightarrow> nat \<Rightarrow> zoneref list" where
  "build_zonelists_node zones refs zone_type =
     (let refs' = (if populated_zone (zones zone_type) then refs @ [(Some zone_type, zone_type)] else refs)
      in if zone_type = 0 then refs' else build_zonelists_node zones refs' (zone_type - 1))"
  by pat_completeness auto
termination
  by (relation "measure (\<lambda>(zones, refs, t). t)") auto

declare build_zonelists_node.simps [simp del]

text \<open>There is one node, so the loops over the other nodes are empty.\<close>

definition build_zonelists :: "(nat \<Rightarrow> zone) \<Rightarrow> zoneref list" where
  "build_zonelists zones = build_zonelists_node zones [] (MAX_NR_ZONES - 1) @ [(None, 0)]"

definition build_all_zonelists :: "mm \<Rightarrow> mm" where
  "build_all_zonelists s =
     s\<lparr>mm_zonelist := build_zonelists (mm_zones s), mm_pcp := setup_pageset 0, mm_pgmd := False\<rparr>"

text \<open>A pointer into a zone list is the rest of the list. \<^verbatim>\<open>zref_in_nodemask\<close> is 1, so both
  branches test the index only.\<close>

fun next_zones_zonelist :: "zoneref list \<Rightarrow> nat \<Rightarrow> zoneref list" where
  "next_zones_zonelist [] highest = []"
| "next_zones_zonelist (z # zs) highest = (if snd z > highest then next_zones_zonelist zs highest else z # zs)"

lemma next_zones_length: "length (next_zones_zonelist zs h) \<le> length zs"
  by (induction zs h rule: next_zones_zonelist.induct) auto

text \<open>The zones that \<^verbatim>\<open>for_each_zone_zonelist_nodemask\<close> visits.\<close>

function for_each_zone :: "zoneref list \<Rightarrow> nat \<Rightarrow> nat list" where
  "for_each_zone zs highest =
     (case next_zones_zonelist zs highest of
        [] \<Rightarrow> []
      | (None, _) # _ \<Rightarrow> []
      | (Some i, _) # rest \<Rightarrow> i # for_each_zone rest highest)"
  by pat_completeness auto
termination
proof (relation "measure (\<lambda>(zs, h). length zs)", goal_cases)
  case (2 zs h a rest x y i)
  then show ?case using next_zones_length [of zs h] by simp
qed simp

declare for_each_zone.simps [simp del]

section \<open>Checks\<close>

definition free_pages_check :: "page \<Rightarrow> page \<times> nat" where
  "free_pages_check p =
     (if page_mapcount p \<noteq> 0 \<or> pg_mapping p \<noteq> 0 \<or> pg_flags p AND PAGE_FLAGS_CHECK_AT_FREE \<noteq> 0 then (p, 1)
      else if pg_flags p AND PAGE_FLAGS_CHECK_AT_PREP \<noteq> 0
        then (p\<lparr>pg_flags := pg_flags p AND NOT PAGE_FLAGS_CHECK_AT_PREP\<rparr>, 0)
      else (p, 0))"

primrec check_pages_loop :: "nat \<Rightarrow> nat \<Rightarrow> mem_map \<Rightarrow> nat \<Rightarrow> mem_map \<times> nat" where
  "check_pages_loop 0 p m bad = (m, bad)"
| "check_pages_loop (Suc n) p m bad =
     (let (pg, b) = free_pages_check (m p) in check_pages_loop n (p + 1) (m(p := pg)) (bad + b))"

definition free_pages_prepare :: "mem_map \<Rightarrow> nat \<Rightarrow> nat \<Rightarrow> mem_map \<times> bool" where
  "free_pages_prepare m page order =
     (let m1 = (if PageAnon (m page) then m(page := (m page)\<lparr>pg_mapping := 0\<rparr>) else m);
          (m2, bad) = check_pages_loop (2 ^ order) page m1 0
      in (m2, bad = 0))"

definition check_new_page :: "page \<Rightarrow> bool" where
  "check_new_page p \<longleftrightarrow> page_mapcount p \<noteq> 0 \<or> pg_mapping p \<noteq> 0 \<or> pg_count p \<noteq> 0
     \<or> pg_flags p AND PAGE_FLAGS_CHECK_AT_PREP \<noteq> 0"

text \<open>\<^verbatim>\<open>clear_page(page + i)\<close> gets the address of the page frame descriptor instead of the
  address of the page, so it clears the descriptors in the 4096 bytes from there: 128 of them,
  since \<^verbatim>\<open>sizeof(struct page)\<close> is 32. The links of those descriptors are cleared as well,
  which is outside the model of the lists.\<close>

definition clear_page :: "mem_map \<Rightarrow> nat \<Rightarrow> mem_map" where
  "clear_page m p = (\<lambda>q. if p \<le> q \<and> q < p + 4096 div 32 then null_page else m q)"

primrec prep_zero_loop :: "nat \<Rightarrow> nat \<Rightarrow> mem_map \<Rightarrow> mem_map" where
  "prep_zero_loop 0 p m = m"
| "prep_zero_loop (Suc n) p m = prep_zero_loop n (p + 1) (clear_page m p)"

definition prep_zero_page :: "mem_map \<Rightarrow> nat \<Rightarrow> nat \<Rightarrow> mem_map" where
  "prep_zero_page m page order = prep_zero_loop (2 ^ order) page m"

primrec compound_tails :: "nat \<Rightarrow> nat \<Rightarrow> nat \<Rightarrow> mem_map \<Rightarrow> mem_map" where
  "compound_tails 0 p page m = m"
| "compound_tails (Suc n) p page m =
     compound_tails n (p + 1) page (m(p := (set_page_flag PG_tail (m p))\<lparr>pg_private := word_of_nat page\<rparr>))"

definition prep_compound_page :: "mem_map \<Rightarrow> nat \<Rightarrow> nat \<Rightarrow> mem_map" where
  "prep_compound_page m page order =
     (let m = set_compound_page_dtor m page Free_compound_page;
          m = set_compound_order m page (word_of_nat order);
          m = m(page := set_page_flag PG_head (m page))
      in compound_tails (2 ^ order - 1) (page + 1) page m)"

definition GFP_COLD :: ulong where "GFP_COLD = 0x100"
definition GFP_ZERO :: ulong where "GFP_ZERO = 0x8000"
definition GFP_COMP :: ulong where "GFP_COMP = 0x4000"

text \<open>The second component is the return value: 1 for a page that must not be used.\<close>

definition prep_new_page :: "mem_map \<Rightarrow> nat \<Rightarrow> nat \<Rightarrow> ulong \<Rightarrow> mem_map \<times> bool" where
  "prep_new_page m page order gfp_flags =
     (if \<exists>p\<in>set [page..<page + 2 ^ order]. check_new_page (m p) then (m, True)
      else
        let m = m(page := set_page_refcounted (set_page_private (m page) 0));
            m = (if gfp_flags AND GFP_ZERO \<noteq> 0 then prep_zero_page m page order else m);
            m = (if order \<noteq> 0 \<and> gfp_flags AND GFP_COMP \<noteq> 0 then prep_compound_page m page order else m)
        in (m, False))"

section \<open>Freeing\<close>

definition free_one_page :: "mm \<Rightarrow> nat \<Rightarrow> nat \<Rightarrow> nat \<Rightarrow> nat \<Rightarrow> mm" where
  "free_one_page s zi page order migratetype =
     (let z = (mm_zones s zi)\<lparr>all_unreclaimable := 0, pages_scanned := 0\<rparr>;
          (m, z) = uu_free_one_page (mm_map s) z page order migratetype
      in set_zone (s\<lparr>mm_map := m\<rparr>) zi (z\<lparr>nr_free_pages := nr_free_pages z + push_bit order 1\<rparr>))"

text \<open>The search for a list that is not empty, from the type after \<open>migratetype\<close> on; the second
  component counts the lists that were looked at. If all lists are empty the loop does not
  end: \<open>None\<close>.\<close>

definition next_type :: "nat \<Rightarrow> nat" where
  "next_type t = (if t + 1 = MIGRATE_PCPTYPES then 0 else t + 1)"

definition next_list :: "per_cpu_pages \<Rightarrow> nat \<Rightarrow> nat \<Rightarrow> (nat \<times> nat) option" where
  "next_list pcp migratetype batch_free =
     (let t1 = next_type migratetype; t2 = next_type t1; t3 = next_type t2
      in if pcp_lists pcp t1 \<noteq> [] then Some (t1, batch_free + 1)
         else if pcp_lists pcp t2 \<noteq> [] then Some (t2, batch_free + 2)
         else if pcp_lists pcp t3 \<noteq> [] then Some (t3, batch_free + 3)
         else None)"

text \<open>The inner loop: pages are taken from the tail of the list while \<^verbatim>\<open>to_free\<close>,
  \<^verbatim>\<open>batch_free\<close> and the list last. The result holds the two counters at the end.\<close>

function bulk_inner :: "mem_map \<Rightarrow> zone \<Rightarrow> per_cpu_pages \<Rightarrow> nat \<Rightarrow> nat \<Rightarrow> nat \<Rightarrow> mem_map \<times> zone \<times> per_cpu_pages \<times> nat \<times> nat" where
  "bulk_inner m z pcp t to_free batch_free =
     (let page = last (pcp_lists pcp t);
          pcp = pcp\<lparr>pcp_lists := (pcp_lists pcp)(t := butlast (pcp_lists pcp t))\<rparr>;
          (m, z) = uu_free_one_page m z page 0 (unat (pg_private (m page)));
          to_free = to_free - 1
      in if to_free \<noteq> 0 then
           let batch_free = batch_free - 1
           in if batch_free \<noteq> 0 \<and> pcp_lists pcp t \<noteq> [] then bulk_inner m z pcp t to_free batch_free
              else (m, z, pcp, to_free, batch_free)
         else (m, z, pcp, to_free, batch_free))"
  by pat_completeness auto
termination
  by (relation "measure (\<lambda>(m, z, pcp, t, n, b). n)") auto

declare bulk_inner.simps [simp del]

lemma bulk_inner_less: "0 < n \<Longrightarrow> fst (snd (snd (snd (bulk_inner m z pcp t n b)))) < n"
proof (induction m z pcp t n b rule: bulk_inner.induct)
  case (1 m z pcp t n b)
  let ?pcp = "pcp\<lparr>pcp_lists := (pcp_lists pcp)(t := butlast (pcp_lists pcp t))\<rparr>"
  obtain m' z' where f: "uu_free_one_page m z (last (pcp_lists pcp t)) 0 (unat (pg_private (m (last (pcp_lists pcp t))))) = (m', z')"
    by fastforce
  have "fst (snd (snd (snd (bulk_inner m' z' ?pcp t (n - 1) (b - 1))))) < n - 1"
    if "n - 1 \<noteq> 0" "b - 1 \<noteq> 0 \<and> pcp_lists ?pcp t \<noteq> []"
    using "1.IH" [OF refl refl f [symmetric] refl refl that(1) refl that(2)] that(1) by simp
  then show ?case using "1.prems" unfolding bulk_inner.simps [of m z pcp t n b] Let_def f by auto
qed

function bulk_outer :: "mem_map \<Rightarrow> zone \<Rightarrow> per_cpu_pages \<Rightarrow> nat \<Rightarrow> nat \<Rightarrow> nat \<Rightarrow> (mem_map \<times> zone \<times> per_cpu_pages) option" where
  "bulk_outer m z pcp migratetype batch_free to_free =
     (if to_free = 0 then Some (m, z, pcp)
      else case next_list pcp migratetype batch_free of
        None \<Rightarrow> None
      | Some (t, b) \<Rightarrow>
          (case bulk_inner m z pcp t to_free (if b = MIGRATE_PCPTYPES then to_free else b) of
             (m', z', pcp', to_free', b') \<Rightarrow> bulk_outer m' z' pcp' t b' to_free'))"
  by pat_completeness auto
termination
proof (relation "measure (\<lambda>(m, z, pcp, t, b, n). n)", goal_cases)
  case (2 m z pcp t b n a t' b' x m')
  then show ?case using bulk_inner_less [of n m z pcp t' "if b' = MIGRATE_PCPTYPES then n else b'"]
    by simp (metis fst_conv snd_conv)
qed simp

declare bulk_outer.simps [simp del]

definition free_pcppages_bulk :: "mm \<Rightarrow> nat \<Rightarrow> nat \<Rightarrow> mm option" where
  "free_pcppages_bulk s zi n =
     (let z = (mm_zones s zi)\<lparr>all_unreclaimable := 0, pages_scanned := 0\<rparr>
      in case bulk_outer (mm_map s) z (mm_pcp s) 0 0 n of
        None \<Rightarrow> None
      | Some (m, z, pcp) \<Rightarrow>
          Some (set_zone (s\<lparr>mm_map := m, mm_pcp := pcp\<rparr>) zi (z\<lparr>nr_free_pages := nr_free_pages z + word_of_nat n\<rparr>)))"

definition free_page_mlock :: "mm \<Rightarrow> nat \<Rightarrow> mm" where
  "free_page_mlock s page =
     (let zi = zone_of s page in set_zone s zi ((mm_zones s zi)\<lparr>nr_mlock := nr_mlock (mm_zones s zi) - 1\<rparr>))"

definition free_hot_cold_page :: "mm \<Rightarrow> nat \<Rightarrow> bool \<Rightarrow> mm option" where
  "free_hot_cold_page s page cold =
     (let zi = zone_of s page;
          wasMlocked = test_page_flag PG_mlocked (mm_map s page);
          s = upd_page s page (clear_page_flag PG_mlocked);
          (m, ok) = free_pages_prepare (mm_map s) page 0;
          s = s\<lparr>mm_map := m\<rparr>
      in if \<not> ok then Some s
         else
           let migratetype = get_pageblock_migratetype (mm_zones s zi) page;
               s = upd_page s page (\<lambda>p. set_page_private p (word_of_nat migratetype));
               s = (if wasMlocked then free_page_mlock s page else s)
           in if migratetype \<ge> MIGRATE_PCPTYPES \<and> migratetype = MIGRATE_ISOLATE
              then Some (free_one_page s zi page 0 migratetype)
              else
                let migratetype = (if migratetype \<ge> MIGRATE_PCPTYPES then MIGRATE_MOVABLE else migratetype);
                    pcp = mm_pcp s;
                    l = pcp_lists pcp migratetype;
                    pcp = pcp\<lparr>pcp_lists := (pcp_lists pcp)(migratetype := if cold then l @ [page] else page # l),
                              pcp_count := pcp_count pcp + 1\<rparr>;
                    s = s\<lparr>mm_pcp := pcp\<rparr>
                in if pcp_count pcp \<ge> pcp_high pcp then
                     map_option (\<lambda>s. s\<lparr>mm_pcp := (mm_pcp s)\<lparr>pcp_count := pcp_count (mm_pcp s) - pcp_batch (mm_pcp s)\<rparr>\<rparr>)
                       (free_pcppages_bulk s zi (nat (pcp_batch pcp)))
                   else Some s)"

definition uu_free_pages_ok :: "mm \<Rightarrow> nat \<Rightarrow> nat \<Rightarrow> mm" where
  "uu_free_pages_ok s page order =
     (let wasMlocked = test_page_flag PG_mlocked (mm_map s page);
          s = upd_page s page (clear_page_flag PG_mlocked);
          (m, ok) = free_pages_prepare (mm_map s) page order;
          s = s\<lparr>mm_map := m\<rparr>
      in if \<not> ok then s
         else
           let s = (if wasMlocked then free_page_mlock s page else s);
               zi = zone_of s page
           in free_one_page s zi page order (get_pageblock_migratetype (mm_zones s zi) page))"

definition uu_free_pages :: "mm \<Rightarrow> nat \<Rightarrow> nat \<Rightarrow> mm option" where
  "uu_free_pages s page order =
     (let (p, zero) = put_page_testzero (mm_map s page);
          s = upd_page s page (\<lambda>_. p)
      in if zero then if order = 0 then free_hot_cold_page s page False else Some (uu_free_pages_ok s page order)
         else Some s)"

text \<open>The loop resets the count of \<^verbatim>\<open>page\<close> each time, and not the one of \<open>p\<close>.\<close>

primrec bootmem_loop :: "nat \<Rightarrow> nat \<Rightarrow> nat \<Rightarrow> mm \<Rightarrow> mm" where
  "bootmem_loop 0 p page s = s"
| "bootmem_loop (Suc n) p page s =
     (let s = upd_page s p (clear_page_flag PG_reserved);
          s = upd_page s page (\<lambda>q. set_page_count q 0)
      in bootmem_loop n (p + 1) page s)"

definition uu_free_pages_bootmem :: "mm \<Rightarrow> nat \<Rightarrow> nat \<Rightarrow> mm option" where
  "uu_free_pages_bootmem s page order =
     (if order = 0 then
        let s = upd_page s page (clear_page_flag PG_reserved);
            s = upd_page s page (\<lambda>q. set_page_count q 0);
            s = upd_page s page set_page_refcounted
        in uu_free_pages s page 0
      else
        let s = bootmem_loop 32 page page s;
            s = upd_page s page set_page_refcounted
        in uu_free_pages s page order)"

section \<open>Allocating\<close>

text \<open>\<^verbatim>\<open>list_add\<close> and \<^verbatim>\<open>list_add_tail\<close> next to a position of a list: \<open>None\<close> is the head, \<open>Some a\<close>
  the node of page \<open>a\<close>.\<close>

fun add_after :: "nat option \<Rightarrow> nat \<Rightarrow> nat list \<Rightarrow> nat list" where
  "add_after None p l = p # l"
| "add_after (Some a) p [] = []"
| "add_after (Some a) p (x # l) = (if x = a then x # p # l else x # add_after (Some a) p l)"

fun add_before :: "nat option \<Rightarrow> nat \<Rightarrow> nat list \<Rightarrow> nat list" where
  "add_before None p l = l @ [p]"
| "add_before (Some a) p [] = []"
| "add_before (Some a) p (x # l) = (if x = a then p # x # l else x # add_before (Some a) p l)"

fun bulk_loop :: "nat \<Rightarrow> mem_map \<Rightarrow> zone \<Rightarrow> bool \<Rightarrow> nat \<Rightarrow> nat \<Rightarrow> bool \<Rightarrow> nat list \<Rightarrow> nat option \<Rightarrow> nat \<Rightarrow> mem_map \<times> zone \<times> nat list \<times> nat" where
  "bulk_loop 0 m z pgmd order migratetype cold l pos i = (m, z, l, i)"
| "bulk_loop (Suc n) m z pgmd order migratetype cold l pos i =
     (case uu_rmqueue pgmd m z order migratetype of
        ((m, z), None) \<Rightarrow> (m, z, l, i)
      | ((m, z), Some page) \<Rightarrow>
          let l = (if \<not> cold then add_after pos page l else add_before pos page l);
              m = m(page := set_page_private (m page) (word_of_nat migratetype))
          in bulk_loop n m z pgmd order migratetype cold l (Some page) (i + 1))"

text \<open>The list is the per-CPU list of the type; the result is the number of pages added.\<close>

definition rmqueue_bulk :: "mm \<Rightarrow> nat \<Rightarrow> nat \<Rightarrow> nat \<Rightarrow> nat \<Rightarrow> bool \<Rightarrow> mm \<times> nat" where
  "rmqueue_bulk s zi order n migratetype cold =
     (let pcp = mm_pcp s;
          (m, z, l, i) = bulk_loop n (mm_map s) (mm_zones s zi) (mm_pgmd s) order migratetype cold (pcp_lists pcp migratetype) None 0;
          z = z\<lparr>nr_free_pages := nr_free_pages z - push_bit order (word_of_nat i)\<rparr>
      in (set_zone (s\<lparr>mm_map := m, mm_pcp := pcp\<lparr>pcp_lists := (pcp_lists pcp)(migratetype := l)\<rparr>\<rparr>) zi z, i))"

text \<open>\<^verbatim>\<open>buffered_rmqueue\<close> up to the preparation of the page.\<close>

definition rmqueue_page :: "mm \<Rightarrow> nat \<Rightarrow> nat \<Rightarrow> ulong \<Rightarrow> nat \<Rightarrow> mm \<times> nat option" where
  "rmqueue_page s zi order gfp_flags migratetype =
     (let cold = (gfp_flags AND GFP_COLD \<noteq> 0)
      in if order = 0 then
           let s = (if pcp_lists (mm_pcp s) migratetype = [] then
                      let (s, n) = rmqueue_bulk s zi 0 (nat (pcp_batch (mm_pcp s))) migratetype cold
                      in s\<lparr>mm_pcp := (mm_pcp s)\<lparr>pcp_count := pcp_count (mm_pcp s) + int n\<rparr>\<rparr>
                    else s);
               l = pcp_lists (mm_pcp s) migratetype
           in if l = [] then (s, None)
              else
                let page = (if cold then last l else hd l);
                    pcp = mm_pcp s
                in (s\<lparr>mm_pcp := pcp\<lparr>pcp_lists := (pcp_lists pcp)(migratetype := remove1 page l), pcp_count := pcp_count pcp - 1\<rparr>\<rparr>,
                    Some page)
         else
           case uu_rmqueue (mm_pgmd s) (mm_map s) (mm_zones s zi) order migratetype of
             ((m, z), None) \<Rightarrow> (set_zone (s\<lparr>mm_map := m\<rparr>) zi z, None)
           | ((m, z), Some page) \<Rightarrow>
               (set_zone (s\<lparr>mm_map := m\<rparr>) zi (z\<lparr>nr_free_pages := nr_free_pages z - push_bit order 1\<rparr>), Some page))"

text \<open>A page that fails the checks is dropped and the search starts again; \<open>None\<close> if it does not
  end.\<close>

partial_function (option) buffered_rmqueue :: "mm \<Rightarrow> nat \<Rightarrow> nat \<Rightarrow> ulong \<Rightarrow> nat \<Rightarrow> (mm \<times> nat option) option" where
  "buffered_rmqueue s zi order gfp_flags migratetype =
     (case rmqueue_page s zi order gfp_flags migratetype of
        (s, None) \<Rightarrow> Some (s, None)
      | (s, Some page) \<Rightarrow>
          (case prep_new_page (mm_map s) page order gfp_flags of
             (m, bad) \<Rightarrow> if bad then buffered_rmqueue (s\<lparr>mm_map := m\<rparr>) zi order gfp_flags migratetype
                        else Some (s\<lparr>mm_map := m\<rparr>, Some page)))"

declare buffered_rmqueue.simps [code]

section \<open>Watermarks\<close>

definition ALLOC_WMARK_LOW :: ulong where "ALLOC_WMARK_LOW = 1"
definition ALLOC_NO_WATERMARKS :: ulong where "ALLOC_NO_WATERMARKS = 0x04"
definition ALLOC_WMARK_MASK :: ulong where "ALLOC_WMARK_MASK = ALLOC_NO_WATERMARKS - 1"
definition ALLOC_HARDER :: ulong where "ALLOC_HARDER = 0x10"
definition ALLOC_HIGH :: ulong where "ALLOC_HIGH = 0x20"
definition ALLOC_CPUSET :: ulong where "ALLOC_CPUSET = 0x40"

text \<open>\<^verbatim>\<open>min\<close> and \<^verbatim>\<open>free_pages\<close> are signed. In the first comparison \<^verbatim>\<open>lowmem_reserve\<close> makes
  both sides unsigned; the comparison in the loop is signed.\<close>

fun wmark_loop :: "nat list \<Rightarrow> zone \<Rightarrow> ulong \<Rightarrow> ulong \<Rightarrow> bool" where
  "wmark_loop [] z mn fp = True"
| "wmark_loop (k # ks) z mn fp =
     (let fp = fp - push_bit k (nr_free z k);
          mn = signed_drop_bit 1 mn
      in if sint fp \<le> sint mn then False else wmark_loop ks z mn fp)"

definition uu_zone_watermark_ok :: "zone \<Rightarrow> nat \<Rightarrow> ulong \<Rightarrow> nat \<Rightarrow> ulong \<Rightarrow> ulong \<Rightarrow> bool" where
  "uu_zone_watermark_ok z order mark classzone_idx alloc_flags fp =
     (let mn = mark;
          fp = fp - (push_bit order 1 + 1);
          mn = (if alloc_flags AND ALLOC_HIGH \<noteq> 0 then mn - word_of_int (sint mn sdiv 2) else mn);
          mn = (if alloc_flags AND ALLOC_HARDER \<noteq> 0 then mn - word_of_int (sint mn sdiv 4) else mn)
      in if fp \<le> mn + lowmem_reserve z classzone_idx then False
         else wmark_loop [0..<order] z mn fp)"

definition zone_watermark_ok :: "zone \<Rightarrow> nat \<Rightarrow> ulong \<Rightarrow> nat \<Rightarrow> ulong \<Rightarrow> bool" where
  "zone_watermark_ok z order mark classzone_idx alloc_flags =
     uu_zone_watermark_ok z order mark classzone_idx alloc_flags (nr_free_pages z)"

section \<open>The calls of other components\<close>

definition GFP_DMA :: ulong where "GFP_DMA = 0x01"
definition GFP_HIGHMEM :: ulong where "GFP_HIGHMEM = 0x02"
definition GFP_DMA32 :: ulong where "GFP_DMA32 = 0x04"
definition GFP_MOVABLE :: ulong where "GFP_MOVABLE = 0x08"
definition GFP_WAIT :: ulong where "GFP_WAIT = 0x10"
definition GFP_IO :: ulong where "GFP_IO = 0x40"
definition GFP_FS :: ulong where "GFP_FS = 0x80"
definition GFP_HARDWALL :: ulong where "GFP_HARDWALL = 0x20000"
definition GFP_RECLAIMABLE :: ulong where "GFP_RECLAIMABLE = 0x80000"
definition GFP_BITS_MASK :: ulong where "GFP_BITS_MASK = push_bit 24 1 - 1"
definition GFP_ZONEMASK :: ulong where "GFP_ZONEMASK = GFP_DMA OR GFP_HIGHMEM OR GFP_DMA32 OR GFP_MOVABLE"

text \<open>\<^verbatim>\<open>__GFP_WAIT | __GFP_IO || __GFP_FS\<close> is a disjunction of truth values, that is 1.\<close>

definition GFP_BOOT_MASK :: ulong where
  "GFP_BOOT_MASK = GFP_BITS_MASK AND NOT (if GFP_WAIT OR GFP_IO \<noteq> 0 \<or> GFP_FS \<noteq> 0 then 1 else 0)"

definition GFP_ZONE_TABLE :: ulong where
  "GFP_ZONE_TABLE =
     push_bit (0 * 2) (word_of_nat ZONE_NORMAL) OR push_bit (1 * 2) (word_of_nat ZONE_DMA)
     OR push_bit (2 * 2) (word_of_nat ZONE_NORMAL) OR push_bit (4 * 2) (word_of_nat ZONE_NORMAL)
     OR push_bit (8 * 2) (word_of_nat ZONE_NORMAL) OR push_bit (9 * 2) (word_of_nat ZONE_DMA)
     OR push_bit (10 * 2) (word_of_nat ZONE_MOVABLE) OR push_bit (12 * 2) (word_of_nat ZONE_NORMAL)"

definition gfp_zone :: "ulong \<Rightarrow> nat" where
  "gfp_zone flags =
     (let b = unat (flags AND GFP_ZONEMASK) in unat (drop_bit (b * 2) GFP_ZONE_TABLE AND (push_bit 2 1 - 1)))"

definition allocflags_to_migratetype :: "bool \<Rightarrow> ulong \<Rightarrow> nat" where
  "allocflags_to_migratetype pgmd gfp_flags =
     (if pgmd then MIGRATE_UNMOVABLE
      else 2 * of_bool (gfp_flags AND GFP_MOVABLE \<noteq> 0) + of_bool (gfp_flags AND GFP_RECLAIMABLE \<noteq> 0))"

text \<open>\<^verbatim>\<open>zone_reclaim_mode\<close> and \<^verbatim>\<open>NUMA_BUILD\<close> are 0, \<^verbatim>\<open>cpuset_zone_allowed_softwall\<close> is 1.\<close>

fun freelist_scan :: "nat list \<Rightarrow> mm \<Rightarrow> ulong \<Rightarrow> nat \<Rightarrow> ulong \<Rightarrow> nat \<Rightarrow> nat \<Rightarrow> (mm \<times> nat option) option" where
  "freelist_scan [] s gfp_mask order alloc_flags classzone_idx migratetype = Some (s, None)"
| "freelist_scan (zi # zs) s gfp_mask order alloc_flags classzone_idx migratetype =
     (let z = mm_zones s zi;
          mark = watermark z (unat (alloc_flags AND ALLOC_WMARK_MASK))
      in if alloc_flags AND ALLOC_NO_WATERMARKS = 0 \<and> \<not> zone_watermark_ok z order mark classzone_idx alloc_flags
         then freelist_scan zs s gfp_mask order alloc_flags classzone_idx migratetype
         else case buffered_rmqueue s zi order gfp_mask migratetype of
                None \<Rightarrow> None
              | Some (s, Some page) \<Rightarrow> Some (s, Some page)
              | Some (s, None) \<Rightarrow> freelist_scan zs s gfp_mask order alloc_flags classzone_idx migratetype)"

definition get_page_from_freelist :: "mm \<Rightarrow> ulong \<Rightarrow> nat \<Rightarrow> nat \<Rightarrow> ulong \<Rightarrow> nat \<Rightarrow> nat \<Rightarrow> (mm \<times> nat option) option" where
  "get_page_from_freelist s gfp_mask order high_zoneidx alloc_flags preferred_zone migratetype =
     freelist_scan (for_each_zone (mm_zonelist s) high_zoneidx) s gfp_mask order alloc_flags preferred_zone migratetype"

definition uu_alloc_pages_nodemask :: "mm \<Rightarrow> ulong \<Rightarrow> nat \<Rightarrow> (mm \<times> nat option) option" where
  "uu_alloc_pages_nodemask s gfp_mask order =
     (let high_zoneidx = gfp_zone gfp_mask;
          migratetype = allocflags_to_migratetype (mm_pgmd s) gfp_mask;
          gfp_mask = gfp_mask AND mm_gfp_allowed s
      in if fst (hd (mm_zonelist s)) = None then Some (s, None)
         else case fst (hd (next_zones_zonelist (mm_zonelist s) high_zoneidx)) of
           None \<Rightarrow> Some (s, None)
         | Some preferred_zone \<Rightarrow>
             get_page_from_freelist s (gfp_mask OR GFP_HARDWALL) order high_zoneidx (ALLOC_WMARK_LOW OR ALLOC_CPUSET)
               preferred_zone migratetype)"

definition PAGE_OFFSET_VA :: ulong where "PAGE_OFFSET_VA = 0xC0000000"

definition page_address :: "nat \<Rightarrow> ulong" where
  "page_address p = ucast (PFN_PHYS (word_of_nat p :: ulong) :: phys_addr_t) + PAGE_OFFSET_VA"

definition virt_to_page :: "ulong \<Rightarrow> nat" where
  "virt_to_page kaddr = unat (drop_bit PAGE_SHIFT (kaddr - PAGE_OFFSET_VA))"

definition uu_get_free_pages :: "mm \<Rightarrow> ulong \<Rightarrow> nat \<Rightarrow> (mm \<times> ulong) option" where
  "uu_get_free_pages s gfp_mask order =
     (case uu_alloc_pages_nodemask s gfp_mask order of
        None \<Rightarrow> None
      | Some (s, None) \<Rightarrow> Some (s, 0)
      | Some (s, Some page) \<Rightarrow> Some (s, page_address page))"

definition free_pages_addr :: "mm \<Rightarrow> ulong \<Rightarrow> nat \<Rightarrow> mm option" where
  "free_pages_addr s addr order = (if addr \<noteq> 0 then uu_free_pages s (virt_to_page addr) order else Some s)"

section \<open>The invariant\<close>

text \<open>Statistics are no concern of the buddy lists.\<close>

lemma stat_fields [simp]:
  "fl (z\<lparr>nr_free_pages := x\<rparr>) = fl z" "fl (z\<lparr>all_unreclaimable := a\<rparr>) = fl z" "fl (z\<lparr>pages_scanned := b\<rparr>) = fl z"
  "span (z\<lparr>nr_free_pages := x\<rparr>) = span z" "span (z\<lparr>all_unreclaimable := a\<rparr>) = span z" "span (z\<lparr>pages_scanned := b\<rparr>) = span z"
  "fb (z\<lparr>nr_free_pages := x\<rparr>) = fb z" "fb (z\<lparr>all_unreclaimable := a\<rparr>) = fb z" "fb (z\<lparr>pages_scanned := b\<rparr>) = fb z"
  "free_pages (z\<lparr>nr_free_pages := x\<rparr>) = free_pages z" "free_pages (z\<lparr>all_unreclaimable := a\<rparr>) = free_pages z"
  "free_pages (z\<lparr>pages_scanned := b\<rparr>) = free_pages z"
  by (simp_all add: fl_def span_def fb_def free_pages_def fun_eq_iff)

lemma stat_inv [simp]:
  "buddy_inv m (z\<lparr>nr_free_pages := x\<rparr>) = buddy_inv m z" "buddy_inv m (z\<lparr>all_unreclaimable := a\<rparr>) = buddy_inv m z"
  "buddy_inv m (z\<lparr>pages_scanned := b\<rparr>) = buddy_inv m z"
  "held (z\<lparr>nr_free_pages := x\<rparr>) p k = held z p k" "held (z\<lparr>all_unreclaimable := a\<rparr>) p k = held z p k"
  "held (z\<lparr>pages_scanned := b\<rparr>) p k = held z p k"
  by (simp_all add: buddy_inv_def zone_ok_def held_def)

lemma stat_migratetype [simp]:
  "get_pageblock_migratetype (z\<lparr>nr_free_pages := x\<rparr>) q = get_pageblock_migratetype z q"
  "get_pageblock_migratetype (z\<lparr>all_unreclaimable := a\<rparr>) q = get_pageblock_migratetype z q"
  "get_pageblock_migratetype (z\<lparr>pages_scanned := b\<rparr>) q = get_pageblock_migratetype z q"
  by (simp_all add: get_migratetype block_of_def)

definition types_ok :: "zone \<Rightarrow> bool" where
  "types_ok z \<longleftrightarrow> (\<forall>q\<in>span z. get_pageblock_migratetype z q < MIGRATE_TYPES)"

text \<open>A page frame that may be on a free list.\<close>

definition spotless :: "page \<Rightarrow> bool" where
  "spotless p \<longleftrightarrow> pg_mapping p = 0 \<and> pg_count p = 0 \<and> pg_flags p AND PAGE_FLAGS_CHECK_AT_PREP = 0
     \<and> (pg_mapcount p = -1 \<or> PageBuddy p)"

definition zone_inv :: "mem_map \<Rightarrow> zone \<Rightarrow> bool" where
  "zone_inv m z \<longleftrightarrow> buddy_inv m z \<and> types_ok z \<and> (\<forall>q\<in>free_pages z. spotless (m q))"

definition pcp_idle :: "per_cpu_pages \<Rightarrow> bool" where
  "pcp_idle pcp \<longleftrightarrow> (\<forall>t<MIGRATE_PCPTYPES. pcp_lists pcp t = []) \<and> pcp_count pcp = 0 \<and> pcp_high pcp = 0 \<and> pcp_batch pcp = 1"

definition mm_inv :: "mm \<Rightarrow> bool" where
  "mm_inv s \<longleftrightarrow> (\<forall>i<MAX_NR_ZONES. zone_num (mm_zones s i) = i \<and> zone_inv (mm_map s) (mm_zones s i)) \<and> pcp_idle (mm_pcp s)"

lemma free_pages_span: "buddy_inv m z \<Longrightarrow> free_pages z \<subseteq> span z"
  using buddy_invD(5) unfolding free_pages_def by blast

text \<open>What a zone relies on in the page frames.\<close>

lemma buddy_inv_frame:
  assumes inv: "buddy_inv m z" and zn: "\<And>q. page_zone_id (m' q) = page_zone_id (m q)"
    and pb: "\<And>q. page_zone_id (m q) = zone_num z \<Longrightarrow> PageBuddy (m' q) = PageBuddy (m q)
      \<and> (PageBuddy (m q) \<longrightarrow> page_order (m' q) = page_order (m q))"
  shows "buddy_inv m' z"
proof (rule buddy_invI)
  show "zone_ok m' z" using buddy_invD(1) [OF inv] zn by (simp add: zone_ok_def)
  show "distinct (fl z k)" "nr_free z k = word_of_nat (length (fl z k))" if "k < MAX_ORDER" for k
    using buddy_invD(2,3) [OF inv that] .
  show "2 ^ k dvd p \<and> blk p k \<subseteq> span z \<and> PageBuddy (m' p) \<and> page_order (m' p) = word_of_nat k" if pk: "(p, k) \<in> fb z" for p k
  proof -
    have "p \<in> span z" using buddy_invD(5) [OF inv pk] blk_nonempty(2) by blast
    then have "page_zone_id (m p) = zone_num z" using buddy_invD(1) [OF inv] by (simp add: zone_ok_def)
    then show ?thesis using buddy_invD(4-7) [OF inv pk] pb by simp
  qed
  show "(q, unat (page_order (m' q))) \<in> fb z" if "page_zone_id (m' q) = zone_num z" "PageBuddy (m' q)" for q
    using buddy_invD(8) [OF inv, of q] pb [of q] zn that by simp
  show "p = q \<and> k = l" if "(p, k) \<in> fb z" "(q, l) \<in> fb z" "x \<in> blk p k" "x \<in> blk q l" for p k q l x
    using buddy_invD(9) [OF inv that] .
  show "(uu_find_buddy_index p k, k) \<notin> fb z" if "(p, k) \<in> fb z" "k < MAX_ORDER - 1" for p k
    using buddy_invD(10) [OF inv that] .
qed

text \<open>Another zone does not notice a change of the page frames of a block.\<close>

lemma zone_inv_frame:
  assumes zi: "zone_inv m z" and zn: "\<And>q. page_zone_id (m' q) = page_zone_id (m q)"
    and same: "\<And>q. page_zone_id (m q) = zone_num z \<Longrightarrow> m' q = m q"
  shows "zone_inv m' z"
proof -
  have inv: "buddy_inv m z" using zi by (simp add: zone_inv_def)
  have "m' q = m q" if "q \<in> free_pages z" for q
    using that free_pages_span [OF inv] buddy_invD(1) [OF inv] same by (auto simp: zone_ok_def)
  moreover have "buddy_inv m' z" using buddy_inv_frame [OF inv zn] same by simp
  ultimately show ?thesis using zi by (simp add: zone_inv_def)
qed

section \<open>Freeing keeps the invariant\<close>

lemma lru_flags [simp]: "pageblock_flags (lru_del z p) = pageblock_flags z" "pageblock_flags (lru_add z p k t) = pageblock_flags z"
  "pageblock_flags (lru_add_tail z p k t) = pageblock_flags z" "pageblock_flags (nr_free_dec z k) = pageblock_flags z"
  "pageblock_flags (nr_free_inc z k) = pageblock_flags z"
  by (simp_all add: lru_del_def lru_add_def lru_add_tail_def nr_free_dec_def nr_free_inc_def)

lemma merge_flags: "pageblock_flags (fst (snd (merge_loop m z p i k b))) = pageblock_flags z"
proof (induction m z p i k b rule: merge_loop.induct)
  case (1 m z p i k b)
  then show ?case unfolding merge_loop.simps [of m z p i k b] Let_def by simp
qed

lemma free_one_flags: "pageblock_flags (snd (uu_free_one_page m z p k t)) = pageblock_flags z"
proof -
  obtain m0 bad where d: "(if PageCompound (m p) then destroy_compound_page m p k else (m, 0)) = (m0, bad)" by fastforce
  obtain m1 z1 p1 i1 k1 b1 where "merge_loop m0 z p (p AND (push_bit MAX_ORDER 1 - 1)) k 0 = (m1, z1, p1, i1, k1, b1)"
    by (metis prod_cases6)
  then show ?thesis
    using merge_flags [of m0 z p "p AND (push_bit MAX_ORDER 1 - 1)" k 0]
    unfolding uu_free_one_page_def d Let_def by auto
qed

lemma types_ok_cong:
  "same_zone z z' \<Longrightarrow> pageblock_flags z' = pageblock_flags z \<Longrightarrow> types_ok z' = types_ok z"
  using same_zone_span [of z z'] by (simp add: types_ok_def get_migratetype block_of_def same_zone_def)

text \<open>A block whose page frames are ready to go to the free lists.\<close>

definition ready :: "mem_map \<Rightarrow> zone \<Rightarrow> nat \<Rightarrow> nat \<Rightarrow> bool" where
  "ready m z p k \<longleftrightarrow> held z p k \<and> (\<forall>q\<in>blk p k. spotless (m q) \<and> pg_mapcount (m q) = -1)"

lemma bit_flag: "bit (flag n) k \<longleftrightarrow> k = n \<and> n < 32"
  by (auto simp: flag_def bit_exp_iff)

lemma low_flags: "pg_flags p AND PAGE_FLAGS_CHECK_AT_PREP = 0 \<Longrightarrow> n < 22 \<Longrightarrow> \<not> bit (pg_flags p) n"
  using bit_check_at_prep by (metis bit_and_iff bit_0_eq bot_apply bot_bool_def)

lemma not_compound: "pg_flags p AND PAGE_FLAGS_CHECK_AT_PREP = 0 \<Longrightarrow> \<not> PageCompound p"
proof -
  assume a: "pg_flags p AND PAGE_FLAGS_CHECK_AT_PREP = 0"
  have "pg_flags p AND (flag PG_head OR flag PG_tail) = 0"
  proof (rule bit_word_eqI)
    fix n :: nat
    show "bit (pg_flags p AND (flag PG_head OR flag PG_tail)) n = bit (0 :: ulong) n"
      using low_flags [OF a, of n] by (auto simp: bit_flag pageflags bit_and_iff bit_or_iff)
  qed
  then show ?thesis by (simp add: PageCompound_def)
qed

lemma spotless_marks:
  assumes "marks S m m'" "spotless (m q)"
  shows "spotless (m' q)"
  using assms unfolding marks_def spotless_def PageBuddy_def by (metis empty_iff insert_iff)

lemma zone_id_marks_eq: "marks S m m' \<Longrightarrow> page_zone_id (m' q) = page_zone_id (m q)"
  by (simp add: marks_def page_zone_id_def)

lemma put_block:
  assumes zi: "zone_inv m z" and r: "ready m z p k" and t: "t < MIGRATE_TYPES"
    and run: "uu_free_one_page m z p k t = (m', z')"
  shows "zone_inv m' z'" "same_zone z z'" "free_pages z' = free_pages z \<union> blk p k"
    "marks (free_pages z \<union> blk p k) m m'" "marks (span z) m m'"
proof -
  have inv: "buddy_inv m z" and h: "held z p k" using zi r by (simp_all add: zone_inv_def ready_def)
  have "\<not> PageCompound (m p)" using r not_compound [of "m p"] by (simp add: ready_def spotless_def)
  note sp = free_one_page_spec [OF inv h t this run]
  show sz: "same_zone z z'" and fp: "free_pages z' = free_pages z \<union> blk p k"
    and mk: "marks (free_pages z \<union> blk p k) m m'"
    using sp by blast+
  have "free_pages z \<union> blk p k \<subseteq> span z" using free_pages_span [OF inv] h by (simp add: held_def)
  then show "marks (span z) m m'" by (rule marks_mono [OF mk])
  have "spotless (m' q)" if "q \<in> free_pages z'" for q
    using that fp zi r spotless_marks [OF mk] by (auto simp: zone_inv_def ready_def)
  moreover have "types_ok z'"
    using types_ok_cong [OF sz] free_one_flags [of m z p k t] run zi by (simp add: zone_inv_def)
  ultimately show "zone_inv m' z'" using sp by (simp add: zone_inv_def)
qed

lemma stat_zone_inv [simp]:
  "zone_inv m (z\<lparr>nr_free_pages := x\<rparr>) = zone_inv m z" "zone_inv m (z\<lparr>all_unreclaimable := a\<rparr>) = zone_inv m z"
  "zone_inv m (z\<lparr>pages_scanned := b\<rparr>) = zone_inv m z"
  "ready m (z\<lparr>nr_free_pages := x\<rparr>) p k = ready m z p k" "ready m (z\<lparr>all_unreclaimable := a\<rparr>) p k = ready m z p k"
  "ready m (z\<lparr>pages_scanned := b\<rparr>) p k = ready m z p k"
  by (simp_all add: zone_inv_def types_ok_def ready_def)

lemma stat_same [simp]: "same_zone (z\<lparr>all_unreclaimable := a\<rparr>) y = same_zone z y" "same_zone (z\<lparr>pages_scanned := b\<rparr>) y = same_zone z y"
  "same_zone y (z\<lparr>nr_free_pages := x\<rparr>) = same_zone y z"
  by (simp_all add: same_zone_def)

text \<open>The zones as a whole after a change of one zone.\<close>

definition zones_inv :: "mem_map \<Rightarrow> (nat \<Rightarrow> zone) \<Rightarrow> bool" where
  "zones_inv m zs \<longleftrightarrow> (\<forall>i<MAX_NR_ZONES. zone_num (zs i) = i \<and> zone_inv m (zs i))"

lemma mm_inv_zones: "mm_inv s \<longleftrightarrow> zones_inv (mm_map s) (mm_zones s) \<and> pcp_idle (mm_pcp s)"
  by (simp add: mm_inv_def zones_inv_def)

lemma zones_inv_upd:
  assumes zs: "zones_inv m zs" and i: "i < MAX_NR_ZONES" and new: "zone_inv m' z'" "same_zone (zs i) z'"
    and zn: "\<And>q. page_zone_id (m' q) = page_zone_id (m q)" and other: "\<And>q. q \<notin> span (zs i) \<Longrightarrow> m' q = m q"
  shows "zones_inv m' (zs(i := z'))"
  unfolding zones_inv_def
proof (intro allI impI)
  fix j assume j: "j < MAX_NR_ZONES"
  show "zone_num ((zs(i := z')) j) = j \<and> zone_inv m' ((zs(i := z')) j)"
  proof (cases "j = i")
    case True
    then show ?thesis using new zs i by (simp add: same_zone_def zones_inv_def)
  next
    case False
    have "q \<notin> span (zs i)" if "page_zone_id (m q) = zone_num (zs j)" for q
      using zs i j False that by (auto simp: zones_inv_def zone_inv_def zone_ok_def dest!: buddy_invD(1))
    then show ?thesis using zone_inv_frame [of m "zs j" m'] zs j False zn other by (auto simp: zones_inv_def)
  qed
qed

text \<open>The frame of an operation: outside of a set of pages only buddy marks change, and the
  fixed parts of the state stay.\<close>

definition touched :: "nat set \<Rightarrow> mem_map \<Rightarrow> mem_map \<Rightarrow> bool" where
  "touched B m m' \<longleftrightarrow> (\<forall>q. q \<notin> B \<longrightarrow> pg_flags (m' q) = pg_flags (m q) \<and> pg_mapping (m' q) = pg_mapping (m q)
     \<and> pg_count (m' q) = pg_count (m q) \<and> pg_mapcount (m' q) \<in> {pg_mapcount (m q), -1, PAGE_BUDDY_MAPCOUNT_VALUE})"

definition kept :: "mm \<Rightarrow> nat \<Rightarrow> nat set \<Rightarrow> mm \<Rightarrow> bool" where
  "kept s i B s' \<longleftrightarrow> touched B (mm_map s) (mm_map s')
     \<and> (\<forall>q. q \<notin> B \<and> q \<notin> free_pages (mm_zones s i) \<longrightarrow> mm_map s' q = mm_map s q)
     \<and> free_pages (mm_zones s' i) \<subseteq> free_pages (mm_zones s i) \<union> B \<and> same_zone (mm_zones s i) (mm_zones s' i)
     \<and> (\<forall>j. j \<noteq> i \<longrightarrow> mm_zones s' j = mm_zones s j)
     \<and> mm_zonelist s' = mm_zonelist s \<and> mm_gfp_allowed s' = mm_gfp_allowed s \<and> mm_pgmd s' = mm_pgmd s"

lemma touched_trans: "touched B m1 m2 \<Longrightarrow> touched B m2 m3 \<Longrightarrow> touched B m1 m3"
  unfolding touched_def by (metis empty_iff insert_iff)

lemma touched_marks: "marks S m m' \<Longrightarrow> touched B m m'"
  by (simp add: touched_def marks_def)

lemma touched_only: "(\<And>q. q \<notin> B \<Longrightarrow> m' q = m q) \<Longrightarrow> touched B m m'"
  by (simp add: touched_def)

lemma kept_trans: "kept s i B s1 \<Longrightarrow> kept s1 i B s2 \<Longrightarrow> kept s i B s2"
  unfolding kept_def using touched_trans same_zone_trans by (auto simp: subset_iff)

lemma kept_pcp [simp]: "kept s i B (s'\<lparr>mm_pcp := q\<rparr>) = kept s i B s'"
  by (simp add: kept_def)

lemma free_one_page_zones:
  assumes zs: "zones_inv (mm_map s) (mm_zones s)" and i: "i < MAX_NR_ZONES" and r: "ready (mm_map s) (mm_zones s i) p k"
    and t: "t < MIGRATE_TYPES"
  shows "zones_inv (mm_map (free_one_page s i p k t)) (mm_zones (free_one_page s i p k t))"
    "free_pages (mm_zones (free_one_page s i p k t) i) = free_pages (mm_zones s i) \<union> blk p k"
    "\<And>j. j \<noteq> i \<Longrightarrow> mm_zones (free_one_page s i p k t) j = mm_zones s j"
    "mm_pcp (free_one_page s i p k t) = mm_pcp s" "kept s i (blk p k) (free_one_page s i p k t)"
proof -
  let ?z = "(mm_zones s i)\<lparr>all_unreclaimable := 0, pages_scanned := 0\<rparr>"
  obtain m' z' where f: "uu_free_one_page (mm_map s) ?z p k t = (m', z')" by fastforce
  have "zone_inv (mm_map s) ?z" "ready (mm_map s) ?z p k" using zs i r by (simp_all add: zones_inv_def)
  note pb = put_block [OF this t f]
  have fop: "free_one_page s i p k t = set_zone (s\<lparr>mm_map := m'\<rparr>) i (z'\<lparr>nr_free_pages := nr_free_pages z' + push_bit k 1\<rparr>)"
    using f by (simp add: free_one_page_def)
  have "m' q = mm_map s q" if "q \<notin> span (mm_zones s i)" for q using pb(5) that by (simp add: marks_def)
  moreover have "zone_inv m' (z'\<lparr>nr_free_pages := nr_free_pages z' + push_bit k 1\<rparr>)"
    "same_zone (mm_zones s i) (z'\<lparr>nr_free_pages := nr_free_pages z' + push_bit k 1\<rparr>)" using pb(1,2) by simp_all
  ultimately show "zones_inv (mm_map (free_one_page s i p k t)) (mm_zones (free_one_page s i p k t))"
    using zones_inv_upd [OF zs i] zone_id_marks_eq [OF pb(4)] by (simp add: fop set_zone_def)
  show "free_pages (mm_zones (free_one_page s i p k t) i) = free_pages (mm_zones s i) \<union> blk p k"
    "\<And>j. j \<noteq> i \<Longrightarrow> mm_zones (free_one_page s i p k t) j = mm_zones s j"
    "mm_pcp (free_one_page s i p k t) = mm_pcp s" "kept s i (blk p k) (free_one_page s i p k t)"
    using pb(2,3,4) touched_marks [OF pb(4)] by (simp_all add: fop set_zone_def kept_def marks_def)
qed

section \<open>Pages in use\<close>

text \<open>A block as an allocation returns it and as its owner must give it back: the first page is
  referenced once, nothing else refers to its pages, and none of the flags that forbid freeing
  is set.\<close>

definition in_use_block :: "mm \<Rightarrow> nat \<Rightarrow> nat \<Rightarrow> nat \<Rightarrow> bool" where
  "in_use_block s i p k \<longleftrightarrow> i < MAX_NR_ZONES \<and> held (mm_zones s i) p k
     \<and> (\<forall>q\<in>blk p k. pg_mapcount (mm_map s q) = -1 \<and> pg_mapping (mm_map s q) = 0
          \<and> pg_flags (mm_map s q) AND PAGE_FLAGS_CHECK_AT_FREE = 0
          \<and> pg_count (mm_map s q) = (if q = p then 1 else 0))"

text \<open>The pages after the checks of \<open>free_pages_prepare\<close>.\<close>

definition wiped :: "page \<Rightarrow> page" where
  "wiped p = p\<lparr>pg_flags := pg_flags p AND NOT PAGE_FLAGS_CHECK_AT_PREP\<rparr>"

lemma check_wiped:
  assumes "pg_mapcount p = -1" "pg_mapping p = 0" "pg_flags p AND PAGE_FLAGS_CHECK_AT_FREE = 0"
  shows "free_pages_check p = (wiped p, 0)"
proof -
  have "wiped p = p" if "pg_flags p AND PAGE_FLAGS_CHECK_AT_PREP = 0"
  proof -
    have "pg_flags p AND NOT PAGE_FLAGS_CHECK_AT_PREP = pg_flags p"
    proof (rule bit_word_eqI)
      fix n :: nat assume "n < LENGTH(32)"
      then show "bit (pg_flags p AND NOT PAGE_FLAGS_CHECK_AT_PREP) n = bit (pg_flags p) n"
        using low_flags [OF that, of n] by (auto simp: bit_and_iff bit_not_iff bit_check_at_prep)
    qed
    then show ?thesis by (simp add: wiped_def)
  qed
  then show ?thesis using assms by (auto simp: free_pages_check_def page_mapcount_def wiped_def)
qed

lemma check_loop_wiped:
  assumes "\<forall>q\<in>{p..<p + n}. pg_mapcount (m q) = -1 \<and> pg_mapping (m q) = 0 \<and> pg_flags (m q) AND PAGE_FLAGS_CHECK_AT_FREE = 0"
  shows "check_pages_loop n p m b = ((\<lambda>q. if p \<le> q \<and> q < p + n then wiped (m q) else m q), b)"
  using assms
proof (induction n arbitrary: p m)
  case (Suc n)
  have "free_pages_check (m p) = (wiped (m p), 0)" using Suc.prems by (intro check_wiped) auto
  moreover have "check_pages_loop n (p + 1) (m(p := wiped (m p))) b =
      ((\<lambda>q. if p + 1 \<le> q \<and> q < p + 1 + n then wiped ((m(p := wiped (m p))) q) else (m(p := wiped (m p))) q), b)"
    using Suc.prems by (intro Suc.IH) auto
  ultimately show ?case by (auto simp: fun_eq_iff)
qed (auto simp: fun_eq_iff)

lemma wiped_fields [simp]: "pg_mapping (wiped p) = pg_mapping p" "pg_count (wiped p) = pg_count p"
  "pg_mapcount (wiped p) = pg_mapcount p" "pg_private (wiped p) = pg_private p" "page_zone_id (wiped p) = page_zone_id p"
  "pg_flags (wiped p) AND PAGE_FLAGS_CHECK_AT_PREP = 0"
proof -
  show "page_zone_id (wiped p) = page_zone_id p" by (simp add: wiped_def page_zone_id_num)
  show "pg_flags (wiped p) AND PAGE_FLAGS_CHECK_AT_PREP = 0" by (simp add: wiped_def and.assoc)
qed (simp_all add: wiped_def)

lemma mlocked_clear: "pg_flags p AND PAGE_FLAGS_CHECK_AT_FREE = 0 \<Longrightarrow> \<not> test_page_flag PG_mlocked p"
proof -
  assume a: "pg_flags p AND PAGE_FLAGS_CHECK_AT_FREE = 0"
  have "bit PAGE_FLAGS_CHECK_AT_FREE 21" by (simp add: PAGE_FLAGS_CHECK_AT_FREE_def bit_or_iff bit_flag pageflags)
  then have "\<not> bit (pg_flags p) 21" using a by (metis bit_and_iff bit_0_eq bot_apply bot_bool_def)
  then show ?thesis by (simp add: test_page_flag_def pageflags)
qed

lemma clear_unset: "\<not> test_page_flag n p \<Longrightarrow> clear_page_flag n p = p"
proof -
  assume "\<not> test_page_flag n p"
  then have "unset_bit n (pg_flags p) = pg_flags p"
    by (intro bit_word_eqI) (auto simp: test_page_flag_def bit_unset_bit_iff)
  then show ?thesis by (simp add: clear_page_flag_def)
qed

text \<open>The state in which the block reaches the free lists: the reference is gone and the pages
  are wiped.\<close>

definition dropped :: "mm \<Rightarrow> nat \<Rightarrow> nat \<Rightarrow> mm" where
  "dropped s p k = s\<lparr>mm_map := (\<lambda>q. if q \<in> blk p k then wiped (if q = p then (mm_map s q)\<lparr>pg_count := 0\<rparr> else mm_map s q) else mm_map s q)\<rparr>"

lemma put_and_prepare:
  assumes u: "in_use_block s i p k"
  defines "s1 \<equiv> upd_page s p (\<lambda>q. q\<lparr>pg_count := 0\<rparr>)"
  shows "put_page_testzero (mm_map s p) = ((mm_map s p)\<lparr>pg_count := 0\<rparr>, True)"
    "\<not> test_page_flag PG_mlocked (mm_map s1 p)" "upd_page s1 p (clear_page_flag PG_mlocked) = s1"
    "free_pages_prepare (mm_map s1) p k = (mm_map (dropped s p k), True)"
proof -
  have pp: "pg_mapcount (mm_map s p) = -1" "pg_mapping (mm_map s p) = 0" "pg_flags (mm_map s p) AND PAGE_FLAGS_CHECK_AT_FREE = 0"
    "pg_count (mm_map s p) = 1"
    using u by (simp_all add: in_use_block_def)
  show "put_page_testzero (mm_map s p) = ((mm_map s p)\<lparr>pg_count := 0\<rparr>, True)"
    using pp by (simp add: put_page_testzero_def)
  show ml: "\<not> test_page_flag PG_mlocked (mm_map s1 p)"
    using mlocked_clear [of "mm_map s1 p"] pp by (simp add: s1_def upd_page_def)
  show "upd_page s1 p (clear_page_flag PG_mlocked) = s1" using clear_unset [OF ml] by (simp add: upd_page_def)
  have "\<not> PageAnon (mm_map s1 p)" using pp by (simp add: s1_def upd_page_def PageAnon_def)
  moreover have "check_pages_loop (2 ^ k) p (mm_map s1) 0 =
      ((\<lambda>q. if p \<le> q \<and> q < p + 2 ^ k then wiped (mm_map s1 q) else mm_map s1 q), 0)"
    using u by (intro check_loop_wiped) (auto simp: s1_def upd_page_def in_use_block_def blk_def)
  ultimately show "free_pages_prepare (mm_map s1) p k = (mm_map (dropped s p k), True)"
    by (auto simp: free_pages_prepare_def dropped_def s1_def upd_page_def blk_def fun_eq_iff)
qed

lemma dropped_ready:
  assumes zs: "zones_inv (mm_map s) (mm_zones s)" and u: "in_use_block s i p k"
  shows "zones_inv (mm_map (dropped s p k)) (mm_zones s)" "ready (mm_map (dropped s p k)) (mm_zones s i) p k"
proof -
  let ?m = "mm_map (dropped s p k)"
  have i: "i < MAX_NR_ZONES" and h: "held (mm_zones s i) p k" using u by (simp_all add: in_use_block_def)
  show "ready ?m (mm_zones s i) p k"
    using u by (auto simp: ready_def in_use_block_def dropped_def spotless_def)
  have zn: "page_zone_id (?m q) = page_zone_id (mm_map s q)" for q
    by (simp add: dropped_def) (simp add: page_zone_id_num)
  have zi: "zone_inv (mm_map s) (mm_zones s i)" using zs i by (simp add: zones_inv_def)
  have bd: "PageBuddy (?m q) = PageBuddy (mm_map s q) \<and> page_order (?m q) = page_order (mm_map s q)" for q
    by (simp add: dropped_def PageBuddy_def page_order_def)
  have "buddy_inv (mm_map s) (mm_zones s i)" using zi by (simp add: zone_inv_def)
  then have "buddy_inv ?m (mm_zones s i)" by (rule buddy_inv_frame [OF _ zn]) (use bd in blast)
  moreover have "?m q = mm_map s q" if "q \<in> free_pages (mm_zones s i)" for q
  proof -
    have "q \<notin> blk p k" using that h unfolding held_def by blast
    then show ?thesis by (simp add: dropped_def)
  qed
  ultimately have "zone_inv ?m (mm_zones s i)" using zi by (simp add: zone_inv_def)
  moreover have "?m q = mm_map s q" if "q \<notin> span (mm_zones s i)" for q
  proof -
    have "q \<notin> blk p k" using that h unfolding held_def by blast
    then show ?thesis by (simp add: dropped_def)
  qed
  ultimately show "zones_inv ?m (mm_zones s)"
    using zones_inv_upd [OF zs i, of ?m "mm_zones s i"] zn by simp
qed

text \<open>Draining the only page of the per-CPU lists.\<close>

lemma bulk_single:
  assumes l: "\<forall>u<MIGRATE_PCPTYPES. pcp_lists pcp u = (if u = t then [p] else [])" and t: "t < MIGRATE_PCPTYPES"
  shows "bulk_outer m z pcp 0 0 1 =
    (case uu_free_one_page m z p 0 (unat (pg_private (m p))) of
       (m', z') \<Rightarrow> Some (m', z', pcp\<lparr>pcp_lists := (pcp_lists pcp)(t := [])\<rparr>))"
proof -
  obtain m' z' where f: "uu_free_one_page m z p 0 (unat (pg_private (m p))) = (m', z')" by fastforce
  have inner: "bulk_inner m z pcp t 1 b = (m', z', pcp\<lparr>pcp_lists := (pcp_lists pcp)(t := [])\<rparr>, 0, b)" for b
    unfolding bulk_inner.simps [of m z pcp t 1 b] using l t f by (simp add: Let_def)
  have "t = 0 \<or> t = 1 \<or> t = 2" using t by (auto simp: migratetypes)
  then obtain b where "next_list pcp 0 0 = Some (t, b)"
    using l by (auto simp: next_list_def next_type_def migratetypes Let_def)
  then show ?thesis
    unfolding bulk_outer.simps [of m z pcp 0 0 1] using f inner
    by (simp add: bulk_outer.simps [of m' z' _ t _ 0])
qed

lemma private_ready:
  assumes zs: "zones_inv (mm_map s) (mm_zones s)" and r: "ready (mm_map s) (mm_zones s i) p k" and i: "i < MAX_NR_ZONES"
  shows "zones_inv (mm_map (upd_page s p (\<lambda>q. set_page_private q v))) (mm_zones s)"
    "ready (mm_map (upd_page s p (\<lambda>q. set_page_private q v))) (mm_zones s i) p k"
proof -
  let ?m = "mm_map (upd_page s p (\<lambda>q. set_page_private q v))"
  show "ready ?m (mm_zones s i) p k" using r by (auto simp: ready_def upd_page_def spotless_def set_page_private_def PageBuddy_def)
  have zn: "page_zone_id (?m q) = page_zone_id (mm_map s q)" for q
    by (simp add: upd_page_def set_page_private_def page_zone_id_num)
  have "\<not> PageBuddy (mm_map s p)" using r by (auto simp: ready_def PageBuddy_def PAGE_BUDDY_MAPCOUNT_VALUE_def)
  then have bd: "PageBuddy (?m q) = PageBuddy (mm_map s q) \<and> (PageBuddy (mm_map s q) \<longrightarrow> page_order (?m q) = page_order (mm_map s q))" for q
    by (auto simp: upd_page_def set_page_private_def PageBuddy_def page_order_def)
  have inv: "zone_inv (mm_map s) (mm_zones s i)" using zs i by (simp add: zones_inv_def)
  then have "buddy_inv (mm_map s) (mm_zones s i)" by (simp add: zone_inv_def)
  then have "buddy_inv ?m (mm_zones s i)" by (rule buddy_inv_frame [OF _ zn]) (use bd in blast)
  moreover have "spotless (?m q) = spotless (mm_map s q)" for q
    by (simp add: upd_page_def spotless_def set_page_private_def PageBuddy_def)
  ultimately have "zone_inv ?m (mm_zones s i)" using inv by (simp add: zone_inv_def)
  moreover have "p \<in> span (mm_zones s i)" using r blk_nonempty(2) [of p k] unfolding ready_def held_def by blast
  then have "?m q = mm_map s q" if "q \<notin> span (mm_zones s i)" for q using that by (auto simp: upd_page_def)
  ultimately show "zones_inv ?m (mm_zones s)" using zones_inv_upd [OF zs i, of ?m "mm_zones s i"] zn by simp
qed

lemma dropped_kept: "kept s i (blk p k) (dropped s p k)"
  by (simp add: kept_def dropped_def touched_only)

lemma upd_page_kept: "p \<in> B \<Longrightarrow> kept s i B (upd_page s p f)"
  by (auto simp: kept_def upd_page_def intro: touched_only)

text \<open>What a free operation establishes.\<close>

definition freed_block :: "mm \<Rightarrow> nat \<Rightarrow> nat \<Rightarrow> nat \<Rightarrow> mm \<Rightarrow> bool" where
  "freed_block s i p k s' \<longleftrightarrow> mm_inv s' \<and> free_pages (mm_zones s' i) = free_pages (mm_zones s i) \<union> blk p k
     \<and> kept s i (blk p k) s'"

lemma free_hot_cold_page_spec:
  assumes inv: "mm_inv s" and u: "in_use_block s i p 0"
  defines "s1 \<equiv> upd_page s p (\<lambda>q. q\<lparr>pg_count := 0\<rparr>)"
  shows "\<exists>s'. free_hot_cold_page s1 p cold = Some s' \<and> freed_block s i p 0 s'"
proof -
  have i: "i < MAX_NR_ZONES" and zs: "zones_inv (mm_map s) (mm_zones s)" and idle: "pcp_idle (mm_pcp s)"
    using u inv by (simp_all add: in_use_block_def mm_inv_zones)
  note pp = put_and_prepare [OF u, folded s1_def]
  note dr = dropped_ready [OF zs u]
  let ?d = "dropped s p 0"
  have s1: "mm_zones s1 = mm_zones s" "s1\<lparr>mm_map := mm_map ?d\<rparr> = ?d" "mm_zones ?d = mm_zones s" "mm_pcp ?d = mm_pcp s"
    by (simp_all add: s1_def upd_page_def dropped_def)
  have psp: "p \<in> span (mm_zones s i)" using u blk_nonempty(2) [of p 0] unfolding in_use_block_def held_def by blast
  have zi: "zone_of s1 p = i"
    using zs i psp by (auto simp: zone_of_def s1_def upd_page_def zones_inv_def zone_inv_def zone_ok_def page_zone_id_num dest!: buddy_invD(1))
  define t where "t = get_pageblock_migratetype (mm_zones s i) p"
  have t: "t < MIGRATE_TYPES" using zs i psp by (simp add: t_def zones_inv_def zone_inv_def types_ok_def)
  define s2 where "s2 = upd_page ?d p (\<lambda>q. set_page_private q (word_of_nat t))"
  have s2: "zones_inv (mm_map s2) (mm_zones s2)" "ready (mm_map s2) (mm_zones s2 i) p 0"
    "mm_zones s2 = mm_zones s" "mm_pcp s2 = mm_pcp s"
    using private_ready [of ?d i p 0 "word_of_nat t"] dr s1 i by (simp_all add: s2_def upd_page_def)
  define u' where "u' = (if t \<ge> MIGRATE_PCPTYPES then MIGRATE_MOVABLE else t)"
  define pcp where "pcp = (mm_pcp s2)\<lparr>pcp_lists := (pcp_lists (mm_pcp s2))(u' := if cold then pcp_lists (mm_pcp s2) u' @ [p] else p # pcp_lists (mm_pcp s2) u'),
      pcp_count := pcp_count (mm_pcp s2) + 1\<rparr>"
  let ?s3 = "s2\<lparr>mm_pcp := pcp\<rparr>"
  have run: "free_hot_cold_page s1 p cold =
     (if t \<ge> MIGRATE_PCPTYPES \<and> t = MIGRATE_ISOLATE then Some (free_one_page s2 i p 0 t)
      else if pcp_count pcp \<ge> pcp_high pcp then
        map_option (\<lambda>s. s\<lparr>mm_pcp := (mm_pcp s)\<lparr>pcp_count := pcp_count (mm_pcp s) - pcp_batch (mm_pcp s)\<rparr>\<rparr>)
          (free_pcppages_bulk ?s3 i (nat (pcp_batch pcp)))
      else Some ?s3)"
    unfolding free_hot_cold_page_def pp(2-4) zi Let_def
    by (simp add: pp s1 s2_def t_def u'_def pcp_def Let_def)
  have k2: "kept s i (blk p 0) s2"
    unfolding s2_def by (rule kept_trans [OF dropped_kept]) (simp add: upd_page_kept blk_nonempty)
  have fin: "freed_block s i p 0 ((free_one_page s2 i p 0 t)\<lparr>mm_pcp := q\<rparr>)" if "pcp_idle q" for q
    using free_one_page_zones [OF s2(1) i s2(2) t] s2(3) kept_trans [OF k2] that by (simp add: freed_block_def mm_inv_zones)
  show ?thesis
  proof (cases "t \<ge> MIGRATE_PCPTYPES \<and> t = MIGRATE_ISOLATE")
    case True
    then show ?thesis using run fin [OF idle] free_one_page_zones(4) [OF s2(1) i s2(2) t] s2(4) by (simp add: freed_block_def mm_inv_zones)
  next
    case False
    have u': "u' < MIGRATE_PCPTYPES" using False t by (auto simp: u'_def migratetypes)
    have pc: "pcp_count pcp = 1" "pcp_high pcp = 0" "pcp_batch pcp = 1"
      "\<forall>w<MIGRATE_PCPTYPES. pcp_lists pcp w = (if w = u' then [p] else [])"
      using idle s2(4) u' by (auto simp: pcp_def pcp_idle_def)
    have pv: "unat (pg_private (mm_map s2 p)) = t"
      using t by (simp add: s2_def upd_page_def set_page_private_def unat_of_nat migratetypes)
    have "free_pcppages_bulk ?s3 i 1 = Some ((free_one_page s2 i p 0 t)\<lparr>mm_pcp := pcp\<lparr>pcp_lists := (pcp_lists pcp)(u' := [])\<rparr>\<rparr>)"
      using bulk_single [OF pc(4) u'] pv
      by (simp add: free_pcppages_bulk_def free_one_page_def Let_def set_zone_def split: prod.split)
    then have "free_hot_cold_page s1 p cold = Some ((free_one_page s2 i p 0 t)\<lparr>mm_pcp := pcp\<lparr>pcp_lists := (pcp_lists pcp)(u' := []), pcp_count := 0\<rparr>\<rparr>)"
      using run False pc by simp
    moreover have "pcp_idle (pcp\<lparr>pcp_lists := (pcp_lists pcp)(u' := []), pcp_count := 0\<rparr>)" using pc by (auto simp: pcp_idle_def)
    ultimately show ?thesis using fin by blast
  qed
qed

lemma free_pages_ok_spec:
  assumes inv: "mm_inv s" and u: "in_use_block s i p k"
  defines "s1 \<equiv> upd_page s p (\<lambda>q. q\<lparr>pg_count := 0\<rparr>)"
  shows "freed_block s i p k (uu_free_pages_ok s1 p k)"
proof -
  have i: "i < MAX_NR_ZONES" and zs: "zones_inv (mm_map s) (mm_zones s)" and idle: "pcp_idle (mm_pcp s)"
    using u inv by (simp_all add: in_use_block_def mm_inv_zones)
  note pp = put_and_prepare [OF u, folded s1_def]
  note dr = dropped_ready [OF zs u]
  let ?d = "dropped s p k"
  have s1: "s1\<lparr>mm_map := mm_map ?d\<rparr> = ?d" "mm_zones ?d = mm_zones s" "mm_pcp ?d = mm_pcp s"
    by (simp_all add: s1_def upd_page_def dropped_def)
  have psp: "p \<in> span (mm_zones s i)" using u blk_nonempty(2) [of p k] unfolding in_use_block_def held_def by blast
  have zi: "zone_of ?d p = i"
    using dr(1) i psp by (auto simp: zone_of_def zones_inv_def zone_inv_def zone_ok_def page_zone_id_num dest!: buddy_invD(1))
  define t where "t = get_pageblock_migratetype (mm_zones s i) p"
  have t: "t < MIGRATE_TYPES" using zs i psp by (simp add: t_def zones_inv_def zone_inv_def types_ok_def)
  have run: "uu_free_pages_ok s1 p k = free_one_page ?d i p k t"
    unfolding uu_free_pages_ok_def pp(2-4) Let_def by (simp add: pp s1 zi t_def)
  show ?thesis
    using free_one_page_zones [of ?d i p k t] dr s1 i t idle kept_trans [OF dropped_kept] unfolding run
    by (simp add: freed_block_def mm_inv_zones)
qed

lemma free_pages_spec:
  assumes inv: "mm_inv s" and u: "in_use_block s i p k"
  shows "\<exists>s'. uu_free_pages s p k = Some s' \<and> freed_block s i p k s'"
proof -
  let ?s = "upd_page s p (\<lambda>q. q\<lparr>pg_count := 0\<rparr>)"
  have eq: "upd_page s p (\<lambda>_. (mm_map s p)\<lparr>pg_count := 0\<rparr>) = ?s" by (simp add: upd_page_def)
  have "uu_free_pages s p k = (if k = 0 then free_hot_cold_page ?s p False else Some (uu_free_pages_ok ?s p k))"
    using put_and_prepare(1) [OF u] by (simp add: uu_free_pages_def eq)
  then show ?thesis using free_hot_cold_page_spec [OF inv, of i p False] free_pages_ok_spec [OF inv u] u by auto
qed

section \<open>Allocating keeps the invariant\<close>

text \<open>The result of an allocation of a block.\<close>

definition got_block :: "mm \<Rightarrow> nat \<Rightarrow> nat \<Rightarrow> nat \<Rightarrow> mm \<Rightarrow> bool" where
  "got_block s i p k s' \<longleftrightarrow> mm_inv s' \<and> in_use_block s' i p k \<and> blk p k \<subseteq> free_pages (mm_zones s i)
     \<and> free_pages (mm_zones s' i) = free_pages (mm_zones s i) - blk p k \<and> kept s i (blk p k) s'"

lemma expand_bitmap: "pageblock_flags (snd (expand m z p low high t)) = pageblock_flags z"
  by (induction high arbitrary: m z) (simp_all add: Let_def)

lemma move_bitmap: "pageblock_flags (fst (move_freepages m z p e t n)) = pageblock_flags z"
proof (induction m z p e t n rule: move_freepages.induct)
  case (1 m z p e t n)
  then show ?case unfolding move_freepages.simps [of m z p e t n] by (simp add: Let_def lru_move_def)
qed

lemma move_block_bitmap: "pageblock_flags (fst (move_freepages_block m z p t)) = pageblock_flags z"
  by (simp add: move_freepages_block_def Let_def move_bitmap)

lemma types_ok_set:
  assumes "types_ok z" "t < MIGRATE_TYPES"
  shows "types_ok (set_pageblock_migratetype b z p t)"
proof -
  have "span (set_pageblock_migratetype b z p t) = span z"
    using set_migratetype_relisted [of z b p t] same_zone_span by (simp add: relisted_def)
  then show ?thesis using assms migratetype_set [of t b z p] by (auto simp: types_ok_def migratetypes)
qed

lemma types_ok_loop:
  assumes "types_ok z" "t < MIGRATE_TYPES"
  shows "types_ok (change_loop b n z p t)"
  using assms by (induction n arbitrary: z p) (simp_all add: types_ok_set)

lemma move_block_types:
  assumes "buddy_inv m z" "t < MIGRATE_TYPES" "p \<in> span z" "types_ok z"
  shows "types_ok (fst (move_freepages_block m z p t))"
  using types_ok_cong [of z] move_block_relisted [OF assms(1-3)] move_block_bitmap assms(4) by (simp add: relisted_def)

lemma types_ok_dec [simp]: "types_ok (nr_free_dec z k) = types_ok z" "types_ok (lru_del z p) = types_ok z"
  by (rule types_ok_cong; simp)+

lemma expand_types: "same_zone z (snd (expand m z p low high t)) \<Longrightarrow> types_ok (snd (expand m z p low high t)) = types_ok z"
  by (rule types_ok_cong) (simp_all add: expand_bitmap)

lemma expand_same: "same_zone z (snd (expand m z p low high t))"
proof (induction high arbitrary: m z)
  case (Suc high)
  show ?case using Suc [of "nr_free_inc (lru_add z (p + 2 ^ high) high t) high"] by (auto simp: Let_def same_zone_def
      nr_free_inc_def lru_add_def)
qed simp

lemma fallback_take_types:
  assumes inv: "buddy_inv m z" and p: "p \<in> span z" and ok: "types_ok z" and st: "start < MIGRATE_TYPES"
  shows "types_ok (snd (fallback_take b m z low start k t p))"
proof -
  let ?mv = "move_freepages_block m z p start"
  have mt: "types_ok (fst ?mv)" by (rule move_block_types [OF inv st p ok])
  have "types_ok (set_pageblock_migratetype b (fst ?mv) p start)" by (rule types_ok_set [OF mt st])
  then show ?thesis
    unfolding fallback_take_def Let_def move_block_dec
    using mt ok st by (auto simp: expand_types expand_same dec_commute change_pageblock_range_def types_ok_loop)
qed

lemma rmqueue_from_types: "types_ok z \<Longrightarrow> types_ok (snd (fst (rmqueue_from m z low t ks)))"
  by (induction ks) (auto simp: Let_def expand_types expand_same split: list.splits)

lemma fallback_types_ok:
  assumes inv: "buddy_inv m z" and ok: "types_ok z" and st: "start < MIGRATE_TYPES" and k: "k < MAX_ORDER"
    and ts: "\<forall>t\<in>set ts. t < MIGRATE_TYPES" and r: "fallback_types b m z low start k ts = Some (s, p)"
  shows "types_ok (snd s)"
  using ts r
proof (induction ts)
  case (Cons t ts)
  show ?case
  proof (cases "t = MIGRATE_RESERVE \<or> free_list z k t = []")
    case True
    then show ?thesis using Cons by (auto split: if_splits)
  next
    case False
    then obtain q qs where q: "free_list z k t = q # qs" by (meson neq_Nil_conv)
    then have "(q, k) \<in> fb z" using Cons.prems k in_fl [of q z k t] by simp
    then have "q \<in> span z" using buddy_invD(5) [OF inv] blk_nonempty(2) by blast
    then show ?thesis using False q Cons.prems(2) fallback_take_types [OF inv _ ok st] by auto
  qed
qed simp

lemma fallback_orders_ok:
  assumes "buddy_inv m z" "types_ok z" "start < MIGRATE_TYPES" "\<forall>k\<in>set ks. k < MAX_ORDER"
  shows "types_ok (snd (fst (fallback_orders b m z low start ks)))"
  using assms
proof (induction ks)
  case (Cons k ks)
  have "types_ok (snd s)" if "fallback_types b m z low start k (fallbacks start) = Some (s, p)" for s p
    using fallback_types_ok [OF Cons.prems(1-3) _ _ that] Cons.prems(4) fallbacks_types by simp
  then show ?case using Cons by (auto split: option.splits)
qed simp

lemma rmqueue_types:
  assumes inv: "buddy_inv m z" and ok: "types_ok z" and t: "t < MIGRATE_PCPTYPES" and r: "uu_rmqueue b m z k t = (s, x)"
  shows "types_ok (snd s)"
proof -
  have t': "t < MIGRATE_TYPES" using t by (simp add: migratetypes)
  have sm: "types_ok (snd (fst (uu_rmqueue_smallest m z k u)))" for u
    unfolding uu_rmqueue_smallest_def by (rule rmqueue_from_types [OF ok])
  have fb: "types_ok (snd (fst (uu_rmqueue_fallback b m z k t)))"
    unfolding uu_rmqueue_fallback_def by (rule fallback_orders_ok [OF inv ok t']) simp
  show ?thesis
  proof (cases rule: smallest_cases [OF inv t', of k])
    case (1 p s')
    then show ?thesis using r sm [of t] by (simp add: uu_rmqueue_def)
  next
    case own: 2
    show ?thesis
    proof (cases rule: fallback_cases [OF inv t', of b k])
      case (1 p s')
      then show ?thesis using r own fb t by (auto simp: uu_rmqueue_def migratetypes)
    next
      case 2
      then show ?thesis using r own sm [of MIGRATE_RESERVE] t by (auto simp: uu_rmqueue_def migratetypes)
    qed
  qed
qed

lemma take_block:
  assumes zi: "zone_inv m z" and t: "t < MIGRATE_PCPTYPES" and r: "uu_rmqueue b m z k t = ((m', z'), Some p)"
  shows "zone_inv m' z'" "same_zone z z'" "ready m' z' p k" "blk p k \<subseteq> free_pages z"
    "free_pages z' = free_pages z - blk p k" "marks (free_pages z) m m'" "marks (span z) m m'"
proof -
  have inv: "buddy_inv m z" and ok: "types_ok z" using zi by (simp_all add: zone_inv_def)
  have al: "allocated m z p k (m', z')"
    by (cases rule: rmqueue_cases [OF inv t, of b k]) (use r in auto)
  then have inv': "buddy_inv m' z'" and h: "held z' p k" and fp: "free_pages z' = free_pages z - blk p k"
    and mk: "marks (free_pages z) m m'" and sub: "blk p k \<subseteq> free_pages z" and sz: "same_zone z z'"
    by (simp_all add: allocated_def)
  then show "free_pages z' = free_pages z - blk p k" "marks (free_pages z) m m'" "blk p k \<subseteq> free_pages z" "same_zone z z'"
    by blast+
  show "marks (span z) m m'" by (rule marks_mono [OF mk free_pages_span [OF inv]])
  have sp: "spotless (m' q)" if "q \<in> free_pages z" for q using zi that spotless_marks [OF mk] by (simp add: zone_inv_def)
  have "types_ok z'" using rmqueue_types [OF inv ok t r] by simp
  then show "zone_inv m' z'" using inv' sp fp by (simp add: zone_inv_def)
  have "\<not> PageBuddy (m' q)" if q: "q \<in> blk p k" for q
  proof
    assume "PageBuddy (m' q)"
    moreover have "page_zone_id (m' q) = zone_num z'"
      using h q buddy_invD(1) [OF inv'] by (auto simp: held_def zone_ok_def)
    ultimately have "(q, unat (page_order (m' q))) \<in> fb z'" using buddy_invD(8) [OF inv'] by blast
    then have "q \<in> free_pages z'" unfolding free_pages_def using blk_nonempty(2) by blast
    then show False using fp q by simp
  qed
  then show "ready m' z' p k" using h sp sub by (auto simp: ready_def spotless_def)
qed

lemma take_none:
  assumes "zone_inv m z" "t < MIGRATE_PCPTYPES" "uu_rmqueue b m z k t = ((m', z'), None)"
  shows "m' = m \<and> z' = z \<and> (\<forall>j u. k \<le> j \<and> j < MAX_ORDER \<and> u < MIGRATE_ISOLATE \<longrightarrow> free_list z j u = [])"
proof -
  have inv: "buddy_inv m z" using assms(1) by (simp add: zone_inv_def)
  show ?thesis by (cases rule: rmqueue_cases [OF inv assms(2), of b k]) (use assms(3) in auto)
qed

text \<open>The state before the pages are prepared: the zones are fine and the block is ready.\<close>

definition taken_block :: "mm \<Rightarrow> nat \<Rightarrow> nat \<Rightarrow> nat \<Rightarrow> mm \<Rightarrow> bool" where
  "taken_block s i p k s' \<longleftrightarrow> mm_inv s' \<and> ready (mm_map s') (mm_zones s' i) p k \<and> kept s i (blk p k) s'
     \<and> blk p k \<subseteq> free_pages (mm_zones s i) \<and> free_pages (mm_zones s' i) = free_pages (mm_zones s i) - blk p k"

lemma taken_zone:
  assumes inv: "mm_inv s" and i: "i < MAX_NR_ZONES" and t: "t < MIGRATE_PCPTYPES"
    and r: "uu_rmqueue b (mm_map s) (mm_zones s i) k t = ((m', z'), Some p)"
  shows "taken_block s i p k (set_zone (s\<lparr>mm_map := m'\<rparr>) i (z'\<lparr>nr_free_pages := x\<rparr>))"
proof -
  have zs: "zones_inv (mm_map s) (mm_zones s)" using inv by (simp add: mm_inv_zones)
  then have zi: "zone_inv (mm_map s) (mm_zones s i)" using i by (simp add: zones_inv_def)
  note tb = take_block [OF zi t r]
  have ot: "m' q = mm_map s q" if "q \<notin> span (mm_zones s i)" for q using tb(7) that by (simp add: marks_def)
  have "zones_inv m' ((mm_zones s)(i := z'\<lparr>nr_free_pages := x\<rparr>))"
    using zones_inv_upd [OF zs i, of m' "z'\<lparr>nr_free_pages := x\<rparr>"] tb(1,2) ot zone_id_marks_eq [OF tb(6)] by simp
  then show ?thesis
    using inv tb touched_marks [OF tb(6)] by (auto simp: taken_block_def set_zone_def mm_inv_zones kept_def marks_def)
qed

lemma rmqueue_page_spec:
  assumes inv: "mm_inv s" and i: "i < MAX_NR_ZONES" and t: "t < MIGRATE_PCPTYPES"
  shows "case rmqueue_page s i k gf t of
      (s', Some p) \<Rightarrow> taken_block s i p k s'
    | (s', None) \<Rightarrow> s' = s \<and> (\<forall>j u. k \<le> j \<and> j < MAX_ORDER \<and> u < MIGRATE_ISOLATE \<longrightarrow> free_list (mm_zones s i) j u = [])"
proof -
  have zi: "zone_inv (mm_map s) (mm_zones s i)" using inv i by (simp add: mm_inv_def)
  obtain m' z' x where r: "uu_rmqueue (mm_pgmd s) (mm_map s) (mm_zones s i) k t = ((m', z'), x)"
    by (metis surj_pair)
  have sz: "set_zone (s\<lparr>mm_map := mm_map s\<rparr>) i (mm_zones s i) = s" by (simp add: set_zone_def)
  show ?thesis
  proof (cases "k = 0")
    case False
    then show ?thesis
      using r taken_zone [OF inv i t, of "mm_pgmd s" k] take_none [OF zi t, of "mm_pgmd s" k] inv sz
      by (cases x) (auto simp: rmqueue_page_def Let_def)
  next
    case True
    have idle: "pcp_idle (mm_pcp s)" and empty: "pcp_lists (mm_pcp s) t = []" "pcp_batch (mm_pcp s) = 1" "pcp_count (mm_pcp s) = 0"
      using inv t by (auto simp: mm_inv_def pcp_idle_def)
    show ?thesis
    proof (cases x)
      case None
      have n: "m' = mm_map s" "z' = mm_zones s i" "\<forall>j u. k \<le> j \<and> j < MAX_ORDER \<and> u < MIGRATE_ISOLATE \<longrightarrow> free_list (mm_zones s i) j u = []"
        using take_none [OF zi t, of "mm_pgmd s" k m' z'] r None by auto
      have "rmqueue_page s i k gf t = (s, None)"
        using True r None n(1,2) empty
        by (simp add: rmqueue_page_def rmqueue_bulk_def Let_def set_zone_def fun_upd_idem)
      then show ?thesis using inv n(3) by simp
    next
      case (Some p)
      define pcp where "pcp = (mm_pcp s)\<lparr>pcp_lists := (pcp_lists (mm_pcp s))(t := []), pcp_count := 0\<rparr>"
      define m'' where "m'' = m'(p := set_page_private (m' p) (word_of_nat t))"
      let ?s1 = "set_zone (s\<lparr>mm_map := m'\<rparr>) i (z'\<lparr>nr_free_pages := nr_free_pages z' - 1\<rparr>)"
      let ?s2 = "(upd_page ?s1 p (\<lambda>q. set_page_private q (word_of_nat t)))\<lparr>mm_pcp := pcp\<rparr>"
      have run: "rmqueue_page s i k gf t = (?s2, Some p)"
        using True r Some empty
        by (simp add: rmqueue_page_def rmqueue_bulk_def Let_def set_zone_def upd_page_def pcp_def)
      have tk: "taken_block s i p k ?s1" using taken_zone [OF inv i t] r Some by blast
      have pi: "pcp_idle pcp" using idle by (simp add: pcp_def pcp_idle_def)
      have "zones_inv (mm_map ?s1) (mm_zones ?s1)" "ready (mm_map ?s1) (mm_zones ?s1 i) p k"
        using tk by (simp_all add: taken_block_def mm_inv_zones)
      note pr = private_ready [OF this i, of "word_of_nat t"]
      have "kept s i (blk p k) ?s1" using tk unfolding taken_block_def by blast
      then have kp: "kept s i (blk p k) ?s2" using kept_trans upd_page_kept [OF blk_nonempty(2)] by (metis kept_pcp)
      have "taken_block s i p k ?s2"
        using tk pr pi kp unfolding taken_block_def mm_inv_zones by (simp add: upd_page_def)
      then show ?thesis using run by simp
    qed
  qed
qed


section \<open>Preparing the pages of a block\<close>

text \<open>Nobody notices a change of the page frames of a block that is in nobody's list.\<close>

lemma zones_inv_block:
  assumes zs: "zones_inv m zs" and i: "i < MAX_NR_ZONES" and h: "held (zs i) p k"
    and same: "\<And>q. q \<notin> blk p k \<Longrightarrow> m' q = m q" and zn: "\<And>q. page_zone_id (m' q) = page_zone_id (m q)"
    and nb: "\<And>q. q \<in> blk p k \<Longrightarrow> \<not> PageBuddy (m q) \<and> \<not> PageBuddy (m' q)"
  shows "zones_inv m' zs"
proof -
  have zi: "zone_inv m (zs i)" using zs i by (simp add: zones_inv_def)
  then have "buddy_inv m (zs i)" by (simp add: zone_inv_def)
  then have "buddy_inv m' (zs i)" by (rule buddy_inv_frame [OF _ zn]) (metis same nb)
  moreover have "m' q = m q" if "q \<in> free_pages (zs i)" for q
    using that h same unfolding held_def by blast
  ultimately have "zone_inv m' (zs i)" using zi by (simp add: zone_inv_def)
  moreover have "m' q = m q" if "q \<notin> span (zs i)" for q using that h same unfolding held_def by blast
  ultimately show ?thesis using zones_inv_upd [OF zs i, of m' "zs i"] zn by simp
qed

lemma ready_checks:
  assumes "ready m z p k" "q \<in> blk p k"
  shows "\<not> check_new_page (m q)" "\<not> PageBuddy (m q)"
  using assms by (auto simp: ready_def spotless_def check_new_page_def page_mapcount_def PageBuddy_def PAGE_BUDDY_MAPCOUNT_VALUE_def)

text \<open>What preparing a page changes: the private word, the reference count and the flags of
  compound pages.\<close>

definition prepared :: "page \<Rightarrow> page \<Rightarrow> bool" where
  "prepared p p' \<longleftrightarrow> pg_mapcount p' = pg_mapcount p \<and> pg_mapping p' = pg_mapping p
     \<and> (\<forall>n. n \<noteq> PG_head \<and> n \<noteq> PG_tail \<longrightarrow> bit (pg_flags p') n = bit (pg_flags p) n)"

lemma prepared_refl [simp]: "prepared p p" by (simp add: prepared_def)

lemma tails_prepared:
  "prepared (m q) (compound_tails n a page m q) \<and> pg_count (compound_tails n a page m q) = pg_count (m q)
   \<and> (q \<notin> {a..<a + n} \<longrightarrow> compound_tails n a page m q = m q)"
proof (induction n arbitrary: a m)
  case (Suc n)
  define m2 where "m2 = m(a := (set_page_flag PG_tail (m a))\<lparr>pg_private := word_of_nat page\<rparr>)"
  have "prepared (m q) (m2 q)" "pg_count (m2 q) = pg_count (m q)"
    by (auto simp: m2_def prepared_def set_page_flag_def bit_set_bit_iff)
  moreover have "compound_tails (Suc n) a page m = compound_tails n (a + 1) page m2" by (simp add: m2_def)
  moreover have "m2 q = m q" if "q \<notin> {a..<a + Suc n}" using that by (auto simp: m2_def)
  ultimately show ?case using Suc.IH [where m = m2 and a = "a + 1"] by (auto simp: prepared_def)
qed simp


lemma prepared_trans: "prepared p q \<Longrightarrow> prepared q r \<Longrightarrow> prepared p r"
  by (simp add: prepared_def)

lemma prepared_zone: "prepared p p' \<Longrightarrow> page_zone_id p' = page_zone_id p"
  unfolding page_zone_id_num by (rule zonenum_cong) (simp add: prepared_def pageflags)

lemma prepared_flags:
  assumes "prepared p p'" "pg_flags p AND PAGE_FLAGS_CHECK_AT_PREP = 0"
  shows "pg_flags p' AND PAGE_FLAGS_CHECK_AT_FREE = 0"
proof (rule bit_word_eqI)
  fix n :: nat
  have "bit PAGE_FLAGS_CHECK_AT_FREE n \<Longrightarrow> n < 22 \<and> n \<noteq> PG_head \<and> n \<noteq> PG_tail"
    by (auto simp: PAGE_FLAGS_CHECK_AT_FREE_def bit_or_iff bit_flag pageflags)
  then show "bit (pg_flags p' AND PAGE_FLAGS_CHECK_AT_FREE) n = bit (0 :: ulong) n"
    using assms(1) low_flags [OF assms(2), of n] by (auto simp: prepared_def bit_and_iff)
qed

lemma compound_prepared:
  "prepared (m q) (prep_compound_page m page k q) \<and> pg_count (prep_compound_page m page k q) = pg_count (m q)
   \<and> (k \<noteq> 0 \<and> q \<notin> blk page k \<longrightarrow> prep_compound_page m page k q = m q)"
proof -
  define m1 where "m1 = set_compound_order (set_compound_page_dtor m page Free_compound_page) page (word_of_nat k)"
  define m2 where "m2 = m1(page := set_page_flag PG_head (m1 page))"
  have run: "prep_compound_page m page k = compound_tails (2 ^ k - 1) (page + 1) page m2"
    by (simp add: prep_compound_page_def Let_def m1_def m2_def)
  have "prepared (m q) (m2 q)" "pg_count (m2 q) = pg_count (m q)"
    by (auto simp: m1_def m2_def prepared_def set_compound_order_def set_compound_page_dtor_def set_page_flag_def bit_set_bit_iff)
  moreover have "m2 q = m q" if "k \<noteq> 0" "q \<notin> blk page k"
  proof -
    have "(2 :: nat) ^ k \<ge> 2" using that(1) by (cases k) auto
    then have "q \<noteq> page" "q \<noteq> page + 1" using that(2) by (auto simp: blk_def)
    then show ?thesis by (simp add: m1_def m2_def set_compound_order_def set_compound_page_dtor_def)
  qed
  ultimately show ?thesis
    using tails_prepared [of m2 q "2 ^ k - 1" "page + 1" page] unfolding run
    by (auto simp: blk_def intro: prepared_trans)
qed

lemma prep_new_page_spec:
  assumes r: "ready m z p k" and gf: "gf AND GFP_ZERO = 0"
  obtains m' where "prep_new_page m p k gf = (m', False)" "\<And>q. prepared (m q) (m' q)"
    "\<And>q. q \<notin> blk p k \<Longrightarrow> m' q = m q" "\<And>q. q \<in> blk p k \<Longrightarrow> pg_count (m' q) = (if q = p then 1 else 0)"
proof -
  let ?m1 = "m(p := set_page_refcounted (set_page_private (m p) 0))"
  let ?m2 = "if k \<noteq> 0 \<and> gf AND GFP_COMP \<noteq> 0 then prep_compound_page ?m1 p k else ?m1"
  have c: "\<not> check_new_page (m q)" if "p \<le> q" "q < p + 2 ^ k" for q
    using ready_checks(1) [OF r, of q] that by (simp add: blk_def)
  have e: "prep_new_page m p k gf = (?m2, False)"
    using gf c by (auto simp: prep_new_page_def Let_def)
  have p1: "prepared (m q) (?m1 q)" for q by (simp add: prepared_def set_page_refcounted_def set_page_count_def set_page_private_def)
  have p0: "p \<in> blk p k" by (rule blk_nonempty)
  have "prepared (m q) (?m2 q)" for q using compound_prepared [of ?m1 q p k] prepared_trans [OF p1] by auto
  moreover have "?m2 q = m q" if "q \<notin> blk p k" for q using compound_prepared [of ?m1 q p k] p0 that by auto
  moreover have "pg_count (?m1 q) = (if q = p then 1 else 0)" if "q \<in> blk p k" for q
    using r that by (simp add: ready_def spotless_def set_page_refcounted_def set_page_count_def)
  then have "pg_count (?m2 q) = (if q = p then 1 else 0)" if "q \<in> blk p k" for q
    using compound_prepared [of ?m1 q p k] that by (cases "k \<noteq> 0 \<and> gf AND GFP_COMP \<noteq> 0") (simp_all only: if_True if_False simp_thms)
  ultimately show thesis using that [OF e] by blast
qed

lemma buffered_rmqueue_spec:
  assumes inv: "mm_inv s" and i: "i < MAX_NR_ZONES" and t: "t < MIGRATE_PCPTYPES" and gf: "gf AND GFP_ZERO = 0"
  shows "(\<exists>p s'. buffered_rmqueue s i k gf t = Some (s', Some p) \<and> got_block s i p k s') \<or>
    (buffered_rmqueue s i k gf t = Some (s, None)
       \<and> (\<forall>j u. k \<le> j \<and> j < MAX_ORDER \<and> u < MIGRATE_ISOLATE \<longrightarrow> free_list (mm_zones s i) j u = []))"
proof (cases "rmqueue_page s i k gf t")
  case (Pair s1 x)
  note sp = rmqueue_page_spec [OF inv i t, of k gf, unfolded Pair]
  show ?thesis
  proof (cases x)
    case None
    then show ?thesis using sp Pair by (simp add: buffered_rmqueue.simps [of s i k gf t])
  next
    case (Some p)
    then have tk: "taken_block s i p k s1" using sp by simp
    then have r: "ready (mm_map s1) (mm_zones s1 i) p k" and zs: "zones_inv (mm_map s1) (mm_zones s1)" and pi: "pcp_idle (mm_pcp s1)"
      by (simp_all add: taken_block_def mm_inv_zones)
    obtain m' where m': "prep_new_page (mm_map s1) p k gf = (m', False)" "\<And>q. prepared (mm_map s1 q) (m' q)"
        "\<And>q. q \<notin> blk p k \<Longrightarrow> m' q = mm_map s1 q" "\<And>q. q \<in> blk p k \<Longrightarrow> pg_count (m' q) = (if q = p then 1 else 0)"
      using prep_new_page_spec [OF r gf] by blast
    let ?s = "s1\<lparr>mm_map := m'\<rparr>"
    have run: "buffered_rmqueue s i k gf t = Some (?s, Some p)"
      unfolding buffered_rmqueue.simps [of s i k gf t] Pair using Some m'(1) by simp
    have h: "held (mm_zones s1 i) p k" using r by (simp add: ready_def)
    have nb: "\<not> PageBuddy (mm_map s1 q) \<and> \<not> PageBuddy (m' q)" if "q \<in> blk p k" for q
      using ready_checks(2) [OF r that] m'(2) [of q] by (simp add: prepared_def PageBuddy_def)
    have "zones_inv m' (mm_zones s1)"
      using zones_inv_block [OF zs i h, of m'] m'(3) nb prepared_zone [OF m'(2)] by blast
    then have "mm_inv ?s" using pi by (simp add: mm_inv_zones)
    moreover have "pg_flags (m' q) AND PAGE_FLAGS_CHECK_AT_FREE = 0" if "q \<in> blk p k" for q
      using prepared_flags [OF m'(2), of q] r that by (simp add: ready_def spotless_def)
    then have "in_use_block ?s i p k"
      using i h r m'(2,4) by (auto simp: in_use_block_def ready_def spotless_def prepared_def)
    moreover have "kept s1 i (blk p k) ?s" using m'(3) by (simp add: kept_def touched_only)
    then have "kept s i (blk p k) ?s" using tk kept_trans unfolding taken_block_def by blast
    ultimately have "got_block s i p k ?s" using tk by (simp add: got_block_def taken_block_def)
    then show ?thesis using run by blast
  qed
qed


section \<open>Zone lists\<close>

lemma build_node: "build_zonelists_node zs refs t =
   refs @ map (\<lambda>i. (Some i, i)) (filter (\<lambda>i. populated_zone (zs i)) (rev [0..<Suc t]))"
proof (induction zs refs t rule: build_zonelists_node.induct)
  case (1 zs refs t)
  show ?case
  proof (cases t)
    case 0
    then show ?thesis by (simp add: build_zonelists_node.simps [of zs refs 0])
  next
    case (Suc u)
    have "build_zonelists_node zs refs t =
        build_zonelists_node zs (if populated_zone (zs t) then refs @ [(Some t, t)] else refs) u"
      unfolding build_zonelists_node.simps [of zs refs t] using Suc by simp
    then show ?thesis using "1.IH" [OF refl] Suc by simp
  qed
qed

lemma next_zones_drop: "next_zones_zonelist zs h = dropWhile (\<lambda>z. h < snd z) zs"
  by (induction zs h rule: next_zones_zonelist.induct) auto

lemma for_each_zone_filter:
  "for_each_zone (map (\<lambda>i. (Some i, i)) is @ [(None, 0)]) h = filter (\<lambda>i. i \<le> h) is"
proof (induction "is")
  case Nil
  then show ?case by (simp add: for_each_zone.simps [of "[(None, 0)]"])
next
  case (Cons i "is")
  show ?case
  proof (cases "i \<le> h")
    case True
    then show ?thesis using Cons by (simp add: for_each_zone.simps [of "(Some i, i) # _"])
  next
    case False
    have "for_each_zone ((Some i, i) # zs) h = for_each_zone zs h" for zs
      using False by (simp add: for_each_zone.simps [of "(Some i, i) # zs"] for_each_zone.simps [of zs])
    then show ?thesis using Cons False by simp
  qed
qed

lemma zonelist_order:
  "for_each_zone (build_zonelists zs) h = filter (\<lambda>i. populated_zone (zs i) \<and> i \<le> h) (rev [0..<MAX_NR_ZONES])"
proof -
  have m: "Suc (MAX_NR_ZONES - 1) = MAX_NR_ZONES" by (simp add: MAX_NR_ZONES_def)
  show ?thesis
    unfolding build_zonelists_def build_node m using for_each_zone_filter [of "filter (\<lambda>i. populated_zone (zs i)) (rev [0..<MAX_NR_ZONES])" h]
    by (simp add: conj_commute)
qed

text \<open>C36. The zone list offers exactly the populated zones up to the highest one that is allowed,
  from the highest to the lowest.\<close>

theorem zonelist_correct:
  "for_each_zone (mm_zonelist (build_all_zonelists s)) h =
     filter (\<lambda>i. populated_zone (mm_zones s i) \<and> i \<le> h) (rev [0..<MAX_NR_ZONES])"
  by (simp add: build_all_zonelists_def zonelist_order)

section \<open>Allocation from the zone list\<close>

text \<open>No block of order \<open>k\<close> can be had from a zone.\<close>

definition exhausted :: "zone \<Rightarrow> nat \<Rightarrow> bool" where
  "exhausted z k \<longleftrightarrow> (\<forall>j u. k \<le> j \<and> j < MAX_ORDER \<and> u < MIGRATE_ISOLATE \<longrightarrow> free_list z j u = [])"

lemma freelist_scan_spec:
  assumes inv: "mm_inv s" and t: "t < MIGRATE_PCPTYPES" and gf: "gf AND GFP_ZERO = 0" and zs: "\<forall>i\<in>set zs. i < MAX_NR_ZONES"
  shows "(\<exists>i p s'. i \<in> set zs \<and> freelist_scan zs s gf k af c t = Some (s', Some p) \<and> got_block s i p k s') \<or>
    (freelist_scan zs s gf k af c t = Some (s, None)
      \<and> (\<forall>i\<in>set zs. af AND ALLOC_NO_WATERMARKS = 0
            \<and> \<not> zone_watermark_ok (mm_zones s i) k (watermark (mm_zones s i) (unat (af AND ALLOC_WMARK_MASK))) c af
          \<or> exhausted (mm_zones s i) k))"
  using zs
proof (induction zs)
  case (Cons i zs)
  have i: "i < MAX_NR_ZONES" and IH: "\<forall>i\<in>set zs. i < MAX_NR_ZONES" using Cons.prems by simp_all
  show ?case
    using Cons.IH [OF IH] buffered_rmqueue_spec [OF inv i t gf, of k]
    by (auto simp: Let_def exhausted_def) blast?
qed simp


text \<open>The requests that the theorems cover: pages are not to be cleared, and at most one of the
  two mobility flags is set.\<close>

definition plain_request :: "ulong \<Rightarrow> bool" where
  "plain_request gf \<longleftrightarrow> gf AND GFP_ZERO = 0 \<and> (gf AND GFP_MOVABLE = 0 \<or> gf AND GFP_RECLAIMABLE = 0)"

definition zonelist_ok :: "zoneref list \<Rightarrow> bool" where
  "zonelist_ok zl \<longleftrightarrow> (\<exists>zs. zl = build_zonelists zs)"

text \<open>The zones that the low watermark excludes.\<close>

definition below_low :: "zone \<Rightarrow> nat \<Rightarrow> nat \<Rightarrow> bool" where
  "below_low z k c \<longleftrightarrow> \<not> zone_watermark_ok z k (watermark z 1) c (ALLOC_WMARK_LOW OR ALLOC_CPUSET)"

lemma low_flags_values:
  "(ALLOC_WMARK_LOW OR ALLOC_CPUSET) AND ALLOC_NO_WATERMARKS = 0" "unat ((ALLOC_WMARK_LOW OR ALLOC_CPUSET) AND ALLOC_WMARK_MASK) = 1"
  by (simp_all add: ALLOC_WMARK_LOW_def ALLOC_CPUSET_def ALLOC_NO_WATERMARKS_def ALLOC_WMARK_MASK_def)

lemma zonelist_hd:
  assumes "zl = build_zonelists zs"
  shows "for_each_zone zl h \<noteq> [] \<Longrightarrow> fst (hd zl) \<noteq> None"
    "fst (hd (next_zones_zonelist zl h)) = (if for_each_zone zl h = [] then None else Some (hd (for_each_zone zl h)))"
proof -
  define ns where "ns = filter (\<lambda>i. populated_zone (zs i)) (rev [0..<Suc (MAX_NR_ZONES - 1)])"
  have zl: "zl = map (\<lambda>i. (Some i, i)) ns @ [(None, 0)]"
    using assms by (simp add: build_zonelists_def build_node ns_def)
  show "for_each_zone zl h \<noteq> [] \<Longrightarrow> fst (hd zl) \<noteq> None"
    unfolding zl for_each_zone_filter by (cases ns) auto
  show "fst (hd (next_zones_zonelist zl h)) = (if for_each_zone zl h = [] then None else Some (hd (for_each_zone zl h)))"
    unfolding zl for_each_zone_filter next_zones_drop by (induction ns) auto
qed

lemma plain_type: "plain_request gf \<Longrightarrow> allocflags_to_migratetype b gf < MIGRATE_PCPTYPES"
  by (auto simp: plain_request_def allocflags_to_migratetype_def migratetypes)

lemma plain_mask:
  assumes "plain_request gf"
  shows "((gf AND a) OR GFP_HARDWALL) AND GFP_ZERO = 0"
proof -
  have "GFP_HARDWALL AND GFP_ZERO = 0" by (simp add: GFP_HARDWALL_def GFP_ZERO_def)
  moreover have "(gf AND a) AND GFP_ZERO = 0"
    using assms by (metis plain_request_def and.assoc and.commute and_zero_eq)
  ultimately show ?thesis by (simp add: bit.conj_disj_distrib2)
qed

lemma alloc_pages_spec:
  assumes inv: "mm_inv s" and zl: "zonelist_ok (mm_zonelist s)" and gf: "plain_request gf"
  defines "zs \<equiv> for_each_zone (mm_zonelist s) (gfp_zone gf)"
  shows "(\<exists>i p s'. i \<in> set zs \<and> uu_alloc_pages_nodemask s gf k = Some (s', Some p) \<and> got_block s i p k s') \<or>
    (uu_alloc_pages_nodemask s gf k = Some (s, None)
      \<and> (\<forall>i\<in>set zs. below_low (mm_zones s i) k (hd zs) \<or> exhausted (mm_zones s i) k))"
proof -
  obtain zones where b: "mm_zonelist s = build_zonelists zones" using zl by (auto simp: zonelist_ok_def)
  have zs: "\<forall>i\<in>set zs. i < MAX_NR_ZONES" unfolding zs_def b zonelist_order by auto
  note hd = zonelist_hd [OF b, of "gfp_zone gf", folded zs_def]
  show ?thesis
  proof (cases "zs = []")
    case True
    then show ?thesis using hd(2) by (auto simp: uu_alloc_pages_nodemask_def Let_def)
  next
    case False
    let ?g = "(gf AND mm_gfp_allowed s) OR GFP_HARDWALL"
    let ?t = "allocflags_to_migratetype (mm_pgmd s) gf"
    have "uu_alloc_pages_nodemask s gf k = freelist_scan zs s ?g k (ALLOC_WMARK_LOW OR ALLOC_CPUSET) (hd zs) ?t"
      using False hd by (auto simp: uu_alloc_pages_nodemask_def Let_def get_page_from_freelist_def zs_def)
    then show ?thesis
      using freelist_scan_spec [OF inv plain_type [OF gf] plain_mask [OF gf] zs, where k = k and af = "ALLOC_WMARK_LOW OR ALLOC_CPUSET" and c = "hd zs"]
      by (simp add: low_flags_values below_low_def)
  qed
qed


section \<open>Runs of the page allocator\<close>

text \<open>Steps of the users of the allocator: the blocks they hold are pairs of a page and an order.\<close>

inductive page_step :: "mm \<times> (nat \<times> nat) set \<Rightarrow> mm \<times> (nat \<times> nat) set \<Rightarrow> bool" where
  alloc: "plain_request gf \<Longrightarrow> uu_alloc_pages_nodemask s gf k = Some (s', Some p) \<Longrightarrow> page_step (s, L) (s', insert (p, k) L)"
| alloc_fails: "plain_request gf \<Longrightarrow> uu_alloc_pages_nodemask s gf k = Some (s', None) \<Longrightarrow> page_step (s, L) (s', L)"
| free: "(p, k) \<in> L \<Longrightarrow> uu_free_pages s p k = Some s' \<Longrightarrow> page_step (s, L) (s', L - {(p, k)})"

definition live_ok :: "mm \<times> (nat \<times> nat) set \<Rightarrow> bool" where
  "live_ok c \<longleftrightarrow> (case c of (s, L) \<Rightarrow> mm_inv s \<and> zonelist_ok (mm_zonelist s) \<and> (\<forall>(p, k)\<in>L. \<exists>i. in_use_block s i p k)
     \<and> (\<forall>(p, k)\<in>L. \<forall>(q, l)\<in>L. (p, k) \<noteq> (q, l) \<longrightarrow> blk p k \<inter> blk q l = {}))"

lemma held_not_free:
  assumes inv: "mm_inv s" and j: "j < MAX_NR_ZONES" and h: "held (mm_zones s j) q l" and i: "i < MAX_NR_ZONES"
  shows "blk q l \<inter> free_pages (mm_zones s i) = {}"
proof (cases "i = j")
  case True
  then show ?thesis using h by (simp add: held_def)
next
  case False
  have "zone_ok (mm_map s) (mm_zones s n)" "buddy_inv (mm_map s) (mm_zones s n)" "zone_num (mm_zones s n) = n" if "n < MAX_NR_ZONES" for n
    using inv that buddy_invD(1) by (auto simp: mm_inv_def zone_inv_def)
  note z = this
  have sub: "blk q l \<subseteq> span (mm_zones s j)" using h by (simp add: held_def)
  have "x \<notin> span (mm_zones s i)" if "x \<in> span (mm_zones s j)" for x
    using z(1,3) [OF i] z(1,3) [OF j] False that by (auto simp: zone_ok_def)
  then show ?thesis using sub free_pages_span [OF z(2) [OF i]] by blast
qed

lemma in_use_not_free:
  assumes "mm_inv s" "in_use_block s j q l" "i < MAX_NR_ZONES"
  shows "blk q l \<inter> free_pages (mm_zones s i) = {}"
  using held_not_free [OF assms(1) _ _ assms(3)] assms(2) unfolding in_use_block_def by blast

lemma in_use_stays:
  assumes inv: "mm_inv s'" and k: "kept s i B s'" and u: "in_use_block s j q l" and d: "blk q l \<inter> B = {}"
    and f: "blk q l \<inter> free_pages (mm_zones s' j) = {}"
  shows "in_use_block s' j q l"
proof -
  have j: "j < MAX_NR_ZONES" using u by (simp add: in_use_block_def)
  have "same_zone (mm_zones s j) (mm_zones s' j)" using k by (cases "j = i") (simp_all add: kept_def)
  then have h: "held (mm_zones s' j) q l" using u f same_zone_span by (auto simp: in_use_block_def held_def)
  have bi: "buddy_inv (mm_map s') (mm_zones s' j)" using inv j by (simp add: mm_inv_def zone_inv_def)
  have "pg_mapcount (mm_map s' x) = -1" if x: "x \<in> blk q l" for x
  proof -
    have "\<not> PageBuddy (mm_map s' x)"
    proof
      assume b: "PageBuddy (mm_map s' x)"
      have "x \<in> span (mm_zones s' j)" using h x unfolding held_def by blast
      then have "page_zone_id (mm_map s' x) = zone_num (mm_zones s' j)" using buddy_invD(1) [OF bi] by (simp add: zone_ok_def)
      then have "(x, unat (page_order (mm_map s' x))) \<in> fb (mm_zones s' j)" using buddy_invD(8) [OF bi] b by blast
      then show False using f x blk_nonempty(2) unfolding free_pages_def by blast
    qed
    moreover have "x \<notin> B" "pg_mapcount (mm_map s x) = -1" using d u x by (auto simp: in_use_block_def)
    ultimately show ?thesis using k unfolding kept_def touched_def PageBuddy_def by (metis empty_iff insert_iff)
  qed
  moreover have "x \<notin> B" if "x \<in> blk q l" for x using d that by blast
  ultimately show ?thesis using k u h j unfolding in_use_block_def kept_def touched_def by simp
qed

lemma got_live:
  assumes ok: "live_ok (s, L)" and i: "i < MAX_NR_ZONES" and g: "got_block s i p k s'"
  shows "live_ok (s', insert (p, k) L)"
proof -
  have inv: "mm_inv s" using ok by (simp add: live_ok_def)
  have inv': "mm_inv s'" and kp: "kept s i (blk p k) s'" and new: "in_use_block s' i p k"
    and sub: "blk p k \<subseteq> free_pages (mm_zones s i)" and fp: "free_pages (mm_zones s' i) = free_pages (mm_zones s i) - blk p k"
    using g by (simp_all add: got_block_def)
  have old: "\<exists>j. in_use_block s' j q l \<and> blk q l \<inter> blk p k = {}" if ql: "(q, l) \<in> L" for q l
  proof -
    obtain j where j: "in_use_block s j q l" using ok ql by (auto simp: live_ok_def)
    then have jm: "j < MAX_NR_ZONES" by (simp add: in_use_block_def)
    have d: "blk q l \<inter> blk p k = {}" using in_use_not_free [OF inv j i] sub by blast
    have "free_pages (mm_zones s' j) \<subseteq> free_pages (mm_zones s j)" using fp kp by (cases "j = i") (auto simp: kept_def)
    then have "blk q l \<inter> free_pages (mm_zones s' j) = {}" using in_use_not_free [OF inv j jm] by blast
    then show ?thesis using in_use_stays [OF inv' kp j d] d by blast
  qed
  have "\<exists>j. in_use_block s' j q l" if "(q, l) \<in> insert (p, k) L" for q l using that old new by blast
  moreover have "blk q l \<inter> blk q' l' = {}"
    if ab: "(q, l) \<in> insert (p, k) L" "(q', l') \<in> insert (p, k) L" "(q, l) \<noteq> (q', l')" for q l q' l'
  proof -
    consider "(q, l) = (p, k)" "(q', l') \<in> L" | "(q', l') = (p, k)" "(q, l) \<in> L" | "(q, l) \<in> L" "(q', l') \<in> L"
      using ab by blast
    then show ?thesis using old ok ab(3) by cases (fastforce simp: live_ok_def)+
  qed
  moreover have "zonelist_ok (mm_zonelist s')" using ok kp by (simp add: live_ok_def kept_def)
  ultimately show ?thesis using inv' unfolding live_ok_def by fast
qed

lemma freed_live:
  assumes ok: "live_ok (s, L)" and pk: "(p, k) \<in> L" and u: "in_use_block s i p k" and fr: "freed_block s i p k s'"
  shows "live_ok (s', L - {(p, k)})"
proof -
  have inv: "mm_inv s" using ok by (simp add: live_ok_def)
  have inv': "mm_inv s'" and kp: "kept s i (blk p k) s'" and fp: "free_pages (mm_zones s' i) = free_pages (mm_zones s i) \<union> blk p k"
    using fr by (simp_all add: freed_block_def)
  have "\<exists>j. in_use_block s' j q l" if ql: "(q, l) \<in> L - {(p, k)}" for q l
  proof -
    obtain j where j: "in_use_block s j q l" using ok ql by (auto simp: live_ok_def)
    then have jm: "j < MAX_NR_ZONES" by (simp add: in_use_block_def)
    have d: "blk q l \<inter> blk p k = {}" using ok pk ql by (fastforce simp: live_ok_def)
    have "free_pages (mm_zones s' j) \<subseteq> free_pages (mm_zones s j) \<union> blk p k" using fp kp by (cases "j = i") (auto simp: kept_def)
    then have "blk q l \<inter> free_pages (mm_zones s' j) = {}" using in_use_not_free [OF inv j jm] d by blast
    then show ?thesis using in_use_stays [OF inv' kp j d] by blast
  qed
  moreover have "zonelist_ok (mm_zonelist s')" using ok kp by (simp add: live_ok_def kept_def)
  ultimately show ?thesis using inv' ok unfolding live_ok_def by fast
qed

lemma page_step_live: "page_step c c' \<Longrightarrow> live_ok c \<Longrightarrow> live_ok c'"
proof (induction rule: page_step.induct)
  case (alloc gf s k s' p L)
  have zl: "i < MAX_NR_ZONES" if "i \<in> set (for_each_zone (mm_zonelist s) h)" for i h
    using alloc.prems that by (auto simp: live_ok_def zonelist_ok_def zonelist_order)
  have "mm_inv s" "zonelist_ok (mm_zonelist s)" using alloc.prems by (simp_all add: live_ok_def)
  then show ?case using alloc_pages_spec [of s gf k] alloc.hyps got_live [OF alloc.prems] zl by fastforce
next
  case (alloc_fails gf s k s' L)
  have "mm_inv s" "zonelist_ok (mm_zonelist s)" using alloc_fails.prems by (simp_all add: live_ok_def)
  then show ?case using alloc_pages_spec [of s gf k] alloc_fails by auto
next
  case (free p k L s s')
  obtain i where u: "in_use_block s i p k" using free by (auto simp: live_ok_def)
  have "mm_inv s" using free.prems by (simp add: live_ok_def)
  then have "freed_block s i p k s'" using free_pages_spec [OF _ u] free.hyps(2) by auto
  then show ?case by (rule freed_live [OF free.prems free.hyps(1) u])
qed

lemma page_run_live: "page_step\<^sup>*\<^sup>* c c' \<Longrightarrow> live_ok c \<Longrightarrow> live_ok c'"
  by (induction rule: rtranclp_induct) (blast intro: page_step_live)+


section \<open>Example states\<close>

text \<open>The frames 4096 to 8191 are in zone 1. In the first state all of them are in use, the block
  of 1024 frames at 5120 as one allocation; in the second state this block is free.\<close>

definition example_zones :: "zone \<Rightarrow> nat \<Rightarrow> zone" where
  "example_zones z i = (if i = 1 then z else example_zone\<lparr>zone_num := i, spanned_pages := 0, present_pages := 0\<rparr>)"

definition example_mm :: "mem_map \<Rightarrow> zone \<Rightarrow> mm" where
  "example_mm m z = \<lparr>mm_map = m, mm_zones = example_zones z, mm_pcp = setup_pageset 0, mm_pgmd = False,
     mm_zonelist = build_zonelists (example_zones example_zone), mm_gfp_allowed = GFP_BOOT_MASK\<rparr>"

definition used_frames :: mem_map where
  "used_frames = example_frames(5120 := (example_frames 5120)\<lparr>pg_count := 1\<rparr>)"

definition freed_frames :: mem_map where
  "freed_frames = example_frames(5120 := (example_frames 5120)\<lparr>pg_mapcount := PAGE_BUDDY_MAPCOUNT_VALUE, pg_private := 10\<rparr>)"

definition freed_zone :: zone where
  "freed_zone = example_zone\<lparr>free_list := (\<lambda>k t. if k = 10 \<and> t = 0 then [5120] else []), nr_free := (\<lambda>k. if k = 10 then 1 else 0),
     nr_free_pages := 1024\<rparr>"

abbreviation used_mm :: mm where "used_mm \<equiv> example_mm used_frames example_zone"
abbreviation freed_mm :: mm where "freed_mm \<equiv> example_mm freed_frames freed_zone"

lemma example_id: "page_zone_id (example_frames q) = 1"
  by (simp add: example_frames_def page_zone_id_def set_page_links_def set_page_node_def
      set_page_zone_def null_page_def top_mask ZONES_PGSHIFT_def NODES_PGSHIFT_def)

lemma example_page: "pg_mapcount (example_frames q) = -1" "pg_mapping (example_frames q) = 0" "pg_count (example_frames q) = 0"
  "pg_flags (example_frames q) AND PAGE_FLAGS_CHECK_AT_PREP = 0" "pg_flags (example_frames q) AND PAGE_FLAGS_CHECK_AT_FREE = 0"
  "\<not> PageBuddy (example_frames q)"
  by (simp_all add: example_frames_def set_page_links_def set_page_node_def set_page_zone_def null_page_def top_mask
      ZONES_PGSHIFT_def NODES_PGSHIFT_def PAGE_FLAGS_CHECK_AT_PREP_def PAGE_FLAGS_CHECK_AT_FREE_def flag_def NR_PAGEFLAGS_def
      pageflags PageBuddy_def PAGE_BUDDY_MAPCOUNT_VALUE_def)

lemma frames_id: "page_zone_id (used_frames q) = 1" "page_zone_id (freed_frames q) = 1"
  using example_id by (simp_all add: used_frames_def freed_frames_def page_zone_id_def)

lemma example_types: "types_ok example_zone" "types_ok freed_zone"
proof -
  show "types_ok example_zone"
    by (simp add: types_ok_def get_migratetype example_zone_def migratetypes bits3_def)
  moreover have "span freed_zone = span example_zone" by (simp add: span_def freed_zone_def)
  moreover have "get_pageblock_migratetype freed_zone q = get_pageblock_migratetype example_zone q" for q
    by (simp add: get_migratetype block_of_def freed_zone_def)
  ultimately show "types_ok freed_zone" by (simp add: types_ok_def)
qed

lemma empty_zones:
  assumes "\<And>q. page_zone_id (m q) = 1" "i \<noteq> 1"
  shows "zone_inv m (example_zones z i)"
proof -
  let ?z = "example_zone\<lparr>zone_num := i, spanned_pages := 0, present_pages := 0\<rparr>"
  have sp: "span ?z = {}" by (simp add: span_def example_zone_def)
  have ok: "zone_ok m ?z" using sp by (simp add: zone_ok_def example_zone_def)
  have "buddy_inv m ?z" "free_pages ?z = {}"
    by (rule empty_zone_inv [OF ok]; use assms in \<open>simp add: fl_def example_zone_def\<close>)+
  then show ?thesis using assms(2) sp by (simp add: zone_inv_def example_zones_def types_ok_def)
qed

lemma used_inv: "mm_inv used_mm" "in_use_block used_mm 1 5120 10"
proof -
  have ok: "zone_ok used_frames example_zone" using frames_id by (simp add: zone_ok_def example_zone_def)
  have "buddy_inv used_frames example_zone" "free_pages example_zone = {}"
    by (rule empty_zone_inv [OF ok]; use example_page(6) in \<open>simp add: fl_def example_zone_def used_frames_def PageBuddy_def\<close>)+
  then have "zone_inv used_frames (example_zones example_zone i)" for i
    using empty_zones [of used_frames i] frames_id(1) example_types by (cases "i = 1") (simp_all add: zone_inv_def example_zones_def)
  moreover have "zone_num (example_zones example_zone i) = i" for i by (simp add: example_zones_def example_zone_def)
  ultimately show "mm_inv used_mm"
    by (simp add: mm_inv_def example_mm_def pcp_idle_def setup_pageset_def)
  show "in_use_block used_mm 1 5120 10"
    using example_held example_page by (simp add: in_use_block_def example_mm_def MAX_NR_ZONES_def example_zones_def used_frames_def)
qed

lemma freed_zone_blocks: "fb freed_zone = {(5120, 10)}" "free_pages freed_zone = {5120..<6144}" "span freed_zone = {4096..<8192}"
proof -
  have "set (fl freed_zone k) = (if k = 10 then {5120} else {})" for k
    by (auto simp: fl_def freed_zone_def migratetypes)
  then show "fb freed_zone = {(5120, 10)}" by (auto simp: fb_def MAX_ORDER_def split: if_splits)
  then show "free_pages freed_zone = {5120..<6144}" by (simp add: free_pages_def blk_def)
  show "span freed_zone = {4096..<8192}" by (simp add: span_def freed_zone_def example_zone_def)
qed


lemma freed_inv: "mm_inv freed_mm"
proof -
  have pg: "freed_frames 5120 = (example_frames 5120)\<lparr>pg_mapcount := PAGE_BUDDY_MAPCOUNT_VALUE, pg_private := 10\<rparr>"
    "q \<noteq> 5120 \<Longrightarrow> freed_frames q = example_frames q" for q
    by (simp_all add: freed_frames_def)
  have fl: "fl freed_zone k = (if k = 10 then [5120] else [])" for k
    by (simp add: fl_def freed_zone_def migratetypes upt_rec)
  have "buddy_inv freed_frames freed_zone"
  proof (rule buddy_invI)
    show "zone_ok freed_frames freed_zone" using frames_id by (simp add: zone_ok_def freed_zone_def example_zone_def)
    show "distinct (fl freed_zone k)" "nr_free freed_zone k = word_of_nat (length (fl freed_zone k))" for k
      by (simp_all add: fl) (simp_all add: freed_zone_def)
    show "2 ^ k dvd p \<and> blk p k \<subseteq> span freed_zone \<and> PageBuddy (freed_frames p) \<and> page_order (freed_frames p) = word_of_nat k"
      if "(p, k) \<in> fb freed_zone" for p k
      using that by (simp add: freed_zone_blocks blk_def pg PageBuddy_def page_order_def)
    show "(q, unat (page_order (freed_frames q))) \<in> fb freed_zone" if "PageBuddy (freed_frames q)" for q
      using that example_page(6) [of q] by (cases "q = 5120") (simp_all add: freed_zone_blocks pg page_order_def)
    show "p = q \<and> k = l" if "(p, k) \<in> fb freed_zone" "(q, l) \<in> fb freed_zone" for p k q l
      using that by (simp add: freed_zone_blocks)
    show "(uu_find_buddy_index p k, k) \<notin> fb freed_zone" if "(p, k) \<in> fb freed_zone" "k < MAX_ORDER - 1" for p k
      using that by (simp add: freed_zone_blocks MAX_ORDER_def)
  qed
  moreover have "spotless (freed_frames q)" for q
    using example_page [of q] by (cases "q = 5120") (simp_all add: pg spotless_def PageBuddy_def)
  ultimately have "zone_inv freed_frames (example_zones freed_zone i)" for i
    using empty_zones [of freed_frames i] frames_id(2) example_types by (cases "i = 1") (simp_all add: zone_inv_def example_zones_def)
  moreover have "zone_num (example_zones freed_zone i) = i" for i by (simp add: example_zones_def freed_zone_def example_zone_def)
  ultimately show ?thesis
    by (simp add: mm_inv_def example_mm_def pcp_idle_def setup_pageset_def)
qed

lemma example_zonelist: "zonelist_ok (mm_zonelist (example_mm m z))" "for_each_zone (mm_zonelist (example_mm m z)) 1 = [1]"
proof -
  show "zonelist_ok (mm_zonelist (example_mm m z))" by (auto simp: zonelist_ok_def example_mm_def)
  have "populated_zone (example_zones example_zone i) \<longleftrightarrow> i = 1" for i
    by (simp add: populated_zone_def example_zones_def example_zone_def)
  then show "for_each_zone (mm_zonelist (example_mm m z)) 1 = [1]"
    by (simp add: example_mm_def zonelist_order MAX_NR_ZONES_def upt_rec)
qed

section \<open>Properties\<close>

text \<open>C3. Freeing a block that its owner holds returns; the invariant of all zones holds again and
  exactly the pages of the block become free. Other zones and the page frames outside of the
  block stay as they are, apart from the marks of free blocks.\<close>

theorem free_pages_correct:
  assumes "mm_inv s" "in_use_block s i p k"
  shows "\<exists>s'. uu_free_pages s p k = Some s' \<and> mm_inv s' \<and> free_pages (mm_zones s' i) = free_pages (mm_zones s i) \<union> blk p k
    \<and> kept s i (blk p k) s'"
  using free_pages_spec [OF assms] by (simp add: freed_block_def)

theorem free_pages_correct_witness:
  "\<exists>s'. uu_free_pages used_mm 5120 10 = Some s' \<and> mm_inv s' \<and> free_pages (mm_zones s' 1) = {5120..<6144}"
proof -
  have "free_pages (mm_zones used_mm 1) = {}" using example_zone_inv(2) by (simp add: example_mm_def example_zones_def)
  then show ?thesis using free_pages_correct [OF used_inv] by (auto simp: blk_def)
qed

text \<open>C2. A request for a block of \<open>2 ^ k\<close> pages returns. Either it yields a block of pages that
  were free, from one of the zones that the request allows, with the reference count and flags of a
  block in use, or nothing changes and each of these zones is below its low watermark or has no
  free block that is large enough.\<close>

theorem alloc_pages_correct:
  assumes "mm_inv s" "zonelist_ok (mm_zonelist s)" "plain_request gf"
  defines "zs \<equiv> for_each_zone (mm_zonelist s) (gfp_zone gf)"
  shows "(\<exists>i p s'. i \<in> set zs \<and> uu_alloc_pages_nodemask s gf k = Some (s', Some p)
      \<and> mm_inv s' \<and> in_use_block s' i p k \<and> blk p k \<subseteq> free_pages (mm_zones s i)
      \<and> free_pages (mm_zones s' i) = free_pages (mm_zones s i) - blk p k \<and> kept s i (blk p k) s') \<or>
    (uu_alloc_pages_nodemask s gf k = Some (s, None)
      \<and> (\<forall>i\<in>set zs. below_low (mm_zones s i) k (hd zs) \<or> exhausted (mm_zones s i) k))"
  using alloc_pages_spec [OF assms(1-3), of k] unfolding zs_def got_block_def by blast

theorem alloc_pages_correct_witness:
  "\<exists>p s'. uu_alloc_pages_nodemask freed_mm 0 3 = Some (s', Some p) \<and> mm_inv s' \<and> blk p 3 \<subseteq> {5120..<6144}
    \<and> free_pages (mm_zones s' 1) = {5120..<6144} - blk p 3"
proof -
  have g: "gfp_zone 0 = 1" by (simp add: gfp_zone_def GFP_ZONE_TABLE_def ZONE_NORMAL_def ZONE_DMA_def ZONE_MOVABLE_def)
  have z: "mm_zones freed_mm 1 = freed_zone" by (simp add: example_mm_def example_zones_def)
  have "\<not> exhausted freed_zone 3"
    unfolding exhausted_def by (auto simp: freed_zone_def MAX_ORDER_def migratetypes intro!: exI [of _ 10] exI [of _ 0])
  moreover have "\<not> below_low freed_zone 3 1"
    by (simp add: below_low_def zone_watermark_ok_def uu_zone_watermark_ok_def freed_zone_def example_zone_def ALLOC_WMARK_LOW_def
        ALLOC_CPUSET_def ALLOC_HIGH_def ALLOC_HARDER_def upt_rec Let_def)
  moreover have "plain_request 0" by (simp add: plain_request_def)
  ultimately show ?thesis
    using alloc_pages_correct [OF freed_inv example_zonelist(1), of 0 3] unfolding g example_zonelist(2)
    using freed_zone_blocks(2) by (auto simp: z [simplified])
qed

text \<open>C1. In every state that plain requests and releases lead to, the blocks in use are disjoint, none of
  their pages is free, each of them can be released, and every plain request returns. A request is plain
  (\<open>plain_request\<close>) if it has neither the flag \<^verbatim>\<open>__GFP_ZERO\<close> nor both mobility flags: a request for zeroed
  pages overwrites page descriptors (\<open>zeroed_page_lost\<close>), and one with both mobility flags indexes the per-CPU
  lists out of bounds, so neither is a step of \<open>page_step\<close>.\<close>

theorem page_runs_safe:
  assumes "live_ok c" "page_step\<^sup>*\<^sup>* c (s, L)"
  shows "mm_inv s \<and> (\<forall>(p, k)\<in>L. \<forall>(q, l)\<in>L. (p, k) \<noteq> (q, l) \<longrightarrow> blk p k \<inter> blk q l = {})
    \<and> (\<forall>(p, k)\<in>L. \<forall>i<MAX_NR_ZONES. blk p k \<inter> free_pages (mm_zones s i) = {})
    \<and> (\<forall>(p, k)\<in>L. \<exists>s'. uu_free_pages s p k = Some s')
    \<and> (\<forall>gf k. plain_request gf \<longrightarrow> (\<exists>s' r. uu_alloc_pages_nodemask s gf k = Some (s', r)))"
proof -
  have ok: "live_ok (s, L)" using page_run_live assms by blast
  then have inv: "mm_inv s" and zl: "zonelist_ok (mm_zonelist s)" by (simp_all add: live_ok_def)
  have u: "\<exists>i. in_use_block s i p k" if "(p, k) \<in> L" for p k using ok that by (auto simp: live_ok_def)
  have "\<forall>(p, k)\<in>L. \<forall>(q, l)\<in>L. (p, k) \<noteq> (q, l) \<longrightarrow> blk p k \<inter> blk q l = {}" using ok by (simp add: live_ok_def)
  moreover have "\<forall>(p, k)\<in>L. \<forall>i<MAX_NR_ZONES. blk p k \<inter> free_pages (mm_zones s i) = {}"
    using u in_use_not_free [OF inv] by blast
  moreover have "\<forall>(p, k)\<in>L. \<exists>s'. uu_free_pages s p k = Some s'" using u free_pages_spec [OF inv] by blast
  moreover have "\<forall>gf k. plain_request gf \<longrightarrow> (\<exists>s' r. uu_alloc_pages_nodemask s gf k = Some (s', r))"
    using alloc_pages_spec [OF inv zl] by blast
  ultimately show ?thesis using inv by blast
qed

text \<open>A block of eight pages is taken and given back; then another request returns.\<close>

lemma freed_alloc: "\<exists>p s'. uu_alloc_pages_nodemask freed_mm 0 3 = Some (s', Some p)"
proof -
  have g: "gfp_zone 0 = 1" by (simp add: gfp_zone_def GFP_ZONE_TABLE_def ZONE_NORMAL_def ZONE_DMA_def ZONE_MOVABLE_def)
  have z: "mm_zones freed_mm 1 = freed_zone" by (simp add: example_mm_def example_zones_def)
  have "\<not> exhausted freed_zone 3"
    unfolding exhausted_def by (auto simp: freed_zone_def MAX_ORDER_def migratetypes intro!: exI [of _ 10] exI [of _ 0])
  moreover have "\<not> below_low freed_zone 3 1"
    by (simp add: below_low_def zone_watermark_ok_def uu_zone_watermark_ok_def freed_zone_def example_zone_def ALLOC_WMARK_LOW_def
        ALLOC_CPUSET_def ALLOC_HIGH_def ALLOC_HARDER_def upt_rec Let_def)
  moreover have "plain_request 0" by (simp add: plain_request_def)
  ultimately show ?thesis
    using alloc_pages_spec [OF freed_inv example_zonelist(1), of 0 3] unfolding g example_zonelist(2)
    by (auto simp: z [simplified])
qed

theorem page_runs_safe_witness:
  "\<exists>s1 p s2. page_step (freed_mm, {}) (s1, {(p, 3)}) \<and> page_step (s1, {(p, 3)}) (s2, {}) \<and> mm_inv s2
    \<and> (\<exists>s' r. uu_alloc_pages_nodemask s2 0 3 = Some (s', r))"
proof -
  have live: "live_ok (freed_mm, {})" using freed_inv example_zonelist(1) by (auto simp: live_ok_def)
  have plain: "plain_request 0" by (simp add: plain_request_def)
  obtain p s1 where "uu_alloc_pages_nodemask freed_mm 0 3 = Some (s1, Some p)" using freed_alloc by blast
  then have a: "page_step (freed_mm, {}) (s1, {(p, 3)})" using page_step.alloc [OF plain, of freed_mm 3 s1 p "{}"] by simp
  then obtain s2 where "uu_free_pages s1 p 3 = Some s2" using page_runs_safe [OF live r_into_rtranclp] by blast
  then have f: "page_step (s1, {(p, 3)}) (s2, {})" using page_step.free [of p 3 "{(p, 3)}" s1 s2] by simp
  have "page_step\<^sup>*\<^sup>* (freed_mm, {}) (s2, {})"
    using a f by (meson rtranclp.rtrancl_into_rtrancl rtranclp.rtrancl_refl)
  from page_runs_safe [OF live this] have "mm_inv s2" "\<exists>s' r. uu_alloc_pages_nodemask s2 0 3 = Some (s', r)"
    using plain by simp_all
  with a f show ?thesis by blast
qed


section \<open>Watermarks and addresses\<close>

text \<open>The test without machine arithmetic: after the request and after leaving out the blocks of the
  orders below, more pages remain than the halved watermark.\<close>

primrec above_marks :: "nat \<Rightarrow> (nat \<Rightarrow> nat) \<Rightarrow> int \<Rightarrow> int \<Rightarrow> bool" where
  "above_marks 0 nr mn fp = True"
| "above_marks (Suc k) nr mn fp =
     (above_marks k nr mn fp \<and> fp - (\<Sum>j\<le>k. 2 ^ j * int (nr j)) > mn div 2 ^ (k + 1))"

lemma wmark_append: "wmark_loop (ks @ [k]) z mn fp \<longleftrightarrow>
   wmark_loop ks z mn fp \<and> sint (fp - (\<Sum>j\<leftarrow>ks @ [k]. push_bit j (nr_free z j))) > sint ((signed_drop_bit 1 ^^ (length ks + 1)) mn)"
proof (induction ks arbitrary: mn fp)
  case (Cons j ks)
  then show ?case by (simp add: Let_def funpow_swap1 algebra_simps not_le)
qed (simp add: Let_def not_le)

lemma halved: "sint ((signed_drop_bit 1 ^^ n) (w :: ulong)) = sint w div 2 ^ n"
proof (induction n)
  case (Suc n)
  then show ?case by (simp add: sint_signed_drop_bit_eq drop_bit_eq_div zdiv_zmult2_eq [symmetric] mult.commute)
qed simp

lemma unat_push:
  assumes "unat (w :: 'a::len word) * 2 ^ k < 2 ^ LENGTH('a)"
  shows "unat (push_bit k w) = unat w * 2 ^ k"
proof -
  have "unat (push_bit k w) = take_bit LENGTH('a) (push_bit k (unat w))" by (rule unsigned_push_bit_eq)
  then show ?thesis using assms by (simp add: push_bit_eq_mult take_bit_nat_eq_self)
qed

lemma sum_small:
  assumes "(\<Sum>j<k. 2 ^ j * unat (nr j :: ulong)) < 2 ^ 32"
  shows "unat (\<Sum>j\<leftarrow>[0..<k]. push_bit j (nr j)) = (\<Sum>j<k. 2 ^ j * unat (nr j))"
  using assms
proof (induction k)
  case (Suc k)
  have a: "unat (push_bit k (nr k)) = 2 ^ k * unat (nr k)"
    using unat_push [of "nr k" k] Suc.prems by (simp add: mult.commute)
  then show ?case using Suc by (simp add: unat_word_ariths)
qed simp

lemma uint_small: "unat (w :: ulong) < 2 ^ 31 \<Longrightarrow> uint w < 2 ^ 31"
  using of_nat_less_iff [of "unat w" "2 ^ 31", where 'a = int] by simp

lemma sint_small:
  assumes "unat (w :: ulong) < 2 ^ 31"
  shows "sint w = int (unat w)"
proof -
  have "signed_take_bit 31 (uint w) = uint w"
    by (rule signed_take_bit_int_eq_self) (use uint_small [OF assms] uint_ge_0 [of w] in linarith)+
  then show ?thesis using sint_uint [of w] by simp
qed

lemma sint_diff:
  assumes "unat (a :: ulong) < 2 ^ 31" "unat (b :: ulong) < 2 ^ 31"
  shows "sint (a - b) = int (unat a) - int (unat b)"
proof -
  have "sint (a - b) = signed_take_bit 31 (sint a - sint b)" by (simp add: sint_word_ariths)
  also have "\<dots> = signed_take_bit 31 (uint a - uint b)" using sint_small [OF assms(1)] sint_small [OF assms(2)] by simp
  also have "\<dots> = uint a - uint b"
    by (rule signed_take_bit_int_eq_self)
      (use uint_small [OF assms(1)] uint_small [OF assms(2)] uint_ge_0 [of a] uint_ge_0 [of b] in linarith)+
  finally show ?thesis by simp
qed

lemma wmark_above:
  assumes "unat fp < 2 ^ 31" "unat mn < 2 ^ 31" "(\<Sum>j<k. 2 ^ j * unat (nr_free z j)) < 2 ^ 31"
  shows "wmark_loop [0..<k] z mn fp \<longleftrightarrow> above_marks k (\<lambda>j. unat (nr_free z j)) (int (unat mn)) (int (unat fp))"
  using assms(3)
proof (induction k)
  case (Suc k)
  let ?S = "\<Sum>j<Suc k. 2 ^ j * unat (nr_free z j)"
  have u: "unat (\<Sum>j\<leftarrow>[0..<Suc k]. push_bit j (nr_free z j)) = ?S"
    by (rule sum_small, rule less_trans [OF Suc.prems]) simp
  have d: "sint (fp - (\<Sum>j\<leftarrow>[0..<Suc k]. push_bit j (nr_free z j))) = int (unat fp) - int ?S"
    using sint_diff [OF assms(1), of "\<Sum>j\<leftarrow>[0..<Suc k]. push_bit j (nr_free z j)"] Suc.prems unfolding u by simp
  have s: "int ?S = (\<Sum>j\<le>k. 2 ^ j * int (unat (nr_free z j)))" unfolding lessThan_Suc_atMost by simp
  have IH: "wmark_loop [0..<k] z mn fp \<longleftrightarrow> above_marks k (\<lambda>j. unat (nr_free z j)) (int (unat mn)) (int (unat fp))"
    using Suc by simp
  show ?case using wmark_append [of "[0..<k]" k z mn fp] d IH
    unfolding s halved sint_small [OF assms(2)] by simp
qed simp

text \<open>The mark that a request has to leave: an urgent request (\<^verbatim>\<open>ALLOC_HIGH\<close>, bit 5 of the flags) lowers
  it by a half, rounded down, one that tries harder (\<^verbatim>\<open>ALLOC_HARDER\<close>, bit 4) then by a quarter.\<close>

definition lowered_mark :: "ulong \<Rightarrow> nat \<Rightarrow> nat" where
  "lowered_mark alloc_flags mark =
     (let m = (if bit alloc_flags 5 then mark - mark div 2 else mark)
      in if bit alloc_flags 4 then m - m div 4 else m)"

lemma lower_word:
  fixes mn :: ulong
  assumes "unat mn < 2 ^ 31"
  shows "unat (mn - word_of_int (sint mn sdiv int d)) = unat mn - unat mn div d"
proof -
  have "sint mn sdiv int d = int (unat mn div d)"
    unfolding sint_small [OF assms] by (simp add: signed_divide_int_def sgn_if zdiv_int)
  then have e: "mn - word_of_int (sint mn sdiv int d) = mn - of_nat (unat mn div d)" by simp
  have "unat mn div d \<le> unat mn" by (rule div_le_dividend)
  moreover from this have "unat mn div d < 2 ^ LENGTH(32)"
    using unat_bound [of mn] by (rule order_le_less_trans)
  then have "unat (of_nat (unat mn div d) :: ulong) = unat mn div d" by (simp only: unat_of_nat mod_less)
  ultimately show ?thesis unfolding e by (subst unat_sub) (simp_all add: word_le_nat_alt)
qed

lemma lowered_word:
  fixes mark f :: ulong
  assumes "unat mark < 2 ^ 31"
  defines "mn \<equiv> (let mn = (if f AND ALLOC_HIGH \<noteq> 0 then mark - word_of_int (sint mark sdiv 2) else mark)
    in if f AND ALLOC_HARDER \<noteq> 0 then mn - word_of_int (sint mn sdiv 4) else mn)"
  shows "unat mn = lowered_mark f (unat mark)" "unat mn \<le> unat mark"
proof -
  have h: "f AND ALLOC_HIGH \<noteq> 0 \<longleftrightarrow> bit f 5" "f AND ALLOC_HARDER \<noteq> 0 \<longleftrightarrow> bit f 4"
    using bit_iff_and_push_bit_not_eq_0 [of f 5] bit_iff_and_push_bit_not_eq_0 [of f 4]
    by (simp_all add: ALLOC_HIGH_def ALLOC_HARDER_def)
  let ?h = "if bit f 5 then mark - word_of_int (sint mark sdiv 2) else mark"
  have u: "unat ?h = (if bit f 5 then unat mark - unat mark div 2 else unat mark)"
    using lower_word [OF assms(1), of 2] by simp
  then have "unat ?h < 2 ^ 31" using assms(1) by (auto split: if_splits)
  then have "unat (?h - word_of_int (sint ?h sdiv 4)) = unat ?h - unat ?h div 4" using lower_word [of ?h 4] by simp
  then show "unat mn = lowered_mark f (unat mark)"
    unfolding mn_def h Let_def lowered_mark_def using u by simp
  then show "unat mn \<le> unat mark" by (auto simp: lowered_mark_def Let_def)
qed

text \<open>C35. The watermark test is exact, for every combination of allocation flags, as long as the request does not
  exceed the free pages and no quantity reaches 2 to the 31: the free pages that the request leaves exceed
  the mark, lowered by a half for an urgent request and by a further quarter for one that tries harder, with the
  reserve, and stay above the halved mark when blocks of the orders below are left out.\<close>

theorem watermark_correct:
  assumes "2 ^ k + 1 \<le> unat fp" "unat fp < 2 ^ 31" "unat mark + unat (lowmem_reserve z c) < 2 ^ 31"
    "(\<Sum>j<k. 2 ^ j * unat (nr_free z j)) < 2 ^ 31"
  shows "uu_zone_watermark_ok z k mark c alloc_flags fp \<longleftrightarrow>
    int (unat fp) - 2 ^ k - 1 > int (lowered_mark alloc_flags (unat mark)) + int (unat (lowmem_reserve z c))
    \<and> above_marks k (\<lambda>j. unat (nr_free z j)) (int (lowered_mark alloc_flags (unat mark))) (int (unat fp) - 2 ^ k - 1)"
proof -
  let ?fp = "fp - (push_bit k 1 + 1)"
  define mn where "mn = (let mn = (if alloc_flags AND ALLOC_HIGH \<noteq> 0 then mark - word_of_int (sint mark sdiv 2) else mark)
    in if alloc_flags AND ALLOC_HARDER \<noteq> 0 then mn - word_of_int (sint mn sdiv 4) else mn)"
  have m31: "unat mark < 2 ^ 31" using assms(3) by linarith
  have mn: "unat mn = lowered_mark alloc_flags (unat mark)" "unat mn \<le> unat mark"
    using lowered_word [OF m31, of alloc_flags] unfolding mn_def by blast+
  have k: "(2 :: nat) ^ k < 2 ^ 31" using assms(1,2) by linarith
  then have "k < 31" by (rule power_less_imp_less_exp [rotated]) simp
  then have p: "unat (push_bit k 1 + 1 :: ulong) = 2 ^ k + 1"
    using k by (simp add: unat_word_ariths unsigned_push_bit_eq take_bit_eq_mod push_bit_eq_mult)
  have f: "unat ?fp = unat fp - 2 ^ k - 1" using p assms(1) by (simp add: unat_sub word_le_nat_alt)
  have i: "int (unat ?fp) = int (unat fp) - 2 ^ k - 1" using f assms(1) by (simp add: of_nat_diff)
  have r: "unat (mn + lowmem_reserve z c) = unat mn + unat (lowmem_reserve z c)"
    using assms(3) mn(2) by (intro unat_add_no_wrap) simp
  have "?fp \<le> mn + lowmem_reserve z c \<longleftrightarrow> int (unat fp) - 2 ^ k - 1 \<le> int (unat mn) + int (unat (lowmem_reserve z c))"
    using i r by (simp add: word_le_nat_alt flip: of_nat_le_iff [where 'a = int])
  moreover have "wmark_loop [0..<k] z mn ?fp \<longleftrightarrow> above_marks k (\<lambda>j. unat (nr_free z j)) (int (unat mn)) (int (unat fp) - 2 ^ k - 1)"
    using wmark_above [where fp = ?fp and mn = mn and k = k and z = z] assms(2-4) f mn(2) unfolding i by simp
  moreover have "uu_zone_watermark_ok z k mark c alloc_flags fp \<longleftrightarrow> \<not> ?fp \<le> mn + lowmem_reserve z c \<and> wmark_loop [0..<k] z mn ?fp"
    unfolding uu_zone_watermark_ok_def mn_def by (simp add: Let_def)
  ultimately show ?thesis unfolding mn(1) by (simp add: not_le)
qed

text \<open>A mark of 1200 pages refuses a normal request, and admits an urgent one that tries harder.\<close>

theorem watermark_correct_witness:
  "\<not> uu_zone_watermark_ok freed_zone 2 1200 0 ALLOC_WMARK_LOW 1024
    \<and> uu_zone_watermark_ok freed_zone 2 1200 0 (ALLOC_HIGH OR ALLOC_HARDER) 1024"
proof -
  have n: "nr_free freed_zone 0 = 0" "nr_free freed_zone (Suc 0) = 0" by (simp_all add: freed_zone_def)
  have m: "lowered_mark ALLOC_WMARK_LOW 1200 = 1200" "lowered_mark (ALLOC_HIGH OR ALLOC_HARDER) 1200 = 450"
    by (simp_all add: lowered_mark_def ALLOC_WMARK_LOW_def ALLOC_HIGH_def ALLOC_HARDER_def bit_or_iff)
  have a: "above_marks 2 (\<lambda>j. unat (nr_free freed_zone j)) 450 1019"
    by (simp add: numeral_2_eq_2 n)
  have z: "(\<Sum>j<2. 2 ^ j * unat (nr_free freed_zone j)) = 0" by (simp add: numeral_2_eq_2 n)
  have "lowmem_reserve freed_zone 0 = 0" by (simp add: freed_zone_def example_zone_def)
  then show ?thesis
    using watermark_correct [where k = 2 and fp = 1024 and mark = 1200 and z = freed_zone and c = 0 and alloc_flags = ALLOC_WMARK_LOW]
      watermark_correct [where k = 2 and fp = 1024 and mark = 1200 and z = freed_zone and c = 0 and alloc_flags = "ALLOC_HIGH OR ALLOC_HARDER"] z a m
    by simp
qed

text \<open>The test is wrong when the request exceeds the free pages: the difference is negative, and
  the comparison with the unsigned reserve takes it for a large number.\<close>

lemma watermark_wraps: "zone_watermark_ok example_zone 0 0 0 ALLOC_WMARK_LOW" "nr_free_pages example_zone = 0"
  by (simp_all add: zone_watermark_ok_def uu_zone_watermark_ok_def example_zone_def ALLOC_WMARK_LOW_def ALLOC_HIGH_def ALLOC_HARDER_def)

text \<open>The address of a page leads back to the page, for the pages of the address space.\<close>

theorem page_address_roundtrip:
  assumes "p < 2 ^ 20"
  shows "virt_to_page (page_address p) = p"
proof -
  have u: "unat (ucast (word_of_nat p :: ulong) :: phys_addr_t) = p" 
    using assms by (simp add: unsigned_ucast_eq unat_of_nat take_bit_nat_eq_self)
  have "unat (PFN_PHYS (word_of_nat p :: ulong)) = p * 4096"
    unfolding PFN_PHYS_def using unat_push [of "ucast (word_of_nat p :: ulong) :: phys_addr_t" PAGE_SHIFT] assms by (simp add: u PAGE_SHIFT_def)
  then have "unat (page_address p - PAGE_OFFSET_VA) = p * 4096"
    using assms by (simp add: page_address_def unsigned_ucast_eq take_bit_nat_eq_self)
  then show ?thesis by (simp add: virt_to_page_def PAGE_SHIFT_def drop_bit_eq_div unat_div)
qed

theorem page_address_roundtrip_witness: "virt_to_page (page_address 5120) = 5120"
  by (rule page_address_roundtrip) simp

text \<open>The zone of a request: the table agrees with the meaning of the zone flags. The DMA flag
  leads to the DMA zone, both the highmem and the movable flag to the movable zone, and any other
  legal combination to the normal zone.\<close>

theorem gfp_zone_correct:
  assumes "gf AND GFP_DMA32 = 0" "gf AND GFP_DMA = 0 \<or> gf AND GFP_HIGHMEM = 0"
  shows "gfp_zone gf = (if gf AND GFP_DMA \<noteq> 0 then ZONE_DMA
    else if gf AND GFP_HIGHMEM \<noteq> 0 \<and> gf AND GFP_MOVABLE \<noteq> 0 then ZONE_MOVABLE else ZONE_NORMAL)"
proof -
  define b where "b = gf AND GFP_ZONEMASK"
  have m: "gf AND GFP_DMA = b AND GFP_DMA" "gf AND GFP_HIGHMEM = b AND GFP_HIGHMEM" "gf AND GFP_DMA32 = b AND GFP_DMA32"
    "gf AND GFP_MOVABLE = b AND GFP_MOVABLE"
    by (simp_all add: b_def GFP_ZONEMASK_def and.assoc GFP_DMA_def GFP_HIGHMEM_def GFP_DMA32_def GFP_MOVABLE_def)
  have "b = take_bit 4 gf" by (simp add: b_def GFP_ZONEMASK_def GFP_DMA_def GFP_HIGHMEM_def GFP_DMA32_def GFP_MOVABLE_def take_bit_eq_mask mask_eq_decr_exp)
  then have "unat b = unat gf mod 2 ^ 4" by (simp add: unat_mod take_bit_eq_mod)
  then have "unat b < 16" by simp
  then obtain n where n: "n < 16" "b = word_of_nat n" using that [of "unat b"] by simp
  have "n \<in> {0,1,2,3,4,5,6,7,8,9,10,11,12,13,14,15}" using n(1) unfolding insert_iff empty_iff by presburger
  moreover have "gfp_zone gf = unat (drop_bit (unat b * 2) GFP_ZONE_TABLE AND 3)" by (simp add: gfp_zone_def b_def)
  ultimately show ?thesis using assms unfolding m n(2)
    by (auto simp: GFP_ZONE_TABLE_def GFP_DMA_def GFP_HIGHMEM_def GFP_DMA32_def GFP_MOVABLE_def ZONE_DMA_def ZONE_NORMAL_def ZONE_MOVABLE_def)
qed

theorem gfp_zone_correct_witness: "gfp_zone (GFP_HIGHMEM OR GFP_MOVABLE) = ZONE_MOVABLE"
  using gfp_zone_correct [of "GFP_HIGHMEM OR GFP_MOVABLE"]
  by (simp add: GFP_DMA_def GFP_HIGHMEM_def GFP_DMA32_def GFP_MOVABLE_def)

section \<open>Defects of the code\<close>

text \<open>A request for cleared pages destroys the page frame descriptors: the reference count that was
  just set is 0 again, and so is the zone number of this and the following 127 frames.\<close>

lemma clear_loop_null: "p \<le> q \<Longrightarrow> q < p + n + 127 \<Longrightarrow> 0 < n \<Longrightarrow> prep_zero_loop n p m q = null_page"
proof (induction n arbitrary: p m)
  case (Suc n)
  have keep: "prep_zero_loop n a m' q = null_page" if "m' q = null_page" for a m'
    using that by (induction n arbitrary: a m') (simp_all add: clear_page_def)
  show ?case
  proof (cases "q < p + 128")
    case True
    then show ?thesis using Suc.prems keep [of "clear_page m p"] by (simp add: clear_page_def)
  next
    case False
    then show ?thesis using Suc.IH [of "p + 1"] Suc.prems by simp
  qed
qed simp

lemma zeroed_page_lost:
  assumes "\<forall>q\<in>{p..<p + 2 ^ k}. \<not> check_new_page (m q)" "gf AND GFP_ZERO \<noteq> 0" "gf AND GFP_COMP = 0"
  shows "fst (prep_new_page m p k gf) p = null_page" "fst (prep_new_page m p k gf) (p + 127) = null_page"
  using assms clear_loop_null [of p _ "2 ^ k"] by (auto simp: prep_new_page_def prep_zero_page_def Let_def)

text \<open>A block of 32 pages from the boot allocator: only the count of its first page is reset, so the
  others keep the count 1 and an allocation of any of them is refused.\<close>

lemma bootmem_loop_count:
  "q \<noteq> page \<Longrightarrow> pg_count (mm_map (bootmem_loop n p page s) q) = pg_count (mm_map s q)"
  by (induction n arbitrary: p s) (simp_all add: Let_def upd_page_def clear_page_flag_def set_page_count_def)

lemma bootmem_pages_refused:
  assumes "pg_count (mm_map s q) = 1" "q \<noteq> p"
  shows "check_new_page (mm_map (bootmem_loop 32 p p s) q)"
  using assms bootmem_loop_count [of q p 32 p s] by (simp add: check_new_page_def)

text \<open>\<^verbatim>\<open>GFP_BOOT_MASK\<close> takes away the DMA flag, and lets requests wait and do I/O.\<close>

lemma boot_mask_wrong: "GFP_BOOT_MASK AND GFP_DMA = 0" "GFP_BOOT_MASK AND GFP_WAIT = GFP_WAIT"
  by (simp_all add: GFP_BOOT_MASK_def GFP_BITS_MASK_def GFP_DMA_def GFP_WAIT_def GFP_IO_def GFP_FS_def)

end
