(* ===== verification/I8259.thy ===== *)
theory I8259
  imports Kernel_Util
begin

text \<open>
  The driver of the two cascaded 8259A interrupt controllers, \<^verbatim>\<open>kernel/i8259.c\<close>. The state holds
  the variables of the file and the sequence of port writes. What a port read returns is a parameter
  \<open>inb\<close> of the functions that read: a function of the writes so far and of the port. The behaviour of
  the controllers themselves (initialisation words, mask register, in-service register) is written
  down as a small automaton over the port writes, against which the driver is verified; it is not code of the kernel. Numbers of
  interrupt lines are below 16 throughout.
\<close>

type_synonym port_write = "nat \<times> u8"
type_synonym port_reader = "port_write list \<Rightarrow> nat \<Rightarrow> u8"

definition NR_IRQS :: nat where "NR_IRQS = 16"
definition FIRST_EXTERNAL_VECTOR :: nat where "FIRST_EXTERNAL_VECTOR = 0x20"
definition NR_VECTORS :: nat where "NR_VECTORS = 256"
definition IRQ0_VECTOR :: u32 where "IRQ0_VECTOR = (0x20 + 16) AND NOT 15"
definition IRQ8_VECTOR :: u32 where "IRQ8_VECTOR = IRQ0_VECTOR + 8"

definition PIC_MASTER_CMD :: nat where "PIC_MASTER_CMD = 0x20"
definition PIC_MASTER_IMR :: nat where "PIC_MASTER_IMR = 0x21"
definition PIC_SLAVE_CMD :: nat where "PIC_SLAVE_CMD = 0xa0"
definition PIC_SLAVE_IMR :: nat where "PIC_SLAVE_IMR = 0xa1"
definition PIC_CASCADE_IR :: nat where "PIC_CASCADE_IR = 2"
definition MASTER_ICW4_DEFAULT :: u8 where "MASTER_ICW4_DEFAULT = 0x01"
definition SLAVE_ICW4_DEFAULT :: u8 where "SLAVE_ICW4_DEFAULT = 0x01"
definition PIC_ICW4_AEOI :: u8 where "PIC_ICW4_AEOI = 2"

lemmas pic_consts = NR_IRQS_def FIRST_EXTERNAL_VECTOR_def NR_VECTORS_def IRQ0_VECTOR_def IRQ8_VECTOR_def PIC_MASTER_CMD_def
  PIC_MASTER_IMR_def PIC_SLAVE_CMD_def PIC_SLAVE_IMR_def PIC_CASCADE_IR_def MASTER_ICW4_DEFAULT_def SLAVE_ICW4_DEFAULT_def
  PIC_ICW4_AEOI_def

record pic =
  cached_irq_mask :: u32
  io_apic_irqs :: ulong
  i8259A_auto_eoi :: bool
  spurious_irq_mask :: u32
  irq_err_count :: u32
  pic_out :: "port_write list"

definition init_pic :: pic where
  "init_pic = \<lparr>cached_irq_mask = 0xffff, io_apic_irqs = 0, i8259A_auto_eoi = False, spurious_irq_mask = 0, irq_err_count = 0, pic_out = []\<rparr>"

definition outb :: "u8 \<Rightarrow> nat \<Rightarrow> pic \<Rightarrow> pic" where
  "outb v port s = s\<lparr>pic_out := pic_out s @ [(port, v)]\<rparr>"

definition cached_master_mask :: "pic \<Rightarrow> u8" where
  "cached_master_mask s = ucast (cached_irq_mask s)"

definition cached_slave_mask :: "pic \<Rightarrow> u8" where
  "cached_slave_mask s = ucast (drop_bit 8 (cached_irq_mask s))"

section \<open>Operations\<close>

definition mask_8259A_irq :: "nat \<Rightarrow> pic \<Rightarrow> pic" where
  "mask_8259A_irq irq s =
     (let mask = push_bit irq 1;
          s = s\<lparr>cached_irq_mask := cached_irq_mask s OR mask\<rparr>
      in if irq AND 8 \<noteq> 0 then outb (cached_slave_mask s) PIC_SLAVE_IMR s
         else outb (cached_master_mask s) PIC_MASTER_IMR s)"

definition disable_8259A_irq :: "nat \<Rightarrow> pic \<Rightarrow> pic" where
  "disable_8259A_irq irq s = mask_8259A_irq irq s"

definition unmask_8259A_irq :: "nat \<Rightarrow> pic \<Rightarrow> pic" where
  "unmask_8259A_irq irq s =
     (let mask = NOT (push_bit irq 1);
          s = s\<lparr>cached_irq_mask := cached_irq_mask s AND mask\<rparr>
      in if irq AND 8 \<noteq> 0 then outb (cached_slave_mask s) PIC_SLAVE_IMR s
         else outb (cached_master_mask s) PIC_MASTER_IMR s)"

definition enable_8259A_irq :: "nat \<Rightarrow> pic \<Rightarrow> pic" where
  "enable_8259A_irq irq s = unmask_8259A_irq irq s"

definition i8259A_irq_pending :: "port_reader \<Rightarrow> nat \<Rightarrow> pic \<Rightarrow> u32" where
  "i8259A_irq_pending inb irq s =
     (let mask = push_bit irq 1
      in if irq < 8 then ucast (inb (pic_out s) PIC_MASTER_CMD) AND mask
         else ucast (inb (pic_out s) PIC_SLAVE_CMD) AND drop_bit 8 mask)"

text \<open>For a line of the second controller the whole register is returned.\<close>

definition i8259A_irq_real :: "port_reader \<Rightarrow> nat \<Rightarrow> pic \<Rightarrow> pic \<times> u32" where
  "i8259A_irq_real inb irq s =
     (let irqmask = push_bit irq 1
      in if irq < 8 then
           let s = outb 0x0B PIC_MASTER_CMD s;
               v = ucast (inb (pic_out s) PIC_MASTER_CMD) AND irqmask
           in (outb 0x0A PIC_MASTER_CMD s, v)
         else
           let s = outb 0x0B PIC_SLAVE_CMD s;
               v = ucast (inb (pic_out s) PIC_SLAVE_CMD)
           in (outb 0x0A PIC_SLAVE_CMD s, v))"

text \<open>The code at the label \<^verbatim>\<open>handle_real_irq\<close>. The value that is read from the mask register is
  not used.\<close>

definition handle_real_irq :: "nat \<Rightarrow> pic \<Rightarrow> pic" where
  "handle_real_irq irq s =
     (if irq AND 8 \<noteq> 0 then
        let s = outb (cached_slave_mask s) PIC_SLAVE_IMR s;
            s = outb (0x60 + word_of_nat (irq AND 7)) PIC_SLAVE_CMD s
        in outb (0x60 + word_of_nat PIC_CASCADE_IR) PIC_MASTER_CMD s
      else
        let s = outb (cached_master_mask s) PIC_MASTER_IMR s
        in outb (0x60 + word_of_nat irq) PIC_MASTER_CMD s)"

definition mask_and_ack_8259A :: "port_reader \<Rightarrow> nat \<Rightarrow> pic \<Rightarrow> pic" where
  "mask_and_ack_8259A inb irq s =
     (let irqmask = push_bit irq 1
      in if cached_irq_mask s AND irqmask \<noteq> 0 then
           (let (s, real) = i8259A_irq_real inb irq s
            in if real \<noteq> 0 then handle_real_irq irq s
               else
                 let s = (if spurious_irq_mask s AND irqmask = 0
                          then s\<lparr>spurious_irq_mask := spurious_irq_mask s OR irqmask\<rparr> else s);
                     s = s\<lparr>irq_err_count := irq_err_count s + 1\<rparr>
                 in handle_real_irq irq s)
         else handle_real_irq irq (s\<lparr>cached_irq_mask := cached_irq_mask s OR irqmask\<rparr>))"

definition i8259A_shutdown :: "pic \<Rightarrow> pic" where
  "i8259A_shutdown s = outb 0xff PIC_SLAVE_IMR (outb 0xff PIC_MASTER_IMR s)"

definition mask_8259A :: "pic \<Rightarrow> pic" where
  "mask_8259A s = outb 0xff PIC_SLAVE_IMR (outb 0xff PIC_MASTER_IMR s)"

definition unmask_8259A :: "pic \<Rightarrow> pic" where
  "unmask_8259A s =
     (let s = outb (cached_master_mask s) PIC_MASTER_IMR s in outb (cached_slave_mask s) PIC_SLAVE_IMR s)"

text \<open>The inline assembly, with the ports and values it names.\<close>

definition init_8259AB :: "pic \<Rightarrow> pic" where
  "init_8259AB s =
     fold (\<lambda>(v, p). outb v p)
       [(0x11, 0x20), (0x30, 0x21), (0x4, 0x21), (0x1, 0x21),
        (0x11, 0xa0), (0x38, 0xa1), (0x2, 0xa1), (0x1, 0xa1),
        (0xfe, 0x21), (0xff, 0xa1)] s"

text \<open>\<^verbatim>\<open>outb_pic\<close> differs from \<^verbatim>\<open>outb\<close> by a delay.\<close>

definition init_8259A :: "bool \<Rightarrow> pic \<Rightarrow> pic" where
  "init_8259A auto_eoi s =
     (let s = s\<lparr>i8259A_auto_eoi := auto_eoi\<rparr>;
          s = outb 0xff PIC_MASTER_IMR s;
          s = outb 0xff PIC_SLAVE_IMR s;
          s = outb 0x11 PIC_MASTER_CMD s;
          s = outb (ucast IRQ0_VECTOR) PIC_MASTER_IMR s;
          s = outb (push_bit PIC_CASCADE_IR 1) PIC_MASTER_IMR s;
          s = (if auto_eoi then outb (MASTER_ICW4_DEFAULT OR PIC_ICW4_AEOI) PIC_MASTER_IMR s
               else outb MASTER_ICW4_DEFAULT PIC_MASTER_IMR s);
          s = outb 0x11 PIC_SLAVE_CMD s;
          s = outb (ucast IRQ8_VECTOR) PIC_SLAVE_IMR s;
          s = outb (word_of_nat PIC_CASCADE_IR) PIC_SLAVE_IMR s;
          s = outb SLAVE_ICW4_DEFAULT PIC_SLAVE_IMR s;
          s = outb (cached_master_mask s) PIC_MASTER_IMR s
      in outb (cached_slave_mask s) PIC_SLAVE_IMR s)"

section \<open>The controllers\<close>

text \<open>One 8259A controller. \<open>phase\<close> 0 is normal operation; 1, 2 and 3 wait for the second, third
  and fourth initialisation word. Specific end-of-interrupt commands clear a bit of the in-service
  register.\<close>

record pic_regs =
  imr :: u8
  isr :: u8
  icw1 :: u8
  icw2 :: u8
  icw3 :: u8
  icw4 :: u8
  phase :: nat

definition cmd_write :: "u8 \<Rightarrow> pic_regs \<Rightarrow> pic_regs" where
  "cmd_write v d =
     (if bit v 4 then d\<lparr>icw1 := v, imr := 0, isr := 0, phase := 1\<rparr>
      else if drop_bit 3 v = 0xC then d\<lparr>isr := unset_bit (unat (v AND 7)) (isr d)\<rparr>
      else d)"

definition data_write :: "u8 \<Rightarrow> pic_regs \<Rightarrow> pic_regs" where
  "data_write v d =
     (let last_phase = (if bit (icw1 d) 0 then 3 else 0)
      in if phase d = 0 then d\<lparr>imr := v\<rparr>
         else if phase d = 1 then d\<lparr>icw2 := v, phase := (if bit (icw1 d) 1 then last_phase else 2)\<rparr>
         else if phase d = 2 then d\<lparr>icw3 := v, phase := last_phase\<rparr>
         else d\<lparr>icw4 := v, phase := 0\<rparr>)"

type_synonym pics = "pic_regs \<times> pic_regs"

definition dev_write :: "port_write \<Rightarrow> pics \<Rightarrow> pics" where
  "dev_write w d = (case w of (p, v) \<Rightarrow>
     if p = 0x20 then (cmd_write v (fst d), snd d) else if p = 0x21 then (data_write v (fst d), snd d)
     else if p = 0xa0 then (fst d, cmd_write v (snd d)) else if p = 0xa1 then (fst d, data_write v (snd d)) else d)"

definition devices :: "pics \<Rightarrow> pic \<Rightarrow> pics" where
  "devices d0 s = fold dev_write (pic_out s) d0"

text \<open>The mask registers hold what the driver believes.\<close>

definition pic_sync :: "pics \<Rightarrow> pic \<Rightarrow> bool" where
  "pic_sync d0 s \<longleftrightarrow> (case devices d0 s of (m, l) \<Rightarrow> phase m = 0 \<and> phase l = 0
     \<and> imr m = cached_master_mask s \<and> imr l = cached_slave_mask s)"

definition line_masked :: "pics \<Rightarrow> nat \<Rightarrow> bool" where
  "line_masked d irq = (if irq < 8 then bit (imr (fst d)) irq else bit (imr (snd d)) (irq - 8))"

definition in_service :: "pics \<Rightarrow> nat \<Rightarrow> bool" where
  "in_service d irq = (if irq < 8 then bit (isr (fst d)) irq else bit (isr (snd d)) (irq - 8))"

lemma devices_outb: "devices d0 (outb v p s) = dev_write (p, v) (devices d0 s)"
  by (simp add: devices_def outb_def)

lemma outb_fields [simp]: "cached_irq_mask (outb v p s) = cached_irq_mask s" "spurious_irq_mask (outb v p s) = spurious_irq_mask s"
  "irq_err_count (outb v p s) = irq_err_count s" "cached_master_mask (outb v p s) = cached_master_mask s"
  "cached_slave_mask (outb v p s) = cached_slave_mask s" "io_apic_irqs (outb v p s) = io_apic_irqs s"
  "i8259A_auto_eoi (outb v p s) = i8259A_auto_eoi s"
  by (simp_all add: outb_def cached_master_mask_def cached_slave_mask_def)

lemma devices_fields [simp]: "devices d0 (s\<lparr>cached_irq_mask := a\<rparr>) = devices d0 s" "devices d0 (s\<lparr>spurious_irq_mask := a\<rparr>) = devices d0 s"
  "devices d0 (s\<lparr>irq_err_count := a\<rparr>) = devices d0 s" "devices d0 (s\<lparr>i8259A_auto_eoi := b\<rparr>) = devices d0 s"
  "devices d0 (s\<lparr>io_apic_irqs := c\<rparr>) = devices d0 s"
  by (simp_all add: devices_def)

lemma irq_and_8: "irq < 16 \<Longrightarrow> irq AND 8 \<noteq> 0 \<longleftrightarrow> 8 \<le> (irq :: nat)"
proof -
  assume "irq < 16"
  then have "irq \<in> {0,1,2,3,4,5,6,7,8,9,10,11,12,13,14,15}" unfolding insert_iff empty_iff by presburger
  then show ?thesis by auto
qed

lemma mask_bits: "irq < 8 \<Longrightarrow> bit (cached_master_mask s) irq = bit (cached_irq_mask s) irq"
  "8 \<le> irq \<Longrightarrow> irq < 16 \<Longrightarrow> bit (cached_slave_mask s) (irq - 8) = bit (cached_irq_mask s) irq"
  by (auto simp: cached_master_mask_def cached_slave_mask_def bit_ucast_iff bit_drop_bit_eq)

lemma sync_line: "pic_sync d0 s \<Longrightarrow> irq < 16 \<Longrightarrow> line_masked (devices d0 s) irq = bit (cached_irq_mask s) irq"
  using mask_bits [where s = s and irq = irq] by (auto simp: pic_sync_def line_masked_def split: prod.splits)



section \<open>Keeping the mask registers\<close>

lemma set_mask: "x OR push_bit n 1 = set_bit n (x :: 'a::len word)" "x AND NOT (push_bit n 1) = unset_bit n x"
  by (simp_all add: set_bit_eq_or unset_bit_eq_and_not)

lemma test_mask: "n < LENGTH('a) \<Longrightarrow> (x :: 'a::len word) AND push_bit n 1 \<noteq> 0 \<longleftrightarrow> bit x n"
  by (simp add: bit_iff_and_push_bit_not_eq_0)

lemma master_other: "8 \<le> n \<Longrightarrow> (ucast (set_bit n x :: u32) :: u8) = ucast x" "8 \<le> n \<Longrightarrow> (ucast (unset_bit n x :: u32) :: u8) = ucast x"
  by (auto intro!: bit_word_eqI simp: bit_ucast_iff bit_set_bit_iff bit_unset_bit_iff)

lemma slave_other: "n < 8 \<Longrightarrow> (ucast (drop_bit 8 (set_bit n x :: u32)) :: u8) = ucast (drop_bit 8 x)"
  "n < 8 \<Longrightarrow> (ucast (drop_bit 8 (unset_bit n x :: u32)) :: u8) = ucast (drop_bit 8 x)"
  by (auto intro!: bit_word_eqI simp: bit_ucast_iff bit_drop_bit_eq bit_set_bit_iff bit_unset_bit_iff)

lemma dev_write_ports [simp]:
  "dev_write (PIC_MASTER_CMD, v) (m, l) = (cmd_write v m, l)" "dev_write (PIC_MASTER_IMR, v) (m, l) = (data_write v m, l)"
  "dev_write (PIC_SLAVE_CMD, v) (m, l) = (m, cmd_write v l)" "dev_write (PIC_SLAVE_IMR, v) (m, l) = (m, data_write v l)"
  by (simp_all add: dev_write_def pic_consts)

lemma data_write_op [simp]: "phase d = 0 \<Longrightarrow> data_write v d = d\<lparr>imr := v\<rparr>"
  by (simp add: data_write_def)

text \<open>A change of one bit of the cached mask and the write of its byte.\<close>

lemma sync_write:
  assumes s: "pic_sync d0 s" and irq: "irq < 16" and x: "x = set_bit irq (cached_irq_mask s) \<or> x = unset_bit irq (cached_irq_mask s)"
  shows "pic_sync d0 (if irq AND 8 \<noteq> 0 then outb (cached_slave_mask (s\<lparr>cached_irq_mask := x\<rparr>)) PIC_SLAVE_IMR (s\<lparr>cached_irq_mask := x\<rparr>)
      else outb (cached_master_mask (s\<lparr>cached_irq_mask := x\<rparr>)) PIC_MASTER_IMR (s\<lparr>cached_irq_mask := x\<rparr>))"
proof -
  obtain m l where d: "devices d0 s = (m, l)" by fastforce
  have k: "phase m = 0" "phase l = 0" "imr m = cached_master_mask s" "imr l = cached_slave_mask s"
    using s d by (simp_all add: pic_sync_def)
  show ?thesis
  proof (cases "8 \<le> irq")
    case True
    then have "cached_master_mask (s\<lparr>cached_irq_mask := x\<rparr>) = cached_master_mask s"
      using x master_other by (auto simp: cached_master_mask_def)
    then show ?thesis using True d k unfolding irq_and_8 [OF irq] by (simp add: pic_sync_def devices_outb)
  next
    case False
    then have "cached_slave_mask (s\<lparr>cached_irq_mask := x\<rparr>) = cached_slave_mask s"
      using x slave_other by (auto simp: cached_slave_mask_def)
    then show ?thesis using False d k unfolding irq_and_8 [OF irq] by (simp add: pic_sync_def devices_outb)
  qed
qed

lemma mask_8259A_irq_sync:
  assumes "pic_sync d0 s" "irq < 16"
  shows "pic_sync d0 (mask_8259A_irq irq s)" "cached_irq_mask (mask_8259A_irq irq s) = set_bit irq (cached_irq_mask s)"
  using sync_write [OF assms, of "set_bit irq (cached_irq_mask s)"] unfolding mask_8259A_irq_def Let_def set_mask by simp_all

lemma unmask_8259A_irq_sync:
  assumes "pic_sync d0 s" "irq < 16"
  shows "pic_sync d0 (unmask_8259A_irq irq s)" "cached_irq_mask (unmask_8259A_irq irq s) = unset_bit irq (cached_irq_mask s)"
  using sync_write [OF assms, of "unset_bit irq (cached_irq_mask s)"] unfolding unmask_8259A_irq_def Let_def set_mask by simp_all

lemma eoi_command: "n < 8 \<Longrightarrow> cmd_write (0x60 + word_of_nat n) d = d\<lparr>isr := unset_bit n (isr d)\<rparr>"
proof -
  assume "n < 8"
  then have "n \<in> {0,1,2,3,4,5,6,7}" unfolding insert_iff empty_iff by presburger
  then show ?thesis by (auto simp: cmd_write_def)
qed

lemma ocw3_command [simp]: "cmd_write 0x0B d = d" "cmd_write 0x0A d = d"
  by (simp_all add: cmd_write_def)

text \<open>The registers after the acknowledgement of a line.\<close>

definition acked :: "nat \<Rightarrow> pics \<Rightarrow> pics" where
  "acked irq d = (if irq < 8 then ((fst d)\<lparr>isr := unset_bit irq (isr (fst d))\<rparr>, snd d)
     else ((fst d)\<lparr>isr := unset_bit 2 (isr (fst d))\<rparr>, (snd d)\<lparr>isr := unset_bit (irq - 8) (isr (snd d))\<rparr>))"

lemma irq_and_7: "8 \<le> irq \<Longrightarrow> irq < 16 \<Longrightarrow> irq AND 7 = irq - (8 :: nat)"
proof -
  assume "8 \<le> irq" "irq < 16"
  then have "irq \<in> {8,9,10,11,12,13,14,15}" unfolding insert_iff empty_iff by presburger
  then show ?thesis by auto
qed

lemma handle_real_irq_effect:
  assumes s: "case devices d0 s of (m, l) \<Rightarrow> phase m = 0 \<and> phase l = 0" and irq: "irq < 16"
  shows "devices d0 (handle_real_irq irq s) =
    (case devices d0 s of (m, l) \<Rightarrow> acked irq (if irq < 8 then (m\<lparr>imr := cached_master_mask s\<rparr>, l) else (m, l\<lparr>imr := cached_slave_mask s\<rparr>)))"
proof -
  obtain m l where d: "devices d0 s = (m, l)" by fastforce
  have k: "phase m = 0" "phase l = 0" using s d by simp_all
  have e: "cmd_write (0x60 + word_of_nat PIC_CASCADE_IR) x = x\<lparr>isr := unset_bit 2 (isr x)\<rparr>" for x
    using eoi_command [of 2 x] by (simp add: PIC_CASCADE_IR_def)
  show ?thesis
  proof (cases "8 \<le> irq")
    case True
    then have "irq - 8 < 8" using irq by simp
    then show ?thesis using True irq k eoi_command [of "irq - 8"]
      unfolding handle_real_irq_def irq_and_8 [OF irq] Let_def by (simp add: devices_outb d e acked_def irq_and_7)
  next
    case False
    then show ?thesis using irq k eoi_command [of irq]
      unfolding handle_real_irq_def irq_and_8 [OF irq] Let_def by (simp add: devices_outb d acked_def)
  qed
qed

lemma handle_real_irq_fields [simp]: "cached_irq_mask (handle_real_irq irq s) = cached_irq_mask s"
  "irq_err_count (handle_real_irq irq s) = irq_err_count s" "spurious_irq_mask (handle_real_irq irq s) = spurious_irq_mask s"
  by (simp_all add: handle_real_irq_def Let_def)

lemma irq_real_effect: "devices d0 (fst (i8259A_irq_real inb irq s)) = devices d0 s"
  "cached_irq_mask (fst (i8259A_irq_real inb irq s)) = cached_irq_mask s" "irq_err_count (fst (i8259A_irq_real inb irq s)) = irq_err_count s"
  "spurious_irq_mask (fst (i8259A_irq_real inb irq s)) = spurious_irq_mask s"
proof -
  obtain m l where d: "devices d0 s = (m, l)" by fastforce
  show "devices d0 (fst (i8259A_irq_real inb irq s)) = devices d0 s" by (simp add: i8259A_irq_real_def Let_def devices_outb d)
qed (simp_all add: i8259A_irq_real_def Let_def)

text \<open>The three ways through \<open>mask_and_ack_8259A\<close> end in the same code, with the bit of the line set
  in the cached mask.\<close>

lemma mask_and_ack_shape:
  assumes irq: "irq < 16"
  obtains s' where "mask_and_ack_8259A inb irq s = handle_real_irq irq s'" "cached_irq_mask s' = set_bit irq (cached_irq_mask s)"
    "devices d0 s' = devices d0 s"
    "irq_err_count s' = irq_err_count s + (if bit (cached_irq_mask s) irq \<and> snd (i8259A_irq_real inb irq s) = 0 then 1 else 0)"
    "spurious_irq_mask s' = (if bit (cached_irq_mask s) irq \<and> snd (i8259A_irq_real inb irq s) = 0 then set_bit irq (spurious_irq_mask s) else spurious_irq_mask s)"
proof -
  have l: "irq < LENGTH(32)" using irq by simp
  obtain s1 r where r: "i8259A_irq_real inb irq s = (s1, r)" by fastforce
  have s1: "devices d0 s1 = devices d0 s" "cached_irq_mask s1 = cached_irq_mask s" "irq_err_count s1 = irq_err_count s"
    "spurious_irq_mask s1 = spurious_irq_mask s"
    using irq_real_effect [where inb = inb and irq = irq and s = s] r by auto
  show thesis
  proof (cases "bit (cached_irq_mask s) irq")
    case True
    have sb: "set_bit irq (cached_irq_mask s) = cached_irq_mask s" using True by (auto intro!: bit_word_eqI simp: bit_set_bit_iff)
    let ?s2 = "if spurious_irq_mask s1 AND push_bit irq 1 = 0 then s1\<lparr>spurious_irq_mask := spurious_irq_mask s1 OR push_bit irq 1\<rparr> else s1"
    have run: "mask_and_ack_8259A inb irq s = handle_real_irq irq (if r \<noteq> 0 then s1 else ?s2\<lparr>irq_err_count := irq_err_count ?s2 + 1\<rparr>)"
      using True unfolding mask_and_ack_8259A_def Let_def test_mask [OF l] r by simp
    have "(if spurious_irq_mask s AND push_bit irq 1 = 0 then set_bit irq (spurious_irq_mask s) else spurious_irq_mask s)
        = set_bit irq (spurious_irq_mask s)"
      using test_mask [OF l, of "spurious_irq_mask s"] by (auto intro!: bit_word_eqI simp: bit_set_bit_iff)
    then have "spurious_irq_mask ?s2 = set_bit irq (spurious_irq_mask s)" using s1(4) by (auto simp: set_bit_eq_or)
    with run show thesis by (intro that [OF run]) (use sb s1 True r in auto)
  next
    case False
    then have "mask_and_ack_8259A inb irq s = handle_real_irq irq (s\<lparr>cached_irq_mask := set_bit irq (cached_irq_mask s)\<rparr>)"
      unfolding mask_and_ack_8259A_def Let_def test_mask [OF l] set_mask by simp
    then show thesis by (rule that) (use False in simp_all)
  qed
qed

lemma mask_and_ack_spec:
  assumes s: "pic_sync d0 s" and irq: "irq < 16"
  shows "pic_sync d0 (mask_and_ack_8259A inb irq s)"
    "cached_irq_mask (mask_and_ack_8259A inb irq s) = set_bit irq (cached_irq_mask s)"
    "\<exists>m l. acked irq (devices d0 s) = (m, l) \<and> devices d0 (mask_and_ack_8259A inb irq s) =
      (m\<lparr>imr := cached_master_mask (mask_and_ack_8259A inb irq s)\<rparr>, l\<lparr>imr := cached_slave_mask (mask_and_ack_8259A inb irq s)\<rparr>)"
    "irq_err_count (mask_and_ack_8259A inb irq s) =
      irq_err_count s + (if bit (cached_irq_mask s) irq \<and> snd (i8259A_irq_real inb irq s) = 0 then 1 else 0)"
    "spurious_irq_mask (mask_and_ack_8259A inb irq s) =
      (if bit (cached_irq_mask s) irq \<and> snd (i8259A_irq_real inb irq s) = 0 then set_bit irq (spurious_irq_mask s) else spurious_irq_mask s)"
proof -
  obtain s' where s': "mask_and_ack_8259A inb irq s = handle_real_irq irq s'" "cached_irq_mask s' = set_bit irq (cached_irq_mask s)"
      "devices d0 s' = devices d0 s"
      "irq_err_count s' = irq_err_count s + (if bit (cached_irq_mask s) irq \<and> snd (i8259A_irq_real inb irq s) = 0 then 1 else 0)"
      "spurious_irq_mask s' = (if bit (cached_irq_mask s) irq \<and> snd (i8259A_irq_real inb irq s) = 0 then set_bit irq (spurious_irq_mask s) else spurious_irq_mask s)"
    using mask_and_ack_shape [OF irq, of inb s d0] by blast
  let ?r = "handle_real_irq irq s'"
  obtain m l where d: "devices d0 s = (m, l)" by fastforce
  have k: "phase m = 0" "phase l = 0" "imr m = cached_master_mask s" "imr l = cached_slave_mask s"
    using s d by (simp_all add: pic_sync_def)
  have mm: "cached_master_mask ?r = cached_master_mask s'" "cached_slave_mask ?r = cached_slave_mask s'"
    by (simp_all add: cached_master_mask_def cached_slave_mask_def)
  have o: "8 \<le> irq \<Longrightarrow> cached_master_mask s' = cached_master_mask s" "irq < 8 \<Longrightarrow> cached_slave_mask s' = cached_slave_mask s"
    using s'(2) master_other slave_other by (simp_all add: cached_master_mask_def cached_slave_mask_def)
  have e: "devices d0 ?r = acked irq (if irq < 8 then (m\<lparr>imr := cached_master_mask s'\<rparr>, l) else (m, l\<lparr>imr := cached_slave_mask s'\<rparr>))"
    using handle_real_irq_effect [of d0 s' irq] s'(3) d k irq by simp
  show "pic_sync d0 (mask_and_ack_8259A inb irq s)"
    unfolding s'(1) pic_sync_def e mm using o k by (auto simp: acked_def)
  show "cached_irq_mask (mask_and_ack_8259A inb irq s) = set_bit irq (cached_irq_mask s)" by (simp add: s')
  show "irq_err_count (mask_and_ack_8259A inb irq s) =
      irq_err_count s + (if bit (cached_irq_mask s) irq \<and> snd (i8259A_irq_real inb irq s) = 0 then 1 else 0)" by (simp add: s')
  show "spurious_irq_mask (mask_and_ack_8259A inb irq s) =
      (if bit (cached_irq_mask s) irq \<and> snd (i8259A_irq_real inb irq s) = 0 then set_bit irq (spurious_irq_mask s) else spurious_irq_mask s)"
    by (simp add: s')
  show "\<exists>m l. acked irq (devices d0 s) = (m, l) \<and> devices d0 (mask_and_ack_8259A inb irq s) =
      (m\<lparr>imr := cached_master_mask (mask_and_ack_8259A inb irq s)\<rparr>, l\<lparr>imr := cached_slave_mask (mask_and_ack_8259A inb irq s)\<rparr>)"
    unfolding s'(1) e mm d using o k by (cases "irq < 8") (simp_all add: acked_def)
qed


section \<open>Properties\<close>

lemma init_8259A_devices:
  "devices d0 (init_8259A auto_eoi s) =
    (\<lparr>imr = cached_master_mask s, isr = 0, icw1 = 0x11, icw2 = 0x30, icw3 = 4, icw4 = (if auto_eoi then 3 else 1), phase = 0\<rparr>,
     \<lparr>imr = cached_slave_mask s, isr = 0, icw1 = 0x11, icw2 = 0x38, icw3 = 2, icw4 = 1, phase = 0\<rparr>)"
proof -
  have c: "cached_master_mask (s\<lparr>i8259A_auto_eoi := b\<rparr>) = cached_master_mask s" "cached_slave_mask (s\<lparr>i8259A_auto_eoi := b\<rparr>) = cached_slave_mask s" for b
    by (simp_all add: cached_master_mask_def cached_slave_mask_def)
  obtain m l where d: "devices d0 s = (m, l)" by fastforce
  have i: "cmd_write 0x11 x = x\<lparr>icw1 := 0x11, imr := 0, isr := 0, phase := 1\<rparr>" for x by (simp add: cmd_write_def)
  have w: "phase x = 1 \<Longrightarrow> icw1 x = 0x11 \<Longrightarrow> data_write v x = x\<lparr>icw2 := v, phase := 2\<rparr>"
    "phase x = 2 \<Longrightarrow> icw1 x = 0x11 \<Longrightarrow> data_write v x = x\<lparr>icw3 := v, phase := 3\<rparr>"
    "phase x = 3 \<Longrightarrow> data_write v x = x\<lparr>icw4 := v, phase := 0\<rparr>" for v x
    by (simp_all add: data_write_def Let_def)
  show ?thesis
    by (cases auto_eoi) (simp_all add: init_8259A_def Let_def devices_outb d c i w IRQ0_VECTOR_def IRQ8_VECTOR_def PIC_CASCADE_IR_def
        MASTER_ICW4_DEFAULT_def SLAVE_ICW4_DEFAULT_def PIC_ICW4_AEOI_def)
qed

text \<open>C37. The initialisation sequence programs both controllers, whatever state they were in: the vectors of
  the lines start at 0x30 and 0x38, the cascade is on line 2, the mask registers hold the cached mask
  and no interrupt is in service.\<close>

theorem init_8259A_correct:
  "devices d0 (init_8259A auto_eoi s) =
    (\<lparr>imr = cached_master_mask s, isr = 0, icw1 = 0x11, icw2 = 0x30, icw3 = 4, icw4 = (if auto_eoi then 3 else 1), phase = 0\<rparr>,
     \<lparr>imr = cached_slave_mask s, isr = 0, icw1 = 0x11, icw2 = 0x38, icw3 = 2, icw4 = 1, phase = 0\<rparr>)"
  by (rule init_8259A_devices)

lemma init_8259A_cached: "cached_irq_mask (init_8259A auto_eoi s) = cached_irq_mask s"
  by (simp add: init_8259A_def Let_def)

lemma init_sync: "pic_sync d0 (init_8259A auto_eoi s)"
  using init_8259A_cached [of auto_eoi s] by (simp add: pic_sync_def init_8259A_devices cached_master_mask_def cached_slave_mask_def)

text \<open>Masking and unmasking a line.\<close>

lemma service_kept:
  assumes "pic_sync d0 s"
  shows "in_service (devices d0 (mask_8259A_irq irq s)) j = in_service (devices d0 s) j"
    "in_service (devices d0 (unmask_8259A_irq irq s)) j = in_service (devices d0 s) j"
proof -
  obtain m l where d: "devices d0 s = (m, l)" by fastforce
  have k: "phase m = 0" "phase l = 0" using assms d by (simp_all add: pic_sync_def)
  show "in_service (devices d0 (mask_8259A_irq irq s)) j = in_service (devices d0 s) j"
    "in_service (devices d0 (unmask_8259A_irq irq s)) j = in_service (devices d0 s) j"
    using k by (simp_all add: mask_8259A_irq_def unmask_8259A_irq_def Let_def devices_outb d in_service_def)
qed

text \<open>Masking and unmasking change the mask bit of the line in its controller and of no other line,
  and leave the interrupts in service alone.\<close>

theorem mask_unmask_correct:
  assumes "pic_sync d0 s" "irq < NR_IRQS" "j < NR_IRQS"
  shows "line_masked (devices d0 (mask_8259A_irq irq s)) j = (j = irq \<or> line_masked (devices d0 s) j)
    \<and> line_masked (devices d0 (unmask_8259A_irq irq s)) j = (j \<noteq> irq \<and> line_masked (devices d0 s) j)
    \<and> in_service (devices d0 (mask_8259A_irq irq s)) j = in_service (devices d0 s) j
    \<and> in_service (devices d0 (unmask_8259A_irq irq s)) j = in_service (devices d0 s) j"
proof -
  have l: "irq < 16" "j < 16" using assms by (simp_all add: NR_IRQS_def)
  note m = mask_8259A_irq_sync [OF assms(1) l(1)] and u = unmask_8259A_irq_sync [OF assms(1) l(1)]
  show ?thesis
    using sync_line [OF assms(1) l(2)] sync_line [OF m(1) l(2)] sync_line [OF u(1) l(2)] m(2) u(2) l service_kept [OF assms(1)]
    by (auto simp: bit_set_bit_iff bit_unset_bit_iff)
qed

theorem mask_unmask_correct_witness:
  "\<forall>d0. line_masked (devices d0 (unmask_8259A_irq 10 (init_8259A False init_pic))) 9"
proof
  fix d0
  have "pic_sync d0 (init_8259A False init_pic)" by (rule init_sync)
  moreover have "line_masked (devices d0 (init_8259A False init_pic)) 9"
    by (simp add: init_8259A_devices line_masked_def init_pic_def cached_slave_mask_def)
  ultimately show "line_masked (devices d0 (unmask_8259A_irq 10 (init_8259A False init_pic))) 9"
    using mask_unmask_correct [of d0 "init_8259A False init_pic" 10 9] by (simp add: NR_IRQS_def)
qed

text \<open>What a controller returns when its command port is read after the command word 0x0B: the in-service
  register, as it is at that time. This is the one property of a port read that the driver relies on.\<close>

definition reads_isr :: "pics \<Rightarrow> port_reader \<Rightarrow> pic \<Rightarrow> bool" where
  "reads_isr d0 inb s \<longleftrightarrow> inb (pic_out s @ [(0x20, 0x0B)]) 0x20 = isr (fst (devices d0 s))
     \<and> inb (pic_out s @ [(0xa0, 0x0B)]) 0xa0 = isr (snd (devices d0 s))"

text \<open>What \<^verbatim>\<open>i8259A_irq_real\<close> takes for an interrupt that is in service: for a line of the first controller
  the line itself, for a line of the second controller any line of that controller.\<close>

lemma irq_real_service:
  assumes "reads_isr d0 inb s" "irq < 16"
  shows "snd (i8259A_irq_real inb irq s) \<noteq> 0 \<longleftrightarrow>
    (if irq < 8 then in_service (devices d0 s) irq else (\<exists>k. 8 \<le> k \<and> k < 16 \<and> in_service (devices d0 s) k))"
proof (cases "irq < 8")
  case True
  have "snd (i8259A_irq_real inb irq s) = ucast (isr (fst (devices d0 s))) AND push_bit irq 1"
    using assms(1) True by (simp add: i8259A_irq_real_def Let_def outb_def reads_isr_def pic_consts)
  moreover have "irq < LENGTH(32)" using True by simp
  ultimately have "snd (i8259A_irq_real inb irq s) \<noteq> 0 \<longleftrightarrow> bit (ucast (isr (fst (devices d0 s))) :: u32) irq"
    using test_mask by metis
  then show ?thesis using True by (simp add: in_service_def bit_ucast_iff)
next
  case False
  let ?r = "isr (snd (devices d0 s))"
  have "snd (i8259A_irq_real inb irq s) = ucast ?r"
    using assms(1) False by (simp add: i8259A_irq_real_def Let_def outb_def reads_isr_def pic_consts)
  moreover have "(ucast ?r :: u32) \<noteq> 0 \<longleftrightarrow> (\<exists>n<8. bit ?r n)"
  proof
    assume "(ucast ?r :: u32) \<noteq> 0"
    then obtain n where "bit (ucast ?r :: u32) n" by (auto simp: bit_eq_iff)
    then have "bit ?r n" by (simp add: bit_ucast_iff)
    then show "\<exists>n<8. bit ?r n" using bit_imp_le_length [of ?r n] by auto
  next
    assume "\<exists>n<8. bit ?r n"
    then obtain n where "n < 8" "bit ?r n" by blast
    then have "bit (ucast ?r :: u32) n" by (simp add: bit_ucast_iff)
    then show "(ucast ?r :: u32) \<noteq> 0" by (metis bit_0_eq bot_apply bot_bool_def)
  qed
  moreover have "(\<exists>n<8. bit ?r n) \<longleftrightarrow> (\<exists>k. 8 \<le> k \<and> k < 16 \<and> bit ?r (k - 8))"
    by (rule iffI; elim exE conjE) (rule_tac x = "n + 8" in exI, simp, rule_tac x = "k - 8" in exI, simp)
  ultimately show ?thesis using False by (auto simp: in_service_def)
qed

text \<open>C14. Acknowledging an interrupt masks its line and ends its service, for a line of the second controller
  also the service of the cascade line. Other lines stay masked or unmasked, and in service, as they
  were. The interrupt counts as spurious, which raises the error count and marks the line, exactly if its line was masked
  and, for a line of the first controller, it is not in service; for a line of the second controller, if no line
  at all of that controller is in service (the code does not select the bit of the line). The hypothesis on port reads is
  that a controller returns its in-service register after the command word 0x0B.\<close>

theorem mask_and_ack_correct:
  assumes "pic_sync d0 s" "irq < NR_IRQS" "j < NR_IRQS" "reads_isr d0 inb s"
  shows "let s' = mask_and_ack_8259A inb irq s;
      spurious = (line_masked (devices d0 s) irq
        \<and> (if irq < 8 then \<not> in_service (devices d0 s) irq else \<forall>k. 8 \<le> k \<and> k < 16 \<longrightarrow> \<not> in_service (devices d0 s) k))
    in pic_sync d0 s'
    \<and> line_masked (devices d0 s') j = (j = irq \<or> line_masked (devices d0 s) j)
    \<and> in_service (devices d0 s') j = (in_service (devices d0 s) j \<and> j \<noteq> irq \<and> (8 \<le> irq \<longrightarrow> j \<noteq> PIC_CASCADE_IR))
    \<and> irq_err_count s' = irq_err_count s + (if spurious then 1 else 0)
    \<and> (bit (spurious_irq_mask s') j \<longleftrightarrow> bit (spurious_irq_mask s) j \<or> j = irq \<and> spurious)"
proof -
  have l: "irq < 16" "j < 16" using assms by (simp_all add: NR_IRQS_def)
  note a = mask_and_ack_spec [OF assms(1) l(1), of inb]
  obtain m m' where d: "devices d0 s = (m, m')" by fastforce
  have "in_service (devices d0 (mask_and_ack_8259A inb irq s)) j = in_service (acked irq (devices d0 s)) j"
    using a(3) by (auto simp: in_service_def)
  also have "\<dots> = (in_service (devices d0 s) j \<and> j \<noteq> irq \<and> (8 \<le> irq \<longrightarrow> j \<noteq> PIC_CASCADE_IR))"
    using l by (auto simp: d in_service_def acked_def bit_unset_bit_iff PIC_CASCADE_IR_def)
  finally have svc: "in_service (devices d0 (mask_and_ack_8259A inb irq s)) j = \<dots>" .
  define spurious where "spurious \<longleftrightarrow> line_masked (devices d0 s) irq
    \<and> (if irq < 8 then \<not> in_service (devices d0 s) irq else \<forall>k. 8 \<le> k \<and> k < 16 \<longrightarrow> \<not> in_service (devices d0 s) k)"
  have sp: "bit (cached_irq_mask s) irq \<and> snd (i8259A_irq_real inb irq s) = 0 \<longleftrightarrow> spurious"
    using irq_real_service [OF assms(4) l(1)] sync_line [OF assms(1) l(1)] unfolding spurious_def by auto
  show ?thesis
    unfolding Let_def spurious_def [symmetric]
    using a(1,2,4,5) svc sync_line [OF assms(1) l(2)] sync_line [OF a(1) l(2)] l unfolding sp by (auto simp: bit_set_bit_iff)
qed

text \<open>A reader that returns the in-service registers. An interrupt on the masked line 10 while nothing is in
  service is spurious.\<close>

definition isr_reader :: "pics \<Rightarrow> port_reader" where
  "isr_reader d0 out port = (if port = 0x20 then isr (fst (fold dev_write out d0)) else isr (snd (fold dev_write out d0)))"

lemma isr_reader_reads: "reads_isr d0 (isr_reader d0) s"
  by (cases "fold dev_write (pic_out s) d0") (simp add: reads_isr_def isr_reader_def devices_def dev_write_def)

theorem mask_and_ack_correct_witness:
  "\<forall>d0. let s' = mask_and_ack_8259A (isr_reader d0) 10 (init_8259A False init_pic) in
     line_masked (devices d0 s') 10 \<and> irq_err_count s' = 1 \<and> bit (spurious_irq_mask s') 10"
proof
  fix d0
  let ?s = "init_8259A False init_pic"
  have "line_masked (devices d0 ?s) 10" "\<not> in_service (devices d0 ?s) k" for k
    by (simp_all add: init_8259A_devices line_masked_def in_service_def init_pic_def cached_slave_mask_def)
  moreover have "irq_err_count ?s = 0" by (simp add: init_8259A_def init_pic_def Let_def)
  ultimately show "let s' = mask_and_ack_8259A (isr_reader d0) 10 ?s in
     line_masked (devices d0 s') 10 \<and> irq_err_count s' = 1 \<and> bit (spurious_irq_mask s') 10"
    using mask_and_ack_correct [of d0 ?s 10 10 "isr_reader d0"] init_sync [of d0 False init_pic] isr_reader_reads
    by (simp add: NR_IRQS_def Let_def)
qed

text \<open>For a line of the second controller \<^verbatim>\<open>i8259A_irq_real\<close> does not select the bit of the line, so that
  an interrupt in service on another line hides a spurious one.\<close>

lemma spurious_hidden: "snd (i8259A_irq_real (\<lambda>_ _. 0x01) 15 init_pic) \<noteq> 0"
  by (simp add: i8259A_irq_real_def Let_def)

end
