(* ===== verification/Irq_Core.thy ===== *)
theory Irq_Core
  imports I8259 "HOL-Library.Monad_Syntax"
begin

text \<open>
  The interrupt core: descriptors, chips and flow handlers (\<^verbatim>\<open>kernel/irq/*.c\<close>), the set-up of the
  legacy interrupts (\<^verbatim>\<open>kernel/irqinit.c\<close>), the entry from the processor (\<^verbatim>\<open>kernel/irq.c\<close>) and the
  preemption counter (\<^verbatim>\<open>kernel/softirq.c\<close>). The chain of actions of a descriptor is a list. A
  function that the code calls through a pointer may be missing: the call of a null pointer is
  \<open>None\<close>. The result of the handler of a device driver is a parameter \<open>drv\<close>; it does not act on the
  descriptors. The handlers that are called are recorded by \<open>percpu_loop\<close> in the order of the calls. The
  switch to the interrupt stack (\<^verbatim>\<open>execute_on_irq_stack\<close>) is assembly code and left out. Locks are not part of the state, there is one processor.
\<close>

section \<open>Constants\<close>

definition IRQ_NONE :: u32 where "IRQ_NONE = 0"
definition IRQ_HANDLED :: u32 where "IRQ_HANDLED = 1"
definition IRQ_WAKE_THREAD :: u32 where "IRQ_WAKE_THREAD = 2"

definition IRQ_TYPE_LEVEL_MASK :: u32 where "IRQ_TYPE_LEVEL_MASK = 0x0C"
definition IRQ_TYPE_SENSE_MASK :: u32 where "IRQ_TYPE_SENSE_MASK = 0x0F"
definition IRQ_LEVEL :: u32 where "IRQ_LEVEL = push_bit 8 1"
definition IRQ_PER_CPU :: u32 where "IRQ_PER_CPU = push_bit 9 1"
definition IRQ_NOPROBE :: u32 where "IRQ_NOPROBE = push_bit 10 1"
definition IRQ_NOREQUEST :: u32 where "IRQ_NOREQUEST = push_bit 11 1"
definition IRQ_NOAUTOEN :: u32 where "IRQ_NOAUTOEN = push_bit 12 1"
definition IRQ_NO_BALANCING :: u32 where "IRQ_NO_BALANCING = push_bit 13 1"
definition IRQ_MOVE_PCNTXT :: u32 where "IRQ_MOVE_PCNTXT = push_bit 14 1"
definition IRQ_NESTED_THREAD :: u32 where "IRQ_NESTED_THREAD = push_bit 15 1"
definition IRQ_NOTHREAD :: u32 where "IRQ_NOTHREAD = push_bit 16 1"

definition IRQF_MODIFY_MASK :: u32 where
  "IRQF_MODIFY_MASK = IRQ_TYPE_SENSE_MASK OR IRQ_NOPROBE OR IRQ_NOREQUEST OR IRQ_NOAUTOEN OR IRQ_MOVE_PCNTXT OR IRQ_LEVEL
     OR IRQ_NO_BALANCING OR IRQ_PER_CPU OR IRQ_NESTED_THREAD"

definition IRQD_TRIGGER_MASK :: u32 where "IRQD_TRIGGER_MASK = 0xF"
definition IRQD_NO_BALANCING :: u32 where "IRQD_NO_BALANCING = push_bit 10 1"
definition IRQD_PER_CPU :: u32 where "IRQD_PER_CPU = push_bit 11 1"
definition IRQD_LEVEL :: u32 where "IRQD_LEVEL = push_bit 13 1"
definition IRQD_IRQ_DISABLED :: u32 where "IRQD_IRQ_DISABLED = push_bit 16 1"
definition IRQD_IRQ_MASKED :: u32 where "IRQD_IRQ_MASKED = push_bit 17 1"
definition IRQD_IRQ_INPROGRESS :: u32 where "IRQD_IRQ_INPROGRESS = push_bit 18 1"

definition IRQS_AUTODETECT :: u32 where "IRQS_AUTODETECT = 0x001"
definition IRQS_SPURIOUS_DISABLED :: u32 where "IRQS_SPURIOUS_DISABLED = 0x002"
definition IRQS_POLL_INPROGRESS :: u32 where "IRQS_POLL_INPROGRESS = 0x008"
definition IRQS_ONESHOT :: u32 where "IRQS_ONESHOT = 0x020"
definition IRQS_REPLAY :: u32 where "IRQS_REPLAY = 0x040"
definition IRQS_WAITING :: u32 where "IRQS_WAITING = 0x080"
definition IRQS_PENDING :: u32 where "IRQS_PENDING = 0x200"
definition IRQS_SUSPENDED :: u32 where "IRQS_SUSPENDED = 0x800"

definition IRQF_TRIGGER_MASK :: ulong where "IRQF_TRIGGER_MASK = 0x0F"
definition IRQF_DISABLED :: ulong where "IRQF_DISABLED = 0x20"
definition IRQF_SHARED :: ulong where "IRQF_SHARED = 0x80"
definition IRQF_PERCPU :: ulong where "IRQF_PERCPU = 0x400"
definition IRQF_NOBALANCING :: ulong where "IRQF_NOBALANCING = 0x800"
definition IRQF_IRQPOLL :: ulong where "IRQF_IRQPOLL = 0x1000"
definition IRQF_ONESHOT :: ulong where "IRQF_ONESHOT = 0x2000"
definition IRQF_NO_SUSPEND :: ulong where "IRQF_NO_SUSPEND = 0x4000"
definition IRQF_FORCE_RESUME :: ulong where "IRQF_FORCE_RESUME = 0x8000"
definition IRQF_NO_THREAD :: ulong where "IRQF_NO_THREAD = 0x10000"
definition IRQF_TIMER :: ulong where "IRQF_TIMER = 0x200 OR IRQF_NO_SUSPEND OR IRQF_NO_THREAD"

definition IRQTF_RUNTHREAD :: nat where "IRQTF_RUNTHREAD = 0"
definition IRQTF_DIED :: nat where "IRQTF_DIED = 1"
definition IRQTF_WARNED :: nat where "IRQTF_WARNED = 2"
definition IRQTF_FORCED_THREAD :: nat where "IRQTF_FORCED_THREAD = 4"

definition IRQCHIP_SET_TYPE_MASKED :: ulong where "IRQCHIP_SET_TYPE_MASKED = push_bit 0 1"
definition EBUSY :: int where "EBUSY = 16"
definition EINVAL :: int where "EINVAL = 22"
definition ENOSYS :: int where "ENOSYS = 38"
definition force_irqthreads :: bool where "force_irqthreads = False"

lemmas irq_flags = IRQ_TYPE_LEVEL_MASK_def IRQ_TYPE_SENSE_MASK_def IRQ_LEVEL_def IRQ_PER_CPU_def IRQ_NOPROBE_def IRQ_NOREQUEST_def
  IRQ_NOAUTOEN_def IRQ_NO_BALANCING_def IRQ_MOVE_PCNTXT_def IRQ_NESTED_THREAD_def IRQ_NOTHREAD_def IRQF_MODIFY_MASK_def
lemmas irqd_flags = IRQD_TRIGGER_MASK_def IRQD_NO_BALANCING_def IRQD_PER_CPU_def IRQD_LEVEL_def IRQD_IRQ_DISABLED_def
  IRQD_IRQ_MASKED_def IRQD_IRQ_INPROGRESS_def
lemmas irqs_flags = IRQS_AUTODETECT_def IRQS_SPURIOUS_DISABLED_def IRQS_POLL_INPROGRESS_def IRQS_ONESHOT_def IRQS_REPLAY_def
  IRQS_WAITING_def IRQS_PENDING_def IRQS_SUSPENDED_def
lemmas irqf_flags = IRQF_TRIGGER_MASK_def IRQF_DISABLED_def IRQF_SHARED_def IRQF_PERCPU_def IRQF_NOBALANCING_def IRQF_IRQPOLL_def
  IRQF_ONESHOT_def IRQF_NO_SUSPEND_def IRQF_FORCE_RESUME_def IRQF_NO_THREAD_def IRQF_TIMER_def

section \<open>State\<close>

text \<open>The handlers of the kernel, and those of drivers.\<close>

datatype irq_handler_t = No_action | Timer_interrupt | Irq_default_primary_handler | Irq_nested_primary_handler | Driver nat

record irqaction =
  handler :: irq_handler_t
  act_flags :: ulong
  act_irq :: nat
  thread_fn :: "irq_handler_t option"
  thread_flags :: ulong
  thread_mask :: ulong
  act_name :: string

datatype irq_chip_ref = Null_chip | No_irq_chip | I8259A_chip
datatype irq_flow_handler_t = Handle_bad_irq | Handle_level_irq

text \<open>The functions of a chip only read the number of the line from \<^verbatim>\<open>struct irq_data\<close>.\<close>

record irq_chip =
  chip_startup :: "(nat \<Rightarrow> pic \<Rightarrow> pic \<times> int) option"
  chip_enable :: "(nat \<Rightarrow> pic \<Rightarrow> pic) option"
  chip_disable :: "(nat \<Rightarrow> pic \<Rightarrow> pic) option"
  chip_ack :: "(nat \<Rightarrow> pic \<Rightarrow> pic) option"
  chip_mask :: "(nat \<Rightarrow> pic \<Rightarrow> pic) option"
  chip_mask_ack :: "(nat \<Rightarrow> pic \<Rightarrow> pic) option"
  chip_unmask :: "(nat \<Rightarrow> pic \<Rightarrow> pic) option"
  chip_retrigger :: "(nat \<Rightarrow> pic \<Rightarrow> pic \<times> int) option"
  chip_set_type :: "(nat \<Rightarrow> ulong \<Rightarrow> pic \<Rightarrow> pic \<times> int) option"
  chip_flags :: ulong

record irq_desc =
  d_irq :: nat
  d_state :: u32
  d_chip :: irq_chip_ref
  handle_irq_fn :: irq_flow_handler_t
  action :: "irqaction list"
  status :: u32
  istate :: u32
  depth :: u32
  irq_count :: u32
  irqs_unhandled :: u32
  threads_oneshot :: ulong
  desc_name :: "string option"

text \<open>The machine: the interrupt controllers, the descriptors, the calls of handlers so far, the
  map from vectors to lines and the preemption counter of the running thread.\<close>

record irq_machine =
  hw :: pic
  irq_desc_tab :: "nat \<Rightarrow> irq_desc"
  calls :: "(nat \<times> irq_handler_t) list"
  vector_irq :: "nat \<Rightarrow> int"
  preempt_count :: u32

section \<open>Chips\<close>

definition ack_bad :: "nat \<Rightarrow> pic \<Rightarrow> pic" where "ack_bad irq p = p"

definition noop_ret :: "nat \<Rightarrow> pic \<Rightarrow> pic \<times> int" where "noop_ret irq p = (p, 0)"

definition noop :: "nat \<Rightarrow> pic \<Rightarrow> pic" where "noop irq p = p"

definition no_irq_chip :: irq_chip where
  "no_irq_chip = \<lparr>chip_startup = Some noop_ret, chip_enable = Some noop, chip_disable = Some noop, chip_ack = Some ack_bad,
     chip_mask = None, chip_mask_ack = None, chip_unmask = None, chip_retrigger = None, chip_set_type = None, chip_flags = 0\<rparr>"

text \<open>\<^verbatim>\<open>init_8259A\<close> replaces \<^verbatim>\<open>irq_mask_ack\<close> of the chip.\<close>

definition i8259A_chip :: "port_reader \<Rightarrow> bool \<Rightarrow> irq_chip" where
  "i8259A_chip inb auto_eoi = \<lparr>chip_startup = None, chip_enable = None, chip_disable = Some disable_8259A_irq, chip_ack = None,
     chip_mask = Some disable_8259A_irq, chip_mask_ack = Some (if auto_eoi then disable_8259A_irq else mask_and_ack_8259A inb),
     chip_unmask = Some enable_8259A_irq, chip_retrigger = None, chip_set_type = None, chip_flags = 0\<rparr>"

definition chip_of :: "port_reader \<Rightarrow> pic \<Rightarrow> irq_chip_ref \<Rightarrow> irq_chip option" where
  "chip_of inb p c = (case c of Null_chip \<Rightarrow> None | No_irq_chip \<Rightarrow> Some no_irq_chip | I8259A_chip \<Rightarrow> Some (i8259A_chip inb (i8259A_auto_eoi p)))"

section \<open>State and settings of a descriptor\<close>

definition irqd_clear :: "irq_desc \<Rightarrow> u32 \<Rightarrow> irq_desc" where
  "irqd_clear d msk = d\<lparr>d_state := d_state d AND NOT msk\<rparr>"

definition irqd_set :: "irq_desc \<Rightarrow> u32 \<Rightarrow> irq_desc" where
  "irqd_set d msk = d\<lparr>d_state := d_state d OR msk\<rparr>"

definition irqd_get_trigger_type :: "irq_desc \<Rightarrow> u32" where "irqd_get_trigger_type d = d_state d AND IRQD_TRIGGER_MASK"
definition irqd_irq_disabled :: "irq_desc \<Rightarrow> bool" where "irqd_irq_disabled d \<longleftrightarrow> d_state d AND IRQD_IRQ_DISABLED \<noteq> 0"
definition irqd_irq_masked :: "irq_desc \<Rightarrow> bool" where "irqd_irq_masked d \<longleftrightarrow> d_state d AND IRQD_IRQ_MASKED \<noteq> 0"
definition irqd_irq_inprogress :: "irq_desc \<Rightarrow> bool" where "irqd_irq_inprogress d \<longleftrightarrow> d_state d AND IRQD_IRQ_INPROGRESS \<noteq> 0"

definition irq_settings_clr_and_set :: "irq_desc \<Rightarrow> u32 \<Rightarrow> u32 \<Rightarrow> irq_desc" where
  "irq_settings_clr_and_set d clr st =
     d\<lparr>status := (status d AND NOT (clr AND IRQF_MODIFY_MASK)) OR (st AND IRQF_MODIFY_MASK)\<rparr>"

definition irq_settings_set_per_cpu :: "irq_desc \<Rightarrow> irq_desc" where
  "irq_settings_set_per_cpu d = d\<lparr>status := status d OR IRQ_PER_CPU\<rparr>"
definition irq_settings_set_no_balancing :: "irq_desc \<Rightarrow> irq_desc" where
  "irq_settings_set_no_balancing d = d\<lparr>status := status d OR IRQ_NO_BALANCING\<rparr>"
definition irq_settings_set_trigger_mask :: "irq_desc \<Rightarrow> u32 \<Rightarrow> irq_desc" where
  "irq_settings_set_trigger_mask d msk = d\<lparr>status := (status d AND NOT IRQ_TYPE_SENSE_MASK) OR (msk AND IRQ_TYPE_SENSE_MASK)\<rparr>"
definition irq_settings_is_level :: "irq_desc \<Rightarrow> bool" where
  "irq_settings_is_level d \<longleftrightarrow> status d AND IRQ_LEVEL \<noteq> 0"
definition irq_settings_clr_level :: "irq_desc \<Rightarrow> irq_desc" where
  "irq_settings_clr_level d = d\<lparr>status := status d AND NOT IRQ_LEVEL\<rparr>"
definition irq_settings_set_level :: "irq_desc \<Rightarrow> irq_desc" where
  "irq_settings_set_level d = d\<lparr>status := status d OR IRQ_LEVEL\<rparr>"
definition irq_settings_set_norequest :: "irq_desc \<Rightarrow> irq_desc" where
  "irq_settings_set_norequest d = d\<lparr>status := status d OR IRQ_NOREQUEST\<rparr>"
definition irq_settings_can_thread :: "irq_desc \<Rightarrow> bool" where
  "irq_settings_can_thread d \<longleftrightarrow> \<not> status d AND IRQ_NOTHREAD \<noteq> 0"
definition irq_settings_set_nothread :: "irq_desc \<Rightarrow> irq_desc" where
  "irq_settings_set_nothread d = d\<lparr>status := status d OR IRQ_NOTHREAD\<rparr>"
definition irq_settings_set_noprobe :: "irq_desc \<Rightarrow> irq_desc" where
  "irq_settings_set_noprobe d = d\<lparr>status := status d OR IRQ_NOPROBE\<rparr>"
definition irq_settings_can_autoenable :: "irq_desc \<Rightarrow> bool" where
  "irq_settings_can_autoenable d \<longleftrightarrow> \<not> status d AND IRQ_NOAUTOEN \<noteq> 0"
definition irq_settings_is_nested_thread :: "irq_desc \<Rightarrow> bool" where
  "irq_settings_is_nested_thread d \<longleftrightarrow> status d AND IRQ_NESTED_THREAD \<noteq> 0"

definition irq_state_clr_disabled :: "irq_desc \<Rightarrow> irq_desc" where
  "irq_state_clr_disabled d = irqd_clear d IRQD_IRQ_DISABLED"
definition irq_state_set_disabled :: "irq_desc \<Rightarrow> irq_desc" where
  "irq_state_set_disabled d = irqd_set d IRQD_IRQ_DISABLED"

text \<open>This sets the bit it should clear.\<close>

definition irq_state_clr_masked :: "irq_desc \<Rightarrow> irq_desc" where
  "irq_state_clr_masked d = irqd_set d IRQD_IRQ_MASKED"
definition irq_state_set_masked :: "irq_desc \<Rightarrow> irq_desc" where
  "irq_state_set_masked d = irqd_set d IRQD_IRQ_MASKED"


section \<open>Masking and enabling a line\<close>

type_synonym line = "irq_desc \<times> pic"

text \<open>\<^verbatim>\<open>irq_wait_for_poll\<close> returns false on a machine with one processor.\<close>

definition irq_wait_for_poll :: "irq_desc \<Rightarrow> bool" where
  "irq_wait_for_poll d = False"

definition irq_check_poll :: "irq_desc \<Rightarrow> bool" where
  "irq_check_poll d = (if \<not> istate d AND IRQS_POLL_INPROGRESS \<noteq> 0 then False else irq_wait_for_poll d)"

definition mask_ack_irq :: "port_reader \<Rightarrow> line \<Rightarrow> line option" where
  "mask_ack_irq inb l = (case l of (d, p) \<Rightarrow> do {
     c \<leftarrow> chip_of inb p (d_chip d);
     p \<leftarrow> (case chip_mask_ack c of
        Some f \<Rightarrow> Some (f (d_irq d) p)
      | None \<Rightarrow> do {
          f \<leftarrow> chip_mask c;
          Some (case chip_ack c of Some g \<Rightarrow> g (d_irq d) (f (d_irq d) p) | None \<Rightarrow> f (d_irq d) p)
        });
     Some (irq_state_set_masked d, p)
   })"

definition mask_irq :: "port_reader \<Rightarrow> line \<Rightarrow> line option" where
  "mask_irq inb l = (case l of (d, p) \<Rightarrow> do {
     c \<leftarrow> chip_of inb p (d_chip d);
     Some (case chip_mask c of Some f \<Rightarrow> (irq_state_set_masked d, f (d_irq d) p) | None \<Rightarrow> (d, p))
   })"

definition unmask_irq :: "port_reader \<Rightarrow> line \<Rightarrow> line option" where
  "unmask_irq inb l = (case l of (d, p) \<Rightarrow> do {
     c \<leftarrow> chip_of inb p (d_chip d);
     Some (case chip_unmask c of Some f \<Rightarrow> (irq_state_clr_masked d, f (d_irq d) p) | None \<Rightarrow> (d, p))
   })"

definition irq_enable :: "port_reader \<Rightarrow> line \<Rightarrow> line option" where
  "irq_enable inb l = (case l of (d, p) \<Rightarrow> do {
     let d = irq_state_clr_disabled d;
     c \<leftarrow> chip_of inb p (d_chip d);
     f \<leftarrow> (case chip_enable c of Some f \<Rightarrow> Some f | None \<Rightarrow> chip_unmask c);
     Some (irq_state_clr_masked d, f (d_irq d) p)
   })"

definition irq_startup :: "port_reader \<Rightarrow> line \<Rightarrow> (line \<times> int) option" where
  "irq_startup inb l = (case l of (d, p) \<Rightarrow> do {
     let d = (irq_state_clr_disabled d)\<lparr>depth := 0\<rparr>;
     c \<leftarrow> chip_of inb p (d_chip d);
     (case chip_startup c of
        Some f \<Rightarrow> (case f (d_irq d) p of (p, ret) \<Rightarrow> Some ((irq_state_clr_masked d, p), ret))
      | None \<Rightarrow> do { l \<leftarrow> irq_enable inb (d, p); Some (l, 0) })
   })"

definition irq_disable :: "port_reader \<Rightarrow> line \<Rightarrow> line option" where
  "irq_disable inb l = (case l of (d, p) \<Rightarrow> do {
     let d = irq_state_set_disabled d;
     c \<leftarrow> chip_of inb p (d_chip d);
     Some (case chip_disable c of Some f \<Rightarrow> (irq_state_set_masked d, f (d_irq d) p) | None \<Rightarrow> (d, p))
   })"

section \<open>Descriptors\<close>

definition irq_to_desc :: "nat \<Rightarrow> irq_machine \<Rightarrow> irq_desc option" where
  "irq_to_desc irq m = (if irq < NR_IRQS then Some (irq_desc_tab m irq) else None)"

text \<open>Taking the bus lock of a chip reads the chip of the descriptor; none of the chips has a function
  for it.\<close>

definition chip_bus_lock :: "irq_desc \<Rightarrow> irq_desc option" where
  "chip_bus_lock d = (if d_chip d = Null_chip then None else Some d)"

definition put_line :: "nat \<Rightarrow> line \<Rightarrow> irq_machine \<Rightarrow> irq_machine" where
  "put_line irq l m = m\<lparr>hw := snd l, irq_desc_tab := (irq_desc_tab m)(irq := fst l)\<rparr>"

definition desc_set_defaults :: "nat \<Rightarrow> irq_desc \<Rightarrow> irq_desc" where
  "desc_set_defaults irq d =
     (let d = d\<lparr>d_irq := irq, d_chip := No_irq_chip\<rparr>;
          d = irq_settings_clr_and_set d (NOT 0) 0;
          d = irqd_set d IRQD_IRQ_DISABLED
      in d\<lparr>handle_irq_fn := Handle_bad_irq, depth := 1, irq_count := 0, irqs_unhandled := 0, desc_name := None\<rparr>)"

definition static_desc :: irq_desc where
  "static_desc = \<lparr>d_irq = 0, d_state = 0, d_chip = Null_chip, handle_irq_fn = Handle_bad_irq, action = [], status = 0, istate = 0,
     depth = 1, irq_count = 0, irqs_unhandled = 0, threads_oneshot = 0, desc_name = None\<rparr>"

definition early_irq_init :: "irq_machine \<Rightarrow> irq_machine" where
  "early_irq_init m =
     fold (\<lambda>i m. m\<lparr>irq_desc_tab := (irq_desc_tab m)(i := desc_set_defaults i (irq_desc_tab m i))\<rparr>) [0..<NR_IRQS] m"

definition irq_set_chip :: "nat \<Rightarrow> irq_chip_ref \<Rightarrow> irq_machine \<Rightarrow> irq_machine \<times> int" where
  "irq_set_chip irq c m =
     (case irq_to_desc irq m of
        None \<Rightarrow> (m, - EINVAL)
      | Some d \<Rightarrow>
          let c = (if c = Null_chip then No_irq_chip else c)
          in (m\<lparr>irq_desc_tab := (irq_desc_tab m)(irq := d\<lparr>d_chip := c\<rparr>)\<rparr>, 0))"

definition uu_irq_set_handler :: "port_reader \<Rightarrow> nat \<Rightarrow> irq_flow_handler_t option \<Rightarrow> bool \<Rightarrow> string \<Rightarrow> irq_machine \<Rightarrow> irq_machine option" where
  "uu_irq_set_handler inb irq handle is_chained nm m =
     (case irq_to_desc irq m of
        None \<Rightarrow> Some m
      | Some d \<Rightarrow>
          if handle \<noteq> None \<and> d_chip d = No_irq_chip then Some m
          else
            let handle = (case handle of None \<Rightarrow> Handle_bad_irq | Some h \<Rightarrow> h)
            in do {
              d \<leftarrow> chip_bus_lock d;
              (d, p) \<leftarrow> (if handle = Handle_bad_irq then do {
                   (d, p) \<leftarrow> (if d_chip d \<noteq> No_irq_chip then mask_ack_irq inb (d, hw m) else Some (d, hw m));
                   Some ((irq_state_set_disabled d)\<lparr>depth := 1\<rparr>, p)
                 } else Some (d, hw m));
              let d = d\<lparr>handle_irq_fn := handle, desc_name := Some nm\<rparr>;
              l \<leftarrow> (if handle \<noteq> Handle_bad_irq \<and> is_chained then do {
                   (l, ret) \<leftarrow> irq_startup inb (irq_settings_set_nothread (irq_settings_set_norequest (irq_settings_set_noprobe d)), p);
                   Some l
                 } else Some (d, p));
              Some (put_line irq l m)
            })"

definition irq_set_chip_and_handler_name ::
  "port_reader \<Rightarrow> nat \<Rightarrow> irq_chip_ref \<Rightarrow> irq_flow_handler_t option \<Rightarrow> string \<Rightarrow> irq_machine \<Rightarrow> irq_machine option" where
  "irq_set_chip_and_handler_name inb irq c handle nm m = uu_irq_set_handler inb irq handle False nm (fst (irq_set_chip irq c m))"

section \<open>Disabling and enabling\<close>

definition check_irq_resend :: "port_reader \<Rightarrow> line \<Rightarrow> line option" where
  "check_irq_resend inb l = (case l of (d, p) \<Rightarrow>
     if irq_settings_is_level d then Some (d, p)
     else if istate d AND IRQS_REPLAY \<noteq> 0 then Some (d, p)
     else if istate d AND IRQS_PENDING \<noteq> 0 then do {
       let d = d\<lparr>istate := (istate d AND NOT IRQS_PENDING) OR IRQS_REPLAY\<rparr>;
       c \<leftarrow> chip_of inb p (d_chip d);
       Some (case chip_retrigger c of None \<Rightarrow> (d, p) | Some f \<Rightarrow> (d, fst (f (d_irq d) p)))
     } else Some (d, p))"

text \<open>The first action of a chain decides for all.\<close>

definition uu_disable_irq :: "port_reader \<Rightarrow> line \<Rightarrow> bool \<Rightarrow> line option" where
  "uu_disable_irq inb l suspend = (case l of (d, p) \<Rightarrow>
     if suspend \<and> (action d = [] \<or> act_flags (hd (action d)) AND IRQF_NO_SUSPEND \<noteq> 0) then Some (d, p)
     else
       let d = (if suspend then d\<lparr>istate := istate d OR IRQS_SUSPENDED\<rparr> else d);
           old = depth d;
           d = d\<lparr>depth := depth d + 1\<rparr>
       in if old = 0 then irq_disable inb (d, p) else Some (d, p))"

definition uu_disable_irq_nosync :: "port_reader \<Rightarrow> nat \<Rightarrow> irq_machine \<Rightarrow> (irq_machine \<times> int) option" where
  "uu_disable_irq_nosync inb irq m =
     (case irq_to_desc irq m of
        None \<Rightarrow> Some (m, - EINVAL)
      | Some d \<Rightarrow> do { d \<leftarrow> chip_bus_lock d; l \<leftarrow> uu_disable_irq inb (d, hw m) False; Some (put_line irq l m, 0) })"

definition disable_irq_nosync :: "port_reader \<Rightarrow> nat \<Rightarrow> irq_machine \<Rightarrow> irq_machine option" where
  "disable_irq_nosync inb irq m = map_option fst (uu_disable_irq_nosync inb irq m)"

text \<open>The \<^verbatim>\<open>switch\<close> on the depth: at 0 and for a suspended line nothing happens, at 1 the line is
  enabled, and the depth goes down by one.\<close>

definition uu_enable_irq :: "port_reader \<Rightarrow> line \<Rightarrow> bool \<Rightarrow> line option" where
  "uu_enable_irq inb l resume = (case l of (d, p) \<Rightarrow>
     if resume \<and> \<not> istate d AND IRQS_SUSPENDED \<noteq> 0 \<and> (action d = [] \<or> \<not> act_flags (hd (action d)) AND IRQF_FORCE_RESUME \<noteq> 0)
     then Some (d, p)
     else
       let d = (if resume \<and> \<not> istate d AND IRQS_SUSPENDED \<noteq> 0 then d\<lparr>depth := depth d + 1\<rparr> else d);
           d = (if resume then d\<lparr>istate := istate d AND NOT IRQS_SUSPENDED\<rparr> else d)
       in if depth d = 0 then Some (d, p)
          else if depth d = 1 then
            if istate d AND IRQS_SUSPENDED \<noteq> 0 then Some (d, p)
            else do {
              l \<leftarrow> irq_enable inb (irq_settings_set_noprobe d, p);
              (d, p) \<leftarrow> check_irq_resend inb l;
              Some (d\<lparr>depth := depth d - 1\<rparr>, p)
            }
          else Some (d\<lparr>depth := depth d - 1\<rparr>, p))"

definition enable_irq :: "port_reader \<Rightarrow> nat \<Rightarrow> irq_machine \<Rightarrow> irq_machine option" where
  "enable_irq inb irq m =
     (case irq_to_desc irq m of
        None \<Rightarrow> Some m
      | Some d \<Rightarrow> do {
          d \<leftarrow> chip_bus_lock d;
          if d_chip d = Null_chip then Some m
          else do { l \<leftarrow> uu_enable_irq inb (d, hw m) False; Some (put_line irq l m) }
        })"

section \<open>Handling an interrupt\<close>

definition run_handler :: "(nat \<Rightarrow> nat \<Rightarrow> u32) \<Rightarrow> irq_handler_t \<Rightarrow> nat \<Rightarrow> u32" where
  "run_handler drv h irq = (case h of
     No_action \<Rightarrow> IRQ_NONE | Timer_interrupt \<Rightarrow> IRQ_HANDLED | Irq_default_primary_handler \<Rightarrow> IRQ_WAKE_THREAD
   | Irq_nested_primary_handler \<Rightarrow> IRQ_NONE | Driver k \<Rightarrow> drv k irq)"

definition warn_no_thread :: "irqaction \<Rightarrow> irqaction" where
  "warn_no_thread a = a\<lparr>thread_flags := set_bit IRQTF_WARNED (thread_flags a)\<rparr>"

text \<open>The second component is the bit for \<^verbatim>\<open>threads_oneshot\<close>.\<close>

definition irq_wake_thread :: "irqaction \<Rightarrow> irqaction \<times> ulong" where
  "irq_wake_thread a =
     (if bit (thread_flags a) IRQTF_DIED then (a, 0)
      else (a\<lparr>thread_flags := set_bit IRQTF_RUNTHREAD (thread_flags a)\<rparr>,
            if bit (thread_flags a) IRQTF_RUNTHREAD then 0 else thread_mask a))"

text \<open>The loop over the actions of a line. A call of a handler is recorded at the end of \<open>trace\<close>.\<close>

fun percpu_loop :: "(nat \<Rightarrow> nat \<Rightarrow> u32) \<Rightarrow> nat \<Rightarrow> irqaction list \<Rightarrow> ulong \<Rightarrow> u32 \<Rightarrow> irq_handler_t list
    \<Rightarrow> irqaction list \<times> ulong \<times> u32 \<times> irq_handler_t list" where
  "percpu_loop drv irq [] oneshot retval trace = ([], oneshot, retval, trace)"
| "percpu_loop drv irq (a # as) oneshot retval trace =
     (let res = run_handler drv (handler a) irq;
          trace = trace @ [handler a];
          (a, w) = (if res = IRQ_WAKE_THREAD then if thread_fn a = None then (warn_no_thread a, 0) else irq_wake_thread a else (a, 0));
          (as, oneshot, retval, trace) = percpu_loop drv irq as (oneshot OR w) (retval OR res) trace
      in (a # as, oneshot, retval, trace))"

definition handle_irq_event_percpu :: "(nat \<Rightarrow> nat \<Rightarrow> u32) \<Rightarrow> irq_desc \<Rightarrow> irq_desc \<times> u32 \<times> irq_handler_t list" where
  "handle_irq_event_percpu drv d =
     (case percpu_loop drv (d_irq d) (action d) (threads_oneshot d) IRQ_NONE [] of
        (as, oneshot, retval, trace) \<Rightarrow> (d\<lparr>action := as, threads_oneshot := oneshot\<rparr>, retval, trace))"

definition handle_irq_event :: "(nat \<Rightarrow> nat \<Rightarrow> u32) \<Rightarrow> irq_desc \<Rightarrow> irq_desc \<times> u32 \<times> irq_handler_t list" where
  "handle_irq_event drv d =
     (let d = d\<lparr>istate := istate d AND NOT IRQS_PENDING\<rparr>;
          d = irqd_set d IRQD_IRQ_INPROGRESS;
          (d, ret, trace) = handle_irq_event_percpu drv d
      in (irqd_clear d IRQD_IRQ_INPROGRESS, ret, trace))"

text \<open>The second component of the result is the sequence of handlers that \<open>percpu_loop\<close> called.\<close>

definition handle_level_irq :: "port_reader \<Rightarrow> (nat \<Rightarrow> nat \<Rightarrow> u32) \<Rightarrow> line \<Rightarrow> (line \<times> irq_handler_t list) option" where
  "handle_level_irq inb drv l = do {
     (d, p) \<leftarrow> mask_ack_irq inb l;
     if irqd_irq_inprogress d \<and> \<not> irq_check_poll d then Some ((d, p), [])
     else
       let d = d\<lparr>istate := istate d AND NOT (IRQS_REPLAY OR IRQS_WAITING)\<rparr>
       in if action d = [] \<or> irqd_irq_disabled d then Some ((d, p), [])
          else
            let (d, ret, hs) = handle_irq_event drv d
            in if \<not> irqd_irq_disabled d \<and> \<not> istate d AND IRQS_ONESHOT \<noteq> 0
               then do { l \<leftarrow> unmask_irq inb (d, p); Some (l, hs) }
               else Some ((d, p), hs)
   }"

text \<open>\<^verbatim>\<open>handle_bad_irq\<close> has an empty body. The switch to the interrupt stack is left out.\<close>

definition handle_irq :: "port_reader \<Rightarrow> (nat \<Rightarrow> nat \<Rightarrow> u32) \<Rightarrow> nat \<Rightarrow> irq_machine \<Rightarrow> (irq_machine \<times> bool) option" where
  "handle_irq inb drv irq m =
     (case irq_to_desc irq m of
        None \<Rightarrow> Some (m, False)
      | Some d \<Rightarrow>
          (case handle_irq_fn d of
             Handle_bad_irq \<Rightarrow> Some (m, True)
           | Handle_level_irq \<Rightarrow> do {
               (l, hs) \<leftarrow> handle_level_irq inb drv (d, hw m);
               Some ((put_line irq l m)\<lparr>calls := calls m @ map (\<lambda>h. (irq, h)) hs\<rparr>, True)
             }))"

definition HARDIRQ_OFFSET :: u32 where "HARDIRQ_OFFSET = push_bit 16 1"
definition SOFTIRQ_OFFSET :: u32 where "SOFTIRQ_OFFSET = push_bit 8 1"
definition SOFTIRQ_DISABLE_OFFSET :: u32 where "SOFTIRQ_DISABLE_OFFSET = 2 * SOFTIRQ_OFFSET"
definition IRQ_EXIT_OFFSET :: u32 where "IRQ_EXIT_OFFSET = HARDIRQ_OFFSET - 1"
definition HARDIRQ_MASK :: u32 where "HARDIRQ_MASK = push_bit 16 (push_bit 10 1 - 1)"
definition SOFTIRQ_MASK :: u32 where "SOFTIRQ_MASK = push_bit 8 (push_bit 8 1 - 1)"
definition NMI_MASK :: u32 where "NMI_MASK = push_bit 26 (push_bit 1 1 - 1)"

definition in_interrupt :: "u32 \<Rightarrow> bool" where
  "in_interrupt pc \<longleftrightarrow> pc AND (HARDIRQ_MASK OR SOFTIRQ_MASK OR NMI_MASK) \<noteq> 0"

definition local_bh_disable :: "u32 \<Rightarrow> u32" where "local_bh_disable pc = pc + SOFTIRQ_DISABLE_OFFSET"
definition local_bh_enable :: "u32 \<Rightarrow> u32" where "local_bh_enable pc = pc - SOFTIRQ_DISABLE_OFFSET"

text \<open>\<open>idle\<close>: the processor runs its idle task.\<close>

definition irq_enter :: "bool \<Rightarrow> u32 \<Rightarrow> u32" where
  "irq_enter idle pc =
     (let pc = (if idle \<and> \<not> in_interrupt pc then local_bh_enable (local_bh_disable pc) else pc)
      in pc + HARDIRQ_OFFSET)"

definition irq_exit :: "u32 \<Rightarrow> u32" where
  "irq_exit pc = (pc - IRQ_EXIT_OFFSET) - 1"

text \<open>An interrupt at a vector. The line is \<^verbatim>\<open>unsigned\<close>, so the entry -1 of an unused vector is no line.\<close>

definition do_IRQ :: "port_reader \<Rightarrow> (nat \<Rightarrow> nat \<Rightarrow> u32) \<Rightarrow> bool \<Rightarrow> nat \<Rightarrow> irq_machine \<Rightarrow> irq_machine option" where
  "do_IRQ inb drv idle vector m = do {
     let m = m\<lparr>preempt_count := irq_enter idle (preempt_count m)\<rparr>;
     let irq = unat (word_of_int (vector_irq m vector) :: u32);
     (m, ok) \<leftarrow> handle_irq inb drv irq m;
     Some (m\<lparr>preempt_count := irq_exit (preempt_count m)\<rparr>)
   }"

section \<open>Installing handlers\<close>

definition irq_setup_forced_threading :: "irqaction \<Rightarrow> irqaction" where
  "irq_setup_forced_threading a =
     (if \<not> force_irqthreads then a
      else if act_flags a AND (IRQF_NO_THREAD OR IRQF_PERCPU OR IRQF_ONESHOT) \<noteq> 0 then a
      else
        let a = a\<lparr>act_flags := act_flags a OR IRQF_ONESHOT\<rparr>
        in if thread_fn a = None
           then a\<lparr>thread_flags := set_bit IRQTF_FORCED_THREAD (thread_flags a), thread_fn := Some (handler a), handler := Irq_default_primary_handler\<rparr>
           else a)"

text \<open>The trigger type as the chip accepted it: \<^verbatim>\<open>IRQ_SET_MASK_OK\<close> is 0, \<^verbatim>\<open>IRQ_SET_MASK_OK_NOCOPY\<close> is 1.\<close>

definition uu_irq_set_trigger :: "port_reader \<Rightarrow> line \<Rightarrow> ulong \<Rightarrow> (line \<times> int) option" where
  "uu_irq_set_trigger inb l flags = (case l of (d, p) \<Rightarrow>
     case chip_of inb p (d_chip d) of
       None \<Rightarrow> Some ((d, p), 0)
     | Some c \<Rightarrow>
         (case chip_set_type c of
            None \<Rightarrow> Some ((d, p), 0)
          | Some set_type \<Rightarrow>
              let flags = flags AND IRQ_TYPE_SENSE_MASK;
                  type_masked = (chip_flags c AND IRQCHIP_SET_TYPE_MASKED \<noteq> 0)
              in do {
                (d, p) \<leftarrow> (if type_masked \<and> \<not> irqd_irq_masked d then mask_irq inb (d, p) else Some (d, p));
                let unmask = (type_masked \<and> \<not> irqd_irq_disabled d);
                let (p, ret) = set_type (d_irq d) flags p;
                let d = (if ret = 0 then irqd_set (irqd_clear d IRQD_TRIGGER_MASK) flags else d);
                let (d, ret) = (if ret = 0 \<or> ret = 1 then
                    let flags = irqd_get_trigger_type d;
                        d = irq_settings_clr_level (irqd_clear (irq_settings_set_trigger_mask d flags) IRQD_LEVEL);
                        d = (if flags AND IRQ_TYPE_LEVEL_MASK \<noteq> 0 then irqd_set (irq_settings_set_level d) IRQD_LEVEL else d)
                    in (d, 0)
                  else (d, ret));
                l \<leftarrow> (if unmask then unmask_irq inb (d, p) else Some (d, p));
                Some (l, ret)
              }))"

text \<open>The comparison of a new action with the first one of the chain.\<close>

definition action_mismatch :: "irqaction \<Rightarrow> irqaction \<Rightarrow> bool" where
  "action_mismatch old new \<longleftrightarrow>
     (act_flags old AND act_flags new) AND IRQF_SHARED = 0
     \<or> (act_flags old XOR act_flags new) AND IRQF_TRIGGER_MASK \<noteq> 0
     \<or> (act_flags old XOR act_flags new) AND IRQF_ONESHOT \<noteq> 0
     \<or> act_flags old AND IRQF_PERCPU \<noteq> act_flags new AND IRQF_PERCPU"

text \<open>The part for the first action of a line. A result other than 0 is the error of the trigger.\<close>

definition setup_first :: "port_reader \<Rightarrow> line \<Rightarrow> irqaction \<Rightarrow> (line \<times> int) option" where
  "setup_first inb l new = do {
     (l, ret) \<leftarrow> (if act_flags new AND IRQF_TRIGGER_MASK \<noteq> 0
                  then uu_irq_set_trigger inb l (act_flags new AND IRQF_TRIGGER_MASK) else Some (l, 0));
     if ret \<noteq> 0 then Some (l, ret)
     else do {
       let (d, p) = l;
       let d = d\<lparr>istate := istate d AND NOT (IRQS_AUTODETECT OR IRQS_SPURIOUS_DISABLED OR IRQS_ONESHOT OR IRQS_WAITING)\<rparr>;
       let d = irqd_clear d IRQD_IRQ_INPROGRESS;
       let d = (if act_flags new AND IRQF_PERCPU \<noteq> 0 then irq_settings_set_per_cpu (irqd_set d IRQD_PER_CPU) else d);
       let d = (if act_flags new AND IRQF_ONESHOT \<noteq> 0 then d\<lparr>istate := istate d OR IRQS_ONESHOT\<rparr> else d);
       (d, p) \<leftarrow> (if irq_settings_can_autoenable d then map_option fst (irq_startup inb (d, p)) else Some (d\<lparr>depth := 1\<rparr>, p));
       let d = (if act_flags new AND IRQF_NOBALANCING \<noteq> 0
                then irqd_set (irq_settings_set_no_balancing d) IRQD_NO_BALANCING else d);
       Some ((d, p), 0)
     }
   }"

text \<open>Without a free bit in the masks \<^verbatim>\<open>bsf\<close> leaves its result undefined: \<open>None\<close>.\<close>

definition uu_setup_irq :: "port_reader \<Rightarrow> nat \<Rightarrow> line \<Rightarrow> irqaction \<Rightarrow> (line \<times> int) option" where
  "uu_setup_irq inb irq l new = (case l of (d, p) \<Rightarrow>
     if d_chip d = No_irq_chip then Some ((d, p), - ENOSYS)
     else
       let nested = irq_settings_is_nested_thread d
       in if nested \<and> thread_fn new = None then Some ((d, p), - EINVAL)
          else
            let new = (if nested then new\<lparr>handler := Irq_nested_primary_handler\<rparr>
                       else if irq_settings_can_thread d then irq_setup_forced_threading new else new);
                shared = (action d \<noteq> []);
                used = fold (\<lambda>a m. m OR thread_mask a) (action d) 0
            in if shared \<and> action_mismatch (hd (action d)) new then Some ((d, p), - EBUSY)
               else if act_flags new AND IRQF_ONESHOT \<noteq> 0 \<and> used = NOT 0 then Some ((d, p), - EBUSY)
               else do {
                 n \<leftarrow> ffz used;
                 let new = new\<lparr>thread_mask := push_bit n 1\<rparr>;
                 ((d, p), ret) \<leftarrow> (if \<not> shared then setup_first inb (d, p) new else Some ((d, p), 0));
                 if ret \<noteq> 0 then Some ((d, p), ret)
                 else do {
                   let d = d\<lparr>action := action d @ [new\<lparr>act_irq := irq\<rparr>], irq_count := 0, irqs_unhandled := 0\<rparr>;
                   l \<leftarrow> (if shared \<and> istate d AND IRQS_SPURIOUS_DISABLED \<noteq> 0
                        then uu_enable_irq inb (d\<lparr>istate := istate d AND NOT IRQS_SPURIOUS_DISABLED\<rparr>, p) False
                        else Some (d, p));
                   Some (l, 0)
                 }
               })"

text \<open>\<^verbatim>\<open>setup_irq\<close> reads the chip before it checks the descriptor.\<close>

definition setup_irq :: "port_reader \<Rightarrow> nat \<Rightarrow> irqaction \<Rightarrow> irq_machine \<Rightarrow> (irq_machine \<times> int) option" where
  "setup_irq inb irq act m = do {
     d \<leftarrow> irq_to_desc irq m;
     d \<leftarrow> chip_bus_lock d;
     (l, ret) \<leftarrow> uu_setup_irq inb irq (d, hw m) act;
     Some (put_line irq l m, ret)
   }"

section \<open>Initialisation\<close>

definition make_8259A_irq :: "port_reader \<Rightarrow> nat \<Rightarrow> irq_machine \<Rightarrow> irq_machine option" where
  "make_8259A_irq inb irq m = do {
     m \<leftarrow> disable_irq_nosync inb irq m;
     let m = m\<lparr>hw := (hw m)\<lparr>io_apic_irqs := io_apic_irqs (hw m) AND NOT (push_bit irq 1)\<rparr>\<rparr>;
     m \<leftarrow> irq_set_chip_and_handler_name inb irq I8259A_chip (Some Handle_level_irq) ''XT-PIC'' m;
     enable_irq inb irq m
   }"

primrec set_handlers :: "port_reader \<Rightarrow> nat list \<Rightarrow> irq_machine \<Rightarrow> irq_machine option" where
  "set_handlers inb [] m = Some m"
| "set_handlers inb (i # is) m = do {
     m \<leftarrow> irq_set_chip_and_handler_name inb i I8259A_chip (Some Handle_level_irq) ''XT-PIC'' m;
     set_handlers inb is m
   }"

definition init_ISA_irqs :: "port_reader \<Rightarrow> irq_machine \<Rightarrow> irq_machine option" where
  "init_ISA_irqs inb m = set_handlers inb [0..<NR_IRQS] (m\<lparr>hw := init_8259A False (hw m)\<rparr>)"

definition irq2 :: irqaction where
  "irq2 = \<lparr>handler = No_action, act_flags = IRQF_NO_THREAD, act_irq = 0, thread_fn = None, thread_flags = 0, thread_mask = 0,
     act_name = ''cascade''\<rparr>"

definition irq0 :: irqaction where
  "irq0 = \<lparr>handler = Timer_interrupt, act_flags = IRQF_DISABLED OR IRQF_NOBALANCING OR IRQF_IRQPOLL OR IRQF_TIMER, act_irq = 0,
     thread_fn = None, thread_flags = 0, thread_mask = 0, act_name = ''timer''\<rparr>"

text \<open>There is no I/O APIC, so the cascade line gets its action. The gates of the vectors are not part of
  the state.\<close>

definition native_init_IRQ :: "port_reader \<Rightarrow> irq_machine \<Rightarrow> irq_machine option" where
  "native_init_IRQ inb m = do {
     m \<leftarrow> init_ISA_irqs inb m;
     (m, ret) \<leftarrow> setup_irq inb 2 irq2 m;
     Some m
   }"

definition init_IRQ :: "port_reader \<Rightarrow> irq_machine \<Rightarrow> irq_machine option" where
  "init_IRQ inb m =
     native_init_IRQ inb (m\<lparr>vector_irq := fold (\<lambda>i v. v(unat IRQ0_VECTOR + i := int i)) [0..<NR_IRQS] (vector_irq m)\<rparr>)"

definition setup_default_timer_irq :: "port_reader \<Rightarrow> irq_machine \<Rightarrow> irq_machine option" where
  "setup_default_timer_irq inb m = map_option fst (setup_irq inb 0 irq0 m)"

definition static_machine :: irq_machine where
  "static_machine = \<lparr>hw = init_pic, irq_desc_tab = (\<lambda>_. static_desc), calls = [], vector_irq = (\<lambda>_. -1), preempt_count = 0\<rparr>"


section \<open>Flags as bits\<close>

lemma bit_one_flag: "k < 32 \<Longrightarrow> bit (push_bit k 1 :: u32) n \<longleftrightarrow> n = k"
  by (auto simp: bit_exp_iff)

lemma istate_flags:
  "IRQS_AUTODETECT = push_bit 0 1" "IRQS_SPURIOUS_DISABLED = push_bit 1 1" "IRQS_POLL_INPROGRESS = push_bit 3 1"
  "IRQS_ONESHOT = push_bit 5 1" "IRQS_REPLAY = push_bit 6 1" "IRQS_WAITING = push_bit 7 1" "IRQS_PENDING = push_bit 9 1"
  "IRQS_SUSPENDED = push_bit 11 1"
  by (simp_all add: irqs_flags)

lemma flag_bits [simp]:
  "bit IRQD_NO_BALANCING n \<longleftrightarrow> n = 10" "bit IRQD_PER_CPU n \<longleftrightarrow> n = 11" "bit IRQD_IRQ_DISABLED n \<longleftrightarrow> n = 16"
  "bit IRQD_IRQ_MASKED n \<longleftrightarrow> n = 17" "bit IRQD_IRQ_INPROGRESS n \<longleftrightarrow> n = 18"
  "bit IRQ_PER_CPU n \<longleftrightarrow> n = 9" "bit IRQ_NOPROBE n \<longleftrightarrow> n = 10" "bit IRQ_NO_BALANCING n \<longleftrightarrow> n = 13" "bit IRQ_NOAUTOEN n \<longleftrightarrow> n = 12"
  "bit IRQ_NESTED_THREAD n \<longleftrightarrow> n = 15"
  unfolding irqd_flags irq_flags by (rule bit_one_flag; simp)+

lemma istate_bits [simp]:
  "bit IRQS_AUTODETECT n \<longleftrightarrow> n = 0" "bit IRQS_SPURIOUS_DISABLED n \<longleftrightarrow> n = 1" "bit IRQS_ONESHOT n \<longleftrightarrow> n = 5" "bit IRQS_REPLAY n \<longleftrightarrow> n = 6"
  "bit IRQS_WAITING n \<longleftrightarrow> n = 7" "bit IRQS_PENDING n \<longleftrightarrow> n = 9" "bit IRQS_SUSPENDED n \<longleftrightarrow> n = 11"
  unfolding istate_flags by (rule bit_one_flag; simp)+

lemma flag_tests [simp]:
  "irqd_irq_disabled d \<longleftrightarrow> bit (d_state d) 16" "irqd_irq_inprogress d \<longleftrightarrow> bit (d_state d) 18" "irqd_irq_masked d \<longleftrightarrow> bit (d_state d) 17"
  "irq_settings_can_autoenable d \<longleftrightarrow> \<not> bit (status d) 12" "irq_settings_is_nested_thread d \<longleftrightarrow> bit (status d) 15"
  unfolding irqd_irq_disabled_def irqd_irq_inprogress_def irqd_irq_masked_def irq_settings_can_autoenable_def
    irq_settings_is_nested_thread_def irqd_flags irq_flags
  by (subst test_mask; simp)+

lemma istate_tests [simp]:
  "x AND IRQS_SPURIOUS_DISABLED = 0 \<longleftrightarrow> \<not> bit x 1" "x AND IRQS_ONESHOT = 0 \<longleftrightarrow> \<not> bit x 5" "x AND IRQS_REPLAY = 0 \<longleftrightarrow> \<not> bit x 6"
  "x AND IRQS_PENDING = 0 \<longleftrightarrow> \<not> bit x 9" "x AND IRQS_SUSPENDED = 0 \<longleftrightarrow> \<not> bit x 11"
  using test_mask [of 1 x] test_mask [of 5 x] test_mask [of 6 x] test_mask [of 9 x] test_mask [of 11 x] unfolding istate_flags by auto

text \<open>What the small operations on a descriptor change.\<close>

lemmas desc_ops = irqd_set_def irqd_clear_def irq_state_clr_disabled_def irq_state_set_disabled_def irq_state_clr_masked_def
  irq_state_set_masked_def irq_settings_set_noprobe_def irq_settings_set_per_cpu_def irq_settings_set_no_balancing_def
lemmas bit_ops = bit_or_iff bit_and_iff bit_not_iff

lemma chip_of_8259A: "chip_of inb p I8259A_chip = Some (i8259A_chip inb (i8259A_auto_eoi p))"
  by (simp add: chip_of_def)

lemmas line_ops = mask_ack_irq_def mask_irq_def unmask_irq_def irq_enable_def irq_startup_def irq_disable_def chip_of_8259A
  i8259A_chip_def disable_8259A_irq_def enable_8259A_irq_def

section \<open>The invariant of a line\<close>

text \<open>A line of the legacy controllers: it is marked disabled exactly while its depth is not 0, and
  then it is masked in the controller. An enabled line with a handler is not masked, unless its
  handler is a one-shot handler.\<close>

definition line_ok :: "nat \<Rightarrow> irq_desc \<Rightarrow> u32 \<Rightarrow> bool" where
  "line_ok irq d msk \<longleftrightarrow> d_irq d = irq \<and> d_chip d = I8259A_chip \<and> handle_irq_fn d = Handle_level_irq
     \<and> (irqd_irq_disabled d \<longleftrightarrow> depth d \<noteq> 0) \<and> \<not> irqd_irq_inprogress d
     \<and> istate d AND IRQS_SPURIOUS_DISABLED = 0 \<and> istate d AND IRQS_SUSPENDED = 0
     \<and> irq_settings_can_autoenable d \<and> \<not> irq_settings_is_nested_thread d
     \<and> (depth d \<noteq> 0 \<longrightarrow> bit msk irq) \<and> (depth d = 0 \<and> action d \<noteq> [] \<and> istate d AND IRQS_ONESHOT = 0 \<longrightarrow> \<not> bit msk irq)"

definition irq_inv :: "pics \<Rightarrow> irq_machine \<Rightarrow> bool" where
  "irq_inv d0 m \<longleftrightarrow> pic_sync d0 (hw m) \<and> (\<forall>irq<NR_IRQS. line_ok irq (irq_desc_tab m irq) (cached_irq_mask (hw m)))"

text \<open>The result of an operation on a line: the controllers agree, other lines keep their mask bits.\<close>

definition line_result :: "pics \<Rightarrow> nat \<Rightarrow> pic \<Rightarrow> line \<Rightarrow> bool" where
  "line_result d0 irq p l \<longleftrightarrow> pic_sync d0 (snd l) \<and> (\<forall>j. j \<noteq> irq \<longrightarrow> bit (cached_irq_mask (snd l)) j = bit (cached_irq_mask p) j)
     \<and> line_ok irq (fst l) (cached_irq_mask (snd l))"

lemma line_ok_cong: "bit msk irq = bit msk' irq \<Longrightarrow> line_ok irq d msk = line_ok irq d msk'"
  by (simp add: line_ok_def)

lemma put_line_inv:
  assumes "irq_inv d0 m" "line_result d0 irq (hw m) l"
  shows "irq_inv d0 (put_line irq l m)"
  unfolding irq_inv_def
proof (intro conjI allI impI)
  show "pic_sync d0 (hw (put_line irq l m))" using assms(2) by (simp add: line_result_def put_line_def)
next
  fix j assume j: "j < NR_IRQS"
  show "line_ok j (irq_desc_tab (put_line irq l m) j) (cached_irq_mask (hw (put_line irq l m)))"
  proof (cases "j = irq")
    case True
    then show ?thesis using assms(2) by (simp add: line_result_def put_line_def)
  next
    case False
    then have "bit (cached_irq_mask (snd l)) j = bit (cached_irq_mask (hw m)) j" using assms(2) by (simp add: line_result_def)
    from line_ok_cong [of _ j, OF this] show ?thesis using assms(1) j False by (simp add: irq_inv_def put_line_def)
  qed
qed

lemma line_of_inv:
  assumes "irq_inv d0 m" "irq < NR_IRQS"
  shows "irq_to_desc irq m = Some (irq_desc_tab m irq)" "line_ok irq (irq_desc_tab m irq) (cached_irq_mask (hw m))" "pic_sync d0 (hw m)"
    "chip_bus_lock (irq_desc_tab m irq) = Some (irq_desc_tab m irq)"
  using assms by (auto simp: irq_inv_def irq_to_desc_def chip_bus_lock_def line_ok_def)

lemma disable_line:
  assumes ok: "line_ok irq d (cached_irq_mask p)" and s: "pic_sync d0 p" and irq: "irq < NR_IRQS" and dp: "depth d \<noteq> -1"
  shows "\<exists>l. uu_disable_irq inb (d, p) False = Some l \<and> line_result d0 irq p l \<and> depth (fst l) = depth d + 1 \<and> action (fst l) = action d"
proof -
  have irq': "irq < 16" using irq by (simp add: NR_IRQS_def)
  have nz: "depth d + 1 \<noteq> 0" using dp by (metis add.commute add_eq_0_iff)
  show ?thesis
    using ok s nz irq' mask_8259A_irq_sync [OF s irq']
    by (cases "depth d = 0")
      (auto simp: uu_disable_irq_def Let_def line_ops line_ok_def line_result_def desc_ops bit_ops bit_set_bit_iff)
qed

lemma enable_line:
  assumes ok: "line_ok irq d (cached_irq_mask p)" and s: "pic_sync d0 p" and irq: "irq < NR_IRQS"
  shows "\<exists>l. uu_enable_irq inb (d, p) False = Some l \<and> line_result d0 irq p l \<and> depth (fst l) = (if depth d = 0 then 0 else depth d - 1)
    \<and> action (fst l) = action d"
proof -
  have irq': "irq < 16" using irq by (simp add: NR_IRQS_def)
  have nz: "depth d - 1 \<noteq> 0" if "depth d \<noteq> 1" using that by simp
  have u: "unmask_8259A_irq irq p = p'" "pic_sync d0 p'" "cached_irq_mask p' = unset_bit irq (cached_irq_mask p)"
    if "p' = unmask_8259A_irq irq p" for p' using unmask_8259A_irq_sync [OF s irq'] that by simp_all
  consider "depth d = 0" | "depth d = 1" | "depth d \<noteq> 0" "depth d \<noteq> 1" by blast
  then show ?thesis
  proof cases
    case 1
    then show ?thesis using ok s by (simp add: uu_enable_irq_def line_result_def line_ok_def)
  next
    case 2
    let ?d = "irq_state_clr_masked (irq_state_clr_disabled (irq_settings_set_noprobe d))"
    let ?p = "unmask_8259A_irq irq p"
    have ch: "d_chip ?d = I8259A_chip" using ok by (simp add: line_ok_def desc_ops)
    have "\<exists>x. check_irq_resend inb (?d, ?p) = Some (?d\<lparr>istate := x\<rparr>, ?p)
       \<and> (\<forall>n. n \<noteq> 9 \<and> n \<noteq> 6 \<longrightarrow> bit x n = bit (istate d) n)"
    proof (cases "irq_settings_is_level ?d \<or> istate ?d AND IRQS_REPLAY \<noteq> 0 \<or> \<not> istate ?d AND IRQS_PENDING \<noteq> 0")
      case True
      then have "check_irq_resend inb (?d, ?p) = Some (?d\<lparr>istate := istate ?d\<rparr>, ?p)" by (auto simp: check_irq_resend_def)
      then show ?thesis by (intro exI [of _ "istate d"]) (simp add: desc_ops)
    next
      case False
      then have "check_irq_resend inb (?d, ?p) = Some (?d\<lparr>istate := (istate ?d AND NOT IRQS_PENDING) OR IRQS_REPLAY\<rparr>, ?p)"
        using ch by (simp add: check_irq_resend_def chip_of_8259A i8259A_chip_def)
      then show ?thesis
        by (intro exI [of _ "(istate d AND NOT IRQS_PENDING) OR IRQS_REPLAY"])
          (auto simp: desc_ops bit_ops dest: bit_imp_possible_bit)
    qed
    then obtain x where x: "check_irq_resend inb (?d, ?p) = Some (?d\<lparr>istate := x\<rparr>, ?p)" "\<forall>n. n \<noteq> 9 \<and> n \<noteq> 6 \<longrightarrow> bit x n = bit (istate d) n"
      by blast
    have "irq_enable inb (irq_settings_set_noprobe d, p) = Some (?d, ?p)"
      using ok by (simp add: line_ops line_ok_def desc_ops)
    then have r: "uu_enable_irq inb (d, p) False = Some (?d\<lparr>istate := x, depth := depth ?d - 1\<rparr>, ?p)"
      using 2 ok x(1) by (simp add: uu_enable_irq_def line_ok_def)
    have "line_result d0 irq p (?d\<lparr>istate := x, depth := depth ?d - 1\<rparr>, ?p)"
      using ok x(2) unmask_8259A_irq_sync [OF s irq'] 2
      by (auto simp: line_result_def line_ok_def desc_ops bit_ops bit_unset_bit_iff)
    then show ?thesis using r 2 by (simp add: desc_ops)
  next
    case 3
    then show ?thesis using ok s nz by (simp add: uu_enable_irq_def line_result_def line_ok_def)
  qed
qed

text \<open>The loop keeps the handlers and calls each of them once, in order.\<close>

lemma percpu_loop_handlers:
  "percpu_loop drv irq as oneshot retval trace = (as', oneshot', retval', trace')
    \<Longrightarrow> map handler as' = map handler as \<and> trace' = trace @ map handler as"
proof (induction as arbitrary: oneshot retval trace as' oneshot' retval' trace')
  case (Cons a as)
  obtain b w where b: "(if run_handler drv (handler a) irq = IRQ_WAKE_THREAD then if thread_fn a = None then (warn_no_thread a, 0) else irq_wake_thread a
      else (a, 0)) = (b, w)" by fastforce
  then have "handler b = handler a" by (auto simp: warn_no_thread_def irq_wake_thread_def split: if_splits)
  moreover obtain bs o1 r1 t1 where l: "percpu_loop drv irq as (oneshot OR w) (retval OR run_handler drv (handler a) irq) (trace @ [handler a]) = (bs, o1, r1, t1)"
    by (metis prod_cases4)
  ultimately show ?case using Cons.IH [OF l] Cons.prems b l by (auto simp: Let_def)
qed simp

lemma handle_event_fields:
  "\<exists>as os r. map handler as = map handler (action d) \<and> handle_irq_event drv d =
     (d\<lparr>istate := istate d AND NOT IRQS_PENDING, d_state := (d_state d OR IRQD_IRQ_INPROGRESS) AND NOT IRQD_IRQ_INPROGRESS,
        action := as, threads_oneshot := os\<rparr>, r, map handler (action d))"
proof -
  obtain as os r tr where l: "percpu_loop drv (d_irq d) (action d) (threads_oneshot d) IRQ_NONE [] = (as, os, r, tr)" by (metis prod_cases4)
  show ?thesis
    by (rule exI [of _ as], rule exI [of _ os], rule exI [of _ r])
      (use percpu_loop_handlers [OF l] l in \<open>simp add: handle_irq_event_def handle_irq_event_percpu_def desc_ops Let_def\<close>)
qed

text \<open>The acknowledgement of a line, with and without automatic end of interrupt.\<close>

lemma mask_ack_line:
  assumes ok: "line_ok irq d (cached_irq_mask p)" and s: "pic_sync d0 p" and irq: "irq < NR_IRQS"
  shows "\<exists>p'. mask_ack_irq inb (d, p) = Some (irq_state_set_masked d, p') \<and> pic_sync d0 p' \<and> cached_irq_mask p' = set_bit irq (cached_irq_mask p)"
proof -
  have irq': "irq < 16" using irq by (simp add: NR_IRQS_def)
  show ?thesis
    using ok mask_8259A_irq_sync [OF s irq'] mask_and_ack_spec(1,2) [OF s irq'] by (simp add: line_ops line_ok_def)
qed

lemma unmask_line:
  assumes "d_irq d = irq" "d_chip d = I8259A_chip" and s: "pic_sync d0 p" and irq: "irq < NR_IRQS"
  shows "\<exists>p'. unmask_irq inb (d, p) = Some (irq_state_clr_masked d, p') \<and> pic_sync d0 p' \<and> cached_irq_mask p' = unset_bit irq (cached_irq_mask p)"
  using assms(1,2) unmask_8259A_irq_sync [OF s, of irq] irq by (simp add: line_ops NR_IRQS_def)

lemma level_line:
  assumes ok: "line_ok irq d (cached_irq_mask p)" and s: "pic_sync d0 p" and irq: "irq < NR_IRQS"
  shows "\<exists>l. handle_level_irq inb drv (d, p) = Some (l, if depth d = 0 then map handler (action d) else [])
    \<and> line_result d0 irq p l \<and> depth (fst l) = depth d \<and> map handler (action (fst l)) = map handler (action d)"
proof -
  have irq': "irq < 16" using irq by (simp add: NR_IRQS_def)
  obtain p1 where p1: "mask_ack_irq inb (d, p) = Some (irq_state_set_masked d, p1)" "pic_sync d0 p1" "cached_irq_mask p1 = set_bit irq (cached_irq_mask p)"
    using mask_ack_line [OF ok s irq] by blast
  define d1 where "d1 = (irq_state_set_masked d)\<lparr>istate := istate d AND NOT (IRQS_REPLAY OR IRQS_WAITING)\<rparr>"
  have d1: "irq_state_set_masked d\<lparr>istate := istate (irq_state_set_masked d) AND NOT (IRQS_REPLAY OR IRQS_WAITING)\<rparr> = d1"
    "action d1 = action d" "irqd_irq_disabled d1 = irqd_irq_disabled d" "\<not> irqd_irq_inprogress (irq_state_set_masked d)"
    "depth d1 = depth d" "d_chip d1 = I8259A_chip" "d_irq d1 = irq"
    using ok by (simp_all add: d1_def desc_ops line_ok_def bit_ops)
  show ?thesis
  proof (cases "action d = [] \<or> depth d \<noteq> 0")
    case True
    then have "handle_level_irq inb drv (d, p) = Some ((d1, p1), [])"
      using p1(1) d1 ok by (auto simp: handle_level_irq_def line_ok_def Let_def)
    moreover have "line_result d0 irq p (d1, p1)"
      using True ok p1 irq' by (auto simp: line_result_def line_ok_def d1_def desc_ops bit_ops bit_set_bit_iff)
    ultimately show ?thesis using True d1 by auto
  next
    case False
    obtain as os r where e: "map handler as = map handler (action d1)" "handle_irq_event drv d1 =
       (d1\<lparr>istate := istate d1 AND NOT IRQS_PENDING, d_state := (d_state d1 OR IRQD_IRQ_INPROGRESS) AND NOT IRQD_IRQ_INPROGRESS, action := as,
          threads_oneshot := os\<rparr>, r, map handler (action d1))"
      using handle_event_fields [of d1 drv] by blast
    define d2 where "d2 = d1\<lparr>istate := istate d1 AND NOT IRQS_PENDING, d_state := (d_state d1 OR IRQD_IRQ_INPROGRESS) AND NOT IRQD_IRQ_INPROGRESS, action := as,
          threads_oneshot := os\<rparr>"
    have ev: "handle_irq_event drv d1 = (d2, r, map handler (action d))" using e(2) d1(2) by (simp add: d2_def)
    have d2: "d_irq d2 = irq" "d_chip d2 = I8259A_chip" "\<not> irqd_irq_disabled d2" "bit (istate d2) 5 = bit (istate d) 5" "depth d2 = 0"
      "map handler (action d2) = map handler (action d)"
      using False ok e d1 by (auto simp: d2_def d1_def line_ok_def desc_ops bit_ops)
    obtain p2 where p2: "unmask_irq inb (d2, p1) = Some (irq_state_clr_masked d2, p2)" "pic_sync d0 p2" "cached_irq_mask p2 = unset_bit irq (cached_irq_mask p1)"
      using unmask_line [OF d2(1,2) p1(2) irq] by blast
    define l where "l = (if bit (istate d) 5 then (d2, p1) else (irq_state_clr_masked d2, p2))"
    have "handle_level_irq inb drv (d, p) = Some (l, map handler (action d))"
      using p1(1) d1 False ok p2(1) d2(3,4) unfolding handle_level_irq_def
      by (auto simp: line_ok_def Let_def l_def ev)
    moreover have "line_result d0 irq p l"
      using ok p1 p2 d2 irq' False e d1
      by (auto simp: l_def line_result_def line_ok_def d2_def d1_def desc_ops bit_ops bit_set_bit_iff bit_unset_bit_iff)
    ultimately show ?thesis using False d2 by (auto simp: l_def desc_ops)
  qed
qed


section \<open>Installing a handler\<close>

lemma ffz_Some: "ffz w = Some n \<Longrightarrow> n < 32 \<and> \<not> bit w n"
  by (auto simp: ffz_def bsf_def bit_not_iff split: list.splits dest!: filter_eq_ConsD)

lemma ffz_exists:
  assumes "w \<noteq> NOT 0"
  shows "\<exists>n. ffz w = Some n"
proof -
  obtain n where n: "n < LENGTH(32)" "\<not> bit w n" using assms by (metis bit_minus_1_iff bit.compl_zero bit_word_eqI possible_bit_word)
  then have "n \<in> set (filter (bit (NOT w)) [0..<LENGTH(32)])" by (simp add: bit_not_iff)
  then have "filter (bit (NOT w)) [0..<LENGTH(32)] \<noteq> []" by (metis empty_iff empty_set)
  then show ?thesis unfolding ffz_def bsf_def by (simp split: list.split)
qed

text \<open>
  What may share a line: both actions are marked as shared (bit 7 of the flags), and they agree in the
  trigger type (bits 0 to 3), in being one-shot (bit 13) and in being per-processor (bit 10). The test
  of the code on the flag words is the negation of this.
\<close>

definition fits :: "irqaction \<Rightarrow> irqaction \<Rightarrow> bool" where
  "fits old new \<longleftrightarrow>
     bit (act_flags old) 7 \<and> bit (act_flags new) 7
     \<and> (\<forall>n<4. bit (act_flags old) n = bit (act_flags new) n)
     \<and> bit (act_flags old) 13 = bit (act_flags new) 13
     \<and> bit (act_flags old) 10 = bit (act_flags new) 10"

lemma and_eq_bits: "w AND f = v AND f \<longleftrightarrow> (\<forall>n. bit f n \<longrightarrow> bit w n = bit v n)" for w v f :: "'a::len word"
  by (subst bit_eq_iff) (auto simp: bit_and_iff dest: bit_imp_le_length)

lemma oneshot_bit: "w AND IRQF_ONESHOT \<noteq> 0 \<longleftrightarrow> bit w 13"
proof -
  have f: "IRQF_ONESHOT = 2 ^ 13" by (simp add: irqf_flags)
  have "bit IRQF_ONESHOT n \<longleftrightarrow> n = 13" for n unfolding f bit_exp_iff by auto
  then show ?thesis using and_eq_bits [of w IRQF_ONESHOT 0] by simp
qed

lemma mismatch_fits: "action_mismatch old new \<longleftrightarrow> \<not> fits old new"
proof -
  let ?o = "act_flags old" and ?n = "act_flags new"
  have f: "IRQF_SHARED = 2 ^ 7" "IRQF_ONESHOT = 2 ^ 13" "IRQF_PERCPU = 2 ^ 10" "IRQF_TRIGGER_MASK = mask 4"
    by (simp_all add: irqf_flags mask_eq_exp_minus_1)
  have b: "bit IRQF_SHARED n \<longleftrightarrow> n = 7" "bit IRQF_ONESHOT n \<longleftrightarrow> n = 13" "bit IRQF_PERCPU n \<longleftrightarrow> n = 10"
    "bit IRQF_TRIGGER_MASK n \<longleftrightarrow> n < 4" for n
    unfolding f bit_exp_iff bit_mask_iff by auto
  have z: "w AND f = 0 \<longleftrightarrow> (\<forall>n. bit f n \<longrightarrow> \<not> bit w n)" for w f :: ulong
    using and_eq_bits [of w f 0] by simp
  show ?thesis
    unfolding action_mismatch_def fits_def z and_eq_bits b by (auto simp: bit_and_iff bit_xor_iff)
qed

definition used_masks :: "irqaction list \<Rightarrow> ulong" where
  "used_masks as = fold (\<lambda>a m. m OR thread_mask a) as 0"

lemma setup_first_line:
  assumes ok: "line_ok irq d (cached_irq_mask p)" and s: "pic_sync d0 p" and irq: "irq < NR_IRQS" and a: "action d = []"
  shows "\<exists>l. setup_first inb (d, p) new = Some (l, 0) \<and> action (fst l) = [] \<and> pic_sync d0 (snd l)
    \<and> cached_irq_mask (snd l) = unset_bit irq (cached_irq_mask p) \<and> depth (fst l) = 0 \<and> line_ok irq (fst l) (cached_irq_mask (snd l))"
proof -
  have irq': "irq < 16" using irq by (simp add: NR_IRQS_def)
  have t: "uu_irq_set_trigger inb (d, p) f = Some ((d, p), 0)" for f
    using ok by (simp add: uu_irq_set_trigger_def line_ok_def chip_of_8259A i8259A_chip_def)
  have tr: "(if act_flags new AND IRQF_TRIGGER_MASK \<noteq> 0 then uu_irq_set_trigger inb (d, p) (act_flags new AND IRQF_TRIGGER_MASK)
      else Some ((d, p), 0)) = Some ((d, p), 0)" using t by simp
  define d1 where "d1 = irqd_clear (d\<lparr>istate := istate d AND NOT (IRQS_AUTODETECT OR IRQS_SPURIOUS_DISABLED OR IRQS_ONESHOT OR IRQS_WAITING)\<rparr>) IRQD_IRQ_INPROGRESS"
  define d2 where "d2 = (if act_flags new AND IRQF_PERCPU \<noteq> 0 then irq_settings_set_per_cpu (irqd_set d1 IRQD_PER_CPU) else d1)"
  define d3 where "d3 = (if act_flags new AND IRQF_ONESHOT \<noteq> 0 then d2\<lparr>istate := istate d2 OR IRQS_ONESHOT\<rparr> else d2)"
  define d4 where "d4 = irq_state_clr_masked (irq_state_clr_disabled ((irq_state_clr_disabled d3)\<lparr>depth := 0\<rparr>))"
  define d5 where "d5 = (if act_flags new AND IRQF_NOBALANCING \<noteq> 0 then irqd_set (irq_settings_set_no_balancing d4) IRQD_NO_BALANCING else d4)"
  have d3: "d_irq d3 = irq" "d_chip d3 = I8259A_chip" "irq_settings_can_autoenable d3" "handle_irq_fn d3 = Handle_level_irq"
    "\<not> bit (d_state d3) 18" "\<not> bit (istate d3) 1" "\<not> bit (istate d3) 11" "\<not> bit (status d3) 15" "action d3 = []"
    using ok a by (simp_all add: d3_def d2_def d1_def line_ok_def desc_ops bit_ops)
  have st: "irq_startup inb (d3, p) = Some ((d4, unmask_8259A_irq irq p), 0)"
    using d3 by (simp add: line_ops d4_def desc_ops)
  have run: "setup_first inb (d, p) new = Some ((d5, unmask_8259A_irq irq p), 0)"
    unfolding setup_first_def tr
    by (simp only: bind.bind_lunit prod.case Let_def d1_def [symmetric] d2_def [symmetric] d3_def [symmetric])
      (use d3(3) st in \<open>simp add: d5_def\<close>)
  have "line_ok irq d5 (unset_bit irq (cached_irq_mask p))"
    using d3 by (simp add: line_ok_def d5_def d4_def desc_ops bit_ops)
  moreover have "action d5 = []" "depth d5 = 0" using d3 by (simp_all add: d5_def d4_def desc_ops)
  ultimately show ?thesis using run unmask_8259A_irq_sync [OF s irq'] by simp
qed

lemma setup_line:
  assumes ok: "line_ok irq d (cached_irq_mask p)" and s: "pic_sync d0 p" and irq: "irq < NR_IRQS"
  shows "action d \<noteq> [] \<and> action_mismatch (hd (action d)) new \<Longrightarrow> uu_setup_irq inb irq (d, p) new = Some ((d, p), - EBUSY)"
    "\<lbrakk>action d = [] \<or> \<not> action_mismatch (hd (action d)) new; used_masks (action d) = NOT 0; act_flags new AND IRQF_ONESHOT \<noteq> 0\<rbrakk>
       \<Longrightarrow> uu_setup_irq inb irq (d, p) new = Some ((d, p), - EBUSY)"
    "\<lbrakk>action d = [] \<or> \<not> action_mismatch (hd (action d)) new; used_masks (action d) \<noteq> NOT 0\<rbrakk> \<Longrightarrow>
       \<exists>l n. uu_setup_irq inb irq (d, p) new = Some (l, 0) \<and> line_result d0 irq p l \<and> n < 32 \<and> \<not> bit (used_masks (action d)) n
         \<and> action (fst l) = action d @ [new\<lparr>thread_mask := push_bit n 1, act_irq := irq\<rparr>]
         \<and> depth (fst l) = (if action d = [] then 0 else depth d) \<and> (action d = [] \<longrightarrow> \<not> bit (cached_irq_mask (snd l)) irq)"
proof -
  have ft: "irq_setup_forced_threading new = new" by (simp add: irq_setup_forced_threading_def force_irqthreads_def)
  have ch: "d_chip d \<noteq> No_irq_chip" "\<not> irq_settings_is_nested_thread d" using ok by (simp_all add: line_ok_def)
  show "action d \<noteq> [] \<and> action_mismatch (hd (action d)) new \<Longrightarrow> uu_setup_irq inb irq (d, p) new = Some ((d, p), - EBUSY)"
    using ch ft by (simp add: uu_setup_irq_def Let_def)
  show "\<lbrakk>action d = [] \<or> \<not> action_mismatch (hd (action d)) new; used_masks (action d) = NOT 0; act_flags new AND IRQF_ONESHOT \<noteq> 0\<rbrakk>
       \<Longrightarrow> uu_setup_irq inb irq (d, p) new = Some ((d, p), - EBUSY)"
    using ch ft by (auto simp: uu_setup_irq_def used_masks_def Let_def)
  assume fit: "action d = [] \<or> \<not> action_mismatch (hd (action d)) new" and free: "used_masks (action d) \<noteq> NOT 0"
  obtain n where n: "ffz (used_masks (action d)) = Some n" using ffz_exists [OF free] by blast
  let ?new = "new\<lparr>thread_mask := push_bit n 1\<rparr>"
  have pre: "uu_setup_irq inb irq (d, p) new =
     (if action d = [] then setup_first inb (d, p) ?new else Some ((d, p), 0)) \<bind> (\<lambda>((d', p), ret).
        if ret \<noteq> 0 then Some ((d', p), ret)
        else (let d'' = d'\<lparr>action := action d' @ [?new\<lparr>act_irq := irq\<rparr>], irq_count := 0, irqs_unhandled := 0\<rparr> in
          (if action d \<noteq> [] \<and> istate d'' AND IRQS_SPURIOUS_DISABLED \<noteq> 0
           then uu_enable_irq inb (d''\<lparr>istate := istate d'' AND NOT IRQS_SPURIOUS_DISABLED\<rparr>, p) False
           else Some (d'', p)) \<bind> (\<lambda>l. Some (l, 0))))"
    unfolding uu_setup_irq_def Let_def used_masks_def [symmetric] using ch ft fit free n
    by (auto simp: Let_def intro!: arg_cong2 [where f = Option.bind])
  show "\<exists>l n. uu_setup_irq inb irq (d, p) new = Some (l, 0) \<and> line_result d0 irq p l \<and> n < 32 \<and> \<not> bit (used_masks (action d)) n
         \<and> action (fst l) = action d @ [new\<lparr>thread_mask := push_bit n 1, act_irq := irq\<rparr>]
         \<and> depth (fst l) = (if action d = [] then 0 else depth d) \<and> (action d = [] \<longrightarrow> \<not> bit (cached_irq_mask (snd l)) irq)"
  proof (cases "action d = []")
    case True
    obtain d1 p1 where l: "setup_first inb (d, p) ?new = Some ((d1, p1), 0)" "action d1 = []" "pic_sync d0 p1"
        "cached_irq_mask p1 = unset_bit irq (cached_irq_mask p)" "depth d1 = 0" "line_ok irq d1 (cached_irq_mask p1)"
      using setup_first_line [OF ok s irq True, of inb ?new] by auto
    let ?d = "d1\<lparr>action := [?new\<lparr>act_irq := irq\<rparr>], irq_count := 0, irqs_unhandled := 0\<rparr>"
    have "uu_setup_irq inb irq (d, p) new = Some ((?d, p1), 0)" using pre True l by simp
    moreover have "line_result d0 irq p (?d, p1)" using l by (auto simp: line_result_def line_ok_def bit_unset_bit_iff)
    ultimately show ?thesis using ffz_Some [OF n] True l(4,5) by (auto simp: bit_unset_bit_iff)
  next
    case False
    let ?d = "d\<lparr>action := action d @ [?new\<lparr>act_irq := irq\<rparr>], irq_count := 0, irqs_unhandled := 0\<rparr>"
    have "uu_setup_irq inb irq (d, p) new = Some ((?d, p), 0)" using pre False ok by (simp add: line_ok_def)
    moreover have "line_result d0 irq p (?d, p)" using ok s False by (simp add: line_result_def line_ok_def)
    ultimately show ?thesis using ffz_Some [OF n] False by auto
  qed
qed

text \<open>Without a free thread bit and with a handler that is not one-shot the result of \<^verbatim>\<open>ffz\<close> is undefined.\<close>

lemma setup_line_undefined:
  assumes "line_ok irq d (cached_irq_mask p)" "action d = [] \<or> \<not> action_mismatch (hd (action d)) new"
    "used_masks (action d) = NOT 0" "act_flags new AND IRQF_ONESHOT = 0"
  shows "uu_setup_irq inb irq (d, p) new = None"
proof -
  have "ffz (NOT 0) = None" by (simp add: ffz_def bsf_def)
  moreover have "irq_setup_forced_threading new = new" by (simp add: irq_setup_forced_threading_def force_irqthreads_def)
  ultimately show ?thesis using assms unfolding uu_setup_irq_def used_masks_def by (auto simp: line_ok_def Let_def)
qed

section \<open>Initialisation\<close>

lemma early_init_desc:
  "irq < NR_IRQS \<Longrightarrow> irq_desc_tab (early_irq_init m) irq = desc_set_defaults irq (irq_desc_tab m irq)"
proof -
  have "irq_desc_tab (fold (\<lambda>i m. m\<lparr>irq_desc_tab := (irq_desc_tab m)(i := desc_set_defaults i (irq_desc_tab m i))\<rparr>) xs m) irq =
      (if irq \<in> set xs then desc_set_defaults irq (irq_desc_tab m irq) else irq_desc_tab m irq)" if "distinct xs" for xs
    using that by (induction xs arbitrary: m) auto
  then show "irq < NR_IRQS \<Longrightarrow> ?thesis" by (simp add: early_irq_init_def)
qed

lemma early_init_hw: "hw (early_irq_init m) = hw m" "vector_irq (early_irq_init m) = vector_irq m" "preempt_count (early_irq_init m) = preempt_count m"
proof -
  have "hw (fold (\<lambda>i m. m\<lparr>irq_desc_tab := (irq_desc_tab m)(i := desc_set_defaults i (irq_desc_tab m i))\<rparr>) xs m) = hw m
    \<and> vector_irq (fold (\<lambda>i m. m\<lparr>irq_desc_tab := (irq_desc_tab m)(i := desc_set_defaults i (irq_desc_tab m i))\<rparr>) xs m) = vector_irq m
    \<and> preempt_count (fold (\<lambda>i m. m\<lparr>irq_desc_tab := (irq_desc_tab m)(i := desc_set_defaults i (irq_desc_tab m i))\<rparr>) xs m) = preempt_count m" for xs
    by (induction xs arbitrary: m) auto
  then show "hw (early_irq_init m) = hw m" "vector_irq (early_irq_init m) = vector_irq m" "preempt_count (early_irq_init m) = preempt_count m"
    by (simp_all add: early_irq_init_def)
qed

text \<open>The descriptor of a line after the chip and the flow handler are set.\<close>

definition legacy_desc :: "irq_desc \<Rightarrow> irq_desc" where
  "legacy_desc d = d\<lparr>d_chip := I8259A_chip, handle_irq_fn := Handle_level_irq, desc_name := Some ''XT-PIC''\<rparr>"

lemma set_chip_and_handler:
  assumes "irq < NR_IRQS"
  shows "irq_set_chip_and_handler_name inb irq I8259A_chip (Some Handle_level_irq) ''XT-PIC'' m =
    Some (m\<lparr>irq_desc_tab := (irq_desc_tab m)(irq := legacy_desc (irq_desc_tab m irq))\<rparr>)"
  using assms by (simp add: irq_set_chip_and_handler_name_def irq_set_chip_def irq_to_desc_def uu_irq_set_handler_def chip_bus_lock_def
      put_line_def legacy_desc_def)

lemma set_handlers_desc:
  "\<lbrakk>distinct xs; \<forall>i\<in>set xs. i < NR_IRQS\<rbrakk> \<Longrightarrow> set_handlers inb xs m =
    Some (m\<lparr>irq_desc_tab := (\<lambda>i. if i \<in> set xs then legacy_desc (irq_desc_tab m i) else irq_desc_tab m i)\<rparr>)"
proof (induction xs arbitrary: m)
  case (Cons i xs)
  have "(\<lambda>j. if j \<in> set xs then legacy_desc (((irq_desc_tab m)(i := legacy_desc (irq_desc_tab m i))) j)
      else ((irq_desc_tab m)(i := legacy_desc (irq_desc_tab m i))) j) =
    (\<lambda>j. if j \<in> set (i # xs) then legacy_desc (irq_desc_tab m j) else irq_desc_tab m j)"
    using Cons.prems(1) by auto
  then show ?case using Cons by (simp add: set_chip_and_handler cong: if_cong)
qed simp

lemma default_desc:
  assumes "d = static_desc"
  shows "line_ok irq (legacy_desc (desc_set_defaults irq d)) msk = bit msk irq"
  by (simp add: assms line_ok_def legacy_desc_def desc_set_defaults_def irq_settings_clr_and_set_def static_desc_def Let_def desc_ops bit_ops)

lemma init_ISA_inv:
  "\<exists>m. init_ISA_irqs inb ((early_irq_init static_machine)\<lparr>vector_irq := v\<rparr>) = Some m \<and> irq_inv d0 m \<and> vector_irq m = v \<and> preempt_count m = 0
     \<and> (\<forall>irq<NR_IRQS. action (irq_desc_tab m irq) = [] \<and> depth (irq_desc_tab m irq) = 1)"
proof -
  define m0 where "m0 = (early_irq_init static_machine)\<lparr>vector_irq := v\<rparr>"
  define m1 where "m1 = m0\<lparr>hw := init_8259A False (hw m0)\<rparr>"
  define m where "m = m1\<lparr>irq_desc_tab := (\<lambda>i. if i \<in> set [0..<NR_IRQS] then legacy_desc (irq_desc_tab m1 i) else irq_desc_tab m1 i)\<rparr>"
  have run: "init_ISA_irqs inb m0 = Some m"
    unfolding init_ISA_irqs_def m1_def [symmetric] m_def by (rule set_handlers_desc) auto
  have d: "irq_desc_tab m irq = legacy_desc (desc_set_defaults irq static_desc)" if "irq < NR_IRQS" for irq
    using that early_init_desc [of irq static_machine] by (simp add: m_def m1_def m0_def static_machine_def)
  have c: "cached_irq_mask (hw m) = 0xffff"
    by (simp add: m_def m1_def m0_def init_8259A_cached early_init_hw static_machine_def init_pic_def)
  have "bit (0xffff :: u32) irq" if "irq < NR_IRQS" for irq
  proof -
    have e: "(mask 16 :: u32) = 0xffff" by (simp add: mask_eq_exp_minus_1)
    have "bit (mask 16 :: u32) irq" unfolding bit_mask_iff using that by (simp add: NR_IRQS_def)
    then show ?thesis unfolding e .
  qed
  then have "irq_inv d0 m" using d c default_desc [OF refl] init_sync [of d0 False "hw m0"] by (simp add: irq_inv_def) (simp add: m_def m1_def)
  moreover have "action (irq_desc_tab m irq) = [] \<and> depth (irq_desc_tab m irq) = 1" if "irq < NR_IRQS" for irq
    using d [OF that] by (simp add: legacy_desc_def desc_set_defaults_def irq_settings_clr_and_set_def static_desc_def Let_def desc_ops)
  moreover have "vector_irq m = v" "preempt_count m = 0" by (simp_all add: m_def m1_def m0_def early_init_hw static_machine_def)
  ultimately show ?thesis using run unfolding m0_def by blast
qed

section \<open>Runs\<close>

text \<open>The operations on the machine that other code performs. A line whose depth is at the largest
  value of the counter is not disabled once more.\<close>

inductive irq_step :: "port_reader \<Rightarrow> (nat \<Rightarrow> nat \<Rightarrow> u32) \<Rightarrow> irq_machine \<Rightarrow> irq_machine \<Rightarrow> bool" for inb drv where
  installs: "irq < NR_IRQS \<Longrightarrow> setup_irq inb irq act m = Some (m', ret) \<Longrightarrow> irq_step inb drv m m'"
| disables: "irq < NR_IRQS \<Longrightarrow> depth (irq_desc_tab m irq) \<noteq> -1 \<Longrightarrow> disable_irq_nosync inb irq m = Some m' \<Longrightarrow> irq_step inb drv m m'"
| enables: "enable_irq inb irq m = Some m' \<Longrightarrow> irq_step inb drv m m'"
| interrupts: "do_IRQ inb drv idle vector m = Some m' \<Longrightarrow> irq_step inb drv m m'"

lemma irq_inv_cong:
  "hw m' = hw m \<Longrightarrow> irq_desc_tab m' = irq_desc_tab m \<Longrightarrow> irq_inv d0 m' = irq_inv d0 m"
  by (simp add: irq_inv_def)

lemma setup_inv:
  assumes inv: "irq_inv d0 m" and irq: "irq < NR_IRQS" and r: "setup_irq inb irq act m = Some (m', ret)"
  shows "irq_inv d0 m'"
proof -
  note l = line_of_inv [OF inv irq]
  let ?d = "irq_desc_tab m irq"
  have same: "put_line irq (?d, hw m) m = m" by (simp add: put_line_def)
  obtain x where x: "uu_setup_irq inb irq (?d, hw m) act = Some (x, ret)" "m' = put_line irq x m"
    using r l(1,4) by (auto simp: setup_irq_def bind_eq_Some_conv)
  note s = setup_line [OF l(2,3) irq, of act inb]
  consider "action ?d \<noteq> [] \<and> action_mismatch (hd (action ?d)) act"
    | "action ?d = [] \<or> \<not> action_mismatch (hd (action ?d)) act" "used_masks (action ?d) \<noteq> NOT 0"
    | "action ?d = [] \<or> \<not> action_mismatch (hd (action ?d)) act" "used_masks (action ?d) = NOT 0" "act_flags act AND IRQF_ONESHOT \<noteq> 0"
    | "action ?d = [] \<or> \<not> action_mismatch (hd (action ?d)) act" "used_masks (action ?d) = NOT 0" "act_flags act AND IRQF_ONESHOT = 0"
    by blast
  then show ?thesis
  proof cases
    case 1
    then show ?thesis using s(1) x inv same by auto
  next
    case 2
    then show ?thesis using s(3) x put_line_inv [OF inv] by auto
  next
    case 3
    then show ?thesis using s(2) x inv same by auto
  next
    case 4
    then have "uu_setup_irq inb irq (?d, hw m) act = None" by (rule setup_line_undefined [OF l(2)])
    then show ?thesis using x(1) by simp
  qed
qed

lemma disable_inv:
  assumes inv: "irq_inv d0 m" and irq: "irq < NR_IRQS" and dp: "depth (irq_desc_tab m irq) \<noteq> -1"
  shows "\<exists>m'. disable_irq_nosync inb irq m = Some m' \<and> irq_inv d0 m' \<and> depth (irq_desc_tab m' irq) = depth (irq_desc_tab m irq) + 1"
proof -
  note l = line_of_inv [OF inv irq]
  obtain x where "uu_disable_irq inb (irq_desc_tab m irq, hw m) False = Some x" "line_result d0 irq (hw m) x"
      "depth (fst x) = depth (irq_desc_tab m irq) + 1"
    using disable_line [OF l(2,3) irq dp] by blast
  then show ?thesis using l put_line_inv [OF inv]
    by (auto simp: disable_irq_nosync_def uu_disable_irq_nosync_def put_line_def)
qed

lemma enable_inv:
  assumes inv: "irq_inv d0 m"
  shows "\<exists>m'. enable_irq inb irq m = Some m' \<and> irq_inv d0 m' \<and> (irq < NR_IRQS \<longrightarrow>
    depth (irq_desc_tab m' irq) = (if depth (irq_desc_tab m irq) = 0 then 0 else depth (irq_desc_tab m irq) - 1))"
proof (cases "irq < NR_IRQS")
  case True
  note l = line_of_inv [OF inv True]
  obtain x where "uu_enable_irq inb (irq_desc_tab m irq, hw m) False = Some x" "line_result d0 irq (hw m) x"
      "depth (fst x) = (if depth (irq_desc_tab m irq) = 0 then 0 else depth (irq_desc_tab m irq) - 1)"
    using enable_line [OF l(2,3) True] by blast
  moreover have "d_chip (irq_desc_tab m irq) \<noteq> Null_chip" using l(2) by (simp add: line_ok_def)
  ultimately show ?thesis using l put_line_inv [OF inv] by (auto simp: enable_irq_def put_line_def)
next
  case False
  then show ?thesis using inv by (simp add: enable_irq_def irq_to_desc_def)
qed

lemma handle_irq_inv:
  assumes inv: "irq_inv d0 m"
  shows "\<exists>m'. handle_irq inb drv irq m = Some (m', irq < NR_IRQS) \<and> irq_inv d0 m' \<and> preempt_count m' = preempt_count m \<and> vector_irq m' = vector_irq m
    \<and> calls m' = calls m @ (if irq < NR_IRQS \<and> depth (irq_desc_tab m irq) = 0 then map (\<lambda>a. (irq, handler a)) (action (irq_desc_tab m irq)) else [])"
proof (cases "irq < NR_IRQS")
  case True
  note l = line_of_inv [OF inv True]
  obtain x where x: "handle_level_irq inb drv (irq_desc_tab m irq, hw m) =
        Some (x, if depth (irq_desc_tab m irq) = 0 then map handler (action (irq_desc_tab m irq)) else [])"
      "line_result d0 irq (hw m) x"
    using level_line [OF l(2,3) True] by blast
  let ?m = "(put_line irq x m)\<lparr>calls := calls m @ map (\<lambda>h. (irq, h)) (if depth (irq_desc_tab m irq) = 0 then map handler (action (irq_desc_tab m irq)) else [])\<rparr>"
  have "handle_irq inb drv irq m = Some (?m, True)" using x l by (simp add: handle_irq_def line_ok_def)
  moreover have "irq_inv d0 ?m" using put_line_inv [OF inv x(2)] by (simp add: irq_inv_def)
  ultimately show ?thesis using True by (auto simp: put_line_def)
next
  case False
  then show ?thesis using inv by (simp add: handle_irq_def irq_to_desc_def)
qed

lemma enter_exit: "irq_exit (irq_enter idle pc) = pc"
  by (simp add: irq_exit_def irq_enter_def IRQ_EXIT_OFFSET_def local_bh_enable_def local_bh_disable_def)

lemma do_IRQ_inv:
  fixes vector :: nat
  assumes inv: "irq_inv d0 m"
  defines "irq \<equiv> unat (word_of_int (vector_irq m vector) :: u32)"
  shows "\<exists>m'. do_IRQ inb drv idle vector m = Some m' \<and> irq_inv d0 m' \<and> preempt_count m' = preempt_count m
    \<and> calls m' = calls m @ (if irq < NR_IRQS \<and> depth (irq_desc_tab m irq) = 0 then map (\<lambda>a. (irq, handler a)) (action (irq_desc_tab m irq)) else [])"
proof -
  let ?m = "m\<lparr>preempt_count := irq_enter idle (preempt_count m)\<rparr>"
  have "irq_inv d0 ?m" using inv irq_inv_cong [of ?m m] by simp
  then obtain m1 where m1: "handle_irq inb drv irq ?m = Some (m1, irq < NR_IRQS)" "irq_inv d0 m1" "preempt_count m1 = irq_enter idle (preempt_count m)"
      "calls m1 = calls m @ (if irq < NR_IRQS \<and> depth (irq_desc_tab m irq) = 0 then map (\<lambda>a. (irq, handler a)) (action (irq_desc_tab m irq)) else [])"
    using handle_irq_inv [of d0 ?m inb drv irq] by auto
  have "do_IRQ inb drv idle vector m = Some (m1\<lparr>preempt_count := irq_exit (preempt_count m1)\<rparr>)"
    using m1(1) by (simp add: do_IRQ_def irq_def)
  moreover have "irq_inv d0 (m1\<lparr>preempt_count := irq_exit (preempt_count m1)\<rparr>)" using m1(2) by (simp add: irq_inv_def)
  ultimately show ?thesis using m1 enter_exit by auto
qed

lemma irq_step_inv: "irq_step inb drv m m' \<Longrightarrow> irq_inv d0 m \<Longrightarrow> irq_inv d0 m'"
proof (induction rule: irq_step.induct)
  case (installs irq act m m' ret)
  then show ?case using setup_inv by blast
next
  case (disables irq m m')
  then show ?case using disable_inv [of d0 m irq inb] by auto
next
  case (enables irq m m')
  then show ?case using enable_inv [of d0 m inb irq] by auto
next
  case (interrupts idle vector m m')
  then show ?case using do_IRQ_inv [of d0 m inb drv idle vector] by auto
qed

lemma irq_run_inv: "(irq_step inb drv)\<^sup>*\<^sup>* m m' \<Longrightarrow> irq_inv d0 m \<Longrightarrow> irq_inv d0 m'"
  by (induction rule: rtranclp_induct) (blast intro: irq_step_inv)+

section \<open>Properties\<close>

text \<open>The controllers at power-on, for examples.\<close>

definition reset_regs :: pic_regs where
  "reset_regs = \<lparr>imr = 0, isr = 0, icw1 = 0, icw2 = 0, icw3 = 0, icw4 = 0, phase = 0\<rparr>"

lemma vectors: "irq < NR_IRQS \<Longrightarrow> fold (\<lambda>i v. v(unat IRQ0_VECTOR + i := int i)) [0..<NR_IRQS] f (unat IRQ0_VECTOR + irq) = int irq"
proof -
  have "fold (\<lambda>i v. v(b + i := int i)) xs f (b + irq) = (if irq \<in> set xs then int irq else f (b + irq))" for b :: nat and xs
    by (induction xs arbitrary: f) auto
  then show "irq < NR_IRQS \<Longrightarrow> ?thesis" by simp
qed

lemma init_IRQ_inv:
  "\<exists>m. init_IRQ inb (early_irq_init static_machine) = Some m \<and> irq_inv d0 m \<and> preempt_count m = 0
    \<and> (\<forall>irq<NR_IRQS. irq \<noteq> PIC_CASCADE_IR \<longrightarrow> action (irq_desc_tab m irq) = [])
    \<and> (\<forall>irq<NR_IRQS. vector_irq m (unat IRQ0_VECTOR + irq) = int irq
        \<and> (depth (irq_desc_tab m irq) \<noteq> 0 \<longleftrightarrow> irq \<noteq> PIC_CASCADE_IR) \<and> (irq = PIC_CASCADE_IR \<longrightarrow> action (irq_desc_tab m irq) \<noteq> [])
        \<and> line_masked (devices d0 (hw m)) irq = (irq \<noteq> PIC_CASCADE_IR))"
proof -
  define v where "v = fold (\<lambda>i v. v(unat IRQ0_VECTOR + i := int i)) [0..<NR_IRQS] (vector_irq (early_irq_init static_machine))"
  obtain m where m: "init_ISA_irqs inb ((early_irq_init static_machine)\<lparr>vector_irq := v\<rparr>) = Some m" "irq_inv d0 m" "vector_irq m = v" "preempt_count m = 0"
      "\<forall>irq<NR_IRQS. action (irq_desc_tab m irq) = [] \<and> depth (irq_desc_tab m irq) = 1"
    using init_ISA_inv [of inb v d0] by blast
  have two: "2 < NR_IRQS" by (simp add: NR_IRQS_def)
  note l = line_of_inv [OF m(2) two]
  have a: "action (irq_desc_tab m 2) = []" using m(5) two by blast
  obtain x n where x: "uu_setup_irq inb 2 (irq_desc_tab m 2, hw m) irq2 = Some (x, 0)" "line_result d0 2 (hw m) x"
      "action (fst x) = [irq2\<lparr>thread_mask := push_bit n 1, act_irq := 2\<rparr>]" "depth (fst x) = 0" "\<not> bit (cached_irq_mask (snd x)) 2"
    using setup_line(3) [OF l(2,3) two, of irq2 inb] a by (auto simp: used_masks_def)
  let ?m = "put_line 2 x m"
  have run: "init_IRQ inb (early_irq_init static_machine) = Some ?m"
    using m(1) x(1) l by (simp add: init_IRQ_def native_init_IRQ_def setup_irq_def v_def)
  have inv: "irq_inv d0 ?m" by (rule put_line_inv [OF m(2) x(2)])
  have vec: "vector_irq ?m (unat IRQ0_VECTOR + irq) = int irq" if "irq < NR_IRQS" for irq
    using vectors [OF that] m(3) by (simp add: put_line_def v_def)
  have "line_masked (devices d0 (hw ?m)) irq = (irq \<noteq> 2)" if i: "irq < NR_IRQS" for irq
  proof -
    have i': "irq < 16" using i by (simp add: NR_IRQS_def)
    have "bit (cached_irq_mask (hw m)) irq" using line_of_inv(2) [OF m(2) i] m(5) i by (simp add: line_ok_def)
    then have "bit (cached_irq_mask (hw ?m)) irq = (irq \<noteq> 2)" using x(2,5) by (auto simp: put_line_def line_result_def)
    moreover have "pic_sync d0 (hw ?m)" using inv by (simp add: irq_inv_def)
    ultimately show ?thesis using sync_line [OF _ i'] by simp
  qed
  moreover have "action (irq_desc_tab ?m irq) = []" if "irq < NR_IRQS" "irq \<noteq> PIC_CASCADE_IR" for irq
    using m(5) that by (simp add: put_line_def PIC_CASCADE_IR_def)
  ultimately show ?thesis using run inv vec m(4,5) x(3,4) by (auto simp: PIC_CASCADE_IR_def) (auto simp: put_line_def split: if_splits)
qed

lemma setup_irq_spec:
  fixes new :: irqaction
  assumes "irq_inv d0 m" "irq < NR_IRQS"
  defines "d \<equiv> irq_desc_tab m irq"
  defines "misfit \<equiv> action d \<noteq> [] \<and> \<not> fits (hd (action d)) new"
  defines "oneshot \<equiv> bit (act_flags new) 13"
  shows "misfit \<or> used_masks (action d) = NOT 0 \<and> oneshot \<Longrightarrow> setup_irq inb irq new m = Some (m, - EBUSY)"
    and "\<not> misfit \<Longrightarrow> used_masks (action d) = NOT 0 \<Longrightarrow> \<not> oneshot \<Longrightarrow> setup_irq inb irq new m = None"
    and "\<not> misfit \<Longrightarrow> used_masks (action d) \<noteq> NOT 0 \<Longrightarrow>
      \<exists>m' n. setup_irq inb irq new m = Some (m', 0) \<and> irq_inv d0 m' \<and> n < 32 \<and> \<not> bit (used_masks (action d)) n
        \<and> action (irq_desc_tab m' irq) = action d @ [new\<lparr>thread_mask := push_bit n 1, act_irq := irq\<rparr>]
        \<and> depth (irq_desc_tab m' irq) = (if action d = [] then 0 else depth d)
        \<and> (action d = [] \<longrightarrow> \<not> line_masked (devices d0 (hw m')) irq)
        \<and> (\<forall>j. j \<noteq> irq \<longrightarrow> irq_desc_tab m' j = irq_desc_tab m j)
        \<and> calls m' = calls m \<and> vector_irq m' = vector_irq m"
proof -
  note l = line_of_inv [OF assms(1,2), folded d_def]
  note s = setup_line [OF l(2,3) assms(2), of new inb, unfolded mismatch_fits]
  have i: "irq < 16" using assms(2) by (simp add: NR_IRQS_def)
  have same: "put_line irq (d, hw m) m = m" by (simp add: put_line_def d_def)
  have run: "setup_irq inb irq new m = map_option (\<lambda>(x, r). (put_line irq x m, r)) (uu_setup_irq inb irq (d, hw m) new)"
    using l by (auto simp: setup_irq_def map_option_case split: option.splits)
  have os: "act_flags new AND IRQF_ONESHOT \<noteq> 0 \<longleftrightarrow> oneshot" by (simp add: oneshot_def oneshot_bit)
  show "setup_irq inb irq new m = Some (m, - EBUSY)" if "misfit \<or> used_masks (action d) = NOT 0 \<and> oneshot"
  proof -
    have "uu_setup_irq inb irq (d, hw m) new = Some ((d, hw m), - EBUSY)" using that s(1,2) os by (auto simp: misfit_def)
    then show ?thesis using run same by simp
  qed
  show "setup_irq inb irq new m = None" if "\<not> misfit" "used_masks (action d) = NOT 0" "\<not> oneshot"
    using run setup_line_undefined [OF l(2), of new] that os by (auto simp: misfit_def mismatch_fits)
  assume fit: "\<not> misfit" and free: "used_masks (action d) \<noteq> NOT 0"
  obtain x n where x: "uu_setup_irq inb irq (d, hw m) new = Some (x, 0)" "line_result d0 irq (hw m) x" "n < 32"
      "\<not> bit (used_masks (action d)) n" "action (fst x) = action d @ [new\<lparr>thread_mask := push_bit n 1, act_irq := irq\<rparr>]"
      "depth (fst x) = (if action d = [] then 0 else depth d)" "action d = [] \<longrightarrow> \<not> bit (cached_irq_mask (snd x)) irq"
    using s(3) fit free unfolding misfit_def by blast
  have "line_masked (devices d0 (snd x)) irq = bit (cached_irq_mask (snd x)) irq"
    using sync_line [of d0 "snd x", OF _ i] x(2) by (simp add: line_result_def)
  then show "\<exists>m' n. setup_irq inb irq new m = Some (m', 0) \<and> irq_inv d0 m' \<and> n < 32 \<and> \<not> bit (used_masks (action d)) n
        \<and> action (irq_desc_tab m' irq) = action d @ [new\<lparr>thread_mask := push_bit n 1, act_irq := irq\<rparr>]
        \<and> depth (irq_desc_tab m' irq) = (if action d = [] then 0 else depth d)
        \<and> (action d = [] \<longrightarrow> \<not> line_masked (devices d0 (hw m')) irq)
        \<and> (\<forall>j. j \<noteq> irq \<longrightarrow> irq_desc_tab m' j = irq_desc_tab m j)
        \<and> calls m' = calls m \<and> vector_irq m' = vector_irq m"
    using run x put_line_inv [OF assms(1) x(2)]
    by (intro exI [of _ "put_line irq x m"] exI [of _ n]) (simp add: put_line_def)
qed

text \<open>Two drivers on one line, for examples.\<close>

definition shared_driver :: "nat \<Rightarrow> irqaction" where
  "shared_driver k = \<lparr>handler = Driver k, act_flags = IRQF_SHARED, act_irq = 0, thread_fn = None, thread_flags = 0, thread_mask = 0,
     act_name = ''driver''\<rparr>"

lemma shared_line:
  fixes inb :: port_reader
  shows "\<exists>m0 m1 m. init_IRQ inb (early_irq_init static_machine) = Some m0 \<and> setup_irq inb 3 (shared_driver 0) m0 = Some (m1, 0)
    \<and> setup_irq inb 3 (shared_driver 1) m1 = Some (m, 0) \<and> irq_inv d0 m0 \<and> irq_inv d0 m \<and> depth (irq_desc_tab m 3) = 0
    \<and> map handler (action (irq_desc_tab m 3)) = [Driver 0, Driver 1] \<and> vector_irq m 0x33 = 3 \<and> calls m = calls m0"
proof -
  have three: "3 < NR_IRQS" "unat IRQ0_VECTOR + 3 = 0x33" by (simp_all add: NR_IRQS_def IRQ0_VECTOR_def)
  obtain m0 where m0: "init_IRQ inb (early_irq_init static_machine) = Some m0" "irq_inv d0 m0"
    "action (irq_desc_tab m0 3) = []" "vector_irq m0 0x33 = 3"
    using init_IRQ_inv [of inb d0] three unfolding PIC_CASCADE_IR_def by (metis numeral_eq_iff of_nat_numeral semiring_norm(88,89))
  obtain m1 n where m1: "setup_irq inb 3 (shared_driver 0) m0 = Some (m1, 0)" "irq_inv d0 m1" "n < 32"
    "action (irq_desc_tab m1 3) = [(shared_driver 0)\<lparr>thread_mask := push_bit n 1, act_irq := 3\<rparr>]" "depth (irq_desc_tab m1 3) = 0"
    "calls m1 = calls m0" "vector_irq m1 = vector_irq m0"
    using setup_irq_spec(3) [OF m0(2) three(1), of "shared_driver 0" inb] m0(3) by (auto simp: used_masks_def)
  have "push_bit n (1 :: ulong) \<noteq> NOT 0"
  proof
    assume "push_bit n (1 :: ulong) = NOT 0"
    then have "bit (push_bit n (1 :: ulong)) 0" "bit (push_bit n (1 :: ulong)) 1" by simp_all
    then show False unfolding push_bit_of_1 bit_exp_iff by simp
  qed
  then have "used_masks (action (irq_desc_tab m1 3)) \<noteq> NOT 0" using m1(4) by (simp add: used_masks_def)
  moreover have "fits (hd (action (irq_desc_tab m1 3))) (shared_driver 1)"
    using m1(4) by (simp add: fits_def shared_driver_def irqf_flags bit_simps)
  ultimately obtain m where "setup_irq inb 3 (shared_driver 1) m1 = Some (m, 0)" "irq_inv d0 m" "depth (irq_desc_tab m 3) = 0"
    "map handler (action (irq_desc_tab m 3)) = [Driver 0, Driver 1]" "calls m = calls m0" "vector_irq m = vector_irq m0"
    using setup_irq_spec(3) [OF m1(2) three(1), of "shared_driver 1" inb] m1 by (auto simp: shared_driver_def)
  then show ?thesis using m0 m1(1) by metis
qed

text \<open>C13. The initialisation of the interrupts returns and establishes the invariant: each of the 16 lines
  is reached by its vector, the cascade line is enabled, and every other line is disabled and masked in
  the controllers.\<close>

theorem init_IRQ_correct:
  "\<exists>m. init_IRQ inb (early_irq_init static_machine) = Some m \<and> irq_inv d0 m \<and> preempt_count m = 0
    \<and> (\<forall>irq<NR_IRQS. vector_irq m (unat IRQ0_VECTOR + irq) = int irq
        \<and> (depth (irq_desc_tab m irq) \<noteq> 0 \<longleftrightarrow> irq \<noteq> PIC_CASCADE_IR) \<and> (irq = PIC_CASCADE_IR \<longrightarrow> action (irq_desc_tab m irq) \<noteq> [])
        \<and> line_masked (devices d0 (hw m)) irq = (irq \<noteq> PIC_CASCADE_IR))"
  using init_IRQ_inv by blast

theorem init_IRQ_correct_witness:
  "\<exists>m. init_IRQ (\<lambda>_ _. 0) (early_irq_init static_machine) = Some m \<and> vector_irq m 0x3f = 15"
proof -
  have "unat IRQ0_VECTOR + 15 = 0x3f" "15 < NR_IRQS" by (simp_all add: IRQ0_VECTOR_def NR_IRQS_def)
  then show ?thesis using init_IRQ_correct [of "\<lambda>_ _. 0" "(reset_regs, reset_regs)"] by (metis of_nat_numeral)
qed

text \<open>C10. In every state that installing handlers, disabling, enabling and interrupts lead to: a line is marked
  disabled exactly while its depth is not 0, and is then masked in the controllers; an enabled line
  with handlers that are not one-shot is not masked. Enabling a line and taking an interrupt return,
  and so does disabling while the depth is not at its largest value.\<close>

theorem irq_runs_safe:
  assumes "irq_inv d0 m0" "(irq_step inb drv)\<^sup>*\<^sup>* m0 m" "irq < NR_IRQS"
  shows "let d = irq_desc_tab m irq in (irqd_irq_disabled d \<longleftrightarrow> depth d \<noteq> 0)
    \<and> (depth d \<noteq> 0 \<longrightarrow> line_masked (devices d0 (hw m)) irq)
    \<and> (depth d = 0 \<and> action d \<noteq> [] \<and> istate d AND IRQS_ONESHOT = 0 \<longrightarrow> \<not> line_masked (devices d0 (hw m)) irq)
    \<and> (\<exists>m'. enable_irq inb irq m = Some m') \<and> (\<forall>idle vector. \<exists>m'. do_IRQ inb drv idle vector m = Some m')
    \<and> (depth d \<noteq> -1 \<longrightarrow> (\<exists>m'. disable_irq_nosync inb irq m = Some m'))"
proof -
  have inv: "irq_inv d0 m" by (rule irq_run_inv [OF assms(2,1)])
  note l = line_of_inv [OF inv assms(3)]
  have i: "irq < 16" using assms(3) by (simp add: NR_IRQS_def)
  have "\<exists>m'. enable_irq inb irq m = Some m'" "\<forall>idle vector. \<exists>m'. do_IRQ inb drv idle vector m = Some m'"
    "depth (irq_desc_tab m irq) \<noteq> -1 \<Longrightarrow> \<exists>m'. disable_irq_nosync inb irq m = Some m'"
    using enable_inv [OF inv] do_IRQ_inv [OF inv] disable_inv [OF inv assms(3)] by blast+
  then show ?thesis using l(2) sync_line [OF l(3) i] by (simp add: line_ok_def Let_def)
qed

text \<open>Two handlers are installed, then the line has an interrupt.\<close>

theorem irq_runs_safe_witness:
  "\<exists>m0 m. init_IRQ (\<lambda>_ _. 0) (early_irq_init static_machine) = Some m0 \<and> (irq_step (\<lambda>_ _. 0) (\<lambda>_ _. 1))\<^sup>*\<^sup>* m0 m \<and> m \<noteq> m0
    \<and> (irqd_irq_disabled (irq_desc_tab m 3) \<longleftrightarrow> depth (irq_desc_tab m 3) \<noteq> 0) \<and> (\<exists>m'. enable_irq (\<lambda>_ _. 0) 3 m = Some m')"
proof -
  let ?i = "\<lambda>_ _. 0 :: u8"
  have three: "3 < NR_IRQS" by (simp add: NR_IRQS_def)
  obtain m0 m1 m where m: "init_IRQ ?i (early_irq_init static_machine) = Some m0" "setup_irq ?i 3 (shared_driver 0) m0 = Some (m1, 0)"
    "setup_irq ?i 3 (shared_driver 1) m1 = Some (m, 0)" "irq_inv (reset_regs, reset_regs) m0" "irq_inv (reset_regs, reset_regs) m"
    "depth (irq_desc_tab m 3) = 0" "map handler (action (irq_desc_tab m 3)) = [Driver 0, Driver 1]" "vector_irq m 0x33 = 3" "calls m = calls m0"
    using shared_line [of ?i "(reset_regs, reset_regs)"] by (elim exE conjE) (rule that)
  obtain m' where m': "do_IRQ ?i (\<lambda>_ _. 1) False 0x33 m = Some m'"
    "calls m' = calls m0 @ map (\<lambda>a. (3, handler a)) (action (irq_desc_tab m 3))"
    using do_IRQ_inv [OF m(5), of ?i "\<lambda>_ _. 1" False "0x33"] m(6,8,9) three by auto
  have run: "(irq_step ?i (\<lambda>_ _. 1))\<^sup>*\<^sup>* m0 m'"
    using irq_step.installs [OF three m(2)] irq_step.installs [OF three m(3)] irq_step.interrupts [OF m'(1)]
    by (meson rtranclp.rtrancl_into_rtrancl rtranclp.rtrancl_refl)
  have "action (irq_desc_tab m 3) \<noteq> []" using m(7) by auto
  then have "m' \<noteq> m0" using m'(2) by auto
  then show ?thesis using m(1) run irq_runs_safe [OF m(4) run three] by (auto simp: Let_def)
qed

text \<open>C11. An interrupt at a vector calls every handler of its line exactly once and in the order in which they
  were installed, if the line is enabled; for a disabled line or a vector without a line it calls none. The
  preemption counter is what it was, and the invariant holds again.\<close>

theorem do_IRQ_correct:
  fixes vector :: nat
  assumes "irq_inv d0 m"
  defines "irq \<equiv> unat (word_of_int (vector_irq m vector) :: u32)"
  shows "\<exists>m'. do_IRQ inb drv idle vector m = Some m' \<and> irq_inv d0 m' \<and> preempt_count m' = preempt_count m
    \<and> calls m' = calls m @ (if irq < NR_IRQS \<and> depth (irq_desc_tab m irq) = 0
        then map (\<lambda>a. (irq, handler a)) (action (irq_desc_tab m irq)) else [])"
  unfolding irq_def by (rule do_IRQ_inv [OF assms(1)])

theorem do_IRQ_correct_witness:
  "\<exists>m0 m1 m m'. init_IRQ (\<lambda>_ _. 0) (early_irq_init static_machine) = Some m0 \<and> setup_irq (\<lambda>_ _. 0) 3 (shared_driver 0) m0 = Some (m1, 0)
    \<and> setup_irq (\<lambda>_ _. 0) 3 (shared_driver 1) m1 = Some (m, 0)
    \<and> do_IRQ (\<lambda>_ _. 0) (\<lambda>_ _. 0) False 0x33 m = Some m' \<and> calls m' = calls m0 @ [(3, Driver 0), (3, Driver 1)]"
proof -
  obtain m0 m1 m where m: "init_IRQ (\<lambda>_ _. 0) (early_irq_init static_machine) = Some m0" "setup_irq (\<lambda>_ _. 0) 3 (shared_driver 0) m0 = Some (m1, 0)"
    "setup_irq (\<lambda>_ _. 0) 3 (shared_driver 1) m1 = Some (m, 0)" "irq_inv (reset_regs, reset_regs) m" "depth (irq_desc_tab m 3) = 0"
    "map handler (action (irq_desc_tab m 3)) = [Driver 0, Driver 1]" "vector_irq m 0x33 = 3" "calls m = calls m0"
    using shared_line [of "\<lambda>_ _. 0" "(reset_regs, reset_regs)"] by (elim exE conjE) (rule that)
  have "3 < NR_IRQS" by (simp add: NR_IRQS_def)
  moreover have "map (\<lambda>a. (3 :: nat, handler a)) (action (irq_desc_tab m 3)) = map (Pair 3) (map handler (action (irq_desc_tab m 3)))" by simp
  ultimately show ?thesis
    using m do_IRQ_correct [OF m(4), of "\<lambda>_ _. 0" "\<lambda>_ _. 0" False "0x33"] by (auto simp del: map_map)
qed

text \<open>C12. Installing a handler on a legacy line fails with \<open>EBUSY\<close> and changes nothing exactly if the line has handlers
  and the new one does not fit the first one (one of them is not shared, or they differ in the trigger type, in being
  one-shot or in being per-processor), or if a one-shot handler finds no free thread bit. A handler that is not
  one-shot and finds no free thread bit is not refused: the number of its thread bit is undefined. In all other cases
  the installation succeeds: the handler is appended with a thread bit that no other handler of the line has, no other line
  changes, the invariant holds, and the first handler of a line enables and unmasks it.\<close>

theorem setup_irq_correct:
  fixes new :: irqaction
  assumes "irq_inv d0 m" "irq < NR_IRQS"
  defines "d \<equiv> irq_desc_tab m irq"
  defines "misfit \<equiv> action d \<noteq> [] \<and> \<not> fits (hd (action d)) new"
  defines "oneshot \<equiv> bit (act_flags new) 13"
  shows "if misfit \<or> used_masks (action d) = NOT 0 \<and> oneshot then setup_irq inb irq new m = Some (m, - EBUSY)
    else if used_masks (action d) = NOT 0 then setup_irq inb irq new m = None
    else \<exists>m' n. setup_irq inb irq new m = Some (m', 0) \<and> irq_inv d0 m' \<and> n < 32 \<and> \<not> bit (used_masks (action d)) n
        \<and> action (irq_desc_tab m' irq) = action d @ [new\<lparr>thread_mask := push_bit n 1, act_irq := irq\<rparr>]
        \<and> depth (irq_desc_tab m' irq) = (if action d = [] then 0 else depth d)
        \<and> (action d = [] \<longrightarrow> \<not> line_masked (devices d0 (hw m')) irq)
        \<and> (\<forall>j. j \<noteq> irq \<longrightarrow> irq_desc_tab m' j = irq_desc_tab m j)"
proof -
  note s = setup_irq_spec [OF assms(1,2), of new inb, folded d_def, folded misfit_def oneshot_def]
  consider "misfit \<or> used_masks (action d) = NOT 0 \<and> oneshot" | "\<not> misfit" "used_masks (action d) = NOT 0" "\<not> oneshot"
    | "\<not> misfit" "used_masks (action d) \<noteq> NOT 0"
    by blast
  then show ?thesis
  proof cases
    case 1
    then show ?thesis using s(1) by simp
  next
    case 2
    then show ?thesis using s(2) by simp
  next
    case 3
    then show ?thesis using s(3) by (simp only: simp_thms if_False) blast
  qed
qed

text \<open>A line that is shared by two drivers, and a third handler that is refused.\<close>

theorem setup_irq_correct_witness:
  "\<exists>m m' m''. init_IRQ (\<lambda>_ _. 0) (early_irq_init static_machine) = Some m
    \<and> setup_irq (\<lambda>_ _. 0) 3 (shared_driver 0) m = Some (m', 0) \<and> handler (last (action (irq_desc_tab m' 3))) = Driver 0
    \<and> setup_irq (\<lambda>_ _. 0) 3 irq0 m' = Some (m'', - EBUSY)"
proof -
  have three: "3 < NR_IRQS" by (simp add: NR_IRQS_def)
  obtain m where m: "init_IRQ (\<lambda>_ _. 0) (early_irq_init static_machine) = Some m" "irq_inv (reset_regs, reset_regs) m"
    "action (irq_desc_tab m 3) = []"
    using init_IRQ_inv [of "\<lambda>_ _. 0" "(reset_regs, reset_regs)"] three unfolding PIC_CASCADE_IR_def by fastforce
  obtain m' n where m': "setup_irq (\<lambda>_ _. 0) 3 (shared_driver 0) m = Some (m', 0)" "irq_inv (reset_regs, reset_regs) m'"
    "action (irq_desc_tab m' 3) = [(shared_driver 0)\<lparr>thread_mask := push_bit n 1, act_irq := 3\<rparr>]"
    using setup_irq_correct [OF m(2) three, of "shared_driver 0" "\<lambda>_ _. 0"] m(3) by (auto simp: used_masks_def)
  have "\<not> bit (act_flags irq0) 7" by (simp add: irq0_def irqf_flags bit_simps)
  then show ?thesis using m(1) m' setup_irq_correct [OF m'(2) three, of irq0 "\<lambda>_ _. 0"]
    by (auto simp: fits_def shared_driver_def)
qed

section \<open>Defects of the code\<close>

text \<open>Unmasking leaves the descriptor marked as masked.\<close>

lemma unmask_marks_masked: "unmask_irq inb (d, p) = Some (d', p') \<Longrightarrow> d_chip d = I8259A_chip \<Longrightarrow> irqd_irq_masked d'"
  by (auto simp: line_ops desc_ops bit_ops)

text \<open>A line number without a descriptor makes \<^verbatim>\<open>setup_irq\<close> read through a null pointer.\<close>

lemma setup_irq_null: "NR_IRQS \<le> irq \<Longrightarrow> setup_irq inb irq act m = None"
  by (simp add: setup_irq_def irq_to_desc_def)

end
