(* ===== verification/Slab_Sizes.thy ===== *)
theory Slab_Sizes
  imports Page_Alloc String_Lib
begin

text \<open>
  The descriptors of the slab allocator and the computation of their geometry: \<^verbatim>\<open>struct
  kmem_cache\<close> (\<^verbatim>\<open>include/Xc/slub_def.h\<close>), the flags of \<^verbatim>\<open>include/Xc/slab.h\<close>, and in
  \<^verbatim>\<open>mm/slub.c\<close> the packing of an order with a number of objects, the choice of the order of a
  slab (\<^verbatim>\<open>slab_order\<close>, \<^verbatim>\<open>calculate_order\<close>), \<^verbatim>\<open>calculate_alignment\<close>,
  \<^verbatim>\<open>calculate_sizes\<close>, and the choice of a cache for \<^verbatim>\<open>kmalloc\<close>. Sizes are words, as in the
  expressions of the code; orders and small counts that the code keeps in an \<^verbatim>\<open>int\<close> and lets
  become negative are integers. \<^verbatim>\<open>slub_min_order\<close>, \<^verbatim>\<open>slub_max_order\<close> and
  \<^verbatim>\<open>slub_min_objects\<close> are never assigned and are constants here.
\<close>

section \<open>Constants\<close>

definition SLAB_DEBUG_FREE :: ulong where "SLAB_DEBUG_FREE = 0x00000100"
definition SLAB_RED_ZONE :: ulong where "SLAB_RED_ZONE = 0x00000400"
definition SLAB_POISON :: ulong where "SLAB_POISON = 0x00000800"
definition SLAB_HWCACHE_ALIGN :: ulong where "SLAB_HWCACHE_ALIGN = 0x00002000"
definition SLAB_CACHE_DMA :: ulong where "SLAB_CACHE_DMA = 0x00004000"
definition SLAB_STORE_USER :: ulong where "SLAB_STORE_USER = 0x00010000"
definition SLAB_RECLAIM_ACCOUNT :: ulong where "SLAB_RECLAIM_ACCOUNT = 0x00020000"
definition SLAB_PANIC :: ulong where "SLAB_PANIC = 0x00040000"
definition SLAB_DESTROY_BY_RCU :: ulong where "SLAB_DESTROY_BY_RCU = 0x00080000"
definition SLAB_TRACE :: ulong where "SLAB_TRACE = 0x00200000"
definition CMPXCHG_DOUBLE :: ulong where "CMPXCHG_DOUBLE = 0x40000000"

definition SLAB_DEBUG_FLAGS :: ulong where
  "SLAB_DEBUG_FLAGS = SLAB_RED_ZONE OR SLAB_POISON OR SLAB_STORE_USER OR SLAB_TRACE OR SLAB_DEBUG_FREE"

lemmas slab_flags = SLAB_DEBUG_FREE_def SLAB_RED_ZONE_def SLAB_POISON_def SLAB_HWCACHE_ALIGN_def SLAB_CACHE_DMA_def
  SLAB_STORE_USER_def SLAB_RECLAIM_ACCOUNT_def SLAB_PANIC_def SLAB_DESTROY_BY_RCU_def SLAB_TRACE_def CMPXCHG_DOUBLE_def
  SLAB_DEBUG_FLAGS_def

definition MIN_PARTIAL :: ulong where "MIN_PARTIAL = 5"
definition MAX_PARTIAL :: ulong where "MAX_PARTIAL = 10"
definition OO_SHIFT :: nat where "OO_SHIFT = 16"
definition OO_MASK :: ulong where "OO_MASK = push_bit OO_SHIFT 1 - 1"
definition MAX_OBJS_PER_PAGE :: int where "MAX_OBJS_PER_PAGE = 0x7FFF"
definition slub_min_order :: int where "slub_min_order = 0"
definition slub_max_order :: int where "slub_max_order = 3"
definition slub_min_objects :: int where "slub_min_objects = 0"
definition sizeof_ptr :: ulong where "sizeof_ptr = 4"
definition cache_line_size :: ulong where "cache_line_size = push_bit 5 1"
definition ARCH_SLAB_MINALIGN :: ulong where "ARCH_SLAB_MINALIGN = 8"
definition ARCH_KMALLOC_MINALIGN :: ulong where "ARCH_KMALLOC_MINALIGN = 8"
definition ENOSYS :: int where "ENOSYS = 38"
definition nr_cpu_ids :: u32 where "nr_cpu_ids = 1"

section \<open>Descriptors\<close>

text \<open>A pointer is its address. \<^verbatim>\<open>MAX_NUMNODES\<close> is 1, so \<^verbatim>\<open>node[]\<close> has one element. The
  links of the list of all caches are in the state of the allocator.\<close>

record kmem_cache =
  cpu_slab :: ulong
  kc_flags :: ulong
  min_partial :: ulong
  kc_size :: ulong
  objsize :: ulong
  offset :: ulong
  kc_oo :: ulong
  kc_max :: ulong
  kc_min :: ulong
  allocflags :: ulong
  refcount :: u32
  ctor :: "(ulong \<Rightarrow> memory \<Rightarrow> memory) option"
  kc_inuse :: ulong
  kc_align :: ulong
  reserved :: ulong
  kc_name :: "string option"
  kc_node :: "nat \<Rightarrow> ulong"

definition zero_cache :: kmem_cache where
  "zero_cache = \<lparr>cpu_slab = 0, kc_flags = 0, min_partial = 0, kc_size = 0, objsize = 0, offset = 0, kc_oo = 0,
     kc_max = 0, kc_min = 0, allocflags = 0, refcount = 0, ctor = None, kc_inuse = 0, kc_align = 0, reserved = 0,
     kc_name = None, kc_node = (\<lambda>_. 0)\<rparr>"

section \<open>Orders and numbers of objects\<close>

definition oo_order :: "ulong \<Rightarrow> nat" where "oo_order x = unat (drop_bit OO_SHIFT x)"
definition oo_objects :: "ulong \<Rightarrow> ulong" where "oo_objects x = x AND OO_MASK"

definition order_objects :: "int \<Rightarrow> ulong \<Rightarrow> ulong \<Rightarrow> ulong" where
  "order_objects order sz rsv = (push_bit (nat order) PAGE_SIZE - rsv) div sz"

definition oo_make :: "int \<Rightarrow> ulong \<Rightarrow> ulong \<Rightarrow> ulong" where
  "oo_make order sz rsv = push_bit OO_SHIFT (word_of_int order) + order_objects order sz rsv"

definition kmem_cache_flags :: "ulong \<Rightarrow> ulong \<Rightarrow> ulong" where "kmem_cache_flags osize flags = flags"

partial_function (option) ralign_loop :: "ulong \<Rightarrow> ulong \<Rightarrow> ulong option" where
  "ralign_loop sz ralign = (if sz \<le> drop_bit 1 ralign then ralign_loop sz (drop_bit 1 ralign) else Some ralign)"

declare ralign_loop.simps [code]

definition calculate_alignment :: "ulong \<Rightarrow> ulong \<Rightarrow> ulong \<Rightarrow> ulong option" where
  "calculate_alignment flags align sz =
     (case (if flags AND SLAB_HWCACHE_ALIGN \<noteq> 0
            then map_option (max align) (ralign_loop sz cache_line_size) else Some align) of
        None \<Rightarrow> None
      | Some align \<Rightarrow>
          Some (ALIGN (if align < ARCH_SLAB_MINALIGN then ARCH_SLAB_MINALIGN else align) sizeof_ptr))"

text \<open>The loop of \<^verbatim>\<open>slab_order\<close>: the first order, not above \<^verbatim>\<open>max_order\<close>, whose slab holds the
  objects and wastes at most a fraction; \<open>max_order + 1\<close> when there is none.\<close>

function slab_order_loop :: "ulong \<Rightarrow> int \<Rightarrow> int \<Rightarrow> ulong \<Rightarrow> ulong \<Rightarrow> int \<Rightarrow> int" where
  "slab_order_loop sz min_objects max_order fract rsv order =
     (if order \<le> max_order then
        (let slab_size = push_bit (nat order) PAGE_SIZE
         in if slab_size < word_of_int min_objects * sz + rsv
            then slab_order_loop sz min_objects max_order fract rsv (order + 1)
            else if (slab_size - rsv) mod sz \<le> slab_size div fract then order
            else slab_order_loop sz min_objects max_order fract rsv (order + 1))
      else order)"
  by pat_completeness auto
termination by (relation "measure (\<lambda>(sz, mo, mx, fr, rsv, order). nat (mx + 1 - order))") auto

declare slab_order_loop.simps [simp del]

definition slab_order :: "ulong \<Rightarrow> int \<Rightarrow> int \<Rightarrow> ulong \<Rightarrow> ulong \<Rightarrow> int" where
  "slab_order sz min_objects max_order fract rsv =
     (if sint (order_objects slub_min_order sz rsv) > MAX_OBJS_PER_PAGE
      then get_order (sz * word_of_int MAX_OBJS_PER_PAGE) - 1
      else slab_order_loop sz min_objects max_order fract rsv
             (max slub_min_order (fls (word_of_int min_objects * sz - 1) - int PAGE_SHIFT)))"

text \<open>The loops of \<^verbatim>\<open>calculate_order\<close> over the fraction 16, 8, 4 and over the number of objects; a
  value is the return from inside of the loop.\<close>

function fraction_loop :: "ulong \<Rightarrow> int \<Rightarrow> ulong \<Rightarrow> nat \<Rightarrow> int option" where
  "fraction_loop sz min_objects rsv fraction =
     (if fraction \<ge> 4 then
        (let order = slab_order sz min_objects slub_max_order (word_of_nat fraction) rsv
         in if order \<le> slub_max_order then Some order else fraction_loop sz min_objects rsv (fraction div 2))
      else None)"
  by pat_completeness auto
termination by (relation "measure (\<lambda>(sz, mo, rsv, fraction). fraction)") auto

declare fraction_loop.simps [simp del]

function min_objects_loop :: "ulong \<Rightarrow> ulong \<Rightarrow> int \<Rightarrow> int option" where
  "min_objects_loop sz rsv min_objects =
     (if min_objects > 1 then
        (case fraction_loop sz min_objects rsv 16 of
           Some order \<Rightarrow> Some order
         | None \<Rightarrow> min_objects_loop sz rsv (min_objects - 1))
      else None)"
  by pat_completeness auto
termination by (relation "measure (\<lambda>(sz, rsv, mo). nat mo)") auto

declare min_objects_loop.simps [simp del]

definition calculate_order :: "ulong \<Rightarrow> ulong \<Rightarrow> int" where
  "calculate_order sz rsv =
     (let min_objects = (if slub_min_objects = 0 then 4 * (fls nr_cpu_ids + 1) else slub_min_objects);
          max_objects = sint (order_objects slub_max_order sz rsv)
      in case min_objects_loop sz rsv (min min_objects max_objects) of
           Some order \<Rightarrow> order
         | None \<Rightarrow>
             (let order = slab_order sz 1 slub_max_order 1 rsv
              in if order \<le> slub_max_order then order
                 else (let order = slab_order sz 1 (int MAX_ORDER) 1 rsv
                       in if order < int MAX_ORDER then order else - ENOSYS)))"

text \<open>\<^verbatim>\<open>calculate_sizes\<close> returns the descriptor and whether it is usable. No value means that
  the loop of \<^verbatim>\<open>calculate_alignment\<close> does not end.\<close>

definition calculate_sizes :: "kmem_cache \<Rightarrow> int \<Rightarrow> (kmem_cache \<times> bool) option" where
  "calculate_sizes s forced_order =
     (let flags = kc_flags s;
          sz = ALIGN (objsize s) sizeof_ptr;
          s = s\<lparr>kc_inuse := sz\<rparr>;
          moved = flags AND (SLAB_DESTROY_BY_RCU OR SLAB_POISON) \<noteq> 0 \<or> ctor s \<noteq> None;
          s = (if moved then s\<lparr>offset := sz\<rparr> else s);
          sz = (if moved then sz + sizeof_ptr else sz)
      in case calculate_alignment flags (kc_align s) (objsize s) of
           None \<Rightarrow> None
         | Some align \<Rightarrow>
             (let s = s\<lparr>kc_align := align\<rparr>;
                  sz = ALIGN sz align;
                  s = s\<lparr>kc_size := sz\<rparr>;
                  order = (if forced_order \<ge> 0 then forced_order else calculate_order sz (reserved s))
              in if order < 0 then Some (s, False)
                 else
                   (let s = s\<lparr>allocflags := (if order \<noteq> 0 then GFP_COMP else 0)
                              OR (if kc_flags s AND SLAB_CACHE_DMA \<noteq> 0 then GFP_DMA else 0)
                              OR (if kc_flags s AND SLAB_RECLAIM_ACCOUNT \<noteq> 0 then GFP_RECLAIMABLE else 0)\<rparr>;
                        s = s\<lparr>kc_oo := oo_make order sz (reserved s)\<rparr>;
                        s = s\<lparr>kc_min := oo_make (get_order sz) sz (reserved s)\<rparr>;
                        s = (if sint (oo_objects (kc_max s)) < sint (oo_objects (kc_oo s)) then s\<lparr>kc_max := kc_oo s\<rparr> else s)
                    in Some (s, oo_objects (kc_oo s) \<noteq> 0))))"

definition set_min_partial :: "kmem_cache \<Rightarrow> ulong \<Rightarrow> kmem_cache" where
  "set_min_partial s mn =
     s\<lparr>min_partial := (if mn < MIN_PARTIAL then MIN_PARTIAL else if mn > MAX_PARTIAL then MAX_PARTIAL else mn)\<rparr>"

section \<open>Caches for \<^verbatim>\<open>kmalloc\<close>\<close>

definition KMALLOC_MIN_SIZE :: ulong where "KMALLOC_MIN_SIZE = 8"
definition KMALLOC_SHIFT_LOW :: nat where "KMALLOC_SHIFT_LOW = 3"
definition SLUB_MAX_SIZE :: ulong where "SLUB_MAX_SIZE = 2 * PAGE_SIZE"
definition SLUB_PAGE_SHIFT :: nat where "SLUB_PAGE_SHIFT = PAGE_SHIFT + 2"
definition SLUB_DMA :: ulong where "SLUB_DMA = GFP_DMA"

definition size_index :: "int list" where
  "size_index = [3, 4, 5, 5, 6, 6, 6, 6, 1, 1, 1, 1, 7, 7, 7, 7, 2, 2, 2, 2, 2, 2, 2, 2]"

definition size_index_elem :: "ulong \<Rightarrow> nat" where "size_index_elem bytes = unat ((bytes - 1) div 8)"

text \<open>The index into \<^verbatim>\<open>kmalloc_caches\<close> that \<^verbatim>\<open>get_slab\<close> computes; no value for size 0,
  where it returns \<^verbatim>\<open>ZERO_SIZE_PTR\<close>.\<close>

definition get_slab_index :: "ulong \<Rightarrow> int option" where
  "get_slab_index sz =
     (if sz \<le> 192 then if sz = 0 then None else Some (size_index ! size_index_elem sz)
      else Some (fls (sz - 1)))"

definition kmalloc_index :: "ulong \<Rightarrow> int" where
  "kmalloc_index sz =
     (if sz = 0 then 0
      else if sz \<le> KMALLOC_MIN_SIZE then int KMALLOC_SHIFT_LOW
      else if KMALLOC_MIN_SIZE \<le> 32 \<and> sz > 64 \<and> sz \<le> 96 then 1
      else if KMALLOC_MIN_SIZE \<le> 64 \<and> sz > 128 \<and> sz \<le> 192 then 2
      else if sz \<le> 8 then 3
      else if sz \<le> 16 then 4
      else if sz \<le> 32 then 5
      else if sz \<le> 64 then 6
      else if sz \<le> 128 then 7
      else if sz \<le> 256 then 8
      else if sz \<le> 512 then 9
      else if sz \<le> 1024 then 10
      else if sz \<le> 2 * 1024 then 11
      else if sz \<le> 4 * 1024 then 12
      else - 1)"

text \<open>The object size of the cache that \<^verbatim>\<open>kmem_cache_init\<close> creates for an index.\<close>

definition kmalloc_cache_size :: "nat \<Rightarrow> ulong" where
  "kmalloc_cache_size i = (if i = 1 then 96 else if i = 2 then 192 else push_bit i 1)"

section \<open>The choice of an order\<close>

lemma unat_page_shift:
  assumes "n \<le> 19"
  shows "unat (push_bit n PAGE_SIZE :: ulong) = 4096 * 2 ^ n"
proof -
  have "push_bit n PAGE_SIZE = (2 ^ (12 + n) :: ulong)" by (simp add: PAGE_SIZE_def PAGE_SHIFT_def push_bit_eq_mult power_add)
  moreover have "unat (2 ^ (12 + n) :: ulong) = 2 ^ (12 + n)" using assms by (intro unat_pow2) simp
  ultimately show ?thesis by (simp only:) (simp add: power_add)
qed

lemma unat_times:
  fixes a b :: ulong
  assumes "unat a * unat b < 2 ^ 32"
  shows "unat (a * b) = unat a * unat b"
  using assms by (simp add: unat_word_ariths)

lemma unat_of_int: "0 \<le> i \<Longrightarrow> i < 2 ^ 32 \<Longrightarrow> unat (word_of_int i :: ulong) = nat i"
  by (simp add: unsigned_of_int nat_eq_iff take_bit_int_eq_self)

lemma slab_order_loop_range:
  "order \<le> slab_order_loop sz mo mx fr rsv order \<and> slab_order_loop sz mo mx fr rsv order \<le> max order (mx + 1)"
proof (induction sz mo mx fr rsv order rule: slab_order_loop.induct)
  case (1 sz mo mx fr rsv order)
  show ?case unfolding slab_order_loop.simps [of sz mo mx fr rsv order] Let_def using 1 by (auto simp: not_less max_def split: if_splits)
qed

text \<open>The objects fit into a slab of the order that the loop finds.\<close>

lemma slab_order_loop_fits:
  assumes "0 < mo" "nat mo * unat sz < 2 ^ 31" "0 \<le> order" "mx \<le> 11" "slab_order_loop sz mo mx fr 0 order \<le> mx"
  shows "nat mo * unat sz \<le> 4096 * 2 ^ nat (slab_order_loop sz mo mx fr 0 order)"
  using assms(3,5)
proof (induction "nat (mx + 1 - order)" arbitrary: order rule: less_induct)
  case less
  have le: "order \<le> mx" using slab_order_loop_range [of order sz mo mx fr 0] less.prems(2) by simp
  have page: "unat (push_bit (nat order) PAGE_SIZE :: ulong) = 4096 * 2 ^ nat order"
    using le assms(4) by (intro unat_page_shift) simp
  have "nat mo < 2 ^ 32 \<or> unat sz = 0" using assms(2) by (cases "unat sz") auto
  then have prod: "unat (word_of_int mo * sz) = nat mo * unat sz"
  proof
    assume "nat mo < 2 ^ 32"
    then have "unat (word_of_int mo :: ulong) = nat mo" using assms(1) by (intro unat_of_int) auto
    then show ?thesis using unat_times [of "word_of_int mo" sz] assms(2) by simp
  qed (simp add: unat_eq_0)
  show ?case
  proof (cases "push_bit (nat order) PAGE_SIZE < word_of_int mo * sz + 0 \<or>
      \<not> (push_bit (nat order) PAGE_SIZE - 0) mod sz \<le> push_bit (nat order) PAGE_SIZE div fr")
    case True
    then have "slab_order_loop sz mo mx fr 0 order = slab_order_loop sz mo mx fr 0 (order + 1)"
      unfolding slab_order_loop.simps [of sz mo mx fr 0 order] Let_def using le by auto
    then show ?thesis using less.hyps [of "order + 1"] less.prems le by simp
  next
    case False
    then have "slab_order_loop sz mo mx fr 0 order = order"
      unfolding slab_order_loop.simps [of sz mo mx fr 0 order] Let_def using le by auto
    then show ?thesis using False page prod by (simp add: word_less_nat_alt)
  qed
qed

text \<open>With the fraction 1 no waste is too much, so that an order that fits is found.\<close>

lemma slab_order_loop_found:
  assumes "unat sz \<le> 4096 * 2 ^ nat goal" "order \<le> goal" "0 \<le> order" "goal \<le> mx" "mx \<le> 11" "unat sz < 2 ^ 31"
  shows "slab_order_loop sz 1 mx 1 0 order \<le> goal"
  using assms(2,3)
proof (induction "nat (goal - order)" arbitrary: order rule: less_induct)
  case less
  have page: "unat (push_bit (nat order) PAGE_SIZE :: ulong) = 4096 * 2 ^ nat order"
    using less.prems assms(4,5) by (intro unat_page_shift) simp
  have step: "slab_order_loop sz 1 mx 1 0 order =
      (if push_bit (nat order) PAGE_SIZE < sz then slab_order_loop sz 1 mx 1 0 (order + 1) else order)"
    unfolding slab_order_loop.simps [of sz 1 mx 1 0 order] Let_def
    using less.prems assms(4) by (simp add: word_le_nat_alt unat_mod)
  show ?case
  proof (cases "push_bit (nat order) PAGE_SIZE < sz")
    case True
    then have "order \<noteq> goal" using assms(1) page by (auto simp: word_less_nat_alt)
    then show ?thesis using less True step by simp
  next
    case False
    then show ?thesis using step less.prems by simp
  qed
qed

lemma fls_minus_1:
  assumes "0 < unat x" "unat x \<le> 2 ^ n"
  shows "fls (x - 1) \<le> int n"
proof (cases "x - 1 = 0")
  case False
  have "unat (x - 1) = unat x - 1" using assms(1) by (intro unat_minus_one) auto
  then have "2 ^ nat (fls (x - 1) - 1) < (2 :: nat) ^ n" using fls_bounds(3) [OF False] assms by linarith
  then have "nat (fls (x - 1) - 1) < n" by (simp add: power_strict_increasing_iff)
  then show ?thesis by simp
qed simp

lemma order_0_objects: "0 < unat sz \<Longrightarrow> sint (order_objects slub_min_order sz 0) \<le> MAX_OBJS_PER_PAGE"
proof -
  assume s: "0 < unat sz"
  have "unat (order_objects slub_min_order sz 0) = 4096 div unat sz"
    using unat_page_shift [of 0] by (simp add: order_objects_def slub_min_order_def unat_div)
  also have "\<dots> \<le> 4096" by simp
  finally have "unat (order_objects slub_min_order sz 0) \<le> 4096" .
  then have "sint (order_objects slub_min_order sz 0) = int (unat (order_objects slub_min_order sz 0))"
    and "int (unat (order_objects slub_min_order sz 0)) \<le> int 4096"
    by (simp add: sint_small, intro of_nat_mono)
  then show ?thesis by (simp only: MAX_OBJS_PER_PAGE_def)
qed

lemma slab_order_fits:
  assumes "0 < unat sz" "0 < mo" "nat mo * unat sz < 2 ^ 31" "mx \<le> 11" "slab_order sz mo mx fr 0 \<le> mx"
  shows "0 \<le> slab_order sz mo mx fr 0 \<and> nat mo * unat sz \<le> 4096 * 2 ^ nat (slab_order sz mo mx fr 0)"
proof -
  define start where "start = max slub_min_order (fls (word_of_int mo * sz - 1) - int PAGE_SHIFT)"
  have s: "0 \<le> start" by (simp add: start_def slub_min_order_def)
  have r: "slab_order sz mo mx fr 0 = slab_order_loop sz mo mx fr 0 start"
    using order_0_objects [OF assms(1)] by (simp add: slab_order_def start_def)
  then show ?thesis
    using slab_order_loop_fits [OF assms(2,3) s assms(4), of fr] slab_order_loop_range [of start sz mo mx fr 0] s assms(5) by simp
qed

lemma slab_order_found:
  assumes "0 < unat sz" "unat sz \<le> 4096 * 2 ^ goal" "int goal \<le> mx" "mx \<le> 11" "unat sz < 2 ^ 31"
  shows "slab_order sz 1 mx 1 0 \<le> int goal"
proof -
  define start where "start = max slub_min_order (fls (sz - 1) - int PAGE_SHIFT)"
  have "unat sz \<le> 2 ^ (12 + goal)" using assms(2) by (simp add: power_add)
  then have "fls (sz - 1) \<le> int (12 + goal)" by (rule fls_minus_1 [OF assms(1)])
  then have s: "0 \<le> start" "start \<le> int goal" by (simp_all add: start_def slub_min_order_def PAGE_SHIFT_def)
  have "slab_order sz 1 mx 1 0 = slab_order_loop sz 1 mx 1 0 start"
    using order_0_objects [OF assms(1)] by (simp add: slab_order_def start_def)
  then show ?thesis using slab_order_loop_found [of sz "int goal" start mx] assms s by simp
qed

lemma fraction_loop_fits:
  assumes "0 < unat sz" "0 < mo" "nat mo * unat sz < 2 ^ 31" "fraction_loop sz mo 0 fr = Some r"
  shows "0 \<le> r \<and> r \<le> 3 \<and> nat mo * unat sz \<le> 4096 * 2 ^ nat r"
  using assms(4)
proof (induction fr rule: less_induct)
  case (less fr)
  show ?case
  proof (cases "fr \<ge> 4 \<and> slab_order sz mo slub_max_order (word_of_nat fr) 0 \<le> slub_max_order")
    case True
    then have "r = slab_order sz mo slub_max_order (word_of_nat fr) 0"
      using less.prems unfolding fraction_loop.simps [of sz mo 0 fr] by (simp add: Let_def)
    then show ?thesis using slab_order_fits [OF assms(1-3), of slub_max_order "word_of_nat fr"] True by (simp add: slub_max_order_def)
  next
    case False
    then have "fr \<ge> 4" "fraction_loop sz mo 0 (fr div 2) = Some r"
      using less.prems unfolding fraction_loop.simps [of sz mo 0 fr] by (auto simp: Let_def split: if_splits)
    then show ?thesis using less.IH [of "fr div 2"] by simp
  qed
qed

lemma min_objects_loop_fits:
  assumes "0 < unat sz" "nat mo * unat sz < 2 ^ 31" "min_objects_loop sz 0 mo = Some r"
  shows "0 \<le> r \<and> r \<le> 3 \<and> unat sz \<le> 4096 * 2 ^ nat r"
  using assms(2,3)
proof (induction "nat mo" arbitrary: mo rule: less_induct)
  case less
  have mo: "1 < mo" using less.prems(2) unfolding min_objects_loop.simps [of sz 0 mo] by (auto split: if_splits)
  show ?case
  proof (cases "fraction_loop sz mo 0 16")
    case None
    then have "min_objects_loop sz 0 (mo - 1) = Some r"
      using less.prems(2) mo unfolding min_objects_loop.simps [of sz 0 mo] by simp
    moreover have "nat (mo - 1) * unat sz \<le> nat mo * unat sz" by (intro mult_right_mono) auto
    ultimately show ?thesis using less.hyps [of "mo - 1"] less.prems(1) mo by linarith
  next
    case (Some r')
    then have "r' = r" using less.prems(2) mo unfolding min_objects_loop.simps [of sz 0 mo] by simp
    then have "0 \<le> r \<and> r \<le> 3 \<and> nat mo * unat sz \<le> 4096 * 2 ^ nat r"
      using fraction_loop_fits [OF assms(1) _ less.prems(1)] Some mo by simp
    moreover have "1 * unat sz \<le> nat mo * unat sz" using mo by (intro mult_right_mono) auto
    ultimately show ?thesis by linarith
  qed
qed

lemma calculate_order_fits:
  assumes "0 < unat sz" "unat sz < 2 ^ 31"
  shows "if unat sz \<le> 2 ^ 22
    then 0 \<le> calculate_order sz 0 \<and> calculate_order sz 0 \<le> 10 \<and> unat sz \<le> 4096 * 2 ^ nat (calculate_order sz 0)
      \<and> (calculate_order sz 0 \<le> 3 \<or> 2 ^ 15 < unat sz)
    else calculate_order sz 0 = - ENOSYS"
proof -
  define mo where "mo = min (4 * (fls nr_cpu_ids + 1)) (sint (order_objects slub_max_order sz 0))"
  have "unat (order_objects slub_max_order sz 0) = 2 ^ 15 div unat sz"
    using unat_page_shift [of 3] by (simp add: order_objects_def slub_max_order_def unat_div)
  note oo = this
  have "unat (order_objects slub_max_order sz 0) \<le> 2 ^ 15" unfolding oo by (rule div_le_dividend)
  then have "unat (order_objects slub_max_order sz 0) < 2 ^ 31" by (rule le_less_trans) simp
  then have "sint (order_objects slub_max_order sz 0) = int (2 ^ 15 div unat sz)" using sint_small oo by metis
  then have "nat mo \<le> 2 ^ 15 div unat sz" by (simp add: mo_def)
  then have "nat mo * unat sz \<le> 2 ^ 15 div unat sz * unat sz" by (rule mult_right_mono) simp
  also have "\<dots> \<le> 2 ^ 15" by simp
  finally have mo: "nat mo * unat sz < 2 ^ 31" "nat mo * unat sz \<le> 2 ^ 15" by simp_all
  have co: "calculate_order sz 0 = (case min_objects_loop sz 0 mo of Some order \<Rightarrow> order
      | None \<Rightarrow> if slab_order sz 1 3 1 0 \<le> 3 then slab_order sz 1 3 1 0
         else if slab_order sz 1 11 1 0 < 11 then slab_order sz 1 11 1 0 else - ENOSYS)"
    unfolding calculate_order_def Let_def mo_def
    by (simp add: slub_min_objects_def slub_max_order_def MAX_ORDER_def split: option.split)
  show ?thesis
  proof (cases "min_objects_loop sz 0 mo")
    case (Some r)
    note f = min_objects_loop_fits [OF assms(1) mo(1) Some]
    then have "(2 :: nat) ^ nat r \<le> 2 ^ 3" by (intro power_increasing) auto
    then have "unat sz \<le> 2 ^ 22" using f by simp
    then show ?thesis using f Some co by simp
  next
    case None
    have small: "slab_order sz 1 3 1 0 \<le> 3 \<Longrightarrow> 0 \<le> slab_order sz 1 3 1 0 \<and> unat sz \<le> 4096 * 2 ^ nat (slab_order sz 1 3 1 0)"
      using slab_order_fits [of sz 1 3 1] assms by simp
    have big: "slab_order sz 1 11 1 0 \<le> 11 \<Longrightarrow> 0 \<le> slab_order sz 1 11 1 0 \<and> unat sz \<le> 4096 * 2 ^ nat (slab_order sz 1 11 1 0)"
      using slab_order_fits [of sz 1 11 1] assms by simp
    have f3: "unat sz \<le> 2 ^ 15 \<Longrightarrow> slab_order sz 1 3 1 0 \<le> 3" using slab_order_found [of sz 3 3] assms by simp
    have f10: "unat sz \<le> 2 ^ 22 \<Longrightarrow> slab_order sz 1 11 1 0 \<le> 10" using slab_order_found [of sz 10 11] assms by simp
    show ?thesis
    proof (cases "unat sz \<le> 2 ^ 22")
      case True
      then show ?thesis using None co small big f3 f10 by (auto simp: not_le)
    next
      case False
      have "\<not> r \<le> 10" if "unat sz \<le> 4096 * 2 ^ nat r" for r
      proof
        assume "r \<le> 10"
        then have "(2 :: nat) ^ nat r \<le> 2 ^ 10" by (intro power_increasing) auto
        then show "False" using False that by simp
      qed
      then show ?thesis using False None co small big by force
    qed
  qed
qed

section \<open>Sizes and alignment\<close>

lemma ralign_loop_ends:
  assumes "0 < sz" "k < 32"
  shows "\<exists>j\<le>k. ralign_loop sz (2 ^ k) = Some (2 ^ j)"
  using assms(2)
proof (induction k)
  case 0
  then show ?case using assms(1) by (subst ralign_loop.simps) (auto simp: not_le word_gt_0)
next
  case (Suc k)
  have "drop_bit 1 (2 ^ Suc k :: ulong) = 2 ^ k"
    using Suc.prems unat_pow2 [of "Suc k", where 'a = 32] unat_pow2 [of k, where 'a = 32]
    unfolding word_eq_unat drop_bit_eq_div by (simp only: unat_div) simp
  then show ?case
    using Suc by (subst ralign_loop.simps) (auto intro: exI [of _ "Suc k"] dest: le_SucI)
qed

lemma pow2_8: "b < 32 \<Longrightarrow> \<not> (2 ^ b :: ulong) < 8 \<Longrightarrow> 3 \<le> b"
proof (rule ccontr)
  assume "b < 32" "\<not> (2 ^ b :: ulong) < 8" "\<not> 3 \<le> b"
  then have "b = 0 \<or> b = 1 \<or> b = 2" by auto
  then show False using \<open>\<not> (2 ^ b :: ulong) < 8\<close> by auto
qed

lemma ALIGN_same:
  assumes "2 \<le> b" "b < 31"
  shows "ALIGN (2 ^ b :: ulong) sizeof_ptr = 2 ^ b"
proof -
  have e: "(2 :: ulong) ^ 2 = sizeof_ptr" by (simp add: sizeof_ptr_def)
  obtain c where b: "b = 2 + c" using assms(1) le_Suc_ex by blast
  have "(2 :: nat) ^ b < 2 ^ 31" using assms(2) by (intro power_strict_increasing) auto
  then have "unat (ALIGN (2 ^ b :: ulong) (2 ^ 2)) = (2 ^ b + 3) div 4 * 4"
    using ALIGN_pow2 [of "2 ^ b :: ulong" 2] assms(2) by simp
  also have "\<dots> = 2 ^ b" unfolding b by (simp add: power_add)
  also have "\<dots> = unat (2 ^ b :: ulong)" using assms(2) by simp
  finally show ?thesis unfolding e word_eq_unat .
qed

lemma calculate_alignment_pow2:
  assumes "0 < sz" "align = 0 \<or> (\<exists>a\<le>12. align = 2 ^ a)"
  shows "\<exists>b. 3 \<le> b \<and> b \<le> 12 \<and> calculate_alignment flags align sz = Some (2 ^ b) \<and> align \<le> 2 ^ b"
proof -
  have c: "cache_line_size = 2 ^ 5" by (simp add: cache_line_size_def)
  obtain j where j: "j \<le> 5" "ralign_loop sz cache_line_size = Some (2 ^ j)"
    using ralign_loop_ends [OF assms(1), of 5] unfolding c by auto
  define al where "al = (if flags AND SLAB_HWCACHE_ALIGN \<noteq> 0 then max align (2 ^ j) else align)"
  have al: "align \<le> al" "al = 0 \<or> (\<exists>a\<le>12. al = 2 ^ a)"
    using assms(2) j(1) by (auto simp: al_def max_def intro: exI [of _ j])
  have run: "calculate_alignment flags align sz = Some (ALIGN (if al < ARCH_SLAB_MINALIGN then ARCH_SLAB_MINALIGN else al) sizeof_ptr)"
    by (simp add: calculate_alignment_def j(2) al_def)
  show ?thesis
  proof (cases "al < ARCH_SLAB_MINALIGN")
    case True
    have "ALIGN (2 ^ 3 :: ulong) sizeof_ptr = 2 ^ 3" by (rule ALIGN_same) auto
    then show ?thesis using True run al(1) by (intro exI [of _ 3]) (simp add: ARCH_SLAB_MINALIGN_def)
  next
    case False
    then obtain a where a: "a \<le> 12" "al = 2 ^ a" using al(2) by (auto simp: ARCH_SLAB_MINALIGN_def)
    then have "3 \<le> a" using False pow2_8 [of a] by (simp add: ARCH_SLAB_MINALIGN_def)
    then show ?thesis using run False a al(1) ALIGN_same [of a] by (intro exI [of _ a]) simp
  qed
qed

lemma oo_make_split:
  assumes "0 \<le> order" "order \<le> 15" "unat (order_objects order sz rsv) < 2 ^ 16"
  shows "oo_order (oo_make order sz rsv) = nat order" "oo_objects (oo_make order sz rsv) = order_objects order sz rsv"
proof -
  define n where "n = order_objects order sz rsv"
  have o: "unat (word_of_int order :: ulong) = nat order" using assms by (intro unat_of_int) auto
  have "unat (push_bit OO_SHIFT (word_of_int order) :: ulong) = nat order * 2 ^ 16"
    using assms o by (simp add: OO_SHIFT_def push_bit_eq_mult unat_word_ariths)
  then have u: "unat (oo_make order sz rsv) = nat order * 2 ^ 16 + unat n"
    using assms(2,3) unat_add_no_wrap [of "push_bit OO_SHIFT (word_of_int order)" n] by (simp add: oo_make_def n_def)
  show "oo_order (oo_make order sz rsv) = nat order"
    using u assms(3) by (simp add: oo_order_def OO_SHIFT_def drop_bit_eq_div unat_div n_def)
  have "OO_MASK = mask 16" by (simp add: OO_MASK_def OO_SHIFT_def mask_eq_exp_minus_1)
  then have "unat (oo_objects (oo_make order sz rsv)) = unat (oo_make order sz rsv) mod 2 ^ 16"
    using unat_take_bit_word [of 16 "oo_make order sz rsv"] by (simp add: oo_objects_def take_bit_eq_mask)
  then show "oo_objects (oo_make order sz rsv) = order_objects order sz rsv"
    using u assms(3) by (simp add: word_eq_unat n_def)
qed

section \<open>The geometry of a cache\<close>

text \<open>The objects of a slab fit into its pages, and their number into the bit field
  \<^verbatim>\<open>objects\<close> of the page frame.\<close>

definition geometry_ok :: "ulong \<Rightarrow> ulong \<Rightarrow> bool" where
  "geometry_ok sz x \<longleftrightarrow> oo_order x < MAX_ORDER \<and> 0 < unat (oo_objects x) \<and> unat (oo_objects x) < 0x7FFF
     \<and> unat (oo_objects x) * unat sz \<le> 4096 * 2 ^ oo_order x"

definition cache_ok :: "kmem_cache \<Rightarrow> bool" where
  "cache_ok s \<longleftrightarrow> 8 dvd unat (kc_size s) \<and> 0 < unat (objsize s) \<and> unat (objsize s) \<le> unat (kc_size s)
     \<and> 4 dvd unat (offset s) \<and> unat (offset s) + 4 \<le> unat (kc_size s)
     \<and> geometry_ok (kc_size s) (kc_oo s) \<and> geometry_ok (kc_size s) (kc_min s) \<and> oo_order (kc_min s) \<le> oo_order (kc_oo s)
     \<and> (oo_order (kc_oo s) \<noteq> 0 \<longrightarrow> allocflags s AND GFP_COMP \<noteq> 0) \<and> allocflags s AND (GFP_ZERO OR GFP_MOVABLE) = 0"

lemma div_le_both: "(a :: nat) \<le> c \<Longrightarrow> d \<le> b \<Longrightarrow> 0 < d \<Longrightarrow> a div b \<le> c div d"
  by (meson div_le_mono div_le_mono2 le_trans)

lemma order_objects_geometry:
  assumes "0 \<le> order" "order \<le> 10" "0 < unat sz" "unat sz \<le> 4096 * 2 ^ nat order" "4096 * 2 ^ nat order div unat sz < 0x7FFF"
  shows "geometry_ok sz (oo_make order sz 0)" "oo_order (oo_make order sz 0) = nat order"
proof -
  have u: "unat (order_objects order sz 0) = 4096 * 2 ^ nat order div unat sz"
    using unat_page_shift [of "nat order"] assms(2) by (simp add: order_objects_def unat_div)
  note sp = oo_make_split [of order sz 0]
  have o: "oo_order (oo_make order sz 0) = nat order" "oo_objects (oo_make order sz 0) = order_objects order sz 0"
    using sp assms u by simp_all
  then show "oo_order (oo_make order sz 0) = nat order" by simp
  have "0 < 4096 * 2 ^ nat order div unat sz" using assms(3,4) by (simp add: div_greater_zero_iff)
  then show "geometry_ok sz (oo_make order sz 0)"
    using u assms o by (simp add: geometry_ok_def MAX_ORDER_def)
qed

lemma calculated_geometry:
  assumes "8 \<le> unat sz" "unat sz \<le> 2 ^ 22"
  defines "order \<equiv> calculate_order sz 0"
  shows "0 \<le> order" "order \<le> 10" "geometry_ok sz (oo_make order sz 0)" "oo_order (oo_make order sz 0) = nat order"
    "geometry_ok sz (oo_make (get_order sz) sz 0)" "oo_order (oo_make (get_order sz) sz 0) \<le> nat order"
proof -
  have c: "0 \<le> order" "order \<le> 10" "unat sz \<le> 4096 * 2 ^ nat order" "order \<le> 3 \<or> 2 ^ 15 < unat sz"
    using calculate_order_fits [of sz] assms by simp_all
  then show "0 \<le> order" "order \<le> 10" by simp_all
  have "4096 * 2 ^ nat order div unat sz < 0x7FFF"
  proof (cases "order \<le> 3")
    case True
    then have "(2 :: nat) ^ nat order \<le> 2 ^ 3" by (intro power_increasing) auto
    then have "4096 * 2 ^ nat order div unat sz \<le> 32768 div 8" using assms(1) by (intro div_le_both) auto
    then show ?thesis by simp
  next
    case False
    have "(2 :: nat) ^ nat order \<le> 2 ^ 10" using c(2) by (intro power_increasing) auto
    then have "4096 * 2 ^ nat order div unat sz \<le> 4194304 div 32768" using False c(4) by (intro div_le_both) auto
    then show ?thesis by simp
  qed
  note g = order_objects_geometry [OF c(1,2) _ c(3) this]
  show "geometry_ok sz (oo_make order sz 0)" "oo_order (oo_make order sz 0) = nat order" using g assms(1) by simp_all
  have s: "0 < sz" using assms(1) by (auto simp: word_less_nat_alt)
  note gl = get_order_least [OF s]
  have le: "get_order sz \<le> order"
  proof (rule ccontr)
    assume "\<not> get_order sz \<le> order"
    then have "2 ^ (12 + nat (get_order sz) - 1) < unat sz" "12 + nat order \<le> 12 + nat (get_order sz) - 1" using gl c(1) by auto
    then have "(2 :: nat) ^ (12 + nat order) < unat sz" by (meson le_less_trans one_le_numeral power_increasing)
    then show False using c(3) by (simp add: power_add)
  qed
  have fit: "unat sz \<le> 4096 * 2 ^ nat (get_order sz)" using gl by (simp add: power_add)
  have "4096 * 2 ^ nat (get_order sz) div unat sz < 0x7FFF"
  proof (cases "get_order sz = 0")
    case True
    then have "4096 * 2 ^ nat (get_order sz) div unat sz \<le> 4096 div 8" using assms(1) by (intro div_le_both) auto
    then show ?thesis by simp
  next
    case False
    obtain g where "nat (get_order sz) = Suc g" using False gl by (cases "nat (get_order sz)") auto
    then have "4096 * 2 ^ nat (get_order sz) < 2 * unat sz" using gl False by (simp add: power_add)
    then have "4096 * 2 ^ nat (get_order sz) div unat sz < 2" using assms(1) by (simp add: less_mult_imp_div_less)
    then show ?thesis by simp
  qed
  from order_objects_geometry [OF _ _ _ fit this] gl le c(2) assms(1)
  show "geometry_ok sz (oo_make (get_order sz) sz 0)" "oo_order (oo_make (get_order sz) sz 0) \<le> nat order" by auto
qed

lemma gfp_bits: "GFP_COMP AND (GFP_ZERO OR GFP_MOVABLE) = 0" "GFP_DMA AND (GFP_ZERO OR GFP_MOVABLE) = 0"
  "GFP_RECLAIMABLE AND (GFP_ZERO OR GFP_MOVABLE) = 0" "GFP_COMP \<noteq> 0"
  by (simp_all add: GFP_COMP_def GFP_DMA_def GFP_RECLAIMABLE_def GFP_ZERO_def GFP_MOVABLE_def)

lemma aligned_object:
  fixes n :: ulong and moved :: bool
  assumes "unat n \<le> 2 ^ 30" "3 \<le> b" "b \<le> 12" and sz_def: "sz = ALIGN n sizeof_ptr"
    and r_def: "r = ALIGN (sz + (if moved then sizeof_ptr else 0)) (2 ^ b)"
  shows "unat n \<le> unat sz" "4 dvd unat sz" "unat sz + (if moved then 4 else 0) \<le> unat r" "8 dvd unat r" "unat r < 2 ^ 31"
    "unat r < unat n + 2 ^ 14"
proof -
  have e: "(2 :: ulong) ^ 2 = sizeof_ptr" by (simp add: sizeof_ptr_def)
  have up: "x \<le> (x + d - 1) div d * d" "(x + d - 1) div d * d < x + d" if "0 < d" for x d :: nat
  proof -
    have "(x + d - 1) mod d < d" using that by simp
    then show "x \<le> (x + d - 1) div d * d" "(x + d - 1) div d * d < x + d"
      using div_mult_mod_eq [of "x + d - 1" d] that by linarith+
  qed
  have s: "unat sz = (unat n + 4 - 1) div 4 * 4"
    using ALIGN_pow2 [of n 2] assms(1) unfolding e sz_def by simp
  then show s1: "unat n \<le> unat sz" "4 dvd unat sz" using up [of 4 "unat n"] by simp_all
  have s2: "unat sz < unat n + 4" using up [of 4 "unat n"] s by simp
  define y where "y = sz + (if moved then sizeof_ptr else 0)"
  have y: "unat y = unat sz + (if moved then 4 else 0)"
    using s2 assms(1) unat_add_no_wrap [of sz sizeof_ptr] by (simp add: y_def sizeof_ptr_def)
  have b: "(2 :: nat) ^ b \<le> 2 ^ 12" using assms(3) by (intro power_increasing) auto
  have r: "unat r = (unat y + 2 ^ b - 1) div 2 ^ b * 2 ^ b"
  proof -
    have "unat y + 2 ^ b - 1 < 2 ^ LENGTH(32)" using b y s2 assms(1) by (auto split: if_splits)
    then show ?thesis unfolding r_def y_def [symmetric] using assms(3) by (intro ALIGN_pow2) auto
  qed
  then show "unat sz + (if moved then 4 else 0) \<le> unat r" "unat r < unat n + 2 ^ 14" "unat r < 2 ^ 31"
    using up [of "2 ^ b" "unat y"] y b s2 assms(1) by (auto split: if_splits)
  have "(2 :: nat) ^ 3 dvd 2 ^ b" using assms(2) by (rule le_imp_power_dvd)
  then show "8 dvd unat r" using r by (simp add: dvd_mult)
qed

lemma calculate_sizes_result:
  assumes n: "0 < unat (objsize s)" "unat (objsize s) \<le> 2 ^ 30" and al: "kc_align s = 0 \<or> (\<exists>a\<le>12. kc_align s = 2 ^ a)"
    and rsv: "reserved s = 0" and off: "offset s = 0"
  shows "\<exists>s' ok. calculate_sizes s (- 1) = Some (s', ok) \<and> objsize s' = objsize s \<and> kc_flags s' = kc_flags s
    \<and> unat (objsize s) \<le> unat (kc_size s') \<and> unat (kc_size s') < unat (objsize s) + 2 ^ 14
    \<and> ok = (unat (kc_size s') \<le> 2 ^ 22) \<and> (ok \<longrightarrow> cache_ok s')"
proof -
  define moved where "moved \<longleftrightarrow> kc_flags s AND (SLAB_DESTROY_BY_RCU OR SLAB_POISON) \<noteq> 0 \<or> ctor s \<noteq> None"
  define sz where "sz = ALIGN (objsize s) sizeof_ptr"
  have "0 < objsize s" using n by (auto simp: word_less_nat_alt)
  then obtain b where b: "3 \<le> b" "b \<le> 12" "calculate_alignment (kc_flags s) (kc_align s) (objsize s) = Some (2 ^ b)"
    using calculate_alignment_pow2 [OF _ al] by blast
  define r where "r = ALIGN (sz + (if moved then sizeof_ptr else 0)) (2 ^ b)"
  note ao = aligned_object [OF n(2) b(1,2) sz_def r_def]
  define order where "order = calculate_order r 0"
  define fl where "fl = (if order \<noteq> 0 then GFP_COMP else 0) OR (if kc_flags s AND SLAB_CACHE_DMA \<noteq> 0 then GFP_DMA else 0)
      OR (if kc_flags s AND SLAB_RECLAIM_ACCOUNT \<noteq> 0 then GFP_RECLAIMABLE else 0)"
  define s1 where "s1 = s\<lparr>kc_inuse := sz, offset := if moved then sz else offset s, kc_align := 2 ^ b, kc_size := r\<rparr>"
  define s2 where "s2 = s1\<lparr>allocflags := fl, kc_oo := oo_make order r 0, kc_min := oo_make (get_order r) r 0\<rparr>"
  define s3 where "s3 = (if sint (oo_objects (kc_max s2)) < sint (oo_objects (kc_oo s2)) then s2\<lparr>kc_max := kc_oo s2\<rparr> else s2)"
  have m: "(kc_flags s AND (SLAB_DESTROY_BY_RCU OR SLAB_POISON) \<noteq> 0 \<or> ctor (s\<lparr>kc_inuse := sz\<rparr>) \<noteq> None) = moved"
    by (simp add: moved_def)
  have run: "calculate_sizes s (- 1) = (if order < 0 then Some (s1, False) else Some (s3, oo_objects (kc_oo s3) \<noteq> 0))"
    unfolding calculate_sizes_def Let_def sz_def [symmetric] m
    using b(3) rsv by (cases moved) (simp_all add: s1_def s2_def s3_def r_def fl_def order_def)
  have f3: "objsize s3 = objsize s" "kc_flags s3 = kc_flags s" "kc_size s3 = r" "offset s3 = (if moved then sz else 0)"
    "kc_oo s3 = oo_make order r 0" "kc_min s3 = oo_make (get_order r) r 0" "allocflags s3 = fl"
    by (simp_all add: s3_def s2_def s1_def off)
  have r8: "8 \<le> unat r" using ao n(1) by (auto dest: dvd_imp_le)
  show ?thesis
  proof (cases "unat r \<le> 2 ^ 22")
    case True
    note g = calculated_geometry [OF r8 True, folded order_def]
    have "oo_order (kc_oo s3) \<noteq> 0 \<longrightarrow> allocflags s3 AND GFP_COMP \<noteq> 0"
      using g(4) gfp_bits(4) by (simp add: f3 fl_def bit.conj_disj_distrib2)
    moreover have "allocflags s3 AND (GFP_ZERO OR GFP_MOVABLE) = 0" using gfp_bits by (simp add: f3 fl_def bit.conj_disj_distrib2)
    moreover have "unat (offset s3) + 4 \<le> unat r" using ao r8 f3 by auto
    ultimately have "cache_ok s3" unfolding cache_ok_def using g ao n(1) f3 by auto
    moreover from this have "oo_objects (kc_oo s3) \<noteq> 0" by (auto simp: cache_ok_def geometry_ok_def)
    ultimately show ?thesis using run g(1) f3 ao True by (intro exI [of _ s3] exI [of _ True]) auto
  next
    case False
    then have "order < 0" using calculate_order_fits [of r] ao(5) r8 by (simp add: order_def ENOSYS_def)
    then show ?thesis using run ao False by (intro exI [of _ s1] exI [of _ False]) (auto simp: s1_def)
  qed
qed


section \<open>Size classes\<close>

lemma class_sizes:
  "unat (kmalloc_cache_size j) = (if j = 1 then 96 else if j = 2 then 192 else 2 ^ j)" if "j < 32"
  using that by (simp add: kmalloc_cache_size_def unat_pow2)

lemma kmalloc_index_nat:
  "kmalloc_index sz = (let n = unat sz in
     if n = 0 then 0 else if n \<le> 8 then 3 else if 64 < n \<and> n \<le> 96 then 1 else if 128 < n \<and> n \<le> 192 then 2
     else if n \<le> 16 then 4 else if n \<le> 32 then 5 else if n \<le> 64 then 6 else if n \<le> 128 then 7 else if n \<le> 256 then 8
     else if n \<le> 512 then 9 else if n \<le> 1024 then 10 else if n \<le> 2048 then 11 else if n \<le> 4096 then 12 else - 1)"
  by (simp add: kmalloc_index_def KMALLOC_MIN_SIZE_def KMALLOC_SHIFT_LOW_def word_le_nat_alt word_less_nat_alt unat_eq_0 Let_def)

text \<open>The class of a size, as \<^verbatim>\<open>get_slab\<close> finds it by the table or by the highest bit.\<close>

lemma table_class:
  assumes "0 < n" "n \<le> 192"
  shows "size_index ! ((n - 1) div 8) = (if n \<le> 8 then 3 else if n \<le> 16 then 4 else if n \<le> 32 then 5
    else if n \<le> 64 then 6 else if n \<le> 96 then 1 else if n \<le> 128 then 7 else 2)"
proof -
  have table: "\<forall>e\<in>set [0..<24]. size_index ! e = (if e < 1 then 3 else if e < 2 then 4 else if e < 4 then 5
      else if e < 8 then 6 else if e < 12 then 1 else if e < 16 then 7 else 2)" by code_simp
  define e where "e = (n - 1) div 8"
  have "e < 24" "8 * e + 1 \<le> n" "n \<le> 8 * e + 8" using assms by (auto simp: e_def)
  then show ?thesis unfolding e_def [symmetric] using table by auto
qed

lemma fls_class:
  assumes "192 < n" "n \<le> 8192" "n = unat sz"
  shows "fls (sz - 1) = (if n \<le> 256 then 8 else if n \<le> 512 then 9 else if n \<le> 1024 then 10 else if n \<le> 2048 then 11
    else if n \<le> 4096 then 12 else 13)"
proof -
  have "sz \<noteq> 0" using assms by auto
  then have u: "unat (sz - 1) = n - 1" using assms(3) by (simp add: unat_minus_one)
  then have "sz - 1 \<noteq> 0" using assms by auto
  note b = fls_bounds [OF this]
  define f where "f = nat (fls (sz - 1))"
  have f: "fls (sz - 1) = int f" "1 \<le> f" "2 ^ (f - 1) \<le> n - 1" "n - 1 < 2 ^ f" using b u by (auto simp: f_def nat_diff_distrib)
  have low: "k \<le> f" if "2 ^ (k - 1) \<le> n - 1" "0 < k" for k
    using le_less_trans [OF that(1) f(4)] that(2) by (simp add: power_strict_increasing_iff)
  have high: "f \<le> k" if "n - 1 < 2 ^ k" for k
    using le_less_trans [OF f(3) that] by (simp add: power_strict_increasing_iff)
  have "f = k" if "2 ^ (k - 1) \<le> n - 1" "n - 1 < 2 ^ k" "0 < k" for k using low high that by (simp add: le_antisym)
  note eq = this [of 8] this [of 9] this [of 10] this [of 11] this [of 12] this [of 13]
  show ?thesis using eq assms(1,2) f(1) by auto
qed

lemma get_slab_class:
  assumes "0 < unat sz" "unat sz \<le> 8192"
  shows "get_slab_index sz = Some (let n = unat sz in if n \<le> 8 then 3 else if n \<le> 16 then 4 else if n \<le> 32 then 5
    else if n \<le> 64 then 6 else if n \<le> 96 then 1 else if n \<le> 128 then 7 else if n \<le> 192 then 2 else if n \<le> 256 then 8
    else if n \<le> 512 then 9 else if n \<le> 1024 then 10 else if n \<le> 2048 then 11 else if n \<le> 4096 then 12 else 13)"
proof (cases "unat sz \<le> 192")
  case True
  have "size_index_elem sz = (unat sz - 1) div 8"
    using assms(1) by (simp add: size_index_elem_def unat_div unat_minus_one unat_gt_0)
  then show ?thesis
    using True assms(1) table_class [OF assms(1) True]
    by (auto simp: get_slab_index_def word_le_nat_alt unat_eq_0 Let_def)
next
  case False
  then show ?thesis
    using fls_class [of "unat sz" sz] assms(2) by (auto simp: get_slab_index_def word_le_nat_alt Let_def)
qed

section \<open>Properties\<close>

text \<open>C19. A cache with room for the free pointer is laid out such that its objects fit: the alignment loop
  ends, the size is a multiple of 8 that is at least the object size, the slab of the chosen order
  holds between one and \<open>0x7FFE\<close> objects, and the computation fails exactly for objects that are
  larger than the largest block of the page allocator.\<close>

theorem calculate_sizes_correct:
  assumes "0 < unat (objsize s)" "unat (objsize s) \<le> 2 ^ 30" "kc_align s = 0 \<or> (\<exists>a\<le>12. kc_align s = 2 ^ a)"
    "reserved s = 0" "offset s = 0"
  shows "\<exists>s' ok. calculate_sizes s (- 1) = Some (s', ok) \<and> objsize s' = objsize s
    \<and> unat (objsize s) \<le> unat (kc_size s') \<and> unat (kc_size s') < unat (objsize s) + 2 ^ 14
    \<and> ok = (unat (kc_size s') \<le> 2 ^ 22) \<and> (ok \<longrightarrow> cache_ok s')"
  using calculate_sizes_result [OF assms] by blast

theorem calculate_sizes_correct_witness:
  "\<exists>s'. calculate_sizes (zero_cache\<lparr>objsize := 96, kc_align := 8\<rparr>) (- 1) = Some (s', True) \<and> cache_ok s'"
proof -
  let ?s = "zero_cache\<lparr>objsize := 96, kc_align := 8\<rparr>"
  have "(8 :: ulong) = 2 ^ 3" by simp
  then have "kc_align ?s = 0 \<or> (\<exists>a\<le>12. kc_align ?s = 2 ^ a)" by (intro disjI2 exI [of _ 3]) simp
  then show ?thesis using calculate_sizes_correct [of ?s] by (fastforce simp: zero_cache_def)
qed

text \<open>The class of a size, at run time and at compile time.\<close>

lemma kmalloc_class:
  assumes "0 < unat sz" "unat sz \<le> unat SLUB_MAX_SIZE"
  shows "\<exists>i. get_slab_index sz = Some (int i) \<and> 1 \<le> i \<and> i < SLUB_PAGE_SHIFT \<and> sz \<le> kmalloc_cache_size i
    \<and> (\<forall>j. 1 \<le> j \<and> j < SLUB_PAGE_SHIFT \<and> sz \<le> kmalloc_cache_size j \<longrightarrow> kmalloc_cache_size i \<le> kmalloc_cache_size j)
    \<and> kmalloc_index sz = (if sz \<le> 4096 then int i else - 1)"
proof -
  define n where "n = unat sz"
  have n: "0 < n" "n \<le> 8192"
    using assms by (simp_all add: n_def SLUB_MAX_SIZE_def PAGE_SIZE_def PAGE_SHIFT_def)
  define i :: nat where "i = (if n \<le> 8 then 3 else if n \<le> 16 then 4 else if n \<le> 32 then 5
    else if n \<le> 64 then 6 else if n \<le> 96 then 1 else if n \<le> 128 then 7 else if n \<le> 192 then 2 else if n \<le> 256 then 8
    else if n \<le> 512 then 9 else if n \<le> 1024 then 10 else if n \<le> 2048 then 11 else if n \<le> 4096 then 12 else 13)"
  have "get_slab_index sz = Some (int i)" using get_slab_class [of sz] n by (simp add: i_def n_def Let_def)
  moreover have i: "1 \<le> i" "i < 14" by (simp_all add: i_def)
  moreover have fit: "n \<le> unat (kmalloc_cache_size i)" using n class_sizes [of i] i by (auto simp: i_def)
  moreover have "unat (kmalloc_cache_size i) \<le> unat (kmalloc_cache_size j)"
    if j: "1 \<le> j" "j < 14" "n \<le> unat (kmalloc_cache_size j)" for j
  proof -
    have "j \<in> set [1..<14]" using j(1,2) by simp
    moreover have "[1..<14] = [1, 2, 3, 4, 5, 6, 7, 8, 9, 10, 11, 12, 13 :: nat]" by code_simp
    ultimately have "j \<in> set [1, 2, 3, 4, 5, 6, 7, 8, 9, 10, 11, 12, 13]" by metis
    then show ?thesis using j(3) class_sizes [of i] class_sizes [of j] n by (auto simp: i_def split: if_splits)
  qed
  moreover have "kmalloc_index sz = (if n \<le> 4096 then int i else - 1)"
    using n by (simp add: kmalloc_index_nat n_def [symmetric] Let_def i_def)
  ultimately show ?thesis
    by (intro exI [of _ i]) (auto simp: SLUB_PAGE_SHIFT_def PAGE_SHIFT_def word_le_nat_alt n_def)
qed

end
