(* ===== verification/Page_Source.thy ===== *)
theory Page_Source
  imports Page_Alloc
begin

text \<open>
  The page allocator as its clients see it: the frames of a compound page lead to its head, and the
  contract of a source of page blocks as a locale, with the allocator of \<^verbatim>\<open>mm/page_alloc.c\<close>
  (theory \<open>Page_Alloc\<close>) as its instance. The slab allocator (theory \<open>Slub_Inv\<close>) rests on this
  contract.
\<close>

section \<open>Compound pages\<close>

text \<open>The frames of a block lead to its head, and the head knows the order.\<close>

definition compound_block :: "mem_map \<Rightarrow> nat \<Rightarrow> nat \<Rightarrow> bool" where
  "compound_block m p k \<longleftrightarrow> compound_order m p = word_of_nat k \<and> \<not> PageTail (m p) \<and> (k = 0 \<longrightarrow> \<not> PageHead (m p))
     \<and> (\<forall>q\<in>blk p k. compound_head m q = p)"

lemma compound_tails_at:
  "compound_tails n a page m q =
     (if a \<le> q \<and> q < a + n then (set_page_flag PG_tail (m q))\<lparr>pg_private := word_of_nat page\<rparr> else m q)"
  by (induction n arbitrary: a m) auto

lemma bit_set_flag: "bit (pg_flags (set_page_flag n p)) j \<longleftrightarrow> j = n \<and> n < 32 \<or> bit (pg_flags p) j"
  by (auto simp: set_page_flag_def bit_set_bit_iff dest: bit_imp_le_length)

lemma prep_compound_block:
  assumes k: "k \<noteq> 0" "k < 32" and p: "p < 2 ^ 32" and low: "\<not> PageTail (m p)"
  shows "compound_block (prep_compound_page m p k) p k"
proof -
  let ?m = "prep_compound_page m p k"
  define m2 where "m2 = (let m = set_compound_order (set_compound_page_dtor m p Free_compound_page) p (word_of_nat k)
      in m(p := set_page_flag PG_head (m p)))"
  have m: "?m = compound_tails (2 ^ k - 1) (p + 1) p m2" by (simp add: prep_compound_page_def m2_def Let_def)
  have "?m p = m2 p" unfolding m compound_tails_at by simp
  moreover have "m2 p = set_page_flag PG_head (m p)"
    by (simp add: m2_def Let_def set_compound_order_def set_compound_page_dtor_def)
  ultimately have h: "?m p = set_page_flag PG_head (m p)" by simp
  have two: "(2 :: nat) \<le> 2 ^ k" using k(1) by (cases k) auto
  have "pg_comp_order (?m (p + 1)) = word_of_nat k"
    unfolding m compound_tails_at using two
    by (simp add: m2_def Let_def set_compound_order_def set_compound_page_dtor_def set_page_flag_def)
  moreover have "PageHead (?m p)" using h by (simp add: PageHead_def test_page_flag_def bit_set_flag pageflags)
  ultimately have "compound_order ?m p = word_of_nat k" by (simp add: compound_order_def)
  moreover have "\<not> PageTail (?m p)" using low h by (simp add: PageTail_def test_page_flag_def bit_set_flag pageflags)
  moreover from this have "compound_head ?m p = p" by (simp add: compound_head_def)
  moreover have "compound_head ?m q = p" if "q \<in> blk p k" "q \<noteq> p" for q
  proof -
    have "?m q = (set_page_flag PG_tail (m2 q))\<lparr>pg_private := word_of_nat p\<rparr>"
      unfolding m compound_tails_at using that by (auto simp: blk_def)
    then show ?thesis
      using p by (simp add: compound_head_def PageTail_def test_page_flag_def bit_set_flag pageflags unat_of_nat)
  qed
  ultimately show ?thesis using k by (auto simp: compound_block_def)
qed

lemma prep_new_page_compound:
  assumes r: "ready m z p k" and gf: "gf AND GFP_ZERO = 0" and p: "p < 2 ^ 32"
    and c: "k = 0 \<or> gf AND GFP_COMP \<noteq> 0" and run: "prep_new_page m p k gf = (m', b)"
  shows "compound_block m' p k"
proof -
  define m1 where "m1 = m(p := set_page_refcounted (set_page_private (m p) 0))"
  have "\<not> check_new_page (m q)" if "p \<le> q" "q < p + 2 ^ k" for q using ready_checks(1) [OF r, of q] that by (simp add: blk_def)
  then have m': "m' = (if k \<noteq> 0 \<and> gf AND GFP_COMP \<noteq> 0 then prep_compound_page m1 p k else m1)"
    using run gf by (auto simp: prep_new_page_def Let_def m1_def)
  have "spotless (m p)" using r blk_nonempty(2) [of p k] by (auto simp: ready_def)
  then have "pg_flags (m1 p) AND PAGE_FLAGS_CHECK_AT_PREP = 0"
    by (simp add: m1_def spotless_def set_page_refcounted_def set_page_count_def set_page_private_def)
  then have f: "\<not> PageHead (m1 p)" "\<not> PageTail (m1 p)"
    using low_flags [of "m1 p"] by (simp_all add: PageHead_def PageTail_def test_page_flag_def pageflags)
  show ?thesis
  proof (cases "k = 0")
    case True
    then show ?thesis using f by (simp add: m' compound_block_def blk_def compound_order_def compound_head_def)
  next
    case False
    have "k < MAX_ORDER" using r by (simp add: ready_def held_def)
    then show ?thesis using prep_compound_block [of k p m1] p f(2) False c by (simp add: m' MAX_ORDER_def)
  qed
qed

lemma span_word: "mm_inv s \<Longrightarrow> i < MAX_NR_ZONES \<Longrightarrow> span (mm_zones s i) \<subseteq> {..<2 ^ 32}"
  by (auto simp: mm_inv_def zone_inv_def span_def zone_ok_def dest!: buddy_invD(1) spec)

lemma buffered_rmqueue_compound:
  assumes inv: "mm_inv s" and i: "i < MAX_NR_ZONES" and t: "t < MIGRATE_PCPTYPES" and gf: "gf AND GFP_ZERO = 0"
    and c: "k = 0 \<or> gf AND GFP_COMP \<noteq> 0" and run: "buffered_rmqueue s i k gf t = Some (s', Some p)"
  shows "compound_block (mm_map s') p k"
proof (cases "rmqueue_page s i k gf t")
  case (Pair s1 x)
  note sp = rmqueue_page_spec [OF inv i t, of k gf, unfolded Pair]
  obtain p' where x: "x = Some p'" using run unfolding buffered_rmqueue.simps [of s i k gf t] Pair by (cases x) auto
  then have tk: "taken_block s i p' k s1" using sp by simp
  then have r: "ready (mm_map s1) (mm_zones s1 i) p' k" and inv1: "mm_inv s1" by (simp_all add: taken_block_def)
  obtain m' where m': "prep_new_page (mm_map s1) p' k gf = (m', False)"
    by (rule prep_new_page_spec [OF r gf]) blast
  have eq: "s' = s1\<lparr>mm_map := m'\<rparr>" "p' = p"
    using run x m' unfolding buffered_rmqueue.simps [of s i k gf t] Pair by simp_all
  have "blk p' k \<subseteq> {..<2 ^ 32}" using r span_word [OF inv1 i] by (auto simp: ready_def held_def)
  then have "p' < 2 ^ 32" using blk_nonempty(2) [of p' k] by blast
  then show ?thesis using prep_new_page_compound [OF r gf _ c m'] eq by simp
qed

lemma freelist_scan_from:
  assumes inv: "mm_inv s" and t: "t < MIGRATE_PCPTYPES" and gf: "gf AND GFP_ZERO = 0" and zs: "\<forall>i\<in>set zs. i < MAX_NR_ZONES"
    and run: "freelist_scan zs s gf k af c t = Some (s', Some p)"
  shows "\<exists>i<MAX_NR_ZONES. buffered_rmqueue s i k gf t = Some (s', Some p)"
  using zs run
proof (induction zs)
  case (Cons i zs)
  have i: "i < MAX_NR_ZONES" using Cons.prems by simp
  show ?case
    using Cons buffered_rmqueue_spec [OF inv i t gf, of k] i by (auto simp: Let_def split: if_splits option.splits)
qed simp

lemma alloc_pages_compound:
  assumes inv: "mm_inv s" and zl: "zonelist_ok (mm_zonelist s)" and gf: "plain_request gf"
    and c: "k = 0 \<or> gf AND mm_gfp_allowed s AND GFP_COMP \<noteq> 0" and run: "uu_alloc_pages_nodemask s gf k = Some (s', Some p)"
  shows "compound_block (mm_map s') p k"
proof -
  obtain zones where b: "mm_zonelist s = build_zonelists zones" using zl by (auto simp: zonelist_ok_def)
  define zs where "zs = for_each_zone (mm_zonelist s) (gfp_zone gf)"
  have zs: "\<forall>i\<in>set zs. i < MAX_NR_ZONES" unfolding zs_def b zonelist_order by auto
  note hd = zonelist_hd [OF b, of "gfp_zone gf", folded zs_def]
  define g where "g = (gf AND mm_gfp_allowed s) OR GFP_HARDWALL"
  define t where "t = allocflags_to_migratetype (mm_pgmd s) gf"
  have t: "t < MIGRATE_PCPTYPES" and z: "g AND GFP_ZERO = 0" using plain_type [OF gf] plain_mask [OF gf] by (simp_all add: t_def g_def)
  have "zs \<noteq> []" using run hd(2) by (auto simp: uu_alloc_pages_nodemask_def Let_def split: if_splits)
  then have "freelist_scan zs s g k (ALLOC_WMARK_LOW OR ALLOC_CPUSET) (List.hd zs) t = Some (s', Some p)"
    using run hd by (auto simp: uu_alloc_pages_nodemask_def Let_def get_page_from_freelist_def zs_def g_def t_def)
  then obtain i where i: "i < MAX_NR_ZONES" "buffered_rmqueue s i k g t = Some (s', Some p)"
    using freelist_scan_from [OF inv t z zs] by blast
  have "k = 0 \<or> g AND GFP_COMP \<noteq> 0" using c by (auto simp: g_def and.assoc bit.conj_disj_distrib2 or_eq_0_iff)
  then show ?thesis by (rule buffered_rmqueue_compound [OF inv i(1) t z _ i(2)])
qed

section \<open>The interface of the page allocator\<close>

text \<open>What a client of a source of page blocks relies on. A client owns blocks; it may change the
  frames of its blocks, and it may return a block whose frames are clean. Allocating and returning
  other blocks does not touch what the client owns.\<close>

locale block_source =
  fixes inv :: "'m \<Rightarrow> bool" and owned :: "'m \<Rightarrow> nat \<Rightarrow> nat \<Rightarrow> bool" and clean :: "'m \<Rightarrow> nat \<Rightarrow> nat \<Rightarrow> bool"
    and linked :: "'m \<Rightarrow> nat \<Rightarrow> nat \<Rightarrow> bool" and frame :: "'m \<Rightarrow> nat \<Rightarrow> page" and plain :: "ulong \<Rightarrow> bool"
    and alloc :: "'m \<Rightarrow> ulong \<Rightarrow> nat \<Rightarrow> ('m \<times> nat option) option" and free :: "'m \<Rightarrow> nat \<Rightarrow> nat \<Rightarrow> 'm option"
  assumes alloc_total: "inv m \<Longrightarrow> plain gf \<Longrightarrow> \<exists>m' r. alloc m gf k = Some (m', r)"
    and alloc_none: "inv m \<Longrightarrow> plain gf \<Longrightarrow> alloc m gf k = Some (m', None) \<Longrightarrow> m' = m"
    and alloc_some: "inv m \<Longrightarrow> plain gf \<Longrightarrow> alloc m gf k = Some (m', Some p) \<Longrightarrow> inv m' \<and> owned m' p k \<and> clean m' p k"
    and alloc_linked: "inv m \<Longrightarrow> plain gf \<Longrightarrow> alloc m gf k = Some (m', Some p) \<Longrightarrow> k = 0 \<or> gf AND GFP_COMP \<noteq> 0 \<Longrightarrow> linked m' p k"
    and alloc_frame: "inv m \<Longrightarrow> plain gf \<Longrightarrow> alloc m gf k = Some (m', Some p) \<Longrightarrow> owned m q j \<Longrightarrow>
      owned m' q j \<and> blk q j \<inter> blk p k = {} \<and> (\<forall>x\<in>blk q j. frame m' x = frame m x)"
    and free_total: "inv m \<Longrightarrow> clean m p k \<Longrightarrow> \<exists>m'. free m p k = Some m' \<and> inv m'"
    and free_frame: "inv m \<Longrightarrow> clean m p k \<Longrightarrow> free m p k = Some m' \<Longrightarrow> owned m q j \<Longrightarrow> blk q j \<inter> blk p k = {} \<Longrightarrow>
      owned m' q j \<and> (\<forall>x\<in>blk q j. frame m' x = frame m x)"
begin

text \<open>An allocation, successful or not, keeps the blocks of a client.\<close>

lemma alloc_keeps:
  assumes "inv m" "plain gf" "alloc m gf k = Some (m', r)" "owned m q j"
  shows "inv m'" "owned m' q j" "x \<in> blk q j \<Longrightarrow> frame m' x = frame m x"
  using assms alloc_none [OF assms(1,2)] alloc_some [OF assms(1,2)] alloc_frame [OF assms(1,2)] by (cases r; auto)+

text \<open>A request with a second, more modest attempt.\<close>

lemma fallback:
  assumes inv: "inv m" and pl: "plain gf" "plain gf'"
    and cl: "k = 0 \<or> gf AND GFP_COMP \<noteq> 0" "k' = 0 \<or> gf' AND GFP_COMP \<noteq> 0"
  obtains m' where "alloc m gf k = Some (m, None)" "alloc m gf' k' = Some (m, None)" "m' = m"
  | m' p where "alloc m gf k = Some (m', Some p)" "inv m'" "clean m' p k" "owned m' p k" "linked m' p k"
      "\<And>q j. owned m q j \<Longrightarrow> owned m' q j \<and> blk q j \<inter> blk p k = {} \<and> (\<forall>x\<in>blk q j. frame m' x = frame m x)"
  | m' p where "alloc m gf k = Some (m, None)" "alloc m gf' k' = Some (m', Some p)" "inv m'" "clean m' p k'" "owned m' p k'" "linked m' p k'"
      "\<And>q j. owned m q j \<Longrightarrow> owned m' q j \<and> blk q j \<inter> blk p k' = {} \<and> (\<forall>x\<in>blk q j. frame m' x = frame m x)"
proof -
  obtain m1 r1 where r1: "alloc m gf k = Some (m1, r1)" using alloc_total [OF inv pl(1)] by blast
  show thesis
  proof (cases r1)
    case (Some p)
    then show thesis
      using that(2) r1 alloc_some [OF inv pl(1)] alloc_linked [OF inv pl(1)] alloc_frame [OF inv pl(1)] cl(1) by blast
  next
    case None
    then have m1: "m1 = m" using alloc_none [OF inv pl(1)] r1 by blast
    obtain m2 r2 where r2: "alloc m gf' k' = Some (m2, r2)" using alloc_total [OF inv pl(2)] by blast
    show thesis
    proof (cases r2)
      case (Some p)
      then show thesis
        using that(3) None r1 m1 r2 alloc_some [OF inv pl(2)] alloc_linked [OF inv pl(2)] alloc_frame [OF inv pl(2)] cl(2) by blast
    next
      case None
      then show thesis using that(1) \<open>r1 = None\<close> r1 m1 r2 alloc_none [OF inv pl(2)] by blast
    qed
  qed
qed

end

section \<open>The page allocator as a source of blocks\<close>

definition owned_block :: "mm \<Rightarrow> nat \<Rightarrow> nat \<Rightarrow> bool" where
  "owned_block m p k \<longleftrightarrow> (\<exists>i<MAX_NR_ZONES. held (mm_zones m i) p k)"

definition clean_block :: "mm \<Rightarrow> nat \<Rightarrow> nat \<Rightarrow> bool" where
  "clean_block m p k \<longleftrightarrow> (\<exists>i. in_use_block m i p k)"

text \<open>The frames have addresses in the kernel's part of the address space, below its last page.\<close>

definition source_inv :: "mm \<Rightarrow> bool" where
  "source_inv m \<longleftrightarrow> mm_inv m \<and> zonelist_ok (mm_zonelist m) \<and> mm_gfp_allowed m AND GFP_COMP \<noteq> 0
     \<and> (\<forall>i<MAX_NR_ZONES. span (mm_zones m i) \<subseteq> {..<2 ^ 18 - 1})"

lemma comp_bit: "x AND GFP_COMP \<noteq> 0 \<longleftrightarrow> bit x 14"
proof -
  have e: "GFP_COMP = 2 ^ 14" by (simp add: GFP_COMP_def)
  show ?thesis unfolding e
    by (metis (no_types, lifting) and_exp_eq_0_iff_not_bit)
qed

lemma kept_owned:
  assumes inv: "mm_inv m" and i: "i < MAX_NR_ZONES" and k: "kept m i B m'" and o: "owned_block m q j" and d: "blk q j \<inter> B = {}"
  shows "owned_block m' q j \<and> (\<forall>x\<in>blk q j. mm_map m' x = mm_map m x)"
proof -
  obtain z where z: "z < MAX_NR_ZONES" "held (mm_zones m z) q j" using o by (auto simp: owned_block_def)
  have nf: "blk q j \<inter> free_pages (mm_zones m n) = {}" if "n < MAX_NR_ZONES" for n by (rule held_not_free [OF inv z that])
  have "same_zone (mm_zones m z) (mm_zones m' z)" using k by (cases "z = i") (simp_all add: kept_def)
  note sp = same_zone_span [OF this]
  have "free_pages (mm_zones m' z) \<subseteq> free_pages (mm_zones m z) \<union> B" using k by (cases "z = i") (auto simp: kept_def)
  then have "blk q j \<inter> free_pages (mm_zones m' z) = {}" using nf [OF z(1)] d by blast
  then have "held (mm_zones m' z) q j" using z(2) sp by (simp add: held_def)
  moreover have "mm_map m' x = mm_map m x" if "x \<in> blk q j" for x using k nf [OF i] d that unfolding kept_def by blast
  ultimately show ?thesis using z(1) by (auto simp: owned_block_def)
qed

lemma kept_source:
  assumes "source_inv m" "mm_inv m'" "kept m i B m'"
  shows "source_inv m'"
proof -
  have "same_zone (mm_zones m z) (mm_zones m' z)" for z using assms(3) by (cases "z = i") (simp_all add: kept_def)
  then have "span (mm_zones m' z) = span (mm_zones m z)" for z using same_zone_span by blast
  then show ?thesis using assms unfolding source_inv_def kept_def by metis
qed

lemma alloc_got:
  assumes inv: "source_inv m" and pl: "plain_request gf" and run: "uu_alloc_pages_nodemask m gf k = Some (m', Some p)"
  shows "\<exists>i<MAX_NR_ZONES. got_block m i p k m'"
proof -
  have m: "mm_inv m" and zl: "zonelist_ok (mm_zonelist m)" using inv by (simp_all add: source_inv_def)
  have "i < MAX_NR_ZONES" if "i \<in> set (for_each_zone (mm_zonelist m) h)" for i h
    using zl that by (auto simp: zonelist_ok_def zonelist_order)
  then show ?thesis using alloc_pages_spec [OF m zl pl, of k] run by auto
qed

interpretation ps: block_source source_inv owned_block clean_block "\<lambda>m. compound_block (mm_map m)" mm_map plain_request
  uu_alloc_pages_nodemask uu_free_pages
proof (unfold_locales, goal_cases)
  case (1 m gf k)
  then show ?case using alloc_pages_spec [of m gf k] by (auto simp: source_inv_def)
next
  case (2 m gf k m')
  then show ?case using alloc_pages_spec [of m gf k] by (auto simp: source_inv_def)
next
  case (3 m gf k m' p)
  then obtain i where i: "i < MAX_NR_ZONES" "got_block m i p k m'" using alloc_got by blast
  then show ?case
    using kept_source [OF 3(1), of m' i "blk p k"]
    by (auto simp: got_block_def owned_block_def clean_block_def in_use_block_def)
next
  case (4 m gf k m' p)
  then have "k = 0 \<or> gf AND mm_gfp_allowed m AND GFP_COMP \<noteq> 0"
    unfolding source_inv_def and.assoc [symmetric] comp_bit by (simp add: bit_and_iff)
  then show ?case using 4 alloc_pages_compound [of m gf k m' p] by (simp add: source_inv_def)
next
  case (5 m gf k m' p q j)
  then obtain i where i: "i < MAX_NR_ZONES" "got_block m i p k m'" using alloc_got by blast
  have inv: "mm_inv m" using 5(1) by (simp add: source_inv_def)
  obtain z where "z < MAX_NR_ZONES" "held (mm_zones m z) q j" using 5(4) by (auto simp: owned_block_def)
  then have d: "blk q j \<inter> blk p k = {}" using held_not_free [OF inv _ _ i(1)] i(2) by (fastforce simp: got_block_def)
  then show ?case using kept_owned [OF inv i(1) _ 5(4) d] i(2) by (simp add: got_block_def)
next
  case (6 m p k)
  then obtain i where i: "in_use_block m i p k" by (auto simp: clean_block_def)
  have inv: "mm_inv m" using 6(1) by (simp add: source_inv_def)
  then show ?case using free_pages_spec [OF inv i] kept_source [OF 6(1)] by (fastforce simp: freed_block_def)
next
  case (7 m p k m' q j)
  then obtain i where i: "in_use_block m i p k" by (auto simp: clean_block_def)
  have inv: "mm_inv m" using 7(1) by (simp add: source_inv_def)
  have "freed_block m i p k m'" "i < MAX_NR_ZONES" using free_pages_spec [OF inv i] 7(3) i by (auto simp: in_use_block_def)
  then show ?case using kept_owned [OF inv _ _ 7(4,5)] by (simp add: freed_block_def)
qed

text \<open>A client may change its frames, as long as they keep their zone and do not look like the head of
  a free block.\<close>

lemma owner_upd:
  assumes inv: "source_inv m" and o: "owned_block m p k" and q: "q \<in> blk p k" and zn: "page_zone_id (f (mm_map m q)) = page_zone_id (mm_map m q)"
    and nb: "\<not> PageBuddy (f (mm_map m q))" "\<And>x. x \<in> blk p k \<Longrightarrow> \<not> PageBuddy (mm_map m x)"
  shows "source_inv (upd_page m q f)" "owned_block (upd_page m q f) = owned_block m"
proof -
  obtain i where i: "i < MAX_NR_ZONES" "held (mm_zones m i) p k" using o by (auto simp: owned_block_def)
  have zs: "zones_inv (mm_map m) (mm_zones m)" "pcp_idle (mm_pcp m)" using inv by (simp_all add: source_inv_def mm_inv_zones)
  have "zones_inv (mm_map (upd_page m q f)) (mm_zones m)"
    by (rule zones_inv_block [OF zs(1) i]) (use q zn nb in \<open>auto simp: upd_page_def\<close>)
  then have "mm_inv (upd_page m q f)" using zs(2) by (simp add: mm_inv_zones upd_page_def)
  then show "source_inv (upd_page m q f)" using inv by (simp add: source_inv_def upd_page_def)
  show "owned_block (upd_page m q f) = owned_block m" by (simp add: owned_block_def upd_page_def fun_eq_iff)
qed

end
