(* ===== verification/Slub.thy ===== *)
theory Slub
  imports Slab_Sizes "HOL-Library.Monad_Syntax"
begin

text \<open>
  The slab allocator \<^verbatim>\<open>mm/slub.c\<close>: its state and its operations. The objects of a cache lie in
  slabs, blocks of pages that come from the page allocator (theory \<open>Page_Alloc\<close>). A free object
  holds in one of its words the address of the next free one, so that the lists of free objects
  live in the memory itself (theory \<open>String_Lib\<close>). The head of a list is in the page frame of the
  slab, or in \<^verbatim>\<open>struct kmem_cache_cpu\<close> for the slab that the processor allocates from. The page
  frame also packs the number of objects, the number in use and the mark of that slab into the
  word that the page allocator uses as \<^verbatim>\<open>_mapcount\<close>.

  Descriptors are found by their address: \<open>sl_caches\<close>, \<open>sl_cpus\<close> and \<open>sl_nodes\<close>
  are the structures of the three types in memory. The kernel is built for one processor, so that a
  spin lock only counts in \<open>sl_preempt\<close>. An operation without a result does not return: it
  loops for ever, follows a poisoned pointer, or panics. Interrupts that arrive while
  \<^verbatim>\<open>allocate_slab\<close> has enabled them, and a change of the thread when preemption is enabled, are not
  modelled; tracing, statistics and debugging hooks are empty in the source.
\<close>

section \<open>State\<close>

record kmem_cache_cpu =
  c_freelist :: ulong
  c_tid :: ulong
  c_page :: "nat option"
  c_node :: int

record kmem_cache_node =
  nr_partial :: ulong
  partial :: "nat list"

datatype slab_state = DOWN | PARTIAL | UP | SYSFS

text \<open>\<open>sl_slab_pages\<close> is the counter \<^verbatim>\<open>NR_SLAB_RECLAIMABLE\<close> (true) or
  \<^verbatim>\<open>NR_SLAB_UNRECLAIMABLE\<close> of a zone, \<open>sl_reclaimed\<close> the counter of
  \<^verbatim>\<open>current->reclaim_state\<close> when there is one, \<open>sl_mem_map\<close> the address of the array of
  page frames, and \<open>sl_stack\<close> the word on the stack above the argument of
  \<^verbatim>\<open>cmpxchg_double_slab\<close>.\<close>

record slub =
  sl_mm :: mm
  sl_mem :: memory
  sl_caches :: "ulong \<Rightarrow> kmem_cache"
  sl_cpus :: "ulong \<Rightarrow> kmem_cache_cpu"
  sl_nodes :: "ulong \<Rightarrow> kmem_cache_node"
  sl_preempt :: u32
  sl_irqs :: bool
  sl_slab_pages :: "nat \<Rightarrow> bool \<Rightarrow> ulong"
  sl_reclaimed :: "ulong option"
  sl_state :: slab_state
  slab_caches :: "ulong list"
  kmalloc_caches :: "nat \<Rightarrow> ulong"
  kmalloc_dma_caches :: "nat \<Rightarrow> ulong"
  sl_kmem_cache :: ulong
  sl_kmem_cache_node :: ulong
  sl_mem_map :: ulong
  sl_stack :: ulong

definition pg :: "slub \<Rightarrow> nat \<Rightarrow> page" where "pg \<sigma> p = mm_map (sl_mm \<sigma>) p"

definition set_pg :: "slub \<Rightarrow> nat \<Rightarrow> (page \<Rightarrow> page) \<Rightarrow> slub" where
  "set_pg \<sigma> p f = \<sigma>\<lparr>sl_mm := upd_page (sl_mm \<sigma>) p f\<rparr>"

definition cpu_of :: "slub \<Rightarrow> ulong \<Rightarrow> kmem_cache_cpu" where "cpu_of \<sigma> s = sl_cpus \<sigma> (cpu_slab (sl_caches \<sigma> s))"

definition set_cpu :: "slub \<Rightarrow> ulong \<Rightarrow> (kmem_cache_cpu \<Rightarrow> kmem_cache_cpu) \<Rightarrow> slub" where
  "set_cpu \<sigma> s f = (let a = cpu_slab (sl_caches \<sigma> s) in \<sigma>\<lparr>sl_cpus := (sl_cpus \<sigma>)(a := f (sl_cpus \<sigma> a))\<rparr>)"

definition set_node :: "slub \<Rightarrow> ulong \<Rightarrow> (kmem_cache_node \<Rightarrow> kmem_cache_node) \<Rightarrow> slub" where
  "set_node \<sigma> n f = \<sigma>\<lparr>sl_nodes := (sl_nodes \<sigma>)(n := f (sl_nodes \<sigma> n))\<rparr>"

definition set_cache :: "slub \<Rightarrow> ulong \<Rightarrow> (kmem_cache \<Rightarrow> kmem_cache) \<Rightarrow> slub" where
  "set_cache \<sigma> s f = \<sigma>\<lparr>sl_caches := (sl_caches \<sigma>)(s := f (sl_caches \<sigma> s))\<rparr>"

definition preempt_disable :: "slub \<Rightarrow> slub" where "preempt_disable \<sigma> = \<sigma>\<lparr>sl_preempt := sl_preempt \<sigma> + 1\<rparr>"
definition preempt_enable :: "slub \<Rightarrow> slub" where "preempt_enable \<sigma> = \<sigma>\<lparr>sl_preempt := sl_preempt \<sigma> - 1\<rparr>"
definition spin_lock :: "slub \<Rightarrow> slub" where "spin_lock \<sigma> = preempt_disable \<sigma>"
definition spin_unlock :: "slub \<Rightarrow> slub" where "spin_unlock \<sigma> = preempt_enable \<sigma>"
definition slab_lock :: "slub \<Rightarrow> slub" where "slab_lock \<sigma> = preempt_disable \<sigma>"
definition slab_unlock :: "slub \<Rightarrow> slub" where "slab_unlock \<sigma> = preempt_enable \<sigma>"
definition local_irq_disable :: "slub \<Rightarrow> slub" where "local_irq_disable \<sigma> = \<sigma>\<lparr>sl_irqs := False\<rparr>"
definition local_irq_enable :: "slub \<Rightarrow> slub" where "local_irq_enable \<sigma> = \<sigma>\<lparr>sl_irqs := True\<rparr>"
definition local_irq_restore :: "slub \<Rightarrow> bool \<Rightarrow> slub" where "local_irq_restore \<sigma> flags = \<sigma>\<lparr>sl_irqs := flags\<rparr>"

section \<open>The counters of a slab\<close>

text \<open>The bit fields of the word \<^verbatim>\<open>counters\<close>.\<close>

definition inuse :: "u32 \<Rightarrow> u32" where "inuse c = take_bit 16 c"
definition objects :: "u32 \<Rightarrow> u32" where "objects c = take_bit 15 (drop_bit 16 c)"
definition frozen :: "u32 \<Rightarrow> bool" where "frozen c = bit c 31"

definition set_inuse :: "u32 \<Rightarrow> u32 \<Rightarrow> u32" where
  "set_inuse c v = (c AND NOT (mask 16)) OR take_bit 16 v"

definition set_objects :: "u32 \<Rightarrow> u32 \<Rightarrow> u32" where
  "set_objects c v = (c AND NOT (push_bit 16 (mask 15))) OR push_bit 16 (take_bit 15 v)"

definition set_frozen :: "u32 \<Rightarrow> bool \<Rightarrow> u32" where
  "set_frozen c b = (if b then set_bit 31 c else unset_bit 31 c)"

section \<open>Free pointers and lists of slabs\<close>

definition get_freepointer :: "slub \<Rightarrow> ulong \<Rightarrow> ulong \<Rightarrow> ulong" where
  "get_freepointer \<sigma> s ob = read_word (sl_mem \<sigma>) (ob + offset (sl_caches \<sigma> s))"

definition get_freepointer_safe :: "slub \<Rightarrow> ulong \<Rightarrow> ulong \<Rightarrow> ulong" where
  "get_freepointer_safe \<sigma> s ob = get_freepointer \<sigma> s ob"

definition set_freepointer :: "slub \<Rightarrow> ulong \<Rightarrow> ulong \<Rightarrow> ulong \<Rightarrow> slub" where
  "set_freepointer \<sigma> s ob fp = \<sigma>\<lparr>sl_mem := write_word (sl_mem \<sigma>) (ob + offset (sl_caches \<sigma> s)) fp\<rparr>"

definition add_partial :: "slub \<Rightarrow> ulong \<Rightarrow> nat \<Rightarrow> bool \<Rightarrow> slub" where
  "add_partial \<sigma> n page tail =
     set_node \<sigma> n (\<lambda>d. d\<lparr>nr_partial := nr_partial d + 1,
       partial := (if tail then partial d @ [page] else page # partial d)\<rparr>)"

definition remove_partial :: "slub \<Rightarrow> ulong \<Rightarrow> nat \<Rightarrow> slub" where
  "remove_partial \<sigma> n page =
     set_node \<sigma> n (\<lambda>d. d\<lparr>nr_partial := nr_partial d - 1, partial := remove1 page (partial d)\<rparr>)"

text \<open>\<^verbatim>\<open>__cmpxchg_double_slab\<close> compares and exchanges the free list and the counters of the page,
  with one instruction or under the lock of the page.\<close>

definition uu_cmpxchg_double_slab :: "slub \<Rightarrow> ulong \<Rightarrow> nat \<Rightarrow> ulong \<Rightarrow> u32 \<Rightarrow> ulong \<Rightarrow> u32 \<Rightarrow> slub \<times> bool" where
  "uu_cmpxchg_double_slab \<sigma> s page freelist_old counters_old freelist_new counters_new =
     (if kc_flags (sl_caches \<sigma> s) AND CMPXCHG_DOUBLE \<noteq> 0 then
        (if pg_freelist (pg \<sigma> page) = freelist_old \<and> pg_mapcount (pg \<sigma> page) = counters_old
         then (set_pg \<sigma> page (\<lambda>p. p\<lparr>pg_freelist := freelist_new, pg_mapcount := counters_new\<rparr>), True)
         else (\<sigma>, False))
      else
        (let \<sigma> = slab_lock \<sigma>
         in if pg_freelist (pg \<sigma> page) = freelist_old \<and> pg_mapcount (pg \<sigma> page) = counters_old
            then (slab_unlock (set_pg \<sigma> page (\<lambda>p. p\<lparr>pg_freelist := freelist_new, pg_mapcount := counters_new\<rparr>)), True)
            else (slab_unlock \<sigma>, False)))"

text \<open>\<^verbatim>\<open>cmpxchg_double_slab\<close> passes \<^verbatim>\<open>&page\<close> in place of \<^verbatim>\<open>&page->freelist\<close> to the
  instruction: it compares the pointer to the page frame with the free list, and the next word on
  the stack with the counters.\<close>

definition page_ptr :: "slub \<Rightarrow> nat \<Rightarrow> ulong" where
  "page_ptr \<sigma> p = sl_mem_map \<sigma> + sizeof_page * word_of_nat p"

definition cmpxchg_double_slab :: "slub \<Rightarrow> ulong \<Rightarrow> nat \<Rightarrow> ulong \<Rightarrow> u32 \<Rightarrow> ulong \<Rightarrow> u32 \<Rightarrow> slub \<times> bool" where
  "cmpxchg_double_slab \<sigma> s page freelist_old counters_old freelist_new counters_new =
     (if kc_flags (sl_caches \<sigma> s) AND CMPXCHG_DOUBLE \<noteq> 0 then
        (if page_ptr \<sigma> page = freelist_old \<and> sl_stack \<sigma> = counters_old
         then (\<sigma>\<lparr>sl_stack := counters_new\<rparr>, True)
         else (\<sigma>, False))
      else
        (let flags = sl_irqs \<sigma>;
             \<sigma> = slab_lock (local_irq_disable \<sigma>)
         in if pg_freelist (pg \<sigma> page) = freelist_old \<and> pg_mapcount (pg \<sigma> page) = counters_old
            then (local_irq_restore (slab_unlock
                    (set_pg \<sigma> page (\<lambda>p. p\<lparr>pg_freelist := freelist_new, pg_mapcount := counters_new\<rparr>))) flags, True)
            else (local_irq_restore (slab_unlock \<sigma>) flags, False)))"

text \<open>A loop that is repeated until a compare-and-exchange succeeds.\<close>

partial_function (option) redo :: "('s \<Rightarrow> 's \<times> 'a option) \<Rightarrow> 's \<Rightarrow> ('s \<times> 'a) option" where
  "redo f \<sigma> = (case f \<sigma> of (\<sigma>', Some x) \<Rightarrow> Some (\<sigma>', x) | (\<sigma>', None) \<Rightarrow> redo f \<sigma>')"

declare redo.simps [code]

definition acquire_slab :: "slub \<Rightarrow> ulong \<Rightarrow> ulong \<Rightarrow> nat \<Rightarrow> (slub \<times> bool) option" where
  "acquire_slab \<sigma> s n page =
     do {
       (\<sigma>, freelist) \<leftarrow> redo (\<lambda>\<sigma>.
         let freelist = pg_freelist (pg \<sigma> page);
             counters = pg_mapcount (pg \<sigma> page);
             new = set_frozen (set_inuse counters (objects counters)) True
         in case uu_cmpxchg_double_slab \<sigma> s page freelist counters 0 new of
              (\<sigma>, ok) \<Rightarrow> (\<sigma>, if ok then Some freelist else None)) \<sigma>;
       let \<sigma> = remove_partial \<sigma> n page;
       if freelist \<noteq> 0
       then Some (set_cpu \<sigma> s (\<lambda>c. c\<lparr>c_freelist := freelist, c_page := Some page, c_node := int (page_to_nid (pg \<sigma> page))\<rparr>), True)
       else Some (\<sigma>, False)
     }"

text \<open>\<^verbatim>\<open>list_for_each_entry\<close> reads the link of the page after \<^verbatim>\<open>acquire_slab\<close> has removed the
  page from the list and poisoned the link, so that a second round of the loop faults.\<close>

definition get_partial_node :: "slub \<Rightarrow> ulong \<Rightarrow> ulong \<Rightarrow> (slub \<times> nat option) option" where
  "get_partial_node \<sigma> s n =
     (if n = 0 \<or> nr_partial (sl_nodes \<sigma> n) = 0 then Some (\<sigma>, None)
      else
        (let \<sigma> = spin_lock \<sigma>
         in case partial (sl_nodes \<sigma> n) of
              [] \<Rightarrow> Some (spin_unlock \<sigma>, None)
            | page # _ \<Rightarrow>
                (case acquire_slab \<sigma> s n page of
                   Some (\<sigma>, True) \<Rightarrow> Some (spin_unlock \<sigma>, Some page)
                 | _ \<Rightarrow> None)))"

definition get_node :: "slub \<Rightarrow> ulong \<Rightarrow> nat \<Rightarrow> ulong" where
  "get_node \<sigma> s node = kc_node (sl_caches \<sigma> s) node"

definition NUMA_NO_NODE :: int where "NUMA_NO_NODE = - 1"
definition numa_node_id :: int where "numa_node_id = 0"

definition get_any_partial :: "slub \<Rightarrow> ulong \<Rightarrow> ulong \<Rightarrow> nat option" where
  "get_any_partial \<sigma> s flags = None"

definition get_partial :: "slub \<Rightarrow> ulong \<Rightarrow> ulong \<Rightarrow> int \<Rightarrow> (slub \<times> nat option) option" where
  "get_partial \<sigma> s flags node =
     do {
       let searchnode = (if node = NUMA_NO_NODE then numa_node_id else node);
       (\<sigma>, page) \<leftarrow> get_partial_node \<sigma> s (get_node \<sigma> s (nat searchnode));
       if page \<noteq> None \<or> node \<noteq> NUMA_NO_NODE then Some (\<sigma>, page)
       else Some (\<sigma>, get_any_partial \<sigma> s flags)
     }"

definition TID_STEP :: ulong where "TID_STEP = 1"
definition next_tid :: "ulong \<Rightarrow> ulong" where "next_tid tid = tid + TID_STEP"

definition slab_is_available :: "slub \<Rightarrow> bool" where
  "slab_is_available \<sigma> \<longleftrightarrow> sl_state \<sigma> = UP \<or> sl_state \<sigma> = SYSFS"

section \<open>Slabs\<close>

definition GFP_HIGH :: ulong where "GFP_HIGH = 0x20"
definition GFP_NOWARN :: ulong where "GFP_NOWARN = 0x200"
definition GFP_REPEAT :: ulong where "GFP_REPEAT = 0x400"
definition GFP_NOFAIL :: ulong where "GFP_NOFAIL = 0x800"
definition GFP_NORETRY :: ulong where "GFP_NORETRY = 0x1000"
definition GFP_NOMEMALLOC :: ulong where "GFP_NOMEMALLOC = 0x10000"
definition GFP_THISNODE :: ulong where "GFP_THISNODE = 0x40000"
definition GFP_NOTRACK :: ulong where "GFP_NOTRACK = 0"
definition GFP_ATOMIC :: ulong where "GFP_ATOMIC = GFP_HIGH"
definition GFP_NOWAIT :: ulong where "GFP_NOWAIT = GFP_ATOMIC AND NOT GFP_HIGH"
definition GFP_KERNEL :: ulong where "GFP_KERNEL = GFP_WAIT OR GFP_IO OR GFP_FS"

definition GFP_RECLAIM_MASK :: ulong where
  "GFP_RECLAIM_MASK = GFP_WAIT OR GFP_HIGH OR GFP_IO OR GFP_FS OR GFP_NOWARN OR GFP_REPEAT OR GFP_NOFAIL OR GFP_NORETRY
     OR GFP_NOMEMALLOC"

definition GFP_CONSTRAINT_MASK :: ulong where "GFP_CONSTRAINT_MASK = GFP_HARDWALL OR GFP_THISNODE"

text \<open>There is one node and one zone list, so that both branches of \<^verbatim>\<open>alloc_slab_page\<close> end in the
  same call of the page allocator.\<close>

definition alloc_slab_page :: "slub \<Rightarrow> ulong \<Rightarrow> int \<Rightarrow> ulong \<Rightarrow> (slub \<times> nat option) option" where
  "alloc_slab_page \<sigma> flags node oo =
     do {
       let order = oo_order oo;
       let flags = flags OR GFP_NOTRACK;
       (mm', page) \<leftarrow> uu_alloc_pages_nodemask (sl_mm \<sigma>) flags order;
       Some (\<sigma>\<lparr>sl_mm := mm'\<rparr>, page)
     }"

definition mod_slab_page_state :: "slub \<Rightarrow> nat \<Rightarrow> bool \<Rightarrow> ulong \<Rightarrow> slub" where
  "mod_slab_page_state \<sigma> z reclaimable delta =
     \<sigma>\<lparr>sl_slab_pages := (\<lambda>i b. if i = z \<and> b = reclaimable then sl_slab_pages \<sigma> i b + delta else sl_slab_pages \<sigma> i b)\<rparr>"

definition allocate_slab :: "slub \<Rightarrow> ulong \<Rightarrow> ulong \<Rightarrow> int \<Rightarrow> (slub \<times> nat option) option" where
  "allocate_slab \<sigma> s flags node =
     do {
       let d = sl_caches \<sigma> s;
       let oo = kc_oo d;
       let flags = flags AND mm_gfp_allowed (sl_mm \<sigma>);
       let \<sigma> = (if flags AND GFP_WAIT \<noteq> 0 then local_irq_enable \<sigma> else \<sigma>);
       let flags = flags OR allocflags d;
       let alloc_gfp = (flags OR GFP_NOWARN OR GFP_NORETRY) AND NOT GFP_NOFAIL;
       (\<sigma>, page) \<leftarrow> alloc_slab_page \<sigma> alloc_gfp node oo;
       (\<sigma>, page, oo) \<leftarrow> (if page = None
          then do { (\<sigma>, page) \<leftarrow> alloc_slab_page \<sigma> flags node (kc_min d); Some (\<sigma>, page, kc_min d) }
          else Some (\<sigma>, page, oo));
       let \<sigma> = (if flags AND GFP_WAIT \<noteq> 0 then local_irq_disable \<sigma> else \<sigma>);
       case page of
         None \<Rightarrow> Some (\<sigma>, None)
       | Some p \<Rightarrow>
           (let \<sigma> = set_pg \<sigma> p (\<lambda>q. q\<lparr>pg_mapcount := set_objects (pg_mapcount q) (oo_objects oo)\<rparr>);
                \<sigma> = mod_slab_page_state \<sigma> (page_zonenum (pg \<sigma> p)) (kc_flags d AND SLAB_RECLAIM_ACCOUNT \<noteq> 0)
                      (push_bit (oo_order oo) 1)
            in Some (\<sigma>, Some p))
     }"

definition setup_object :: "slub \<Rightarrow> ulong \<Rightarrow> ulong \<Rightarrow> slub" where
  "setup_object \<sigma> s ob =
     (case ctor (sl_caches \<sigma> s) of None \<Rightarrow> \<sigma> | Some f \<Rightarrow> \<sigma>\<lparr>sl_mem := f ob (sl_mem \<sigma>)\<rparr>)"

text \<open>The loop \<^verbatim>\<open>for_each_object\<close> of \<^verbatim>\<open>new_slab\<close>: it links each object to the next one, the first
  one at first to itself. The result is the last object.\<close>

partial_function (option) link_objects :: "ulong \<Rightarrow> ulong \<Rightarrow> ulong \<Rightarrow> ulong \<Rightarrow> slub \<Rightarrow> (slub \<times> ulong) option" where
  "link_objects s end p prev \<sigma> =
     (if p < end
      then link_objects s end (p + kc_size (sl_caches \<sigma> s)) p (set_freepointer (setup_object \<sigma> s prev) s prev p)
      else Some (\<sigma>, prev))"

declare link_objects.simps [code]

definition POISON_INUSE :: u32 where "POISON_INUSE = 0x5a"

definition new_slab :: "slub \<Rightarrow> ulong \<Rightarrow> ulong \<Rightarrow> int \<Rightarrow> (slub \<times> nat option) option" where
  "new_slab \<sigma> s flags node =
     do {
       (\<sigma>, page) \<leftarrow> allocate_slab \<sigma> s (flags AND (GFP_RECLAIM_MASK OR GFP_CONSTRAINT_MASK)) node;
       case page of
         None \<Rightarrow> Some (\<sigma>, None)
       | Some p \<Rightarrow>
           do {
             let \<sigma> = set_pg \<sigma> p (\<lambda>q. q\<lparr>pg_private := s, pg_flags := pg_flags q OR push_bit PG_slab 1\<rparr>);
             let start = page_address p;
             let \<sigma> = (if kc_flags (sl_caches \<sigma> s) AND SLAB_POISON \<noteq> 0
                       then \<sigma>\<lparr>sl_mem := memset (sl_mem \<sigma>) start POISON_INUSE
                              (push_bit (unat (compound_order (mm_map (sl_mm \<sigma>)) p)) PAGE_SIZE)\<rparr>
                       else \<sigma>);
             let end = start + objects (pg_mapcount (pg \<sigma> p)) * kc_size (sl_caches \<sigma> s);
             (\<sigma>, prev) \<leftarrow> link_objects s end start start \<sigma>;
             let \<sigma> = set_freepointer (setup_object \<sigma> s prev) s prev 0;
             let \<sigma> = set_pg \<sigma> p (\<lambda>q. q\<lparr>pg_freelist := start,
                       pg_mapcount := set_frozen (set_inuse (pg_mapcount q) 0) True\<rparr>);
             Some (\<sigma>, Some p)
           }
     }"

definition init_kmem_cache_node :: "slub \<Rightarrow> ulong \<Rightarrow> slub" where
  "init_kmem_cache_node \<sigma> n = set_node \<sigma> n (\<lambda>d. d\<lparr>nr_partial := 0, partial := []\<rparr>)"

definition uu_free_slab :: "slub \<Rightarrow> ulong \<Rightarrow> nat \<Rightarrow> slub option" where
  "uu_free_slab \<sigma> s page =
     do {
       let order = unat (compound_order (mm_map (sl_mm \<sigma>)) page);
       let pages = push_bit order 1;
       let \<sigma> = set_pg \<sigma> page (\<lambda>q. reset_page_mapcount (clear_page_flag PG_slab q));
       let \<sigma> = \<sigma>\<lparr>sl_reclaimed := map_option (\<lambda>r. r + pages) (sl_reclaimed \<sigma>)\<rparr>;
       mm' \<leftarrow> uu_free_pages (sl_mm \<sigma>) page order;
       Some (\<sigma>\<lparr>sl_mm := mm'\<rparr>)
     }"

text \<open>The deferred release of caches with \<^verbatim>\<open>SLAB_DESTROY_BY_RCU\<close> is commented out.\<close>

definition free_slab :: "slub \<Rightarrow> ulong \<Rightarrow> nat \<Rightarrow> slub option" where
  "free_slab \<sigma> s page =
     (if kc_flags (sl_caches \<sigma> s) AND SLAB_DESTROY_BY_RCU \<noteq> 0 then Some \<sigma> else uu_free_slab \<sigma> s page)"

definition discard_slab :: "slub \<Rightarrow> ulong \<Rightarrow> nat \<Rightarrow> slub option" where
  "discard_slab \<sigma> s page = free_slab \<sigma> s page"

section \<open>Giving up the slab of the processor\<close>

datatype slab_modes = M_NONE | M_PARTIAL | M_FULL | M_FREE

text \<open>All but the last object of the list of the processor go back to the list of the page. The
  result is the last one, or the null pointer.\<close>

partial_function (option) drain_freelist :: "ulong \<Rightarrow> nat \<Rightarrow> ulong \<Rightarrow> slub \<Rightarrow> (slub \<times> ulong) option" where
  "drain_freelist s page freelist \<sigma> =
     (if freelist \<noteq> 0 \<and> get_freepointer \<sigma> s freelist \<noteq> 0 then
        do {
          let nextfree = get_freepointer \<sigma> s freelist;
          (\<sigma>, _) \<leftarrow> redo (\<lambda>\<sigma>.
            let prior = pg_freelist (pg \<sigma> page);
                counters = pg_mapcount (pg \<sigma> page);
                \<sigma> = set_freepointer \<sigma> s freelist prior
            in case uu_cmpxchg_double_slab \<sigma> s page prior counters freelist (set_inuse counters (inuse counters - 1)) of
                 (\<sigma>, ok) \<Rightarrow> (\<sigma>, if ok then Some () else None)) \<sigma>;
          drain_freelist s page nextfree \<sigma>
        }
      else Some (\<sigma>, freelist))"

declare drain_freelist.simps [code]

text \<open>One round of the second loop, from the label \<^verbatim>\<open>redo\<close> on. The flag \<open>lock\<close> and the
  mode of the round before are kept between the rounds; the result is the mode.\<close>

definition unfreeze_round :: "ulong \<Rightarrow> ulong \<Rightarrow> nat \<Rightarrow> ulong \<Rightarrow> bool \<Rightarrow> slub \<times> bool \<times> slab_modes
    \<Rightarrow> (slub \<times> bool \<times> slab_modes) \<times> slab_modes option" where
  "unfreeze_round s n page freelist tail st =
     (case st of (\<sigma>, lock, l) \<Rightarrow>
       (let old_freelist = pg_freelist (pg \<sigma> page);
            old_counters = pg_mapcount (pg \<sigma> page);
            (\<sigma>, new_counters, new_freelist) =
              (if freelist \<noteq> 0
               then (set_freepointer \<sigma> s freelist old_freelist, set_inuse old_counters (inuse old_counters - 1), freelist)
               else (\<sigma>, old_counters, old_freelist));
            new_counters = set_frozen new_counters False;
            m = (if inuse new_counters = 0 \<and> nr_partial (sl_nodes \<sigma> n) > min_partial (sl_caches \<sigma> s) then M_FREE
                 else if new_freelist \<noteq> 0 then M_PARTIAL else M_FULL);
            \<sigma> = (if m = M_PARTIAL \<and> \<not> lock then spin_lock \<sigma> else \<sigma>);
            lock = (lock \<or> m = M_PARTIAL);
            \<sigma> = (if l \<noteq> m \<and> l = M_PARTIAL then remove_partial \<sigma> n page else \<sigma>);
            \<sigma> = (if l \<noteq> m \<and> m = M_PARTIAL then add_partial \<sigma> n page tail else \<sigma>)
        in case uu_cmpxchg_double_slab \<sigma> s page old_freelist old_counters new_freelist new_counters of
             (\<sigma>, ok) \<Rightarrow> ((\<sigma>, lock, m), if ok then Some m else None)))"

definition deactivate_slab :: "slub \<Rightarrow> ulong \<Rightarrow> slub option" where
  "deactivate_slab \<sigma> s =
     do {
       page \<leftarrow> c_page (cpu_of \<sigma> s);
       let n = get_node \<sigma> s (page_to_nid (pg \<sigma> page));
       let tail = (pg_freelist (pg \<sigma> page) \<noteq> 0);
       let freelist = c_freelist (cpu_of \<sigma> s);
       let \<sigma> = set_cpu \<sigma> s (\<lambda>c. c\<lparr>c_tid := next_tid (c_tid c), c_page := None, c_freelist := 0\<rparr>);
       (\<sigma>, freelist) \<leftarrow> drain_freelist s page freelist \<sigma>;
       ((\<sigma>, lock, _), m) \<leftarrow> redo (unfreeze_round s n page freelist tail) (\<sigma>, False, M_NONE);
       let \<sigma> = (if lock then spin_lock \<sigma> else \<sigma>);
       if m = M_FREE then discard_slab \<sigma> s page else Some \<sigma>
     }"

definition flush_slab :: "slub \<Rightarrow> ulong \<Rightarrow> slub option" where
  "flush_slab \<sigma> s = deactivate_slab \<sigma> s"

section \<open>Allocating an object\<close>

definition node_match :: "kmem_cache_cpu \<Rightarrow> int \<Rightarrow> bool" where "node_match c node = True"

text \<open>From the label \<^verbatim>\<open>load_freelist\<close> on: the rest of the list is the list of the processor.\<close>

definition load_freelist :: "slub \<Rightarrow> ulong \<Rightarrow> ulong \<Rightarrow> bool \<Rightarrow> slub \<times> ulong" where
  "load_freelist \<sigma> s ob flags =
     (let fp = get_freepointer \<sigma> s ob;
          \<sigma> = set_cpu \<sigma> s (\<lambda>c. c\<lparr>c_freelist := fp, c_tid := next_tid (c_tid c)\<rparr>)
      in (local_irq_restore \<sigma> flags, ob))"

text \<open>From the label \<^verbatim>\<open>new_slab\<close> on. \<^verbatim>\<open>printk_ratelimit\<close> is 0, so that no message is printed.\<close>

definition slab_alloc_refill :: "slub \<Rightarrow> ulong \<Rightarrow> ulong \<Rightarrow> int \<Rightarrow> bool \<Rightarrow> (slub \<times> ulong) option" where
  "slab_alloc_refill \<sigma> s gfpflags node flags =
     do {
       (\<sigma>, page) \<leftarrow> get_partial \<sigma> s gfpflags node;
       if page \<noteq> None then Some (load_freelist \<sigma> s (c_freelist (cpu_of \<sigma> s)) flags)
       else do {
         (\<sigma>, page) \<leftarrow> new_slab \<sigma> s gfpflags node;
         case page of
           None \<Rightarrow> Some (local_irq_restore \<sigma> flags, 0)
         | Some p \<Rightarrow>
             do {
               \<sigma> \<leftarrow> (if c_page (cpu_of \<sigma> s) \<noteq> None then flush_slab \<sigma> s else Some \<sigma>);
               let ob = pg_freelist (pg \<sigma> p);
               let \<sigma> = set_pg \<sigma> p (\<lambda>q. q\<lparr>pg_freelist := 0,
                         pg_mapcount := set_inuse (pg_mapcount q) (objects (pg_mapcount q))\<rparr>);
               let \<sigma> = set_cpu \<sigma> s (\<lambda>c. c\<lparr>c_node := int (page_to_nid (pg \<sigma> p)), c_page := Some p\<rparr>);
               Some (load_freelist \<sigma> s ob flags)
             }
       }
     }"

definition uu_slab_alloc :: "slub \<Rightarrow> ulong \<Rightarrow> ulong \<Rightarrow> int \<Rightarrow> (slub \<times> ulong) option" where
  "uu_slab_alloc \<sigma> s gfpflags node =
     do {
       let flags = sl_irqs \<sigma>;
       let \<sigma> = local_irq_disable \<sigma>;
       let gfpflags = gfpflags AND NOT GFP_ZERO;
       case c_page (cpu_of \<sigma> s) of
         None \<Rightarrow> slab_alloc_refill \<sigma> s gfpflags node flags
       | Some page \<Rightarrow>
           if \<not> node_match (cpu_of \<sigma> s) node then
             do { \<sigma> \<leftarrow> deactivate_slab \<sigma> s; slab_alloc_refill \<sigma> s gfpflags node flags }
           else
             do {
               (\<sigma>, ob) \<leftarrow> redo (\<lambda>\<sigma>.
                 let ob = pg_freelist (pg \<sigma> page);
                     counters = pg_mapcount (pg \<sigma> page);
                     new = set_frozen (set_inuse counters (objects counters)) (ob \<noteq> 0)
                 in case uu_cmpxchg_double_slab \<sigma> s page ob counters 0 new of
                      (\<sigma>, ok) \<Rightarrow> (\<sigma>, if ok then Some ob else None)) \<sigma>;
               if ob = 0 then slab_alloc_refill (set_cpu \<sigma> s (\<lambda>c. c\<lparr>c_page := None\<rparr>)) s gfpflags node flags
               else Some (load_freelist \<sigma> s ob flags)
             }
     }"

text \<open>\<^verbatim>\<open>irqsafe_cpu_cmpxchg_double\<close> on the free list and the transaction number of the processor.\<close>

definition irqsafe_cpu_cmpxchg_double :: "slub \<Rightarrow> ulong \<Rightarrow> ulong \<Rightarrow> ulong \<Rightarrow> ulong \<Rightarrow> ulong \<Rightarrow> slub \<times> bool" where
  "irqsafe_cpu_cmpxchg_double \<sigma> s oval1 oval2 nval1 nval2 =
     (let flags = sl_irqs \<sigma>;
          \<sigma> = local_irq_disable \<sigma>
      in if c_freelist (cpu_of \<sigma> s) = oval1 \<and> c_tid (cpu_of \<sigma> s) = oval2
         then (local_irq_restore (set_cpu \<sigma> s (\<lambda>c. c\<lparr>c_freelist := nval1, c_tid := nval2\<rparr>)) flags, True)
         else (local_irq_restore \<sigma> flags, False))"

text \<open>\<^verbatim>\<open>slab_pre_alloc_hook\<close> returns 0.\<close>

partial_function (option) slab_alloc_object :: "ulong \<Rightarrow> ulong \<Rightarrow> int \<Rightarrow> slub \<Rightarrow> (slub \<times> ulong) option" where
  "slab_alloc_object s gfpflags node \<sigma> =
     (let c = cpu_of \<sigma> s;
          ob = c_freelist c
      in if ob = 0 \<or> \<not> node_match c node then uu_slab_alloc \<sigma> s gfpflags node
         else case irqsafe_cpu_cmpxchg_double \<sigma> s ob (c_tid c) (get_freepointer_safe \<sigma> s ob) (next_tid (c_tid c)) of
                (\<sigma>', ok) \<Rightarrow> if ok then Some (\<sigma>', ob) else slab_alloc_object s gfpflags node \<sigma>')"

declare slab_alloc_object.simps [code]

definition slab_alloc :: "slub \<Rightarrow> ulong \<Rightarrow> ulong \<Rightarrow> int \<Rightarrow> (slub \<times> ulong) option" where
  "slab_alloc \<sigma> s gfpflags node =
     do {
       (\<sigma>, ob) \<leftarrow> slab_alloc_object s gfpflags node \<sigma>;
       if gfpflags AND GFP_ZERO \<noteq> 0 \<and> ob \<noteq> 0
       then Some (\<sigma>\<lparr>sl_mem := memset (sl_mem \<sigma>) ob 0 (objsize (sl_caches \<sigma> s))\<rparr>, ob)
       else Some (\<sigma>, ob)
     }"

definition kmem_cache_alloc :: "slub \<Rightarrow> ulong \<Rightarrow> ulong \<Rightarrow> (slub \<times> ulong) option" where
  "kmem_cache_alloc \<sigma> s gfpflags = slab_alloc \<sigma> s gfpflags NUMA_NO_NODE"

definition kmem_cache_alloc_node :: "slub \<Rightarrow> ulong \<Rightarrow> ulong \<Rightarrow> int \<Rightarrow> (slub \<times> ulong) option" where
  "kmem_cache_alloc_node \<sigma> s flags node = kmem_cache_alloc \<sigma> s flags"

definition ZERO_SIZE_PTR :: ulong where "ZERO_SIZE_PTR = 16"
definition ZERO_OR_NULL_PTR :: "ulong \<Rightarrow> bool" where "ZERO_OR_NULL_PTR x \<longleftrightarrow> x \<le> ZERO_SIZE_PTR"

definition get_slab :: "slub \<Rightarrow> ulong \<Rightarrow> ulong \<Rightarrow> ulong" where
  "get_slab \<sigma> sz flags =
     (case get_slab_index sz of
        None \<Rightarrow> ZERO_SIZE_PTR
      | Some index \<Rightarrow> if flags AND SLUB_DMA \<noteq> 0 then kmalloc_dma_caches \<sigma> (nat index) else kmalloc_caches \<sigma> (nat index))"

definition kmalloc_order :: "slub \<Rightarrow> ulong \<Rightarrow> ulong \<Rightarrow> nat \<Rightarrow> (slub \<times> ulong) option" where
  "kmalloc_order \<sigma> sz flags order =
     do { (mm', a) \<leftarrow> uu_get_free_pages (sl_mm \<sigma>) (flags OR GFP_COMP) order; Some (\<sigma>\<lparr>sl_mm := mm'\<rparr>, a) }"

definition kmalloc_large :: "slub \<Rightarrow> ulong \<Rightarrow> ulong \<Rightarrow> (slub \<times> ulong) option" where
  "kmalloc_large \<sigma> sz flags = kmalloc_order \<sigma> sz flags (nat (get_order sz))"

definition uu_kmalloc :: "slub \<Rightarrow> ulong \<Rightarrow> ulong \<Rightarrow> (slub \<times> ulong) option" where
  "uu_kmalloc \<sigma> sz flags =
     (if sz > SLUB_MAX_SIZE then kmalloc_large \<sigma> sz flags
      else (let s = get_slab \<sigma> sz flags
            in if ZERO_OR_NULL_PTR s then Some (\<sigma>, s) else slab_alloc \<sigma> s flags NUMA_NO_NODE))"

text \<open>\<^verbatim>\<open>kmalloc\<close> on a size that is a constant of the program. The index -1 is outside of the array
  of the caches.\<close>

definition kmalloc_const :: "slub \<Rightarrow> ulong \<Rightarrow> ulong \<Rightarrow> (slub \<times> ulong) option" where
  "kmalloc_const \<sigma> sz flags =
     (if sz > SLUB_MAX_SIZE then kmalloc_large \<sigma> sz flags
      else if flags AND SLUB_DMA = 0 then
        (let index = kmalloc_index sz
         in if index < 0 then None
            else (let s = (if index = 0 then 0 else kmalloc_caches \<sigma> (nat index))
                  in if s = 0 then Some (\<sigma>, ZERO_SIZE_PTR) else kmem_cache_alloc \<sigma> s flags))
      else uu_kmalloc \<sigma> sz flags)"

section \<open>Freeing an object\<close>

definition uu_slab_free :: "slub \<Rightarrow> ulong \<Rightarrow> nat \<Rightarrow> ulong \<Rightarrow> slub option" where
  "uu_slab_free \<sigma> s page x =
     do {
       let flags = sl_irqs \<sigma>;
       ((\<sigma>, n), (prior, inuse_new, was_frozen)) \<leftarrow> redo (\<lambda>(\<sigma>, n).
         let prior = pg_freelist (pg \<sigma> page);
             counters = pg_mapcount (pg \<sigma> page);
             \<sigma> = set_freepointer \<sigma> s x prior;
             was_frozen = frozen counters;
             new = set_inuse counters (inuse counters - 1);
             take = ((inuse new = 0 \<or> prior = 0) \<and> \<not> was_frozen \<and> n = 0);
             n = (if take then get_node \<sigma> s (page_to_nid (pg \<sigma> page)) else n);
             \<sigma> = (if take then spin_lock (local_irq_disable \<sigma>) else \<sigma>)
         in case cmpxchg_double_slab \<sigma> s page prior counters x new of
              (\<sigma>, ok) \<Rightarrow> ((\<sigma>, n), if ok then Some (prior, inuse new, was_frozen) else None)) (\<sigma>, 0);
       if n = 0 then Some \<sigma>
       else if \<not> was_frozen \<and> inuse_new = 0 \<and> nr_partial (sl_nodes \<sigma> n) > min_partial (sl_caches \<sigma> s) then
         do {
           let \<sigma> = (if prior \<noteq> 0 then remove_partial \<sigma> n page else \<sigma>);
           let \<sigma> = spin_unlock (local_irq_restore \<sigma> flags);
           discard_slab \<sigma> s page
         }
       else
         (let \<sigma> = (if \<not> was_frozen \<and> prior = 0 then add_partial \<sigma> n page True else \<sigma>)
          in Some (spin_unlock (local_irq_restore \<sigma> flags)))
     }"

partial_function (option) slab_free :: "ulong \<Rightarrow> nat \<Rightarrow> ulong \<Rightarrow> slub \<Rightarrow> slub option" where
  "slab_free s page x \<sigma> =
     (let c = cpu_of \<sigma> s
      in if Some page = c_page c then
           (case irqsafe_cpu_cmpxchg_double (set_freepointer \<sigma> s x (c_freelist c)) s (c_freelist c) (c_tid c) x (next_tid (c_tid c)) of
              (\<sigma>', ok) \<Rightarrow> if ok then Some \<sigma>' else slab_free s page x \<sigma>')
         else uu_slab_free \<sigma> s page x)"

declare slab_free.simps [code]

definition virt_to_head_page :: "slub \<Rightarrow> ulong \<Rightarrow> nat" where
  "virt_to_head_page \<sigma> x = compound_head (mm_map (sl_mm \<sigma>)) (virt_to_page x)"

text \<open>\<^verbatim>\<open>put_page\<close> (\<^verbatim>\<open>mm/swap.c\<close>) has an empty body.\<close>

definition put_page :: "slub \<Rightarrow> nat \<Rightarrow> slub" where "put_page \<sigma> page = \<sigma>"

definition PageSlab :: "page \<Rightarrow> bool" where "PageSlab = test_page_flag PG_slab"

definition kfree :: "slub \<Rightarrow> ulong \<Rightarrow> slub option" where
  "kfree \<sigma> x =
     (if ZERO_OR_NULL_PTR x then Some \<sigma>
      else (let page = virt_to_head_page \<sigma> x
            in if \<not> PageSlab (pg \<sigma> page) then Some (put_page \<sigma> page)
               else slab_free (pg_private (pg \<sigma> page)) page x \<sigma>))"

definition kmem_cache_free :: "slub \<Rightarrow> ulong \<Rightarrow> ulong \<Rightarrow> slub option" where
  "kmem_cache_free \<sigma> s x = slab_free s (virt_to_head_page \<sigma> x) x \<sigma>"

section \<open>Creating caches\<close>

text \<open>Sizes of the structures on i386: the members of \<^verbatim>\<open>struct kmem_cache\<close> before
  \<^verbatim>\<open>node\<close> take 72 bytes, a \<^verbatim>\<open>spinlock_t\<close> takes 16.\<close>

definition offsetof_node :: ulong where "offsetof_node = 72"
definition kmem_size :: ulong where "kmem_size = offsetof_node + sizeof_ptr"
definition sizeof_kmem_cache_cpu :: ulong where "sizeof_kmem_cache_cpu = 16"
definition sizeof_kmem_cache_node :: ulong where "sizeof_kmem_cache_node = 28"
definition nr_node_ids :: ulong where "nr_node_ids = 1"

definition early_kmem_cache_node_alloc :: "slub \<Rightarrow> nat \<Rightarrow> slub option" where
  "early_kmem_cache_node_alloc \<sigma> node =
     do {
       let s = sl_kmem_cache_node \<sigma>;
       (\<sigma>, page) \<leftarrow> new_slab \<sigma> s GFP_NOWAIT (int node);
       p \<leftarrow> page;
       if page_to_nid (pg \<sigma> p) \<noteq> node then None
       else
         (let n = pg_freelist (pg \<sigma> p);
              fp = get_freepointer \<sigma> s n;
              \<sigma> = set_pg \<sigma> p (\<lambda>q. q\<lparr>pg_freelist := fp,
                    pg_mapcount := set_frozen (set_inuse (pg_mapcount q) (inuse (pg_mapcount q) + 1)) False\<rparr>);
              \<sigma> = set_cache \<sigma> s (\<lambda>d. d\<lparr>kc_node := (kc_node d)(node := n)\<rparr>);
              \<sigma> = init_kmem_cache_node \<sigma> n
          in Some (add_partial \<sigma> n p False))
     }"

definition free_kmem_cache_nodes :: "slub \<Rightarrow> ulong \<Rightarrow> slub option" where
  "free_kmem_cache_nodes \<sigma> s =
     do {
       let n = kc_node (sl_caches \<sigma> s) 0;
       \<sigma> \<leftarrow> (if n \<noteq> 0 then kmem_cache_free \<sigma> (sl_kmem_cache_node \<sigma>) n else Some \<sigma>);
       Some (set_cache \<sigma> s (\<lambda>d. d\<lparr>kc_node := (kc_node d)(0 := 0)\<rparr>))
     }"

definition init_kmem_cache_nodes :: "slub \<Rightarrow> ulong \<Rightarrow> (slub \<times> bool) option" where
  "init_kmem_cache_nodes \<sigma> s =
     (if sl_state \<sigma> = DOWN then map_option (\<lambda>\<sigma>. (\<sigma>, True)) (early_kmem_cache_node_alloc \<sigma> 0)
      else do {
        (\<sigma>, n) \<leftarrow> kmem_cache_alloc_node \<sigma> (sl_kmem_cache_node \<sigma>) GFP_KERNEL 0;
        if n = 0 then map_option (\<lambda>\<sigma>. (\<sigma>, False)) (free_kmem_cache_nodes \<sigma> s)
        else Some (init_kmem_cache_node (set_cache \<sigma> s (\<lambda>d. d\<lparr>kc_node := (kc_node d)(0 := n)\<rparr>)) n, True)
      })"

definition init_tid :: "nat \<Rightarrow> ulong" where "init_tid cpu = word_of_nat cpu"

text \<open>\<^verbatim>\<open>init_kmem_cache_cpus\<close> ignores its argument and sets the number of \<^verbatim>\<open>kmem_cache_node\<close>.\<close>

definition init_kmem_cache_cpus :: "slub \<Rightarrow> ulong \<Rightarrow> slub" where
  "init_kmem_cache_cpus \<sigma> s = set_cpu \<sigma> (sl_kmem_cache_node \<sigma>) (\<lambda>c. c\<lparr>c_tid := init_tid 0\<rparr>)"

definition cpu_slab_offset :: ulong where
  "cpu_slab_offset = ALIGN (offsetof_node + nr_node_ids * sizeof_ptr) (2 * sizeof_ptr)"

definition alloc_kmem_cache_cpus :: "slub \<Rightarrow> ulong \<Rightarrow> slub \<times> bool" where
  "alloc_kmem_cache_cpus \<sigma> s =
     (let \<sigma> = set_cache \<sigma> s (\<lambda>d. d\<lparr>cpu_slab := s + cpu_slab_offset\<rparr>)
      in if cpu_slab (sl_caches \<sigma> s) = 0 then (\<sigma>, False) else (init_kmem_cache_cpus \<sigma> s, True))"

text \<open>\<^verbatim>\<open>need_reserve_slab_rcu\<close> and \<^verbatim>\<open>disable_higher_order_debug\<close> are 0, and
  \<^verbatim>\<open>system_has_cmpxchg_double()\<close> is 1.\<close>

definition kmem_cache_open :: "slub \<Rightarrow> ulong \<Rightarrow> string option \<Rightarrow> ulong \<Rightarrow> ulong \<Rightarrow> ulong
    \<Rightarrow> (ulong \<Rightarrow> memory \<Rightarrow> memory) option \<Rightarrow> (slub \<times> bool) option" where
  "kmem_cache_open \<sigma> s name sz align flags cfun =
     do {
       let failed = (\<lambda>\<sigma>. if flags AND SLAB_PANIC \<noteq> 0 then None else Some (\<sigma>, False));
       let \<sigma> = set_cache \<sigma> s (\<lambda>_. zero_cache\<lparr>kc_name := name, ctor := cfun, objsize := sz, kc_align := align,
                  kc_flags := kmem_cache_flags sz flags, reserved := 0\<rparr>);
       (d, ok) \<leftarrow> calculate_sizes (sl_caches \<sigma> s) (- 1);
       let \<sigma> = set_cache \<sigma> s (\<lambda>_. d);
       if \<not> ok then failed \<sigma>
       else do {
         let \<sigma> = set_cache \<sigma> s (\<lambda>d. if kc_flags d AND SLAB_DEBUG_FLAGS = 0
                   then d\<lparr>kc_flags := kc_flags d OR CMPXCHG_DOUBLE\<rparr> else d);
         let \<sigma> = set_cache \<sigma> s (\<lambda>d. (set_min_partial d (word_of_int (uu_ilog2_u32 (kc_size d))))\<lparr>refcount := 1\<rparr>);
         (\<sigma>, ok) \<leftarrow> init_kmem_cache_nodes \<sigma> s;
         if \<not> ok then failed \<sigma>
         else (case alloc_kmem_cache_cpus \<sigma> s of
                 (\<sigma>, True) \<Rightarrow> Some (\<sigma>, True)
               | (\<sigma>, False) \<Rightarrow> do { \<sigma> \<leftarrow> free_kmem_cache_nodes \<sigma> s; failed \<sigma> })
       }
     }"

definition kmem_cache_bootstrap_fixup :: "slub \<Rightarrow> ulong \<Rightarrow> slub" where
  "kmem_cache_bootstrap_fixup \<sigma> s =
     (let \<sigma> = \<sigma>\<lparr>slab_caches := s # slab_caches \<sigma>\<rparr>;
          \<sigma> = set_cache \<sigma> s (\<lambda>d. d\<lparr>refcount := - 1\<rparr>);
          n = get_node \<sigma> s 0
      in if n = 0 then \<sigma>
         else fold (\<lambda>p \<sigma>. set_pg \<sigma> p (\<lambda>q. q\<lparr>pg_private := s\<rparr>)) (partial (sl_nodes \<sigma> n)) \<sigma>)"

definition create_kmalloc_cache :: "slub \<Rightarrow> string \<Rightarrow> ulong \<Rightarrow> ulong \<Rightarrow> (slub \<times> ulong) option" where
  "create_kmalloc_cache \<sigma> name sz flags =
     do {
       (\<sigma>, s) \<leftarrow> kmem_cache_alloc \<sigma> (sl_kmem_cache \<sigma>) GFP_NOWAIT;
       if s = 0 then None
       else do {
         (\<sigma>, ok) \<leftarrow> kmem_cache_open \<sigma> s (Some name) sz ARCH_KMALLOC_MINALIGN flags None;
         if ok then Some (\<sigma>\<lparr>slab_caches := s # slab_caches \<sigma>\<rparr>, s) else None
       }
     }"

text \<open>Copying a descriptor with the structure of the processor behind it.\<close>

definition copy_cache :: "slub \<Rightarrow> ulong \<Rightarrow> ulong \<Rightarrow> slub" where
  "copy_cache \<sigma> dest src =
     \<sigma>\<lparr>sl_caches := (sl_caches \<sigma>)(dest := sl_caches \<sigma> src),
       sl_cpus := (sl_cpus \<sigma>)(dest + cpu_slab_offset := sl_cpus \<sigma> (src + cpu_slab_offset))\<rparr>"

fun create_kmalloc_caches :: "(nat \<times> string \<times> ulong) list \<Rightarrow> slub \<Rightarrow> slub option" where
  "create_kmalloc_caches [] \<sigma> = Some \<sigma>"
| "create_kmalloc_caches ((i, name, sz) # xs) \<sigma> =
     do {
       (\<sigma>, s) \<leftarrow> create_kmalloc_cache \<sigma> name sz 0;
       create_kmalloc_caches xs (\<sigma>\<lparr>kmalloc_caches := (kmalloc_caches \<sigma>)(i := s)\<rparr>)
     }"

text \<open>With \<^verbatim>\<open>KMALLOC_MIN_SIZE\<close> 8 the loops that change \<^verbatim>\<open>size_index\<close> do nothing.\<close>

definition kmalloc_plan :: "(nat \<times> string \<times> ulong) list" where
  "kmalloc_plan = (1, ''kmalloc-96'', 96) # (2, ''kmalloc-192'', 192)
     # map (\<lambda>i. (i, ''kmalloc'', push_bit i 1)) [KMALLOC_SHIFT_LOW..<SLUB_PAGE_SHIFT]"

definition kmem_cache_init :: "slub \<Rightarrow> slub option" where
  "kmem_cache_init \<sigma> =
     do {
       let kmalloc_size = ALIGN (cpu_slab_offset + ucast nr_cpu_ids * sizeof_kmem_cache_cpu) cache_line_size;
       let order = nat (get_order (2 * kmalloc_size));
       (mm', a) \<leftarrow> uu_get_free_pages (sl_mm \<sigma>) GFP_NOWAIT order;
       if a = 0 then None
       else do {
         let \<sigma> = \<sigma>\<lparr>sl_mm := mm', sl_kmem_cache := a, sl_kmem_cache_node := a + kmalloc_size\<rparr>;
         (\<sigma>, _) \<leftarrow> kmem_cache_open \<sigma> (sl_kmem_cache_node \<sigma>) (Some ''kmem_cache_node'') sizeof_kmem_cache_node 0
                     (SLAB_HWCACHE_ALIGN OR SLAB_PANIC) None;
         let \<sigma> = \<sigma>\<lparr>sl_state := PARTIAL\<rparr>;
         let temp_kmem_cache = sl_kmem_cache \<sigma>;
         (\<sigma>, _) \<leftarrow> kmem_cache_open \<sigma> (sl_kmem_cache \<sigma>) (Some ''kmem_cache'') kmalloc_size 0
                     (SLAB_HWCACHE_ALIGN OR SLAB_PANIC) None;
         (\<sigma>, k) \<leftarrow> kmem_cache_alloc \<sigma> (sl_kmem_cache \<sigma>) GFP_NOWAIT;
         if k = 0 then None
         else do {
           let \<sigma> = copy_cache (\<sigma>\<lparr>sl_kmem_cache := k\<rparr>) k temp_kmem_cache;
           let \<sigma> = set_cache \<sigma> k (\<lambda>d. d\<lparr>cpu_slab := k + ALIGN kmem_size (2 * sizeof_ptr)\<rparr>);
           let temp_kmem_cache_node = sl_kmem_cache_node \<sigma>;
           (\<sigma>, kn) \<leftarrow> kmem_cache_alloc \<sigma> k GFP_NOWAIT;
           if kn = 0 then None
           else do {
             let \<sigma> = copy_cache (\<sigma>\<lparr>sl_kmem_cache_node := kn\<rparr>) kn temp_kmem_cache_node;
             let \<sigma> = set_cache \<sigma> kn (\<lambda>d. d\<lparr>cpu_slab := kn + ALIGN kmem_size (2 * sizeof_ptr)\<rparr>);
             let \<sigma> = kmem_cache_bootstrap_fixup \<sigma> kn;
             let \<sigma> = kmem_cache_bootstrap_fixup \<sigma> k;
             mm' \<leftarrow> free_pages_addr (sl_mm \<sigma>) temp_kmem_cache order;
             \<sigma> \<leftarrow> create_kmalloc_caches kmalloc_plan (\<sigma>\<lparr>sl_mm := mm'\<rparr>);
             let \<sigma> = \<sigma>\<lparr>sl_state := UP\<rparr>;
             Some (set_cache (set_cache \<sigma> (kmalloc_caches \<sigma> 1) (\<lambda>d. d\<lparr>kc_name := None\<rparr>))
                     (kmalloc_caches \<sigma> 2) (\<lambda>d. d\<lparr>kc_name := None\<rparr>))
           }
         }
       }
     }"

end
