(* ===== verification/Slub_Inv.thy ===== *)
theory Slub_Inv
  imports Slub Page_Source
begin

text \<open>
  The invariant of the slab allocator of mm/slub.c and its preservation.  The slabs of the
  allocator are described by a map from head frames to their cache, order, number of objects,
  free objects and the flag that says the slab belongs to a CPU; the invariant ties this ghost
  view to the page structures, the free lists written into the free objects, the per-CPU
  structures, the partial lists of the nodes and the page allocator underneath.
\<close>

unbundle bit_operations_syntax

section \<open>Counters\<close>

lemma bit_set_inuse: "bit (set_inuse c v) n = (if n < 16 then bit v n else bit c n)"
  by (auto simp: set_inuse_def bit_or_iff bit_and_iff bit_not_iff bit_mask_iff bit_take_bit_iff dest: bit_imp_le_length)

lemma bit_set_objects: "bit (set_objects c v) n = (if 16 \<le> n \<and> n < 31 then bit v (n - 16) else bit c n)"
  by (auto simp: set_objects_def bit_or_iff bit_and_iff bit_not_iff bit_mask_iff bit_take_bit_iff bit_push_bit_iff
      dest: bit_imp_le_length)

lemma bit_set_frozen: "bit (set_frozen c b) n = (if n = 31 then b else bit c n)"
  by (auto simp: set_frozen_def bit_set_bit_iff bit_unset_bit_iff)

lemma counters_set [simp]:
  "inuse (set_inuse c v) = take_bit 16 v" "objects (set_inuse c v) = objects c" "frozen (set_inuse c v) = frozen c"
  "inuse (set_frozen c b) = inuse c" "objects (set_frozen c b) = objects c" "frozen (set_frozen c b) = b"
  "inuse (set_objects c v) = inuse c" "objects (set_objects c v) = take_bit 15 v" "frozen (set_objects c v) = frozen c"
  by (auto intro!: bit_word_eqI simp: inuse_def objects_def frozen_def bit_take_bit_iff bit_drop_bit_eq bit_set_inuse
      bit_set_frozen bit_set_objects)

text \<open>The counters of a slab never look like the mark of a free block of the page allocator, since a
  slab holds less than \<open>0x7FFF\<close> objects.\<close>

lemma counters_not_buddy: "unat (objects (pg_mapcount q)) < 0x7FFF \<Longrightarrow> \<not> PageBuddy q"
proof
  assume o: "unat (objects (pg_mapcount q)) < 0x7FFF" and "PageBuddy q"
  then have "objects (pg_mapcount q) = objects (- 128)" by (simp add: PageBuddy_def PAGE_BUDDY_MAPCOUNT_VALUE_def)
  also have "\<dots> = 0x7FFF" by (simp add: objects_def)
  finally show False using o by simp
qed

section \<open>Addresses of objects\<close>

definition low_frame :: "nat \<Rightarrow> nat \<Rightarrow> bool" where "low_frame p k \<longleftrightarrow> p + 2 ^ k < 2 ^ 18"

lemma unat_page_address: "p < 2 ^ 18 \<Longrightarrow> unat (page_address p) = 0xC0000000 + 4096 * p"
proof -
  assume p: "p < 2 ^ 18"
  have u: "unat (ucast (word_of_nat p :: ulong) :: phys_addr_t) = p"
    using p by (simp add: unsigned_ucast_eq unat_of_nat take_bit_nat_eq_self)
  have "unat (PFN_PHYS (word_of_nat p :: ulong)) = p * 4096"
    unfolding PFN_PHYS_def using unat_push [of "ucast (word_of_nat p :: ulong) :: phys_addr_t" PAGE_SHIFT] p by (simp add: u PAGE_SHIFT_def)
  then have "unat (ucast (PFN_PHYS (word_of_nat p :: ulong)) :: ulong) = p * 4096"
    using p by (simp add: unsigned_ucast_eq take_bit_nat_eq_self)
  then show ?thesis
    using p unat_add_no_wrap [of "ucast (PFN_PHYS (word_of_nat p :: ulong)) :: ulong" PAGE_OFFSET_VA]
    by (simp add: page_address_def PAGE_OFFSET_VA_def)
qed

text \<open>The \<open>i\<close>-th object of the slab at a page.\<close>

definition obj :: "ulong \<Rightarrow> nat \<Rightarrow> nat \<Rightarrow> ulong" where
  "obj sz p i = page_address p + word_of_nat i * sz"

definition objs :: "ulong \<Rightarrow> nat \<Rightarrow> nat \<Rightarrow> ulong set" where
  "objs sz p n = obj sz p ` {..<n}"

lemma unat_obj:
  assumes "i < n" "n * unat sz \<le> 4096 * 2 ^ k" "low_frame p k"
  shows "unat (obj sz p i) = 0xC0000000 + 4096 * p + i * unat sz" "i * unat sz + unat sz \<le> 4096 * 2 ^ k"
    "0xC0000000 + 4096 * p + i * unat sz + unat sz < 2 ^ 32"
proof -
  have p: "p < 2 ^ 18" using assms(3) by (simp add: low_frame_def)
  have "Suc i * unat sz \<le> n * unat sz" using assms(1) by (intro mult_right_mono) auto
  then show le: "i * unat sz + unat sz \<le> 4096 * 2 ^ k" using assms(2) by simp
  then show b: "0xC0000000 + 4096 * p + i * unat sz + unat sz < 2 ^ 32" using assms(3) by (simp add: low_frame_def)
  show "unat (obj sz p i) = 0xC0000000 + 4096 * p + i * unat sz"
  proof (cases "unat sz = 0")
    case True
    then have "sz = 0" by (simp add: unat_eq_0)
    then show ?thesis using unat_page_address [OF p] True by (simp add: obj_def)
  next
    case False
    then have "i \<le> i * unat sz" by simp
    then have "i < 2 ^ 32" using b by linarith
    then have "unat (word_of_nat i :: ulong) = i" by (simp add: unat_of_nat)
    then have "unat (word_of_nat i * sz) = i * unat sz" using b unat_times [of "word_of_nat i" sz] by simp
    then show ?thesis using unat_add_no_wrap [of "page_address p" "word_of_nat i * sz"] unat_page_address [OF p] b by (simp add: obj_def)
  qed
qed

text \<open>A word inside of an object. The words of two objects do not overlap.\<close>

lemma word_in_object:
  assumes "i < n" "n * unat sz \<le> 4096 * 2 ^ k" "low_frame p k" "unat off + 4 \<le> unat sz"
  shows "unat (obj sz p i + off) = unat (obj sz p i) + unat off"
  using unat_obj [OF assms(1-3)] assms(4) by (intro unat_add_no_wrap) simp

lemma apartI:
  assumes "unat a + 4 \<le> unat b \<or> unat b + 4 \<le> unat a" "0xC0000000 \<le> unat a" "0xC0000000 \<le> unat b"
  shows "apart a b"
proof -
  have *: "4 \<le> unat (y - x) \<and> 4 \<le> unat (x - y)" if "unat x + 4 \<le> unat y" "0xC0000000 \<le> unat x" for x y :: ulong
  proof -
    have le: "x \<le> y" "y - x \<noteq> 0" using that by (auto simp: word_le_nat_alt)
    have "unat (y - x) = unat y - unat x" using le by (simp add: unat_sub_le)
    moreover have "unat (- (y - x)) = 2 ^ 32 - unat (y - x)" using unat_neg [OF le(2)] by simp
    ultimately show ?thesis using that unat_bound [of y] by simp linarith
  qed
  show ?thesis using assms * [of a b] * [of b a] by (auto simp: apart_def)
qed

text \<open>Two objects of slabs that do not overlap are the same or lie apart.\<close>

lemma objects_apart:
  assumes "i < n" "n * unat sz \<le> 4096 * 2 ^ k" "low_frame p k" "unat off + 4 \<le> unat sz"
    and "j < m" "m * unat tz \<le> 4096 * 2 ^ l" "low_frame q l" "unat off' + 4 \<le> unat tz"
    and ne: "blk p k \<inter> blk q l = {} \<or> p = q \<and> sz = tz \<and> i \<noteq> j"
  shows "apart (obj sz p i + off) (obj tz q j + off')" "unat (obj sz p i) + unat sz \<le> unat (obj tz q j) \<or> unat (obj tz q j) + unat tz \<le> unat (obj sz p i)"
proof -
  note a = unat_obj [OF assms(1-3)] word_in_object [OF assms(1-4)]
  note b = unat_obj [OF assms(5-7)] word_in_object [OF assms(5-8)]
  show d: "unat (obj sz p i) + unat sz \<le> unat (obj tz q j) \<or> unat (obj tz q j) + unat tz \<le> unat (obj sz p i)"
  proof (cases "blk p k \<inter> blk q l = {}")
    case True
    have "p + 2 ^ k \<le> q \<or> q + 2 ^ l \<le> p"
    proof (rule ccontr)
      assume "\<not> ?thesis"
      then have "max p q \<in> blk p k \<inter> blk q l" by (auto simp: blk_def)
      then show False using True by blast
    qed
    then show ?thesis
    proof
      assume "p + 2 ^ k \<le> q"
      then have "4096 * p + 4096 * 2 ^ k \<le> 4096 * q" by linarith
      then show ?thesis using a b by linarith
    next
      assume "q + 2 ^ l \<le> p"
      then have "4096 * q + 4096 * 2 ^ l \<le> 4096 * p" by linarith
      then show ?thesis using a b by linarith
    qed
  next
    case False
    then have e: "p = q" "sz = tz" "i \<noteq> j" using ne by auto
    have "Suc i * unat sz \<le> j * unat sz \<or> Suc j * unat sz \<le> i * unat sz"
      using e(3) by (metis Suc_leI linorder_neqE_nat mult_le_mono1)
    then show ?thesis using a b e by auto
  qed
  show "apart (obj sz p i + off) (obj tz q j + off')"
    by (rule apartI) (use a b d assms(4,8) in linarith)+
qed

section \<open>Lists of free objects\<close>

primrec fchain :: "memory \<Rightarrow> ulong \<Rightarrow> ulong \<Rightarrow> ulong list \<Rightarrow> bool" where
  "fchain m off a [] \<longleftrightarrow> a = 0"
| "fchain m off a (x # xs) \<longleftrightarrow> a = x \<and> x \<noteq> 0 \<and> fchain m off (read_word m (x + off)) xs"

lemma fchain_cong:
  "(\<And>x. x \<in> set xs \<Longrightarrow> read_word m' (x + off) = read_word m (x + off)) \<Longrightarrow> fchain m' off a xs = fchain m off a xs"
  by (induction xs arbitrary: a) auto

lemma fchain_write:
  "(\<And>x. x \<in> set xs \<Longrightarrow> apart w (x + off)) \<Longrightarrow> fchain (write_word m w v) off a xs = fchain m off a xs"
  by (rule fchain_cong) (simp add: read_write_apart)

lemma fchain_null [simp]: "fchain m off 0 xs \<longleftrightarrow> xs = []"
  by (cases xs) auto

lemma fchain_nonnull: "fchain m off a xs \<Longrightarrow> a \<noteq> 0 \<longleftrightarrow> xs \<noteq> []"
  by (cases xs) auto

lemma fchain_hd: "fchain m off a xs \<Longrightarrow> a \<noteq> 0 \<Longrightarrow> xs = a # tl xs \<and> fchain m off (read_word m (a + off)) (tl xs)"
  by (cases xs) auto

section \<open>The invariant\<close>

text \<open>What is known of a slab: its cache, its order, the number of its objects, and its free objects
  in the list of the page and in the list of the processor.\<close>

record slab =
  sb_cache :: ulong
  sb_order :: nat
  sb_objects :: nat
  sb_free :: "ulong list"
  sb_cpu :: "ulong list"

text \<open>The frames of a slab. Without its counters and the flag \<^verbatim>\<open>PG_slab\<close> it can be returned to the
  page allocator.\<close>

definition unslab :: "mm \<Rightarrow> nat \<Rightarrow> mm" where
  "unslab m p = upd_page m p (\<lambda>q. reset_page_mapcount (clear_page_flag PG_slab q))"

definition frames_ok :: "mm \<Rightarrow> nat \<Rightarrow> slab \<Rightarrow> bool" where
  "frames_ok m p g \<longleftrightarrow> owned_block m p (sb_order g) \<and> clean_block (unslab m p) p (sb_order g)
     \<and> compound_block (mm_map m) p (sb_order g) \<and> PageSlab (mm_map m p) \<and> pg_private (mm_map m p) = sb_cache g"

definition counts_ok :: "page \<Rightarrow> bool \<Rightarrow> slab \<Rightarrow> bool" where
  "counts_ok q fz g \<longleftrightarrow> unat (objects (pg_mapcount q)) = sb_objects g \<and> frozen (pg_mapcount q) = fz
     \<and> unat (inuse (pg_mapcount q)) + length (sb_free g) = sb_objects g"

definition room_ok :: "kmem_cache \<Rightarrow> nat \<Rightarrow> slab \<Rightarrow> bool" where
  "room_ok d p g \<longleftrightarrow> 0 < sb_objects g \<and> sb_objects g < 0x7FFF \<and> sb_objects g * unat (kc_size d) \<le> 4096 * 2 ^ sb_order g
     \<and> low_frame p (sb_order g)"

definition lists_ok :: "kmem_cache \<Rightarrow> nat \<Rightarrow> slab \<Rightarrow> bool" where
  "lists_ok d p g \<longleftrightarrow> distinct (sb_free g @ sb_cpu g) \<and> set (sb_free g @ sb_cpu g) \<subseteq> objs (kc_size d) p (sb_objects g)"

text \<open>\<open>cv\<close> is the list of the processor if the slab is the one of the processor, and \<open>ip\<close>
  says whether the slab is in the list of partial slabs.\<close>

definition slab_view :: "kmem_cache \<Rightarrow> mm \<Rightarrow> memory \<Rightarrow> ulong option \<Rightarrow> bool \<Rightarrow> nat \<Rightarrow> slab \<Rightarrow> bool" where
  "slab_view d m mem cv ip p g \<longleftrightarrow> room_ok d p g \<and> frames_ok m p g \<and> lists_ok d p g \<and> counts_ok (mm_map m p) (cv \<noteq> None) g
     \<and> fchain mem (offset d) (pg_freelist (mm_map m p)) (sb_free g)
     \<and> (case cv of None \<Rightarrow> sb_cpu g = [] | Some a \<Rightarrow> sb_free g = [] \<and> fchain mem (offset d) a (sb_cpu g))
     \<and> ip = (cv = None \<and> sb_free g \<noteq> [])"

definition cpu_view :: "slub \<Rightarrow> ulong \<Rightarrow> nat \<Rightarrow> ulong option" where
  "cpu_view \<sigma> s p = (if c_page (cpu_of \<sigma> s) = Some p then Some (c_freelist (cpu_of \<sigma> s)) else None)"

definition node_of :: "slub \<Rightarrow> ulong \<Rightarrow> kmem_cache_node" where
  "node_of \<sigma> s = sl_nodes \<sigma> (kc_node (sl_caches \<sigma> s) 0)"

definition slab_ok :: "slub \<Rightarrow> nat \<Rightarrow> slab \<Rightarrow> bool" where
  "slab_ok \<sigma> p g \<longleftrightarrow> slab_view (sl_caches \<sigma> (sb_cache g)) (sl_mm \<sigma>) (sl_mem \<sigma>) (cpu_view \<sigma> (sb_cache g) p)
     (p \<in> set (partial (node_of \<sigma> (sb_cache g)))) p g"

definition cache_inv :: "slub \<Rightarrow> (nat \<rightharpoonup> slab) \<Rightarrow> ulong \<Rightarrow> bool" where
  "cache_inv \<sigma> G s \<longleftrightarrow> distinct (partial (node_of \<sigma> s)) \<and> nr_partial (node_of \<sigma> s) = word_of_nat (length (partial (node_of \<sigma> s)))
     \<and> (\<forall>p\<in>set (partial (node_of \<sigma> s)). \<exists>g. G p = Some g \<and> sb_cache g = s)
     \<and> (case c_page (cpu_of \<sigma> s) of None \<Rightarrow> c_freelist (cpu_of \<sigma> s) = 0 | Some p \<Rightarrow> \<exists>g. G p = Some g \<and> sb_cache g = s)"

text \<open>The descriptors. The slab allocator is never asked for poisoned objects, for objects with a
  constructor or for deferred release.\<close>

definition descr_ok :: "kmem_cache \<Rightarrow> bool" where
  "descr_ok d \<longleftrightarrow> cache_ok d \<and> ctor d = None \<and> kc_flags d AND SLAB_POISON = 0 \<and> kc_flags d AND SLAB_DESTROY_BY_RCU = 0
     \<and> kc_node d 0 \<noteq> 0"

definition caches_ok :: "ulong set \<Rightarrow> slub \<Rightarrow> bool" where
  "caches_ok K \<sigma> \<longleftrightarrow> (\<forall>s\<in>K. descr_ok (sl_caches \<sigma> s)) \<and> inj_on (\<lambda>s. cpu_slab (sl_caches \<sigma> s)) K
     \<and> inj_on (\<lambda>s. kc_node (sl_caches \<sigma> s) 0) K"

definition slub_inv :: "ulong set \<Rightarrow> slub \<Rightarrow> (nat \<rightharpoonup> slab) \<Rightarrow> bool" where
  "slub_inv K \<sigma> G \<longleftrightarrow> source_inv (sl_mm \<sigma>) \<and> caches_ok K \<sigma> \<and> (\<forall>s\<in>K. cache_inv \<sigma> G s)
     \<and> (\<forall>p g. G p = Some g \<longrightarrow> sb_cache g \<in> K \<and> slab_ok \<sigma> p g)
     \<and> (\<forall>p g q h. G p = Some g \<and> G q = Some h \<and> p \<noteq> q \<longrightarrow> blk p (sb_order g) \<inter> blk q (sb_order h) = {})"

lemma slub_invD:
  assumes "slub_inv K \<sigma> G"
  shows "source_inv (sl_mm \<sigma>)" "caches_ok K \<sigma>" "s \<in> K \<Longrightarrow> cache_inv \<sigma> G s" "G p = Some g \<Longrightarrow> sb_cache g \<in> K"
    "G p = Some g \<Longrightarrow> slab_ok \<sigma> p g" "G p = Some g \<Longrightarrow> G q = Some h \<Longrightarrow> p \<noteq> q \<Longrightarrow> blk p (sb_order g) \<inter> blk q (sb_order h) = {}"
  using assms unfolding slub_inv_def by blast+

lemma slab_okD:
  assumes "slab_ok \<sigma> p g"
  shows "room_ok (sl_caches \<sigma> (sb_cache g)) p g" "frames_ok (sl_mm \<sigma>) p g" "lists_ok (sl_caches \<sigma> (sb_cache g)) p g"
    "counts_ok (pg \<sigma> p) (cpu_view \<sigma> (sb_cache g) p \<noteq> None) g"
    "fchain (sl_mem \<sigma>) (offset (sl_caches \<sigma> (sb_cache g))) (pg_freelist (pg \<sigma> p)) (sb_free g)"
    "cpu_view \<sigma> (sb_cache g) p = None \<Longrightarrow> sb_cpu g = []"
    "cpu_view \<sigma> (sb_cache g) p = Some a \<Longrightarrow> sb_free g = [] \<and> fchain (sl_mem \<sigma>) (offset (sl_caches \<sigma> (sb_cache g))) a (sb_cpu g)"
    "p \<in> set (partial (node_of \<sigma> (sb_cache g))) \<longleftrightarrow> cpu_view \<sigma> (sb_cache g) p = None \<and> sb_free g \<noteq> []"
  using assms unfolding slab_ok_def slab_view_def pg_def by (auto split: option.splits)

section \<open>What a change leaves alone\<close>

text \<open>The bytes of a block.\<close>

definition bytes_of :: "nat \<Rightarrow> nat \<Rightarrow> ulong set" where
  "bytes_of p k = {a. 0xC0000000 + 4096 * p \<le> unat a \<and> unat a < 0xC0000000 + 4096 * (p + 2 ^ k)}"

lemma bytes_disjoint: "blk p k \<inter> blk q l = {} \<Longrightarrow> bytes_of p k \<inter> bytes_of q l = {}"
proof -
  assume d: "blk p k \<inter> blk q l = {}"
  have "p + 2 ^ k \<le> q \<or> q + 2 ^ l \<le> p"
  proof (rule ccontr)
    assume "\<not> ?thesis"
    then have "max p q \<in> blk p k \<inter> blk q l" by (auto simp: blk_def)
    then show False using d by blast
  qed
  then show ?thesis by (auto simp: bytes_of_def)
qed

lemma word_bytes:
  assumes r: "room_ok d p g" and x: "x \<in> objs (kc_size d) p (sb_objects g)" and off: "unat (offset d) + 4 \<le> unat (kc_size d)"
    and j: "j \<in> {0, 1, 2, 3}"
  shows "x + offset d + j \<in> bytes_of p (sb_order g)"
proof -
  obtain i where i: "i < sb_objects g" "x = obj (kc_size d) p i" using x by (auto simp: objs_def)
  have g: "sb_objects g * unat (kc_size d) \<le> 4096 * 2 ^ sb_order g" "low_frame p (sb_order g)" using r by (simp_all add: room_ok_def)
  note u = unat_obj [OF i(1) g] word_in_object [OF i(1) g off]
  have "unat j \<le> 3" using j by auto
  then have "unat (x + offset d + j) = unat x + unat (offset d) + unat j"
    using unat_add_no_wrap [of "x + offset d" j] u off i(2) by simp
  then show ?thesis using u i(2) off \<open>unat j \<le> 3\<close> by (simp add: bytes_of_def)
qed

lemma fchain_outside:
  assumes "room_ok d p g" "set xs \<subseteq> objs (kc_size d) p (sb_objects g)" "unat (offset d) + 4 \<le> unat (kc_size d)"
    and "\<And>a. a \<in> bytes_of p (sb_order g) \<Longrightarrow> mem' a = mem a"
  shows "fchain mem' (offset d) a xs = fchain mem (offset d) a xs"
proof (rule fchain_cong, rule read_word_cong)
  fix x j assume "x \<in> set xs" "j \<in> {0, 1, 2, 3 :: ulong}"
  then show "mem' (x + offset d + j) = mem (x + offset d + j)" using word_bytes [OF assms(1) _ assms(3)] assms(2,4) by blast
qed

lemma frames_ok_cong:
  assumes f: "frames_ok m p g" and o: "owned_block m' p (sb_order g)" and same: "\<And>x. x \<in> blk p (sb_order g) \<Longrightarrow> mm_map m' x = mm_map m x"
  shows "frames_ok m' p g"
proof -
  let ?k = "sb_order g"
  have p: "p \<in> blk p ?k" by (rule blk_nonempty)
  obtain i where i: "in_use_block (unslab m p) i p ?k" using f by (auto simp: frames_ok_def clean_block_def)
  obtain j where j: "j < MAX_NR_ZONES" "held (mm_zones m' j) p ?k" using o by (auto simp: owned_block_def)
  have e: "mm_map (unslab m' p) x = mm_map (unslab m p) x" if "x \<in> blk p ?k" for x
    using same [OF that] by (auto simp: unslab_def upd_page_def)
  have "mm_zones (unslab m' p) = mm_zones m'" by (simp add: unslab_def upd_page_def)
  then have "in_use_block (unslab m' p) j p ?k" using i j e by (simp add: in_use_block_def)
  then have "clean_block (unslab m' p) p ?k" by (auto simp: clean_block_def)
  moreover have "compound_head (mm_map m') q = compound_head (mm_map m) q" if "q \<in> blk p ?k" for q
    using same [OF that] by (simp add: compound_head_def)
  moreover have "compound_order (mm_map m') p = compound_order (mm_map m) p"
  proof (cases "?k = 0")
    case True
    then show ?thesis using f same [OF p] by (simp add: frames_ok_def compound_block_def compound_order_def)
  next
    case False
    then have "(2 :: nat) \<le> 2 ^ ?k" by (cases ?k) auto
    then have "p + 1 \<in> blk p ?k" by (simp add: blk_def)
    then show ?thesis using same [of "p + 1"] same [OF p] by (simp add: compound_order_def)
  qed
  ultimately have "compound_block (mm_map m') p ?k" "clean_block (unslab m' p) p ?k"
    using f same [OF p] by (simp_all add: frames_ok_def compound_block_def)
  then show ?thesis using f o same [OF p] by (simp add: frames_ok_def)
qed

lemma slab_view_cong:
  assumes v: "slab_view d m mem cv ip p g" and off: "unat (offset d) + 4 \<le> unat (kc_size d)"
    and o: "owned_block m' p (sb_order g)" and same: "\<And>x. x \<in> blk p (sb_order g) \<Longrightarrow> mm_map m' x = mm_map m x"
    and mem: "\<And>a. a \<in> bytes_of p (sb_order g) \<Longrightarrow> mem' a = mem a"
  shows "slab_view d m' mem' cv ip p g"
proof -
  have r: "room_ok d p g" and l: "set (sb_free g) \<subseteq> objs (kc_size d) p (sb_objects g)" "set (sb_cpu g) \<subseteq> objs (kc_size d) p (sb_objects g)"
    using v by (simp_all add: slab_view_def lists_ok_def)
  have "frames_ok m' p g" using v frames_ok_cong [OF _ o same] by (simp add: slab_view_def)
  moreover have "mm_map m' p = mm_map m p" by (rule same) (rule blk_nonempty)
  ultimately show ?thesis
    using v fchain_outside [OF r l(1) off mem] fchain_outside [OF r l(2) off mem] by (simp add: slab_view_def split: option.splits)
qed

lemma descr_off: "descr_ok d \<Longrightarrow> unat (offset d) + 4 \<le> unat (kc_size d)"
  by (simp add: descr_ok_def cache_ok_def)

text \<open>An operation on one slab: it may change the frames and the bytes of this slab and the lists of
  its cache; what remains to be shown is about this slab and this cache.\<close>

lemma inv_step:
  assumes inv: "slub_inv K \<sigma> G" and s: "s \<in> K"
    and src: "source_inv (sl_mm \<sigma>')"
    and others: "\<And>q h. G q = Some h \<Longrightarrow> q \<noteq> p \<Longrightarrow> owned_block (sl_mm \<sigma>') q (sb_order h)
        \<and> blk q (sb_order h) \<inter> blk p k = {} \<and> (\<forall>x\<in>blk q (sb_order h). mm_map (sl_mm \<sigma>') x = mm_map (sl_mm \<sigma>) x)"
    and mem: "\<And>a. a \<notin> bytes_of p k \<Longrightarrow> sl_mem \<sigma>' a = sl_mem \<sigma> a"
    and ca: "sl_caches \<sigma>' = sl_caches \<sigma>"
    and cpus: "\<And>a. a \<noteq> cpu_slab (sl_caches \<sigma> s) \<Longrightarrow> sl_cpus \<sigma>' a = sl_cpus \<sigma> a"
    and nodes: "\<And>a. a \<noteq> kc_node (sl_caches \<sigma> s) 0 \<Longrightarrow> sl_nodes \<sigma>' a = sl_nodes \<sigma> a"
    and view: "\<And>q. q \<noteq> p \<Longrightarrow> cpu_view \<sigma>' s q = cpu_view \<sigma> s q
        \<and> (q \<in> set (partial (node_of \<sigma>' s)) \<longleftrightarrow> q \<in> set (partial (node_of \<sigma> s)))"
    and old: "\<And>g. G p = Some g \<Longrightarrow> sb_cache g = s"
    and new: "\<And>g'. G' p = Some g' \<Longrightarrow> sb_cache g' = s \<and> sb_order g' = k \<and> slab_ok \<sigma>' p g'"
    and G': "\<And>q. q \<noteq> p \<Longrightarrow> G' q = G q" and cinv: "cache_inv \<sigma>' G' s"
  shows "slub_inv K \<sigma>' G'"
proof -
  have co: "caches_ok K \<sigma>" by (rule slub_invD(2) [OF inv])
  have diff: "cpu_slab (sl_caches \<sigma> t) \<noteq> cpu_slab (sl_caches \<sigma> s)" "kc_node (sl_caches \<sigma> t) 0 \<noteq> kc_node (sl_caches \<sigma> s) 0"
    if "t \<in> K" "t \<noteq> s" for t
    using co that s by (auto simp: caches_ok_def inj_on_def)
  have same: "cpu_of \<sigma>' t = cpu_of \<sigma> t" "node_of \<sigma>' t = node_of \<sigma> t" if "t \<in> K" "t \<noteq> s" for t
    using cpus nodes diff [OF that] by (simp_all add: cpu_of_def node_of_def ca)
  have ok: "slab_ok \<sigma>' q h" if q: "G q = Some h" "q \<noteq> p" for q h
  proof -
    have hK: "sb_cache h \<in> K" by (rule slub_invD(4) [OF inv q(1)])
    have "descr_ok (sl_caches \<sigma> (sb_cache h))" using co hK by (simp add: caches_ok_def)
    note off = descr_off [OF this]
    have o: "owned_block (sl_mm \<sigma>') q (sb_order h)" "blk q (sb_order h) \<inter> blk p k = {}"
      "\<And>x. x \<in> blk q (sb_order h) \<Longrightarrow> mm_map (sl_mm \<sigma>') x = mm_map (sl_mm \<sigma>) x" using others [OF q] by blast+
    have "cpu_view \<sigma>' (sb_cache h) q = cpu_view \<sigma> (sb_cache h) q
        \<and> (q \<in> set (partial (node_of \<sigma>' (sb_cache h))) \<longleftrightarrow> q \<in> set (partial (node_of \<sigma> (sb_cache h))))"
      using view [OF q(2)] same [OF hK] by (cases "sb_cache h = s") (simp_all add: cpu_view_def)
    moreover have "sl_mem \<sigma>' a = sl_mem \<sigma> a" if "a \<in> bytes_of q (sb_order h)" for a
      using mem bytes_disjoint [OF o(2)] that by blast
    ultimately show ?thesis
      using slab_view_cong [OF slub_invD(5) [OF inv q(1), unfolded slab_ok_def] off o(1,3)] by (simp add: slab_ok_def ca)
  qed
  have mine: "sb_cache g' \<in> K \<and> slab_ok \<sigma>' q g'" if "G' q = Some g'" for q g'
    using that ok new s G' slub_invD(4) [OF inv] by (cases "q = p") auto
  have "caches_ok K \<sigma>'" using co by (simp add: caches_ok_def ca)
  moreover have "cache_inv \<sigma>' G' t" if "t \<in> K" for t
  proof (cases "t = s")
    case False
    note c = slub_invD(3) [OF inv that]
    have "\<exists>g. G' q = Some g \<and> sb_cache g = t" if "\<exists>g. G q = Some g \<and> sb_cache g = t" for q
      using that False old G' by (cases "q = p") auto
    then show ?thesis using c same [OF \<open>t \<in> K\<close> False] by (auto simp: cache_inv_def split: option.splits)
  qed (use cinv in simp)
  moreover have "blk a (sb_order g) \<inter> blk b (sb_order h) = {}" if ab: "G' a = Some g" "G' b = Some h" "a \<noteq> b" for a g b h
  proof -
    consider "a = p" "b \<noteq> p" | "a \<noteq> p" "b = p" | "a \<noteq> p" "b \<noteq> p" using ab(3) by blast
    then show ?thesis
    proof cases
      case 1
      then have "sb_order g = k" "G b = Some h" using ab new G' by auto
      then show ?thesis using others [of b h] 1 by (simp add: Int_commute)
    next
      case 2
      then have "sb_order h = k" "G a = Some g" using ab new G' by auto
      then show ?thesis using others [of a g] 2 by simp
    next
      case 3
      then show ?thesis using slub_invD(6) [OF inv, of a g b h] ab G' by simp
    qed
  qed
  ultimately show ?thesis using src mine unfolding slub_inv_def by blast
qed

section \<open>Single steps\<close>

lemma pg_fields [simp]:
  "sl_mem (set_pg \<sigma> p f) = sl_mem \<sigma>" "sl_caches (set_pg \<sigma> p f) = sl_caches \<sigma>" "sl_cpus (set_pg \<sigma> p f) = sl_cpus \<sigma>"
  "sl_nodes (set_pg \<sigma> p f) = sl_nodes \<sigma>" "sl_preempt (set_pg \<sigma> p f) = sl_preempt \<sigma>" "sl_irqs (set_pg \<sigma> p f) = sl_irqs \<sigma>"
  "sl_mm (set_pg \<sigma> p f) = upd_page (sl_mm \<sigma>) p f" "cpu_of (set_pg \<sigma> p f) s = cpu_of \<sigma> s" "node_of (set_pg \<sigma> p f) s = node_of \<sigma> s"
  "pg (set_pg \<sigma> p f) q = (if q = p then f (pg \<sigma> p) else pg \<sigma> q)" "sl_mem_map (set_pg \<sigma> p f) = sl_mem_map \<sigma>"
  "sl_stack (set_pg \<sigma> p f) = sl_stack \<sigma>"
  by (simp_all add: set_pg_def cpu_of_def node_of_def pg_def upd_page_def)

lemma cpu_fields [simp]:
  "sl_mem (set_cpu \<sigma> s f) = sl_mem \<sigma>" "sl_caches (set_cpu \<sigma> s f) = sl_caches \<sigma>" "sl_mm (set_cpu \<sigma> s f) = sl_mm \<sigma>"
  "sl_nodes (set_cpu \<sigma> s f) = sl_nodes \<sigma>" "sl_preempt (set_cpu \<sigma> s f) = sl_preempt \<sigma>" "sl_irqs (set_cpu \<sigma> s f) = sl_irqs \<sigma>"
  "pg (set_cpu \<sigma> s f) q = pg \<sigma> q" "node_of (set_cpu \<sigma> s f) t = node_of \<sigma> t" "cpu_of (set_cpu \<sigma> s f) s = f (cpu_of \<sigma> s)"
  "a \<noteq> cpu_slab (sl_caches \<sigma> s) \<Longrightarrow> sl_cpus (set_cpu \<sigma> s f) a = sl_cpus \<sigma> a"
  "sl_mem_map (set_cpu \<sigma> s f) = sl_mem_map \<sigma>" "sl_stack (set_cpu \<sigma> s f) = sl_stack \<sigma>"
  by (simp_all add: set_cpu_def cpu_of_def node_of_def pg_def Let_def)

lemma node_fields [simp]:
  "sl_mem (set_node \<sigma> n h) = sl_mem \<sigma>" "sl_caches (set_node \<sigma> n h) = sl_caches \<sigma>" "sl_mm (set_node \<sigma> n h) = sl_mm \<sigma>"
  "sl_cpus (set_node \<sigma> n h) = sl_cpus \<sigma>" "sl_preempt (set_node \<sigma> n h) = sl_preempt \<sigma>" "sl_irqs (set_node \<sigma> n h) = sl_irqs \<sigma>"
  "pg (set_node \<sigma> n h) q = pg \<sigma> q" "cpu_of (set_node \<sigma> n h) t = cpu_of \<sigma> t"
  "n = kc_node (sl_caches \<sigma> s) 0 \<Longrightarrow> node_of (set_node \<sigma> n h) s = h (node_of \<sigma> s)"
  "a \<noteq> n \<Longrightarrow> sl_nodes (set_node \<sigma> n h) a = sl_nodes \<sigma> a"
  "sl_mem_map (set_node \<sigma> n h) = sl_mem_map \<sigma>" "sl_stack (set_node \<sigma> n h) = sl_stack \<sigma>"
  by (simp_all add: set_node_def cpu_of_def node_of_def pg_def)

lemma fp_fields [simp]:
  "sl_caches (set_freepointer \<sigma> s x v) = sl_caches \<sigma>" "sl_mm (set_freepointer \<sigma> s x v) = sl_mm \<sigma>"
  "sl_cpus (set_freepointer \<sigma> s x v) = sl_cpus \<sigma>" "sl_nodes (set_freepointer \<sigma> s x v) = sl_nodes \<sigma>"
  "sl_preempt (set_freepointer \<sigma> s x v) = sl_preempt \<sigma>" "sl_irqs (set_freepointer \<sigma> s x v) = sl_irqs \<sigma>"
  "pg (set_freepointer \<sigma> s x v) q = pg \<sigma> q" "cpu_of (set_freepointer \<sigma> s x v) t = cpu_of \<sigma> t"
  "node_of (set_freepointer \<sigma> s x v) t = node_of \<sigma> t"
  "sl_mem (set_freepointer \<sigma> s x v) = write_word (sl_mem \<sigma>) (x + offset (sl_caches \<sigma> s)) v"
  "sl_mem_map (set_freepointer \<sigma> s x v) = sl_mem_map \<sigma>" "sl_stack (set_freepointer \<sigma> s x v) = sl_stack \<sigma>"
  by (simp_all add: set_freepointer_def cpu_of_def node_of_def pg_def)

lemmas lock_defs = spin_lock_def spin_unlock_def slab_lock_def slab_unlock_def preempt_disable_def preempt_enable_def
  local_irq_disable_def local_irq_enable_def local_irq_restore_def

text \<open>Locks and the interrupt flag are no concern of the invariant.\<close>

lemma inv_cong:
  assumes "sl_mm \<sigma>' = sl_mm \<sigma>" "sl_mem \<sigma>' = sl_mem \<sigma>" "sl_caches \<sigma>' = sl_caches \<sigma>" "sl_cpus \<sigma>' = sl_cpus \<sigma>" "sl_nodes \<sigma>' = sl_nodes \<sigma>"
  shows "slub_inv K \<sigma>' G = slub_inv K \<sigma> G"
  unfolding slub_inv_def caches_ok_def cache_inv_def slab_ok_def node_of_def cpu_of_def cpu_view_def assms ..

lemma inv_locks [simp]:
  "slub_inv K (\<sigma>\<lparr>sl_preempt := a\<rparr>) G = slub_inv K \<sigma> G" "slub_inv K (\<sigma>\<lparr>sl_irqs := b\<rparr>) G = slub_inv K \<sigma> G"
  "slub_inv K (\<sigma>\<lparr>sl_slab_pages := v\<rparr>) G = slub_inv K \<sigma> G" "slub_inv K (\<sigma>\<lparr>sl_reclaimed := r\<rparr>) G = slub_inv K \<sigma> G"
  by (rule inv_cong; simp)+

lemma lock_views [simp]:
  "cpu_of (\<sigma>\<lparr>sl_preempt := a\<rparr>) s = cpu_of \<sigma> s" "cpu_of (\<sigma>\<lparr>sl_irqs := b\<rparr>) s = cpu_of \<sigma> s"
  "node_of (\<sigma>\<lparr>sl_preempt := a\<rparr>) s = node_of \<sigma> s" "node_of (\<sigma>\<lparr>sl_irqs := b\<rparr>) s = node_of \<sigma> s"
  "pg (\<sigma>\<lparr>sl_preempt := a\<rparr>) p = pg \<sigma> p" "pg (\<sigma>\<lparr>sl_irqs := b\<rparr>) p = pg \<sigma> p"
  "set_pg (\<sigma>\<lparr>sl_preempt := a\<rparr>) p f = (set_pg \<sigma> p f)\<lparr>sl_preempt := a\<rparr>" "set_pg (\<sigma>\<lparr>sl_irqs := b\<rparr>) p f = (set_pg \<sigma> p f)\<lparr>sl_irqs := b\<rparr>"
  "set_cpu (\<sigma>\<lparr>sl_preempt := a\<rparr>) s u = (set_cpu \<sigma> s u)\<lparr>sl_preempt := a\<rparr>" "set_cpu (\<sigma>\<lparr>sl_irqs := b\<rparr>) s u = (set_cpu \<sigma> s u)\<lparr>sl_irqs := b\<rparr>"
  "set_node (\<sigma>\<lparr>sl_preempt := a\<rparr>) n h = (set_node \<sigma> n h)\<lparr>sl_preempt := a\<rparr>" "set_node (\<sigma>\<lparr>sl_irqs := b\<rparr>) n h = (set_node \<sigma> n h)\<lparr>sl_irqs := b\<rparr>"
  "set_freepointer (\<sigma>\<lparr>sl_preempt := a\<rparr>) s x v = (set_freepointer \<sigma> s x v)\<lparr>sl_preempt := a\<rparr>"
  "set_freepointer (\<sigma>\<lparr>sl_irqs := b\<rparr>) s x v = (set_freepointer \<sigma> s x v)\<lparr>sl_irqs := b\<rparr>"
  by (simp_all add: cpu_of_def node_of_def pg_def set_pg_def set_cpu_def set_node_def set_freepointer_def Let_def)

lemma cmpxchg_ok:
  "uu_cmpxchg_double_slab \<sigma> s p (pg_freelist (pg \<sigma> p)) (pg_mapcount (pg \<sigma> p)) fh c =
     (set_pg \<sigma> p (\<lambda>q. q\<lparr>pg_freelist := fh, pg_mapcount := c\<rparr>), True)"
proof -
  have "(set_pg \<sigma> p f)\<lparr>sl_preempt := sl_preempt \<sigma>\<rparr> = set_pg \<sigma> p f" for f by (simp add: set_pg_def)
  then show ?thesis by (simp add: uu_cmpxchg_double_slab_def lock_defs Let_def)
qed

lemma redo_once: "f \<sigma> = (\<sigma>', Some x) \<Longrightarrow> redo f \<sigma> = Some (\<sigma>', x)"
  by (subst redo.simps) simp

lemma upd_same: "upd_page m p (\<lambda>q. q\<lparr>pg_freelist := pg_freelist (mm_map m p), pg_mapcount := pg_mapcount (mm_map m p)\<rparr>) = m"
  by (simp add: upd_page_def)

lemma local_step:
  assumes inv: "slub_inv K \<sigma> G" and g: "G p = Some g" and s: "sb_cache g = s"
    and mm: "sl_mm \<sigma>' = upd_page (sl_mm \<sigma>) p (\<lambda>q. q\<lparr>pg_freelist := fh, pg_mapcount := mc\<rparr>)"
    and mem: "\<And>a. a \<notin> bytes_of p (sb_order g) \<Longrightarrow> sl_mem \<sigma>' a = sl_mem \<sigma> a"
    and ca: "sl_caches \<sigma>' = sl_caches \<sigma>"
    and cpus: "\<And>a. a \<noteq> cpu_slab (sl_caches \<sigma> s) \<Longrightarrow> sl_cpus \<sigma>' a = sl_cpus \<sigma> a"
    and nodes: "\<And>a. a \<noteq> kc_node (sl_caches \<sigma> s) 0 \<Longrightarrow> sl_nodes \<sigma>' a = sl_nodes \<sigma> a"
    and view: "\<And>q. q \<noteq> p \<Longrightarrow> cpu_view \<sigma>' s q = cpu_view \<sigma> s q
        \<and> (q \<in> set (partial (node_of \<sigma>' s)) \<longleftrightarrow> q \<in> set (partial (node_of \<sigma> s)))"
    and lists: "distinct (xs @ ys)" "set (xs @ ys) \<subseteq> objs (kc_size (sl_caches \<sigma> s)) p (sb_objects g)"
    and cnt: "unat (objects mc) = sb_objects g" "frozen mc = (cpu_view \<sigma>' s p \<noteq> None)" "unat (inuse mc) + length xs = sb_objects g"
    and ch: "fchain (sl_mem \<sigma>') (offset (sl_caches \<sigma> s)) fh xs"
      "case cpu_view \<sigma>' s p of None \<Rightarrow> ys = [] | Some a \<Rightarrow> xs = [] \<and> fchain (sl_mem \<sigma>') (offset (sl_caches \<sigma> s)) a ys"
    and part: "p \<in> set (partial (node_of \<sigma>' s)) \<longleftrightarrow> cpu_view \<sigma>' s p = None \<and> xs \<noteq> []"
    and cinv: "cache_inv \<sigma>' (G(p \<mapsto> g\<lparr>sb_free := xs, sb_cpu := ys\<rparr>)) s"
  shows "slub_inv K \<sigma>' (G(p \<mapsto> g\<lparr>sb_free := xs, sb_cpu := ys\<rparr>))"
proof -
  let ?f = "\<lambda>q. q\<lparr>pg_freelist := fh, pg_mapcount := mc\<rparr>" and ?k = "sb_order g"
  have ok: "slab_ok \<sigma> p g" by (rule slub_invD(5) [OF inv g])
  note D = slab_okD [OF ok]
  have ow: "owned_block (sl_mm \<sigma>) p ?k" and cb: "clean_block (unslab (sl_mm \<sigma>) p) p ?k" using D(2) by (simp_all add: frames_ok_def)
  have small: "sb_objects g < 0x7FFF" using D(1) by (simp add: room_ok_def)
  have nb: "\<not> PageBuddy (?f (mm_map (sl_mm \<sigma>) p))" by (rule counters_not_buddy) (use small cnt(1) in simp)
  have all: "\<not> PageBuddy (mm_map (sl_mm \<sigma>) x)" if "x \<in> blk p ?k" for x
  proof (cases "x = p")
    case True
    then show ?thesis using D(4) small by (intro counters_not_buddy) (simp add: counts_ok_def pg_def)
  next
    case False
    then have "pg_mapcount (mm_map (sl_mm \<sigma>) x) = - 1"
      using cb that by (auto simp: clean_block_def in_use_block_def unslab_def upd_page_def)
    then show ?thesis by (simp add: PageBuddy_def PAGE_BUDDY_MAPCOUNT_VALUE_def)
  qed
  have pk: "p \<in> blk p ?k" by (rule blk_nonempty)
  have zid: "page_zone_id (?f (mm_map (sl_mm \<sigma>) p)) = page_zone_id (mm_map (sl_mm \<sigma>) p)" by (simp add: page_zone_id_def)
  note ou = owner_upd [OF slub_invD(1) [OF inv] ow pk, of ?f, OF zid nb all, folded mm]
  have "pg_mapcount (mm_map (unslab (sl_mm \<sigma>') p) x) = pg_mapcount (mm_map (unslab (sl_mm \<sigma>) p) x)"
    "pg_mapping (mm_map (unslab (sl_mm \<sigma>') p) x) = pg_mapping (mm_map (unslab (sl_mm \<sigma>) p) x)"
    "pg_flags (mm_map (unslab (sl_mm \<sigma>') p) x) = pg_flags (mm_map (unslab (sl_mm \<sigma>) p) x)"
    "pg_count (mm_map (unslab (sl_mm \<sigma>') p) x) = pg_count (mm_map (unslab (sl_mm \<sigma>) p) x)"
    "mm_zones (unslab (sl_mm \<sigma>') p) = mm_zones (unslab (sl_mm \<sigma>) p)" for x
    by (simp_all add: mm unslab_def upd_page_def reset_page_mapcount_def clear_page_flag_def)
  then have "clean_block (unslab (sl_mm \<sigma>') p) p ?k" using cb unfolding clean_block_def in_use_block_def by simp
  moreover have "compound_block (mm_map (sl_mm \<sigma>')) p ?k"
  proof -
    have "PageHead (?f q) = PageHead q" "PageTail (?f q) = PageTail q" for q by (simp_all add: PageHead_def PageTail_def test_page_flag_def)
    then have "compound_order (mm_map (sl_mm \<sigma>')) p = compound_order (mm_map (sl_mm \<sigma>)) p" "compound_head (mm_map (sl_mm \<sigma>')) q = compound_head (mm_map (sl_mm \<sigma>)) q"
      "PageHead (mm_map (sl_mm \<sigma>') p) = PageHead (mm_map (sl_mm \<sigma>) p)" "PageTail (mm_map (sl_mm \<sigma>') p) = PageTail (mm_map (sl_mm \<sigma>) p)" for q
      by (simp_all add: mm upd_page_def compound_order_def compound_head_def)
    then show ?thesis using D(2) by (simp add: frames_ok_def compound_block_def)
  qed
  moreover have "PageSlab (mm_map (sl_mm \<sigma>') p) = PageSlab (mm_map (sl_mm \<sigma>) p)" "pg_private (mm_map (sl_mm \<sigma>') p) = pg_private (mm_map (sl_mm \<sigma>) p)"
    by (simp_all add: mm upd_page_def PageSlab_def test_page_flag_def)
  ultimately have fr: "frames_ok (sl_mm \<sigma>') p g" using D(2) ou(2) by (simp add: frames_ok_def)
  define g' where "g' = g\<lparr>sb_free := xs, sb_cpu := ys\<rparr>"
  have g': "sb_cache g' = s" "sb_order g' = ?k" "sb_objects g' = sb_objects g" "sb_free g' = xs" "sb_cpu g' = ys" by (simp_all add: g'_def s)
  have new: "slab_ok \<sigma>' p g'"
  proof -
    have "mm_map (sl_mm \<sigma>') p = ?f (mm_map (sl_mm \<sigma>) p)" by (simp add: mm upd_page_def)
    moreover have "frames_ok (sl_mm \<sigma>') p g'" using fr by (simp add: frames_ok_def g' s)
    moreover have "room_ok (sl_caches \<sigma> s) p g'" using D(1) by (simp add: room_ok_def g' s)
    ultimately show ?thesis
      using lists cnt ch part unfolding slab_ok_def slab_view_def g' ca lists_ok_def counts_ok_def by simp
  qed
  show ?thesis
    unfolding g'_def [symmetric]
  proof (rule inv_step [OF inv, where s = s and p = p and k = ?k])
    show "s \<in> K" using slub_invD(4) [OF inv g] s by simp
    show "source_inv (sl_mm \<sigma>')" by (rule ou(1))
    show "owned_block (sl_mm \<sigma>') q (sb_order h) \<and> blk q (sb_order h) \<inter> blk p ?k = {}
        \<and> (\<forall>x\<in>blk q (sb_order h). mm_map (sl_mm \<sigma>') x = mm_map (sl_mm \<sigma>) x)" if q: "G q = Some h" "q \<noteq> p" for q h
    proof -
      have d: "blk q (sb_order h) \<inter> blk p ?k = {}" by (rule slub_invD(6) [OF inv q(1) g q(2)])
      then have "p \<notin> blk q (sb_order h)" using pk by blast
      moreover have "owned_block (sl_mm \<sigma>) q (sb_order h)" using slab_okD(2) [OF slub_invD(5) [OF inv q(1)]] by (simp add: frames_ok_def)
      ultimately show ?thesis using d ou(2) by (auto simp: mm upd_page_def)
    qed
    show "cache_inv \<sigma>' (G(p \<mapsto> g')) s" using cinv by (simp add: g'_def)
  qed (use mem ca cpus nodes view new g' g s in auto)
qed

section \<open>Objects in use\<close>

definition slab_live :: "slub \<Rightarrow> nat \<Rightarrow> slab \<Rightarrow> (ulong \<times> ulong) set" where
  "slab_live \<sigma> p g = Pair (sb_cache g) ` (objs (kc_size (sl_caches \<sigma> (sb_cache g))) p (sb_objects g) - set (sb_free g @ sb_cpu g))"

definition live :: "slub \<Rightarrow> (nat \<rightharpoonup> slab) \<Rightarrow> (ulong \<times> ulong) set" where
  "live \<sigma> G = {y. \<exists>p g. G p = Some g \<and> y \<in> slab_live \<sigma> p g}"

lemma live_upd: "live \<sigma> (G(p \<mapsto> g')) = slab_live \<sigma> p g' \<union> live \<sigma> (G(p := None))"
  unfolding live_def by (auto split: if_splits)

lemma live_split: "G p = Some g \<Longrightarrow> live \<sigma> G = slab_live \<sigma> p g \<union> live \<sigma> (G(p := None))"
  using live_upd [of \<sigma> G p g] by (simp add: fun_upd_idem)

lemma in_live: "(s, x) \<in> live \<sigma> G \<longleftrightarrow> (\<exists>p g. G p = Some g \<and> sb_cache g = s
    \<and> x \<in> objs (kc_size (sl_caches \<sigma> s)) p (sb_objects g) \<and> x \<notin> set (sb_free g @ sb_cpu g))"
  unfolding live_def slab_live_def by (fastforce simp: image_iff)

lemma inv_descr: "slub_inv K \<sigma> G \<Longrightarrow> G p = Some g \<Longrightarrow> descr_ok (sl_caches \<sigma> (sb_cache g))"
  using slub_invD(2,4) by (auto simp: caches_ok_def)

lemma obj_bytes:
  assumes inv: "slub_inv K \<sigma> G" and g: "G p = Some g" and x: "x \<in> objs (kc_size (sl_caches \<sigma> (sb_cache g))) p (sb_objects g)"
  shows "x \<in> bytes_of p (sb_order g)" "x \<noteq> 0"
proof -
  let ?d = "sl_caches \<sigma> (sb_cache g)"
  have r: "room_ok ?d p g" by (rule slab_okD(1) [OF slub_invD(5) [OF inv g]])
  obtain i where i: "i < sb_objects g" "x = obj (kc_size ?d) p i" using x by (auto simp: objs_def)
  have "0 < unat (kc_size ?d)" using descr_off [OF inv_descr [OF inv g]] by simp
  then show "x \<in> bytes_of p (sb_order g)" "x \<noteq> 0" using unat_obj [OF i(1), of "kc_size ?d" "sb_order g" p] r i(2) by (auto simp: room_ok_def bytes_of_def)
qed

lemma obj_unique:
  assumes inv: "slub_inv K \<sigma> G" and g: "G p = Some g" "G q = Some h"
    and x: "x \<in> objs (kc_size (sl_caches \<sigma> (sb_cache g))) p (sb_objects g)" "x \<in> objs (kc_size (sl_caches \<sigma> (sb_cache h))) q (sb_objects h)"
  shows "p = q"
  using obj_bytes(1) [OF inv g(1) x(1)] obj_bytes(1) [OF inv g(2) x(2)] bytes_disjoint slub_invD(6) [OF inv g] by blast

text \<open>Moving an object of a slab between the lists and its user.\<close>

lemma live_take:
  assumes inv: "slub_inv K \<sigma> G" and g: "G p = Some g" and x: "x \<in> set (sb_free g @ sb_cpu g)"
    and g': "g' = g\<lparr>sb_free := xs, sb_cpu := ys\<rparr>" "set (xs @ ys) = set (sb_free g @ sb_cpu g) - {x}"
  shows "(sb_cache g, x) \<notin> live \<sigma> G" "live \<sigma> (G(p \<mapsto> g')) = insert (sb_cache g, x) (live \<sigma> G)"
proof -
  have o: "x \<in> objs (kc_size (sl_caches \<sigma> (sb_cache g))) p (sb_objects g)"
    using slab_okD(3) [OF slub_invD(5) [OF inv g]] x by (auto simp: lists_ok_def)
  show "(sb_cache g, x) \<notin> live \<sigma> G"
  proof
    assume "(sb_cache g, x) \<in> live \<sigma> G"
    then obtain q h where q: "G q = Some h" "sb_cache h = sb_cache g" "x \<in> objs (kc_size (sl_caches \<sigma> (sb_cache h))) q (sb_objects h)"
      "x \<notin> set (sb_free h @ sb_cpu h)" unfolding in_live by auto
    have "p = q" by (rule obj_unique [OF inv g q(1) o q(3)])
    then show False using q g x by simp
  qed
  have "slab_live \<sigma> p g' = insert (sb_cache g, x) (slab_live \<sigma> p g)" using o g' x by (auto simp: slab_live_def)
  then show "live \<sigma> (G(p \<mapsto> g')) = insert (sb_cache g, x) (live \<sigma> G)" by (simp add: live_upd live_split [where G = G, OF g])
qed

lemma live_give:
  assumes inv: "slub_inv K \<sigma> G" and g: "G p = Some g" and x: "x \<in> objs (kc_size (sl_caches \<sigma> (sb_cache g))) p (sb_objects g)"
    and g': "g' = g\<lparr>sb_free := xs, sb_cpu := ys\<rparr>" "set (xs @ ys) = insert x (set (sb_free g @ sb_cpu g))"
  shows "live \<sigma> (G(p \<mapsto> g')) = live \<sigma> G - {(sb_cache g, x)}"
proof -
  have "slab_live \<sigma> p g' = slab_live \<sigma> p g - {(sb_cache g, x)}" using g' by (auto simp: slab_live_def)
  moreover have "(sb_cache g, x) \<notin> live \<sigma> (G(p := None))"
  proof
    assume "(sb_cache g, x) \<in> live \<sigma> (G(p := None))"
    then obtain q h where q: "G q = Some h" "q \<noteq> p" "sb_cache h = sb_cache g" "x \<in> objs (kc_size (sl_caches \<sigma> (sb_cache h))) q (sb_objects h)"
      unfolding in_live by (auto split: if_splits)
    then show False using obj_unique [OF inv g q(1) x q(4)] by simp
  qed
  ultimately show ?thesis unfolding live_upd live_split [where G = G, OF g] by blast
qed

lemma live_same: "sl_caches \<sigma>' = sl_caches \<sigma> \<Longrightarrow> live \<sigma>' G = live \<sigma> G"
  by (simp add: live_def slab_live_def)

lemma live_keep:
  assumes "G p = Some g" "g' = g\<lparr>sb_free := xs, sb_cpu := ys\<rparr>" "set (xs @ ys) = set (sb_free g @ sb_cpu g)"
  shows "live \<sigma> (G(p \<mapsto> g')) = live \<sigma> G"
proof -
  have "slab_live \<sigma> p g' = slab_live \<sigma> p g" using assms(2,3) by (auto simp: slab_live_def)
  then show ?thesis by (simp add: live_upd live_split [where G = G and p = p] assms(1))
qed

section \<open>The slab of the processor\<close>

lemma cpu_slabE:
  assumes inv: "slub_inv K \<sigma> G" and s: "s \<in> K" and p: "c_page (cpu_of \<sigma> s) = Some p"
  obtains g where "G p = Some g" "sb_cache g = s" "slab_ok \<sigma> p g" "sb_free g = []" "frozen (pg_mapcount (pg \<sigma> p))"
    "cpu_view \<sigma> s p = Some (c_freelist (cpu_of \<sigma> s))"
    "fchain (sl_mem \<sigma>) (offset (sl_caches \<sigma> s)) (c_freelist (cpu_of \<sigma> s)) (sb_cpu g)"
proof -
  obtain g where g: "G p = Some g" "sb_cache g = s" using slub_invD(3) [OF inv s] p by (auto simp: cache_inv_def)
  have ok: "slab_ok \<sigma> p g" by (rule slub_invD(5) [OF inv g(1)])
  have cv: "cpu_view \<sigma> s p = Some (c_freelist (cpu_of \<sigma> s))" using p by (simp add: cpu_view_def)
  show thesis
    using that [OF g ok] slab_okD(4,7) [OF ok] cv g(2) by (simp add: counts_ok_def)
qed

text \<open>Taking the first object of the list of the processor.\<close>

lemma pop_inv:
  fixes tid :: "kmem_cache_cpu \<Rightarrow> ulong"
  assumes inv: "slub_inv K \<sigma> G" and s: "s \<in> K" and p: "c_page (cpu_of \<sigma> s) = Some p" and x: "c_freelist (cpu_of \<sigma> s) = x" "x \<noteq> 0"
  defines "\<sigma>' \<equiv> set_cpu \<sigma> s (\<lambda>c. c\<lparr>c_freelist := get_freepointer \<sigma> s x, c_tid := tid c\<rparr>)"
  shows "\<exists>G'. slub_inv K \<sigma>' G' \<and> live \<sigma>' G' = insert (s, x) (live \<sigma> G) \<and> (s, x) \<notin> live \<sigma> G"
proof -
  obtain g where g: "G p = Some g" "sb_cache g = s" "slab_ok \<sigma> p g" "sb_free g = []" "frozen (pg_mapcount (pg \<sigma> p))"
    "fchain (sl_mem \<sigma>) (offset (sl_caches \<sigma> s)) x (sb_cpu g)"
    using cpu_slabE [OF inv s p] x(1) by blast
  note D = slab_okD [OF g(3)]
  define ys where "ys = tl (sb_cpu g)"
  have c: "sb_cpu g = x # ys" "fchain (sl_mem \<sigma>) (offset (sl_caches \<sigma> s)) (get_freepointer \<sigma> s x) ys"
    using fchain_hd [OF g(6) x(2)] by (simp_all add: ys_def get_freepointer_def)
  define g' where "g' = g\<lparr>sb_free := [], sb_cpu := ys\<rparr>"
  have cv: "cpu_view \<sigma>' s q = (if q = p then Some (get_freepointer \<sigma> s x) else None)" for q
    using p by (simp add: cpu_view_def \<sigma>'_def)
  have mm: "sl_mm \<sigma>' = upd_page (sl_mm \<sigma>) p (\<lambda>q. q\<lparr>pg_freelist := pg_freelist (pg \<sigma> p), pg_mapcount := pg_mapcount (pg \<sigma> p)\<rparr>)"
    by (simp add: \<sigma>'_def pg_def upd_same)
  have ci: "cache_inv \<sigma>' (G(p \<mapsto> g')) s"
    using slub_invD(3) [OF inv s] p g(1,2) by (auto simp: cache_inv_def \<sigma>'_def g'_def)
  have "slub_inv K \<sigma>' (G(p \<mapsto> g'))"
    unfolding g'_def
  proof (rule local_step [OF inv g(1,2) mm])
    show "cpu_view \<sigma>' s q = cpu_view \<sigma> s q \<and> (q \<in> set (partial (node_of \<sigma>' s))) = (q \<in> set (partial (node_of \<sigma> s)))" if "q \<noteq> p" for q
      using that p cv by (simp add: cpu_view_def \<sigma>'_def)
    show "distinct ([] @ ys)" "set ([] @ ys) \<subseteq> objs (kc_size (sl_caches \<sigma> s)) p (sb_objects g)"
      using D(3) c(1) g(2) by (auto simp: lists_ok_def)
    show "unat (objects (pg_mapcount (pg \<sigma> p))) = sb_objects g" "unat (inuse (pg_mapcount (pg \<sigma> p))) + length [] = sb_objects g"
      using D(4) g(4) by (simp_all add: counts_ok_def)
    show "frozen (pg_mapcount (pg \<sigma> p)) = (cpu_view \<sigma>' s p \<noteq> None)" using g(5) cv by simp
    show "fchain (sl_mem \<sigma>') (offset (sl_caches \<sigma> s)) (pg_freelist (pg \<sigma> p)) []" using D(5) g(2,4) by simp
    show "case cpu_view \<sigma>' s p of None \<Rightarrow> ys = [] | Some a \<Rightarrow> [] = [] \<and> fchain (sl_mem \<sigma>') (offset (sl_caches \<sigma> s)) a ys"
      using cv c(2) by (simp add: \<sigma>'_def)
    show "p \<in> set (partial (node_of \<sigma>' s)) \<longleftrightarrow> cpu_view \<sigma>' s p = None \<and> [] \<noteq> []"
      using D(8) g(2,4) by (simp add: \<sigma>'_def)
    show "cache_inv \<sigma>' (G(p \<mapsto> g\<lparr>sb_free := [], sb_cpu := ys\<rparr>)) s" using ci by (simp add: g'_def)
  qed (simp_all add: \<sigma>'_def)
  moreover have "distinct (x # ys)" using D(3) c(1) by (simp add: lists_ok_def)
  then have "set ([] @ ys) = set (sb_free g @ sb_cpu g) - {x}" "x \<in> set (sb_free g @ sb_cpu g)" using c(1) g(4) by auto
  note lv = live_take [OF inv g(1) this(2) g'_def this(1)]
  have "live \<sigma>' (G(p \<mapsto> g')) = live \<sigma> (G(p \<mapsto> g'))" by (rule live_same) (simp add: \<sigma>'_def)
  ultimately show ?thesis using lv g(2) by auto
qed

lemma slab_apart:
  assumes inv: "slub_inv K \<sigma> G" and g: "G p = Some g" "sb_cache g = s"
    and x: "x \<in> objs (kc_size (sl_caches \<sigma> s)) p (sb_objects g)" "y \<in> objs (kc_size (sl_caches \<sigma> s)) p (sb_objects g)" "x \<noteq> y"
  shows "apart (x + offset (sl_caches \<sigma> s)) (y + offset (sl_caches \<sigma> s))"
proof -
  let ?d = "sl_caches \<sigma> s"
  have r: "room_ok ?d p g" using slab_okD(1) [OF slub_invD(5) [OF inv g(1)]] g(2) by simp
  have off: "unat (offset ?d) + 4 \<le> unat (kc_size ?d)" using descr_off [OF inv_descr [OF inv g(1)]] g(2) by simp
  obtain i j where "i < sb_objects g" "x = obj (kc_size ?d) p i" "j < sb_objects g" "y = obj (kc_size ?d) p j"
    using x(1,2) by (auto simp: objs_def)
  then show ?thesis using objects_apart(1) [of i "sb_objects g" "kc_size ?d" "sb_order g" p "offset ?d" j "sb_objects g" "kc_size ?d" "sb_order g" p "offset ?d"] r off x(3)
    by (auto simp: room_ok_def)
qed

lemma write_frame:
  assumes inv: "slub_inv K \<sigma> G" and g: "G p = Some g" "sb_cache g = s"
    and x: "x \<in> objs (kc_size (sl_caches \<sigma> s)) p (sb_objects g)" and a: "a \<notin> bytes_of p (sb_order g)"
  shows "write_word m (x + offset (sl_caches \<sigma> s)) v a = m a"
proof (rule write_word_outside, rule ccontr)
  let ?d = "sl_caches \<sigma> s"
  let ?j = "a - (x + offset ?d)"
  assume "\<not> 4 \<le> unat ?j"
  then have "unat ?j = 0 \<or> unat ?j = 1 \<or> unat ?j = 2 \<or> unat ?j = 3" by linarith
  then have "?j \<in> {0, 1, 2, 3}" by (auto simp: word_eq_unat)
  moreover have "room_ok ?d p g" using slab_okD(1) [OF slub_invD(5) [OF inv g(1)]] g(2) by simp
  moreover have "unat (offset ?d) + 4 \<le> unat (kc_size ?d)" using descr_off [OF inv_descr [OF inv g(1)]] g(2) by simp
  ultimately have "x + offset ?d + ?j \<in> bytes_of p (sb_order g)" using word_bytes x by blast
  then show False using a by simp
qed

lemma chain_put:
  assumes inv: "slub_inv K \<sigma> G" and g: "G p = Some g" "sb_cache g = s"
    and x: "x \<in> objs (kc_size (sl_caches \<sigma> s)) p (sb_objects g)" "x \<notin> set xs" "set xs \<subseteq> objs (kc_size (sl_caches \<sigma> s)) p (sb_objects g)"
    and c: "fchain m (offset (sl_caches \<sigma> s)) a xs"
  shows "fchain (write_word m (x + offset (sl_caches \<sigma> s)) a) (offset (sl_caches \<sigma> s)) x (x # xs)"
proof -
  have "fchain (write_word m (x + offset (sl_caches \<sigma> s)) a) (offset (sl_caches \<sigma> s)) a xs = fchain m (offset (sl_caches \<sigma> s)) a xs"
  proof (rule fchain_write)
    fix y assume "y \<in> set xs"
    then show "apart (x + offset (sl_caches \<sigma> s)) (y + offset (sl_caches \<sigma> s))" using slab_apart [OF inv g x(1)] x(2,3) by blast
  qed
  moreover have "x \<noteq> 0" using obj_bytes(2) [OF inv g(1)] x(1) g(2) by simp
  ultimately show ?thesis using c by simp
qed

text \<open>Putting an object to the front of the list of the processor.\<close>

lemma push_inv:
  fixes tid :: "kmem_cache_cpu \<Rightarrow> ulong"
  assumes inv: "slub_inv K \<sigma> G" and s: "s \<in> K" and p: "c_page (cpu_of \<sigma> s) = Some p" and g0: "G p = Some g"
    and x: "x \<in> objs (kc_size (sl_caches \<sigma> s)) p (sb_objects g)" "x \<notin> set (sb_free g @ sb_cpu g)"
  defines "\<sigma>' \<equiv> set_cpu (set_freepointer \<sigma> s x (c_freelist (cpu_of \<sigma> s))) s (\<lambda>c. c\<lparr>c_freelist := x, c_tid := tid c\<rparr>)"
  shows "\<exists>G'. slub_inv K \<sigma>' G' \<and> live \<sigma>' G' = live \<sigma> G - {(s, x)}"
proof -
  obtain g where g: "G p = Some g" "sb_cache g = s" "slab_ok \<sigma> p g" "sb_free g = []" "frozen (pg_mapcount (pg \<sigma> p))"
    "fchain (sl_mem \<sigma>) (offset (sl_caches \<sigma> s)) (c_freelist (cpu_of \<sigma> s)) (sb_cpu g)"
    using cpu_slabE [OF inv s p] by blast
  have x: "x \<in> objs (kc_size (sl_caches \<sigma> s)) p (sb_objects g)" "x \<notin> set (sb_cpu g)" using x g0 g(1) by auto
  note D = slab_okD [OF g(3)]
  have l: "distinct (sb_cpu g)" "set (sb_cpu g) \<subseteq> objs (kc_size (sl_caches \<sigma> s)) p (sb_objects g)" using D(3) g(2) by (auto simp: lists_ok_def)
  define ys where "ys = x # sb_cpu g"
  define g' where "g' = g\<lparr>sb_free := [], sb_cpu := ys\<rparr>"
  have cv: "cpu_view \<sigma>' s q = (if q = p then Some x else None)" for q using p by (simp add: cpu_view_def \<sigma>'_def)
  have mm: "sl_mm \<sigma>' = upd_page (sl_mm \<sigma>) p (\<lambda>q. q\<lparr>pg_freelist := pg_freelist (pg \<sigma> p), pg_mapcount := pg_mapcount (pg \<sigma> p)\<rparr>)"
    by (simp add: \<sigma>'_def pg_def upd_same)
  have ci: "cache_inv \<sigma>' (G(p \<mapsto> g')) s" using slub_invD(3) [OF inv s] p g(1,2) by (auto simp: cache_inv_def \<sigma>'_def g'_def)
  have mem: "sl_mem \<sigma>' = write_word (sl_mem \<sigma>) (x + offset (sl_caches \<sigma> s)) (c_freelist (cpu_of \<sigma> s))" by (simp add: \<sigma>'_def)
  have "slub_inv K \<sigma>' (G(p \<mapsto> g'))"
    unfolding g'_def
  proof (rule local_step [OF inv g(1,2) mm])
    show "sl_mem \<sigma>' a = sl_mem \<sigma> a" if "a \<notin> bytes_of p (sb_order g)" for a
      unfolding mem by (rule write_frame [OF inv g(1,2) x(1) that])
    show "cpu_view \<sigma>' s q = cpu_view \<sigma> s q \<and> (q \<in> set (partial (node_of \<sigma>' s))) = (q \<in> set (partial (node_of \<sigma> s)))" if "q \<noteq> p" for q
      using that p cv by (simp add: cpu_view_def \<sigma>'_def)
    show "distinct ([] @ ys)" "set ([] @ ys) \<subseteq> objs (kc_size (sl_caches \<sigma> s)) p (sb_objects g)" using l x by (auto simp: ys_def)
    show "unat (objects (pg_mapcount (pg \<sigma> p))) = sb_objects g" "unat (inuse (pg_mapcount (pg \<sigma> p))) + length [] = sb_objects g"
      using D(4) g(4) by (simp_all add: counts_ok_def)
    show "frozen (pg_mapcount (pg \<sigma> p)) = (cpu_view \<sigma>' s p \<noteq> None)" using g(5) cv by simp
    show "fchain (sl_mem \<sigma>') (offset (sl_caches \<sigma> s)) (pg_freelist (pg \<sigma> p)) []" using D(5) g(2,4) by simp
    show "case cpu_view \<sigma>' s p of None \<Rightarrow> ys = [] | Some a \<Rightarrow> [] = [] \<and> fchain (sl_mem \<sigma>') (offset (sl_caches \<sigma> s)) a ys"
      using cv chain_put [OF inv g(1,2) x l(2) g(6)] by (simp add: mem ys_def)
    show "p \<in> set (partial (node_of \<sigma>' s)) \<longleftrightarrow> cpu_view \<sigma>' s p = None \<and> [] \<noteq> []"
      using D(8) g(2,4) by (simp add: \<sigma>'_def)
    show "cache_inv \<sigma>' (G(p \<mapsto> g\<lparr>sb_free := [], sb_cpu := ys\<rparr>)) s" using ci by (simp add: g'_def)
  qed (simp_all add: \<sigma>'_def)
  moreover have "live \<sigma> (G(p \<mapsto> g')) = live \<sigma> G - {(sb_cache g, x)}"
    by (rule live_give [OF inv g(1) _ g'_def]) (use x g in \<open>auto simp: ys_def\<close>)
  moreover have "live \<sigma>' (G(p \<mapsto> g')) = live \<sigma> (G(p \<mapsto> g'))" by (rule live_same) (simp add: \<sigma>'_def)
  ultimately show ?thesis using g(2) by auto
qed

text \<open>Taking over a partial slab as the slab of the processor.\<close>

lemma acquire_run:
  "acquire_slab \<sigma> s n p =
     (let fh = pg_freelist (pg \<sigma> p); c = pg_mapcount (pg \<sigma> p);
          \<sigma>1 = remove_partial (set_pg \<sigma> p (\<lambda>q. q\<lparr>pg_freelist := 0, pg_mapcount := set_frozen (set_inuse c (objects c)) True\<rparr>)) n p
      in if fh \<noteq> 0 then Some (set_cpu \<sigma>1 s (\<lambda>c. c\<lparr>c_freelist := fh, c_page := Some p, c_node := int (page_to_nid (pg \<sigma>1 p))\<rparr>), True)
         else Some (\<sigma>1, False))"
  unfolding acquire_slab_def
  by (subst redo_once [where \<sigma>' = "set_pg \<sigma> p (\<lambda>q. q\<lparr>pg_freelist := 0, pg_mapcount := set_frozen (set_inuse (pg_mapcount (pg \<sigma> p)) (objects (pg_mapcount (pg \<sigma> p)))) True\<rparr>)"
        and x = "pg_freelist (pg \<sigma> p)"]) (simp_all add: cmpxchg_ok Let_def)

lemma take_bit_objects: "take_bit 16 (objects c) = objects c"
  by (simp add: objects_def)

lemma acquire_inv:
  assumes inv: "slub_inv K \<sigma> G" and s: "s \<in> K" and none: "c_page (cpu_of \<sigma> s) = None" and p: "partial (node_of \<sigma> s) = p # ps"
  shows "\<exists>\<sigma>' G'. acquire_slab \<sigma> s (kc_node (sl_caches \<sigma> s) 0) p = Some (\<sigma>', True) \<and> slub_inv K \<sigma>' G' \<and> live \<sigma>' G' = live \<sigma> G
    \<and> c_page (cpu_of \<sigma>' s) = Some p \<and> c_freelist (cpu_of \<sigma>' s) \<noteq> 0 \<and> sl_caches \<sigma>' = sl_caches \<sigma> \<and> sl_mem \<sigma>' = sl_mem \<sigma>
    \<and> sl_preempt \<sigma>' = sl_preempt \<sigma> \<and> sl_irqs \<sigma>' = sl_irqs \<sigma>"
proof -
  let ?n = "kc_node (sl_caches \<sigma> s) 0" and ?c = "pg_mapcount (pg \<sigma> p)" and ?fh = "pg_freelist (pg \<sigma> p)"
  note ci = slub_invD(3) [OF inv s]
  obtain g where g: "G p = Some g" "sb_cache g = s" using ci p by (auto simp: cache_inv_def)
  have ok: "slab_ok \<sigma> p g" by (rule slub_invD(5) [OF inv g(1)])
  note D = slab_okD [OF ok, unfolded g(2)]
  have cv0: "cpu_view \<sigma> s q = None" for q using none by (simp add: cpu_view_def)
  have free: "sb_free g \<noteq> []" "sb_cpu g = []" using D(6,8) p cv0 by simp_all
  then have fh: "?fh \<noteq> 0" using D(5) fchain_nonnull by blast
  define \<sigma>1 where "\<sigma>1 = remove_partial (set_pg \<sigma> p (\<lambda>q. q\<lparr>pg_freelist := 0, pg_mapcount := set_frozen (set_inuse ?c (objects ?c)) True\<rparr>)) ?n p"
  define \<sigma>' where "\<sigma>' = set_cpu \<sigma>1 s (\<lambda>c. c\<lparr>c_freelist := ?fh, c_page := Some p, c_node := int (page_to_nid (pg \<sigma>1 p))\<rparr>)"
  have run: "acquire_slab \<sigma> s ?n p = Some (\<sigma>', True)" using fh by (simp add: acquire_run Let_def \<sigma>'_def \<sigma>1_def)
  have f1: "sl_caches \<sigma>1 = sl_caches \<sigma>" "sl_mem \<sigma>1 = sl_mem \<sigma>" "sl_preempt \<sigma>1 = sl_preempt \<sigma>" "sl_irqs \<sigma>1 = sl_irqs \<sigma>" "cpu_of \<sigma>1 s = cpu_of \<sigma> s" "sl_cpus \<sigma>1 = sl_cpus \<sigma>"
    "sl_mm \<sigma>1 = upd_page (sl_mm \<sigma>) p (\<lambda>q. q\<lparr>pg_freelist := 0, pg_mapcount := set_frozen (set_inuse ?c (objects ?c)) True\<rparr>)"
    "partial (node_of \<sigma>1 s) = ps" "nr_partial (node_of \<sigma>1 s) = nr_partial (node_of \<sigma> s) - 1"
    using p by (simp_all add: \<sigma>1_def remove_partial_def)
  have cv: "cpu_view \<sigma>' s q = (if q = p then Some ?fh else None)" for q by (simp add: cpu_view_def \<sigma>'_def)
  define g' where "g' = g\<lparr>sb_free := [], sb_cpu := sb_free g\<rparr>"
  have pd: "p \<notin> set ps" "nr_partial (node_of \<sigma> s) = word_of_nat (Suc (length ps))" using ci p by (auto simp: cache_inv_def)
  have ci': "cache_inv \<sigma>' (G(p \<mapsto> g')) s"
    using ci p pd f1 g(2) by (auto simp: cache_inv_def \<sigma>'_def g'_def)
  have "slub_inv K \<sigma>' (G(p \<mapsto> g'))"
    unfolding g'_def
  proof (rule local_step [OF inv g])
    show "sl_mm \<sigma>' = upd_page (sl_mm \<sigma>) p (\<lambda>q. q\<lparr>pg_freelist := 0, pg_mapcount := set_frozen (set_inuse ?c (objects ?c)) True\<rparr>)"
      by (simp add: \<sigma>'_def f1)
    show "cpu_view \<sigma>' s q = cpu_view \<sigma> s q \<and> (q \<in> set (partial (node_of \<sigma>' s))) = (q \<in> set (partial (node_of \<sigma> s)))" if "q \<noteq> p" for q
      using that p cv cv0 f1 by (simp add: \<sigma>'_def)
    show "sl_cpus \<sigma>' a = sl_cpus \<sigma> a" if "a \<noteq> cpu_slab (sl_caches \<sigma> s)" for a using that f1 by (simp add: \<sigma>'_def)
    show "sl_nodes \<sigma>' a = sl_nodes \<sigma> a" if "a \<noteq> ?n" for a using that by (simp add: \<sigma>'_def \<sigma>1_def remove_partial_def)
    show "distinct ([] @ sb_free g)" "set ([] @ sb_free g) \<subseteq> objs (kc_size (sl_caches \<sigma> s)) p (sb_objects g)"
      using D(3) by (auto simp: lists_ok_def)
    show "unat (objects (set_frozen (set_inuse ?c (objects ?c)) True)) = sb_objects g"
      "unat (inuse (set_frozen (set_inuse ?c (objects ?c)) True)) + length [] = sb_objects g"
      using D(4) by (simp_all add: counts_ok_def take_bit_objects)
    show "fchain (sl_mem \<sigma>') (offset (sl_caches \<sigma> s)) 0 []" by simp
    show "case cpu_view \<sigma>' s p of None \<Rightarrow> sb_free g = [] | Some a \<Rightarrow> [] = [] \<and> fchain (sl_mem \<sigma>') (offset (sl_caches \<sigma> s)) a (sb_free g)"
      unfolding cv using D(5) by (simp add: \<sigma>'_def f1)
    show "cache_inv \<sigma>' (G(p \<mapsto> g\<lparr>sb_free := [], sb_cpu := sb_free g\<rparr>)) s" using ci' by (simp add: g'_def)
    show "frozen (set_frozen (set_inuse ?c (objects ?c)) True) = (cpu_view \<sigma>' s p \<noteq> None)" unfolding cv by simp
    show "p \<in> set (partial (node_of \<sigma>' s)) \<longleftrightarrow> cpu_view \<sigma>' s p = None \<and> [] \<noteq> []" using pd f1 unfolding cv by (simp add: \<sigma>'_def)
  qed (simp_all add: \<sigma>'_def f1)
  moreover have "live \<sigma>' (G(p \<mapsto> g')) = live \<sigma> G"
    using live_keep [of G p g, OF g(1) g'_def] live_same [of \<sigma>' \<sigma>] free by (simp add: \<sigma>'_def f1)
  ultimately show ?thesis using run f1 fh by (auto simp: \<sigma>'_def)
qed

text \<open>Leaving a slab without free objects.\<close>

lemma leave_inv:
  assumes inv: "slub_inv K \<sigma> G" and s: "s \<in> K" and p: "c_page (cpu_of \<sigma> s) = Some p" and z: "c_freelist (cpu_of \<sigma> s) = 0"
  defines "c \<equiv> pg_mapcount (pg \<sigma> p)"
  defines "\<sigma>' \<equiv> set_cpu (set_pg \<sigma> p (\<lambda>q. q\<lparr>pg_freelist := 0, pg_mapcount := set_frozen (set_inuse c (objects c)) False\<rparr>)) s (\<lambda>c. c\<lparr>c_page := None\<rparr>)"
  shows "pg_freelist (pg \<sigma> p) = 0" "slub_inv K \<sigma>' G"
proof -
  obtain g where g: "G p = Some g" "sb_cache g = s" "slab_ok \<sigma> p g" "sb_free g = []"
    "fchain (sl_mem \<sigma>) (offset (sl_caches \<sigma> s)) (c_freelist (cpu_of \<sigma> s)) (sb_cpu g)"
    using cpu_slabE [OF inv s p] by blast
  note D = slab_okD [OF g(3), unfolded g(2)]
  have cpu: "sb_cpu g = []" using g(5) z by simp
  show "pg_freelist (pg \<sigma> p) = 0" using D(5) g(4) by simp
  have cv: "cpu_view \<sigma>' s q = None" for q by (simp add: cpu_view_def \<sigma>'_def)
  have "slub_inv K \<sigma>' (G(p \<mapsto> g\<lparr>sb_free := [], sb_cpu := []\<rparr>))"
  proof (rule local_step [OF inv g(1,2)])
    show "sl_mm \<sigma>' = upd_page (sl_mm \<sigma>) p (\<lambda>q. q\<lparr>pg_freelist := 0, pg_mapcount := set_frozen (set_inuse c (objects c)) False\<rparr>)"
      by (simp add: \<sigma>'_def)
    show "cpu_view \<sigma>' s q = cpu_view \<sigma> s q \<and> (q \<in> set (partial (node_of \<sigma>' s))) = (q \<in> set (partial (node_of \<sigma> s)))" if "q \<noteq> p" for q
      using that p unfolding cv by (simp add: cpu_view_def \<sigma>'_def)
    show "unat (objects (set_frozen (set_inuse c (objects c)) False)) = sb_objects g"
      "unat (inuse (set_frozen (set_inuse c (objects c)) False)) + length [] = sb_objects g"
      using D(4) by (simp_all add: counts_ok_def take_bit_objects c_def)
    show "frozen (set_frozen (set_inuse c (objects c)) False) = (cpu_view \<sigma>' s p \<noteq> None)" unfolding cv by simp
    show "case cpu_view \<sigma>' s p of None \<Rightarrow> [] = [] | Some a \<Rightarrow> [] = [] \<and> fchain (sl_mem \<sigma>') (offset (sl_caches \<sigma> s)) a []"
      unfolding cv by simp
    show "p \<in> set (partial (node_of \<sigma>' s)) \<longleftrightarrow> cpu_view \<sigma>' s p = None \<and> [] \<noteq> []" using D(8) g(4) by (simp add: \<sigma>'_def)
    show "cache_inv \<sigma>' (G(p \<mapsto> g\<lparr>sb_free := [], sb_cpu := []\<rparr>)) s"
      using slub_invD(3) [OF inv s] p z g(2) by (auto simp: cache_inv_def \<sigma>'_def)
  qed (simp_all add: \<sigma>'_def)
  moreover have "g\<lparr>sb_free := [], sb_cpu := []\<rparr> = g" using g(4) cpu by simp
  moreover have "G(p \<mapsto> g) = G" using g(1) by (simp add: fun_upd_idem)
  ultimately show "slub_inv K \<sigma>' G" by metis
qed

section \<open>A new slab\<close>

text \<open>Linking the objects: afterwards they form one list in the order of their addresses.\<close>

definition obj_list :: "ulong \<Rightarrow> nat \<Rightarrow> nat \<Rightarrow> nat \<Rightarrow> ulong list" where
  "obj_list sz p i n = map (obj sz p) [i..<n]"

lemma fchain_objs_stable:
  assumes d: "n * unat sz \<le> 4096 * 2 ^ k" "low_frame p k" "unat off + 4 \<le> unat sz" and j: "j < n" and i: "j < i"
  shows "fchain (write_word m (obj sz p j + off) v) off a (obj_list sz p i n) = fchain m off a (obj_list sz p i n)"
proof (rule fchain_write)
  fix x assume "x \<in> set (obj_list sz p i n)"
  then obtain l where l: "i \<le> l" "l < n" "x = obj sz p l" by (auto simp: obj_list_def)
  show "apart (obj sz p j + off) (x + off)"
    unfolding l(3) by (rule objects_apart(1) [OF j d l(2) d]) (use i l in auto)
qed

lemma obj_Suc: "obj sz p (Suc i) = obj sz p i + sz"
  by (simp add: obj_def algebra_simps)

lemma obj_bound:
  assumes "n * unat sz \<le> 4096 * 2 ^ k" "low_frame p k" "i \<le> n" "0 < unat sz"
  shows "unat (obj sz p i) = 0xC0000000 + 4096 * p + i * unat sz"
proof (cases i)
  case 0
  then show ?thesis using assms(2) unat_page_address [of p] by (simp add: obj_def low_frame_def)
next
  case (Suc j)
  have u: "unat (obj sz p j) = 0xC0000000 + 4096 * p + j * unat sz" "0xC0000000 + 4096 * p + j * unat sz + unat sz < 2 ^ 32"
    using unat_obj [of j n sz k p] assms Suc by simp_all
  then have "unat (obj sz p j + sz) = unat (obj sz p j) + unat sz" by (intro unat_add_no_wrap) simp
  then show ?thesis using u Suc by (simp add: obj_Suc)
qed

lemma obj_word_bytes:
  assumes "n * unat sz \<le> 4096 * 2 ^ k" "low_frame p k" "unat off + 4 \<le> unat sz" "j < n" "a \<notin> bytes_of p k"
  shows "write_word m (obj sz p j + off) v a = m a"
proof (rule write_word_outside, rule ccontr)
  let ?w = "obj sz p j + off"
  assume "\<not> 4 \<le> unat (a - ?w)"
  then have s: "unat (a - ?w) < 4" by simp
  note u = unat_obj [OF assms(4,1,2)] word_in_object [OF assms(4,1,2,3)]
  have "unat (?w + (a - ?w)) = unat ?w + unat (a - ?w)" by (rule unat_add_no_wrap) (use u s assms(3) in simp)
  then have "unat a = unat ?w + unat (a - ?w)" by simp
  then have "a \<in> bytes_of p k" using u s assms(3) by (simp add: bytes_of_def)
  then show False using assms(5) by simp
qed

lemma link_objects_run:
  assumes d: "n * unat (kc_size d) \<le> 4096 * 2 ^ k" "low_frame p k" "unat (offset d) + 4 \<le> unat (kc_size d)" and c: "ctor d = None"
    and i: "0 < i" "i \<le> n" and ca: "sl_caches \<sigma> s = d"
  shows "\<exists>mem. link_objects s (obj (kc_size d) p n) (obj (kc_size d) p i) (obj (kc_size d) p (i - 1)) \<sigma> = Some (\<sigma>\<lparr>sl_mem := mem\<rparr>, obj (kc_size d) p (n - 1))
    \<and> fchain (write_word mem (obj (kc_size d) p (n - 1) + offset d) 0) (offset d) (obj (kc_size d) p (i - 1)) (obj_list (kc_size d) p (i - 1) n)
    \<and> (\<forall>j. j + 1 < i \<longrightarrow> read_word mem (obj (kc_size d) p j + offset d) = read_word (sl_mem \<sigma>) (obj (kc_size d) p j + offset d))
    \<and> (\<forall>a. a \<notin> bytes_of p k \<longrightarrow> mem a = sl_mem \<sigma> a)"
  using i ca
proof (induction "n - i" arbitrary: i \<sigma>)
  case 0
  then have i: "i = n" by simp
  have nz: "obj (kc_size d) p (n - 1) \<noteq> 0" using unat_obj [OF _ d(1,2), of "n - 1"] 0 i by (auto simp: word_eq_unat)
  have "[n - 1..<n] = [n - 1]" using 0 i by (cases n) auto
  then have "obj_list (kc_size d) p (n - 1) n = [obj (kc_size d) p (n - 1)]" by (simp add: obj_list_def)
  moreover have "link_objects s (obj (kc_size d) p n) (obj (kc_size d) p i) (obj (kc_size d) p (i - 1)) \<sigma> = Some (\<sigma>, obj (kc_size d) p (n - 1))"
    by (subst link_objects.simps) (simp add: i)
  ultimately show ?case using i nz by (intro exI [of _ "sl_mem \<sigma>"]) simp
next
  case (Suc m)
  let ?o = "obj (kc_size d) p"
  have i: "0 < i" "i < n" and m: "m = n - Suc i" using Suc by simp_all
  have pos: "0 < unat (kc_size d)" using d(3) by simp
  have lt: "?o i < ?o n"
    using obj_bound [OF d(1,2) _ pos, of i] obj_bound [OF d(1,2) _ pos, of n] i pos by (simp add: word_less_nat_alt)
  define \<sigma>1 where "\<sigma>1 = set_freepointer \<sigma> s (?o (i - 1)) (?o i)"
  have step: "link_objects s (?o n) (?o i) (?o (i - 1)) \<sigma> = link_objects s (?o n) (?o (Suc i)) (?o i) \<sigma>1"
    by (subst link_objects.simps) (simp add: lt Suc.prems(3) c setup_object_def \<sigma>1_def obj_Suc)
  obtain mem where mem: "link_objects s (?o n) (?o (Suc i)) (?o i) \<sigma>1 = Some (\<sigma>1\<lparr>sl_mem := mem\<rparr>, ?o (n - 1))"
    "fchain (write_word mem (?o (n - 1) + offset d) 0) (offset d) (?o i) (obj_list (kc_size d) p i n)"
    "\<And>j. j < i \<Longrightarrow> read_word mem (?o j + offset d) = read_word (sl_mem \<sigma>1) (?o j + offset d)"
    "\<And>a. a \<notin> bytes_of p k \<Longrightarrow> mem a = sl_mem \<sigma>1 a"
    using Suc.hyps(1) [OF m, of \<sigma>1] i Suc.prems(3) by (auto simp: \<sigma>1_def)
  have w: "sl_mem \<sigma>1 = write_word (sl_mem \<sigma>) (?o (i - 1) + offset d) (?o i)" by (simp add: \<sigma>1_def Suc.prems(3))
  have ap: "apart (?o a + offset d) (?o b + offset d)" if "a < n" "b < n" "a \<noteq> b" for a b
    by (rule objects_apart(1) [OF that(1) d that(2) d]) (use that in auto)
  have "read_word (write_word mem (?o (n - 1) + offset d) 0) (?o (i - 1) + offset d) = ?o i"
    using ap [of "n - 1" "i - 1"] mem(3) [of "i - 1"] i by (simp add: read_write_apart w)
  moreover have "obj_list (kc_size d) p (i - 1) n = ?o (i - 1) # obj_list (kc_size d) p i n"
    using i upt_conv_Cons [of "i - 1" n] by (simp add: obj_list_def)
  moreover have "?o (i - 1) \<noteq> 0" using unat_obj [OF _ d(1,2), of "i - 1"] i by (auto simp: word_eq_unat)
  ultimately have ch: "fchain (write_word mem (?o (n - 1) + offset d) 0) (offset d) (?o (i - 1)) (obj_list (kc_size d) p (i - 1) n)"
    using mem(2) by simp
  have "read_word mem (?o j + offset d) = read_word (sl_mem \<sigma>) (?o j + offset d)" if "j + 1 < i" for j
    using mem(3) [of j] that ap [of "i - 1" j] i by (simp add: w read_write_apart)
  moreover have "mem a = sl_mem \<sigma> a" if "a \<notin> bytes_of p k" for a
    using mem(4) [OF that] obj_word_bytes [OF d _ that, of "i - 1"] i by (simp add: w)
  moreover have "\<sigma>1\<lparr>sl_mem := mem\<rparr> = \<sigma>\<lparr>sl_mem := mem\<rparr>" by (simp add: \<sigma>1_def set_freepointer_def)
  ultimately show ?case using step mem(1) ch by (intro exI [of _ mem]) simp
qed

end
