(* ===== verification/Slub_Alloc.thy ===== *)
theory Slub_Alloc
  imports Slub_Inv
begin

text \<open>
  Allocating and freeing objects in the slab allocator of \<^verbatim>\<open>mm/slub.c\<close> (theory \<open>Slub\<close>): the
  specification of every step of the allocation and of the release of an object, over the invariant
  of theory \<open>Slub_Inv\<close>.
\<close>

unbundle bit_operations_syntax

section \<open>Blocks for new slabs\<close>

lemma owned_low: "source_inv m \<Longrightarrow> owned_block m p k \<Longrightarrow> low_frame p k"
proof -
  assume inv: "source_inv m" and "owned_block m p k"
  then obtain i where i: "i < MAX_NR_ZONES" "held (mm_zones m i) p k" by (auto simp: owned_block_def)
  have "p \<le> p + (2 ^ k - 1)" "p + (2 ^ k - 1) < p + 2 ^ k" by (rule le_add1) simp
  then have "p + (2 ^ k - 1) \<in> blk p k" by (simp only: blk_def atLeastLessThan_iff)
  then have "p + (2 ^ k - 1) < 2 ^ 18 - 1" using inv i unfolding source_inv_def held_def by blast
  then show ?thesis by (simp add: low_frame_def)
qed

lemma and_parts: "x AND (a OR b) = 0 \<longleftrightarrow> x AND a = 0 \<and> x AND (b :: ulong) = 0"
  by (simp add: bit.conj_disj_distrib or_eq_0_iff)

lemma slab_request:
  assumes f: "f AND (GFP_ZERO OR GFP_MOVABLE) = 0" and a: "a AND (GFP_ZERO OR GFP_MOVABLE) = 0"
  shows "plain_request (f AND m OR a)" "plain_request (((f AND m OR a) OR GFP_NOWARN OR GFP_NORETRY) AND NOT GFP_NOFAIL)"
proof -
  have m: "(f AND m) AND (GFP_ZERO OR GFP_MOVABLE) = 0" using f by (metis and.commute and.left_commute and_zero_eq)
  then have b: "(f AND m OR a) AND (GFP_ZERO OR GFP_MOVABLE) = 0" using a by (simp add: bit.conj_disj_distrib2)
  then have "((f AND m OR a) OR GFP_NOWARN OR GFP_NORETRY) AND (GFP_ZERO OR GFP_MOVABLE) = 0"
    using m a by (simp add: bit.conj_disj_distrib2 GFP_NOWARN_def GFP_NORETRY_def GFP_ZERO_def GFP_MOVABLE_def)
  then have "(((f AND m OR a) OR GFP_NOWARN OR GFP_NORETRY) AND NOT GFP_NOFAIL) AND (GFP_ZERO OR GFP_MOVABLE) = 0"
    by (metis and.assoc and.commute and_zero_eq)
  then show "plain_request (f AND m OR a)" "plain_request (((f AND m OR a) OR GFP_NOWARN OR GFP_NORETRY) AND NOT GFP_NOFAIL)"
    using b unfolding and_parts plain_request_def by simp_all
qed

lemma comp_request: "a AND GFP_COMP \<noteq> 0 \<Longrightarrow> (x OR a) AND GFP_COMP \<noteq> 0"
  "a AND GFP_COMP \<noteq> 0 \<Longrightarrow> (((x OR a) OR GFP_NOWARN OR GFP_NORETRY) AND NOT GFP_NOFAIL) AND GFP_COMP \<noteq> 0"
  unfolding comp_bit and.assoc [symmetric] by (auto simp: bit_and_iff bit_or_iff bit_not_iff GFP_NOFAIL_def)

text \<open>A block from the page allocator, in the larger or in the smaller order of the cache.\<close>

definition fresh_block :: "mm \<Rightarrow> mm \<Rightarrow> nat \<Rightarrow> nat \<Rightarrow> bool" where
  "fresh_block m m' p k \<longleftrightarrow> source_inv m' \<and> clean_block m' p k \<and> owned_block m' p k \<and> compound_block (mm_map m') p k
     \<and> (\<forall>q j. owned_block m q j \<longrightarrow> owned_block m' q j \<and> blk q j \<inter> blk p k = {} \<and> (\<forall>x\<in>blk q j. mm_map m' x = mm_map m x))"

lemma allocate_slab_run:
  assumes inv: "source_inv (sl_mm \<sigma>)" and d: "descr_ok (sl_caches \<sigma> s)" and fl: "flags AND (GFP_ZERO OR GFP_MOVABLE) = 0"
  obtains b where "allocate_slab \<sigma> s flags node = Some (\<sigma>\<lparr>sl_irqs := b\<rparr>, None)"
      "uu_alloc_pages_nodemask (sl_mm \<sigma>) (flags AND mm_gfp_allowed (sl_mm \<sigma>) OR allocflags (sl_caches \<sigma> s)) (oo_order (kc_min (sl_caches \<sigma> s))) = Some (sl_mm \<sigma>, None)"
  | m' p oo b v where "fresh_block (sl_mm \<sigma>) m' p (oo_order oo)" "geometry_ok (kc_size (sl_caches \<sigma> s)) oo"
      "allocate_slab \<sigma> s flags node = Some (\<sigma>\<lparr>sl_irqs := b, sl_mm := upd_page m' p (\<lambda>q. q\<lparr>pg_mapcount := set_objects (pg_mapcount q) (oo_objects oo)\<rparr>),
        sl_slab_pages := v\<rparr>, Some p)"
proof -
  let ?d = "sl_caches \<sigma> s"
  define w where "w = flags AND mm_gfp_allowed (sl_mm \<sigma>)"
  define a where "a = ((w OR allocflags ?d) OR GFP_NOWARN OR GFP_NORETRY) AND NOT GFP_NOFAIL"
  have c: "geometry_ok (kc_size ?d) (kc_oo ?d)" "geometry_ok (kc_size ?d) (kc_min ?d)" "oo_order (kc_min ?d) \<le> oo_order (kc_oo ?d)"
    "oo_order (kc_oo ?d) \<noteq> 0 \<Longrightarrow> allocflags ?d AND GFP_COMP \<noteq> 0" "allocflags ?d AND (GFP_ZERO OR GFP_MOVABLE) = 0"
    using d by (simp_all add: descr_ok_def cache_ok_def)
  note pl = slab_request [OF fl c(5), of "mm_gfp_allowed (sl_mm \<sigma>)", folded w_def, folded a_def]
  have cl: "oo_order (kc_oo ?d) = 0 \<or> a AND GFP_COMP \<noteq> 0" "oo_order (kc_min ?d) = 0 \<or> (w OR allocflags ?d) AND GFP_COMP \<noteq> 0"
    using c(3,4) comp_request [of "allocflags ?d" w] unfolding a_def by auto
  define b where "b = (if (w OR allocflags ?d) AND GFP_WAIT \<noteq> 0 then False else if w AND GFP_WAIT \<noteq> 0 then True else sl_irqs \<sigma>)"
  have irq: "(if (w OR allocflags ?d) AND GFP_WAIT \<noteq> 0 then local_irq_disable ((if w AND GFP_WAIT \<noteq> 0 then local_irq_enable \<sigma> else \<sigma>)\<lparr>sl_mm := m\<rparr>)
      else (if w AND GFP_WAIT \<noteq> 0 then local_irq_enable \<sigma> else \<sigma>)\<lparr>sl_mm := m\<rparr>) = \<sigma>\<lparr>sl_mm := m, sl_irqs := b\<rparr>" for m
    unfolding b_def by (simp add: local_irq_enable_def local_irq_disable_def)
  have mm: "sl_mm (if Y then local_irq_enable \<sigma> else \<sigma>) = sl_mm \<sigma>" for Y by (simp add: local_irq_enable_def)
  note D = allocate_slab_def alloc_slab_page_def Let_def GFP_NOTRACK_def w_def [symmetric] a_def [symmetric]
  from ps.fallback [OF inv pl(2,1) cl] show thesis
  proof cases
    case (1 m')
    then show thesis using that(1) by (simp add: D mm irq del: if_split)
  next
    case (2 m' p)
    have "\<exists>v. allocate_slab \<sigma> s flags node = Some (\<sigma>\<lparr>sl_irqs := b, sl_mm := upd_page m' p (\<lambda>q. q\<lparr>pg_mapcount := set_objects (pg_mapcount q) (oo_objects (kc_oo ?d))\<rparr>),
        sl_slab_pages := v\<rparr>, Some p)"
      by (simp add: D mm irq 2(1) set_pg_def mod_slab_page_state_def del: if_split) (rule exI, rule refl)
    moreover have "fresh_block (sl_mm \<sigma>) m' p (oo_order (kc_oo ?d))" unfolding fresh_block_def using 2 by blast
    ultimately show thesis using that(2) c(1) by blast
  next
    case (3 m' p)
    have "\<exists>v. allocate_slab \<sigma> s flags node = Some (\<sigma>\<lparr>sl_irqs := b, sl_mm := upd_page m' p (\<lambda>q. q\<lparr>pg_mapcount := set_objects (pg_mapcount q) (oo_objects (kc_min ?d))\<rparr>),
        sl_slab_pages := v\<rparr>, Some p)"
      by (simp add: D mm irq 3(1,2) set_pg_def mod_slab_page_state_def del: if_split) (rule exI, rule refl)
    moreover have "fresh_block (sl_mm \<sigma>) m' p (oo_order (kc_min ?d))" unfolding fresh_block_def using 3 by blast
    ultimately show thesis using that(2) c(2) by blast
  qed
qed

text \<open>The page frame of a new slab; and the request for the smallest block of a cache, which the page
  allocator may refuse.\<close>

definition slab_page :: "ulong \<Rightarrow> ulong \<Rightarrow> u32 \<Rightarrow> page \<Rightarrow> page" where
  "slab_page s fh c q = q\<lparr>pg_private := s, pg_flags := pg_flags q OR push_bit PG_slab 1, pg_freelist := fh, pg_mapcount := c\<rparr>"

definition refused :: "slub \<Rightarrow> ulong \<Rightarrow> ulong \<Rightarrow> bool" where
  "refused \<sigma> s gf \<longleftrightarrow> uu_alloc_pages_nodemask (sl_mm \<sigma>)
     ((gf AND (GFP_RECLAIM_MASK OR GFP_CONSTRAINT_MASK)) AND mm_gfp_allowed (sl_mm \<sigma>) OR allocflags (sl_caches \<sigma> s))
     (oo_order (kc_min (sl_caches \<sigma> s))) = Some (sl_mm \<sigma>, None)"

lemma new_slab_run:
  assumes inv: "source_inv (sl_mm \<sigma>)" and d: "descr_ok (sl_caches \<sigma> s)"
  defines "sz \<equiv> kc_size (sl_caches \<sigma> s)"
  obtains b where "new_slab \<sigma> s flags node = Some (\<sigma>\<lparr>sl_irqs := b\<rparr>, None)" "refused \<sigma> s flags"
  | m' p oo mem c b v where "fresh_block (sl_mm \<sigma>) m' p (oo_order oo)" "geometry_ok sz oo"
      "new_slab \<sigma> s flags node = Some (\<sigma>\<lparr>sl_irqs := b, sl_mm := upd_page m' p (slab_page s (page_address p) c), sl_mem := mem, sl_slab_pages := v\<rparr>, Some p)"
      "objects c = oo_objects oo" "inuse c = 0" "frozen c"
      "fchain mem (offset (sl_caches \<sigma> s)) (page_address p) (obj_list sz p 0 (unat (oo_objects oo)))"
      "\<And>a. a \<notin> bytes_of p (oo_order oo) \<Longrightarrow> mem a = sl_mem \<sigma> a"
proof -
  let ?d = "sl_caches \<sigma> s"
  let ?fl = "flags AND (GFP_RECLAIM_MASK OR GFP_CONSTRAINT_MASK)"
  have "(GFP_RECLAIM_MASK OR GFP_CONSTRAINT_MASK) AND (GFP_ZERO OR GFP_MOVABLE) = 0" by code_simp
  then have "?fl AND (GFP_ZERO OR GFP_MOVABLE) = 0" by (simp add: and.assoc)
  from inv d this show thesis
  proof (cases rule: allocate_slab_run [where node = node])
    case (1 b)
    then show thesis using that(1) by (simp add: new_slab_def refused_def)
  next
    case (2 m' p oo b v)
    define n where "n = unat (oo_objects oo)"
    define c0 where "c0 = set_objects (pg_mapcount (mm_map m' p)) (oo_objects oo)"
    define c where "c = set_frozen (set_inuse c0 0) True"
    define \<sigma>1 where "\<sigma>1 = \<sigma>\<lparr>sl_irqs := b, sl_mm := upd_page m' p (\<lambda>q. q\<lparr>pg_mapcount := c0, pg_private := s, pg_flags := pg_flags q OR push_bit PG_slab 1\<rparr>), sl_slab_pages := v\<rparr>"
    have g: "0 < n" "n < 0x7FFF" "n * unat sz \<le> 4096 * 2 ^ oo_order oo" using 2(2) by (simp_all add: geometry_ok_def n_def sz_def)
    have low: "low_frame p (oo_order oo)" using 2(1) owned_low by (auto simp: fresh_block_def)
    note off = descr_off [OF d, folded sz_def]
    have ob: "objects c0 = oo_objects oo"
    proof -
      have "unat (take_bit 15 (oo_objects oo)) = unat (oo_objects oo)" using g(2) by (simp add: n_def unsigned_take_bit_eq take_bit_nat_eq_self)
      then show ?thesis by (simp add: c0_def word_eq_unat)
    qed
    have ct: "ctor ?d = None" and po: "kc_flags ?d AND SLAB_POISON = 0" using d by (simp_all add: descr_ok_def)
    have s1: "set_pg (\<sigma>\<lparr>sl_irqs := b, sl_mm := upd_page m' p (\<lambda>q. q\<lparr>pg_mapcount := set_objects (pg_mapcount q) (oo_objects oo)\<rparr>), sl_slab_pages := v\<rparr>) p
        (\<lambda>q. q\<lparr>pg_private := s, pg_flags := pg_flags q OR push_bit PG_slab 1\<rparr>) = \<sigma>1"
      by (simp add: set_pg_def upd_page_def \<sigma>1_def c0_def)
    have fin: "obj sz p 0 + objects (pg_mapcount (pg \<sigma>1 p)) * sz = obj sz p n" "page_address p = obj sz p 0"
      by (simp_all add: obj_def pg_def \<sigma>1_def upd_page_def ob n_def)
    have st: "obj sz p 0 < obj sz p n" using obj_bound [OF g(3) low, of 0] obj_bound [OF g(3) low, of n] off g(1) by (simp add: word_less_nat_alt)
    define \<sigma>2 where "\<sigma>2 = set_freepointer \<sigma>1 s (obj sz p 0) (obj sz p 0)"
    have ca: "sl_caches \<sigma>1 = sl_caches \<sigma>" by (simp add: \<sigma>1_def)
    have lo: "link_objects s (obj sz p n) (obj sz p 0) (obj sz p 0) \<sigma>1 = link_objects s (obj sz p n) (obj sz p 1) (obj sz p 0) \<sigma>2"
      by (subst link_objects.simps) (simp add: st ca ct setup_object_def \<sigma>2_def obj_Suc sz_def [symmetric])
    obtain mem where mem: "link_objects s (obj sz p n) (obj sz p 1) (obj sz p 0) \<sigma>2 = Some (\<sigma>2\<lparr>sl_mem := mem\<rparr>, obj sz p (n - 1))"
      "fchain (write_word mem (obj sz p (n - 1) + offset ?d) 0) (offset ?d) (obj sz p 0) (obj_list sz p 0 n)"
      "\<And>a. a \<notin> bytes_of p (oo_order oo) \<Longrightarrow> mem a = sl_mem \<sigma>2 a"
      using link_objects_run [OF g(3)[unfolded sz_def] low off[unfolded sz_def] ct, of 1 \<sigma>2 s] g(1) by (auto simp: sz_def \<sigma>2_def ca)
    define mem' where "mem' = write_word mem (obj sz p (n - 1) + offset ?d) 0"
    have "mem' a = sl_mem \<sigma> a" if "a \<notin> bytes_of p (oo_order oo)" for a
      using mem(3) [OF that] obj_word_bytes [OF g(3) low off _ that, of "n - 1"] obj_word_bytes [OF g(3) low off _ that, of 0] g(1)
      by (simp add: mem'_def \<sigma>2_def ca) (simp add: \<sigma>1_def)
    moreover have "new_slab \<sigma> s flags node = Some (\<sigma>\<lparr>sl_irqs := b, sl_mm := upd_page m' p (slab_page s (page_address p) c), sl_mem := mem', sl_slab_pages := v\<rparr>, Some p)"
    proof -
      have e: "set_pg (set_freepointer (\<sigma>2\<lparr>sl_mem := mem\<rparr>) s (obj sz p (n - 1)) 0) p (\<lambda>q. q\<lparr>pg_freelist := page_address p, pg_mapcount := set_frozen (set_inuse (pg_mapcount q) 0) True\<rparr>)
          = \<sigma>\<lparr>sl_irqs := b, sl_mm := upd_page m' p (slab_page s (page_address p) c), sl_mem := mem', sl_slab_pages := v\<rparr>"
        by (simp add: set_pg_def set_freepointer_def \<sigma>2_def \<sigma>1_def upd_page_def slab_page_def mem'_def c_def)
      have "setup_object (\<sigma>2\<lparr>sl_mem := mem\<rparr>) s x = \<sigma>2\<lparr>sl_mem := mem\<rparr>" for x
        using ct by (simp add: setup_object_def \<sigma>2_def ca)
      then show ?thesis
        using lo mem(1) e po
        by (simp only: new_slab_def 2(3) bind.simps prod.case option.case Let_def s1) (simp add: fin ca sz_def [symmetric])
    qed
    moreover have "objects c = oo_objects oo" "inuse c = 0" "frozen c" using ob by (simp_all add: c_def)
    ultimately show thesis using that(2) 2(1,2) mem(2) by (simp add: mem'_def fin n_def sz_def)
  qed
qed

lemma slab_bit: "f OR push_bit PG_slab 1 = set_bit PG_slab (f :: ulong)"
  by (simp only: set_bit_eq_or)

lemma slab_flags:
  assumes "f AND PAGE_FLAGS_CHECK_AT_FREE = 0"
  shows "unset_bit PG_slab (f OR push_bit PG_slab 1) = f"
proof -
  have "bit PAGE_FLAGS_CHECK_AT_FREE PG_slab" by code_simp
  then have "\<not> bit f PG_slab" using assms by (metis bit_and_iff bit_0_eq bot_apply bot_bool_def)
  then show ?thesis unfolding slab_bit by (intro bit_word_eqI) (auto simp: bit_unset_bit_iff bit_set_bit_iff)
qed

lemma slab_page_frames:
  assumes f: "fresh_block m m' p k" and g: "sb_cache g = s" "sb_order g = k" "sb_objects g < 0x7FFF" and c: "unat (objects c) = sb_objects g"
  shows "frames_ok (upd_page m' p (slab_page s fh c)) p g" "source_inv (upd_page m' p (slab_page s fh c))"
    "owned_block (upd_page m' p (slab_page s fh c)) = owned_block m'"
proof -
  let ?m = "upd_page m' p (slab_page s fh c)"
  have F: "source_inv m'" "clean_block m' p k" "owned_block m' p k" "compound_block (mm_map m') p k" using f by (simp_all add: fresh_block_def)
  obtain i where i: "in_use_block m' i p k" using F(2) by (auto simp: clean_block_def)
  have pk: "p \<in> blk p k" by (rule blk_nonempty)
  have fl: "bit (pg_flags (slab_page s fh c q)) j \<longleftrightarrow> j = PG_slab \<or> bit (pg_flags q) j" for q j
    unfolding slab_page_def slab_bit by (auto simp: bit_set_bit_iff PG_slab_def)
  have zid: "page_zone_id (slab_page s fh c q) = page_zone_id q" for q
  proof -
    have "drop_bit ZONES_PGSHIFT (pg_flags (slab_page s fh c q)) AND ZONES_MASK = drop_bit ZONES_PGSHIFT (pg_flags q) AND ZONES_MASK"
      by (rule bit_word_eqI) (auto simp: bit_and_iff bit_drop_bit_eq fl PG_slab_def ZONES_PGSHIFT_def)
    then show ?thesis by (simp add: page_zone_id_def)
  qed
  have nb: "\<not> PageBuddy (slab_page s fh c (mm_map m' p))" by (rule counters_not_buddy) (use g(3) c in \<open>simp add: slab_page_def\<close>)
  have nb': "\<not> PageBuddy (mm_map m' x)" if "x \<in> blk p k" for x
    using i that by (simp add: in_use_block_def PageBuddy_def PAGE_BUDDY_MAPCOUNT_VALUE_def)
  note ou = owner_upd [OF F(1,3) pk, of "slab_page s fh c", OF zid nb nb']
  show "source_inv ?m" by (rule ou(1))
  show "owned_block ?m = owned_block m'" by (rule ou(2))
  have flag: "PageHead (slab_page s fh c q) = PageHead q" "PageTail (slab_page s fh c q) = PageTail q" for q
    by (simp_all add: PageHead_def PageTail_def test_page_flag_def fl pageflags)
  have "in_use_block (unslab ?m p) i p k"
    using i slab_flags by (auto simp: in_use_block_def unslab_def upd_page_def reset_page_mapcount_def clear_page_flag_def slab_page_def)
  moreover have "compound_block (mm_map ?m) p k"
  proof -
    have "compound_order (mm_map ?m) p = compound_order (mm_map m') p" by (simp add: compound_order_def upd_page_def flag)
    moreover have "compound_head (mm_map ?m) q = compound_head (mm_map m') q" for q
      using F(4) by (simp add: compound_head_def upd_page_def flag compound_block_def)
    ultimately show ?thesis using F(4) by (simp add: compound_block_def upd_page_def flag)
  qed
  moreover have "PageSlab (mm_map ?m p)" "pg_private (mm_map ?m p) = s"
    by (simp_all add: upd_page_def PageSlab_def test_page_flag_def fl) (simp add: slab_page_def)
  ultimately show "frames_ok ?m p g" using F(3) ou(2) g by (auto simp: frames_ok_def clean_block_def)
qed

text \<open>A new slab becomes the slab of the processor, with all its objects free.\<close>

lemma install_inv:
  assumes inv: "slub_inv K \<sigma> G" and s: "s \<in> K" and none: "c_page (cpu_of \<sigma> s) = None"
    and f: "fresh_block (sl_mm \<sigma>) m' p (oo_order oo)" and geo: "geometry_ok (kc_size (sl_caches \<sigma> s)) oo"
    and mm: "sl_mm \<sigma>' = upd_page m' p (slab_page s 0 c)" and c: "objects c = oo_objects oo" "inuse c = oo_objects oo" "frozen c"
    and ch: "fchain (sl_mem \<sigma>') (offset (sl_caches \<sigma> s)) (page_address p) (obj_list (kc_size (sl_caches \<sigma> s)) p 0 (unat (oo_objects oo)))"
    and mem: "\<And>a. a \<notin> bytes_of p (oo_order oo) \<Longrightarrow> sl_mem \<sigma>' a = sl_mem \<sigma> a"
    and ca: "sl_caches \<sigma>' = sl_caches \<sigma>" and nodes: "sl_nodes \<sigma>' = sl_nodes \<sigma>"
    and cpus: "\<And>a. a \<noteq> cpu_slab (sl_caches \<sigma> s) \<Longrightarrow> sl_cpus \<sigma>' a = sl_cpus \<sigma> a"
    and cpu: "c_page (cpu_of \<sigma>' s) = Some p" "c_freelist (cpu_of \<sigma>' s) = page_address p"
  shows "\<exists>G'. slub_inv K \<sigma>' G' \<and> live \<sigma>' G' = live \<sigma> G"
proof -
  let ?d = "sl_caches \<sigma> s" and ?k = "oo_order oo" and ?n = "unat (oo_objects oo)"
  define xs where "xs = obj_list (kc_size ?d) p 0 ?n"
  define g where "g = \<lparr>sb_cache = s, sb_order = ?k, sb_objects = ?n, sb_free = [], sb_cpu = xs\<rparr>"
  have g: "sb_cache g = s" "sb_order g = ?k" "sb_objects g = ?n" "sb_free g = []" "sb_cpu g = xs" by (simp_all add: g_def)
  have geo': "0 < ?n" "?n < 0x7FFF" "?n * unat (kc_size ?d) \<le> 4096 * 2 ^ ?k" using geo by (simp_all add: geometry_ok_def)
  have low: "low_frame p ?k" using f owned_low by (auto simp: fresh_block_def)
  have dk: "descr_ok ?d" using slub_invD(2) [OF inv] s by (simp add: caches_ok_def)
  note off = descr_off [OF dk]
  have "unat (objects c) = sb_objects g" "sb_objects g < 0x7FFF" using c(1) geo' g by simp_all
  note fr = slab_page_frames [OF f g(1,2) this(2,1), of 0, folded mm]
  have old: "owned_block (sl_mm \<sigma>') q (sb_order h) \<and> blk q (sb_order h) \<inter> blk p ?k = {}
      \<and> (\<forall>x\<in>blk q (sb_order h). mm_map (sl_mm \<sigma>') x = mm_map (sl_mm \<sigma>) x)" if q: "G q = Some h" for q h
  proof -
    have "owned_block (sl_mm \<sigma>) q (sb_order h)" using slab_okD(2) [OF slub_invD(5) [OF inv q]] by (simp add: frames_ok_def)
    then have o: "owned_block m' q (sb_order h)" "blk q (sb_order h) \<inter> blk p ?k = {}" "\<forall>x\<in>blk q (sb_order h). mm_map m' x = mm_map (sl_mm \<sigma>) x"
      using f by (auto simp: fresh_block_def)
    then have "p \<notin> blk q (sb_order h)" using blk_nonempty(2) [of p ?k] by blast
    then show ?thesis using o fr(3) by (auto simp: mm upd_page_def)
  qed
  have fresh: "G p = None"
  proof (cases "G p")
    case (Some h)
    then show ?thesis using old [of p h] blk_nonempty(2) by blast
  qed
  have cv: "cpu_view \<sigma>' s q = (if q = p then Some (page_address p) else None)" "cpu_view \<sigma> s q = None" for q
    using cpu none by (simp_all add: cpu_view_def)
  have nd: "node_of \<sigma>' t = node_of \<sigma> t" for t by (simp add: node_of_def ca nodes)
  have np: "p \<notin> set (partial (node_of \<sigma> s))" using slub_invD(3) [OF inv s] fresh by (auto simp: cache_inv_def)
  have set: "set xs = objs (kc_size ?d) p ?n" by (auto simp: xs_def obj_list_def objs_def)
  have inj: "inj_on (obj (kc_size ?d) p) {0..<?n}"
  proof (rule inj_onI)
    fix i j assume "i \<in> {0..<?n}" "j \<in> {0..<?n}" "obj (kc_size ?d) p i = obj (kc_size ?d) p j"
    then have "i * unat (kc_size ?d) = j * unat (kc_size ?d)"
      using unat_obj(1) [OF _ geo'(3) low, of i] unat_obj(1) [OF _ geo'(3) low, of j] by (metis add_left_cancel atLeastLessThan_iff)
    moreover have "unat (kc_size ?d) \<noteq> 0" using off by linarith
    ultimately show "i = j" by simp
  qed
  have "distinct xs" using inj by (simp add: xs_def obj_list_def distinct_map)
  then have ok: "slab_ok \<sigma>' p g"
    unfolding slab_ok_def slab_view_def g ca nd cv
    using fr(1) geo' low set ch c np
    by (simp add: room_ok_def g lists_ok_def counts_ok_def xs_def [symmetric] mm upd_page_def slab_page_def)
  have "slub_inv K \<sigma>' (G(p \<mapsto> g))"
  proof (rule inv_step [OF inv s, where p = p and k = ?k])
    show "source_inv (sl_mm \<sigma>')" by (rule fr(2))
    show "cache_inv \<sigma>' (G(p \<mapsto> g)) s" using slub_invD(3) [OF inv s] cpu nd g np by (auto simp: cache_inv_def)
    show "cpu_view \<sigma>' s q = cpu_view \<sigma> s q \<and> (q \<in> set (partial (node_of \<sigma>' s))) = (q \<in> set (partial (node_of \<sigma> s)))" if "q \<noteq> p" for q
      using that cv nd by simp
    show "sb_cache h = s \<and> sb_order h = ?k \<and> slab_ok \<sigma>' p h" if "(G(p \<mapsto> g)) p = Some h" for h using that ok g by simp
  qed (use old mem ca cpus nodes fresh in simp_all)
  moreover have "live \<sigma>' (G(p \<mapsto> g)) = live \<sigma> G"
  proof -
    have "slab_live \<sigma> p g = {}" using set g by (auto simp: slab_live_def)
    moreover have "G(p := None) = G" using fresh by (simp add: fun_upd_idem)
    ultimately show ?thesis using live_same [OF ca, of "G(p \<mapsto> g)"] by (simp add: live_upd)
  qed
  ultimately show ?thesis by blast
qed

section \<open>The memory of the users\<close>

definition obj_range :: "slub \<Rightarrow> ulong \<Rightarrow> ulong \<Rightarrow> ulong set" where
  "obj_range \<sigma> s x = {a. unat x \<le> unat a \<and> unat a < unat x + unat (kc_size (sl_caches \<sigma> s))}"

definition user_bytes :: "slub \<Rightarrow> (nat \<rightharpoonup> slab) \<Rightarrow> ulong set" where
  "user_bytes \<sigma> G = {a. \<exists>s x. (s, x) \<in> live \<sigma> G \<and> a \<in> obj_range \<sigma> s x}"

lemma objsE:
  assumes inv: "slub_inv K \<sigma> G" and g: "G p = Some g" and x: "x \<in> objs (kc_size (sl_caches \<sigma> (sb_cache g))) p (sb_objects g)"
  obtains i where "i < sb_objects g" "x = obj (kc_size (sl_caches \<sigma> (sb_cache g))) p i"
    "sb_objects g * unat (kc_size (sl_caches \<sigma> (sb_cache g))) \<le> 4096 * 2 ^ sb_order g" "low_frame p (sb_order g)"
    "unat (offset (sl_caches \<sigma> (sb_cache g))) + 4 \<le> unat (kc_size (sl_caches \<sigma> (sb_cache g)))"
  using x slab_okD(1) [OF slub_invD(5) [OF inv g]] descr_off [OF inv_descr [OF inv g]] that by (auto simp: objs_def room_ok_def)

lemma range_apart:
  assumes inv: "slub_inv K \<sigma> G" and g: "G p = Some g" "G q = Some h"
    and x: "x \<in> objs (kc_size (sl_caches \<sigma> (sb_cache g))) p (sb_objects g)" "y \<in> objs (kc_size (sl_caches \<sigma> (sb_cache h))) q (sb_objects h)" "x \<noteq> y"
  shows "obj_range \<sigma> (sb_cache g) x \<inter> obj_range \<sigma> (sb_cache h) y = {}"
proof -
  obtain i where i: "i < sb_objects g" "x = obj (kc_size (sl_caches \<sigma> (sb_cache g))) p i"
    "sb_objects g * unat (kc_size (sl_caches \<sigma> (sb_cache g))) \<le> 4096 * 2 ^ sb_order g" "low_frame p (sb_order g)"
    "unat (offset (sl_caches \<sigma> (sb_cache g))) + 4 \<le> unat (kc_size (sl_caches \<sigma> (sb_cache g)))" by (rule objsE [OF inv g(1) x(1)])
  obtain j where j: "j < sb_objects h" "y = obj (kc_size (sl_caches \<sigma> (sb_cache h))) q j"
    "sb_objects h * unat (kc_size (sl_caches \<sigma> (sb_cache h))) \<le> 4096 * 2 ^ sb_order h" "low_frame q (sb_order h)"
    "unat (offset (sl_caches \<sigma> (sb_cache h))) + 4 \<le> unat (kc_size (sl_caches \<sigma> (sb_cache h)))" by (rule objsE [OF inv g(2) x(2)])
  have "blk p (sb_order g) \<inter> blk q (sb_order h) = {} \<or> p = q \<and> kc_size (sl_caches \<sigma> (sb_cache g)) = kc_size (sl_caches \<sigma> (sb_cache h)) \<and> i \<noteq> j"
    using slub_invD(6) [OF inv g] g x(3) i(2) j(2) by (cases "p = q") auto
  from objects_apart(2) [OF i(1,3,4,5) j(1,3,4,5) this] show ?thesis by (auto simp: obj_range_def i(2) j(2))
qed

lemma range_bytes:
  assumes inv: "slub_inv K \<sigma> G" and g: "G p = Some g" and x: "x \<in> objs (kc_size (sl_caches \<sigma> (sb_cache g))) p (sb_objects g)"
  shows "obj_range \<sigma> (sb_cache g) x \<subseteq> bytes_of p (sb_order g)"
proof -
  obtain i where i: "i < sb_objects g" "x = obj (kc_size (sl_caches \<sigma> (sb_cache g))) p i"
    "sb_objects g * unat (kc_size (sl_caches \<sigma> (sb_cache g))) \<le> 4096 * 2 ^ sb_order g" "low_frame p (sb_order g)"
    "unat (offset (sl_caches \<sigma> (sb_cache g))) + 4 \<le> unat (kc_size (sl_caches \<sigma> (sb_cache g)))" by (rule objsE [OF inv g x])
  show ?thesis using unat_obj [OF i(1,3,4)] by (auto simp: obj_range_def bytes_of_def i(2))
qed

text \<open>The word with the link of an object lies in its range.\<close>

lemma link_range:
  assumes inv: "slub_inv K \<sigma> G" and g: "G p = Some g" "sb_cache g = s" and x: "x \<in> objs (kc_size (sl_caches \<sigma> s)) p (sb_objects g)"
    and a: "unat (a - (x + offset (sl_caches \<sigma> s))) < 4"
  shows "a \<in> obj_range \<sigma> s x"
proof -
  let ?d = "sl_caches \<sigma> s"
  obtain i where i: "i < sb_objects g" "x = obj (kc_size ?d) p i"
    "sb_objects g * unat (kc_size ?d) \<le> 4096 * 2 ^ sb_order g" "low_frame p (sb_order g)" "unat (offset ?d) + 4 \<le> unat (kc_size ?d)"
    using objsE [OF inv g(1), of x] x g(2) by auto
  note u = unat_obj [OF i(1,3,4)] word_in_object [OF i(1,3,4,5)]
  have "unat ((x + offset ?d) + (a - (x + offset ?d))) = unat (x + offset ?d) + unat (a - (x + offset ?d))"
    by (rule unat_add_no_wrap) (use u a i(2,5) in simp)
  then have "unat a = unat x + unat (offset ?d) + unat (a - (x + offset ?d))" using u i(2) by simp
  then show ?thesis using a i(5) by (simp add: obj_range_def)
qed

lemma free_not_user:
  assumes inv: "slub_inv K \<sigma> G" and g: "G p = Some g" and x: "x \<in> set (sb_free g @ sb_cpu g)"
  shows "obj_range \<sigma> (sb_cache g) x \<inter> user_bytes \<sigma> G = {}"
proof -
  have o: "x \<in> objs (kc_size (sl_caches \<sigma> (sb_cache g))) p (sb_objects g)"
    using slab_okD(3) [OF slub_invD(5) [OF inv g]] x by (auto simp: lists_ok_def)
  have "obj_range \<sigma> (sb_cache g) x \<inter> obj_range \<sigma> t y = {}" if y: "(t, y) \<in> live \<sigma> G" for t y
  proof -
    obtain q h where q: "G q = Some h" "sb_cache h = t" "y \<in> objs (kc_size (sl_caches \<sigma> t)) q (sb_objects h)" "y \<notin> set (sb_free h @ sb_cpu h)"
      using y unfolding in_live by blast
    have "x \<noteq> y"
    proof
      assume "x = y"
      then have "p = q" using obj_unique [OF inv g q(1) o] q(2,3) by simp
      then show False using q(1,4) g x \<open>x = y\<close> by simp
    qed
    then show ?thesis using range_apart [OF inv g q(1) o] q(2,3) by simp
  qed
  then show ?thesis by (auto simp: user_bytes_def)
qed

text \<open>Distinct objects in use do not overlap, and the users' bytes lie in the slabs.\<close>

lemma live_apart:
  assumes inv: "slub_inv K \<sigma> G" and l: "(s, x) \<in> live \<sigma> G" "(t, y) \<in> live \<sigma> G" "(s, x) \<noteq> (t, y)"
  shows "obj_range \<sigma> s x \<inter> obj_range \<sigma> t y = {}"
proof -
  obtain p g q h where g: "G p = Some g" "sb_cache g = s" "x \<in> objs (kc_size (sl_caches \<sigma> s)) p (sb_objects g)"
    and h: "G q = Some h" "sb_cache h = t" "y \<in> objs (kc_size (sl_caches \<sigma> t)) q (sb_objects h)"
    using l(1,2) unfolding in_live by blast
  have "x \<noteq> y"
  proof
    assume "x = y"
    then have "p = q" using obj_unique [OF inv g(1) h(1), of x] g h by simp
    then show False using g h l(3) \<open>x = y\<close> by simp
  qed
  then show ?thesis using range_apart [OF inv g(1) h(1)] g(2,3) h(2,3) by simp
qed

lemma user_bytes_slab: "slub_inv K \<sigma> G \<Longrightarrow> a \<in> user_bytes \<sigma> G \<Longrightarrow> \<exists>p g. G p = Some g \<and> a \<in> bytes_of p (sb_order g)"
  unfolding user_bytes_def in_live using range_bytes by fast

text \<open>The users may write to their objects.\<close>

lemma user_write:
  assumes inv: "slub_inv K \<sigma> G" and m: "\<And>a. a \<notin> user_bytes \<sigma> G \<Longrightarrow> mem a = sl_mem \<sigma> a"
  shows "slub_inv K (\<sigma>\<lparr>sl_mem := mem\<rparr>) G"
proof -
  have ok: "slab_ok (\<sigma>\<lparr>sl_mem := mem\<rparr>) p g" if g: "G p = Some g" for p g
  proof -
    let ?d = "sl_caches \<sigma> (sb_cache g)"
    have ch: "fchain mem (offset ?d) a xs = fchain (sl_mem \<sigma>) (offset ?d) a xs" if sub: "set xs \<subseteq> set (sb_free g @ sb_cpu g)" for a xs
    proof (rule fchain_cong, rule read_word_cong)
      fix x j assume x: "x \<in> set xs" and j: "j \<in> {0, 1, 2, 3 :: ulong}"
      have f: "x \<in> set (sb_free g @ sb_cpu g)" using x sub by blast
      then have o: "x \<in> objs (kc_size ?d) p (sb_objects g)" using slab_okD(3) [OF slub_invD(5) [OF inv g]] by (auto simp: lists_ok_def)
      have "unat ((x + offset ?d + j) - (x + offset ?d)) < 4" using j by auto
      then have "x + offset ?d + j \<in> obj_range \<sigma> (sb_cache g) x" by (rule link_range [OF inv g refl o])
      then show "mem (x + offset ?d + j) = sl_mem \<sigma> (x + offset ?d + j)" using m free_not_user [OF inv g f] by blast
    qed
    have "slab_ok \<sigma> p g" by (rule slub_invD(5) [OF inv g])
    moreover have "cpu_view (\<sigma>\<lparr>sl_mem := mem\<rparr>) = cpu_view \<sigma>" "node_of (\<sigma>\<lparr>sl_mem := mem\<rparr>) = node_of \<sigma>"
      by (simp_all add: fun_eq_iff cpu_view_def cpu_of_def node_of_def)
    ultimately show ?thesis
      using ch [of "sb_free g"] ch [of "sb_cpu g"] by (simp add: slab_ok_def slab_view_def split: option.splits)
  qed
  have e: "caches_ok K (\<sigma>\<lparr>sl_mem := mem\<rparr>) = caches_ok K \<sigma>" "cache_inv (\<sigma>\<lparr>sl_mem := mem\<rparr>) G t = cache_inv \<sigma> G t" for t
    by (simp_all add: caches_ok_def cache_inv_def cpu_of_def node_of_def cong: option.case_cong)
  show ?thesis unfolding slub_inv_def e using inv ok unfolding slub_inv_def by simp
qed

section \<open>Finding the slab of an object\<close>

lemma virt_to_page_bytes:
  assumes x: "x \<in> bytes_of p k" and low: "low_frame p k"
  shows "virt_to_page x \<in> blk p k"
proof -
  have b: "0xC0000000 + 4096 * p \<le> unat x" "unat x < 0xC0000000 + 4096 * (p + 2 ^ k)" using x by (simp_all add: bytes_of_def)
  have "PAGE_OFFSET_VA \<le> x" using b by (simp add: word_le_nat_alt PAGE_OFFSET_VA_def)
  then have "unat (x - PAGE_OFFSET_VA) = unat x - 0xC0000000" by (simp add: unat_sub_le PAGE_OFFSET_VA_def)
  then have "virt_to_page x = (unat x - 0xC0000000) div 4096"
    by (simp add: virt_to_page_def PAGE_SHIFT_def unat_div drop_bit_eq_div)
  then show ?thesis using b by (auto simp: blk_def less_eq_div_iff_mult_less_eq div_less_iff_less_mult)
qed

lemma live_page:
  assumes inv: "slub_inv K \<sigma> G" and l: "(s, x) \<in> live \<sigma> G"
  obtains g where "G (virt_to_head_page \<sigma> x) = Some g" "sb_cache g = s" "x \<in> objs (kc_size (sl_caches \<sigma> s)) (virt_to_head_page \<sigma> x) (sb_objects g)"
    "x \<notin> set (sb_free g @ sb_cpu g)" "PageSlab (pg \<sigma> (virt_to_head_page \<sigma> x))" "pg_private (pg \<sigma> (virt_to_head_page \<sigma> x)) = s" "\<not> ZERO_OR_NULL_PTR x"
proof -
  obtain p g where g: "G p = Some g" "sb_cache g = s" "x \<in> objs (kc_size (sl_caches \<sigma> s)) p (sb_objects g)" "x \<notin> set (sb_free g @ sb_cpu g)"
    using l unfolding in_live by blast
  note D = slab_okD [OF slub_invD(5) [OF inv g(1)], unfolded g(2)]
  have b: "x \<in> bytes_of p (sb_order g)" using obj_bytes(1) [OF inv g(1)] g(2,3) by simp
  have "virt_to_page x \<in> blk p (sb_order g)" using D(1) by (intro virt_to_page_bytes [OF b]) (simp add: room_ok_def)
  then have p: "virt_to_head_page \<sigma> x = p" using D(2) by (simp add: virt_to_head_page_def frames_ok_def compound_block_def)
  have "\<not> ZERO_OR_NULL_PTR x" using b by (auto simp: bytes_of_def ZERO_OR_NULL_PTR_def ZERO_SIZE_PTR_def word_le_nat_alt)
  moreover have "PageSlab (pg \<sigma> p)" "pg_private (pg \<sigma> p) = s" using D(2) g(2) by (simp_all add: frames_ok_def pg_def)
  ultimately show thesis using that [unfolded p, OF g] by blast
qed

text \<open>The objects in the list of the processor belong to its slab.\<close>

lemma cpu_head:
  assumes inv: "slub_inv K \<sigma> G" and s: "s \<in> K" and p: "c_page (cpu_of \<sigma> s) = Some p" and x: "c_freelist (cpu_of \<sigma> s) = x" "x \<noteq> 0"
  shows "virt_to_head_page \<sigma> x = p"
proof -
  obtain g where g: "G p = Some g" "sb_cache g = s" "slab_ok \<sigma> p g" "fchain (sl_mem \<sigma>) (offset (sl_caches \<sigma> s)) x (sb_cpu g)"
    using cpu_slabE [OF inv s p] x(1) by blast
  note D = slab_okD [OF g(3), unfolded g(2)]
  have "x \<in> set (sb_cpu g)" using fchain_hd [OF g(4) x(2)] by (metis list.set_intros(1))
  then have "x \<in> objs (kc_size (sl_caches \<sigma> (sb_cache g))) p (sb_objects g)" using D(3) g(2) by (auto simp: lists_ok_def)
  then have "x \<in> bytes_of p (sb_order g)" by (rule obj_bytes(1) [OF inv g(1)])
  then have "virt_to_page x \<in> blk p (sb_order g)" using D(1) by (intro virt_to_page_bytes) (simp_all add: room_ok_def)
  then show ?thesis using D(2) by (simp add: virt_to_head_page_def frames_ok_def compound_block_def)
qed

section \<open>Allocation\<close>

text \<open>What an allocation promises: it returns an object that was not in use, and then this object and
  those in use before are in use; or the null pointer, when all objects of the cache are in use and the
  page allocator has no block left. The object comes from the slab of the processor. The contents of the objects in use do not change, and the lock
  count and the interrupt flag are what they were.\<close>

definition all_used :: "(nat \<rightharpoonup> slab) \<Rightarrow> ulong \<Rightarrow> bool" where
  "all_used G s \<longleftrightarrow> (\<forall>p g. G p = Some g \<and> sb_cache g = s \<longrightarrow> sb_free g @ sb_cpu g = [])"

definition alloc_ok :: "ulong set \<Rightarrow> slub \<Rightarrow> (nat \<rightharpoonup> slab) \<Rightarrow> ulong \<Rightarrow> ulong \<Rightarrow> bool \<Rightarrow> slub \<Rightarrow> ulong \<Rightarrow> bool" where
  "alloc_ok K \<sigma> G s gf flags \<sigma>' x \<longleftrightarrow> sl_caches \<sigma>' = sl_caches \<sigma> \<and> sl_preempt \<sigma>' = sl_preempt \<sigma> \<and> sl_irqs \<sigma>' = flags
     \<and> (\<forall>a\<in>user_bytes \<sigma> G. sl_mem \<sigma>' a = sl_mem \<sigma> a)
     \<and> (x \<noteq> 0 \<longrightarrow> c_page (cpu_of \<sigma>' s) = Some (virt_to_head_page \<sigma>' x))
     \<and> (\<exists>G'. slub_inv K \<sigma>' G' \<and> (if x = 0 then live \<sigma>' G' = live \<sigma> G \<and> all_used G s \<and> refused \<sigma>' s gf
          else (s, x) \<notin> live \<sigma> G \<and> live \<sigma>' G' = insert (s, x) (live \<sigma> G)))"

text \<open>Taking the first object of the processor's list, from a state that differs from the first one only in
  what the users do not see.\<close>

definition same_user :: "slub \<Rightarrow> (nat \<rightharpoonup> slab) \<Rightarrow> slub \<Rightarrow> (nat \<rightharpoonup> slab) \<Rightarrow> bool" where
  "same_user \<sigma> G \<sigma>' G' \<longleftrightarrow> sl_caches \<sigma>' = sl_caches \<sigma> \<and> sl_preempt \<sigma>' = sl_preempt \<sigma>
     \<and> (\<forall>a\<in>user_bytes \<sigma> G. sl_mem \<sigma>' a = sl_mem \<sigma> a) \<and> live \<sigma>' G' = live \<sigma> G"

lemma user_bytes_cong: "sl_caches \<sigma>' = sl_caches \<sigma> \<Longrightarrow> live \<sigma>' G' = live \<sigma> G \<Longrightarrow> user_bytes \<sigma>' G' = user_bytes \<sigma> G"
  by (simp add: user_bytes_def obj_range_def)

lemma same_user_trans: "same_user \<sigma> G \<sigma>1 G1 \<Longrightarrow> same_user \<sigma>1 G1 \<sigma>2 G2 \<Longrightarrow> same_user \<sigma> G \<sigma>2 G2"
  unfolding same_user_def using user_bytes_cong [of \<sigma>1 \<sigma> G1 G] by simp

lemma alloc_ok_trans:
  assumes "same_user \<sigma> G \<sigma>1 G1" "alloc_ok K \<sigma>1 G1 s gf flags \<sigma>' x" "x = 0 \<Longrightarrow> all_used G1 s \<Longrightarrow> all_used G s"
  shows "alloc_ok K \<sigma> G s gf flags \<sigma>' x"
  using assms user_bytes_cong [of \<sigma>1 \<sigma> G1 G] unfolding same_user_def alloc_ok_def by (cases "x = 0") auto

lemma load_ok:
  assumes inv: "slub_inv K \<sigma> G" and s: "s \<in> K" and p: "c_page (cpu_of \<sigma> s) = Some p" and x: "c_freelist (cpu_of \<sigma> s) = x" "x \<noteq> 0"
  shows "load_freelist \<sigma> s x flags = (\<sigma>', y) \<Longrightarrow> alloc_ok K \<sigma> G s gf flags \<sigma>' y \<and> y = x"
  using pop_inv [OF inv s p x, of "\<lambda>c. next_tid (c_tid c)"] x(2) cpu_head [OF inv s p x] p
  by (auto simp: load_freelist_def Let_def local_irq_restore_def alloc_ok_def live_def slab_live_def virt_to_head_page_def)

text \<open>The list of partial slabs is short enough for its counter.\<close>

lemma partial_short:
  assumes inv: "slub_inv K \<sigma> G" and s: "s \<in> K"
  shows "length (partial (node_of \<sigma> s)) < 2 ^ 18" "unat (nr_partial (node_of \<sigma> s)) = length (partial (node_of \<sigma> s))"
proof -
  have ci: "distinct (partial (node_of \<sigma> s))" "nr_partial (node_of \<sigma> s) = word_of_nat (length (partial (node_of \<sigma> s)))"
    "\<forall>p\<in>set (partial (node_of \<sigma> s)). \<exists>g. G p = Some g \<and> sb_cache g = s"
    using slub_invD(3) [OF inv s] unfolding cache_inv_def by blast+
  have "p \<in> {..<2 ^ 18 - 1}" if p: "p \<in> set (partial (node_of \<sigma> s))" for p
  proof -
    obtain g where g: "G p = Some g" using ci(3) p by blast
    have "p + 2 ^ sb_order g < 2 ^ 18" using slab_okD(1) [OF slub_invD(5) [OF inv g]] by (simp add: room_ok_def low_frame_def)
    moreover have "(1 :: nat) \<le> 2 ^ sb_order g" by simp
    ultimately show ?thesis unfolding lessThan_iff by linarith
  qed
  then have "set (partial (node_of \<sigma> s)) \<subseteq> {..<2 ^ 18 - 1}" by blast
  then have "card (set (partial (node_of \<sigma> s))) \<le> card {..<(2 :: nat) ^ 18 - 1}" by (intro card_mono) auto
  then show "length (partial (node_of \<sigma> s)) < 2 ^ 18" using distinct_card [OF ci(1)] by simp
  then show "unat (nr_partial (node_of \<sigma> s)) = length (partial (node_of \<sigma> s))" unfolding ci(2) by (simp add: unat_of_nat)
qed

lemma get_partial_spec:
  assumes inv: "slub_inv K \<sigma> G" and s: "s \<in> K" and none: "c_page (cpu_of \<sigma> s) = None" and node: "node = NUMA_NO_NODE \<or> node = 0"
  obtains "get_partial \<sigma> s gf node = Some (\<sigma>, None)" "partial (node_of \<sigma> s) = []"
  | \<sigma>' G' p where "get_partial \<sigma> s gf node = Some (\<sigma>', Some p)" "slub_inv K \<sigma>' G'" "same_user \<sigma> G \<sigma>' G'" "sl_irqs \<sigma>' = sl_irqs \<sigma>"
      "c_page (cpu_of \<sigma>' s) = Some p" "c_freelist (cpu_of \<sigma>' s) \<noteq> 0"
proof -
  let ?n = "kc_node (sl_caches \<sigma> s) 0"
  have n: "get_node \<sigma> s (nat (if node = NUMA_NO_NODE then numa_node_id else node)) = ?n"
    using node by (auto simp: get_node_def numa_node_id_def NUMA_NO_NODE_def)
  have nz: "?n \<noteq> 0" using slub_invD(2) [OF inv] s by (simp add: caches_ok_def descr_ok_def)
  have nr: "nr_partial (sl_nodes \<sigma> ?n) = word_of_nat (length (partial (sl_nodes \<sigma> ?n)))"
    using slub_invD(3) [OF inv s] by (simp add: cache_inv_def node_of_def)
  have up: "spin_unlock (spin_lock \<sigma>) = \<sigma>" by (simp add: lock_defs)
  show thesis
  proof (cases "partial (node_of \<sigma> s)")
    case Nil
    then have "get_partial_node \<sigma> s ?n = Some (\<sigma>, None)" using nr by (simp add: get_partial_node_def node_of_def)
    then show thesis using that(1) Nil by (simp add: get_partial_def Let_def n get_any_partial_def)
  next
    case (Cons p ps)
    let ?\<sigma> = "spin_lock \<sigma>"
    have i: "slub_inv K ?\<sigma> G" using inv by (simp add: lock_defs)
    have e: "c_page (cpu_of ?\<sigma> s) = None" "partial (node_of ?\<sigma> s) = p # ps" "kc_node (sl_caches ?\<sigma> s) 0 = ?n"
      using none Cons by (simp_all add: lock_defs)
    obtain \<sigma>1 G1 where a: "acquire_slab ?\<sigma> s ?n p = Some (\<sigma>1, True)" "slub_inv K \<sigma>1 G1" "live \<sigma>1 G1 = live ?\<sigma> G"
      "c_page (cpu_of \<sigma>1 s) = Some p" "c_freelist (cpu_of \<sigma>1 s) \<noteq> 0" "sl_caches \<sigma>1 = sl_caches ?\<sigma>" "sl_mem \<sigma>1 = sl_mem ?\<sigma>"
      "sl_preempt \<sigma>1 = sl_preempt ?\<sigma>" "sl_irqs \<sigma>1 = sl_irqs ?\<sigma>"
      using acquire_inv [OF i s e(1,2)] unfolding e(3) by blast
    have "nr_partial (sl_nodes \<sigma> ?n) \<noteq> 0" using partial_short(2) [OF inv s] Cons by (auto simp: node_of_def)
    then have "get_partial \<sigma> s gf node = Some (spin_unlock \<sigma>1, Some p)"
      using Cons nz a(1) by (simp add: get_partial_def get_partial_node_def Let_def n node_of_def lock_defs)
    moreover have "same_user \<sigma> G (spin_unlock \<sigma>1) G1"
      using a live_same [of "spin_lock \<sigma>" \<sigma> G] live_same [of "spin_unlock \<sigma>1" \<sigma>1 G1] by (simp add: same_user_def lock_defs)
    ultimately show thesis using that(2) [of "spin_unlock \<sigma>1" p G1] a by (simp add: lock_defs)
  qed
qed

lemma fresh_user:
  assumes inv: "slub_inv K \<sigma> G" and f: "fresh_block (sl_mm \<sigma>) m' p k" and a: "a \<in> user_bytes \<sigma> G"
  shows "a \<notin> bytes_of p k"
proof -
  obtain q h where q: "G q = Some h" "a \<in> bytes_of q (sb_order h)" using user_bytes_slab [OF inv a] by blast
  have "owned_block (sl_mm \<sigma>) q (sb_order h)" using slab_okD(2) [OF slub_invD(5) [OF inv q(1)]] by (simp add: frames_ok_def)
  then have "blk q (sb_order h) \<inter> blk p k = {}" using f by (simp add: fresh_block_def)
  then show ?thesis using bytes_disjoint q(2) by blast
qed

lemma no_partial_all_used:
  assumes inv: "slub_inv K \<sigma> G" and s: "s \<in> K" and none: "c_page (cpu_of \<sigma> s) = None" and p: "partial (node_of \<sigma> s) = []"
  shows "all_used G s"
  unfolding all_used_def
proof (intro allI impI, elim conjE)
  fix q h assume q: "G q = Some h" "sb_cache h = s"
  note D = slab_okD [OF slub_invD(5) [OF inv q(1)], unfolded q(2)]
  have "cpu_view \<sigma> s q = None" using none by (simp add: cpu_view_def)
  then show "sb_free h @ sb_cpu h = []" using D(6,8) p by simp
qed

lemma refill_spec:
  assumes inv: "slub_inv K \<sigma> G" and s: "s \<in> K" and none: "c_page (cpu_of \<sigma> s) = None" and node: "node = NUMA_NO_NODE \<or> node = 0"
  shows "\<exists>\<sigma>' x. slab_alloc_refill \<sigma> s gf node flags = Some (\<sigma>', x) \<and> alloc_ok K \<sigma> G s gf flags \<sigma>' x"
proof (cases rule: get_partial_spec [OF inv s none node, of gf])
  case (2 \<sigma>1 G1 p)
  obtain \<sigma>' x where l: "load_freelist \<sigma>1 s (c_freelist (cpu_of \<sigma>1 s)) flags = (\<sigma>', x)" by fastforce
  have lo: "alloc_ok K \<sigma>1 G1 s gf flags \<sigma>' x \<and> x = c_freelist (cpu_of \<sigma>1 s)" by (rule load_ok [OF 2(2) s 2(5) refl 2(6) l])
  then have "x \<noteq> 0" using 2(6) by simp
  then have "alloc_ok K \<sigma> G s gf flags \<sigma>' x" using alloc_ok_trans [OF 2(3)] lo by blast
  then show ?thesis using 2(1) l by (simp add: slab_alloc_refill_def)
next
  case 1
  have d: "descr_ok (sl_caches \<sigma> s)" using slub_invD(2) [OF inv] s by (simp add: caches_ok_def)
  from slub_invD(1) [OF inv] d show ?thesis
  proof (cases rule: new_slab_run [where flags = gf and node = node])
    case new: (1 b)
    have "slub_inv K (\<sigma>\<lparr>sl_irqs := flags\<rparr>) G" using inv by simp
    moreover have "refused (\<sigma>\<lparr>sl_irqs := flags\<rparr>) s gf" using new(2) by (simp add: refused_def)
    ultimately have "alloc_ok K \<sigma> G s gf flags (\<sigma>\<lparr>sl_irqs := flags\<rparr>) 0"
      using no_partial_all_used [OF inv s none 1(2)] live_same [of "\<sigma>\<lparr>sl_irqs := flags\<rparr>" \<sigma> G] by (auto simp: alloc_ok_def)
    then show ?thesis using 1(1) new(1) by (simp add: slab_alloc_refill_def local_irq_restore_def)
  next
    case new: (2 m' p oo mem c b v)
    let ?c = "set_inuse c (objects c)"
    define \<sigma>1 where "\<sigma>1 = \<sigma>\<lparr>sl_irqs := b, sl_mm := upd_page m' p (slab_page s (page_address p) c), sl_mem := mem, sl_slab_pages := v\<rparr>"
    define \<sigma>2 where "\<sigma>2 = set_cpu (set_pg \<sigma>1 p (\<lambda>q. q\<lparr>pg_freelist := 0, pg_mapcount := set_inuse (pg_mapcount q) (objects (pg_mapcount q))\<rparr>)) s
        (\<lambda>cp. cp\<lparr>c_node := int (page_to_nid (pg (set_pg \<sigma>1 p (\<lambda>q. q\<lparr>pg_freelist := 0, pg_mapcount := set_inuse (pg_mapcount q) (objects (pg_mapcount q))\<rparr>)) p)), c_page := Some p\<rparr>)"
    define \<sigma>3 where "\<sigma>3 = set_cpu \<sigma>2 s (\<lambda>cp. cp\<lparr>c_freelist := page_address p\<rparr>)"
    have f1: "sl_caches \<sigma>1 = sl_caches \<sigma>" "cpu_of \<sigma>1 s = cpu_of \<sigma> s" "pg_freelist (pg \<sigma>1 p) = page_address p"
      by (simp_all add: \<sigma>1_def cpu_of_def pg_def upd_page_def slab_page_def)
    have run: "slab_alloc_refill \<sigma> s gf node flags = Some (load_freelist \<sigma>2 s (page_address p) flags)"
      using 1(1) new(3) none by (simp only: slab_alloc_refill_def bind.simps prod.case option.case Let_def \<sigma>1_def [symmetric]) (simp add: f1 \<sigma>2_def)
    have lf: "load_freelist \<sigma>2 s (page_address p) flags = load_freelist \<sigma>3 s (page_address p) flags"
      by (simp add: load_freelist_def \<sigma>3_def set_cpu_def Let_def get_freepointer_def)
    have mm: "sl_mm \<sigma>3 = upd_page m' p (slab_page s 0 ?c)"
      by (simp add: \<sigma>3_def \<sigma>2_def) (simp add: \<sigma>1_def upd_page_def slab_page_def)
    have cnt: "objects ?c = oo_objects oo" "inuse ?c = oo_objects oo" "frozen ?c" using new(4-6) take_bit_objects [of c] by simp_all
    have o: "sl_mem \<sigma>3 = mem" "sl_caches \<sigma>3 = sl_caches \<sigma>" "sl_nodes \<sigma>3 = sl_nodes \<sigma>" "sl_preempt \<sigma>3 = sl_preempt \<sigma>"
      "c_page (cpu_of \<sigma>3 s) = Some p" "c_freelist (cpu_of \<sigma>3 s) = page_address p"
      by (simp_all add: \<sigma>3_def \<sigma>2_def) (simp_all add: \<sigma>1_def)
    have cpus: "sl_cpus \<sigma>3 a = sl_cpus \<sigma> a" if "a \<noteq> cpu_slab (sl_caches \<sigma> s)" for a
      using that f1 by (simp add: \<sigma>3_def \<sigma>2_def) (simp add: \<sigma>1_def)
    obtain G' where G': "slub_inv K \<sigma>3 G'" "live \<sigma>3 G' = live \<sigma> G"
      using install_inv [OF inv s none new(1,2) mm cnt] new(7,8) o cpus by (auto simp: o)
    have "same_user \<sigma> G \<sigma>3 G'" using G'(2) o new(8) fresh_user [OF inv new(1)] by (simp add: same_user_def)
    moreover have "page_address p \<noteq> 0" using fchain_nonnull [OF new(7)] new(2) by (simp add: geometry_ok_def obj_list_def)
    moreover obtain \<sigma>' x where l: "load_freelist \<sigma>3 s (page_address p) flags = (\<sigma>', x)" by fastforce
    ultimately have "alloc_ok K \<sigma> G s gf flags \<sigma>' x"
      using load_ok [OF G'(1) s o(5,6) _ l, of gf] alloc_ok_trans by blast
    then show ?thesis using run lf l by simp
  qed
qed

lemma slow_alloc_spec:
  assumes inv: "slub_inv K \<sigma> G" and s: "s \<in> K" and z: "c_freelist (cpu_of \<sigma> s) = 0" and node: "node = NUMA_NO_NODE \<or> node = 0"
  shows "\<exists>\<sigma>' x. uu_slab_alloc \<sigma> s gf node = Some (\<sigma>', x) \<and> alloc_ok K \<sigma> G s gf (sl_irqs \<sigma>) \<sigma>' x"
proof -
  let ?\<sigma> = "local_irq_disable \<sigma>" and ?gf = "gf AND NOT GFP_ZERO"
  have e: "?\<sigma> = \<sigma>\<lparr>sl_irqs := False\<rparr>" by (simp add: local_irq_disable_def)
  have i: "slub_inv K ?\<sigma> G" and cp: "cpu_of ?\<sigma> s = cpu_of \<sigma> s" using inv by (simp_all add: e)
  have gf: "refused \<rho> s ?gf = refused \<rho> s gf" for \<rho>
  proof -
    have "NOT GFP_ZERO AND (GFP_RECLAIM_MASK OR GFP_CONSTRAINT_MASK) = GFP_RECLAIM_MASK OR GFP_CONSTRAINT_MASK" by code_simp
    then show ?thesis by (simp add: refused_def and.assoc)
  qed
  have su: "same_user \<sigma> G ?\<sigma> G" using live_same [of ?\<sigma> \<sigma> G] by (simp add: same_user_def e)
  have fin: "\<exists>\<sigma>' x. slab_alloc_refill \<rho> s ?gf node (sl_irqs \<sigma>) = Some (\<sigma>', x) \<and> alloc_ok K \<sigma> G s gf (sl_irqs \<sigma>) \<sigma>' x"
    if h: "slub_inv K \<rho> G" "same_user \<sigma> G \<rho> G" "c_page (cpu_of \<rho> s) = None" for \<rho>
  proof -
    obtain \<sigma>' x where r: "slab_alloc_refill \<rho> s ?gf node (sl_irqs \<sigma>) = Some (\<sigma>', x)" "alloc_ok K \<rho> G s ?gf (sl_irqs \<sigma>) \<sigma>' x"
      using refill_spec [OF h(1) s h(3) node] by blast
    have "alloc_ok K \<rho> G s gf (sl_irqs \<sigma>) \<sigma>' x" using r(2) unfolding alloc_ok_def gf .
    then have "alloc_ok K \<sigma> G s gf (sl_irqs \<sigma>) \<sigma>' x" by (rule alloc_ok_trans [OF h(2)])
    then show ?thesis using r(1) by blast
  qed
  show ?thesis
  proof (cases "c_page (cpu_of \<sigma> s)")
    case None
    then show ?thesis using fin [OF i su] cp by (simp add: uu_slab_alloc_def Let_def)
  next
    case (Some p)
    have p: "c_page (cpu_of ?\<sigma> s) = Some p" "c_freelist (cpu_of ?\<sigma> s) = 0" using Some z cp by simp_all
    define c where "c = pg_mapcount (pg ?\<sigma> p)"
    define \<rho> where "\<rho> = set_pg ?\<sigma> p (\<lambda>q. q\<lparr>pg_freelist := 0, pg_mapcount := set_frozen (set_inuse c (objects c)) False\<rparr>)"
    note lv = leave_inv [OF i s p, folded c_def, folded \<rho>_def]
    have "uu_cmpxchg_double_slab ?\<sigma> s p 0 c 0 (set_frozen (set_inuse c (objects c)) False) = (\<rho>, True)"
      using cmpxchg_ok [of ?\<sigma> s p 0] lv(1) by (simp add: c_def \<rho>_def)
    then have run: "uu_slab_alloc \<sigma> s gf node = slab_alloc_refill (set_cpu \<rho> s (\<lambda>c. c\<lparr>c_page := None\<rparr>)) s ?gf node (sl_irqs \<sigma>)"
      using p lv(1) by (simp add: uu_slab_alloc_def Let_def node_match_def c_def [symmetric] redo_once [where \<sigma>' = \<rho> and x = 0])
    have "same_user \<sigma> G (set_cpu \<rho> s (\<lambda>c. c\<lparr>c_page := None\<rparr>)) G"
      using live_same [of "set_cpu \<rho> s (\<lambda>c. c\<lparr>c_page := None\<rparr>)" \<sigma> G] by (simp add: same_user_def \<rho>_def e)
    then show ?thesis using fin [OF lv(2)] run by simp
  qed
qed

lemma object_offset:
  assumes inv: "slub_inv K \<sigma> G" and l: "(s, x) \<in> live \<sigma> G" and a: "unat (a - x) < unat (kc_size (sl_caches \<sigma> s))"
  shows "a \<in> obj_range \<sigma> s x"
proof -
  obtain p g where g: "G p = Some g" "sb_cache g = s" "x \<in> objs (kc_size (sl_caches \<sigma> s)) p (sb_objects g)" using l unfolding in_live by blast
  obtain i where i: "i < sb_objects g" "x = obj (kc_size (sl_caches \<sigma> s)) p i"
    "sb_objects g * unat (kc_size (sl_caches \<sigma> s)) \<le> 4096 * 2 ^ sb_order g" "low_frame p (sb_order g)"
    using objsE [OF inv g(1), of x] g(2,3) by auto
  note u = unat_obj [OF i(1,3,4)]
  have "unat (x + (a - x)) = unat x + unat (a - x)" by (rule unat_add_no_wrap) (use u a i(2) in simp)
  then show ?thesis using a by (simp add: obj_range_def)
qed

lemma fast_alloc_spec:
  assumes inv: "slub_inv K \<sigma> G" and s: "s \<in> K" and x: "c_freelist (cpu_of \<sigma> s) = x" "x \<noteq> 0"
  shows "\<exists>\<sigma>'. slab_alloc_object s gf node \<sigma> = Some (\<sigma>', x) \<and> alloc_ok K \<sigma> G s gf (sl_irqs \<sigma>) \<sigma>' x"
proof -
  let ?f = "\<lambda>c. c\<lparr>c_freelist := get_freepointer \<sigma> s x, c_tid := next_tid (c_tid (cpu_of \<sigma> s))\<rparr>"
  obtain p where p: "c_page (cpu_of \<sigma> s) = Some p"
    using slub_invD(3) [OF inv s] x by (auto simp: cache_inv_def split: option.splits)
  have ex: "irqsafe_cpu_cmpxchg_double \<sigma> s x (c_tid (cpu_of \<sigma> s)) (get_freepointer \<sigma> s x) (next_tid (c_tid (cpu_of \<sigma> s))) = (set_cpu \<sigma> s ?f, True)"
    using x(1) by (simp add: irqsafe_cpu_cmpxchg_double_def local_irq_disable_def local_irq_restore_def)
  have run: "slab_alloc_object s gf node \<sigma> = Some (set_cpu \<sigma> s ?f, x)"
    by (subst slab_alloc_object.simps) (simp add: Let_def x node_match_def ex get_freepointer_safe_def)
  obtain G' where G': "slub_inv K (set_cpu \<sigma> s ?f) G'" "live (set_cpu \<sigma> s ?f) G' = insert (s, x) (live \<sigma> G)" "(s, x) \<notin> live \<sigma> G"
    using pop_inv [OF inv s p x, of "\<lambda>_. next_tid (c_tid (cpu_of \<sigma> s))"] by blast
  have "alloc_ok K \<sigma> G s gf (sl_irqs \<sigma>) (set_cpu \<sigma> s ?f) x"
    unfolding alloc_ok_def using G' x(2) p cpu_head [OF inv s p x] by (auto simp: virt_to_head_page_def)
  then show ?thesis using run by blast
qed

lemma alloc_object_spec:
  assumes inv: "slub_inv K \<sigma> G" and s: "s \<in> K" and node: "node = NUMA_NO_NODE \<or> node = 0"
  shows "\<exists>\<sigma>' x. slab_alloc_object s gf node \<sigma> = Some (\<sigma>', x) \<and> alloc_ok K \<sigma> G s gf (sl_irqs \<sigma>) \<sigma>' x"
proof (cases "c_freelist (cpu_of \<sigma> s) = 0")
  case True
  then have "slab_alloc_object s gf node \<sigma> = uu_slab_alloc \<sigma> s gf node" by (subst slab_alloc_object.simps) (simp add: Let_def)
  then show ?thesis using slow_alloc_spec [OF inv s True node] by simp
next
  case False
  then show ?thesis using fast_alloc_spec [OF inv s refl] by blast
qed

text \<open>Clearing the object of an allocation with \<^verbatim>\<open>__GFP_ZERO\<close>.\<close>

lemma zero_object:
  assumes ok: "alloc_ok K \<sigma> G s gf flags \<sigma>1 x" and x: "x \<noteq> 0" and s: "s \<in> K" and co: "caches_ok K \<sigma>"
  defines "n \<equiv> objsize (sl_caches \<sigma>1 s)"
  shows "alloc_ok K \<sigma> G s gf flags (\<sigma>1\<lparr>sl_mem := memset (sl_mem \<sigma>1) x 0 n\<rparr>) x"
proof -
  let ?m = "memset (sl_mem \<sigma>1) x 0 n"
  obtain G' where G': "slub_inv K \<sigma>1 G'" "(s, x) \<notin> live \<sigma> G" "live \<sigma>1 G' = insert (s, x) (live \<sigma> G)"
    and e: "sl_caches \<sigma>1 = sl_caches \<sigma>" "\<forall>a\<in>user_bytes \<sigma> G. sl_mem \<sigma>1 a = sl_mem \<sigma> a"
    using ok x unfolding alloc_ok_def by auto
  have "descr_ok (sl_caches \<sigma>1 s)" using co s e(1) by (simp add: caches_ok_def)
  then have n: "unat n \<le> unat (kc_size (sl_caches \<sigma>1 s))" by (simp add: n_def descr_ok_def cache_ok_def)
  have l: "(s, x) \<in> live \<sigma>1 G'" using G'(3) by simp
  have out: "?m a = sl_mem \<sigma>1 a" if "a \<notin> obj_range \<sigma>1 s x" for a
    using object_offset [OF G'(1) l, of a] that n by (force simp: memset_at)
  have "slub_inv K (\<sigma>1\<lparr>sl_mem := ?m\<rparr>) G'"
    by (rule user_write [OF G'(1)]) (use out l in \<open>auto simp: user_bytes_def\<close>)
  moreover have "?m a = sl_mem \<sigma> a" if ub: "a \<in> user_bytes \<sigma> G" for a
  proof -
    obtain t y where y: "(t, y) \<in> live \<sigma> G" "a \<in> obj_range \<sigma> t y" using ub by (auto simp: user_bytes_def)
    then have "(t, y) \<in> live \<sigma>1 G'" "(t, y) \<noteq> (s, x)" "a \<in> obj_range \<sigma>1 t y" using G'(2,3) e(1) by (auto simp: obj_range_def)
    then have "a \<notin> obj_range \<sigma>1 s x" using live_apart [OF G'(1) l] by blast
    then show ?thesis using out e(2) ub by simp
  qed
  moreover have "live (\<sigma>1\<lparr>sl_mem := ?m\<rparr>) G' = live \<sigma>1 G'" by (rule live_same) simp
  moreover have "cpu_of (\<sigma>1\<lparr>sl_mem := ?m\<rparr>) s = cpu_of \<sigma>1 s" "virt_to_head_page (\<sigma>1\<lparr>sl_mem := ?m\<rparr>) x = virt_to_head_page \<sigma>1 x"
    by (simp_all add: cpu_of_def virt_to_head_page_def)
  ultimately show ?thesis using ok G' x unfolding alloc_ok_def by auto
qed

lemma slab_alloc_spec:
  assumes inv: "slub_inv K \<sigma> G" and s: "s \<in> K" and node: "node = NUMA_NO_NODE \<or> node = 0"
  shows "\<exists>\<sigma>' x. slab_alloc \<sigma> s gf node = Some (\<sigma>', x) \<and> alloc_ok K \<sigma> G s gf (sl_irqs \<sigma>) \<sigma>' x
    \<and> (gf AND GFP_ZERO \<noteq> 0 \<and> x \<noteq> 0 \<longrightarrow> (\<forall>a. unat (a - x) < unat (objsize (sl_caches \<sigma> s)) \<longrightarrow> sl_mem \<sigma>' a = 0))"
proof -
  obtain \<sigma>1 x where r: "slab_alloc_object s gf node \<sigma> = Some (\<sigma>1, x)" "alloc_ok K \<sigma> G s gf (sl_irqs \<sigma>) \<sigma>1 x"
    using alloc_object_spec [OF inv s node] by blast
  have ca: "sl_caches \<sigma>1 = sl_caches \<sigma>" using r(2) by (simp add: alloc_ok_def)
  show ?thesis
  proof (cases "gf AND GFP_ZERO \<noteq> 0 \<and> x \<noteq> 0")
    case True
    then have "alloc_ok K \<sigma> G s gf (sl_irqs \<sigma>) (\<sigma>1\<lparr>sl_mem := memset (sl_mem \<sigma>1) x 0 (objsize (sl_caches \<sigma>1 s))\<rparr>) x"
      using zero_object [OF r(2) _ s slub_invD(2) [OF inv]] by simp
    then show ?thesis using r(1) True by (simp add: slab_alloc_def ca memset_at)
  next
    case False
    then show ?thesis using r by (auto simp: slab_alloc_def)
  qed
qed

section \<open>Freeing an object\<close>

text \<open>What freeing promises: the object is no longer in use, the others are in use with their contents
  unchanged, and the lock count and the interrupt flag are what they were.\<close>

definition free_frames :: "slub \<Rightarrow> nat set" where
  "free_frames \<sigma> = (\<Union>i<MAX_NR_ZONES. free_pages (mm_zones (sl_mm \<sigma>) i))"

text \<open>The release of an object empties a slab that the cache does not keep: the object is the last one in
  use of its slab, the slab is not the one of the processor, and the node has more partial slabs than the cache wants. Then
  the frames of the slab become free pages of the page allocator, otherwise no frame does.\<close>

definition emptied :: "slub \<Rightarrow> (nat \<rightharpoonup> slab) \<Rightarrow> ulong \<Rightarrow> ulong \<Rightarrow> bool" where
  "emptied \<sigma> G s x \<longleftrightarrow> c_page (cpu_of \<sigma> s) \<noteq> Some (virt_to_head_page \<sigma> x)
     \<and> (\<forall>y. (s, y) \<in> live \<sigma> G \<and> virt_to_head_page \<sigma> y = virt_to_head_page \<sigma> x \<longrightarrow> y = x)
     \<and> min_partial (sl_caches \<sigma> s) < nr_partial (node_of \<sigma> s)"

definition returned_frames :: "slub \<Rightarrow> (nat \<rightharpoonup> slab) \<Rightarrow> ulong \<Rightarrow> ulong \<Rightarrow> nat set" where
  "returned_frames \<sigma> G s x = (if emptied \<sigma> G s x
     then blk (virt_to_head_page \<sigma> x) (sb_order (the (G (virt_to_head_page \<sigma> x)))) else {})"

definition free_ok :: "ulong set \<Rightarrow> slub \<Rightarrow> (nat \<rightharpoonup> slab) \<Rightarrow> ulong \<Rightarrow> ulong \<Rightarrow> slub \<Rightarrow> bool" where
  "free_ok K \<sigma> G s x \<sigma>' \<longleftrightarrow> sl_caches \<sigma>' = sl_caches \<sigma> \<and> sl_preempt \<sigma>' = sl_preempt \<sigma> \<and> sl_irqs \<sigma>' = sl_irqs \<sigma>
     \<and> free_frames \<sigma>' = free_frames \<sigma> \<union> returned_frames \<sigma> G s x
     \<and> (\<exists>G'. slub_inv K \<sigma>' G' \<and> live \<sigma>' G' = live \<sigma> G - {(s, x)} \<and> (\<forall>a\<in>user_bytes \<sigma>' G'. sl_mem \<sigma>' a = sl_mem \<sigma> a))"

lemma nid_0 [simp]: "page_to_nid q = 0"
  by (simp add: page_to_nid_def NODES_MASK_def)

text \<open>The link that is written into a freed object is not in the memory of the users.\<close>

lemma link_not_user:
  assumes inv: "slub_inv K \<sigma> G" and l: "(s, x) \<in> live \<sigma> G" and ca: "sl_caches \<sigma>' = sl_caches \<sigma>" and lv: "live \<sigma>' G' = live \<sigma> G - {(s, x)}"
    and a: "a \<in> user_bytes \<sigma>' G'"
  shows "write_word m (x + offset (sl_caches \<sigma> s)) v a = m a"
proof (rule write_word_outside, rule ccontr)
  assume "\<not> 4 \<le> unat (a - (x + offset (sl_caches \<sigma> s)))"
  then have n: "unat (a - (x + offset (sl_caches \<sigma> s))) < 4" by simp
  obtain p g where g: "G p = Some g" "sb_cache g = s" "x \<in> objs (kc_size (sl_caches \<sigma> s)) p (sb_objects g)" using l unfolding in_live by blast
  have "a \<in> obj_range \<sigma> s x" by (rule link_range [OF inv g n])
  moreover obtain t y where y: "(t, y) \<in> live \<sigma>' G'" "a \<in> obj_range \<sigma>' t y" using a by (auto simp: user_bytes_def)
  ultimately show False using live_apart [OF inv l, of t y] lv ca by (auto simp: obj_range_def)
qed

lemma head_page:
  assumes inv: "slub_inv K \<sigma> G" and g: "G p = Some g" "sb_cache g = s" and x: "x \<in> objs (kc_size (sl_caches \<sigma> s)) p (sb_objects g)"
  shows "virt_to_head_page \<sigma> x = p"
proof -
  note D = slab_okD [OF slub_invD(5) [OF inv g(1)], unfolded g(2)]
  have b: "x \<in> bytes_of p (sb_order g)" using obj_bytes(1) [OF inv g(1)] g(2) x by simp
  have "virt_to_page x \<in> blk p (sb_order g)" using D(1) by (intro virt_to_page_bytes [OF b]) (simp add: room_ok_def)
  then show ?thesis using D(2) by (simp add: virt_to_head_page_def frames_ok_def compound_block_def)
qed

lemma fast_free_spec:
  assumes inv: "slub_inv K \<sigma> G" and s: "s \<in> K" and p: "c_page (cpu_of \<sigma> s) = Some p" and g: "G p = Some g"
    and x: "x \<in> objs (kc_size (sl_caches \<sigma> s)) p (sb_objects g)" "x \<notin> set (sb_free g @ sb_cpu g)"
  shows "\<exists>\<sigma>'. slab_free s p x \<sigma> = Some \<sigma>' \<and> free_ok K \<sigma> G s x \<sigma>'"
proof -
  let ?f = "\<lambda>c. c\<lparr>c_freelist := x, c_tid := next_tid (c_tid (cpu_of \<sigma> s))\<rparr>"
  define \<sigma>' where "\<sigma>' = set_cpu (set_freepointer \<sigma> s x (c_freelist (cpu_of \<sigma> s))) s ?f"
  have sc: "sb_cache g = s"
  proof -
    obtain h where "G p = Some h" "sb_cache h = s" using cpu_slabE [OF inv s p] by blast
    then show ?thesis using g by simp
  qed
  have l: "(s, x) \<in> live \<sigma> G" using g sc x unfolding in_live by blast
  have "irqsafe_cpu_cmpxchg_double (set_freepointer \<sigma> s x (c_freelist (cpu_of \<sigma> s))) s (c_freelist (cpu_of \<sigma> s)) (c_tid (cpu_of \<sigma> s)) x
      (next_tid (c_tid (cpu_of \<sigma> s))) = (\<sigma>', True)"
    by (simp add: irqsafe_cpu_cmpxchg_double_def local_irq_disable_def local_irq_restore_def \<sigma>'_def)
  then have run: "slab_free s p x \<sigma> = Some \<sigma>'" using p by (subst slab_free.simps) (simp add: Let_def)
  obtain G' where G': "slub_inv K \<sigma>' G'" "live \<sigma>' G' = live \<sigma> G - {(s, x)}"
    using push_inv [OF inv s p g x, of "\<lambda>_. next_tid (c_tid (cpu_of \<sigma> s))"] unfolding \<sigma>'_def by blast
  have ca: "sl_caches \<sigma>' = sl_caches \<sigma>" by (simp add: \<sigma>'_def)
  have "\<forall>a\<in>user_bytes \<sigma>' G'. sl_mem \<sigma>' a = sl_mem \<sigma> a"
    using link_not_user [OF inv l ca G'(2)] by (simp add: \<sigma>'_def)
  moreover have "free_frames \<sigma>' = free_frames \<sigma> \<union> returned_frames \<sigma> G s x"
    using p head_page [OF inv g _ x(1)] sc by (simp add: returned_frames_def emptied_def free_frames_def \<sigma>'_def)
  ultimately have "free_ok K \<sigma> G s x \<sigma>'" unfolding free_ok_def using G' ca by (auto simp: \<sigma>'_def)
  then show ?thesis using run by blast
qed

text \<open>The slow path, when the page is changed under its lock.\<close>

lemma cmpxchg_locked:
  assumes "kc_flags (sl_caches \<sigma> s) AND CMPXCHG_DOUBLE = 0" "fh = pg_freelist (pg \<sigma> p)" "c = pg_mapcount (pg \<sigma> p)"
  shows "cmpxchg_double_slab \<sigma> s p fh c fh' c' = (set_pg \<sigma> p (\<lambda>q. q\<lparr>pg_freelist := fh', pg_mapcount := c'\<rparr>), True)"
proof -
  have "(set_pg \<sigma> p f)\<lparr>sl_irqs := sl_irqs \<sigma>, sl_preempt := sl_preempt \<sigma>\<rparr> = set_pg \<sigma> p f" for f by (simp add: set_pg_def)
  then show ?thesis using assms by (simp add: cmpxchg_double_slab_def lock_defs Let_def)
qed

lemma slow_free_run:
  fixes p :: nat and x :: ulong
  assumes fl: "kc_flags (sl_caches \<sigma> s) AND CMPXCHG_DOUBLE = 0" and nz: "kc_node (sl_caches \<sigma> s) 0 \<noteq> 0"
  defines "n \<equiv> kc_node (sl_caches \<sigma> s) 0" and "prior \<equiv> pg_freelist (pg \<sigma> p)" and "c \<equiv> pg_mapcount (pg \<sigma> p)"
  defines "c' \<equiv> set_inuse c (inuse c - 1)"
  defines "\<sigma>1 \<equiv> set_pg (set_freepointer \<sigma> s x prior) p (\<lambda>q. q\<lparr>pg_freelist := x, pg_mapcount := c'\<rparr>)"
  shows "uu_slab_free \<sigma> s p x =
    (if (inuse c' = 0 \<or> prior = 0) \<and> \<not> frozen c then
       if inuse c' = 0 \<and> nr_partial (sl_nodes \<sigma> n) > min_partial (sl_caches \<sigma> s)
       then discard_slab (if prior \<noteq> 0 then remove_partial \<sigma>1 n p else \<sigma>1) s p
       else Some (if prior = 0 then add_partial \<sigma>1 n p True else \<sigma>1)
     else Some \<sigma>1)"
proof -
  let ?take = "(inuse c' = 0 \<or> prior = 0) \<and> \<not> frozen c"
  define \<sigma>2 where "\<sigma>2 = (if ?take then \<sigma>1\<lparr>sl_preempt := sl_preempt \<sigma> + 1, sl_irqs := False\<rparr> else \<sigma>1)"
  have s1: "\<sigma>1\<lparr>sl_preempt := sl_preempt \<sigma>\<rparr> = \<sigma>1" "\<sigma>1\<lparr>sl_irqs := sl_irqs \<sigma>\<rparr> = \<sigma>1" by (simp_all add: \<sigma>1_def set_pg_def set_freepointer_def)
  have f: "sl_caches \<sigma>1 = sl_caches \<sigma>" "sl_nodes \<sigma>1 = sl_nodes \<sigma>" "(set_node \<sigma>1 n h)\<lparr>sl_irqs := sl_irqs \<sigma>, sl_preempt := sl_preempt \<sigma>\<rparr> = set_node \<sigma>1 n h"
    "\<sigma>1\<lparr>sl_irqs := sl_irqs \<sigma>, sl_preempt := sl_preempt \<sigma>\<rparr> = \<sigma>1" for h
    by (simp_all add: \<sigma>1_def set_node_def)
  have r: "redo (\<lambda>(\<sigma>, n).
         let prior = pg_freelist (pg \<sigma> p);
             counters = pg_mapcount (pg \<sigma> p);
             \<sigma> = set_freepointer \<sigma> s x prior;
             was_frozen = frozen counters;
             new = set_inuse counters (inuse counters - 1);
             take = ((inuse new = 0 \<or> prior = 0) \<and> \<not> was_frozen \<and> n = 0);
             n = (if take then get_node \<sigma> s (page_to_nid (pg \<sigma> p)) else n);
             \<sigma> = (if take then spin_lock (local_irq_disable \<sigma>) else \<sigma>)
         in case cmpxchg_double_slab \<sigma> s p prior counters x new of
              (\<sigma>, ok) \<Rightarrow> ((\<sigma>, n), if ok then Some (prior, inuse new, was_frozen) else None)) (\<sigma>, 0) =
      Some ((\<sigma>2, if ?take then n else 0), (prior, inuse c', frozen c))"
    by (rule redo_once) (cases ?take;
      auto simp: Let_def get_node_def fl n_def cmpxchg_locked lock_defs prior_def [symmetric] c_def [symmetric] c'_def [symmetric] \<sigma>1_def [symmetric] \<sigma>2_def s1 simp del: counters_set)
  show ?thesis
    unfolding uu_slab_free_def r
    using nz by (cases ?take) (simp_all add: \<sigma>2_def lock_defs n_def [symmetric] f remove_partial_def add_partial_def del: counters_set, auto simp: f lock_defs add_partial_def)
qed

lemma used_count:
  assumes inv: "slub_inv K \<sigma> G" and g: "G p = Some g" "sb_cache g = s"
    and x: "x \<in> objs (kc_size (sl_caches \<sigma> s)) p (sb_objects g)" "x \<notin> set (sb_free g)"
  defines "c \<equiv> pg_mapcount (pg \<sigma> p)"
  shows "length (sb_free g) < sb_objects g" "unat (inuse (set_inuse c (inuse c - 1))) + Suc (length (sb_free g)) = sb_objects g"
proof -
  note D = slab_okD [OF slub_invD(5) [OF inv g(1)], unfolded g(2)]
  have "card (set (x # sb_free g)) \<le> card (objs (kc_size (sl_caches \<sigma> s)) p (sb_objects g))"
    using D(3) x(1) by (intro card_mono) (auto simp: lists_ok_def objs_def)
  also have "\<dots> \<le> sb_objects g" unfolding objs_def using card_image_le [of "{..<sb_objects g}"] by simp
  finally show l: "length (sb_free g) < sb_objects g" using D(3) x(2) distinct_card [of "x # sb_free g"] by (simp add: lists_ok_def)
  have n: "unat (inuse c) + length (sb_free g) = sb_objects g" using D(4) by (simp add: counts_ok_def c_def)
  have one: "1 \<le> inuse c" using n l by (simp add: word_le_nat_alt)
  then have "unat (inuse c - 1) = unat (inuse c) - 1" by (simp add: unat_sub)
  moreover have "unat (inuse c) < 2 ^ 16" using take_bit_nat_less_exp [of 16 "unat c"] by (simp add: inuse_def unsigned_take_bit_eq)
  ultimately have "unat (inuse (set_inuse c (inuse c - 1))) = unat (inuse c) - 1"
    by (simp add: unsigned_take_bit_eq take_bit_nat_eq_self)
  then show "unat (inuse (set_inuse c (inuse c - 1))) + Suc (length (sb_free g)) = sb_objects g" using n l by simp
qed

text \<open>Putting an object back into the list of its page; the page enters the list of partial slabs if its
  list was empty.\<close>

lemma put_inv:
  fixes tail :: bool
  assumes inv: "slub_inv K \<sigma> G" and g: "G p = Some g" "sb_cache g = s" and cv: "cpu_view \<sigma> s p = None"
    and x: "x \<in> objs (kc_size (sl_caches \<sigma> s)) p (sb_objects g)" "x \<notin> set (sb_free g)"
  defines "prior \<equiv> pg_freelist (pg \<sigma> p)" and "c \<equiv> pg_mapcount (pg \<sigma> p)"
  defines "\<sigma>1 \<equiv> set_pg (set_freepointer \<sigma> s x prior) p (\<lambda>q. q\<lparr>pg_freelist := x, pg_mapcount := set_inuse c (inuse c - 1)\<rparr>)"
  defines "\<sigma>' \<equiv> (if prior = 0 then add_partial \<sigma>1 (kc_node (sl_caches \<sigma> s) 0) p tail else \<sigma>1)"
  shows "slub_inv K \<sigma>' (G(p \<mapsto> g\<lparr>sb_free := x # sb_free g, sb_cpu := []\<rparr>))" "live \<sigma>' (G(p \<mapsto> g\<lparr>sb_free := x # sb_free g, sb_cpu := []\<rparr>)) = live \<sigma> G - {(s, x)}"
    "frozen c = False" "prior = 0 \<longleftrightarrow> sb_free g = []"
proof -
  let ?xs = "x # sb_free g" and ?n = "kc_node (sl_caches \<sigma> s) 0" and ?c = "set_inuse c (inuse c - 1)"
  note D = slab_okD [OF slub_invD(5) [OF inv g(1)], unfolded g(2)]
  have emp: "sb_cpu g = []" using D(6) cv by simp
  show fz: "frozen c = False" using D(4) cv by (simp add: counts_ok_def c_def)
  show pr: "prior = 0 \<longleftrightarrow> sb_free g = []" using fchain_nonnull [OF D(5)] by (auto simp: prior_def)
  note uc = used_count [OF inv g x, folded c_def]
  have ci: "distinct (partial (node_of \<sigma> s))" "nr_partial (node_of \<sigma> s) = word_of_nat (length (partial (node_of \<sigma> s)))"
    "\<forall>q\<in>set (partial (node_of \<sigma> s)). \<exists>h. G q = Some h \<and> sb_cache h = s" using slub_invD(3) [OF inv, of s] slub_invD(4) [OF inv g(1)] g(2)
    unfolding cache_inv_def by auto
  have mem0: "p \<in> set (partial (node_of \<sigma> s)) \<longleftrightarrow> prior \<noteq> 0" using D(8) cv pr by simp
  have f: "sl_mm \<sigma>' = upd_page (sl_mm \<sigma>) p (\<lambda>q. q\<lparr>pg_freelist := x, pg_mapcount := ?c\<rparr>)"
    "sl_mem \<sigma>' = write_word (sl_mem \<sigma>) (x + offset (sl_caches \<sigma> s)) prior" "sl_caches \<sigma>' = sl_caches \<sigma>" "sl_cpus \<sigma>' = sl_cpus \<sigma>" "cpu_of \<sigma>' s = cpu_of \<sigma> s"
    "\<And>a. a \<noteq> ?n \<Longrightarrow> sl_nodes \<sigma>' a = sl_nodes \<sigma> a"
    by (simp_all add: \<sigma>'_def \<sigma>1_def add_partial_def)
  have nd: "partial (node_of \<sigma>' s) = (if prior = 0 then (if tail then partial (node_of \<sigma> s) @ [p] else p # partial (node_of \<sigma> s)) else partial (node_of \<sigma> s))"
    "nr_partial (node_of \<sigma>' s) = (if prior = 0 then nr_partial (node_of \<sigma> s) + 1 else nr_partial (node_of \<sigma> s))"
    by (simp_all add: \<sigma>'_def \<sigma>1_def add_partial_def)
  have cv': "cpu_view \<sigma>' s q = cpu_view \<sigma> s q" for q by (simp add: cpu_view_def f)
  show "slub_inv K \<sigma>' (G(p \<mapsto> g\<lparr>sb_free := ?xs, sb_cpu := []\<rparr>))"
  proof (rule local_step [OF inv g f(1)])
    show "sl_mem \<sigma>' a = sl_mem \<sigma> a" if "a \<notin> bytes_of p (sb_order g)" for a unfolding f(2) by (rule write_frame [OF inv g x(1) that])
    show "cpu_view \<sigma>' s q = cpu_view \<sigma> s q \<and> (q \<in> set (partial (node_of \<sigma>' s))) = (q \<in> set (partial (node_of \<sigma> s)))" if "q \<noteq> p" for q
      using that cv' nd(1) by simp
    show "distinct (?xs @ [])" "set (?xs @ []) \<subseteq> objs (kc_size (sl_caches \<sigma> s)) p (sb_objects g)" using D(3) x by (auto simp: lists_ok_def)
    show "unat (objects ?c) = sb_objects g" using D(4) by (simp add: counts_ok_def c_def)
    show "frozen ?c = (cpu_view \<sigma>' s p \<noteq> None)" unfolding cv' using fz cv by simp
    show "unat (inuse ?c) + length ?xs = sb_objects g" using uc(2) by (simp del: counters_set)
    show "fchain (sl_mem \<sigma>') (offset (sl_caches \<sigma> s)) x ?xs"
      unfolding f(2) by (rule chain_put [OF inv g x]) (use D(3,5) in \<open>auto simp: lists_ok_def prior_def\<close>)
    show "case cpu_view \<sigma>' s p of None \<Rightarrow> [] = [] | Some a \<Rightarrow> ?xs = [] \<and> fchain (sl_mem \<sigma>') (offset (sl_caches \<sigma> s)) a []" unfolding cv' cv by simp
    show "p \<in> set (partial (node_of \<sigma>' s)) \<longleftrightarrow> cpu_view \<sigma>' s p = None \<and> ?xs \<noteq> []" unfolding cv' cv nd using mem0 by simp
    show "cache_inv \<sigma>' (G(p \<mapsto> g\<lparr>sb_free := ?xs, sb_cpu := []\<rparr>)) s"
    proof -
      have "c_page (cpu_of \<sigma> s) \<noteq> Some p" using cv by (auto simp: cpu_view_def split: if_splits)
      then show ?thesis using ci mem0 g(2) slub_invD(3) [OF inv, of s] slub_invD(4) [OF inv g(1)] unfolding cache_inv_def nd f(5)
        by (auto split: option.splits)
    qed
  qed (use f in auto)
  have "live \<sigma>' H = live \<sigma> H" for H by (rule live_same) (rule f)
  then show "live \<sigma>' (G(p \<mapsto> g\<lparr>sb_free := ?xs, sb_cpu := []\<rparr>)) = live \<sigma> G - {(s, x)}"
    using live_give [OF inv g(1) _ refl, of x ?xs "[]"] x(1) g(2) emp by simp
qed

text \<open>Returning a slab without users to the page allocator.\<close>

lemma unslab_source:
  assumes inv: "slub_inv K \<sigma> G" and g: "G p = Some g"
  shows "source_inv (unslab (sl_mm \<sigma>) p)" "owned_block (unslab (sl_mm \<sigma>) p) = owned_block (sl_mm \<sigma>)" "clean_block (unslab (sl_mm \<sigma>) p) p (sb_order g)"
proof -
  let ?k = "sb_order g" and ?f = "\<lambda>q. reset_page_mapcount (clear_page_flag PG_slab q)"
  note D = slab_okD [OF slub_invD(5) [OF inv g]]
  have fr: "owned_block (sl_mm \<sigma>) p ?k" "clean_block (unslab (sl_mm \<sigma>) p) p ?k" using D(2) by (simp_all add: frames_ok_def)
  have nb: "\<not> PageBuddy (?f q)" for q by (simp add: PageBuddy_def PAGE_BUDDY_MAPCOUNT_VALUE_def reset_page_mapcount_def)
  have zid: "page_zone_id (?f q) = page_zone_id q" for q
  proof -
    have "drop_bit ZONES_PGSHIFT (unset_bit PG_slab (pg_flags q)) AND ZONES_MASK = drop_bit ZONES_PGSHIFT (pg_flags q) AND ZONES_MASK"
      by (rule bit_word_eqI) (auto simp: bit_and_iff bit_drop_bit_eq bit_unset_bit_iff PG_slab_def ZONES_PGSHIFT_def)
    then show ?thesis by (simp add: page_zone_id_def reset_page_mapcount_def clear_page_flag_def)
  qed
  have "\<not> PageBuddy (mm_map (sl_mm \<sigma>) x)" if "x \<in> blk p ?k" for x
  proof (cases "x = p")
    case True
    have "unat (objects (pg_mapcount (pg \<sigma> p))) < 0x7FFF" using D(1,4) by (simp add: counts_ok_def room_ok_def)
    then show ?thesis using True by (intro counters_not_buddy) (simp add: pg_def)
  next
    case False
    then have "pg_mapcount (mm_map (sl_mm \<sigma>) x) = - 1"
      using fr(2) that by (auto simp: clean_block_def in_use_block_def unslab_def upd_page_def)
    then show ?thesis by (simp add: PageBuddy_def PAGE_BUDDY_MAPCOUNT_VALUE_def)
  qed
  note ou = owner_upd [OF slub_invD(1) [OF inv] fr(1) blk_nonempty(2), of ?f, OF zid nb this, folded unslab_def]
  show "source_inv (unslab (sl_mm \<sigma>) p)" by (rule ou(1))
  show "owned_block (unslab (sl_mm \<sigma>) p) = owned_block (sl_mm \<sigma>)" by (rule ou(2))
  show "clean_block (unslab (sl_mm \<sigma>) p) p ?k" by (rule fr(2))
qed

lemma discard_inv:
  assumes inv: "slub_inv K \<sigma> G" and g: "G p = Some g" "sb_cache g = s" and all: "slab_live \<sigma> p g = {}" and cv: "cpu_view \<sigma> s p = None"
    and mm: "uu_free_pages (unslab (sl_mm \<sigma>) p) p (sb_order g) = Some (sl_mm \<sigma>')"
    and o: "sl_mem \<sigma>' = sl_mem \<sigma>" "sl_caches \<sigma>' = sl_caches \<sigma>" "sl_cpus \<sigma>' = sl_cpus \<sigma>"
    and nodes: "\<And>a. a \<noteq> kc_node (sl_caches \<sigma> s) 0 \<Longrightarrow> sl_nodes \<sigma>' a = sl_nodes \<sigma> a"
    and pt: "partial (node_of \<sigma>' s) = remove1 p (partial (node_of \<sigma> s))" "nr_partial (node_of \<sigma>' s) = word_of_nat (length (partial (node_of \<sigma>' s)))"
  shows "slub_inv K \<sigma>' (G(p := None))" "live \<sigma>' (G(p := None)) = live \<sigma> G"
proof -
  let ?k = "sb_order g" and ?m = "unslab (sl_mm \<sigma>) p"
  note D = slab_okD [OF slub_invD(5) [OF inv g(1)], unfolded g(2)]
  have s: "s \<in> K" using slub_invD(4) [OF inv g(1)] g(2) by simp
  note un = unslab_source [OF inv g(1)]
  have src: "source_inv (sl_mm \<sigma>')" using ps.free_total [OF un(1,3)] mm by auto
  have cv': "cpu_view \<sigma>' s q = cpu_view \<sigma> s q" for q by (simp add: cpu_view_def cpu_of_def o)
  have ci: "cache_inv \<sigma> G s" by (rule slub_invD(3) [OF inv s])
  have dp: "distinct (partial (node_of \<sigma> s))" using ci by (simp add: cache_inv_def)
  show "slub_inv K \<sigma>' (G(p := None))"
  proof (rule inv_step [OF inv s src, where p = p and k = ?k])
    show "owned_block (sl_mm \<sigma>') q (sb_order h) \<and> blk q (sb_order h) \<inter> blk p ?k = {}
        \<and> (\<forall>x\<in>blk q (sb_order h). mm_map (sl_mm \<sigma>') x = mm_map (sl_mm \<sigma>) x)" if q: "G q = Some h" "q \<noteq> p" for q h
    proof -
      have d: "blk q (sb_order h) \<inter> blk p ?k = {}" by (rule slub_invD(6) [OF inv q(1) g(1) q(2)])
      have "owned_block (sl_mm \<sigma>) q (sb_order h)" using slab_okD(2) [OF slub_invD(5) [OF inv q(1)]] by (simp add: frames_ok_def)
      then have "owned_block ?m q (sb_order h)" using un(2) by simp
      note ff = ps.free_frame [OF un(1,3) mm this d]
      have "p \<notin> blk q (sb_order h)" using d blk_nonempty(2) [of p ?k] by blast
      then show ?thesis using ff d by (auto simp: unslab_def upd_page_def)
    qed
    show "cpu_view \<sigma>' s q = cpu_view \<sigma> s q \<and> (q \<in> set (partial (node_of \<sigma>' s))) = (q \<in> set (partial (node_of \<sigma> s)))" if "q \<noteq> p" for q
      using that cv' pt(1) by simp
    show "cache_inv \<sigma>' (G(p := None)) s"
    proof -
      have "c_page (cpu_of \<sigma> s) \<noteq> Some p" using cv by (auto simp: cpu_view_def split: if_splits)
      moreover have "cpu_of \<sigma>' s = cpu_of \<sigma> s" by (simp add: cpu_of_def o)
      ultimately show ?thesis using ci dp pt(2) unfolding cache_inv_def by (auto simp: pt(1) split: option.splits)
    qed
  qed (use o nodes g in auto)
  show "live \<sigma>' (G(p := None)) = live \<sigma> G"
    using live_same [OF o(2), of "G(p := None)"] live_split [of G p g \<sigma>, OF g(1)] all by simp
qed

lemma length_remove1_word: "p \<in> set l \<Longrightarrow> (word_of_nat (length l) :: ulong) - 1 = word_of_nat (length (remove1 p l))"
  by (cases "length l") (simp_all add: length_remove1)

lemma all_free:
  assumes inv: "slub_inv K \<sigma> G" and g: "G p = Some g" and l: "length (sb_free g) = sb_objects g"
  shows "set (sb_free g) = objs (kc_size (sl_caches \<sigma> (sb_cache g))) p (sb_objects g)"
proof (rule card_subset_eq)
  note D = slab_okD [OF slub_invD(5) [OF inv g]]
  show sub: "set (sb_free g) \<subseteq> objs (kc_size (sl_caches \<sigma> (sb_cache g))) p (sb_objects g)" using D(3) by (simp add: lists_ok_def)
  show fin: "finite (objs (kc_size (sl_caches \<sigma> (sb_cache g))) p (sb_objects g))" by (simp add: objs_def)
  have "card (set (sb_free g)) = sb_objects g" using D(3) l distinct_card [of "sb_free g"] by (simp add: lists_ok_def)
  moreover have "card (objs (kc_size (sl_caches \<sigma> (sb_cache g))) p (sb_objects g)) \<le> sb_objects g"
    unfolding objs_def using card_image_le [of "{..<sb_objects g}"] by simp
  ultimately show "card (set (sb_free g)) = card (objs (kc_size (sl_caches \<sigma> (sb_cache g))) p (sb_objects g))"
    using card_mono [OF fin sub] by simp
qed

lemma discard_run:
  assumes inv: "slub_inv K \<sigma> G" and g: "G p = Some g" "sb_cache g = s"
    and mm: "sl_mm \<sigma>1 = sl_mm \<sigma>" and ca: "sl_caches \<sigma>1 = sl_caches \<sigma>"
  shows "\<exists>mm'. uu_free_pages (unslab (sl_mm \<sigma>) p) p (sb_order g) = Some mm' \<and>
    discard_slab \<sigma>1 s p = Some (\<sigma>1\<lparr>sl_mm := mm', sl_reclaimed := map_option (\<lambda>r. r + push_bit (sb_order g) 1) (sl_reclaimed \<sigma>1)\<rparr>)"
proof -
  note D = slab_okD [OF slub_invD(5) [OF inv g(1)], unfolded g(2)]
  have fr: "owned_block (sl_mm \<sigma>) p (sb_order g)" "compound_block (mm_map (sl_mm \<sigma>)) p (sb_order g)" "clean_block (unslab (sl_mm \<sigma>) p) p (sb_order g)"
    using D(2) by (simp_all add: frames_ok_def)
  have "sb_order g < MAX_ORDER" using fr(1) by (auto simp: owned_block_def held_def)
  then have ord: "unat (compound_order (mm_map (sl_mm \<sigma>)) p) = sb_order g"
    using fr(2) by (simp add: compound_block_def unat_of_nat MAX_ORDER_def)
  have nr: "kc_flags (sl_caches \<sigma> s) AND SLAB_DESTROY_BY_RCU = 0" using inv_descr [OF inv g(1)] g(2) by (simp add: descr_ok_def)
  obtain mm' where m: "uu_free_pages (unslab (sl_mm \<sigma>) p) p (sb_order g) = Some mm'"
    using ps.free_total [OF unslab_source(1,3) [OF inv g(1)]] by blast
  then show ?thesis
    using ord nr mm by (simp add: discard_slab_def free_slab_def uu_free_slab_def Let_def ca set_pg_def unslab_def)
qed

text \<open>A slab is emptied exactly if the count of its objects in use drops to 0.\<close>

lemma card_objs:
  assumes inv: "slub_inv K \<sigma> G" and g: "G p = Some g" "sb_cache g = s"
  shows "card (objs (kc_size (sl_caches \<sigma> s)) p (sb_objects g)) = sb_objects g"
proof -
  let ?d = "sl_caches \<sigma> s"
  have r: "room_ok ?d p g" using slab_okD(1) [OF slub_invD(5) [OF inv g(1)]] g(2) by simp
  have pos: "0 < unat (kc_size ?d)" using descr_off [OF inv_descr [OF inv g(1)]] g(2) by simp
  have "inj_on (obj (kc_size ?d) p) {..<sb_objects g}"
  proof (rule inj_onI)
    fix i j assume "i \<in> {..<sb_objects g}" "j \<in> {..<sb_objects g}" and e: "obj (kc_size ?d) p i = obj (kc_size ?d) p j"
    then have "i * unat (kc_size ?d) = j * unat (kc_size ?d)"
      using unat_obj(1) [of i "sb_objects g" "kc_size ?d" "sb_order g" p] unat_obj(1) [of j "sb_objects g" "kc_size ?d" "sb_order g" p] r
      by (auto simp: room_ok_def)
    then show "i = j" using pos by simp
  qed
  then show ?thesis unfolding objs_def by (simp add: card_image)
qed

lemma last_in_use:
  assumes inv: "slub_inv K \<sigma> G" and g: "G p = Some g" "sb_cache g = s" and cv: "cpu_view \<sigma> s p = None"
    and x: "x \<in> objs (kc_size (sl_caches \<sigma> s)) p (sb_objects g)" "x \<notin> set (sb_free g)"
  defines "c \<equiv> pg_mapcount (pg \<sigma> p)"
  shows "inuse (set_inuse c (inuse c - 1)) = 0 \<longleftrightarrow> (\<forall>y. (s, y) \<in> live \<sigma> G \<and> virt_to_head_page \<sigma> y = p \<longrightarrow> y = x)"
proof -
  let ?O = "objs (kc_size (sl_caches \<sigma> s)) p (sb_objects g)"
  note D = slab_okD [OF slub_invD(5) [OF inv g(1)], unfolded g(2)]
  have emp: "sb_cpu g = []" using D(6) cv by simp
  have sub: "set (x # sb_free g) \<subseteq> ?O" using D(3) x(1) by (auto simp: lists_ok_def)
  have fin: "finite ?O" by (simp add: objs_def)
  have cd: "card (set (x # sb_free g)) = Suc (length (sb_free g))"
    using D(3) x(2) distinct_card [of "x # sb_free g"] by (simp add: lists_ok_def)
  have "inuse (set_inuse c (inuse c - 1)) = 0 \<longleftrightarrow> Suc (length (sb_free g)) = sb_objects g"
    using used_count(2) [OF inv g x, folded c_def] unat_eq_zero [of "inuse (set_inuse c (inuse c - 1))"] by linarith
  also have "\<dots> \<longleftrightarrow> set (x # sb_free g) = ?O"
    using card_subset_eq [OF fin sub] cd card_objs [OF inv g] by metis
  also have "\<dots> \<longleftrightarrow> (\<forall>y. (s, y) \<in> live \<sigma> G \<and> virt_to_head_page \<sigma> y = p \<longrightarrow> y = x)"
  proof
    assume e: "set (x # sb_free g) = ?O"
    show "\<forall>y. (s, y) \<in> live \<sigma> G \<and> virt_to_head_page \<sigma> y = p \<longrightarrow> y = x"
    proof (intro allI impI, elim conjE)
      fix y assume y: "(s, y) \<in> live \<sigma> G" "virt_to_head_page \<sigma> y = p"
      show "y = x" by (rule live_page [OF inv y(1)]) (use y(2) g e in auto)
    qed
  next
    assume a: "\<forall>y. (s, y) \<in> live \<sigma> G \<and> virt_to_head_page \<sigma> y = p \<longrightarrow> y = x"
    have "y \<in> set (x # sb_free g)" if y: "y \<in> ?O" for y
    proof (rule ccontr)
      assume n: "y \<notin> set (x # sb_free g)"
      then have "(s, y) \<in> live \<sigma> G" unfolding in_live using g y emp by (intro exI [of _ p] exI [of _ g]) simp
      then show False using a head_page [OF inv g y] n by simp
    qed
    then show "set (x # sb_free g) = ?O" using sub by blast
  qed
  finally show ?thesis .
qed

text \<open>Giving a block back adds its frames to the free pages.\<close>

lemma free_pages_frames:
  assumes "source_inv m" "clean_block m p k" "uu_free_pages m p k = Some m'"
  shows "(\<Union>i<MAX_NR_ZONES. free_pages (mm_zones m' i)) = (\<Union>i<MAX_NR_ZONES. free_pages (mm_zones m i)) \<union> blk p k"
proof -
  obtain i where i: "in_use_block m i p k" using assms(2) by (auto simp: clean_block_def)
  have inv: "mm_inv m" using assms(1) by (simp add: source_inv_def)
  have f: "freed_block m i p k m'" "i < MAX_NR_ZONES" using free_pages_spec [OF inv i] assms(3) i by (auto simp: in_use_block_def)
  have "free_pages (mm_zones m' j) = (if j = i then free_pages (mm_zones m i) \<union> blk p k else free_pages (mm_zones m j))" for j
    using f(1) by (simp add: freed_block_def kept_def)
  then show ?thesis using f(2) by (auto split: if_splits)
qed

lemma slow_free_spec:
  assumes inv: "slub_inv K \<sigma> G" and g: "G p = Some g" "sb_cache g = s" and cv: "cpu_view \<sigma> s p = None"
    and x: "x \<in> objs (kc_size (sl_caches \<sigma> s)) p (sb_objects g)" "x \<notin> set (sb_free g @ sb_cpu g)"
    and fl: "kc_flags (sl_caches \<sigma> s) AND CMPXCHG_DOUBLE = 0"
  shows "\<exists>\<sigma>'. uu_slab_free \<sigma> s p x = Some \<sigma>' \<and> free_ok K \<sigma> G s x \<sigma>'"
proof -
  define n where "n = kc_node (sl_caches \<sigma> s) 0"
  define prior where "prior = pg_freelist (pg \<sigma> p)"
  define c where "c = pg_mapcount (pg \<sigma> p)"
  define \<sigma>1 where "\<sigma>1 = set_pg (set_freepointer \<sigma> s x prior) p (\<lambda>q. q\<lparr>pg_freelist := x, pg_mapcount := set_inuse c (inuse c - 1)\<rparr>)"
  define \<sigma>2 where "\<sigma>2 = (if prior = 0 then add_partial \<sigma>1 n p True else \<sigma>1)"
  define g' where "g' = g\<lparr>sb_free := x # sb_free g, sb_cpu := []\<rparr>"
  have xf: "x \<notin> set (sb_free g)" using x(2) by simp
  have nz: "n \<noteq> 0" using inv_descr [OF inv g(1)] g(2) by (simp add: descr_ok_def n_def)
  note run = slow_free_run [OF fl nz [unfolded n_def], of p x, folded prior_def c_def n_def, folded \<sigma>1_def]
  note put = put_inv(1,2) [OF inv g cv x(1) xf, of True, folded prior_def c_def n_def, folded \<sigma>1_def, folded \<sigma>2_def g'_def]
  note pf = put_inv(3,4) [OF inv g cv x(1) xf, folded prior_def c_def]
  have l: "(s, x) \<in> live \<sigma> G" using g x unfolding in_live by blast
  have e2: "sl_caches \<sigma>2 = sl_caches \<sigma>" "sl_preempt \<sigma>2 = sl_preempt \<sigma>" "sl_irqs \<sigma>2 = sl_irqs \<sigma>"
    "sl_mem \<sigma>2 = write_word (sl_mem \<sigma>) (x + offset (sl_caches \<sigma> s)) prior" "sl_mm \<sigma>2 = sl_mm \<sigma>1" "sl_caches \<sigma>1 = sl_caches \<sigma>"
    "mm_zones (sl_mm \<sigma>2) = mm_zones (sl_mm \<sigma>)"
    by (simp_all add: \<sigma>2_def \<sigma>1_def add_partial_def upd_page_def)
  have cp: "c_page (cpu_of \<sigma> s) \<noteq> Some p" using cv by (auto simp: cpu_view_def split: if_splits)
  have em: "emptied \<sigma> G s x \<longleftrightarrow> inuse (set_inuse c (inuse c - 1)) = 0 \<and> nr_partial (sl_nodes \<sigma> n) > min_partial (sl_caches \<sigma> s)"
    using last_in_use [OF inv g cv x(1) xf, folded c_def] cp head_page [OF inv g x(1)]
    by (simp add: emptied_def node_of_def n_def del: counters_set)
  show ?thesis
  proof (cases "inuse (set_inuse c (inuse c - 1)) = 0 \<and> nr_partial (sl_nodes \<sigma> n) > min_partial (sl_caches \<sigma> s)")
    case False
    then have r: "uu_slab_free \<sigma> s p x = Some \<sigma>2" using run pf(1) by (auto simp: \<sigma>2_def)
    have "free_ok K \<sigma> G s x \<sigma>2"
      unfolding free_ok_def returned_frames_def free_frames_def using False em put(1,2) e2 link_not_user [OF inv l e2(1) put(2)] by auto
    then show ?thesis using r by blast
  next
    case True
    let ?G = "G(p \<mapsto> g')"
    define \<sigma>3 where "\<sigma>3 = (if prior \<noteq> 0 then remove_partial \<sigma>1 n p else \<sigma>1)"
    have r: "uu_slab_free \<sigma> s p x = discard_slab \<sigma>3 s p" using run pf(1) True by (simp add: \<sigma>3_def)
    have gp: "?G p = Some g'" "sb_cache g' = s" "sb_order g' = sb_order g" using g(2) by (simp_all add: g'_def)
    have e3: "sl_mm \<sigma>3 = sl_mm \<sigma>2" "sl_caches \<sigma>3 = sl_caches \<sigma>2" "sl_mem \<sigma>3 = sl_mem \<sigma>2" "sl_cpus \<sigma>3 = sl_cpus \<sigma>2" "sl_preempt \<sigma>3 = sl_preempt \<sigma>2" "sl_irqs \<sigma>3 = sl_irqs \<sigma>2"
      by (simp_all add: \<sigma>3_def \<sigma>2_def remove_partial_def add_partial_def)
    obtain mm' where m: "uu_free_pages (unslab (sl_mm \<sigma>2) p) p (sb_order g') = Some mm'"
      "discard_slab \<sigma>3 s p = Some (\<sigma>3\<lparr>sl_mm := mm', sl_reclaimed := map_option (\<lambda>r. r + push_bit (sb_order g') 1) (sl_reclaimed \<sigma>3)\<rparr>)"
      using discard_run [OF put(1) gp(1,2) e3(1,2)] by blast
    define \<sigma>' where "\<sigma>' = \<sigma>3\<lparr>sl_mm := mm', sl_reclaimed := map_option (\<lambda>r. r + push_bit (sb_order g') 1) (sl_reclaimed \<sigma>3)\<rparr>"
    have e4: "sl_mm \<sigma>' = mm'" "sl_caches \<sigma>' = sl_caches \<sigma>2" "sl_mem \<sigma>' = sl_mem \<sigma>2" "sl_cpus \<sigma>' = sl_cpus \<sigma>2" "sl_preempt \<sigma>' = sl_preempt \<sigma>2" "sl_irqs \<sigma>' = sl_irqs \<sigma>2"
      "sl_nodes \<sigma>' = sl_nodes \<sigma>3" "node_of \<sigma>' s = node_of \<sigma>3 s"
      using e3 by (simp_all add: \<sigma>'_def node_of_def)
    have nodes: "sl_nodes \<sigma>' a = sl_nodes \<sigma>2 a" if "a \<noteq> kc_node (sl_caches \<sigma>2 s) 0" for a
      using that e2 by (simp add: e4 \<sigma>3_def \<sigma>2_def remove_partial_def add_partial_def n_def)
    have np: "prior = 0 \<Longrightarrow> p \<notin> set (partial (node_of \<sigma> s))" using slab_okD(8) [OF slub_invD(5) [OF inv g(1)]] g(2) pf(2) by simp
    have nd: "node_of \<sigma>1 s = node_of \<sigma> s" by (simp add: \<sigma>1_def)
    have nc: "n = kc_node (sl_caches \<sigma>1 s) 0" by (simp add: n_def e2)
    have pt: "partial (node_of \<sigma>' s) = remove1 p (partial (node_of \<sigma>2 s))"
      using np nd nc by (simp add: e4 \<sigma>3_def \<sigma>2_def remove_partial_def add_partial_def remove1_append)
    have s: "s \<in> K" using slub_invD(4) [OF inv g(1)] g(2) by simp
    have pn: "p \<in> set (partial (node_of \<sigma> s)) \<longleftrightarrow> prior \<noteq> 0" using slab_okD(8) [OF slub_invD(5) [OF inv g(1)]] g(2) pf(2) cv by simp
    have "nr_partial (node_of \<sigma> s) = word_of_nat (length (partial (node_of \<sigma> s)))"
      using slub_invD(3) [OF inv s] by (simp add: cache_inv_def)
    then have nr: "nr_partial (node_of \<sigma>' s) = word_of_nat (length (partial (node_of \<sigma>' s)))"
      using pn nd nc length_remove1_word by (auto simp: e4 \<sigma>3_def remove_partial_def)
    have all: "slab_live \<sigma>2 p g' = {}"
    proof -
      have z: "length (sb_free g') = sb_objects g'" using used_count(2) [OF inv g x(1) xf, folded c_def] True by (simp add: g'_def del: counters_set)
      show ?thesis using all_free [OF put(1) gp(1) z] by (auto simp: slab_live_def)
    qed
    have cv2: "cpu_view \<sigma>2 s p = None" using cv by (simp add: cpu_view_def \<sigma>2_def \<sigma>1_def add_partial_def split: if_splits)
    note di = discard_inv [where G = ?G, OF put(1) gp(1,2) all cv2, of \<sigma>', OF m(1)[folded e4(1)] e4(3,2,4) nodes pt nr]
    have ca': "sl_caches \<sigma>' = sl_caches \<sigma>" using e4 e2 by simp
    have lv: "live \<sigma>' (?G(p := None)) = live \<sigma> G - {(s, x)}" using di(2) put(2) by simp
    have "mm_zones (unslab (sl_mm \<sigma>2) p) = mm_zones (sl_mm \<sigma>)" using e2(7) by (simp add: unslab_def upd_page_def)
    then have "free_frames \<sigma>' = free_frames \<sigma> \<union> blk p (sb_order g)"
      using free_pages_frames [OF unslab_source(1,3) [OF put(1) gp(1)] m(1)] by (simp add: free_frames_def e4 gp(3))
    then have "free_frames \<sigma>' = free_frames \<sigma> \<union> returned_frames \<sigma> G s x"
      using True em head_page [OF inv g x(1)] g(1) by (simp add: returned_frames_def)
    then have "free_ok K \<sigma> G s x \<sigma>'"
      unfolding free_ok_def using di(1) lv e2 e4 link_not_user [OF inv l ca' lv] by auto
    then show ?thesis using r m(2) by (auto simp: \<sigma>'_def)
  qed
qed

lemma kfree_run: "slub_inv K \<sigma> G \<Longrightarrow> (s, x) \<in> live \<sigma> G \<Longrightarrow> kfree \<sigma> x = slab_free s (virt_to_head_page \<sigma> x) x \<sigma>"
  by (elim live_page) (auto simp: kfree_def Let_def)

lemma slab_free_other: "c_page (cpu_of \<sigma> s) \<noteq> Some p \<Longrightarrow> slab_free s p x \<sigma> = uu_slab_free \<sigma> s p x"
  by (subst slab_free.simps) (auto simp: Let_def)

lemma kfree_spec:
  assumes inv: "slub_inv K \<sigma> G" and l: "(s, x) \<in> live \<sigma> G"
    and c: "c_page (cpu_of \<sigma> s) = Some (virt_to_head_page \<sigma> x) \<or> kc_flags (sl_caches \<sigma> s) AND CMPXCHG_DOUBLE = 0"
  shows "\<exists>\<sigma>'. kfree \<sigma> x = Some \<sigma>' \<and> free_ok K \<sigma> G s x \<sigma>'"
proof -
  let ?p = "virt_to_head_page \<sigma> x"
  obtain g where g: "G ?p = Some g" "sb_cache g = s" "x \<in> objs (kc_size (sl_caches \<sigma> s)) ?p (sb_objects g)" "x \<notin> set (sb_free g @ sb_cpu g)"
    by (rule live_page [OF inv l]) blast
  have s: "s \<in> K" using slub_invD(4) [OF inv g(1)] g(2) by simp
  show ?thesis
  proof (cases "c_page (cpu_of \<sigma> s) = Some ?p")
    case True
    then show ?thesis unfolding kfree_run [OF inv l] by (rule fast_free_spec [OF inv s _ g(1,3,4)])
  next
    case False
    then have "cpu_view \<sigma> s ?p = None" by (simp add: cpu_view_def)
    then show ?thesis unfolding kfree_run [OF inv l] slab_free_other [OF False] using slow_free_spec [OF inv g(1,2) _ g(3,4)] c False by blast
  qed
qed

section \<open>The lock-free release of an object does not return\<close>

lemma redo_never:
  assumes "P \<sigma>" and step: "\<And>\<sigma>. P \<sigma> \<Longrightarrow> \<exists>\<sigma>'. f \<sigma> = (\<sigma>', None) \<and> P \<sigma>'"
  shows "redo f \<sigma> = None"
proof -
  have "g = f \<longrightarrow> \<not> P \<rho>" if "redo g \<rho> = Some y" for g \<rho> y
  proof (rule redo.raw_induct [where P = "\<lambda>g \<rho> y. g = f \<longrightarrow> \<not> P \<rho>", OF _ that], intro impI notI)
    fix re g \<rho> y
    assume ih: "\<And>g \<rho> y. re g \<rho> = Some y \<Longrightarrow> g = f \<longrightarrow> \<not> P \<rho>"
      and r: "(case g \<rho> of (\<rho>', None) \<Rightarrow> re g \<rho>' | (\<rho>', Some x) \<Rightarrow> Some (\<rho>', x)) = Some y" and g: "g = f" "P \<rho>"
    obtain \<rho>' where n: "f \<rho> = (\<rho>', None)" "P \<rho>'" using step g(2) by blast
    then have "re g \<rho>' = Some y" using r g(1) by simp
    then show False using ih g(1) n(2) by blast
  qed
  then show ?thesis using assms(1) by (cases "redo f \<sigma>") auto
qed

lemma slow_free_never:
  assumes fl: "kc_flags (sl_caches \<sigma> s) AND CMPXCHG_DOUBLE \<noteq> 0" and pp: "page_ptr \<sigma> p \<noteq> pg_freelist (pg \<sigma> p)"
  shows "uu_slab_free \<sigma> s p x = None"
proof -
  let ?P = "\<lambda>(\<rho>, n :: ulong). kc_flags (sl_caches \<rho> s) AND CMPXCHG_DOUBLE \<noteq> 0 \<and> page_ptr \<rho> p \<noteq> pg_freelist (pg \<rho> p)"
  have pp': "page_ptr (set_freepointer \<rho> s x v) p = page_ptr \<rho> p" "page_ptr (\<rho>\<lparr>sl_irqs := b, sl_preempt := c\<rparr>) p = page_ptr \<rho> p"
    "page_ptr (\<rho>\<lparr>sl_preempt := c\<rparr>) p = page_ptr \<rho> p" "page_ptr (\<rho>\<lparr>sl_irqs := b\<rparr>) p = page_ptr \<rho> p" for \<rho> v b c
    by (simp_all add: page_ptr_def)
  have "redo (\<lambda>(\<sigma>, n).
         let prior = pg_freelist (pg \<sigma> p);
             counters = pg_mapcount (pg \<sigma> p);
             \<sigma> = set_freepointer \<sigma> s x prior;
             was_frozen = frozen counters;
             new = set_inuse counters (inuse counters - 1);
             take = ((inuse new = 0 \<or> prior = 0) \<and> \<not> was_frozen \<and> n = 0);
             n = (if take then get_node \<sigma> s (page_to_nid (pg \<sigma> p)) else n);
             \<sigma> = (if take then spin_lock (local_irq_disable \<sigma>) else \<sigma>)
         in case cmpxchg_double_slab \<sigma> s p prior counters x new of
              (\<sigma>, ok) \<Rightarrow> ((\<sigma>, n), if ok then Some (prior, inuse new, was_frozen) else None)) (\<sigma>, 0) = None"
  proof (rule redo_never [where P = ?P])
    show "?P (\<sigma>, 0)" using fl pp by simp
  qed (auto simp: Let_def cmpxchg_double_slab_def lock_defs pp' split: prod.splits)
  then show ?thesis unfolding uu_slab_free_def by (simp only: Let_def bind.simps)
qed

end
