(* ===== verification/Slub_Heap.thy ===== *)
theory Slub_Heap
  imports Slub_Alloc
begin

text \<open>
  The slab allocator of \<^verbatim>\<open>mm/slub.c\<close> refines an abstract heap: the runs of the allocator and its
  clients are runs of a heap in which objects never overlap and keep their contents. The properties
  of the allocator are stated here, with an example state as their witness.
\<close>

unbundle bit_operations_syntax

section \<open>Any release\<close>

lemma kfree_result:
  assumes inv: "slub_inv K \<sigma> G" and l: "(s, x) \<in> live \<sigma> G"
    and pp: "page_ptr \<sigma> (virt_to_head_page \<sigma> x) \<noteq> pg_freelist (pg \<sigma> (virt_to_head_page \<sigma> x))" and run: "kfree \<sigma> x = Some \<sigma>'"
  shows "free_ok K \<sigma> G s x \<sigma>'"
proof (cases "c_page (cpu_of \<sigma> s) = Some (virt_to_head_page \<sigma> x) \<or> kc_flags (sl_caches \<sigma> s) AND CMPXCHG_DOUBLE = 0")
  case True
  then show ?thesis using kfree_spec [OF inv l] run by auto
next
  case False
  then have "kfree \<sigma> x = None" unfolding kfree_run [OF inv l] using slab_free_other slow_free_never [OF _ pp] by simp
  then show ?thesis using run by simp
qed

section \<open>An abstract heap\<close>

text \<open>What a client of the allocator sees: the objects it holds and the bytes of these objects.
  Allocation yields an object apart from all others with unknown contents.\<close>

type_synonym heap = "(ulong \<times> ulong) set \<times> (ulong \<rightharpoonup> 8 word)"

datatype event = Alloc ulong ulong | Fail ulong | Free ulong ulong | Write ulong "8 word"

definition span_of :: "(ulong \<Rightarrow> nat) \<Rightarrow> ulong \<Rightarrow> ulong \<Rightarrow> ulong set" where
  "span_of sz s x = {a. unat x \<le> unat a \<and> unat a < unat x + sz s}"

inductive heap_step :: "(ulong \<Rightarrow> nat) \<Rightarrow> heap \<Rightarrow> event \<Rightarrow> heap \<Rightarrow> bool" for sz where
  heap_alloc: "(s, x) \<notin> L \<Longrightarrow> span_of sz s x \<inter> dom m = {} \<Longrightarrow> dom m' = dom m \<union> span_of sz s x \<Longrightarrow> m \<subseteq>\<^sub>m m' \<Longrightarrow>
    heap_step sz (L, m) (Alloc s x) (insert (s, x) L, m')"
| heap_fail: "heap_step sz (L, m) (Fail s) (L, m)"
| heap_free: "(s, x) \<in> L \<Longrightarrow> heap_step sz (L, m) (Free s x) (L - {(s, x)}, m |` (- span_of sz s x))"
| heap_write: "a \<in> dom m \<Longrightarrow> heap_step sz (L, m) (Write a v) (L, m(a \<mapsto> v))"

text \<open>The steps of the allocator and its clients. The page frames are not objects: the address of the
  frame of a slab is not the first object of its free list.\<close>

inductive slub_step :: "ulong set \<Rightarrow> slub \<Rightarrow> event \<Rightarrow> slub \<Rightarrow> bool" for K where
  slub_alloc: "s \<in> K \<Longrightarrow> kmem_cache_alloc \<sigma> s gf = Some (\<sigma>', x) \<Longrightarrow> x \<noteq> 0 \<Longrightarrow> slub_step K \<sigma> (Alloc s x) \<sigma>'"
| slub_fail: "s \<in> K \<Longrightarrow> kmem_cache_alloc \<sigma> s gf = Some (\<sigma>', 0) \<Longrightarrow> slub_step K \<sigma> (Fail s) \<sigma>'"
| slub_free: "page_ptr \<sigma> (virt_to_head_page \<sigma> x) \<noteq> pg_freelist (pg \<sigma> (virt_to_head_page \<sigma> x)) \<Longrightarrow> kfree \<sigma> x = Some \<sigma>' \<Longrightarrow>
    slub_step K \<sigma> (Free s x) \<sigma>'"
| slub_write: "slub_step K \<sigma> (Write a v) (\<sigma>\<lparr>sl_mem := (sl_mem \<sigma>)(a := v)\<rparr>)"

text \<open>A client is well behaved when it frees only objects it holds, and writes only to them.\<close>

primrec legal :: "(ulong \<Rightarrow> nat) \<Rightarrow> (ulong \<times> ulong) set \<Rightarrow> event \<Rightarrow> bool" where
  "legal sz L (Alloc s x) \<longleftrightarrow> True"
| "legal sz L (Fail s) \<longleftrightarrow> True"
| "legal sz L (Free s x) \<longleftrightarrow> (s, x) \<in> L"
| "legal sz L (Write a v) \<longleftrightarrow> (\<exists>(s, x)\<in>L. a \<in> span_of sz s x)"

primrec held_after :: "(ulong \<times> ulong) set \<Rightarrow> event \<Rightarrow> (ulong \<times> ulong) set" where
  "held_after L (Alloc s x) = insert (s, x) L"
| "held_after L (Fail s) = L"
| "held_after L (Free s x) = L - {(s, x)}"
| "held_after L (Write a v) = L"

primrec legal_run :: "(ulong \<Rightarrow> nat) \<Rightarrow> (ulong \<times> ulong) set \<Rightarrow> event list \<Rightarrow> bool" where
  "legal_run sz L [] \<longleftrightarrow> True"
| "legal_run sz L (e # es) \<longleftrightarrow> legal sz L e \<and> legal_run sz (held_after L e) es"

primrec runs :: "('s \<Rightarrow> event \<Rightarrow> 's \<Rightarrow> bool) \<Rightarrow> 's \<Rightarrow> event list \<Rightarrow> 's \<Rightarrow> bool" where
  "runs R \<sigma> [] \<sigma>' \<longleftrightarrow> \<sigma>' = \<sigma>"
| "runs R \<sigma> (e # es) \<sigma>' \<longleftrightarrow> (\<exists>\<sigma>1. R \<sigma> e \<sigma>1 \<and> runs R \<sigma>1 es \<sigma>')"

definition size_of :: "slub \<Rightarrow> ulong \<Rightarrow> nat" where "size_of \<sigma> s = unat (kc_size (sl_caches \<sigma> s))"

definition heap_view :: "slub \<Rightarrow> (nat \<rightharpoonup> slab) \<Rightarrow> heap" where
  "heap_view \<sigma> G = (live \<sigma> G, (\<lambda>a. Some (sl_mem \<sigma> a)) |` user_bytes \<sigma> G)"

section \<open>The allocator implements it\<close>

lemma range_span: "obj_range \<sigma> s x = span_of (size_of \<sigma>) s x"
  by (simp add: obj_range_def span_of_def size_of_def)

lemma user_span: "user_bytes \<sigma> G = (\<Union>(s, x)\<in>live \<sigma> G. span_of (size_of \<sigma>) s x)"
  by (auto simp: user_bytes_def range_span)

lemma size_cong: "sl_caches \<sigma>' = sl_caches \<sigma> \<Longrightarrow> size_of \<sigma>' = size_of \<sigma>"
  by (simp add: size_of_def fun_eq_iff)

lemma alloc_refines:
  assumes "slub_inv K \<sigma> G" and s: "s \<in> K" and ok: "alloc_ok K \<sigma> G s gf flags \<sigma>' x"
  shows "\<exists>G'. slub_inv K \<sigma>' G' \<and> heap_step (size_of \<sigma>) (heap_view \<sigma> G) (if x = 0 then Fail s else Alloc s x) (heap_view \<sigma>' G')"
proof -
  have ca: "sl_caches \<sigma>' = sl_caches \<sigma>" and mem: "\<And>a. a \<in> user_bytes \<sigma> G \<Longrightarrow> sl_mem \<sigma>' a = sl_mem \<sigma> a" using ok by (simp_all add: alloc_ok_def)
  note sz = size_cong [OF ca]
  obtain G' where G': "slub_inv K \<sigma>' G'" "if x = 0 then live \<sigma>' G' = live \<sigma> G else (s, x) \<notin> live \<sigma> G \<and> live \<sigma>' G' = insert (s, x) (live \<sigma> G)"
    using ok by (auto simp: alloc_ok_def split: if_splits)
  show ?thesis
  proof (cases "x = 0")
    case True
    then have l: "live \<sigma>' G' = live \<sigma> G" using G'(2) by simp
    then have "heap_view \<sigma>' G' = heap_view \<sigma> G"
      using mem user_bytes_cong [OF ca l] by (auto simp: heap_view_def restrict_map_def fun_eq_iff)
    then show ?thesis using True G'(1) heap_step.heap_fail [of "size_of \<sigma>"] by (auto simp: heap_view_def)
  next
    case False
    then have l: "(s, x) \<notin> live \<sigma> G" "live \<sigma>' G' = insert (s, x) (live \<sigma> G)" using G'(2) by simp_all
    have u: "user_bytes \<sigma>' G' = user_bytes \<sigma> G \<union> span_of (size_of \<sigma>) s x" by (auto simp: user_span sz l(2))
    have "span_of (size_of \<sigma>) s x \<inter> span_of (size_of \<sigma>) t y = {}" if "(t, y) \<in> live \<sigma> G" for t y
      using live_apart [OF G'(1), of s x t y] that l unfolding range_span sz by auto
    then have d: "span_of (size_of \<sigma>) s x \<inter> user_bytes \<sigma> G = {}" by (auto simp: user_span)
    have "heap_step (size_of \<sigma>) (heap_view \<sigma> G) (Alloc s x) (heap_view \<sigma>' G')"
      unfolding heap_view_def l(2) by (rule heap_step.heap_alloc) (use l(1) d u mem in \<open>auto simp: map_le_def dom_def restrict_map_def split: if_splits\<close>)
    then show ?thesis using False G'(1) by auto
  qed
qed

lemma free_refines:
  assumes inv: "slub_inv K \<sigma> G" and l: "(s, x) \<in> live \<sigma> G" and ok: "free_ok K \<sigma> G s x \<sigma>'"
  shows "\<exists>G'. slub_inv K \<sigma>' G' \<and> heap_step (size_of \<sigma>) (heap_view \<sigma> G) (Free s x) (heap_view \<sigma>' G')"
proof -
  have ca: "sl_caches \<sigma>' = sl_caches \<sigma>" using ok by (simp add: free_ok_def)
  note sz = size_cong [OF ca]
  obtain G' where G': "slub_inv K \<sigma>' G'" "live \<sigma>' G' = live \<sigma> G - {(s, x)}" "\<And>a. a \<in> user_bytes \<sigma>' G' \<Longrightarrow> sl_mem \<sigma>' a = sl_mem \<sigma> a"
    using ok by (auto simp: free_ok_def)
  have "span_of (size_of \<sigma>) s x \<inter> span_of (size_of \<sigma>) t y = {}" if "(t, y) \<in> live \<sigma> G - {(s, x)}" for t y
    using live_apart [OF inv l, of t y] that unfolding range_span by auto
  then have u: "user_bytes \<sigma>' G' = user_bytes \<sigma> G - span_of (size_of \<sigma>) s x" unfolding user_span sz G'(2) by blast
  have "heap_view \<sigma>' G' = (live \<sigma> G - {(s, x)}, (\<lambda>a. Some (sl_mem \<sigma> a)) |` user_bytes \<sigma> G |` (- span_of (size_of \<sigma>) s x))"
    using G'(2,3) u by (auto simp: heap_view_def restrict_map_def fun_eq_iff)
  moreover have "heap_view \<sigma> G = (live \<sigma> G, (\<lambda>a. Some (sl_mem \<sigma> a)) |` user_bytes \<sigma> G)" by (simp add: heap_view_def)
  ultimately show ?thesis using G'(1) heap_step.heap_free [OF l] by metis
qed

lemma write_refines:
  assumes inv: "slub_inv K \<sigma> G" and a: "a \<in> user_bytes \<sigma> G"
  shows "slub_inv K (\<sigma>\<lparr>sl_mem := (sl_mem \<sigma>)(a := v)\<rparr>) G"
    "heap_step (size_of \<sigma>) (heap_view \<sigma> G) (Write a v) (heap_view (\<sigma>\<lparr>sl_mem := (sl_mem \<sigma>)(a := v)\<rparr>) G)"
proof -
  let ?\<sigma> = "\<sigma>\<lparr>sl_mem := (sl_mem \<sigma>)(a := v)\<rparr>"
  show "slub_inv K ?\<sigma> G" by (rule user_write [OF inv]) (use a in auto)
  have l: "live ?\<sigma> G = live \<sigma> G" by (rule live_same) simp
  then have "user_bytes ?\<sigma> G = user_bytes \<sigma> G" by (intro user_bytes_cong) simp_all
  then have "heap_view ?\<sigma> G = (live \<sigma> G, ((\<lambda>b. Some (sl_mem \<sigma> b)) |` user_bytes \<sigma> G)(a \<mapsto> v))"
    using a l by (auto simp: heap_view_def restrict_map_def fun_eq_iff)
  moreover have "heap_view \<sigma> G = (live \<sigma> G, (\<lambda>b. Some (sl_mem \<sigma> b)) |` user_bytes \<sigma> G)" by (simp add: heap_view_def)
  moreover have "a \<in> dom ((\<lambda>b. Some (sl_mem \<sigma> b)) |` user_bytes \<sigma> G)" using a by simp
  ultimately show "heap_step (size_of \<sigma>) (heap_view \<sigma> G) (Write a v) (heap_view ?\<sigma> G)"
    using heap_step.heap_write by metis
qed

lemma step_refines:
  assumes inv: "slub_inv K \<sigma> G" and st: "slub_step K \<sigma> e \<sigma>'" and ok: "legal (size_of \<sigma>) (live \<sigma> G) e"
  shows "\<exists>G'. slub_inv K \<sigma>' G' \<and> heap_step (size_of \<sigma>) (heap_view \<sigma> G) e (heap_view \<sigma>' G') \<and> live \<sigma>' G' = held_after (live \<sigma> G) e \<and> size_of \<sigma>' = size_of \<sigma>"
proof -
  have fin: "live \<sigma>' G' = held_after (live \<sigma> G) e" if "heap_step (size_of \<sigma>) (heap_view \<sigma> G) e (heap_view \<sigma>' G')" for G'
    using that by (cases rule: heap_step.cases) (auto simp: heap_view_def)
  have "\<exists>G'. slub_inv K \<sigma>' G' \<and> heap_step (size_of \<sigma>) (heap_view \<sigma> G) e (heap_view \<sigma>' G') \<and> size_of \<sigma>' = size_of \<sigma>"
    using st
  proof cases
    case (slub_alloc s gf x)
    then have a: "alloc_ok K \<sigma> G s gf (sl_irqs \<sigma>) \<sigma>' x" using slab_alloc_spec [OF inv, of s NUMA_NO_NODE gf] by (auto simp: kmem_cache_alloc_def)
    have "size_of \<sigma>' = size_of \<sigma>" by (rule size_cong) (use a in \<open>simp add: alloc_ok_def\<close>)
    then show ?thesis using alloc_refines [OF inv slub_alloc(2) a] slub_alloc by simp
  next
    case (slub_fail s gf)
    then have a: "alloc_ok K \<sigma> G s gf (sl_irqs \<sigma>) \<sigma>' 0" using slab_alloc_spec [OF inv, of s NUMA_NO_NODE gf] by (auto simp: kmem_cache_alloc_def)
    have "size_of \<sigma>' = size_of \<sigma>" by (rule size_cong) (use a in \<open>simp add: alloc_ok_def\<close>)
    then show ?thesis using alloc_refines [OF inv slub_fail(2) a] slub_fail by simp
  next
    case (slub_free x s)
    then have l: "(s, x) \<in> live \<sigma> G" using ok by simp
    have "free_ok K \<sigma> G s x \<sigma>'" by (rule kfree_result [OF inv l]) (use slub_free in auto)
    moreover from this have "size_of \<sigma>' = size_of \<sigma>" by (intro size_cong) (simp add: free_ok_def)
    ultimately show ?thesis using free_refines [OF inv l] slub_free by simp
  next
    case (slub_write a v)
    then have "a \<in> user_bytes \<sigma> G" using ok by (auto simp: user_span)
    moreover have "size_of \<sigma>' = size_of \<sigma>" using slub_write by (intro size_cong) simp
    ultimately show ?thesis using write_refines [OF inv] slub_write by blast
  qed
  then show ?thesis using fin by blast
qed

lemma heap_run_refines:
  assumes "slub_inv K \<sigma> G" "runs (slub_step K) \<sigma> es \<sigma>'" "legal_run (size_of \<sigma>) (live \<sigma> G) es"
  shows "\<exists>G'. slub_inv K \<sigma>' G' \<and> runs (heap_step (size_of \<sigma>)) (heap_view \<sigma> G) es (heap_view \<sigma>' G')"
  using assms
proof (induction es arbitrary: \<sigma> G)
  case (Cons e es)
  obtain \<sigma>1 where s1: "slub_step K \<sigma> e \<sigma>1" "runs (slub_step K) \<sigma>1 es \<sigma>'" using Cons.prems(2) by auto
  obtain G1 where G1: "slub_inv K \<sigma>1 G1" "heap_step (size_of \<sigma>) (heap_view \<sigma> G) e (heap_view \<sigma>1 G1)" "live \<sigma>1 G1 = held_after (live \<sigma> G) e" "size_of \<sigma>1 = size_of \<sigma>"
    using step_refines [OF Cons.prems(1) s1(1)] Cons.prems(3) by auto
  have "\<exists>G'. slub_inv K \<sigma>' G' \<and> runs (heap_step (size_of \<sigma>)) (heap_view \<sigma>1 G1) es (heap_view \<sigma>' G')"
    using Cons.IH [OF G1(1) s1(2)] Cons.prems(3) G1(3,4) by simp
  then show ?case using G1(2) by (metis runs.simps(2))
qed auto

text \<open>In the abstract heap the objects do not overlap, and their bytes are exactly the known ones.\<close>

definition heap_ok :: "(ulong \<Rightarrow> nat) \<Rightarrow> heap \<Rightarrow> bool" where
  "heap_ok sz h \<longleftrightarrow> dom (snd h) = (\<Union>(s, x)\<in>fst h. span_of sz s x)
     \<and> (\<forall>(s, x)\<in>fst h. \<forall>(t, y)\<in>fst h. (s, x) \<noteq> (t, y) \<longrightarrow> span_of sz s x \<inter> span_of sz t y = {})"

lemma heap_view_ok: "slub_inv K \<sigma> G \<Longrightarrow> heap_ok (size_of \<sigma>) (heap_view \<sigma> G)"
  using live_apart [of K \<sigma> G] unfolding range_span by (fastforce simp: heap_ok_def heap_view_def user_span)


section \<open>An example\<close>

text \<open>A cache of objects of one page, before the first allocation, and with one object in use.\<close>

definition example_cache :: "ulong \<Rightarrow> kmem_cache" where
  "example_cache flags = zero_cache\<lparr>objsize := 4096, kc_size := 4096, kc_oo := 1, kc_min := 1, kc_node := (\<lambda>_. 0x1000), cpu_slab := 0x2000,
     kc_flags := flags\<rparr>"

definition example_slub :: "mm \<Rightarrow> ulong \<Rightarrow> slub" where
  "example_slub m flags = \<lparr>sl_mm = m, sl_mem = (\<lambda>_. 0), sl_caches = (\<lambda>_. example_cache flags),
     sl_cpus = (\<lambda>_. \<lparr>c_freelist = 0, c_tid = 0, c_page = None, c_node = 0\<rparr>), sl_nodes = (\<lambda>_. \<lparr>nr_partial = 0, partial = []\<rparr>),
     sl_preempt = 0, sl_irqs = True, sl_slab_pages = (\<lambda>_ _. 0), sl_reclaimed = None, sl_state = UP, slab_caches = [1],
     kmalloc_caches = (\<lambda>_. 1), kmalloc_dma_caches = (\<lambda>_. 0), sl_kmem_cache = 0, sl_kmem_cache_node = 0,
     sl_mem_map = 0xC1000000, sl_stack = 0\<rparr>"

abbreviation empty_slub :: "ulong \<Rightarrow> slub" where "empty_slub \<equiv> example_slub freed_mm"
abbreviation full_slub :: "ulong \<Rightarrow> slub" where "full_slub \<equiv> example_slub (upd_page used_mm 5120 (slab_page 1 0 0x10001))"

definition example_slab :: slab where
  "example_slab = \<lparr>sb_cache = 1, sb_order = 0, sb_objects = 1, sb_free = [], sb_cpu = []\<rparr>"

lemma example_descr: "flags AND SLAB_POISON = 0 \<Longrightarrow> flags AND SLAB_DESTROY_BY_RCU = 0 \<Longrightarrow> descr_ok (example_cache flags)"
  by (simp add: descr_ok_def cache_ok_def example_cache_def zero_cache_def geometry_ok_def oo_order_def oo_objects_def OO_MASK_def OO_SHIFT_def MAX_ORDER_def)

lemma example_source: "source_inv freed_mm" "source_inv used_mm"
proof -
  have c: "GFP_BOOT_MASK AND GFP_COMP \<noteq> 0" by code_simp
  have sp: "span (example_zones z i) \<subseteq> {..<2 ^ 18 - 1}" if "span z = {4096..<8192}" for z i
    using that by (auto simp: example_zones_def span_def example_zone_def)
  have "span example_zone = {4096..<8192}" by (simp add: span_def example_zone_def)
  then show "source_inv freed_mm" "source_inv used_mm"
    using freed_inv used_inv(1) example_zonelist(1) sp freed_zone_blocks(3) c by (simp_all add: source_inv_def) (simp_all add: example_mm_def)
qed

lemma example_inv:
  assumes "source_inv m" "flags AND SLAB_POISON = 0" "flags AND SLAB_DESTROY_BY_RCU = 0"
  shows "slub_inv {1} (example_slub m flags) Map.empty"
  using assms example_descr by (simp add: slub_inv_def caches_ok_def cache_inv_def node_of_def cpu_of_def example_slub_def)

abbreviation no_blocks :: mm where "no_blocks \<equiv> used_mm\<lparr>mm_zones := (\<lambda>_. example_zone\<lparr>spanned_pages := 0\<rparr>)\<rparr>"

lemma used_fresh: "fresh_block no_blocks used_mm 5120 0"
proof -
  have "\<not> owned_block no_blocks q j" for q j
    using blk_nonempty(2) [of q j] by (auto simp: owned_block_def held_def span_def example_zone_def)
  moreover have u: "in_use_block used_mm 1 5120 0"
  proof -
    have sub: "blk 5120 0 \<subseteq> blk 5120 10" by (auto simp: blk_def)
    have h: "held (mm_zones used_mm 1) 5120 10" using used_inv(2) by (simp add: in_use_block_def)
    have "held (mm_zones used_mm 1) 5120 0" unfolding held_def
    proof (intro conjI)
      show "blk 5120 0 \<subseteq> span (mm_zones used_mm 1)" "blk 5120 0 \<inter> free_pages (mm_zones used_mm 1) = {}" using h sub unfolding held_def by blast+
    qed (simp_all add: MAX_ORDER_def)
    then show ?thesis using used_inv(2) sub unfolding in_use_block_def by blast
  qed
  then have "clean_block used_mm 5120 0" "owned_block used_mm 5120 0" by (auto simp: clean_block_def owned_block_def in_use_block_def)
  moreover have "compound_block (mm_map used_mm) 5120 0"
  proof -
    have "pg_flags (mm_map used_mm 5120) AND PAGE_FLAGS_CHECK_AT_PREP = 0" using example_page(4) [of 5120] by (simp add: example_mm_def used_frames_def)
    then have "\<not> PageHead (mm_map used_mm 5120)" "\<not> PageTail (mm_map used_mm 5120)"
      using low_flags [of "mm_map used_mm 5120"] by (simp_all add: PageHead_def PageTail_def test_page_flag_def pageflags)
    moreover have "blk 5120 0 = {5120}" by (auto simp: blk_def)
    ultimately show ?thesis by (simp add: compound_block_def compound_order_def compound_head_def)
  qed
  ultimately show ?thesis using example_source(2) by (simp add: fresh_block_def)
qed

lemma full_inv:
  assumes "flags AND SLAB_POISON = 0" "flags AND SLAB_DESTROY_BY_RCU = 0"
  shows "slub_inv {1} (full_slub flags) [5120 \<mapsto> example_slab]" "live (full_slub flags) [5120 \<mapsto> example_slab] = {(1, page_address 5120)}"
proof -
  let ?m = "upd_page used_mm 5120 (slab_page 1 0 0x10001)"
  have g: "sb_cache example_slab = 1" "sb_order example_slab = 0" "sb_objects example_slab = 1" "sb_free example_slab = []" "sb_cpu example_slab = []"
    by (simp_all add: example_slab_def)
  have cnt: "unat (objects 0x10001) = 1" "unat (inuse 0x10001) = 1" "\<not> frozen 0x10001" by (simp_all add: objects_def inuse_def frozen_def)
  note fr = slab_page_frames [OF used_fresh, of example_slab 1 "0x10001" 0, unfolded g, OF refl refl _ cnt(1), simplified]
  have ca: "sl_caches (full_slub flags) t = example_cache flags" for t by (simp add: example_slub_def)
  have vw: "cpu_view (full_slub flags) t q = None" "node_of (full_slub flags) t = \<lparr>nr_partial = 0, partial = []\<rparr>" for t q
    by (simp_all add: cpu_view_def cpu_of_def node_of_def example_slub_def)
  have "slab_ok (full_slub flags) 5120 example_slab"
    unfolding slab_ok_def slab_view_def vw ca g
    using fr(1) cnt by (simp add: example_slub_def room_ok_def lists_ok_def counts_ok_def g low_frame_def example_cache_def upd_page_def slab_page_def)
  then show "slub_inv {1} (full_slub flags) [5120 \<mapsto> example_slab]"
    using fr(2) example_descr [OF assms] by (simp add: slub_inv_def caches_ok_def cache_inv_def vw ca g cpu_of_def) (simp add: example_slub_def cpu_of_def)
  have "live (full_slub flags) [5120 \<mapsto> example_slab] = slab_live (full_slub flags) 5120 example_slab" by (auto simp: live_def split: if_splits)
  then show "live (full_slub flags) [5120 \<mapsto> example_slab] = {(1, page_address 5120)}"
    by (simp add: slab_live_def g objs_def lessThan_Suc obj_def)
qed

text \<open>A cache of two objects to a page, which keeps no partial slab, with one object in use: its slab is
  in the list of partial slabs.\<close>

definition half_cache :: kmem_cache where
  "half_cache = (example_cache 0)\<lparr>objsize := 2048, kc_size := 2048, kc_oo := 2, kc_min := 2\<rparr>"

definition half_slub :: slub where
  "half_slub = (example_slub (upd_page used_mm 5120 (slab_page 1 (page_address 5120 + 2048) 0x20001)) 0)\<lparr>sl_caches := (\<lambda>_. half_cache),
     sl_nodes := (\<lambda>_. \<lparr>nr_partial = 1, partial = [5120]\<rparr>)\<rparr>"

definition half_slab :: slab where
  "half_slab = \<lparr>sb_cache = 1, sb_order = 0, sb_objects = 2, sb_free = [page_address 5120 + 2048], sb_cpu = []\<rparr>"

lemma half_inv:
  "slub_inv {1} half_slub [5120 \<mapsto> half_slab]" "live half_slub [5120 \<mapsto> half_slab] = {(1, page_address 5120)}"
proof -
  have g: "sb_cache half_slab = 1" "sb_order half_slab = 0" "sb_objects half_slab = 2" "sb_free half_slab = [page_address 5120 + 2048]" "sb_cpu half_slab = []"
    by (simp_all add: half_slab_def)
  have cnt: "unat (objects 0x20001) = 2" "unat (inuse 0x20001) = 1" "\<not> frozen 0x20001" by (simp_all add: objects_def inuse_def frozen_def)
  note fr = slab_page_frames [OF used_fresh, of half_slab 1 "0x20001" "page_address 5120 + 2048", unfolded g, OF refl refl _ cnt(1), simplified]
  have ca: "sl_caches half_slub t = half_cache" for t by (simp add: half_slub_def)
  have vw: "cpu_view half_slub t q = None" "node_of half_slub t = \<lparr>nr_partial = 1, partial = [5120]\<rparr>" for t q
    by (simp_all add: cpu_view_def cpu_of_def node_of_def half_slub_def example_slub_def)
  have d: "descr_ok half_cache"
    by (simp add: descr_ok_def cache_ok_def half_cache_def example_cache_def zero_cache_def geometry_ok_def oo_order_def oo_objects_def OO_MASK_def OO_SHIFT_def MAX_ORDER_def)
  have o: "objs (kc_size half_cache) 5120 2 = {page_address 5120, page_address 5120 + 2048}"
    by (auto simp: objs_def obj_def half_cache_def numeral_2_eq_2 lessThan_Suc)
  have nz: "page_address 5120 + 2048 \<noteq> 0" "page_address 5120 + 2048 \<noteq> page_address 5120"
    by (simp_all add: page_address_def PFN_PHYS_def PAGE_SHIFT_def PAGE_OFFSET_VA_def)
  have ch: "fchain (sl_mem half_slub) (offset half_cache) (page_address 5120 + 2048) [page_address 5120 + 2048]"
    using nz by (simp add: half_slub_def example_slub_def read_word_def)
  have "slab_ok half_slub 5120 half_slab"
    unfolding slab_ok_def slab_view_def vw ca g
    using fr(1) cnt ch o by (simp add: room_ok_def lists_ok_def counts_ok_def g low_frame_def)
       (simp add: half_slub_def example_slub_def half_cache_def upd_page_def slab_page_def)
  then show "slub_inv {1} half_slub [5120 \<mapsto> half_slab]"
    using fr(2) d by (simp add: slub_inv_def caches_ok_def cache_inv_def vw ca g) (simp add: half_slub_def example_slub_def cpu_of_def)
  have "live half_slub [5120 \<mapsto> half_slab] = slab_live half_slub 5120 half_slab" by (auto simp: live_def split: if_splits)
  then show "live half_slub [5120 \<mapsto> half_slab] = {(1, page_address 5120)}"
    using nz by (auto simp: slab_live_def g ca o)
qed

text \<open>The first allocation succeeds.\<close>

lemma example_grant: "\<not> refused (example_slub freed_mm flags\<lparr>sl_irqs := b\<rparr>) s 0"
proof
  assume "refused (example_slub freed_mm flags\<lparr>sl_irqs := b\<rparr>) s 0"
  then have n: "uu_alloc_pages_nodemask freed_mm 0 0 = Some (freed_mm, None)"
    by (simp add: refused_def example_slub_def example_cache_def zero_cache_def oo_order_def OO_SHIFT_def)
  have g: "gfp_zone 0 = 1" by (simp add: gfp_zone_def GFP_ZONE_TABLE_def ZONE_NORMAL_def ZONE_DMA_def ZONE_MOVABLE_def)
  have z: "mm_zones freed_mm 1 = freed_zone" by (simp add: example_mm_def example_zones_def)
  have "\<not> exhausted freed_zone 0"
    unfolding exhausted_def by (auto simp: freed_zone_def MAX_ORDER_def migratetypes intro!: exI [of _ 10] exI [of _ 0])
  moreover have "\<not> below_low freed_zone 0 1"
    by (simp add: below_low_def zone_watermark_ok_def uu_zone_watermark_ok_def freed_zone_def example_zone_def ALLOC_WMARK_LOW_def
        ALLOC_CPUSET_def ALLOC_HIGH_def ALLOC_HARDER_def upt_rec Let_def)
  moreover have "plain_request 0" by (simp add: plain_request_def)
  ultimately show False
    using alloc_pages_spec [OF freed_inv example_zonelist(1), of 0 0] n unfolding g example_zonelist(2) by (auto simp: z [simplified])
qed

lemma example_alloc:
  assumes f: "flags AND SLAB_POISON = 0" "flags AND SLAB_DESTROY_BY_RCU = 0"
  shows "\<exists>\<sigma>' x. kmem_cache_alloc (empty_slub flags) 1 0 = Some (\<sigma>', x) \<and> x \<noteq> 0"
proof -
  let ?\<sigma> = "empty_slub flags\<lparr>sl_irqs := False\<rparr>"
  have inv: "slub_inv {1} ?\<sigma> Map.empty" using example_inv [OF example_source(1) f] by simp
  have cp: "c_page (cpu_of ?\<sigma> 1) = None" "c_freelist (cpu_of ?\<sigma> 1) = 0" "partial (node_of ?\<sigma> 1) = []" by (simp_all add: cpu_of_def node_of_def example_slub_def)
  have run: "kmem_cache_alloc (empty_slub flags) 1 0 = slab_alloc_refill ?\<sigma> 1 0 NUMA_NO_NODE True"
    unfolding kmem_cache_alloc_def slab_alloc_def
    by (subst slab_alloc_object.simps) (simp add: Let_def uu_slab_alloc_def local_irq_disable_def cp [simplified], simp add: example_slub_def)
  have gp: "get_partial ?\<sigma> 1 0 NUMA_NO_NODE = Some (?\<sigma>, None)"
    by (simp add: get_partial_def get_partial_node_def get_any_partial_def Let_def example_slub_def)
  have d: "descr_ok (sl_caches ?\<sigma> 1)" using example_descr [OF f] by (simp add: example_slub_def)
  from slub_invD(1) [OF inv] d show ?thesis
  proof (cases rule: new_slab_run [where flags = 0 and node = NUMA_NO_NODE])
    case (1 b)
    then show ?thesis using example_grant by blast
  next
    case (2 m' p oo mem c b v)
    have "page_address p \<noteq> 0" using fchain_nonnull [OF 2(7)] 2(2) by (simp add: geometry_ok_def obj_list_def)
    then show ?thesis
      unfolding run slab_alloc_refill_def gp using 2(3) cp(1)
      by (simp add: cpu_of_def load_freelist_def Let_def pg_def upd_page_def slab_page_def)
  qed
qed

section \<open>The caches of \<^verbatim>\<open>kmalloc\<close>\<close>

text \<open>The caches of \<^verbatim>\<open>kmalloc\<close> are there, and their objects are as large as their class says.\<close>

definition kmalloc_ready :: "ulong set \<Rightarrow> slub \<Rightarrow> bool" where
  "kmalloc_ready K \<sigma> \<longleftrightarrow> (\<forall>i\<in>{1..<SLUB_PAGE_SHIFT}. kmalloc_caches \<sigma> i \<in> K \<and> \<not> ZERO_OR_NULL_PTR (kmalloc_caches \<sigma> i)
     \<and> objsize (sl_caches \<sigma> (kmalloc_caches \<sigma> i)) = kmalloc_cache_size i)"

lemma kmalloc_const_run:
  assumes "0 < unat sz" "unat sz \<le> unat SLUB_MAX_SIZE" "gf AND SLUB_DMA = 0" "kmalloc_ready K \<sigma>"
  shows "kmalloc_const \<sigma> sz gf = (if sz \<le> 4096 then uu_kmalloc \<sigma> sz gf else None)"
proof -
  obtain i where i: "get_slab_index sz = Some (int i)" "1 \<le> i" "i < SLUB_PAGE_SHIFT" "kmalloc_index sz = (if sz \<le> 4096 then int i else - 1)"
    using kmalloc_class [OF assms(1,2)] by blast
  have r: "\<not> ZERO_OR_NULL_PTR (kmalloc_caches \<sigma> i)" using assms(4) i(2,3) by (simp add: kmalloc_ready_def)
  then have "kmalloc_caches \<sigma> i \<noteq> 0" by (auto simp: ZERO_OR_NULL_PTR_def)
  moreover have "\<not> SLUB_MAX_SIZE < sz" using assms(2) by (simp add: word_less_nat_alt)
  ultimately show ?thesis
    using i r assms(3) by (auto simp: kmalloc_const_def uu_kmalloc_def get_slab_def kmem_cache_alloc_def Let_def)
qed

text \<open>A state with the thirteen caches of \<^verbatim>\<open>kmalloc\<close>.\<close>

definition class_addr :: "nat \<Rightarrow> ulong" where "class_addr i = 0x1000 + 0x100 * word_of_nat i"

definition class_cache :: "ulong \<Rightarrow> kmem_cache" where
  "class_cache s =
     (let sz = kmalloc_cache_size (unat (drop_bit 8 (s - 0x1000)))
      in zero_cache\<lparr>objsize := sz, kc_size := sz, kc_oo := (if sz > 4096 then oo_make 1 sz 0 else oo_make 0 sz 0),
           kc_min := (if sz > 4096 then oo_make 1 sz 0 else oo_make 0 sz 0), allocflags := GFP_COMP,
           kc_node := (\<lambda>_. s + 0x40), cpu_slab := s + 0x80\<rparr>)"

definition kmalloc_slub :: slub where
  "kmalloc_slub = (empty_slub 0)\<lparr>sl_caches := class_cache, kmalloc_caches := class_addr\<rparr>"

abbreviation kmalloc_set :: "ulong set" where "kmalloc_set \<equiv> class_addr ` {1..<SLUB_PAGE_SHIFT}"

lemma class_indices: "{1..<SLUB_PAGE_SHIFT} = {1, 2, 3, 4, 5, 6, 7, 8, 9, 10, 11, 12, 13}"
proof -
  have "{1..<14} = set [1..<14 :: nat]" by simp
  also have "[1..<14] = [1, 2, 3, 4, 5, 6, 7, 8, 9, 10, 11, 12, 13 :: nat]" by code_simp
  finally show ?thesis by (simp add: SLUB_PAGE_SHIFT_def PAGE_SHIFT_def)
qed

lemma class_size: "i \<in> {1..<SLUB_PAGE_SHIFT} \<Longrightarrow> unat (drop_bit 8 (class_addr i - 0x1000)) = i"
  unfolding class_indices class_addr_def by (auto simp: drop_bit_eq_div)

lemma class_descr:
  assumes i: "i \<in> {1..<SLUB_PAGE_SHIFT}"
  shows "descr_ok (class_cache (class_addr i))"
proof -
  let ?z = "kmalloc_cache_size i"
  have i': "1 \<le> i" "i < 14" using i by (simp_all add: SLUB_PAGE_SHIFT_def PAGE_SHIFT_def)
  have n: "8 \<le> unat ?z" "unat ?z \<le> 8192" "8 dvd unat ?z"
    using i unfolding class_indices by (auto simp: class_sizes)
  have "geometry_ok ?z (if ?z > 4096 then oo_make 1 ?z 0 else oo_make 0 ?z 0)"
  proof (cases "?z > 4096")
    case True
    then have "8192 div unat ?z \<le> 8192 div 4096" using n by (intro div_le_mono2) (simp_all add: word_less_nat_alt)
    then show ?thesis using True n order_objects_geometry(1) [of 1 ?z] by simp
  next
    case False
    have "4096 div unat ?z \<le> 4096 div 8" using n by (intro div_le_mono2) simp_all
    then show ?thesis using False n order_objects_geometry(1) [of 0 ?z] by (simp add: word_less_nat_alt not_less)
  qed
  moreover have "class_addr i + 0x40 \<noteq> 0" using i unfolding class_indices class_addr_def by auto
  ultimately show ?thesis
    using n class_size [OF i] by (simp add: descr_ok_def cache_ok_def class_cache_def Let_def zero_cache_def GFP_COMP_def GFP_ZERO_def GFP_MOVABLE_def)
qed

lemma kmalloc_slub_ok: "slub_inv kmalloc_set kmalloc_slub Map.empty" "kmalloc_ready kmalloc_set kmalloc_slub"
proof -
  have "inj_on (\<lambda>s. cpu_slab (class_cache s)) A" "inj_on (\<lambda>s. kc_node (class_cache s) 0) A" for A
    by (auto simp: inj_on_def class_cache_def Let_def)
  then have "caches_ok kmalloc_set kmalloc_slub" using class_descr by (auto simp: caches_ok_def kmalloc_slub_def)
  moreover have "cache_inv kmalloc_slub Map.empty s" for s by (simp add: cache_inv_def node_of_def cpu_of_def kmalloc_slub_def example_slub_def)
  moreover have "sl_mm kmalloc_slub = freed_mm" by (simp add: kmalloc_slub_def example_slub_def)
  ultimately show "slub_inv kmalloc_set kmalloc_slub Map.empty" using example_source(1) by (simp add: slub_inv_def)
  have "\<not> ZERO_OR_NULL_PTR (class_addr i)" if "i \<in> {1..<SLUB_PAGE_SHIFT}" for i
    using that unfolding class_indices class_addr_def by (auto simp: ZERO_OR_NULL_PTR_def ZERO_SIZE_PTR_def)
  moreover have "objsize (class_cache (class_addr i)) = kmalloc_cache_size i" if "i \<in> {1..<SLUB_PAGE_SHIFT}" for i
    using class_size [OF that] by (simp add: class_cache_def Let_def zero_cache_def)
  ultimately show "kmalloc_ready kmalloc_set kmalloc_slub" by (simp add: kmalloc_ready_def kmalloc_slub_def)
qed

section \<open>Properties\<close>

text \<open>C8. Allocation returns. Either it yields an object that was not in use, from the slab of the processor, and
  afterwards exactly this object is in use in addition; or it yields the null pointer, and then every object of the
  cache is in use and the page allocator refuses a block. The contents of the objects in use do not change, a
  request with \<^verbatim>\<open>__GFP_ZERO\<close> yields a cleared object, and the lock count and the interrupt flag are restored.\<close>

theorem kmem_cache_alloc_correct:
  assumes "slub_inv K \<sigma> G" "s \<in> K"
  shows "\<exists>\<sigma>' x G'. kmem_cache_alloc \<sigma> s gf = Some (\<sigma>', x) \<and> slub_inv K \<sigma>' G'
    \<and> (if x = 0 then live \<sigma>' G' = live \<sigma> G \<and> all_used G s \<and> refused \<sigma>' s gf
       else (s, x) \<notin> live \<sigma> G \<and> live \<sigma>' G' = insert (s, x) (live \<sigma> G) \<and> c_page (cpu_of \<sigma>' s) = Some (virt_to_head_page \<sigma>' x))
    \<and> (\<forall>a\<in>user_bytes \<sigma> G. sl_mem \<sigma>' a = sl_mem \<sigma> a)
    \<and> (gf AND GFP_ZERO \<noteq> 0 \<and> x \<noteq> 0 \<longrightarrow> (\<forall>a. unat (a - x) < unat (objsize (sl_caches \<sigma> s)) \<longrightarrow> sl_mem \<sigma>' a = 0))
    \<and> sl_preempt \<sigma>' = sl_preempt \<sigma> \<and> sl_irqs \<sigma>' = sl_irqs \<sigma>"
proof -
  obtain \<sigma>' x where r: "slab_alloc \<sigma> s gf NUMA_NO_NODE = Some (\<sigma>', x)" "alloc_ok K \<sigma> G s gf (sl_irqs \<sigma>) \<sigma>' x"
    "gf AND GFP_ZERO \<noteq> 0 \<and> x \<noteq> 0 \<longrightarrow> (\<forall>a. unat (a - x) < unat (objsize (sl_caches \<sigma> s)) \<longrightarrow> sl_mem \<sigma>' a = 0)"
    using slab_alloc_spec [OF assms, of NUMA_NO_NODE gf] by blast
  then obtain G' where "slub_inv K \<sigma>' G'" "if x = 0 then live \<sigma>' G' = live \<sigma> G \<and> all_used G s \<and> refused \<sigma>' s gf
      else (s, x) \<notin> live \<sigma> G \<and> live \<sigma>' G' = insert (s, x) (live \<sigma> G)" unfolding alloc_ok_def by blast
  then show ?thesis using r unfolding kmem_cache_alloc_def alloc_ok_def by (intro exI [of _ \<sigma>'] exI [of _ x] exI [of _ G']) auto
qed

theorem kmem_cache_alloc_correct_witness:
  "\<exists>\<sigma>' x G'. kmem_cache_alloc (empty_slub 0) 1 0 = Some (\<sigma>', x) \<and> x \<noteq> 0 \<and> slub_inv {1} \<sigma>' G' \<and> live \<sigma>' G' = {(1, x)}"
proof -
  have i: "slub_inv {1} (empty_slub 0) Map.empty" by (rule example_inv [OF example_source(1)]) simp_all
  obtain \<sigma>1 y where y: "kmem_cache_alloc (empty_slub 0) 1 0 = Some (\<sigma>1, y)" "y \<noteq> 0" using example_alloc [of 0] by auto
  have "live (empty_slub 0) Map.empty = {}" by (simp add: live_def)
  then show ?thesis using kmem_cache_alloc_correct [OF i, of 1 0] y by fastforce
qed

text \<open>The frames of a slab are not free in the page allocator.\<close>

lemma slab_not_free:
  assumes inv: "slub_inv K \<sigma> G" and p: "p \<in> free_frames \<sigma>"
  shows "p \<notin> dom G"
proof
  assume "p \<in> dom G"
  then obtain g where g: "G p = Some g" by blast
  obtain j where j: "j < MAX_NR_ZONES" "held (mm_zones (sl_mm \<sigma>) j) p (sb_order g)"
    using slab_okD(2) [OF slub_invD(5) [OF inv g]] by (auto simp: frames_ok_def owned_block_def)
  have m: "mm_inv (sl_mm \<sigma>)" using slub_invD(1) [OF inv] by (simp add: source_inv_def)
  obtain i where i: "i < MAX_NR_ZONES" "p \<in> free_pages (mm_zones (sl_mm \<sigma>) i)" using p by (auto simp: free_frames_def)
  show False using held_not_free [OF m j i(1)] i(2) blk_nonempty(2) [of p "sb_order g"] by blast
qed

text \<open>C9. Freeing an object in use returns if the object lies in the slab of the processor, or if its cache does not
  use the double-word exchange. Afterwards exactly this object is no longer in use, the contents of the others have not
  changed, and the lock count and the interrupt flag are restored. If the object was the last one in use of a slab that is not
  the slab of the processor, and the node has more partial slabs than the cache keeps, then the slab is given up and exactly its
  frames become free in the page allocator; in all other cases no frame becomes free.\<close>

theorem kfree_correct:
  assumes "slub_inv K \<sigma> G" "(s, x) \<in> live \<sigma> G"
    "c_page (cpu_of \<sigma> s) = Some (virt_to_head_page \<sigma> x) \<or> kc_flags (sl_caches \<sigma> s) AND CMPXCHG_DOUBLE = 0"
  defines "p \<equiv> virt_to_head_page \<sigma> x"
  defines "gives_up \<equiv> c_page (cpu_of \<sigma> s) \<noteq> Some p \<and> (\<forall>y. (s, y) \<in> live \<sigma> G \<and> virt_to_head_page \<sigma> y = p \<longrightarrow> y = x)
    \<and> min_partial (sl_caches \<sigma> s) < nr_partial (node_of \<sigma> s)"
  shows "\<exists>\<sigma>' G'. kfree \<sigma> x = Some \<sigma>' \<and> slub_inv K \<sigma>' G' \<and> live \<sigma>' G' = live \<sigma> G - {(s, x)}
    \<and> (\<forall>a\<in>user_bytes \<sigma>' G'. sl_mem \<sigma>' a = sl_mem \<sigma> a) \<and> sl_preempt \<sigma>' = sl_preempt \<sigma> \<and> sl_irqs \<sigma>' = sl_irqs \<sigma>
    \<and> free_frames \<sigma>' = free_frames \<sigma> \<union> (if gives_up then blk p (sb_order (the (G p))) else {}) \<and> (gives_up \<longrightarrow> p \<notin> dom G')"
proof -
  obtain \<sigma>' where run: "kfree \<sigma> x = Some \<sigma>'" and ok: "free_ok K \<sigma> G s x \<sigma>'" using kfree_spec [OF assms(1-3)] by blast
  have em: "gives_up \<longleftrightarrow> emptied \<sigma> G s x" by (simp add: gives_up_def p_def emptied_def)
  have fr: "free_frames \<sigma>' = free_frames \<sigma> \<union> (if gives_up then blk p (sb_order (the (G p))) else {})"
    using ok by (simp add: free_ok_def returned_frames_def em p_def)
  obtain G' where G': "slub_inv K \<sigma>' G'" "live \<sigma>' G' = live \<sigma> G - {(s, x)}" "\<forall>a\<in>user_bytes \<sigma>' G'. sl_mem \<sigma>' a = sl_mem \<sigma> a"
    using ok by (auto simp: free_ok_def)
  have "p \<notin> dom G'" if gives_up
    using slab_not_free [OF G'(1), of p] fr that blk_nonempty(2) [of p "sb_order (the (G p))"] by auto
  then show ?thesis using run G' fr ok unfolding free_ok_def by blast
qed

text \<open>The last object of a slab is freed, and the frame of the slab becomes free.\<close>

theorem kfree_correct_witness:
  "\<exists>\<sigma>' G'. kfree half_slub (page_address 5120) = Some \<sigma>' \<and> slub_inv {1} \<sigma>' G' \<and> live \<sigma>' G' = {}
    \<and> 5120 \<in> free_frames \<sigma>' \<and> 5120 \<notin> dom G'"
proof -
  have l: "(1, page_address 5120) \<in> live half_slub [5120 \<mapsto> half_slab]" using half_inv(2) by simp
  have h: "virt_to_head_page half_slub (page_address 5120) = 5120"
    by (rule live_page [OF half_inv(1) l]) (simp split: if_splits)
  have "kc_flags (sl_caches half_slub 1) AND CMPXCHG_DOUBLE = 0" "c_page (cpu_of half_slub 1) \<noteq> Some 5120"
    "min_partial (sl_caches half_slub 1) < nr_partial (node_of half_slub 1)"
    by (simp_all add: half_slub_def half_cache_def example_slub_def example_cache_def zero_cache_def cpu_of_def node_of_def)
  then show ?thesis
    using kfree_correct [OF half_inv(1) l] blk_nonempty(2) [of 5120 0] unfolding h half_inv(2) by (fastforce simp: half_slab_def)
qed

text \<open>C16. Freeing an object outside of the slab of the processor never returns when the cache uses the double-word
  exchange, because \<^verbatim>\<open>cmpxchg_double_slab\<close> compares the pointer to the page in place of the list in the page.\<close>

theorem kfree_never_returns:
  assumes "slub_inv K \<sigma> G" "(s, x) \<in> live \<sigma> G" "c_page (cpu_of \<sigma> s) \<noteq> Some (virt_to_head_page \<sigma> x)"
    "kc_flags (sl_caches \<sigma> s) AND CMPXCHG_DOUBLE \<noteq> 0"
    "page_ptr \<sigma> (virt_to_head_page \<sigma> x) \<noteq> pg_freelist (pg \<sigma> (virt_to_head_page \<sigma> x))"
  shows "kfree \<sigma> x = None"
  unfolding kfree_run [OF assms(1,2)] slab_free_other [OF assms(3)] by (rule slow_free_never [OF assms(4,5)])

theorem kfree_never_returns_witness: "kfree (full_slub CMPXCHG_DOUBLE) (page_address 5120) = None"
proof (rule kfree_never_returns)
  have f: "CMPXCHG_DOUBLE AND SLAB_POISON = 0" "CMPXCHG_DOUBLE AND SLAB_DESTROY_BY_RCU = 0" by (simp_all add: CMPXCHG_DOUBLE_def SLAB_POISON_def SLAB_DESTROY_BY_RCU_def)
  show "slub_inv {1} (full_slub CMPXCHG_DOUBLE) [5120 \<mapsto> example_slab]" by (rule full_inv(1) [OF f])
  have h: "virt_to_head_page (full_slub CMPXCHG_DOUBLE) (page_address 5120) = 5120"
  proof -
    have l: "(1, page_address 5120) \<in> live (full_slub CMPXCHG_DOUBLE) [5120 \<mapsto> example_slab]" using full_inv(2) [OF f] by simp
    show ?thesis by (rule live_page [OF full_inv(1) [OF f] l]) (simp split: if_splits)
  qed
  show "(1, page_address 5120) \<in> live (full_slub CMPXCHG_DOUBLE) [5120 \<mapsto> example_slab]" using full_inv(2) [OF f] by simp
  show "c_page (cpu_of (full_slub CMPXCHG_DOUBLE) 1) \<noteq> Some (virt_to_head_page (full_slub CMPXCHG_DOUBLE) (page_address 5120))"
    by (simp add: cpu_of_def example_slub_def)
  show "kc_flags (sl_caches (full_slub CMPXCHG_DOUBLE) 1) AND CMPXCHG_DOUBLE \<noteq> 0"
    by (simp add: example_slub_def example_cache_def CMPXCHG_DOUBLE_def)
  show "page_ptr (full_slub CMPXCHG_DOUBLE) (virt_to_head_page (full_slub CMPXCHG_DOUBLE) (page_address 5120))
      \<noteq> pg_freelist (pg (full_slub CMPXCHG_DOUBLE) (virt_to_head_page (full_slub CMPXCHG_DOUBLE) (page_address 5120)))"
    unfolding h by (simp add: page_ptr_def sizeof_page_def pg_def example_slub_def upd_page_def slab_page_def)
qed

text \<open>C17. The object of an allocation can be freed at once, whatever the flags of the cache: then the same objects are
  in use as before, with the same contents.\<close>

theorem alloc_free_roundtrip:
  assumes "slub_inv K \<sigma> G" "s \<in> K" "kmem_cache_alloc \<sigma> s gf = Some (\<sigma>1, x)" "x \<noteq> 0"
  shows "\<exists>\<sigma>2 G2. kfree \<sigma>1 x = Some \<sigma>2 \<and> slub_inv K \<sigma>2 G2 \<and> live \<sigma>2 G2 = live \<sigma> G
    \<and> (\<forall>a\<in>user_bytes \<sigma> G. sl_mem \<sigma>2 a = sl_mem \<sigma> a)"
proof -
  have a: "alloc_ok K \<sigma> G s gf (sl_irqs \<sigma>) \<sigma>1 x" using slab_alloc_spec [OF assms(1,2), of NUMA_NO_NODE gf] assms(3) by (auto simp: kmem_cache_alloc_def)
  then obtain G1 where G1: "slub_inv K \<sigma>1 G1" "(s, x) \<notin> live \<sigma> G" "live \<sigma>1 G1 = insert (s, x) (live \<sigma> G)" using assms(4) by (auto simp: alloc_ok_def)
  have ca: "sl_caches \<sigma>1 = sl_caches \<sigma>" and cp: "c_page (cpu_of \<sigma>1 s) = Some (virt_to_head_page \<sigma>1 x)"
    and mem: "\<forall>a\<in>user_bytes \<sigma> G. sl_mem \<sigma>1 a = sl_mem \<sigma> a" using a assms(4) by (simp_all add: alloc_ok_def)
  obtain \<sigma>2 where f: "kfree \<sigma>1 x = Some \<sigma>2" "free_ok K \<sigma>1 G1 s x \<sigma>2" using kfree_spec [OF G1(1), of s x] G1(3) cp by auto
  then obtain G2 where G2: "slub_inv K \<sigma>2 G2" "live \<sigma>2 G2 = live \<sigma> G" "\<forall>a\<in>user_bytes \<sigma>2 G2. sl_mem \<sigma>2 a = sl_mem \<sigma>1 a"
    unfolding free_ok_def using G1(2,3) by auto
  have "sl_caches \<sigma>2 = sl_caches \<sigma>" using f(2) ca by (simp add: free_ok_def)
  note user_bytes_cong [OF this G2(2)]
  then show ?thesis using f(1) G2 mem by auto
qed

theorem alloc_free_roundtrip_witness:
  "\<exists>\<sigma>1 x \<sigma>2 G2. kmem_cache_alloc (empty_slub CMPXCHG_DOUBLE) 1 0 = Some (\<sigma>1, x) \<and> kfree \<sigma>1 x = Some \<sigma>2
    \<and> slub_inv {1} \<sigma>2 G2 \<and> live \<sigma>2 G2 = {}"
proof -
  have f: "CMPXCHG_DOUBLE AND SLAB_POISON = 0" "CMPXCHG_DOUBLE AND SLAB_DESTROY_BY_RCU = 0" by (simp_all add: CMPXCHG_DOUBLE_def SLAB_POISON_def SLAB_DESTROY_BY_RCU_def)
  have i: "slub_inv {1} (empty_slub CMPXCHG_DOUBLE) Map.empty" by (rule example_inv [OF example_source(1) f])
  obtain \<sigma>1 x where x: "kmem_cache_alloc (empty_slub CMPXCHG_DOUBLE) 1 0 = Some (\<sigma>1, x)" "x \<noteq> 0" using example_alloc [OF f] by blast
  have "live (empty_slub CMPXCHG_DOUBLE) Map.empty = {}" by (simp add: live_def)
  then show ?thesis using alloc_free_roundtrip [OF i _ x] x(1) by auto
qed

text \<open>C7. The allocator refines the abstract heap: every run of allocations, releases and writes of a well-behaved client
  is a run of the heap, in which the objects held never overlap and keep the bytes that were written to them.\<close>

theorem slub_refines_heap:
  assumes "slub_inv K \<sigma> G" "runs (slub_step K) \<sigma> es \<sigma>'" "legal_run (size_of \<sigma>) (live \<sigma> G) es"
  shows "\<exists>G'. slub_inv K \<sigma>' G' \<and> runs (heap_step (size_of \<sigma>)) (heap_view \<sigma> G) es (heap_view \<sigma>' G') \<and> heap_ok (size_of \<sigma>') (heap_view \<sigma>' G')"
  using heap_run_refines [OF assms] heap_view_ok by blast

theorem slub_refines_heap_witness:
  "\<exists>\<sigma>' x G'. slub_step {1} (empty_slub 0) (Alloc 1 x) \<sigma>' \<and> slub_inv {1} \<sigma>' G'
    \<and> runs (heap_step (size_of (empty_slub 0))) (heap_view (empty_slub 0) Map.empty) [Alloc 1 x] (heap_view \<sigma>' G')"
proof -
  have i: "slub_inv {1} (empty_slub 0) Map.empty" by (rule example_inv [OF example_source(1)]) simp_all
  obtain \<sigma>1 x where x: "kmem_cache_alloc (empty_slub 0) 1 0 = Some (\<sigma>1, x)" "x \<noteq> 0" using example_alloc [of 0] by auto
  then have st: "slub_step {1} (empty_slub 0) (Alloc 1 x) \<sigma>1" by (intro slub_step.slub_alloc) simp_all
  then have "runs (slub_step {1}) (empty_slub 0) [Alloc 1 x] \<sigma>1" by simp
  moreover have "legal_run (size_of (empty_slub 0)) (live (empty_slub 0) Map.empty) [Alloc 1 x]" by simp
  ultimately show ?thesis using slub_refines_heap [OF i] st by blast
qed

text \<open>C18. \<^verbatim>\<open>kmalloc\<close> of up to 8192 bytes allocates, as \<^verbatim>\<open>kmem_cache_alloc\<close> does, from the cache with the smallest
  objects that are large enough. The variant for sizes that are constants of the program does the same up to
  4096 bytes; between 4097 and 8192 bytes it reads outside of the array of caches.\<close>

theorem kmalloc_correct:
  assumes "slub_inv K \<sigma> G" "kmalloc_ready K \<sigma>" "0 < unat sz" "unat sz \<le> unat SLUB_MAX_SIZE" "gf AND SLUB_DMA = 0"
  shows "\<exists>s \<sigma>' x. s \<in> K \<and> sz \<le> objsize (sl_caches \<sigma> s)
    \<and> (\<forall>i\<in>{1..<SLUB_PAGE_SHIFT}. sz \<le> kmalloc_cache_size i \<longrightarrow> objsize (sl_caches \<sigma> s) \<le> kmalloc_cache_size i)
    \<and> uu_kmalloc \<sigma> sz gf = Some (\<sigma>', x) \<and> alloc_ok K \<sigma> G s gf (sl_irqs \<sigma>) \<sigma>' x
    \<and> kmalloc_const \<sigma> sz gf = (if sz \<le> 4096 then Some (\<sigma>', x) else None)"
proof -
  obtain i where i: "get_slab_index sz = Some (int i)" "i \<in> {1..<SLUB_PAGE_SHIFT}" "sz \<le> kmalloc_cache_size i"
    "\<forall>j\<in>{1..<SLUB_PAGE_SHIFT}. sz \<le> kmalloc_cache_size j \<longrightarrow> kmalloc_cache_size i \<le> kmalloc_cache_size j"
    using kmalloc_class [OF assms(3,4)] by auto
  let ?s = "kmalloc_caches \<sigma> i"
  have s: "?s \<in> K" "\<not> ZERO_OR_NULL_PTR ?s" "objsize (sl_caches \<sigma> ?s) = kmalloc_cache_size i" using assms(2) i(2) by (simp_all add: kmalloc_ready_def)
  obtain \<sigma>' x where r: "slab_alloc \<sigma> ?s gf NUMA_NO_NODE = Some (\<sigma>', x)" "alloc_ok K \<sigma> G ?s gf (sl_irqs \<sigma>) \<sigma>' x"
    using slab_alloc_spec [OF assms(1) s(1), of NUMA_NO_NODE gf] by blast
  have "\<not> SLUB_MAX_SIZE < sz" using assms(4) by (simp add: word_less_nat_alt)
  then have "uu_kmalloc \<sigma> sz gf = Some (\<sigma>', x)" using r(1) s(2) i(1) assms(5) by (simp add: uu_kmalloc_def get_slab_def Let_def)
  then show ?thesis using kmalloc_const_run [OF assms(3,4,5,2)] s i(3,4) r(2) by (intro exI [of _ ?s] exI [of _ \<sigma>'] exI [of _ x]) simp
qed

theorem kmalloc_correct_witness:
  "\<exists>s \<sigma>' x. s \<in> kmalloc_set \<and> objsize (sl_caches kmalloc_slub s) = 128 \<and> uu_kmalloc kmalloc_slub 100 0 = Some (\<sigma>', x)
    \<and> kmalloc_const kmalloc_slub 100 0 = Some (\<sigma>', x)"
proof -
  obtain s \<sigma>' x where r: "s \<in> kmalloc_set" "100 \<le> objsize (sl_caches kmalloc_slub s)"
    "\<forall>i\<in>{1..<SLUB_PAGE_SHIFT}. 100 \<le> kmalloc_cache_size i \<longrightarrow> objsize (sl_caches kmalloc_slub s) \<le> kmalloc_cache_size i"
    "uu_kmalloc kmalloc_slub 100 0 = Some (\<sigma>', x)" "kmalloc_const kmalloc_slub 100 0 = Some (\<sigma>', x)"
    using kmalloc_correct [OF kmalloc_slub_ok, of 100 0] by (auto simp: SLUB_MAX_SIZE_def PAGE_SIZE_def PAGE_SHIFT_def)
  obtain i where i: "i \<in> {1..<SLUB_PAGE_SHIFT}" "s = class_addr i" using r(1) by blast
  have z: "objsize (sl_caches kmalloc_slub s) = kmalloc_cache_size i"
    using class_size [OF i(1)] by (simp add: i(2) kmalloc_slub_def class_cache_def Let_def zero_cache_def)
  have "7 \<in> {1..<SLUB_PAGE_SHIFT}" "kmalloc_cache_size 7 = 128" by (simp_all add: SLUB_PAGE_SHIFT_def PAGE_SHIFT_def kmalloc_cache_size_def)
  then have "kmalloc_cache_size i \<le> 128" using r(3) unfolding z by fastforce
  then have "kmalloc_cache_size i = 128" using r(2) i(1) unfolding z class_indices by (auto simp: kmalloc_cache_size_def)
  then show ?thesis using r z by auto
qed

end
