(* ===== verification/Slub_Deactivate.thy ===== *)
theory Slub_Deactivate
  imports Slub_Heap
begin

text \<open>
  The way back from the processor: \<^verbatim>\<open>deactivate_slab\<close> and \<^verbatim>\<open>flush_slab\<close> of \<^verbatim>\<open>mm/slub.c\<close> return
  the objects on the list of the processor to the page of their slab and give up the slab. The two loops
  are followed object by object; the page ends in the list of partial slabs or with the page allocator.
  The last section has the releases that do not reach a slab.
\<close>

unbundle bit_operations_syntax


section \<open>Giving up the slab of the processor\<close>

text \<open>The objects of the processor go back to the list of the page in reverse order, but for the last one.\<close>

lemma ex3: "P x y z \<Longrightarrow> \<exists>x y z. P x y z"
  by blast

lemma drain_run:
  assumes ap: "\<And>x y. x \<in> B \<Longrightarrow> y \<in> B \<Longrightarrow> x \<noteq> y \<Longrightarrow> apart (x + offset (sl_caches \<sigma> s)) (y + offset (sl_caches \<sigma> s))"
    and out: "\<And>x m v a. x \<in> B \<Longrightarrow> a \<notin> A \<Longrightarrow> write_word m (x + offset (sl_caches \<sigma> s)) v a = m a"
    and xs: "distinct (xs @ ys)" "set (xs @ ys) \<subseteq> B" "length xs \<le> unat (inuse (pg_mapcount (pg \<sigma> p)))"
    and ch: "fchain (sl_mem \<sigma>) (offset (sl_caches \<sigma> s)) a xs" "fchain (sl_mem \<sigma>) (offset (sl_caches \<sigma> s)) (pg_freelist (pg \<sigma> p)) ys"
  shows "\<exists>mem fh c. drain_freelist s p a \<sigma> = Some (set_pg (\<sigma>\<lparr>sl_mem := mem\<rparr>) p (\<lambda>q. q\<lparr>pg_freelist := fh, pg_mapcount := c\<rparr>), if xs = [] then 0 else last xs)
    \<and> fchain mem (offset (sl_caches \<sigma> s)) fh (rev (butlast xs) @ ys) \<and> objects c = objects (pg_mapcount (pg \<sigma> p)) \<and> frozen c = frozen (pg_mapcount (pg \<sigma> p))
    \<and> unat (inuse c) + length (butlast xs) = unat (inuse (pg_mapcount (pg \<sigma> p))) \<and> (\<forall>a. a \<notin> A \<longrightarrow> mem a = sl_mem \<sigma> a)"
  using assms
proof (induction xs arbitrary: a ys \<sigma>)
  case Nil
  have "set_pg (\<sigma>\<lparr>sl_mem := sl_mem \<sigma>\<rparr>) p (\<lambda>q. q\<lparr>pg_freelist := pg_freelist (pg \<sigma> p), pg_mapcount := pg_mapcount (pg \<sigma> p)\<rparr>) = \<sigma>"
    by (simp add: set_pg_def pg_def upd_same)
  moreover have "drain_freelist s p a \<sigma> = Some (\<sigma>, 0)" using Nil.prems(6) by (subst drain_freelist.simps) simp
  ultimately show ?case using Nil.prems(7)
    by (intro ex3 [where x = "sl_mem \<sigma>" and y = "pg_freelist (pg \<sigma> p)" and z = "pg_mapcount (pg \<sigma> p)"]) simp
next
  case (Cons x xs)
  let ?off = "offset (sl_caches \<sigma> s)" and ?f = "pg_freelist (pg \<sigma> p)" and ?c = "pg_mapcount (pg \<sigma> p)"
  have a: "a = x" "x \<noteq> 0" and tl: "fchain (sl_mem \<sigma>) ?off (get_freepointer \<sigma> s x) xs"
    using Cons.prems(6) by (simp_all add: get_freepointer_def)
  show ?case
  proof (cases "xs = []")
    case True
    have "set_pg (\<sigma>\<lparr>sl_mem := sl_mem \<sigma>\<rparr>) p (\<lambda>q. q\<lparr>pg_freelist := ?f, pg_mapcount := ?c\<rparr>) = \<sigma>"
      by (simp add: set_pg_def pg_def upd_same)
    moreover have "drain_freelist s p a \<sigma> = Some (\<sigma>, x)" using tl True a by (subst drain_freelist.simps) simp
    ultimately show ?thesis using Cons.prems(7) True
      by (intro ex3 [where x = "sl_mem \<sigma>" and y = ?f and z = ?c]) simp
  next
    case False
    then have nz: "get_freepointer \<sigma> s x \<noteq> 0" using fchain_nonnull [OF tl] by simp
    define c1 where "c1 = set_inuse ?c (inuse ?c - 1)"
    define \<sigma>1 where "\<sigma>1 = set_pg (set_freepointer \<sigma> s x ?f) p (\<lambda>q. q\<lparr>pg_freelist := x, pg_mapcount := c1\<rparr>)"
    have ex: "uu_cmpxchg_double_slab (set_freepointer \<sigma> s x ?f) s p ?f ?c x c1 = (\<sigma>1, True)"
      using cmpxchg_ok [of "set_freepointer \<sigma> s x ?f" s p x c1] by (simp add: \<sigma>1_def)
    have run: "drain_freelist s p a \<sigma> = drain_freelist s p (get_freepointer \<sigma> s x) \<sigma>1"
      using nz a ex by (subst drain_freelist.simps) (simp add: Let_def c1_def [symmetric] redo_once [where \<sigma>' = \<sigma>1])
    have f1: "sl_caches \<sigma>1 = sl_caches \<sigma>" "sl_mem \<sigma>1 = write_word (sl_mem \<sigma>) (x + ?off) ?f" "pg \<sigma>1 p = (pg \<sigma> p)\<lparr>pg_freelist := x, pg_mapcount := c1\<rparr>"
      by (simp_all add: \<sigma>1_def)
    have xB: "x \<in> B" "x \<notin> set xs" "x \<notin> set ys" "set xs \<subseteq> B" "set ys \<subseteq> B" using Cons.prems(3,4) by auto
    have keep: "fchain (sl_mem \<sigma>1) ?off b zs = fchain (sl_mem \<sigma>) ?off b zs" if "set zs \<subseteq> B" "x \<notin> set zs" for b zs
      unfolding f1(2) by (rule fchain_write) (use that xB(1) Cons.prems(1) in blast)
    have one: "1 \<le> inuse ?c" using Cons.prems(5) by (simp add: word_le_nat_alt)
    have "unat (inuse ?c) < 2 ^ 16" using take_bit_nat_less_exp [of 16 "unat ?c"] by (simp add: inuse_def unsigned_take_bit_eq)
    then have n1: "unat (inuse c1) = unat (inuse ?c) - 1"
      using one by (simp add: c1_def unat_sub unsigned_take_bit_eq take_bit_nat_eq_self)
    have ch1: "fchain (sl_mem \<sigma>1) ?off (get_freepointer \<sigma> s x) xs" using keep xB tl by simp
    have "read_word (sl_mem \<sigma>1) (x + ?off) = ?f" by (simp add: f1(2))
    then have ch2: "fchain (sl_mem \<sigma>1) ?off (pg_freelist (pg \<sigma>1 p)) (x # ys)" using keep [of ys] xB Cons.prems(7) a by (simp add: f1(3))
    have len: "length xs \<le> unat (inuse ?c) - Suc 0" using Cons.prems(5) by simp
    obtain mem fh c where r: "drain_freelist s p (get_freepointer \<sigma> s x) \<sigma>1 = Some (set_pg (\<sigma>1\<lparr>sl_mem := mem\<rparr>) p (\<lambda>q. q\<lparr>pg_freelist := fh, pg_mapcount := c\<rparr>), last xs)"
      "fchain mem ?off fh (rev (butlast xs) @ x # ys)" "objects c = objects c1" "frozen c = frozen c1"
      "unat (inuse c) + length (butlast xs) = unat (inuse c1)" "\<forall>a. a \<notin> A \<longrightarrow> mem a = sl_mem \<sigma>1 a"
      using Cons.IH [of \<sigma>1 "x # ys" "get_freepointer \<sigma> s x"] Cons.prems(1-5) ch1 ch2 False n1 len unfolding f1 by auto
    have "set_pg (\<sigma>1\<lparr>sl_mem := mem\<rparr>) p (\<lambda>q. q\<lparr>pg_freelist := fh, pg_mapcount := c\<rparr>) = set_pg (\<sigma>\<lparr>sl_mem := mem\<rparr>) p (\<lambda>q. q\<lparr>pg_freelist := fh, pg_mapcount := c\<rparr>)"
      by (simp add: \<sigma>1_def set_pg_def set_freepointer_def upd_page_def)
    moreover have "unat (inuse c) + length (butlast (x # xs)) = unat (inuse ?c)" using r(5) n1 one False by (cases xs) (simp_all add: word_le_nat_alt)
    ultimately show ?thesis
      using r run False Cons.prems(2) [OF xB(1)]
      by (intro ex3 [where x = mem and y = fh and z = c]) (simp add: c1_def f1)
  qed
qed

text \<open>Giving up the slab puts its objects back into the page. The page enters the list of partial slabs if it has free
  objects, unless it is empty and there are enough partial slabs; then it returns to the page allocator. The lock count
  ends two too high when the page enters the list.\<close>

lemma unfreeze_run:
  fixes \<sigma> :: slub and p :: nat and fo s n :: ulong and tail :: bool
  defines "c \<equiv> pg_mapcount (pg \<sigma> p)"
  defines "\<sigma>1 \<equiv> (if fo \<noteq> 0 then set_freepointer \<sigma> s fo (pg_freelist (pg \<sigma> p)) else \<sigma>)"
  defines "c' \<equiv> set_frozen (if fo \<noteq> 0 then set_inuse c (inuse c - 1) else c) False" and "fh \<equiv> (if fo \<noteq> 0 then fo else pg_freelist (pg \<sigma> p))"
  defines "m \<equiv> (if inuse c' = 0 \<and> nr_partial (sl_nodes \<sigma> n) > min_partial (sl_caches \<sigma> s) then M_FREE else if fh \<noteq> 0 then M_PARTIAL else M_FULL)"
  defines "\<sigma>2 \<equiv> set_pg (if m = M_PARTIAL then (add_partial \<sigma>1 n p tail)\<lparr>sl_preempt := sl_preempt \<sigma> + 1\<rparr> else \<sigma>1) p (\<lambda>q. q\<lparr>pg_freelist := fh, pg_mapcount := c'\<rparr>)"
  shows "redo (unfreeze_round s n p fo tail) (\<sigma>, False, M_NONE) = Some ((\<sigma>2, m = M_PARTIAL, m), m)"
proof (rule redo_once)
  let ?\<rho> = "if m = M_PARTIAL then (add_partial \<sigma>1 n p tail)\<lparr>sl_preempt := sl_preempt \<sigma> + 1\<rparr> else \<sigma>1"
  have f: "pg ?\<rho> p = pg \<sigma> p" by (simp add: \<sigma>1_def add_partial_def)
  have ex: "uu_cmpxchg_double_slab ?\<rho> s p (pg_freelist (pg \<sigma> p)) c fh c' = (\<sigma>2, True)"
    using cmpxchg_ok [of ?\<rho> s p fh c'] unfolding f c_def \<sigma>2_def .
  have m: "m \<noteq> M_NONE" by (simp add: m_def)
  have nc: "sl_nodes \<sigma>1 = sl_nodes \<sigma>" "sl_caches \<sigma>1 = sl_caches \<sigma>" "sl_preempt \<sigma>1 = sl_preempt \<sigma>" by (simp_all add: \<sigma>1_def)
  have lk: "add_partial (spin_lock \<sigma>1) n p tail = (add_partial \<sigma>1 n p tail)\<lparr>sl_preempt := sl_preempt \<sigma> + 1\<rparr>"
    by (simp add: add_partial_def lock_defs nc)
  have tr: "(if fo \<noteq> 0 then (set_freepointer \<sigma> s fo (pg_freelist (pg \<sigma> p)), set_inuse c (inuse c - 1), fo) else (\<sigma>, c, pg_freelist (pg \<sigma> p)))
      = (\<sigma>1, if fo \<noteq> 0 then set_inuse c (inuse c - 1) else c, fh)" by (simp add: \<sigma>1_def fh_def)
  show "unfreeze_round s n p fo tail (\<sigma>, False, M_NONE) = ((\<sigma>2, m = M_PARTIAL, m), Some m)"
    unfolding unfreeze_round_def Let_def prod.case c_def [symmetric] tr c'_def [symmetric] nc m_def [symmetric]
    using ex m by (cases "m = M_PARTIAL") (simp_all add: lk)
qed

text \<open>The invariant when the objects of the processor have moved to the list of the page.\<close>

lemma give_up_inv:
  assumes inv: "slub_inv K \<sigma> G" and g: "G p = Some g" "sb_cache g = s" and p: "c_page (cpu_of \<sigma> s) = Some p"
    and mm: "sl_mm \<sigma>' = upd_page (sl_mm \<sigma>) p (\<lambda>q. q\<lparr>pg_freelist := fh, pg_mapcount := c\<rparr>)"
    and mem: "\<And>a. a \<notin> bytes_of p (sb_order g) \<Longrightarrow> sl_mem \<sigma>' a = sl_mem \<sigma> a"
    and ch: "fchain (sl_mem \<sigma>') (offset (sl_caches \<sigma> s)) fh (rev (sb_cpu g))"
    and c: "unat (objects c) = sb_objects g" "\<not> frozen c" "unat (inuse c) + length (sb_cpu g) = sb_objects g"
    and ca: "sl_caches \<sigma>' = sl_caches \<sigma>"
    and cpus: "\<And>a. a \<noteq> cpu_slab (sl_caches \<sigma> s) \<Longrightarrow> sl_cpus \<sigma>' a = sl_cpus \<sigma> a" and cpu: "c_page (cpu_of \<sigma>' s) = None" "c_freelist (cpu_of \<sigma>' s) = 0"
    and nodes: "\<And>a. a \<noteq> kc_node (sl_caches \<sigma> s) 0 \<Longrightarrow> sl_nodes \<sigma>' a = sl_nodes \<sigma> a"
    and nd: "partial (node_of \<sigma>' s) = (if sb_cpu g = [] then partial (node_of \<sigma> s) else if tail then partial (node_of \<sigma> s) @ [p] else p # partial (node_of \<sigma> s))"
      "nr_partial (node_of \<sigma>' s) = (if sb_cpu g = [] then nr_partial (node_of \<sigma> s) else nr_partial (node_of \<sigma> s) + 1)"
  shows "slub_inv K \<sigma>' (G(p \<mapsto> g\<lparr>sb_free := rev (sb_cpu g), sb_cpu := []\<rparr>))" "live \<sigma>' (G(p \<mapsto> g\<lparr>sb_free := rev (sb_cpu g), sb_cpu := []\<rparr>)) = live \<sigma> G"
proof -
  have s: "s \<in> K" using slub_invD(4) [OF inv g(1)] g(2) by simp
  have cv0: "cpu_view \<sigma> s q = (if q = p then Some (c_freelist (cpu_of \<sigma> s)) else None)" for q using p by (simp add: cpu_view_def)
  note D = slab_okD [OF slub_invD(5) [OF inv g(1)], unfolded g(2)]
  have free: "sb_free g = []" using D(7) cv0 by simp
  have np: "p \<notin> set (partial (node_of \<sigma> s))" using D(8) free by simp
  have ci: "cache_inv \<sigma> G s" by (rule slub_invD(3) [OF inv s])
  have cv: "cpu_view \<sigma>' s q = None" for q using cpu by (simp add: cpu_view_def)
  show "slub_inv K \<sigma>' (G(p \<mapsto> g\<lparr>sb_free := rev (sb_cpu g), sb_cpu := []\<rparr>))"
  proof (rule local_step [OF inv g mm mem ca cpus nodes])
    show "cpu_view \<sigma>' s q = cpu_view \<sigma> s q \<and> (q \<in> set (partial (node_of \<sigma>' s))) = (q \<in> set (partial (node_of \<sigma> s)))" if "q \<noteq> p" for q
      using that cv cv0 nd(1) by simp
    show "distinct (rev (sb_cpu g) @ [])" "set (rev (sb_cpu g) @ []) \<subseteq> objs (kc_size (sl_caches \<sigma> s)) p (sb_objects g)"
      using D(3) by (auto simp: lists_ok_def)
    show "unat (objects c) = sb_objects g" "unat (inuse c) + length (rev (sb_cpu g)) = sb_objects g" using c by simp_all
    show "frozen c = (cpu_view \<sigma>' s p \<noteq> None)" unfolding cv using c(2) by simp
    show "fchain (sl_mem \<sigma>') (offset (sl_caches \<sigma> s)) fh (rev (sb_cpu g))" by (rule ch)
    show "case cpu_view \<sigma>' s p of None \<Rightarrow> [] = [] | Some a \<Rightarrow> rev (sb_cpu g) = [] \<and> fchain (sl_mem \<sigma>') (offset (sl_caches \<sigma> s)) a []" unfolding cv by simp
    show "p \<in> set (partial (node_of \<sigma>' s)) \<longleftrightarrow> cpu_view \<sigma>' s p = None \<and> rev (sb_cpu g) \<noteq> []" unfolding cv nd(1) using np by simp
    show "cache_inv \<sigma>' (G(p \<mapsto> g\<lparr>sb_free := rev (sb_cpu g), sb_cpu := []\<rparr>)) s"
      using ci np g(2) cpu unfolding cache_inv_def nd by auto
  qed
  have "live \<sigma>' H = live \<sigma> H" for H by (rule live_same) (rule ca)
  then show "live \<sigma>' (G(p \<mapsto> g\<lparr>sb_free := rev (sb_cpu g), sb_cpu := []\<rparr>)) = live \<sigma> G"
    using live_keep [of G p g, OF g(1) refl, of "rev (sb_cpu g)" "[]"] free by simp
qed

text \<open>The page and the memory after both loops.\<close>

lemma deactivate_page:
  assumes inv: "slub_inv K \<sigma> G" and s: "s \<in> K" and p: "c_page (cpu_of \<sigma> s) = Some p" and g: "G p = Some g" "sb_cache g = s"
  defines "\<sigma>0 \<equiv> set_cpu \<sigma> s (\<lambda>c. c\<lparr>c_tid := next_tid (c_tid c), c_page := None, c_freelist := 0\<rparr>)" and "n \<equiv> kc_node (sl_caches \<sigma> s) 0"
  shows "\<exists>mem fh c. unat (objects c) = sb_objects g \<and> \<not> frozen c \<and> unat (inuse c) + length (sb_cpu g) = sb_objects g
    \<and> fchain mem (offset (sl_caches \<sigma> s)) fh (rev (sb_cpu g)) \<and> (\<forall>a. (\<forall>x\<in>set (sb_cpu g). a \<notin> obj_range \<sigma> s x) \<longrightarrow> mem a = sl_mem \<sigma> a)
    \<and> deactivate_slab \<sigma> s =
      (let m = (if inuse c = 0 \<and> nr_partial (sl_nodes \<sigma> n) > min_partial (sl_caches \<sigma> s) then M_FREE else if fh \<noteq> 0 then M_PARTIAL else M_FULL);
           \<sigma>1 = set_pg (\<sigma>0\<lparr>sl_mem := mem\<rparr>) p (\<lambda>q. q\<lparr>pg_freelist := fh, pg_mapcount := c\<rparr>)
       in if m = M_FREE then discard_slab \<sigma>1 s p
          else if m = M_PARTIAL then Some ((add_partial \<sigma>1 n p False)\<lparr>sl_preempt := sl_preempt \<sigma> + 2\<rparr>) else Some \<sigma>1)"
proof -
  let ?off = "offset (sl_caches \<sigma> s)" and ?B = "objs (kc_size (sl_caches \<sigma> s)) p (sb_objects g)" and ?xs = "sb_cpu g" and ?c = "pg_mapcount (pg \<sigma> p)"
  obtain h where h: "G p = Some h" "sb_free h = []" "fchain (sl_mem \<sigma>) ?off (c_freelist (cpu_of \<sigma> s)) (sb_cpu h)" "frozen (pg_mapcount (pg \<sigma> p))"
    using cpu_slabE [OF inv s p] by blast
  then have free: "sb_free g = []" and ch: "fchain (sl_mem \<sigma>) ?off (c_freelist (cpu_of \<sigma> s)) ?xs" using g(1) by simp_all
  note D = slab_okD [OF slub_invD(5) [OF inv g(1)], unfolded g(2)]
  have cnt: "unat (objects ?c) = sb_objects g" "unat (inuse ?c) = sb_objects g" using D(4) free by (simp_all add: counts_ok_def)
  have l: "distinct ?xs" "set ?xs \<subseteq> ?B" using D(3) by (auto simp: lists_ok_def)
  have "card (set ?xs) \<le> card ?B" using l(2) by (intro card_mono) (auto simp: objs_def)
  also have "\<dots> \<le> sb_objects g" unfolding objs_def using card_image_le [of "{..<sb_objects g}"] by simp
  finally have len: "length ?xs \<le> sb_objects g" using distinct_card [OF l(1)] by simp
  have z: "pg_freelist (pg \<sigma> p) = 0" using D(5) free by simp
  have f0: "sl_caches \<sigma>0 = sl_caches \<sigma>" "sl_mem \<sigma>0 = sl_mem \<sigma>" "pg \<sigma>0 = pg \<sigma>" "sl_nodes \<sigma>0 = sl_nodes \<sigma>" "sl_preempt \<sigma>0 = sl_preempt \<sigma>"
    by (simp_all add: \<sigma>0_def fun_eq_iff)
  let ?A = "{a. \<exists>x\<in>set ?xs. a \<in> obj_range \<sigma> s x}"
  have fr: "write_word m (x + ?off) v a = m a" if "x \<in> set ?xs" "a \<notin> ?A" for x m v a
  proof (rule write_word_outside, rule ccontr)
    assume "\<not> 4 \<le> unat (a - (x + ?off))"
    then have "a \<in> obj_range \<sigma> s x" using link_range [OF inv g, of x a] l(2) that(1) by auto
    then show False using that by blast
  qed
  have ap: "apart (x + ?off) (y + ?off)" if "x \<in> set ?xs" "y \<in> set ?xs" "x \<noteq> y" for x y
    using slab_apart [OF inv g _ _ that(3)] that(1,2) l(2) by blast
  obtain mem fh c where r: "drain_freelist s p (c_freelist (cpu_of \<sigma> s)) \<sigma>0 = Some (set_pg (\<sigma>0\<lparr>sl_mem := mem\<rparr>) p (\<lambda>q. q\<lparr>pg_freelist := fh, pg_mapcount := c\<rparr>), if ?xs = [] then 0 else last ?xs)"
    "fchain mem ?off fh (rev (butlast ?xs))" "objects c = objects ?c" "frozen c"
    "unat (inuse c) + length (butlast ?xs) = unat (inuse ?c)" "\<forall>a. a \<notin> ?A \<longrightarrow> mem a = sl_mem \<sigma> a"
    using drain_run [of "set ?xs" \<sigma>0 s ?A ?xs "[]" p "c_freelist (cpu_of \<sigma> s)", unfolded f0, OF ap fr] l ch len cnt z h(4) by auto
  let ?fo = "if ?xs = [] then 0 else last ?xs"
  define \<sigma>1 where "\<sigma>1 = set_pg (\<sigma>0\<lparr>sl_mem := mem\<rparr>) p (\<lambda>q. q\<lparr>pg_freelist := fh, pg_mapcount := c\<rparr>)"
  have "last ?xs \<noteq> 0" if "?xs \<noteq> []"
    using obj_bytes(2) [OF inv g(1), of "last ?xs"] l(2) last_in_set [OF that] g(2) by blast
  then have fo: "?fo \<noteq> 0 \<longleftrightarrow> ?xs \<noteq> []" by auto
  define mem' where "mem' = (if ?xs = [] then mem else write_word mem (last ?xs + ?off) fh)"
  define fh' where "fh' = (if ?xs = [] then fh else last ?xs)"
  define c' where "c' = set_frozen (if ?xs = [] then c else set_inuse c (inuse c - 1)) False"
  have cnt': "unat (objects c') = sb_objects g" "\<not> frozen c'" using r(3) cnt by (simp_all add: c'_def)
  have inu: "unat (inuse c') + length ?xs = sb_objects g"
  proof (cases "?xs = []")
    case False
    then have "1 \<le> inuse c" using r(5) cnt len by (cases ?xs rule: rev_cases) (simp_all add: word_le_nat_alt)
    moreover have "unat (inuse c) < 2 ^ 16" using take_bit_nat_less_exp [of 16 "unat c"] by (simp add: inuse_def unsigned_take_bit_eq)
    ultimately have "unat (inuse c') = unat (inuse c) - 1" "1 \<le> unat (inuse c)"
      using False by (simp_all add: c'_def unat_sub unsigned_take_bit_eq take_bit_nat_eq_self word_le_nat_alt)
    then show ?thesis using r(5) cnt False by (cases ?xs rule: rev_cases) simp_all
  qed (use r(5) cnt in \<open>simp add: c'_def\<close>)
  have ch': "fchain mem' ?off fh' (rev ?xs)"
  proof (cases ?xs rule: rev_cases)
    case Nil
    then show ?thesis using r(2) by (simp add: mem'_def fh'_def)
  next
    case (snoc ys y)
    then show ?thesis
      using chain_put [OF inv g, of y "rev ys" mem fh] r(2) l by (auto simp: mem'_def fh'_def)
  qed
  have out': "mem' a = sl_mem \<sigma> a" if "\<forall>x\<in>set ?xs. a \<notin> obj_range \<sigma> s x" for a
    using that r(6) fr [of "last ?xs" a] last_in_set [of ?xs] by (cases "?xs = []") (auto simp: mem'_def)
  have un: "redo (unfreeze_round s n p ?fo False) (\<sigma>1, False, M_NONE) =
    (let m = (if inuse c' = 0 \<and> nr_partial (sl_nodes \<sigma> n) > min_partial (sl_caches \<sigma> s) then M_FREE else if fh' \<noteq> 0 then M_PARTIAL else M_FULL);
         \<sigma>2 = \<sigma>0\<lparr>sl_mem := mem'\<rparr>
     in Some ((set_pg (if m = M_PARTIAL then (add_partial \<sigma>2 n p False)\<lparr>sl_preempt := sl_preempt \<sigma> + 1\<rparr> else \<sigma>2) p
          (\<lambda>q. q\<lparr>pg_freelist := fh', pg_mapcount := c'\<rparr>), m = M_PARTIAL, m), m))"
  proof -
    have f1: "pg \<sigma>1 p = (pg \<sigma> p)\<lparr>pg_freelist := fh, pg_mapcount := c\<rparr>" "sl_caches \<sigma>1 = sl_caches \<sigma>" "sl_nodes \<sigma>1 = sl_nodes \<sigma>" "sl_preempt \<sigma>1 = sl_preempt \<sigma>"
      using f0 by (simp_all add: \<sigma>1_def pg_def upd_page_def fun_eq_iff)
    have w: "(if ?fo \<noteq> 0 then set_freepointer \<sigma>1 s ?fo fh else \<sigma>1) = set_pg (\<sigma>0\<lparr>sl_mem := mem'\<rparr>) p (\<lambda>q. q\<lparr>pg_freelist := fh, pg_mapcount := c\<rparr>)"
      unfolding fo by (auto simp: \<sigma>1_def mem'_def set_freepointer_def set_pg_def f0)
    have c2: "set_frozen (if ?fo \<noteq> 0 then set_inuse c (inuse c - 1) else c) False = c'" unfolding fo c'_def by simp
    have h2: "(if ?fo \<noteq> 0 then ?fo else fh) = fh'" unfolding fo fh'_def by simp
    have sq: "set_pg (if b then (add_partial (set_pg \<rho> p (\<lambda>q. q\<lparr>pg_freelist := fh, pg_mapcount := c\<rparr>)) n p False)\<lparr>sl_preempt := l\<rparr>
        else set_pg \<rho> p (\<lambda>q. q\<lparr>pg_freelist := fh, pg_mapcount := c\<rparr>)) p (\<lambda>q. q\<lparr>pg_freelist := fh', pg_mapcount := c'\<rparr>)
      = set_pg (if b then (add_partial \<rho> n p False)\<lparr>sl_preempt := l\<rparr> else \<rho>) p (\<lambda>q. q\<lparr>pg_freelist := fh', pg_mapcount := c'\<rparr>)" for b l \<rho>
      by (simp add: add_partial_def set_pg_def upd_page_def set_node_def)
    have rd: "pg_freelist (pg \<sigma>1 p) = fh" "pg_mapcount (pg \<sigma>1 p) = c" by (simp_all add: f1)
    show ?thesis
      using unfreeze_run [of s n p ?fo False \<sigma>1] unfolding rd f1(2-4) w c2 h2 sq Let_def .
  qed
  have nid: "get_node \<sigma> s 0 = n" by (simp add: get_node_def n_def)
  have ds: "deactivate_slab \<sigma> s = redo (unfreeze_round s n p ?fo False) (\<sigma>1, False, M_NONE) \<bind>
      (\<lambda>((\<sigma>, lock, _), m). if m = M_FREE then discard_slab (if lock then spin_lock \<sigma> else \<sigma>) s p else Some (if lock then spin_lock \<sigma> else \<sigma>))"
    by (simp add: deactivate_slab_def p z nid \<sigma>0_def [symmetric] r(1) \<sigma>1_def [symmetric] Let_def split del: if_split)
  have sw: "spin_lock ((set_pg (add_partial \<rho> n p False) p f)\<lparr>sl_preempt := sl_preempt \<sigma> + 1\<rparr>) = (add_partial (set_pg \<rho> p f) n p False)\<lparr>sl_preempt := sl_preempt \<sigma> + 2\<rparr>" for \<rho> f
    by (simp add: add_partial_def set_pg_def upd_page_def set_node_def lock_defs)
  show ?thesis
    by (intro ex3 [where x = mem' and y = fh' and z = c'] conjI cnt' inu ch' allI impI out') (simp_all add: ds un Let_def sw)
qed

text \<open>The contract of \<^verbatim>\<open>deactivate_slab\<close>.\<close>

definition deactivate_ok :: "ulong set \<Rightarrow> slub \<Rightarrow> (nat \<rightharpoonup> slab) \<Rightarrow> ulong \<Rightarrow> nat \<Rightarrow> slub \<Rightarrow> bool" where
  "deactivate_ok K \<sigma> G s p \<sigma>' \<longleftrightarrow> c_page (cpu_of \<sigma>' s) = None \<and> c_freelist (cpu_of \<sigma>' s) = 0 \<and> sl_caches \<sigma>' = sl_caches \<sigma> \<and> sl_irqs \<sigma>' = sl_irqs \<sigma>
     \<and> sl_preempt \<sigma>' = sl_preempt \<sigma> + (if p \<in> set (partial (node_of \<sigma>' s)) then 2 else 0)
     \<and> (\<exists>G'. slub_inv K \<sigma>' G' \<and> live \<sigma>' G' = live \<sigma> G \<and> (\<forall>a\<in>user_bytes \<sigma> G. sl_mem \<sigma>' a = sl_mem \<sigma> a))"

lemma deactivate_spec:
  assumes inv: "slub_inv K \<sigma> G" and s: "s \<in> K" and p: "c_page (cpu_of \<sigma> s) = Some p"
  shows "\<exists>\<sigma>'. deactivate_slab \<sigma> s = Some \<sigma>' \<and> deactivate_ok K \<sigma> G s p \<sigma>'"
proof -
  obtain g where g: "G p = Some g" "sb_cache g = s" using cpu_slabE [OF inv s p] by blast
  define n where "n = kc_node (sl_caches \<sigma> s) 0"
  define \<sigma>0 where "\<sigma>0 = set_cpu \<sigma> s (\<lambda>c. c\<lparr>c_tid := next_tid (c_tid c), c_page := None, c_freelist := 0\<rparr>)"
  obtain mem fh c where d: "unat (objects c) = sb_objects g" "\<not> frozen c" "unat (inuse c) + length (sb_cpu g) = sb_objects g"
      "fchain mem (offset (sl_caches \<sigma> s)) fh (rev (sb_cpu g))" "\<forall>a. (\<forall>x\<in>set (sb_cpu g). a \<notin> obj_range \<sigma> s x) \<longrightarrow> mem a = sl_mem \<sigma> a"
    and run: "deactivate_slab \<sigma> s =
      (let m = (if inuse c = 0 \<and> nr_partial (sl_nodes \<sigma> n) > min_partial (sl_caches \<sigma> s) then M_FREE else if fh \<noteq> 0 then M_PARTIAL else M_FULL);
           \<sigma>1 = set_pg (\<sigma>0\<lparr>sl_mem := mem\<rparr>) p (\<lambda>q. q\<lparr>pg_freelist := fh, pg_mapcount := c\<rparr>)
       in if m = M_FREE then discard_slab \<sigma>1 s p
          else if m = M_PARTIAL then Some ((add_partial \<sigma>1 n p False)\<lparr>sl_preempt := sl_preempt \<sigma> + 2\<rparr>) else Some \<sigma>1)"
    using deactivate_page [OF inv s p g, folded n_def \<sigma>0_def] by (elim exE conjE) (rule that)
  define \<sigma>1 where "\<sigma>1 = set_pg (\<sigma>0\<lparr>sl_mem := mem\<rparr>) p (\<lambda>q. q\<lparr>pg_freelist := fh, pg_mapcount := c\<rparr>)"
  define \<sigma>2 where "\<sigma>2 = (if sb_cpu g = [] then \<sigma>1 else (add_partial \<sigma>1 n p False)\<lparr>sl_preempt := sl_preempt \<sigma> + 2\<rparr>)"
  define g' where "g' = g\<lparr>sb_free := rev (sb_cpu g), sb_cpu := []\<rparr>"
  have xo: "x \<in> objs (kc_size (sl_caches \<sigma> s)) p (sb_objects g)" if "x \<in> set (sb_cpu g)" for x
    using slab_okD(3) [OF slub_invD(5) [OF inv g(1)]] that g(2) by (auto simp: lists_ok_def)
  have rb: "obj_range \<sigma> s x \<subseteq> bytes_of p (sb_order g)" if "x \<in> set (sb_cpu g)" for x
    using range_bytes [OF inv g(1), of x] xo [OF that] g(2) by simp
  have keep: "sl_mem \<sigma>2 a = sl_mem \<sigma> a" if "a \<in> user_bytes \<sigma> G" for a
  proof -
    have "mem a = sl_mem \<sigma> a" by (rule d(5) [rule_format]) (use free_not_user [OF inv g(1)] that g(2) in auto)
    then show ?thesis by (simp add: \<sigma>2_def \<sigma>1_def add_partial_def)
  qed
  have e0: "sl_mm \<sigma>0 = sl_mm \<sigma>" "sl_caches \<sigma>0 = sl_caches \<sigma>" "sl_nodes \<sigma>0 = sl_nodes \<sigma>" "sl_preempt \<sigma>0 = sl_preempt \<sigma>" "sl_irqs \<sigma>0 = sl_irqs \<sigma>"
    "\<And>a. a \<noteq> cpu_slab (sl_caches \<sigma> s) \<Longrightarrow> sl_cpus \<sigma>0 a = sl_cpus \<sigma> a" "c_page (cpu_of \<sigma>0 s) = None" "c_freelist (cpu_of \<sigma>0 s) = 0"
    by (simp_all add: \<sigma>0_def)
  have e1: "sl_mm \<sigma>1 = upd_page (sl_mm \<sigma>) p (\<lambda>q. q\<lparr>pg_freelist := fh, pg_mapcount := c\<rparr>)" "sl_caches \<sigma>1 = sl_caches \<sigma>" "sl_mem \<sigma>1 = mem" "sl_cpus \<sigma>1 = sl_cpus \<sigma>0"
    "sl_nodes \<sigma>1 = sl_nodes \<sigma>" "sl_preempt \<sigma>1 = sl_preempt \<sigma>" "sl_irqs \<sigma>1 = sl_irqs \<sigma>"
    using e0 by (simp_all add: \<sigma>1_def set_pg_def)
  have e2: "sl_mm \<sigma>2 = upd_page (sl_mm \<sigma>) p (\<lambda>q. q\<lparr>pg_freelist := fh, pg_mapcount := c\<rparr>)" "sl_caches \<sigma>2 = sl_caches \<sigma>" "sl_mem \<sigma>2 = mem" "sl_cpus \<sigma>2 = sl_cpus \<sigma>0"
    "sl_irqs \<sigma>2 = sl_irqs \<sigma>" using e1 by (simp_all add: \<sigma>2_def add_partial_def)
  have cp: "cpu_of \<sigma>2 s = cpu_of \<sigma>0 s" using e2 e0 by (simp add: cpu_of_def)
  have nd: "node_of \<sigma>2 s = (if sb_cpu g = [] then node_of \<sigma> s else (node_of \<sigma> s)\<lparr>nr_partial := nr_partial (node_of \<sigma> s) + 1, partial := p # partial (node_of \<sigma> s)\<rparr>)"
    using e1 by (simp add: \<sigma>2_def node_of_def n_def add_partial_def set_node_def)
  have nds: "sl_nodes \<sigma>2 a = sl_nodes \<sigma> a" if "a \<noteq> kc_node (sl_caches \<sigma> s) 0" for a
    using that e1 by (simp add: \<sigma>2_def add_partial_def n_def)
  have out: "sl_mem \<sigma>2 a = sl_mem \<sigma> a" if "a \<notin> bytes_of p (sb_order g)" for a using d(5) rb that e2(3) by blast
  have ch: "fchain (sl_mem \<sigma>2) (offset (sl_caches \<sigma> s)) fh (rev (sb_cpu g))" using d(4) e2(3) by simp
  have cps: "sl_cpus \<sigma>2 a = sl_cpus \<sigma> a" if "a \<noteq> cpu_slab (sl_caches \<sigma> s)" for a using that e2 e0 by simp
  have cpe: "c_page (cpu_of \<sigma>2 s) = None" "c_freelist (cpu_of \<sigma>2 s) = 0" using cp e0 by simp_all
  have pt: "partial (node_of \<sigma>2 s) = (if sb_cpu g = [] then partial (node_of \<sigma> s) else if False then partial (node_of \<sigma> s) @ [p] else p # partial (node_of \<sigma> s))"
    "nr_partial (node_of \<sigma>2 s) = (if sb_cpu g = [] then nr_partial (node_of \<sigma> s) else nr_partial (node_of \<sigma> s) + 1)" using nd by simp_all
  note gi = give_up_inv [OF inv g p e2(1) out ch d(1-3) e2(2) cps cpe nds pt, folded g'_def]
  have up1: "slub_inv K \<sigma>2 (G(p \<mapsto> g'))" by (rule gi(1))
  have up2: "live \<sigma>2 (G(p \<mapsto> g')) = live \<sigma> G" by (rule gi(2))
  note up = up1 up2
  have np: "p \<notin> set (partial (node_of \<sigma> s))"
    using slab_okD(8) [OF slub_invD(5) [OF inv g(1)]] g(2) p by (simp add: cpu_view_def)
  have fz: "fh = 0 \<longleftrightarrow> sb_cpu g = []" using fchain_nonnull [OF d(4)] by simp
  show ?thesis
  proof (cases "inuse c = 0 \<and> nr_partial (sl_nodes \<sigma> n) > min_partial (sl_caches \<sigma> s)")
    case False
    then have "deactivate_slab \<sigma> s = Some \<sigma>2" unfolding run \<sigma>1_def [symmetric] \<sigma>2_def using fz by (auto simp: Let_def)
    moreover have "sl_preempt \<sigma>2 = sl_preempt \<sigma> + (if p \<in> set (partial (node_of \<sigma>2 s)) then 2 else 0)"
      using np nd e1 by (simp add: \<sigma>2_def)
    ultimately show ?thesis unfolding deactivate_ok_def using cpe e2 up keep by blast
  next
    case True
    then have r: "deactivate_slab \<sigma> s = discard_slab \<sigma>1 s p" unfolding run \<sigma>1_def [symmetric] by (simp add: Let_def)
    let ?G = "G(p \<mapsto> g')"
    have gp: "?G p = Some g'" "sb_cache g' = s" using g(2) by (simp_all add: g'_def)
    obtain mm' where m: "uu_free_pages (unslab (sl_mm \<sigma>2) p) p (sb_order g') = Some mm'"
      "discard_slab \<sigma>1 s p = Some (\<sigma>1\<lparr>sl_mm := mm', sl_reclaimed := map_option (\<lambda>r. r + push_bit (sb_order g') 1) (sl_reclaimed \<sigma>1)\<rparr>)"
      using discard_run [OF up(1) gp, of \<sigma>1] e1 e2 by auto
    define \<sigma>' where "\<sigma>' = \<sigma>1\<lparr>sl_mm := mm', sl_reclaimed := map_option (\<lambda>r. r + push_bit (sb_order g') 1) (sl_reclaimed \<sigma>1)\<rparr>"
    have e4: "sl_mm \<sigma>' = mm'" "sl_caches \<sigma>' = sl_caches \<sigma>2" "sl_mem \<sigma>' = sl_mem \<sigma>2" "sl_cpus \<sigma>' = sl_cpus \<sigma>2" "sl_nodes \<sigma>' = sl_nodes \<sigma>"
      "sl_preempt \<sigma>' = sl_preempt \<sigma>" "sl_irqs \<sigma>' = sl_irqs \<sigma>"
      using e1 e2 by (simp_all add: \<sigma>'_def)
    have n': "node_of \<sigma>' s = node_of \<sigma> s" "cpu_of \<sigma>' s = cpu_of \<sigma>2 s" using e4 e2 by (simp_all add: node_of_def cpu_of_def)
    have nodes: "sl_nodes \<sigma>' a = sl_nodes \<sigma>2 a" if "a \<noteq> kc_node (sl_caches \<sigma>2 s) 0" for a using that nds e2 e4 by simp
    have rm: "partial (node_of \<sigma>' s) = remove1 p (partial (node_of \<sigma>2 s))" using np nd n' by (simp add: remove1_idem)
    have nr: "nr_partial (node_of \<sigma>' s) = word_of_nat (length (partial (node_of \<sigma>' s)))"
      using slub_invD(3) [OF inv s] n' by (simp add: cache_inv_def)
    have "length (sb_free g') = sb_objects g'" using True d(3) by (simp add: g'_def)
    then have all: "slab_live \<sigma>2 p g' = {}" using all_free [OF up(1) gp(1)] by (auto simp: slab_live_def)
    have cv: "cpu_view \<sigma>2 s p = None" using cpe by (simp add: cpu_view_def)
    note di = discard_inv [where G = ?G, OF up(1) gp all cv, of \<sigma>', OF m(1) [folded e4(1)] e4(3,2,4) nodes rm nr]
    have "deactivate_ok K \<sigma> G s p \<sigma>'"
      unfolding deactivate_ok_def using cpe n' e4 e2 np di up(2) keep by auto
    then show ?thesis using r m(2) by (auto simp: \<sigma>'_def)
  qed
qed

text \<open>C15. Giving up the slab of the processor returns. The processor has no slab afterwards, exactly the same objects are
  in use, with the same contents, and the invariant holds. But the lock of the node is taken a second time in place of
  being released: when the page has entered the list of partial slabs, the lock count is two higher than before.\<close>

theorem deactivate_correct:
  assumes "slub_inv K \<sigma> G" "s \<in> K" "c_page (cpu_of \<sigma> s) = Some p"
  shows "\<exists>\<sigma>' G'. deactivate_slab \<sigma> s = Some \<sigma>' \<and> slub_inv K \<sigma>' G' \<and> live \<sigma>' G' = live \<sigma> G \<and> c_page (cpu_of \<sigma>' s) = None
    \<and> (\<forall>a\<in>user_bytes \<sigma> G. sl_mem \<sigma>' a = sl_mem \<sigma> a)
    \<and> sl_preempt \<sigma>' = sl_preempt \<sigma> + (if p \<in> set (partial (node_of \<sigma>' s)) then 2 else 0)"
  using deactivate_spec [OF assms] unfolding deactivate_ok_def by blast

theorem deactivate_correct_witness:
  "\<exists>\<sigma>1 x \<sigma>2 G2. kmem_cache_alloc (empty_slub 0) 1 0 = Some (\<sigma>1, x) \<and> deactivate_slab \<sigma>1 1 = Some \<sigma>2
    \<and> slub_inv {1} \<sigma>2 G2 \<and> live \<sigma>2 G2 = {(1, x)} \<and> c_page (cpu_of \<sigma>2 1) = None"
proof -
  have i: "slub_inv {1} (empty_slub 0) Map.empty" by (rule example_inv [OF example_source(1)]) simp_all
  obtain \<sigma>1 x where x: "kmem_cache_alloc (empty_slub 0) 1 0 = Some (\<sigma>1, x)" "x \<noteq> 0" using example_alloc [of 0] by auto
  have "live (empty_slub 0) Map.empty = {}" by (simp add: live_def)
  moreover have "alloc_ok {1} (empty_slub 0) Map.empty 1 0 (sl_irqs (empty_slub 0)) \<sigma>1 x"
    using slab_alloc_spec [OF i, of 1 NUMA_NO_NODE 0] x(1) by (auto simp: kmem_cache_alloc_def)
  ultimately obtain G1 where "slub_inv {1} \<sigma>1 G1" "live \<sigma>1 G1 = {(1, x)}" "c_page (cpu_of \<sigma>1 1) = Some (virt_to_head_page \<sigma>1 x)"
    using x(2) by (auto simp: alloc_ok_def)
  then show ?thesis using deactivate_correct [of "{1}" \<sigma>1 G1 1] x(1) by fastforce
qed

section \<open>Releases that do not reach a slab\<close>

text \<open>The memory of \<^verbatim>\<open>kmalloc_large\<close> is handed to \<^verbatim>\<open>put_page\<close>, which is empty: \<^verbatim>\<open>kfree\<close> changes nothing, and the
  pages stay in use.\<close>

lemma kfree_large_leaks: "\<not> PageSlab (pg \<sigma> (virt_to_head_page \<sigma> x)) \<Longrightarrow> kfree \<sigma> x = Some \<sigma>"
  by (simp add: kfree_def put_page_def Let_def)

end
