(* ===== verification/Paging.thy ===== *)
theory Paging
  imports Nobootmem "HOL-Library.Monad_Syntax"
begin

text \<open>
  The page tables of the kernel: \<^verbatim>\<open>mm/init_32.c\<close> with the entries and constants of
  \<^verbatim>\<open>include/asm/pagetable.h\<close> and \<^verbatim>\<open>include/asm/pgtable_types.h\<close>. The tables have two levels, a directory of
  1024 entries (\<^verbatim>\<open>swapper_pg_dir\<close>) and tables of 1024 entries. \<open>init_memory_mapping\<close> splits low memory into ranges,
  finds free memory for new tables, and enters every page of low memory at its address above
  \<^verbatim>\<open>PAGE_OFFSET\<close>, in two rounds. The theory shows that the tables found suffice and that the walk of the
  processor through the tables yields the direct mapping.
\<close>

unbundle bit_operations_syntax

section \<open>Constants and entries\<close>

definition PGDIR_SHIFT :: nat where "PGDIR_SHIFT = 22"
definition PTRS_PER_PGD :: nat where "PTRS_PER_PGD = 1024"
definition PUD_SHIFT :: nat where "PUD_SHIFT = 22"
definition PUD_SIZE :: ulong where "PUD_SIZE = push_bit PUD_SHIFT 1"
definition PMD_SHIFT :: nat where "PMD_SHIFT = 22"
definition PTRS_PER_PMD :: nat where "PTRS_PER_PMD = 1"
definition PMD_SIZE :: ulong where "PMD_SIZE = push_bit PMD_SHIFT 1"
definition PTRS_PER_PTE :: nat where "PTRS_PER_PTE = 1024"
definition PTE_PFN_MASK :: ulong where "PTE_PFN_MASK = 0xFFFFF000"
definition PAGE_PRESENT :: ulong where "PAGE_PRESENT = 0x001"
definition PAGE_RW :: ulong where "PAGE_RW = 0x002"
definition PAGE_USER :: ulong where "PAGE_USER = 0x004"
definition PAGE_ACCESSED :: ulong where "PAGE_ACCESSED = 0x020"
definition PAGE_DIRTY :: ulong where "PAGE_DIRTY = 0x040"
definition PAGE_GLOBAL :: ulong where "PAGE_GLOBAL = 0x100"
definition PAGE_NX :: ulong where "PAGE_NX = 0"
definition PTE_IDENT_ATTR :: ulong where "PTE_IDENT_ATTR = 0x003"
definition PAGE_TABLE :: ulong where "PAGE_TABLE = PAGE_PRESENT OR PAGE_RW OR PAGE_USER OR PAGE_ACCESSED OR PAGE_DIRTY"
definition PAGE_KERNEL_EXEC :: ulong where "PAGE_KERNEL_EXEC = PAGE_PRESENT OR PAGE_RW OR PAGE_DIRTY OR PAGE_ACCESSED OR PAGE_GLOBAL"
definition PAGE_KERNEL :: ulong where "PAGE_KERNEL = PAGE_KERNEL_EXEC OR PAGE_NX"
definition FIXADDR_TOP :: ulong where "FIXADDR_TOP = 0xFFFFF000"
definition VMALLOC_RESERVE :: ulong where "VMALLOC_RESERVE = push_bit 20 128"
definition end_of_fixed_addresses :: ulong where "end_of_fixed_addresses = 1024"
definition end_of_permanent_fixed_addresses :: ulong where "end_of_permanent_fixed_addresses = 1024"
definition FIXADDR_SIZE :: ulong where "FIXADDR_SIZE = push_bit PAGE_SHIFT end_of_permanent_fixed_addresses"
definition FIXADDR_START :: ulong where "FIXADDR_START = FIXADDR_TOP - FIXADDR_SIZE"
definition VMALLOC_END :: ulong where "VMALLOC_END = FIXADDR_START - 2 * PAGE_SIZE"
definition MAXMEM :: ulong where "MAXMEM = VMALLOC_END - PAGE_OFFSET - VMALLOC_RESERVE"
definition MAXMEM_PFN :: ulong where "MAXMEM_PFN = PFN_DOWN MAXMEM"
definition PG_LEVEL_2M :: nat where "PG_LEVEL_2M = 2"
definition NR_RANGE_MR :: nat where "NR_RANGE_MR = 3"

definition uu_va :: "ulong \<Rightarrow> ulong" where "uu_va x = x + PAGE_OFFSET"
definition uu_pa :: "ulong \<Rightarrow> ulong" where "uu_pa x = x - PAGE_OFFSET"
definition pgd_index :: "ulong \<Rightarrow> nat" where "pgd_index address = unat (drop_bit PGDIR_SHIFT address AND (word_of_nat PTRS_PER_PGD - 1))"
definition pmd_index :: "ulong \<Rightarrow> nat" where "pmd_index address = unat (drop_bit PMD_SHIFT address AND (word_of_nat PTRS_PER_PMD - 1))"
definition pte_index :: "ulong \<Rightarrow> nat" where "pte_index address = unat (drop_bit PAGE_SHIFT address AND (word_of_nat PTRS_PER_PTE - 1))"
definition pfn_pte :: "ulong \<Rightarrow> ulong \<Rightarrow> ulong" where "pfn_pte pfn prot = push_bit PAGE_SHIFT pfn OR prot"

text \<open>The memory that holds the tables is a function from frame numbers and word indices; a pointer into a
  table is such a pair. The kernel reaches a frame through its address in the direct mapping.\<close>

type_synonym entry = "nat \<times> nat"

definition frame_at :: "ulong \<Rightarrow> nat" where "frame_at address = unat (drop_bit PAGE_SHIFT (uu_pa address))"

section \<open>State\<close>

text \<open>The variables of \<^verbatim>\<open>mm/init_32.c\<close>, and the region arrays and active regions that it uses. The fields of
  \<open>image\<close> are what the linker and the allocators above provide: the frame of \<^verbatim>\<open>swapper_pg_dir\<close>, the addresses
  \<^verbatim>\<open>_text\<close> and \<^verbatim>\<open>_edata\<close>, and the result of \<^verbatim>\<open>kzalloc\<close> once slabs are available.\<close>

record image =
  swapper_pg_dir :: nat
  im_text :: ulong
  im_edata :: ulong
  im_slab :: bool
  im_kzalloc :: "ulong \<Rightarrow> ulong"

record paging =
  pt_mem :: "nat \<Rightarrow> nat \<Rightarrow> ulong"
  pgt_buf_start :: ulong
  pgt_buf_end :: ulong
  pgt_buf_top :: ulong
  after_bootmem :: bool
  pt_mb :: memblock
  pt_nodes :: node_map
  max_pfn :: ulong
  max_low_pfn :: ulong
  max_pfn_mapped :: ulong
  highmem_pages :: u32

definition get_entry :: "paging \<Rightarrow> entry \<Rightarrow> ulong" where "get_entry \<sigma> e = pt_mem \<sigma> (fst e) (snd e)"

definition set_entry :: "paging \<Rightarrow> entry \<Rightarrow> ulong \<Rightarrow> paging" where
  "set_entry \<sigma> e v = \<sigma>\<lparr>pt_mem := (pt_mem \<sigma>)(fst e := (pt_mem \<sigma> (fst e))(snd e := v))\<rparr>"

abbreviation set_pmd :: "paging \<Rightarrow> entry \<Rightarrow> ulong \<Rightarrow> paging" where "set_pmd \<equiv> set_entry"
abbreviation set_pte :: "paging \<Rightarrow> entry \<Rightarrow> ulong \<Rightarrow> paging" where "set_pte \<equiv> set_entry"

definition pte_offset :: "ulong \<Rightarrow> ulong \<Rightarrow> entry" where
  "pte_offset pmd address = (frame_at (uu_va (pmd AND PTE_PFN_MASK)), pte_index address)"

section \<open>Page tables\<close>

text \<open>\<^verbatim>\<open>memset(addr, 0, PAGE_SIZE)\<close> for the address of a page.\<close>

definition clear_table :: "paging \<Rightarrow> ulong \<Rightarrow> paging" where
  "clear_table \<sigma> addr = \<sigma>\<lparr>pt_mem := (pt_mem \<sigma>)(frame_at addr := (\<lambda>_. 0))\<rparr>"

text \<open>\<open>None\<close> is the \<^verbatim>\<open>panic\<close>.\<close>

definition alloc_low_page :: "paging \<Rightarrow> (paging \<times> ulong) option" where
  "alloc_low_page \<sigma> =
     (if pgt_buf_end \<sigma> \<ge> pgt_buf_top \<sigma> then None
      else let pfn = pgt_buf_end \<sigma>;
               \<sigma> = \<sigma>\<lparr>pgt_buf_end := pgt_buf_end \<sigma> + 1\<rparr>;
               addr = uu_va (push_bit PAGE_SHIFT pfn)
           in Some (clear_table \<sigma> addr, addr))"

definition alloc_bootmem_pages :: "image \<Rightarrow> paging \<Rightarrow> ulong \<Rightarrow> (paging \<times> ulong) option" where
  "alloc_bootmem_pages im \<sigma> sz =
     do {
       (mb, addr) \<leftarrow> uu_alloc_bootmem (im_slab im) (im_kzalloc im) (pt_mb \<sigma>) (pt_nodes \<sigma>) sz PAGE_SIZE 0;
       Some (clear_table (\<sigma>\<lparr>pt_mb := mb\<rparr>) addr, addr)
     }"

text \<open>The upper and the middle level are folded into the page directory: \<^verbatim>\<open>pud_offset\<close> and \<^verbatim>\<open>pmd_offset\<close> return
  their argument.\<close>

definition one_md_table_init :: "entry \<Rightarrow> entry" where "one_md_table_init pgd = pgd"

definition one_page_table_init :: "image \<Rightarrow> paging \<Rightarrow> entry \<Rightarrow> (paging \<times> entry) option" where
  "one_page_table_init im \<sigma> pmd =
     do {
       \<sigma> \<leftarrow> (if get_entry \<sigma> pmd AND PAGE_PRESENT = 0 then
                do {
                  (\<sigma>, page_table) \<leftarrow> (if after_bootmem \<sigma> then alloc_bootmem_pages im \<sigma> PAGE_SIZE else alloc_low_page \<sigma>);
                  Some (set_pmd \<sigma> pmd (uu_pa page_table OR PAGE_TABLE))
                }
              else Some \<sigma>);
       Some (\<sigma>, pte_offset (get_entry \<sigma> pmd) 0)
     }"

text \<open>The inner loop of \<^verbatim>\<open>setup_paging\<close>, which nothing calls, and the loop over the directory. \<^verbatim>\<open>PTRS_PER_PMD\<close> is 1,
  so that the loop over \<^verbatim>\<open>pmd_idx\<close> runs at most once.\<close>

function setup_ptes :: "ulong \<Rightarrow> nat \<Rightarrow> nat \<Rightarrow> nat \<Rightarrow> ulong \<Rightarrow> paging \<Rightarrow> paging \<times> ulong" where
  "setup_ptes en_pfn f i pte_idx pfn \<sigma> =
     (if pte_idx < PTRS_PER_PTE \<and> pfn < en_pfn
      then setup_ptes en_pfn f (i + 1) (pte_idx + 1) (pfn + 1) (set_pte \<sigma> (f, i) (pfn_pte pfn PAGE_KERNEL_EXEC))
      else (\<sigma>, pfn))"
  by pat_completeness auto
termination by (relation "measure (\<lambda>(_, _, _, pte_idx, _, _). PTRS_PER_PTE - pte_idx)") auto

function setup_pgds :: "image \<Rightarrow> ulong \<Rightarrow> nat \<Rightarrow> ulong \<Rightarrow> paging \<Rightarrow> paging option" where
  "setup_pgds im en_pfn pgd_idx pfn \<sigma> =
     (if pgd_idx < PTRS_PER_PGD then
        do {
          let pmd = one_md_table_init (swapper_pg_dir im, pgd_idx);
          (\<sigma>, pfn) \<leftarrow> (if pmd_index (push_bit PAGE_SHIFT pfn) < PTRS_PER_PMD \<and> pfn < en_pfn then
              do {
                (\<sigma>, pte) \<leftarrow> one_page_table_init im \<sigma> pmd;
                Some (setup_ptes en_pfn (fst pte) (snd pte) (pte_index (push_bit PAGE_SHIFT pfn + PAGE_OFFSET)) pfn \<sigma>)
              }
            else Some (\<sigma>, pfn));
          setup_pgds im en_pfn (pgd_idx + 1) pfn \<sigma>
        }
      else Some \<sigma>)"
  by pat_completeness auto
termination by (relation "measure (\<lambda>(_, _, pgd_idx, _, _). PTRS_PER_PGD - pgd_idx)") auto

definition setup_paging :: "image \<Rightarrow> paging \<Rightarrow> paging option" where
  "setup_paging im \<sigma> = setup_pgds im (max_pfn \<sigma>) (pgd_index (push_bit PAGE_SHIFT 0 + PAGE_OFFSET)) 0 \<sigma>"

declare setup_ptes.simps [simp del] setup_pgds.simps [simp del]

section \<open>The range of low memory\<close>

definition setup_bootmem_allocator :: "paging \<Rightarrow> paging" where
  "setup_bootmem_allocator \<sigma> = \<sigma>\<lparr>after_bootmem := True\<rparr>"

definition initmem_init :: "paging \<Rightarrow> paging" where
  "initmem_init \<sigma> =
     setup_bootmem_allocator (\<sigma>\<lparr>pt_nodes := memblock_x86_register_active_regions (pt_mb \<sigma>) (pt_nodes \<sigma>) 0 0 (max_low_pfn \<sigma>)\<rparr>)"

definition lowmem_pfn_init :: "paging \<Rightarrow> paging" where
  "lowmem_pfn_init \<sigma> =
     (let \<sigma> = \<sigma>\<lparr>max_low_pfn := max_pfn \<sigma>\<rparr>
      in if highmem_pages \<sigma> = - 1 then \<sigma>\<lparr>highmem_pages := 0\<rparr> else \<sigma>)"

definition highmem_pfn_init :: "paging \<Rightarrow> paging" where
  "highmem_pfn_init \<sigma> =
     (let \<sigma> = \<sigma>\<lparr>max_low_pfn := MAXMEM_PFN\<rparr>;
          \<sigma> = (if highmem_pages \<sigma> = - 1 then \<sigma>\<lparr>highmem_pages := max_pfn \<sigma> - MAXMEM_PFN\<rparr> else \<sigma>);
          \<sigma> = (if highmem_pages \<sigma> + MAXMEM_PFN < max_pfn \<sigma> then \<sigma>\<lparr>max_pfn := MAXMEM_PFN + highmem_pages \<sigma>\<rparr> else \<sigma>);
          \<sigma> = (if highmem_pages \<sigma> + MAXMEM_PFN > max_pfn \<sigma> then \<sigma>\<lparr>highmem_pages := 0\<rparr> else \<sigma>)
      in \<sigma>\<lparr>max_pfn := MAXMEM_PFN\<rparr>)"

definition find_low_pfn_range :: "paging \<Rightarrow> paging" where
  "find_low_pfn_range \<sigma> = (if max_pfn \<sigma> \<le> MAXMEM_PFN then lowmem_pfn_init \<sigma> else highmem_pfn_init \<sigma>)"

definition get_max_mapped :: "paging \<Rightarrow> phys_addr_t" where
  "get_max_mapped \<sigma> = push_bit PAGE_SHIFT (ucast (max_pfn_mapped \<sigma>))"

section \<open>Mapping ranges\<close>

record map_range =
  mr_start :: ulong
  mr_end :: ulong
  page_size_mask :: ulong

definition save_mr :: "map_range list \<Rightarrow> nat \<Rightarrow> ulong \<Rightarrow> ulong \<Rightarrow> ulong \<Rightarrow> (map_range list \<times> nat) option" where
  "save_mr mr nr_range st_pfn en_pfn msk =
     (if st_pfn < en_pfn then
        if nr_range \<ge> NR_RANGE_MR then None
        else Some (mr[nr_range := \<lparr>mr_start = push_bit PAGE_SHIFT st_pfn, mr_end = push_bit PAGE_SHIFT en_pfn,
                   page_size_mask = msk\<rparr>], nr_range + 1)
      else Some (mr, nr_range))"

definition find_early_table_space :: "paging \<Rightarrow> ulong \<Rightarrow> bool \<Rightarrow> bool \<Rightarrow> paging option" where
  "find_early_table_space \<sigma> en use_pse use_gbpages =
     (let puds = drop_bit PUD_SHIFT (en + PUD_SIZE - 1);
          tables = roundup (puds * 4) PAGE_SIZE;
          pmds = (if use_gbpages
                  then let extra = en - push_bit PUD_SHIFT (drop_bit PUD_SHIFT en)
                       in drop_bit PMD_SHIFT (extra + PMD_SIZE - 1)
                  else drop_bit PMD_SHIFT (en + PMD_SIZE - 1));
          tables = tables + roundup (pmds * 4) PAGE_SIZE;
          ptes = (if use_pse
                  then let extra = en - push_bit PMD_SHIFT (drop_bit PMD_SHIFT en) + PMD_SIZE
                       in drop_bit PAGE_SHIFT (extra + PAGE_SIZE - 1)
                  else drop_bit PAGE_SHIFT (en + PAGE_SIZE - 1));
          tables = tables + roundup (ptes * 4) PAGE_SIZE;
          tables = tables + roundup (end_of_fixed_addresses * 4) PAGE_SIZE;
          good_end = push_bit PAGE_SHIFT (max_pfn_mapped \<sigma>);
          base = memblock_find_in_range (pt_mb \<sigma>) 0 (ucast good_end) (ucast tables) PAGE_SIZE
      in if base = MEMBLOCK_ERROR then None
         else let pfn = ucast (drop_bit PAGE_SHIFT base)
              in Some (\<sigma>\<lparr>pgt_buf_start := pfn, pgt_buf_end := pfn, pgt_buf_top := pfn + drop_bit PAGE_SHIFT tables\<rparr>))"

definition is_kernel_text :: "image \<Rightarrow> ulong \<Rightarrow> bool" where
  "is_kernel_text im addr \<longleftrightarrow> addr \<ge> im_text im \<and> addr \<le> im_edata im"

text \<open>The three loops of \<^verbatim>\<open>kernel_physical_mapping_init\<close>. The counter \<^verbatim>\<open>pages_4k\<close> is never read.\<close>

function map_ptes :: "image \<Rightarrow> bool \<Rightarrow> ulong \<Rightarrow> nat \<Rightarrow> nat \<Rightarrow> ulong \<Rightarrow> ulong \<Rightarrow> ulong \<Rightarrow> paging \<Rightarrow> paging \<times> ulong \<times> ulong" where
  "map_ptes im first en_pfn f pte_ofs pfn addr last_map_addr \<sigma> =
     (if pte_ofs < PTRS_PER_PTE \<and> pfn < en_pfn
      then let prot = (if is_kernel_text im addr then PAGE_KERNEL_EXEC else PAGE_KERNEL);
               \<sigma> = set_pte \<sigma> (f, pte_ofs) (pfn_pte pfn (if first then PTE_IDENT_ATTR else prot));
               last_map_addr = (if first then push_bit PAGE_SHIFT pfn + PAGE_SIZE else last_map_addr)
           in map_ptes im first en_pfn f (pte_ofs + 1) (pfn + 1) (addr + PAGE_SIZE) last_map_addr \<sigma>
      else (\<sigma>, pfn, last_map_addr))"
  by pat_completeness auto
termination by (relation "measure (\<lambda>(_, _, _, _, pte_ofs, _). PTRS_PER_PTE - pte_ofs)") auto

function map_pgds :: "image \<Rightarrow> bool \<Rightarrow> ulong \<Rightarrow> nat \<Rightarrow> ulong \<Rightarrow> ulong \<Rightarrow> paging \<Rightarrow> (paging \<times> ulong) option" where
  "map_pgds im first en_pfn pgd_idx pfn last_map_addr \<sigma> =
     (if pgd_idx < PTRS_PER_PGD then
        let pmd = one_md_table_init (swapper_pg_dir im, pgd_idx)
        in if pfn \<ge> en_pfn then map_pgds im first en_pfn (pgd_idx + 1) pfn last_map_addr \<sigma>
           else
             do {
               let addr = pfn * PAGE_SIZE + PAGE_OFFSET;
               (\<sigma>, pte) \<leftarrow> one_page_table_init im \<sigma> pmd;
               let pte_ofs = pte_index (push_bit PAGE_SHIFT pfn + PAGE_OFFSET);
               let (\<sigma>, pfn, last_map_addr) = map_ptes im first en_pfn (fst pte) pte_ofs pfn addr last_map_addr \<sigma>;
               map_pgds im first en_pfn (pgd_idx + 1) pfn last_map_addr \<sigma>
             }
      else Some (\<sigma>, last_map_addr))"
  by pat_completeness auto
termination by (relation "measure (\<lambda>(_, _, _, pgd_idx, _). PTRS_PER_PGD - pgd_idx)") auto

declare map_ptes.simps [simp del] map_pgds.simps [simp del]

text \<open>Both rounds, from the label \<^verbatim>\<open>repeat\<close> on; the variable \<^verbatim>\<open>use_pse\<close> is set to 0 and not read. Loading the page
  directory and flushing the translation buffer have no effect on the state.\<close>

definition kernel_physical_mapping_init :: "image \<Rightarrow> paging \<Rightarrow> ulong \<Rightarrow> ulong \<Rightarrow> (paging \<times> ulong) option" where
  "kernel_physical_mapping_init im \<sigma> st en =
     do {
       let st_pfn = drop_bit PAGE_SHIFT st;
       let en_pfn = drop_bit PAGE_SHIFT en;
       let pgd_idx = pgd_index (push_bit PAGE_SHIFT st_pfn + PAGE_OFFSET);
       (\<sigma>, last_map_addr) \<leftarrow> map_pgds im True en_pfn pgd_idx st_pfn en \<sigma>;
       let \<sigma> = set_pmd \<sigma> (swapper_pg_dir im, 0) 0;
       map_pgds im False en_pfn pgd_idx st_pfn last_map_addr \<sigma>
     }"

definition native_pagetable_reserve :: "paging \<Rightarrow> u64 \<Rightarrow> u64 \<Rightarrow> paging" where
  "native_pagetable_reserve \<sigma> st en = \<sigma>\<lparr>pt_mb := memblock_x86_reserve_range (pt_mb \<sigma>) st en\<rparr>"

text \<open>The loop that joins adjacent ranges. After a join the index is decremented and incremented again.\<close>

function merge_mr :: "map_range list \<Rightarrow> nat \<Rightarrow> nat \<Rightarrow> map_range list \<times> nat" where
  "merge_mr mr nr_range i =
     (if nr_range > 1 \<and> i < nr_range - 1 then
        if mr_end (mr ! i) \<noteq> mr_start (mr ! (i + 1)) \<or> page_size_mask (mr ! i) \<noteq> page_size_mask (mr ! (i + 1))
        then merge_mr mr nr_range (i + 1)
        else let old_start = mr_start (mr ! i);
                 mr = take i mr @ take (nr_range - 1 - i) (drop (i + 1) mr) @ drop (nr_range - 1) mr;
                 mr = mr[i := (mr ! i)\<lparr>mr_start := old_start\<rparr>]
             in merge_mr mr (nr_range - 1) i
      else (mr, nr_range))"
  by pat_completeness auto
termination by (relation "measure (\<lambda>(_, nr_range, i). nr_range + nr_range - i)") auto

declare merge_mr.simps [simp del]

primrec map_ranges :: "image \<Rightarrow> map_range list \<Rightarrow> paging \<Rightarrow> ulong \<Rightarrow> (paging \<times> ulong) option" where
  "map_ranges im [] \<sigma> ret = Some (\<sigma>, ret)"
| "map_ranges im (r # rs) \<sigma> ret =
     do {
       (\<sigma>, ret) \<leftarrow> kernel_physical_mapping_init im \<sigma> (mr_start r) (mr_end r);
       map_ranges im rs \<sigma> ret
     }"

definition mapping_ranges :: "ulong \<Rightarrow> ulong \<Rightarrow> (map_range list \<times> nat) option" where
  "mapping_ranges st en =
     do {
       let mr = replicate NR_RANGE_MR \<lparr>mr_start = 0, mr_end = 0, page_size_mask = 0\<rparr>;
       let st_pfn = drop_bit PAGE_SHIFT st;
       let pos = push_bit PAGE_SHIFT st_pfn;
       let en_pfn = (if pos = 0 then push_bit (PMD_SHIFT - PAGE_SHIFT) 1
                      else push_bit (PMD_SHIFT - PAGE_SHIFT) (drop_bit PMD_SHIFT (pos + (PMD_SIZE - 1))));
       let en_pfn = (if en_pfn > drop_bit PAGE_SHIFT en then drop_bit PAGE_SHIFT en else en_pfn);
       (mr, nr_range, pos) \<leftarrow> (if st_pfn < en_pfn
          then do { (mr, nr_range) \<leftarrow> save_mr mr 0 st_pfn en_pfn 0; Some (mr, nr_range, push_bit PAGE_SHIFT en_pfn) }
          else Some (mr, 0, pos));
       let st_pfn = push_bit (PMD_SHIFT - PAGE_SHIFT) (drop_bit PMD_SHIFT (pos + (PMD_SIZE - 1)));
       let en_pfn = push_bit (PMD_SHIFT - PAGE_SHIFT) (drop_bit PMD_SHIFT en);
       (mr, nr_range, pos) \<leftarrow> (if st_pfn < en_pfn
          then do { (mr, nr_range) \<leftarrow> save_mr mr nr_range st_pfn en_pfn (0 AND push_bit PG_LEVEL_2M 1);
                    Some (mr, nr_range, push_bit PAGE_SHIFT en_pfn) }
          else Some (mr, nr_range, pos));
       let st_pfn = drop_bit PAGE_SHIFT pos;
       let en_pfn = drop_bit PAGE_SHIFT en;
       (mr, nr_range) \<leftarrow> save_mr mr nr_range st_pfn en_pfn 0;
       Some (merge_mr mr nr_range 0)
     }"

definition init_memory_mapping :: "image \<Rightarrow> paging \<Rightarrow> ulong \<Rightarrow> ulong \<Rightarrow> (paging \<times> ulong) option" where
  "init_memory_mapping im \<sigma> st en =
     do {
       (mr, nr_range) \<leftarrow> mapping_ranges st en;
       \<sigma> \<leftarrow> (if \<not> after_bootmem \<sigma> then find_early_table_space \<sigma> en False False else Some \<sigma>);
       (\<sigma>, ret) \<leftarrow> map_ranges im (take nr_range mr) \<sigma> 0;
       let \<sigma> = (if \<not> after_bootmem \<sigma> \<and> pgt_buf_end \<sigma> > pgt_buf_start \<sigma>
                then native_pagetable_reserve \<sigma> (PFN_PHYS (pgt_buf_start \<sigma>)) (PFN_PHYS (pgt_buf_end \<sigma>))
                else \<sigma>);
       Some (\<sigma>, drop_bit PAGE_SHIFT ret)
     }"
section \<open>What the processor sees\<close>

text \<open>The walk of the processor through the tables: the frame and the attributes of an address.\<close>

definition translate :: "image \<Rightarrow> paging \<Rightarrow> ulong \<Rightarrow> (ulong \<times> ulong) option" where
  "translate im \<sigma> va =
     (let pde = get_entry \<sigma> (swapper_pg_dir im, pgd_index va);
          pte = get_entry \<sigma> (unat (drop_bit PAGE_SHIFT pde), pte_index va)
      in if pde AND PAGE_PRESENT = 0 \<or> pte AND PAGE_PRESENT = 0 then None
         else Some (drop_bit PAGE_SHIFT pte, pte AND NOT PTE_PFN_MASK))"

definition pde :: "image \<Rightarrow> paging \<Rightarrow> nat \<Rightarrow> ulong" where "pde im \<sigma> i = pt_mem \<sigma> (swapper_pg_dir im) i"
definition pres :: "image \<Rightarrow> paging \<Rightarrow> nat \<Rightarrow> bool" where "pres im \<sigma> i \<longleftrightarrow> pde im \<sigma> i AND PAGE_PRESENT \<noteq> 0"
definition tbl :: "image \<Rightarrow> paging \<Rightarrow> nat \<Rightarrow> nat" where "tbl im \<sigma> i = unat (drop_bit PAGE_SHIFT (pde im \<sigma> i))"
definition buf :: "paging \<Rightarrow> nat set" where "buf \<sigma> = {unat (pgt_buf_end \<sigma>)..<unat (pgt_buf_top \<sigma>)}"

text \<open>The entries of the kernel half of the directory, and the invariant: their tables are distinct, and neither the
  directory nor a table lies in the unused part of the buffer.\<close>

abbreviation kern :: "nat set" where "kern \<equiv> {768..<1024}"

definition tabs_ok :: "image \<Rightarrow> paging \<Rightarrow> bool" where
  "tabs_ok im \<sigma> \<longleftrightarrow> unat (pgt_buf_top \<sigma>) \<le> 2 ^ 20 \<and> swapper_pg_dir im \<notin> buf \<sigma>
     \<and> (\<forall>i\<in>kern. pres im \<sigma> i \<longrightarrow> tbl im \<sigma> i \<noteq> swapper_pg_dir im \<and> tbl im \<sigma> i \<notin> buf \<sigma>)
     \<and> (\<forall>i\<in>kern. \<forall>j\<in>kern. i \<noteq> j \<longrightarrow> pres im \<sigma> i \<longrightarrow> pres im \<sigma> j \<longrightarrow> tbl im \<sigma> i \<noteq> tbl im \<sigma> j)"

lemma unat_drop_div: "unat (drop_bit n (x :: 'a::len word)) = unat x div 2 ^ n"
proof -
  have "take_bit LENGTH('a) (unat x) = unat x" using unat_bound [of x] by (simp add: take_bit_nat_eq_self)
  then have "unat (drop_bit n x) = drop_bit n (unat x)" by (simp add: unsigned_drop_bit_eq)
  then show ?thesis by (simp only: drop_bit_eq_div)
qed

lemma low_frame_bits: "drop_bit 12 x AND 0xFFFFF = drop_bit 12 (x :: ulong)"
proof -
  have "unat (drop_bit 12 x) < 2 ^ 20" unfolding unat_drop_div using unat_bound [of x] by simp
  then have "take_bit 20 (drop_bit 12 x) = drop_bit 12 x" by (simp add: word_eq_unat unsigned_take_bit_eq take_bit_nat_eq_self)
  moreover have "(0xFFFFF :: ulong) = mask 20" by (simp add: mask_eq_exp_minus_1)
  ultimately show ?thesis by (simp only: take_bit_eq_mask)
qed

lemma frame_va: "frame_at (uu_va x) = unat (drop_bit 12 x)"
  by (simp add: frame_at_def uu_va_def uu_pa_def PAGE_SHIFT_def)

lemma pte_offset_0: "pte_offset (pde im \<sigma> i) 0 = (tbl im \<sigma> i, 0)"
  by (simp add: pte_offset_def frame_va low_frame_bits PTE_PFN_MASK_def tbl_def PAGE_SHIFT_def pte_index_def)

lemma push_drop_frame: "unat p < 2 ^ 20 \<Longrightarrow> drop_bit 12 (push_bit 12 p :: ulong) = p"
proof -
  assume "unat p < 2 ^ 20"
  then have "take_bit 20 p = p" by (simp add: word_eq_unat unsigned_take_bit_eq take_bit_nat_eq_self)
  then have b: "bit p n \<Longrightarrow> n < 20" for n by (metis bit_take_bit_iff)
  show ?thesis by (rule bit_word_eqI) (auto simp: bit_drop_bit_eq bit_push_bit_iff dest: b)
qed

lemma unat_push_pfn: "unat p < 2 ^ 20 \<Longrightarrow> unat (push_bit 12 p :: ulong) = 4096 * unat p"
  by (simp add: push_bit_eq_mult unat_word_ariths)

lemma index_of_pfn:
  fixes p :: ulong
  assumes "unat p < 2 ^ 18"
  shows "pgd_index (push_bit PAGE_SHIFT p + PAGE_OFFSET) = 768 + unat p div 1024" "pte_index (push_bit PAGE_SHIFT p + PAGE_OFFSET) = unat p mod 1024"
proof -
  let ?a = "push_bit 12 p + 0xC0000000 :: ulong"
  have a: "unat ?a = 4096 * unat p + 0xC0000000"
    using assms unat_push_pfn [of p] by (subst unat_add_no_wrap) simp_all
  have m: "unat (x AND 1023) = unat x mod 1024" for x :: ulong
  proof -
    have "x AND 1023 = take_bit 10 x" by (simp only: take_bit_eq_mask) (simp add: mask_eq_exp_minus_1)
    then show ?thesis by (simp only: unsigned_take_bit_eq) (simp add: take_bit_eq_mod)
  qed
  have "unat (drop_bit 22 ?a) = 768 + unat p div 1024" "unat (drop_bit 12 ?a) = 786432 + unat p"
    using assms unfolding unat_drop_div a by simp_all
  moreover have "(786432 + unat p) mod 1024 = unat p mod 1024" using mod_mult_self3 [of 768 1024 "unat p"] by simp
  ultimately show "pgd_index (push_bit PAGE_SHIFT p + PAGE_OFFSET) = 768 + unat p div 1024" "pte_index (push_bit PAGE_SHIFT p + PAGE_OFFSET) = unat p mod 1024"
    using assms by (simp_all add: pgd_index_def pte_index_def PGDIR_SHIFT_def PAGE_SHIFT_def PTRS_PER_PGD_def PTRS_PER_PTE_def PAGE_OFFSET_def m)
qed
section \<open>One table\<close>

text \<open>The changes of the mapping code: the tables, and the number of pages taken from the buffer.\<close>

definition grown :: "image \<Rightarrow> paging \<Rightarrow> paging \<Rightarrow> bool" where
  "grown im \<sigma> \<sigma>' \<longleftrightarrow> (\<exists>m e. \<sigma>' = \<sigma>\<lparr>pt_mem := m, pgt_buf_end := e\<rparr>) \<and> tabs_ok im \<sigma>' \<and> buf \<sigma>' \<subseteq> buf \<sigma>
     \<and> pgt_buf_end \<sigma> \<le> pgt_buf_end \<sigma>'
     \<and> (\<forall>i. pres im \<sigma> i \<or> i \<notin> kern \<longrightarrow> pde im \<sigma>' i = pde im \<sigma> i)
     \<and> (\<forall>i\<in>kern. pres im \<sigma>' i \<longrightarrow> pres im \<sigma> i \<or> tbl im \<sigma>' i \<in> buf \<sigma> - buf \<sigma>')
     \<and> (\<forall>f. f \<notin> buf \<sigma> \<and> f \<noteq> swapper_pg_dir im \<and> f \<notin> tbl im \<sigma> ` {i\<in>kern. pres im \<sigma> i} \<longrightarrow> pt_mem \<sigma>' f = pt_mem \<sigma> f)"

lemma grown_refl: "tabs_ok im \<sigma> \<Longrightarrow> grown im \<sigma> \<sigma>"
  unfolding grown_def by (auto intro!: exI [of _ "pt_mem \<sigma>"] exI [of _ "pgt_buf_end \<sigma>"])

lemma grown_fields:
  assumes "grown im \<sigma> \<sigma>'"
  shows "after_bootmem \<sigma>' = after_bootmem \<sigma>" "pgt_buf_top \<sigma>' = pgt_buf_top \<sigma>" "pgt_buf_start \<sigma>' = pgt_buf_start \<sigma>" "pt_mb \<sigma>' = pt_mb \<sigma>"
    "pt_nodes \<sigma>' = pt_nodes \<sigma>" "max_pfn_mapped \<sigma>' = max_pfn_mapped \<sigma>" "max_low_pfn \<sigma>' = max_low_pfn \<sigma>" "tabs_ok im \<sigma>'"
  using assms by (auto simp: grown_def)

lemma grown_pres: "grown im \<sigma> \<sigma>' \<Longrightarrow> pres im \<sigma> i \<Longrightarrow> pres im \<sigma>' i \<and> tbl im \<sigma>' i = tbl im \<sigma> i"
  unfolding grown_def pres_def tbl_def by auto

lemma grown_trans:
  assumes a: "grown im \<sigma> \<sigma>1" and b: "grown im \<sigma>1 \<sigma>2"
  shows "grown im \<sigma> \<sigma>2"
proof -
  have P: "pres im \<sigma>1 i \<and> tbl im \<sigma>1 i = tbl im \<sigma> i" if "pres im \<sigma> i" for i using grown_pres [OF a that] .
  obtain m1 e1 where "\<sigma>1 = \<sigma>\<lparr>pt_mem := m1, pgt_buf_end := e1\<rparr>" using a unfolding grown_def by blast
  moreover obtain m2 e2 where "\<sigma>2 = \<sigma>1\<lparr>pt_mem := m2, pgt_buf_end := e2\<rparr>" using b unfolding grown_def by blast
  ultimately have "\<sigma>2 = \<sigma>\<lparr>pt_mem := m2, pgt_buf_end := e2\<rparr>" by simp
  then have "\<exists>m e. \<sigma>2 = \<sigma>\<lparr>pt_mem := m, pgt_buf_end := e\<rparr>" by blast
  moreover have "pt_mem \<sigma>2 f = pt_mem \<sigma> f" if f: "f \<notin> buf \<sigma>" "f \<noteq> swapper_pg_dir im" "f \<notin> tbl im \<sigma> ` {i\<in>kern. pres im \<sigma> i}" for f
  proof -
    have "f \<notin> tbl im \<sigma>1 ` {i\<in>kern. pres im \<sigma>1 i}"
    proof
      assume "f \<in> tbl im \<sigma>1 ` {i\<in>kern. pres im \<sigma>1 i}"
      then obtain i where i: "i \<in> kern" "pres im \<sigma>1 i" "f = tbl im \<sigma>1 i" by blast
      then have "pres im \<sigma> i \<or> f \<in> buf \<sigma>" using a unfolding grown_def by blast
      then show False using f i P by (metis (no_types, lifting) imageI mem_Collect_eq)
    qed
    moreover have "f \<notin> buf \<sigma>1" using a f unfolding grown_def by blast
    ultimately have "pt_mem \<sigma>2 f = pt_mem \<sigma>1 f" "pt_mem \<sigma>1 f = pt_mem \<sigma> f" using a b f unfolding grown_def by blast+
    then show ?thesis by simp
  qed
  moreover have "pres im \<sigma> i \<or> tbl im \<sigma>2 i \<in> buf \<sigma> - buf \<sigma>2" if "i \<in> kern" "pres im \<sigma>2 i" for i
  proof (cases "pres im \<sigma>1 i")
    case True
    then have "tbl im \<sigma>2 i = tbl im \<sigma>1 i" using grown_pres [OF b] by blast
    then show ?thesis using True that a b unfolding grown_def by (metis DiffD1 DiffD2 DiffI subsetD)
  next
    case False
    then show ?thesis using that a b unfolding grown_def by blast
  qed
  moreover have "pde im \<sigma>2 i = pde im \<sigma> i" if "pres im \<sigma> i \<or> i \<notin> kern" for i using that a b P unfolding grown_def by metis
  moreover have "tabs_ok im \<sigma>2" "buf \<sigma>2 \<subseteq> buf \<sigma>" "pgt_buf_end \<sigma> \<le> pgt_buf_end \<sigma>2" using a b unfolding grown_def by auto
  ultimately show ?thesis unfolding grown_def by blast
qed

lemma table_write:
  assumes ok: "tabs_ok im \<sigma>" and i: "i \<in> kern" "pres im \<sigma> i"
  shows "grown im \<sigma> (\<sigma>\<lparr>pt_mem := (pt_mem \<sigma>)(tbl im \<sigma> i := g)\<rparr>)"
proof -
  define \<sigma>' where "\<sigma>' = \<sigma>\<lparr>pt_mem := (pt_mem \<sigma>)(tbl im \<sigma> i := g)\<rparr>"
  have "tbl im \<sigma> i \<noteq> swapper_pg_dir im" using ok i by (simp add: tabs_ok_def)
  then have pd: "pde im \<sigma>' j = pde im \<sigma> j" for j by (simp add: pde_def \<sigma>'_def)
  have pr: "pres im \<sigma>' j = pres im \<sigma> j" "tbl im \<sigma>' j = tbl im \<sigma> j" for j by (simp_all add: pres_def tbl_def pd)
  have bf: "buf \<sigma>' = buf \<sigma>" "pgt_buf_top \<sigma>' = pgt_buf_top \<sigma>" "pgt_buf_end \<sigma>' = pgt_buf_end \<sigma>" by (simp_all add: buf_def \<sigma>'_def)
  have "\<sigma>' = \<sigma>\<lparr>pt_mem := pt_mem \<sigma>', pgt_buf_end := pgt_buf_end \<sigma>\<rparr>" by (simp add: \<sigma>'_def)
  then have ex: "\<exists>m e. \<sigma>' = \<sigma>\<lparr>pt_mem := m, pgt_buf_end := e\<rparr>" by blast
  have ok': "tabs_ok im \<sigma>'" using ok unfolding tabs_ok_def pr bf .
  have "pt_mem \<sigma>' f = pt_mem \<sigma> f" if "f \<notin> tbl im \<sigma> ` {i\<in>kern. pres im \<sigma> i}" for f using that i by (auto simp: \<sigma>'_def)
  then show ?thesis unfolding \<sigma>'_def [symmetric] grown_def pr bf using ex ok' pd by blast
qed

lemma present_bit: "(x OR PAGE_TABLE) AND PAGE_PRESENT \<noteq> 0"
proof -
  have "bit ((x OR PAGE_TABLE) AND PAGE_PRESENT) 0"
    by (simp add: bit_and_iff bit_or_iff PAGE_TABLE_def PAGE_PRESENT_def PAGE_RW_def PAGE_USER_def PAGE_ACCESSED_def PAGE_DIRTY_def)
  then show ?thesis by (metis bit_0_eq bot_apply bot_bool_def)
qed

lemma table_frame: "unat e < 2 ^ 20 \<Longrightarrow> drop_bit 12 (push_bit 12 e OR PAGE_TABLE) = (e :: ulong)"
  using push_drop_frame [of e] by (simp add: PAGE_TABLE_def PAGE_PRESENT_def PAGE_RW_def PAGE_USER_def PAGE_ACCESSED_def PAGE_DIRTY_def)

lemma one_table:
  assumes ok: "tabs_ok im \<sigma>" and i: "i \<in> kern" and ab: "\<not> after_bootmem \<sigma>" and room: "pres im \<sigma> i \<or> pgt_buf_end \<sigma> < pgt_buf_top \<sigma>"
  shows "\<exists>\<sigma>'. one_page_table_init im \<sigma> (swapper_pg_dir im, i) = Some (\<sigma>', (tbl im \<sigma>' i, 0)) \<and> grown im \<sigma> \<sigma>' \<and> pres im \<sigma>' i
    \<and> (\<forall>j. j \<noteq> i \<longrightarrow> pde im \<sigma>' j = pde im \<sigma> j) \<and> pgt_buf_end \<sigma>' = (if pres im \<sigma> i then pgt_buf_end \<sigma> else pgt_buf_end \<sigma> + 1)
    \<and> (\<forall>j\<in>kern. pres im \<sigma> j \<longrightarrow> pt_mem \<sigma>' (tbl im \<sigma> j) = pt_mem \<sigma> (tbl im \<sigma> j))"
proof (cases "pres im \<sigma> i")
  case True
  then have "one_page_table_init im \<sigma> (swapper_pg_dir im, i) = Some (\<sigma>, (tbl im \<sigma> i, 0))"
    using pte_offset_0 [of im \<sigma> i] by (simp add: one_page_table_init_def get_entry_def pres_def pde_def)
  then show ?thesis using grown_refl [OF ok] True by auto
next
  case False
  let ?s = "swapper_pg_dir im" and ?e = "pgt_buf_end \<sigma>"
  have lt: "unat ?e < unat (pgt_buf_top \<sigma>)" using room False by (simp add: word_less_nat_alt)
  have e20: "unat ?e < 2 ^ 20" using ok lt by (simp add: tabs_ok_def)
  have s: "?s \<noteq> unat ?e" using ok lt by (auto simp: tabs_ok_def buf_def)
  define m where "m = (pt_mem \<sigma>)(unat ?e := (\<lambda>_. 0), ?s := (pt_mem \<sigma> ?s)(i := push_bit 12 ?e OR PAGE_TABLE))"
  define \<sigma>' where "\<sigma>' = \<sigma>\<lparr>pt_mem := m, pgt_buf_end := ?e + 1\<rparr>"
  have fr: "frame_at (uu_va (push_bit 12 ?e)) = unat ?e" using push_drop_frame [OF e20] by (simp add: frame_va)
  have pd: "pde im \<sigma>' j = (if j = i then push_bit 12 ?e OR PAGE_TABLE else pde im \<sigma> j)" for j by (simp add: pde_def \<sigma>'_def m_def)
  have tb: "tbl im \<sigma>' j = (if j = i then unat ?e else tbl im \<sigma> j)" for j
    unfolding tbl_def pd using table_frame [OF e20] by (simp add: PAGE_SHIFT_def)
  have pr: "pres im \<sigma>' j \<longleftrightarrow> j = i \<or> pres im \<sigma> j" for j unfolding pres_def pd using present_bit by auto
  have e1: "unat (?e + 1) = unat ?e + 1" using lt unat_bound [of "pgt_buf_top \<sigma>"] by (subst unat_add_no_wrap) simp_all
  have bf: "buf \<sigma>' \<subseteq> buf \<sigma>" "unat ?e \<in> buf \<sigma>" "unat ?e \<notin> buf \<sigma>'" using lt e1 by (auto simp: buf_def \<sigma>'_def)
  have run: "one_page_table_init im \<sigma> (?s, i) = Some (\<sigma>', (tbl im \<sigma>' i, 0))"
  proof -
    have "alloc_low_page \<sigma> = Some (\<sigma>\<lparr>pgt_buf_end := ?e + 1, pt_mem := (pt_mem \<sigma>)(unat ?e := (\<lambda>_. 0))\<rparr>, uu_va (push_bit 12 ?e))"
      using lt fr by (simp add: alloc_low_page_def clear_table_def PAGE_SHIFT_def word_le_nat_alt)
    moreover have "set_pmd (\<sigma>\<lparr>pgt_buf_end := ?e + 1, pt_mem := (pt_mem \<sigma>)(unat ?e := (\<lambda>_. 0))\<rparr>) (?s, i) (push_bit 12 ?e OR PAGE_TABLE) = \<sigma>'"
      using s by (simp add: set_entry_def \<sigma>'_def m_def)
    moreover have "get_entry \<sigma>' (?s, i) = pde im \<sigma>' i" by (simp add: get_entry_def pde_def)
    ultimately show ?thesis
      using False ab pte_offset_0 [of im \<sigma>' i] by (simp add: one_page_table_init_def get_entry_def [of \<sigma>] pres_def pde_def [of im \<sigma> i] uu_pa_def uu_va_def)
  qed
  have ok': "tabs_ok im \<sigma>'" using ok bf s lt unfolding tabs_ok_def pr tb by (auto simp: \<sigma>'_def)
  have oth: "pt_mem \<sigma>' f = pt_mem \<sigma> f" if "f \<noteq> unat ?e" "f \<noteq> ?s" for f using that by (simp add: \<sigma>'_def m_def)
  have gr: "grown im \<sigma> \<sigma>'"
    unfolding grown_def
  proof (intro conjI)
    show "\<exists>m e. \<sigma>' = \<sigma>\<lparr>pt_mem := m, pgt_buf_end := e\<rparr>" unfolding \<sigma>'_def by blast
    show "pgt_buf_end \<sigma> \<le> pgt_buf_end \<sigma>'" using e1 by (simp add: \<sigma>'_def word_le_nat_alt)
    show "\<forall>j. pres im \<sigma> j \<or> j \<notin> kern \<longrightarrow> pde im \<sigma>' j = pde im \<sigma> j" using pd False i by auto
    show "\<forall>j\<in>kern. pres im \<sigma>' j \<longrightarrow> pres im \<sigma> j \<or> tbl im \<sigma>' j \<in> buf \<sigma> - buf \<sigma>'" unfolding pr tb using bf by auto
    show "\<forall>f. f \<notin> buf \<sigma> \<and> f \<noteq> ?s \<and> f \<notin> tbl im \<sigma> ` {i\<in>kern. pres im \<sigma> i} \<longrightarrow> pt_mem \<sigma>' f = pt_mem \<sigma> f" using oth bf(2) by metis
  qed (rule ok' bf(1))+
  have "pt_mem \<sigma>' (tbl im \<sigma> j) = pt_mem \<sigma> (tbl im \<sigma> j)" if "j \<in> kern" "pres im \<sigma> j" for j
    using that ok bf(2) by (intro oth) (auto simp: tabs_ok_def)
  moreover have "pgt_buf_end \<sigma>' = ?e + 1" by (simp add: \<sigma>'_def)
  ultimately show ?thesis using run gr pr pd False by auto
qed
section \<open>The entries of a table\<close>

definition pte_val :: "image \<Rightarrow> bool \<Rightarrow> ulong \<Rightarrow> ulong" where
  "pte_val im first p = pfn_pte p (if first then PTE_IDENT_ATTR
     else if is_kernel_text im (p * PAGE_SIZE + PAGE_OFFSET) then PAGE_KERNEL_EXEC else PAGE_KERNEL)"

lemma no_slice: "(\<lambda>i. if ofs \<le> i \<and> i < (ofs :: nat) then a i else b i) = b"
  by (rule ext) auto

lemma map_ptes_run:
  assumes "unat e \<le> 2 ^ 18"
  shows "map_ptes im first e f ofs p (p * PAGE_SIZE + PAGE_OFFSET) l \<sigma> =
    (let n = min (1024 - ofs) (unat e - unat p)
     in (\<sigma>\<lparr>pt_mem := (pt_mem \<sigma>)(f := (\<lambda>i. if ofs \<le> i \<and> i < ofs + n then pte_val im first (p + word_of_nat (i - ofs)) else pt_mem \<sigma> f i))\<rparr>,
         p + word_of_nat n, if first \<and> n \<noteq> 0 then push_bit PAGE_SHIFT (p + word_of_nat n - 1) + PAGE_SIZE else l))"
proof (induction "1024 - ofs" arbitrary: ofs p l \<sigma>)
  case 0
  then show ?case by (subst map_ptes.simps) (simp add: PTRS_PER_PTE_def no_slice)
next
  case (Suc d)
  show ?case
  proof (cases "p < e")
    case False
    then show ?thesis by (subst map_ptes.simps) (simp add: word_less_nat_alt no_slice)
  next
    case True
    then have lt: "unat p < unat e" by (simp add: word_less_nat_alt)
    have p1: "unat (p + 1) = unat p + 1" using lt assms by (subst unat_add_no_wrap) simp_all
    let ?v = "pte_val im first p"
    let ?l = "if first then push_bit PAGE_SHIFT p + PAGE_SIZE else l"
    let ?\<sigma> = "set_pte \<sigma> (f, ofs) ?v"
    have adr: "p * PAGE_SIZE + PAGE_OFFSET + PAGE_SIZE = (p + 1) * PAGE_SIZE + PAGE_OFFSET" by (simp add: algebra_simps)
    have o: "ofs < PTRS_PER_PTE" using Suc.hyps(2) by (simp add: PTRS_PER_PTE_def)
    have step: "map_ptes im first e f ofs p (p * PAGE_SIZE + PAGE_OFFSET) l \<sigma> = map_ptes im first e f (ofs + 1) (p + 1) ((p + 1) * PAGE_SIZE + PAGE_OFFSET) ?l ?\<sigma>"
      using True o by (subst map_ptes.simps) (simp add: Let_def pte_val_def adr [symmetric])
    have d: "d = 1024 - (ofs + 1)" using Suc.hyps(2) by simp
    define n where "n = min (1024 - (ofs + 1)) (unat e - unat (p + 1))"
    have n: "min (1024 - ofs) (unat e - unat p) = n + 1" using Suc.hyps(2) lt p1 by (simp add: n_def)
    have w: "p + 1 + word_of_nat n = p + word_of_nat (n + 1)" by simp
    have mem: "?\<sigma>\<lparr>pt_mem := (pt_mem ?\<sigma>)(f := (\<lambda>i. if ofs + 1 \<le> i \<and> i < ofs + 1 + n then pte_val im first (p + 1 + word_of_nat (i - (ofs + 1))) else pt_mem ?\<sigma> f i))\<rparr>
      = \<sigma>\<lparr>pt_mem := (pt_mem \<sigma>)(f := (\<lambda>i. if ofs \<le> i \<and> i < ofs + (n + 1) then pte_val im first (p + word_of_nat (i - ofs)) else pt_mem \<sigma> f i))\<rparr>"
    proof -
      have "p + 1 + word_of_nat (i - (ofs + 1)) = p + word_of_nat (i - ofs)" if "ofs + 1 \<le> i" for i
        using le_Suc_ex [OF that] by auto
      then have "(if ofs + 1 \<le> i \<and> i < ofs + 1 + n then pte_val im first (p + 1 + word_of_nat (i - (ofs + 1))) else pt_mem ?\<sigma> f i)
          = (if ofs \<le> i \<and> i < ofs + (n + 1) then pte_val im first (p + word_of_nat (i - ofs)) else pt_mem \<sigma> f i)" for i
        by (cases "i = ofs") (auto simp: set_entry_def)
      then show ?thesis by (simp add: set_entry_def fun_eq_iff)
    qed
    have last: "(if first \<and> n \<noteq> 0 then push_bit PAGE_SHIFT (p + word_of_nat (n + 1) - 1) + PAGE_SIZE else ?l)
      = (if first \<and> n + 1 \<noteq> 0 then push_bit PAGE_SHIFT (p + word_of_nat (n + 1) - 1) + PAGE_SIZE else l)"
      by auto
    show ?thesis
      unfolding step Suc.hyps(1) [OF d] n Let_def n_def [symmetric] mem w last ..
  qed
qed
section \<open>One round over the directory\<close>

definition mapped :: "image \<Rightarrow> bool \<Rightarrow> paging \<Rightarrow> ulong \<Rightarrow> bool" where
  "mapped im first \<sigma> p \<longleftrightarrow> pres im \<sigma> (768 + unat p div 1024)
     \<and> pt_mem \<sigma> (tbl im \<sigma> (768 + unat p div 1024)) (unat p mod 1024) = pte_val im first p"

text \<open>The entries of the pages below \<open>p\<close> in tables that are there.\<close>

definition entries_kept :: "image \<Rightarrow> nat \<Rightarrow> paging \<Rightarrow> paging \<Rightarrow> bool" where
  "entries_kept im p \<sigma> \<sigma>' \<longleftrightarrow> (\<forall>i\<in>kern. \<forall>k. pres im \<sigma> i \<and> 1024 * (i - 768) + k < p \<longrightarrow> pt_mem \<sigma>' (tbl im \<sigma> i) k = pt_mem \<sigma> (tbl im \<sigma> i) k)"

abbreviation missing :: "image \<Rightarrow> paging \<Rightarrow> nat \<Rightarrow> ulong \<Rightarrow> nat set" where
  "missing im \<sigma> idx e \<equiv> {i\<in>{idx..<768 + (unat e + 1023) div 1024}. \<not> pres im \<sigma> i}"

lemma entries_kept_trans:
  assumes "grown im \<sigma> \<sigma>1" "entries_kept im p \<sigma> \<sigma>1" "entries_kept im p1 \<sigma>1 \<sigma>2" "p \<le> p1"
  shows "entries_kept im p \<sigma> \<sigma>2"
  unfolding entries_kept_def
proof (intro ballI allI impI)
  fix i k assume i: "i \<in> kern" and k: "pres im \<sigma> i \<and> 1024 * (i - 768) + k < p"
  have "pres im \<sigma>1 i" "tbl im \<sigma>1 i = tbl im \<sigma> i" using grown_pres [OF assms(1)] k by blast+
  moreover have "1024 * (i - 768) + k < p1" using k assms(4) by simp
  ultimately have "pt_mem \<sigma>2 (tbl im \<sigma> i) k = pt_mem \<sigma>1 (tbl im \<sigma> i) k" using assms(3) i unfolding entries_kept_def by metis
  then show "pt_mem \<sigma>2 (tbl im \<sigma> i) k = pt_mem \<sigma> (tbl im \<sigma> i) k" using assms(2) i k unfolding entries_kept_def by metis
qed

lemma mapped_kept:
  assumes "grown im \<sigma> \<sigma>'" "entries_kept im n \<sigma> \<sigma>'" "mapped im first \<sigma> q" "unat q < n" "unat q < 2 ^ 18"
  shows "mapped im first \<sigma>' q"
proof -
  let ?i = "768 + unat q div 1024"
  have "?i \<in> kern" "1024 * (?i - 768) + unat q mod 1024 < n" using assms(4,5) by simp_all
  then show ?thesis using assms(2,3) grown_pres [OF assms(1), of ?i] unfolding mapped_def entries_kept_def by metis
qed

text \<open>The entries that one table receives.\<close>

lemma table_round:
  fixes p e :: ulong and first :: bool
  assumes ok: "tabs_ok im \<sigma>" and i: "i = 768 + unat p div 1024" "i \<in> kern" "pres im \<sigma> i" and lt: "unat p < unat e" "unat e \<le> 2 ^ 18"
  defines "n \<equiv> min (1024 - unat p mod 1024) (unat e - unat p)"
  defines "\<sigma>' \<equiv> \<sigma>\<lparr>pt_mem := (pt_mem \<sigma>)(tbl im \<sigma> i := (\<lambda>k. if unat p mod 1024 \<le> k \<and> k < unat p mod 1024 + n
      then pte_val im first (p + word_of_nat (k - unat p mod 1024)) else pt_mem \<sigma> (tbl im \<sigma> i) k))\<rparr>"
  shows "grown im \<sigma> \<sigma>'" "entries_kept im (unat p) \<sigma> \<sigma>'" "\<And>q. unat p \<le> unat q \<Longrightarrow> unat q < unat p + n \<Longrightarrow> mapped im first \<sigma>' q"
    "pde im \<sigma>' j = pde im \<sigma> j" "pgt_buf_end \<sigma>' = pgt_buf_end \<sigma>"
proof -
  show gr: "grown im \<sigma> \<sigma>'" unfolding \<sigma>'_def by (rule table_write [OF ok i(2,3)])
  have t: "tbl im \<sigma> i \<noteq> swapper_pg_dir im" using ok i by (simp add: tabs_ok_def)
  then show pd: "pde im \<sigma>' j = pde im \<sigma> j" for j by (simp add: pde_def \<sigma>'_def)
  show "pgt_buf_end \<sigma>' = pgt_buf_end \<sigma>" by (simp add: \<sigma>'_def)
  have p: "unat p = 1024 * (i - 768) + unat p mod 1024" using i(1) by simp
  show "entries_kept im (unat p) \<sigma> \<sigma>'"
    unfolding entries_kept_def
  proof (intro ballI allI impI)
    fix j k assume j: "j \<in> kern" and k: "pres im \<sigma> j \<and> 1024 * (j - 768) + k < unat p"
    have "tbl im \<sigma> j \<noteq> tbl im \<sigma> i \<or> k < unat p mod 1024"
    proof (cases "j = i")
      case True
      then show ?thesis using k p by simp
    next
      case False
      then show ?thesis using ok i(2,3) j k unfolding tabs_ok_def by blast
    qed
    then show "pt_mem \<sigma>' (tbl im \<sigma> j) k = pt_mem \<sigma> (tbl im \<sigma> j) k" by (auto simp: \<sigma>'_def)
  qed
  show "mapped im first \<sigma>' q" if q: "unat p \<le> unat q" "unat q < unat p + n" for q
  proof -
    have n: "unat p mod 1024 + n \<le> 1024" by (simp add: n_def)
    define r where "r = unat p mod 1024 + (unat q - unat p)"
    have r: "r < 1024" using q n by (simp add: r_def)
    have d: "unat q = r + 1024 * (unat p div 1024)" using q(1) by (simp add: r_def)
    have qd: "unat q div 1024 = unat p div 1024" "unat q mod 1024 = r" unfolding d using r by simp_all
    have rb: "unat p mod 1024 \<le> r" "r < unat p mod 1024 + n" "r - unat p mod 1024 = unat q - unat p" using q unfolding r_def by simp_all
    have w: "p + word_of_nat (unat q - unat p) = q"
      using q(1) by (simp add: of_nat_diff)
    have "pt_mem \<sigma>' (tbl im \<sigma> i) (unat q mod 1024) = pte_val im first q"
      using w rb by (simp add: \<sigma>'_def qd(2))
    moreover have "pres im \<sigma>' i" "tbl im \<sigma>' i = tbl im \<sigma> i" using grown_pres [OF gr i(3)] by simp_all
    ultimately show ?thesis unfolding mapped_def qd(1) i(1) [symmetric] by simp
  qed
qed

lemma missing_less:
  assumes "i \<in> missing im \<sigma> i e" "\<And>j. j \<noteq> i \<Longrightarrow> pde im \<sigma>' j = pde im \<sigma> j"
  shows "card (missing im \<sigma>' (i + 1) e) < card (missing im \<sigma> i e)"
proof -
  have "missing im \<sigma>' (i + 1) e \<subseteq> missing im \<sigma> i e - {i}" using assms(2) by (auto simp: pres_def)
  then have "card (missing im \<sigma>' (i + 1) e) \<le> card (missing im \<sigma> i e - {i})" by (intro card_mono) auto
  also have "\<dots> < card (missing im \<sigma> i e)" using assms(1) by (intro card_Diff1_less) auto
  finally show ?thesis .
qed

lemma missing_le:
  assumes "\<And>j. j \<noteq> i \<Longrightarrow> pde im \<sigma>' j = pde im \<sigma> j"
  shows "card (missing im \<sigma>' (i + 1) e) \<le> card (missing im \<sigma> i e)"
  using assms by (intro card_mono) (auto simp: pres_def)

lemma fill_up: "x = 1024 * a + r \<Longrightarrow> r < 1024 \<Longrightarrow> x + (1024 - r) = 1024 * (a + (1 :: nat))"
  by simp

lemma round_run:
  fixes p e :: ulong
  assumes "tabs_ok im \<sigma>" "\<not> after_bootmem \<sigma>" "unat e \<le> 2 ^ 18" "768 \<le> idx" "idx \<le> 1024" "unat e \<le> unat p \<or> 768 + unat p div 1024 = idx"
    "card (missing im \<sigma> idx e) \<le> unat (pgt_buf_top \<sigma>) - unat (pgt_buf_end \<sigma>)"
  shows "\<exists>\<sigma>'. map_pgds im first e idx p l \<sigma> = Some (\<sigma>', if first \<and> p < e then push_bit PAGE_SHIFT (e - 1) + PAGE_SIZE else l)
    \<and> grown im \<sigma> \<sigma>' \<and> entries_kept im (unat p) \<sigma> \<sigma>' \<and> (\<forall>q. unat p \<le> unat q \<and> unat q < unat e \<longrightarrow> mapped im first \<sigma>' q)"
  using assms
proof (induction "1024 - idx" arbitrary: idx p l \<sigma>)
  case 0
  then have i: "idx = 1024" by simp
  have "unat e \<le> unat p"
  proof (rule ccontr)
    assume "\<not> unat e \<le> unat p"
    then show False using 0 i by simp
  qed
  then show ?case using i grown_refl [OF 0(2)] by (subst map_pgds.simps) (auto simp: PTRS_PER_PGD_def entries_kept_def word_less_nat_alt)
next
  case (Suc d)
  have d: "d = 1024 - (idx + 1)" "768 \<le> idx + 1" "idx + 1 \<le> 1024" using Suc.hyps(2) Suc.prems by simp_all
  have lt: "idx < PTRS_PER_PGD" using Suc.hyps(2) by (simp add: PTRS_PER_PGD_def)
  show ?case
  proof (cases "unat e \<le> unat p")
    case True
    then have run: "map_pgds im first e idx p l \<sigma> = map_pgds im first e (idx + 1) p l \<sigma>"
      using lt by (subst map_pgds.simps) (simp add: word_le_nat_alt)
    have "card (missing im \<sigma> (idx + 1) e) \<le> unat (pgt_buf_top \<sigma>) - unat (pgt_buf_end \<sigma>)"
      using missing_le [of idx im \<sigma> \<sigma> e] Suc.prems(7) by simp
    then show ?thesis unfolding run using Suc.hyps(1) [OF d(1) Suc.prems(1-3) d(2,3), of p l] True by blast
  next
    case False
    then have pe: "unat p < unat e" and i: "idx = 768 + unat p div 1024" using Suc.prems(6) by auto
    have ik: "idx \<in> kern" using d Suc.prems(4) by simp
    have p18: "unat p < 2 ^ 18" using pe Suc.prems(3) by simp
    have im: "pres im \<sigma> idx \<or> idx \<in> missing im \<sigma> idx e" using i pe by auto
    have room: "pres im \<sigma> idx \<or> pgt_buf_end \<sigma> < pgt_buf_top \<sigma>"
    proof (rule disjCI)
      assume "\<not> pgt_buf_end \<sigma> < pgt_buf_top \<sigma>"
      then have "card (missing im \<sigma> idx e) = 0" using Suc.prems(7) by (simp add: word_less_nat_alt)
      then show "pres im \<sigma> idx" using im by auto
    qed
    obtain \<sigma>1 where t: "one_page_table_init im \<sigma> (swapper_pg_dir im, idx) = Some (\<sigma>1, (tbl im \<sigma>1 idx, 0))" "grown im \<sigma> \<sigma>1" "pres im \<sigma>1 idx"
      "\<And>j. j \<noteq> idx \<Longrightarrow> pde im \<sigma>1 j = pde im \<sigma> j" "pgt_buf_end \<sigma>1 = (if pres im \<sigma> idx then pgt_buf_end \<sigma> else pgt_buf_end \<sigma> + 1)"
      "\<And>j. j \<in> kern \<Longrightarrow> pres im \<sigma> j \<Longrightarrow> pt_mem \<sigma>1 (tbl im \<sigma> j) = pt_mem \<sigma> (tbl im \<sigma> j)"
      using one_table [OF Suc.prems(1) ik Suc.prems(2) room] by blast
    note f1 = grown_fields [OF t(2)]
    have k1: "entries_kept im (unat p) \<sigma> \<sigma>1" using t(6) unfolding entries_kept_def by simp
    define n where "n = min (1024 - unat p mod 1024) (unat e - unat p)"
    define \<sigma>2 where "\<sigma>2 = \<sigma>1\<lparr>pt_mem := (pt_mem \<sigma>1)(tbl im \<sigma>1 idx := (\<lambda>k. if unat p mod 1024 \<le> k \<and> k < unat p mod 1024 + n
        then pte_val im first (p + word_of_nat (k - unat p mod 1024)) else pt_mem \<sigma>1 (tbl im \<sigma>1 idx) k))\<rparr>"
    note tr = table_round [OF f1(8) i ik t(3) pe Suc.prems(3), where first = first, folded n_def, folded \<sigma>2_def]
    note f2 = grown_fields [OF tr(1)]
    have n: "0 < n" "unat p + n \<le> unat e" using pe by (simp_all add: n_def)
    define p2 where "p2 = p + word_of_nat n"
    have p2: "unat p2 = unat p + n" using n Suc.prems(3) by (simp add: p2_def unat_word_ariths unat_of_nat)
    define l2 where "l2 = (if first then push_bit PAGE_SHIFT (p2 - 1) + PAGE_SIZE else l)"
    have run: "map_pgds im first e idx p l \<sigma> = map_pgds im first e (idx + 1) p2 l2 \<sigma>2"
    proof -
      have "map_ptes im first e (tbl im \<sigma>1 idx) (unat p mod 1024) p (p * PAGE_SIZE + PAGE_OFFSET) l \<sigma>1 = (\<sigma>2, p2, l2)"
        using n by (simp add: map_ptes_run [OF Suc.prems(3)] n_def [symmetric] Let_def p2_def l2_def \<sigma>2_def [symmetric])
      then show ?thesis
        using lt pe t(1) index_of_pfn(2) [OF p18] by (subst map_pgds.simps) (simp add: one_md_table_init_def word_le_nat_alt)
    qed
    have nxt: "unat e \<le> unat p2 \<or> 768 + unat p2 div 1024 = idx + 1"
    proof (cases "n = 1024 - unat p mod 1024")
      case True
      then have "unat p2 = 1024 * (unat p div 1024 + 1)"
        unfolding p2 using fill_up [of "unat p" "unat p div 1024" "unat p mod 1024"] by simp
      then show ?thesis using i by simp
    next
      case False
      then show ?thesis using pe unfolding p2 by (simp add: n_def min_def split: if_splits)
    qed
    have card2: "card (missing im \<sigma>2 (idx + 1) e) \<le> unat (pgt_buf_top \<sigma>2) - unat (pgt_buf_end \<sigma>2)"
    proof (cases "pres im \<sigma> idx")
      case True
      then show ?thesis using missing_le [of idx im \<sigma>2 \<sigma> e] tr(4) t(4,5) Suc.prems(7) f1 f2 tr(5) by simp
    next
      case False
      then have e1: "unat (pgt_buf_end \<sigma> + 1) = unat (pgt_buf_end \<sigma>) + 1"
        using room unat_bound [of "pgt_buf_top \<sigma>"] by (subst unat_add_no_wrap) (simp_all add: word_less_nat_alt)
      have "card (missing im \<sigma>2 (idx + 1) e) < card (missing im \<sigma> idx e)"
        using missing_less [where i = idx and im = im and \<sigma> = \<sigma> and e = e and \<sigma>' = \<sigma>2] False im tr(4) t(4) by simp
      then show ?thesis using False Suc.prems(7) f1 f2 tr(5) t(5) e1 by simp
    qed
    obtain \<sigma>3 where r: "map_pgds im first e (idx + 1) p2 l2 \<sigma>2 = Some (\<sigma>3, if first \<and> p2 < e then push_bit PAGE_SHIFT (e - 1) + PAGE_SIZE else l2)"
      "grown im \<sigma>2 \<sigma>3" "entries_kept im (unat p2) \<sigma>2 \<sigma>3" "\<forall>q. unat p2 \<le> unat q \<and> unat q < unat e \<longrightarrow> mapped im first \<sigma>3 q"
      using Suc.hyps(1) [OF d(1) f2(8) _ Suc.prems(3) d(2,3) nxt card2, of l2] f1(1) f2(1) Suc.prems(2) by auto
    have g: "grown im \<sigma> \<sigma>3" using grown_trans [OF grown_trans [OF t(2) tr(1)] r(2)] .
    have k: "entries_kept im (unat p) \<sigma> \<sigma>3"
      using entries_kept_trans [OF grown_trans [OF t(2) tr(1)] entries_kept_trans [OF t(2) k1 tr(2)] r(3)] p2 by simp
    have m: "mapped im first \<sigma>3 q" if q: "unat p \<le> unat q" "unat q < unat e" for q
    proof (cases "unat q < unat p2")
      case True
      then show ?thesis using mapped_kept [OF r(2,3) tr(3)] q p2 Suc.prems(3) by simp
    qed (use r(4) q in simp)
    have "p2 = e" if "\<not> p2 < e" using that n p2 by (simp add: word_eq_unat word_less_nat_alt)
    then have "(if first \<and> p2 < e then push_bit PAGE_SHIFT (e - 1) + PAGE_SIZE else l2) = (if first \<and> p < e then push_bit PAGE_SHIFT (e - 1) + PAGE_SIZE else l)"
      using pe by (auto simp: l2_def word_less_nat_alt)
    then show ?thesis using run r(1) g k m by auto
  qed
qed
section \<open>Both rounds\<close>

lemma clear_low:
  fixes im :: image and \<sigma> :: paging
  assumes ok: "tabs_ok im \<sigma>"
  defines "\<sigma>' \<equiv> set_pmd \<sigma> (swapper_pg_dir im, 0) 0"
  shows "tabs_ok im \<sigma>'" "pde im \<sigma>' i = (if i = 0 then 0 else pde im \<sigma> i)" "f \<noteq> swapper_pg_dir im \<Longrightarrow> pt_mem \<sigma>' f = pt_mem \<sigma> f"
    "\<sigma>' = \<sigma>\<lparr>pt_mem := pt_mem \<sigma>'\<rparr>"
proof -
  show pd: "pde im \<sigma>' i = (if i = 0 then 0 else pde im \<sigma> i)" for i by (simp add: pde_def \<sigma>'_def set_entry_def)
  show "f \<noteq> swapper_pg_dir im \<Longrightarrow> pt_mem \<sigma>' f = pt_mem \<sigma> f" "\<sigma>' = \<sigma>\<lparr>pt_mem := pt_mem \<sigma>'\<rparr>" by (simp_all add: \<sigma>'_def set_entry_def)
  have b: "buf \<sigma>' = buf \<sigma>" "pgt_buf_top \<sigma>' = pgt_buf_top \<sigma>" by (simp_all add: \<sigma>'_def set_entry_def buf_def)
  have pr: "pres im \<sigma>' i = pres im \<sigma> i \<and> tbl im \<sigma>' i = tbl im \<sigma> i" if "i \<in> kern" for i using that by (simp add: pres_def tbl_def pd)
  show "tabs_ok im \<sigma>'" using ok pr unfolding tabs_ok_def b by auto
qed

definition remapped :: "image \<Rightarrow> paging \<Rightarrow> paging \<Rightarrow> bool" where
  "remapped im \<sigma> \<sigma>' \<longleftrightarrow> (\<exists>m e. \<sigma>' = \<sigma>\<lparr>pt_mem := m, pgt_buf_end := e\<rparr>) \<and> tabs_ok im \<sigma>' \<and> pgt_buf_end \<sigma> \<le> pgt_buf_end \<sigma>' \<and> pde im \<sigma>' 0 = 0
     \<and> (\<forall>i. i \<noteq> 0 \<and> (pres im \<sigma> i \<or> i \<notin> kern) \<longrightarrow> pde im \<sigma>' i = pde im \<sigma> i)
     \<and> (\<forall>i\<in>kern. pres im \<sigma>' i \<longrightarrow> pres im \<sigma> i \<or> tbl im \<sigma>' i \<in> buf \<sigma> - buf \<sigma>')
     \<and> (\<forall>f. f \<notin> buf \<sigma> \<and> f \<noteq> swapper_pg_dir im \<and> f \<notin> tbl im \<sigma> ` {i\<in>kern. pres im \<sigma> i} \<longrightarrow> pt_mem \<sigma>' f = pt_mem \<sigma> f)"

lemma remap_steps:
  assumes a: "grown im \<sigma> \<sigma>1" and b: "grown im (set_pmd \<sigma>1 (swapper_pg_dir im, 0) 0) \<sigma>3"
  shows "remapped im \<sigma> \<sigma>3"
proof -
  define \<sigma>2 where "\<sigma>2 = set_pmd \<sigma>1 (swapper_pg_dir im, 0) 0"
  note cl = clear_low [OF grown_fields(8) [OF a], folded \<sigma>2_def]
  have b2: "buf \<sigma>2 = buf \<sigma>1" "pgt_buf_end \<sigma>2 = pgt_buf_end \<sigma>1" by (simp_all add: \<sigma>2_def set_entry_def buf_def)
  have pr: "pres im \<sigma>2 i = pres im \<sigma>1 i \<and> tbl im \<sigma>2 i = tbl im \<sigma>1 i" if "i \<in> kern" for i using that by (simp add: pres_def tbl_def cl(2))
  have b': "grown im \<sigma>2 \<sigma>3" using b by (simp add: \<sigma>2_def)
  obtain m1 e1 where "\<sigma>1 = \<sigma>\<lparr>pt_mem := m1, pgt_buf_end := e1\<rparr>" using a unfolding grown_def by blast
  moreover obtain m3 e3 where "\<sigma>3 = \<sigma>2\<lparr>pt_mem := m3, pgt_buf_end := e3\<rparr>" using b' unfolding grown_def by blast
  moreover obtain m2 where "\<sigma>2 = \<sigma>1\<lparr>pt_mem := m2\<rparr>" using cl(4) by blast
  ultimately have "\<sigma>3 = \<sigma>\<lparr>pt_mem := m3, pgt_buf_end := e3\<rparr>" by simp
  then have ex: "\<exists>m e. \<sigma>3 = \<sigma>\<lparr>pt_mem := m, pgt_buf_end := e\<rparr>" by blast
  have fr: "pt_mem \<sigma>3 f = pt_mem \<sigma> f" if f: "f \<notin> buf \<sigma>" "f \<noteq> swapper_pg_dir im" "f \<notin> tbl im \<sigma> ` {i\<in>kern. pres im \<sigma> i}" for f
  proof -
    have "f \<notin> tbl im \<sigma>2 ` {i\<in>kern. pres im \<sigma>2 i}"
    proof
      assume "f \<in> tbl im \<sigma>2 ` {i\<in>kern. pres im \<sigma>2 i}"
      then obtain i where i: "i \<in> kern" "pres im \<sigma>2 i" "f = tbl im \<sigma>2 i" by blast
      then have j: "pres im \<sigma>1 i" "f = tbl im \<sigma>1 i" using pr by simp_all
      then have "pres im \<sigma> i \<or> f \<in> buf \<sigma>" using a i(1) unfolding grown_def by blast
      then show False using f i j grown_pres [OF a, of i] by (metis (no_types, lifting) imageI mem_Collect_eq)
    qed
    moreover have "f \<notin> buf \<sigma>2" using a f(1) b2 unfolding grown_def by blast
    ultimately have "pt_mem \<sigma>3 f = pt_mem \<sigma>2 f" using b' f(2) unfolding grown_def by blast
    moreover have "pt_mem \<sigma>1 f = pt_mem \<sigma> f" using a f unfolding grown_def by blast
    ultimately show ?thesis using cl(3) [OF f(2)] by simp
  qed
  have nt: "pres im \<sigma> i \<or> tbl im \<sigma>3 i \<in> buf \<sigma> - buf \<sigma>3" if i: "i \<in> kern" "pres im \<sigma>3 i" for i
  proof (cases "pres im \<sigma>1 i")
    case True
    then have "tbl im \<sigma>3 i = tbl im \<sigma>1 i" using grown_pres [OF b', of i] pr [OF i(1)] by simp
    moreover have "buf \<sigma>3 \<subseteq> buf \<sigma>1" using b' b2 unfolding grown_def by blast
    ultimately show ?thesis using True i a unfolding grown_def by (metis DiffD1 DiffD2 DiffI subsetD)
  next
    case False
    then have "tbl im \<sigma>3 i \<in> buf \<sigma>2 - buf \<sigma>3" using b' i pr unfolding grown_def by metis
    moreover have "buf \<sigma>2 \<subseteq> buf \<sigma>" using a b2 unfolding grown_def by blast
    ultimately show ?thesis by blast
  qed
  have pd: "pde im \<sigma>3 i = pde im \<sigma> i" if "i \<noteq> 0" "pres im \<sigma> i \<or> i \<notin> kern" for i
  proof -
    have "pde im \<sigma>1 i = pde im \<sigma> i" using a that unfolding grown_def by blast
    then have "pde im \<sigma>2 i = pde im \<sigma> i" "pres im \<sigma>2 i \<or> i \<notin> kern" using that by (auto simp: cl(2) pres_def)
    then show ?thesis using b' unfolding grown_def by metis
  qed
  have "pde im \<sigma>3 0 = pde im \<sigma>2 0" using b' unfolding grown_def by (metis atLeastLessThan_iff not_numeral_le_zero)
  then have z: "pde im \<sigma>3 0 = 0" by (simp add: cl(2))
  have "pgt_buf_end \<sigma> \<le> pgt_buf_end \<sigma>1" "pgt_buf_end \<sigma>2 \<le> pgt_buf_end \<sigma>3" using a b' unfolding grown_def by blast+
  then have le: "pgt_buf_end \<sigma> \<le> pgt_buf_end \<sigma>3" using b2(2) by simp
  show ?thesis unfolding remapped_def using ex grown_fields(8) [OF b'] le z pd nt fr by blast
qed

lemma kernel_mapping_run:
  assumes ok: "tabs_ok im \<sigma>" and ab: "\<not> after_bootmem \<sigma>" and n: "0 < unat n" "unat n \<le> 2 ^ 18"
    and room: "card (missing im \<sigma> 768 n) \<le> unat (pgt_buf_top \<sigma>) - unat (pgt_buf_end \<sigma>)"
  shows "\<exists>\<sigma>'. kernel_physical_mapping_init im \<sigma> 0 (push_bit 12 n) = Some (\<sigma>', push_bit 12 n) \<and> remapped im \<sigma> \<sigma>'
    \<and> (\<forall>q. unat q < unat n \<longrightarrow> mapped im False \<sigma>' q)"
proof -
  have dn: "drop_bit 12 (push_bit 12 n) = n" using n(2) by (intro push_drop_frame) simp
  have idx: "pgd_index (push_bit PAGE_SHIFT 0 + PAGE_OFFSET) = 768" using index_of_pfn(1) [of 0] by simp
  obtain \<sigma>1 where r1: "map_pgds im True n 768 0 (push_bit 12 n) \<sigma> = Some (\<sigma>1, push_bit PAGE_SHIFT (n - 1) + PAGE_SIZE)" "grown im \<sigma> \<sigma>1"
    "\<And>q. unat q < unat n \<Longrightarrow> mapped im True \<sigma>1 q"
    using round_run [OF ok ab n(2), of 768 0 True "push_bit 12 n"] room n(1) by (auto simp: word_less_nat_alt)
  have le: "push_bit PAGE_SHIFT (n - 1) + PAGE_SIZE = push_bit 12 n"
    by (simp add: push_bit_eq_mult PAGE_SHIFT_def PAGE_SIZE_def algebra_simps)
  define \<sigma>2 where "\<sigma>2 = set_pmd \<sigma>1 (swapper_pg_dir im, 0) 0"
  note cl = clear_low [OF grown_fields(8) [OF r1(2)], folded \<sigma>2_def]
  have "missing im \<sigma>2 768 n = {}"
  proof -
    have "pres im \<sigma>2 i" if i: "i \<in> {768..<768 + (unat n + 1023) div 1024}" for i
    proof -
      have lt: "1024 * (i - 768) < unat n" using i by auto
      have u: "unat (word_of_nat (1024 * (i - 768)) :: ulong) = 1024 * (i - 768)" using lt n(2) by (subst unat_of_nat) simp
      have "mapped im True \<sigma>1 (word_of_nat (1024 * (i - 768)))" using r1(3) lt u by simp
      then have "pres im \<sigma>1 i" unfolding mapped_def u using i by simp
      then show ?thesis using i by (simp add: pres_def cl(2))
    qed
    then show ?thesis by blast
  qed
  then have c: "card (missing im \<sigma>2 768 n) \<le> unat (pgt_buf_top \<sigma>2) - unat (pgt_buf_end \<sigma>2)" by (simp only: card.empty)
  have ab2: "\<not> after_bootmem \<sigma>2" using grown_fields(1) [OF r1(2)] ab by (simp add: \<sigma>2_def set_entry_def)
  obtain \<sigma>3 where r3: "map_pgds im False n 768 0 (push_bit 12 n) \<sigma>2 = Some (\<sigma>3, push_bit 12 n)" "grown im \<sigma>2 \<sigma>3"
    "\<And>q. unat q < unat n \<Longrightarrow> mapped im False \<sigma>3 q"
    using round_run [OF cl(1) ab2 n(2) _ _ _ c, of 0 False "push_bit 12 n"] by auto
  have "kernel_physical_mapping_init im \<sigma> 0 (push_bit 12 n) = Some (\<sigma>3, push_bit 12 n)"
    using r1(1) r3(1) idx dn le by (simp add: kernel_physical_mapping_init_def \<sigma>2_def [symmetric] PAGE_SHIFT_def)
  then show ?thesis using remap_steps [OF r1(2)] r3 unfolding \<sigma>2_def by blast
qed
section \<open>The ranges and the buffer\<close>

lemma unat_push_n: "unat p \<le> 2 ^ 18 \<Longrightarrow> unat (push_bit 12 p :: ulong) = 4096 * unat p"
  by (rule unat_push_pfn) simp

text \<open>The ranges are adjacent and have the same mask: they are joined into one.\<close>

lemma pmd_steps:
  fixes n :: ulong
  assumes "unat n \<le> 2 ^ 18"
  shows "unat (push_bit 10 (drop_bit 22 (push_bit 12 n :: ulong))) = 1024 * (unat n div 1024)"
    "unat (push_bit 10 (drop_bit 22 (push_bit 12 n + 0x3FFFFF :: ulong))) = 1024 * ((unat n + 1023) div 1024)"
proof -
  have u: "unat (push_bit 12 n :: ulong) = 4096 * unat n" by (rule unat_push_n [OF assms])
  have v: "unat (push_bit 12 n + 0x3FFFFF :: ulong) = 4096 * unat n + 0x3FFFFF" using assms by (subst unat_add_no_wrap) (simp_all add: u)
  have q: "unat (push_bit 10 x :: ulong) = 1024 * unat x" if "unat x < 2 ^ 22" for x using that by (simp add: push_bit_eq_mult unat_word_ariths)
  have d: "unat (drop_bit 22 x :: ulong) < 2 ^ 22" for x :: ulong unfolding unat_drop_div using unat_bound [of x] by simp
  have e: "(4096 * unat n) div 4194304 = unat n div 1024" "(4096 * unat n + 4194303) div 4194304 = (unat n + 1023) div 1024" by linarith+
  show "unat (push_bit 10 (drop_bit 22 (push_bit 12 n :: ulong))) = 1024 * (unat n div 1024)"
    "unat (push_bit 10 (drop_bit 22 (push_bit 12 n + 0x3FFFFF :: ulong))) = 1024 * ((unat n + 1023) div 1024)"
    unfolding q [OF d] unat_drop_div u v using e by simp_all
qed

lemma merge_one: "merge_mr mr (Suc 0) 0 = (mr, 1)"
  by (subst merge_mr.simps) simp

lemma merge_two:
  assumes "mr_end a = mr_start b" "page_size_mask a = page_size_mask b"
  shows "merge_mr [a, b, c] 2 0 = ([b\<lparr>mr_start := mr_start a\<rparr>, b, c], 1)"
  using assms by (subst merge_mr.simps) (simp add: merge_one numeral_2_eq_2)

lemma merge_three:
  assumes "mr_end a = mr_start b" "page_size_mask a = page_size_mask b" "mr_end b = mr_start c" "page_size_mask b = page_size_mask c"
  shows "merge_mr [a, b, c] 3 0 = ([c\<lparr>mr_start := mr_start a\<rparr>, c, c], 1)"
  using assms merge_two [of "b\<lparr>mr_start := mr_start a\<rparr>" c c]
  by (subst merge_mr.simps) (simp add: numeral_3_eq_3 numeral_2_eq_2)

lemma ranges_run:
  fixes n :: ulong
  assumes n: "0 < unat n" "unat n \<le> 2 ^ 18"
  shows "\<exists>b c. mapping_ranges 0 (push_bit 12 n) = Some ([\<lparr>mr_start = 0, mr_end = push_bit 12 n, page_size_mask = 0\<rparr>, b, c], 1)"
proof -
  let ?z = "\<lparr>mr_start = 0, mr_end = 0, page_size_mask = 0\<rparr> :: map_range"
  let ?r = "\<lambda>a b. \<lparr>mr_start = push_bit 12 a, mr_end = push_bit 12 b, page_size_mask = 0\<rparr> :: map_range"
  define a where "a = (if 1024 > n then n else 1024)"
  define b where "b = (push_bit 10 (drop_bit 22 (push_bit 12 n)) :: ulong)"
  have dn: "drop_bit 12 (push_bit 12 n) = n" using n(2) by (intro push_drop_frame) simp
  have ua: "unat a = min (unat n) 1024" by (simp add: a_def word_less_nat_alt)
  have da: "drop_bit 12 (push_bit 12 a) = a" using ua by (intro push_drop_frame) simp
  have a0: "0 < a" using ua n(1) by (simp add: word_less_nat_alt)
  have ub: "unat b = 1024 * (unat n div 1024)" using pmd_steps(1) [OF n(2)] by (simp add: b_def)
  have bn: "unat b \<le> unat n" unfolding ub by simp
  have db: "drop_bit 12 (push_bit 12 b) = b" using bn n(2) by (intro push_drop_frame) simp
  have s2: "push_bit 10 (drop_bit 22 (push_bit 12 a + 0x3FFFFF)) = (1024 :: ulong)"
  proof -
    have "unat (push_bit 10 (drop_bit 22 (push_bit 12 a + 0x3FFFFF :: ulong))) = 1024 * ((unat a + 1023) div 1024)" using ua by (intro pmd_steps(2)) simp
    moreover have "(unat a + 1023) div 1024 = 1" using ua n(1) by (simp add: div_nat_eqI)
    ultimately show ?thesis by (simp add: word_eq_unat)
  qed
  have s22: "push_bit 22 (drop_bit 22 (push_bit 12 a + 0x3FFFFF)) = (0x400000 :: ulong)"
    using arg_cong [OF s2, of "push_bit 12"] by (simp add: push_bit_push_bit)
  have M: "mapping_ranges 0 (push_bit 12 n) =
     do {
       (mr, nr_range, pos) \<leftarrow> (if 1024 < b then Some ([?r 0 a, ?r 1024 b, ?z], 2, push_bit 12 b) else Some ([?r 0 a, ?z, ?z], 1, push_bit 12 a));
       (mr, nr_range) \<leftarrow> save_mr mr nr_range (drop_bit 12 pos) n 0;
       Some (merge_mr mr nr_range 0)
     }"
    using a0 unfolding mapping_ranges_def
    by (simp add: PAGE_SHIFT_def PMD_SHIFT_def PMD_SIZE_def NR_RANGE_MR_def save_mr_def dn a_def [symmetric] b_def [symmetric] s2 s22 Let_def numeral_3_eq_3 numeral_2_eq_2 split del: if_split cong: if_cong)
  show ?thesis
  proof (cases "1024 < b")
    case False
    then have u: "unat b \<le> 1024" by (simp add: word_less_nat_alt)
    show ?thesis
    proof (cases "a < n")
      case True
      then have "a = 1024" using ua n by (simp add: a_def word_less_nat_alt split: if_splits)
      then show ?thesis using False True da unfolding M by (simp add: save_mr_def NR_RANGE_MR_def PAGE_SHIFT_def numeral_2_eq_2 [symmetric] merge_two)
    next
      case na: False
      then have "a = n" using ua by (simp add: word_eq_unat word_less_nat_alt)
      then show ?thesis using False dn unfolding M by (simp add: save_mr_def merge_one)
    qed
  next
    case True
    then have a: "a = 1024" using bn by (simp add: a_def word_less_nat_alt)
    show ?thesis
    proof (cases "b < n")
      case lt: True
      have "[?r 0 1024, ?r 1024 b, ?z][2 := ?r b n] = [?r 0 1024, ?r 1024 b, ?r b n]" by (simp add: numeral_2_eq_2)
      then show ?thesis using True lt db unfolding M a by (simp add: save_mr_def NR_RANGE_MR_def PAGE_SHIFT_def merge_three)
    next
      case nlt: False
      then have "b = n" using bn by (simp add: word_less_nat_alt word_eq_unat)
      then show ?thesis using True dn unfolding M a by (simp add: save_mr_def merge_two)
    qed
  qed
qed

lemma roundup_page: "unat x + 4095 < 2 ^ 32 \<Longrightarrow> unat (roundup x (PAGE_SIZE :: ulong)) = 4096 * ((unat x + 4095) div 4096)"
proof -
  assume a: "unat x + 4095 < 2 ^ 32"
  have s: "unat (x + 4095 :: ulong) = unat x + 4095" using a by (subst unat_add_no_wrap) simp_all
  have "unat ((x + 4095) div 4096 :: ulong) = (unat x + 4095) div 4096" by (simp add: unat_div_distrib s del: unat_plus_if')
  moreover have "4096 * ((unat x + 4095) div 4096) < 2 ^ 32" using a by auto
  ultimately show ?thesis by (simp add: roundup_def PAGE_SIZE_def PAGE_SHIFT_def unat_word_ariths del: unat_plus_if')
qed

definition tables_for :: "nat \<Rightarrow> nat" where "tables_for n = 3 + (n + 1023) div 1024"

lemma table_space:
  fixes n :: ulong
  assumes n: "0 < unat n" "unat n \<le> 2 ^ 18"
  shows "\<exists>t. unat t = 4096 * tables_for (unat n) \<and> find_early_table_space \<sigma> (push_bit 12 n) False False =
    (let base = memblock_find_in_range (pt_mb \<sigma>) 0 (ucast (push_bit 12 (max_pfn_mapped \<sigma>))) (ucast (t :: ulong)) 4096
     in if base = MEMBLOCK_ERROR then None
        else let pfn = ucast (drop_bit PAGE_SHIFT base)
             in Some (\<sigma>\<lparr>pgt_buf_start := pfn, pgt_buf_end := pfn, pgt_buf_top := pfn + drop_bit 12 t\<rparr>))"
proof -
  let ?e = "push_bit 12 n :: ulong"
  let ?k = "(unat n + 1023) div 1024"
  have k: "1 \<le> ?k" "?k \<le> 256" using n by auto
  have ue: "unat ?e = 4096 * unat n" by (rule unat_push_n [OF n(2)])
  define pm where "pm = drop_bit 22 (?e + 0x3FFFFF)"
  have "unat (?e + 0x3FFFFF) = 4096 * unat n + 0x3FFFFF" using n(2) by (subst unat_add_no_wrap) (simp_all add: ue)
  then have pm: "unat pm = ?k" unfolding pm_def unat_drop_div by simp
  have pm4: "unat (pm * 4) = 4 * ?k" using k by (simp add: unat_word_ariths pm)
  have r1: "unat (roundup (pm * 4) PAGE_SIZE) = 4096"
  proof -
    have "(4 * ?k + 4095) div 4096 = 1" using k by (simp add: div_nat_eqI)
    then show ?thesis using k by (subst roundup_page) (simp_all add: pm4)
  qed
  define pt where "pt = drop_bit 12 (?e + 0xFFF)"
  have "unat (?e + 0xFFF) = 4096 * unat n + 0xFFF" using n(2) by (subst unat_add_no_wrap) (simp_all add: ue)
  then have pt: "unat pt = unat n" unfolding pt_def unat_drop_div by simp
  have "unat (pt * 4) = 4 * unat n" using n(2) by (simp add: unat_word_ariths pt)
  moreover have "(4 * unat n + 4095) div 4096 = ?k" by linarith
  ultimately have r2: "unat (roundup (pt * 4) PAGE_SIZE) = 4096 * ?k" using n(2) by (subst roundup_page) simp_all
  have r3: "unat (roundup (end_of_fixed_addresses * 4) PAGE_SIZE) = 4096" by (subst roundup_page) (simp_all add: end_of_fixed_addresses_def)
  define t where "t = roundup (pm * 4) PAGE_SIZE + roundup (pm * 4) PAGE_SIZE + roundup (pt * 4) PAGE_SIZE + roundup (end_of_fixed_addresses * 4) (PAGE_SIZE :: ulong)"
  have "unat t = 4096 * tables_for (unat n)"
    using k unfolding t_def tables_for_def by (simp add: unat_word_ariths r1 r2 r3 del: unat_plus_if')
  moreover have "find_early_table_space \<sigma> ?e False False =
    (let base = memblock_find_in_range (pt_mb \<sigma>) 0 (ucast (push_bit 12 (max_pfn_mapped \<sigma>))) (ucast t) 4096
     in if base = MEMBLOCK_ERROR then None
        else let pfn = ucast (drop_bit PAGE_SHIFT base)
             in Some (\<sigma>\<lparr>pgt_buf_start := pfn, pgt_buf_end := pfn, pgt_buf_top := pfn + drop_bit 12 t\<rparr>))"
  proof -
    have eqs: "drop_bit PUD_SHIFT (?e + PUD_SIZE - 1) = pm" "drop_bit PMD_SHIFT (?e + PMD_SIZE - 1) = pm" "drop_bit PAGE_SHIFT (?e + PAGE_SIZE - 1) = pt"
      by (simp_all add: pm_def pt_def PUD_SHIFT_def PUD_SIZE_def PMD_SHIFT_def PMD_SIZE_def PAGE_SHIFT_def PAGE_SIZE_def add.commute)
    have pg: "(PAGE_SIZE :: u64) = 4096" by (simp add: PAGE_SIZE_def PAGE_SHIFT_def)
    show ?thesis unfolding find_early_table_space_def Let_def if_False eqs t_def [symmetric] pg by (simp only: PAGE_SHIFT_def)
  qed
  ultimately show ?thesis by blast
qed

section \<open>The direct mapping\<close>

text \<open>What the mapping code finds: the directory and the tables of the kernel half are distinct frames in reserved
  memory, and the processor maps at least one page.\<close>

abbreviation frame_bytes :: "nat \<Rightarrow> nat set" where "frame_bytes f \<equiv> {4096 * f..<4096 * f + 4096}"

definition boot_tables :: "image \<Rightarrow> paging \<Rightarrow> bool" where
  "boot_tables im \<sigma> \<longleftrightarrow> \<not> after_bootmem \<sigma> \<and> mb_inv (reserved (pt_mb \<sigma>)) \<and> mb_inv (memory (pt_mb \<sigma>))
     \<and> 0 < unat (max_pfn_mapped \<sigma>) \<and> unat (max_pfn_mapped \<sigma>) < 2 ^ 20
     \<and> frame_bytes (swapper_pg_dir im) \<subseteq> mb_addrs (reserved (pt_mb \<sigma>))
     \<and> (\<forall>i\<in>kern. pres im \<sigma> i \<longrightarrow> tbl im \<sigma> i \<noteq> swapper_pg_dir im \<and> frame_bytes (tbl im \<sigma> i) \<subseteq> mb_addrs (reserved (pt_mb \<sigma>)))
     \<and> (\<forall>i\<in>kern. \<forall>j\<in>kern. i \<noteq> j \<longrightarrow> pres im \<sigma> i \<longrightarrow> pres im \<sigma> j \<longrightarrow> tbl im \<sigma> i \<noteq> tbl im \<sigma> j)"

lemma spot_frames:
  assumes sp: "free_spot mb st en (4096 * k) 4096 (4096 * b)" and f: "frame_bytes f \<subseteq> mb_addrs (reserved mb)"
  shows "f \<notin> {b..<b + k}"
proof
  assume a: "f \<in> {b..<b + k}"
  have "4096 * f \<in> mb_addrs (reserved mb)" using f by auto
  then obtain x where x: "x \<in> set (view (reserved mb))" "fst x \<le> 4096 * f" "4096 * f < snd x" by (auto simp: mb_addrs_def spans_set_def)
  then have "4096 * b + 4096 * k \<le> fst x \<or> snd x \<le> 4096 * b" using sp by (auto simp: free_spot_def clear_spot_def)
  then show False using a x by auto
qed

lemma pte_val_final: "pte_val im False p = pfn_pte p PAGE_KERNEL"
  by (simp add: pte_val_def PAGE_KERNEL_def PAGE_NX_def)

lemma kernel_pte:
  assumes "unat p < 2 ^ 20"
  shows "drop_bit 12 (pfn_pte p PAGE_KERNEL) = p" "pfn_pte p PAGE_KERNEL AND NOT PTE_PFN_MASK = PAGE_KERNEL" "pfn_pte p PAGE_KERNEL AND PAGE_PRESENT \<noteq> 0"
proof -
  have k: "PAGE_KERNEL = 0x163" by (simp add: PAGE_KERNEL_def PAGE_KERNEL_EXEC_def PAGE_NX_def PAGE_PRESENT_def PAGE_RW_def PAGE_DIRTY_def PAGE_ACCESSED_def PAGE_GLOBAL_def)
  show "drop_bit 12 (pfn_pte p PAGE_KERNEL) = p" using push_drop_frame [OF assms] by (simp add: pfn_pte_def PAGE_SHIFT_def k)
  have z: "push_bit 12 p AND 0xFFF = (0 :: ulong)"
  proof (rule bit_word_eqI)
    fix i :: nat
    have "(0xFFF :: ulong) = mask 12" by (simp add: mask_eq_exp_minus_1)
    then show "bit (push_bit 12 p AND 0xFFF) i = bit (0 :: ulong) i" by (simp only: bit_and_iff bit_push_bit_iff bit_mask_iff) auto
  qed
  have nm: "NOT PTE_PFN_MASK = 0xFFF" by (simp add: PTE_PFN_MASK_def)
  show "pfn_pte p PAGE_KERNEL AND NOT PTE_PFN_MASK = PAGE_KERNEL"
    unfolding nm by (simp add: pfn_pte_def PAGE_SHIFT_def k bit.conj_disj_distrib2 z)
  have "bit (pfn_pte p PAGE_KERNEL AND PAGE_PRESENT) 0" by (simp add: pfn_pte_def k bit_and_iff bit_or_iff PAGE_PRESENT_def)
  then show "pfn_pte p PAGE_KERNEL AND PAGE_PRESENT \<noteq> 0" by (metis bit_0_eq bot_apply bot_bool_def)
qed

lemma mapped_translate:
  assumes "mapped im False \<sigma> p" "unat p < 2 ^ 18"
  shows "translate im \<sigma> (push_bit PAGE_SHIFT p + PAGE_OFFSET) = Some (p, PAGE_KERNEL)"
  using assms kernel_pte [of p] index_of_pfn [of p]
  by (simp add: translate_def get_entry_def mapped_def pres_def pde_def tbl_def pte_val_final Let_def) (simp add: PAGE_SHIFT_def)

lemma maxmem: "MAXMEM_PFN = 0x37BFD"
  by (simp add: MAXMEM_PFN_def MAXMEM_def PFN_DOWN_def VMALLOC_END_def FIXADDR_START_def FIXADDR_TOP_def FIXADDR_SIZE_def
      end_of_permanent_fixed_addresses_def VMALLOC_RESERVE_def PAGE_SHIFT_def PAGE_SIZE_def PAGE_OFFSET_def)

lemma mapping_run:
  fixes n :: ulong
  assumes bt: "boot_tables im \<sigma>" and n: "0 < unat n" "unat n \<le> 2 ^ 18"
  defines "en \<equiv> 4096 * unat (max_pfn_mapped \<sigma>)" and "sz \<equiv> 4096 * tables_for (unat n)"
  obtains "init_memory_mapping im \<sigma> 0 (push_bit PAGE_SHIFT n) = None" "\<And>a. free_spot (pt_mb \<sigma>) 0 en sz 4096 a \<Longrightarrow> a < 4096"
  | b \<sigma>1 \<sigma>2 where "free_spot (pt_mb \<sigma>) 0 en sz 4096 (4096 * unat b)"
      "\<sigma>1 = \<sigma>\<lparr>pgt_buf_start := b, pgt_buf_end := b, pgt_buf_top := b + word_of_nat (tables_for (unat n))\<rparr>"
      "tabs_ok im \<sigma>1" "buf \<sigma>1 = {unat b..<unat b + tables_for (unat n)}" "remapped im \<sigma>1 \<sigma>2" "\<And>q. unat q < unat n \<Longrightarrow> mapped im False \<sigma>2 q"
      "init_memory_mapping im \<sigma> 0 (push_bit PAGE_SHIFT n) =
         Some (if pgt_buf_end \<sigma>2 > b then native_pagetable_reserve \<sigma>2 (PFN_PHYS b) (PFN_PHYS (pgt_buf_end \<sigma>2)) else \<sigma>2, n)"
proof -
  obtain r s where mr: "mapping_ranges 0 (push_bit 12 n) = Some ([\<lparr>mr_start = 0, mr_end = push_bit 12 n, page_size_mask = 0\<rparr>, r, s], 1)"
    using ranges_run [OF n] by blast
  obtain t where t: "unat t = sz" and fe: "find_early_table_space \<sigma> (push_bit 12 n) False False =
    (let base = memblock_find_in_range (pt_mb \<sigma>) 0 (ucast (push_bit 12 (max_pfn_mapped \<sigma>))) (ucast (t :: ulong)) 4096
     in if base = MEMBLOCK_ERROR then None
        else let pfn = ucast (drop_bit PAGE_SHIFT base)
             in Some (\<sigma>\<lparr>pgt_buf_start := pfn, pgt_buf_end := pfn, pgt_buf_top := pfn + drop_bit 12 t\<rparr>))"
    using table_space [OF n, of \<sigma>] unfolding sz_def by blast
  have ab: "\<not> after_bootmem \<sigma>" using bt by (simp add: boot_tables_def)
  have dn: "drop_bit 12 (push_bit 12 n) = n" using n(2) by (intro push_drop_frame) simp
  let ?en = "ucast (push_bit 12 (max_pfn_mapped \<sigma>)) :: u64" and ?t = "ucast t :: u64"
  have ue: "unat ?en = en" using bt unat_push_pfn [of "max_pfn_mapped \<sigma>"] by (simp add: en_def boot_tables_def unsigned_ucast_eq take_bit_nat_eq_self)
  have tf: "3 < tables_for (unat n)" "tables_for (unat n) \<le> 259" using n by (auto simp: tables_for_def)
  have ut: "unat ?t = sz" using tf t by (simp add: unsigned_ucast_eq take_bit_nat_eq_self sz_def)
  have en0: "0 < en" "en < 2 ^ 32" using bt by (simp_all add: en_def boot_tables_def)
  define base where "base = memblock_find_in_range (pt_mb \<sigma>) 0 ?en ?t 4096"
  have inv: "mb_inv (reserved (pt_mb \<sigma>))" "mb_inv (memory (pt_mb \<sigma>))" using bt by (simp_all add: boot_tables_def)
  have "0 < ?t" "?en \<noteq> 0" using ut ue en0 tf by (auto simp: word_less_nat_alt sz_def)
  note pos = this
  have b12: "base = memblock_find_in_range (pt_mb \<sigma>) 0 ?en ?t (2 ^ 12)" by (simp add: base_def)
  note spec = memblock_find_in_range_spec [OF inv pos, of 0 12, folded b12, unfolded ut ue]
  show thesis
  proof (cases "base = 0")
    case True
    then have "init_memory_mapping im \<sigma> 0 (push_bit PAGE_SHIFT n) = None"
      using mr fe ab by (simp add: init_memory_mapping_def base_def [symmetric] MEMBLOCK_ERROR_def PAGE_SHIFT_def)
    moreover have "a < 4096" if "free_spot (pt_mb \<sigma>) 0 en sz 4096 a" for a using spec(2) [of a] that True by (cases "a < 4096") simp_all
    ultimately show thesis by (rule that(1))
  next
    case False
    then have sp: "free_spot (pt_mb \<sigma>) 0 en sz 4096 (unat base)" using spec(1) by simp
    then have bb: "unat base + sz \<le> en" "4096 dvd unat base" by (simp_all add: free_spot_def)
    define b where "b = (ucast (drop_bit 12 base) :: ulong)"
    have ub: "unat base = 4096 * unat b"
    proof -
      have d: "unat (drop_bit 12 base) = unat base div 4096"
        unfolding unat_drop_div by simp
      have "unat base < 2 ^ 32" using bb en0 by simp
      then have "unat b = unat base div 4096" by (simp add: b_def unsigned_ucast_eq d take_bit_nat_eq_self)
      then show ?thesis using bb(2) by simp
    qed
    have dt: "drop_bit 12 t = word_of_nat (tables_for (unat n))"
    proof -
      have "unat (drop_bit 12 t) = tables_for (unat n)" unfolding unat_drop_div t sz_def by simp
      then show ?thesis by (metis of_nat_unat ucast_id)
    qed
    define \<sigma>1 where "\<sigma>1 = \<sigma>\<lparr>pgt_buf_start := b, pgt_buf_end := b, pgt_buf_top := b + word_of_nat (tables_for (unat n))\<rparr>"
    have bk: "unat b + tables_for (unat n) < 2 ^ 20" using bb(1) en0 unfolding ub sz_def by simp
    have utop: "unat (b + word_of_nat (tables_for (unat n))) = unat b + tables_for (unat n)" using bk tf by (simp add: unat_word_ariths unat_of_nat)
    have bf: "buf \<sigma>1 = {unat b..<unat b + tables_for (unat n)}" using utop by (simp add: buf_def \<sigma>1_def)
    have pr: "pres im \<sigma>1 i = pres im \<sigma> i" "tbl im \<sigma>1 i = tbl im \<sigma> i" for i by (simp_all add: pres_def tbl_def pde_def \<sigma>1_def)
    note fr = spot_frames [OF sp [unfolded ub sz_def]]
    have top: "unat (pgt_buf_top \<sigma>1) \<le> 2 ^ 20" using bk utop by (simp add: \<sigma>1_def)
    have ok: "tabs_ok im \<sigma>1" using bt fr top unfolding tabs_ok_def boot_tables_def pr bf by blast
    have "card (missing im \<sigma>1 768 n) \<le> card {768..<768 + (unat n + 1023) div 1024}" by (intro card_mono) auto
    then have room: "card (missing im \<sigma>1 768 n) \<le> unat (pgt_buf_top \<sigma>1) - unat (pgt_buf_end \<sigma>1)"
      using utop by (simp add: \<sigma>1_def tables_for_def)
    have ab1: "\<not> after_bootmem \<sigma>1" using ab by (simp add: \<sigma>1_def)
    obtain \<sigma>2 where k: "kernel_physical_mapping_init im \<sigma>1 0 (push_bit 12 n) = Some (\<sigma>2, push_bit 12 n)" "remapped im \<sigma>1 \<sigma>2"
      "\<And>q. unat q < unat n \<Longrightarrow> mapped im False \<sigma>2 q"
      using kernel_mapping_run [OF ok ab1 n room] by blast
    have f2: "after_bootmem \<sigma>2 = after_bootmem \<sigma>" "pgt_buf_start \<sigma>2 = b" using k(2) by (auto simp: remapped_def \<sigma>1_def)
    have fs: "find_early_table_space \<sigma> (push_bit 12 n) False False = Some \<sigma>1"
      using fe False by (simp add: base_def [symmetric] MEMBLOCK_ERROR_def Let_def \<sigma>1_def b_def PAGE_SHIFT_def dt)
    have "init_memory_mapping im \<sigma> 0 (push_bit PAGE_SHIFT n) =
        Some (if pgt_buf_end \<sigma>2 > b then native_pagetable_reserve \<sigma>2 (PFN_PHYS b) (PFN_PHYS (pgt_buf_end \<sigma>2)) else \<sigma>2, n)"
      using mr fs ab k(1) f2 dn by (simp add: init_memory_mapping_def PAGE_SHIFT_def)
    then show thesis using that(2) sp [unfolded ub] \<sigma>1_def ok bf k(2,3) by blast
  qed
qed

lemma walk_cong: "pt_mem \<sigma>' = pt_mem \<sigma> \<Longrightarrow> translate im \<sigma>' = translate im \<sigma> \<and> pde im \<sigma>' = pde im \<sigma> \<and> pres im \<sigma>' = pres im \<sigma> \<and> tbl im \<sigma>' = tbl im \<sigma>"
  by (simp add: fun_eq_iff translate_def get_entry_def pde_def pres_def tbl_def)

lemma low_unmapped: "pde im \<sigma> 0 = 0 \<Longrightarrow> a < PMD_SIZE \<Longrightarrow> translate im \<sigma> a = None"
proof -
  assume z: "pde im \<sigma> 0 = 0" and a: "a < PMD_SIZE"
  have "unat (drop_bit 22 a) = 0" unfolding unat_drop_div using a by (simp add: word_less_nat_alt PMD_SIZE_def PMD_SHIFT_def)
  then have "pgd_index a = 0" by (simp add: pgd_index_def PGDIR_SHIFT_def unat_eq_0)
  then show ?thesis using z by (simp add: translate_def get_entry_def pde_def)
qed

text \<open>The direct mapping that \<^verbatim>\<open>start_kernel\<close> asks for ends with low memory, which fits into the kernel half.\<close>

lemma find_low_pfn_range_bound: "max_low_pfn (find_low_pfn_range \<sigma>) = min (max_pfn \<sigma>) MAXMEM_PFN"
  by (auto simp: find_low_pfn_range_def lowmem_pfn_init_def highmem_pfn_init_def Let_def min_def)

lemma init_memory_mapping_spec:
  assumes "boot_tables im \<sigma>" "0 < n" "n \<le> MAXMEM_PFN"
  shows "case init_memory_mapping im \<sigma> 0 (push_bit PAGE_SHIFT n) of
      None \<Rightarrow> \<forall>a\<ge>4096. \<not> free_spot (pt_mb \<sigma>) 0 (4096 * unat (max_pfn_mapped \<sigma>)) (4096 * tables_for (unat n)) 4096 a
    | Some (\<sigma>', r) \<Rightarrow> r = n \<and> (\<forall>p<n. translate im \<sigma>' (push_bit PAGE_SHIFT p + PAGE_OFFSET) = Some (p, PAGE_KERNEL))
        \<and> (\<forall>a<PMD_SIZE. translate im \<sigma>' a = None)
        \<and> (\<forall>i\<in>kern. pres im \<sigma>' i \<longrightarrow> pres im \<sigma> i \<and> pde im \<sigma>' i = pde im \<sigma> i
             \<or> tbl im \<sigma>' i \<in> {unat (pgt_buf_start \<sigma>')..<unat (pgt_buf_end \<sigma>')})
        \<and> (\<forall>f. f \<notin> {unat (pgt_buf_start \<sigma>')..<unat (pgt_buf_start \<sigma>') + tables_for (unat n)} \<union> {swapper_pg_dir im} \<union> tbl im \<sigma> ` {i\<in>kern. pres im \<sigma> i}
             \<longrightarrow> pt_mem \<sigma>' f = pt_mem \<sigma> f)
        \<and> free_spot (pt_mb \<sigma>) 0 (4096 * unat (max_pfn_mapped \<sigma>)) (4096 * tables_for (unat n)) 4096 (4096 * unat (pgt_buf_start \<sigma>'))
        \<and> pt_mb \<sigma>' = memblock_x86_reserve_range (pt_mb \<sigma>) (PFN_PHYS (pgt_buf_start \<sigma>')) (PFN_PHYS (pgt_buf_end \<sigma>'))"
proof -
  have n: "0 < unat n" "unat n \<le> 2 ^ 18" using assms(2,3) by (simp_all add: maxmem word_less_nat_alt word_le_nat_alt)
  show ?thesis
  proof (rule mapping_run [OF assms(1) n])
    assume "init_memory_mapping im \<sigma> 0 (push_bit PAGE_SHIFT n) = None"
      "\<And>a. free_spot (pt_mb \<sigma>) 0 (4096 * unat (max_pfn_mapped \<sigma>)) (4096 * tables_for (unat n)) 4096 a \<Longrightarrow> a < 4096"
    then show ?thesis by (simp, metis not_le)
  next
    fix b \<sigma>1 \<sigma>2
    assume sp: "free_spot (pt_mb \<sigma>) 0 (4096 * unat (max_pfn_mapped \<sigma>)) (4096 * tables_for (unat n)) 4096 (4096 * unat b)"
      and \<sigma>1: "\<sigma>1 = \<sigma>\<lparr>pgt_buf_start := b, pgt_buf_end := b, pgt_buf_top := b + word_of_nat (tables_for (unat n))\<rparr>"
      and bf: "buf \<sigma>1 = {unat b..<unat b + tables_for (unat n)}" and re: "remapped im \<sigma>1 \<sigma>2" and ma: "\<And>q. unat q < unat n \<Longrightarrow> mapped im False \<sigma>2 q"
      and run: "init_memory_mapping im \<sigma> 0 (push_bit PAGE_SHIFT n) =
         Some (if pgt_buf_end \<sigma>2 > b then native_pagetable_reserve \<sigma>2 (PFN_PHYS b) (PFN_PHYS (pgt_buf_end \<sigma>2)) else \<sigma>2, n)"
    define \<sigma>' where "\<sigma>' = (if pgt_buf_end \<sigma>2 > b then native_pagetable_reserve \<sigma>2 (PFN_PHYS b) (PFN_PHYS (pgt_buf_end \<sigma>2)) else \<sigma>2)"
    have w: "translate im \<sigma>' = translate im \<sigma>2" "pde im \<sigma>' = pde im \<sigma>2" "pres im \<sigma>' = pres im \<sigma>2" "tbl im \<sigma>' = tbl im \<sigma>2" "pt_mem \<sigma>' = pt_mem \<sigma>2"
      using walk_cong [of \<sigma>' \<sigma>2 im] by (simp_all add: \<sigma>'_def native_pagetable_reserve_def)
    have w1: "pde im \<sigma>1 = pde im \<sigma>" "pres im \<sigma>1 = pres im \<sigma>" "tbl im \<sigma>1 = tbl im \<sigma>" "pt_mem \<sigma>1 = pt_mem \<sigma>" using walk_cong [of \<sigma>1 \<sigma> im] by (simp_all add: \<sigma>1)
    have f: "pgt_buf_start \<sigma>' = b" "pgt_buf_end \<sigma>' = pgt_buf_end \<sigma>2" using re by (auto simp: \<sigma>'_def native_pagetable_reserve_def remapped_def \<sigma>1)
    have le: "b \<le> pgt_buf_end \<sigma>2" and pm: "pt_mb \<sigma>2 = pt_mb \<sigma>" and tp: "pgt_buf_top \<sigma>2 = pgt_buf_top \<sigma>1" using re by (auto simp: remapped_def \<sigma>1)
    have "pt_mb \<sigma>' = memblock_x86_reserve_range (pt_mb \<sigma>) (PFN_PHYS b) (PFN_PHYS (pgt_buf_end \<sigma>2))"
      using le pm by (auto simp: \<sigma>'_def native_pagetable_reserve_def memblock_x86_reserve_range_def)
    moreover have "translate im \<sigma>' (push_bit PAGE_SHIFT p + PAGE_OFFSET) = Some (p, PAGE_KERNEL)" if "p < n" for p
      unfolding w using that n by (intro mapped_translate ma) (simp_all add: word_less_nat_alt)
    moreover have "translate im \<sigma>' a = None" if "a < PMD_SIZE" for a
      unfolding w using re that by (intro low_unmapped) (simp_all add: remapped_def)
    moreover have "pres im \<sigma> i \<and> pde im \<sigma>' i = pde im \<sigma> i \<or> tbl im \<sigma>' i \<in> {unat b..<unat (pgt_buf_end \<sigma>2)}" if i: "i \<in> kern" "pres im \<sigma>' i" for i
    proof (cases "pres im \<sigma> i")
      case True
      have "i \<noteq> 0" using i by auto
      then show ?thesis using True re unfolding remapped_def w w1 by blast
    next
      case False
      then have "tbl im \<sigma>2 i \<in> buf \<sigma>1 - buf \<sigma>2" using re i unfolding remapped_def w w1 by blast
      then show ?thesis unfolding w using tp by (auto simp: buf_def \<sigma>1)
    qed
    moreover have "pt_mem \<sigma>' g = pt_mem \<sigma> g"
      if "g \<notin> {unat b..<unat b + tables_for (unat n)} \<union> {swapper_pg_dir im} \<union> tbl im \<sigma> ` {i\<in>kern. pres im \<sigma> i}" for g
      using re that unfolding remapped_def w w1 bf by blast
    ultimately show ?thesis unfolding run \<sigma>'_def [symmetric] using sp by (simp add: f)
  qed
qed

text \<open>C21. \<^verbatim>\<open>init_memory_mapping\<close> panics only if there is no place for the page tables in mapped memory. Otherwise the
  tables suffice and all of low memory is mapped: the walk of the processor leads from the address of every page frame
  in the direct mapping to this frame, with the attributes of the kernel, and the first directory entry is cleared. Tables that
  were there are used again, new ones come from free memory that is reserved afterwards, and no other frame is written.\<close>

theorem init_memory_mapping_correct:
  assumes "boot_tables im \<sigma>" "0 < n" "n \<le> MAXMEM_PFN"
  shows "case init_memory_mapping im \<sigma> 0 (push_bit PAGE_SHIFT n) of
      None \<Rightarrow> \<forall>a\<ge>4096. \<not> free_spot (pt_mb \<sigma>) 0 (4096 * unat (max_pfn_mapped \<sigma>)) (4096 * tables_for (unat n)) 4096 a
    | Some (\<sigma>', r) \<Rightarrow> r = n \<and> (\<forall>p<n. translate im \<sigma>' (push_bit PAGE_SHIFT p + PAGE_OFFSET) = Some (p, PAGE_KERNEL))
        \<and> (\<forall>a<PMD_SIZE. translate im \<sigma>' a = None)
        \<and> (\<forall>i\<in>kern. pres im \<sigma>' i \<longrightarrow> pres im \<sigma> i \<and> pde im \<sigma>' i = pde im \<sigma> i
             \<or> tbl im \<sigma>' i \<in> {unat (pgt_buf_start \<sigma>')..<unat (pgt_buf_end \<sigma>')})
        \<and> (\<forall>f. f \<notin> {unat (pgt_buf_start \<sigma>')..<unat (pgt_buf_start \<sigma>') + tables_for (unat n)} \<union> {swapper_pg_dir im} \<union> tbl im \<sigma> ` {i\<in>kern. pres im \<sigma> i}
             \<longrightarrow> pt_mem \<sigma>' f = pt_mem \<sigma> f)
        \<and> free_spot (pt_mb \<sigma>) 0 (4096 * unat (max_pfn_mapped \<sigma>)) (4096 * tables_for (unat n)) 4096 (4096 * unat (pgt_buf_start \<sigma>'))
        \<and> pt_mb \<sigma>' = memblock_x86_reserve_range (pt_mb \<sigma>) (PFN_PHYS (pgt_buf_start \<sigma>')) (PFN_PHYS (pgt_buf_end \<sigma>'))"
  by (rule init_memory_mapping_spec [OF assms])

definition example_image :: image where
  "example_image = \<lparr>swapper_pg_dir = 0x100, im_text = 0xC0100000, im_edata = 0xC0110000, im_slab = False, im_kzalloc = (\<lambda>_. 0)\<rparr>"

definition example_paging :: paging where
  "example_paging = \<lparr>pt_mem = (\<lambda>_ _. 0), pgt_buf_start = 0, pgt_buf_end = 0, pgt_buf_top = 0, after_bootmem = False,
     pt_mb = \<lparr>current_limit = 0, memory_size = 0,
       memory = \<lparr>cnt = 1, mb_max = 2, regions = [\<lparr>rg_base = 0x1000, rg_size = 0xFFF000\<rparr>, null_region, null_region]\<rparr>,
       reserved = \<lparr>cnt = 1, mb_max = 2, regions = [\<lparr>rg_base = 0x100000, rg_size = 0x100000\<rparr>, null_region, null_region]\<rparr>, init_done = True\<rparr>,
     pt_nodes = [], max_pfn = 2048, max_low_pfn = 2048, max_pfn_mapped = 2048, highmem_pages = 0\<rparr>"

theorem init_memory_mapping_correct_witness:
  "\<exists>\<sigma>'. init_memory_mapping example_image example_paging 0 0x800000 = Some (\<sigma>', 2048)
    \<and> translate example_image \<sigma>' 0xC0700000 = Some (0x700, PAGE_KERNEL) \<and> translate example_image \<sigma>' 0x1000 = None"
proof -
  let ?mb = "pt_mb example_paging"
  have v: "view (memory ?mb) = [(0x1000, 0x1000000)]" "view (reserved ?mb) = [(0x100000, 0x200000)]"
    by (simp_all add: example_paging_def view_def no_regions_def rgn_def Memblock.span_of_def)
  then have inv: "mb_inv (reserved ?mb)" "mb_inv (memory ?mb)"
    by (simp_all add: mb_inv_def example_paging_def fits_def rgn_def no_regions_def)
  have np: "\<not> pres example_image example_paging i" for i by (simp add: pres_def pde_def example_paging_def)
  have bt: "boot_tables example_image example_paging"
    using inv np unfolding boot_tables_def by (auto simp: mb_addrs_def spans_set_def v) (simp_all add: example_paging_def example_image_def)
  have "free_spot ?mb 0 (4096 * unat (max_pfn_mapped example_paging)) (4096 * tables_for (unat (2048 :: ulong))) 4096 0x300000"
    by (simp add: free_spot_def v clear_spot_def tables_for_def) (simp add: example_paging_def)
  note fs = this
  let ?R = "init_memory_mapping example_image example_paging 0 (push_bit PAGE_SHIFT 2048)"
  have n: "(0 :: ulong) < 2048" "2048 \<le> MAXMEM_PFN" by (simp_all add: maxmem)
  note c = init_memory_mapping_correct [OF bt n]
  obtain \<sigma>' k where R: "?R = Some (\<sigma>', k)"
  proof (cases ?R)
    case None
    with c have "\<forall>a\<ge>4096. \<not> free_spot ?mb 0 (4096 * unat (max_pfn_mapped example_paging)) (4096 * tables_for (unat (2048 :: ulong))) 4096 a" by (simp only: option.case)
    then show thesis using spec [where x = "0x300000"] fs by simp
  next
    case (Some x)
    then show thesis using that by (cases x) simp
  qed
  have r: "k = 2048" "\<forall>p<2048. translate example_image \<sigma>' (push_bit PAGE_SHIFT p + PAGE_OFFSET) = Some (p, PAGE_KERNEL)" "\<forall>a<PMD_SIZE. translate example_image \<sigma>' a = None"
    using c unfolding R by simp_all
  have "push_bit PAGE_SHIFT 0x700 + PAGE_OFFSET = 0xC0700000" "push_bit PAGE_SHIFT 2048 = (0x800000 :: ulong)" "(0x1000 :: ulong) < PMD_SIZE"
    by (simp_all add: PAGE_SHIFT_def PAGE_OFFSET_def PMD_SIZE_def PMD_SHIFT_def)
  then show ?thesis using R r spec [OF r(2), of "0x700"] by simp
qed

end
