(* ===== verification/Zone_Init.thy ===== *)
theory Zone_Init
  imports Page_Alloc Nobootmem "HOL-Library.Monad_Syntax"
begin

text \<open>
  The set-up of the zones, \<^verbatim>\<open>zone_sizes_init\<close> of \<^verbatim>\<open>mm/init_32.c\<close> and what it calls in \<^verbatim>\<open>mm/page_alloc.c\<close>: the limits
  of the zones are computed from the active regions (theory \<open>Early_Node_Map\<close>), the page frames, the bitmaps of migrate types and the
  wait tables are allocated (theory \<open>Nobootmem\<close>), and the page frames and the free lists get their first contents. The theory shows
  that the zones tile the memory of the node and that the result satisfies the invariant of the page allocator (theory \<open>Page_Alloc\<close>).
  There is one node. Locks, wait queues and lists that nothing modelled uses are left out.
\<close>

unbundle bit_operations_syntax

section \<open>State\<close>

text \<open>The variables of the zone set-up, the fields of \<^verbatim>\<open>contig_page_data\<close>, the only node, and of its zones. \<open>zs_map\<close> is
  \<^verbatim>\<open>early_node_map\<close>, \<open>zs_frames\<close> the page frames that \<open>mem_map_ptr\<close> points to, \<open>usemap\<close> the address of the bitmap of
  migrate types. \<open>zs_slab\<close> and \<open>zs_kzalloc\<close> are the slab allocator as the boot allocator sees it.\<close>

record node_setup =
  zs_map :: node_map
  zs_mb :: memblock
  zs_slab :: bool
  zs_kzalloc :: "ulong \<Rightarrow> ulong"
  zs_pgmd :: bool
  arch_zone_lowest_possible_pfn :: "nat \<Rightarrow> ulong"
  arch_zone_highest_possible_pfn :: "nat \<Rightarrow> ulong"
  zone_movable_pfn :: ulong
  movable_zone :: int
  dma_reserve :: ulong
  nr_kernel_pages :: ulong
  nr_all_pages :: ulong
  highest_memmap_pfn :: ulong
  node_zones :: "nat \<Rightarrow> zone"
  usemap :: "nat \<Rightarrow> ulong"
  wait_table :: "nat \<Rightarrow> ulong"
  wait_table_hash_nr_entries :: "nat \<Rightarrow> ulong"
  wait_table_bits :: "nat \<Rightarrow> ulong"
  nr_zones :: nat
  node_start_pfn :: ulong
  node_spanned_pages :: ulong
  node_present_pages :: ulong
  node_mem_map :: ulong
  mem_map_ptr :: ulong
  zs_frames :: mem_map

definition SMP_CACHE_BYTES :: ulong where "SMP_CACHE_BYTES = push_bit 5 1"

definition PAGE_ALIGN :: "ulong \<Rightarrow> ulong" where "PAGE_ALIGN a = ALIGN a PAGE_SIZE"

definition sizeof_wait_queue_head :: ulong where "sizeof_wait_queue_head = 24"

definition alloc_bootmem_node_nopanic :: "node_setup \<Rightarrow> ulong \<Rightarrow> node_setup \<times> ulong" where
  "alloc_bootmem_node_nopanic \<sigma> x =
     (let (mb, p) = uu_alloc_bootmem_node_nopanic (zs_slab \<sigma>) (zs_kzalloc \<sigma>) (zs_mb \<sigma>) (zs_map \<sigma>) 0 x SMP_CACHE_BYTES 0
      in (\<sigma>\<lparr>zs_mb := mb\<rparr>, p))"

definition upd_zone :: "node_setup \<Rightarrow> nat \<Rightarrow> (zone \<Rightarrow> zone) \<Rightarrow> node_setup" where
  "upd_zone \<sigma> j f = \<sigma>\<lparr>node_zones := (node_zones \<sigma>)(j := f (node_zones \<sigma> j))\<rparr>"

section \<open>The ranges of the zones\<close>

text \<open>The loop over the zone numbers from the top, \<open>n\<close> being one more than \<^verbatim>\<open>zone_index\<close>; -1 if no zone is usable.\<close>

primrec usable_zone_loop :: "node_setup \<Rightarrow> nat \<Rightarrow> int" where
  "usable_zone_loop \<sigma> 0 = - 1"
| "usable_zone_loop \<sigma> (Suc zone_index) =
     (if zone_index = ZONE_MOVABLE then usable_zone_loop \<sigma> zone_index
      else if arch_zone_highest_possible_pfn \<sigma> zone_index > arch_zone_lowest_possible_pfn \<sigma> zone_index then int zone_index
      else usable_zone_loop \<sigma> zone_index)"

definition find_usable_zone_for_movable :: "node_setup \<Rightarrow> node_setup" where
  "find_usable_zone_for_movable \<sigma> = \<sigma>\<lparr>movable_zone := usable_zone_loop \<sigma> MAX_NR_ZONES\<rparr>"

text \<open>\<open>None\<close> is the access to the arrays with the index -1.\<close>

definition find_zone_movable_pfns_for_nodes :: "node_setup \<Rightarrow> node_setup option" where
  "find_zone_movable_pfns_for_nodes \<sigma> =
     (let \<sigma> = find_usable_zone_for_movable \<sigma>
      in if movable_zone \<sigma> < 0 then None
         else let lo = arch_zone_lowest_possible_pfn \<sigma> (nat (movable_zone \<sigma>));
                  hi = arch_zone_highest_possible_pfn \<sigma> (nat (movable_zone \<sigma>));
                  pfn = lo + (hi - lo) div 10 * 9
              in Some (\<sigma>\<lparr>zone_movable_pfn := round_up pfn MAX_ORDER_NR_PAGES\<rparr>))"

definition adjust_zone_range_for_zone_movable :: "node_setup \<Rightarrow> nat \<Rightarrow> ulong \<Rightarrow> ulong \<Rightarrow> ulong \<times> ulong \<Rightarrow> ulong \<times> ulong" where
  "adjust_zone_range_for_zone_movable \<sigma> zone_type node_st node_en r =
     (case r of (zst, zen) \<Rightarrow>
        if zone_movable_pfn \<sigma> \<noteq> 0 then
          if zone_type = ZONE_MOVABLE
          then (zone_movable_pfn \<sigma>, min node_en (arch_zone_highest_possible_pfn \<sigma> (nat (movable_zone \<sigma>))))
          else if zst < zone_movable_pfn \<sigma> \<and> zen > zone_movable_pfn \<sigma> then (zst, zone_movable_pfn \<sigma>)
          else if zst \<ge> zone_movable_pfn \<sigma> then (zen, zen)
          else (zst, zen)
        else (zst, zen))"

definition zone_spanned_pages_in_node :: "node_setup \<Rightarrow> nat \<Rightarrow> ulong" where
  "zone_spanned_pages_in_node \<sigma> zone_type =
     (let (node_st, node_en) = get_pfn_range_for_nid (zs_map \<sigma>) 0;
          (zst, zen) = adjust_zone_range_for_zone_movable \<sigma> zone_type node_st node_en
             (arch_zone_lowest_possible_pfn \<sigma> zone_type, arch_zone_highest_possible_pfn \<sigma> zone_type)
      in if zen < node_st \<or> zst > node_en then 0
         else min zen node_en - max zst node_st)"

definition zone_absent_pages_in_node :: "node_setup \<Rightarrow> nat \<Rightarrow> ulong" where
  "zone_absent_pages_in_node \<sigma> zone_type =
     (let (node_st, node_en) = get_pfn_range_for_nid (zs_map \<sigma>) 0;
          (zst, zen) = adjust_zone_range_for_zone_movable \<sigma> zone_type node_st node_en
             (max (arch_zone_lowest_possible_pfn \<sigma> zone_type) node_st, min (arch_zone_highest_possible_pfn \<sigma> zone_type) node_en)
      in uu_absent_pages_in_range (zs_map \<sigma>) 0 zst zen)"

definition calculate_node_totalpages :: "node_setup \<Rightarrow> node_setup" where
  "calculate_node_totalpages \<sigma> =
     (let totalpages = fold (\<lambda>i t. t + zone_spanned_pages_in_node \<sigma> i) [0..<MAX_NR_ZONES] 0;
          realtotalpages = fold (\<lambda>i t. t - zone_absent_pages_in_node \<sigma> i) [0..<MAX_NR_ZONES] totalpages
      in \<sigma>\<lparr>node_spanned_pages := totalpages, node_present_pages := realtotalpages\<rparr>)"

section \<open>One zone\<close>

text \<open>The bitmap, all of whose bits are cleared by the boot allocator. \<open>None\<close> is a write through a null pointer.\<close>

definition usemap_size :: "ulong \<Rightarrow> ulong" where
  "usemap_size zonesize =
     (let usemapsize = roundup zonesize (word_of_nat pageblock_nr_pages);
          usemapsize = drop_bit pageblock_order usemapsize;
          usemapsize = usemapsize * word_of_nat NR_PAGEBLOCK_BITS;
          usemapsize = roundup usemapsize (8 * 4)
      in usemapsize div 8)"

definition setup_usemap :: "node_setup \<Rightarrow> nat \<Rightarrow> ulong \<Rightarrow> node_setup" where
  "setup_usemap \<sigma> j zonesize =
     (let usemapsize = usemap_size zonesize;
          \<sigma> = \<sigma>\<lparr>usemap := (usemap \<sigma>)(j := 0)\<rparr>
      in if usemapsize \<noteq> 0
         then let (\<sigma>, p) = alloc_bootmem_node_nopanic \<sigma> usemapsize
              in upd_zone (\<sigma>\<lparr>usemap := (usemap \<sigma>)(j := p)\<rparr>) j (\<lambda>z. z\<lparr>pageblock_flags := (\<lambda>_. False)\<rparr>)
         else \<sigma>)"

text \<open>The loop \<^verbatim>\<open>while (size < pages) size <<= 1\<close>.\<close>

definition PAGES_PER_WAITQUEUE :: ulong where "PAGES_PER_WAITQUEUE = 256"

partial_function (option) double_loop :: "ulong \<Rightarrow> ulong \<Rightarrow> ulong option" where
  "double_loop pages sz = (if sz < pages then double_loop pages (push_bit 1 sz) else Some sz)"

definition uu_wait_table_hash_nr_entries :: "ulong \<Rightarrow> ulong option" where
  "uu_wait_table_hash_nr_entries pages =
     do {
       sz \<leftarrow> double_loop (pages div PAGES_PER_WAITQUEUE) 1;
       let sz = min sz 4096;
       Some (max sz 4)
     }"

definition uu_wait_table_bits :: "ulong \<Rightarrow> ulong" where
  "uu_wait_table_bits sz = (case ffz (NOT sz) of Some n \<Rightarrow> word_of_nat n | None \<Rightarrow> 0)"

definition ENOMEM :: int where "ENOMEM = 12"

text \<open>\<^verbatim>\<open>vmalloc\<close> (\<^verbatim>\<open>mm/vmalloc.c\<close>) returns the null pointer.\<close>

definition vmalloc :: "ulong \<Rightarrow> ulong" where "vmalloc sz = 0"

definition zone_wait_table_init :: "node_setup \<Rightarrow> nat \<Rightarrow> ulong \<Rightarrow> (node_setup \<times> int) option" where
  "zone_wait_table_init \<sigma> j zone_size_pages =
     do {
       n \<leftarrow> uu_wait_table_hash_nr_entries zone_size_pages;
       let \<sigma> = \<sigma>\<lparr>wait_table_hash_nr_entries := (wait_table_hash_nr_entries \<sigma>)(j := n), wait_table_bits := (wait_table_bits \<sigma>)(j := uu_wait_table_bits n)\<rparr>;
       let alloc_size = n * sizeof_wait_queue_head;
       let (\<sigma>, p) = (if \<not> zs_slab \<sigma> then alloc_bootmem_node_nopanic \<sigma> alloc_size else (\<sigma>, vmalloc alloc_size));
       let \<sigma> = \<sigma>\<lparr>wait_table := (wait_table \<sigma>)(j := p)\<rparr>;
       Some (\<sigma>, if p = 0 then - ENOMEM else 0)
     }"

definition zone_init_free_lists :: "zone \<Rightarrow> zone" where
  "zone_init_free_lists z =
     fold (\<lambda>k z. z\<lparr>free_list := (free_list z)(k := fold (\<lambda>t l. l(t := [])) [0..<MIGRATE_TYPES] (free_list z k)), nr_free := (nr_free z)(k := 0)\<rparr>) [0..<MAX_ORDER] z"

definition init_currently_empty_zone :: "node_setup \<Rightarrow> nat \<Rightarrow> ulong \<Rightarrow> ulong \<Rightarrow> (node_setup \<times> int) option" where
  "init_currently_empty_zone \<sigma> j zst sz =
     do {
       (\<sigma>, ret) \<leftarrow> zone_wait_table_init \<sigma> j sz;
       if ret \<noteq> 0 then Some (\<sigma>, ret)
       else Some (upd_zone (\<sigma>\<lparr>nr_zones := j + 1\<rparr>) j (\<lambda>z. zone_init_free_lists (z\<lparr>zone_start_pfn := zst\<rparr>)), 0)
     }"

section \<open>The page frames of a zone\<close>

text \<open>The address of a page frame. A write below the kernel half, where nothing is mapped, is \<open>None\<close>; such addresses come from
  null pointers.\<close>

definition frame_ptr :: "node_setup \<Rightarrow> ulong \<Rightarrow> ulong" where
  "frame_ptr \<sigma> pfn = mem_map_ptr \<sigma> + sizeof_page * pfn"

text \<open>\<^verbatim>\<open>early_pfn_valid\<close> and \<^verbatim>\<open>early_pfn_in_nid\<close> are 1. The list head in the page is that of a page in no list.\<close>

definition SetPageReserved :: "page \<Rightarrow> page" where "SetPageReserved = set_page_flag PG_reserved"

definition memmap_page :: "nat \<Rightarrow> page \<Rightarrow> page" where
  "memmap_page j p = SetPageReserved (reset_page_mapcount (init_page_count (set_page_links p j 0)))"

function memmap_loop :: "nat \<Rightarrow> ulong \<Rightarrow> ulong \<Rightarrow> node_setup \<Rightarrow> node_setup option" where
  "memmap_loop j pfn en \<sigma> =
     (if pfn < en then
        if frame_ptr \<sigma> pfn < PAGE_OFFSET then None else
        let q = unat pfn;
            \<sigma> = \<sigma>\<lparr>zs_frames := (zs_frames \<sigma>)(q := memmap_page j (zs_frames \<sigma> q))\<rparr>;
            z = node_zones \<sigma> j
        in if zone_start_pfn z \<le> pfn \<and> pfn < zone_start_pfn z + spanned_pages z \<and> pfn AND (word_of_nat pageblock_nr_pages - 1) = 0
           then let k = page_zonenum (zs_frames \<sigma> q)
                in if usemap \<sigma> k = 0 then None
                   else memmap_loop j (pfn + 1) en (upd_zone \<sigma> k (\<lambda>z. set_pageblock_migratetype (zs_pgmd \<sigma>) z q MIGRATE_MOVABLE))
           else memmap_loop j (pfn + 1) en \<sigma>
      else Some \<sigma>)"
  by pat_completeness auto
termination
proof (relation "measure (\<lambda>(_, pfn, en, _). unat en - unat pfn)")
  fix pfn en :: ulong
  assume "pfn < en"
  then have "unat (pfn + 1) = unat pfn + 1" "unat pfn < unat en" using unat_bound [of en] by (simp_all add: word_less_nat_alt unat_add_no_wrap)
  then have d: "unat en - unat (pfn + 1) < unat en - unat pfn" by simp
  fix j :: nat and \<sigma> \<tau> :: node_setup
  show "((j, pfn + 1, en, \<tau>), j, pfn, en, \<sigma>) \<in> measure (\<lambda>(_, pfn, en, _). unat en - unat pfn)" using d by simp
  show "((j, pfn + 1, en, \<tau>), j, pfn, en, \<sigma>) \<in> measure (\<lambda>(_, pfn, en, _). unat en - unat pfn)" using d by simp
qed simp

declare memmap_loop.simps [simp del]

definition memmap_init_zone :: "node_setup \<Rightarrow> ulong \<Rightarrow> nat \<Rightarrow> ulong \<Rightarrow> node_setup option" where
  "memmap_init_zone \<sigma> sz j st =
     (let en = st + sz;
          \<sigma> = (if highest_memmap_pfn \<sigma> < en - 1 then \<sigma>\<lparr>highest_memmap_pfn := en - 1\<rparr> else \<sigma>)
      in memmap_loop j st en \<sigma>)"

section \<open>The node\<close>

text \<open>The body of the loop of \<^verbatim>\<open>free_area_init_core\<close>, which carries \<^verbatim>\<open>zone_start_pfn\<close>. \<^verbatim>\<open>is_highmem_idx\<close> is 0. The result of
  \<^verbatim>\<open>init_currently_empty_zone\<close> is not looked at.\<close>

definition init_zone :: "node_setup \<Rightarrow> nat \<Rightarrow> ulong \<Rightarrow> (node_setup \<times> ulong) option" where
  "init_zone \<sigma> j zst =
     do {
       let sz = zone_spanned_pages_in_node \<sigma> j;
       let realsize = sz - zone_absent_pages_in_node \<sigma> j;
       let memmap_pages = drop_bit PAGE_SHIFT (PAGE_ALIGN (sz * sizeof_page));
       let realsize = (if realsize \<ge> memmap_pages then realsize - memmap_pages else realsize);
       let realsize = (if j = 0 \<and> realsize > dma_reserve \<sigma> then realsize - dma_reserve \<sigma> else realsize);
       let \<sigma> = \<sigma>\<lparr>nr_kernel_pages := nr_kernel_pages \<sigma> + realsize, nr_all_pages := nr_all_pages \<sigma> + realsize\<rparr>;
       let \<sigma> = upd_zone \<sigma> j (\<lambda>z. z\<lparr>spanned_pages := sz, present_pages := realsize, nr_free_pages := 0, nr_mlock := 0\<rparr>);
       if sz = 0 then Some (\<sigma>, zst)
       else do {
         let \<sigma> = setup_usemap \<sigma> j sz;
         (\<sigma>, ret) \<leftarrow> init_currently_empty_zone \<sigma> j zst sz;
         \<sigma> \<leftarrow> memmap_init_zone \<sigma> sz j zst;
         Some (\<sigma>, zst + sz)
       }
     }"

primrec init_zones :: "nat list \<Rightarrow> node_setup \<Rightarrow> ulong \<Rightarrow> (node_setup \<times> ulong) option" where
  "init_zones [] \<sigma> zst = Some (\<sigma>, zst)"
| "init_zones (j # js) \<sigma> zst = do { (\<sigma>, zst) \<leftarrow> init_zone \<sigma> j zst; init_zones js \<sigma> zst }"

definition free_area_init_core :: "node_setup \<Rightarrow> node_setup option" where
  "free_area_init_core \<sigma> =
     do {
       (\<sigma>', _) \<leftarrow> init_zones [0..<MAX_NR_ZONES] (\<sigma>\<lparr>nr_zones := 0\<rparr>) (node_start_pfn \<sigma>);
       Some \<sigma>'
     }"

text \<open>\<^verbatim>\<open>alloc_remap\<close> returns the null pointer, \<^verbatim>\<open>ARCH_PFN_OFFSET\<close> is 0, and \<^verbatim>\<open>page_to_pfn(mem_map)\<close> is 0. The boot allocator
  clears the memory it returns, hence the page frames.\<close>

definition alloc_node_mem_map :: "node_setup \<Rightarrow> node_setup" where
  "alloc_node_mem_map \<sigma> =
     (if node_spanned_pages \<sigma> = 0 then \<sigma>
      else
        let \<sigma> = (if node_mem_map \<sigma> = 0 then
                   let st = node_start_pfn \<sigma> AND NOT (MAX_ORDER_NR_PAGES - 1);
                       en = node_start_pfn \<sigma> + node_spanned_pages \<sigma>;
                       en = ALIGN en MAX_ORDER_NR_PAGES;
                       (\<sigma>, p) = alloc_bootmem_node_nopanic \<sigma> ((en - st) * sizeof_page);
                       \<sigma> = (if p \<noteq> 0 then \<sigma>\<lparr>zs_frames := (\<lambda>_. null_page)\<rparr> else \<sigma>)
                   in \<sigma>\<lparr>node_mem_map := p + (node_start_pfn \<sigma> - st) * sizeof_page\<rparr>
                 else \<sigma>);
            \<sigma> = \<sigma>\<lparr>mem_map_ptr := node_mem_map \<sigma>\<rparr>
        in if (0 :: ulong) \<noteq> node_start_pfn \<sigma> then \<sigma>\<lparr>mem_map_ptr := mem_map_ptr \<sigma> - node_start_pfn \<sigma> * sizeof_page\<rparr> else \<sigma>)"

definition free_area_init_node :: "node_setup \<Rightarrow> ulong \<Rightarrow> node_setup option" where
  "free_area_init_node \<sigma> st =
     free_area_init_core (alloc_node_mem_map (calculate_node_totalpages (\<sigma>\<lparr>node_start_pfn := st\<rparr>)))"

definition zone_limits :: "(nat \<Rightarrow> ulong) \<Rightarrow> node_setup \<Rightarrow> node_setup" where
  "zone_limits max_zone_pfn \<sigma> =
     (let \<sigma> = \<sigma>\<lparr>arch_zone_lowest_possible_pfn := (\<lambda>_. 0)(0 := find_min_pfn_with_active_regions (zs_map \<sigma>)),
                arch_zone_highest_possible_pfn := (\<lambda>_. 0)(0 := max_zone_pfn 0)\<rparr>;
          \<sigma> = fold (\<lambda>i \<sigma>. if i = ZONE_MOVABLE then \<sigma>
                  else let lo = arch_zone_highest_possible_pfn \<sigma> (i - 1)
                       in \<sigma>\<lparr>arch_zone_lowest_possible_pfn := (arch_zone_lowest_possible_pfn \<sigma>)(i := lo),
                            arch_zone_highest_possible_pfn := (arch_zone_highest_possible_pfn \<sigma>)(i := max (max_zone_pfn i) lo)\<rparr>) [1..<MAX_NR_ZONES] \<sigma>
      in \<sigma>\<lparr>arch_zone_lowest_possible_pfn := (arch_zone_lowest_possible_pfn \<sigma>)(ZONE_MOVABLE := 0),
           arch_zone_highest_possible_pfn := (arch_zone_highest_possible_pfn \<sigma>)(ZONE_MOVABLE := 0)\<rparr>)"

text \<open>There is one node, and \<^verbatim>\<open>node_set_state\<close> does nothing.\<close>

definition free_area_init_nodes :: "node_setup \<Rightarrow> (nat \<Rightarrow> ulong) \<Rightarrow> node_setup option" where
  "free_area_init_nodes \<sigma> max_zone_pfn =
     do {
       let \<sigma> = zone_limits max_zone_pfn (\<sigma>\<lparr>zs_map := sort_node_map (zs_map \<sigma>)\<rparr>);
       \<sigma> \<leftarrow> find_zone_movable_pfns_for_nodes (\<sigma>\<lparr>zone_movable_pfn := 0\<rparr>);
       free_area_init_node \<sigma> (find_min_pfn_for_node (zs_map \<sigma>) 0)
     }"

definition MAX_DMA_ADDRESS :: ulong where "MAX_DMA_ADDRESS = PAGE_OFFSET + 0x1000000"

definition zone_sizes_init :: "node_setup \<Rightarrow> ulong \<Rightarrow> node_setup option" where
  "zone_sizes_init \<sigma> low_pfn =
     free_area_init_nodes \<sigma> ((\<lambda>_. 0)(ZONE_DMA := drop_bit PAGE_SHIFT (MAX_DMA_ADDRESS - PAGE_OFFSET), ZONE_NORMAL := low_pfn))"
section \<open>The active regions\<close>

definition map_ok :: "node_map \<Rightarrow> ulong \<Rightarrow> ulong \<Rightarrow> bool" where
  "map_ok m ns ne \<longleftrightarrow> m \<noteq> [] \<and> in_order m \<and> (\<forall>r\<in>set m. ar_nid r = 0 \<and> start_pfn r < end_pfn r) \<and> start_pfn (hd m) = ns \<and> end_pfn (last m) = ne"

lemma map_ok_regions: "map_ok m ns ne \<Longrightarrow> nid_regions m 0 = m \<and> nid_regions m MAX_NUMNODES = m"
  by (simp add: map_ok_def nid_regions_def)

lemma fold_regions: "fold (\<lambda>i. f (m ! i)) (for_each_active_range_index_in_nid m nid) a = fold f (nid_regions m nid) a"
  by (simp flip: map_for_each add: fold_map comp_def)

lemma in_order_bounds:
  assumes "in_order m" "r \<in> set m"
  shows "start_pfn (hd m) \<le> start_pfn r" "end_pfn r \<le> end_pfn (last m)"
  using assms
proof (induction m)
  case (Cons x xs)
  {
    case 1
    then show ?case by (auto intro: order_trans)
  next
    case 2
    show ?case
    proof (cases "xs = []")
      case False
      then have l: "last xs \<in> set xs" by simp
      have "start_pfn (last xs) \<le> end_pfn (last xs)" using 2 l by (auto simp: in_order_def)
      moreover have "end_pfn x \<le> start_pfn (last xs)" using 2 l by simp
      ultimately show ?thesis using 2 Cons.IH(2) False by (auto intro: order_trans)
    qed (use 2 in auto)
  }
qed simp_all

lemma fold_min_bound: "\<forall>r\<in>set m. lo \<le> start_pfn r \<Longrightarrow> fold (\<lambda>r p. min p (start_pfn r)) m lo = lo"
  by (induction m) (simp_all add: min_absorb1)

lemma fold_max_bound: "\<forall>r\<in>set m. end_pfn r \<le> hi \<Longrightarrow> a \<le> hi \<Longrightarrow> fold (\<lambda>r p. max p (end_pfn r)) m a \<le> hi"
  by (induction m arbitrary: a) simp_all

lemma fold_pair: "fold (\<lambda>r (st, en). (f r st, g r en)) m (a, b) = (fold f m a, fold g m b)"
  by (induction m arbitrary: a b) simp_all

lemma node_range:
  assumes ok: "map_ok m ns ne"
  shows "get_pfn_range_for_nid m 0 = (ns, ne)" "find_min_pfn_for_node m 0 = ns" "find_min_pfn_with_active_regions m = ns" "ns < ne"
proof -
  note r = map_ok_regions [OF ok]
  have io: "in_order m" and ne: "m \<noteq> []" and s: "start_pfn (hd m) = ns" "end_pfn (last m) = ne" and lt: "\<forall>r\<in>set m. start_pfn r < end_pfn r"
    using ok by (auto simp: map_ok_def)
  have b: "\<forall>r\<in>set m. ns \<le> start_pfn r \<and> end_pfn r \<le> ne" using in_order_bounds [OF io] s by auto
  have nsne: "ns < end_pfn (hd m)" "end_pfn (hd m) \<le> ne" using lt b ne s by (auto simp: hd_in_set)
  then show "ns < ne" by (rule less_le_trans)
  have nn: "ns \<noteq> - 1" using nsne(1) by auto
  obtain x xs where m: "m = x # xs" using ne by (cases m) auto
  have mn: "fold (\<lambda>r p. min p (start_pfn r)) m (- 1) = ns"
    using fold_min_bound [of xs ns] b s unfolding m by (simp add: min_absorb2)
  obtain ys y where my: "m = ys @ [y]" using ne by (cases m rule: rev_cases) auto
  have "fold (\<lambda>r p. max p (end_pfn r)) ys 0 \<le> ne" using b by (intro fold_max_bound) (auto simp: my)
  then have mx: "fold (\<lambda>r p. max p (end_pfn r)) m 0 = ne" using s unfolding my by simp
  show "get_pfn_range_for_nid m 0 = (ns, ne)"
    using nn unfolding get_pfn_range_for_nid_def fold_regions [where f = "\<lambda>r (st, en). (min st (start_pfn r), max en (end_pfn r))"]
    by (simp add: r fold_pair [where f = "\<lambda>r st. min st (start_pfn r)" and g = "\<lambda>r en. max en (end_pfn r)"] mn mx)
  show "find_min_pfn_for_node m 0 = ns" "find_min_pfn_with_active_regions m = ns"
    using nn unfolding find_min_pfn_with_active_regions_def find_min_pfn_for_node_def fold_regions [where f = "\<lambda>r p. min p (start_pfn r)"] by (simp_all add: r mn)
qed

text \<open>A range with no pages has no absent pages, even if its ends are exchanged, as long as it ends before the memory.\<close>

lemma absent_reversed:
  assumes "rs \<ge> re" "absent_loop m rs re is prev h = (prev', h')"
  shows "h' = h \<and> (re \<le> prev' \<or> prev' = (if is = [] then prev else end_pfn (m ! last is)))"
  using assms
proof (induction "is" arbitrary: prev h)
  case (Cons i "is")
  show ?case
  proof (cases "re \<le> prev")
    case False
    have "\<not> min (start_pfn (m ! i)) re > rs" using Cons.prems(1) by (auto simp: min_less_iff_disj)
    then have "absent_loop m rs re is (end_pfn (m ! i)) h = (prev', h')" using Cons.prems(2) False by (auto simp: Let_def split: if_splits)
    then show ?thesis using Cons.IH [OF Cons.prems(1)] by fastforce
  qed (use Cons.prems in auto)
qed simp

lemma absent_pages:
  assumes ok: "map_ok m ns ne"
  shows "rs \<le> re \<Longrightarrow> uu_absent_pages_in_range m 0 rs re = of_nat (card (holes m (unat rs) (unat re)))"
    "re \<le> rs \<Longrightarrow> re \<le> ne \<Longrightarrow> uu_absent_pages_in_range m 0 rs re = 0"
proof -
  let ?is = "for_each_active_range_index_in_nid m 0"
  note r = map_ok_regions [OF ok]
  have mf: "map (\<lambda>i. m ! i) ?is = m" using map_for_each [of m 0] r by simp
  obtain p h where l: "absent_loop m rs re ?is 0 0 = (p, h)" by fastforce
  show "uu_absent_pages_in_range m 0 rs re = of_nat (card (holes m (unat rs) (unat re)))" if "rs \<le> re"
    using absent_loop_holes [OF _ _ that l] ok mf by (simp add: uu_absent_pages_in_range_def l map_ok_def)
  show "uu_absent_pages_in_range m 0 rs re = 0" if "re \<le> rs" "re \<le> ne"
  proof -
    have ne: "?is \<noteq> []" using mf ok by (auto simp: map_ok_def)
    have "m ! last ?is = last m" using mf ne by (metis last_map)
    then have "h = 0 \<and> re \<le> p" using absent_reversed [OF that(1) l] ne that(2) ok by (auto simp: map_ok_def)
    then show ?thesis by (auto simp: uu_absent_pages_in_range_def l)
  qed
qed

section \<open>The zones tile the node\<close>

text \<open>The bounds of the zones, \<open>mp\<close> being the start of the movable zone: zone \<open>j\<close> lies between bound \<open>j\<close> and bound \<open>j + 1\<close>.\<close>

definition zone_bound :: "ulong \<Rightarrow> ulong \<Rightarrow> ulong \<Rightarrow> nat \<Rightarrow> ulong" where
  "zone_bound ns ne mp j = (if j = 0 then ns else if j = 1 then min (min 4096 mp) ne else if j = 2 then min mp ne else ne)"

definition limits_ok :: "node_setup \<Rightarrow> ulong \<Rightarrow> ulong \<Rightarrow> bool" where
  "limits_ok \<sigma> ns ne \<longleftrightarrow> map_ok (zs_map \<sigma>) ns ne \<and> ns < 4096 \<and> ns \<le> zone_movable_pfn \<sigma> \<and> zone_movable_pfn \<sigma> \<noteq> 0
     \<and> arch_zone_lowest_possible_pfn \<sigma> 0 = ns \<and> arch_zone_highest_possible_pfn \<sigma> 0 = 4096
     \<and> arch_zone_lowest_possible_pfn \<sigma> 1 = 4096 \<and> 4096 \<le> arch_zone_highest_possible_pfn \<sigma> 1 \<and> ne \<le> arch_zone_highest_possible_pfn \<sigma> 1
     \<and> ne \<le> arch_zone_highest_possible_pfn \<sigma> (nat (movable_zone \<sigma>))"

lemma zone_cases: "j < MAX_NR_ZONES \<Longrightarrow> j = 0 \<or> j = 1 \<or> j = 2"
  by (auto simp: MAX_NR_ZONES_def)

lemma bound_mono:
  assumes "ns < ne" "ns < 4096" "ns \<le> mp" "j < MAX_NR_ZONES"
  shows "zone_bound ns ne mp j \<le> zone_bound ns ne mp (j + 1)"
  using zone_cases [OF assms(4)] assms by (auto simp: zone_bound_def min_le_iff_disj)

lemma zone_spanned:
  assumes lim: "limits_ok \<sigma> ns ne" and j: "j < MAX_NR_ZONES"
  shows "zone_spanned_pages_in_node \<sigma> j = zone_bound ns ne (zone_movable_pfn \<sigma>) (j + 1) - zone_bound ns ne (zone_movable_pfn \<sigma>) j"
proof -
  have ok: "map_ok (zs_map \<sigma>) ns ne" using lim by (simp add: limits_ok_def)
  note r = node_range [OF ok]
  show ?thesis
    using zone_cases [OF j] lim r(4)
    by (elim disjE; simp add: limits_ok_def zone_spanned_pages_in_node_def adjust_zone_range_for_zone_movable_def r(1) zone_bound_def ZONE_MOVABLE_def;
        auto simp: min_def max_def)
qed

lemma holes_empty [simp]: "holes m a a = {}"
  by (auto simp: holes_def)

lemma zone_absent:
  assumes lim: "limits_ok \<sigma> ns ne" and j: "j < MAX_NR_ZONES"
  shows "zone_absent_pages_in_node \<sigma> j = of_nat (card (holes (zs_map \<sigma>) (unat (zone_bound ns ne (zone_movable_pfn \<sigma>) j)) (unat (zone_bound ns ne (zone_movable_pfn \<sigma>) (j + 1)))))"
    (is "_ = of_nat (card (holes _ (unat ?a) (unat ?b)))")
proof -
  have ok: "map_ok (zs_map \<sigma>) ns ne" using lim by (simp add: limits_ok_def)
  note r = node_range [OF ok]
  have le: "?a \<le> ?b" using lim r(4) j by (intro bound_mono) (auto simp: limits_ok_def)
  let ?r = "adjust_zone_range_for_zone_movable \<sigma> j ns ne (max (arch_zone_lowest_possible_pfn \<sigma> j) ns, min (arch_zone_highest_possible_pfn \<sigma> j) ne)"
  have "fst ?r = ?a \<and> snd ?r = ?b \<or> ?a = ?b \<and> snd ?r \<le> fst ?r \<and> snd ?r \<le> ne"
    using zone_cases [OF j] lim r(4)
    by (elim disjE; simp add: limits_ok_def adjust_zone_range_for_zone_movable_def zone_bound_def ZONE_MOVABLE_def; auto simp: min_def max_def)
  moreover have "zone_absent_pages_in_node \<sigma> j = uu_absent_pages_in_range (zs_map \<sigma>) 0 (fst ?r) (snd ?r)"
    by (simp add: zone_absent_pages_in_node_def r(1) split: prod.splits)
  ultimately show ?thesis
    using absent_pages [OF ok] le by auto
qed

text \<open>The movable zone starts after nine tenths of the last zone, at a multiple of the largest block.\<close>

lemma movable_start:
  fixes lo hi :: ulong
  assumes "lo < hi" "hi \<le> 0x38000"
  defines "mp \<equiv> round_up (lo + (hi - lo) div 10 * 9) MAX_ORDER_NR_PAGES"
  shows "lo \<le> mp" "mp \<noteq> 0 \<or> lo = 0 \<and> hi < 10"
proof -
  have h: "unat lo < unat hi" "unat hi \<le> 0x38000" using assms(1,2) by (simp_all add: word_less_unat word_le_unat)
  have d: "unat (hi - lo) = unat hi - unat lo" using assms(1) by (intro unat_sub_le) (rule less_imp_le)
  have d9: "unat ((hi - lo) div 10 * 9) = (unat hi - unat lo) div 10 * 9"
    using h by (simp add: unat_word_ariths unat_div d)
  have x: "unat (lo + (hi - lo) div 10 * 9) = unat lo + (unat hi - unat lo) div 10 * 9"
    using h by (subst unat_add_no_wrap) (auto simp: d9)
  define y where "y = unat lo + (unat hi - unat lo) div 10 * 9"
  have y: "y \<le> 0x38000" using h unfolding y_def by linarith
  have k: "MAX_ORDER_NR_PAGES = 2 ^ 10" by (simp add: MAX_ORDER_NR_PAGES_def MAX_ORDER_def)
  have "(y + 1023) div 1024 * 1024 \<le> y + 1023" by simp
  also have "\<dots> < 2 ^ 32" using y by simp
  finally have m: "unat mp = (y + 1023) div 1024 * 1024"
    using round_up_pow2 [of 10 "lo + (hi - lo) div 10 * 9"] by (simp add: mp_def k x flip: y_def)
  have "a \<le> (a + 1023) div 1024 * 1024" for a :: nat
    using div_mult_mod_eq [of "a + 1023" 1024] mod_less_divisor [of 1024 "a + 1023"] by linarith
  then have "y \<le> unat mp" unfolding m .
  then show "lo \<le> mp" "mp \<noteq> 0 \<or> lo = 0 \<and> hi < 10"
    using h unfolding y_def by (auto simp: word_le_unat word_less_unat unat_eq_zero)
qed

definition max_zone_pfns :: "ulong \<Rightarrow> nat \<Rightarrow> ulong" where
  "max_zone_pfns low_pfn = (\<lambda>_. 0)(ZONE_DMA := drop_bit PAGE_SHIFT (MAX_DMA_ADDRESS - PAGE_OFFSET), ZONE_NORMAL := low_pfn)"

lemma max_zone_pfns: "max_zone_pfns low_pfn = (\<lambda>_. 0)(0 := 4096, 1 := low_pfn)"
  by (simp add: max_zone_pfns_def ZONE_DMA_def ZONE_NORMAL_def MAX_DMA_ADDRESS_def PAGE_SHIFT_def)

text \<open>The first frame of the movable zone: in the last zone that has frames.\<close>

definition movable_pfn :: "ulong \<Rightarrow> ulong \<Rightarrow> ulong" where
  "movable_pfn ns low_pfn =
     (let (lo, hi) = (if 4096 < low_pfn then (4096, low_pfn) else (ns, 4096)) in round_up (lo + (hi - lo) div 10 * 9) MAX_ORDER_NR_PAGES)"

lemma limits_set:
  assumes ok: "map_ok (sort_node_map (zs_map \<sigma>)) ns ne" and ns: "ns < 4096" and ne: "ne \<le> low_pfn" and low: "low_pfn \<le> 0x38000"
  obtains lo hi mz where
    "find_zone_movable_pfns_for_nodes ((zone_limits (max_zone_pfns low_pfn) (\<sigma>\<lparr>zs_map := sort_node_map (zs_map \<sigma>)\<rparr>))\<lparr>zone_movable_pfn := 0\<rparr>)
       = Some (\<sigma>\<lparr>zs_map := sort_node_map (zs_map \<sigma>), arch_zone_lowest_possible_pfn := lo, arch_zone_highest_possible_pfn := hi,
                 zone_movable_pfn := movable_pfn ns low_pfn, movable_zone := mz\<rparr>)"
    "limits_ok (\<sigma>\<lparr>zs_map := sort_node_map (zs_map \<sigma>), arch_zone_lowest_possible_pfn := lo, arch_zone_highest_possible_pfn := hi,
                 zone_movable_pfn := movable_pfn ns low_pfn, movable_zone := mz\<rparr>) ns ne"
proof -
  note r = node_range [OF ok]
  let ?lo = "(\<lambda>_. 0)(0 := ns, 1 := 4096, 2 := 0) :: nat \<Rightarrow> ulong" and ?hi = "(\<lambda>_. 0)(0 := 4096, 1 := max low_pfn 4096, 2 := 0) :: nat \<Rightarrow> ulong"
  let ?z = "(zone_limits (max_zone_pfns low_pfn) (\<sigma>\<lparr>zs_map := sort_node_map (zs_map \<sigma>)\<rparr>))\<lparr>zone_movable_pfn := 0\<rparr>"
  have u: "[Suc 0..<MAX_NR_ZONES] = [1, 2]" by (simp add: MAX_NR_ZONES_def upt_rec)
  have z: "?z = \<sigma>\<lparr>zs_map := sort_node_map (zs_map \<sigma>), arch_zone_lowest_possible_pfn := ?lo, arch_zone_highest_possible_pfn := ?hi, zone_movable_pfn := 0\<rparr>"
    by (simp add: zone_limits_def u ZONE_MOVABLE_def max_zone_pfns r(3) Let_def)
  define mz :: nat where "mz = (if 4096 < low_pfn then 1 else 0)"
  have mz: "usable_zone_loop ?z MAX_NR_ZONES = int mz"
    using ns by (simp add: z MAX_NR_ZONES_def numeral_3_eq_3 ZONE_MOVABLE_def mz_def less_max_iff_disj)
  have mpe: "movable_pfn ns low_pfn = round_up (?lo mz + (?hi mz - ?lo mz) div 10 * 9) MAX_ORDER_NR_PAGES"
    by (auto simp: movable_pfn_def mz_def max_def)
  define mp where "mp = round_up (?lo mz + (?hi mz - ?lo mz) div 10 * 9) MAX_ORDER_NR_PAGES"
  have f: "find_zone_movable_pfns_for_nodes ?z = Some (\<sigma>\<lparr>zs_map := sort_node_map (zs_map \<sigma>), arch_zone_lowest_possible_pfn := ?lo,
      arch_zone_highest_possible_pfn := ?hi, zone_movable_pfn := mp, movable_zone := int mz\<rparr>)" (is "_ = Some ?s")
    unfolding find_zone_movable_pfns_for_nodes_def find_usable_zone_for_movable_def mz by (simp add: z Let_def mp_def)
  have lt: "?lo mz < ?hi mz" "?hi mz \<le> 0x38000" "?lo mz \<noteq> 0 \<or> \<not> ?hi mz < 10"
    using ns low by (auto simp: mz_def)
  have m: "?lo mz \<le> mp" "mp \<noteq> 0" using movable_start [OF lt(1,2), folded mp_def] lt(3) by blast+
  have "ns \<le> ?lo mz" using ns by (auto simp: mz_def)
  then have nm: "ns \<le> mp" using m(1) by (rule order_trans)
  have "limits_ok ?s ns ne"
    using ok ns ne nm m(2) by (auto simp: limits_ok_def mz_def le_max_iff_disj intro: order_trans)
  then show ?thesis using that f unfolding mpe [folded mp_def] by blast
qed

section \<open>The wait table\<close>

lemma double_loop_returns:
  assumes "unat p \<le> 2 ^ 31" "k < 32"
  shows "\<exists>n. double_loop p (2 ^ k) = Some n"
  using assms(2)
proof (induction "32 - k" arbitrary: k)
  case (Suc d)
  show ?case
  proof (cases "(2 ^ k :: ulong) < p")
    case True
    then have "2 ^ k < unat p" using Suc.prems by (simp add: word_less_unat)
    then have "(2 :: nat) ^ k < 2 ^ 31" using assms(1) by simp
    then have k: "k < 31" by (rule power_less_imp_less_exp [rotated]) simp
    have "push_bit 1 (2 ^ k :: ulong) = 2 ^ Suc k" by (simp add: push_bit_eq_mult)
    moreover have "\<exists>n. double_loop p (2 ^ Suc k) = Some n" using Suc k by (intro Suc.hyps(1)) simp_all
    ultimately show ?thesis using True by (subst double_loop.simps) (simp del: power_Suc)
  qed (subst double_loop.simps, simp)
qed simp

lemma wait_entries: "\<exists>n. uu_wait_table_hash_nr_entries pages = Some n"
proof -
  have "unat (pages div PAGES_PER_WAITQUEUE) \<le> unat pages div 256" by (simp add: PAGES_PER_WAITQUEUE_def unat_div)
  also have "\<dots> \<le> 2 ^ 31" using unat_bound [of pages] by simp
  finally show ?thesis using double_loop_returns [of _ 0] by (fastforce simp: uu_wait_table_hash_nr_entries_def Let_def)
qed

section \<open>The page frames\<close>

lemma memmap_page:
  assumes "j < MAX_NR_ZONES"
  shows "page_zonenum (memmap_page j p) = j" "page_zone_id (memmap_page j p) = j" "pg_count (memmap_page j p) = 1"
    "test_page_flag PG_reserved (memmap_page j p)" "pg_mapcount (memmap_page j p) = -1" "\<not> PageBuddy (memmap_page j p)"
proof -
  show z: "page_zonenum (memmap_page j p) = j"
    using page_links_roundtrip [of j p 0] assms
    by (simp add: memmap_page_def SetPageReserved_def init_page_count_def reset_page_mapcount_def MAX_NR_ZONES_def PG_reserved_def)
  then show "page_zone_id (memmap_page j p) = j" by (simp add: page_zone_id_num)
  show "pg_count (memmap_page j p) = 1" "test_page_flag PG_reserved (memmap_page j p)" and m: "pg_mapcount (memmap_page j p) = -1"
    by (simp_all add: memmap_page_def SetPageReserved_def init_page_count_def reset_page_mapcount_def set_page_flag_def test_page_flag_def PG_reserved_def bit_simps)
  show "\<not> PageBuddy (memmap_page j p)" by (simp add: PageBuddy_def m PAGE_BUDDY_MAPCOUNT_VALUE_def)
qed

definition start_type :: "bool \<Rightarrow> nat" where "start_type pgmd = (if pgmd then MIGRATE_UNMOVABLE else MIGRATE_MOVABLE)"

lemma start_type: "start_type pgmd < MIGRATE_TYPES" "MIGRATE_UNMOVABLE < MIGRATE_TYPES"
  by (simp_all add: start_type_def migratetypes)

lemma set_migratetype_fields:
  "zone_start_pfn (set_pageblock_migratetype g z q t) = zone_start_pfn z" "spanned_pages (set_pageblock_migratetype g z q t) = spanned_pages z"
  "set_pageblock_migratetype g z q t = z\<lparr>pageblock_flags := pageblock_flags (set_pageblock_migratetype g z q t)\<rparr>"
  by (simp_all add: set_pageblock_migratetype_def set_pageblock_flags_group_def Let_def)

lemma pageblock_aligned: "(p :: ulong) AND (word_of_nat pageblock_nr_pages - 1) = 0 \<longleftrightarrow> 1024 dvd unat p"
proof -
  have "(word_of_nat pageblock_nr_pages - 1 :: ulong) = mask 10" by (simp add: pageblock_consts mask_eq_exp_minus_1)
  then have "p AND (word_of_nat pageblock_nr_pages - 1) = take_bit 10 p" by (simp only: take_bit_eq_mask)
  moreover have "unat (take_bit 10 p) = unat p mod 1024" by (simp add: unat_take_bit_word)
  ultimately show ?thesis by (simp add: dvd_eq_mod_eq_0 word_eq_unat)
qed

lemma memmap_loop_spec:
  assumes "j < MAX_NR_ZONES" "st \<le> en" "\<And>p. st \<le> p \<Longrightarrow> p < en \<Longrightarrow> PAGE_OFFSET \<le> frame_ptr \<sigma> p" "usemap \<sigma> j \<noteq> 0"
    "zone_start_pfn (node_zones \<sigma> j) \<le> st" "\<And>p. p < en \<Longrightarrow> p < zone_start_pfn (node_zones \<sigma> j) + spanned_pages (node_zones \<sigma> j)"
  shows "\<exists>b. memmap_loop j st en \<sigma> = Some (\<sigma>\<lparr>zs_frames := (\<lambda>q. if unat st \<le> q \<and> q < unat en then memmap_page j (zs_frames \<sigma> q) else zs_frames \<sigma> q),
        node_zones := (node_zones \<sigma>)(j := (node_zones \<sigma> j)\<lparr>pageblock_flags := b\<rparr>)\<rparr>)
    \<and> (\<forall>q. let t = get_pageblock_migratetype ((node_zones \<sigma> j)\<lparr>pageblock_flags := b\<rparr>) q
           in (t = start_type (zs_pgmd \<sigma>) \<or> \<not> (unat st \<le> q \<and> q < unat en \<and> 1024 dvd q) \<and> t = get_pageblock_migratetype (node_zones \<sigma> j) q))"
  using assms(2-)
proof (induction "unat en - unat st" arbitrary: st \<sigma>)
  case 0
  then have e: "st = en" by (simp add: word_le_unat word_eq_unat)
  have f: "(\<lambda>q. if unat en \<le> q \<and> q < unat en then memmap_page j (zs_frames \<sigma> q) else zs_frames \<sigma> q) = zs_frames \<sigma>" by (rule ext) auto
  show ?case unfolding e f by (rule exI [of _ "pageblock_flags (node_zones \<sigma> j)"]) (simp add: memmap_loop.simps Let_def fun_upd_idem)
next
  case (Suc n)
  then have lt: "unat st < unat en" by simp
  then have s1: "unat (st + 1) = unat st + 1" using unat_bound [of en] by (subst unat_add_no_wrap) simp_all
  define \<sigma>1 where "\<sigma>1 = \<sigma>\<lparr>zs_frames := (zs_frames \<sigma>)(unat st := memmap_page j (zs_frames \<sigma> (unat st)))\<rparr>"
  let ?al = "st AND (word_of_nat pageblock_nr_pages - 1) = 0"
  define z1 where "z1 = (if ?al then set_pageblock_migratetype (zs_pgmd \<sigma>) (node_zones \<sigma> j) (unat st) MIGRATE_MOVABLE else node_zones \<sigma> j)"
  define \<sigma>2 where "\<sigma>2 = \<sigma>1\<lparr>node_zones := (node_zones \<sigma>)(j := z1)\<rparr>"
  have zf: "zone_start_pfn z1 = zone_start_pfn (node_zones \<sigma> j)" "spanned_pages z1 = spanned_pages (node_zones \<sigma> j)"
    "z1 = (node_zones \<sigma> j)\<lparr>pageblock_flags := pageblock_flags z1\<rparr>"
    using set_migratetype_fields [of "zs_pgmd \<sigma>" "node_zones \<sigma> j" "unat st" MIGRATE_MOVABLE] by (auto simp: z1_def)
  have l: "st < en" using lt by (simp add: word_less_unat)
  have id: "\<sigma>\<lparr>zs_frames := f, node_zones := node_zones \<sigma>\<rparr> = \<sigma>\<lparr>zs_frames := f\<rparr>" for f by (cases \<sigma>) simp
  have step: "memmap_loop j st en \<sigma> = memmap_loop j (st + 1) en \<sigma>2"
    using Suc.prems(2) [of st] Suc.prems(3,4) Suc.prems(5) [of st] l memmap_page(1) [OF assms(1)]
    by (subst memmap_loop.simps) (simp add: Let_def z1_def \<sigma>1_def \<sigma>2_def upd_zone_def leD id)
  have pre: "st + 1 \<le> en" "\<And>p. st + 1 \<le> p \<Longrightarrow> p < en \<Longrightarrow> PAGE_OFFSET \<le> frame_ptr \<sigma>2 p" "usemap \<sigma>2 j \<noteq> 0"
    "zone_start_pfn (node_zones \<sigma>2 j) \<le> st + 1" "\<And>p. p < en \<Longrightarrow> p < zone_start_pfn (node_zones \<sigma>2 j) + spanned_pages (node_zones \<sigma>2 j)"
  proof -
    have g: "st \<le> p" if "st + 1 \<le> p" for p using that s1 by (simp add: word_le_unat)
    show "st + 1 \<le> en" using s1 lt by (simp add: word_le_unat)
    show "PAGE_OFFSET \<le> frame_ptr \<sigma>2 p" if "st + 1 \<le> p" "p < en" for p
      using Suc.prems(2) [OF g that(2)] that(1) by (simp add: frame_ptr_def \<sigma>2_def \<sigma>1_def)
    show "usemap \<sigma>2 j \<noteq> 0" using Suc.prems(3) by (simp add: \<sigma>2_def \<sigma>1_def)
    show "zone_start_pfn (node_zones \<sigma>2 j) \<le> st + 1" using Suc.prems(4) g [OF order_refl] by (simp add: \<sigma>2_def \<sigma>1_def zf(1) order_trans)
    show "p < zone_start_pfn (node_zones \<sigma>2 j) + spanned_pages (node_zones \<sigma>2 j)" if "p < en" for p
      using Suc.prems(5) [OF that] by (simp add: \<sigma>2_def \<sigma>1_def zf(1,2))
  qed
  have "n = unat en - unat (st + 1)" using Suc.hyps(2) s1 by simp
  then obtain b where b: "memmap_loop j (st + 1) en \<sigma>2 = Some (\<sigma>2\<lparr>zs_frames := (\<lambda>q. if unat (st + 1) \<le> q \<and> q < unat en then memmap_page j (zs_frames \<sigma>2 q) else zs_frames \<sigma>2 q),
        node_zones := (node_zones \<sigma>2)(j := (node_zones \<sigma>2 j)\<lparr>pageblock_flags := b\<rparr>)\<rparr>)"
    "\<And>q. let t = get_pageblock_migratetype ((node_zones \<sigma>2 j)\<lparr>pageblock_flags := b\<rparr>) q
           in (t = start_type (zs_pgmd \<sigma>2) \<or> \<not> (unat (st + 1) \<le> q \<and> q < unat en \<and> 1024 dvd q) \<and> t = get_pageblock_migratetype (node_zones \<sigma>2 j) q)"
    using Suc.hyps(1) [OF _ pre] by blast
  have fr: "(\<lambda>q. if unat (st + 1) \<le> q \<and> q < unat en then memmap_page j (zs_frames \<sigma>2 q) else zs_frames \<sigma>2 q)
      = (\<lambda>q. if unat st \<le> q \<and> q < unat en then memmap_page j (zs_frames \<sigma> q) else zs_frames \<sigma> q)"
    using lt by (auto simp: fun_eq_iff s1 \<sigma>2_def \<sigma>1_def)
  have zb: "(node_zones \<sigma>2 j)\<lparr>pageblock_flags := b\<rparr> = (node_zones \<sigma> j)\<lparr>pageblock_flags := b\<rparr>"
    using arg_cong [OF zf(3), of "\<lambda>z. z\<lparr>pageblock_flags := b\<rparr>"] by (simp add: \<sigma>2_def)
  have al: "?al \<longleftrightarrow> 1024 dvd unat st" by (rule pageblock_aligned)
  have ty: "get_pageblock_migratetype z1 q = start_type (zs_pgmd \<sigma>) \<or> (q = unat st \<longrightarrow> \<not> 1024 dvd q) \<and> get_pageblock_migratetype z1 q = get_pageblock_migratetype (node_zones \<sigma> j) q" for q
    using migratetype_set [of MIGRATE_MOVABLE "zs_pgmd \<sigma>" "node_zones \<sigma> j" "unat st" q] al by (auto simp: z1_def start_type_def migratetypes)
  have "\<forall>q. let t = get_pageblock_migratetype ((node_zones \<sigma> j)\<lparr>pageblock_flags := b\<rparr>) q
           in (t = start_type (zs_pgmd \<sigma>) \<or> \<not> (unat st \<le> q \<and> q < unat en \<and> 1024 dvd q) \<and> t = get_pageblock_migratetype (node_zones \<sigma> j) q)"
  proof
    fix q
    show "let t = get_pageblock_migratetype ((node_zones \<sigma> j)\<lparr>pageblock_flags := b\<rparr>) q
           in (t = start_type (zs_pgmd \<sigma>) \<or> \<not> (unat st \<le> q \<and> q < unat en \<and> 1024 dvd q) \<and> t = get_pageblock_migratetype (node_zones \<sigma> j) q)"
      using b(2) [of q] ty [of q] unfolding zb Let_def s1 by (cases "q = unat st") (auto simp: \<sigma>2_def \<sigma>1_def)
  qed
  moreover have "\<sigma>2\<lparr>zs_frames := f, node_zones := (node_zones \<sigma>2)(j := y)\<rparr> = \<sigma>\<lparr>zs_frames := f, node_zones := (node_zones \<sigma>)(j := y)\<rparr>" for f y
    by (simp add: \<sigma>2_def \<sigma>1_def)
  ultimately show ?case using b(1) unfolding step fr zb by auto
qed

section \<open>One zone\<close>

text \<open>What the set-up of the zones does not change.\<close>

definition same_setup :: "node_setup \<Rightarrow> node_setup \<Rightarrow> bool" where
  "same_setup \<sigma> \<sigma>' \<longleftrightarrow> zs_map \<sigma>' = zs_map \<sigma> \<and> zs_slab \<sigma>' = zs_slab \<sigma> \<and> zs_kzalloc \<sigma>' = zs_kzalloc \<sigma> \<and> zs_pgmd \<sigma>' = zs_pgmd \<sigma>
     \<and> arch_zone_lowest_possible_pfn \<sigma>' = arch_zone_lowest_possible_pfn \<sigma> \<and> arch_zone_highest_possible_pfn \<sigma>' = arch_zone_highest_possible_pfn \<sigma>
     \<and> zone_movable_pfn \<sigma>' = zone_movable_pfn \<sigma> \<and> movable_zone \<sigma>' = movable_zone \<sigma> \<and> dma_reserve \<sigma>' = dma_reserve \<sigma>
     \<and> mem_map_ptr \<sigma>' = mem_map_ptr \<sigma>"

lemma same_setup_trans: "same_setup \<sigma> \<sigma>1 \<Longrightarrow> same_setup \<sigma>1 \<sigma>2 \<Longrightarrow> same_setup \<sigma> \<sigma>2"
  by (simp add: same_setup_def)

lemma same_setup_ranges:
  assumes "same_setup \<sigma> \<sigma>'"
  shows "zone_spanned_pages_in_node \<sigma>' = zone_spanned_pages_in_node \<sigma>" "zone_absent_pages_in_node \<sigma>' = zone_absent_pages_in_node \<sigma>"
    "limits_ok \<sigma>' = limits_ok \<sigma>" "frame_ptr \<sigma>' = frame_ptr \<sigma>"
proof -
  note eqs = assms [unfolded same_setup_def, THEN conjunct1] assms [unfolded same_setup_def, THEN conjunct2]
  have adj: "adjust_zone_range_for_zone_movable \<sigma>' = adjust_zone_range_for_zone_movable \<sigma>"
    by (intro ext) (simp only: adjust_zone_range_for_zone_movable_def eqs)
  show "zone_spanned_pages_in_node \<sigma>' = zone_spanned_pages_in_node \<sigma>" "zone_absent_pages_in_node \<sigma>' = zone_absent_pages_in_node \<sigma>"
    "limits_ok \<sigma>' = limits_ok \<sigma>" "frame_ptr \<sigma>' = frame_ptr \<sigma>"
    by (intro ext, simp only: zone_spanned_pages_in_node_def zone_absent_pages_in_node_def adj limits_ok_def frame_ptr_def eqs)+
qed

text \<open>The addresses that a sequence of requests to the boot allocator returns.\<close>

definition boot_ptr :: "node_setup \<Rightarrow> ulong \<Rightarrow> ulong" where "boot_ptr \<sigma> x = snd (alloc_bootmem_node_nopanic \<sigma> x)"
definition boot_mb :: "node_setup \<Rightarrow> ulong \<Rightarrow> memblock" where "boot_mb \<sigma> x = zs_mb (fst (alloc_bootmem_node_nopanic \<sigma> x))"

primrec boot_ptrs :: "node_setup \<Rightarrow> ulong list \<Rightarrow> ulong list" where
  "boot_ptrs \<sigma> [] = []"
| "boot_ptrs \<sigma> (x # xs) = boot_ptr \<sigma> x # boot_ptrs (\<sigma>\<lparr>zs_mb := boot_mb \<sigma> x\<rparr>) xs"

lemma alloc_bootmem: "alloc_bootmem_node_nopanic \<sigma> x = (\<sigma>\<lparr>zs_mb := boot_mb \<sigma> x\<rparr>, boot_ptr \<sigma> x)"
  by (simp add: boot_mb_def boot_ptr_def alloc_bootmem_node_nopanic_def split: prod.splits)

definition same_boot :: "node_setup \<Rightarrow> node_setup \<Rightarrow> bool" where
  "same_boot \<sigma> \<sigma>' \<longleftrightarrow> zs_map \<sigma>' = zs_map \<sigma> \<and> zs_slab \<sigma>' = zs_slab \<sigma> \<and> zs_kzalloc \<sigma>' = zs_kzalloc \<sigma> \<and> zs_mb \<sigma>' = zs_mb \<sigma>"

lemma boot_cong: "same_boot \<sigma> \<sigma>' \<Longrightarrow> boot_ptr \<sigma>' x = boot_ptr \<sigma> x \<and> boot_mb \<sigma>' x = boot_mb \<sigma> x"
  by (simp add: same_boot_def boot_ptr_def boot_mb_def alloc_bootmem_node_nopanic_def split: prod.splits)

lemma boot_ptrs_cong: "same_boot \<sigma> \<sigma>' \<Longrightarrow> boot_ptrs \<sigma>' xs = boot_ptrs \<sigma> xs"
proof (induction xs arbitrary: \<sigma> \<sigma>')
  case (Cons x xs)
  have "same_boot (\<sigma>\<lparr>zs_mb := boot_mb \<sigma> x\<rparr>) (\<sigma>'\<lparr>zs_mb := boot_mb \<sigma>' x\<rparr>)"
    using Cons.prems boot_cong [OF Cons.prems] by (simp add: same_boot_def)
  then show ?case using Cons.IH boot_cong [OF Cons.prems] by simp
qed simp

text \<open>The requests for a zone of \<open>sz\<close> frames.\<close>

definition wait_table_size :: "ulong \<Rightarrow> ulong" where
  "wait_table_size sz = the (uu_wait_table_hash_nr_entries sz) * sizeof_wait_queue_head"

definition zone_requests :: "ulong \<Rightarrow> ulong list" where
  "zone_requests sz = (if sz = 0 then [] else [usemap_size sz, wait_table_size sz])"

text \<open>The number of pages of a zone, less those that the page frames of the zone take and those that are kept back in the first zone.\<close>

definition present_count :: "nat \<Rightarrow> nat \<Rightarrow> nat \<Rightarrow> nat \<Rightarrow> nat" where
  "present_count dma j n nh =
     (let s = n - nh; frames = (n * 32 + 4095) div 4096; r = (if s \<ge> frames then s - frames else s)
      in if j = 0 \<and> r > dma then r - dma else r)"

text \<open>A zone whose free lists are empty.\<close>

definition empty_lists :: "zone \<Rightarrow> bool" where
  "empty_lists z \<longleftrightarrow> (\<forall>k<MAX_ORDER. (\<forall>t<MIGRATE_TYPES. free_list z k t = []) \<and> nr_free z k = 0)"

lemma fold_clear: "fold (\<lambda>t l. l(t := [])) ts l t = (if t \<in> set ts then [] else l t)"
  by (induction ts arbitrary: l) auto

lemma zone_init_free_lists:
  "empty_lists (zone_init_free_lists z)" "zone_init_free_lists z = z\<lparr>free_list := free_list (zone_init_free_lists z), nr_free := nr_free (zone_init_free_lists z)\<rparr>"
proof -
  define clr :: "(nat \<Rightarrow> nat list) \<Rightarrow> nat \<Rightarrow> nat list" where "clr l = fold (\<lambda>t l. l(t := [])) [0..<MIGRATE_TYPES] l" for l
  have clr: "clr l t = []" if "t < MIGRATE_TYPES" for l t using that unfolding clr_def fold_clear by simp
  define f where "f k z = z\<lparr>free_list := (free_list z)(k := clr (free_list z k)), nr_free := (nr_free z)(k := 0)\<rparr>" for k and z :: zone
  have "(k \<in> set ks \<longrightarrow> (\<forall>t<MIGRATE_TYPES. free_list (fold f ks z) k t = []) \<and> nr_free (fold f ks z) k = 0)
      \<and> fold f ks z = z\<lparr>free_list := free_list (fold f ks z), nr_free := nr_free (fold f ks z)\<rparr>" for k ks
  proof (induction ks rule: rev_induct)
    case (snoc x ks)
    define y where "y = fold f ks z"
    have y: "y = z\<lparr>free_list := free_list y, nr_free := nr_free y\<rparr>" "k \<in> set ks \<Longrightarrow> (\<forall>t<MIGRATE_TYPES. free_list y k t = []) \<and> nr_free y k = 0"
      using snoc unfolding y_def by blast+
    have r: "y\<lparr>free_list := a, nr_free := b\<rparr> = z\<lparr>free_list := a, nr_free := b\<rparr>" for a b
      using arg_cong [OF y(1), of "\<lambda>z. z\<lparr>free_list := a, nr_free := b\<rparr>"] by simp
    have e: "fold f (ks @ [x]) z = y\<lparr>free_list := (free_list y)(x := clr (free_list y x)), nr_free := (nr_free y)(x := 0)\<rparr>" by (simp add: y_def f_def)
    show ?case using y(2) unfolding e r by (auto simp: clr fun_upd_def)
  qed simp
  moreover have "zone_init_free_lists z = fold f [0..<MAX_ORDER] z" unfolding zone_init_free_lists_def f_def clr_def by (rule refl)
  ultimately show "empty_lists (zone_init_free_lists z)"
    "zone_init_free_lists z = z\<lparr>free_list := free_list (zone_init_free_lists z), nr_free := nr_free (zone_init_free_lists z)\<rparr>"
    unfolding empty_lists_def by auto
qed

lemma empty_lists_inv:
  assumes "zone_ok m z" "empty_lists z" "\<And>q. page_zone_id (m q) = zone_num z \<Longrightarrow> \<not> PageBuddy (m q)"
  shows "buddy_inv m z" "free_pages z = {}"
proof -
  have fl: "fl z k = []" if "k < MAX_ORDER" for k using assms(2) that by (simp add: empty_lists_def fl_def)
  then have "fb z = {}" by (auto simp: fb_def)
  then show "buddy_inv m z" "free_pages z = {}"
    using assms fl by (auto intro!: buddy_invI simp: free_pages_def empty_lists_def)
qed

lemma usemap_size_nat:
  assumes "unat sz \<le> 0x38000"
  shows "unat (usemap_size sz) = ((unat sz + 1023) div 1024 * 3 + 31) div 32 * 4"
proof -
  define b where "b = (unat sz + 1023) div 1024"
  have b: "b \<le> 225" using assms unfolding b_def by simp
  have "unat (sz + 1023) = unat sz + 1023" using assms by (subst unat_add_no_wrap) simp_all
  then have "unat (roundup sz 1024) = b * 1024" using b by (simp add: roundup_def unat_word_ariths unat_div b_def)
  then have d: "unat (drop_bit 10 (roundup sz 1024)) = b" by (simp add: drop_bit_eq_div unat_div)
  define x where "x = drop_bit 10 (roundup sz 1024) * 3"
  have x: "unat x = b * 3" using b by (simp add: x_def unat_word_ariths d)
  have "unat (x + 31) = b * 3 + 31" using b x by (subst unat_add_no_wrap) simp_all
  then have "unat (roundup x 32) = (b * 3 + 31) div 32 * 32" using b by (simp add: roundup_def unat_word_ariths unat_div)
  moreover have "usemap_size sz = roundup x 32 div 8" by (simp add: usemap_size_def pageblock_consts x_def Let_def)
  ultimately show ?thesis by (simp add: unat_div b_def)
qed

primrec boot_after :: "node_setup \<Rightarrow> ulong list \<Rightarrow> memblock" where
  "boot_after \<sigma> [] = zs_mb \<sigma>"
| "boot_after \<sigma> (x # xs) = boot_after (\<sigma>\<lparr>zs_mb := boot_mb \<sigma> x\<rparr>) xs"

lemma boot_ptrs_append: "boot_ptrs \<sigma> (xs @ ys) = boot_ptrs \<sigma> xs @ boot_ptrs (\<sigma>\<lparr>zs_mb := boot_after \<sigma> xs\<rparr>) ys"
  by (induction xs arbitrary: \<sigma>) simp_all

lemma boot_after_cong: "same_boot \<sigma> \<sigma>' \<Longrightarrow> boot_after \<sigma>' xs = boot_after \<sigma> xs"
proof (induction xs arbitrary: \<sigma> \<sigma>')
  case (Cons x xs)
  have "same_boot (\<sigma>\<lparr>zs_mb := boot_mb \<sigma> x\<rparr>) (\<sigma>'\<lparr>zs_mb := boot_mb \<sigma>' x\<rparr>)"
    using Cons.prems boot_cong [OF Cons.prems] by (simp add: same_boot_def)
  then show ?case using Cons.IH by simp
qed (simp add: same_boot_def)

text \<open>A zone as its set-up leaves it: \<open>n\<close> pages are present, the free lists are empty, and the page blocks that start in the zone
  have their first type.\<close>

definition zone_made :: "bool \<Rightarrow> zone \<Rightarrow> zone \<Rightarrow> ulong \<Rightarrow> ulong \<Rightarrow> bool" where
  "zone_made pgmd z z' st sz \<longleftrightarrow> zone_num z' = zone_num z \<and> zone_start_pfn z' = st \<and> spanned_pages z' = sz \<and> nr_free_pages z' = 0 \<and> empty_lists z'
     \<and> (\<forall>q. get_pageblock_migratetype z' q = start_type pgmd \<or> get_pageblock_migratetype z' q = MIGRATE_UNMOVABLE)
     \<and> (\<forall>q\<in>span z'. 1024 dvd q \<longrightarrow> get_pageblock_migratetype z' q = start_type pgmd)"

definition realsize :: "node_setup \<Rightarrow> nat \<Rightarrow> ulong" where
  "realsize \<sigma> j =
     (let sz = zone_spanned_pages_in_node \<sigma> j; r = sz - zone_absent_pages_in_node \<sigma> j;
          p = drop_bit PAGE_SHIFT (PAGE_ALIGN (sz * sizeof_page));
          r = (if r \<ge> p then r - p else r)
      in if j = 0 \<and> r > dma_reserve \<sigma> then r - dma_reserve \<sigma> else r)"

definition zone_entered :: "node_setup \<Rightarrow> nat \<Rightarrow> node_setup" where
  "zone_entered \<sigma> j = upd_zone (\<sigma>\<lparr>nr_kernel_pages := nr_kernel_pages \<sigma> + realsize \<sigma> j, nr_all_pages := nr_all_pages \<sigma> + realsize \<sigma> j\<rparr>) j
     (\<lambda>z. z\<lparr>spanned_pages := zone_spanned_pages_in_node \<sigma> j, present_pages := realsize \<sigma> j, nr_free_pages := 0, nr_mlock := 0\<rparr>)"

lemma init_zone_unfold:
  "init_zone \<sigma> j zst =
     (if zone_spanned_pages_in_node \<sigma> j = 0 then Some (zone_entered \<sigma> j, zst)
      else do {
        (\<sigma>', _) \<leftarrow> init_currently_empty_zone (setup_usemap (zone_entered \<sigma> j) j (zone_spanned_pages_in_node \<sigma> j)) j zst (zone_spanned_pages_in_node \<sigma> j);
        \<sigma>' \<leftarrow> memmap_init_zone \<sigma>' (zone_spanned_pages_in_node \<sigma> j) j zst;
        Some (\<sigma>', zst + zone_spanned_pages_in_node \<sigma> j) })"
  unfolding init_zone_def zone_entered_def realsize_def Let_def by simp

lemma zone_entered_same:
  "same_setup \<sigma> (zone_entered \<sigma> j)" "same_boot \<sigma> (zone_entered \<sigma> j)" "zs_frames (zone_entered \<sigma> j) = zs_frames \<sigma>"
  "i \<noteq> j \<Longrightarrow> node_zones (zone_entered \<sigma> j) i = node_zones \<sigma> i"
  "node_zones (zone_entered \<sigma> j) j = (node_zones \<sigma> j)\<lparr>spanned_pages := zone_spanned_pages_in_node \<sigma> j, present_pages := realsize \<sigma> j, nr_free_pages := 0, nr_mlock := 0\<rparr>"
  by (simp_all add: zone_entered_def upd_zone_def same_setup_def same_boot_def)

text \<open>The zone and its tables, before the page frames are written.\<close>

lemma empty_zone_made:
  assumes "\<not> zs_slab \<sigma>" "usemap_size sz \<noteq> 0" "boot_ptr \<sigma> (usemap_size sz) \<noteq> 0"
    "boot_ptr (\<sigma>\<lparr>zs_mb := boot_mb \<sigma> (usemap_size sz)\<rparr>) (wait_table_size sz) \<noteq> 0"
  obtains \<sigma>' where "init_currently_empty_zone (setup_usemap \<sigma> j sz) j zst sz = Some (\<sigma>', 0)" "same_setup \<sigma> \<sigma>'" "usemap \<sigma>' j \<noteq> 0"
    "zs_frames \<sigma>' = zs_frames \<sigma>" "zs_mb \<sigma>' = boot_after \<sigma> [usemap_size sz, wait_table_size sz]"
    "node_zones \<sigma>' = (node_zones \<sigma>)(j := zone_init_free_lists ((node_zones \<sigma> j)\<lparr>pageblock_flags := (\<lambda>_. False), zone_start_pfn := zst\<rparr>))"
proof -
  define p where "p = boot_ptr \<sigma> (usemap_size sz)"
  define mb1 where "mb1 = boot_mb \<sigma> (usemap_size sz)"
  define \<sigma>1 where "\<sigma>1 = setup_usemap \<sigma> j sz"
  have s1: "\<sigma>1 = \<sigma>\<lparr>usemap := (usemap \<sigma>)(j := p), zs_mb := mb1, node_zones := (node_zones \<sigma>)(j := (node_zones \<sigma> j)\<lparr>pageblock_flags := (\<lambda>_. False)\<rparr>)\<rparr>"
    using assms(2) boot_cong [of \<sigma> "\<sigma>\<lparr>usemap := (usemap \<sigma>)(j := 0)\<rparr>" "usemap_size sz"]
    by (simp add: \<sigma>1_def setup_usemap_def alloc_bootmem p_def mb1_def Let_def same_boot_def upd_zone_def)
  obtain n where n: "uu_wait_table_hash_nr_entries sz = Some n" using wait_entries by blast
  have w: "wait_table_size sz = n * sizeof_wait_queue_head" by (simp add: wait_table_size_def n)
  define \<sigma>2 where "\<sigma>2 = \<sigma>1\<lparr>wait_table_hash_nr_entries := (wait_table_hash_nr_entries \<sigma>1)(j := n), wait_table_bits := (wait_table_bits \<sigma>1)(j := uu_wait_table_bits n)\<rparr>"
  define q where "q = boot_ptr (\<sigma>\<lparr>zs_mb := mb1\<rparr>) (wait_table_size sz)"
  define mb2 where "mb2 = boot_mb (\<sigma>\<lparr>zs_mb := mb1\<rparr>) (wait_table_size sz)"
  have b2: "boot_ptr \<sigma>2 (n * sizeof_wait_queue_head) = q" "boot_mb \<sigma>2 (n * sizeof_wait_queue_head) = mb2"
    using boot_cong [of "\<sigma>\<lparr>zs_mb := mb1\<rparr>" \<sigma>2 "wait_table_size sz"] by (simp_all add: same_boot_def \<sigma>2_def s1 w q_def mb2_def)
  have q0: "q \<noteq> 0" using assms(4) by (simp add: q_def mb1_def)
  have slab: "\<not> zs_slab \<sigma>1" using assms(1) by (simp add: s1)
  define \<sigma>3 where "\<sigma>3 = \<sigma>2\<lparr>zs_mb := mb2, wait_table := (wait_table \<sigma>1)(j := q)\<rparr>"
  have "zone_wait_table_init \<sigma>1 j sz = Some (\<sigma>3, 0)"
    by (simp add: zone_wait_table_init_def n alloc_bootmem Let_def \<sigma>3_def slab q0 b2 flip: \<sigma>2_def)
  then have i: "init_currently_empty_zone \<sigma>1 j zst sz = Some (upd_zone (\<sigma>3\<lparr>nr_zones := j + 1\<rparr>) j (\<lambda>z. zone_init_free_lists (z\<lparr>zone_start_pfn := zst\<rparr>)), 0)"
    by (simp add: init_currently_empty_zone_def)
  show ?thesis
    by (rule that [OF i [unfolded \<sigma>1_def]])
      (use assms(3) in \<open>simp_all add: same_setup_def upd_zone_def \<sigma>3_def \<sigma>2_def s1 p_def mb2_def mb1_def\<close>)
qed

lemma init_zone_nonempty:
  fixes \<sigma> :: node_setup and j :: nat
  defines "sz \<equiv> zone_spanned_pages_in_node \<sigma> j"
  assumes j: "j < MAX_NR_ZONES" and slab: "\<not> zs_slab \<sigma>" and sz: "sz \<noteq> 0" "unat sz \<le> 0x38000" and nw: "unat zst + unat sz < 2 ^ 32"
    and ptrs: "0 \<notin> set (boot_ptrs \<sigma> (zone_requests sz))" and fr: "\<And>p. zst \<le> p \<Longrightarrow> p < zst + sz \<Longrightarrow> PAGE_OFFSET \<le> frame_ptr \<sigma> p"
  obtains \<sigma>' where "init_zone \<sigma> j zst = Some (\<sigma>', zst + sz)" "same_setup \<sigma> \<sigma>'" "zs_mb \<sigma>' = boot_after \<sigma> (zone_requests sz)"
    "zs_frames \<sigma>' = (\<lambda>q. if unat zst \<le> q \<and> q < unat (zst + sz) then memmap_page j (zs_frames \<sigma> q) else zs_frames \<sigma> q)"
    "\<And>i. i \<noteq> j \<Longrightarrow> node_zones \<sigma>' i = node_zones \<sigma> i"
    "zone_made (zs_pgmd \<sigma>) (node_zones \<sigma> j) (node_zones \<sigma>' j) zst sz" "present_pages (node_zones \<sigma>' j) = realsize \<sigma> j"
proof -
  let ?e = "zone_entered \<sigma> j"
  note e = zone_entered_same [where \<sigma> = \<sigma> and j = j]
  have u0: "usemap_size sz \<noteq> 0"
  proof -
    have "0 < unat sz" using sz(1) by (simp add: unat_gt_0)
    then have "0 < unat (usemap_size sz)" unfolding usemap_size_nat [OF sz(2)] by (simp add: div_greater_zero_iff)
    then show ?thesis by (simp add: unat_gt_0)
  qed
  have p: "boot_ptr ?e (usemap_size sz) \<noteq> 0" "boot_ptr (?e\<lparr>zs_mb := boot_mb ?e (usemap_size sz)\<rparr>) (wait_table_size sz) \<noteq> 0"
    using ptrs sz(1) boot_ptrs_cong [OF e(2), of "zone_requests sz"] by (auto simp: zone_requests_def)
  have sl: "\<not> zs_slab ?e" using slab e(1) by (simp add: same_setup_def)
  obtain \<sigma>1 where s1: "init_currently_empty_zone (setup_usemap ?e j sz) j zst sz = Some (\<sigma>1, 0)" "same_setup ?e \<sigma>1" "usemap \<sigma>1 j \<noteq> 0"
      "zs_frames \<sigma>1 = zs_frames ?e" "zs_mb \<sigma>1 = boot_after ?e [usemap_size sz, wait_table_size sz]"
      "node_zones \<sigma>1 = (node_zones ?e)(j := zone_init_free_lists ((node_zones ?e j)\<lparr>pageblock_flags := (\<lambda>_. False), zone_start_pfn := zst\<rparr>))"
    by (rule empty_zone_made [OF sl u0 p])
  define z0 where "z0 = (node_zones ?e j)\<lparr>pageblock_flags := (\<lambda>_. False), zone_start_pfn := zst\<rparr>"
  define z where "z = node_zones \<sigma>1 j"
  have zi: "z = zone_init_free_lists z0" by (simp add: z_def s1(6) z0_def)
  obtain f n where ze: "z = z0\<lparr>free_list := f, nr_free := n\<rparr>" using zone_init_free_lists(2) [of z0] unfolding zi by metis
  have z: "zone_num z = zone_num (node_zones \<sigma> j)" "zone_start_pfn z = zst" "spanned_pages z = sz" "pageblock_flags z = (\<lambda>_. False)"
    "nr_free_pages z = 0" "present_pages z = realsize \<sigma> j"
    by (simp_all add: ze z0_def e(5) sz_def)
  have el: "empty_lists z" unfolding zi by (rule zone_init_free_lists(1))
  define \<sigma>2 where "\<sigma>2 = (if highest_memmap_pfn \<sigma>1 < zst + sz - 1 then \<sigma>1\<lparr>highest_memmap_pfn := zst + sz - 1\<rparr> else \<sigma>1)"
  have s2: "same_setup \<sigma>1 \<sigma>2" "usemap \<sigma>2 = usemap \<sigma>1" "zs_frames \<sigma>2 = zs_frames \<sigma>1" "zs_mb \<sigma>2 = zs_mb \<sigma>1" "node_zones \<sigma>2 = node_zones \<sigma>1"
    by (simp_all add: \<sigma>2_def same_setup_def)
  have ss: "same_setup \<sigma> \<sigma>2" using e(1) s1(2) s2(1) same_setup_trans by blast
  have un: "unat (zst + sz) = unat zst + unat sz" using nw by (simp add: unat_add_no_wrap)
  have le: "zst \<le> zst + sz" using un by (simp add: word_le_unat)
  obtain b where b: "memmap_loop j zst (zst + sz) \<sigma>2 = Some (\<sigma>2\<lparr>zs_frames := (\<lambda>q. if unat zst \<le> q \<and> q < unat (zst + sz) then memmap_page j (zs_frames \<sigma>2 q) else zs_frames \<sigma>2 q),
        node_zones := (node_zones \<sigma>2)(j := (node_zones \<sigma>2 j)\<lparr>pageblock_flags := b\<rparr>)\<rparr>)"
    "\<And>q. let t = get_pageblock_migratetype ((node_zones \<sigma>2 j)\<lparr>pageblock_flags := b\<rparr>) q
           in (t = start_type (zs_pgmd \<sigma>2) \<or> \<not> (unat zst \<le> q \<and> q < unat (zst + sz) \<and> 1024 dvd q) \<and> t = get_pageblock_migratetype (node_zones \<sigma>2 j) q)"
    using memmap_loop_spec [OF j le, of \<sigma>2] fr s1(3) s2 z(2,3) same_setup_ranges(4) [OF ss] by (auto simp: z_def)
  define \<sigma>3 where "\<sigma>3 = \<sigma>2\<lparr>zs_frames := (\<lambda>q. if unat zst \<le> q \<and> q < unat (zst + sz) then memmap_page j (zs_frames \<sigma>2 q) else zs_frames \<sigma>2 q),
        node_zones := (node_zones \<sigma>2)(j := (node_zones \<sigma>2 j)\<lparr>pageblock_flags := b\<rparr>)\<rparr>"
  have t0: "get_pageblock_migratetype z q = MIGRATE_UNMOVABLE" for q by (simp add: get_migratetype z(4) bits3_def migratetypes)
  have i: "init_zone \<sigma> j zst = Some (\<sigma>3, zst + sz)"
    using s1(1) b(1) sz(1) by (simp add: init_zone_unfold memmap_init_zone_def Let_def \<sigma>3_def flip: sz_def \<sigma>2_def)
  have pg: "zs_pgmd \<sigma>2 = zs_pgmd \<sigma>" using ss by (simp add: same_setup_def)
  have zj: "node_zones \<sigma>3 j = z\<lparr>pageblock_flags := b\<rparr>" by (simp add: \<sigma>3_def s2(5) z_def)
  have ty: "get_pageblock_migratetype (node_zones \<sigma>3 j) q = start_type (zs_pgmd \<sigma>)
      \<or> \<not> (unat zst \<le> q \<and> q < unat (zst + sz) \<and> 1024 dvd q) \<and> get_pageblock_migratetype (node_zones \<sigma>3 j) q = MIGRATE_UNMOVABLE" for q
    using b(2) [of q] t0 [of q] unfolding Let_def pg zj s2(5) z_def by metis
  have "zone_made (zs_pgmd \<sigma>) (node_zones \<sigma> j) (node_zones \<sigma>3 j) zst sz"
    unfolding zone_made_def
  proof (intro conjI ballI impI allI)
    show "get_pageblock_migratetype (node_zones \<sigma>3 j) q = start_type (zs_pgmd \<sigma>) \<or> get_pageblock_migratetype (node_zones \<sigma>3 j) q = MIGRATE_UNMOVABLE" for q
      using ty [of q] by blast
    show "get_pageblock_migratetype (node_zones \<sigma>3 j) q = start_type (zs_pgmd \<sigma>)" if "q \<in> span (node_zones \<sigma>3 j)" "1024 dvd q" for q
      using ty [of q] that un by (simp add: zj span_def z(2,3))
    show "empty_lists (node_zones \<sigma>3 j)" using el by (simp add: zj empty_lists_def)
  qed (simp_all add: zj z)
  moreover have "zs_mb \<sigma>3 = boot_after \<sigma> (zone_requests sz)"
    using boot_after_cong [OF e(2)] sz(1) by (simp add: \<sigma>3_def s2(4) s1(5) zone_requests_def del: boot_after.simps)
  moreover have "same_setup \<sigma> \<sigma>3" using ss by (simp add: \<sigma>3_def same_setup_def)
  moreover have "zs_frames \<sigma>3 = (\<lambda>q. if unat zst \<le> q \<and> q < unat (zst + sz) then memmap_page j (zs_frames \<sigma> q) else zs_frames \<sigma> q)"
    unfolding \<sigma>3_def s2(3) s1(4) e(3) by simp
  moreover have "node_zones \<sigma>3 i = node_zones \<sigma> i" if "i \<noteq> j" for i using that by (simp add: \<sigma>3_def s2(5) s1(6) e(4))
  moreover have "present_pages (node_zones \<sigma>3 j) = realsize \<sigma> j" by (simp add: zj z(6))
  ultimately show ?thesis using that [OF i] by blast
qed

section \<open>The zones of the node\<close>

lemma realsize_nat:
  assumes lim: "limits_ok \<sigma> ns ne" and j: "j < MAX_NR_ZONES" and ne: "unat ne \<le> 0x38000"
  defines "a \<equiv> unat (zone_bound ns ne (zone_movable_pfn \<sigma>) j)" and "b \<equiv> unat (zone_bound ns ne (zone_movable_pfn \<sigma>) (j + 1))"
  shows "unat (realsize \<sigma> j) = present_count (unat (dma_reserve \<sigma>)) j (b - a) (card (holes (zs_map \<sigma>) a b))"
    "a \<le> b" "unat (zone_spanned_pages_in_node \<sigma> j) = b - a" "b \<le> unat ne" "unat ns \<le> a"
proof -
  have ok: "map_ok (zs_map \<sigma>) ns ne" using lim by (simp add: limits_ok_def)
  let ?a = "zone_bound ns ne (zone_movable_pfn \<sigma>) j" and ?b = "zone_bound ns ne (zone_movable_pfn \<sigma>) (j + 1)"
  have le: "?a \<le> ?b" using lim node_range(4) [OF ok] j by (intro bound_mono) (auto simp: limits_ok_def)
  then show ab: "a \<le> b" by (simp add: a_def b_def word_le_unat)
  have "?b \<le> ne" "ns \<le> ?a" using zone_cases [OF j] lim node_range(4) [OF ok] by (auto simp: zone_bound_def limits_ok_def)
  then show bn: "b \<le> unat ne" and "unat ns \<le> a" by (simp_all add: a_def b_def word_le_unat)
  let ?sz = "zone_spanned_pages_in_node \<sigma> j" and ?ab = "zone_absent_pages_in_node \<sigma> j"
  define h where "h = card (holes (zs_map \<sigma>) a b)"
  show sz: "unat ?sz = b - a" using zone_spanned [OF lim j] le by (simp add: unat_sub_le a_def b_def)
  have h: "h \<le> b - a"
  proof -
    have "holes (zs_map \<sigma>) a b \<subseteq> {a..<b}" by (auto simp: holes_def)
    then show ?thesis using card_mono [of "{a..<b}" "holes (zs_map \<sigma>) a b"] by (simp add: h_def)
  qed
  have uab: "unat ?ab = h" using zone_absent [OF lim j] h bn ne by (simp add: h_def a_def b_def unat_of_nat)
  have r: "unat (?sz - ?ab) = b - a - h" using h sz uab by (subst unat_sub_le) (simp_all add: word_le_unat)
  have m: "unat (?sz * sizeof_page) = (b - a) * 32" using bn ne sz by (simp add: sizeof_page_def unat_word_ariths)
  have "unat (PAGE_ALIGN (?sz * sizeof_page)) = ((b - a) * 32 + 4095) div 4096 * 4096"
    using ALIGN_pow2 [of "?sz * sizeof_page" 12] bn ne m by (simp add: PAGE_ALIGN_def PAGE_SIZE_def PAGE_SHIFT_def)
  then have p: "unat (drop_bit PAGE_SHIFT (PAGE_ALIGN (?sz * sizeof_page))) = ((b - a) * 32 + 4095) div 4096"
    by (simp add: PAGE_SHIFT_def drop_bit_eq_div unat_div)
  show "unat (realsize \<sigma> j) = present_count (unat (dma_reserve \<sigma>)) j (b - a) (card (holes (zs_map \<sigma>) a b))"
  proof -
    define x where "x = ?sz - ?ab"
    define y where "y = drop_bit PAGE_SHIFT (PAGE_ALIGN (?sz * sizeof_page))"
    define r1 where "r1 = (if y \<le> x then x - y else x)"
    define n1 where "n1 = (if ((b - a) * 32 + 4095) div 4096 \<le> b - a - h then b - a - h - ((b - a) * 32 + 4095) div 4096 else b - a - h)"
    have n: "unat r1 = n1" using r p unfolding r1_def n1_def x_def [symmetric] y_def [symmetric] by (auto simp: word_le_unat unat_sub_le)
    have "realsize \<sigma> j = (if j = 0 \<and> dma_reserve \<sigma> < r1 then r1 - dma_reserve \<sigma> else r1)" unfolding realsize_def Let_def r1_def x_def y_def by (rule refl)
    then have "unat (realsize \<sigma> j) = (if j = 0 \<and> unat (dma_reserve \<sigma>) < n1 then n1 - unat (dma_reserve \<sigma>) else n1)"
      unfolding n [symmetric] by (auto simp: word_less_unat unat_sub_le word_le_unat)
    then show ?thesis unfolding present_count_def Let_def n1_def h_def .
  qed
qed

text \<open>Zone \<open>i\<close> after the set-up. The free lists of a zone without frames are not touched.\<close>

definition zone_done :: "node_setup \<Rightarrow> ulong \<Rightarrow> ulong \<Rightarrow> node_setup \<Rightarrow> nat \<Rightarrow> bool" where
  "zone_done \<sigma> ns ne \<sigma>' i \<longleftrightarrow>
     (let a = zone_bound ns ne (zone_movable_pfn \<sigma>) i; b = zone_bound ns ne (zone_movable_pfn \<sigma>) (i + 1); z = node_zones \<sigma> i; z' = node_zones \<sigma>' i
      in present_pages z' = realsize \<sigma> i
         \<and> (if a = b then zone_num z' = zone_num z \<and> spanned_pages z' = 0 \<and> nr_free_pages z' = 0 \<and> (empty_lists z \<longrightarrow> empty_lists z') else zone_made (zs_pgmd \<sigma>) z z' a (b - a))
         \<and> (\<forall>q. unat a \<le> q \<and> q < unat b \<longrightarrow> zs_frames \<sigma>' q = memmap_page i (zs_frames \<sigma> q)))"

lemma init_zone_done:
  fixes \<sigma> :: node_setup and j :: nat and ns ne :: ulong
  defines "sz \<equiv> zone_spanned_pages_in_node \<sigma> j" and "B \<equiv> zone_bound ns ne (zone_movable_pfn \<sigma>)"
  assumes lim: "limits_ok \<sigma> ns ne" and ne: "unat ne \<le> 0x38000" and slab: "\<not> zs_slab \<sigma>" and j: "j < MAX_NR_ZONES"
    and ptrs: "0 \<notin> set (boot_ptrs \<sigma> (zone_requests sz))" and fr: "\<And>p. ns \<le> p \<Longrightarrow> p < ne \<Longrightarrow> PAGE_OFFSET \<le> frame_ptr \<sigma> p"
  obtains \<sigma>' where "init_zone \<sigma> j (B j) = Some (\<sigma>', B (j + 1))" "same_setup \<sigma> \<sigma>'" "zs_mb \<sigma>' = boot_after \<sigma> (zone_requests sz)"
    "zone_done \<sigma> ns ne \<sigma>' j" "\<And>i. i \<noteq> j \<Longrightarrow> node_zones \<sigma>' i = node_zones \<sigma> i"
    "\<And>q. q < unat (B j) \<or> unat (B (j + 1)) \<le> q \<Longrightarrow> zs_frames \<sigma>' q = zs_frames \<sigma> q"
proof -
  note r = realsize_nat [OF lim j ne, folded B_def]
  have sz: "sz = B (j + 1) - B j" using zone_spanned [OF lim j] by (simp add: sz_def B_def)
  show ?thesis
  proof (cases "sz = 0")
    case True
    then have e: "B (j + 1) = B j" using sz by simp
    note ze = zone_entered_same [where \<sigma> = \<sigma> and j = j]
    show ?thesis
    proof (rule that [of "zone_entered \<sigma> j"])
      show "init_zone \<sigma> j (B j) = Some (zone_entered \<sigma> j, B (j + 1))" using True e by (simp add: init_zone_unfold sz_def)
      show "zs_mb (zone_entered \<sigma> j) = boot_after \<sigma> (zone_requests sz)" using ze(2) True by (simp add: zone_requests_def same_boot_def)
      show "zone_done \<sigma> ns ne (zone_entered \<sigma> j) j" using True e by (auto simp: zone_done_def Let_def ze(5) empty_lists_def simp flip: B_def sz_def)
    qed (simp_all add: ze)
  next
    case False
    have b: "B j + sz = B (j + 1)" using sz by simp
    have ab: "B j \<noteq> B (j + 1)" using False sz by auto
    have le: "unat (B j) + unat sz < 2 ^ 32" "unat sz \<le> 0x38000" using r(2-4) ne by (simp_all add: sz_def)
    have frj: "PAGE_OFFSET \<le> frame_ptr \<sigma> p" if "B j \<le> p" "p < B j + sz" for p
      using that r(4,5) b by (intro fr) (auto simp: word_le_unat word_less_unat)
    obtain \<sigma>' where s: "init_zone \<sigma> j (B j) = Some (\<sigma>', B j + sz)" "same_setup \<sigma> \<sigma>'" "zs_mb \<sigma>' = boot_after \<sigma> (zone_requests sz)"
      "zs_frames \<sigma>' = (\<lambda>q. if unat (B j) \<le> q \<and> q < unat (B j + sz) then memmap_page j (zs_frames \<sigma> q) else zs_frames \<sigma> q)"
      "\<And>i. i \<noteq> j \<Longrightarrow> node_zones \<sigma>' i = node_zones \<sigma> i"
      "zone_made (zs_pgmd \<sigma>) (node_zones \<sigma> j) (node_zones \<sigma>' j) (B j) sz" "present_pages (node_zones \<sigma>' j) = realsize \<sigma> j"
      using init_zone_nonempty [OF j slab, folded sz_def, OF False le(2,1) ptrs frj] by blast
    show ?thesis
    proof (rule that [of \<sigma>'])
      show "zone_done \<sigma> ns ne \<sigma>' j" using s(4,6,7) ab by (simp add: zone_done_def Let_def b sz flip: B_def)
      show "zs_frames \<sigma>' q = zs_frames \<sigma> q" if "q < unat (B j) \<or> unat (B (j + 1)) \<le> q" for q using that by (auto simp: s(4) b)
    qed (use s b in simp_all)
  qed
qed

lemma init_zones_done:
  assumes lim: "limits_ok \<sigma> ns ne" and ne: "unat ne \<le> 0x38000" and slab: "\<not> zs_slab \<sigma>" and j: "j \<le> MAX_NR_ZONES"
    and ptrs: "0 \<notin> set (boot_ptrs \<sigma> (concat (map (\<lambda>i. zone_requests (zone_spanned_pages_in_node \<sigma> i)) [j..<MAX_NR_ZONES])))"
    and fr: "\<And>p. ns \<le> p \<Longrightarrow> p < ne \<Longrightarrow> PAGE_OFFSET \<le> frame_ptr \<sigma> p"
  shows "\<exists>\<sigma>'. init_zones [j..<MAX_NR_ZONES] \<sigma> (zone_bound ns ne (zone_movable_pfn \<sigma>) j) = Some (\<sigma>', zone_bound ns ne (zone_movable_pfn \<sigma>) MAX_NR_ZONES) \<and> same_setup \<sigma> \<sigma>'
    \<and> (\<forall>i. j \<le> i \<and> i < MAX_NR_ZONES \<longrightarrow> zone_done \<sigma> ns ne \<sigma>' i) \<and> (\<forall>i<j. node_zones \<sigma>' i = node_zones \<sigma> i)
    \<and> (\<forall>q. q < unat (zone_bound ns ne (zone_movable_pfn \<sigma>) j) \<or> unat ne \<le> q \<longrightarrow> zs_frames \<sigma>' q = zs_frames \<sigma> q)"
  using assms
proof (induction "MAX_NR_ZONES - j" arbitrary: j \<sigma>)
  case 0
  then have "j = MAX_NR_ZONES" by simp
  then show ?case by (auto simp: same_setup_def)
next
  case (Suc n)
  then have j: "j < MAX_NR_ZONES" by simp
  then have u: "[j..<MAX_NR_ZONES] = j # [j + 1..<MAX_NR_ZONES]" by (simp add: upt_conv_Cons)
  let ?sz = "zone_spanned_pages_in_node \<sigma> j" and ?B = "zone_bound ns ne (zone_movable_pfn \<sigma>)"
  have p: "0 \<notin> set (boot_ptrs \<sigma> (zone_requests ?sz))"
    "0 \<notin> set (boot_ptrs (\<sigma>\<lparr>zs_mb := boot_after \<sigma> (zone_requests ?sz)\<rparr>) (concat (map (\<lambda>i. zone_requests (zone_spanned_pages_in_node \<sigma> i)) [j + 1..<MAX_NR_ZONES])))"
    using Suc.prems(5) unfolding u by (simp_all add: boot_ptrs_append)
  obtain \<sigma>1 where s1: "init_zone \<sigma> j (?B j) = Some (\<sigma>1, ?B (j + 1))" "same_setup \<sigma> \<sigma>1" "zs_mb \<sigma>1 = boot_after \<sigma> (zone_requests ?sz)"
    "zone_done \<sigma> ns ne \<sigma>1 j" "\<And>i. i \<noteq> j \<Longrightarrow> node_zones \<sigma>1 i = node_zones \<sigma> i"
    "\<And>q. q < unat (?B j) \<or> unat (?B (j + 1)) \<le> q \<Longrightarrow> zs_frames \<sigma>1 q = zs_frames \<sigma> q"
    using init_zone_done [OF Suc.prems(1-3) j p(1) Suc.prems(6)] by blast
  note ss = same_setup_ranges [OF s1(2)]
  have mp: "zone_movable_pfn \<sigma>1 = zone_movable_pfn \<sigma>" using s1(2) by (simp add: same_setup_def)
  have sb: "same_boot (\<sigma>\<lparr>zs_mb := boot_after \<sigma> (zone_requests ?sz)\<rparr>) \<sigma>1" using s1(2,3) by (simp add: same_boot_def same_setup_def)
  have pre: "n = MAX_NR_ZONES - (j + 1)" "limits_ok \<sigma>1 ns ne" "\<not> zs_slab \<sigma>1" "j + 1 \<le> MAX_NR_ZONES"
    "0 \<notin> set (boot_ptrs \<sigma>1 (concat (map (\<lambda>i. zone_requests (zone_spanned_pages_in_node \<sigma>1 i)) [j + 1..<MAX_NR_ZONES])))"
    using Suc.hyps(2) Suc.prems(1,3) j p(2) s1(2) by (simp_all add: ss boot_ptrs_cong [OF sb]) (simp_all add: same_setup_def)
  obtain \<sigma>' where s: "init_zones [j + 1..<MAX_NR_ZONES] \<sigma>1 (?B (j + 1)) = Some (\<sigma>', ?B MAX_NR_ZONES)" "same_setup \<sigma>1 \<sigma>'"
    "\<And>i. j + 1 \<le> i \<and> i < MAX_NR_ZONES \<Longrightarrow> zone_done \<sigma>1 ns ne \<sigma>' i" "\<And>i. i < j + 1 \<Longrightarrow> node_zones \<sigma>' i = node_zones \<sigma>1 i"
    "\<And>q. q < unat (?B (j + 1)) \<or> unat ne \<le> q \<Longrightarrow> zs_frames \<sigma>' q = zs_frames \<sigma>1 q"
    using Suc.hyps(1) [OF pre(1,2) Suc.prems(2) pre(3-5) Suc.prems(6) [folded ss(4)]] unfolding mp by blast
  have mono: "unat (?B (j + 1)) \<le> unat (?B i)" if "j + 1 \<le> i" "i < MAX_NR_ZONES" for i
    using that(1,2)
  proof (induction i rule: dec_induct)
    case (step i)
    then show ?case using realsize_nat(2) [OF Suc.prems(1) _ Suc.prems(2), of i] by simp
  qed simp
  have le: "unat (?B j) \<le> unat (?B (j + 1))" "unat (?B (j + 1)) \<le> unat ne" using realsize_nat(2,4) [OF Suc.prems(1) j Suc.prems(2)] by simp_all
  have dm: "dma_reserve \<sigma>1 = dma_reserve \<sigma>" using s1(2) by (simp add: same_setup_def)
  have rs: "realsize \<sigma>1 i = realsize \<sigma> i" for i unfolding realsize_def ss dm by (rule refl)
  have pg: "zs_pgmd \<sigma>1 = zs_pgmd \<sigma>" using s1(2) by (simp add: same_setup_def)
  have "zone_done \<sigma> ns ne \<sigma>' i" if i: "j \<le> i" "i < MAX_NR_ZONES" for i
  proof (cases "i = j")
    case True
    then show ?thesis using s1(4) s(4) [of j] s(5) unfolding zone_done_def Let_def Suc_eq_plus1 [symmetric] by simp
  next
    case False
    then have f: "zs_frames \<sigma>1 q = zs_frames \<sigma> q" if "unat (?B i) \<le> q" for q using that mono [of i] i s1(6) [of q] by simp
    show ?thesis using s(3) [of i] False i s1(5) [of i] f unfolding zone_done_def Let_def mp rs pg Suc_eq_plus1 [symmetric] by (simp split: if_splits)
  qed
  moreover have "init_zones [j..<MAX_NR_ZONES] \<sigma> (?B j) = Some (\<sigma>', ?B MAX_NR_ZONES)" using s1(1) s(1) unfolding u by simp
  moreover have "zs_frames \<sigma>' q = zs_frames \<sigma> q" if "q < unat (?B j) \<or> unat ne \<le> q" for q using that le s(5) [of q] s1(6) [of q] by auto
  ultimately show ?case using s(4) s1(5) same_setup_trans [OF s1(2) s(2)] by auto
qed

section \<open>The whole set-up\<close>

text \<open>The requests to the boot allocator: the page frames, and for each zone the bitmap and the wait table.\<close>

definition mem_map_size :: "ulong \<Rightarrow> ulong \<Rightarrow> ulong" where
  "mem_map_size ns ne = (ALIGN ne MAX_ORDER_NR_PAGES - (ns AND NOT (MAX_ORDER_NR_PAGES - 1))) * sizeof_page"

definition node_requests :: "ulong \<Rightarrow> ulong \<Rightarrow> ulong \<Rightarrow> ulong list" where
  "node_requests ns ne low_pfn = mem_map_size ns ne #
     concat (map (\<lambda>j. zone_requests (zone_bound ns ne (movable_pfn ns low_pfn) (j + 1) - zone_bound ns ne (movable_pfn ns low_pfn) j)) [0..<MAX_NR_ZONES])"

lemma totalpages:
  assumes "limits_ok \<sigma> ns ne"
  shows "node_spanned_pages (calculate_node_totalpages \<sigma>) = ne - ns"
proof -
  have "[0..<MAX_NR_ZONES] = [0, 1, 2]" by (simp add: MAX_NR_ZONES_def upt_rec)
  moreover have "zone_spanned_pages_in_node \<sigma> j = zone_bound ns ne (zone_movable_pfn \<sigma>) (j + 1) - zone_bound ns ne (zone_movable_pfn \<sigma>) j" if "j < 3" for j
    using zone_spanned [OF assms] that by (simp add: MAX_NR_ZONES_def)
  ultimately show ?thesis by (simp add: calculate_node_totalpages_def Let_def zone_bound_def)
qed

lemma mem_map_set:
  assumes sp: "node_spanned_pages \<sigma> = ne - ns" "node_start_pfn \<sigma> = ns" "node_mem_map \<sigma> = 0" and lt: "ns < ne" "unat ne \<le> 0x38000"
    and p: "PAGE_OFFSET \<le> boot_ptr \<sigma> (mem_map_size ns ne)" "unat (boot_ptr \<sigma> (mem_map_size ns ne)) + unat (mem_map_size ns ne) \<le> 2 ^ 32"
  shows "same_boot (\<sigma>\<lparr>zs_mb := boot_mb \<sigma> (mem_map_size ns ne)\<rparr>) (alloc_node_mem_map \<sigma>)"
    "zs_frames (alloc_node_mem_map \<sigma>) = (\<lambda>_. null_page)" "node_start_pfn (alloc_node_mem_map \<sigma>) = ns" "node_zones (alloc_node_mem_map \<sigma>) = node_zones \<sigma>"
    "limits_ok \<sigma> = limits_ok (alloc_node_mem_map \<sigma>)" "dma_reserve (alloc_node_mem_map \<sigma>) = dma_reserve \<sigma>" "zs_pgmd (alloc_node_mem_map \<sigma>) = zs_pgmd \<sigma>"
    "zone_movable_pfn (alloc_node_mem_map \<sigma>) = zone_movable_pfn \<sigma>"
    "\<And>q. ns \<le> q \<Longrightarrow> q < ne \<Longrightarrow> PAGE_OFFSET \<le> frame_ptr (alloc_node_mem_map \<sigma>) q"
proof -
  define st where "st = ns AND NOT (MAX_ORDER_NR_PAGES - 1)"
  define x where "x = boot_ptr \<sigma> (mem_map_size ns ne)"
  let ?m = "x + (ns - st) * sizeof_page"
  have x0: "x \<noteq> 0" using p(1) by (auto simp: x_def PAGE_OFFSET_def)
  have sp0: "node_spanned_pages \<sigma> \<noteq> 0" using sp(1) lt by auto
  have a: "alloc_node_mem_map \<sigma> = \<sigma>\<lparr>zs_mb := boot_mb \<sigma> (mem_map_size ns ne), zs_frames := (\<lambda>_. null_page), node_mem_map := ?m, mem_map_ptr := ?m - ns * sizeof_page\<rparr>"
  proof -
    have s: "(ALIGN (ns + (ne - ns)) MAX_ORDER_NR_PAGES - (ns AND NOT (MAX_ORDER_NR_PAGES - 1))) * sizeof_page = mem_map_size ns ne" by (simp add: mem_map_size_def)
    show ?thesis unfolding alloc_node_mem_map_def Let_def alloc_bootmem sp(2) using sp0 x0 [unfolded x_def] sp(3)
      by (simp only: sp(1) s if_False if_True not_False_eq_True prod.case sp(2)) (auto simp: sp(2) s st_def x_def)
  qed
  show "same_boot (\<sigma>\<lparr>zs_mb := boot_mb \<sigma> (mem_map_size ns ne)\<rparr>) (alloc_node_mem_map \<sigma>)"
    "zs_frames (alloc_node_mem_map \<sigma>) = (\<lambda>_. null_page)" "node_start_pfn (alloc_node_mem_map \<sigma>) = ns" "node_zones (alloc_node_mem_map \<sigma>) = node_zones \<sigma>"
    "limits_ok \<sigma> = limits_ok (alloc_node_mem_map \<sigma>)" "dma_reserve (alloc_node_mem_map \<sigma>) = dma_reserve \<sigma>" "zs_pgmd (alloc_node_mem_map \<sigma>) = zs_pgmd \<sigma>"
    "zone_movable_pfn (alloc_node_mem_map \<sigma>) = zone_movable_pfn \<sigma>"
    by (simp_all add: a same_boot_def limits_ok_def sp(2) fun_eq_iff)
  show "PAGE_OFFSET \<le> frame_ptr (alloc_node_mem_map \<sigma>) q" if q: "ns \<le> q" "q < ne" for q
  proof -
    have k: "MAX_ORDER_NR_PAGES = 2 ^ 10" by (simp add: MAX_ORDER_NR_PAGES_def MAX_ORDER_def)
    let ?E = "ALIGN ne MAX_ORDER_NR_PAGES"
    have "(unat ne + 1023) div 1024 * 1024 \<le> unat ne + 1023" "unat ne \<le> (unat ne + 1023) div 1024 * 1024"
      using div_mult_mod_eq [of "unat ne + 1023" 1024] mod_less_divisor [of 1024 "unat ne + 1023"] by linarith+
    moreover have "unat ?E = (unat ne + 1023) div 1024 * 1024" using ALIGN_pow2 [of ne 10] lt(2) by (simp add: k)
    ultimately have E: "unat ne \<le> unat ?E" "unat ?E \<le> 0x39000" using lt(2) by simp_all
    have st: "unat st \<le> unat ns" using align_down_pow2 [of ns 10] by (simp add: st_def k)
    have q': "unat ns \<le> unat q" "unat q < unat ne" using q by (simp_all add: word_le_unat word_less_unat)
    have m: "unat (d * sizeof_page) = unat d * 32" if "unat d \<le> 0x39000" for d using that by (simp add: sizeof_page_def unat_word_ariths)
    have "unat (?E - st) = unat ?E - unat st" using st E q' by (intro unat_sub_le) (simp add: word_le_unat)
    then have sz: "unat (mem_map_size ns ne) = (unat ?E - unat st) * 32" using E m [of "?E - st"] unfolding mem_map_size_def st_def by simp
    have "unat (q - st) = unat q - unat st" using st q' by (intro unat_sub_le) (simp add: word_le_unat)
    then have d: "unat (sizeof_page * (q - st)) = 32 * (unat q - unat st)" using q' lt(2) m [of "q - st"] by (simp add: mult.commute)
    have "unat x + 32 * (unat q - unat st) < 2 ^ 32" using p(2) sz E q' st by (simp flip: x_def)
    then have "unat (x + sizeof_page * (q - st)) = unat x + 32 * (unat q - unat st)" using d by (subst unat_add_no_wrap) simp_all
    then have "x \<le> x + sizeof_page * (q - st)" by (simp add: word_le_unat)
    moreover have "frame_ptr (alloc_node_mem_map \<sigma>) q = x + sizeof_page * (q - st)" by (simp add: a frame_ptr_def algebra_simps)
    ultimately show ?thesis using p(1) unfolding x_def by (metis order_trans)
  qed
qed

definition zone_setup_ok :: "node_setup \<Rightarrow> ulong \<Rightarrow> ulong \<Rightarrow> ulong \<Rightarrow> bool" where
  "zone_setup_ok \<sigma> ns ne low_pfn \<longleftrightarrow>
     map_ok (sort_node_map (zs_map \<sigma>)) ns ne \<and> ns < 4096 \<and> ne \<le> low_pfn \<and> low_pfn \<le> 0x38000 \<and> \<not> zs_slab \<sigma> \<and> node_mem_map \<sigma> = 0
     \<and> (\<forall>i<MAX_NR_ZONES. zone_num (node_zones \<sigma> i) = i
          \<and> (zone_bound ns ne (movable_pfn ns low_pfn) i = zone_bound ns ne (movable_pfn ns low_pfn) (i + 1) \<longrightarrow> empty_lists (node_zones \<sigma> i)))"

definition boot_grants :: "node_setup \<Rightarrow> ulong \<Rightarrow> ulong \<Rightarrow> ulong \<Rightarrow> bool" where
  "boot_grants \<sigma> ns ne low_pfn \<longleftrightarrow>
     (let ps = boot_ptrs (\<sigma>\<lparr>zs_map := sort_node_map (zs_map \<sigma>)\<rparr>) (node_requests ns ne low_pfn)
      in 0 \<notin> set ps \<and> PAGE_OFFSET \<le> hd ps \<and> unat (hd ps) + unat (mem_map_size ns ne) \<le> 2 ^ 32)"

lemma zone_sizes_init_done:
  fixes \<sigma> :: node_setup and ns ne low_pfn :: ulong
  assumes ok: "zone_setup_ok \<sigma> ns ne low_pfn" and gr: "boot_grants \<sigma> ns ne low_pfn"
  obtains \<sigma>0 \<sigma>' where "zone_sizes_init \<sigma> low_pfn = Some \<sigma>'" "limits_ok \<sigma>0 ns ne" "zone_movable_pfn \<sigma>0 = movable_pfn ns low_pfn"
    "zs_map \<sigma>0 = sort_node_map (zs_map \<sigma>)" "zs_pgmd \<sigma>0 = zs_pgmd \<sigma>" "dma_reserve \<sigma>0 = dma_reserve \<sigma>" "node_zones \<sigma>0 = node_zones \<sigma>"
    "\<And>i. i < MAX_NR_ZONES \<Longrightarrow> zone_done \<sigma>0 ns ne \<sigma>' i" "zs_frames \<sigma>0 = (\<lambda>_. null_page)"
    "\<And>q. q < unat ns \<or> unat ne \<le> q \<Longrightarrow> zs_frames \<sigma>' q = null_page"
proof -
  have h: "map_ok (sort_node_map (zs_map \<sigma>)) ns ne" "ns < 4096" "ne \<le> low_pfn" "low_pfn \<le> 0x38000" "\<not> zs_slab \<sigma>" "node_mem_map \<sigma> = 0"
    using ok by (auto simp: zone_setup_ok_def)
  have ne: "unat ne \<le> 0x38000" using order_trans [OF h(3,4)] by (simp add: word_le_unat)
  let ?z = "(zone_limits (max_zone_pfns low_pfn) (\<sigma>\<lparr>zs_map := sort_node_map (zs_map \<sigma>)\<rparr>))\<lparr>zone_movable_pfn := 0\<rparr>"
  obtain lo hi mz where f: "find_zone_movable_pfns_for_nodes ?z = Some (\<sigma>\<lparr>zs_map := sort_node_map (zs_map \<sigma>), arch_zone_lowest_possible_pfn := lo,
        arch_zone_highest_possible_pfn := hi, zone_movable_pfn := movable_pfn ns low_pfn, movable_zone := mz\<rparr>)"
    "limits_ok (\<sigma>\<lparr>zs_map := sort_node_map (zs_map \<sigma>), arch_zone_lowest_possible_pfn := lo,
        arch_zone_highest_possible_pfn := hi, zone_movable_pfn := movable_pfn ns low_pfn, movable_zone := mz\<rparr>) ns ne"
    by (rule limits_set [OF h(1-4)])
  define \<sigma>1 where "\<sigma>1 = (\<sigma>\<lparr>zs_map := sort_node_map (zs_map \<sigma>), arch_zone_lowest_possible_pfn := lo,
        arch_zone_highest_possible_pfn := hi, zone_movable_pfn := movable_pfn ns low_pfn, movable_zone := mz\<rparr>)"
  note s1 = f [folded \<sigma>1_def] \<sigma>1_def
  define \<sigma>2 where "\<sigma>2 = calculate_node_totalpages (\<sigma>1\<lparr>node_start_pfn := ns\<rparr>)"
  have l1: "limits_ok (\<sigma>1\<lparr>node_start_pfn := ns\<rparr>) = limits_ok \<sigma>1" "limits_ok \<sigma>2 = limits_ok \<sigma>1"
    by (simp_all add: fun_eq_iff \<sigma>2_def calculate_node_totalpages_def Let_def limits_ok_def)
  have s2: "node_spanned_pages \<sigma>2 = ne - ns" "node_start_pfn \<sigma>2 = ns" "node_mem_map \<sigma>2 = 0" "node_zones \<sigma>2 = node_zones \<sigma>" "zs_pgmd \<sigma>2 = zs_pgmd \<sigma>"
    "dma_reserve \<sigma>2 = dma_reserve \<sigma>" "zone_movable_pfn \<sigma>2 = movable_pfn ns low_pfn" "zs_map \<sigma>2 = sort_node_map (zs_map \<sigma>)"
    "same_boot (\<sigma>\<lparr>zs_map := sort_node_map (zs_map \<sigma>)\<rparr>) \<sigma>2"
    using totalpages [of "\<sigma>1\<lparr>node_start_pfn := ns\<rparr>" ns ne] s1(2) l1 h(6)
    by (simp_all add: \<sigma>2_def) (simp_all add: calculate_node_totalpages_def Let_def s1(3) same_boot_def)
  note r = node_range [OF h(1)]
  let ?ps = "boot_ptrs \<sigma>2 (node_requests ns ne low_pfn)"
  have ps: "0 \<notin> set ?ps" "PAGE_OFFSET \<le> hd ?ps" "unat (hd ?ps) + unat (mem_map_size ns ne) \<le> 2 ^ 32"
    using gr unfolding boot_grants_def Let_def boot_ptrs_cong [OF s2(9)] by blast+
  have p: "PAGE_OFFSET \<le> boot_ptr \<sigma>2 (mem_map_size ns ne)" "unat (boot_ptr \<sigma>2 (mem_map_size ns ne)) + unat (mem_map_size ns ne) \<le> 2 ^ 32"
    using ps(2,3) by (simp_all add: node_requests_def)
  note m = mem_map_set [OF s2(1-3) r(4) ne p]
  define \<sigma>3 where "\<sigma>3 = (alloc_node_mem_map \<sigma>2)\<lparr>nr_zones := 0\<rparr>"
  have s3: "limits_ok \<sigma>3 ns ne" using s1(2) m(5) by (simp add: \<sigma>3_def limits_ok_def flip: l1(2)) 
  have sl: "\<not> zs_slab \<sigma>3" using m(1) s2(9) h(5) by (simp add: \<sigma>3_def same_boot_def)
  have mp: "zone_movable_pfn \<sigma>3 = movable_pfn ns low_pfn" by (simp add: \<sigma>3_def m(8) s2(7))
  have sb: "same_boot (\<sigma>2\<lparr>zs_mb := boot_mb \<sigma>2 (mem_map_size ns ne)\<rparr>) \<sigma>3" using m(1) by (simp add: \<sigma>3_def same_boot_def)
  have rq: "map (\<lambda>j. zone_requests (zone_spanned_pages_in_node \<sigma>3 j)) [0..<MAX_NR_ZONES]
      = map (\<lambda>j. zone_requests (zone_bound ns ne (movable_pfn ns low_pfn) (j + 1) - zone_bound ns ne (movable_pfn ns low_pfn) j)) [0..<MAX_NR_ZONES]"
    using zone_spanned [OF s3] mp by simp
  have "0 \<notin> set (boot_ptrs \<sigma>3 (concat (map (\<lambda>j. zone_requests (zone_spanned_pages_in_node \<sigma>3 j)) [0..<MAX_NR_ZONES])))"
    unfolding rq boot_ptrs_cong [OF sb] using ps(1) by (simp add: node_requests_def)
  moreover have "frame_ptr \<sigma>3 = frame_ptr (alloc_node_mem_map \<sigma>2)" by (simp add: \<sigma>3_def frame_ptr_def fun_eq_iff)
  ultimately obtain \<sigma>' where s': "init_zones [0..<MAX_NR_ZONES] \<sigma>3 ns = Some (\<sigma>', ne)" "\<forall>i. 0 \<le> i \<and> i < MAX_NR_ZONES \<longrightarrow> zone_done \<sigma>3 ns ne \<sigma>' i"
    "\<forall>q. q < unat ns \<or> unat ne \<le> q \<longrightarrow> zs_frames \<sigma>' q = zs_frames \<sigma>3 q"
    using init_zones_done [OF s3 ne sl, of 0] m(9) by (auto simp: zone_bound_def MAX_NR_ZONES_def)
  have "zone_sizes_init \<sigma> low_pfn = Some \<sigma>'"
    using s1(1,3) s'(1) m(3) by (simp add: zone_sizes_init_def free_area_init_nodes_def Let_def free_area_init_node_def free_area_init_core_def r(2) \<sigma>3_def \<sigma>2_def
        flip: max_zone_pfns_def)
  moreover have "zs_map \<sigma>3 = sort_node_map (zs_map \<sigma>)" using m(1) s2(8) by (simp add: \<sigma>3_def same_boot_def)
  moreover have "zs_frames \<sigma>' q = null_page" if "q < unat ns \<or> unat ne \<le> q" for q using s'(3) m(2) that by (auto simp: \<sigma>3_def)
  ultimately show ?thesis using s'(2) s3 mp m s2 by (intro that [of \<sigma>' \<sigma>3]) (simp_all add: \<sigma>3_def)
qed

lemma bitmap_fits:
  fixes z :: zone
  assumes "unat (spanned_pages z) \<le> 0x38000" "unat (zone_start_pfn z) + unat (spanned_pages z) < 2 ^ 32" "q \<in> span z"
  shows "3 * block_of z q + 2 < 8 * unat (usemap_size (spanned_pages z))"
proof -
  define n where "n = unat (spanned_pages z)"
  define x where "x = q - unat (zone_start_pfn z)"
  have q: "unat (zone_start_pfn z) \<le> q" "q < 2 ^ 32" "x < n" using assms(2,3) by (auto simp: span_def x_def n_def)
  have "unat (word_of_nat q - zone_start_pfn z :: ulong) = x"
    using q by (subst unat_sub_le) (simp_all add: x_def word_le_unat unat_of_nat)
  then have b: "block_of z q = x div 1024" by (simp add: block_of_def pageblock_consts drop_bit_eq_div unat_div)
  define c where "c = (n + 1023) div 1024"
  have "x div 1024 + 1 = (x + 1024) div 1024" by simp
  also have "\<dots> \<le> c" unfolding c_def using q(3) by (intro div_le_mono) simp
  finally have "3 * (x div 1024) + 2 < c * 3" by simp
  also have "c * 3 \<le> 32 * ((c * 3 + 31) div 32)" using div_mult_mod_eq [of "c * 3 + 31" 32] mod_less_divisor [of 32 "c * 3 + 31"] by linarith
  finally show ?thesis using usemap_size_nat [OF assms(1)] by (simp add: b c_def n_def)
qed

lemma zone_done_inv:
  assumes lim: "limits_ok \<sigma> ns ne" and ne: "unat ne \<le> 0x38000" and d: "zone_done \<sigma> ns ne \<sigma>' i" and i: "i < MAX_NR_ZONES"
    and num: "zone_num (node_zones \<sigma> i) = i" and el: "zone_bound ns ne (zone_movable_pfn \<sigma>) i = zone_bound ns ne (zone_movable_pfn \<sigma>) (i + 1) \<Longrightarrow> empty_lists (node_zones \<sigma> i)"
    and nb: "\<And>q. \<not> PageBuddy (zs_frames \<sigma>' q)"
  defines "a \<equiv> unat (zone_bound ns ne (zone_movable_pfn \<sigma>) i)" and "b \<equiv> unat (zone_bound ns ne (zone_movable_pfn \<sigma>) (i + 1))" and "z \<equiv> node_zones \<sigma>' i"
  shows "unat (spanned_pages z) = b - a" "a < b \<Longrightarrow> span z = {a..<b}" "zone_num z = i" "zone_inv (zs_frames \<sigma>') z"
    "q \<in> span z \<Longrightarrow> 3 * block_of z q + 2 < 8 * unat (usemap_size (spanned_pages z))"
    "q \<in> span z \<Longrightarrow> 1024 dvd q \<Longrightarrow> get_pageblock_migratetype z q = start_type (zs_pgmd \<sigma>)"
proof -
  note r = realsize_nat [OF lim i ne, folded a_def b_def]
  let ?a = "zone_bound ns ne (zone_movable_pfn \<sigma>) i" and ?b = "zone_bound ns ne (zone_movable_pfn \<sigma>) (i + 1)"
  have eq: "a = b \<longleftrightarrow> ?a = ?b" by (simp add: a_def b_def word_eq_unat)
  have ba: "unat (?b - ?a) = b - a" using r(2) by (subst unat_sub_le) (simp_all add: a_def b_def word_le_unat)
  have mk: "zone_made (zs_pgmd \<sigma>) (node_zones \<sigma> i) z ?a (?b - ?a)" if "a < b"
    using d that eq unfolding zone_done_def Let_def z_def by auto
  have em: "spanned_pages z = 0 \<and> zone_num z = i \<and> empty_lists z" if "\<not> a < b"
    using d that eq r(2) num el unfolding zone_done_def Let_def z_def by auto
  show sp: "unat (spanned_pages z) = b - a" using mk em ba r(2) by (cases "a < b") (simp_all add: zone_made_def)
  show sn: "span z = {a..<b}" if "a < b" using mk [OF that] r(2) ba by (simp add: span_def zone_made_def) (simp add: a_def)
  show zn: "zone_num z = i" using mk em num by (cases "a < b") (simp_all add: zone_made_def)
  have e: "span z = {}" if "\<not> a < b" using em [OF that] by (simp add: span_def)
  have w: "unat (zone_start_pfn z) + unat (spanned_pages z) < 2 ^ 32"
    using mk em r(2,4) ne sp unat_bound [of "zone_start_pfn z"] by (cases "a < b") (simp_all add: zone_made_def a_def b_def)
  show "3 * block_of z q + 2 < 8 * unat (usemap_size (spanned_pages z))" if "q \<in> span z"
    using bitmap_fits [OF _ w that] sp r(4) ne by simp
  show "get_pageblock_migratetype z q = start_type (zs_pgmd \<sigma>)" if "q \<in> span z" "1024 dvd q"
    using mk e that by (cases "a < b") (simp_all add: zone_made_def)
  have f: "page_zone_id (zs_frames \<sigma>' q) = i" if "q \<in> span z" for q
  proof -
    have "a < b" using e that by auto
    then show ?thesis using d that sn memmap_page(2) [OF i] unfolding zone_done_def Let_def a_def b_def by simp
  qed
  have el': "empty_lists z" using mk em by (cases "a < b") (simp_all add: zone_made_def)
  have "zone_ok (zs_frames \<sigma>') z" using w f zn by (simp add: zone_ok_def)
  note inv = empty_lists_inv [OF this el' nb]
  have "get_pageblock_migratetype z q < MIGRATE_TYPES" if "a < b" for q
    using mk [OF that] start_type unfolding zone_made_def by metis
  then have "types_ok z" using e by (cases "a < b") (simp_all add: types_ok_def)
  then show "zone_inv (zs_frames \<sigma>') z" using inv by (simp add: zone_inv_def)
qed

lemma zone_sizes_init_spec:
  assumes ok: "zone_setup_ok \<sigma> ns ne low_pfn" and gr: "boot_grants \<sigma> ns ne low_pfn"
  shows "\<exists>\<sigma>'. zone_sizes_init \<sigma> low_pfn = Some \<sigma>'
    \<and> (\<forall>i<MAX_NR_ZONES.
         let a = unat (zone_bound ns ne (movable_pfn ns low_pfn) i); b = unat (zone_bound ns ne (movable_pfn ns low_pfn) (i + 1)); z = node_zones \<sigma>' i
         in a \<le> b \<and> unat (spanned_pages z) = b - a \<and> (a < b \<longrightarrow> span z = {a..<b})
            \<and> unat (present_pages z) = present_count (unat (dma_reserve \<sigma>)) i (b - a) (card (holes (sort_node_map (zs_map \<sigma>)) a b))
            \<and> (\<forall>q\<in>{a..<b}. let p = zs_frames \<sigma>' q in page_zonenum p = i \<and> pg_count p = 1 \<and> test_page_flag PG_reserved p
                 \<and> 3 * block_of z q + 2 < 8 * unat (usemap_size (spanned_pages z))
                 \<and> (1024 dvd q \<longrightarrow> get_pageblock_migratetype z q = start_type (zs_pgmd \<sigma>))))
    \<and> (\<forall>s. mm_map s = zs_frames \<sigma>' \<and> mm_zones s = node_zones \<sigma>' \<and> mm_pcp s = setup_pageset 0 \<longrightarrow> mm_inv s)"
proof -
  obtain \<sigma>0 \<sigma>' where s: "zone_sizes_init \<sigma> low_pfn = Some \<sigma>'" "limits_ok \<sigma>0 ns ne" "zone_movable_pfn \<sigma>0 = movable_pfn ns low_pfn"
    "zs_map \<sigma>0 = sort_node_map (zs_map \<sigma>)" "zs_pgmd \<sigma>0 = zs_pgmd \<sigma>" "dma_reserve \<sigma>0 = dma_reserve \<sigma>" "node_zones \<sigma>0 = node_zones \<sigma>"
    "\<And>i. i < MAX_NR_ZONES \<Longrightarrow> zone_done \<sigma>0 ns ne \<sigma>' i" "zs_frames \<sigma>0 = (\<lambda>_. null_page)"
    "\<And>q. q < unat ns \<or> unat ne \<le> q \<Longrightarrow> zs_frames \<sigma>' q = null_page"
    by (rule zone_sizes_init_done [OF ok gr]) blast
  have "ne \<le> 0x38000" using ok order_trans by (fastforce simp: zone_setup_ok_def)
  then have ne: "unat ne \<le> 0x38000" by (simp add: word_le_unat)
  let ?B = "zone_bound ns ne (movable_pfn ns low_pfn)"
  have fr: "zs_frames \<sigma>' q = memmap_page i null_page" if "i < MAX_NR_ZONES" "unat (?B i) \<le> q" "q < unat (?B (i + 1))" for i q
    using s(8) [OF that(1)] that unfolding zone_done_def Let_def s(3,9) by blast
  have B: "?B 0 = ns" "?B MAX_NR_ZONES = ne" by (simp_all add: zone_bound_def MAX_NR_ZONES_def)
  have nb: "\<not> PageBuddy (zs_frames \<sigma>' q)" for q
  proof (cases "\<exists>i<MAX_NR_ZONES. unat (?B i) \<le> q \<and> q < unat (?B (i + 1))")
    case True
    then show ?thesis using fr memmap_page(6) by auto
  next
    case False
    then have st: "i < MAX_NR_ZONES \<Longrightarrow> unat (?B i) \<le> q \<Longrightarrow> unat (?B (i + 1)) \<le> q" for i by auto
    have "unat (?B 0) \<le> q \<Longrightarrow> unat (?B MAX_NR_ZONES) \<le> q" using st [of 0] st [of 1] st [of 2] by (simp add: MAX_NR_ZONES_def numeral_2_eq_2 numeral_3_eq_3)
    then have "zs_frames \<sigma>' q = null_page" using s(10) [of q] B by fastforce
    then show ?thesis by (simp add: null_page_def PageBuddy_def PAGE_BUDDY_MAPCOUNT_VALUE_def)
  qed
  have num: "zone_num (node_zones \<sigma>0 i) = i" "?B i = ?B (i + 1) \<Longrightarrow> empty_lists (node_zones \<sigma>0 i)" if "i < MAX_NR_ZONES" for i
    using ok that by (auto simp: zone_setup_ok_def s(7))
  note z = zone_done_inv [OF s(2) ne s(8) _ num(1) _ nb, unfolded s(3)]
  have "mm_inv t" if "mm_map t = zs_frames \<sigma>'" "mm_zones t = node_zones \<sigma>'" "mm_pcp t = setup_pageset 0" for t
    using that z(3,4) num(2) by (simp add: mm_inv_def pcp_idle_def setup_pageset_def)
  moreover have "let a = unat (?B i); b = unat (?B (i + 1)); z = node_zones \<sigma>' i
         in a \<le> b \<and> unat (spanned_pages z) = b - a \<and> (a < b \<longrightarrow> span z = {a..<b})
            \<and> unat (present_pages z) = present_count (unat (dma_reserve \<sigma>)) i (b - a) (card (holes (sort_node_map (zs_map \<sigma>)) a b))
            \<and> (\<forall>q\<in>{a..<b}. let p = zs_frames \<sigma>' q in page_zonenum p = i \<and> pg_count p = 1 \<and> test_page_flag PG_reserved p
                 \<and> 3 * block_of z q + 2 < 8 * unat (usemap_size (spanned_pages z))
                 \<and> (1024 dvd q \<longrightarrow> get_pageblock_migratetype z q = start_type (zs_pgmd \<sigma>)))" if i: "i < MAX_NR_ZONES" for i
    using realsize_nat(1,2) [OF s(2) i ne] z [OF i i i num(2) [OF i]] s(8) [OF i] fr [OF i] memmap_page [OF i]
    unfolding s(3-6) zone_done_def Let_def by auto
  ultimately show ?thesis using s(1) by blast
qed

text \<open>C6. The set-up of the zones, for memory below 896 MiB whose active regions lie between the frames \<open>ns\<close> and \<open>ne\<close>, when the boot
  allocator grants its requests: it returns, and the three zones tile the node. The movable zone is the last tenth of the last zone with
  memory, rounded to the largest block. Each zone has the counts of its frames and of the pages that are present, its page frames carry
  its number, the count 1 and the reserved mark, its bitmap has room for all its page blocks and gives them their first type. The state
  satisfies the invariant of the page allocator, which is what the properties of the allocator start from.\<close>

theorem zone_sizes_init_correct:
  assumes ok: "zone_setup_ok \<sigma> ns ne low_pfn" and gr: "boot_grants \<sigma> ns ne low_pfn"
  shows "\<exists>\<sigma>'. zone_sizes_init \<sigma> low_pfn = Some \<sigma>'
    \<and> (\<forall>i<MAX_NR_ZONES.
         let a = unat (zone_bound ns ne (movable_pfn ns low_pfn) i); b = unat (zone_bound ns ne (movable_pfn ns low_pfn) (i + 1)); z = node_zones \<sigma>' i
         in a \<le> b \<and> unat (spanned_pages z) = b - a \<and> (a < b \<longrightarrow> span z = {a..<b})
            \<and> unat (present_pages z) = present_count (unat (dma_reserve \<sigma>)) i (b - a) (card (holes (sort_node_map (zs_map \<sigma>)) a b))
            \<and> (\<forall>q\<in>{a..<b}. let p = zs_frames \<sigma>' q in page_zonenum p = i \<and> pg_count p = 1 \<and> test_page_flag PG_reserved p
                 \<and> 3 * block_of z q + 2 < 8 * unat (usemap_size (spanned_pages z))
                 \<and> (1024 dvd q \<longrightarrow> get_pageblock_migratetype z q = start_type (zs_pgmd \<sigma>))))
    \<and> (\<forall>s. mm_map s = zs_frames \<sigma>' \<and> mm_zones s = node_zones \<sigma>' \<and> mm_pcp s = setup_pageset 0 \<longrightarrow> mm_inv s)"
  by (rule zone_sizes_init_spec [OF assms])

definition example_setup :: node_setup where
  "example_setup = \<lparr>zs_map = [\<lparr>start_pfn = 1, end_pfn = 16, ar_nid = 0\<rparr>],
     zs_mb = \<lparr>current_limit = 0x100000, memory_size = 0,
       memory = \<lparr>cnt = 1, mb_max = 2, regions = [\<lparr>rg_base = 0x1000, rg_size = 0xF000\<rparr>, null_region, null_region]\<rparr>,
       reserved = \<lparr>cnt = 1, mb_max = 6, regions = [\<lparr>rg_base = 0xF000, rg_size = 0x1000\<rparr>, null_region, null_region, null_region, null_region, null_region, null_region]\<rparr>,
       init_done = True\<rparr>,
     zs_slab = False, zs_kzalloc = (\<lambda>_. 0), zs_pgmd = False, arch_zone_lowest_possible_pfn = (\<lambda>_. 0), arch_zone_highest_possible_pfn = (\<lambda>_. 0),
     zone_movable_pfn = 0, movable_zone = 0, dma_reserve = 0, nr_kernel_pages = 0, nr_all_pages = 0, highest_memmap_pfn = 0,
     node_zones = (\<lambda>j. example_zone\<lparr>zone_num := j\<rparr>), usemap = (\<lambda>_. 0), wait_table = (\<lambda>_. 0), wait_table_hash_nr_entries = (\<lambda>_. 0),
     wait_table_bits = (\<lambda>_. 0), nr_zones = 0, node_start_pfn = 0, node_spanned_pages = 0, node_present_pages = 0, node_mem_map = 0, mem_map_ptr = 0,
     zs_frames = (\<lambda>_. null_page)\<rparr>"

lemma example_sorted: "sort_node_map (zs_map example_setup) = zs_map example_setup"
proof -
  have "mset (sort_node_map (zs_map example_setup)) = mset (zs_map example_setup)" by (rule sort_node_map_sorted(1))
  then show ?thesis by (simp add: example_setup_def)
qed

lemma example_movable: "movable_pfn 1 16 = 4096"
  by code_simp

lemma example_wait: "wait_table_size 15 = 96"
proof -
  have "double_loop 0 1 = Some 1" by (subst double_loop.simps) simp
  then show ?thesis by (simp add: wait_table_size_def uu_wait_table_hash_nr_entries_def PAGES_PER_WAITQUEUE_def sizeof_wait_queue_head_def Let_def)
qed

lemma example_requests: "node_requests 1 16 16 = [0x8000, 4, 96]"
proof -
  have "mem_map_size 1 16 = 0x8000" "usemap_size 15 = 4" by code_simp+
  then show ?thesis by (simp add: node_requests_def example_movable zone_bound_def MAX_NR_ZONES_def upt_rec zone_requests_def example_wait)
qed

lemma example_ptrs: "boot_ptrs example_setup [0x8000, 4, 96] = [0xC0007000, 0xC0006FE0, 0xC0006F80]"
  by code_simp

theorem zone_sizes_init_correct_witness:
  "\<exists>\<sigma>'. zone_sizes_init example_setup 16 = Some \<sigma>' \<and> span (node_zones \<sigma>' 0) = {1..<16} \<and> present_pages (node_zones \<sigma>' 0) = 14
     \<and> page_zonenum (zs_frames \<sigma>' 7) = 0"
proof -
  have z: "zs_map example_setup = [\<lparr>start_pfn = 1, end_pfn = 16, ar_nid = 0\<rparr>]" by (simp add: example_setup_def)
  have ok: "zone_setup_ok example_setup 1 16 16"
    unfolding zone_setup_ok_def example_sorted
    by (simp add: z map_ok_def in_order_def) (simp add: example_setup_def empty_lists_def example_zone_def)
  have self: "example_setup\<lparr>zs_map := zs_map example_setup\<rparr> = example_setup" by simp
  have "mem_map_size 1 16 = 0x8000" by code_simp
  then have gr: "boot_grants example_setup 1 16 16"
    unfolding boot_grants_def example_sorted self example_requests example_ptrs by (simp add: PAGE_OFFSET_def)
  have h: "holes [\<lparr>start_pfn = 1, end_pfn = 16, ar_nid = 0\<rparr>] (unat (1 :: ulong)) (unat (16 :: ulong)) = {}" by (auto simp: holes_def in_region_def)
  have b: "zone_bound 1 16 (movable_pfn 1 16) 0 = 1" "zone_bound 1 16 (movable_pfn 1 16) (0 + 1) = 16" by (simp_all add: zone_bound_def example_movable)
  obtain \<sigma>' where s: "zone_sizes_init example_setup 16 = Some \<sigma>'"
    "\<And>i. i < MAX_NR_ZONES \<Longrightarrow>
         let a = unat (zone_bound 1 16 (movable_pfn 1 16) i); b = unat (zone_bound 1 16 (movable_pfn 1 16) (i + 1)); z = node_zones \<sigma>' i
         in a \<le> b \<and> unat (spanned_pages z) = b - a \<and> (a < b \<longrightarrow> span z = {a..<b})
            \<and> unat (present_pages z) = present_count (unat (dma_reserve example_setup)) i (b - a) (card (holes (sort_node_map (zs_map example_setup)) a b))
            \<and> (\<forall>q\<in>{a..<b}. let p = zs_frames \<sigma>' q in page_zonenum p = i \<and> pg_count p = 1 \<and> test_page_flag PG_reserved p
                 \<and> 3 * block_of z q + 2 < 8 * unat (usemap_size (spanned_pages z))
                 \<and> (1024 dvd q \<longrightarrow> get_pageblock_migratetype z q = start_type (zs_pgmd example_setup)))"
    using zone_sizes_init_correct [OF ok gr] by blast
  have d: "dma_reserve example_setup = 0" by (simp add: example_setup_def)
  have "span (node_zones \<sigma>' 0) = {1..<16}" "unat (present_pages (node_zones \<sigma>' 0)) = 14" "page_zonenum (zs_frames \<sigma>' 7) = 0"
    using s(2) [of 0] unfolding Let_def b example_sorted unfolding z d h
    by (auto simp: present_count_def MAX_NR_ZONES_def Let_def)
  then show ?thesis using s(1) by (auto simp: word_eq_unat)
qed

end
