(* ===== verification/Spec2Isabelle.thy ===== *)
theory Spec2Isabelle
  imports Kernel_Util List_Head Heap_Sort Range Memblock Early_Node_Map Free_Ranges Nobootmem E820 Page_Frame Buddy Page_Alloc I8259 Irq_Core
    String_Lib Slab_Sizes Page_Source Slub Slub_Inv Slub_Alloc Slub_Heap Slub_Deactivate Paging Zone_Init
begin

text \<open>
  Verification of the Xc kernel, a small 32-bit x86 kernel in C that follows the structure of Linux. The kernel boots, learns the memory
  of the machine, builds its page tables, brings up a page allocator and a slab allocator, and serves the interrupts of the two 8259A
  controllers. The scheduler and the creation of processes are not finished in the source and are not part of the build.

  \<^bold>\<open>Conventions.\<close> The kernel is built for i386 with one processor and one memory node: \<^verbatim>\<open>unsigned long\<close> is a 32-bit word,
  \<^verbatim>\<open>phys_addr_t\<close> a 64-bit word, and arithmetic on them wraps around. Structures are records, enumerations are numbers with the
  names of the source, and every function of the source is a definition with its name (\<open>uu_\<close> and \<open>uuu_\<close> stand for two and three
  leading underscores). State is passed explicitly. A result \<open>None\<close> is a panic, an access through a bad pointer, or a loop that does
  not end; where the source may loop for ever the definition is a \<^verbatim>\<open>partial_function (option)\<close>, and the theorems show that a result
  exists. All other loops are total functions with a termination proof, hence no fuel is used anywhere. Locks and the interrupt flag
  are not part of the state, except where they are counted.

  \<^bold>\<open>The boot phase\<close>, in the order in which \<^verbatim>\<open>start_kernel\<close> (\<^verbatim>\<open>kernel/init.c\<close>) runs it.
  \<^item> \<open>E820\<close>: \<^verbatim>\<open>kernel/e820.c\<close>. The memory map of the firmware is turned into an ordered map without overlaps
    (\<open>sanitize_e820_map\<close>), fed to the region allocator (\<open>memblock_x86_fill\<close>), and gives the end of memory.
  \<^item> \<open>Memblock\<close>: \<^verbatim>\<open>mm/memblock.c\<close>. Two arrays of regions, memory and reserved memory. The specification is the set of addresses
    of an array; adding a region refines the insertion of an interval into an ascending sequence, and the search for free memory is
    sound and complete. The locale \<open>region_store\<close> is the contract of such an array.
  \<^item> \<open>Paging\<close>: \<^verbatim>\<open>mm/init_32.c\<close>. \<open>init_memory_mapping\<close> builds the page tables of the direct mapping. The walk of the processor
    through the tables is modelled as \<open>translate\<close>, and the theorem says that it yields the direct mapping.
  \<^item> \<open>Early_Node_Map\<close>, \<open>Free_Ranges\<close>: the active page frame ranges of \<^verbatim>\<open>mm/page_alloc.c\<close> and their computation from the
    region arrays, and the ranges that are free at the end of booting.
  \<^item> \<open>Nobootmem\<close>: \<^verbatim>\<open>mm/nobootmem.c\<close>. Runs of requests of the boot phase (\<open>boot_run\<close>) reserve exactly what
    they return, areas that do not overlap, and fail only when no area fits; each free page is handed to the page allocator once.
  \<^item> \<open>Zone_Init\<close>: \<^verbatim>\<open>zone_sizes_init\<close> (\<^verbatim>\<open>mm/init_32.c\<close>) and the part of \<^verbatim>\<open>mm/page_alloc.c\<close> below it. The zones tile the memory,
    and the state they start in satisfies the invariant of the page allocator.

  \<^bold>\<open>The page allocator\<close> of \<^verbatim>\<open>mm/page_alloc.c\<close>.
  \<^item> \<open>Page_Frame\<close>: \<^verbatim>\<open>struct page\<close>, its flags, and the bitmap of migrate types of a zone.
  \<^item> \<open>Buddy\<close>: the free lists of a zone. The invariant \<open>buddy_inv\<close> ties the lists to the marks in the page frames and forbids two
    free buddies; freeing and allocating keep it and change the set of free pages by exactly the block.
  \<^item> \<open>Page_Alloc\<close>: checks, per-CPU lists, watermarks, zone lists and the interface of the allocator. The step relation \<open>page_step\<close>
    has the plain requests (\<open>plain_request\<close>: without \<^verbatim>\<open>__GFP_ZERO\<close> and with at most one mobility flag) and the releases of all
    clients; blocks in use never overlap and are never free, in every reachable state. The other requests are modelled, but they
    overwrite page descriptors (\<open>zeroed_page_lost\<close>) or index the per-CPU lists out of bounds, and no state is safe after them.
  \<^item> \<open>Page_Source\<close>: the allocator as its clients see it, the locale \<open>block_source\<close>, interpreted on \<open>uu_alloc_pages_nodemask\<close> and
    \<open>uu_free_pages\<close>. The slab allocator rests on it.

  \<^bold>\<open>The slab allocator\<close> \<^verbatim>\<open>mm/slub.c\<close>.
  \<^item> \<open>Slab_Sizes\<close>: the sizes, orders and alignments of a cache.
  \<^item> \<open>Slub\<close>: state and operations. The lists of free objects lie in the memory of the objects themselves (\<open>String_Lib\<close>).
  \<^item> \<open>Slub_Inv\<close>, \<open>Slub_Alloc\<close>, \<open>Slub_Deactivate\<close>: the invariant and the effect of each operation on it.
  \<^item> \<open>Slub_Heap\<close>: every run of the allocator and its clients is a run of an abstract heap (\<open>heap_step\<close>) in which objects do not
    overlap and keep their contents; allocation, release (with the exact condition under which an emptied slab goes back to the page
    allocator), \<open>kmalloc\<close>, and the release that never returns.

  \<^bold>\<open>Interrupts.\<close>
  \<^item> \<open>I8259\<close>: \<^verbatim>\<open>kernel/i8259.c\<close> as sequences of port writes, against an automaton of the two controllers. What a port read
    returns is the parameter \<open>inb\<close>; only \<open>mask_and_ack_correct\<close> needs a hypothesis on it, that a controller returns its in-service
    register when it is asked for it (\<open>reads_isr\<close>, which \<open>isr_reader\<close> satisfies).
  \<^item> \<open>Irq_Core\<close>: \<^verbatim>\<open>kernel/irq/*.c\<close>, \<^verbatim>\<open>kernel/irqinit.c\<close>, \<^verbatim>\<open>kernel/irq.c\<close>, \<^verbatim>\<open>kernel/softirq.c\<close>. The step relation \<open>irq_step\<close> has
    the set-up of handlers, disabling, enabling and interrupts; the depth of a line, its marks and the masks of the controllers agree
    in every reachable state. The result of a device driver is the parameter \<open>drv\<close>; the calls of the drivers are recorded by the loop
    over the actions of a line (\<open>percpu_loop\<close>). Whether a handler fits a line is specified on the bits of its flags (\<open>fits\<close>).

  \<^bold>\<open>Utilities.\<close> \<open>Xc_Prelude\<close> has the types and shared facts; \<open>Kernel_Util\<close> rounding and bit searches; \<open>List_Head\<close> the linked
  lists, whose operations refine operations on sequences (locale \<open>list_api\<close>, interpreted as \<open>links\<close>); \<open>Heap_Sort\<close> the heapsort of
  \<^verbatim>\<open>lib/sort.c\<close> on the bytes of memory, with 32-bit counters and both default swap functions, correct up to \<open>2 ^ 30\<close> bytes for every
  comparator that satisfies the locale \<open>comparator\<close>, interpreted for the two comparators of the kernel (\<open>range_order\<close>, \<open>node_order\<close>);
  the locale \<open>sort_setting\<close> carries the result over to an array of structures and is interpreted for the two arrays that the kernel
  sorts (\<open>range_array\<close>, \<open>node_array\<close>); \<open>Range\<close> the range arrays of \<^verbatim>\<open>kernel/range.c\<close>; \<open>String_Lib\<close> the memory routines.

  \<^bold>\<open>Hypotheses.\<close> Theorems on words carry the bounds under which nothing overflows, e.g. memory below 896 MiB for the direct mapping
  and the zones. Code that is not in C, and values that the linker defines (\<^verbatim>\<open>_text\<close>, \<^verbatim>\<open>_edata\<close>, \<^verbatim>\<open>swapper_pg_dir\<close>), are
  parameters. Where the source does not do what it means to, the model does what the source does, and a lemma states the difference:
  for instance \<open>Slub_Heap.kfree_never_returns\<close>, \<open>Page_Alloc.zeroed_page_lost\<close>, \<open>Page_Alloc.bootmem_pages_refused\<close>,
  \<open>Irq_Core.setup_irq_null\<close>.

  \<^bold>\<open>Not modelled.\<close>
  \<^item> \<^verbatim>\<open>setup/*\<close>, \<^verbatim>\<open>kernel/head_32.S\<close>, \<^verbatim>\<open>kernel/entry_32.S\<close>: real-mode and assembly code.
  \<^item> \<^verbatim>\<open>kernel/sched.c\<close>: all but the empty \<^verbatim>\<open>schedule\<close> is inside \<^verbatim>\<open>#if 0\<close> or comments. \<^verbatim>\<open>kernel/sched_fair.c\<close>, \<^verbatim>\<open>kernel/fork.c\<close>,
    \<^verbatim>\<open>kernel/process.c\<close>, \<^verbatim>\<open>kernel/process_32.c\<close>, \<^verbatim>\<open>lib/rbtree.c\<close>, \<^verbatim>\<open>mm/pgtable.c\<close> are not in the Makefiles and do not compile:
    they call functions that do not exist and have misspelled names, so that they have no meaning to model.
  \<^item> \<^verbatim>\<open>kernel/printk.c\<close>: \<^verbatim>\<open>printk\<close> does nothing, and the screen output is one block of assembly.
  \<^item> \<^verbatim>\<open>kernel/time.c\<close>, \<^verbatim>\<open>lib/delay.c\<close> and the calibration in \<^verbatim>\<open>kernel/init.c\<close> measure time; only the installation of the timer handler
    is modelled, in \<open>Irq_Core\<close>.
  \<^item> Descriptor tables and segments (\<^verbatim>\<open>include/asm/desc.h\<close>, \<^verbatim>\<open>include/asm/segment.h\<close>, \<^verbatim>\<open>kernel/cpu/common.c\<close>, \<^verbatim>\<open>kernel/traps.c\<close>): loading
    of processor registers.
\<close>

end
